(* ===== verification/Xv6_Prelude.thy ===== *)
theory Xv6_Prelude
  imports "HOL-Library.Word"
begin

text \<open>
  Shared vocabulary of the development: the machine integers of \<^verbatim>\<open>types.h\<close>, the constants of
  \<^verbatim>\<open>param.h\<close>, \<^verbatim>\<open>memlayout.h\<close> and \<^verbatim>\<open>mmu.h\<close> that several components use, the type of faults a
  kernel function may end in, a bind for fallible results, and the library of singly linked
  lists in memory on which the allocators, the hash chains and the queues of the kernel rest.

  Pointers are 32-bit words and \<open>0\<close> is the null pointer.  The memory of a structure type is kept
  as one function per field from the address of the structure to the value of the field, so
  that writes to different fields never interfere and writes to the same field interfere
  exactly at equal addresses.
\<close>

unbundle bit_operations_syntax

section \<open>Machine integers and constants\<close>

type_synonym u8 = "8 word"
type_synonym u16 = "16 word"
type_synonym u32 = "32 word"

abbreviation (input) PGSIZE :: "'a::numeral" where
  "PGSIZE \<equiv> 4096"

abbreviation (input) KERNBASE :: "u32" where
  "KERNBASE \<equiv> 0x80000000"

abbreviation (input) PHYSTOP :: "u32" where
  "PHYSTOP \<equiv> 0xE000000"

abbreviation (input) NOFILE :: nat where
  "NOFILE \<equiv> 16"

abbreviation (input) NFILE :: nat where
  "NFILE \<equiv> 100"

abbreviation (input) ROOTDEV :: u32 where
  "ROOTDEV \<equiv> 1"

abbreviation (input) NVMEDEV :: u32 where
  "NVMEDEV \<equiv> 2"

definition V2P :: "u32 \<Rightarrow> u32" where
  "V2P a = a - KERNBASE"

definition P2V :: "u32 \<Rightarrow> u32" where
  "P2V a = a + KERNBASE"

definition PGROUNDUP :: "u32 \<Rightarrow> u32" where
  "PGROUNDUP sz = (sz + PGSIZE - 1) AND NOT (PGSIZE - 1)"

definition PGROUNDDOWN :: "u32 \<Rightarrow> u32" where
  "PGROUNDDOWN a = a AND NOT (PGSIZE - 1)"

section \<open>Faults and fallible results\<close>

text \<open>
  A kernel function returns, calls \<open>panic\<close> with a message, goes through a null pointer or past
  the end of an array (\<open>Wild\<close>), or loops for ever (\<open>Hang\<close>).
\<close>

datatype fault = Panic string | Wild | Hang

type_synonym 'a result = "fault + 'a"

definition bindE :: "'a result \<Rightarrow> ('a \<Rightarrow> 'b result) \<Rightarrow> 'b result" where
  "bindE m f = (case m of Inl e \<Rightarrow> Inl e | Inr x \<Rightarrow> f x)"

lemma bindE_Inl [simp]: "bindE (Inl e) f = Inl e"
  by (simp add: bindE_def)

lemma bindE_Inr [simp]: "bindE (Inr x) f = f x"
  by (simp add: bindE_def)

lemma bindE_eq_Inr [simp]: "bindE m f = Inr y \<longleftrightarrow> (\<exists>x. m = Inr x \<and> f x = Inr y)"
  by (cases m) auto

lemma bindE_eq_Inl: "bindE m f = Inl e \<longleftrightarrow> m = Inl e \<or> (\<exists>x. m = Inr x \<and> f x = Inl e)"
  by (cases m) auto

lemma bindE_cong: "m = m' \<Longrightarrow> (\<And>x. m' = Inr x \<Longrightarrow> f x = f' x) \<Longrightarrow> bindE m f = bindE m' f'"
  by (cases m') auto

lemma bindE_assoc: "bindE (bindE m f) g = bindE m (\<lambda>x. bindE (f x) g)"
  by (cases m) auto

text \<open>Reading an element of a C array of known size; an index out of range is \<open>Wild\<close>.\<close>

definition aget :: "'a list \<Rightarrow> nat \<Rightarrow> 'a result" where
  "aget xs i = (if i < length xs then Inr (xs ! i) else Inl Wild)"

definition aset :: "'a list \<Rightarrow> nat \<Rightarrow> 'a \<Rightarrow> 'a list result" where
  "aset xs i v = (if i < length xs then Inr (xs[i := v]) else Inl Wild)"

lemma aget_Inr [simp]: "i < length xs \<Longrightarrow> aget xs i = Inr (xs ! i)"
  by (simp add: aget_def)

lemma aset_Inr [simp]: "i < length xs \<Longrightarrow> aset xs i v = Inr (xs[i := v])"
  by (simp add: aset_def)

text \<open>Reading a field through a pointer; the null pointer is \<open>Wild\<close>.\<close>

definition deref :: "(u32 \<Rightarrow> 'a) \<Rightarrow> u32 \<Rightarrow> 'a result" where
  "deref f p = (if p = 0 then Inl Wild else Inr (f p))"

lemma deref_nonnull [simp]: "p \<noteq> 0 \<Longrightarrow> deref f p = Inr (f p)"
  by (simp add: deref_def)

lemma deref_null [simp]: "deref f 0 = Inl Wild"
  by (simp add: deref_def)

lemma deref_eq_Inr: "deref f p = Inr v \<longleftrightarrow> p \<noteq> 0 \<and> v = f p"
  by (auto simp: deref_def)

text \<open>A \<^verbatim>\<open>for\<close> loop over a list of indices whose body may fail.\<close>

fun foldE :: "('i \<Rightarrow> 's \<Rightarrow> 's result) \<Rightarrow> 'i list \<Rightarrow> 's \<Rightarrow> 's result" where
  "foldE f [] s = Inr s"
| "foldE f (i # is) s = bindE (f i s) (foldE f is)"

lemma foldE_append: "foldE f (xs @ ys) s = bindE (foldE f xs s) (foldE f ys)"
proof (induction xs arbitrary: s)
  case (Cons x xs)
  then show ?case by (cases "f x s") auto
qed simp

text \<open>The rule for such loops: an invariant indexed by the number of turns.\<close>

lemma foldE_upt:
  assumes "P 0 s" and "\<And>i s. i < n \<Longrightarrow> P i s \<Longrightarrow> \<exists>s'. f i s = Inr s' \<and> P (Suc i) s'"
  shows "\<exists>s'. foldE f [0..<n] s = Inr s' \<and> P n s'"
  using assms(2)
proof (induction n)
  case 0
  then show ?case using assms(1) by simp
next
  case (Suc n)
  then obtain t where "foldE f [0..<n] s = Inr t" "P n t" by (meson less_SucI)
  with Suc.prems [of n t] show ?case by (auto simp: foldE_append)
qed

section \<open>Singly linked lists in memory\<close>

text \<open>
  \<open>chain nx p xs\<close>: following the field \<open>nx\<close> from \<open>p\<close> visits exactly the nodes \<open>xs\<close> and then
  reaches the null pointer.
\<close>

fun chain :: "(u32 \<Rightarrow> u32) \<Rightarrow> u32 \<Rightarrow> u32 list \<Rightarrow> bool" where
  "chain nx p [] \<longleftrightarrow> p = 0"
| "chain nx p (x # xs) \<longleftrightarrow> p \<noteq> 0 \<and> p = x \<and> chain nx (nx p) xs"

lemma chain_null [simp]: "chain nx 0 xs \<longleftrightarrow> xs = []"
  by (cases xs) auto

lemma chain_nonnull: "p \<noteq> 0 \<Longrightarrow> chain nx p xs \<longleftrightarrow> (\<exists>ys. xs = p # ys \<and> chain nx (nx p) ys)"
  by (cases xs) auto

lemma chain_fun_upd [simp]: "a \<notin> set xs \<Longrightarrow> chain (nx(a := v)) p xs \<longleftrightarrow> chain nx p xs"
  by (induction xs arbitrary: p) auto

lemma chain_cong: "(\<And>a. a \<in> set xs \<Longrightarrow> f a = g a) \<Longrightarrow> chain f p xs \<longleftrightarrow> chain g p xs"
  by (induction xs arbitrary: p) auto

lemma chain_functional: "chain nx p xs \<Longrightarrow> chain nx p ys \<Longrightarrow> xs = ys"
proof (induction xs arbitrary: p ys)
  case Nil
  then show ?case by simp
next
  case (Cons x xs)
  then show ?case by (cases ys) auto
qed

lemma chain_null_notin: "chain nx p xs \<Longrightarrow> 0 \<notin> set xs"
  by (induction xs arbitrary: p) auto

lemma chain_suffix: "chain nx p (xs @ y # ys) \<Longrightarrow> y \<noteq> 0 \<and> chain nx (nx y) ys"
  by (induction xs arbitrary: p) auto

lemma chain_distinct: "chain nx p xs \<Longrightarrow> distinct xs"
proof (induction xs arbitrary: p)
  case Nil
  then show ?case by simp
next
  case (Cons x xs)
  then have tail: "chain nx (nx x) xs" by auto
  have "x \<notin> set xs"
  proof
    assume "x \<in> set xs"
    then obtain us vs where xs: "xs = us @ x # vs" by (meson split_list)
    with tail have "chain nx (nx x) vs" by (auto dest: chain_suffix)
    with tail have "xs = vs" by (rule chain_functional)
    with xs show False by simp
  qed
  with Cons.IH [OF tail] show ?case by simp
qed

lemma chain_push: "chain nx p xs \<Longrightarrow> a \<noteq> 0 \<Longrightarrow> a \<notin> set xs \<Longrightarrow> chain (nx(a := p)) a (a # xs)"
  by simp

lemma chain_upd_head:
  "chain nx q xs \<Longrightarrow> y \<noteq> 0 \<Longrightarrow> y \<notin> set xs \<Longrightarrow> chain (nx(y := q)) y (y # xs)"
  by simp

lemma chain_unlink:
  "chain nx p (xs @ y # z # zs) \<Longrightarrow> chain (nx(y := nx z)) p (xs @ y # zs)"
proof (induction xs arbitrary: p)
  case Nil
  then have *: "y \<notin> set zs" "p = y" "y \<noteq> 0" "chain nx (nx z) zs"
    using chain_distinct by fastforce+
  have "chain (nx(y := nx z)) y (y # zs)"
    using *(4,3,1) by (rule chain_upd_head)
  with *(2) show ?case by (simp only: append_Nil)
next
  case (Cons x xs)
  then have "distinct (x # xs @ y # z # zs)" using chain_distinct by fastforce
  with Cons show ?case by auto
qed

lemma chain_remove:
  assumes "chain nx p (us @ b # vs)"
  shows "if us = [] then chain nx (nx b) vs
         else chain (nx(last us := nx b)) p (us @ vs)"
proof (cases us rule: rev_cases)
  case Nil
  with assms show ?thesis by auto
next
  case (snoc ws w)
  with assms chain_unlink [of nx p ws w b vs] show ?thesis by simp
qed

lemma chain_empty_iff: "chain nx p xs \<Longrightarrow> xs = [] \<longleftrightarrow> p = 0"
  by (cases xs) auto

text \<open>
  The search loop that the kernel writes again and again:
  \<^verbatim>\<open>while(cur){ if(P(cur)) ...; prev = cur; cur = cur->next; }\<close>.
  The result is the node found (null when there is none) with its predecessor in the walk.  The
  loop does not change the list, so coming back to a node already visited means that it never
  ends: that is the answer \<open>Hang\<close>, and the recursion itself is total because there are finitely
  many addresses.
\<close>

function find_node :: "(u32 \<Rightarrow> u32) \<Rightarrow> (u32 \<Rightarrow> bool) \<Rightarrow> u32 \<Rightarrow> u32 \<Rightarrow> u32 list \<Rightarrow> (u32 \<times> u32) result"
where
  "find_node nx P prev cur seen =
     (if cur = 0 then Inr (prev, 0)
      else if P cur then Inr (prev, cur)
      else if cur \<in> set seen then Inl Hang
      else find_node nx P cur (nx cur) (cur # seen))"
  by pat_completeness auto
termination
proof (relation "measure (\<lambda>(nx, P, prev, cur, seen). card (UNIV - set seen))", goal_cases)
  case 1
  show ?case by simp
next
  case (2 nx P prev cur seen)
  have "card (UNIV - set (cur # seen)) < card (UNIV - set seen)"
    using 2 by (intro psubset_card_mono) auto
  then show ?case by simp
qed

declare find_node.simps [simp del]

lemma find_node_null [simp]: "find_node nx P prev 0 seen = Inr (prev, 0)"
  by (subst find_node.simps) simp

lemma find_node_hit: "cur \<noteq> 0 \<Longrightarrow> P cur \<Longrightarrow> find_node nx P prev cur seen = Inr (prev, cur)"
  by (subst find_node.simps) simp

lemma find_node_miss:
  "cur \<noteq> 0 \<Longrightarrow> \<not> P cur \<Longrightarrow> cur \<notin> set seen \<Longrightarrow>
   find_node nx P prev cur seen = find_node nx P cur (nx cur) (cur # seen)"
  by (subst find_node.simps) simp

lemma find_node_absent:
  "chain nx cur xs \<Longrightarrow> set xs \<inter> set seen = {} \<Longrightarrow> (\<And>x. x \<in> set xs \<Longrightarrow> \<not> P x) \<Longrightarrow>
   find_node nx P prev cur seen = Inr (last (prev # xs), 0)"
proof (induction xs arbitrary: prev cur seen)
  case Nil
  then show ?case by simp
next
  case (Cons x xs)
  have "x \<notin> set xs" using chain_distinct [OF Cons.prems(1)] by simp
  then have "find_node nx P x (nx x) (x # seen) = Inr (last (x # xs), 0)"
    using Cons.prems by (intro Cons.IH) auto
  moreover have "find_node nx P prev cur seen = find_node nx P x (nx x) (x # seen)"
    using Cons.prems by (auto simp: find_node_miss)
  ultimately show ?case by simp
qed

lemma find_node_present:
  "chain nx cur (xs @ y # ys) \<Longrightarrow> (set xs \<union> {y}) \<inter> set seen = {} \<Longrightarrow>
   (\<And>x. x \<in> set xs \<Longrightarrow> \<not> P x) \<Longrightarrow> P y \<Longrightarrow>
   find_node nx P prev cur seen = Inr (last (prev # xs), y)"
proof (induction xs arbitrary: prev cur seen)
  case Nil
  then show ?case by (auto simp: find_node_hit)
next
  case (Cons x xs)
  have "x \<notin> set xs \<union> {y}" using chain_distinct [OF Cons.prems(1)] by simp
  then have "find_node nx P x (nx x) (x # seen) = Inr (last (x # xs), y)"
    using Cons.prems by (intro Cons.IH) auto
  moreover have "find_node nx P prev cur seen = find_node nx P x (nx x) (x # seen)"
    using Cons.prems by (auto simp: find_node_miss)
  ultimately show ?case by simp
qed

section \<open>Lists and words\<close>

text \<open>Update of a range of bytes, the effect of \<open>memset\<close> on memory.\<close>

definition fill :: "(u32 \<Rightarrow> u8) \<Rightarrow> u32 \<Rightarrow> u8 \<Rightarrow> nat \<Rightarrow> u32 \<Rightarrow> u8" where
  "fill m p c n = (\<lambda>a. if unat (a - p) < n then c else m a)"

lemma word_of_nat_diff_mult: "n \<le> m \<Longrightarrow> (of_nat m - of_nat n :: 'a::len word) = of_nat (m - n)"
  by simp

lemma unat_of_nat_small: "n < 2 ^ LENGTH('a) \<Longrightarrow> unat (of_nat n :: 'a::len word) = n"
  by (simp add: unat_of_nat take_bit_nat_eq_self)

lemma unat_u32_less: "unat (w :: u32) < 4294967296"
  using unsigned_less [of w] by simp

lemma unat_u32_add: "unat p + unat q < 4294967296 \<Longrightarrow> unat (p + q :: u32) = unat p + unat q"
  by (simp add: unat_word_ariths)

lemma unat_u32_of_nat: "n < 4294967296 \<Longrightarrow> unat (of_nat n :: u32) = n"
  by (rule unat_of_nat_small) simp

lemma and_not_mask_eq: "(w :: 'a::len word) AND NOT (mask n) = push_bit n (drop_bit n w)"
  by (rule bit_word_eqI) (auto simp: bit_simps)

end
