(* ===== verification/Kalloc.thy ===== *)
theory Kalloc
  imports Xv6_Prelude
begin

text \<open>
  The page allocator of \<^verbatim>\<open>kalloc.c\<close>: a free list of 4096-byte pages threaded through the pages
  themselves.  The state is the structure \<^verbatim>\<open>kmem\<close> (its lock serialises the operations and is
  not represented), the \<open>next\<close> field of \<^verbatim>\<open>struct run\<close> and the bytes of memory, which
  \<^verbatim>\<open>kfree\<close> fills with junk.  The linker symbol \<^verbatim>\<open>end\<close> is a parameter.
\<close>

record kmem =
  freelist :: u32
  run_next :: "u32 \<Rightarrow> u32"
  use_lock :: bool
  bytes :: "u32 \<Rightarrow> u8"

definition kfree :: "u32 \<Rightarrow> u32 \<Rightarrow> kmem \<Rightarrow> kmem result" where
  "kfree kend v s =
     (if v mod PGSIZE \<noteq> 0 \<or> v < kend \<or> V2P v \<ge> PHYSTOP then Inl (Panic ''kfree'')
      else Inr (s\<lparr>bytes := fill (bytes s) v 1 PGSIZE,
                  run_next := (run_next s)(v := freelist s),
                  freelist := v\<rparr>))"

definition kalloc :: "kmem \<Rightarrow> u32 \<times> kmem" where
  "kalloc s =
     (let r = freelist s in
      (r, if r \<noteq> 0 then s\<lparr>freelist := run_next s r\<rparr> else s))"

text \<open>
  The loop of \<^verbatim>\<open>freerange\<close>.  The pointer sum \<open>p + PGSIZE\<close> is compared as a number: a sum past the
  end of the address space is undefined in C, and the callers pass ends below it.
\<close>

function freerange_loop :: "u32 \<Rightarrow> u32 \<Rightarrow> u32 \<Rightarrow> kmem \<Rightarrow> kmem result" where
  "freerange_loop kend p vend s =
     (if unat p + PGSIZE \<le> unat vend
      then bindE (kfree kend p s) (freerange_loop kend (p + PGSIZE) vend)
      else Inr s)"
  by pat_completeness auto
termination
proof (relation "measure (\<lambda>(kend, p, vend, s). unat vend - unat p)", goal_cases)
  case 1
  show ?case by simp
next
  case (2 kend p vend s s')
  have "unat (p + PGSIZE) = unat p + PGSIZE"
    using 2 unat_u32_less [of vend] by (subst unat_u32_add) auto
  with 2 show ?case by simp
qed

declare freerange_loop.simps [simp del]

definition freerange :: "u32 \<Rightarrow> u32 \<Rightarrow> u32 \<Rightarrow> kmem \<Rightarrow> kmem result" where
  "freerange kend vstart vend s = freerange_loop kend (PGROUNDUP vstart) vend s"

definition kinit1 :: "u32 \<Rightarrow> u32 \<Rightarrow> u32 \<Rightarrow> kmem \<Rightarrow> kmem result" where
  "kinit1 kend vstart vend s = freerange kend vstart vend (s\<lparr>use_lock := False\<rparr>)"

definition kinit2 :: "u32 \<Rightarrow> u32 \<Rightarrow> u32 \<Rightarrow> kmem \<Rightarrow> kmem result" where
  "kinit2 kend vstart vend s =
     bindE (freerange kend vstart vend s) (\<lambda>s'. Inr (s'\<lparr>use_lock := True\<rparr>))"

section \<open>The free list\<close>

definition free_page :: "u32 \<Rightarrow> u32 \<Rightarrow> bool" where
  "free_page kend v \<longleftrightarrow> v mod PGSIZE = 0 \<and> kend \<le> v \<and> V2P v < PHYSTOP"

definition kmem_pages :: "u32 \<Rightarrow> kmem \<Rightarrow> u32 list \<Rightarrow> bool" where
  "kmem_pages kend s ps \<longleftrightarrow>
     chain (run_next s) (freelist s) ps \<and> (\<forall>p \<in> set ps. free_page kend p)"

lemma kfree_ok:
  assumes "kmem_pages kend s ps" and "free_page kend v" and "v \<noteq> 0" and "v \<notin> set ps"
  shows "\<exists>s'. kfree kend v s = Inr s' \<and> kmem_pages kend s' (v # ps)"
  using assms by (auto simp: kfree_def kmem_pages_def free_page_def)

lemma kalloc_ok:
  assumes "kmem_pages kend s ps"
  shows "case ps of
      [] \<Rightarrow> kalloc s = (0, s)
    | p # qs \<Rightarrow> \<exists>s'. kalloc s = (p, s') \<and> p \<noteq> 0 \<and> p \<notin> set qs \<and> kmem_pages kend s' qs"
proof (cases ps)
  case Nil
  with assms show ?thesis by (simp add: kalloc_def kmem_pages_def)
next
  case (Cons p qs)
  with assms chain_distinct [of "run_next s" "freelist s" ps] show ?thesis
    by (auto simp: kalloc_def kmem_pages_def)
qed

text \<open>The pages that \<^verbatim>\<open>freerange\<close> frees, in the order of the loop.\<close>

definition range_pages :: "u32 \<Rightarrow> u32 \<Rightarrow> u32 list" where
  "range_pages p vend = map (\<lambda>i. p + of_nat (i * PGSIZE)) [0..<(unat vend - unat p) div PGSIZE]"

lemma range_pages_step:
  assumes "unat p + PGSIZE \<le> unat vend"
  shows "range_pages p vend = p # range_pages (p + PGSIZE) vend"
proof -
  have up: "unat (p + PGSIZE) = unat p + PGSIZE"
    using assms unat_u32_less [of vend] by (subst unat_u32_add) auto
  have n: "(unat vend - unat p) div PGSIZE = Suc ((unat vend - unat (p + PGSIZE)) div PGSIZE)"
    using assms by (simp add: up le_div_geq)
  show ?thesis
    unfolding range_pages_def n upt_conv_Cons [OF zero_less_Suc] map_Suc_upt [symmetric]
    by (simp add: algebra_simps comp_def)
qed

lemma range_pages_stop: "\<not> unat p + PGSIZE \<le> unat vend \<Longrightarrow> range_pages p vend = []"
  by (simp add: range_pages_def)

lemma range_pages_above: "q \<in> set (range_pages p vend) \<Longrightarrow> unat p \<le> unat q"
proof -
  assume "q \<in> set (range_pages p vend)"
  then obtain i where i: "i < (unat vend - unat p) div PGSIZE" and q: "q = p + of_nat (i * PGSIZE)"
    by (auto simp: range_pages_def)
  have "(i + 1) * PGSIZE \<le> unat vend - unat p"
    using i by (metis Suc_eq_plus1 Suc_leI less_eq_div_iff_mult_less_eq zero_less_numeral)
  then have le: "unat p + i * PGSIZE < 4294967296" using unat_u32_less [of vend] by simp
  then have i: "unat (of_nat (i * PGSIZE) :: u32) = i * PGSIZE"
    by (intro unat_u32_of_nat) linarith
  have "unat q = unat p + i * PGSIZE"
    unfolding q using le by (subst unat_u32_add) (simp_all only: i)
  then show ?thesis by simp
qed

lemma freerange_loop_pages:
  assumes "kmem_pages kend s ps" and "p \<noteq> 0"
    and "\<And>q. q \<in> set (range_pages p vend) \<Longrightarrow> free_page kend q \<and> q \<notin> set ps"
  shows "\<exists>s'. freerange_loop kend p vend s = Inr s' \<and>
              kmem_pages kend s' (rev (range_pages p vend) @ ps)"
  using assms
proof (induction kend p vend s arbitrary: ps rule: freerange_loop.induct)
  case (1 kend p vend s)
  show ?case
  proof (cases "unat p + PGSIZE \<le> unat vend")
    case False
    with "1.prems"(1) show ?thesis
      by (simp add: freerange_loop.simps range_pages_stop)
  next
    case True
    note step = range_pages_step [OF True]
    have up: "unat (p + PGSIZE) = unat p + PGSIZE"
      using True unat_u32_less [of vend] by (subst unat_u32_add) auto
    then have nz: "p + PGSIZE \<noteq> 0" by (metis add_gr_0 neq0_conv unat_0 zero_less_numeral)
    from "1.prems" step obtain s' where s': "kfree kend p s = Inr s'" "kmem_pages kend s' (p # ps)"
      using kfree_ok [of kend s ps p] by auto
    have "p \<notin> set (range_pages (p + PGSIZE) vend)"
      using range_pages_above [of p "p + PGSIZE" vend] up by auto
    then have "\<exists>t. freerange_loop kend (p + PGSIZE) vend s' = Inr t \<and>
        kmem_pages kend t (rev (range_pages (p + PGSIZE) vend) @ p # ps)"
      using "1.IH" [OF True s'(2) nz] "1.prems"(3) step by auto
    with s'(1) show ?thesis
      by (simp add: freerange_loop.simps [of kend p vend s] True step)
  qed
qed

section \<open>Properties\<close>

text \<open>
  Initialising the page allocator with an address range puts exactly the whole pages of the
  range on the free list, last page first, without a panic: \<^verbatim>\<open>freerange\<close> started with an empty
  list ends with a null-terminated list of \<open>PGROUNDUP vstart\<close>, the page after it, and so on up to
  the last page that fits below \<open>vend\<close>.
\<close>

theorem freerange_builds_free_list:
  assumes "freelist s = 0" and "PGROUNDUP vstart \<noteq> 0"
    and "\<forall>q \<in> set (range_pages (PGROUNDUP vstart) vend). free_page kend q"
  shows "\<exists>s'. freerange kend vstart vend s = Inr s' \<and>
              kmem_pages kend s' (rev (range_pages (PGROUNDUP vstart) vend))"
proof -
  have "kmem_pages kend s []" using assms(1) by (simp add: kmem_pages_def)
  then show ?thesis
    using freerange_loop_pages [of kend s "[]" "PGROUNDUP vstart" vend] assms(2,3)
    by (simp add: freerange_def)
qed

definition boot_kmem :: kmem where
  "boot_kmem = \<lparr>freelist = 0, run_next = (\<lambda>_. 0), use_lock = False, bytes = (\<lambda>_. 0)\<rparr>"

lemma boot_range: "range_pages (PGROUNDUP 0x80100001) 0x80103800 = [0x80101000, 0x80102000]"
  by (simp add: PGROUNDUP_def range_pages_def upt_rec)

lemma boot_start: "PGROUNDUP 0x80100001 = 0x80101000"
  by (simp add: PGROUNDUP_def)

theorem freerange_builds_free_list_witness:
  "\<exists>s'. freerange 0x80100000 0x80100001 0x80103800 boot_kmem = Inr s' \<and>
        kmem_pages 0x80100000 s' [0x80102000, 0x80101000]"
  using freerange_builds_free_list [of boot_kmem "0x80100001" "0x80103800" "0x80100000"]
  unfolding boot_range by (simp add: boot_kmem_def free_page_def V2P_def boot_start)

text \<open>
  Allocation takes the page freed last and gives every page out once: from a well-formed free
  list \<^verbatim>\<open>kfree\<close> of an aligned page that is not on it succeeds, and the \<^verbatim>\<open>kalloc\<close> that follows
  returns that very page and restores the old list.
\<close>

theorem kalloc_after_kfree:
  assumes "kmem_pages kend s ps" and "free_page kend v" and "v \<noteq> 0" and "v \<notin> set ps"
  shows "\<exists>s1 s2. kfree kend v s = Inr s1 \<and> kalloc s1 = (v, s2) \<and> kmem_pages kend s2 ps"
proof -
  obtain s1 where s1: "kfree kend v s = Inr s1" "kmem_pages kend s1 (v # ps)"
    using kfree_ok [OF assms] by blast
  then show ?thesis using kalloc_ok [OF s1(2)] by auto
qed

theorem kalloc_after_kfree_witness:
  "\<exists>s1 s2. kfree 0x80100000 0x80105000 boot_kmem = Inr s1 \<and> kalloc s1 = (0x80105000, s2) \<and>
           kmem_pages 0x80100000 s2 []"
  using kalloc_after_kfree [of "0x80100000" boot_kmem "[]" "0x80105000"]
  by (simp add: boot_kmem_def kmem_pages_def free_page_def V2P_def)

end
