(* ===== verification/Buddy_Spec.thy ===== *)
theory Buddy_Spec
  imports Main
begin

text \<open>
  What a buddy allocator promises, without pointers.  The managed region is the page range
  \<open>{0..<2 ^ M}\<close>.  A block is a pair of an order and the index of its first page.  The abstract
  free lists map each order to the list of the first pages of its free blocks; splitting and
  coalescing are list operations on them (\<open>a_divide\<close>, \<open>a_merge\<close>).  \<open>tiles\<close> says that a set of
  blocks is a partition of the region into aligned blocks, \<open>coalesced\<close> that no two buddies are
  both free.  The pointer code of \<^verbatim>\<open>buddy.c\<close> is shown to implement these operations in the theory
  \<open>Buddy\<close>.
\<close>

section \<open>Blocks and tilings\<close>

definition blk :: "nat \<times> nat \<Rightarrow> nat set" where
  "blk b = {snd b..<snd b + 2 ^ fst b}"

definition block_ok :: "nat \<Rightarrow> nat \<times> nat \<Rightarrow> bool" where
  "block_ok M b \<longleftrightarrow> fst b \<le> M \<and> 2 ^ fst b dvd snd b \<and> snd b + 2 ^ fst b \<le> 2 ^ M"

definition tiles :: "nat \<Rightarrow> (nat \<times> nat) set \<Rightarrow> bool" where
  "tiles M B \<longleftrightarrow> (\<forall>b \<in> B. block_ok M b) \<and>
     (\<forall>b \<in> B. \<forall>c \<in> B. b \<noteq> c \<longrightarrow> blk b \<inter> blk c = {}) \<and> \<Union> (blk ` B) = {0..<2 ^ M}"

lemma blk_nonempty [simp]: "blk b \<noteq> {}"
  by (simp add: blk_def)

lemma first_page_in_blk [simp]: "snd b \<in> blk b"
  by (simp add: blk_def)

lemma tiles_block_ok: "tiles M B \<Longrightarrow> b \<in> B \<Longrightarrow> block_ok M b"
  by (simp add: tiles_def)

lemma tiles_disjoint: "tiles M B \<Longrightarrow> b \<in> B \<Longrightarrow> c \<in> B \<Longrightarrow> b \<noteq> c \<Longrightarrow> blk b \<inter> blk c = {}"
  by (simp add: tiles_def)

lemma tiles_first_page_inj:
  assumes "tiles M B" and "b \<in> B" and "c \<in> B" and "snd b = snd c"
  shows "b = c"
proof (rule ccontr)
  assume "b \<noteq> c"
  with assms have "blk b \<inter> blk c = {}" by (blast dest: tiles_disjoint)
  moreover have "snd b \<in> blk b \<inter> blk c" using assms(4) by (simp add: blk_def)
  ultimately show False by blast
qed

lemma blk_halves: "blk (Suc k, x) = blk (k, x) \<union> blk (k, x + 2 ^ k)"
  by (auto simp: blk_def)

lemma blk_halves_disjoint: "blk (k, x) \<inter> blk (k, x + 2 ^ k) = {}"
  by (auto simp: blk_def)

lemma blk_inj: "blk b = blk c \<Longrightarrow> b = c"
proof -
  assume eq: "blk b = blk c"
  have "Min (blk b) = snd b" for b by (rule Min_eqI) (auto simp: blk_def)
  then have "snd b = snd c" using eq by metis
  moreover have "card (blk b) = 2 ^ fst b" for b by (simp add: blk_def)
  then have "fst b = fst c" using eq by (metis power_inject_exp one_less_numeral_iff semiring_norm(76))
  ultimately show ?thesis by (simp add: prod_eq_iff)
qed

text \<open>Replacing blocks by others that cover the same pages keeps a tiling.\<close>

lemma tiles_replace:
  assumes t: "tiles M B" and "C \<subseteq> B"
    and ok: "\<And>d. d \<in> D \<Longrightarrow> block_ok M d"
    and dis: "\<And>d e. d \<in> D \<Longrightarrow> e \<in> D \<Longrightarrow> d \<noteq> e \<Longrightarrow> blk d \<inter> blk e = {}"
    and un: "\<Union> (blk ` D) = \<Union> (blk ` C)"
  shows "tiles M ((B - C) \<union> D)"
proof -
  have out: "blk b \<inter> blk d = {}" if "b \<in> B - C" "d \<in> D" for b d
  proof -
    have "blk d \<subseteq> \<Union> (blk ` C)" using that(2) un by blast
    moreover have "blk b \<inter> blk c = {}" if "c \<in> C" for c
      using tiles_disjoint [OF t] that \<open>b \<in> B - C\<close> \<open>C \<subseteq> B\<close> by blast
    ultimately show ?thesis by blast
  qed
  have "\<Union> (blk ` ((B - C) \<union> D)) = \<Union> (blk ` (B - C)) \<union> \<Union> (blk ` C)"
    using un by auto
  also have "\<dots> = \<Union> (blk ` B)" using \<open>C \<subseteq> B\<close> by blast
  finally have cover: "\<Union> (blk ` ((B - C) \<union> D)) = {0..<2 ^ M}"
    using t by (simp add: tiles_def)
  have "blk b \<inter> blk c = {}" if "b \<in> (B - C) \<union> D" "c \<in> (B - C) \<union> D" "b \<noteq> c" for b c
    using that tiles_disjoint [OF t] out dis by blast
  then show ?thesis
    using cover ok tiles_block_ok [OF t] by (auto simp: tiles_def)
qed

lemma block_ok_halves:
  assumes "block_ok M (Suc k, x)"
  shows "block_ok M (k, x)" and "block_ok M (k, x + 2 ^ k)"
proof -
  have "(2::nat) ^ k dvd 2 ^ Suc k" by (simp add: le_imp_power_dvd)
  with assms have "2 ^ k dvd x" unfolding block_ok_def by (metis dvd_trans fst_conv snd_conv)
  with assms show "block_ok M (k, x)" and "block_ok M (k, x + 2 ^ k)"
    by (auto simp: block_ok_def)
qed

lemma tiles_split:
  assumes t: "tiles M B" and "(Suc k, x) \<in> B"
  shows "tiles M ((B - {(Suc k, x)}) \<union> {(k, x), (k, x + 2 ^ k)})"
proof (rule tiles_replace [OF t])
  show "{(Suc k, x)} \<subseteq> B" using assms(2) by simp
  show "block_ok M d" if "d \<in> {(k, x), (k, x + 2 ^ k)}" for d
    using that block_ok_halves [OF tiles_block_ok [OF assms]] by auto
  show "blk d \<inter> blk e = {}"
    if "d \<in> {(k, x), (k, x + 2 ^ k)}" "e \<in> {(k, x), (k, x + 2 ^ k)}" "d \<noteq> e" for d e
    using that blk_halves_disjoint [of k x] by blast
  show "\<Union> (blk ` {(k, x), (k, x + 2 ^ k)}) = \<Union> (blk ` {(Suc k, x)})"
    by (simp add: blk_halves)
qed

lemma tiles_join:
  assumes t: "tiles M B" and "(k, x) \<in> B" and "(k, x + 2 ^ k) \<in> B" and "2 ^ Suc k dvd x"
  shows "tiles M ((B - {(k, x), (k, x + 2 ^ k)}) \<union> {(Suc k, x)})"
proof (rule tiles_replace [OF t])
  show "{(k, x), (k, x + 2 ^ k)} \<subseteq> B" using assms by simp
  have "x + 2 ^ k + 2 ^ k \<le> 2 ^ M"
    using tiles_block_ok [OF t assms(3)] by (simp add: block_ok_def)
  then have le: "x + 2 ^ Suc k \<le> 2 ^ M" by simp
  then have "(2::nat) ^ Suc k \<le> 2 ^ M" by linarith
  then have "Suc k \<le> M" by (rule power_le_imp_le_exp [rotated]) simp
  with le assms(4) show "block_ok M d" if "d \<in> {(Suc k, x)}" for d
    using that by (simp add: block_ok_def)
  show "\<Union> (blk ` {(Suc k, x)}) = \<Union> (blk ` {(k, x), (k, x + 2 ^ k)})"
    by (simp add: blk_halves)
qed simp_all

section \<open>The abstract free lists\<close>

type_synonym free_lists = "nat \<Rightarrow> nat list"

definition blocks :: "free_lists \<Rightarrow> (nat \<times> nat) set" where
  "blocks F = {(k, x). x \<in> set (F k)}"

lemma in_blocks [simp]: "(k, x) \<in> blocks F \<longleftrightarrow> x \<in> set (F k)"
  by (simp add: blocks_def)

text \<open>The buddy of a block: the other half of the block of the next order that contains it.\<close>

definition buddy_of :: "nat \<Rightarrow> nat \<Rightarrow> nat" where
  "buddy_of k x = (if 2 ^ Suc k dvd x then x + 2 ^ k else x - 2 ^ k)"

definition coalesced :: "nat \<Rightarrow> free_lists \<Rightarrow> bool" where
  "coalesced M F \<longleftrightarrow> (\<forall>k < M. \<forall>x \<in> set (F k). buddy_of k x \<notin> set (F k))"

fun a_divide :: "nat \<Rightarrow> nat \<Rightarrow> free_lists \<Rightarrow> nat \<times> free_lists" where
  "a_divide t k F =
     (if t = k then (hd (F k), F(k := tl (F k)))
      else case k of
        0 \<Rightarrow> (hd (F k), F)
      | Suc j \<Rightarrow> a_divide t j
          (F(k := tl (F k), j := hd (F k) # (hd (F k) + 2 ^ j) # F j)))"

declare a_divide.simps [simp del]

function a_merge :: "nat \<Rightarrow> nat \<Rightarrow> free_lists \<Rightarrow> free_lists" where
  "a_merge n k F =
     (if F k = [] \<or> buddy_of k (hd (F k)) \<notin> set (tl (F k)) \<or> \<not> Suc k < n then F
      else a_merge n (Suc k)
        (F(k := remove1 (buddy_of k (hd (F k))) (tl (F k)),
           Suc k := min (hd (F k)) (buddy_of k (hd (F k))) # F (Suc k))))"
  by pat_completeness auto
termination
  by (relation "measure (\<lambda>(n, k, F). n - k)") auto

declare a_merge.simps [simp del]

lemma buddy_of_even: "2 ^ Suc k dvd x \<Longrightarrow> buddy_of k x = x + 2 ^ k"
  by (simp add: buddy_of_def)

lemma dvd_not_next:
  assumes "2 ^ k dvd x" and "\<not> 2 ^ Suc k dvd (x::nat)"
  obtains y where "x = y + 2 ^ k" and "2 ^ Suc k dvd y"
proof -
  from assms(1) obtain q where q: "x = 2 ^ k * q" by blast
  with assms(2) have "odd q" by (auto simp: dvd_def)
  then obtain r where "q = 2 * r + 1" by (blast elim: oddE)
  with q have "x = 2 ^ Suc k * r + 2 ^ k" by (simp add: algebra_simps)
  with that show thesis by (metis dvd_triv_left)
qed

lemma not_dvd_add_half: "2 ^ Suc k dvd (y::nat) \<Longrightarrow> \<not> 2 ^ Suc k dvd y + 2 ^ k"
proof
  assume "2 ^ Suc k dvd y" and "2 ^ Suc k dvd y + 2 ^ k"
  then have "(2::nat) ^ Suc k dvd 2 ^ k" by (metis dvd_add_right_iff)
  then show False by (meson dvd_power_iff_le le_refl not_less_eq_eq)
qed

lemma buddy_of_odd: "2 ^ Suc k dvd y \<Longrightarrow> buddy_of k (y + 2 ^ k) = y"
  using not_dvd_add_half by (simp add: buddy_of_def)

lemma buddy_of_involutive: "2 ^ k dvd x \<Longrightarrow> buddy_of k (buddy_of k x) = x"
  by (metis buddy_of_even buddy_of_odd dvd_not_next)

lemma buddy_of_neq: "2 ^ k dvd x \<Longrightarrow> buddy_of k x \<noteq> x"
  by (metis add_cancel_right_right buddy_of_even buddy_of_odd dvd_not_next power_not_zero
      zero_neq_numeral)

lemma buddy_pair:
  assumes "2 ^ k dvd x"
  shows "2 ^ Suc k dvd min x (buddy_of k x) \<and>
         {x, buddy_of k x} = {min x (buddy_of k x), min x (buddy_of k x) + 2 ^ k}"
proof (cases "2 ^ Suc k dvd x")
  case True
  then show ?thesis by (auto simp: buddy_of_even)
next
  case False
  with assms obtain y where "x = y + 2 ^ k" "2 ^ Suc k dvd y" by (rule dvd_not_next)
  then show ?thesis by (auto simp: buddy_of_odd)
qed

section \<open>Invariant of the allocator\<close>

text \<open>\<open>A\<close> is the set of blocks handed out.\<close>

definition lists_ok :: "nat \<Rightarrow> free_lists \<Rightarrow> (nat \<times> nat) set \<Rightarrow> bool" where
  "lists_ok M F A \<longleftrightarrow>
     (\<forall>k. distinct (F k)) \<and> blocks F \<inter> A = {} \<and> tiles M (blocks F \<union> A)"

definition buddy_ok :: "nat \<Rightarrow> free_lists \<Rightarrow> (nat \<times> nat) set \<Rightarrow> bool" where
  "buddy_ok M F A \<longleftrightarrow> lists_ok M F A \<and> coalesced M F"

lemma lists_ok_block: "lists_ok M F A \<Longrightarrow> x \<in> set (F k) \<Longrightarrow> block_ok M (k, x)"
  by (rule tiles_block_ok [of M "blocks F \<union> A"]) (auto simp: lists_ok_def)

lemma lists_ok_order_unique:
  assumes "lists_ok M F A" and "x \<in> set (F k)" and "x \<in> set (F j)"
  shows "k = j"
proof -
  have "(k, x) = (j, x)"
    using assms by (intro tiles_first_page_inj [of M "blocks F \<union> A"]) (auto simp: lists_ok_def)
  then show ?thesis by simp
qed

lemma lists_ok_not_allocated:
  "lists_ok M F A \<Longrightarrow> x \<in> set (F k) \<Longrightarrow> (j, x) \<notin> A"
proof
  assume ok: "lists_ok M F A" and x: "x \<in> set (F k)" and "(j, x) \<in> A"
  then have "(k, x) = (j, x)"
    by (intro tiles_first_page_inj [of M "blocks F \<union> A"]) (auto simp: lists_ok_def)
  then have "(j, x) \<in> blocks F \<inter> A" using x \<open>(j, x) \<in> A\<close> by simp
  with ok show False by (simp add: lists_ok_def)
qed

lemma coalesced_mono:
  "coalesced M F \<Longrightarrow> (\<And>k. set (G k) \<subseteq> set (F k)) \<Longrightarrow> coalesced M G"
  unfolding coalesced_def by blast

lemma hd_tl_set: "xs \<noteq> [] \<Longrightarrow> set xs = insert (hd xs) (set (tl xs))"
  by (cases xs) auto

text \<open>Handing out the head of a list.\<close>

lemma lists_ok_take:
  assumes "lists_ok M F A" and "F k \<noteq> []"
  shows "lists_ok M (F(k := tl (F k))) (insert (k, hd (F k)) A)"
proof -
  from assms(2) obtain x xs where Fk: "F k = x # xs" by (cases "F k") auto
  have b: "blocks (F(k := xs)) = blocks F - {(k, x)}"
    using assms(1) Fk by (auto simp: lists_ok_def split: if_splits dest!: spec [of _ k])
  have "blocks F - {(k, x)} \<union> insert (k, x) A = blocks F \<union> A" using Fk by auto
  moreover have "distinct xs" using assms(1) Fk by (metis distinct.simps(2) lists_ok_def)
  ultimately show ?thesis using assms(1) Fk b by (auto simp: lists_ok_def)
qed

text \<open>Splitting the head of a list into two buddies of the order below.\<close>

lemma lists_ok_split:
  assumes ok: "lists_ok M F A" and Fk: "F (Suc j) = x # xs"
  shows "lists_ok M (F(Suc j := xs, j := x # (x + 2 ^ j) # F j)) A"
proof -
  let ?G = "F(Suc j := xs, j := x # (x + 2 ^ j) # F j)"
  have t: "tiles M (blocks F \<union> A)" using ok by (simp add: lists_ok_def)
  have in_B: "(Suc j, x) \<in> blocks F \<union> A" using Fk by simp
  have xs: "distinct xs" "x \<notin> set xs"
    using ok Fk by (metis distinct.simps(2) lists_ok_def)+
  have notA: "(Suc j, x) \<notin> A" using lists_ok_not_allocated [OF ok, of x "Suc j"] Fk by simp
  have free: "b \<notin> blocks F \<union> A" if "b \<in> {(j, x), (j, x + 2 ^ j)}" for b
  proof
    assume "b \<in> blocks F \<union> A"
    moreover have "b \<noteq> (Suc j, x)" using that by auto
    ultimately have "blk b \<inter> blk (Suc j, x) = {}" using tiles_disjoint [OF t _ in_B] by blast
    moreover have "blk b \<subseteq> blk (Suc j, x)" using that by (auto simp: blk_halves)
    ultimately show False using blk_nonempty [of b] by blast
  qed
  have G: "blocks ?G = (blocks F - {(Suc j, x)}) \<union> {(j, x), (j, x + 2 ^ j)}"
    using xs Fk by (auto split: if_splits)
  then have "blocks ?G \<union> A = (blocks F \<union> A - {(Suc j, x)}) \<union> {(j, x), (j, x + 2 ^ j)}"
    using notA by blast
  then have "tiles M (blocks ?G \<union> A)" using tiles_split [OF t in_B] by simp
  moreover have "blocks ?G \<inter> A = {}"
    using ok free by (auto simp: G lists_ok_def)
  moreover have "distinct (?G i)" for i
    using ok xs(1) free [of "(j, x)"] free [of "(j, x + 2 ^ j)"] by (auto simp: lists_ok_def)
  ultimately show ?thesis by (simp add: lists_ok_def)
qed

lemma coalesced_split:
  assumes ok: "lists_ok M F A" and Fk: "F (Suc j) = x # xs"
    and co: "coalesced M (F(Suc j := xs))"
  shows "coalesced M (F(Suc j := xs, j := (x + 2 ^ j) # F j))"
proof -
  have dvd: "2 ^ Suc j dvd x" using lists_ok_block [OF ok, of x "Suc j"] Fk by (simp add: block_ok_def)
  have "x \<notin> set (F j)" using lists_ok_order_unique [OF ok, of x "Suc j" j] Fk by auto
  moreover have "buddy_of j (x + 2 ^ j) = x" using dvd by (rule buddy_of_odd)
  moreover have "buddy_of j y \<noteq> x + 2 ^ j" if "y \<in> set (F j)" for y
  proof
    assume "buddy_of j y = x + 2 ^ j"
    moreover have "2 ^ j dvd y" using lists_ok_block [OF ok that] by (simp add: block_ok_def)
    ultimately have "y = x" using buddy_of_involutive [of j y] dvd by (simp add: buddy_of_odd)
    with that \<open>x \<notin> set (F j)\<close> show False by simp
  qed
  ultimately show ?thesis using co by (auto simp: coalesced_def)
qed

lemma a_divide_ok:
  assumes "t \<le> k" and "F k \<noteq> []" and "lists_ok M F A" and "coalesced M (F(k := tl (F k)))"
    and "a_divide t k F = (x, F')"
  shows "x = hd (F k) \<and> buddy_ok M F' (insert (t, x) A)"
  using assms
proof (induction k arbitrary: F)
  case 0
  then show ?case
    using lists_ok_take [of M F A 0] by (auto simp: a_divide.simps buddy_ok_def fun_upd_def)
next
  case (Suc j)
  show ?case
  proof (cases "t = Suc j")
    case True
    with Suc.prems show ?thesis
      using lists_ok_take [of M F A "Suc j"]
      by (auto simp: a_divide.simps buddy_ok_def fun_upd_def)
  next
    case False
    obtain y ys where Fk: "F (Suc j) = y # ys" using Suc.prems(2) by (cases "F (Suc j)") auto
    let ?G = "F(Suc j := ys, j := y # (y + 2 ^ j) # F j)"
    have div: "a_divide t j ?G = (x, F')"
      using Suc.prems(5) False by (simp add: a_divide.simps Fk)
    have ok: "lists_ok M ?G A" using Suc.prems(3) Fk by (rule lists_ok_split)
    have "coalesced M (F(Suc j := ys))" using Suc.prems(4) Fk by (simp add: fun_upd_def)
    then have co: "coalesced M (?G(j := tl (?G j)))"
      using coalesced_split [OF Suc.prems(3) Fk] by simp
    have "t \<le> j" and "?G j \<noteq> []" using False Suc.prems(1) by simp_all
    then have "x = hd (?G j) \<and> buddy_ok M F' (insert (t, x) A)"
      using ok co div by (rule Suc.IH)
    then show ?thesis by (auto simp: Fk)
  qed
qed

text \<open>Giving back a block: it becomes the head of the list of its order.\<close>

lemma lists_ok_give:
  assumes ok: "lists_ok M F A" and "(k, x) \<in> A"
  shows "lists_ok M (F(k := x # F k)) (A - {(k, x)})"
proof -
  have notF: "x \<notin> set (F k)" using lists_ok_not_allocated [OF ok] assms(2) by blast
  have b: "blocks (F(k := x # F k)) = insert (k, x) (blocks F)"
    by (auto split: if_splits)
  then have "blocks (F(k := x # F k)) \<union> (A - {(k, x)}) = blocks F \<union> A" using assms(2) by auto
  with ok notF show ?thesis by (auto simp: lists_ok_def b)
qed

text \<open>Joining the head of a list with its buddy.\<close>

lemma lists_ok_join:
  assumes ok: "lists_ok M F A" and Fk: "F k = x # xs" and b: "buddy_of k x \<in> set xs"
  shows "lists_ok M (F(k := remove1 (buddy_of k x) xs,
                       Suc k := min x (buddy_of k x) # F (Suc k))) A"
proof -
  let ?b = "buddy_of k x" and ?m = "min x (buddy_of k x)"
  let ?G = "F(k := remove1 ?b xs, Suc k := ?m # F (Suc k))"
  have t: "tiles M (blocks F \<union> A)" using ok by (simp add: lists_ok_def)
  have dvd: "2 ^ k dvd x" using lists_ok_block [OF ok, of x k] Fk by (simp add: block_ok_def)
  note pair = buddy_pair [OF dvd]
  have pairs: "{(k, ?m), (k, ?m + 2 ^ k)} = {(k, x), (k, ?b)}"
    using pair by (metis (no_types) image_empty image_insert)
  have in_B: "(k, ?m) \<in> blocks F \<union> A" "(k, ?m + 2 ^ k) \<in> blocks F \<union> A"
    using pairs Fk b by (auto simp: doubleton_eq_iff)
  have xs: "distinct xs" "x \<notin> set xs"
    using ok Fk by (metis distinct.simps(2) lists_ok_def)+
  have free: "(Suc k, ?m) \<notin> blocks F \<union> A"
  proof
    assume "(Suc k, ?m) \<in> blocks F \<union> A"
    then have "(Suc k, ?m) = (k, ?m)"
      using tiles_first_page_inj [OF t _ in_B(1)] by force
    then show False by simp
  qed
  have notA: "(k, x) \<notin> A" "(k, ?b) \<notin> A"
    using lists_ok_not_allocated [OF ok, of _ k] Fk b by simp_all
  have G: "blocks ?G = (blocks F - {(k, x), (k, ?b)}) \<union> {(Suc k, ?m)}"
    using xs Fk b by (auto split: if_splits)
  then have "blocks ?G \<union> A =
      (blocks F \<union> A - {(k, ?m), (k, ?m + 2 ^ k)}) \<union> {(Suc k, ?m)}"
    unfolding pairs using notA by blast
  then have "tiles M (blocks ?G \<union> A)"
    using tiles_join [OF t in_B] pair by simp
  moreover have "blocks ?G \<inter> A = {}" using ok free by (auto simp: G lists_ok_def)
  moreover have "distinct (?G i)" for i
    using ok xs(1) free by (auto simp: lists_ok_def)
  ultimately show ?thesis by (simp add: lists_ok_def)
qed

lemma coalesced_head:
  assumes co: "coalesced M (F(k := xs))" and Fk: "F k = x # xs"
    and "buddy_of k x \<notin> set xs" and "\<And>y. y \<in> set xs \<Longrightarrow> buddy_of k y \<noteq> x"
    and "buddy_of k x \<noteq> x"
  shows "coalesced M F"
  unfolding coalesced_def
proof (intro allI impI ballI)
  fix j y assume j: "j < M" and y: "y \<in> set (F j)"
  show "buddy_of j y \<notin> set (F j)"
  proof (cases "j = k")
    case True
    have "\<forall>y \<in> set xs. buddy_of k y \<notin> set xs" using co j True by (auto simp: coalesced_def)
    with True y Fk assms(3-5) show ?thesis by auto
  next
    case False
    with co j y show ?thesis by (auto simp: coalesced_def)
  qed
qed

lemma a_merge_ok:
  assumes "M < n" and "F k \<noteq> []" and "lists_ok M F A" and "coalesced M (F(k := tl (F k)))"
  shows "buddy_ok M (a_merge n k F) A"
  using assms
proof (induction n k F rule: a_merge.induct)
  case (1 n k F)
  obtain x xs where Fk: "F k = x # xs" using "1.prems"(2) by (cases "F k") auto
  have co: "coalesced M (F(k := xs))" using "1.prems"(4) by (simp add: Fk fun_upd_def)
  have okx: "block_ok M (k, x)" using lists_ok_block [OF "1.prems"(3), of x k] Fk by simp
  show ?case
  proof (cases "buddy_of k x \<in> set xs \<and> Suc k < n")
    case True
    let ?G = "F(k := remove1 (buddy_of k x) xs, Suc k := min x (buddy_of k x) # F (Suc k))"
    have "lists_ok M ?G A" using lists_ok_join [OF "1.prems"(3) Fk] True by blast
    moreover have "coalesced M (?G(Suc k := tl (?G (Suc k))))"
      by (rule coalesced_mono [OF co]) (auto dest: set_remove1_subset [THEN subsetD])
    ultimately have "buddy_ok M (a_merge n (Suc k) ?G) A"
      using "1.IH" "1.prems"(1) True by (simp add: Fk fun_upd_def)
    moreover have "a_merge n k F = a_merge n (Suc k) ?G"
      using True by (simp add: a_merge.simps [of n k F] Fk)
    ultimately show ?thesis by simp
  next
    case False
    have "buddy_of k x \<notin> set xs"
    proof
      assume b: "buddy_of k x \<in> set xs"
      with False "1.prems"(1) okx have "k = M" by (simp add: block_ok_def)
      then have "\<forall>y \<in> set (F k). y = 0"
        using lists_ok_block [OF "1.prems"(3)] by (fastforce simp: block_ok_def)
      with b Fk have "x = 0" and "buddy_of k x = 0" by auto
      with b have "x \<in> set xs" by simp
      moreover have "distinct (F k)" using "1.prems"(3) by (simp add: lists_ok_def)
      ultimately show False using Fk by simp
    qed
    moreover have "buddy_of k y \<noteq> x" if "y \<in> set xs" for y
      using that calculation lists_ok_block [OF "1.prems"(3), of y k] Fk
        buddy_of_involutive [of k y] by (auto simp: block_ok_def)
    moreover have "buddy_of k x \<noteq> x" using okx by (simp add: block_ok_def buddy_of_neq)
    ultimately have "coalesced M F" by (rule coalesced_head [OF co Fk])
    with False "1.prems"(3) show ?thesis
      by (auto simp: a_merge.simps [of n k F] Fk buddy_ok_def)
  qed
qed

text \<open>With nothing handed out, coalescing has gone all the way: one block, the whole region.\<close>

lemma aligned_block_inside:
  assumes "d dvd (m::nat)" and "d dvd y" and "d dvd l" and "m \<le> b" and "b < m + d"
    and "y \<le> b" and "b < y + l"
  shows "y \<le> m \<and> m + d \<le> y + l"
proof -
  obtain i where i: "m = d * i" using assms(1) by blast
  obtain j where j: "y = d * j" using assms(2) by blast
  have "d dvd y + l" using assms(2,3) by simp
  then obtain e where e: "y + l = d * e" by blast
  have "d * j < d * (i + 1)" using assms(5,6) i j by (simp add: algebra_simps)
  then have "j < i + 1" by (rule mult_less_cancel1 [THEN iffD1, THEN conjunct2])
  then have "j \<le> i" by simp
  moreover have "d * i < d * e" using assms(4,7) i e by linarith
  then have "i + 1 \<le> e" by simp
  ultimately show ?thesis using i j e mult_le_mono2 [of "i + 1" e d] by simp
qed

lemma buddy_of_dvd: "2 ^ k dvd x \<Longrightarrow> 2 ^ k dvd buddy_of k x"
  by (auto simp: buddy_of_def dvd_diff_nat)

text \<open>
  In a coalesced tiling an aligned range that meets no allocated block lies inside one free block:
  the allocator never misses a request because free space is held in pieces.
\<close>

lemma least_meeting_block:
  assumes "tiles M (blocks F \<union> A)" and "block_ok M (n, r)" and "\<forall>a \<in> A. blk a \<inter> blk (n, r) = {}"
  shows "\<exists>k x. (k, x) \<in> blocks F \<and> blk (k, x) \<inter> blk (n, r) \<noteq> {} \<and>
    (\<forall>j y. (j, y) \<in> blocks F \<and> blk (j, y) \<inter> blk (n, r) \<noteq> {} \<longrightarrow> k \<le> j)"
proof -
  let ?meets = "\<lambda>k. \<exists>x. (k, x) \<in> blocks F \<and> blk (k, x) \<inter> blk (n, r) \<noteq> {}"
  have "blk (n, r) \<subseteq> {0..<2 ^ M}" using assms(2) by (auto simp: blk_def block_ok_def)
  then have "r \<in> \<Union> (blk ` (blocks F \<union> A))"
    using assms(1) first_page_in_blk [of "(n, r)"] by (auto simp: tiles_def)
  then obtain b where b: "b \<in> blocks F \<union> A" "r \<in> blk b" by blast
  then have meet: "blk b \<inter> blk (n, r) \<noteq> {}" using first_page_in_blk [of "(n, r)"] by auto
  then have "b \<in> blocks F" using b(1) assms(3) by blast
  with meet have "?meets (fst b)" by (cases b) auto
  then show ?thesis using exists_least_iff [of ?meets] by (meson not_le)
qed

lemma free_range_covered:
  assumes t: "tiles M (blocks F \<union> A)" and co: "coalesced M F" and rng: "block_ok M (n, r)"
    and free: "\<forall>a \<in> A. blk a \<inter> blk (n, r) = {}"
  shows "\<exists>k x. (k, x) \<in> blocks F \<and> n \<le> k \<and> blk (n, r) \<subseteq> blk (k, x)"
proof -
  obtain k x where x: "(k, x) \<in> blocks F" "blk (k, x) \<inter> blk (n, r) \<noteq> {}"
    and least: "\<And>j y. (j, y) \<in> blocks F \<Longrightarrow> blk (j, y) \<inter> blk (n, r) \<noteq> {} \<Longrightarrow> k \<le> j"
    using least_meeting_block [OF t rng free] by blast
  obtain c where c: "c \<in> blk (k, x)" "c \<in> blk (n, r)" using x(2) by blast
  have okx: "block_ok M (k, x)" using tiles_block_ok [OF t] x(1) by blast
  show ?thesis
  proof (cases "n \<le> k")
    case True
    then have d: "(2::nat) ^ n dvd 2 ^ k" by (rule le_imp_power_dvd)
    then have "2 ^ n dvd x" using okx by (metis block_ok_def dvd_trans fst_conv snd_conv)
    then have "blk (n, r) \<subseteq> blk (k, x)"
      using aligned_block_inside [of "2 ^ n" r x "2 ^ k" c] d c rng by (auto simp: blk_def block_ok_def)
    with True x(1) show ?thesis by blast
  next
    case False
    then have less: "k < n" and lessM: "k < M" using rng by (auto simp: block_ok_def)
    have dvd: "2 ^ k dvd x" using okx by (simp add: block_ok_def)
    let ?b = "buddy_of k x" and ?m = "min x (buddy_of k x)"
    note pair = buddy_pair [OF dvd]
    have in_m: "?m \<le> x" "x + 2 ^ k \<le> ?m + 2 ^ Suc k" "?m \<le> ?b" "?b < ?m + 2 ^ Suc k"
      using pair by (auto simp: doubleton_eq_iff)
    have dn: "(2::nat) ^ Suc k dvd 2 ^ n" using less by (intro le_imp_power_dvd) simp
    then have dr: "2 ^ Suc k dvd r" using rng by (metis block_ok_def dvd_trans fst_conv snd_conv)
    have "x \<le> c" "c < x + 2 ^ k" using c(1) by (auto simp: blk_def)
    then have "?m \<le> c" "c < ?m + 2 ^ Suc k" using in_m by linarith+
    then have "r \<le> ?m \<and> ?m + 2 ^ Suc k \<le> r + 2 ^ n"
      using aligned_block_inside [of "2 ^ Suc k" ?m r "2 ^ n" c] pair dn dr c(2) by (simp add: blk_def)
    with in_m have b_in: "?b \<in> blk (n, r)" unfolding blk_def by auto
    then have "?b \<in> \<Union> (blk ` (blocks F \<union> A))"
      using t rng by (auto simp: tiles_def blk_def block_ok_def)
    then obtain j y where y: "(j, y) \<in> blocks F \<union> A" "?b \<in> blk (j, y)"
      by (metis UN_E prod.exhaust)
    have meet: "blk (j, y) \<inter> blk (n, r) \<noteq> {}" using y(2) b_in by blast
    with y(1) free have yF: "(j, y) \<in> blocks F" by blast
    have okj: "block_ok M (j, y)" using tiles_block_ok [OF t y(1)] .
    have "k \<le> j" using least [OF yF meet] .
    have False
    proof (cases "k = j")
      case True
      then have "y = ?b"
        using aligned_block_inside [of "2 ^ k" ?b y "2 ^ k" ?b] y(2) okj buddy_of_dvd [OF dvd]
        by (auto simp: blk_def block_ok_def)
      with yF True x(1) co lessM show False by (auto simp: coalesced_def)
    next
      case False
      then have sub: "(2::nat) ^ Suc k dvd 2 ^ j" using \<open>k \<le> j\<close> by (intro le_imp_power_dvd) simp
      then have "2 ^ Suc k dvd y" using okj by (metis block_ok_def dvd_trans fst_conv snd_conv)
      then have "x \<in> blk (j, y)"
        using aligned_block_inside [of "2 ^ Suc k" ?m y "2 ^ j" ?b] pair sub in_m y(2)
        by (auto simp: blk_def)
      moreover have "blk (k, x) \<inter> blk (j, y) = {}"
        using tiles_disjoint [OF t] x(1) y(1) False by blast
      ultimately show False using first_page_in_blk [of "(k, x)"] by auto
    qed
    then show ?thesis ..
  qed
qed

lemma all_free_single_block:
  assumes "buddy_ok M F {}"
  shows "blocks F = {(M, 0)}"
proof -
  have t: "tiles M (blocks F)" and co: "coalesced M F"
    using assms by (simp_all add: buddy_ok_def lists_ok_def)
  obtain k x where x: "(k, x) \<in> blocks F" "M \<le> k"
    using free_range_covered [of M F "{}" M 0] t co by (auto simp: block_ok_def)
  then have kx: "k = M" "x = 0" using tiles_block_ok [OF t x(1)] by (auto simp: block_ok_def)
  have "b = (M, 0)" if "b \<in> blocks F" for b
  proof (rule ccontr)
    assume "b \<noteq> (M, 0)"
    then have "blk b \<inter> blk (M, 0) = {}" using tiles_disjoint [OF t that] x(1) kx by blast
    moreover have "blk b \<subseteq> blk (M, 0)"
      using tiles_block_ok [OF t that] by (auto simp: blk_def block_ok_def)
    ultimately show False using blk_nonempty [of b] by blast
  qed
  with x(1) kx show ?thesis by blast
qed

end
