(* ===== verification/Buddy.thy ===== *)
theory Buddy
  imports Xv6_Prelude Buddy_Spec
begin

text \<open>
  The buddy allocator of \<^verbatim>\<open>buddy.c\<close>.  The record \<open>buddy\<close> holds the structure \<^verbatim>\<open>kmemAlloc\<close>, the
  globals of the file and, one function per field, the memory of \<^verbatim>\<open>struct FREELIST\<close> (\<open>fl_next\<close>),
  \<^verbatim>\<open>struct NODE\<close> (\<open>nd_\<dots>\<close>) and \<^verbatim>\<open>struct NODELIST\<close> (\<open>nl_\<dots>\<close>).  The lock \<^verbatim>\<open>buddyLock\<close> serialises
  the operations and is not represented; \<^verbatim>\<open>printBuddySystem\<close> and \<^verbatim>\<open>printHash\<close> only print.
  \<^verbatim>\<open>dmalloc\<close> and \<^verbatim>\<open>dfree\<close> send requests of at most half a page to the slab layer; the functions
  \<open>dmalloc_buddy\<close> and \<open>dfree_buddy\<close> are the rest of their bodies, and the theory \<open>Slab\<close> puts the
  two halves together.
\<close>

section \<open>State\<close>

record buddy =
  orderList :: "u32 list"
  maxOrder :: nat
  vstart :: u32
  buse_lock :: bool
  freeNodeList :: u32
  nodePageCount :: nat
  nodeListPageCount :: nat
  nodeStart :: u32
  nodeListStart :: u32
  bucket :: "u32 list"
  fl_next :: "u32 \<Rightarrow> u32"
  nd_key :: "u32 \<Rightarrow> u32"
  nd_value :: "u32 \<Rightarrow> int"
  nd_next :: "u32 \<Rightarrow> u32"
  nd_list :: "u32 \<Rightarrow> u32"
  nl_address :: "u32 \<Rightarrow> u32"
  nl_next :: "u32 \<Rightarrow> u32"

abbreviation (input) HASHSIZE :: nat where
  "HASHSIZE \<equiv> 3"

abbreviation (input) ORDERS :: nat where
  "ORDERS \<equiv> 20"

text \<open>\<^verbatim>\<open>sizeof(struct NODE)\<close> and \<^verbatim>\<open>sizeof(struct NODELIST)\<close> on the 32-bit target.\<close>

abbreviation (input) sizeof_NODE :: "'a::numeral" where
  "sizeof_NODE \<equiv> 16"

abbreviation (input) sizeof_NODELIST :: "'a::numeral" where
  "sizeof_NODELIST \<equiv> 8"

section \<open>Initialisation\<close>

function count_pages :: "u32 \<Rightarrow> u32 \<Rightarrow> nat \<Rightarrow> nat" where
  "count_pages p vend pageCount =
     (if unat p + PGSIZE \<le> unat vend then count_pages (p + PGSIZE) vend (Suc pageCount)
      else pageCount)"
  by pat_completeness auto
termination
proof (relation "measure (\<lambda>(p, vend, c). unat vend - unat p)", goal_cases)
  case 1
  show ?case by simp
next
  case (2 p vend c)
  have "unat (p + PGSIZE) = unat p + PGSIZE"
    using 2 unat_u32_less [of vend] by (subst unat_u32_add) auto
  with 2 show ?case by simp
qed

declare count_pages.simps [simp del]

fun total_loop :: "nat \<Rightarrow> nat \<Rightarrow> nat" where
  "total_loop tempPageCount totalPage =
     (if tempPageCount div 2 \<noteq> 0 then total_loop (tempPageCount div 2) (totalPage * 2)
      else totalPage)"

declare total_loop.simps [simp del]

text \<open>
  \<^verbatim>\<open>while (pageCount >> 1)\<close> on an \<^verbatim>\<open>int\<close>: the shift of a negative number stays negative, so the
  loop does not end when the two metadata areas do not fit into the range.
\<close>

function order_loop :: "int \<Rightarrow> nat \<Rightarrow> nat result" where
  "order_loop pageCount order =
     (if pageCount < 0 then Inl Hang
      else if pageCount div 2 \<noteq> 0 then order_loop (pageCount div 2) (Suc order)
      else Inr order)"
  by pat_completeness auto
termination
  by (relation "measure (\<lambda>(p, k). nat p)") auto

declare order_loop.simps [simp del]

definition bfreerange :: "u32 \<Rightarrow> u32 \<Rightarrow> buddy \<Rightarrow> buddy result" where
  "bfreerange vstart0 vend s =
     (let p = PGROUNDUP vstart0;
          pageCount = count_pages p vend 0;
          totalPage = total_loop pageCount 1;
          npc = totalPage * sizeof_NODE div PGSIZE +
                (if totalPage * sizeof_NODE mod PGSIZE \<noteq> 0 then 1 else 0);
          nlpc = totalPage * sizeof_NODELIST div PGSIZE +
                 (if totalPage * 4 mod PGSIZE \<noteq> 0 then 1 else 0);
          nls = p + of_nat (npc * PGSIZE)
      in bindE (order_loop (int pageCount - int npc - int nlpc) 0)
           (\<lambda>order. Inr (s\<lparr>nodePageCount := npc, nodeListPageCount := nlpc, nodeStart := p,
              nodeListStart := nls, vstart := nls + of_nat (nlpc * PGSIZE), maxOrder := order\<rparr>)))"

fun link_loop :: "nat \<Rightarrow> u32 \<Rightarrow> u32 \<Rightarrow> buddy \<Rightarrow> buddy" where
  "link_loop 0 node nodeList s = s"
| "link_loop (Suc n) node nodeList s =
     link_loop n (node + sizeof_NODE) (nodeList + sizeof_NODELIST)
       (s\<lparr>nl_address := (nl_address s)(nodeList := node),
          nl_next := (nl_next s)(nodeList := freeNodeList s),
          freeNodeList := nodeList\<rparr>)"

definition linkNodeList :: "buddy \<Rightarrow> buddy" where
  "linkNodeList s =
     link_loop (nodePageCount s * PGSIZE div sizeof_NODE) (nodeStart s) (nodeListStart s) s"

definition buddyInit :: "u32 \<Rightarrow> u32 \<Rightarrow> buddy \<Rightarrow> buddy result" where
  "buddyInit vstart0 vend s =
     bindE (bfreerange vstart0 vend (s\<lparr>buse_lock := False\<rparr>)) (\<lambda>s1.
     let s2 = linkNodeList s1 in
     bindE (aset (orderList s2) (maxOrder s2) (vstart s2)) (\<lambda>ol.
     Inr (s2\<lparr>orderList := ol, buse_lock := True\<rparr>)))"

section \<open>The table of sizes\<close>

definition createNode :: "u32 \<Rightarrow> int \<Rightarrow> buddy \<Rightarrow> (u32 \<times> buddy) result" where
  "createNode key value s =
     bindE (deref (nl_address s) (freeNodeList s)) (\<lambda>newNode.
     if newNode = 0 then Inl Wild
     else Inr (newNode, s\<lparr>nd_list := (nd_list s)(newNode := freeNodeList s),
                          freeNodeList := nl_next s (freeNodeList s),
                          nd_key := (nd_key s)(newNode := key),
                          nd_value := (nd_value s)(newNode := value),
                          nd_next := (nd_next s)(newNode := 0)\<rparr>))"

definition hashFunc :: "u32 \<Rightarrow> nat" where
  "hashFunc key = unat key mod HASHSIZE"

definition addSize :: "u32 \<Rightarrow> int \<Rightarrow> buddy \<Rightarrow> buddy result" where
  "addSize start sz s =
     bindE (createNode start sz s) (\<lambda>(newNode, s1).
     let hashIndex = hashFunc start in
     bindE (aget (bucket s1) hashIndex) (\<lambda>head.
     if head \<noteq> 0
     then Inr (s1\<lparr>nd_next := (nd_next s1)(newNode := head),
                  bucket := (bucket s1)[hashIndex := newNode]\<rparr>)
     else Inr (s1\<lparr>bucket := (bucket s1)[hashIndex := newNode]\<rparr>)))"

definition removeSize :: "u32 \<Rightarrow> buddy \<Rightarrow> (int \<times> buddy) result" where
  "removeSize start s =
     (let hashIndex = hashFunc start in
      bindE (aget (bucket s) hashIndex) (\<lambda>head.
      bindE (find_node (nd_next s) (\<lambda>n. nd_key s n = start) head head []) (\<lambda>(prevNode, deleteNode).
      if deleteNode = 0 then Inr (-1, s)
      else
        let s1 = (if prevNode = deleteNode
                  then s\<lparr>bucket := (bucket s)[hashIndex := nd_next s deleteNode]\<rparr>
                  else s\<lparr>nd_next := (nd_next s)(prevNode := nd_next s deleteNode)\<rparr>);
            l = nd_list s1 deleteNode
        in if l = 0 then Inl Wild
           else Inr (nd_value s1 deleteNode,
                     s1\<lparr>nl_next := (nl_next s1)(l := freeNodeList s1), freeNodeList := l\<rparr>))))"

section \<open>Orders, splitting and allocation\<close>

text \<open>
  The doubling of \<^verbatim>\<open>orderSize\<close> is an \<^verbatim>\<open>int\<close> multiplication: past \<open>2 ^ 30\<close> it overflows, which is
  undefined (\<open>Wild\<close>); from a value that is not positive it would not grow (\<open>Hang\<close>).
\<close>

function calOrder_loop :: "int \<Rightarrow> nat \<Rightarrow> int \<Rightarrow> nat result" where
  "calOrder_loop orderSize order sz =
     (if orderSize < sz
      then if orderSize \<le> 0 then Inl Hang
           else if orderSize * 2 > 0x7FFFFFFF then Inl Wild
           else calOrder_loop (orderSize * 2) (Suc order) sz
      else Inr order)"
  by pat_completeness auto
termination
  by (relation "measure (\<lambda>(os, k, sz). nat (sz - os))") auto

declare calOrder_loop.simps [simp del]

definition calOrder :: "int \<Rightarrow> nat result" where
  "calOrder sz = calOrder_loop PGSIZE 0 sz"

text \<open>
  In \<^verbatim>\<open>divideOrder\<close> the loop \<^verbatim>\<open>while(--cnt) space *= 2\<close> leaves \<open>2 ^ (allocOrder - 1)\<close> in \<open>space\<close>; started
  at order 0 its counter would run below zero, but the function is called with
  \<^verbatim>\<open>targetOrder <= allocOrder\<close> only.
\<close>

fun divideOrder :: "nat \<Rightarrow> nat \<Rightarrow> buddy \<Rightarrow> (u32 \<times> buddy) result" where
  "divideOrder targetOrder allocOrder s =
     bindE (aget (orderList s) allocOrder) (\<lambda>chunk.
     bindE (deref (fl_next s) chunk) (\<lambda>chunk_next.
     let s1 = s\<lparr>orderList := (orderList s)[allocOrder := chunk_next]\<rparr> in
     if targetOrder = allocOrder then Inr (chunk, s1)
     else case allocOrder of
       0 \<Rightarrow> Inl Hang
     | Suc j \<Rightarrow>
         let space = 2 ^ j;
             address = chunk + of_nat (space * PGSIZE);
             s2 = s1\<lparr>fl_next := (fl_next s1)(address := orderList s1 ! j),
                     orderList := (orderList s1)[j := address]\<rparr>;
             s3 = s2\<lparr>fl_next := (fl_next s2)(chunk := orderList s2 ! j),
                     orderList := (orderList s2)[j := chunk]\<rparr>
         in divideOrder targetOrder j s3))"

declare divideOrder.simps [simp del]

function dmalloc_loop :: "int \<Rightarrow> nat \<Rightarrow> nat \<Rightarrow> buddy \<Rightarrow> (u32 \<times> buddy) result" where
  "dmalloc_loop sz targetOrder allocOrder s =
     (if allocOrder \<le> maxOrder s
      then bindE (aget (orderList s) allocOrder) (\<lambda>head.
           if head \<noteq> 0
           then bindE (divideOrder targetOrder allocOrder s) (\<lambda>(ret, s1).
                bindE (addSize ret sz s1) (\<lambda>s2. Inr (ret, s2)))
           else dmalloc_loop sz targetOrder (Suc allocOrder) s)
      else Inl (Panic ''out of memory''))"
  by pat_completeness auto
termination
  by (relation "measure (\<lambda>(sz, t, a, s). Suc (maxOrder s) - a)") auto

declare dmalloc_loop.simps [simp del]

definition dmalloc_buddy :: "int \<Rightarrow> buddy \<Rightarrow> (u32 \<times> buddy) result" where
  "dmalloc_buddy sz s =
     bindE (calOrder sz) (\<lambda>targetOrder. dmalloc_loop sz targetOrder targetOrder s)"

section \<open>Coalescing and release\<close>

text \<open>
  The loop that doubles \<^verbatim>\<open>space\<close> runs once for each order from \<open>targetOrder\<close> down to 0; \<^verbatim>\<open>space\<close> is an
  \<^verbatim>\<open>int\<close>, and its overflow, for orders above 17, is undefined (\<open>Wild\<close>).
\<close>

function mergeOrder :: "nat \<Rightarrow> buddy \<Rightarrow> buddy result" where
  "mergeOrder targetOrder s =
     bindE (aget (orderList s) targetOrder) (\<lambda>targetList.
     bindE (deref (fl_next s) targetList) (\<lambda>candidate.
     let space = PGSIZE * 2 ^ Suc targetOrder;
         half = word_of_int (space div 2);
         aligned = ((sint targetList - sint (vstart s)) mod space = 0);
         buddy = (if aligned then targetList + half else targetList - half);
         mergeAddress = (if aligned then targetList else buddy)
     in
     if space > 0x7FFFFFFF then Inl Wild else
     bindE (find_node (fl_next s) (\<lambda>c. c = buddy) candidate candidate []) (\<lambda>(prevList, cand).
     if cand = 0 then Inr s
     else
       let s1 = s\<lparr>orderList := (orderList s)[targetOrder := fl_next s targetList]\<rparr>;
           s2 = (if prevList = cand
                 then s1\<lparr>orderList := (orderList s1)[targetOrder := fl_next s1 cand]\<rparr>
                 else s1\<lparr>fl_next := (fl_next s1)(prevList := fl_next s1 cand)\<rparr>)
       in if Suc targetOrder < length (orderList s2)
          then mergeOrder (Suc targetOrder)
                 (s2\<lparr>fl_next := (fl_next s2)(mergeAddress := orderList s2 ! Suc targetOrder),
                     orderList := (orderList s2)[Suc targetOrder := mergeAddress]\<rparr>)
          else Inl Wild)))"
  by pat_completeness auto
termination
  by (relation "measure (\<lambda>(t, s). length (orderList s) - t)") (auto split: if_splits)

declare mergeOrder.simps [simp del]

definition dfree_buddy :: "u32 \<Rightarrow> buddy \<Rightarrow> buddy result" where
  "dfree_buddy address s =
     bindE (removeSize address s) (\<lambda>(sz, s1).
     if sz \<le> 0 then Inl (Panic ''dfree'')
     else
       bindE (calOrder sz) (\<lambda>order.
       bindE (aget (orderList s1) order) (\<lambda>head.
       if address = 0 then Inl Wild
       else mergeOrder order
              (s1\<lparr>fl_next := (fl_next s1)(address := head),
                  orderList := (orderList s1)[order := address]\<rparr>))))"

end
