(* ===== verification/Buddy_Refine.thy ===== *)
theory Buddy_Refine
  imports Buddy
begin

text \<open>
  The pointer code of \<^verbatim>\<open>buddy.c\<close> implements the abstract allocator of the theory \<open>Buddy_Spec\<close>.
  \<open>free_chains\<close> relates the free lists in memory to lists of page indices, \<open>table_ok\<close> relates the hash
  table of sizes and the pool of its nodes to a finite map.  \<open>divideOrder\<close> and \<open>mergeOrder\<close> are shown
  to compute \<open>a_divide\<close> and \<open>a_merge\<close>; \<open>buddy_inv\<close>, the invariant of the whole allocator, is
  established by \<open>buddyInit\<close> and kept by \<open>dmalloc_buddy\<close> and \<open>dfree_buddy\<close>.
\<close>

section \<open>Addresses of pages\<close>

definition padr :: "u32 \<Rightarrow> nat \<Rightarrow> u32" where
  "padr v i = v + of_nat (i * PGSIZE)"

definition region_ok :: "buddy \<Rightarrow> bool" where
  "region_ok s \<longleftrightarrow> length (orderList s) = ORDERS \<and> length (bucket s) = HASHSIZE \<and>
     maxOrder s \<le> 17 \<and> 2147483648 \<le> unat (vstart s) \<and>
     unat (vstart s) + 2 ^ maxOrder s * PGSIZE \<le> 4294967296"

lemma unat_padr:
  assumes "region_ok s" and "i < 2 ^ maxOrder s"
  shows "unat (padr (vstart s) i) = unat (vstart s) + i * PGSIZE"
proof -
  have "(i + 1) * PGSIZE \<le> 2 ^ maxOrder s * PGSIZE"
    using assms(2) by (intro mult_le_mono1) simp
  then have b: "unat (vstart s) + i * PGSIZE < 4294967296"
    using assms(1) by (simp add: region_ok_def)
  then have u: "unat (of_nat (i * PGSIZE) :: u32) = i * PGSIZE"
    by (intro unat_u32_of_nat) linarith
  show ?thesis unfolding padr_def using b by (subst unat_u32_add) (simp_all only: u)
qed

lemma padr_nonnull:
  assumes "region_ok s" and "i < 2 ^ maxOrder s"
  shows "padr (vstart s) i \<noteq> 0"
proof
  assume "padr (vstart s) i = 0"
  with unat_padr [OF assms] assms(1) show False by (simp add: region_ok_def)
qed

lemma padr_inj:
  assumes "region_ok s" and "i < 2 ^ maxOrder s" and "j < 2 ^ maxOrder s"
    and "padr (vstart s) i = padr (vstart s) j"
  shows "i = j"
proof -
  have "unat (vstart s) + i * PGSIZE = unat (vstart s) + j * PGSIZE"
    using unat_padr [OF assms(1,2)] unat_padr [OF assms(1,3)] by (simp only: assms(4))
  then show ?thesis by simp
qed

lemma unat_padr_mod: "unat (padr v n) = (unat v + n * PGSIZE) mod 4294967296"
  by (simp add: padr_def unat_word_ariths unat_of_nat take_bit_eq_mod mod_simps)

text \<open>The first address after the region is not the address of one of its pages.\<close>

lemma padr_end:
  assumes "region_ok s" and "i < 2 ^ maxOrder s"
  shows "padr (vstart s) (2 ^ maxOrder s) \<noteq> padr (vstart s) i"
proof
  assume eq: "padr (vstart s) (2 ^ maxOrder s) = padr (vstart s) i"
  have "unat (vstart s) + 2 ^ maxOrder s * PGSIZE < 4294967296 \<or>
        unat (vstart s) + 2 ^ maxOrder s * PGSIZE = 4294967296"
    using assms(1) by (auto simp: region_ok_def)
  then have "unat (padr (vstart s) (2 ^ maxOrder s)) \<in>
      {0, unat (vstart s) + 2 ^ maxOrder s * PGSIZE}"
    unfolding unat_padr_mod by auto
  with eq unat_padr [OF assms] assms show False by (auto simp: region_ok_def)
qed

lemma padr_in_map:
  assumes "region_ok s" and "\<forall>y \<in> set xs. y < 2 ^ maxOrder s" and "b \<le> 2 ^ maxOrder s"
  shows "padr (vstart s) b \<in> padr (vstart s) ` set xs \<longleftrightarrow> b \<in> set xs"
proof
  assume "padr (vstart s) b \<in> padr (vstart s) ` set xs"
  then obtain y where y: "y \<in> set xs" "padr (vstart s) b = padr (vstart s) y" by blast
  have "b \<noteq> 2 ^ maxOrder s" using padr_end [OF assms(1), of y] y assms(2) by auto
  then have "b < 2 ^ maxOrder s" using assms(3) by simp
  then have "b = y" using padr_inj [OF assms(1) _ _ y(2)] assms(2) y(1) by blast
  with y(1) show "b \<in> set xs" by simp
qed simp

lemma padr_add: "padr v x + of_nat (n * PGSIZE) = padr v (x + n)"
  by (simp add: padr_def algebra_simps)

lemma padr_diff: "n \<le> x \<Longrightarrow> padr v x - of_nat (n * PGSIZE) = padr v (x - n)"
  by (simp add: padr_def algebra_simps diff_mult_distrib of_nat_diff)

text \<open>The signed difference of two addresses of the region.\<close>

lemma sint_padr_diff:
  assumes "region_ok s" and "i < 2 ^ maxOrder s"
  shows "sint (padr (vstart s) i) - sint (vstart s) = int i * PGSIZE"
proof -
  have high: "sint a = int (unat a) - 4294967296" if "2147483648 \<le> unat a" for a :: u32
  proof -
    have "sint a = (uint a + 2147483648) mod 4294967296 - 2147483648"
      by (simp add: sint_uint signed_take_bit_eq_take_bit_shift take_bit_eq_mod)
    also have "(uint a + 2147483648) mod 4294967296 =
        (int (unat a) - 2147483648 + 4294967296) mod 4294967296" by (simp add: add.commute)
    also have "\<dots> = int (unat a) - 2147483648"
      using that unat_u32_less [of a] by (simp only: mod_add_self2, intro mod_pos_pos_trivial) linarith+
    finally show ?thesis by simp
  qed
  have "2147483648 \<le> unat (vstart s)" using assms(1) by (simp add: region_ok_def)
  with unat_padr [OF assms] show ?thesis by (simp add: high)
qed

section \<open>Free lists in memory\<close>

definition free_chains :: "buddy \<Rightarrow> free_lists \<Rightarrow> bool" where
  "free_chains s F \<longleftrightarrow> (\<forall>k < ORDERS. chain (fl_next s) (orderList s ! k) (map (padr (vstart s)) (F k)))"

text \<open>The fields that splitting and coalescing leave alone.\<close>

definition same_table :: "buddy \<Rightarrow> buddy \<Rightarrow> bool" where
  "same_table s s' \<longleftrightarrow> length (orderList s') = length (orderList s) \<and>
     s' = s\<lparr>orderList := orderList s', fl_next := fl_next s'\<rparr>"

lemma same_table_refl [simp]: "same_table s s"
  by (simp add: same_table_def)

lemma same_table_trans: "same_table s t \<Longrightarrow> same_table t u \<Longrightarrow> same_table s u"
  unfolding same_table_def by (cases s, cases t, cases u) auto

lemma same_table_upd [simp]:
  "same_table s (s\<lparr>fl_next := nx, orderList := ol\<rparr>) \<longleftrightarrow> length ol = length (orderList s)"
  by (simp add: same_table_def)

lemma same_table_fields:
  assumes "same_table s s'"
  shows "vstart s' = vstart s" "maxOrder s' = maxOrder s" "bucket s' = bucket s"
    "length (orderList s') = length (orderList s)" "region_ok s' \<longleftrightarrow> region_ok s"
proof -
  have eq: "s' = s\<lparr>orderList := orderList s', fl_next := fl_next s'\<rparr>"
    and len: "length (orderList s') = length (orderList s)"
    using assms unfolding same_table_def by blast+
  show "vstart s' = vstart s" "maxOrder s' = maxOrder s" "bucket s' = bucket s"
    "length (orderList s') = length (orderList s)"
    using len by (subst eq, simp)+
  then show "region_ok s' \<longleftrightarrow> region_ok s" by (simp add: region_ok_def)
qed

lemma lists_ok_page:
  assumes "lists_ok M F A" and "x \<in> set (F k)"
  shows "k \<le> M" and "x < 2 ^ M" and "x + 2 ^ k \<le> 2 ^ M" and "2 ^ k dvd x"
proof -
  have "block_ok M (k, x)" using lists_ok_block [OF assms] .
  then show "k \<le> M" "x + 2 ^ k \<le> 2 ^ M" "2 ^ k dvd x" by (simp_all add: block_ok_def)
  then show "x < 2 ^ M" using zero_less_power [of "2::nat" k] by linarith
qed

lemma padr_notin:
  assumes "region_ok s" and "lists_ok (maxOrder s) F A" and "x < 2 ^ maxOrder s"
    and "x \<notin> set (F k)"
  shows "padr (vstart s) x \<notin> set (map (padr (vstart s)) (F k))"
  using assms padr_in_map [of s "F k" x] lists_ok_page(2) by fastforce

text \<open>Taking the first block off a list, and putting a block that is on no list in front of one.\<close>

lemma free_chains_pop:
  assumes "region_ok s" and "free_chains s F" and "k < ORDERS" and "F k = x # xs"
  shows "orderList s ! k = padr (vstart s) x" and "padr (vstart s) x \<noteq> 0"
    and "free_chains (s\<lparr>orderList := (orderList s)[k := fl_next s (padr (vstart s) x)]\<rparr>) (F(k := xs))"
proof -
  let ?v = "vstart s"
  have len: "length (orderList s) = ORDERS" using assms(1) by (simp add: region_ok_def)
  have "chain (fl_next s) (orderList s ! k) (map (padr ?v) (F k))"
    using assms(2,3) by (simp add: free_chains_def)
  then show hd: "orderList s ! k = padr ?v x" "padr ?v x \<noteq> 0"
    and "free_chains (s\<lparr>orderList := (orderList s)[k := fl_next s (padr ?v x)]\<rparr>) (F(k := xs))"
    using assms(2,3) len by (auto simp: free_chains_def assms(4) nth_list_update)
qed

lemma free_chains_push:
  assumes "region_ok s" and "free_chains s F" and "k < ORDERS" and "m < 2 ^ maxOrder s"
    and fresh: "\<And>i. m \<notin> set (F i)" and pages: "\<And>i y. y \<in> set (F i) \<Longrightarrow> y < 2 ^ maxOrder s"
  shows "free_chains
    (s\<lparr>fl_next := (fl_next s)(padr (vstart s) m := orderList s ! k),
       orderList := (orderList s)[k := padr (vstart s) m]\<rparr>) (F(k := m # F k))"
    (is "free_chains ?s ?F")
  unfolding free_chains_def
proof (intro allI impI)
  fix i assume i: "i < ORDERS"
  let ?v = "vstart s" and ?nx = "(fl_next s)(padr (vstart s) m := orderList s ! k)"
  have len: "length (orderList s) = ORDERS" using assms(1) by (simp add: region_ok_def)
  have out: "padr ?v m \<notin> set (map (padr ?v) (F i))"
    using padr_in_map [OF assms(1), of "F i" m] pages fresh assms(4) by auto
  have ci: "chain (fl_next s) (orderList s ! i) (map (padr ?v) (F i))"
    using assms(2) i by (simp add: free_chains_def)
  show "chain (fl_next ?s) (orderList ?s ! i) (map (padr (vstart ?s)) (?F i))"
  proof (cases "i = k")
    case True
    with chain_push [OF ci padr_nonnull [OF assms(1,4)] out] i len show ?thesis by simp
  next
    case False
    from ci out have "chain ?nx (orderList s ! i) (map (padr ?v) (F i))"
      by (simp only: chain_fun_upd simp_thms)
    with False show ?thesis by simp
  qed
qed

text \<open>Splitting the first block of a list, as one turn of \<open>divideOrder\<close> does.\<close>

lemma free_chains_split:
  assumes reg: "region_ok s" and ch: "free_chains s F" and k: "Suc j < ORDERS"
    and Fk: "F (Suc j) = y # ys" and ok: "lists_ok (maxOrder s) F A"
  shows "free_chains
    (s\<lparr>fl_next := (fl_next s)(padr (vstart s) (y + 2 ^ j) := orderList s ! j,
                              padr (vstart s) y := padr (vstart s) (y + 2 ^ j)),
       orderList := (orderList s)[Suc j := fl_next s (padr (vstart s) y), j := padr (vstart s) y]\<rparr>)
    (F(Suc j := ys, j := y # (y + 2 ^ j) # F j))" (is "free_chains ?s3 ?G")
proof -
  let ?v = "vstart s" and ?M = "maxOrder s"
  have okG: "lists_ok ?M ?G A" using ok Fk by (rule lists_ok_split)
  have len: "length (orderList s) = ORDERS" using reg by (simp add: region_ok_def)
  let ?s1 = "s\<lparr>orderList := (orderList s)[Suc j := fl_next s (padr ?v y)]\<rparr>"
  have c1: "free_chains ?s1 (F(Suc j := ys))" using free_chains_pop(3) [OF reg ch k Fk] .
  have page: "x < 2 ^ ?M" if "x \<in> set (?G i)" for x i
    using lists_ok_page(2) [OF okG that] .
  have fresh: "y \<notin> set (?G i) \<and> y + 2 ^ j \<notin> set (?G i)" if "i \<noteq> j" for i
    using that lists_ok_order_unique [OF okG, of y j i]
      lists_ok_order_unique [OF okG, of "y + 2 ^ j" j i] by auto
  have dj: "distinct (?G j)" using okG unfolding lists_ok_def by blast
  have pages1: "x < 2 ^ ?M" if "x \<in> set ((F(Suc j := ys)) i)" for x i
    using page [of x i] that by (cases "i = j") (auto split: if_splits)
  have "y + 2 ^ j \<notin> set ((F(Suc j := ys)) i)" for i
    using fresh [of i] dj by (cases "i = j") auto
  then have c2: "free_chains (?s1\<lparr>fl_next := (fl_next s)(padr ?v (y + 2 ^ j) := orderList s ! j),
      orderList := (orderList ?s1)[j := padr ?v (y + 2 ^ j)]\<rparr>)
      (F(Suc j := ys, j := (y + 2 ^ j) # F j))" (is "free_chains ?s2 ?F2")
    using free_chains_push [of ?s1 "F(Suc j := ys)" j "y + 2 ^ j"] c1 reg k page [of _ j] pages1
    by (simp add: region_ok_def)
  have pages2: "x < 2 ^ ?M" if "x \<in> set (?F2 i)" for x i
    using page [of x i] that by (cases "i = j") (auto split: if_splits)
  have "y \<notin> set (?F2 i)" for i
    using fresh [of i] dj by (cases "i = j") auto
  then show ?thesis
    using free_chains_push [of ?s2 ?F2 j y] c2 reg k page [of y j] pages2 len
    by (simp add: region_ok_def)
qed

lemma divideOrder_refines:
  assumes "t \<le> k" and "k < ORDERS" and "F k \<noteq> []" and "region_ok s" and "free_chains s F"
    and "lists_ok (maxOrder s) F A" and "a_divide t k F = (x, F')"
  shows "\<exists>s'. divideOrder t k s = Inr (padr (vstart s) x, s') \<and> free_chains s' F' \<and> same_table s s'"
  using assms
proof (induction k arbitrary: s F)
  case 0
  obtain y ys where F0: "F 0 = y # ys" using "0.prems"(3) by (cases "F 0") auto
  note pop = free_chains_pop [OF "0.prems"(4,5,2) F0]
  have "x = y" "F' = F(0 := ys)" using "0.prems"(1,7) F0 by (auto simp: a_divide.simps)
  with pop "0.prems"(1,4) show ?case
    by (auto simp: divideOrder.simps same_table_def region_ok_def fun_upd_def)
next
  case (Suc j)
  let ?v = "vstart s"
  obtain y ys where Fk: "F (Suc j) = y # ys" using Suc.prems(3) by (cases "F (Suc j)") auto
  have len: "length (orderList s) = ORDERS" using Suc.prems(4) by (simp add: region_ok_def)
  note pop = free_chains_pop [OF Suc.prems(4,5,2) Fk]
  show ?case
  proof (cases "t = Suc j")
    case True
    then have "x = y" "F' = F(Suc j := ys)" using Suc.prems(7) Fk by (auto simp: a_divide.simps)
    with True pop Suc.prems(2) len show ?thesis
      by (auto simp: divideOrder.simps same_table_def fun_upd_def)
  next
    case False
    let ?G = "F(Suc j := ys, j := y # (y + 2 ^ j) # F j)"
    let ?s = "s\<lparr>fl_next := (fl_next s)(padr ?v (y + 2 ^ j) := orderList s ! j,
                                      padr ?v y := padr ?v (y + 2 ^ j)),
                orderList := (orderList s)[Suc j := fl_next s (padr ?v y), j := padr ?v y]\<rparr>"
    have step: "divideOrder t (Suc j) s = divideOrder t j ?s"
      using False pop len Suc.prems(2)
      by (simp add: divideOrder.simps [of t "Suc j" s] Let_def padr_add
          del: of_nat_mult of_nat_power)
    have ch: "free_chains ?s ?G" using free_chains_split [OF Suc.prems(4,5,2) Fk Suc.prems(6)] .
    have ok: "lists_ok (maxOrder ?s) ?G A" using lists_ok_split [OF Suc.prems(6) Fk] by simp
    have div: "a_divide t j ?G = (x, F')" using Suc.prems(7) False by (simp add: a_divide.simps Fk)
    have reg: "region_ok ?s" using Suc.prems(4) by (simp add: region_ok_def)
    have "t \<le> j" "j < ORDERS" "?G j \<noteq> []" using False Suc.prems(1,2) by simp_all
    then have "\<exists>s'. divideOrder t j ?s = Inr (padr (vstart ?s) x, s') \<and> free_chains s' F' \<and>
        same_table ?s s'"
      using reg ch ok div by (rule Suc.IH)
    then obtain s' where s': "divideOrder t j ?s = Inr (padr ?v x, s')" "free_chains s' F'"
      "same_table ?s s'" by auto
    have "same_table s ?s" by simp
    then have "same_table s s'" using s'(3) by (rule same_table_trans)
    with s' step show ?thesis by simp
  qed
qed

text \<open>
  The address that \<open>mergeOrder\<close> computes for the buddy, and the page where the joined block starts.
\<close>

lemma merge_addresses:
  assumes "region_ok s" and "x < 2 ^ maxOrder s" and "2 ^ k dvd x"
  shows "((sint (padr (vstart s) x) - sint (vstart s)) mod (PGSIZE * 2 ^ Suc k) = 0)
           \<longleftrightarrow> 2 ^ Suc k dvd x" (is ?aligned)
    and "(if 2 ^ Suc k dvd x then padr (vstart s) x + word_of_int (PGSIZE * 2 ^ Suc k div 2)
          else padr (vstart s) x - word_of_int (PGSIZE * 2 ^ Suc k div 2))
         = padr (vstart s) (buddy_of k x)" (is ?buddy)
    and "min x (buddy_of k x) = (if 2 ^ Suc k dvd x then x else buddy_of k x)" (is ?start)
proof -
  have "(int x * PGSIZE) mod (PGSIZE * 2 ^ Suc k) = 0 \<longleftrightarrow> (2 ^ Suc k :: int) dvd int x"
    by (simp only: mult.commute [of "int x"] mod_eq_0_iff_dvd dvd_mult_cancel_left) simp
  also have "\<dots> \<longleftrightarrow> 2 ^ Suc k dvd x"
    using int_dvd_int_iff [of "2 ^ Suc k" x] by simp
  finally show ?aligned by (simp add: sint_padr_diff [OF assms(1,2)])
  have half: "(word_of_int (PGSIZE * 2 ^ Suc k div 2) :: u32) = of_nat (2 ^ k * PGSIZE)"
    by simp
  show ?buddy ?start
  proof (atomize (full), cases "2 ^ Suc k dvd x")
    case True
    then show "?buddy \<and> ?start"
      unfolding half by (simp add: buddy_of_def padr_add del: of_nat_mult of_nat_power)
  next
    case False
    with assms(3) obtain y where y: "x = y + 2 ^ k" "2 ^ Suc k dvd y" by (rule dvd_not_next)
    then have "2 ^ k \<le> x" by simp
    with False show "?buddy \<and> ?start"
      unfolding half by (simp add: buddy_of_def padr_diff del: of_nat_mult of_nat_power)
  qed
qed

text \<open>
  Taking the first block of a list and its buddy, found by the search, off the list, as one turn of
  \<open>mergeOrder\<close> does.
\<close>

lemma merge_unlink:
  assumes reg: "region_ok s" and ch: "free_chains s F" and k: "k < ORDERS"
    and Fk: "F k = x # us @ b # vs" and ok: "lists_ok (maxOrder s) F A"
  defines "c \<equiv> fl_next s (padr (vstart s) x)"
  obtains prev where
    "find_node (fl_next s) (\<lambda>c. c = padr (vstart s) b) c c [] = Inr (prev, padr (vstart s) b)"
    and "free_chains (if prev = padr (vstart s) b
        then s\<lparr>orderList := (orderList s)[k := fl_next s (padr (vstart s) b)]\<rparr>
        else s\<lparr>fl_next := (fl_next s)(prev := fl_next s (padr (vstart s) b)),
               orderList := (orderList s)[k := c]\<rparr>) (F(k := us @ vs))"
proof
  let ?v = "vstart s"
  let ?us = "map (padr ?v) us" and ?vs = "map (padr ?v) vs" and ?prev = "last (c # map (padr ?v) us)"
  have len: "length (orderList s) = ORDERS" using reg by (simp add: region_ok_def)
  have "chain (fl_next s) (orderList s ! k) (map (padr ?v) (F k))"
    using ch k by (simp add: free_chains_def)
  then have cxs: "chain (fl_next s) c (?us @ padr ?v b # ?vs)" by (auto simp: Fk c_def)
  have bus: "padr ?v b \<notin> set ?us" using chain_distinct [OF cxs] by auto
  then show "find_node (fl_next s) (\<lambda>c. c = padr ?v b) c c [] = Inr (?prev, padr ?v b)"
    using cxs by (intro find_node_present [of _ _ _ _ ?vs]) (auto simp del: set_map)
  have prev: "?prev = padr ?v b \<longleftrightarrow> us = []"
  proof (cases us rule: rev_cases)
    case Nil
    with cxs show ?thesis by auto
  next
    case (snoc ws w)
    with bus show ?thesis by auto
  qed
  have other: "chain ((fl_next s)(last ?us := fl_next s (padr ?v b))) (orderList s ! i) (map (padr ?v) (F i))"
    if "i < ORDERS" "i \<noteq> k" "us \<noteq> []" for i
  proof -
    have last: "last us \<in> set (F k)" using that(3) Fk by simp
    then have "last us \<notin> set (F i)" using lists_ok_order_unique [OF ok] that(2) by blast
    with last have "last ?us \<notin> set (map (padr ?v) (F i))"
      using padr_notin [OF reg ok lists_ok_page(2) [OF ok last], of i] that(3) by (simp add: last_map)
    moreover have "chain (fl_next s) (orderList s ! i) (map (padr ?v) (F i))"
      using ch that(1) by (simp add: free_chains_def)
    ultimately show ?thesis by (simp only: chain_fun_upd simp_thms)
  qed
  show "free_chains (if ?prev = padr ?v b
        then s\<lparr>orderList := (orderList s)[k := fl_next s (padr ?v b)]\<rparr>
        else s\<lparr>fl_next := (fl_next s)(?prev := fl_next s (padr ?v b)),
               orderList := (orderList s)[k := c]\<rparr>) (F(k := us @ vs))"
    using ch other chain_remove [OF cxs] len
    unfolding prev by (cases "us = []") (auto simp: free_chains_def nth_list_update)
qed

lemma mergeOrder_refines:
  assumes "F k \<noteq> []" and "k < ORDERS" and "region_ok s" and "free_chains s F"
    and "lists_ok (maxOrder s) F A"
  shows "\<exists>s'. mergeOrder k s = Inr s' \<and> free_chains s' (a_merge ORDERS k F) \<and> same_table s s'"
  using assms
proof (induction "ORDERS" k F arbitrary: s rule: a_merge.induct)
  case (1 k F)
  let ?v = "vstart s" and ?M = "maxOrder s"
  obtain x xs where Fk: "F k = x # xs" using "1.prems"(1) by (cases "F k") auto
  let ?b = "buddy_of k x" and ?m = "min x (buddy_of k x)" and ?c = "fl_next s (padr ?v x)"
  have len: "length (orderList s) = ORDERS" and M: "?M < ORDERS"
    using "1.prems"(3) by (simp_all add: region_ok_def)
  have "chain (fl_next s) (orderList s ! k) (map (padr ?v) (F k))"
    using "1.prems"(2,4) by (simp add: free_chains_def)
  then have hd: "orderList s ! k = padr ?v x" "padr ?v x \<noteq> 0"
    and cxs: "chain (fl_next s) ?c (map (padr ?v) xs)"
    by (auto simp: Fk)
  note x = lists_ok_page [OF "1.prems"(5), of x k, unfolded Fk, simplified]
  note addr = merge_addresses [OF "1.prems"(3) x(2,4)]
  have "(2::int) ^ Suc k \<le> 2 ^ 18" using x(1) "1.prems"(3) by (intro power_increasing) (simp_all add: region_ok_def)
  then have small: "\<not> (PGSIZE * 2 ^ Suc k > (0x7FFFFFFF::int))" by simp
  have unfold: "mergeOrder k s =
      bindE (find_node (fl_next s) (\<lambda>c. c = padr ?v ?b) ?c ?c []) (\<lambda>(prevList, cand).
      if cand = 0 then Inr s
      else
        let s1 = s\<lparr>orderList := (orderList s)[k := ?c]\<rparr>;
            s2 = (if prevList = cand
                  then s1\<lparr>orderList := (orderList s1)[k := fl_next s1 cand]\<rparr>
                  else s1\<lparr>fl_next := (fl_next s1)(prevList := fl_next s1 cand)\<rparr>)
        in if Suc k < length (orderList s2)
           then mergeOrder (Suc k)
                  (s2\<lparr>fl_next := (fl_next s2)(padr ?v ?m := orderList s2 ! Suc k),
                      orderList := (orderList s2)[Suc k := padr ?v ?m]\<rparr>)
           else Inl Wild)"
    unfolding mergeOrder.simps [of k s] addr(3)
    using "1.prems"(2) len hd addr(1,2) small
    by (auto simp: Let_def simp del: power_Suc intro!: arg_cong2 [where f = bindE])
  have bM: "?b \<le> 2 ^ ?M" using x(3) by (auto simp: buddy_of_def)
  have pages: "\<forall>y \<in> set xs. y < 2 ^ ?M"
    using lists_ok_page(2) [OF "1.prems"(5), of _ k] Fk by simp
  show ?case
  proof (cases "?b \<in> set xs")
    case False
    then have "padr ?v ?b \<notin> set (map (padr ?v) xs)"
      using padr_in_map [OF "1.prems"(3) pages bM] by simp
    then have "find_node (fl_next s) (\<lambda>c. c = padr ?v ?b) ?c ?c [] =
        Inr (last (?c # map (padr ?v) xs), 0)"
      using cxs by (intro find_node_absent) (auto simp del: set_map)
    then show ?thesis using False "1.prems"(4) by (simp add: unfold a_merge.simps Fk)
  next
    case True
    then obtain us vs where xs: "xs = us @ ?b # vs" and us: "?b \<notin> set us"
      by (meson split_list_first)
    have rem: "remove1 ?b xs = us @ vs" using xs us by (simp add: remove1_append)
    let ?H = "F(k := us @ vs)" and ?G = "F(k := us @ vs, Suc k := ?m # F (Suc k))"
    have okG: "lists_ok ?M ?G A" using lists_ok_join [OF "1.prems"(5) Fk True] rem by simp
    note m = lists_ok_page(1,2) [OF okG, of ?m "Suc k", simplified]
    have SucM: "Suc k < ORDERS" using m(1) M by simp
    have pagesH: "y < 2 ^ ?M" if "y \<in> set (?H i)" for y i
      using that lists_ok_page(2) [OF okG, of y i] by (cases "i = Suc k") (auto split: if_splits)
    have "distinct (?G (Suc k))" using okG unfolding lists_ok_def by blast
    then have fresh: "?m \<notin> set (?H i)" for i
      using lists_ok_order_unique [OF okG, of ?m "Suc k" i] by (cases "i = Suc k") auto
    have "padr ?v ?b \<in> set (map (padr ?v) xs)" using True by simp
    then have b0: "padr ?v ?b \<noteq> 0" using chain_null_notin [OF cxs] by metis
    from Fk xs have Fk': "F k = x # us @ ?b # vs" by simp
    obtain prev s2 where found: "find_node (fl_next s) (\<lambda>c. c = padr ?v ?b) ?c ?c [] = Inr (prev, padr ?v ?b)"
      and s2: "s2 = (if prev = padr ?v ?b
        then s\<lparr>orderList := (orderList s)[k := fl_next s (padr ?v ?b)]\<rparr>
        else s\<lparr>fl_next := (fl_next s)(prev := fl_next s (padr ?v ?b)),
               orderList := (orderList s)[k := ?c]\<rparr>)" and ch2: "free_chains s2 ?H"
      by (rule merge_unlink [OF "1.prems"(3,4,2) Fk' "1.prems"(5)]) blast
    let ?s3 = "s2\<lparr>fl_next := (fl_next s2)(padr ?v ?m := orderList s2 ! Suc k),
                  orderList := (orderList s2)[Suc k := padr ?v ?m]\<rparr>"
    have step: "mergeOrder k s = mergeOrder (Suc k) ?s3"
      unfolding unfold found using b0 SucM len by (auto simp: s2 Let_def)
    have st2: "same_table s s2" by (simp add: s2 same_table_def)
    note st2f = same_table_fields [OF st2]
    have "same_table s2 ?s3" by simp
    with st2 have st3: "same_table s ?s3" by (rule same_table_trans)
    have "free_chains ?s3 ?G"
      using free_chains_push [of s2 ?H "Suc k" ?m] ch2 SucM m(2) fresh pagesH "1.prems"(3) st2f
      by (simp add: fun_upd_def)
    moreover have "region_ok ?s3" "maxOrder ?s3 = ?M"
      using "1.prems"(3) same_table_fields [OF st3] by blast+
    moreover have "\<not> (F k = [] \<or> buddy_of k (hd (F k)) \<notin> set (tl (F k)) \<or> \<not> Suc k < ORDERS)"
      using True SucM Fk by simp
    ultimately have "\<exists>s'. mergeOrder (Suc k) ?s3 = Inr s' \<and>
        free_chains s' (a_merge ORDERS (Suc k) ?G) \<and> same_table ?s3 s'"
      using "1.hyps" [of ?s3] okG SucM by (simp add: Fk rem fun_upd_def)
    moreover have "a_merge ORDERS k F = a_merge ORDERS (Suc k) ?G"
      using True SucM by (simp add: a_merge.simps [of ORDERS k F] Fk rem)
    ultimately show ?thesis using step st3 same_table_trans by auto
  qed
qed

end
