(* ===== verification/Buddy_Table.thy ===== *)
theory Buddy_Table
  imports Buddy
begin

text \<open>
  The hash table of block sizes of \<^verbatim>\<open>buddy.c\<close> and the pool its nodes come from.  \<open>table_ok s N L T\<close>
  relates the memory of the table to a map: \<open>N h\<close> are the nodes of bucket \<open>h\<close> in the order of the
  chain, \<open>L\<close> is the chain of free \<^verbatim>\<open>NODELIST\<close> cells, \<open>T\<close> is the map from addresses to sizes that the
  table stands for.  \<open>addSize\<close> and \<open>removeSize\<close> are shown to be the update and the removal of \<open>T\<close>.
\<close>

section \<open>The table as a map\<close>

definition nodes :: "(nat \<Rightarrow> u32 list) \<Rightarrow> u32 set" where
  "nodes N = (\<Union>h < HASHSIZE. set (N h))"

definition table_ok :: "buddy \<Rightarrow> (nat \<Rightarrow> u32 list) \<Rightarrow> u32 list \<Rightarrow> (u32 \<rightharpoonup> int) \<Rightarrow> bool" where
  "table_ok s N L T \<longleftrightarrow>
     (\<forall>h < HASHSIZE. chain (nd_next s) (bucket s ! h) (N h)) \<and>
     (\<forall>h < HASHSIZE. \<forall>n \<in> set (N h). hashFunc (nd_key s n) = h) \<and>
     chain (nl_next s) (freeNodeList s) L \<and>
     (\<forall>l \<in> set L. nl_address s l \<noteq> 0 \<and> nl_address s l \<notin> nodes N) \<and>
     inj_on (nl_address s) (set L) \<and>
     (\<forall>n \<in> nodes N. nd_list s n \<noteq> 0 \<and> nl_address s (nd_list s n) = n \<and> nd_list s n \<notin> set L) \<and>
     inj_on (nd_key s) (nodes N) \<and>
     dom T = nd_key s ` nodes N \<and> (\<forall>n \<in> nodes N. T (nd_key s n) = Some (nd_value s n))"

text \<open>The number of nodes that exist, in the table or in the pool.\<close>

definition pool_size :: "(nat \<Rightarrow> u32 list) \<Rightarrow> u32 list \<Rightarrow> nat" where
  "pool_size N L = (\<Sum>h < HASHSIZE. length (N h)) + length L"

text \<open>The fields that the table operations leave alone.\<close>

definition same_lists :: "buddy \<Rightarrow> buddy \<Rightarrow> bool" where
  "same_lists s s' \<longleftrightarrow> orderList s' = orderList s \<and> fl_next s' = fl_next s \<and>
     vstart s' = vstart s \<and> maxOrder s' = maxOrder s \<and> length (bucket s') = length (bucket s)"

lemma hashFunc_less [simp]: "hashFunc k < HASHSIZE"
  by (simp add: hashFunc_def)

lemma nodesI: "n \<in> set (N h) \<Longrightarrow> h < HASHSIZE \<Longrightarrow> n \<in> nodes N"
  by (auto simp: nodes_def)

lemma finite_nodes [simp]: "finite (nodes N)"
  by (simp add: nodes_def)

lemma nodes_upd: "h < HASHSIZE \<Longrightarrow> nodes (N(h := ns)) = set ns \<union> (\<Union>i \<in> {..<HASHSIZE} - {h}. set (N i))"
  by (auto simp: nodes_def split: if_splits)

lemma nodes_push: "h < HASHSIZE \<Longrightarrow> nodes (N(h := n # N h)) = insert n (nodes N)"
  by (auto simp: nodes_def split: if_splits)

lemma table_ok_hash:
  "table_ok s N L T \<Longrightarrow> n \<in> set (N h) \<Longrightarrow> h < HASHSIZE \<Longrightarrow> hashFunc (nd_key s n) = h"
  by (simp add: table_ok_def)

lemma table_ok_bucket_unique:
  assumes "table_ok s N L T" and "n \<in> set (N h)" and "n \<in> set (N i)" and "h < HASHSIZE" and "i < HASHSIZE"
  shows "h = i"
  using table_ok_hash [OF assms(1,2,4)] table_ok_hash [OF assms(1,3,5)] by simp

lemma table_ok_chain: "table_ok s N L T \<Longrightarrow> h < HASHSIZE \<Longrightarrow> chain (nd_next s) (bucket s ! h) (N h)"
  by (simp add: table_ok_def)

text \<open>The number of entries is the number of nodes.\<close>

lemma table_ok_card:
  assumes "table_ok s N L T"
  shows "card (dom T) = (\<Sum>h < HASHSIZE. length (N h))"
proof -
  have "card (dom T) = card (nodes N)"
    using assms by (simp add: table_ok_def card_image)
  also have "\<dots> = (\<Sum>h < HASHSIZE. card (set (N h)))"
    unfolding nodes_def
    by (rule card_UN_disjoint) (use table_ok_bucket_unique [OF assms] in blast)+
  also have "\<dots> = (\<Sum>h < HASHSIZE. length (N h))"
    using table_ok_chain [OF assms, THEN chain_distinct] by (intro sum.cong) (auto simp: distinct_card)
  finally show ?thesis .
qed

section \<open>Adding an entry\<close>

lemma addSize_ok:
  assumes T: "table_ok s N (l # L) T" and fresh: "T a = None" and len: "length (bucket s) = HASHSIZE"
  defines "n \<equiv> nl_address s l" and "h \<equiv> hashFunc a"
  shows "\<exists>s'. addSize a v s = Inr s' \<and> table_ok s' (N(h := n # N h)) L (T(a \<mapsto> v)) \<and> same_lists s s'"
proof -
  have h: "h < HASHSIZE" by (simp add: h_def)
  have l: "l \<noteq> 0" "freeNodeList s = l" and cl: "chain (nl_next s) (nl_next s l) L" "l \<notin> set L"
    using T chain_distinct [of "nl_next s" "freeNodeList s" "l # L"] by (auto simp: table_ok_def)
  have n: "n \<noteq> 0" "n \<notin> nodes N" using T by (auto simp: table_ok_def n_def)
  have nb: "n \<notin> set (N i)" if "i < HASHSIZE" for i using n(2) that by (auto simp: nodes_def)
  have a: "a \<notin> nd_key s ` nodes N" using T fresh by (auto simp: table_ok_def)
  let ?s = "s\<lparr>nd_list := (nd_list s)(n := l), freeNodeList := nl_next s l,
      nd_key := (nd_key s)(n := a), nd_value := (nd_value s)(n := v),
      nd_next := (nd_next s)(n := bucket s ! h), bucket := (bucket s)[h := n]\<rparr>"
  have "addSize a v s = Inr ?s"
    using l n(1) h len by (simp add: addSize_def createNode_def n_def [symmetric] h_def [symmetric] Let_def)
  moreover have "same_lists s ?s" by (simp add: same_lists_def)
  moreover have "table_ok ?s (N(h := n # N h)) L (T(a \<mapsto> v))"
    unfolding table_ok_def nodes_push [OF h]
  proof (intro conjI)
    show "\<forall>i<HASHSIZE. chain (nd_next ?s) (bucket ?s ! i) ((N(h := n # N h)) i)"
      using table_ok_chain [OF T] nb n(1) len by (auto simp: nth_list_update)
    show "\<forall>i<HASHSIZE. \<forall>m\<in>set ((N(h := n # N h)) i). hashFunc (nd_key ?s m) = i"
      using table_ok_hash [OF T] nb h by (auto simp: h_def split: if_splits)
    show "inj_on (nl_address ?s) (set L)" "chain (nl_next ?s) (freeNodeList ?s) L"
      using T cl by (auto simp: table_ok_def)
    show "\<forall>m\<in>set L. nl_address ?s m \<noteq> 0 \<and> nl_address ?s m \<notin> insert n (nodes N)"
      using T cl(2) by (auto simp: table_ok_def n_def inj_on_def)
    show "\<forall>m\<in>insert n (nodes N). nd_list ?s m \<noteq> 0 \<and> nl_address ?s (nd_list ?s m) = m \<and>
        nd_list ?s m \<notin> set L"
      using T cl(2) l(1) by (auto simp: table_ok_def n_def)
    show "inj_on (nd_key ?s) (insert n (nodes N))"
      using T a n(2) by (auto simp: table_ok_def inj_on_def)
    show "dom (T(a \<mapsto> v)) = nd_key ?s ` insert n (nodes N)"
      using T n(2) by (auto simp: table_ok_def)
    show "\<forall>m\<in>insert n (nodes N). (T(a \<mapsto> v)) (nd_key ?s m) = Some (nd_value ?s m)"
      using T n(2) a by (auto simp: table_ok_def)
  qed
  ultimately show ?thesis by blast
qed

section \<open>Removing an entry\<close>

lemma removeSize_absent:
  assumes T: "table_ok s N L T" and absent: "T a = None" and len: "length (bucket s) = HASHSIZE"
  shows "removeSize a s = Inr (-1, s)"
proof -
  let ?h = "hashFunc a"
  have "nd_key s n \<noteq> a" if "n \<in> set (N ?h)" for n
    using that T absent nodesI [of n N ?h] hashFunc_less [of a] by (auto simp: table_ok_def)
  then have "find_node (nd_next s) (\<lambda>n. nd_key s n = a) (bucket s ! ?h) (bucket s ! ?h) [] =
      Inr (last (bucket s ! ?h # N ?h), 0)"
    using table_ok_chain [OF T hashFunc_less] by (intro find_node_absent) auto
  then show ?thesis using len by (simp add: removeSize_def)
qed

text \<open>Where the search for a key that is present ends.\<close>

lemma removeSize_find:
  assumes T: "table_ok s N L T" and present: "T a = Some v"
  defines "h \<equiv> hashFunc a"
  obtains us n vs where "N h = us @ n # vs" and "nd_key s n = a" and "nd_value s n = v"
    and "find_node (nd_next s) (\<lambda>n. nd_key s n = a) (bucket s ! h) (bucket s ! h) [] =
         Inr (last (bucket s ! h # us), n)"
    and "last (bucket s ! h # us) = n \<longleftrightarrow> us = []"
proof -
  have "a \<in> dom T" using present by blast
  then obtain n where n: "n \<in> nodes N" "nd_key s n = a" using T by (auto simp: table_ok_def)
  then obtain i where i: "i < HASHSIZE" "n \<in> set (N i)" by (auto simp: nodes_def)
  with n(2) have nh: "n \<in> set (N h)" using table_ok_hash [OF T i(2,1)] by (simp add: h_def)
  have v: "nd_value s n = v" using T n present by (auto simp: table_ok_def)
  have h: "h < HASHSIZE" by (simp add: h_def)
  obtain us vs where N: "N h = us @ n # vs" using nh by (meson split_list)
  have ch: "chain (nd_next s) (bucket s ! h) (us @ n # vs)" using table_ok_chain [OF T h] N by simp
  have dis: "n \<notin> set us" using chain_distinct [OF ch] by simp
  have "nd_key s m \<noteq> a" if "m \<in> set us" for m
  proof
    assume "nd_key s m = a"
    moreover have "m \<in> nodes N" using that N h by (auto intro: nodesI [of _ _ h])
    ultimately have "m = n" using T n by (auto simp: table_ok_def inj_on_def)
    with that dis show False by simp
  qed
  then have "find_node (nd_next s) (\<lambda>n. nd_key s n = a) (bucket s ! h) (bucket s ! h) [] =
      Inr (last (bucket s ! h # us), n)"
    using ch n(2) by (intro find_node_present [of _ _ _ _ vs]) auto
  moreover have "last (bucket s ! h # us) = n \<longleftrightarrow> us = []"
  proof (cases us rule: rev_cases)
    case Nil
    with ch show ?thesis by auto
  next
    case (snoc ws w)
    with dis show ?thesis by auto
  qed
  ultimately show ?thesis using that N n(2) v by blast
qed

lemma removeSize_ok:
  assumes T: "table_ok s N L T" and present: "T a = Some v" and len: "length (bucket s) = HASHSIZE"
  shows "\<exists>s' N' L'. removeSize a s = Inr (v, s') \<and> table_ok s' N' L' (T(a := None)) \<and>
    pool_size N' L' = pool_size N L \<and> same_lists s s'"
proof -
  define h where "h = hashFunc a"
  have h: "h < HASHSIZE" by (simp add: h_def)
  obtain us n vs where N: "N h = us @ n # vs" and n: "nd_key s n = a" "nd_value s n = v"
    and find: "find_node (nd_next s) (\<lambda>n. nd_key s n = a) (bucket s ! h) (bucket s ! h) [] =
         Inr (last (bucket s ! h # us), n)"
    and prev: "last (bucket s ! h # us) = n \<longleftrightarrow> us = []"
    using removeSize_find [OF T present] unfolding h_def by blast
  have ch: "chain (nd_next s) (bucket s ! h) (us @ n # vs)" using table_ok_chain [OF T h] N by simp
  have dis: "distinct (us @ n # vs)" using chain_distinct [OF ch] .
  have n0: "n \<noteq> 0" and nN: "n \<in> nodes N" using chain_null_notin [OF ch] N h
    by (auto intro: nodesI [of _ _ h])
  let ?l = "nd_list s n" and ?N = "N(h := us @ vs)"
  have l: "?l \<noteq> 0" "nl_address s ?l = n" "?l \<notin> set L" using T nN by (auto simp: table_ok_def)
  define s1 where "s1 = (if us = [] then s\<lparr>bucket := (bucket s)[h := nd_next s n]\<rparr>
     else s\<lparr>nd_next := (nd_next s)(last us := nd_next s n)\<rparr>)"
  let ?s = "s1\<lparr>nl_next := (nl_next s)(?l := freeNodeList s), freeNodeList := ?l\<rparr>"
  have fields: "nd_list s1 = nd_list s" "nd_value s1 = nd_value s" "nd_key s1 = nd_key s"
    "nl_next s1 = nl_next s" "freeNodeList s1 = freeNodeList s" "nl_address s1 = nl_address s"
    by (auto simp: s1_def)
  have "removeSize a s = Inr (v, ?s)"
    using n0 l(1) len h n(2) prev
    by (simp add: removeSize_def h_def [symmetric] find Let_def)
       (auto simp: s1_def)
  moreover have "same_lists s ?s" by (simp add: same_lists_def s1_def)
  moreover have "pool_size ?N (?l # L) = pool_size N L"
    using h N by (auto simp: pool_size_def numeral_3_eq_3 less_Suc_eq)
  moreover have "table_ok ?s ?N (?l # L) (T(a := None))"
  proof -
    have nodes: "nodes ?N = nodes N - {n}"
    proof -
      have "n \<notin> set (N i)" if "i < HASHSIZE" "i \<noteq> h" for i
        using table_ok_bucket_unique [OF T, of n h i] N that h by auto
      with dis N h show ?thesis unfolding nodes_upd [OF h] by (auto simp: nodes_def)
    qed
    have last: "us \<noteq> [] \<Longrightarrow> last us \<notin> set (N i)" if "i < HASHSIZE" "i \<noteq> h" for i
      using table_ok_bucket_unique [OF T, of "last us" h i] N that h by auto
    have cells: "\<forall>m \<in> nodes N. nl_address s (nd_list s m) = m" using T by (simp add: table_ok_def)
    have other: "nd_list s m \<noteq> ?l" if "m \<in> nodes N - {n}" for m
      using that l(2) cells by (metis Diff_iff singletonI)
    show ?thesis
      unfolding table_ok_def nodes
    proof (intro conjI)
      have "chain (nd_next s1) (bucket s1 ! h) (us @ vs)"
        using chain_remove [OF ch] h len by (auto simp: s1_def)
      moreover have "chain (nd_next s1) (bucket s1 ! i) (N i)" if "i < HASHSIZE" "i \<noteq> h" for i
        using table_ok_chain [OF T that(1)] last [OF that] that(2) by (auto simp: s1_def)
      ultimately show "\<forall>i<HASHSIZE. chain (nd_next ?s) (bucket ?s ! i) (?N i)" by auto
      show "\<forall>i<HASHSIZE. \<forall>m\<in>set (?N i). hashFunc (nd_key ?s m) = i"
        using table_ok_hash [OF T] N h fields by (auto split: if_splits)
      show "chain (nl_next ?s) (freeNodeList ?s) (?l # L)"
        using T l by (auto simp: table_ok_def fields)
      show "\<forall>m\<in>set (?l # L). nl_address ?s m \<noteq> 0 \<and> nl_address ?s m \<notin> nodes N - {n}"
        using T l n0 by (auto simp: table_ok_def fields)
      show "inj_on (nl_address ?s) (set (?l # L))"
        using T l nN by (auto simp: table_ok_def fields)
      show "\<forall>m\<in>nodes N - {n}. nd_list ?s m \<noteq> 0 \<and> nl_address ?s (nd_list ?s m) = m \<and>
          nd_list ?s m \<notin> set (?l # L)"
        using T other by (auto simp: table_ok_def fields)
      show "inj_on (nd_key ?s) (nodes N - {n})"
        using T by (auto simp: table_ok_def fields inj_on_def)
      show "dom (T(a := None)) = nd_key ?s ` (nodes N - {n})"
        using T nN n by (auto simp: table_ok_def fields inj_on_def)
      show "\<forall>m\<in>nodes N - {n}. (T(a := None)) (nd_key ?s m) = Some (nd_value ?s m)"
        using T nN n by (auto simp: table_ok_def fields inj_on_def)
    qed
  qed
  ultimately show ?thesis by blast
qed

end
