(* ===== verification/Buddy_Inv.thy ===== *)
theory Buddy_Inv
  imports Buddy_Refine Buddy_Table
begin

text \<open>
  The invariant of the buddy allocator and its operations.  \<open>buddy_inv s T\<close> says that the state \<open>s\<close>
  is well formed and that the blocks handed out are those of the map \<open>T\<close> from addresses to sizes:
  the live blocks and the free blocks together tile the region, no two buddies are both free, the
  table of sizes stands for \<open>T\<close>, and there are at least as many table nodes as pages.
  \<open>dmalloc_buddy\<close> and \<open>dfree_buddy\<close> are characterised completely in terms of \<open>T\<close>.
\<close>

section \<open>The order of a size\<close>

lemma calOrder_loop_ok:
  assumes "sz \<le> 2 ^ 30" and "k \<le> 18" and "0 < k \<Longrightarrow> PGSIZE * 2 ^ (k - 1) < sz"
  shows "\<exists>n \<le> 18. calOrder_loop (PGSIZE * 2 ^ k) k sz = Inr n \<and> sz \<le> PGSIZE * 2 ^ n \<and>
    (0 < n \<longrightarrow> PGSIZE * 2 ^ (n - 1) < sz)"
  using assms
proof (induction "18 - k" arbitrary: k)
  case 0
  then have "k = 18" by simp
  with 0 show ?case by (auto simp: calOrder_loop.simps [of _ 18])
next
  case (Suc m)
  show ?case
  proof (cases "PGSIZE * 2 ^ k < sz")
    case False
    with Suc.prems show ?thesis by (auto simp: calOrder_loop.simps [of _ k])
  next
    case True
    have "(2::int) ^ k \<le> 2 ^ 17" using Suc.hyps(2) by (intro power_increasing) auto
    then have "calOrder_loop (PGSIZE * 2 ^ k) k sz = calOrder_loop (PGSIZE * 2 ^ Suc k) (Suc k) sz"
      using True by (subst calOrder_loop.simps) (simp add: mult.commute)
    moreover have "\<exists>n \<le> 18. calOrder_loop (PGSIZE * 2 ^ Suc k) (Suc k) sz = Inr n \<and>
        sz \<le> PGSIZE * 2 ^ n \<and> (0 < n \<longrightarrow> PGSIZE * 2 ^ (n - 1) < sz)"
      using Suc.hyps(2) Suc.prems(1) True by (intro Suc.hyps(1)) auto
    ultimately show ?thesis by simp
  qed
qed

lemma calOrder_total: "sz \<le> 2 ^ 30 \<Longrightarrow> \<exists>n \<le> 18. calOrder sz = Inr n \<and> sz \<le> PGSIZE * 2 ^ n \<and>
    (0 < n \<longrightarrow> PGSIZE * 2 ^ (n - 1) < sz)"
  using calOrder_loop_ok [of sz 0] by (simp add: calOrder_def)

lemma calOrder_loop_overflow:
  assumes "2 ^ 30 < sz" and "k \<le> 18"
  shows "calOrder_loop (PGSIZE * 2 ^ k) k sz = Inl Wild"
  using assms
proof (induction "18 - k" arbitrary: k)
  case 0
  then have "k = 18" by simp
  with 0 show ?case by (simp add: calOrder_loop.simps [of _ 18])
next
  case (Suc m)
  have "(2::int) ^ k \<le> 2 ^ 17" using Suc.hyps(2) by (intro power_increasing) auto
  then have "calOrder_loop (PGSIZE * 2 ^ k) k sz = calOrder_loop (PGSIZE * 2 ^ Suc k) (Suc k) sz"
    using Suc.prems by (subst calOrder_loop.simps) (simp add: mult.commute)
  also have "\<dots> = Inl Wild" using Suc.hyps(2) Suc.prems(1) by (intro Suc.hyps(1)) auto
  finally show ?case .
qed

lemma calOrder_overflow: "2 ^ 30 < sz \<Longrightarrow> calOrder sz = Inl Wild"
  using calOrder_loop_overflow [of sz 0] by (simp add: calOrder_def)

lemma calOrder_Inr:
  assumes "calOrder sz = Inr n"
  shows "sz \<le> PGSIZE * 2 ^ n" and "sz \<le> 2 ^ 30"
proof -
  show le: "sz \<le> 2 ^ 30" using assms calOrder_overflow [of sz] by force
  show "sz \<le> PGSIZE * 2 ^ n" using calOrder_total [OF le] assms by auto
qed

section \<open>The invariant\<close>

definition live :: "buddy \<Rightarrow> (u32 \<rightharpoonup> int) \<Rightarrow> (nat \<times> nat) set" where
  "live s T = {(k, x). x < 2 ^ maxOrder s \<and>
     (\<exists>v. T (padr (vstart s) x) = Some v \<and> calOrder v = Inr k)}"

definition entries_ok :: "buddy \<Rightarrow> (u32 \<rightharpoonup> int) \<Rightarrow> bool" where
  "entries_ok s T \<longleftrightarrow> (\<forall>a v. T a = Some v \<longrightarrow>
     (\<exists>x < 2 ^ maxOrder s. a = padr (vstart s) x) \<and> 0 < v \<and> (\<exists>k. calOrder v = Inr k))"

definition buddy_inv :: "buddy \<Rightarrow> (u32 \<rightharpoonup> int) \<Rightarrow> bool" where
  "buddy_inv s T \<longleftrightarrow> region_ok s \<and> entries_ok s T \<and>
     (\<exists>F N L. free_chains s F \<and> table_ok s N L T \<and> 2 ^ maxOrder s \<le> pool_size N L \<and>
              buddy_ok (maxOrder s) F (live s T))"

lemma buddy_invI:
  "region_ok s \<Longrightarrow> entries_ok s T \<Longrightarrow> free_chains s F \<Longrightarrow> table_ok s N L T \<Longrightarrow>
   2 ^ maxOrder s \<le> pool_size N L \<Longrightarrow> buddy_ok (maxOrder s) F (live s T) \<Longrightarrow> buddy_inv s T"
  unfolding buddy_inv_def by blast

lemma same_table_table_ok:
  assumes "same_table s s'"
  shows "table_ok s' N L T \<longleftrightarrow> table_ok s N L T"
proof -
  have eq: "s' = s\<lparr>orderList := orderList s', fl_next := fl_next s'\<rparr>"
    using assms unfolding same_table_def by blast
  show ?thesis by (subst eq) (simp add: table_ok_def)
qed

lemma same_lists_fields:
  assumes "same_lists s s'"
  shows "region_ok s' \<longleftrightarrow> region_ok s" "free_chains s' F \<longleftrightarrow> free_chains s F"
    "live s' T = live s T" "entries_ok s' T \<longleftrightarrow> entries_ok s T" "maxOrder s' = maxOrder s"
    "vstart s' = vstart s" "orderList s' = orderList s" "fl_next s' = fl_next s"
  using assms
  by (simp_all add: same_lists_def region_ok_def free_chains_def live_def entries_ok_def)

lemma same_table_live:
  "same_table s s' \<Longrightarrow> live s' T = live s T \<and> (entries_ok s' T \<longleftrightarrow> entries_ok s T)"
  by (simp add: live_def entries_ok_def same_table_fields)

lemma live_add:
  assumes "region_ok s" and "x < 2 ^ maxOrder s" and "T (padr (vstart s) x) = None"
    and "calOrder v = Inr k"
  shows "live s (T(padr (vstart s) x \<mapsto> v)) = insert (k, x) (live s T)"
proof -
  have "padr (vstart s) y = padr (vstart s) x \<longleftrightarrow> y = x" if "y < 2 ^ maxOrder s" for y
    using padr_inj [OF assms(1) that assms(2)] by auto
  with assms show ?thesis by (auto simp: live_def split: if_splits)
qed

lemma live_remove:
  assumes "region_ok s" and "x < 2 ^ maxOrder s" and "T (padr (vstart s) x) = Some v"
    and "calOrder v = Inr k"
  shows "live s (T(padr (vstart s) x := None)) = live s T - {(k, x)}"
proof -
  have "padr (vstart s) y = padr (vstart s) x \<longleftrightarrow> y = x" if "y < 2 ^ maxOrder s" for y
    using padr_inj [OF assms(1) that assms(2)] by auto
  with assms show ?thesis by (auto simp: live_def split: if_splits)
qed

lemma free_not_live:
  assumes ok: "lists_ok (maxOrder s) F (live s T)" and x: "x \<in> set (F k)" and e: "entries_ok s T"
  shows "T (padr (vstart s) x) = None"
proof (rule ccontr)
  assume "T (padr (vstart s) x) \<noteq> None"
  then obtain v where v: "T (padr (vstart s) x) = Some v" by blast
  then obtain j where j: "calOrder v = Inr j" using e by (auto simp: entries_ok_def)
  have "(j, x) \<in> live s T" using v j lists_ok_page(2) [OF ok x] by (auto simp: live_def)
  moreover have "(j, x) = (k, x)"
    using ok x calculation tiles_first_page_inj [of "maxOrder s" "blocks F \<union> live s T" "(j, x)" "(k, x)"]
    by (auto simp: lists_ok_def)
  ultimately show False using lists_ok_not_allocated [OF ok x] by auto
qed

text \<open>While a page is free the pool of table nodes is not exhausted.\<close>

lemma pool_nonempty:
  assumes reg: "region_ok s" and e: "entries_ok s T" and tab: "table_ok s N L T"
    and pool: "2 ^ maxOrder s \<le> pool_size N L" and x: "x < 2 ^ maxOrder s"
    and free: "T (padr (vstart s) x) = None"
  shows "L \<noteq> []"
proof
  assume "L = []"
  then have "2 ^ maxOrder s \<le> card (dom T)" using pool table_ok_card [OF tab] by (simp add: pool_size_def)
  moreover have "dom T \<subseteq> padr (vstart s) ` ({..<2 ^ maxOrder s} - {x})"
    using e free unfolding entries_ok_def by (fastforce simp: image_iff)
  then have "card (dom T) \<le> card ({..<2 ^ maxOrder s} - {x})"
    by (meson card_image_le card_mono finite_Diff finite_imageI finite_lessThan order_trans)
  ultimately show False using x by (simp add: not_le)
qed

section \<open>Allocation\<close>

lemma free_head_iff:
  assumes "free_chains s F" and "k < ORDERS"
  shows "orderList s ! k = 0 \<longleftrightarrow> F k = []"
  using assms chain_empty_iff [of "fl_next s" "orderList s ! k" "map (padr (vstart s)) (F k)"]
  by (auto simp: free_chains_def)

lemma dmalloc_loop_find:
  assumes "region_ok s" and "free_chains s F" and "a \<le> k" and "k \<le> maxOrder s" and "F k \<noteq> []"
    and "\<forall>i. a \<le> i \<and> i < k \<longrightarrow> F i = []"
  shows "dmalloc_loop sz t a s = bindE (divideOrder t k s) (\<lambda>(ret, s1).
    bindE (addSize ret sz s1) (\<lambda>s2. Inr (ret, s2)))"
  using assms(3,6)
proof (induction "k - a" arbitrary: a)
  case 0
  then have "a = k" by simp
  with assms(1,4,5) free_head_iff [OF assms(2), of k] show ?case
    by (simp add: dmalloc_loop.simps [of _ _ k] region_ok_def)
next
  case (Suc d)
  then have "F a = []" "a < k" by auto
  then have "dmalloc_loop sz t a s = dmalloc_loop sz t (Suc a) s"
    using assms(1,4) free_head_iff [OF assms(2), of a]
    by (simp add: dmalloc_loop.simps [of _ _ a] region_ok_def)
  moreover have "dmalloc_loop sz t (Suc a) s = bindE (divideOrder t k s) (\<lambda>(ret, s1).
      bindE (addSize ret sz s1) (\<lambda>s2. Inr (ret, s2)))"
    using Suc.hyps(2) Suc.prems by (intro Suc.hyps(1)) auto
  ultimately show ?case by simp
qed

lemma dmalloc_loop_none:
  assumes "region_ok s" and "free_chains s F" and "\<forall>i. a \<le> i \<and> i \<le> maxOrder s \<longrightarrow> F i = []"
  shows "dmalloc_loop sz t a s = Inl (Panic ''out of memory'')"
  using assms(3)
proof (induction "Suc (maxOrder s) - a" arbitrary: a)
  case 0
  then show ?case by (simp add: dmalloc_loop.simps [of _ _ a])
next
  case (Suc d)
  then have "F a = []" "a \<le> maxOrder s" by auto
  then have "dmalloc_loop sz t a s = dmalloc_loop sz t (Suc a) s"
    using assms(1) free_head_iff [OF assms(2), of a]
    by (simp add: dmalloc_loop.simps [of _ _ a] region_ok_def)
  moreover have "dmalloc_loop sz t (Suc a) s = Inl (Panic ''out of memory'')"
    using Suc.hyps(2) Suc.prems by (intro Suc.hyps(1)) auto
  ultimately show ?case by simp
qed

text \<open>The whole allocation, from the first order with a free block.\<close>

lemma dmalloc_divide:
  assumes reg: "region_ok s" and e: "entries_ok s T" and ch: "free_chains s F"
    and tab: "table_ok s N L T" and pool: "2 ^ maxOrder s \<le> pool_size N L"
    and bok: "buddy_ok (maxOrder s) F (live s T)" and t: "calOrder sz = Inr t" and sz: "0 < sz"
    and k: "t \<le> k" "k \<le> maxOrder s" "F k \<noteq> []" "\<forall>i. t \<le> i \<and> i < k \<longrightarrow> F i = []"
  shows "\<exists>x s'. dmalloc_buddy sz s = Inr (padr (vstart s) x, s') \<and> x < 2 ^ maxOrder s \<and>
    block_ok (maxOrder s) (t, x) \<and> T (padr (vstart s) x) = None \<and>
    (\<forall>b \<in> live s T. blk b \<inter> blk (t, x) = {}) \<and>
    vstart s' = vstart s \<and> maxOrder s' = maxOrder s \<and> buddy_inv s' (T(padr (vstart s) x \<mapsto> sz))"
proof -
  let ?v = "vstart s" and ?M = "maxOrder s"
  obtain x F' where div: "a_divide t k F = (x, F')" by fastforce
  have ok: "lists_ok ?M F (live s T)" and co: "coalesced ?M F" using bok by (simp_all add: buddy_ok_def)
  have kO: "k < ORDERS" using k(2) reg by (simp add: region_ok_def)
  have co': "coalesced ?M (F(k := tl (F k)))"
    using co by (rule coalesced_mono) (auto dest: list.set_sel(2) [OF k(3)])
  have x: "x = hd (F k)" and bok': "buddy_ok ?M F' (insert (t, x) (live s T))"
    using a_divide_ok [OF k(1,3) ok co' div] by blast+
  have xk: "x \<in> set (F k)" using x k(3) by simp
  have xM: "x < 2 ^ ?M" using lists_ok_page(2) [OF ok xk] .
  have none: "T (padr ?v x) = None" using free_not_live [OF ok xk e] .
  have fresh: "(t, x) \<notin> live s T" using none by (auto simp: live_def)
  have tl: "tiles ?M (blocks F' \<union> insert (t, x) (live s T))"
    using bok' by (simp add: buddy_ok_def lists_ok_def)
  obtain s1 where s1: "divideOrder t k s = Inr (padr ?v x, s1)" "free_chains s1 F'" "same_table s s1"
    using divideOrder_refines [OF k(1) kO k(3) reg ch ok div] by blast
  note st = same_table_fields [OF s1(3)]
  obtain l L' where L: "L = l # L'"
    using pool_nonempty [OF reg e tab pool xM none] by (cases L) auto
  have tab1: "table_ok s1 N (l # L') T" using tab same_table_table_ok [OF s1(3)] L by simp
  let ?h = "hashFunc (padr ?v x)"
  let ?N = "N(?h := nl_address s1 l # N ?h)"
  have "length (bucket s1) = HASHSIZE" using st reg by (simp add: region_ok_def)
  then obtain s2 where s2: "addSize (padr ?v x) sz s1 = Inr s2"
    "table_ok s2 ?N L' (T(padr ?v x \<mapsto> sz))" "same_lists s1 s2"
    using addSize_ok [OF tab1 none] by blast
  note sl = same_lists_fields [OF s2(3)]
  have "dmalloc_buddy sz s = Inr (padr ?v x, s2)"
    using dmalloc_loop_find [OF reg ch k(1,2,3)] k(4) t s1(1) s2(1) by (simp add: dmalloc_buddy_def)
  moreover have "block_ok ?M (t, x)" using tiles_block_ok [OF tl] by blast
  moreover have "blk b \<inter> blk (t, x) = {}" if "b \<in> live s T" for b
    using tiles_disjoint [OF tl, of b "(t, x)"] that fresh by blast
  moreover have "buddy_inv s2 (T(padr ?v x \<mapsto> sz))"
  proof -
    have lv: "live s2 (T(padr ?v x \<mapsto> sz)) = insert (t, x) (live s T)"
      using live_add [of s x T sz t] reg xM none t sl(3) same_table_live [OF s1(3)] by simp
    have "entries_ok s2 (T(padr ?v x \<mapsto> sz))"
      using e xM sz t sl(5,6) st by (auto simp: entries_ok_def)
    moreover have "pool_size ?N L' = pool_size N L"
      using hashFunc_less [of "padr ?v x"] L
      by (auto simp: pool_size_def numeral_3_eq_3 less_Suc_eq simp del: hashFunc_less)
    ultimately show ?thesis
      using reg st sl s1(2) s2(2) bok' lv pool by (intro buddy_invI [of _ _ F' ?N L']) simp_all
  qed
  ultimately show ?thesis using none xM sl(5,6) st(1,2)
    by (intro exI [of _ x] exI [of _ s2]) simp
qed

lemma dmalloc_buddy_cases:
  assumes inv: "buddy_inv s T" and sz: "0 < sz" and t: "calOrder sz = Inr t"
  obtains (block) x s' where "dmalloc_buddy sz s = Inr (padr (vstart s) x, s')" "x < 2 ^ maxOrder s"
      "block_ok (maxOrder s) (t, x)" "T (padr (vstart s) x) = None"
      "\<forall>b \<in> live s T. blk b \<inter> blk (t, x) = {}" "vstart s' = vstart s" "maxOrder s' = maxOrder s"
      "buddy_inv s' (T(padr (vstart s) x \<mapsto> sz))"
  | (none) "dmalloc_buddy sz s = Inl (Panic ''out of memory'')"
      "\<forall>x. block_ok (maxOrder s) (t, x) \<longrightarrow> (\<exists>b \<in> live s T. blk b \<inter> blk (t, x) \<noteq> {})"
proof -
  let ?M = "maxOrder s"
  obtain F N L where reg: "region_ok s" and e: "entries_ok s T" and ch: "free_chains s F"
    and tab: "table_ok s N L T" and pool: "2 ^ ?M \<le> pool_size N L"
    and bok: "buddy_ok ?M F (live s T)"
    using inv unfolding buddy_inv_def by blast
  show ?thesis
  proof (cases "\<exists>k \<ge> t. k \<le> ?M \<and> F k \<noteq> []")
    case True
    then obtain k where "t \<le> k" "k \<le> ?M" "F k \<noteq> []" "\<forall>i. t \<le> i \<and> i < k \<longrightarrow> F i = []"
      using exists_least_iff [of "\<lambda>k. t \<le> k \<and> k \<le> ?M \<and> F k \<noteq> []"]
      by (metis le_trans less_imp_le_nat)
    from dmalloc_divide [OF reg e ch tab pool bok t sz this] block show ?thesis by blast
  next
    case False
    have "dmalloc_buddy sz s = Inl (Panic ''out of memory'')"
      using dmalloc_loop_none [OF reg ch] False t by (auto simp: dmalloc_buddy_def)
    moreover have "\<exists>b \<in> live s T. blk b \<inter> blk (t, x) \<noteq> {}" if okx: "block_ok ?M (t, x)" for x
    proof (rule ccontr)
      assume "\<not> ?thesis"
      then obtain k y where "(k, y) \<in> blocks F" "t \<le> k"
        using free_range_covered [of ?M F "live s T" t x] bok okx
        unfolding buddy_ok_def lists_ok_def by blast
      with False lists_ok_page(1) [of ?M F "live s T" y k] bok show False
        by (auto simp: buddy_ok_def)
    qed
    ultimately show ?thesis using none by blast
  qed
qed

section \<open>Release\<close>

lemma dfree_buddy_absent:
  assumes "buddy_inv s T" and "T a = None"
  shows "dfree_buddy a s = Inl (Panic ''dfree'')"
proof -
  obtain N L where "table_ok s N L T" and "region_ok s" using assms(1) unfolding buddy_inv_def by blast
  then have "removeSize a s = Inr (-1, s)"
    using removeSize_absent assms(2) by (simp add: region_ok_def)
  then show ?thesis by (simp add: dfree_buddy_def)
qed

lemma dfree_buddy_present:
  assumes inv: "buddy_inv s T" and a: "T a = Some v"
  shows "\<exists>s'. dfree_buddy a s = Inr s' \<and> vstart s' = vstart s \<and> maxOrder s' = maxOrder s \<and>
    buddy_inv s' (T(a := None))"
proof -
  let ?M = "maxOrder s"
  obtain F N L where reg: "region_ok s" and e: "entries_ok s T" and ch: "free_chains s F"
    and tab: "table_ok s N L T" and pool: "2 ^ ?M \<le> pool_size N L"
    and bok: "buddy_ok ?M F (live s T)"
    using inv unfolding buddy_inv_def by blast
  obtain x k where x: "x < 2 ^ ?M" "a = padr (vstart s) x" and v: "0 < v" and k: "calOrder v = Inr k"
    using e a unfolding entries_ok_def by blast
  have A: "(k, x) \<in> live s T" using x a k by (auto simp: live_def)
  have ok: "lists_ok ?M F (live s T)" and co: "coalesced ?M F" using bok by (simp_all add: buddy_ok_def)
  have tl: "tiles ?M (blocks F \<union> live s T)" using ok by (simp add: lists_ok_def)
  have kM: "k \<le> ?M" using tiles_block_ok [OF tl, of "(k, x)"] A by (auto simp: block_ok_def)
  then have kO: "k < ORDERS" using reg by (simp add: region_ok_def)
  have fresh: "x \<notin> set (F i)" for i using free_not_live [OF ok _ e] x(2) a by force
  have "length (bucket s) = HASHSIZE" using reg by (simp add: region_ok_def)
  then obtain s1 N' L' where s1: "removeSize a s = Inr (v, s1)" "table_ok s1 N' L' (T(a := None))"
    "pool_size N' L' = pool_size N L" "same_lists s s1"
    using removeSize_ok [OF tab a] by blast
  note sl = same_lists_fields [OF s1(4)]
  let ?F = "F(k := x # F k)" and ?A = "live s T - {(k, x)}"
  let ?s2 = "s1\<lparr>fl_next := (fl_next s1)(a := orderList s1 ! k), orderList := (orderList s1)[k := a]\<rparr>"
  have st: "same_table s1 ?s2" by simp
  note stf = same_table_fields [OF st]
  have okG: "lists_ok ?M ?F ?A" using lists_ok_give [OF ok A] .
  have ch2: "free_chains ?s2 ?F"
    using free_chains_push [of s1 F k x] reg ch kO x fresh lists_ok_page(2) [OF ok] sl by simp
  have "\<exists>s'. mergeOrder k ?s2 = Inr s' \<and> free_chains s' (a_merge ORDERS k ?F) \<and> same_table ?s2 s'"
    using mergeOrder_refines [of ?F k ?s2 ?A] kO reg sl stf ch2 okG by simp
  then obtain s' where s': "mergeOrder k ?s2 = Inr s'" "free_chains s' (a_merge ORDERS k ?F)"
    "same_table ?s2 s'" by blast
  note st3 = same_table_trans [OF st s'(3)]
  note st3f = same_table_fields [OF st3]
  have bok': "buddy_ok ?M (a_merge ORDERS k ?F) ?A"
    using a_merge_ok [of ?M ORDERS ?F k ?A] okG co reg by (simp add: region_ok_def)
  have "a \<noteq> 0" using padr_nonnull [OF reg x(1)] x(2) by simp
  then have "dfree_buddy a s = Inr s'"
    using s1(1) v k kO reg s'(1) sl by (simp add: dfree_buddy_def region_ok_def)
  moreover have "live s' (T(a := None)) = ?A"
    using live_remove [OF reg x(1), of T v k] a x(2) k sl same_table_live [OF st3] by simp
  moreover have "entries_ok s' (T(a := None))"
    using e sl st3f by (auto simp: entries_ok_def)
  ultimately show ?thesis
    using reg sl st3f s'(2) s1(2,3) same_table_table_ok [OF st3] pool bok'
    by (intro exI [of _ s'] conjI buddy_invI [of s' _ "a_merge ORDERS k ?F" N' L']) simp_all
qed

text \<open>Blocks whose pages are disjoint have disjoint bytes.\<close>

definition apart :: "u32 \<Rightarrow> int \<Rightarrow> u32 \<Rightarrow> int \<Rightarrow> bool" where
  "apart a m b n \<longleftrightarrow> unat a + nat m \<le> unat b \<or> unat b + nat n \<le> unat a"

lemma blk_disjoint_cases:
  "blk (k, x) \<inter> blk (j, y) = {} \<Longrightarrow> x + 2 ^ k \<le> y \<or> y + 2 ^ j \<le> x"
proof (rule ccontr)
  assume dis: "blk (k, x) \<inter> blk (j, y) = {}" and "\<not> (x + 2 ^ k \<le> y \<or> y + 2 ^ j \<le> x)"
  then have "max x y \<in> blk (k, x) \<inter> blk (j, y)" by (auto simp: blk_def)
  with dis show False by blast
qed

lemma bytes_of_pages:
  assumes "calOrder m = Inr k" and "x + 2 ^ k \<le> y"
  shows "(w::nat) + x * PGSIZE + nat m \<le> w + y * PGSIZE"
proof -
  have "nat m \<le> nat (PGSIZE * 2 ^ k)" using calOrder_Inr(1) [OF assms(1)] by simp
  also have "\<dots> = PGSIZE * 2 ^ k" by (simp add: nat_mult_distrib nat_power_eq)
  finally have "x * PGSIZE + nat m \<le> (x + 2 ^ k) * PGSIZE" by (simp add: algebra_simps)
  also have "\<dots> \<le> y * PGSIZE" using assms(2) by (rule mult_le_mono1)
  finally show ?thesis by simp
qed

lemma blocks_apart:
  assumes "region_ok s" and "x < 2 ^ maxOrder s" and "y < 2 ^ maxOrder s"
    and "calOrder m = Inr k" and "calOrder n = Inr j" and "blk (k, x) \<inter> blk (j, y) = {}"
  shows "apart (padr (vstart s) x) m (padr (vstart s) y) n"
  using blk_disjoint_cases [OF assms(6)] bytes_of_pages [OF assms(4), of x y "unat (vstart s)"]
    bytes_of_pages [OF assms(5), of y x "unat (vstart s)"]
  by (auto simp: apart_def unat_padr [OF assms(1,2)] unat_padr [OF assms(1,3)])

end
