(* ===== verification/Buddy_Init.thy ===== *)
theory Buddy_Init
  imports Buddy_Inv
begin

text \<open>
  \<^verbatim>\<open>buddyInit\<close> establishes the invariant of the buddy allocator: the loops of \<^verbatim>\<open>bfreerange\<close> compute powers
  of two that fit the range, the two metadata areas and the region do not overlap, and
  \<^verbatim>\<open>linkNodeList\<close> builds a pool with a node for every page.
\<close>

section \<open>The sizes that \<^verbatim>\<open>bfreerange\<close> computes\<close>

lemma count_pages_eq: "count_pages p vend c = c + (unat vend - unat p) div PGSIZE"
proof (induction p vend c rule: count_pages.induct)
  case (1 p vend c)
  show ?case
  proof (cases "unat p + PGSIZE \<le> unat vend")
    case False
    then show ?thesis by (simp add: count_pages.simps [of p])
  next
    case True
    have "unat (p + PGSIZE) = unat p + PGSIZE"
      using True unat_u32_less [of vend] by (subst unat_u32_add) auto
    with 1 [OF True] True show ?thesis by (simp add: count_pages.simps [of p] le_div_geq)
  qed
qed

lemma total_loop_pow: "0 < n \<Longrightarrow> \<exists>k. total_loop n t = t * 2 ^ k \<and> 2 ^ k \<le> n \<and> n < 2 ^ Suc k"
proof (induction n t rule: total_loop.induct)
  case (1 n t)
  show ?case
  proof (cases "n div 2 = 0")
    case True
    with 1(2) have "n = 1" by linarith
    then show ?thesis by (intro exI [of _ 0]) (simp add: total_loop.simps [of "Suc 0"])
  next
    case False
    with 1(1) obtain k where "total_loop (n div 2) (t * 2) = t * 2 * 2 ^ k" "2 ^ k \<le> n div 2"
      "n div 2 < 2 ^ Suc k" by auto
    with False show ?thesis
      by (intro exI [of _ "Suc k"]) (simp add: total_loop.simps [of n]; linarith)
  qed
qed

lemma order_loop_pow:
  "0 < n \<Longrightarrow> \<exists>k. order_loop (int n) j = Inr (j + k) \<and> 2 ^ k \<le> n \<and> n < 2 ^ Suc k"
proof (induction n arbitrary: j rule: less_induct)
  case (less n)
  have div: "int n div 2 = int (n div 2)" by simp
  show ?case
  proof (cases "n div 2 = 0")
    case True
    with less.prems have "n = 1" by linarith
    then show ?thesis by (intro exI [of _ 0]) (simp add: order_loop.simps [of 1])
  next
    case False
    with less.IH [of "n div 2" "Suc j"] obtain k where k: "order_loop (int (n div 2)) (Suc j) = Inr (Suc j + k)"
      "2 ^ k \<le> n div 2" "n div 2 < 2 ^ Suc k" by auto
    have "order_loop (int n) j = Inr (j + Suc k)"
      using k(1) False unfolding order_loop.simps [of "int n"] div by simp
    with k(2,3) show ?thesis by (intro exI [of _ "Suc k"]) (simp; linarith)
  qed
qed

lemma unat_PGROUNDUP:
  assumes "unat a + 4095 < 4294967296"
  shows "unat (PGROUNDUP a) = (unat a + 4095) div PGSIZE * PGSIZE"
proof -
  have "PGROUNDUP a = (a + 4095) AND NOT (mask 12)"
    by (simp add: PGROUNDUP_def mask_eq_exp_minus_1 add.commute)
  also have "\<dots> = push_bit 12 (drop_bit 12 (a + 4095))" by (rule and_not_mask_eq)
  finally have eq: "PGROUNDUP a = push_bit 12 (drop_bit 12 (a + 4095))" .
  have sum: "unat (a + 4095) = unat a + 4095" using assms by (subst unat_u32_add) simp_all
  have "unat (PGROUNDUP a) = take_bit 32 (push_bit 12 (drop_bit 12 (unat (a + 4095))))"
    unfolding eq unsigned_push_bit_eq unsigned_drop_bit_eq
    using unat_u32_less [of "a + 4095"] by (simp add: take_bit_nat_eq_self)
  also have "push_bit 12 (drop_bit 12 (unat (a + 4095))) = (unat a + 4095) div PGSIZE * PGSIZE"
    unfolding sum by (simp add: drop_bit_eq_div push_bit_eq_mult)
  also have "take_bit 32 \<dots> = \<dots>" using assms by (intro take_bit_nat_eq_self) simp
  finally show ?thesis .
qed

section \<open>The pool of nodes\<close>

lemma link_loop_fields [simp]:
  "orderList (link_loop n p q s) = orderList s" "bucket (link_loop n p q s) = bucket s"
  "fl_next (link_loop n p q s) = fl_next s" "vstart (link_loop n p q s) = vstart s"
  "maxOrder (link_loop n p q s) = maxOrder s" "nodeStart (link_loop n p q s) = nodeStart s"
  "nodeListStart (link_loop n p q s) = nodeListStart s"
  "nodePageCount (link_loop n p q s) = nodePageCount s"
  by (induction n arbitrary: p q s) simp_all

text \<open>The cells below \<open>q\<close> and the nodes below \<open>p\<close> are linked.\<close>

definition pool_ok :: "buddy \<Rightarrow> u32 list \<Rightarrow> u32 \<Rightarrow> u32 \<Rightarrow> bool" where
  "pool_ok s L p q \<longleftrightarrow> chain (nl_next s) (freeNodeList s) L \<and> inj_on (nl_address s) (set L) \<and>
     (\<forall>l \<in> set L. unat l < unat q \<and> nl_address s l \<noteq> 0 \<and> unat (nl_address s l) < unat p)"

lemma link_loop_pool:
  assumes "pool_ok s L p q" and "0 < unat p" and "0 < unat q"
    and "unat p + sizeof_NODE * n < 4294967296" and "unat q + sizeof_NODELIST * n < 4294967296"
  shows "\<exists>L' p' q'. pool_ok (link_loop n p q s) L' p' q' \<and> length L' = length L + n"
  using assms
proof (induction n arbitrary: s L p q)
  case 0
  then show ?case by auto
next
  case (Suc n)
  let ?s = "s\<lparr>nl_address := (nl_address s)(q := p), nl_next := (nl_next s)(q := freeNodeList s),
              freeNodeList := q\<rparr>"
  have up: "unat (p + sizeof_NODE) = unat p + sizeof_NODE" "unat (q + sizeof_NODELIST) = unat q + sizeof_NODELIST"
    using Suc.prems(4,5) by (subst unat_u32_add; simp)+
  have nz: "p \<noteq> 0" "q \<noteq> 0" using Suc.prems(2,3) by auto
  have q: "q \<notin> set L" using Suc.prems(1) by (auto simp: pool_ok_def)
  have p: "p \<notin> nl_address s ` set L" using Suc.prems(1) by (auto simp: pool_ok_def)
  have "pool_ok ?s (q # L) (p + sizeof_NODE) (q + sizeof_NODELIST)"
    using Suc.prems(1) nz q p up by (auto simp: pool_ok_def inj_on_def)
  then have "\<exists>L' p' q'. pool_ok (link_loop n (p + sizeof_NODE) (q + sizeof_NODELIST) ?s) L' p' q' \<and>
      length L' = length (q # L) + n"
    using Suc.prems(4,5) up by (intro Suc.IH) auto
  then show ?case by simp
qed

lemma pool_ok_table:
  assumes "pool_ok s L p q" and "bucket s = replicate HASHSIZE 0"
  shows "table_ok s (\<lambda>_. []) L Map.empty"
  using assms by (auto simp: table_ok_def pool_ok_def nodes_def)

section \<open>The initial state\<close>

lemma whole_region_ok: "buddy_ok M ((\<lambda>_. [])(M := [0])) {}"
  by (auto simp: buddy_ok_def lists_ok_def coalesced_def tiles_def block_ok_def blk_def blocks_def
      split: if_splits)

text \<open>Sizes of the metadata areas: they fit into a range of at least three pages, the pool has a node for every page.\<close>

lemma metadata_sizes:
  assumes "2 ^ k \<le> (P::nat)" and "P < 2 ^ Suc k" and "3 \<le> P"
  defines "npc \<equiv> 2 ^ k * sizeof_NODE div PGSIZE + (if 2 ^ k * sizeof_NODE mod PGSIZE \<noteq> (0::nat) then 1 else 0)"
    and "nlpc \<equiv> 2 ^ k * sizeof_NODELIST div PGSIZE + (if 2 ^ k * 4 mod PGSIZE \<noteq> (0::nat) then 1 else 0)"
  shows "npc + nlpc < P" and "0 < npc" and "2 ^ k \<le> npc * 256" and "npc \<le> 2 * nlpc" and "npc \<le> 2 ^ k"
    and "nlpc \<le> 2 ^ k"
proof -
  define t :: nat where "t = 2 ^ k"
  have t: "t \<le> P" "P < 2 * t" "0 < t" using assms(1,2) by (auto simp: t_def)
  have n: "npc = (t + 255) div 256"
  proof -
    have "t * 16 div 4096 = t div 256" "t * 16 mod 4096 = t mod 256 * 16"
      using div_mult_mult2 [of 16 t 256] mod_mult_mult2 [of t 16 256] by simp_all
    moreover have "(t + 255) div 256 = t div 256 + (if t mod 256 \<noteq> 0 then 1 else 0)"
    proof (cases "t mod 256 = 0")
      case True
      then have "t = 256 * (t div 256)" using div_mult_mod_eq [of t 256] by linarith
      with True show ?thesis by auto
    next
      case False
      have "(t + 255) div 256 = Suc (t div 256)"
        using False div_mult_mod_eq [of t 256] mod_less_divisor [of 256 t, simplified]
        by (intro div_nat_eqI; unfold mult_Suc_right; linarith)
      with False show ?thesis by simp
    qed
    ultimately show ?thesis unfolding npc_def t_def [symmetric] by simp
  qed
  show "0 < npc" "2 ^ k \<le> npc * 256" "npc \<le> 2 ^ k" using t n unfolding t_def [symmetric] by linarith+
  have cases: "t = 1 \<or> t = 2 \<or> t = 4 \<or> t = 8 \<or> t = 16 \<or> t = 32 \<or> t = 64 \<or> t = 128 \<or> t = 256 \<or> t = 512
      \<or> 1024 dvd t"
  proof (cases "k < 10")
    case True
    then have "k \<in> {0, 1, 2, 3, 4, 5, 6, 7, 8, 9}" by auto
    then show ?thesis by (auto simp: t_def)
  next
    case False
    then have "(2::nat) ^ 10 dvd 2 ^ k" by (intro le_imp_power_dvd) simp
    then show ?thesis by (simp add: t_def)
  qed
  have l: "nlpc = t * 8 div 4096 + (if t * 4 mod 4096 \<noteq> 0 then 1 else 0)"
    unfolding nlpc_def t_def by simp
  have big: "nlpc = t div 512 \<and> npc = t div 256 \<and> 1024 \<le> t" if "1024 dvd t"
    using that t(3) l n by (auto elim!: dvdE)
  show "npc \<le> 2 * nlpc" "nlpc \<le> 2 ^ k"
    using cases big l n unfolding t_def [symmetric] by (auto; linarith)+
  show "npc + nlpc < P" using cases big l n t assms(3) by (auto; linarith)
qed

text \<open>What \<open>bfreerange\<close> computes: the two metadata areas and the region lie one after the other in the range.\<close>

lemma bfreerange_ok:
  assumes p: "p = PGROUNDUP v0" and fit: "unat p + 3 * PGSIZE \<le> unat vend"
    and low: "unat vend \<le> 0xC0000000" and high: "0x80000000 \<le> unat p"
  obtains m npc nlpc where "bfreerange v0 vend s = Inr (s\<lparr>nodePageCount := npc, nodeListPageCount := nlpc,
      nodeStart := p, nodeListStart := p + of_nat (npc * PGSIZE),
      vstart := p + of_nat (npc * PGSIZE) + of_nat (nlpc * PGSIZE), maxOrder := m\<rparr>)"
    and "unat (p + of_nat (npc * PGSIZE)) = unat p + npc * PGSIZE"
    and "unat (p + of_nat (npc * PGSIZE) + of_nat (nlpc * PGSIZE)) = unat p + npc * PGSIZE + nlpc * PGSIZE"
    and "unat p + (npc + nlpc + 2 ^ m) * PGSIZE \<le> unat vend" and "2 ^ m \<le> npc * 256"
    and "npc \<le> 2 * nlpc" and "m \<le> 17"
proof -
  define P where "P = (unat vend - unat p) div PGSIZE"
  have P3: "3 \<le> P" using fit unfolding P_def by linarith
  have Pend: "unat p + P * PGSIZE \<le> unat vend"
    using div_mult_mod_eq [of "unat vend - unat p" PGSIZE] fit unfolding P_def by linarith
  obtain k where k: "total_loop P 1 = 2 ^ k" "2 ^ k \<le> P" "P < 2 ^ Suc k"
    using total_loop_pow [of P 1] P3 by auto
  define npc :: nat where "npc = 2 ^ k * sizeof_NODE div PGSIZE +
    (if 2 ^ k * sizeof_NODE mod PGSIZE \<noteq> (0::nat) then 1 else 0)"
  define nlpc :: nat where "nlpc = 2 ^ k * sizeof_NODELIST div PGSIZE +
    (if 2 ^ k * 4 mod PGSIZE \<noteq> (0::nat) then 1 else 0)"
  note sizes = metadata_sizes [OF k(2,3) P3, folded npc_def nlpc_def]
  define R where "R = P - npc - nlpc"
  have R: "0 < R" "int P - int npc - int nlpc = int R" using sizes(1) by (auto simp: R_def)
  obtain m where m: "order_loop (int R) 0 = Inr m" "2 ^ m \<le> R" using order_loop_pow [OF R(1), of 0] by auto
  have fits: "(npc + nlpc + 2 ^ m) * PGSIZE \<le> P * PGSIZE"
    using m(2) sizes(1) by (intro mult_le_mono1) (auto simp: R_def)
  have "2 ^ m < (2::nat) ^ Suc k" using m(2) k(3) by (simp add: R_def)
  then have "m \<le> k" using power_less_imp_less_exp [of "2::nat" m "Suc k"] by simp
  then have "(2::nat) ^ m \<le> 2 ^ k" by (intro power_increasing) simp_all
  then have cap: "2 ^ m \<le> npc * 256" using sizes(3) by linarith
  have "P * PGSIZE \<le> 2 ^ 30" using Pend low high by simp
  then have "2 ^ m < (2::nat) ^ 18" using m(2) sizes(2) by (simp add: R_def)
  then have m17: "m \<le> 17" using power_less_imp_less_exp [of "2::nat" m 18] by simp
  have le: "unat p + (npc + nlpc + 2 ^ m) * PGSIZE \<le> unat vend" using fits Pend by linarith
  then have small: "unat p + npc * PGSIZE + nlpc * PGSIZE < 4294967296" using low by (simp add: algebra_simps)
  have u: "unat (of_nat (npc * PGSIZE) :: u32) = npc * PGSIZE" "unat (of_nat (nlpc * PGSIZE) :: u32) = nlpc * PGSIZE"
    using small by (intro unat_u32_of_nat; linarith)+
  have a1: "unat (p + of_nat (npc * PGSIZE)) = unat p + npc * PGSIZE"
    using small u(1) by (subst unat_u32_add; linarith)
  have a2: "unat (p + of_nat (npc * PGSIZE) + of_nat (nlpc * PGSIZE)) = unat p + npc * PGSIZE + nlpc * PGSIZE"
    using small u(2) a1 by (subst unat_u32_add; linarith)
  have "bfreerange v0 vend s = Inr (s\<lparr>nodePageCount := npc, nodeListPageCount := nlpc,
      nodeStart := p, nodeListStart := p + of_nat (npc * PGSIZE),
      vstart := p + of_nat (npc * PGSIZE) + of_nat (nlpc * PGSIZE), maxOrder := m\<rparr>)"
    using m(1)
    unfolding bfreerange_def Let_def p [symmetric] count_pages_eq P_def [symmetric] add_0 k(1)
      npc_def [symmetric] nlpc_def [symmetric] R(2) by simp
  then show ?thesis using that a1 a2 le cap sizes(4) m17 by blast
qed

lemma buddyInit_ok:
  assumes zero: "orderList s = replicate ORDERS 0" "bucket s = replicate HASHSIZE 0" "freeNodeList s = 0"
      "\<forall>a. fl_next s a = 0"
    and fit: "unat (PGROUNDUP v0) + 3 * PGSIZE \<le> unat vend"
    and low: "unat vend \<le> 0xC0000000" and high: "0x80000000 \<le> unat (PGROUNDUP v0)"
  shows "\<exists>s' n. buddyInit v0 vend s = Inr s' \<and> buddy_inv s' Map.empty \<and> 2 ^ maxOrder s' \<le> n \<and>
    nodeStart s' = PGROUNDUP v0 \<and> unat (nodeStart s') + sizeof_NODE * n \<le> unat (nodeListStart s') \<and>
    unat (nodeListStart s') + sizeof_NODELIST * n \<le> unat (vstart s') \<and>
    unat (vstart s') + 2 ^ maxOrder s' * PGSIZE \<le> unat vend"
proof -
  define p where "p = PGROUNDUP v0"
  have hi: "0x80000000 \<le> unat p" using high by (simp add: p_def)
  obtain m npc nlpc where bf: "bfreerange v0 vend (s\<lparr>buse_lock := False\<rparr>) = Inr (s\<lparr>buse_lock := False\<rparr>
      \<lparr>nodePageCount := npc, nodeListPageCount := nlpc,
      nodeStart := p, nodeListStart := p + of_nat (npc * PGSIZE),
      vstart := p + of_nat (npc * PGSIZE) + of_nat (nlpc * PGSIZE), maxOrder := m\<rparr>)"
    and a1: "unat (p + of_nat (npc * PGSIZE)) = unat p + npc * PGSIZE"
    and a2: "unat (p + of_nat (npc * PGSIZE) + of_nat (nlpc * PGSIZE)) = unat p + npc * PGSIZE + nlpc * PGSIZE"
    and le: "unat p + (npc + nlpc + 2 ^ m) * PGSIZE \<le> unat vend" and cap: "2 ^ m \<le> npc * 256"
    and pages: "npc \<le> 2 * nlpc" and m17: "m \<le> 17"
    using bfreerange_ok [OF p_def _ low hi] fit unfolding p_def [symmetric] by blast
  let ?s1 = "s\<lparr>buse_lock := False, nodePageCount := npc, nodeListPageCount := nlpc,
      nodeStart := p, nodeListStart := p + of_nat (npc * PGSIZE),
      vstart := p + of_nat (npc * PGSIZE) + of_nat (nlpc * PGSIZE), maxOrder := m\<rparr>"
  let ?s2 = "link_loop (npc * 256) p (p + of_nat (npc * PGSIZE)) ?s1"
  let ?s' = "?s2\<lparr>orderList := (replicate ORDERS 0)[m := vstart ?s1], buse_lock := True\<rparr>"
  have "linkNodeList ?s1 = ?s2" by (simp add: linkNodeList_def mult.commute)
  then have init: "buddyInit v0 vend s = Inr ?s'"
    using bf m17 zero(1) by (simp add: buddyInit_def)
  have "pool_ok ?s1 [] p (p + of_nat (npc * PGSIZE))" using zero(3) by (simp add: pool_ok_def)
  then obtain L p' q' where L: "pool_ok ?s2 L p' q'" "length L = npc * 256"
    using link_loop_pool [of ?s1 "[]" p "p + of_nat (npc * PGSIZE)" "npc * 256"] a1 hi le low pages
    by (auto simp: algebra_simps)
  have tab: "table_ok ?s' (\<lambda>_. []) L Map.empty"
    using pool_ok_table [OF L(1)] zero(2) by (simp add: table_ok_def)
  have reg: "region_ok ?s'"
    using m17 zero(2) a2 hi le low by (simp add: region_ok_def algebra_simps)
  have "vstart ?s1 \<noteq> 0" using a2 hi by (auto simp: unat_eq_zero)
  then have ch: "free_chains ?s' ((\<lambda>_. [])(m := [0]))"
    using zero(4) by (auto simp: free_chains_def padr_def nth_list_update)
  have "buddy_inv ?s' Map.empty"
    using reg ch tab whole_region_ok [of m] cap L(2)
    by (intro buddy_invI [of ?s' _ "(\<lambda>_. [])(m := [0])" "\<lambda>_. []" L])
      (auto simp: live_def entries_ok_def pool_size_def)
  then show ?thesis using init a1 a2 le cap pages p_def
    by (intro exI [of _ ?s'] exI [of _ "npc * 256"]) (simp add: algebra_simps)
qed

end
