(* ===== verification/Buddy_Props.thy ===== *)
theory Buddy_Props
  imports Buddy_Init
begin

text \<open>
  The interface that the rest of the kernel has to the buddy allocator, as a locale, the properties
  of sequences of requests that follow from it, and the properties of \<^verbatim>\<open>buddy.c\<close>.
\<close>

section \<open>The interface of a block allocator\<close>

datatype request = Alloc int | Release u32

text \<open>
  A sequence of requests; the map records the live blocks, an address released twice or never handed
  out is a request like any other.
\<close>

fun serve :: "(int \<Rightarrow> 's \<Rightarrow> (u32 \<times> 's) result) \<Rightarrow> (u32 \<Rightarrow> 's \<Rightarrow> 's result) \<Rightarrow> request list \<Rightarrow>
    's \<Rightarrow> (u32 \<rightharpoonup> int) \<Rightarrow> ('s \<times> (u32 \<rightharpoonup> int)) result" where
  "serve al re [] s T = Inr (s, T)"
| "serve al re (Alloc n # rs) s T = bindE (al n s) (\<lambda>(a, s'). serve al re rs s' (T(a \<mapsto> n)))"
| "serve al re (Release a # rs) s T = bindE (re a s) (\<lambda>s'. serve al re rs s' (T(a := None)))"

definition sizes_ok :: "request list \<Rightarrow> bool" where
  "sizes_ok rs \<longleftrightarrow> (\<forall>n. Alloc n \<in> set rs \<longrightarrow> 0 < n)"

lemma sizes_ok_Cons [simp]:
  "sizes_ok (Alloc n # rs) \<longleftrightarrow> 0 < n \<and> sizes_ok rs" "sizes_ok (Release a # rs) \<longleftrightarrow> sizes_ok rs"
  by (auto simp: sizes_ok_def)

locale block_allocator =
  fixes inv :: "'s \<Rightarrow> (u32 \<rightharpoonup> int) \<Rightarrow> bool"
    and alloc :: "int \<Rightarrow> 's \<Rightarrow> (u32 \<times> 's) result"
    and release :: "u32 \<Rightarrow> 's \<Rightarrow> 's result"
  assumes alloc_fresh: "inv s T \<Longrightarrow> 0 < n \<Longrightarrow> alloc n s = Inr (a, s') \<Longrightarrow> T a = None \<and> inv s' (T(a \<mapsto> n))"
    and release_live: "inv s T \<Longrightarrow> T a = Some n \<Longrightarrow> \<exists>s'. release a s = Inr s' \<and> inv s' (T(a := None))"
    and release_unknown: "inv s T \<Longrightarrow> T a = None \<Longrightarrow> \<exists>e. release a s = Inl e"
    and live_apart: "inv s T \<Longrightarrow> T a = Some m \<Longrightarrow> T b = Some n \<Longrightarrow> a \<noteq> b \<Longrightarrow> apart a m b n"
begin

lemma release_inv:
  assumes "inv s T" and "release a s = Inr s'"
  shows "inv s' (T(a := None))" and "T a \<noteq> None"
proof -
  show "T a \<noteq> None" using assms release_unknown by force
  then obtain n where "T a = Some n" by blast
  with assms release_live show "inv s' (T(a := None))" by force
qed

lemma serve_inv:
  "inv s T \<Longrightarrow> sizes_ok rs \<Longrightarrow> serve alloc release rs s T = Inr (s', T') \<Longrightarrow> inv s' T'"
proof (induction rs arbitrary: s T)
  case Nil
  then show ?case by simp
next
  case (Cons r rs)
  show ?case
  proof (cases r)
    case (Alloc n)
    with Cons.prems obtain a t where "alloc n s = Inr (a, t)" "0 < n" "sizes_ok rs"
      "serve alloc release rs t (T(a \<mapsto> n)) = Inr (s', T')" by auto
    with Cons.IH alloc_fresh [OF Cons.prems(1)] show ?thesis by blast
  next
    case (Release a)
    with Cons.prems obtain t where "release a s = Inr t" "sizes_ok rs"
      "serve alloc release rs t (T(a := None)) = Inr (s', T')" by auto
    with Cons.IH release_inv(1) [OF Cons.prems(1)] show ?thesis by blast
  qed
qed

lemma alloc_release:
  assumes "inv s T" and "0 < n" and "alloc n s = Inr (a, s1)"
  shows "\<exists>s2. release a s1 = Inr s2 \<and> inv s2 T"
proof -
  have "T a = None" "inv s1 (T(a \<mapsto> n))" using alloc_fresh [OF assms] by blast+
  with release_live [of s1 "T(a \<mapsto> n)" a n] show ?thesis by (simp add: map_upd_triv fun_upd_idem)
qed

lemma double_release:
  assumes "inv s T" and "release a s = Inr s'"
  shows "\<exists>e. release a s' = Inl e"
  using release_unknown [OF release_inv(1) [OF assms]] by simp

lemma serve_apart:
  assumes "inv s T" and "sizes_ok rs" and "serve alloc release rs s T = Inr (s', T')"
    and "T' a = Some m" and "T' b = Some n" and "a \<noteq> b"
  shows "apart a m b n"
  using live_apart [OF serve_inv [OF assms(1-3)] assms(4-6)] .

end

section \<open>The buddy allocator provides the interface\<close>

lemma buddy_inv_apart:
  assumes "buddy_inv s T" and "T a = Some m" and "T b = Some n" and "a \<noteq> b"
  shows "apart a m b n"
proof -
  have reg: "region_ok s" and e: "entries_ok s T" and t: "\<exists>B. tiles (maxOrder s) (B \<union> live s T)"
    using assms(1) by (auto simp: buddy_inv_def buddy_ok_def lists_ok_def)
  obtain x k where x: "x < 2 ^ maxOrder s" "a = padr (vstart s) x" "calOrder m = Inr k"
    using e assms(2) unfolding entries_ok_def by blast
  obtain y j where y: "y < 2 ^ maxOrder s" "b = padr (vstart s) y" "calOrder n = Inr j"
    using e assms(3) unfolding entries_ok_def by blast
  have "(k, x) \<in> live s T" "(j, y) \<in> live s T" using x y assms(2,3) by (auto simp: live_def)
  moreover have "(k, x) \<noteq> (j, y)" using assms(4) x y by auto
  ultimately have "blk (k, x) \<inter> blk (j, y) = {}" using t tiles_disjoint by blast
  then show ?thesis using blocks_apart [OF reg x(1) y(1) x(3) y(3)] x(2) y(2) by simp
qed

lemma dmalloc_buddy_Inr:
  assumes "buddy_inv s T" and "0 < sz" and "dmalloc_buddy sz s = Inr (a, s')"
  shows "T a = None \<and> buddy_inv s' (T(a \<mapsto> sz)) \<and> vstart s' = vstart s \<and> maxOrder s' = maxOrder s"
proof -
  obtain t where t: "calOrder sz = Inr t" using assms(3) by (auto simp: dmalloc_buddy_def)
  show ?thesis
    using dmalloc_buddy_cases [OF assms(1,2) t] assms(3) by (metis Inl_Inr_False Inr_inject prod.inject)
qed

interpretation buddy: block_allocator
  "\<lambda>s T. buddy_inv s T \<and> vstart s = v \<and> maxOrder s = m" dmalloc_buddy dfree_buddy for v m
proof (unfold_locales, goal_cases)
  case (1 s T n a s')
  then show ?case using dmalloc_buddy_Inr by blast
next
  case (2 s T a n)
  then show ?case using dfree_buddy_present by blast
next
  case (3 s T a)
  then show ?case using dfree_buddy_absent by blast
next
  case (4 s T a m b n)
  then show ?case using buddy_inv_apart by blast
qed

lemma buddy_inv_empty:
  assumes "buddy_inv s Map.empty"
  shows "orderList s = (replicate ORDERS 0)[maxOrder s := vstart s]"
proof -
  let ?M = "maxOrder s"
  obtain F where reg: "region_ok s" and ch: "free_chains s F" and ok: "buddy_ok ?M F {}"
    using assms by (auto simp: buddy_inv_def live_def)
  have M: "?M < ORDERS" and len: "length (orderList s) = ORDERS" using reg by (simp_all add: region_ok_def)
  have bl: "blocks F = {(?M, 0)}" using all_free_single_block [OF ok] .
  have F: "set (F k) = (if k = ?M then {0} else {})" for k
  proof -
    have "x \<in> set (F k) \<longleftrightarrow> (k, x) \<in> blocks F" for x by simp
    then show ?thesis unfolding bl by (cases "k = ?M") (auto simp: set_eq_iff)
  qed
  have "distinct (F ?M)" using ok by (simp add: buddy_ok_def lists_ok_def)
  then have "length (F ?M) = 1" using F [of ?M] distinct_card [of "F ?M"] by simp
  then have "F ?M = [0]" using F [of ?M] by (cases "F ?M") auto
  then have "orderList s ! ?M = vstart s"
    using ch M by (auto simp: free_chains_def padr_def dest!: spec [of _ ?M])
  moreover have "orderList s ! k = 0" if "k < ORDERS" "k \<noteq> ?M" for k
    using free_head_iff [OF ch that(1)] F [of k] that(2) by simp
  ultimately show ?thesis using len M by (intro nth_equalityI) (auto simp: nth_list_update)
qed

section \<open>Properties\<close>

text \<open>
  C36. Initialisation.  Given zeroed memory and a range of at least three whole pages in the kernel's
  half of the address space, \<^verbatim>\<open>buddyInit\<close> returns with the invariant established and nothing
  allocated; the node area, the list area (each with room for the same number \<open>n\<close> of entries, at
  least one for every page of the region) and the region of \<open>2 ^ maxOrder\<close> pages lie one after the
  other inside the range.
\<close>

theorem buddyInit_establishes:
  assumes "orderList s = replicate ORDERS 0" and "bucket s = replicate HASHSIZE 0"
    and "freeNodeList s = 0" and "\<forall>a. fl_next s a = 0"
    and "unat (PGROUNDUP v0) + 3 * PGSIZE \<le> unat vend"
    and "unat vend \<le> 0xC0000000" and "0x80000000 \<le> unat (PGROUNDUP v0)"
  shows "\<exists>s' n. buddyInit v0 vend s = Inr s' \<and> buddy_inv s' Map.empty \<and> 2 ^ maxOrder s' \<le> n \<and>
    nodeStart s' = PGROUNDUP v0 \<and> unat (nodeStart s') + sizeof_NODE * n \<le> unat (nodeListStart s') \<and>
    unat (nodeListStart s') + sizeof_NODELIST * n \<le> unat (vstart s') \<and>
    unat (vstart s') + 2 ^ maxOrder s' * PGSIZE \<le> unat vend"
  using assms by (rule buddyInit_ok)

definition zero_buddy :: buddy where
  "zero_buddy = \<lparr>orderList = replicate ORDERS 0, maxOrder = 0, vstart = 0, buse_lock = False,
     freeNodeList = 0, nodePageCount = 0, nodeListPageCount = 0, nodeStart = 0, nodeListStart = 0,
     bucket = replicate HASHSIZE 0, fl_next = (\<lambda>_. 0), nd_key = (\<lambda>_. 0), nd_value = (\<lambda>_. 0),
     nd_next = (\<lambda>_. 0), nd_list = (\<lambda>_. 0), nl_address = (\<lambda>_. 0), nl_next = (\<lambda>_. 0)\<rparr>"

theorem buddyInit_establishes_witness:
  "\<exists>s' n. buddyInit 0x80400000 0x80410000 zero_buddy = Inr s' \<and> buddy_inv s' Map.empty \<and>
    2 ^ maxOrder s' \<le> (n::nat)"
  using buddyInit_establishes [of zero_buddy "0x80400000" "0x80410000"]
  by (auto simp: zero_buddy_def PGROUNDUP_def)

lemma booted: "\<exists>s. buddyInit 0x80400000 0x80410000 zero_buddy = Inr s \<and> buddy_inv s Map.empty"
  using buddyInit_ok [of zero_buddy "0x80400000" "0x80410000"]
  by (auto simp: zero_buddy_def PGROUNDUP_def)

lemma calOrder_page: "calOrder 4000 = Inr 0" "calOrder 0x40000000 = Inr 18"
  by (simp_all add: calOrder_def calOrder_loop.simps)

lemma live_empty [simp]: "live s Map.empty = {}"
  by (simp add: live_def)

text \<open>
  C1. Allocation.  Whenever some aligned range of the order that a request needs meets no live
  block, the request succeeds: the block returned lies in the region, is aligned to its order, its
  bytes are apart from those of every live block, and the new state has exactly this block more.
\<close>

theorem dmalloc_buddy_block:
  assumes "buddy_inv s T" and "0 < sz" and "calOrder sz = Inr t"
    and "block_ok (maxOrder s) (t, r)" and "\<forall>b \<in> live s T. blk b \<inter> blk (t, r) = {}"
  shows "\<exists>a s'. dmalloc_buddy sz s = Inr (a, s') \<and> buddy_inv s' (T(a \<mapsto> sz)) \<and> T a = None \<and>
    unat (vstart s) \<le> unat a \<and> unat a + nat sz \<le> unat (vstart s) + 2 ^ maxOrder s * PGSIZE \<and>
    PGSIZE * 2 ^ t dvd unat a - unat (vstart s) \<and> (\<forall>b n. T b = Some n \<longrightarrow> apart a sz b n)"
proof (rule dmalloc_buddy_cases [OF assms(1-3)], goal_cases)
  case 2
  with assms(4,5) show ?case by blast
next
  case block: (1 x s')
  have reg: "region_ok s" using assms(1) by (simp add: buddy_inv_def)
  have u: "unat (padr (vstart s) x) = unat (vstart s) + x * PGSIZE" using unat_padr [OF reg block(2)] .
  have "x + 2 ^ t \<le> 2 ^ maxOrder s" "2 ^ t dvd x" using block(3) by (simp_all add: block_ok_def)
  moreover have "apart (padr (vstart s) x) sz b n" if "T b = Some n" for b n
    using buddy.live_apart [of s' "T(padr (vstart s) x \<mapsto> sz)"] block(4,8) that by (metis fun_upd_apply option.distinct(1))
  ultimately show ?case
    using block(1,4,8) bytes_of_pages [OF assms(3), of x "2 ^ maxOrder s" "unat (vstart s)"]
    by (intro exI [of _ "padr (vstart s) x"] exI [of _ s']) (simp add: u mult.commute)
qed

theorem dmalloc_buddy_block_witness:
  "\<exists>s a s'. buddyInit 0x80400000 0x80410000 zero_buddy = Inr s \<and> dmalloc_buddy 4000 s = Inr (a, s') \<and>
     buddy_inv s' [a \<mapsto> 4000]"
  using booted dmalloc_buddy_block [of _ Map.empty 4000 0 0] by (fastforce simp: calOrder_page block_ok_def)

text \<open>
  C35. Exhaustion.  A request panics with \<^verbatim>\<open>out of memory\<close> exactly when every aligned range of its order
  meets a live block: free memory is never missed because it is held in unmerged pieces.
\<close>

theorem dmalloc_buddy_out_of_memory:
  assumes "buddy_inv s T" and "0 < sz" and "calOrder sz = Inr t"
  shows "dmalloc_buddy sz s = Inl (Panic ''out of memory'') \<longleftrightarrow>
    \<not> (\<exists>r. block_ok (maxOrder s) (t, r) \<and> (\<forall>b \<in> live s T. blk b \<inter> blk (t, r) = {}))"
proof (rule dmalloc_buddy_cases [OF assms], goal_cases)
  case (1 x s')
  then show ?case by (auto intro!: exI [of _ x])
next
  case 2
  then show ?case by blast
qed

theorem dmalloc_buddy_out_of_memory_witness:
  "\<exists>s. buddyInit 0x80400000 0x80410000 zero_buddy = Inr s \<and>
     dmalloc_buddy 4000 s \<noteq> Inl (Panic ''out of memory'') \<and>
     (dmalloc_buddy 0x40000000 s = Inl (Panic ''out of memory'') \<longleftrightarrow>
       \<not> (\<exists>r. block_ok (maxOrder s) (18, r) \<and> (\<forall>b \<in> live s Map.empty. blk b \<inter> blk (18, r) = {})))"
proof -
  obtain s where s: "buddyInit 0x80400000 0x80410000 zero_buddy = Inr s" "buddy_inv s Map.empty"
    using booted by blast
  have "block_ok (maxOrder s) (0, 0)" by (simp add: block_ok_def)
  then have "dmalloc_buddy 4000 s \<noteq> Inl (Panic ''out of memory'')"
    using dmalloc_buddy_out_of_memory [OF s(2) _ calOrder_page(1)] by auto
  then show ?thesis using s dmalloc_buddy_out_of_memory [OF s(2) _ calOrder_page(2)] by auto
qed

text \<open>
  C6. Release.  Freeing a live block returns, keeps the invariant and takes exactly that block off
  the live ones; freeing any other address panics.
\<close>

theorem dfree_buddy_correct:
  assumes "buddy_inv s T"
  shows "case T a of
      None \<Rightarrow> dfree_buddy a s = Inl (Panic ''dfree'')
    | Some n \<Rightarrow> \<exists>s'. dfree_buddy a s = Inr s' \<and> buddy_inv s' (T(a := None))"
  using dfree_buddy_present [OF assms, of a] dfree_buddy_absent [OF assms, of a]
  by (cases "T a") auto

theorem dfree_buddy_correct_witness:
  "\<exists>s. buddyInit 0x80400000 0x80410000 zero_buddy = Inr s \<and> dfree_buddy 0x80402000 s = Inl (Panic ''dfree'')"
  using booted dfree_buddy_correct [of _ Map.empty "0x80402000"] by auto

text \<open>
  C11. Sequences of requests.  After any sequence of allocations and releases that completes, live
  blocks do not overlap, and if all of them have been released then the free lists are those of the
  freshly initialised allocator: one block, the whole region.
\<close>

theorem buddy_requests:
  assumes "buddy_inv s Map.empty" and "sizes_ok rs"
    and "serve dmalloc_buddy dfree_buddy rs s Map.empty = Inr (s', T)"
  shows "(\<forall>a b m n. T a = Some m \<and> T b = Some n \<and> a \<noteq> b \<longrightarrow> apart a m b n) \<and>
    (T = Map.empty \<longrightarrow> orderList s' = orderList s)"
proof -
  have "buddy_inv s' T \<and> vstart s' = vstart s \<and> maxOrder s' = maxOrder s"
    using buddy.serve_inv [of s Map.empty "vstart s" "maxOrder s" rs s' T] assms by blast
  then show ?thesis using buddy_inv_apart buddy_inv_empty assms(1) by metis
qed

theorem buddy_requests_witness:
  "\<exists>s a s' s''. buddyInit 0x80400000 0x80410000 zero_buddy = Inr s \<and> dmalloc_buddy 4000 s = Inr (a, s') \<and>
     dfree_buddy a s' = Inr s'' \<and> orderList s'' = orderList s"
proof -
  obtain s where s: "buddyInit 0x80400000 0x80410000 zero_buddy = Inr s" "buddy_inv s Map.empty"
    using booted by blast
  obtain a s' where a: "dmalloc_buddy 4000 s = Inr (a, s')" "buddy_inv s' [a \<mapsto> 4000]"
    by (rule dmalloc_buddy_cases [OF s(2) _ calOrder_page(1)])
      (auto simp: block_ok_def Suc_le_eq dest!: spec [of _ 0])
  obtain s'' where s'': "dfree_buddy a s' = Inr s''" using dfree_buddy_present [OF a(2), of a 4000] by auto
  have "serve dmalloc_buddy dfree_buddy [Alloc 4000, Release a] s Map.empty = Inr (s'', Map.empty)"
    using a s'' by simp
  moreover have "sizes_ok [Alloc 4000, Release a]" by (simp add: sizes_ok_def)
  ultimately show ?thesis using buddy_requests [OF s(2)] s(1) a(1) s'' by blast
qed

end
