(* ===== verification/Ring.thy ===== *)
theory Ring
  imports Xv6_Prelude
begin

text \<open>
  Ring buffers with 32-bit counters that only grow and wrap, as the pipe and the console use them.  \<open>ring m b r n\<close>
  are the \<open>n\<close> entries of a buffer of \<open>m\<close> entries from counter \<open>r\<close> on.  The wrap of the counters is harmless because
  the size divides \<open>2 ^ 32\<close>, which is the assumption of the locale.
\<close>

definition ring :: "nat \<Rightarrow> 'a list \<Rightarrow> u32 \<Rightarrow> nat \<Rightarrow> 'a list" where
  "ring m b r n = map (\<lambda>k. b ! (unat (r + of_nat k) mod m)) [0..<n]"

lemma length_ring [simp]: "length (ring m b r n) = n"
  by (simp add: ring_def)

lemma ring_0 [simp]: "ring m b r 0 = []"
  by (simp add: ring_def)

lemma ring_Suc: "ring m b r (Suc n) = b ! (unat r mod m) # ring m b (r + 1) n"
  unfolding ring_def upt_conv_Cons [OF zero_less_Suc] map_Suc_upt [symmetric] by (simp add: algebra_simps)

lemma ring_append: "ring m b r (i + j) = ring m b r i @ ring m b (r + of_nat i) j"
proof (induction i arbitrary: r)
  case (Suc i)
  then show ?case by (simp add: ring_Suc algebra_simps)
qed simp

lemma ring_snoc: "ring m b r (Suc n) = ring m b r n @ [b ! (unat (r + of_nat n) mod m)]"
  using ring_append [of m b r n 1] ring_Suc [of m b "r + of_nat n" 0] by simp

text \<open>Counters: how far one is ahead of another, and moving it by one.\<close>

lemma ahead_Suc: "unat (w - r) < 4294967295 \<Longrightarrow> unat (w + 1 - r :: u32) = Suc (unat (w - r))"
proof -
  assume "unat (w - r) < 4294967295"
  then have "unat ((w - r) + 1) = unat (w - r) + 1" by (subst unat_u32_add) simp_all
  then show ?thesis by (simp add: algebra_simps)
qed

lemma ahead_minus: "w \<noteq> r \<Longrightarrow> unat (w - r :: u32) = Suc (unat (w - (r + 1)))" "w \<noteq> r \<Longrightarrow> unat (w - r :: u32) = Suc (unat (w - 1 - r))"
proof -
  assume "w \<noteq> r"
  then have "unat (w - r - 1) = unat (w - r) - 1" "0 < unat (w - r)" by (auto simp: unat_minus_one unat_gt_0)
  then show "unat (w - r) = Suc (unat (w - (r + 1)))" "unat (w - r) = Suc (unat (w - 1 - r))" by (simp_all add: algebra_simps)
qed

text \<open>Two offsets below the size give the same slot only if they are equal.\<close>

lemma ring_mod: "(r + k) mod m = (r + j) mod m \<Longrightarrow> k < m \<Longrightarrow> j < m \<Longrightarrow> k = j" for r k j m :: nat
proof (induction k j rule: linorder_wlog)
  case (le k j)
  then have "m dvd (r + j) - (r + k)" using mod_eq_dvd_iff_nat [of "r + k" "r + j" m] by simp
  with le show ?case using nat_dvd_not_less [of "j - k" m] by fastforce
next
  case (sym k j)
  then show ?case by simp
qed

locale ring_size =
  fixes m :: nat
  assumes divides: "m dvd 2 ^ 32" and positive: "0 < m"
begin

lemma slot: "unat (r + of_nat k :: u32) mod m = (unat r + k) mod m"
proof -
  have "unat (r + of_nat k :: u32) = (unat r + k) mod 2 ^ 32"
    by (simp add: unat_word_ariths unat_of_nat take_bit_eq_mod mod_add_right_eq)
  then show ?thesis using divides by (simp add: mod_mod_cancel)
qed

text \<open>Storing at the slot behind the last entry appends.\<close>

lemma store_snoc:
  assumes "length b = m" and "n < m"
  shows "ring m (b[unat (r + of_nat n) mod m := x]) r (Suc n) = ring m b r n @ [x]"
proof -
  have "unat (r + of_nat n) mod m \<noteq> unat (r + of_nat k) mod m" if "k < n" for k
    using ring_mod [of "unat r" k m n] that assms(2) by (auto simp: slot)
  then have "ring m (b[unat (r + of_nat n) mod m := x]) r n = ring m b r n" by (auto simp: ring_def)
  then show ?thesis using assms(1) positive by (simp add: ring_snoc)
qed

end

end
