(* ===== verification/Pipe.thy ===== *)
theory Pipe
  imports Ring
begin

text \<open>
  The pipe of \<^verbatim>\<open>pipe.c\<close>: a ring buffer of 512 bytes with two 32-bit counters that only grow and wrap.
  \<^verbatim>\<open>pipewrite\<close> and \<^verbatim>\<open>piperead\<close> give up the lock when they \<^verbatim>\<open>sleep\<close>, so each is modelled as the section
  between two sleeps: it ends in \<open>Ret\<close>, or in \<open>Sleep\<close> with the index where it goes on when it is woken.
  The step relation \<open>pipe_step\<close> interleaves such sections of one reader and one writer end with closings
  of the two ends in any order.
\<close>

section \<open>The data structure\<close>

abbreviation (input) PIPESIZE :: "'a::numeral" where
  "PIPESIZE \<equiv> 512"

record pipe =
  data :: "u8 list"
  nread :: u32
  nwrite :: u32
  readopen :: bool
  writeopen :: bool

datatype wait_chan = On_nread | On_nwrite

text \<open>\<open>Ret\<close>: the value returned; \<open>Sleep\<close>: the channel slept on and the index reached.\<close>

datatype outcome = Ret int | Sleep wait_chan nat

section \<open>Operations\<close>

text \<open>
  One section of \<^verbatim>\<open>pipewrite\<close> from index \<open>i\<close>: copy bytes while there is room; when the buffer is full
  return \<open>-1\<close> if nobody can read or the process is killed, else sleep.
\<close>

function pipewrite_from :: "bool \<Rightarrow> (nat \<Rightarrow> u8) \<Rightarrow> int \<Rightarrow> nat \<Rightarrow> pipe \<Rightarrow> outcome \<times> pipe" where
  "pipewrite_from killed addr n i p =
     (if int i < n
      then if nwrite p = nread p + PIPESIZE
           then if \<not> readopen p \<or> killed then (Ret (-1), p) else (Sleep On_nwrite i, p)
           else pipewrite_from killed addr n (Suc i)
                  (p\<lparr>data := (data p)[unat (nwrite p) mod PIPESIZE := addr i], nwrite := nwrite p + 1\<rparr>)
      else (Ret n, p))"
  by pat_completeness auto
termination
  by (relation "measure (\<lambda>(killed, addr, n, i, p). nat (n - int i))") auto

declare pipewrite_from.simps [simp del]

definition pipewrite :: "bool \<Rightarrow> (nat \<Rightarrow> u8) \<Rightarrow> int \<Rightarrow> pipe \<Rightarrow> outcome \<times> pipe" where
  "pipewrite killed addr n p = pipewrite_from killed addr n 0 p"

text \<open>The copying loop of \<^verbatim>\<open>piperead\<close>; the bytes stored at \<^verbatim>\<open>addr\<close> are collected in order.\<close>

function pipecopy :: "int \<Rightarrow> nat \<Rightarrow> u8 list \<Rightarrow> pipe \<Rightarrow> u8 list \<times> pipe" where
  "pipecopy n i out p =
     (if int i < n
      then if nread p = nwrite p then (out, p)
           else pipecopy n (Suc i) (out @ [data p ! (unat (nread p) mod PIPESIZE)]) (p\<lparr>nread := nread p + 1\<rparr>)
      else (out, p))"
  by pat_completeness auto
termination
  by (relation "measure (\<lambda>(n, i, out, p). nat (n - int i))") auto

declare pipecopy.simps [simp del]

definition piperead :: "bool \<Rightarrow> int \<Rightarrow> pipe \<Rightarrow> outcome \<times> u8 list \<times> pipe" where
  "piperead killed n p =
     (if nread p = nwrite p \<and> writeopen p
      then if killed then (Ret (-1), [], p) else (Sleep On_nread 0, [], p)
      else let (out, p') = pipecopy n 0 [] p in (Ret (int (length out)), out, p'))"

text \<open>\<^verbatim>\<open>pipeclose\<close>; the flag says whether the page of the pipe was freed.\<close>

definition pipeclose :: "bool \<Rightarrow> pipe \<Rightarrow> bool \<times> pipe" where
  "pipeclose writable p =
     (let p' = (if writable then p\<lparr>writeopen := False\<rparr> else p\<lparr>readopen := False\<rparr>)
      in (\<not> readopen p' \<and> \<not> writeopen p', p'))"

text \<open>The initial contents that \<^verbatim>\<open>pipealloc\<close> gives to a fresh page.\<close>

definition pipe_init :: "pipe \<Rightarrow> pipe" where
  "pipe_init p = p\<lparr>readopen := True, writeopen := True, nwrite := 0, nread := 0\<rparr>"

section \<open>The abstract queue\<close>

definition pipe_len :: "pipe \<Rightarrow> nat" where
  "pipe_len p = unat (nwrite p - nread p)"

definition pipe_queue :: "pipe \<Rightarrow> u8 list" where
  "pipe_queue p = ring PIPESIZE (data p) (nread p) (pipe_len p)"

definition pipe_ok :: "pipe \<Rightarrow> bool" where
  "pipe_ok p \<longleftrightarrow> length (data p) = PIPESIZE \<and> pipe_len p \<le> PIPESIZE"

lemma length_pipe_queue [simp]: "length (pipe_queue p) = pipe_len p"
  by (simp add: pipe_queue_def)

lemma pipe_empty_iff: "nread p = nwrite p \<longleftrightarrow> pipe_queue p = []"
proof -
  have "pipe_queue p = [] \<longleftrightarrow> pipe_len p = 0" using length_pipe_queue [of p] by (metis length_0_conv)
  also have "\<dots> \<longleftrightarrow> nread p = nwrite p" by (auto simp: pipe_len_def unat_eq_zero)
  finally show ?thesis by simp
qed

lemma pipe_full_iff: "nwrite p = nread p + PIPESIZE \<longleftrightarrow> pipe_len p = PIPESIZE"
proof
  assume "pipe_len p = PIPESIZE"
  then have "nwrite p - nread p = PIPESIZE" unfolding word_unat_eq_iff by (simp add: pipe_len_def)
  then show "nwrite p = nread p + PIPESIZE" by (simp add: algebra_simps)
qed (simp add: pipe_len_def)

interpretation pr: ring_size 512
  by unfold_locales simp_all

text \<open>Appending at one end and removing at the other.\<close>

lemma pipe_push:
  fixes b :: u8
  assumes ok: "pipe_ok p" and room: "pipe_len p < PIPESIZE"
  defines "p' \<equiv> p\<lparr>data := (data p)[unat (nwrite p) mod PIPESIZE := b], nwrite := nwrite p + 1\<rparr>"
  shows "pipe_ok p'" and "pipe_queue p' = pipe_queue p @ [b]"
proof -
  have len: "length (data p) = PIPESIZE" using ok by (simp add: pipe_ok_def)
  have len': "pipe_len p' = Suc (pipe_len p)"
    using ahead_Suc [of "nwrite p" "nread p"] room by (simp add: p'_def pipe_len_def)
  then show "pipe_ok p'" using room len by (simp add: pipe_ok_def) (simp add: p'_def)
  have "nwrite p = nread p + of_nat (pipe_len p)" by (simp add: pipe_len_def)
  then show "pipe_queue p' = pipe_queue p @ [b]"
    using pr.store_snoc [OF len room, of "nread p" b] unfolding pipe_queue_def len' by (simp add: p'_def)
qed

lemma pipe_pop:
  assumes ok: "pipe_ok p" and ne: "nread p \<noteq> nwrite p"
  defines "p' \<equiv> p\<lparr>nread := nread p + 1\<rparr>"
  shows "pipe_ok p'" and "pipe_queue p = data p ! (unat (nread p) mod PIPESIZE) # pipe_queue p'"
proof -
  have len': "pipe_len p = Suc (pipe_len p')" using ahead_minus(1) [of "nwrite p" "nread p"] ne by (simp add: p'_def pipe_len_def)
  then show "pipe_ok p'" using ok by (simp add: pipe_ok_def) (simp add: p'_def)
  show "pipe_queue p = data p ! (unat (nread p) mod PIPESIZE) # pipe_queue p'"
    unfolding pipe_queue_def len' by (simp add: ring_Suc p'_def)
qed

section \<open>What a section does\<close>

text \<open>
  How a section of \<^verbatim>\<open>pipewrite\<close> that has gone from index \<open>i\<close> to \<open>j\<close> ends: asleep at a full buffer, with
  \<open>-1\<close> at a full buffer that nobody will empty, or with all \<open>n\<close> bytes written.
\<close>

definition write_end :: "bool \<Rightarrow> bool \<Rightarrow> int \<Rightarrow> nat \<Rightarrow> nat \<Rightarrow> nat \<Rightarrow> outcome \<Rightarrow> bool" where
  "write_end killed ropen n i j len out \<longleftrightarrow>
     (case out of
        Sleep c k \<Rightarrow> c = On_nwrite \<and> k = j \<and> int j < n \<and> len = PIPESIZE \<and> ropen \<and> \<not> killed
      | Ret r \<Rightarrow> r = n \<and> j = max i (nat n) \<or> r = -1 \<and> int j < n \<and> len = PIPESIZE \<and> (killed \<or> \<not> ropen))"

lemma write_end_Suc: "write_end killed ropen n (Suc i) j len out \<Longrightarrow> int i < n \<Longrightarrow> write_end killed ropen n i j len out"
  by (cases out) (auto simp: write_end_def)

lemma pipewrite_from_spec:
  assumes "pipe_ok p" and "pipewrite_from killed addr n i p = (out, p')"
  shows "\<exists>j \<ge> i. pipe_ok p' \<and> pipe_queue p' = pipe_queue p @ map addr [i..<j] \<and>
    nread p' = nread p \<and> readopen p' = readopen p \<and> writeopen p' = writeopen p \<and>
    nwrite p' = nwrite p + of_nat (j - i) \<and> write_end killed (readopen p) n i j (pipe_len p') out"
  using assms
proof (induction killed addr n i p rule: pipewrite_from.induct)
  case (1 killed addr n i p)
  show ?case
  proof (cases "int i < n \<and> nwrite p \<noteq> nread p + PIPESIZE")
    case False
    with "1.prems" show ?thesis
      by (intro exI [of _ i])
        (auto simp: pipewrite_from.simps [of killed addr n i p] pipe_full_iff write_end_def split: if_splits)
  next
    case True
    let ?p = "p\<lparr>data := (data p)[unat (nwrite p) mod PIPESIZE := addr i], nwrite := nwrite p + 1\<rparr>"
    have room: "pipe_len p < PIPESIZE" using True "1.prems"(1) by (auto simp: pipe_full_iff pipe_ok_def)
    note push = pipe_push [OF "1.prems"(1) room, of "addr i"]
    have run: "pipewrite_from killed addr n (Suc i) ?p = (out, p')"
      using "1.prems"(2) True by (simp add: pipewrite_from.simps [of killed addr n i p])
    obtain j where j: "Suc i \<le> j" "pipe_ok p'" "pipe_queue p' = pipe_queue ?p @ map addr [Suc i..<j]"
      "nread p' = nread p" "readopen p' = readopen p" "writeopen p' = writeopen p"
      "nwrite p' = nwrite p + 1 + of_nat (j - Suc i)"
      "write_end killed (readopen p) n (Suc i) j (pipe_len p') out"
      using "1.IH" [OF _ _ push(1) run] True by auto
    have "pipe_queue p' = pipe_queue p @ map addr [i..<j]" using j(1,3) push(2) by (simp add: upt_conv_Cons)
    moreover have "nwrite p' = nwrite p + of_nat (j - i)"
      using j(1,7) by (simp add: Suc_diff_le of_nat_diff)
    ultimately show ?thesis using j write_end_Suc [OF j(8)] True by (intro exI [of _ j]) simp
  qed
qed

lemma pipecopy_spec:
  assumes "pipe_ok p" and "pipecopy n i out p = (out', p')"
  shows "\<exists>m. out' = out @ take m (pipe_queue p) \<and> pipe_ok p' \<and> pipe_queue p' = drop m (pipe_queue p) \<and>
    m = min (nat n - i) (pipe_len p) \<and> readopen p' = readopen p \<and> writeopen p' = writeopen p \<and>
    nwrite p' = nwrite p"
  using assms
proof (induction n i out p rule: pipecopy.induct)
  case (1 n i out p)
  show ?case
  proof (cases "int i < n \<and> nread p \<noteq> nwrite p")
    case False
    then have "out' = out" "p' = p" "nat n - i = 0 \<or> pipe_len p = 0"
      using "1.prems"(2) by (auto simp: pipecopy.simps [of n i out p] pipe_len_def split: if_splits)
    with "1.prems"(1) show ?thesis by auto
  next
    case True
    let ?p = "p\<lparr>nread := nread p + 1\<rparr>"
    note pop = pipe_pop [OF "1.prems"(1), OF conjunct2 [OF True]]
    have len: "pipe_len p = Suc (pipe_len ?p)" using pop(2) by (metis length_Cons length_pipe_queue)
    have "nat n - i = Suc (nat n - Suc i)" using True by auto
    moreover obtain m where "out' = out @ data p ! (unat (nread p) mod PIPESIZE) # take m (pipe_queue ?p)" "pipe_ok p'"
      "pipe_queue p' = drop m (pipe_queue ?p)" "m = min (nat n - Suc i) (pipe_len ?p)"
      "readopen p' = readopen p" "writeopen p' = writeopen p" "nwrite p' = nwrite p"
      using "1.IH" [OF _ _ pop(1)] "1.prems"(2) True by (auto simp: pipecopy.simps [of n i out p])
    ultimately show ?thesis using len pop(2) by (intro exI [of _ "Suc m"]) simp
  qed
qed

lemma piperead_spec:
  assumes "pipe_ok p" and "piperead killed n p = (res, out, p')"
  shows "pipe_ok p'" and "pipe_queue p = out @ pipe_queue p'"
    and "readopen p' = readopen p \<and> writeopen p' = writeopen p \<and> nwrite p' = nwrite p"
    and "case res of
        Sleep c k \<Rightarrow> pipe_queue p = [] \<and> writeopen p \<and> \<not> killed \<and> p' = p
      | Ret r \<Rightarrow> r = int (length out) \<and> length out = min (nat n) (pipe_len p) \<and> (pipe_queue p = [] \<longrightarrow> \<not> writeopen p) \<or>
                r = -1 \<and> killed \<and> p' = p"
proof -
  obtain out1 p1 where c: "pipecopy n 0 [] p = (out1, p1)" by fastforce
  obtain m where m: "out1 = take m (pipe_queue p)" "pipe_ok p1" "pipe_queue p1 = drop m (pipe_queue p)"
    "m = min (nat n) (pipe_len p)" "readopen p1 = readopen p" "writeopen p1 = writeopen p" "nwrite p1 = nwrite p"
    using pipecopy_spec [OF assms(1) c] by auto
  note cases = assms(2) [unfolded piperead_def Let_def c, simplified]
  show "pipe_ok p'" "pipe_queue p = out @ pipe_queue p'"
    "readopen p' = readopen p \<and> writeopen p' = writeopen p \<and> nwrite p' = nwrite p"
    using cases m assms(1) by (auto simp: pipe_empty_iff split: if_splits)
  show "case res of
        Sleep c k \<Rightarrow> pipe_queue p = [] \<and> writeopen p \<and> \<not> killed \<and> p' = p
      | Ret r \<Rightarrow> r = int (length out) \<and> length out = min (nat n) (pipe_len p) \<and> (pipe_queue p = [] \<longrightarrow> \<not> writeopen p) \<or>
                r = -1 \<and> killed \<and> p' = p"
    using cases m by (auto simp: pipe_empty_iff split: if_splits)
qed

section \<open>Interleaved readers and writers\<close>

text \<open>
  A configuration is the pipe with two histories: the bytes that sections of \<^verbatim>\<open>pipewrite\<close> have put
  into the buffer, of whichever call and process, in the order they did, and the bytes that calls of
  \<^verbatim>\<open>piperead\<close> have returned.
\<close>

type_synonym pipe_conf = "pipe \<times> u8 list \<times> u8 list"

inductive pipe_step :: "pipe_conf \<Rightarrow> pipe_conf \<Rightarrow> bool" where
  put: "pipewrite_from killed addr n i p = (out, p') \<Longrightarrow>
    pipe_step (p, sent, got) (p', sent @ map addr [i..<i + unat (nwrite p' - nwrite p)], got)"
| get: "piperead killed n p = (res, out, p') \<Longrightarrow> pipe_step (p, sent, got) (p', sent, got @ out)"
| shut: "pipeclose writable p = (freed, p') \<Longrightarrow> pipe_step (p, sent, got) (p', sent, got)"

inductive pipe_reach :: "pipe_conf \<Rightarrow> pipe_conf \<Rightarrow> bool" where
  refl: "pipe_reach c c"
| step: "pipe_reach c d \<Longrightarrow> pipe_step d e \<Longrightarrow> pipe_reach c e"

inductive_cases pipe_stepE: "pipe_step (p, sent, got) c"

definition pipe_inv :: "pipe_conf \<Rightarrow> bool" where
  "pipe_inv c \<longleftrightarrow> (case c of (p, sent, got) \<Rightarrow> pipe_ok p \<and> sent = got @ pipe_queue p)"

lemma pipewrite_count:
  assumes "pipe_ok p" and "pipewrite_from killed addr n i p = (out, p')"
  shows "pipe_ok p'" and "pipe_queue p' = pipe_queue p @ map addr [i..<i + unat (nwrite p' - nwrite p)]"
proof -
  obtain j where j: "i \<le> j" "pipe_ok p'" "pipe_queue p' = pipe_queue p @ map addr [i..<j]"
    "nwrite p' = nwrite p + of_nat (j - i)"
    using pipewrite_from_spec [OF assms] by blast
  show "pipe_ok p'" by fact
  have "pipe_len p' = pipe_len p + (j - i)" using arg_cong [OF j(3), of length] by simp
  then have "j - i \<le> PIPESIZE" using j(2) by (simp add: pipe_ok_def)
  then have "unat (nwrite p' - nwrite p) = j - i" unfolding j(4) by (simp add: unat_u32_of_nat)
  then show "pipe_queue p' = pipe_queue p @ map addr [i..<i + unat (nwrite p' - nwrite p)]" using j(1,3) by simp
qed

lemma pipe_step_inv: "pipe_step c d \<Longrightarrow> pipe_inv c \<Longrightarrow> pipe_inv d"
proof (induction rule: pipe_step.induct)
  case (put killed addr n i p out p' sent got)
  then show ?case using pipewrite_count [of p] by (auto simp: pipe_inv_def)
next
  case (get killed n p res out p' sent got)
  then show ?case using piperead_spec(1,2) [of p] by (auto simp: pipe_inv_def)
next
  case (shut writable p freed p' sent got)
  then show ?case
    by (auto simp: pipe_inv_def pipeclose_def Let_def pipe_ok_def pipe_queue_def pipe_len_def split: if_splits)
qed

lemma pipe_reach_inv: "pipe_reach c d \<Longrightarrow> pipe_inv c \<Longrightarrow> pipe_inv d"
  by (induction rule: pipe_reach.induct) (auto intro: pipe_step_inv)

section \<open>Properties\<close>

text \<open>
  C12. A pipe is a first-in first-out queue under every interleaving: starting from a new pipe, after
  any sequence of sections of reads, writes and closes, the bytes written so far are the bytes read
  so far followed by the contents of the buffer, which never holds more than 512 bytes, also when the
  32-bit counters wrap.
\<close>

theorem pipe_fifo:
  assumes "length (data p0) = PIPESIZE" and "pipe_reach (pipe_init p0, [], []) (p, sent, got)"
  shows "sent = got @ pipe_queue p \<and> pipe_len p \<le> PIPESIZE"
proof -
  have "pipe_inv (pipe_init p0, [], [])"
    using assms(1) by (simp add: pipe_inv_def pipe_ok_def pipe_len_def pipe_queue_def pipe_init_def)
  with pipe_reach_inv [OF assms(2)] show ?thesis by (simp add: pipe_inv_def pipe_ok_def)
qed

definition fresh_pipe :: pipe where
  "fresh_pipe = \<lparr>data = replicate PIPESIZE 5, nread = 7, nwrite = 0, readopen = False, writeopen = False\<rparr>"

definition written_pipe :: pipe where
  "written_pipe = (pipe_init fresh_pipe)\<lparr>data := (replicate PIPESIZE 5)[0 := 65, Suc 0 := 66], nwrite := 2\<rparr>"

lemma fresh_pipe_ok: "pipe_ok (pipe_init fresh_pipe)"
  by (simp add: pipe_ok_def pipe_init_def fresh_pipe_def pipe_len_def)

lemma fresh_pipe_write:
  "pipewrite_from False (\<lambda>i. of_nat i + 65) 2 0 (pipe_init fresh_pipe) =
    (Ret 2, written_pipe)"
  by (simp add: pipewrite_from.simps pipe_init_def fresh_pipe_def written_pipe_def)

theorem pipe_fifo_witness:
  "\<exists>p. pipe_reach (pipe_init fresh_pipe, [], []) (p, [65, 66], []) \<and> [65, 66] = [] @ pipe_queue p \<and> pipe_len p \<le> PIPESIZE"
proof -
  have "pipe_step (pipe_init fresh_pipe, [], []) (written_pipe, [65, 66], [])"
    using pipe_step.put [OF fresh_pipe_write, of "[]" "[]"]
    by (simp add: pipe_init_def written_pipe_def upt_rec)
  then have reach: "pipe_reach (pipe_init fresh_pipe, [], []) (written_pipe, [65, 66], [])"
    using pipe_reach.step pipe_reach.refl by blast
  have "length (data fresh_pipe) = PIPESIZE" by (simp add: fresh_pipe_def)
  from pipe_fifo [OF this reach] reach show ?thesis by blast
qed

text \<open>
  How a write ends.  A section of \<^verbatim>\<open>pipewrite\<close> appends a prefix of the bytes still to be written
  and stops early only at a full buffer: asleep on \<^verbatim>\<open>nwrite\<close> if the read end is open and the process
  alive, with \<open>-1\<close> otherwise; when it returns \<open>n\<close> all bytes from \<open>i\<close> to \<open>n\<close> have been appended.
\<close>

theorem pipewrite_section:
  assumes "pipe_ok p" and "pipewrite_from killed addr n i p = (out, p')"
  shows "\<exists>j \<ge> i. pipe_queue p' = pipe_queue p @ map addr [i..<j] \<and>
    (case out of
       Sleep c k \<Rightarrow> c = On_nwrite \<and> k = j \<and> int j < n \<and> pipe_len p' = PIPESIZE \<and> readopen p \<and> \<not> killed
     | Ret r \<Rightarrow> r = n \<and> j = max i (nat n) \<or>
               r = -1 \<and> int j < n \<and> pipe_len p' = PIPESIZE \<and> (killed \<or> \<not> readopen p))"
  using pipewrite_from_spec [OF assms] unfolding write_end_def by blast

theorem pipewrite_section_witness:
  "\<exists>j \<ge> 0. pipe_queue (written_pipe) =
     map (\<lambda>i. of_nat i + 65) [0..<j] \<and> j = (2::nat)"
proof -
  have "pipe_queue (pipe_init fresh_pipe) = []" by (simp add: pipe_queue_def pipe_len_def pipe_init_def)
  then show ?thesis using pipewrite_section [OF fresh_pipe_ok fresh_pipe_write] by auto
qed

text \<open>
  What a read returns.  \<^verbatim>\<open>piperead\<close> takes the oldest bytes, as many as asked for and available; it
  sleeps only at an empty pipe whose write end is open, and returns 0 for a positive count only at
  end of file, an empty pipe whose write end is closed.
\<close>

theorem piperead_result:
  assumes "pipe_ok p" and "piperead killed n p = (res, out, p')"
  shows "pipe_queue p = out @ pipe_queue p' \<and>
    (case res of
       Sleep c k \<Rightarrow> pipe_queue p = [] \<and> writeopen p \<and> \<not> killed
     | Ret r \<Rightarrow> r = int (length out) \<and> length out = min (nat n) (pipe_len p) \<and>
                 (0 < n \<and> out = [] \<longrightarrow> pipe_queue p = [] \<and> \<not> writeopen p) \<or> r = -1 \<and> killed)"
proof (cases res)
  case (Sleep c k)
  then show ?thesis using piperead_spec(2,4) [OF assms] by fastforce
next
  case (Ret r)
  have "0 < n \<Longrightarrow> length out = min (nat n) (pipe_len p) \<Longrightarrow> out = [] \<Longrightarrow> pipe_queue p = []"
    using length_pipe_queue [of p] by (metis length_0_conv min_0R min_def nat_eq_iff2 not_less zero_less_nat_eq list.size(3) less_irrefl)
  with Ret show ?thesis using piperead_spec(2,4) [OF assms] by auto
qed

theorem piperead_result_witness:
  "piperead False 4 (pipe_init fresh_pipe) = (Sleep On_nread 0, [], pipe_init fresh_pipe) \<and>
   pipe_queue (pipe_init fresh_pipe) = [] @ pipe_queue (pipe_init fresh_pipe)"
proof -
  have "piperead False 4 (pipe_init fresh_pipe) = (Sleep On_nread 0, [], pipe_init fresh_pipe)"
    by (simp add: piperead_def pipe_init_def)
  then show ?thesis using piperead_result [OF fresh_pipe_ok, of False 4] by blast
qed

end
