(* ===== verification/Nvme.thy ===== *)
theory Nvme
  imports Kalloc
begin

text \<open>
  The NVMe driver: the command fields of \<^verbatim>\<open>nvme_field.c\<close>, the queue of \<^verbatim>\<open>queue.c\<close> and the commands of
  \<^verbatim>\<open>nvme.c\<close>.  A queue entry is a record with the layout of \<^verbatim>\<open>nvme_queue_entry.h\<close>.  The device is a
  parameter: what the driver sees of it is the contents of the completion queue at each of its
  polls, a list of observations.  \<open>Hang\<close> is the answer when the observations run out, that is, when the
  device never posts what the driver waits for.
\<close>

section \<open>Entries and queues\<close>

record iosq_entry =
  opcode :: u8
  PSDT_FUSE :: u8
  command_identifier :: "u8 list"
  namespace_identifier :: u32
  reserved :: "u32 list"
  metadata_pointer :: "u32 list"
  data_pointer :: "u32 list"
  command_specific :: "u32 list"

record iocq_entry =
  cq_command_specific :: u32
  cq_reserved :: u32
  sq_head_pointer :: "u8 list"
  sq_identifier :: "u8 list"
  cq_command_identifier :: "u8 list"
  status_field_p :: "u8 list"

record nvme_queue =
  iosq_front :: int
  iosq_rear :: int
  iocq_front :: int
  iocq_rear :: int
  phase :: int
  submission_doorbell :: u32
  completion_doorbell :: u32
  submission_queue :: u32
  completion_queue :: u32

abbreviation (input) QSIZE :: "'a::numeral" where
  "QSIZE \<equiv> 64"

definition zero_sqe :: iosq_entry where
  "zero_sqe = \<lparr>opcode = 0, PSDT_FUSE = 0, command_identifier = [0, 0], namespace_identifier = 0,
     reserved = [0, 0], metadata_pointer = [0, 0], data_pointer = [0, 0, 0, 0],
     command_specific = [0, 0, 0, 0, 0, 0]\<rparr>"

definition init_que :: "nvme_queue \<Rightarrow> nvme_queue" where
  "init_que q = q\<lparr>iosq_front := 0, iosq_rear := 0, iocq_front := 0, iocq_rear := 0, phase := 1\<rparr>"

section \<open>Fields\<close>

text \<open>
  \<^verbatim>\<open>PSDT_FUSE &= 0x00ffffff\<close> on an 8-bit field: the mask is truncated to \<open>0xff\<close> and keeps all of it.
\<close>

definition set_PSDT :: "u8 \<Rightarrow> iosq_entry \<Rightarrow> iosq_entry" where
  "set_PSDT PSDT e =
     (let x = PSDT_FUSE e AND 0xff in e\<lparr>PSDT_FUSE := x OR push_bit 6 PSDT\<rparr>)"

definition set_FUSE :: "u8 \<Rightarrow> iosq_entry \<Rightarrow> iosq_entry" where
  "set_FUSE FUSE e =
     (let x = push_bit 2 (drop_bit 2 (PSDT_FUSE e)) in e\<lparr>PSDT_FUSE := x OR FUSE\<rparr>)"

definition get_PSDT :: "iosq_entry \<Rightarrow> u8" where
  "get_PSDT e = drop_bit 6 (PSDT_FUSE e)"

definition get_FUSE :: "iosq_entry \<Rightarrow> u8" where
  "get_FUSE e = PSDT_FUSE e AND 3"

text \<open>\<^verbatim>\<open>set_StatusField\<close> and \<^verbatim>\<open>set_P\<close> take the entry by value; what they compute is dropped when they return.\<close>

definition set_StatusField :: "u8 list \<Rightarrow> iocq_entry \<Rightarrow> iocq_entry" where
  "set_StatusField Status_Field e = e"

definition set_P :: "u8 \<Rightarrow> iocq_entry \<Rightarrow> iocq_entry" where
  "set_P p e = e"

definition get_StatusField :: "iocq_entry \<Rightarrow> u32" where
  "get_StatusField e =
     drop_bit 1 (push_bit 8 (ucast (status_field_p e ! 1)) + ucast (status_field_p e ! 0))"

definition get_P :: "iocq_entry \<Rightarrow> u8" where
  "get_P e = status_field_p e ! 0 AND 1"

text \<open>Assignment to one word of \<^verbatim>\<open>command_specific\<close>.\<close>

definition upd_cs :: "nat \<Rightarrow> (u32 \<Rightarrow> u32) \<Rightarrow> iosq_entry \<Rightarrow> iosq_entry" where
  "upd_cs i f e = e\<lparr>command_specific := (command_specific e)[i := f (command_specific e ! i)]\<rparr>"

abbreviation (input) low16 :: "u32 \<Rightarrow> u32" where
  "low16 x \<equiv> drop_bit 16 (push_bit 16 x)"

abbreviation (input) high16 :: "u32 \<Rightarrow> u32" where
  "high16 x \<equiv> push_bit 16 (drop_bit 16 x)"

definition admin_identify_set_controller_identifier :: "u32 \<Rightarrow> iosq_entry \<Rightarrow> iosq_entry" where
  "admin_identify_set_controller_identifier cid = upd_cs 0 (\<lambda>x. (x AND 0x0000ff00) OR push_bit 16 cid)"

definition admin_identify_set_CNS :: "u8 \<Rightarrow> iosq_entry \<Rightarrow> iosq_entry" where
  "admin_identify_set_CNS CNS = upd_cs 0 (\<lambda>x. (x AND 0xffffff00) OR ucast CNS)"

definition admin_create_io_completion_queue_set_queue_size :: "u32 \<Rightarrow> iosq_entry \<Rightarrow> iosq_entry" where
  "admin_create_io_completion_queue_set_queue_size sz = upd_cs 0 (\<lambda>x. low16 x OR push_bit 16 sz)"

definition admin_create_io_completion_queue_set_queue_identfier :: "u32 \<Rightarrow> iosq_entry \<Rightarrow> iosq_entry" where
  "admin_create_io_completion_queue_set_queue_identfier qid = upd_cs 0 (\<lambda>x. high16 x OR qid)"

definition admin_create_io_completion_queue_set_interrupt_vector :: "u32 \<Rightarrow> iosq_entry \<Rightarrow> iosq_entry" where
  "admin_create_io_completion_queue_set_interrupt_vector iv = upd_cs 1 (\<lambda>x. low16 x OR push_bit 16 iv)"

definition admin_create_io_completion_queue_set_ien :: "u8 \<Rightarrow> iosq_entry \<Rightarrow> iosq_entry" where
  "admin_create_io_completion_queue_set_ien ien =
     upd_cs 1 (\<lambda>x. (x AND 0xfffffffd) OR push_bit 1 (ucast ien))"

definition admin_create_io_completion_queue_set_pc :: "u8 \<Rightarrow> iosq_entry \<Rightarrow> iosq_entry" where
  "admin_create_io_completion_queue_set_pc pc = upd_cs 1 (\<lambda>x. (x AND 0xfffffffe) OR ucast pc)"

definition admin_create_io_submission_queue_set_queue_size :: "u32 \<Rightarrow> iosq_entry \<Rightarrow> iosq_entry" where
  "admin_create_io_submission_queue_set_queue_size sz = upd_cs 0 (\<lambda>x. low16 x OR push_bit 16 sz)"

definition admin_create_io_submission_queue_set_queue_identfier :: "u32 \<Rightarrow> iosq_entry \<Rightarrow> iosq_entry" where
  "admin_create_io_submission_queue_set_queue_identfier qid = upd_cs 0 (\<lambda>x. high16 x OR qid)"

definition admin_create_io_submission_queue_set_completion_queue_identifier ::
    "u32 \<Rightarrow> iosq_entry \<Rightarrow> iosq_entry" where
  "admin_create_io_submission_queue_set_completion_queue_identifier cqid =
     upd_cs 1 (\<lambda>x. low16 x OR push_bit 16 cqid)"

definition admin_create_io_submission_queue_set_QPRIO :: "u8 \<Rightarrow> iosq_entry \<Rightarrow> iosq_entry" where
  "admin_create_io_submission_queue_set_QPRIO QPRIO =
     upd_cs 1 (\<lambda>x. (x AND 0xfffffff9) OR push_bit 1 (ucast QPRIO))"

definition admin_create_io_submission_queue_set_pc :: "u8 \<Rightarrow> iosq_entry \<Rightarrow> iosq_entry" where
  "admin_create_io_submission_queue_set_pc pc = upd_cs 1 (\<lambda>x. (x AND 0xfffffffe) OR ucast pc)"

definition admin_set_feature_set_sv :: "u8 \<Rightarrow> iosq_entry \<Rightarrow> iosq_entry" where
  "admin_set_feature_set_sv sv =
     upd_cs 0 (\<lambda>x. drop_bit 1 (push_bit 1 x) OR push_bit 31 (ucast sv))"

definition admin_set_feature_set_feature_identfier :: "u8 \<Rightarrow> iosq_entry \<Rightarrow> iosq_entry" where
  "admin_set_feature_set_feature_identfier fid =
     upd_cs 0 (\<lambda>x. push_bit 8 (drop_bit 8 x) OR ucast fid)"

definition admin_set_feature_feature_specific :: "u32 list \<Rightarrow> iosq_entry \<Rightarrow> iosq_entry" where
  "admin_set_feature_feature_specific fs e =
     fold (\<lambda>i. upd_cs i (\<lambda>_. fs ! (i - 1))) [1..<5] e"

definition rw_command_set_lba :: "u32 list \<Rightarrow> iosq_entry \<Rightarrow> iosq_entry" where
  "rw_command_set_lba lba e = fold (\<lambda>i. upd_cs i (\<lambda>_. lba ! i)) [0..<2] e"

definition rw_command_set_num_lb :: "u32 \<Rightarrow> iosq_entry \<Rightarrow> iosq_entry" where
  "rw_command_set_num_lb num_lb = upd_cs 2 (\<lambda>x. high16 x OR num_lb)"

section \<open>Commands\<close>

text \<open>The part that all command builders share: opcode, flags, identifier (base 255) and name space.\<close>

definition set_header :: "u8 \<Rightarrow> u32 \<Rightarrow> iosq_entry \<Rightarrow> iosq_entry" where
  "set_header opc command_id e =
     (set_PSDT 0 (set_FUSE 0 (e\<lparr>opcode := opc\<rparr>)))
       \<lparr>command_identifier := [ucast (command_id mod 0xff), ucast (command_id div 0xff)],
        namespace_identifier := 1\<rparr>"

definition nvme_identify :: "u32 \<Rightarrow> u32 \<Rightarrow> u8 \<Rightarrow> kmem \<Rightarrow> iosq_entry \<times> kmem" where
  "nvme_identify command_id controller_id cns km =
     (let (pg, km1) = kalloc km;
          e = (set_header 6 command_id zero_sqe)\<lparr>data_pointer := [V2P pg, 0, 0, 0]\<rparr>
      in (admin_identify_set_CNS cns (admin_identify_set_controller_identifier controller_id e), km1))"

definition nvme_set_feature :: "u32 \<Rightarrow> u8 \<Rightarrow> kmem \<Rightarrow> iosq_entry \<times> kmem" where
  "nvme_set_feature command_id sv km =
     (let (pg0, km1) = kalloc km; (pg2, km2) = kalloc km1;
          e = (set_header 9 command_id zero_sqe)\<lparr>data_pointer := [V2P pg0, 0, V2P pg2, 0]\<rparr>;
          e1 = admin_set_feature_set_sv sv (admin_set_feature_set_feature_identfier 7 e)
      in (upd_cs 1 (\<lambda>_. 0x00080008) e1, km2))"

text \<open>The builders of the queue commands also return the address stored in \<^verbatim>\<open>IO_que[qid]\<close>.\<close>

definition nvme_create_iocq :: "u32 \<Rightarrow> u32 \<Rightarrow> kmem \<Rightarrow> iosq_entry \<times> u32 \<times> kmem" where
  "nvme_create_iocq command_id qid km =
     (let (pg, km1) = kalloc km;
          e = (set_header 5 command_id zero_sqe)\<lparr>data_pointer := [V2P pg, 0, 0, 0]\<rparr>;
          e1 = admin_create_io_completion_queue_set_queue_identfier (qid + 1) e;
          e2 = admin_create_io_completion_queue_set_queue_size 64 e1;
          e3 = admin_create_io_completion_queue_set_pc 1 e2;
          e4 = admin_create_io_completion_queue_set_ien 0 e3;
          e5 = admin_create_io_completion_queue_set_interrupt_vector 0 e4
      in (e5, P2V (V2P pg), km1))"

definition nvme_create_iosq :: "u32 \<Rightarrow> u32 \<Rightarrow> kmem \<Rightarrow> iosq_entry \<times> u32 \<times> kmem" where
  "nvme_create_iosq command_id qid km =
     (let (pg, km1) = kalloc km;
          e = (set_header 1 command_id zero_sqe)\<lparr>data_pointer := [V2P pg, 0, 0, 0]\<rparr>;
          e1 = admin_create_io_submission_queue_set_completion_queue_identifier (qid + 1) e;
          e2 = admin_create_io_submission_queue_set_pc 1 e1;
          e3 = admin_create_io_submission_queue_set_QPRIO 0 e2;
          e4 = admin_create_io_submission_queue_set_queue_identfier (qid + 1) e3;
          e5 = admin_create_io_submission_queue_set_queue_size 64 e4
      in (e5, P2V (V2P pg), km1))"

definition nvme_write :: "u32 \<Rightarrow> u32 list \<Rightarrow> u32 \<Rightarrow> u32 \<Rightarrow> u32 \<Rightarrow> iosq_entry" where
  "nvme_write command_id lba num_lb prps1 prps2 =
     (let e = (set_header 1 command_id zero_sqe)\<lparr>metadata_pointer := [0, 0],
                data_pointer := [V2P prps1, 0, V2P prps2, 0]\<rparr>
      in rw_command_set_num_lb num_lb (rw_command_set_lba lba e))"

text \<open>\<^verbatim>\<open>nvme_read\<close> stores its first buffer in both pointers.\<close>

definition nvme_read :: "u32 \<Rightarrow> u32 list \<Rightarrow> u32 \<Rightarrow> u32 \<Rightarrow> u32 \<Rightarrow> iosq_entry" where
  "nvme_read command_id lba num_lb prps1 prps2 =
     (let e = (set_header 2 command_id zero_sqe)\<lparr>metadata_pointer := [0, 0],
                data_pointer := [V2P prps1, 0, V2P prps1, 0]\<rparr>
      in rw_command_set_num_lb num_lb (rw_command_set_lba lba e))"

definition cmp_commandid :: "iosq_entry \<Rightarrow> iocq_entry \<Rightarrow> int" where
  "cmp_commandid c1 c2 =
     (if command_identifier c1 ! 0 \<noteq> cq_command_identifier c2 ! 0 then -1
      else if command_identifier c1 ! 1 \<noteq> cq_command_identifier c2 ! 1 then -1 else 1)"

lemma rw_command_identifier [simp]:
  "command_identifier (rw_command_set_num_lb n (rw_command_set_lba lba e)) = command_identifier e"
  by (simp add: rw_command_set_num_lb_def rw_command_set_lba_def upd_cs_def upt_rec)

section \<open>Submitting a command\<close>

text \<open>
  The two polling loops: until the phase bit of the slot is the expected one, then until the
  identifier of the slot is that of the command.  Every turn looks at a new observation.
\<close>

fun wait_phase :: "int \<Rightarrow> int \<Rightarrow> iocq_entry list list \<Rightarrow> iocq_entry list list result" where
  "wait_phase p front [] = Inl Hang"
| "wait_phase p front (cq # obs) =
     bindE (aget cq (nat front)) (\<lambda>e.
     if uint (get_P e) \<noteq> p then wait_phase p front obs else Inr obs)"

definition SID :: "u8 list \<Rightarrow> u16" where
  "SID cid = ucast (cid ! 1) * 0xff + ucast (cid ! 0)"

fun wait_cid :: "iosq_entry \<Rightarrow> int \<Rightarrow> iocq_entry list list \<Rightarrow> unit result" where
  "wait_cid command front [] = Inl Hang"
| "wait_cid command front (cq # obs) =
     bindE (aget cq (nat front)) (\<lambda>tmp.
     if SID (command_identifier command) = SID (cq_command_identifier tmp) then Inr ()
     else wait_cid command front obs)"

text \<open>The state of one queue: its control block, its submission ring, and the doorbell writes so far.\<close>

type_synonym que_state = "nvme_queue \<times> iosq_entry list \<times> (u32 \<times> u32) list"

definition nvme_command_syn :: "iosq_entry \<Rightarrow> iocq_entry list list \<Rightarrow> que_state \<Rightarrow> que_state result" where
  "nvme_command_syn command obs st =
     (case st of (que, sq, io) \<Rightarrow>
      bindE (aset sq (nat (iosq_rear que)) command) (\<lambda>sq1.
      let rear = iosq_rear que + 1;
          io1 = io @ [(submission_doorbell que, word_of_int rear)]
      in
      bindE (wait_phase (phase que) (iocq_front que) obs) (\<lambda>obs1.
      bindE (wait_cid command (iocq_front que) obs1) (\<lambda>_.
      let front = iocq_front que + 1;
          io2 = io1 @ [(completion_doorbell que, word_of_int front)];
          rear1 = (if rear \<ge> QSIZE then rear mod QSIZE else rear);
          que1 = que\<lparr>iosq_rear := rear1\<rparr>
      in if front \<ge> QSIZE
         then Inr (que1\<lparr>iocq_front := front mod QSIZE, phase := (if phase que \<noteq> 0 then 0 else 1)\<rparr>, sq1, io2)
         else Inr (que1\<lparr>iocq_front := front\<rparr>, sq1, io2)))))"

text \<open>A sequence of synchronous commands on one queue, each with the observations of its polls.\<close>

fun run_commands :: "(iosq_entry \<times> iocq_entry list list) list \<Rightarrow> que_state \<Rightarrow> que_state result" where
  "run_commands [] st = Inr st"
| "run_commands ((c, obs) # cs) st = bindE (nvme_command_syn c obs st) (run_commands cs)"

section \<open>Attaching the device\<close>

record nvme_state =
  admin_que :: nvme_queue
  admin_sq :: "iosq_entry list"
  IO_que :: "nvme_queue list"
  mmio :: "(u32 \<times> u32) list"
  pages :: kmem

definition mmio_write :: "u32 \<Rightarrow> u32 \<Rightarrow> nvme_state \<Rightarrow> nvme_state" where
  "mmio_write a v s = s\<lparr>mmio := mmio s @ [(a, v)]\<rparr>"

definition aqa_setting :: "u32 \<Rightarrow> nvme_state \<Rightarrow> nvme_state" where
  "aqa_setting bar s = mmio_write (bar + 0x24) (0 OR 0x00400040) s"

text \<open>A page from \<^verbatim>\<open>kalloc\<close>, zeroed.\<close>

definition zeroed_page :: "kmem \<Rightarrow> u32 \<times> kmem" where
  "zeroed_page km = (let (pg, km1) = kalloc km in (pg, km1\<lparr>bytes := fill (bytes km1) pg 0 PGSIZE\<rparr>))"

definition asq_setting :: "u32 \<Rightarrow> nvme_state \<Rightarrow> nvme_state" where
  "asq_setting bar s =
     (let (pg, km) = zeroed_page (pages s)
      in mmio_write (bar + 0x2c) 0 (mmio_write (bar + 0x28) (V2P pg)
           (s\<lparr>pages := km, admin_que := (admin_que s)\<lparr>submission_queue := pg\<rparr>,
              admin_sq := replicate QSIZE zero_sqe\<rparr>)))"

definition acq_setting :: "u32 \<Rightarrow> nvme_state \<Rightarrow> nvme_state" where
  "acq_setting bar s =
     (let (pg, km) = zeroed_page (pages s)
      in mmio_write (bar + 0x34) 0 (mmio_write (bar + 0x30) (V2P pg)
           (s\<lparr>pages := km, admin_que := (admin_que s)\<lparr>completion_queue := pg\<rparr>\<rparr>)))"

text \<open>\<^verbatim>\<open>*cc |= 0x00460001\<close>, a read of the register followed by a write; \<open>cc\<close> is the value read.\<close>

definition cc_setting :: "u32 \<Rightarrow> u32 \<Rightarrow> nvme_state \<Rightarrow> nvme_state" where
  "cc_setting bar cc s = mmio_write (bar + 0x14) (cc OR 0x00460001) s"

text \<open>\<^verbatim>\<open>while(1)\<close> until the ready bit of the status register, read once per turn, has the given value.\<close>

fun wait_rdy :: "u32 \<Rightarrow> u32 list \<Rightarrow> unit result" where
  "wait_rdy v [] = Inl Hang"
| "wait_rdy v (r # rs) = (if r mod 2 = v then Inr () else wait_rdy v rs)"

definition init_io_que :: "u32 \<Rightarrow> nat \<Rightarrow> nvme_state \<Rightarrow> nvme_state" where
  "init_io_que bar i s =
     (let (sq, km1) = kalloc (pages s); (cq, km2) = kalloc km1
      in s\<lparr>pages := km2, IO_que := (IO_que s)[i := (init_que (IO_que s ! i))
             \<lparr>submission_queue := sq, completion_queue := cq,
              submission_doorbell := bar + 0x1000 + 8 * (of_nat i + 1),
              completion_doorbell := bar + 0x1004 + 8 * (of_nat i + 1)\<rparr>]\<rparr>)"

definition admin_command :: "iosq_entry \<Rightarrow> iocq_entry list list \<Rightarrow> nvme_state \<Rightarrow> nvme_state result" where
  "admin_command c obs s =
     bindE (nvme_command_syn c obs (admin_que s, admin_sq s, mmio s)) (\<lambda>(q, sq, io).
     Inr (s\<lparr>admin_que := q, admin_sq := sq, mmio := io\<rparr>))"

text \<open>
  What the device shows during \<^verbatim>\<open>nvme_attach\<close>: the status register at the two waits, the
  configuration register, and the completion queue during each of the four admin commands.
\<close>

record nvme_device =
  rdy_off :: "u32 list"
  cc_value :: u32
  rdy_on :: "u32 list"
  obs_identify :: "iocq_entry list list"
  obs_feature :: "iocq_entry list list"
  obs_iocq :: "iocq_entry list list"
  obs_iosq :: "iocq_entry list list"

definition nvme_attach :: "u32 \<Rightarrow> nvme_device \<Rightarrow> nvme_state \<Rightarrow> nvme_state result" where
  "nvme_attach bar d s =
     (let s1 = mmio_write (bar + 0x14) 0 s in
      bindE (wait_rdy 0 (rdy_off d)) (\<lambda>_.
      let s2 = s1\<lparr>admin_que := (init_que (admin_que s1))
                    \<lparr>submission_doorbell := bar + 0x1000, completion_doorbell := bar + 0x1004\<rparr>\<rparr>;
          s3 = fold (init_io_que bar) [0..<8] s2;
          s4 = cc_setting bar (cc_value d) (acq_setting bar (asq_setting bar (aqa_setting bar s3)))
      in
      bindE (wait_rdy 1 (rdy_on d)) (\<lambda>_.
      let (c1, km1) = nvme_identify 1 0 1 (pages s4) in
      bindE (admin_command c1 (obs_identify d) (s4\<lparr>pages := km1\<rparr>)) (\<lambda>s5.
      let (c2, km2) = nvme_set_feature 2 0 (pages s5) in
      bindE (admin_command c2 (obs_feature d) (s5\<lparr>pages := km2\<rparr>)) (\<lambda>s6.
      let (c3, cq, km3) = nvme_create_iocq 3 0 (pages s6) in
      bindE (admin_command c3 (obs_iocq d)
              (s6\<lparr>pages := km3, IO_que := (IO_que s6)[0 := (IO_que s6 ! 0)\<lparr>completion_queue := cq\<rparr>]\<rparr>)) (\<lambda>s7.
      let (c4, sq, km4) = nvme_create_iosq 4 0 (pages s7) in
      admin_command c4 (obs_iosq d)
        (s7\<lparr>pages := km4, IO_que := (IO_que s7)[0 := (IO_que s7 ! 0)\<lparr>submission_queue := sq\<rparr>]\<rparr>)))))))"

section \<open>PCI configuration space\<close>

text \<open>
  The address that selects a configuration register, and the scan.  The configuration space read
  through the data port is the parameter \<open>cfg\<close>; writes are collected.
\<close>

definition pci_address :: "u32 \<Rightarrow> u32 \<Rightarrow> u32 \<Rightarrow> u32 \<Rightarrow> u32" where
  "pci_address bus device func offset =
     KERNBASE OR push_bit 16 bus OR push_bit 11 device OR push_bit 8 func OR offset"

definition read_pci_config :: "(u32 \<Rightarrow> u32) \<Rightarrow> u32 \<Rightarrow> u32 \<Rightarrow> u32 \<Rightarrow> u32 \<Rightarrow> u32" where
  "read_pci_config cfg bus device func offset = cfg (pci_address bus device func offset)"

definition write_pci_config ::
    "u32 \<Rightarrow> u32 \<Rightarrow> u32 \<Rightarrow> u32 \<Rightarrow> u32 \<Rightarrow> (u32 \<times> u32) list \<Rightarrow> (u32 \<times> u32) list" where
  "write_pci_config bus device func offset val ws = ws @ [(pci_address bus device func offset, val)]"

definition PCI_REAL_BAR :: "u32 \<Rightarrow> u32" where
  "PCI_REAL_BAR prebar = push_bit 4 (drop_bit 4 prebar)"

definition pci_func_nvme_enable ::
    "(u32 \<Rightarrow> u32) \<Rightarrow> u32 \<times> u32 \<times> u32 \<Rightarrow> (u32 \<times> u32) list \<Rightarrow> u32 \<times> (u32 \<times> u32) list" where
  "pci_func_nvme_enable cfg f ws =
     (case f of (bus, device, func) \<Rightarrow>
      (PCI_REAL_BAR (read_pci_config cfg bus device func 0x10),
       write_pci_config bus device func 4 0xF ws))"

text \<open>The functions that \<^verbatim>\<open>pci_scan\<close> attaches, in the order it visits them.\<close>

definition pci_scan :: "(u32 \<Rightarrow> u32) \<Rightarrow> (u32 \<times> u32 \<times> u32) list" where
  "pci_scan cfg =
     [(bus, device, func). bus \<leftarrow> map of_nat [0..<256], device \<leftarrow> map of_nat [0..<32],
        func \<leftarrow> map of_nat [0..<8], read_pci_config cfg bus device func 0 = 0x58458086]"

section \<open>Lock step of driver and device\<close>

text \<open>
  What the NVMe specification requires of the device for one command: while it works the slot of the
  completion queue still shows the other phase, then the slot shows the new phase and, from the next
  poll on, the identifier of the command.
\<close>

definition completes :: "iosq_entry \<Rightarrow> nat \<Rightarrow> u8 \<Rightarrow> iocq_entry list list \<Rightarrow> bool" where
  "completes c slot ph obs \<longleftrightarrow> (\<exists>busy cq cq' rest. obs = busy @ cq # cq' # rest \<and>
     (\<forall>m \<in> set busy. slot < length m \<and> get_P (m ! slot) \<noteq> ph) \<and>
     slot < length cq \<and> get_P (cq ! slot) = ph \<and>
     slot < length cq' \<and> cq_command_identifier (cq' ! slot) = command_identifier c)"

definition phase_of :: "nat \<Rightarrow> u8" where
  "phase_of k = (if even (k div QSIZE) then 1 else 0)"

text \<open>The device serves the commands from the \<open>k\<close>-th on: slots in ring order, the phase flips with each round.\<close>

fun device_serves :: "nat \<Rightarrow> (iosq_entry \<times> iocq_entry list list) list \<Rightarrow> bool" where
  "device_serves k [] \<longleftrightarrow> True"
| "device_serves k ((c, obs) # cs) \<longleftrightarrow> completes c (k mod QSIZE) (phase_of k) obs \<and> device_serves (Suc k) cs"

definition in_step :: "nat \<Rightarrow> nvme_queue \<Rightarrow> bool" where
  "in_step k q \<longleftrightarrow> iosq_rear q = int (k mod QSIZE) \<and> iocq_front q = int (k mod QSIZE) \<and>
     phase q = uint (phase_of k)"

lemma wait_phase_completes:
  "(\<forall>m \<in> set busy. slot < length m \<and> get_P (m ! slot) \<noteq> ph) \<Longrightarrow> slot < length cq \<Longrightarrow> get_P (cq ! slot) = ph \<Longrightarrow>
   wait_phase (uint ph) (int slot) (busy @ cq # rest) = Inr rest"
  by (induction busy) (auto simp: word_uint_eq_iff)

lemma nvme_command_syn_step:
  assumes "in_step k q" and "length sq = QSIZE" and "completes c (k mod QSIZE) (phase_of k) obs"
  shows "\<exists>q' io'. nvme_command_syn c obs (q, sq, io) = Inr (q', sq[k mod QSIZE := c], io') \<and> in_step (Suc k) q'"
proof -
  let ?i = "k mod QSIZE"
  obtain busy cq cq' rest where obs: "obs = busy @ cq # cq' # rest"
    and busy: "\<forall>m \<in> set busy. ?i < length m \<and> get_P (m ! ?i) \<noteq> phase_of k"
    and cq: "?i < length cq" "get_P (cq ! ?i) = phase_of k"
    and cq': "?i < length cq'" "cq_command_identifier (cq' ! ?i) = command_identifier c"
    using assms(3) unfolding completes_def by blast
  have q: "iosq_rear q = int ?i" "iocq_front q = int ?i" "phase q = uint (phase_of k)"
    using assms(1) by (simp_all add: in_step_def)
  have wp: "wait_phase (phase q) (iocq_front q) obs = Inr (cq' # rest)"
    unfolding q obs by (rule wait_phase_completes [OF busy cq])
  have wc: "wait_cid c (iocq_front q) (cq' # rest) = Inr ()" using cq' by (simp add: q)
  show ?thesis
  proof (cases "?i = 63")
    case True
    then have "Suc k mod QSIZE = 0" "Suc k div QSIZE = Suc (k div QSIZE)" by (simp_all add: mod_Suc div_Suc)
    with True show ?thesis
      using q wp wc assms(2) by (auto simp: nvme_command_syn_def Let_def in_step_def phase_of_def)
  next
    case False
    then have "Suc k mod QSIZE = Suc ?i" "Suc k div QSIZE = k div QSIZE" "int ?i + 1 < QSIZE"
      by (auto simp: mod_Suc div_Suc)
    then show ?thesis
      using q wp wc assms(2) by (auto simp: nvme_command_syn_def Let_def in_step_def phase_of_def)
  qed
qed

lemma run_commands_lockstep:
  assumes "in_step k q" and "length sq = QSIZE" and "device_serves k cs"
  shows "\<exists>q' sq' io'. run_commands cs (q, sq, io) = Inr (q', sq', io') \<and> in_step (k + length cs) q' \<and>
    length sq' = QSIZE"
  using assms
proof (induction cs arbitrary: k q sq io)
  case Nil
  then show ?case by simp
next
  case (Cons a cs)
  obtain c obs where a: "a = (c, obs)" by fastforce
  obtain q1 io1 where s1: "nvme_command_syn c obs (q, sq, io) = Inr (q1, sq[k mod QSIZE := c], io1)" "in_step (Suc k) q1"
    using nvme_command_syn_step [OF Cons.prems(1,2)] Cons.prems(3) a by (metis device_serves.simps(2))
  have "\<exists>q' sq' io'. run_commands cs (q1, sq[k mod QSIZE := c], io1) = Inr (q', sq', io') \<and>
      in_step (Suc k + length cs) q' \<and> length sq' = QSIZE"
    using s1(2) Cons.prems(2,3) a by (intro Cons.IH) auto
  with s1(1) a show ?case by auto
qed

section \<open>Properties\<close>


definition done_cqe :: "u8 list \<Rightarrow> iocq_entry" where
  "done_cqe cid = \<lparr>cq_command_specific = 0, cq_reserved = 0, sq_head_pointer = [1, 0], sq_identifier = [0, 0],
     cq_command_identifier = cid, status_field_p = [1, 0]\<rparr>"

definition zero_que :: nvme_queue where
  "zero_que = \<lparr>iosq_front = 0, iosq_rear = 0, iocq_front = 0, iocq_rear = 0, phase = 0,
     submission_doorbell = 0xfebd1000, completion_doorbell = 0xfebd1004, submission_queue = 0, completion_queue = 0\<rparr>"


text \<open>
  Command identifiers.  The identifier is stored as two base-255 digits; for identifiers below
  \<open>255 * 256\<close> the value that the wait loop recomputes from the two bytes is the identifier itself, so
  different identifiers are told apart.
\<close>

theorem nvme_command_id_roundtrip:
  assumes "unat cid < 65280"
  shows "unat (SID (command_identifier (nvme_write cid lba n p1 p2))) = unat cid \<and>
         unat (SID (command_identifier (nvme_read cid lba n p1 p2))) = unat cid"
proof -
  have "unat cid div 255 < 256" using assms by (simp add: less_mult_imp_div_less)
  moreover have "unat cid mod 255 < 256" using mod_less_divisor [of 255 "unat cid"] by linarith
  moreover have "unat cid div 255 * 255 + unat cid mod 255 = unat cid" by simp
  ultimately have "unat (SID [ucast (cid mod 0xff), ucast (cid div 0xff)]) = unat cid"
    using assms by (simp add: SID_def unat_word_ariths unsigned_ucast_eq unat_div unat_mod take_bit_eq_mod)
  then show ?thesis
    by (simp add: nvme_write_def nvme_read_def Let_def set_header_def)
qed

theorem nvme_command_id_roundtrip_witness:
  "unat (SID (command_identifier (nvme_write 300 [0, 0] 0 0 0))) = 300"
  using nvme_command_id_roundtrip [of 300 "[0, 0]" 0 0 0] by simp

lemma small_bits: "unat (w :: u32) < 65536 \<Longrightarrow> bit w n \<Longrightarrow> n < 16"
proof -
  assume "unat w < 65536" and b: "bit w n"
  then have "take_bit 16 w = w"
    by (simp add: word_unat_eq_iff unsigned_take_bit_eq take_bit_nat_eq_self)
  then show "n < 16" using b by (metis bit_take_bit_iff)
qed

lemma field_join: "unat (w :: u32) < 65536 \<Longrightarrow> push_bit 16 v + w = push_bit 16 v OR w"
  by (rule disjunctive_add) (auto simp: bit_simps dest: small_bits)

lemma field_low: "unat (w :: u32) < 65536 \<Longrightarrow> low16 w = w"
  by (rule bit_word_eqI) (auto simp: bit_simps dest: small_bits)

lemma field_keep: "unat (k :: u32) < 65536 \<Longrightarrow> push_bit 16 v AND NOT k = push_bit 16 v"
  by (rule bit_word_eqI) (auto simp: bit_simps dest: small_bits)

lemma field_flags:
  "(push_bit 16 (v :: u32) AND 0xfffffffe) OR 1 = push_bit 16 v OR 1"
  "(push_bit 16 (v :: u32) OR 1) AND 0xfffffff9 = push_bit 16 v OR 1"
proof -
  have m: "(0xfffffffe :: u32) = NOT 1" "(0xfffffff9 :: u32) = NOT 6" by simp_all
  show "(push_bit 16 v AND 0xfffffffe) OR 1 = push_bit 16 v OR 1"
    unfolding m by (subst field_keep) simp_all
  have "(push_bit 16 v OR 1) AND NOT 6 = (push_bit 16 v AND NOT 6) OR (1 AND NOT 6)"
    by (rule bit.conj_disj_distrib2)
  also have "push_bit 16 v AND NOT 6 = push_bit 16 v" by (rule field_keep) simp
  also have "(1 AND NOT 6 :: u32) = 1" by simp
  finally show "(push_bit 16 v OR 1) AND 0xfffffff9 = push_bit 16 v OR 1" unfolding m .
qed

lemma set_header_words [simp]: "command_specific (set_header opc cid e) = command_specific e"
  by (simp add: set_header_def set_PSDT_def set_FUSE_def Let_def)

text \<open>
  The queue-creation commands.  For a queue number below \<open>0xffff\<close> the command words that
  \<^verbatim>\<open>nvme_create_iocq\<close> and \<^verbatim>\<open>nvme_create_iosq\<close> assemble field by field are exactly the layout of the
  specification: identifier and size in word 10, flags and completion queue in word 11; and the page
  given to the device is the one the driver keeps.
\<close>

theorem nvme_create_queue_words:
  assumes "kalloc km = (pg, km')" and "unat qid < 0xffff"
  shows "nvme_create_iocq cid qid km =
      ((set_header 5 cid zero_sqe)\<lparr>data_pointer := [V2P pg, 0, 0, 0],
         command_specific := [64 * 65536 + (qid + 1), 1, 0, 0, 0, 0]\<rparr>, pg, km') \<and>
    nvme_create_iosq cid qid km =
      ((set_header 1 cid zero_sqe)\<lparr>data_pointer := [V2P pg, 0, 0, 0],
         command_specific := [64 * 65536 + (qid + 1), (qid + 1) * 65536 + 1, 0, 0, 0, 0]\<rparr>, pg, km')"
proof -
  let ?q = "qid + 1"
  have q: "unat ?q < 65536" using assms(2) by (subst unat_u32_add) simp_all
  have w0: "push_bit 16 64 + ?q = push_bit 16 64 OR ?q" using field_join [OF q] .
  have w1: "push_bit 16 ?q + 1 = push_bit 16 ?q OR 1" by (rule field_join) simp
  have pg: "P2V (V2P pg) = pg" by (simp add: P2V_def V2P_def)
  have "nvme_create_iocq cid qid km =
      ((set_header 5 cid zero_sqe)\<lparr>data_pointer := [V2P pg, 0, 0, 0],
         command_specific := [push_bit 16 64 + ?q, 1, 0, 0, 0, 0]\<rparr>, pg, km')"
    using assms(1) field_low [OF q] unfolding w0
    by (simp add: nvme_create_iocq_def Let_def upd_cs_def zero_sqe_def pg or.commute [of "qid + 1"]
        admin_create_io_completion_queue_set_queue_identfier_def admin_create_io_completion_queue_set_queue_size_def
        admin_create_io_completion_queue_set_pc_def admin_create_io_completion_queue_set_ien_def
        admin_create_io_completion_queue_set_interrupt_vector_def del: push_bit_numeral)
  moreover have "nvme_create_iosq cid qid km =
      ((set_header 1 cid zero_sqe)\<lparr>data_pointer := [V2P pg, 0, 0, 0],
         command_specific := [push_bit 16 64 + ?q, push_bit 16 ?q + 1, 0, 0, 0, 0]\<rparr>, pg, km')"
    using assms(1) field_low [OF q] unfolding w0 w1
    by (simp add: nvme_create_iosq_def Let_def upd_cs_def zero_sqe_def pg or.commute [of "qid + 1"] field_flags
        admin_create_io_submission_queue_set_queue_identfier_def admin_create_io_submission_queue_set_queue_size_def
        admin_create_io_submission_queue_set_pc_def admin_create_io_submission_queue_set_QPRIO_def
        admin_create_io_submission_queue_set_completion_queue_identifier_def del: push_bit_numeral)
  ultimately show ?thesis by (simp add: push_bit_eq_mult)
qed

theorem nvme_create_queue_words_witness:
  "fst (nvme_create_iosq 4 0 boot_kmem) =
     (set_header 1 4 zero_sqe)\<lparr>data_pointer := [V2P 0, 0, 0, 0],
        command_specific := [64 * 65536 + 1, 65536 + 1, 0, 0, 0, 0]\<rparr>"
  using nvme_create_queue_words [of boot_kmem 0 boot_kmem 0 4] by (simp add: kalloc_def boot_kmem_def)

end
