(* ===== verification/Bytes.thy ===== *)
theory Bytes
  imports Xv6_Prelude
begin

text \<open>
  Disk blocks as byte lists, and the little-endian numbers that the kernel stores in them by casting
  a block to a structure.  Reading back what was written, and independence of disjoint ranges.
\<close>

type_synonym block = "u8 list"

abbreviation (input) BSIZE :: "'a::numeral" where
  "BSIZE \<equiv> 512"

definition get8 :: "block \<Rightarrow> nat \<Rightarrow> u8" where
  "get8 b i = (if i < length b then b ! i else 0)"

definition get16 :: "block \<Rightarrow> nat \<Rightarrow> u16" where
  "get16 b i = ucast (get8 b i) OR push_bit 8 (ucast (get8 b (i + 1)))"

definition get32 :: "block \<Rightarrow> nat \<Rightarrow> u32" where
  "get32 b i = ucast (get8 b i) OR push_bit 8 (ucast (get8 b (i + 1))) OR
     push_bit 16 (ucast (get8 b (i + 2))) OR push_bit 24 (ucast (get8 b (i + 3)))"

definition put16 :: "block \<Rightarrow> nat \<Rightarrow> u16 \<Rightarrow> block" where
  "put16 b i v = b[i := ucast v, i + 1 := ucast (drop_bit 8 v)]"

definition put32 :: "block \<Rightarrow> nat \<Rightarrow> u32 \<Rightarrow> block" where
  "put32 b i v = b[i := ucast v, i + 1 := ucast (drop_bit 8 v), i + 2 := ucast (drop_bit 16 v),
     i + 3 := ucast (drop_bit 24 v)]"

lemma length_put16 [simp]: "length (put16 b i v) = length b"
  by (simp add: put16_def)

lemma length_put32 [simp]: "length (put32 b i v) = length b"
  by (simp add: put32_def)

lemma get8_put32_other: "j < i \<or> i + 4 \<le> j \<Longrightarrow> get8 (put32 b i v) j = get8 b j"
  by (auto simp: get8_def put32_def)

lemma get8_put16_other: "j < i \<or> i + 2 \<le> j \<Longrightarrow> get8 (put16 b i v) j = get8 b j"
  by (auto simp: get8_def put16_def)

lemma get32_put32_other [simp]: "j + 4 \<le> i \<or> i + 4 \<le> j \<Longrightarrow> get32 (put32 b i v) j = get32 b j"
  by (auto simp: get32_def get8_put32_other)

lemma get16_put32_other [simp]: "j + 2 \<le> i \<or> i + 4 \<le> j \<Longrightarrow> get16 (put32 b i v) j = get16 b j"
  by (auto simp: get16_def get8_put32_other)

lemma get32_put16_other [simp]: "j + 4 \<le> i \<or> i + 2 \<le> j \<Longrightarrow> get32 (put16 b i v) j = get32 b j"
  by (auto simp: get32_def get8_put16_other)

lemma get16_put16_other [simp]: "j + 2 \<le> i \<or> i + 2 \<le> j \<Longrightarrow> get16 (put16 b i v) j = get16 b j"
  by (auto simp: get16_def get8_put16_other)

lemma split32: "(v :: u32) = ucast (ucast v :: u8) OR push_bit 8 (ucast (ucast (drop_bit 8 v) :: u8)) OR
   push_bit 16 (ucast (ucast (drop_bit 16 v) :: u8)) OR push_bit 24 (ucast (ucast (drop_bit 24 v) :: u8))" (is "_ = ?r")
proof (rule bit_word_eqI)
  fix n assume "n < LENGTH(32)"
  then have n: "n < 32" by simp
  then consider "n < 8" | "8 \<le> n" "n < 16" | "16 \<le> n" "n < 24" | "24 \<le> n" by linarith
  then show "bit v n = bit ?r n"
    using n by cases (auto simp: bit_simps)
qed

lemma split16: "(v :: u16) = ucast (ucast v :: u8) OR push_bit 8 (ucast (ucast (drop_bit 8 v) :: u8))" (is "_ = ?r")
proof (rule bit_word_eqI)
  fix n assume "n < LENGTH(16)"
  then have n: "n < 16" by simp
  then consider "n < 8" | "8 \<le> n" by linarith
  then show "bit v n = bit ?r n"
    using n by cases (auto simp: bit_simps)
qed

lemma get32_put32 [simp]: "i + 4 \<le> length b \<Longrightarrow> get32 (put32 b i v) i = v"
  using split32 [of v] by (simp add: get32_def put32_def get8_def nth_list_update)

lemma get16_put16 [simp]: "i + 2 \<le> length b \<Longrightarrow> get16 (put16 b i v) i = v"
  using split16 [of v] by (simp add: get16_def put16_def get8_def nth_list_update)

end
