(* ===== verification/Bio.thy ===== *)
theory Bio
  imports Bytes
begin

text \<open>
  The buffer cache of \<^verbatim>\<open>bio.c\<close> on the disk driver interface \<^verbatim>\<open>iderw\<close> of \<^verbatim>\<open>ide.c\<close>.  Buffers are the
  addresses 1 to \<^verbatim>\<open>NBUF\<close>, the list head \<^verbatim>\<open>bcache.head\<close> is the address 0, so the circular
  doubly linked list is a null-terminated chain in both directions.  The flags word is kept as its
  two bits.  The disk is a map from device and block number to contents; \<open>written\<close> is the sequence of
  block writes it has performed, so that a crash leaves the disk in the state after a prefix of
  that sequence.  The code of one process is modelled: \<^verbatim>\<open>acquiresleep\<close> of a buffer that is already
  locked would wait for ever (\<open>Hang\<close>).
\<close>

section \<open>State\<close>

abbreviation (input) NBUF :: nat where
  "NBUF \<equiv> 30"

abbreviation (input) FSSIZE :: "'a::numeral" where
  "FSSIZE \<equiv> 1000"

record bcache =
  b_valid :: "u32 \<Rightarrow> bool"
  b_dirty :: "u32 \<Rightarrow> bool"
  b_dev :: "u32 \<Rightarrow> u32"
  b_blockno :: "u32 \<Rightarrow> u32"
  b_locked :: "u32 \<Rightarrow> bool"
  b_refcnt :: "u32 \<Rightarrow> u32"
  b_prev :: "u32 \<Rightarrow> u32"
  b_next :: "u32 \<Rightarrow> u32"
  b_data :: "u32 \<Rightarrow> block"
  disk :: "u32 \<times> u32 \<Rightarrow> block"
  written :: "((u32 \<times> u32) \<times> block) list"
  havedisk1 :: bool

section \<open>The driver interface\<close>

definition disk_write :: "u32 \<Rightarrow> bcache \<Rightarrow> bcache" where
  "disk_write b s = s\<lparr>disk := (disk s)((b_dev s b, b_blockno s b) := b_data s b),
     written := written s @ [((b_dev s b, b_blockno s b), b_data s b)]\<rparr>"

definition disk_read :: "u32 \<Rightarrow> bcache \<Rightarrow> bcache" where
  "disk_read b s = s\<lparr>b_data := (b_data s)(b := disk s (b_dev s b, b_blockno s b))\<rparr>"

text \<open>
  \<^verbatim>\<open>iderw\<close>: for the IDE disk the request is queued, started and finished by the interrupt handler,
  which sets \<^verbatim>\<open>B_VALID\<close> and clears \<^verbatim>\<open>B_DIRTY\<close>; for the NVMe disk the transfer is done synchronously and
  the flags are left alone; for any other device number nothing happens.
\<close>

definition iderw :: "u32 \<Rightarrow> bcache \<Rightarrow> bcache result" where
  "iderw b s =
     (if \<not> b_locked s b then Inl (Panic ''iderw: buf not locked'')
      else if b_valid s b \<and> \<not> b_dirty s b then Inl (Panic ''iderw: nothing to do'')
      else if b_dev s b \<noteq> 0 \<and> \<not> havedisk1 s then Inl (Panic ''iderw: ide disk 1 not present'')
      else if b_dev s b = ROOTDEV
      then if b_blockno s b \<ge> FSSIZE then Inl (Panic ''incorrect blockno'')
           else let s1 = (if b_dirty s b then disk_write b s else disk_read b s)
                in Inr (s1\<lparr>b_valid := (b_valid s1)(b := True), b_dirty := (b_dirty s1)(b := False)\<rparr>)
      else if b_dev s b = NVMEDEV
      then if b_blockno s b \<ge> FSSIZE then Inl (Panic ''incorrect blockno'')
           else Inr (if b_dirty s b then disk_write b s else disk_read b s)
      else Inr s)"

section \<open>The cache\<close>

text \<open>One turn of the loop of \<^verbatim>\<open>binit\<close>: put the buffer in front of the list.\<close>

definition link_front :: "u32 \<Rightarrow> bcache \<Rightarrow> bcache" where
  "link_front b s =
     (let s1 = s\<lparr>b_next := (b_next s)(b := b_next s 0)\<rparr>;
          s2 = s1\<lparr>b_prev := (b_prev s1)(b := 0)\<rparr>;
          s3 = s2\<lparr>b_prev := (b_prev s2)(b_next s2 0 := b)\<rparr>
      in s3\<lparr>b_next := (b_next s3)(0 := b)\<rparr>)"

definition binit :: "bcache \<Rightarrow> bcache" where
  "binit s =
     (let s0 = s\<lparr>b_prev := (b_prev s)(0 := 0), b_next := (b_next s)(0 := 0)\<rparr>
      in fold (\<lambda>b s. link_front b (s\<lparr>b_locked := (b_locked s)(b := False)\<rparr>)) (map of_nat [1..<Suc NBUF]) s0)"

definition acquire_buf :: "u32 \<Rightarrow> bcache \<Rightarrow> (u32 \<times> bcache) result" where
  "acquire_buf b s = (if b_locked s b then Inl Hang else Inr (b, s\<lparr>b_locked := (b_locked s)(b := True)\<rparr>))"

definition bget :: "u32 \<Rightarrow> u32 \<Rightarrow> bcache \<Rightarrow> (u32 \<times> bcache) result" where
  "bget dev blockno s =
     bindE (find_node (b_next s) (\<lambda>b. b_dev s b = dev \<and> b_blockno s b = blockno) 0 (b_next s 0) [])
       (\<lambda>(_, b).
     if b \<noteq> 0 then acquire_buf b (s\<lparr>b_refcnt := (b_refcnt s)(b := b_refcnt s b + 1)\<rparr>)
     else
       bindE (find_node (b_prev s) (\<lambda>b. b_refcnt s b = 0 \<and> \<not> b_dirty s b) 0 (b_prev s 0) []) (\<lambda>(_, b).
       if b \<noteq> 0
       then acquire_buf b (s\<lparr>b_dev := (b_dev s)(b := dev), b_blockno := (b_blockno s)(b := blockno),
              b_valid := (b_valid s)(b := False), b_dirty := (b_dirty s)(b := False),
              b_refcnt := (b_refcnt s)(b := 1)\<rparr>)
       else Inl (Panic ''bget: no buffers'')))"

definition bread :: "u32 \<Rightarrow> u32 \<Rightarrow> bcache \<Rightarrow> (u32 \<times> bcache) result" where
  "bread dev blockno s =
     bindE (bget dev blockno s) (\<lambda>(b, s1).
     if \<not> b_valid s1 b
     then bindE (iderw b s1) (\<lambda>s2.
          if b_dev s2 b = NVMEDEV
          then Inr (b, s2\<lparr>b_valid := (b_valid s2)(b := True), b_dirty := (b_dirty s2)(b := False)\<rparr>)
          else Inr (b, s2))
     else Inr (b, s1))"

definition bwrite :: "u32 \<Rightarrow> bcache \<Rightarrow> bcache result" where
  "bwrite b s =
     (if \<not> b_locked s b then Inl (Panic ''bwrite'')
      else bindE (iderw b (s\<lparr>b_dirty := (b_dirty s)(b := True)\<rparr>)) (\<lambda>s1.
           if b_dev s1 b = NVMEDEV then Inr (s1\<lparr>b_dirty := (b_dirty s1)(b := False)\<rparr>) else Inr s1))"

definition unlink :: "u32 \<Rightarrow> bcache \<Rightarrow> bcache" where
  "unlink b s =
     (let s1 = s\<lparr>b_prev := (b_prev s)(b_next s b := b_prev s b)\<rparr>
      in s1\<lparr>b_next := (b_next s1)(b_prev s1 b := b_next s1 b)\<rparr>)"

definition brelse :: "u32 \<Rightarrow> bcache \<Rightarrow> bcache result" where
  "brelse b s =
     (if \<not> b_locked s b then Inl (Panic ''brelse'')
      else
        let s1 = s\<lparr>b_locked := (b_locked s)(b := False), b_refcnt := (b_refcnt s)(b := b_refcnt s b - 1)\<rparr>
        in if b_refcnt s1 b = 0 then Inr (link_front b (unlink b s1)) else Inr s1)"

text \<open>The assignments \<^verbatim>\<open>memmove(b->data, ...)\<close> of the clients, and \<^verbatim>\<open>b->flags |= B_DIRTY\<close> of the log.\<close>

definition set_data :: "u32 \<Rightarrow> block \<Rightarrow> bcache \<Rightarrow> bcache" where
  "set_data b d s = s\<lparr>b_data := (b_data s)(b := d)\<rparr>"

definition set_dirty :: "u32 \<Rightarrow> bcache \<Rightarrow> bcache" where
  "set_dirty b s = s\<lparr>b_dirty := (b_dirty s)(b := True)\<rparr>"

section \<open>The recency list\<close>

definition dlist :: "bcache \<Rightarrow> u32 list \<Rightarrow> bool" where
  "dlist s xs \<longleftrightarrow> chain (b_next s) (b_next s 0) xs \<and> chain (b_prev s) (b_prev s 0) (rev xs)"

lemma dlist_distinct: "dlist s xs \<Longrightarrow> distinct xs" "dlist s xs \<Longrightarrow> 0 \<notin> set xs"
  by (auto simp: dlist_def dest: chain_distinct chain_null_notin)

text \<open>The node after a node, and a walk that starts at the head: removal and insertion in both directions.\<close>

lemma chain_hd: "chain nx p xs \<Longrightarrow> p = hd (xs @ [0])"
  by (cases xs) auto

lemma chain_next: "chain nx p (xs @ y # ys) \<Longrightarrow> nx y = hd (ys @ [0])"
  using chain_suffix chain_hd by blast

lemma hd_rev_snoc: "hd (rev us @ [z]) = last (z # us)"
  by (cases us rule: rev_cases) auto

lemma chain_ring_remove:
  assumes "chain nx (nx 0) (us @ b # vs)"
  shows "chain (nx(last (0 # us) := nx b)) ((nx(last (0 # us) := nx b)) 0) (us @ vs)"
proof (cases us rule: rev_cases)
  case Nil
  have "0 \<notin> set vs" using chain_null_notin [OF assms] by simp
  with Nil assms show ?thesis by (auto dest: chain_suffix [of _ _ "[]"])
next
  case (snoc ws w)
  have "w \<noteq> 0" using chain_null_notin [OF assms] snoc by auto
  then show ?thesis using chain_remove [OF assms] snoc by simp
qed

lemma chain_ring_append:
  assumes "chain nx (nx 0) xs" and "b \<noteq> 0" and "b \<notin> set xs"
  defines "nx' \<equiv> nx(b := 0, last (0 # xs) := b)"
  shows "chain nx' (nx' 0) (xs @ [b])"
  using assms(1-3) unfolding nx'_def
proof (induction xs rule: rev_induct)
  case Nil
  then show ?case by simp
next
  case (snoc x xs)
  have dis: "x \<notin> set xs" "x \<noteq> 0" "0 \<notin> set xs" using chain_distinct [OF snoc.prems(1)] chain_null_notin [OF snoc.prems(1)] by auto
  have "chain (nx(b := 0, x := b)) p (ys @ [x, b])" if "chain nx p (ys @ [x])" "set ys \<subseteq> set xs" for ys p
    using that
  proof (induction ys arbitrary: p)
    case Nil
    then show ?case using snoc.prems(2,3) by auto
  next
    case (Cons y ys)
    then have "y \<noteq> x" "y \<noteq> b" using dis(1) snoc.prems(3) by auto
    with Cons show ?case by auto
  qed
  with snoc.prems dis show ?case by (simp add: fun_upd_def)
qed

lemma chain_ring_push:
  assumes "chain nx (nx 0) xs" and "b \<noteq> 0" and "b \<notin> set xs"
  shows "chain (nx(b := nx 0, 0 := b)) b (b # xs)"
proof -
  have "0 \<notin> set xs" using chain_null_notin [OF assms(1)] .
  with assms show ?thesis by simp
qed

lemma dlist_front:
  assumes "dlist s xs" and "b \<noteq> 0" and "b \<notin> set xs"
  shows "dlist (link_front b s) (b # xs)"
proof -
  have c: "chain (b_next s) (b_next s 0) xs" "chain (b_prev s) (b_prev s 0) (rev xs)"
    using assms(1) by (simp_all add: dlist_def)
  have hd: "b_next s 0 = last (0 # rev xs)"
    using chain_hd [OF c(1)] hd_rev_snoc [of "rev xs" 0] by simp
  have "b_next (link_front b s) = (b_next s)(b := b_next s 0, 0 := b)"
    "b_prev (link_front b s) = (b_prev s)(b := 0, last (0 # rev xs) := b)"
    using assms(2) unfolding hd [symmetric] by (simp_all add: link_front_def Let_def)
  then show ?thesis
    using chain_ring_push [OF c(1) assms(2,3)] chain_ring_append [OF c(2) assms(2)] assms(2,3)
    by (simp add: dlist_def)
qed

lemma dlist_unlink:
  assumes "dlist s (us @ b # vs)"
  shows "dlist (unlink b s) (us @ vs)"
proof -
  have c: "chain (b_next s) (b_next s 0) (us @ b # vs)" "chain (b_prev s) (b_prev s 0) (rev vs @ b # rev us)"
    using assms by (simp_all add: dlist_def)
  have n: "b_next s b = last (0 # rev vs)" using chain_next [OF c(1)] hd_rev_snoc [of "rev vs" 0] by simp
  have p: "b_prev s b = last (0 # us)" using chain_next [OF c(2)] hd_rev_snoc [of us 0] by simp
  have "b_next s b \<noteq> b" unfolding n
    using chain_distinct [OF c(1)] chain_null_notin [OF c(1)] last_in_set [of "rev vs"] by (cases "vs = []") force+
  then have "b_next (unlink b s) = (b_next s)(last (0 # us) := b_next s b)"
    "b_prev (unlink b s) = (b_prev s)(last (0 # rev vs) := b_prev s b)"
    unfolding n [symmetric] p [symmetric] by (simp_all add: unlink_def)
  then show ?thesis using chain_ring_remove [OF c(1)] chain_ring_remove [OF c(2)] by (simp add: dlist_def)
qed

section \<open>The invariant and the view of the clients\<close>

definition bufs :: "u32 set" where
  "bufs = of_nat ` {1..NBUF}"

definition bkey :: "bcache \<Rightarrow> u32 \<Rightarrow> u32 \<times> u32" where
  "bkey s b = (b_dev s b, b_blockno s b)"

definition block_key :: "u32 \<times> u32 \<Rightarrow> bool" where
  "block_key k \<longleftrightarrow> fst k \<in> {ROOTDEV, NVMEDEV} \<and> snd k < FSSIZE"

text \<open>A buffer is in use once it has been given a block; from then on it is valid.\<close>

definition buf_ok :: "bcache \<Rightarrow> u32 \<Rightarrow> bool" where
  "buf_ok s b \<longleftrightarrow> b_refcnt s b = (if b_locked s b then 1 else 0) \<and>
     (b_locked s b \<or> b_dirty s b \<longrightarrow> b_valid s b) \<and>
     (if b_valid s b then block_key (bkey s b) else b_dev s b = 0) \<and>
     (b_valid s b \<and> \<not> b_dirty s b \<and> \<not> b_locked s b \<longrightarrow> b_data s b = disk s (bkey s b))"

definition bc_inv :: "bcache \<Rightarrow> bool" where
  "bc_inv s \<longleftrightarrow> havedisk1 s \<and> (\<exists>xs. dlist s xs \<and> set xs = bufs) \<and> (\<forall>b \<in> bufs. buf_ok s b) \<and>
     inj_on (bkey s) {b \<in> bufs. b_valid s b}"

definition held :: "bcache \<Rightarrow> (u32 \<times> u32) set" where
  "held s = bkey s ` {b \<in> bufs. b_locked s b}"

definition pinned :: "bcache \<Rightarrow> (u32 \<times> u32) set" where
  "pinned s = bkey s ` {b \<in> bufs. b_dirty s b}"

text \<open>The contents of a block as the kernel sees it: the cached copy, or else the disk.\<close>

definition cur :: "bcache \<Rightarrow> u32 \<times> u32 \<Rightarrow> block" where
  "cur s k = (if k \<in> bkey s ` {b \<in> bufs. b_valid s b}
              then b_data s (the_inv_into {b \<in> bufs. b_valid s b} (bkey s) k) else disk s k)"

text \<open>A buffer that the client holds.\<close>

definition holds :: "bcache \<Rightarrow> u32 \<Rightarrow> u32 \<times> u32 \<Rightarrow> bool" where
  "holds s b k \<longleftrightarrow> b \<in> bufs \<and> b_locked s b \<and> bkey s b = k"

lemma finite_bufs [simp]: "finite bufs" "card bufs = NBUF"
proof -
  have "inj_on (of_nat :: nat \<Rightarrow> u32) {1..NBUF}"
  proof (rule inj_onI)
    fix i j :: nat assume *: "i \<in> {1..NBUF}" "j \<in> {1..NBUF}" and eq: "(of_nat i :: u32) = of_nat j"
    from eq have "unat (of_nat i :: u32) = unat (of_nat j :: u32)" by simp
    with * show "i = j" by (simp add: unat_u32_of_nat)
  qed
  then show "finite bufs" "card bufs = NBUF" by (simp_all add: bufs_def card_image)
qed

lemma bufs_nonnull: "b \<in> bufs \<Longrightarrow> b \<noteq> 0"
proof
  assume "b \<in> bufs" and "b = 0"
  then obtain i where "i \<in> {1..NBUF}" "(of_nat i :: u32) = 0" by (auto simp: bufs_def)
  then show False using unat_u32_of_nat [of i] by auto
qed

lemma bc_inv_buf: "bc_inv s \<Longrightarrow> b \<in> bufs \<Longrightarrow> buf_ok s b"
  by (simp add: bc_inv_def)

lemma bc_inv_unique:
  "bc_inv s \<Longrightarrow> b \<in> bufs \<Longrightarrow> c \<in> bufs \<Longrightarrow> b_valid s b \<Longrightarrow> b_valid s c \<Longrightarrow> bkey s b = bkey s c \<Longrightarrow> b = c"
  unfolding bc_inv_def inj_on_def by blast

lemma cur_buf: "bc_inv s \<Longrightarrow> b \<in> bufs \<Longrightarrow> b_valid s b \<Longrightarrow> cur s (bkey s b) = b_data s b"
  unfolding bc_inv_def cur_def by (auto simp: the_inv_into_f_f)

lemma cur_disk: "\<forall>b \<in> bufs. b_valid s b \<longrightarrow> bkey s b \<noteq> k \<Longrightarrow> cur s k = disk s k"
  by (auto simp: cur_def)

text \<open>To know \<open>cur\<close> it is enough to know it on the cached blocks and on the others.\<close>

lemma cur_eqI:
  assumes "\<And>b. b \<in> bufs \<Longrightarrow> b_valid s b \<Longrightarrow> f (bkey s b) = b_data s b" and "bc_inv s"
    and "\<And>k. \<forall>b \<in> bufs. b_valid s b \<longrightarrow> bkey s b \<noteq> k \<Longrightarrow> f k = disk s k"
  shows "cur s = f"
proof
  fix k
  show "cur s k = f k"
  proof (cases "\<exists>b \<in> bufs. b_valid s b \<and> bkey s b = k")
    case True
    then show ?thesis using cur_buf [OF assms(2)] assms(1) by force
  next
    case False
    then show ?thesis using cur_disk [of s k] assms(3) [of k] by metis
  qed
qed

lemma holds_valid: "bc_inv s \<Longrightarrow> holds s b k \<Longrightarrow> b_valid s b"
  using bc_inv_buf by (auto simp: holds_def buf_ok_def)

lemma holds_cur: "bc_inv s \<Longrightarrow> holds s b k \<Longrightarrow> cur s k = b_data s b"
  using cur_buf holds_valid by (auto simp: holds_def)

lemma holds_key: "bc_inv s \<Longrightarrow> holds s b k \<Longrightarrow> block_key k"
  using bc_inv_buf [of s b] by (auto simp: holds_def buf_ok_def split: if_splits)

text \<open>Buffers that are locked or pinned are as many as blocks that are.\<close>

lemma busy_card:
  assumes "bc_inv s"
  shows "card (held s \<union> pinned s) = card {b \<in> bufs. b_locked s b \<or> b_dirty s b}"
proof -
  have "held s \<union> pinned s = bkey s ` {b \<in> bufs. b_locked s b \<or> b_dirty s b}"
    by (auto simp: held_def pinned_def)
  moreover have "inj_on (bkey s) {b \<in> bufs. b_locked s b \<or> b_dirty s b}"
    using assms by (auto simp: bc_inv_def buf_ok_def inj_on_def)
  ultimately show ?thesis by (simp add: card_image)
qed

lemma free_buffer:
  assumes "bc_inv s" and "card (insert k (held s \<union> pinned s)) \<le> NBUF" and "k \<notin> held s \<union> pinned s"
  shows "\<exists>b \<in> bufs. \<not> b_locked s b \<and> \<not> b_dirty s b"
proof (rule ccontr)
  assume "\<not> ?thesis"
  then have "{b \<in> bufs. b_locked s b \<or> b_dirty s b} = bufs" by blast
  then have "card (held s \<union> pinned s) = NBUF" using busy_card [OF assms(1)] by simp
  moreover have "finite (held s \<union> pinned s)" by (simp add: held_def pinned_def)
  ultimately show False using assms(2,3) by simp
qed

section \<open>What the operations promise\<close>

text \<open>Reading a block that is already cached.\<close>

lemma bread_cached:
  assumes inv: "bc_inv s" and b: "b \<in> bufs" "b_valid s b" "\<not> b_locked s b"
  defines "s' \<equiv> s\<lparr>b_refcnt := (b_refcnt s)(b := 1), b_locked := (b_locked s)(b := True)\<rparr>"
  shows "bread (b_dev s b) (b_blockno s b) s = Inr (b, s')" and "bc_inv s'" and "cur s' = cur s"
proof -
  obtain xs where xs: "dlist s xs" "set xs = bufs" using inv by (auto simp: bc_inv_def)
  then obtain us vs where split: "xs = us @ b # vs" using b(1) by (metis in_set_conv_decomp_first)
  have dis: "b \<notin> set us" using dlist_distinct(1) [OF xs(1)] split by simp
  have other: "\<not> (b_dev s c = b_dev s b \<and> b_blockno s c = b_blockno s b)" if "c \<in> set us" for c
  proof
    assume eq: "b_dev s c = b_dev s b \<and> b_blockno s c = b_blockno s b"
    have c: "c \<in> bufs" using that split xs(2) by auto
    have "b_dev s b \<noteq> 0" using bc_inv_buf [OF inv b(1)] b(2) by (auto simp: buf_ok_def block_key_def bkey_def)
    then have "b_valid s c" using bc_inv_buf [OF inv c] eq by (auto simp: buf_ok_def split: if_splits)
    then have "c = b" using bc_inv_unique [OF inv c b(1) _ b(2)] eq by (simp add: bkey_def)
    with that dis show False by simp
  qed
  have find: "find_node (b_next s) (\<lambda>c. b_dev s c = b_dev s b \<and> b_blockno s c = b_blockno s b) 0 (b_next s 0) [] =
      Inr (last (0 # us), b)"
    using xs(1) split other by (intro find_node_present [of _ _ us b vs]) (auto simp: dlist_def)
  have ref: "b_refcnt s b = 0" using bc_inv_buf [OF inv b(1)] b(3) by (simp add: buf_ok_def)
  show "bread (b_dev s b) (b_blockno s b) s = Inr (b, s')"
    using find b bufs_nonnull [OF b(1)] ref
    by (simp add: bread_def bget_def acquire_buf_def s'_def)
  show inv': "bc_inv s'"
    using inv xs b unfolding bc_inv_def
    by (auto simp: s'_def dlist_def buf_ok_def bkey_def inj_on_def intro!: exI [of _ xs])
  show "cur s' = cur s"
    using cur_buf [OF inv] cur_disk [of s] by (intro cur_eqI inv') (auto simp: s'_def bkey_def)
qed

text \<open>Reading a block that is not cached: a free buffer is recycled and filled from the disk.\<close>

lemma bread_fresh:
  assumes inv: "bc_inv s" and k: "block_key k" and fresh: "\<forall>b \<in> bufs. b_valid s b \<longrightarrow> bkey s b \<noteq> k"
    and room: "\<exists>b \<in> bufs. \<not> b_locked s b \<and> \<not> b_dirty s b"
  obtains b s' where "bread (fst k) (snd k) s = Inr (b, s')" "b \<in> bufs" "\<not> b_locked s b" "\<not> b_dirty s b"
    "s' = s\<lparr>b_dev := (b_dev s)(b := fst k), b_blockno := (b_blockno s)(b := snd k),
            b_valid := (b_valid s)(b := True), b_dirty := (b_dirty s)(b := False),
            b_refcnt := (b_refcnt s)(b := 1), b_locked := (b_locked s)(b := True),
            b_data := (b_data s)(b := disk s k)\<rparr>" "bc_inv s'" "cur s' = cur s"
proof -
  obtain xs where xs: "dlist s xs" "set xs = bufs" using inv by (auto simp: bc_inv_def)
  have dev: "fst k \<noteq> 0" using k by (auto simp: block_key_def)
  have none: "\<not> (b_dev s c = fst k \<and> b_blockno s c = snd k)" if "c \<in> bufs" for c
  proof
    assume eq: "b_dev s c = fst k \<and> b_blockno s c = snd k"
    then have "b_valid s c" using bc_inv_buf [OF inv that] dev by (auto simp: buf_ok_def split: if_splits)
    with fresh that eq show False by (auto simp: bkey_def)
  qed
  then have find1: "find_node (b_next s) (\<lambda>c. b_dev s c = fst k \<and> b_blockno s c = snd k) 0 (b_next s 0) [] =
      Inr (last (0 # xs), 0)"
    using xs by (intro find_node_absent) (auto simp: dlist_def)
  have idle: "b_refcnt s c = 0 \<and> \<not> b_dirty s c \<longleftrightarrow> \<not> b_locked s c \<and> \<not> b_dirty s c" if "c \<in> bufs" for c
    using bc_inv_buf [OF inv that] by (auto simp: buf_ok_def)
  obtain b us vs where split: "rev xs = us @ b # vs" and bP: "\<not> b_locked s b \<and> \<not> b_dirty s b"
    and first: "\<forall>c \<in> set us. \<not> (\<not> b_locked s c \<and> \<not> b_dirty s c)"
    using split_list_first_prop [of "rev xs" "\<lambda>b. \<not> b_locked s b \<and> \<not> b_dirty s b"] room xs(2) by auto
  have "set (us @ b # vs) = set (rev xs)" by (simp only: split)
  then have "set (us @ b # vs) = bufs" using xs(2) by simp
  then have sub: "set us \<union> {b} \<subseteq> bufs" by auto
  then have b: "b \<in> bufs" by simp
  have find2: "find_node (b_prev s) (\<lambda>b. b_refcnt s b = 0 \<and> \<not> b_dirty s b) 0 (b_prev s 0) [] = Inr (last (0 # us), b)"
    using xs(1) split first bP idle sub
    by (intro find_node_present [of _ _ us b vs]) (auto simp: dlist_def)
  define s' where "s' = s\<lparr>b_dev := (b_dev s)(b := fst k), b_blockno := (b_blockno s)(b := snd k),
            b_valid := (b_valid s)(b := True), b_dirty := (b_dirty s)(b := False),
            b_refcnt := (b_refcnt s)(b := 1), b_locked := (b_locked s)(b := True),
            b_data := (b_data s)(b := disk s k)\<rparr>"
  let ?s1 = "s\<lparr>b_dev := (b_dev s)(b := fst k), b_blockno := (b_blockno s)(b := snd k),
      b_valid := (b_valid s)(b := False), b_dirty := (b_dirty s)(b := False),
      b_refcnt := (b_refcnt s)(b := 1), b_locked := (b_locked s)(b := True)\<rparr>"
  have get: "bget (fst k) (snd k) s = Inr (b, ?s1)"
    unfolding bget_def find1 find2 bindE_Inr prod.case acquire_buf_def using bP bufs_nonnull [OF b] by simp
  have "havedisk1 s" "\<not> FSSIZE \<le> snd k" "fst k = ROOTDEV \<or> fst k = NVMEDEV"
    using inv k by (auto simp: bc_inv_def block_key_def)
  then have rd: "bread (fst k) (snd k) s = Inr (b, s')"
    unfolding bread_def get bindE_Inr prod.case s'_def by (cases k; elim disjE) (simp_all add: iderw_def disk_read_def Let_def)
  have inv': "bc_inv s'"
    unfolding bc_inv_def
  proof (intro conjI)
    show "havedisk1 s'" using inv by (simp add: bc_inv_def s'_def)
    show "\<exists>ys. dlist s' ys \<and> set ys = bufs" using xs by (intro exI [of _ xs]) (simp add: dlist_def s'_def)
    show "\<forall>c\<in>bufs. buf_ok s' c"
      using inv k by (auto simp: bc_inv_def buf_ok_def s'_def bkey_def)
    have key: "bkey s' c = (if c = b then k else bkey s c)" for c by (simp add: s'_def bkey_def)
    show "inj_on (bkey s') {c \<in> bufs. b_valid s' c}"
    proof (rule inj_onI)
      fix x y assume xy: "x \<in> {c \<in> bufs. b_valid s' c}" "y \<in> {c \<in> bufs. b_valid s' c}" "bkey s' x = bkey s' y"
      then have v: "x \<noteq> b \<longrightarrow> b_valid s x" "y \<noteq> b \<longrightarrow> b_valid s y" by (simp_all add: s'_def)
      show "x = y"
        using xy v fresh bc_inv_unique [OF inv, of x y] unfolding key by (auto split: if_splits)
    qed
  qed
  have "cur s = cur s'"
  proof (rule cur_eqI [symmetric])
    show "bc_inv s'" by (rule inv')
    show "cur s (bkey s' c) = b_data s' c" if "c \<in> bufs" "b_valid s' c" for c
      using that cur_buf [OF inv that(1)] cur_disk [OF fresh] by (auto simp: s'_def bkey_def)
    show "cur s j = disk s' j" if "\<forall>c\<in>bufs. b_valid s' c \<longrightarrow> bkey s' c \<noteq> j" for j
    proof (cases "b_valid s b \<and> bkey s b = j")
      case True
      then show ?thesis
        using cur_buf [OF inv b] bc_inv_buf [OF inv b] bP by (auto simp: buf_ok_def s'_def)
    next
      case False
      then have "\<forall>c\<in>bufs. b_valid s c \<longrightarrow> bkey s c \<noteq> j" using that by (auto simp: s'_def bkey_def split: if_splits)
      then show ?thesis using cur_disk by (simp add: s'_def)
    qed
  qed
  then show ?thesis using that rd b bP s'_def inv' by simp
qed

text \<open>
  \<^verbatim>\<open>bread\<close>: any block that the client does not hold can be read as long as the blocks held and pinned,
  with it, fit into the cache.
\<close>

lemma bread_ok:
  assumes inv: "bc_inv s" and k: "block_key k" and nh: "k \<notin> held s"
    and room: "card (insert k (held s \<union> pinned s)) \<le> NBUF"
  obtains b s' where "bread (fst k) (snd k) s = Inr (b, s')" "bc_inv s'" "holds s' b k" "b_data s' b = cur s k"
    "cur s' = cur s" "disk s' = disk s" "written s' = written s" "held s' = insert k (held s)" "pinned s' = pinned s"
    "\<And>c j. holds s c j \<Longrightarrow> holds s' c j \<and> b_data s' c = b_data s c"
proof (cases "\<exists>b \<in> bufs. b_valid s b \<and> bkey s b = k")
  case True
  then obtain b where b: "b \<in> bufs" "b_valid s b" "bkey s b = k" by blast
  then have nl: "\<not> b_locked s b" using nh by (auto simp: held_def)
  note r = bread_cached [OF inv b(1,2) nl]
  let ?s = "s\<lparr>b_refcnt := (b_refcnt s)(b := 1), b_locked := (b_locked s)(b := True)\<rparr>"
  have "held ?s = insert k (held s)" using b by (auto simp: held_def bkey_def)
  moreover have "pinned ?s = pinned s" by (simp add: pinned_def bkey_def)
  moreover have "b_data ?s b = cur s k" using cur_buf [OF inv b(1,2)] b(3) by simp
  moreover have "bread (fst k) (snd k) s = Inr (b, ?s)" using r(1) b(3) by (auto simp: bkey_def)
  ultimately show ?thesis
    using r(2,3) b by (intro that [of b ?s]) (auto simp: holds_def bkey_def)
next
  case False
  then have fresh: "\<forall>b \<in> bufs. b_valid s b \<longrightarrow> bkey s b \<noteq> k" by blast
  have "k \<notin> pinned s" using fresh bc_inv_buf [OF inv] by (auto simp: pinned_def buf_ok_def)
  then have "\<exists>b \<in> bufs. \<not> b_locked s b \<and> \<not> b_dirty s b" using free_buffer [OF inv room] nh by blast
  from bread_fresh [OF inv k fresh this]
  obtain b s' where b: "bread (fst k) (snd k) s = Inr (b, s')" "b \<in> bufs" "\<not> b_locked s b" "\<not> b_dirty s b"
    and s': "s' = s\<lparr>b_dev := (b_dev s)(b := fst k), b_blockno := (b_blockno s)(b := snd k),
            b_valid := (b_valid s)(b := True), b_dirty := (b_dirty s)(b := False),
            b_refcnt := (b_refcnt s)(b := 1), b_locked := (b_locked s)(b := True),
            b_data := (b_data s)(b := disk s k)\<rparr>" and r: "bc_inv s'" "cur s' = cur s" .
  have set_upd: "{c \<in> bufs. b_locked s' c} = insert b {c \<in> bufs. b_locked s c}"
    "{c \<in> bufs. b_dirty s' c} = {c \<in> bufs. b_dirty s c}" using b(2,4) by (auto simp: s')
  have key: "bkey s' c = (if c = b then k else bkey s c)" for c by (simp add: s' bkey_def)
  have "held s' = insert k (held s)" unfolding held_def set_upd using b(3) by (auto simp: key)
  moreover have "pinned s' = pinned s" unfolding pinned_def set_upd using b(4) by (auto simp: key)
  moreover have "b_data s' b = cur s k" using cur_disk [OF fresh] by (simp add: s')
  moreover have "holds s' c j \<and> b_data s' c = b_data s c" if "holds s c j" for c j
    using that b(3) by (auto simp: holds_def key) (auto simp: s')
  moreover have "holds s' b k" using b(2) by (simp add: holds_def key) (simp add: s')
  moreover have "disk s' = disk s" "written s' = written s" by (simp_all add: s')
  ultimately show ?thesis using r b(1) by (intro that [of b s']) auto
qed

text \<open>\<^verbatim>\<open>bwrite\<close> of a held buffer writes it to the disk and unpins it.\<close>

lemma bwrite_ok:
  assumes inv: "bc_inv s" and h: "holds s b k"
  obtains s' where "bwrite b s = Inr s'" "bc_inv s'" "cur s' = cur s" "disk s' = (disk s)(k := b_data s b)"
    "written s' = written s @ [(k, b_data s b)]" "held s' = held s" "pinned s' = pinned s - {k}"
    "\<And>c j. holds s' c j \<longleftrightarrow> holds s c j" "b_data s' = b_data s"
proof -
  define s' where "s' = s\<lparr>b_dirty := (b_dirty s)(b := False), disk := (disk s)(k := b_data s b),
      written := written s @ [(k, b_data s b)]\<rparr>"
  have b: "b \<in> bufs" "b_locked s b" "bkey s b = k" using h by (simp_all add: holds_def)
  have v: "b_valid s b" using holds_valid [OF inv h] .
  have "havedisk1 s" using inv by (simp add: bc_inv_def)
  moreover have "(b_valid s)(b := True) = b_valid s" using v by (simp add: fun_upd_idem)
  ultimately have w: "bwrite b s = Inr s'"
    using b holds_key [OF inv h] v
    by (auto simp: bwrite_def iderw_def disk_write_def Let_def s'_def block_key_def bkey_def not_le)
  have same: "bkey s' = bkey s" "b_valid s' = b_valid s" "b_locked s' = b_locked s" "b_data s' = b_data s"
    by (auto simp: s'_def bkey_def)
  have uniq: "c = b" if "c \<in> bufs" "b_valid s c" "bkey s c = k" for c
    using bc_inv_unique [OF inv that(1) b(1) that(2) v] that(3) b(3) by simp
  have inv': "bc_inv s'"
    unfolding bc_inv_def same
  proof (intro conjI)
    show "havedisk1 s'" "\<exists>xs. dlist s' xs \<and> set xs = bufs" "inj_on (bkey s) {b \<in> bufs. b_valid s b}"
      using inv by (auto simp: bc_inv_def s'_def dlist_def)
    show "\<forall>c\<in>bufs. buf_ok s' c"
    proof
      fix c assume c: "c \<in> bufs"
      show "buf_ok s' c"
      proof (cases "c = b")
        case True
        then show ?thesis using bc_inv_buf [OF inv c] b(2) v unfolding buf_ok_def same by (simp add: s'_def)
      next
        case False
        then have "b_valid s c \<longrightarrow> bkey s c \<noteq> k" using uniq [OF c] by blast
        with False show ?thesis using bc_inv_buf [OF inv c] unfolding buf_ok_def same by (simp add: s'_def)
      qed
    qed
  qed
  have "cur s' = cur s"
  proof (rule cur_eqI)
    show "cur s (bkey s' c) = b_data s' c" if "c \<in> bufs" "b_valid s' c" for c
      using cur_buf [OF inv] that by (simp add: same)
    show "bc_inv s'" by (rule inv')
    show "cur s j = disk s' j" if "\<forall>c\<in>bufs. b_valid s' c \<longrightarrow> bkey s' c \<noteq> j" for j
      using that cur_disk [of s j] b v by (auto simp: same) (auto simp: s'_def)
  qed
  moreover have "held s' = held s" "\<And>c j. holds s' c j \<longleftrightarrow> holds s c j"
    by (auto simp: held_def holds_def same)
  moreover have "pinned s' = pinned s - {k}"
  proof -
    have "{c \<in> bufs. b_dirty s' c} = {c \<in> bufs. b_dirty s c} - {b}" by (auto simp: s'_def)
    moreover have "c = b \<longleftrightarrow> bkey s c = k" if "c \<in> {c \<in> bufs. b_dirty s c}" for c
      using uniq [of c] that bc_inv_buf [OF inv, of c] b(3) by (auto simp: buf_ok_def)
    ultimately show ?thesis unfolding pinned_def same by blast
  qed
  ultimately show ?thesis using w inv' same(4) by (intro that [of s']) (auto simp: s'_def)
qed

text \<open>\<^verbatim>\<open>brelse\<close> gives up a buffer that is clean or pinned and moves it to the front of the list.\<close>

lemma link_fields [simp]:
  "b_valid (link_front b s) = b_valid s" "b_dirty (link_front b s) = b_dirty s" "b_dev (link_front b s) = b_dev s"
  "b_blockno (link_front b s) = b_blockno s" "b_locked (link_front b s) = b_locked s"
  "b_refcnt (link_front b s) = b_refcnt s" "b_data (link_front b s) = b_data s" "disk (link_front b s) = disk s"
  "written (link_front b s) = written s" "havedisk1 (link_front b s) = havedisk1 s"
  "b_valid (unlink b s) = b_valid s" "b_dirty (unlink b s) = b_dirty s" "b_dev (unlink b s) = b_dev s"
  "b_blockno (unlink b s) = b_blockno s" "b_locked (unlink b s) = b_locked s"
  "b_refcnt (unlink b s) = b_refcnt s" "b_data (unlink b s) = b_data s" "disk (unlink b s) = disk s"
  "written (unlink b s) = written s" "havedisk1 (unlink b s) = havedisk1 s"
  by (simp_all add: link_front_def unlink_def Let_def)

lemma brelse_ok:
  assumes inv: "bc_inv s" and h: "holds s b k" and clean: "b_dirty s b \<or> b_data s b = disk s k"
  obtains s' where "brelse b s = Inr s'" "bc_inv s'" "cur s' = cur s" "disk s' = disk s" "written s' = written s"
    "held s' = held s - {k}" "pinned s' = pinned s" "\<And>c j. holds s' c j \<longleftrightarrow> holds s c j \<and> c \<noteq> b" "b_data s' = b_data s"
proof -
  let ?s1 = "s\<lparr>b_locked := (b_locked s)(b := False), b_refcnt := (b_refcnt s)(b := 0)\<rparr>"
  define s' where "s' = link_front b (unlink b ?s1)"
  have b: "b \<in> bufs" "b_locked s b" "bkey s b = k" using h by (simp_all add: holds_def)
  have v: "b_valid s b" using holds_valid [OF inv h] .
  have ref: "b_refcnt s b = 1" using bc_inv_buf [OF inv b(1)] b(2) by (simp add: buf_ok_def)
  have r: "brelse b s = Inr s'" using b ref by (simp add: brelse_def s'_def)
  have same: "bkey s' = bkey s" "b_valid s' = b_valid s" "b_data s' = b_data s" "b_dirty s' = b_dirty s"
    "disk s' = disk s" "written s' = written s" "b_dev s' = b_dev s" by (auto simp: s'_def bkey_def)
  have locked: "b_locked s' = (b_locked s)(b := False)" "b_refcnt s' = (b_refcnt s)(b := 0)"
    by (simp_all add: s'_def)
  have inv': "bc_inv s'"
    unfolding bc_inv_def same
  proof (intro conjI)
    obtain xs where xs: "dlist s xs" "set xs = bufs" using inv by (auto simp: bc_inv_def)
    then obtain us vs where split: "xs = us @ b # vs" using b(1) by (metis split_list)
    have "dlist ?s1 (us @ b # vs)" using xs(1) split by (simp add: dlist_def)
    then have "dlist (unlink b ?s1) (us @ vs)" by (rule dlist_unlink)
    moreover have "b \<notin> set (us @ vs)" using dlist_distinct(1) [OF xs(1)] split by simp
    ultimately have "dlist s' (b # us @ vs)" using dlist_front bufs_nonnull [OF b(1)] by (simp add: s'_def)
    moreover have "set (b # us @ vs) = bufs" using xs(2) split by auto
    ultimately show "\<exists>xs. dlist s' xs \<and> set xs = bufs" by blast
    show "havedisk1 s'" "inj_on (bkey s) {b \<in> bufs. b_valid s b}"
      using inv by (auto simp: bc_inv_def s'_def)
    show "\<forall>c\<in>bufs. buf_ok s' c"
    proof
      fix c assume c: "c \<in> bufs"
      show "buf_ok s' c"
        using bc_inv_buf [OF inv c] b(3) clean unfolding buf_ok_def same locked by (cases "c = b") (auto split: if_splits)
    qed
  qed
  have "cur s' = cur s" unfolding cur_def same ..
  moreover have "held s' = held s - {k}"
  proof -
    have "{c \<in> bufs. b_locked s' c} = {c \<in> bufs. b_locked s c} - {b}" by (auto simp: locked)
    moreover have "c = b \<longleftrightarrow> bkey s c = k" if "c \<in> {c \<in> bufs. b_locked s c}" for c
      using bc_inv_unique [OF inv, of c b] that bc_inv_buf [OF inv, of c] b v by (auto simp: buf_ok_def)
    ultimately show ?thesis unfolding held_def same by blast
  qed
  moreover have "pinned s' = pinned s" by (simp add: pinned_def same)
  moreover have "\<And>c j. holds s' c j \<longleftrightarrow> holds s c j \<and> c \<noteq> b" by (auto simp: holds_def same locked)
  ultimately show ?thesis using r inv' same by (intro that [of s']) auto
qed

text \<open>Changing the data of a held buffer, and pinning it.\<close>

lemma set_data_ok:
  assumes inv: "bc_inv s" and h: "holds s b k"
  shows "bc_inv (set_data b d s)" and "cur (set_data b d s) = (cur s)(k := d)" and "disk (set_data b d s) = disk s"
    and "written (set_data b d s) = written s" and "held (set_data b d s) = held s" and "pinned (set_data b d s) = pinned s"
    and "holds (set_data b d s) c j \<longleftrightarrow> holds s c j" and "b_data (set_data b d s) = (b_data s)(b := d)"
    and "b_dirty (set_data b d s) = b_dirty s"
proof -
  let ?s = "set_data b d s"
  have b: "b \<in> bufs" "b_locked s b" "bkey s b = k" using h by (simp_all add: holds_def)
  have v: "b_valid s b" using holds_valid [OF inv h] .
  have same: "bkey ?s = bkey s" "b_valid ?s = b_valid s" "b_locked ?s = b_locked s" "b_dirty ?s = b_dirty s"
    "b_refcnt ?s = b_refcnt s" "b_dev ?s = b_dev s" "disk ?s = disk s" by (auto simp: set_data_def bkey_def)
  show inv': "bc_inv ?s"
    unfolding bc_inv_def same
  proof (intro conjI)
    show "havedisk1 ?s" "\<exists>xs. dlist ?s xs \<and> set xs = bufs" "inj_on (bkey s) {b \<in> bufs. b_valid s b}"
      using inv by (auto simp: bc_inv_def set_data_def dlist_def)
    show "\<forall>c\<in>bufs. buf_ok ?s c"
    proof
      fix c assume c: "c \<in> bufs"
      show "buf_ok ?s c"
        using bc_inv_buf [OF inv c] b(2) unfolding buf_ok_def same by (cases "c = b") (auto simp: set_data_def split: if_splits)
    qed
  qed
  show "cur ?s = (cur s)(k := d)"
  proof (rule cur_eqI)
    show "((cur s)(k := d)) (bkey ?s c) = b_data ?s c" if "c \<in> bufs" "b_valid ?s c" for c
      using that bc_inv_unique [OF inv that(1) b(1)] cur_buf [OF inv that(1)] v b(3)
      by (auto simp: same) (auto simp: set_data_def)
    show "bc_inv ?s" by (rule inv')
    show "((cur s)(k := d)) j = disk ?s j" if "\<forall>c\<in>bufs. b_valid ?s c \<longrightarrow> bkey ?s c \<noteq> j" for j
      using that cur_disk [of s j] b v by (auto simp: same)
  qed
  show "disk ?s = disk s" "written ?s = written s" "held ?s = held s" "pinned ?s = pinned s"
    "holds ?s c j \<longleftrightarrow> holds s c j" "b_data ?s = (b_data s)(b := d)" "b_dirty ?s = b_dirty s"
    by (auto simp: held_def pinned_def holds_def set_data_def bkey_def)
qed

lemma set_dirty_ok:
  assumes inv: "bc_inv s" and h: "holds s b k"
  shows "bc_inv (set_dirty b s)" and "cur (set_dirty b s) = cur s" and "disk (set_dirty b s) = disk s"
    and "written (set_dirty b s) = written s" and "held (set_dirty b s) = held s"
    and "pinned (set_dirty b s) = insert k (pinned s)" and "holds (set_dirty b s) c j \<longleftrightarrow> holds s c j"
    and "b_data (set_dirty b s) = b_data s" and "b_dirty (set_dirty b s) b"
proof -
  let ?s = "set_dirty b s"
  have b: "b \<in> bufs" "b_locked s b" "bkey s b = k" using h by (simp_all add: holds_def)
  have v: "b_valid s b" using holds_valid [OF inv h] .
  have same: "bkey ?s = bkey s" "b_valid ?s = b_valid s" "b_locked ?s = b_locked s" "b_data ?s = b_data s"
    "b_refcnt ?s = b_refcnt s" "b_dev ?s = b_dev s" "disk ?s = disk s" by (auto simp: set_dirty_def bkey_def)
  show "bc_inv ?s"
    unfolding bc_inv_def same
  proof (intro conjI)
    show "havedisk1 ?s" "\<exists>xs. dlist ?s xs \<and> set xs = bufs" "inj_on (bkey s) {b \<in> bufs. b_valid s b}"
      using inv by (auto simp: bc_inv_def set_dirty_def dlist_def)
    show "\<forall>c\<in>bufs. buf_ok ?s c"
    proof
      fix c assume c: "c \<in> bufs"
      show "buf_ok ?s c"
        using bc_inv_buf [OF inv c] b(2) v unfolding buf_ok_def same by (cases "c = b") (auto simp: set_dirty_def split: if_splits)
    qed
  qed
  show "cur ?s = cur s" unfolding cur_def same ..
  have "{c \<in> bufs. b_dirty ?s c} = insert b {c \<in> bufs. b_dirty s c}" using b(1) by (auto simp: set_dirty_def)
  then show "pinned ?s = insert k (pinned s)" unfolding pinned_def same using b(3) by simp
  show "disk ?s = disk s" "written ?s = written s" "held ?s = held s" "holds ?s c j \<longleftrightarrow> holds s c j"
    "b_data ?s = b_data s" "b_dirty ?s b"
    by (auto simp: held_def holds_def set_dirty_def bkey_def)
qed

text \<open>Initialisation.\<close>

lemma fold_link_front:
  assumes "dlist s ys" and "distinct xs" and "0 \<notin> set xs" and "set xs \<inter> set ys = {}"
  shows "dlist (fold (\<lambda>b s. link_front b (s\<lparr>b_locked := (b_locked s)(b := False)\<rparr>)) xs s) (rev xs @ ys)"
  using assms
proof (induction xs arbitrary: s ys)
  case Nil
  then show ?case by simp
next
  case (Cons x xs)
  have "dlist (s\<lparr>b_locked := (b_locked s)(x := False)\<rparr>) ys" using Cons.prems(1) by (simp add: dlist_def)
  then have "dlist (link_front x (s\<lparr>b_locked := (b_locked s)(x := False)\<rparr>)) (x # ys)"
    using Cons.prems by (intro dlist_front) auto
  then have "dlist (fold (\<lambda>b s. link_front b (s\<lparr>b_locked := (b_locked s)(b := False)\<rparr>)) xs
      (link_front x (s\<lparr>b_locked := (b_locked s)(x := False)\<rparr>))) (rev xs @ x # ys)"
    using Cons.prems by (intro Cons.IH) auto
  then show ?case by (simp only: fold_Cons comp_apply rev.simps append_assoc append_Cons append_Nil)
qed

lemma binit_ok:
  assumes "havedisk1 s" and "\<forall>b \<in> bufs. \<not> b_valid s b \<and> \<not> b_dirty s b \<and> b_dev s b = 0 \<and> b_refcnt s b = 0"
  shows "bc_inv (binit s)" and "cur (binit s) = disk s" and "disk (binit s) = disk s"
    and "held (binit s) = {}" and "pinned (binit s) = {}" and "written (binit s) = written s"
proof -
  let ?s0 = "s\<lparr>b_prev := (b_prev s)(0 := 0), b_next := (b_next s)(0 := 0)\<rparr>"
  let ?f = "\<lambda>b s. link_front b (s\<lparr>b_locked := (b_locked s)(b := False)\<rparr>)"
  let ?xs = "map of_nat [1..<Suc NBUF] :: u32 list"
  have fields: "b_valid (fold ?f xs t) = b_valid t" "b_dirty (fold ?f xs t) = b_dirty t" "b_dev (fold ?f xs t) = b_dev t"
    "b_blockno (fold ?f xs t) = b_blockno t" "b_refcnt (fold ?f xs t) = b_refcnt t" "b_data (fold ?f xs t) = b_data t"
    "disk (fold ?f xs t) = disk t" "written (fold ?f xs t) = written t" "havedisk1 (fold ?f xs t) = havedisk1 t"
    "b_locked (fold ?f xs t) = (\<lambda>b. b_locked t b \<and> b \<notin> set xs)" for xs t
    by (induction xs arbitrary: t) (auto simp: fun_eq_iff)
  have set: "set ?xs = bufs" by (auto simp: bufs_def)
  then have card: "card (set ?xs) = length ?xs" by simp
  have "dlist ?s0 []" by (simp add: dlist_def)
  moreover have "0 \<notin> set ?xs" unfolding set using bufs_nonnull by blast
  ultimately have "dlist (binit s) (rev ?xs)"
    using fold_link_front [of ?s0 "[]" ?xs] card_distinct [OF card] unfolding binit_def Let_def by simp
  moreover have "set (rev ?xs) = bufs" using set by simp
  moreover have unlocked: "\<not> b_locked (binit s) b" if "b \<in> bufs" for b
    unfolding binit_def Let_def fields set using that by simp
  ultimately show "bc_inv (binit s)"
    using assms unfolding bc_inv_def by (auto simp: buf_ok_def binit_def Let_def fields inj_on_def)
  show "cur (binit s) = disk s" using assms(2) by (auto simp: fun_eq_iff cur_def binit_def Let_def fields)
  show "held (binit s) = {}" using unlocked by (auto simp: held_def)
  show "pinned (binit s) = {}" using assms(2) by (auto simp: pinned_def binit_def Let_def fields)
  show "disk (binit s) = disk s" "written (binit s) = written s" by (auto simp: binit_def Let_def fields)
qed

lemma cur_clean:
  assumes inv: "bc_inv s" and "k \<notin> pinned s" and "k \<notin> held s"
  shows "cur s k = disk s k"
proof (cases "\<exists>b \<in> bufs. b_valid s b \<and> bkey s b = k")
  case True
  then obtain b where b: "b \<in> bufs" "b_valid s b" "bkey s b = k" by blast
  then have "\<not> b_dirty s b" "\<not> b_locked s b" using assms(2,3) by (auto simp: pinned_def held_def)
  with b cur_buf [OF inv b(1,2)] bc_inv_buf [OF inv b(1)] show ?thesis by (simp add: buf_ok_def)
next
  case False
  then show ?thesis using cur_disk [of s k] by blast
qed

lemma dirty_pinned: "bc_inv s \<Longrightarrow> holds s b k \<Longrightarrow> k \<in> pinned s \<Longrightarrow> b_dirty s b"
  using bc_inv_unique [of s b] bc_inv_buf [of s] by (auto simp: pinned_def holds_def buf_ok_def)

lemma finite_held [simp]: "finite (held s)" "finite (pinned s)"
  by (simp_all add: held_def pinned_def)

section \<open>The interface of a block layer\<close>

text \<open>
  What the log and the file system rely on: a store of blocks with a cached view \<open>cur\<close> over a \<open>dsk\<close>, and
  clients that hold blocks while they read and change them.
\<close>

locale block_layer =
  fixes inv :: "'s \<Rightarrow> bool" and cur :: "'s \<Rightarrow> 'k \<Rightarrow> 'd" and dsk :: "'s \<Rightarrow> 'k \<Rightarrow> 'd"
    and wrt :: "'s \<Rightarrow> ('k \<times> 'd) list" and held :: "'s \<Rightarrow> 'k set" and pinned :: "'s \<Rightarrow> 'k set"
    and holds :: "'s \<Rightarrow> 'b \<Rightarrow> 'k \<Rightarrow> bool" and data :: "'s \<Rightarrow> 'b \<Rightarrow> 'd" and key_ok :: "'k \<Rightarrow> bool" and cap :: nat
    and rd :: "'k \<Rightarrow> 's \<Rightarrow> ('b \<times> 's) result" and wr :: "'b \<Rightarrow> 's \<Rightarrow> 's result"
    and release :: "'b \<Rightarrow> 's \<Rightarrow> 's result" and modify :: "'b \<Rightarrow> 'd \<Rightarrow> 's \<Rightarrow> 's"
  assumes read_ok: "inv s \<Longrightarrow> key_ok k \<Longrightarrow> k \<notin> held s \<Longrightarrow> card (insert k (held s \<union> pinned s)) \<le> cap \<Longrightarrow>
      \<exists>b s'. rd k s = Inr (b, s') \<and> inv s' \<and> holds s' b k \<and> cur s' = cur s \<and> dsk s' = dsk s \<and> wrt s' = wrt s \<and>
        held s' = insert k (held s) \<and> pinned s' = pinned s \<and> (\<forall>c j. holds s c j \<longrightarrow> holds s' c j)"
    and data_ok: "inv s \<Longrightarrow> holds s b k \<Longrightarrow> data s b = cur s k"
    and modify_ok: "inv s \<Longrightarrow> holds s b k \<Longrightarrow> inv (modify b d s) \<and> cur (modify b d s) = (cur s)(k := d) \<and>
        dsk (modify b d s) = dsk s \<and> wrt (modify b d s) = wrt s \<and> held (modify b d s) = held s \<and>
        pinned (modify b d s) = pinned s \<and> (\<forall>c j. holds (modify b d s) c j \<longleftrightarrow> holds s c j)"
    and write_ok: "inv s \<Longrightarrow> holds s b k \<Longrightarrow> \<exists>s'. wr b s = Inr s' \<and> inv s' \<and> cur s' = cur s \<and>
        dsk s' = (dsk s)(k := cur s k) \<and> wrt s' = wrt s @ [(k, cur s k)] \<and> held s' = held s \<and>
        pinned s' = pinned s - {k} \<and> (\<forall>c j. holds s' c j \<longleftrightarrow> holds s c j)"
    and release_ok: "inv s \<Longrightarrow> holds s b k \<Longrightarrow> k \<in> pinned s \<or> cur s k = dsk s k \<Longrightarrow>
      \<exists>s'. release b s = Inr s' \<and> inv s' \<and> cur s' = cur s \<and> dsk s' = dsk s \<and> wrt s' = wrt s \<and>
        held s' = held s - {k} \<and> pinned s' = pinned s \<and> (\<forall>c j. holds s' c j \<longleftrightarrow> holds s c j \<and> c \<noteq> b)"
    and clean: "inv s \<Longrightarrow> k \<notin> pinned s \<Longrightarrow> k \<notin> held s \<Longrightarrow> cur s k = dsk s k"
    and holds_inj: "inv s \<Longrightarrow> holds s b k \<Longrightarrow> holds s b j \<Longrightarrow> k = j"
    and holds_held: "inv s \<Longrightarrow> holds s b k \<Longrightarrow> k \<in> held s"
begin

text \<open>
  Copying a block over another and writing it through, the body of the loops of the log: the blocks are
  read in either order.
\<close>

lemma copy_held:
  assumes inv: "inv s" and hs: "holds s f src" and hd: "holds s t dst" and ne: "src \<noteq> dst"
    and clean: "src \<in> pinned s \<or> cur s src = dsk s src"
  shows "\<exists>s'. bindE (wr t (modify t (data s f) s)) (\<lambda>s1. bindE (release f s1) (release t)) = Inr s' \<and>
    inv s' \<and> cur s' = (cur s)(dst := cur s src) \<and> dsk s' = (dsk s)(dst := cur s src) \<and>
    wrt s' = wrt s @ [(dst, cur s src)] \<and> held s' = held s - {src, dst} \<and> pinned s' = pinned s - {dst}"
proof -
  let ?s1 = "modify t (data s f) s"
  have ft: "f \<noteq> t" using holds_inj [OF inv hs] hd ne by blast
  note m = modify_ok [OF inv hd, of "data s f"]
  have d: "data s f = cur s src" using data_ok [OF inv hs] .
  have h1: "holds ?s1 t dst" "holds ?s1 f src" using m hs hd by blast+
  obtain s2 where s2: "wr t ?s1 = Inr s2" "inv s2" "cur s2 = cur ?s1" "dsk s2 = (dsk ?s1)(dst := cur ?s1 dst)"
    "wrt s2 = wrt ?s1 @ [(dst, cur ?s1 dst)]" "held s2 = held ?s1" "pinned s2 = pinned ?s1 - {dst}"
    "\<forall>c j. holds s2 c j \<longleftrightarrow> holds ?s1 c j"
    using write_ok [OF conjunct1 [OF m] h1(1)] by blast
  have c2: "src \<in> pinned s2 \<or> cur s2 src = dsk s2 src" using clean s2 m ne by auto
  obtain s3 where s3: "release f s2 = Inr s3" "inv s3" "cur s3 = cur s2" "dsk s3 = dsk s2" "wrt s3 = wrt s2"
    "held s3 = held s2 - {src}" "pinned s3 = pinned s2" "\<forall>c j. holds s3 c j \<longleftrightarrow> holds s2 c j \<and> c \<noteq> f"
    using release_ok [OF s2(2) _ c2] s2(8) h1(2) by blast
  have h3: "holds s3 t dst" using s3(8) s2(8) h1(1) ft by blast
  have c3: "dst \<in> pinned s3 \<or> cur s3 dst = dsk s3 dst" using s3 s2 by simp
  obtain s4 where s4: "release t s3 = Inr s4" "inv s4" "cur s4 = cur s3" "dsk s4 = dsk s3" "wrt s4 = wrt s3"
    "held s4 = held s3 - {dst}" "pinned s4 = pinned s3"
    using release_ok [OF s3(2) h3 c3] by blast
  have "held s4 = held s - {src, dst}" using s4(6) s3(6) s2(6) m by auto
  then show ?thesis using s2 s3 s4 m d by (intro exI [of _ s4]) simp
qed

lemma copy_block:
  assumes inv: "inv s" and k: "key_ok src" "key_ok dst" and ne: "src \<noteq> dst" and nh: "held s = {}"
    and fin: "finite (pinned s)" and room: "card ({src, dst} \<union> pinned s) \<le> cap"
  shows "\<exists>s'. bindE (rd src s) (\<lambda>(f, s1). bindE (rd dst s1) (\<lambda>(t, s2).
      bindE (wr t (modify t (data s2 f) s2)) (\<lambda>s3. bindE (release f s3) (release t)))) = Inr s' \<and>
    inv s' \<and> cur s' = (cur s)(dst := cur s src) \<and> dsk s' = (dsk s)(dst := cur s src) \<and>
    wrt s' = wrt s @ [(dst, cur s src)] \<and> held s' = {} \<and> pinned s' = pinned s - {dst}"
    (is ?src_first)
    and "\<exists>s'. bindE (rd dst s) (\<lambda>(t, s1). bindE (rd src s1) (\<lambda>(f, s2).
      bindE (wr t (modify t (data s2 f) s2)) (\<lambda>s3. bindE (release f s3) (release t)))) = Inr s' \<and>
    inv s' \<and> cur s' = (cur s)(dst := cur s src) \<and> dsk s' = (dsk s)(dst := cur s src) \<and>
    wrt s' = wrt s @ [(dst, cur s src)] \<and> held s' = {} \<and> pinned s' = pinned s - {dst}"
    (is ?dst_first)
proof -
  have r1: "card (insert k (held s \<union> pinned s)) \<le> cap" if "k \<in> {src, dst}" for k
  proof -
    have "insert k (held s \<union> pinned s) \<subseteq> {src, dst} \<union> pinned s" using that nh by auto
    then have "card (insert k (held s \<union> pinned s)) \<le> card ({src, dst} \<union> pinned s)"
      using fin by (intro card_mono) auto
    then show ?thesis using room by linarith
  qed
  have c0: "src \<in> pinned s \<or> cur s src = dsk s src" using clean [OF inv] nh by blast
  show ?src_first
  proof -
    obtain f s1 where s1: "rd src s = Inr (f, s1)" "inv s1" "holds s1 f src" "cur s1 = cur s" "dsk s1 = dsk s"
      "wrt s1 = wrt s" "held s1 = {src}" "pinned s1 = pinned s"
      using read_ok [OF inv k(1) _ r1] nh by auto
    have "card (insert dst (held s1 \<union> pinned s1)) \<le> cap" using room s1(7,8) by (simp add: insert_commute)
    then obtain t s2 where s2: "rd dst s1 = Inr (t, s2)" "inv s2" "holds s2 t dst" "cur s2 = cur s" "dsk s2 = dsk s"
      "wrt s2 = wrt s" "held s2 = {dst, src}" "pinned s2 = pinned s" "holds s2 f src"
      using read_ok [OF s1(2) k(2)] s1(3-8) ne by auto
    have "src \<in> pinned s2 \<or> cur s2 src = dsk s2 src" using c0 s2 by simp
    from copy_held [OF s2(2,9,3) ne this] s1(1) s2 show ?thesis by auto
  qed
  show ?dst_first
  proof -
    obtain t s1 where s1: "rd dst s = Inr (t, s1)" "inv s1" "holds s1 t dst" "cur s1 = cur s" "dsk s1 = dsk s"
      "wrt s1 = wrt s" "held s1 = {dst}" "pinned s1 = pinned s"
      using read_ok [OF inv k(2) _ r1] nh by auto
    have "card (insert src (held s1 \<union> pinned s1)) \<le> cap" using room s1(7,8) by (simp add: insert_commute)
    then obtain f s2 where s2: "rd src s1 = Inr (f, s2)" "inv s2" "holds s2 f src" "cur s2 = cur s" "dsk s2 = dsk s"
      "wrt s2 = wrt s" "held s2 = {src, dst}" "pinned s2 = pinned s" "holds s2 t dst"
      using read_ok [OF s1(2) k(1)] s1(3-8) ne by auto
    have "src \<in> pinned s2 \<or> cur s2 src = dsk s2 src" using c0 s2 by simp
    from copy_held [OF s2(2,3,9) ne this] s1(1) s2 show ?thesis by auto
  qed
qed

text \<open>Changing a block in place and writing it through.\<close>

lemma rewrite_block:
  assumes inv: "inv s" and k: "key_ok k" and nh: "held s = {}" and room: "card (insert k (pinned s)) \<le> cap"
  shows "\<exists>s'. bindE (rd k s) (\<lambda>(b, s1). bindE (wr b (modify b (g (data s1 b)) s1)) (release b)) = Inr s' \<and>
    inv s' \<and> cur s' = (cur s)(k := g (cur s k)) \<and> dsk s' = (dsk s)(k := g (cur s k)) \<and>
    wrt s' = wrt s @ [(k, g (cur s k))] \<and> held s' = {} \<and> pinned s' = pinned s - {k}"
proof -
  obtain b s1 where s1: "rd k s = Inr (b, s1)" "inv s1" "holds s1 b k" "cur s1 = cur s" "dsk s1 = dsk s"
    "wrt s1 = wrt s" "held s1 = {k}" "pinned s1 = pinned s"
    using read_ok [OF inv k] nh room by auto
  let ?s2 = "modify b (g (data s1 b)) s1"
  note m = modify_ok [OF s1(2,3), of "g (data s1 b)"]
  have d: "data s1 b = cur s k" using data_ok [OF s1(2,3)] s1(4) by simp
  have "inv ?s2" "holds ?s2 b k" using m s1(3) by blast+
  from write_ok [OF this]
  obtain s3 where s3: "wr b ?s2 = Inr s3" "inv s3" "cur s3 = cur ?s2" "dsk s3 = (dsk ?s2)(k := cur ?s2 k)"
    "wrt s3 = wrt ?s2 @ [(k, cur ?s2 k)]" "held s3 = held ?s2" "pinned s3 = pinned ?s2 - {k}"
    "\<forall>c j. holds s3 c j \<longleftrightarrow> holds ?s2 c j" by blast
  have "holds s3 b k" using s3(8) m s1(3) by blast
  moreover have "k \<in> pinned s3 \<or> cur s3 k = dsk s3 k" using s3 by simp
  ultimately obtain s4 where s4: "release b s3 = Inr s4" "inv s4" "cur s4 = cur s3" "dsk s4 = dsk s3" "wrt s4 = wrt s3"
    "held s4 = held s3 - {k}" "pinned s4 = pinned s3"
    using release_ok [OF s3(2)] by blast
  then show ?thesis using s1 s3 m d by (intro exI [of _ s4]) simp
qed

end

text \<open>The buffer cache is such a layer, with room for 30 blocks.\<close>

interpretation bc: block_layer bc_inv cur disk written held pinned holds b_data block_key NBUF
  "\<lambda>k. bread (fst k) (snd k)" bwrite brelse set_data
proof (unfold_locales, goal_cases)
  case (1 s k)
  show ?case
  proof (rule bread_ok [OF 1])
    fix b s'
    assume "bread (fst k) (snd k) s = Inr (b, s')" "bc_inv s'" "holds s' b k" "cur s' = cur s" "disk s' = disk s"
      "written s' = written s" "held s' = insert k (held s)" "pinned s' = pinned s"
      "\<And>c j. holds s c j \<Longrightarrow> holds s' c j \<and> b_data s' c = b_data s c"
    then show ?thesis by (intro exI [of _ b] exI [of _ s']) simp
  qed
next
  case (2 s b k)
  then show ?case using holds_cur by simp
next
  case (3 s b k d)
  then show ?case using set_data_ok by auto
next
  case (4 s b k)
  show ?case by (rule bwrite_ok [OF 4]) (use holds_cur [OF 4] in simp)
next
  case (5 s b k)
  then have "b_dirty s b \<or> b_data s b = disk s k" using dirty_pinned holds_cur by metis
  with 5(1,2) show ?case by (rule brelse_ok) blast
next
  case (6 s k)
  then show ?case by (rule cur_clean)
next
  case (7 s b k j)
  then show ?case by (simp add: holds_def)
next
  case (8 s b k)
  then show ?case by (auto simp: holds_def held_def)
qed

section \<open>Properties\<close>

definition zero_bcache :: bcache where
  "zero_bcache = \<lparr>b_valid = (\<lambda>_. False), b_dirty = (\<lambda>_. False), b_dev = (\<lambda>_. 0), b_blockno = (\<lambda>_. 0),
     b_locked = (\<lambda>_. False), b_refcnt = (\<lambda>_. 0), b_prev = (\<lambda>_. 0), b_next = (\<lambda>_. 0),
     b_data = (\<lambda>_. []), disk = (\<lambda>_. replicate BSIZE 0), written = [], havedisk1 = True\<rparr>"

lemma boot_bcache:
  "bc_inv (binit zero_bcache)" "held (binit zero_bcache) = {}" "pinned (binit zero_bcache) = {}"
  "disk (binit zero_bcache) = (\<lambda>_. replicate BSIZE 0)" "cur (binit zero_bcache) = (\<lambda>_. replicate BSIZE 0)"
  "written (binit zero_bcache) = []"
  using binit_ok [of zero_bcache] by (simp_all add: zero_bcache_def)

text \<open>
  C26. Reading.  In a well-formed cache \<^verbatim>\<open>bread\<close> of a block that the caller does not already hold
  succeeds whenever the blocks in use (held, or pinned by the log) leave room for it; it returns a
  locked buffer with the current contents of that block, the cached copy when there is one, and
  neither evicts a pinned block nor changes the disk or the contents of any other block.
\<close>

theorem bread_returns_current:
  assumes "bc_inv s" and "dev \<in> {ROOTDEV, NVMEDEV}" and "blockno < FSSIZE" and "(dev, blockno) \<notin> held s"
    and "card (insert (dev, blockno) (held s \<union> pinned s)) \<le> NBUF"
  shows "\<exists>b s'. bread dev blockno s = Inr (b, s') \<and> bc_inv s' \<and> holds s' b (dev, blockno) \<and>
    b_data s' b = cur s (dev, blockno) \<and> cur s' = cur s \<and> disk s' = disk s \<and> pinned s' = pinned s \<and>
    held s' = insert (dev, blockno) (held s)"
proof -
  have k: "block_key (dev, blockno)" using assms(2,3) by (simp add: block_key_def)
  show ?thesis by (rule bread_ok [OF assms(1) k assms(4,5)]) auto
qed

theorem bread_returns_current_witness:
  "\<exists>b s'. bread 1 33 (binit zero_bcache) = Inr (b, s') \<and> bc_inv s' \<and> b_data s' b = replicate BSIZE 0"
  using bread_returns_current [of "binit zero_bcache" 1 33] boot_bcache by auto

text \<open>
  One copy of a block.  In every state that the operations reach no two buffers hold the same block,
  and a buffer that is neither locked nor pinned agrees with the disk; \<^verbatim>\<open>bwrite\<close> followed by \<^verbatim>\<open>brelse\<close>
  of a held buffer writes exactly this block, once, and the block can be read again with the
  contents just written.
\<close>

theorem bwrite_brelse_read:
  assumes "bc_inv s" and "holds s b (dev, blockno)"
    and "card (insert (dev, blockno) (held s \<union> pinned s)) \<le> NBUF"
  shows "\<exists>s1 s2 c s3. bwrite b s = Inr s1 \<and> brelse b s1 = Inr s2 \<and> bread dev blockno s2 = Inr (c, s3) \<and>
    b_data s3 c = b_data s b \<and> disk s3 = (disk s)((dev, blockno) := b_data s b) \<and>
    written s3 = written s @ [((dev, blockno), b_data s b)]"
proof -
  let ?k = "(dev, blockno)"
  obtain s1 where s1: "bwrite b s = Inr s1" "bc_inv s1" "cur s1 = cur s" "disk s1 = (disk s)(?k := b_data s b)"
    "written s1 = written s @ [(?k, b_data s b)]" "held s1 = held s" "pinned s1 = pinned s - {?k}"
    "holds s1 b ?k" "b_data s1 = b_data s"
    by (rule bwrite_ok [OF assms(1,2)]) (use assms(2) in blast)
  have "b_dirty s1 b \<or> b_data s1 b = disk s1 ?k" using s1(4,9) by simp
  then obtain s2 where s2: "brelse b s1 = Inr s2" "bc_inv s2" "cur s2 = cur s1" "disk s2 = disk s1" "written s2 = written s1"
    "held s2 = held s1 - {?k}" "pinned s2 = pinned s1"
    by (rule brelse_ok [OF s1(2,8)]) blast
  have "card (insert ?k (held s2 \<union> pinned s2)) \<le> NBUF"
  proof -
    have "insert ?k (held s2 \<union> pinned s2) \<subseteq> insert ?k (held s \<union> pinned s)" using s2 s1 by auto
    then have "card (insert ?k (held s2 \<union> pinned s2)) \<le> card (insert ?k (held s \<union> pinned s))"
      by (intro card_mono) auto
    then show ?thesis using assms(3) by linarith
  qed
  moreover have "?k \<notin> held s2" using s2(6) by simp
  ultimately obtain c s3 where s3: "bread dev blockno s2 = Inr (c, s3)" "b_data s3 c = cur s2 ?k" "disk s3 = disk s2"
    "written s3 = written s2"
    using bread_ok [OF s2(2) holds_key [OF assms(1,2)]] by (metis fst_conv snd_conv)
  have "cur s2 ?k = b_data s b" using s2(3) s1(3) holds_cur [OF assms(1,2)] by simp
  then show ?thesis using s1 s2 s3 by auto
qed

theorem bwrite_brelse_read_witness:
  "\<exists>b s. bread 2 40 (binit zero_bcache) = Inr (b, s) \<and> (\<exists>s1 s2 c s3. bwrite b (set_data b [1, 2] s) = Inr s1 \<and>
     brelse b s1 = Inr s2 \<and> bread 2 40 s2 = Inr (c, s3) \<and> b_data s3 c = [1, 2] \<and> disk s3 (2, 40) = [1, 2])"
proof -
  have k: "block_key (2, 40)" by (simp add: block_key_def)
  obtain b s where s: "bread 2 40 (binit zero_bcache) = Inr (b, s)" "bc_inv s" "holds s b (2, 40)"
    "held s = {(2, 40)}" "pinned s = {}"
    by (rule bread_ok [OF boot_bcache(1) k]) (use boot_bcache in auto)
  note d = set_data_ok [OF s(2,3), of "[1, 2]"]
  have "card (insert (2, 40) (held (set_data b [1, 2] s) \<union> pinned (set_data b [1, 2] s))) \<le> NBUF"
    using d(5,6) s(4,5) by simp
  moreover have "holds (set_data b [1, 2] s) b (2, 40)" using d(7) s(3) by blast
  moreover have "b_data (set_data b [1, 2] s) b = [1, 2]" using d(8) by simp
  ultimately show ?thesis using bwrite_brelse_read [OF d(1), of b 2 40] s(1) by (metis fun_upd_same)
qed

text \<open>
  Exhaustion.  When all 30 buffers are locked or pinned, reading a block that is not cached panics;
  since the log may pin 30 blocks (\<^verbatim>\<open>LOGSIZE\<close> is \<^verbatim>\<open>NBUF\<close>), a full transaction leaves no buffer to copy it
  through.
\<close>

theorem bread_no_buffers:
  assumes "bc_inv s" and "dev \<noteq> 0" and "\<forall>b \<in> bufs. b_locked s b \<or> b_dirty s b"
    and "\<forall>b \<in> bufs. bkey s b \<noteq> (dev, blockno)"
  shows "bread dev blockno s = Inl (Panic ''bget: no buffers'')"
proof -
  obtain xs where xs: "dlist s xs" "set xs = bufs" using assms(1) by (auto simp: bc_inv_def)
  have "find_node (b_next s) (\<lambda>c. b_dev s c = dev \<and> b_blockno s c = blockno) 0 (b_next s 0) [] = Inr (last (0 # xs), 0)"
    using xs assms(4) by (intro find_node_absent) (auto simp: dlist_def bkey_def)
  moreover have "find_node (b_prev s) (\<lambda>b. b_refcnt s b = 0 \<and> \<not> b_dirty s b) 0 (b_prev s 0) [] = Inr (last (0 # rev xs), 0)"
    using xs assms(1,3) by (intro find_node_absent) (auto simp: dlist_def bc_inv_def buf_ok_def)
  ultimately show ?thesis by (simp add: bread_def bget_def)
qed

text \<open>A state with the first \<open>n\<close> blocks of the root device pinned.\<close>

lemma pin_blocks:
  "n \<le> NBUF \<Longrightarrow> \<exists>s. bc_inv s \<and> held s = {} \<and> pinned s = (\<lambda>i. (1, of_nat i)) ` {..<n}"
proof (induction n)
  case 0
  then show ?case using boot_bcache by auto
next
  case (Suc n)
  let ?k = "(1, of_nat n) :: u32 \<times> u32"
  obtain s where s: "bc_inv s" "held s = {}" "pinned s = (\<lambda>i. (1, of_nat i)) ` {..<n}" using Suc by auto
  have "unat (of_nat n :: u32) = n" using Suc.prems by (intro unat_u32_of_nat) simp
  then have k: "block_key ?k" using Suc.prems by (simp add: block_key_def word_less_nat_alt)
  have "card (insert ?k (held s \<union> pinned s)) \<le> Suc (card (pinned s))" using s(2) by (simp add: card_insert_if)
  also have "\<dots> \<le> Suc n" using card_image_le [of "{..<n}" "\<lambda>i. (1, of_nat i) :: u32 \<times> u32"] s(3) by simp
  finally have room: "card (insert ?k (held s \<union> pinned s)) \<le> NBUF" using Suc.prems by simp
  obtain b s1 where s1: "bc_inv s1" "holds s1 b ?k" "held s1 = {?k}" "pinned s1 = pinned s"
    by (rule bread_ok [OF s(1) k _ room]) (use s(2) in auto)
  note d = set_dirty_ok [OF s1(1,2)]
  have h: "holds (set_dirty b s1) b ?k" using d(7) s1(2) by blast
  obtain s2 where "bc_inv s2" "held s2 = held (set_dirty b s1) - {?k}" "pinned s2 = pinned (set_dirty b s1)"
    by (rule brelse_ok [OF d(1) h]) (use d(9) in auto)
  then show ?case using d(5,6) s1 s(3) by (intro exI [of _ s2]) (auto simp: lessThan_Suc)
qed

theorem bread_no_buffers_witness:
  "\<exists>s. bc_inv s \<and> bread 1 500 s = Inl (Panic ''bget: no buffers'')"
proof -
  let ?f = "\<lambda>i. (1, of_nat i) :: u32 \<times> u32"
  obtain s where s: "bc_inv s" "held s = {}" "pinned s = ?f ` {..<NBUF}" using pin_blocks [of NBUF] by blast
  have u: "unat (of_nat i :: u32) = i" if "i < NBUF" for i using that by (intro unat_u32_of_nat) simp
  have "inj_on ?f {..<NBUF}" by (intro inj_onI) (metis u lessThan_iff prod.inject)
  then have "card (pinned s) = NBUF" by (simp add: s(3) card_image)
  then have "card {b \<in> bufs. b_locked s b \<or> b_dirty s b} = card bufs" using busy_card [OF s(1)] s(2) by simp
  moreover have "{b \<in> bufs. b_locked s b \<or> b_dirty s b} \<subseteq> bufs" by blast
  ultimately have all: "{b \<in> bufs. b_locked s b \<or> b_dirty s b} = bufs"
    using card_subset_eq [OF finite_bufs(1)] by blast
  have "bkey s b \<noteq> (1, 500)" if "b \<in> bufs" for b
  proof
    assume k: "bkey s b = (1, 500)"
    have "bkey s b \<in> held s \<union> pinned s" using that all by (auto simp: held_def pinned_def)
    then have "(1, 500) \<in> pinned s" unfolding s(2) k by blast
    then have "(1, 500) \<in> ?f ` {..<NBUF}" unfolding s(3) .
    then obtain i where "(1, 500) = ?f i" "i \<in> {..<NBUF}" by (rule imageE)
    then have i: "i < NBUF" "(of_nat i :: u32) = 500" by simp_all
    have "unat (of_nat i :: u32) = 500" unfolding i(2) by simp
    then show False using u [OF i(1)] i(1) by linarith
  qed
  then have key: "\<forall>b \<in> bufs. bkey s b \<noteq> (1, 500)" by blast
  have busy: "\<forall>b \<in> bufs. b_locked s b \<or> b_dirty s b" using all by blast
  have "bread 1 500 s = Inl (Panic ''bget: no buffers'')" by (rule bread_no_buffers [OF s(1) _ busy key]) simp
  with s(1) show ?thesis by blast
qed

end
