(* ===== verification/Log.thy ===== *)
theory Log
  imports Bio
begin

text \<open>
  The write-ahead log of \<^verbatim>\<open>log.c\<close>.  There are two logs, \<^verbatim>\<open>log\<close> for the root device and \<^verbatim>\<open>nvmelog\<close> for the
  NVMe device; every function of the file has the same text once for each.  Here the text is a
  function on one log and the buffer cache, and the function with the name of the source selects the
  log by the device number.  Waiting in \<^verbatim>\<open>begin_op\<close> is the answer \<open>None\<close>.
\<close>

section \<open>State\<close>

abbreviation (input) MAXOPBLOCKS :: "'a::numeral" where
  "MAXOPBLOCKS \<equiv> 10"

abbreviation (input) LOGSIZE :: "'a::numeral" where
  "LOGSIZE \<equiv> 30"

record log =
  lstart :: int
  lsize :: int
  outstanding :: int
  committing :: bool
  ldev :: u32
  lh_n :: int
  lh_block :: "u32 list"

record logs =
  rootlog :: log
  nvmelog :: log
  cache :: bcache

text \<open>The two guarded copies of a function body.\<close>

definition on_log :: "u32 \<Rightarrow> (log \<times> bcache \<Rightarrow> (log \<times> bcache) result) \<Rightarrow> logs \<Rightarrow> logs result" where
  "on_log dev f s =
     (if dev = ROOTDEV
      then bindE (f (rootlog s, cache s)) (\<lambda>(l, c). Inr (s\<lparr>rootlog := l, cache := c\<rparr>))
      else if dev = NVMEDEV
      then bindE (f (nvmelog s, cache s)) (\<lambda>(l, c). Inr (s\<lparr>nvmelog := l, cache := c\<rparr>))
      else Inr s)"

section \<open>Header and blocks\<close>

definition install_body :: "nat \<Rightarrow> log \<times> bcache \<Rightarrow> (log \<times> bcache) result" where
  "install_body tail = (\<lambda>(l, c).
     bindE (bread (ldev l) (word_of_int (lstart l + int tail + 1)) c) (\<lambda>(lbuf, c1).
     bindE (aget (lh_block l) tail) (\<lambda>home.
     bindE (bread (ldev l) home c1) (\<lambda>(dbuf, c2).
     bindE (bwrite dbuf (set_data dbuf (b_data c2 lbuf) c2)) (\<lambda>c3.
     bindE (brelse lbuf c3) (\<lambda>c4.
     bindE (brelse dbuf c4) (\<lambda>c5. Inr (l, c5))))))))"

definition install_log :: "log \<times> bcache \<Rightarrow> (log \<times> bcache) result" where
  "install_log = (\<lambda>(l, c). foldE install_body [0..<nat (lh_n l)] (l, c))"

definition install_trans :: "u32 \<Rightarrow> logs \<Rightarrow> logs result" where
  "install_trans dev = on_log dev install_log"

text \<open>The copy of the header entries stays within the array only if the number read is at most its size.\<close>

definition read_head_log :: "log \<times> bcache \<Rightarrow> (log \<times> bcache) result" where
  "read_head_log = (\<lambda>(l, c).
     bindE (bread (ldev l) (word_of_int (lstart l)) c) (\<lambda>(b, c1).
     let lh = b_data c1 b; n = sint (get32 lh 0) in
     if n > LOGSIZE then Inl Wild
     else
       let l1 = l\<lparr>lh_n := n,
                  lh_block := map (\<lambda>i. if int i < n then get32 lh (4 + 4 * i) else lh_block l ! i) [0..<LOGSIZE]\<rparr>
       in bindE (brelse b c1) (\<lambda>c2. Inr (l1, c2))))"

definition read_head :: "u32 \<Rightarrow> logs \<Rightarrow> logs result" where
  "read_head dev = on_log dev read_head_log"

definition head_block :: "log \<Rightarrow> block \<Rightarrow> block" where
  "head_block l d =
     fold (\<lambda>i d. put32 d (4 + 4 * i) (lh_block l ! i)) [0..<nat (lh_n l)] (put32 d 0 (word_of_int (lh_n l)))"

definition write_head_log :: "log \<times> bcache \<Rightarrow> (log \<times> bcache) result" where
  "write_head_log = (\<lambda>(l, c).
     bindE (bread (ldev l) (word_of_int (lstart l)) c) (\<lambda>(b, c1).
     bindE (bwrite b (set_data b (head_block l (b_data c1 b)) c1)) (\<lambda>c2.
     bindE (brelse b c2) (\<lambda>c3. Inr (l, c3)))))"

definition write_head :: "u32 \<Rightarrow> logs \<Rightarrow> logs result" where
  "write_head dev = on_log dev write_head_log"

definition recover_log :: "log \<times> bcache \<Rightarrow> (log \<times> bcache) result" where
  "recover_log s =
     bindE (read_head_log s) (\<lambda>s1.
     bindE (install_log s1) (\<lambda>(l, c).
     write_head_log (l\<lparr>lh_n := 0\<rparr>, c)))"

definition recover_from_log :: "u32 \<Rightarrow> logs \<Rightarrow> logs result" where
  "recover_from_log dev = on_log dev recover_log"

text \<open>\<^verbatim>\<open>initlog\<close>; the super block fields \<^verbatim>\<open>logstart\<close> and \<^verbatim>\<open>nlog\<close> are those that \<^verbatim>\<open>readsb\<close> reads from block 1.\<close>

definition initlog_log :: "u32 \<Rightarrow> log \<times> bcache \<Rightarrow> (log \<times> bcache) result" where
  "initlog_log dev = (\<lambda>(l, c).
     bindE (bread dev 1 c) (\<lambda>(b, c1).
     let sb = b_data c1 b in
     bindE (brelse b c1) (\<lambda>c2.
     recover_log (l\<lparr>lstart := sint (get32 sb 16), lsize := sint (get32 sb 12), ldev := dev\<rparr>, c2))))"

definition initlog :: "u32 \<Rightarrow> logs \<Rightarrow> logs result" where
  "initlog dev = on_log dev (initlog_log dev)"

section \<open>Transactions\<close>

definition begin_op_log :: "log \<Rightarrow> log option" where
  "begin_op_log l =
     (if committing l then None
      else if lh_n l + (outstanding l + 1) * MAXOPBLOCKS > LOGSIZE then None
      else Some (l\<lparr>outstanding := outstanding l + 1\<rparr>))"

definition begin_op :: "u32 \<Rightarrow> logs \<Rightarrow> logs option" where
  "begin_op dev s =
     (if dev = ROOTDEV then map_option (\<lambda>l. s\<lparr>rootlog := l\<rparr>) (begin_op_log (rootlog s))
      else if dev = NVMEDEV then map_option (\<lambda>l. s\<lparr>nvmelog := l\<rparr>) (begin_op_log (nvmelog s))
      else Some s)"

definition write_body :: "nat \<Rightarrow> log \<times> bcache \<Rightarrow> (log \<times> bcache) result" where
  "write_body tail = (\<lambda>(l, c).
     bindE (bread (ldev l) (word_of_int (lstart l + int tail + 1)) c) (\<lambda>(to, c1).
     bindE (aget (lh_block l) tail) (\<lambda>home.
     bindE (bread (ldev l) home c1) (\<lambda>(from, c2).
     bindE (bwrite to (set_data to (b_data c2 from) c2)) (\<lambda>c3.
     bindE (brelse from c3) (\<lambda>c4.
     bindE (brelse to c4) (\<lambda>c5. Inr (l, c5))))))))"

definition write_log_log :: "log \<times> bcache \<Rightarrow> (log \<times> bcache) result" where
  "write_log_log = (\<lambda>(l, c). foldE write_body [0..<nat (lh_n l)] (l, c))"

definition write_log :: "u32 \<Rightarrow> logs \<Rightarrow> logs result" where
  "write_log dev = on_log dev write_log_log"

definition commit_log :: "log \<times> bcache \<Rightarrow> (log \<times> bcache) result" where
  "commit_log s =
     (if lh_n (fst s) > 0
      then bindE (write_log_log s) (\<lambda>s1.
           bindE (write_head_log s1) (\<lambda>s2.
           bindE (install_log s2) (\<lambda>(l, c).
           write_head_log (l\<lparr>lh_n := 0\<rparr>, c))))
      else Inr s)"

definition commit :: "u32 \<Rightarrow> logs \<Rightarrow> logs result" where
  "commit dev = on_log dev commit_log"

definition end_op_log :: "string \<Rightarrow> log \<times> bcache \<Rightarrow> (log \<times> bcache) result" where
  "end_op_log msg = (\<lambda>(l, c).
     let l1 = l\<lparr>outstanding := outstanding l - 1\<rparr> in
     if committing l1 then Inl (Panic msg)
     else if outstanding l1 = 0
     then bindE (commit_log (l1\<lparr>committing := True\<rparr>, c)) (\<lambda>(l2, c2). Inr (l2\<lparr>committing := False\<rparr>, c2))
     else Inr (l1, c))"

definition end_op :: "u32 \<Rightarrow> logs \<Rightarrow> logs result" where
  "end_op dev = on_log dev (end_op_log (if dev = ROOTDEV then ''log.committing'' else ''nvmelog.committing''))"

text \<open>The index at which \<^verbatim>\<open>log_write\<close> stores the block number: that of an equal entry, or the end.\<close>

fun absorb :: "u32 list \<Rightarrow> u32 \<Rightarrow> nat" where
  "absorb [] b = 0"
| "absorb (x # xs) b = (if x = b then 0 else Suc (absorb xs b))"

definition log_write_log :: "u32 \<Rightarrow> log \<times> bcache \<Rightarrow> (log \<times> bcache) result" where
  "log_write_log b = (\<lambda>(l, c).
     if lh_n l \<ge> LOGSIZE \<or> lh_n l \<ge> lsize l - 1 then Inl (Panic ''too big a transaction'')
     else if outstanding l < 1 then Inl (Panic ''log_write outside of trans'')
     else
       let i = absorb (take (nat (lh_n l)) (lh_block l)) (b_blockno c b) in
       bindE (aset (lh_block l) i (b_blockno c b)) (\<lambda>bl.
       Inr (l\<lparr>lh_block := bl, lh_n := (if int i = lh_n l then lh_n l + 1 else lh_n l)\<rparr>, set_dirty b c)))"

definition log_write :: "u32 \<Rightarrow> logs \<Rightarrow> logs result" where
  "log_write b s = on_log (b_dev (cache s) b) (log_write_log b) s"

end
