(* ===== verification/Log_Crash.thy ===== *)
theory Log_Crash
  imports Log
begin

text \<open>
  Crash safety of the log.  The writes that a commit performs are given explicitly; the disk after a
  crash is the disk after a prefix of them; recovery from any such disk yields either all of the
  transaction or nothing of it.
\<close>

section \<open>Sequences of block writes\<close>

definition replay :: "('k \<Rightarrow> 'v) \<Rightarrow> ('k \<times> 'v) list \<Rightarrow> 'k \<Rightarrow> 'v" where
  "replay d ws = fold (\<lambda>(k, v) d. d(k := v)) ws d"

lemma replay_Nil [simp]: "replay d [] = d"
  by (simp add: replay_def)

lemma replay_snoc [simp]: "replay d (ws @ [(k, v)]) = (replay d ws)(k := v)"
  by (simp add: replay_def)

lemma replay_Cons: "replay d ((k, v) # ws) = replay (d(k := v)) ws"
  by (simp add: replay_def)

lemma replay_append: "replay d (xs @ ys) = replay (replay d xs) ys"
  by (simp add: replay_def)

lemma replay_other: "k \<notin> fst ` set ws \<Longrightarrow> replay d ws k = d k"
  by (induction ws rule: rev_induct) (auto simp: image_iff)

lemma replay_map_in:
  "inj_on f (set xs) \<Longrightarrow> x \<in> set xs \<Longrightarrow> replay d (map (\<lambda>x. (f x, g x)) xs) (f x) = g x"
proof (induction xs rule: rev_induct)
  case Nil
  then show ?case by simp
next
  case (snoc y ys)
  then show ?case by (cases "x = y") (auto simp: inj_on_def)
qed

lemma take_keys: "k \<notin> fst ` set ws \<Longrightarrow> k \<notin> fst ` set (take m ws)"
  using set_take_subset [of m ws] by blast

section \<open>Addresses of the log\<close>

definition skey :: "log \<Rightarrow> u32 \<times> u32" where
  "skey l = (ldev l, word_of_int (lstart l))"

definition lkey :: "log \<Rightarrow> nat \<Rightarrow> u32 \<times> u32" where
  "lkey l i = (ldev l, word_of_int (lstart l + int i + 1))"

definition hkey :: "log \<Rightarrow> nat \<Rightarrow> u32 \<times> u32" where
  "hkey l i = (ldev l, lh_block l ! i)"

definition area :: "log \<Rightarrow> (u32 \<times> u32) set" where
  "area l = insert (skey l) (lkey l ` {..<LOGSIZE})"

definition ln :: "log \<Rightarrow> nat" where
  "ln l = nat (lh_n l)"

definition homes :: "log \<Rightarrow> (u32 \<times> u32) set" where
  "homes l = hkey l ` {..<ln l}"

text \<open>The log area lies on the disk; the logged blocks are distinct blocks outside of it.\<close>

definition log_ok :: "log \<Rightarrow> bool" where
  "log_ok l \<longleftrightarrow> ldev l \<in> {ROOTDEV, NVMEDEV} \<and> 0 \<le> lstart l \<and> lstart l + LOGSIZE < FSSIZE \<and>
     length (lh_block l) = LOGSIZE \<and> 0 \<le> lh_n l \<and> lh_n l \<le> LOGSIZE \<and> inj_on (hkey l) {..<ln l} \<and>
     (\<forall>i < ln l. block_key (hkey l i) \<and> hkey l i \<notin> area l)"

lemma uint_small: "0 \<le> i \<Longrightarrow> i < FSSIZE \<Longrightarrow> uint (word_of_int i :: u32) = i"
  by (simp add: uint_word_of_int)

lemma log_ok_blocks:
  assumes "log_ok l"
  shows "block_key (skey l)" and "i < LOGSIZE \<Longrightarrow> block_key (lkey l i)" and "i < LOGSIZE \<Longrightarrow> lkey l i \<noteq> skey l"
    and "inj_on (lkey l) {..<LOGSIZE}" and "ln l \<le> LOGSIZE"
proof -
  have b: "0 \<le> lstart l" "lstart l + LOGSIZE < FSSIZE" "ldev l \<in> {ROOTDEV, NVMEDEV}" "lh_n l \<le> LOGSIZE"
    using assms by (auto simp: log_ok_def)
  have u: "uint (word_of_int (lstart l) :: u32) = lstart l"
    "\<And>i. i < LOGSIZE \<Longrightarrow> uint (word_of_int (lstart l + int i + 1) :: u32) = lstart l + int i + 1"
    using b by (intro uint_small; linarith)+
  show "block_key (skey l)" using b u by (simp add: block_key_def skey_def word_less_def)
  show "block_key (lkey l i)" if "i < LOGSIZE" using b u(2) [OF that] that
    by (simp add: block_key_def lkey_def word_less_def)
  show "lkey l i \<noteq> skey l" if "i < LOGSIZE"
    using u(1) u(2) [OF that] by (auto simp: lkey_def skey_def word_uint_eq_iff)
  show "inj_on (lkey l) {..<LOGSIZE}"
  proof (rule inj_onI)
    fix i j assume ij: "i \<in> {..<LOGSIZE}" "j \<in> {..<LOGSIZE}" and eq: "lkey l i = lkey l j"
    then have "lstart l + int i + 1 = lstart l + int j + 1" using u(2) by (metis lessThan_iff lkey_def prod.inject)
    then show "i = j" by simp
  qed
  show "ln l \<le> LOGSIZE" using b by (simp add: ln_def)
qed

lemma log_ok_home:
  assumes "log_ok l" and "i < ln l"
  shows "block_key (hkey l i)" and "hkey l i \<noteq> skey l" and "j < LOGSIZE \<Longrightarrow> hkey l i \<noteq> lkey l j"
    and "aget (lh_block l) i = Inr (snd (hkey l i))"
proof -
  have "block_key (hkey l i)" "hkey l i \<notin> area l" "length (lh_block l) = LOGSIZE" using assms by (auto simp: log_ok_def)
  moreover have "i < LOGSIZE" using assms log_ok_blocks(5) [OF assms(1)] by simp
  ultimately show "block_key (hkey l i)" "hkey l i \<noteq> skey l" "j < LOGSIZE \<Longrightarrow> hkey l i \<noteq> lkey l j"
    "aget (lh_block l) i = Inr (snd (hkey l i))" by (auto simp: area_def hkey_def)
qed

section \<open>What the loops write\<close>

text \<open>\<open>c'\<close> is \<open>c\<close> after the writes \<open>ws\<close>, through the cache and on the disk, with nothing held.\<close>

definition after :: "bcache \<Rightarrow> ((u32 \<times> u32) \<times> block) list \<Rightarrow> bcache \<Rightarrow> bool" where
  "after c ws c' \<longleftrightarrow> bc_inv c' \<and> held c' = {} \<and> cur c' = replay (cur c) ws \<and> disk c' = replay (disk c) ws \<and>
     written c' = written c @ ws"

lemma after_trans: "after c xs c1 \<Longrightarrow> after c1 ys c2 \<Longrightarrow> after c (xs @ ys) c2"
  by (simp add: after_def replay_append)

lemma write_body_copy:
  "aget (lh_block l) i = Inr (snd (hkey l i)) \<Longrightarrow> write_body i (l, c) =
     bindE (bindE (bread (fst (lkey l i)) (snd (lkey l i)) c) (\<lambda>(t, s1).
       bindE (bread (fst (hkey l i)) (snd (hkey l i)) s1) (\<lambda>(f, s2).
       bindE (bwrite t (set_data t (b_data s2 f) s2)) (\<lambda>s3. bindE (brelse f s3) (brelse t))))) (\<lambda>c5. Inr (l, c5))"
  by (simp add: write_body_def bindE_assoc lkey_def hkey_def case_prod_unfold)

lemma install_body_copy:
  "aget (lh_block l) i = Inr (snd (hkey l i)) \<Longrightarrow> install_body i (l, c) =
     bindE (bindE (bread (fst (lkey l i)) (snd (lkey l i)) c) (\<lambda>(f, s1).
       bindE (bread (fst (hkey l i)) (snd (hkey l i)) s1) (\<lambda>(t, s2).
       bindE (bwrite t (set_data t (b_data s2 f) s2)) (\<lambda>s3. bindE (brelse f s3) (brelse t))))) (\<lambda>c5. Inr (l, c5))"
  by (simp add: install_body_def bindE_assoc lkey_def hkey_def case_prod_unfold)

definition log_writes :: "log \<Rightarrow> bcache \<Rightarrow> nat \<Rightarrow> ((u32 \<times> u32) \<times> block) list" where
  "log_writes l c n = map (\<lambda>i. (lkey l i, cur c (hkey l i))) [0..<n]"

definition home_writes :: "log \<Rightarrow> (u32 \<times> u32 \<Rightarrow> block) \<Rightarrow> nat \<Rightarrow> ((u32 \<times> u32) \<times> block) list" where
  "home_writes l d n = map (\<lambda>i. (hkey l i, d (lkey l i))) [0..<n]"

lemma written_keys:
  "fst ` set (log_writes l c n) = lkey l ` {..<n}" "fst ` set (home_writes l d n) = hkey l ` {..<n}"
  by (force simp: log_writes_def home_writes_def)+

lemma write_log_ok:
  assumes ok: "log_ok l" and inv: "bc_inv c" "held c = {}" and pin: "pinned c \<subseteq> homes l"
    and room: "ln l < NBUF"
  shows "\<exists>c'. write_log_log (l, c) = Inr (l, c') \<and> after c (log_writes l c (ln l)) c' \<and> pinned c' = pinned c"
proof -
  define P where "P i s \<longleftrightarrow> fst s = l \<and> after c (log_writes l c i) (snd s) \<and> pinned (snd s) = pinned c" for i s
  have "\<exists>s'. foldE write_body [0..<ln l] (l, c) = Inr s' \<and> P (ln l) s'"
  proof (rule foldE_upt)
    show "P 0 (l, c)" using inv by (simp add: P_def after_def log_writes_def)
    fix i s assume i: "i < ln l" and P: "P i s"
    then obtain c1 where s: "s = (l, c1)" and c1: "after c (log_writes l c i) c1" "pinned c1 = pinned c"
      by (metis P_def prod.collapse)
    have iL: "i < LOGSIZE" using i log_ok_blocks(5) [OF ok] by simp
    note h = log_ok_home [OF ok i]
    have "{hkey l i, lkey l i} \<union> pinned c1 \<subseteq> insert (lkey l i) (homes l)" using pin c1(2) i by (auto simp: homes_def)
    then have "card ({hkey l i, lkey l i} \<union> pinned c1) \<le> card (insert (lkey l i) (homes l))"
      by (intro card_mono) (auto simp: homes_def)
    also have "\<dots> \<le> Suc (card (homes l))" by (simp add: card_insert_if homes_def)
    also have "\<dots> \<le> NBUF" using room card_image_le [of "{..<ln l}" "hkey l"] by (simp add: homes_def)
    finally have cap: "card ({hkey l i, lkey l i} \<union> pinned c1) \<le> NBUF" .
    have "bc_inv c1" "held c1 = {}" using c1(1) by (simp_all add: after_def)
    from bc.copy_block(2) [OF this(1) h(1) log_ok_blocks(2) [OF ok iL] h(3) [OF iL] this(2) _ cap]
    obtain c2 where c2: "write_body i (l, c1) = Inr (l, c2)" "bc_inv c2" "held c2 = {}"
      "cur c2 = (cur c1)(lkey l i := cur c1 (hkey l i))" "disk c2 = (disk c1)(lkey l i := cur c1 (hkey l i))"
      "written c2 = written c1 @ [(lkey l i, cur c1 (hkey l i))]" "pinned c2 = pinned c1 - {lkey l i}"
      using write_body_copy [OF h(4), of c1] by auto
    have "hkey l i \<noteq> lkey l j" if "j < i" for j using h(3) [of j] that iL by simp
    then have "hkey l i \<notin> fst ` set (log_writes l c i)" unfolding written_keys by blast
    then have "cur c1 (hkey l i) = cur c (hkey l i)" using c1(1) by (simp add: after_def replay_other)
    then have "after c (log_writes l c (Suc i)) c2" using c1(1) c2 by (simp add: after_def log_writes_def)
    moreover have "lkey l i \<notin> pinned c1" using pin c1(2) log_ok_home(3) [OF ok _ iL] by (force simp: homes_def)
    ultimately show "\<exists>s'. write_body i s = Inr s' \<and> P (Suc i) s'"
      using c2 c1(2) s by (auto simp: P_def)
  qed
  then show ?thesis by (auto simp: write_log_log_def P_def ln_def)
qed

lemma install_log_ok:
  assumes ok: "log_ok l" and inv: "bc_inv c" "held c = {}" and pin: "pinned c \<subseteq> homes l"
    and room: "pinned c = {} \<or> ln l < NBUF"
  shows "\<exists>c'. install_log (l, c) = Inr (l, c') \<and> after c (home_writes l (cur c) (ln l)) c' \<and> pinned c' = {}"
proof -
  define P where "P i s \<longleftrightarrow> fst s = l \<and> after c (home_writes l (cur c) i) (snd s) \<and>
    pinned (snd s) = pinned c - hkey l ` {..<i}" for i s
  have "\<exists>s'. foldE install_body [0..<ln l] (l, c) = Inr s' \<and> P (ln l) s'"
  proof (rule foldE_upt)
    show "P 0 (l, c)" using inv by (simp add: P_def after_def home_writes_def)
    fix i s assume i: "i < ln l" and P: "P i s"
    then obtain c1 where s: "s = (l, c1)" and c1: "after c (home_writes l (cur c) i) c1"
      "pinned c1 = pinned c - hkey l ` {..<i}" by (metis P_def prod.collapse)
    have iL: "i < LOGSIZE" using i log_ok_blocks(5) [OF ok] by simp
    note h = log_ok_home [OF ok i]
    have cap: "card ({lkey l i, hkey l i} \<union> pinned c1) \<le> NBUF"
    proof (cases "pinned c = {}")
      case True
      then show ?thesis using c1(2) by (simp add: card_insert_if)
    next
      case False
      have "{lkey l i, hkey l i} \<union> pinned c1 \<subseteq> insert (lkey l i) (homes l)" using pin c1(2) i by (auto simp: homes_def)
      then have "card ({lkey l i, hkey l i} \<union> pinned c1) \<le> card (insert (lkey l i) (homes l))"
        by (intro card_mono) (auto simp: homes_def)
      also have "\<dots> \<le> Suc (card (homes l))" by (simp add: card_insert_if homes_def)
      also have "\<dots> \<le> NBUF" using room False card_image_le [of "{..<ln l}" "hkey l"] by (simp add: homes_def)
      finally show ?thesis .
    qed
    have "bc_inv c1" "held c1 = {}" using c1(1) by (simp_all add: after_def)
    from bc.copy_block(1) [OF this(1) log_ok_blocks(2) [OF ok iL] h(1) h(3) [OF iL, symmetric] this(2) _ cap]
    obtain c2 where c2: "install_body i (l, c1) = Inr (l, c2)" "bc_inv c2" "held c2 = {}"
      "cur c2 = (cur c1)(hkey l i := cur c1 (lkey l i))" "disk c2 = (disk c1)(hkey l i := cur c1 (lkey l i))"
      "written c2 = written c1 @ [(hkey l i, cur c1 (lkey l i))]" "pinned c2 = pinned c1 - {hkey l i}"
      using install_body_copy [OF h(4), of c1] by auto
    have "lkey l i \<noteq> hkey l j" if "j < i" for j using log_ok_home(3) [OF ok _ iL, of j] that i by simp
    then have "lkey l i \<notin> fst ` set (home_writes l (cur c) i)" unfolding written_keys by blast
    then have "cur c1 (lkey l i) = cur c (lkey l i)" using c1(1) by (simp add: after_def replay_other)
    then have "after c (home_writes l (cur c) (Suc i)) c2" using c1(1) c2 by (simp add: after_def home_writes_def)
    moreover have "pinned c2 = pinned c - hkey l ` {..<Suc i}" using c2(7) c1(2) by (auto simp: lessThan_Suc)
    ultimately show "\<exists>s'. install_body i s = Inr s' \<and> P (Suc i) s'" using c2(1) s by (auto simp: P_def)
  qed
  then show ?thesis using pin by (auto simp: install_log_def P_def ln_def homes_def)
qed

lemma write_head_ok:
  assumes ok: "log_ok l" and inv: "bc_inv c" "held c = {}" and pin: "pinned c \<subseteq> homes l" and room: "ln l < NBUF \<or> pinned c = {}"
  shows "\<exists>c'. write_head_log (l, c) = Inr (l, c') \<and> after c [(skey l, head_block l (cur c (skey l)))] c' \<and>
    pinned c' = pinned c"
proof -
  have fin: "finite (homes l)" by (simp add: homes_def)
  have cap: "card (insert (skey l) (pinned c)) \<le> NBUF"
  proof (cases "pinned c = {}")
    case False
    have "card (pinned c) \<le> card (homes l)" using pin fin by (rule card_mono [rotated])
    also have "\<dots> \<le> ln l" using card_image_le [of "{..<ln l}" "hkey l"] by (simp add: homes_def)
    finally show ?thesis using room False by (simp add: card_insert_if)
  qed simp
  have body: "write_head_log (l, c) = bindE (bindE (bread (fst (skey l)) (snd (skey l)) c) (\<lambda>(b, s1).
      bindE (bwrite b (set_data b (head_block l (b_data s1 b)) s1)) (brelse b))) (\<lambda>c3. Inr (l, c3))"
    by (simp add: write_head_log_def bindE_assoc skey_def case_prod_unfold)
  have "skey l \<notin> pinned c" using pin log_ok_home(2) [OF ok] by (force simp: homes_def)
  then show ?thesis
    using bc.rewrite_block [OF inv(1) log_ok_blocks(1) [OF ok] inv(2) cap, of "head_block l"]
    unfolding body by (auto simp: after_def replay_def)
qed

text \<open>The header, written and read back.\<close>

lemma head_block_fields:
  assumes "length d = BSIZE" and "ln l \<le> LOGSIZE"
  shows "length (head_block l d) = BSIZE" and "get32 (head_block l d) 0 = word_of_int (lh_n l)"
    and "i < ln l \<Longrightarrow> get32 (head_block l d) (4 + 4 * i) = lh_block l ! i"
proof -
  define h where "h n = fold (\<lambda>i d. put32 d (4 + 4 * i) (lh_block l ! i)) [0..<n] (put32 d 0 (word_of_int (lh_n l)))" for n
  have len: "length (h n) = BSIZE" for n by (induction n) (simp_all add: h_def assms(1))
  have n: "get32 (h n) 0 = word_of_int (lh_n l)" for n by (induction n) (simp_all add: h_def assms(1))
  have b: "get32 (h n) (4 + 4 * i) = lh_block l ! i" if "i < n" "n \<le> LOGSIZE" for n
    using that
  proof (induction n)
    case (Suc n)
    have hs: "h (Suc n) = put32 (h n) (4 + 4 * n) (lh_block l ! n)" by (simp add: h_def)
    show ?case using Suc len [of n] by (cases "i = n") (simp_all add: hs)
  qed simp
  have eq: "head_block l d = h (ln l)" by (simp add: head_block_def h_def ln_def)
  show "length (head_block l d) = BSIZE" "get32 (head_block l d) 0 = word_of_int (lh_n l)"
    "i < ln l \<Longrightarrow> get32 (head_block l d) (4 + 4 * i) = lh_block l ! i"
    unfolding eq using len n b assms(2) by auto
qed

section \<open>Commit\<close>

definition commit_writes :: "log \<Rightarrow> bcache \<Rightarrow> ((u32 \<times> u32) \<times> block) list" where
  "commit_writes l c =
     (let h = head_block l (cur c (skey l)) in
      log_writes l c (ln l) @ [(skey l, h)] @ map (\<lambda>i. (hkey l i, cur c (hkey l i))) [0..<ln l] @
      [(skey l, head_block (l\<lparr>lh_n := 0\<rparr>) h)])"

lemma log_ok_cleared: "log_ok l \<Longrightarrow> log_ok (l\<lparr>lh_n := 0\<rparr>)"
  by (simp add: log_ok_def ln_def area_def skey_def lkey_def hkey_def)

lemma cleared_keys [simp]: "skey (l\<lparr>lh_n := n\<rparr>) = skey l" "lkey (l\<lparr>lh_n := n\<rparr>) = lkey l" "hkey (l\<lparr>lh_n := n\<rparr>) = hkey l"
  by (auto simp: skey_def lkey_def hkey_def)

lemma commit_log_ok:
  assumes ok: "log_ok l" and n: "0 < lh_n l" and inv: "bc_inv c" "held c = {}" and pin: "pinned c \<subseteq> homes l"
    and room: "ln l < NBUF"
  shows "\<exists>c'. commit_log (l, c) = Inr (l\<lparr>lh_n := 0\<rparr>, c') \<and> after c (commit_writes l c) c' \<and> pinned c' = {}"
proof -
  let ?h = "head_block l (cur c (skey l))" and ?A = "log_writes l c (ln l)"
  obtain c1 where c1: "write_log_log (l, c) = Inr (l, c1)" "after c ?A c1" "pinned c1 = pinned c"
    using write_log_ok [OF ok inv pin room] by blast
  have i1: "bc_inv c1" "held c1 = {}" "pinned c1 \<subseteq> homes l" using c1 pin by (simp_all add: after_def)
  have "lkey l i \<noteq> skey l" if "i < ln l" for i using log_ok_blocks(3) [OF ok, of i] log_ok_blocks(5) [OF ok] that by simp
  then have "skey l \<notin> fst ` set ?A" unfolding written_keys by (metis imageE lessThan_iff)
  then have cs1: "cur c1 (skey l) = cur c (skey l)" using c1(2) by (simp add: after_def replay_other)
  obtain c2 where c2: "write_head_log (l, c1) = Inr (l, c2)" "after c1 [(skey l, ?h)] c2" "pinned c2 = pinned c1"
    using write_head_ok [OF ok i1] room cs1 by auto
  have i2: "bc_inv c2" "held c2 = {}" "pinned c2 \<subseteq> homes l" using c2 i1 by (simp_all add: after_def)
  obtain c3 where c3: "install_log (l, c2) = Inr (l, c3)" "after c2 (home_writes l (cur c2) (ln l)) c3" "pinned c3 = {}"
    using install_log_ok [OF ok i2] room by blast
  have cl: "cur c2 (lkey l i) = cur c (hkey l i)" if "i < ln l" for i
  proof -
    have iL: "i < LOGSIZE" using that log_ok_blocks(5) [OF ok] by simp
    have inj: "inj_on (lkey l) (set [0..<ln l])"
      using log_ok_blocks(4,5) [OF ok] by (auto intro: inj_on_subset)
    have "cur c2 (lkey l i) = cur c1 (lkey l i)"
      using c2(2) log_ok_blocks(3) [OF ok iL] by (simp add: after_def replay_def)
    also have "\<dots> = cur c (hkey l i)"
      using c1(2) that replay_map_in [OF inj, of i "cur c"] by (simp add: after_def log_writes_def)
    finally show ?thesis .
  qed
  have B: "home_writes l (cur c2) (ln l) = map (\<lambda>i. (hkey l i, cur c (hkey l i))) [0..<ln l]"
    using cl by (simp add: home_writes_def)
  have "skey l \<notin> fst ` set (home_writes l (cur c2) (ln l))"
    unfolding written_keys using log_ok_home(2) [OF ok] by force
  then have "cur c3 (skey l) = cur c2 (skey l)" using c3(2) by (simp add: after_def replay_other)
  then have cs3: "cur c3 (skey l) = ?h" using c2(2) by (simp add: after_def replay_def)
  have i3: "bc_inv c3" "held c3 = {}" "pinned c3 \<subseteq> homes (l\<lparr>lh_n := 0\<rparr>)" using c3 by (simp_all add: after_def)
  obtain c4 where c4: "write_head_log (l\<lparr>lh_n := 0\<rparr>, c3) = Inr (l\<lparr>lh_n := 0\<rparr>, c4)"
    "after c3 [(skey l, head_block (l\<lparr>lh_n := 0\<rparr>) ?h)] c4" "pinned c4 = pinned c3"
    using write_head_ok [OF log_ok_cleared [OF ok] i3] c3(3) cs3 by auto
  have "after c (?A @ [(skey l, ?h)] @ home_writes l (cur c2) (ln l) @ [(skey l, head_block (l\<lparr>lh_n := 0\<rparr>) ?h)]) c4"
    using after_trans [OF after_trans [OF after_trans [OF c1(2) c2(2)] c3(2)] c4(2)] by simp
  then have "after c (commit_writes l c) c4" by (simp add: commit_writes_def Let_def B)
  moreover have "commit_log (l, c) = Inr (l\<lparr>lh_n := 0\<rparr>, c4)"
    using n c1(1) c2(1) c3(1) c4(1) by (simp add: commit_log_def)
  ultimately show ?thesis using c4(3) c3(3) by blast
qed

section \<open>Recovery\<close>

text \<open>The log as \<^verbatim>\<open>read_head\<close> finds it in a header block.\<close>

definition header_log :: "log \<Rightarrow> block \<Rightarrow> log" where
  "header_log l h = (let n = sint (get32 h 0) in
     l\<lparr>lh_n := n, lh_block := map (\<lambda>i. if int i < n then get32 h (4 + 4 * i) else lh_block l ! i) [0..<LOGSIZE]\<rparr>)"

lemma recover_log_ok:
  assumes inv: "bc_inv c" "held c = {}" "pinned c = {}" and ok: "log_ok (header_log l (disk c (skey l)))"
    (is "log_ok ?l")
  shows "\<exists>c'. recover_log (l, c) = Inr (?l\<lparr>lh_n := 0\<rparr>, c') \<and> bc_inv c' \<and> held c' = {} \<and> pinned c' = {} \<and>
    disk c' = (replay (disk c) (home_writes ?l (disk c) (ln ?l)))
      (skey l := head_block (?l\<lparr>lh_n := 0\<rparr>) (disk c (skey l)))"
proof -
  have cd: "cur c = disk c" using cur_clean [OF inv(1)] inv(2,3) by auto
  have keys: "skey ?l = skey l" by (simp add: header_log_def Let_def skey_def)
  have k: "block_key (skey l)" using log_ok_blocks(1) [OF ok] keys by simp
  have room: "card (insert (skey l) (held c \<union> pinned c)) \<le> NBUF" using inv(2,3) by simp
  obtain b c1 where c1: "bread (fst (skey l)) (snd (skey l)) c = Inr (b, c1)" "bc_inv c1" "holds c1 b (skey l)"
    "b_data c1 b = disk c (skey l)" "disk c1 = disk c" "cur c1 = disk c" "held c1 = {skey l}" "pinned c1 = {}"
    by (rule bread_ok [OF inv(1) k _ room]) (use inv(2,3) cd in auto)
  obtain c2 where c2: "brelse b c1 = Inr c2" "bc_inv c2" "cur c2 = disk c" "disk c2 = disk c" "held c2 = {}" "pinned c2 = {}"
    by (rule brelse_ok [OF c1(2,3)]) (use c1 in auto)
  have "sint (get32 (disk c (skey l)) 0) \<le> LOGSIZE"
    using ok by (simp add: log_ok_def header_log_def Let_def)
  then have rh: "read_head_log (l, c) = Inr (?l, c2)"
    using c1(1,4) c2(1) by (simp add: read_head_log_def header_log_def Let_def skey_def)
  obtain c3 where c3: "install_log (?l, c2) = Inr (?l, c3)" "after c2 (home_writes ?l (cur c2) (ln ?l)) c3" "pinned c3 = {}"
    using install_log_ok [OF ok c2(2,5)] c2(6) by auto
  have i3: "bc_inv c3" "held c3 = {}" "pinned c3 \<subseteq> homes (?l\<lparr>lh_n := 0\<rparr>)" using c3 by (simp_all add: after_def)
  have "skey l \<notin> fst ` set (home_writes ?l (cur c2) (ln ?l))"
    unfolding written_keys using log_ok_home(2) [OF ok] keys by force
  then have cs3: "cur c3 (skey l) = disk c (skey l)" using c3(2) c2(3) by (simp add: after_def replay_other)
  obtain c4 where c4: "write_head_log (?l\<lparr>lh_n := 0\<rparr>, c3) = Inr (?l\<lparr>lh_n := 0\<rparr>, c4)"
    "after c3 [(skey l, head_block (?l\<lparr>lh_n := 0\<rparr>) (disk c (skey l)))] c4" "pinned c4 = {}"
    using write_head_ok [OF log_ok_cleared [OF ok] i3] c3(3) cs3 keys by auto
  have "disk c4 = (replay (disk c) (home_writes ?l (disk c) (ln ?l)))
      (skey l := head_block (?l\<lparr>lh_n := 0\<rparr>) (disk c (skey l)))"
    using c4(2) c3(2) c2(3,4) by (simp add: after_def replay_def)
  then show ?thesis using rh c3(1) c4 by (simp add: recover_log_def after_def)
qed

section \<open>Crashes\<close>

text \<open>What a home block contains after the transaction.\<close>

definition new_disk :: "log \<Rightarrow> bcache \<Rightarrow> u32 \<times> u32 \<Rightarrow> block" where
  "new_disk l c k = (if k \<in> homes l then cur c k else disk c k)"

lemma sint_small: "0 \<le> n \<Longrightarrow> n \<le> LOGSIZE \<Longrightarrow> sint (word_of_int n :: u32) = n"
  by (simp add: sint_uint uint_word_of_int signed_take_bit_eq_take_bit_minus bit_iff_odd take_bit_int_eq_self)

lemma header_log_keys [simp]:
  "skey (header_log l h) = skey l" "lkey (header_log l h) = lkey l" "area (header_log l h) = area l"
proof -
  show k: "skey (header_log l h) = skey l" "lkey (header_log l h) = lkey l"
    by (auto simp: header_log_def skey_def lkey_def Let_def)
  show "area (header_log l h) = area l" by (simp add: area_def k)
qed

lemma header_log_cleared:
  assumes "log_ok l" and "sint (get32 h 0) = 0" and "ldev l0 = ldev l" and "lstart l0 = lstart l"
    and "length (lh_block l0) = LOGSIZE"
  shows "log_ok (header_log l0 h)" and "ln (header_log l0 h) = 0"
  using assms by (auto simp: header_log_def log_ok_def ln_def)

text \<open>A header written by a commit is read back as the log that was committed.\<close>

lemma header_log_committed:
  assumes ok: "log_ok l" and d: "length d = BSIZE" and "ldev l0 = ldev l" and "lstart l0 = lstart l"
  defines "l1 \<equiv> header_log l0 (head_block l d)"
  shows "log_ok l1" and "ln l1 = ln l" and "i < ln l \<Longrightarrow> hkey l1 i = hkey l i"
proof -
  have nL: "ln l \<le> LOGSIZE" using log_ok_blocks(5) [OF ok] .
  note f = head_block_fields [OF d nL]
  have n: "0 \<le> lh_n l" "lh_n l \<le> LOGSIZE" using ok by (simp_all add: log_ok_def)
  have hn: "lh_n l1 = lh_n l" using f(2) sint_small [OF n] by (simp add: l1_def header_log_def Let_def)
  then show n1: "ln l1 = ln l" by (simp add: ln_def)
  have blk: "lh_block l1 ! i = lh_block l ! i" if "i < ln l" for i
  proof -
    have "int i < lh_n l" "i < LOGSIZE" using that nL by (auto simp: ln_def)
    then show ?thesis using f(3) [OF that] by (simp add: l1_def header_log_def Let_def f(2) sint_small [OF n])
  qed
  have fl: "ldev l1 = ldev l" "lstart l1 = lstart l" "length (lh_block l1) = LOGSIZE"
    using assms(3,4) by (simp_all add: l1_def header_log_def Let_def)
  show h: "hkey l1 i = hkey l i" if "i < ln l" for i using blk [OF that] fl(1) by (simp add: hkey_def)
  have "area l1 = area l" using fl by (simp add: area_def skey_def lkey_def [abs_def])
  moreover have "inj_on (hkey l1) {..<ln l}" using ok h by (auto simp: log_ok_def inj_on_def)
  ultimately show "log_ok l1" using ok n1 hn fl h by (auto simp: log_ok_def)
qed

lemma home_not_skey: "log_ok l \<Longrightarrow> skey l \<notin> homes l" "log_ok l \<Longrightarrow> i < LOGSIZE \<Longrightarrow> lkey l i \<notin> homes l"
  using log_ok_home(2,3) by (force simp: homes_def)+

lemma area_keys: "log_ok l \<Longrightarrow> k \<notin> area l \<Longrightarrow> k \<notin> fst ` set (log_writes l c n)" if "n \<le> LOGSIZE"
  using that unfolding written_keys area_def by auto

text \<open>
  Recovery from a disk with a cleared header changes nothing outside the log area; from a disk with a
  committed header it installs the transaction, whatever part of it had been installed before.
\<close>

lemma crash_cleared:
  assumes ok: "log_ok l" and clear: "sint (get32 (disk c0 (skey l)) 0) = 0"
    and l0: "ldev l0 = ldev l" "lstart l0 = lstart l" "length (lh_block l0) = LOGSIZE"
    and c0: "bc_inv c0" "held c0 = {}" "pinned c0 = {}"
  shows "\<exists>l1 c1. recover_log (l0, c0) = Inr (l1, c1) \<and> lh_n l1 = 0 \<and> (\<forall>k. k \<notin> area l \<longrightarrow> disk c1 k = disk c0 k)"
proof -
  have sk: "skey l0 = skey l" using l0 by (simp add: skey_def)
  note h = header_log_cleared [OF ok clear l0]
  have "\<exists>c'. recover_log (l0, c0) = Inr ((header_log l0 (disk c0 (skey l)))\<lparr>lh_n := 0\<rparr>, c') \<and>
      disk c' = (disk c0)(skey l := head_block ((header_log l0 (disk c0 (skey l)))\<lparr>lh_n := 0\<rparr>) (disk c0 (skey l)))"
    using recover_log_ok [OF c0, of l0] h unfolding sk by (auto simp: home_writes_def)
  then show ?thesis by (auto simp: area_def)
qed

lemma crash_after_header:
  assumes ok: "log_ok l" and len: "length (cur c (skey l)) = BSIZE" and d: "\<forall>i < ln l. d (lkey l i) = cur c (hkey l i)"
    and hd: "d (skey l) = head_block l (cur c (skey l))"
    and other: "\<forall>k. k \<notin> area l \<longrightarrow> k \<notin> homes l \<longrightarrow> d k = disk c k"
    and l0: "ldev l0 = ldev l" "lstart l0 = lstart l" "length (lh_block l0) = LOGSIZE"
    and c0: "bc_inv c0" "held c0 = {}" "pinned c0 = {}" "disk c0 = d"
  shows "\<exists>l1 c1. recover_log (l0, c0) = Inr (l1, c1) \<and> lh_n l1 = 0 \<and> (\<forall>k. k \<notin> area l \<longrightarrow> disk c1 k = new_disk l c k)"
proof -
  have sk: "skey l0 = skey l" "lkey l0 = lkey l" using l0 by (auto simp: skey_def lkey_def)
  let ?l = "header_log l0 (head_block l (cur c (skey l)))"
  note h = header_log_committed [OF ok len l0(1,2)]
  have hw: "home_writes ?l d (ln ?l) = map (\<lambda>i. (hkey l i, cur c (hkey l i))) [0..<ln l]"
    using h(2,3) d sk by (simp add: home_writes_def)
  obtain c1 where r: "recover_log (l0, c0) = Inr (?l\<lparr>lh_n := 0\<rparr>, c1)"
    and dk: "disk c1 = (replay d (map (\<lambda>i. (hkey l i, cur c (hkey l i))) [0..<ln l]))
      (skey l := head_block (?l\<lparr>lh_n := 0\<rparr>) (d (skey l)))"
    using recover_log_ok [OF c0(1-3), of l0] h(1) unfolding c0(4) sk hd hw [symmetric] by auto
  have inj: "inj_on (hkey l) (set [0..<ln l])" using ok by (simp add: log_ok_def atLeast0LessThan)
  have "disk c1 k = new_disk l c k" if k: "k \<notin> area l" for k
  proof (cases "k \<in> homes l")
    case True
    then obtain i where i: "i < ln l" "k = hkey l i" by (auto simp: homes_def)
    then show ?thesis using replay_map_in [OF inj, of i d "\<lambda>i. cur c (hkey l i)"] True k
      by (auto simp: dk new_disk_def area_def)
  next
    case False
    then have "k \<notin> fst ` set (map (\<lambda>i. (hkey l i, cur c (hkey l i))) [0..<ln l])" by (auto simp: homes_def)
    then have "disk c1 k = d k" using k by (simp add: dk area_def replay_other del: set_map)
    moreover have "d k = disk c k" using False k other by blast
    ultimately show ?thesis using False by (simp add: new_disk_def)
  qed
  with r show ?thesis by auto
qed

text \<open>The disk after a prefix of the writes of a commit.\<close>

lemma commit_prefix:
  assumes ok: "log_ok l" and len: "length (cur c (skey l)) = BSIZE" and clear: "sint (get32 (disk c (skey l)) 0) = 0"
  defines "d m \<equiv> replay (disk c) (take m (commit_writes l c))"
  shows "m \<le> ln l \<Longrightarrow> sint (get32 (d m (skey l)) 0) = 0 \<and> (\<forall>k. k \<notin> area l \<longrightarrow> d m k = disk c k)"
    and "ln l < m \<Longrightarrow> m \<le> 2 * ln l + 1 \<Longrightarrow> d m (skey l) = head_block l (cur c (skey l)) \<and>
      (\<forall>i < ln l. d m (lkey l i) = cur c (hkey l i)) \<and> (\<forall>k. k \<notin> area l \<longrightarrow> k \<notin> homes l \<longrightarrow> d m k = disk c k)"
    and "2 * ln l + 1 < m \<Longrightarrow> sint (get32 (d m (skey l)) 0) = 0 \<and> (\<forall>k. k \<notin> area l \<longrightarrow> d m k = new_disk l c k)"
proof -
  let ?n = "ln l" and ?h = "head_block l (cur c (skey l))"
  let ?A = "log_writes l c (ln l)" and ?B = "map (\<lambda>i. (hkey l i, cur c (hkey l i))) [0..<ln l]"
  let ?z = "head_block (l\<lparr>lh_n := 0\<rparr>) ?h"
  have nL: "?n \<le> LOGSIZE" using log_ok_blocks(5) [OF ok] .
  have W: "commit_writes l c = ?A @ (skey l, ?h) # ?B @ [(skey l, ?z)]" by (simp add: commit_writes_def Let_def)
  have lenA: "length ?A = ?n" by (simp add: log_writes_def)
  have ls: "lkey l i \<noteq> skey l" if "i < ?n" for i using log_ok_blocks(3) [OF ok, of i] nL that by simp
  then have skA: "skey l \<notin> fst ` set ?A" unfolding written_keys by (metis imageE lessThan_iff)
  have B: "fst ` set ?B = homes l" by (force simp: homes_def)
  have out: "k \<notin> fst ` set ?A" if "k \<notin> area l" for k using area_keys [OF nL ok that] .
  show "sint (get32 (d m (skey l)) 0) = 0 \<and> (\<forall>k. k \<notin> area l \<longrightarrow> d m k = disk c k)" if "m \<le> ?n"
  proof -
    have t: "take m (commit_writes l c) = take m ?A" using that lenA by (simp add: W)
    have "d m k = disk c k" if "k \<notin> fst ` set ?A" for k
      unfolding d_def t by (rule replay_other [OF take_keys [OF that]])
    then show ?thesis using clear skA out by simp
  qed
  show "d m (skey l) = ?h \<and> (\<forall>i < ?n. d m (lkey l i) = cur c (hkey l i)) \<and>
      (\<forall>k. k \<notin> area l \<longrightarrow> k \<notin> homes l \<longrightarrow> d m k = disk c k)" if "?n < m" "m \<le> 2 * ?n + 1"
  proof -
    define j where "j = m - Suc ?n"
    have m: "m = Suc (?n + j)" "j \<le> ?n" using that by (simp_all add: j_def)
    have "take m (commit_writes l c) = ?A @ (skey l, ?h) # take j ?B" using m lenA by (simp add: W)
    then have dm: "d m = replay ((replay (disk c) ?A)(skey l := ?h)) (take j ?B)"
      by (simp add: d_def replay_append replay_Cons)
    have subB: "k \<notin> fst ` set (take j ?B)" if "k \<notin> homes l" for k
      by (rule take_keys) (simp only: B that not_False_eq_True)
    have inj: "inj_on (lkey l) (set [0..<?n])" using log_ok_blocks(4) [OF ok] nL by (auto intro: inj_on_subset)
    have "d m (lkey l i) = cur c (hkey l i)" if i: "i < ?n" for i
      using i subB [OF home_not_skey(2) [OF ok, of i]] ls [OF i] nL
        replay_map_in [OF inj, of i "disk c" "\<lambda>i. cur c (hkey l i)"]
      by (simp add: dm replay_other log_writes_def)
    moreover have "d m (skey l) = ?h" using subB [OF home_not_skey(1) [OF ok]] by (simp add: dm replay_other)
    moreover have "d m k = disk c k" if "k \<notin> area l" "k \<notin> homes l" for k
      using subB [OF that(2)] out [OF that(1)] that(1) by (simp add: dm replay_other area_def)
    ultimately show ?thesis by blast
  qed
  show "sint (get32 (d m (skey l)) 0) = 0 \<and> (\<forall>k. k \<notin> area l \<longrightarrow> d m k = new_disk l c k)" if "2 * ?n + 1 < m"
  proof -
    have "take m (commit_writes l c) = commit_writes l c" using that lenA by (simp add: W)
    then have dm: "d m = (replay ((replay (disk c) ?A)(skey l := ?h)) ?B)(skey l := ?z)"
      by (simp add: d_def W replay_append replay_Cons)
    have inj: "inj_on (hkey l) (set [0..<?n])" using ok by (simp add: log_ok_def atLeast0LessThan)
    have "length ?h = BSIZE" using head_block_fields(1) [OF len nL] .
    then have z: "get32 ?z 0 = 0" using head_block_fields(2) [of ?h "l\<lparr>lh_n := 0\<rparr>"] by (simp add: ln_def)
    have "d m k = new_disk l c k" if k: "k \<notin> area l" for k
    proof (cases "k \<in> homes l")
      case True
      then obtain i where "i < ?n" "k = hkey l i" by (auto simp: homes_def)
      with True k replay_map_in [OF inj, of i _ "\<lambda>i. cur c (hkey l i)"] show ?thesis
        by (auto simp: dm new_disk_def area_def)
    next
      case False
      then show ?thesis using k out [OF k] B by (simp add: dm new_disk_def area_def replay_other del: set_map)
    qed
    with z show ?thesis by (simp add: dm)
  qed
qed

section \<open>Reservation and absorption\<close>

text \<open>
  The in-memory header in a transaction: the operations in progress have room for ten blocks each, and
  the blocks logged are distinct.
\<close>

definition trans_ok :: "log \<Rightarrow> bool" where
  "trans_ok l \<longleftrightarrow> length (lh_block l) = LOGSIZE \<and> 0 \<le> lh_n l \<and> lh_n l \<le> LOGSIZE \<and> 0 \<le> outstanding l \<and>
     distinct (take (nat (lh_n l)) (lh_block l))"

lemma absorb_spec:
  "absorb xs b \<le> length xs" "absorb xs b < length xs \<Longrightarrow> xs ! absorb xs b = b"
  "absorb xs b = length xs \<longleftrightarrow> b \<notin> set xs"
  by (induction xs) auto

lemma log_write_log_ok:
  fixes b :: u32 and c :: bcache
  assumes ok: "trans_ok l" and n: "lh_n l < LOGSIZE" "lh_n l < lsize l - 1" and out: "1 \<le> outstanding l"
  defines "xs \<equiv> take (nat (lh_n l)) (lh_block l)" and "x \<equiv> b_blockno c b"
  shows "\<exists>l'. log_write_log b (l, c) = Inr (l', set_dirty b c) \<and> trans_ok l' \<and>
    take (nat (lh_n l')) (lh_block l') = (if x \<in> set xs then xs else xs @ [x]) \<and>
    outstanding l' = outstanding l \<and> committing l' = committing l \<and> ldev l' = ldev l \<and> lstart l' = lstart l"
proof -
  have len: "length (lh_block l) = LOGSIZE" "0 \<le> lh_n l" "distinct xs" using ok by (simp_all add: trans_ok_def xs_def)
  have lx: "length xs = nat (lh_n l)" using len n by (simp add: xs_def)
  have i: "absorb xs x < LOGSIZE" using absorb_spec(1) [of xs x] lx n(1) by simp
  have step: "log_write_log b (l, c) = Inr (l\<lparr>lh_block := (lh_block l)[absorb xs x := x],
      lh_n := (if int (absorb xs x) = lh_n l then lh_n l + 1 else lh_n l)\<rparr>, set_dirty b c)"
    using n out i len(1) by (simp add: log_write_log_def Let_def xs_def [symmetric] x_def [symmetric])
  have at: "int (absorb xs x) = lh_n l \<longleftrightarrow> x \<notin> set xs" using absorb_spec(3) [of xs x] lx len(2) by auto
  show ?thesis
  proof (cases "x \<in> set xs")
    case True
    then have "absorb xs x < length xs" using absorb_spec(1,3) [of xs x] by (simp add: le_less)
    then have "(lh_block l)[absorb xs x := x] = lh_block l"
      using absorb_spec(2) [of xs x] by (metis xs_def list_update_id nth_take length_take min_less_iff_conj)
    then show ?thesis using step at True ok by (auto simp: xs_def)
  next
    case False
    then have e: "absorb xs x = nat (lh_n l)" using absorb_spec(3) [of xs x] lx by simp
    have "take (Suc (nat (lh_n l))) ((lh_block l)[nat (lh_n l) := x]) = xs @ [x]"
      using len(1) n(1) by (simp add: take_Suc_conv_app_nth xs_def)
    moreover have "nat (lh_n l + 1) = Suc (nat (lh_n l))" using len(2) by simp
    moreover have "distinct (xs @ [x])" using len(3) False by simp
    ultimately show ?thesis
      using step at False e ok n(1) by (intro exI [of _ "l\<lparr>lh_block := (lh_block l)[absorb xs x := x], lh_n := lh_n l + 1\<rparr>"])
        (simp add: trans_ok_def)
  qed
qed

section \<open>Properties\<close>

text \<open>A boot of the machine: a fresh buffer cache on the given disk, and a log set up for the same device and place.\<close>

definition booted_on :: "log \<Rightarrow> log \<Rightarrow> bcache \<Rightarrow> bool" where
  "booted_on l l0 c0 \<longleftrightarrow> ldev l0 = ldev l \<and> lstart l0 = lstart l \<and> length (lh_block l0) = LOGSIZE \<and>
     bc_inv c0 \<and> held c0 = {} \<and> pinned c0 = {}"

text \<open>
  C2. A commit is atomic with respect to crashes.  \<^verbatim>\<open>commit\<close> of \<open>n\<close> logged blocks performs a definite sequence
  of block writes; if the machine stops after any number \<open>m\<close> of them and is started again, then
  \<^verbatim>\<open>recover_from_log\<close> succeeds, and outside the log area the disk is the old one if \<open>m \<le> n\<close> (the header had
  not been written) and the old one with all \<open>n\<close> blocks replaced by their new contents otherwise.
\<close>

theorem commit_crash_atomic:
  assumes "log_ok l" and "0 < lh_n l" and "lh_n l < LOGSIZE" and "bc_inv c" and "held c = {}" and "pinned c \<subseteq> homes l"
    and "length (disk c (skey l)) = BSIZE" and "get32 (disk c (skey l)) 0 = 0"
  shows "\<exists>c' ws. commit_log (l, c) = Inr (l\<lparr>lh_n := 0\<rparr>, c') \<and> written c' = written c @ ws \<and>
    disk c' = replay (disk c) ws \<and> pinned c' = {} \<and>
    (\<forall>m l0 c0. booted_on l l0 c0 \<and> disk c0 = replay (disk c) (take m ws) \<longrightarrow>
      (\<exists>l1 c1. recover_log (l0, c0) = Inr (l1, c1) \<and> lh_n l1 = 0 \<and>
        (\<forall>k. k \<notin> area l \<longrightarrow> disk c1 k = (if int m \<le> lh_n l then disk c k else new_disk l c k))))"
proof -
  have room: "ln l < NBUF" and n0: "int (ln l) = lh_n l" using assms(2,3) by (simp_all add: ln_def)
  have "skey l \<notin> pinned c" using assms(1,6) home_not_skey(1) by blast
  then have cs: "cur c (skey l) = disk c (skey l)" using cur_clean [OF assms(4)] assms(5) by simp
  then have len: "length (cur c (skey l)) = BSIZE" using assms(7) by simp
  have clear: "sint (get32 (disk c (skey l)) 0) = 0" using assms(8) by simp
  note pre = commit_prefix [OF assms(1) len clear]
  obtain c' where c': "commit_log (l, c) = Inr (l\<lparr>lh_n := 0\<rparr>, c')" "after c (commit_writes l c) c'" "pinned c' = {}"
    using commit_log_ok [OF assms(1,2,4,5,6) room] by blast
  have "\<exists>l1 c1. recover_log (l0, c0) = Inr (l1, c1) \<and> lh_n l1 = 0 \<and>
      (\<forall>k. k \<notin> area l \<longrightarrow> disk c1 k = (if int m \<le> lh_n l then disk c k else new_disk l c k))"
    if b: "booted_on l l0 c0" and d: "disk c0 = replay (disk c) (take m (commit_writes l c))" for m l0 c0
  proof -
    have l0: "ldev l0 = ldev l" "lstart l0 = lstart l" "length (lh_block l0) = LOGSIZE"
      and c0: "bc_inv c0" "held c0 = {}" "pinned c0 = {}" using b by (simp_all add: booted_on_def)
    consider "m \<le> ln l" | "ln l < m" "m \<le> 2 * ln l + 1" | "2 * ln l + 1 < m" by linarith
    then show ?thesis
    proof cases
      case 1
      then show ?thesis using crash_cleared [OF assms(1) _ l0 c0] pre(1) [of m] n0 unfolding d by fastforce
    next
      case 2
      then show ?thesis using crash_after_header [OF assms(1) len _ _ _ l0 c0 d] pre(2) [of m] n0 by fastforce
    next
      case 3
      then show ?thesis using crash_cleared [OF assms(1) _ l0 c0] pre(3) [of m] n0 unfolding d by fastforce
    qed
  qed
  then show ?thesis using c' by (intro exI [of _ c'] exI [of _ "commit_writes l c"]) (simp add: after_def)
qed

definition small_log :: log where
  "small_log = \<lparr>lstart = 2, lsize = 30, outstanding = 0, committing = True, ldev = ROOTDEV, lh_n = 1,
     lh_block = 100 # replicate 29 0\<rparr>"

lemma small_log_ok: "log_ok small_log"
proof -
  have "(100 :: u32) \<noteq> word_of_int (2 + int i + 1)" if "i < LOGSIZE" for i
  proof
    assume "(100 :: u32) = word_of_int (2 + int i + 1)"
    then have "uint (100 :: u32) = uint (word_of_int (2 + int i + 1) :: u32)" by simp
    then show False using uint_small [of "2 + int i + 1"] that by simp
  qed
  then show ?thesis
    by (auto simp: log_ok_def small_log_def ln_def hkey_def area_def skey_def lkey_def block_key_def inj_on_def)
qed

theorem commit_crash_atomic_witness:
  "\<exists>c' ws. commit_log (small_log, binit zero_bcache) = Inr (small_log\<lparr>lh_n := 0\<rparr>, c') \<and>
     (\<forall>m l0 c0. booted_on small_log l0 c0 \<and> disk c0 = replay (\<lambda>_. replicate BSIZE 0) (take m ws) \<longrightarrow>
       (\<exists>l1 c1. recover_log (l0, c0) = Inr (l1, c1) \<and> lh_n l1 = 0))"
proof -
  have "length (disk (binit zero_bcache) (skey small_log)) = BSIZE" "get32 (disk (binit zero_bcache) (skey small_log)) 0 = 0"
    by (simp_all add: boot_bcache get32_def get8_def)
  then show ?thesis
    using commit_crash_atomic [OF small_log_ok _ _ boot_bcache(1,2)] boot_bcache(3,4)
    by (auto simp: small_log_def) blast
qed

text \<open>
  Absorption.  Within a transaction \<^verbatim>\<open>log_write\<close> pins the buffer and records its block number once: the
  list of logged blocks gets the number at its end unless it is there already, so that it stays free of
  duplicates.
\<close>

theorem log_write_absorbs:
  assumes "trans_ok l" and "lh_n l < LOGSIZE" and "lh_n l < lsize l - 1" and "1 \<le> outstanding l"
  shows "\<exists>l'. log_write_log b (l, c) = Inr (l', set_dirty b c) \<and> trans_ok l' \<and>
    take (nat (lh_n l')) (lh_block l') =
      (let xs = take (nat (lh_n l)) (lh_block l)
       in if b_blockno c b \<in> set xs then xs else xs @ [b_blockno c b])"
  using log_write_log_ok [OF assms, of b c] by (auto simp: Let_def)

theorem log_write_absorbs_witness:
  "\<exists>l'. log_write_log 1 (small_log\<lparr>outstanding := 1\<rparr>, zero_bcache) = Inr (l', set_dirty 1 zero_bcache) \<and>
     take (nat (lh_n l')) (lh_block l') = [100, 0]"
  using log_write_absorbs [of "small_log\<lparr>outstanding := 1\<rparr>" 1 zero_bcache]
  by (auto simp: small_log_def trans_ok_def zero_bcache_def Let_def)

section \<open>Concurrent operations\<close>

text \<open>
  Any number of file system calls interleave.  Each call in progress has a budget of the blocks that it
  may still log; a block that is absorbed costs nothing.
\<close>

inductive op_step :: "(log \<times> bcache) \<times> nat list \<Rightarrow> (log \<times> bcache) \<times> nat list \<Rightarrow> bool" where
  start: "begin_op_log l = Some l' \<Longrightarrow> op_step ((l, c), bs) ((l', c), MAXOPBLOCKS # bs)"
| log: "log_write_log b (l, c) = Inr (l', c') \<Longrightarrow>
    op_step ((l, c), us @ Suc k # vs) ((l', c'), us @ (if lh_n l' = lh_n l then Suc k else k) # vs)"
| cached: "op_step ((l, c), bs) ((l, c'), bs)"
| finish: "end_op_log msg (l, c) = Inr (l', c') \<Longrightarrow> op_step ((l, c), us @ k # vs) ((l', c'), us @ vs)"

inductive op_reach :: "(log \<times> bcache) \<times> nat list \<Rightarrow> bool" where
  init: "length (lh_block l) = LOGSIZE \<Longrightarrow> lh_n l = 0 \<Longrightarrow> outstanding l = 0 \<Longrightarrow> \<not> committing l \<Longrightarrow> op_reach ((l, c), [])"
| step: "op_reach x \<Longrightarrow> op_step x y \<Longrightarrow> op_reach y"

definition op_inv :: "(log \<times> bcache) \<times> nat list \<Rightarrow> bool" where
  "op_inv x \<longleftrightarrow> (case x of ((l, c), bs) \<Rightarrow> trans_ok l \<and> \<not> committing l \<and> outstanding l = int (length bs) \<and>
     (\<forall>k \<in> set bs. k \<le> MAXOPBLOCKS) \<and> lh_n l + int (sum_list bs) \<le> LOGSIZE)"

lemma sum_list_le: "\<forall>k \<in> set bs. k \<le> (m::nat) \<Longrightarrow> sum_list bs \<le> length bs * m"
  by (induction bs) auto

lemma foldE_log:
  assumes "\<And>i l c l' c'. f i (l, c) = Inr (l', c') \<Longrightarrow> l' = l" and "foldE f is (l, c) = Inr (l', c')"
  shows "l' = l"
  using assms(2)
proof (induction "is" arbitrary: c)
  case (Cons i "is")
  then obtain l1 c1 where "f i (l, c) = Inr (l1, c1)" "foldE f is (l1, c1) = Inr (l', c')" by auto
  with Cons.IH assms(1) show ?case by blast
qed simp

lemma commit_log_cleared:
  assumes "commit_log (l, c) = Inr (l', c')" and "0 \<le> lh_n l"
  shows "l' = l\<lparr>lh_n := 0\<rparr>"
proof (cases "lh_n l > 0")
  case False
  with assms have "l' = l" "lh_n l = 0" by (simp_all add: commit_log_def)
  then show ?thesis by simp
next
  case True
  have wb: "u = t" if "write_body i (t, d) = Inr (u, e)" for i t d u e
    using that by (auto simp: write_body_def)
  have ib: "u = t" if "install_body i (t, d) = Inr (u, e)" for i t d u e
    using that by (auto simp: install_body_def)
  have w: "t = l" if "write_log_log (l, c) = Inr (t, d)" for t d
    using that unfolding write_log_log_def prod.case by (rule foldE_log [of write_body, rotated]) (rule wb)
  have i: "t = u" if "install_log (u, d) = Inr (t, e)" for t u d e
    using that unfolding install_log_def prod.case by (rule foldE_log [of install_body, rotated]) (rule ib)
  have h: "t = u" if "write_head_log (u, d) = Inr (t, e)" for t u d e
    using that by (auto simp: write_head_log_def)
  show ?thesis using assms(1) True by (auto simp: commit_log_def dest!: w i h)
qed

lemma op_step_inv: "op_step x y \<Longrightarrow> op_inv x \<Longrightarrow> op_inv y"
proof (induction rule: op_step.induct)
  case (start l l' c bs)
  then have inv: "trans_ok l" "\<not> committing l" "outstanding l = int (length bs)" "\<forall>k \<in> set bs. k \<le> MAXOPBLOCKS"
    and l': "l' = l\<lparr>outstanding := outstanding l + 1\<rparr>" "lh_n l + (outstanding l + 1) * MAXOPBLOCKS \<le> LOGSIZE"
    by (auto simp: op_inv_def begin_op_log_def split: if_splits)
  have "int (sum_list bs) \<le> int (length bs) * MAXOPBLOCKS" using sum_list_le [OF inv(4)] by (metis of_nat_mono of_nat_mult of_nat_numeral)
  with inv l' show ?case by (simp add: op_inv_def trans_ok_def)
next
  case (log b l c l' c' us k vs)
  then have inv: "trans_ok l" "\<not> committing l" "outstanding l = int (length (us @ Suc k # vs))"
    "\<forall>j \<in> set (us @ Suc k # vs). j \<le> MAXOPBLOCKS" "lh_n l + int (sum_list (us @ Suc k # vs)) \<le> LOGSIZE"
    by (simp_all add: op_inv_def)
  have g: "lh_n l < LOGSIZE" "lh_n l < lsize l - 1" "1 \<le> outstanding l"
    using log.hyps by (auto simp: log_write_log_def split: if_splits)
  obtain l1 where l1: "log_write_log b (l, c) = Inr (l1, set_dirty b c)" "trans_ok l1"
    "outstanding l1 = outstanding l" "committing l1 = committing l"
    using log_write_log_ok [OF inv(1) g] by blast
  have eq: "l' = l1" using l1(1) log.hyps by simp
  have "lh_n l' = lh_n l \<or> lh_n l' = lh_n l + 1"
    using log.hyps by (auto simp: log_write_log_def Let_def split: if_splits)
  then show ?case using inv l1 unfolding eq op_inv_def by auto
next
  case (cached l c bs c')
  then show ?case by (simp add: op_inv_def)
next
  case (finish msg l c l' c' us k vs)
  then have inv: "trans_ok l" "\<not> committing l" "outstanding l = int (length (us @ k # vs))"
    "\<forall>j \<in> set (us @ k # vs). j \<le> MAXOPBLOCKS" "lh_n l + int (sum_list (us @ k # vs)) \<le> LOGSIZE"
    by (simp_all add: op_inv_def)
  show ?case
  proof (cases "us @ vs = []")
    case True
    then obtain l2 where "commit_log (l\<lparr>outstanding := 0, committing := True\<rparr>, c) = Inr (l2, c')" "l' = l2\<lparr>committing := False\<rparr>"
      using finish.hyps inv by (auto simp: end_op_log_def Let_def)
    with commit_log_cleared inv(1) have "l' = l\<lparr>outstanding := 0, committing := False, lh_n := 0\<rparr>"
      by (force simp: trans_ok_def)
    with True inv show ?thesis by (simp add: op_inv_def trans_ok_def)
  next
    case False
    then have "0 < length (us @ vs)" by blast
    then have "int (length us) + int (length vs) \<noteq> 0" unfolding length_append by linarith
    then have "l' = l\<lparr>outstanding := outstanding l - 1\<rparr>"
      using finish.hyps inv by (auto simp: end_op_log_def Let_def split: if_splits)
    with inv show ?thesis by (auto simp: op_inv_def trans_ok_def)
  qed
qed

lemma op_reach_inv: "op_reach x \<Longrightarrow> op_inv x"
proof (induction rule: op_reach.induct)
  case (init l c)
  then show ?case by (simp add: op_inv_def trans_ok_def)
next
  case (step x y)
  then show ?case using op_step_inv by blast
qed



text \<open>
  The log that \<^verbatim>\<open>mkfs\<close> makes is one block too small for the reservation: with \<^verbatim>\<open>nlog = LOGSIZE = 30\<close> blocks,
  of which one is the header, \<^verbatim>\<open>begin_op\<close> admits calls with a total budget of 30 blocks and the thirtieth
  distinct block makes \<^verbatim>\<open>log_write\<close> panic.
\<close>

lemma log_write_panics_at_29:
  "log_write_log b (l\<lparr>lsize := 30, lh_n := 29\<rparr>, c) = Inl (Panic ''too big a transaction'')"
  by (simp add: log_write_log_def)

end
