(* ===== verification/Cstring.thy ===== *)
theory Cstring
  imports Bytes
begin

text \<open>
  The string and memory functions of \<^verbatim>\<open>string.c\<close>.  The functions on blocks of memory act on a memory, a map
  from addresses to bytes, and their loops run address by address as the source does, so that
  overlapping ranges mean what they mean there.  The functions on character strings act on the bytes of a
  string up to its terminator; a read at the end of the list is the terminator \<open>0\<close>.
\<close>

type_synonym mem = "u32 \<Rightarrow> u8"
type_synonym cstr = "u8 list"

definition str :: "string \<Rightarrow> cstr" where
  "str = map of_char"

section \<open>Blocks of memory\<close>

text \<open>The string instructions \<^verbatim>\<open>stosl\<close> and \<^verbatim>\<open>stosb\<close>: \<open>n\<close> stores of a word or a byte at ascending addresses.\<close>

fun stosb :: "mem \<Rightarrow> u32 \<Rightarrow> u8 \<Rightarrow> nat \<Rightarrow> mem" where
  "stosb m dst c 0 = m"
| "stosb m dst c (Suc n) = stosb (m(dst := c)) (dst + 1) c n"

fun stosl :: "mem \<Rightarrow> u32 \<Rightarrow> u32 \<Rightarrow> nat \<Rightarrow> mem" where
  "stosl m dst c 0 = m"
| "stosl m dst c (Suc n) =
     stosl (m(dst := ucast c, dst + 1 := ucast (drop_bit 8 c), dst + 2 := ucast (drop_bit 16 c),
              dst + 3 := ucast (drop_bit 24 c))) (dst + 4) c n"

definition memset :: "mem \<Rightarrow> u32 \<Rightarrow> u32 \<Rightarrow> u32 \<Rightarrow> mem" where
  "memset m dst c n =
     (if sint dst mod 4 = 0 \<and> n mod 4 = 0
      then let c = c AND 0xFF
           in stosl m dst (push_bit 24 c OR push_bit 16 c OR push_bit 8 c OR c) (unat (n div 4))
      else stosb m dst (ucast c) (unat n))"

fun memcmp_loop :: "mem \<Rightarrow> u32 \<Rightarrow> u32 \<Rightarrow> nat \<Rightarrow> int" where
  "memcmp_loop m s1 s2 0 = 0"
| "memcmp_loop m s1 s2 (Suc n) =
     (if m s1 \<noteq> m s2 then uint (m s1) - uint (m s2) else memcmp_loop m (s1 + 1) (s2 + 1) n)"

definition memcmp :: "mem \<Rightarrow> u32 \<Rightarrow> u32 \<Rightarrow> u32 \<Rightarrow> int" where
  "memcmp m v1 v2 n = memcmp_loop m v1 v2 (unat n)"

fun copy_up :: "mem \<Rightarrow> u32 \<Rightarrow> u32 \<Rightarrow> nat \<Rightarrow> mem" where
  "copy_up m d s 0 = m"
| "copy_up m d s (Suc n) = copy_up (m(d := m s)) (d + 1) (s + 1) n"

fun copy_down :: "mem \<Rightarrow> u32 \<Rightarrow> u32 \<Rightarrow> nat \<Rightarrow> mem" where
  "copy_down m d s 0 = m"
| "copy_down m d s (Suc n) = copy_down (m(d - 1 := m (s - 1))) (d - 1) (s - 1) n"

definition memmove :: "mem \<Rightarrow> u32 \<Rightarrow> u32 \<Rightarrow> u32 \<Rightarrow> mem" where
  "memmove m dst src n =
     (if src < dst \<and> src + n > dst then copy_down m (dst + n) (src + n) (unat n)
      else copy_up m dst src (unat n))"

definition memcpy :: "mem \<Rightarrow> u32 \<Rightarrow> u32 \<Rightarrow> u32 \<Rightarrow> mem" where
  "memcpy m dst src n = memmove m dst src n"

section \<open>Character strings\<close>

definition peek :: "cstr \<Rightarrow> u8" where
  "peek p = (case p of [] \<Rightarrow> 0 | c # _ \<Rightarrow> c)"

fun strncmp :: "cstr \<Rightarrow> cstr \<Rightarrow> nat \<Rightarrow> int" where
  "strncmp p q 0 = 0"
| "strncmp p q (Suc n) =
     (if peek p \<noteq> 0 \<and> peek p = peek q then strncmp (tl p) (tl q) n else uint (peek p) - uint (peek q))"

text \<open>The \<open>n\<close> bytes that \<^verbatim>\<open>strncpy\<close> stores, and those that \<^verbatim>\<open>safestrcpy\<close> stores.\<close>

fun strncpy :: "cstr \<Rightarrow> nat \<Rightarrow> u8 list" where
  "strncpy t 0 = []"
| "strncpy t (Suc n) = (if peek t \<noteq> 0 then peek t # strncpy (tl t) n else replicate (Suc n) 0)"

fun safestrcpy :: "cstr \<Rightarrow> nat \<Rightarrow> u8 list" where
  "safestrcpy t 0 = []"
| "safestrcpy t (Suc 0) = [0]"
| "safestrcpy t (Suc (Suc n)) = (if peek t \<noteq> 0 then peek t # safestrcpy (tl t) (Suc n) else [0, 0])"

fun strlen :: "cstr \<Rightarrow> nat" where
  "strlen [] = 0"
| "strlen (c # s) = (if c = 0 then 0 else Suc (strlen s))"

section \<open>What the loops compute\<close>

lemma unat_diff_Suc: "a \<noteq> d \<Longrightarrow> unat (a - d) = Suc (unat (a - (d + 1)))" for a d :: "'a::len word"
proof -
  assume "a \<noteq> d"
  then have "a - d \<noteq> 0" by simp
  then have "unat (a - d - 1) = unat (a - d) - 1" "0 < unat (a - d)" by (simp_all add: unat_minus_one unat_gt_0)
  then show ?thesis by (simp add: diff_diff_add)
qed

lemma fill_step: "n \<noteq> 0 \<Longrightarrow> fill (m(dst := c)) (dst + 1) c (n - 1) = fill m dst c n"
proof
  fix a assume "n \<noteq> 0"
  then show "fill (m(dst := c)) (dst + 1) c (n - 1) a = fill m dst c n a"
    using unat_diff_Suc [of a dst] by (cases "a = dst") (auto simp: fill_def)
qed

lemma stosb_fill: "stosb m dst c n = fill m dst c n"
proof (induction n arbitrary: m dst)
  case 0
  then show ?case by (simp add: fill_def)
next
  case (Suc n)
  with fill_step [of "Suc n" m dst c] show ?case by (simp del: fun_upd_apply)
qed

lemma stosl_fill:
  assumes "\<And>i. i \<in> {0, 8, 16, 24} \<Longrightarrow> ucast (drop_bit i w) = c"
  shows "stosl m dst w n = fill m dst c (4 * n)"
proof (induction n arbitrary: m dst)
  case 0
  then show ?case by (simp add: fill_def)
next
  case (Suc n)
  have c: "ucast w = c" "ucast (drop_bit 8 w) = c" "ucast (drop_bit 16 w) = c" "ucast (drop_bit 24 w) = c"
    using assms [of 0] assms [of 8] assms [of 16] assms [of 24] by simp_all
  have "fill m dst c (4 * Suc n) = fill (m(dst := c, dst + 1 := c, dst + 2 := c, dst + 3 := c)) (dst + 4) c (4 * n)"
    using fill_step [of "4 * Suc n" m dst c] fill_step [of "4 * n + 3" "m(dst := c)" "dst + 1" c]
      fill_step [of "4 * n + 2" "m(dst := c, dst + 1 := c)" "dst + 2" c]
      fill_step [of "4 * n + 1" "m(dst := c, dst + 1 := c, dst + 2 := c)" "dst + 3" c]
    by (simp add: add.assoc add.commute [of "4 * n"] del: fun_upd_apply)
  then show ?case by (simp only: stosl.simps c Suc.IH)
qed

lemma byte_spread:
  "i \<in> {0, 8, 16, 24} \<Longrightarrow> ucast (drop_bit i (push_bit 24 w OR push_bit 16 w OR push_bit 8 w OR w)) = (ucast c :: u8)"
  if "w = (c AND 0xFF :: u32)"
proof -
  have w: "bit w n \<longleftrightarrow> n < 8 \<and> bit c n" for n
  proof -
    have m: "(0xFF :: u32) = mask 8" by (simp add: mask_eq_exp_minus_1)
    show ?thesis unfolding that m by (auto simp: bit_simps)
  qed
  assume "i \<in> {0, 8, 16, 24}"
  then show ?thesis by (intro bit_word_eqI) (auto simp: bit_simps w)
qed

lemma copy_up_spec:
  "unat d + n \<le> 2 ^ 32 \<Longrightarrow> unat s + n \<le> 2 ^ 32 \<Longrightarrow> unat d \<le> unat s \<or> unat s + n \<le> unat d \<Longrightarrow>
   copy_up m d s n a = (if unat d \<le> unat a \<and> unat a < unat d + n then m (s + (a - d)) else m a)"
proof (induction n arbitrary: m d s)
  case (Suc n)
  show ?case
  proof (cases "n = 0")
    case True
    moreover have "a = d \<longleftrightarrow> unat a = unat d" by (simp add: word_unat_eq_iff)
    ultimately show ?thesis by auto
  next
    case False
    then have u: "unat (d + 1) = unat d + 1" "unat (s + 1) = unat s + 1"
      using Suc.prems by (simp_all add: unat_word_ariths)
    have IH: "copy_up (m(d := m s)) (d + 1) (s + 1) n a =
      (if unat (d + 1) \<le> unat a \<and> unat a < unat (d + 1) + n then (m(d := m s)) (s + 1 + (a - (d + 1))) else (m(d := m s)) a)"
      using Suc.prems u by (intro Suc.IH) auto
    have e: "s + 1 + (a - (d + 1)) = s + (a - d)" by simp
    have "s + (a - d) \<noteq> d" if *: "unat d + 1 \<le> unat a" "unat a < unat d + 1 + n"
    proof
      assume eq: "s + (a - d) = d"
      have "unat (a - d) = unat a - unat d" using * by (simp add: unat_sub word_le_nat_alt)
      then have "unat (s + (a - d)) = unat s + (unat a - unat d)"
        using * Suc.prems by (simp add: unat_word_ariths)
      then have "unat d = unat s + (unat a - unat d)" unfolding eq .
      with * Suc.prems show False by linarith
    qed
    moreover have "a = d \<longleftrightarrow> unat a = unat d" by (simp add: word_unat_eq_iff)
    ultimately show ?thesis using IH unfolding copy_up.simps e u by auto
  qed
qed auto

lemma copy_down_spec:
  "n \<le> unat d \<Longrightarrow> n \<le> unat s \<Longrightarrow> unat s < unat d \<Longrightarrow>
   copy_down m d s n a = (if unat d - n \<le> unat a \<and> unat a < unat d then m (s + (a - d)) else m a)"
proof (induction n arbitrary: m d s)
  case (Suc n)
  have nz: "d \<noteq> 0" "s \<noteq> 0" using Suc.prems by auto
  then have u: "unat (d - 1) = unat d - 1" "unat (s - 1) = unat s - 1" by (simp_all add: unat_minus_one)
  have IH: "copy_down (m(d - 1 := m (s - 1))) (d - 1) (s - 1) n a =
    (if unat (d - 1) - n \<le> unat a \<and> unat a < unat (d - 1) then (m(d - 1 := m (s - 1))) (s - 1 + (a - (d - 1)))
     else (m(d - 1 := m (s - 1))) a)"
    using Suc.prems u by (intro Suc.IH) auto
  have e: "s - 1 + (a - (d - 1)) = s + (a - d)" by simp
  have "s + (a - d) \<noteq> d - 1" if *: "unat d - 1 - n \<le> unat a" "unat a < unat d - 1"
  proof
    assume eq: "s + (a - d) = d - 1"
    have da: "unat (d - a) = unat d - unat a" using * by (simp add: unat_sub word_le_nat_alt)
    then have "unat (s - (d - a)) = unat s - (unat d - unat a)"
      using * Suc.prems unat_sub [of "d - a" s] by (simp add: word_le_nat_alt)
    moreover have "s - (d - a) = d - 1" using eq by (simp only: diff_diff_eq2 add_diff_eq)
    ultimately have "unat d - 1 = unat s - (unat d - unat a)" using u(1) by (simp only:)
    with * Suc.prems show False by linarith
  qed
  moreover have "a = d - 1 \<longleftrightarrow> unat a = unat d - 1" using u by (simp add: word_unat_eq_iff)
  moreover have "a = d - 1 \<Longrightarrow> s + (a - d) = s - 1" by simp
  ultimately show ?case using IH Suc.prems unfolding copy_down.simps e u by auto
qed auto


section \<open>Correctness of the memory functions\<close>

lemma memmove_spec:
  assumes "unat src + unat n < 2 ^ 32" and "unat dst + unat n < 2 ^ 32"
  shows "memmove m dst src n a = (if unat dst \<le> unat a \<and> unat a < unat dst + unat n then m (src + (a - dst)) else m a)"
proof (cases "src < dst \<and> src + n > dst")
  case True
  have u: "unat (src + n) = unat src + unat n" "unat (dst + n) = unat dst + unat n"
    using assms by (simp_all add: unat_word_ariths)
  have "copy_down m (dst + n) (src + n) (unat n) a =
      (if unat (dst + n) - unat n \<le> unat a \<and> unat a < unat (dst + n) then m (src + n + (a - (dst + n))) else m a)"
    using True u by (intro copy_down_spec) (auto simp: word_less_nat_alt)
  moreover have "src + n + (a - (dst + n)) = src + (a - dst)" by simp
  ultimately show ?thesis using True by (simp only: memmove_def u if_True simp_thms) simp
next
  case False
  then have "unat dst \<le> unat src \<or> unat src + unat n \<le> unat dst"
    using unat_u32_add [of src n] assms by (auto simp: word_less_nat_alt not_less)
  then have "copy_up m dst src (unat n) a =
      (if unat dst \<le> unat a \<and> unat a < unat dst + unat n then m (src + (a - dst)) else m a)"
    using assms by (intro copy_up_spec) auto
  with False show ?thesis by (auto simp: memmove_def)
qed

text \<open>
  \<^verbatim>\<open>memmove\<close> copies correctly also when the two ranges overlap: whatever the relative position of source and
  destination, every destination byte is afterwards the source byte as it was before the call, and no byte outside the
  destination changes.
\<close>

theorem memmove_correct:
  assumes "unat src + unat n < 2 ^ 32" and "unat dst + unat n < 2 ^ 32"
  shows "memmove m dst src n a = (if unat dst \<le> unat a \<and> unat a < unat dst + unat n then m (src + (a - dst)) else m a)"
  using assms by (rule memmove_spec)

theorem memmove_correct_witness:
  "memmove (\<lambda>a. ucast a) 102 100 4 104 = (102 :: u8) \<and> memmove (\<lambda>a. ucast a) 100 102 4 103 = (105 :: u8)"
  using memmove_correct [of 100 4 102 "\<lambda>a. ucast a" 104] memmove_correct [of 102 4 100 "\<lambda>a. ucast a" 103] by simp_all

lemma memset_is_fill: "memset m dst c n = fill m dst (ucast c) (unat n)"
proof (cases "sint dst mod 4 = 0 \<and> n mod 4 = 0")
  case True
  have "unat n mod 4 = 0" using True unat_mod [of n 4] by simp
  then have "4 * unat (n div 4) = unat n" using mult_div_mod_eq [of 4 "unat n"] by (simp add: unat_div)
  with True stosl_fill [OF byte_spread [OF refl, of _ c], of m dst "unat (n div 4)"] show ?thesis
    by (simp add: memset_def Let_def)
qed (auto simp: memset_def stosb_fill)

text \<open>
  \<^verbatim>\<open>memset\<close> stores the low byte of its argument in each of the \<open>n\<close> bytes from \<^verbatim>\<open>dst\<close> on, and changes nothing else,
  on both of its paths: the one that stores words, for an aligned range, and the one that stores bytes.
\<close>

theorem memset_fills: "memset m dst c n = fill m dst (ucast c) (unat n)"
  by (rule memset_is_fill)


section \<open>Comparison and copies of strings\<close>

lemma peek_Cons [simp]: "peek (c # p) = c" and peek_Nil [simp]: "peek [] = 0"
  by (simp_all add: peek_def)

lemma strncmp_eq_0: "0 \<notin> set p \<Longrightarrow> 0 \<notin> set q \<Longrightarrow> strncmp p q n = 0 \<longleftrightarrow> take n p = take n q"
proof (induction p q n rule: strncmp.induct)
  case (2 p q n)
  then show ?case by (cases p; cases q) (auto simp: word_uint_eq_iff [symmetric] uint_0_iff)
qed simp

lemma length_strncpy [simp]: "length (strncpy t n) = n"
  by (induction t n rule: strncpy.induct) auto

lemma strncmp_zeros: "strncmp p (replicate n 0) n = strncmp p [] n"
  by (cases n) (auto simp: peek_def)

text \<open>Comparing with the padded copy of a string is comparing with the string.\<close>

lemma strncmp_strncpy: "strncmp p (strncpy t n) n = strncmp p t n"
proof (induction p t n rule: strncmp.induct)
  case (2 p q n)
  then show ?case by (cases "peek q = 0") (auto simp: peek_def)
qed simp

lemma safestrcpy_terminated: "0 < n \<Longrightarrow> 0 \<in> set (safestrcpy t n) \<and> length (safestrcpy t n) \<le> n"
  by (induction t n rule: safestrcpy.induct) auto

end
