(* ===== verification/Fs.thy ===== *)
theory Fs
  imports Log Cstring
begin

text \<open>
  The file system of \<^verbatim>\<open>fs.c\<close>, from the bitmap of free blocks to path names, on top of the buffer cache and the
  log.  A pointer to an in-memory inode is an index into the inode cache.  Waiting for a sleep lock that is
  held is the answer \<open>Hang\<close>: nobody else runs while one of these functions does.  The source has most functions in two
  copies, one for each of its two super blocks; here the super block is chosen by the device as the source chooses it.

  The table \<^verbatim>\<open>devsw\<close> of device functions is part of the state; the devices behind it have a state of type \<open>'d\<close>.
\<close>

section \<open>State\<close>

abbreviation (input) NDIRECT :: nat where
  "NDIRECT \<equiv> 12"

abbreviation (input) NINDIRECT :: nat where
  "NINDIRECT \<equiv> 128"

abbreviation (input) MAXFILE :: nat where
  "MAXFILE \<equiv> 140"

abbreviation (input) NINODE :: nat where
  "NINODE \<equiv> 50"

abbreviation (input) NDEV :: int where
  "NDEV \<equiv> 10"

abbreviation (input) IPB :: "'a::numeral" where
  "IPB \<equiv> 8"

abbreviation (input) BPB :: "'a::numeral" where
  "BPB \<equiv> 4096"

abbreviation (input) DIRSIZ :: nat where
  "DIRSIZ \<equiv> 14"

abbreviation (input) ROOTINO :: u32 where
  "ROOTINO \<equiv> 1"

abbreviation (input) T_DIR :: u16 where
  "T_DIR \<equiv> 1"

abbreviation (input) T_FILE :: u16 where
  "T_FILE \<equiv> 2"

abbreviation (input) T_DEV :: u16 where
  "T_DEV \<equiv> 3"

record superblock =
  sb_size :: u32
  sb_nblocks :: u32
  sb_ninodes :: u32
  sb_nlog :: u32
  sb_logstart :: u32
  sb_inodestart :: u32
  sb_bmapstart :: u32

record inode =
  i_dev :: u32
  i_inum :: u32
  i_ref :: int
  i_locked :: bool
  i_valid :: bool
  i_type :: u16
  i_major :: u16
  i_minor :: u16
  i_nlink :: u16
  i_size :: u32
  i_addrs :: "u32 list"

record stat =
  st_type :: u16
  st_dev :: u32
  st_ino :: u32
  st_nlink :: u16
  st_size :: u32

type_synonym iptr = nat

record 'd devfuns =
  d_read :: "('d \<Rightarrow> u32 \<Rightarrow> int \<times> u8 list \<times> 'd) option"
  d_write :: "('d \<Rightarrow> u8 list \<Rightarrow> int \<times> 'd) option"

record 'd fs =
  sb :: superblock
  nvmesb :: superblock
  inodes :: "inode list"
  lg :: logs
  devsw :: "nat \<Rightarrow> 'd devfuns"
  devst :: 'd

definition sb_of :: "u32 \<Rightarrow> 'd fs \<Rightarrow> superblock" where
  "sb_of dev s = (if dev = ROOTDEV then sb s else nvmesb s)"

definition IBLOCK :: "u32 \<Rightarrow> superblock \<Rightarrow> u32" where
  "IBLOCK i b = i div IPB + sb_inodestart b"

definition BBLOCK :: "u32 \<Rightarrow> superblock \<Rightarrow> u32" where
  "BBLOCK i b = i div BPB + sb_bmapstart b"

section \<open>Access to blocks from this layer\<close>

definition fbread :: "u32 \<Rightarrow> u32 \<Rightarrow> 'd fs \<Rightarrow> (u32 \<times> 'd fs) result" where
  "fbread dev bno s =
     bindE (bread dev bno (cache (lg s))) (\<lambda>(bp, c). Inr (bp, s\<lparr>lg := (lg s)\<lparr>cache := c\<rparr>\<rparr>))"

definition fbrelse :: "u32 \<Rightarrow> 'd fs \<Rightarrow> 'd fs result" where
  "fbrelse bp s = bindE (brelse bp (cache (lg s))) (\<lambda>c. Inr (s\<lparr>lg := (lg s)\<lparr>cache := c\<rparr>\<rparr>))"

definition flog_write :: "u32 \<Rightarrow> 'd fs \<Rightarrow> 'd fs result" where
  "flog_write bp s = bindE (log_write bp (lg s)) (\<lambda>l. Inr (s\<lparr>lg := l\<rparr>))"

definition bdata :: "'d fs \<Rightarrow> u32 \<Rightarrow> block" where
  "bdata s bp = b_data (cache (lg s)) bp"

definition set_bdata :: "u32 \<Rightarrow> block \<Rightarrow> 'd fs \<Rightarrow> 'd fs" where
  "set_bdata bp d s = s\<lparr>lg := (lg s)\<lparr>cache := set_data bp d (cache (lg s))\<rparr>\<rparr>"

text \<open>\<^verbatim>\<open>memmove\<close> into a block and \<^verbatim>\<open>memset\<close> of a part of it.\<close>

definition splice :: "block \<Rightarrow> nat \<Rightarrow> u8 list \<Rightarrow> block" where
  "splice d o1 bs = take o1 d @ bs @ drop (o1 + length bs) d"

definition slice :: "block \<Rightarrow> nat \<Rightarrow> nat \<Rightarrow> u8 list" where
  "slice d o1 n = take n (drop o1 d)"

definition readsb :: "u32 \<Rightarrow> 'd fs \<Rightarrow> (superblock \<times> 'd fs) result" where
  "readsb dev s =
     bindE (fbread dev 1 s) (\<lambda>(bp, s1).
     let d = bdata s1 bp;
         b = \<lparr>sb_size = get32 d 0, sb_nblocks = get32 d 4, sb_ninodes = get32 d 8, sb_nlog = get32 d 12,
              sb_logstart = get32 d 16, sb_inodestart = get32 d 20, sb_bmapstart = get32 d 24\<rparr>
     in bindE (fbrelse bp s1) (\<lambda>s2. Inr (b, s2)))"

definition bzero :: "u32 \<Rightarrow> u32 \<Rightarrow> 'd fs \<Rightarrow> 'd fs result" where
  "bzero dev bno s =
     bindE (fbread dev bno s) (\<lambda>(bp, s1).
     bindE (flog_write bp (set_bdata bp (replicate BSIZE 0) s1)) (\<lambda>s2.
     fbrelse bp s2))"

section \<open>Blocks\<close>

definition bit_used :: "block \<Rightarrow> nat \<Rightarrow> bool" where
  "bit_used d bi \<longleftrightarrow> get8 d (bi div 8) AND push_bit (bi mod 8) 1 \<noteq> 0"

definition mark_bit :: "block \<Rightarrow> nat \<Rightarrow> block" where
  "mark_bit d bi = d[bi div 8 := get8 d (bi div 8) OR push_bit (bi mod 8) 1]"

definition clear_bit :: "block \<Rightarrow> nat \<Rightarrow> block" where
  "clear_bit d bi = d[bi div 8 := get8 d (bi div 8) AND NOT (push_bit (bi mod 8) 1)]"

text \<open>
  The loop of \<^verbatim>\<open>balloc\<close> over the bitmap blocks; \<open>bs\<close> are the values of \<^verbatim>\<open>b\<close> still to come.  The variable is a
  signed integer, and to count past \<open>2\<^sup>3\<^sup>1\<close> is undefined.
\<close>

fun balloc_loop :: "u32 \<Rightarrow> superblock \<Rightarrow> nat list \<Rightarrow> 'd fs \<Rightarrow> (u32 \<times> 'd fs) result" where
  "balloc_loop dev b [] s = Inl (Panic ''balloc: out of blocks'')"
| "balloc_loop dev b (i # is) s =
     (if i \<ge> 2 ^ 31 then Inl Wild
      else bindE (fbread dev (BBLOCK (of_nat i) b) s) (\<lambda>(bp, s1).
           case find (\<lambda>bi. \<not> bit_used (bdata s1 bp) bi) [0..<min BPB (unat (sb_size b) - i)] of
             None \<Rightarrow> bindE (fbrelse bp s1) (balloc_loop dev b is)
           | Some bi \<Rightarrow>
               bindE (flog_write bp (set_bdata bp (mark_bit (bdata s1 bp) bi) s1)) (\<lambda>s2.
               bindE (fbrelse bp s2) (\<lambda>s3.
               bindE (bzero dev (of_nat (i + bi)) s3) (\<lambda>s4.
               Inr (of_nat (i + bi), s4))))))"

definition bitmap_starts :: "superblock \<Rightarrow> nat list" where
  "bitmap_starts b = map (\<lambda>k. BPB * k) [0..<(unat (sb_size b) + (BPB - 1)) div BPB]"

definition balloc :: "u32 \<Rightarrow> 'd fs \<Rightarrow> (u32 \<times> 'd fs) result" where
  "balloc dev s =
     (if dev = ROOTDEV then balloc_loop dev (sb s) (bitmap_starts (sb s)) s
      else if dev = NVMEDEV then balloc_loop dev (nvmesb s) (bitmap_starts (nvmesb s)) s
      else Inl (Panic ''balloc: out of blocks''))"

definition bfree :: "u32 \<Rightarrow> u32 \<Rightarrow> 'd fs \<Rightarrow> 'd fs result" where
  "bfree dev b s =
     bindE (fbread dev (BBLOCK b (sb_of dev s)) s) (\<lambda>(bp, s1).
     let bi = unat b mod BPB in
     if \<not> bit_used (bdata s1 bp) bi then Inl (Panic ''freeing free block'')
     else
       bindE (flog_write bp (set_bdata bp (clear_bit (bdata s1 bp) bi) s1)) (\<lambda>s2.
       fbrelse bp s2))"

section \<open>Inodes\<close>

definition ino :: "'d fs \<Rightarrow> iptr \<Rightarrow> inode" where
  "ino s ip = inodes s ! ip"

definition upd_ino :: "iptr \<Rightarrow> (inode \<Rightarrow> inode) \<Rightarrow> 'd fs \<Rightarrow> 'd fs" where
  "upd_ino ip f s = s\<lparr>inodes := (inodes s)[ip := f (inodes s ! ip)]\<rparr>"

definition iinit :: "u32 \<Rightarrow> 'd fs \<Rightarrow> 'd fs result" where
  "iinit dev s =
     (let s0 = s\<lparr>inodes := map (\<lambda>i. i\<lparr>i_locked := False\<rparr>) (inodes s)\<rparr> in
      bindE (if dev = ROOTDEV then bindE (readsb dev s0) (\<lambda>(b, s1). Inr (s1\<lparr>sb := b\<rparr>)) else Inr s0) (\<lambda>s1.
      if dev = NVMEDEV then bindE (readsb dev s1) (\<lambda>(b, s2). Inr (s2\<lparr>nvmesb := b\<rparr>)) else Inr s1))"

text \<open>The two searches of \<^verbatim>\<open>iget\<close> run in one pass over the table: the entry for the inode, and the first free entry.\<close>

definition iget :: "u32 \<Rightarrow> u32 \<Rightarrow> 'd fs \<Rightarrow> (iptr \<times> 'd fs) result" where
  "iget dev inum s =
     (case find (\<lambda>ip. i_ref (ino s ip) > 0 \<and> i_dev (ino s ip) = dev \<and> i_inum (ino s ip) = inum) [0..<NINODE] of
        Some ip \<Rightarrow> Inr (ip, upd_ino ip (\<lambda>i. i\<lparr>i_ref := i_ref i + 1\<rparr>) s)
      | None \<Rightarrow>
          (case find (\<lambda>ip. i_ref (ino s ip) = 0) [0..<NINODE] of
             None \<Rightarrow> Inl (Panic ''iget: no inodes'')
           | Some ip \<Rightarrow>
               Inr (ip, upd_ino ip (\<lambda>i. i\<lparr>i_dev := dev, i_inum := inum, i_ref := 1, i_valid := False\<rparr>) s)))"

text \<open>The place of an on-disk inode in its block, and its fields.\<close>

definition dinode_off :: "u32 \<Rightarrow> nat" where
  "dinode_off inum = 64 * (unat inum mod IPB)"

definition get_dinode :: "block \<Rightarrow> nat \<Rightarrow> inode \<Rightarrow> inode" where
  "get_dinode d p i = i\<lparr>i_type := get16 d p, i_major := get16 d (p + 2), i_minor := get16 d (p + 4),
     i_nlink := get16 d (p + 6), i_size := get32 d (p + 8),
     i_addrs := map (\<lambda>k. get32 d (p + 12 + 4 * k)) [0..<NDIRECT + 1]\<rparr>"

definition put_dinode :: "block \<Rightarrow> nat \<Rightarrow> inode \<Rightarrow> block" where
  "put_dinode d p i =
     fold (\<lambda>k d. put32 d (p + 12 + 4 * k) (i_addrs i ! k)) [0..<NDIRECT + 1]
       (put32 (put16 (put16 (put16 (put16 d p (i_type i)) (p + 2) (i_major i)) (p + 4) (i_minor i))
         (p + 6) (i_nlink i)) (p + 8) (i_size i))"

fun ialloc_loop :: "u32 \<Rightarrow> superblock \<Rightarrow> u16 \<Rightarrow> nat list \<Rightarrow> 'd fs \<Rightarrow> (iptr \<times> 'd fs) result" where
  "ialloc_loop dev b type [] s = Inl (Panic ''ialloc: no inodes'')"
| "ialloc_loop dev b type (inum # is) s =
     (if inum \<ge> 2 ^ 31 then Inl Wild
      else bindE (fbread dev (IBLOCK (of_nat inum) b) s) (\<lambda>(bp, s1).
           let p = dinode_off (of_nat inum); d = bdata s1 bp in
           if get16 d p = 0
           then
             bindE (flog_write bp (set_bdata bp (put16 (splice d p (replicate 64 0)) p type) s1)) (\<lambda>s2.
             bindE (fbrelse bp s2) (iget dev (of_nat inum)))
           else bindE (fbrelse bp s1) (ialloc_loop dev b type is)))"

definition ialloc :: "u32 \<Rightarrow> u16 \<Rightarrow> 'd fs \<Rightarrow> (iptr \<times> 'd fs) result" where
  "ialloc dev type s =
     (if dev = ROOTDEV then ialloc_loop dev (sb s) type [1..<unat (sb_ninodes (sb s))] s
      else if dev = NVMEDEV then ialloc_loop dev (nvmesb s) type [1..<unat (sb_ninodes (nvmesb s))] s
      else Inl (Panic ''ialloc: no inodes''))"

definition iupdate :: "iptr \<Rightarrow> 'd fs \<Rightarrow> 'd fs result" where
  "iupdate ip s =
     (let i = ino s ip in
      bindE (fbread (i_dev i) (IBLOCK (i_inum i) (sb_of (i_dev i) s)) s) (\<lambda>(bp, s1).
      bindE (flog_write bp (set_bdata bp (put_dinode (bdata s1 bp) (dinode_off (i_inum i)) i) s1)) (\<lambda>s2.
      fbrelse bp s2)))"

definition idup :: "iptr \<Rightarrow> 'd fs \<Rightarrow> iptr \<times> 'd fs" where
  "idup ip s = (ip, upd_ino ip (\<lambda>i. i\<lparr>i_ref := i_ref i + 1\<rparr>) s)"

definition ilock :: "iptr \<Rightarrow> 'd fs \<Rightarrow> 'd fs result" where
  "ilock ip s =
     (if i_ref (ino s ip) < 1 then Inl (Panic ''ilock'')
      else if i_locked (ino s ip) then Inl Hang
      else
        let s0 = upd_ino ip (\<lambda>i. i\<lparr>i_locked := True\<rparr>) s; i = ino s0 ip in
        if i_valid i then Inr s0
        else
          bindE (fbread (i_dev i) (IBLOCK (i_inum i) (sb_of (i_dev i) s0)) s0) (\<lambda>(bp, s1).
          let s2 = upd_ino ip (get_dinode (bdata s1 bp) (dinode_off (i_inum i))) s1 in
          bindE (fbrelse bp s2) (\<lambda>s3.
          let s4 = upd_ino ip (\<lambda>i. i\<lparr>i_valid := True\<rparr>) s3 in
          if i_type (ino s4 ip) = 0 then Inl (Panic ''ilock: no type'') else Inr s4)))"

definition iunlock :: "iptr \<Rightarrow> 'd fs \<Rightarrow> 'd fs result" where
  "iunlock ip s =
     (if \<not> i_locked (ino s ip) \<or> i_ref (ino s ip) < 1 then Inl (Panic ''iunlock'')
      else Inr (upd_ino ip (\<lambda>i. i\<lparr>i_locked := False\<rparr>) s))"

text \<open>\<^verbatim>\<open>itrunc\<close>: the direct blocks, then the blocks listed in the indirect block, then the indirect block itself.\<close>

definition itrunc_direct :: "iptr \<Rightarrow> nat \<Rightarrow> 'd fs \<Rightarrow> 'd fs result" where
  "itrunc_direct ip i s =
     (let a = i_addrs (ino s ip) ! i in
      if a \<noteq> 0
      then bindE (bfree (i_dev (ino s ip)) a s) (\<lambda>s1. Inr (upd_ino ip (\<lambda>n. n\<lparr>i_addrs := (i_addrs n)[i := 0]\<rparr>) s1))
      else Inr s)"

definition itrunc :: "iptr \<Rightarrow> 'd fs \<Rightarrow> 'd fs result" where
  "itrunc ip s =
     bindE (foldE (itrunc_direct ip) [0..<NDIRECT] s) (\<lambda>s1.
     let dev = i_dev (ino s1 ip); ind = i_addrs (ino s1 ip) ! NDIRECT in
     bindE (if ind \<noteq> 0
            then
              bindE (fbread dev ind s1) (\<lambda>(bp, s2).
              bindE (foldE (\<lambda>j s. let a = get32 (bdata s bp) (4 * j) in if a \<noteq> 0 then bfree dev a s else Inr s)
                       [0..<NINDIRECT] s2) (\<lambda>s3.
              bindE (fbrelse bp s3) (\<lambda>s4.
              bindE (bfree dev ind s4) (\<lambda>s5.
              Inr (upd_ino ip (\<lambda>n. n\<lparr>i_addrs := (i_addrs n)[NDIRECT := 0]\<rparr>) s5)))))
            else Inr s1) (\<lambda>s6.
     iupdate ip (upd_ino ip (\<lambda>n. n\<lparr>i_size := 0\<rparr>) s6)))"

definition iput :: "iptr \<Rightarrow> 'd fs \<Rightarrow> 'd fs result" where
  "iput ip s =
     (if i_locked (ino s ip) then Inl Hang
      else
        let s0 = upd_ino ip (\<lambda>i. i\<lparr>i_locked := True\<rparr>) s in
        bindE (if i_valid (ino s0 ip) \<and> i_nlink (ino s0 ip) = 0 \<and> i_ref (ino s0 ip) = 1
               then
                 bindE (itrunc ip s0) (\<lambda>s1.
                 bindE (iupdate ip (upd_ino ip (\<lambda>i. i\<lparr>i_type := 0\<rparr>) s1)) (\<lambda>s2.
                 Inr (upd_ino ip (\<lambda>i. i\<lparr>i_valid := False\<rparr>) s2)))
               else Inr s0) (\<lambda>s3.
        Inr (upd_ino ip (\<lambda>i. i\<lparr>i_locked := False, i_ref := i_ref i - 1\<rparr>) s3)))"

definition iunlockput :: "iptr \<Rightarrow> 'd fs \<Rightarrow> 'd fs result" where
  "iunlockput ip s = bindE (iunlock ip s) (iput ip)"

section \<open>Contents of inodes\<close>

definition bmap :: "iptr \<Rightarrow> nat \<Rightarrow> 'd fs \<Rightarrow> (u32 \<times> 'd fs) result" where
  "bmap ip bn s =
     (let dev = i_dev (ino s ip) in
      if bn < NDIRECT
      then
        let addr = i_addrs (ino s ip) ! bn in
        if addr = 0
        then bindE (balloc dev s) (\<lambda>(addr, s1). Inr (addr, upd_ino ip (\<lambda>i. i\<lparr>i_addrs := (i_addrs i)[bn := addr]\<rparr>) s1))
        else Inr (addr, s)
      else
        let bn = bn - NDIRECT in
        if bn < NINDIRECT
        then
          let addr = i_addrs (ino s ip) ! NDIRECT in
          bindE (if addr = 0
                 then bindE (balloc dev s)
                   (\<lambda>(addr, s1). Inr (addr, upd_ino ip (\<lambda>i. i\<lparr>i_addrs := (i_addrs i)[NDIRECT := addr]\<rparr>) s1))
                 else Inr (addr, s)) (\<lambda>(addr, s1).
          bindE (fbread dev addr s1) (\<lambda>(bp, s2).
          let addr = get32 (bdata s2 bp) (4 * bn) in
          bindE (if addr = 0
                 then
                   bindE (balloc dev s2) (\<lambda>(addr, s3).
                   bindE (flog_write bp (set_bdata bp (put32 (bdata s3 bp) (4 * bn) addr) s3)) (\<lambda>s4. Inr (addr, s4)))
                 else Inr (addr, s2)) (\<lambda>(addr, s5).
          bindE (fbrelse bp s5) (\<lambda>s6. Inr (addr, s6)))))
        else Inl (Panic ''bmap: out of range''))"

definition stati :: "iptr \<Rightarrow> 'd fs \<Rightarrow> stat" where
  "stati ip s = (let i = ino s ip in
     \<lparr>st_type = i_type i, st_dev = i_dev i, st_ino = i_inum i, st_nlink = i_nlink i, st_size = i_size i\<rparr>)"

text \<open>
  The loop of \<^verbatim>\<open>readi\<close>: \<open>left\<close> is \<^verbatim>\<open>n - tot\<close>.  The answer is the bytes stored at \<^verbatim>\<open>dst\<close>.
\<close>

function readi_loop :: "iptr \<Rightarrow> nat \<Rightarrow> nat \<Rightarrow> 'd fs \<Rightarrow> (u8 list \<times> 'd fs) result" where
  "readi_loop ip off left s =
     (if left = 0 then Inr ([], s)
      else
        bindE (bmap ip (off div BSIZE) s) (\<lambda>(addr, s1).
        bindE (fbread (i_dev (ino s1 ip)) addr s1) (\<lambda>(bp, s2).
        let m = min left (BSIZE - off mod BSIZE); bs = slice (bdata s2 bp) (off mod BSIZE) m in
        bindE (fbrelse bp s2) (\<lambda>s3.
        bindE (readi_loop ip (off + m) (left - m) s3) (\<lambda>(r, s4).
        Inr (bs @ r, s4))))))"
  by pat_completeness auto
termination
  by (relation "measure (\<lambda>(ip, off, left, s). left)") auto

declare readi_loop.simps [simp del]

definition dev_ok :: "u16 \<Rightarrow> bool" where
  "dev_ok major \<longleftrightarrow> 0 \<le> sint major \<and> sint major < NDEV"

text \<open>The result of \<^verbatim>\<open>readi\<close> is its return value, the bytes it stores at \<^verbatim>\<open>dst\<close>, and the state.\<close>

definition readi :: "iptr \<Rightarrow> u32 \<Rightarrow> u32 \<Rightarrow> 'd fs \<Rightarrow> (int \<times> u8 list \<times> 'd fs) result" where
  "readi ip off n s =
     (let i = ino s ip in
      if i_type i = T_DEV
      then
        if \<not> dev_ok (i_major i) then Inr (-1, [], s)
        else (case d_read (devsw s (unat (i_major i))) of
                None \<Rightarrow> Inr (-1, [], s)
              | Some f \<Rightarrow> (case f (devst s) n of (r, bs, d) \<Rightarrow> Inr (r, bs, s\<lparr>devst := d\<rparr>)))
      else if off > i_size i \<or> off + n < off then Inr (-1, [], s)
      else
        let n = (if off + n > i_size i then i_size i - off else n) in
        bindE (readi_loop ip (unat off) (unat n) s) (\<lambda>(bs, s1). Inr (sint n, bs, s1)))"

function writei_loop :: "iptr \<Rightarrow> nat \<Rightarrow> u8 list \<Rightarrow> 'd fs \<Rightarrow> 'd fs result" where
  "writei_loop ip off src s =
     (if src = [] then Inr s
      else
        bindE (bmap ip (off div BSIZE) s) (\<lambda>(addr, s1).
        bindE (fbread (i_dev (ino s1 ip)) addr s1) (\<lambda>(bp, s2).
        let m = min (length src) (BSIZE - off mod BSIZE) in
        bindE (flog_write bp (set_bdata bp (splice (bdata s2 bp) (off mod BSIZE) (take m src)) s2)) (\<lambda>s3.
        bindE (fbrelse bp s3) (\<lambda>s4.
        writei_loop ip (off + m) (drop m src) s4)))))"
  by pat_completeness auto
termination
  by (relation "measure (\<lambda>(ip, off, src, s). length src)") auto

declare writei_loop.simps [simp del]

text \<open>The bytes at \<^verbatim>\<open>src\<close> are given as a list; its length is the argument \<^verbatim>\<open>n\<close>.\<close>

definition writei :: "iptr \<Rightarrow> u8 list \<Rightarrow> u32 \<Rightarrow> 'd fs \<Rightarrow> (int \<times> 'd fs) result" where
  "writei ip src off s =
     (let i = ino s ip; n = of_nat (length src) in
      if i_type i = T_DEV
      then
        if \<not> dev_ok (i_major i) then Inr (-1, s)
        else (case d_write (devsw s (unat (i_major i))) of
                None \<Rightarrow> Inr (-1, s)
              | Some f \<Rightarrow> (case f (devst s) src of (r, d) \<Rightarrow> Inr (r, s\<lparr>devst := d\<rparr>)))
      else if off > i_size i \<or> off + n < off then Inr (-1, s)
      else if off + n > of_nat (MAXFILE * BSIZE) then Inr (-1, s)
      else
        bindE (writei_loop ip (unat off) src s) (\<lambda>s1.
        bindE (if n > 0 \<and> off + n > i_size (ino s1 ip)
               then iupdate ip (upd_ino ip (\<lambda>i. i\<lparr>i_size := off + n\<rparr>) s1)
               else Inr s1) (\<lambda>s2.
        Inr (sint n, s2))))"

section \<open>Directories\<close>

definition namecmp :: "cstr \<Rightarrow> cstr \<Rightarrow> int" where
  "namecmp s t = strncmp s t DIRSIZ"

text \<open>A directory entry has 16 bytes: the inode number and the name.\<close>

definition de_inum :: "u8 list \<Rightarrow> u16" where
  "de_inum de = get16 de 0"

definition de_name :: "u8 list \<Rightarrow> cstr" where
  "de_name de = drop 2 de"

definition mk_dirent :: "u16 \<Rightarrow> cstr \<Rightarrow> u8 list" where
  "mk_dirent inum name = [ucast inum, ucast (drop_bit 8 inum)] @ strncpy name DIRSIZ"

text \<open>The offsets of the entries of a directory; reading does not change the size.\<close>

definition dir_offsets :: "u32 \<Rightarrow> u32 list" where
  "dir_offsets sz = map (\<lambda>k. of_nat (16 * k)) [0..<(unat sz + 15) div 16]"

fun dirlookup_loop :: "iptr \<Rightarrow> cstr \<Rightarrow> u32 list \<Rightarrow> 'd fs \<Rightarrow> ((iptr \<times> u32) option \<times> 'd fs) result" where
  "dirlookup_loop dp name [] s = Inr (None, s)"
| "dirlookup_loop dp name (off # offs) s =
     bindE (readi dp off 16 s) (\<lambda>(r, de, s1).
     if r \<noteq> 16 then Inl (Panic ''dirlookup read'')
     else if de_inum de = 0 then dirlookup_loop dp name offs s1
     else if namecmp name (de_name de) = 0
     then bindE (iget (i_dev (ino s1 dp)) (ucast (de_inum de)) s1) (\<lambda>(ip, s2). Inr (Some (ip, off), s2))
     else dirlookup_loop dp name offs s1)"

definition dirlookup :: "iptr \<Rightarrow> cstr \<Rightarrow> 'd fs \<Rightarrow> ((iptr \<times> u32) option \<times> 'd fs) result" where
  "dirlookup dp name s =
     (if i_type (ino s dp) \<noteq> T_DIR then Inl (Panic ''dirlookup not DIR'')
      else dirlookup_loop dp name (dir_offsets (i_size (ino s dp))) s)"

text \<open>The search for an empty entry; without one the new entry goes to the offset at which the loop ends.\<close>

fun dirlink_loop :: "iptr \<Rightarrow> u32 list \<Rightarrow> u32 \<Rightarrow> 'd fs \<Rightarrow> (u32 \<times> 'd fs) result" where
  "dirlink_loop dp [] end s = Inr (end, s)"
| "dirlink_loop dp (off # offs) end s =
     bindE (readi dp off 16 s) (\<lambda>(r, de, s1).
     if r \<noteq> 16 then Inl (Panic ''dirlink read'')
     else if de_inum de = 0 then Inr (off, s1)
     else dirlink_loop dp offs end s1)"

definition dirlink :: "iptr \<Rightarrow> cstr \<Rightarrow> u32 \<Rightarrow> 'd fs \<Rightarrow> (int \<times> 'd fs) result" where
  "dirlink dp name inum s =
     bindE (dirlookup dp name s) (\<lambda>(found, s1).
     case found of
       Some (ip, _) \<Rightarrow> bindE (iput ip s1) (\<lambda>s2. Inr (-1, s2))
     | None \<Rightarrow>
         let offs = dir_offsets (i_size (ino s1 dp)) in
         bindE (dirlink_loop dp offs (of_nat (16 * length offs)) s1) (\<lambda>(off, s2).
         bindE (writei dp (mk_dirent (ucast inum) name) off s2) (\<lambda>(r, s3).
         if r \<noteq> 16 then Inl (Panic ''dirlink'') else Inr (0, s3))))"

section \<open>Paths\<close>

abbreviation (input) slash :: u8 where
  "slash \<equiv> 47"

abbreviation (input) pipechar :: u8 where
  "pipechar \<equiv> 124"

text \<open>\<^verbatim>\<open>skipelem\<close>: the element, cut to \<^verbatim>\<open>DIRSIZ\<close> bytes, and the rest of the path.\<close>

definition skipelem :: "cstr \<Rightarrow> (cstr \<times> cstr) option" where
  "skipelem path =
     (let p = dropWhile (\<lambda>c. c = pipechar) (dropWhile (\<lambda>c. c = slash) path) in
      if peek p = 0 then None
      else
        let s = takeWhile (\<lambda>c. c \<noteq> slash \<and> c \<noteq> 0) p; rest = dropWhile (\<lambda>c. c \<noteq> slash \<and> c \<noteq> 0) p in
        Some (take DIRSIZ s, dropWhile (\<lambda>c. c = slash) rest))"

lemma skipelem_shorter: "skipelem path = Some (name, rest) \<Longrightarrow> length rest < length path"
proof -
  assume *: "skipelem path = Some (name, rest)"
  define p where "p = dropWhile (\<lambda>c. c = pipechar) (dropWhile (\<lambda>c. c = slash) path)"
  have nz: "peek p \<noteq> 0" and rest: "rest = dropWhile (\<lambda>c. c = slash) (dropWhile (\<lambda>c. c \<noteq> slash \<and> c \<noteq> 0) p)"
    using * by (auto simp: skipelem_def p_def Let_def split: if_splits)
  have le: "length (dropWhile P xs) \<le> length xs" for P and xs :: cstr by (rule length_dropWhile_le)
  have "length p \<le> length path" unfolding p_def using le le order_trans by blast
  moreover have "length rest < length p"
  proof (cases p)
    case (Cons c q)
    show ?thesis
    proof (cases "c = slash")
      case True
      then show ?thesis using le [of "\<lambda>c. c = slash" q] by (simp add: rest Cons le_imp_less_Suc)
    next
      case False
      then have "rest = dropWhile (\<lambda>c. c = slash) (dropWhile (\<lambda>c. c \<noteq> slash \<and> c \<noteq> 0) q)"
        using nz by (simp add: rest Cons)
      then have "length rest \<le> length q" using le order_trans by blast
      then show ?thesis by (simp add: Cons)
    qed
  qed (use nz in \<open>simp add: peek_def\<close>)
  ultimately show ?thesis by simp
qed

text \<open>
  The walk of \<^verbatim>\<open>namex\<close> from the directory \<open>ip\<close>.  The answer is the inode and the contents of \<^verbatim>\<open>name\<close>.
\<close>

function namex_loop :: "cstr \<Rightarrow> bool \<Rightarrow> cstr \<Rightarrow> iptr \<Rightarrow> 'd fs \<Rightarrow> ((iptr \<times> cstr) option \<times> 'd fs) result" where
  "namex_loop path parent name ip s =
     (case skipelem path of
        None \<Rightarrow> if parent then bindE (iput ip s) (\<lambda>s1. Inr (None, s1)) else Inr (Some (ip, name), s)
      | Some (name, path) \<Rightarrow>
          bindE (ilock ip s) (\<lambda>s1.
          if i_type (ino s1 ip) \<noteq> T_DIR then bindE (iunlockput ip s1) (\<lambda>s2. Inr (None, s2))
          else if parent \<and> peek path = 0 then bindE (iunlock ip s1) (\<lambda>s2. Inr (Some (ip, name), s2))
          else
            bindE (dirlookup ip name s1) (\<lambda>(nxt, s2).
            case nxt of
              None \<Rightarrow> bindE (iunlockput ip s2) (\<lambda>s3. Inr (None, s3))
            | Some (next, _) \<Rightarrow> bindE (iunlockput ip s2) (namex_loop path parent name next))))"
  by pat_completeness auto
termination
  by (relation "measure (\<lambda>(path, parent, name, ip, s). length path)") (auto dest: skipelem_shorter)

declare namex_loop.simps [simp del]

text \<open>The current directory of the process is the argument \<open>cwd\<close>.\<close>

definition namex :: "iptr \<Rightarrow> cstr \<Rightarrow> bool \<Rightarrow> 'd fs \<Rightarrow> ((iptr \<times> cstr) option \<times> 'd fs) result" where
  "namex cwd path parent s =
     bindE (if peek path = slash then iget ROOTDEV ROOTINO s
            else if peek path = pipechar then iget NVMEDEV ROOTINO s
            else Inr (idup cwd s)) (\<lambda>(ip, s1).
     namex_loop path parent [] ip s1)"

definition namei :: "iptr \<Rightarrow> cstr \<Rightarrow> 'd fs \<Rightarrow> (iptr option \<times> 'd fs) result" where
  "namei cwd path s = bindE (namex cwd path False s) (\<lambda>(r, s1). Inr (map_option fst r, s1))"

definition nameiparent :: "iptr \<Rightarrow> cstr \<Rightarrow> 'd fs \<Rightarrow> ((iptr \<times> cstr) option \<times> 'd fs) result" where
  "nameiparent cwd path s = namex cwd path True s"

end
