(* ===== verification/Fs_Tx.thy ===== *)
theory Fs_Tx
  imports Fs Log_Crash
begin

text \<open>
  The transactional block store as the file system uses it, and the allocation of blocks on top of it.  The
  interface \<open>trans_store\<close> states what \<^verbatim>\<open>bread\<close>, a change of the data followed by \<^verbatim>\<open>log_write\<close>, and \<^verbatim>\<open>brelse\<close> do inside a
  transaction; its two derived rules, reading a block and changing a block, are the steps of which the
  functions of the file system consist.  A state of a transaction has a budget: \<open>h\<close> more buffers may be held, and \<open>n\<close>
  more calls of \<^verbatim>\<open>log_write\<close> may be made.
\<close>

section \<open>The interface\<close>

locale trans_store =
  fixes tx :: "nat \<Rightarrow> nat \<Rightarrow> 's \<Rightarrow> bool" and cur :: "'s \<Rightarrow> 'k \<Rightarrow> 'd" and held :: "'s \<Rightarrow> 'k set"
    and holds :: "'s \<Rightarrow> 'b \<Rightarrow> 'k \<Rightarrow> bool" and data :: "'s \<Rightarrow> 'b \<Rightarrow> 'd" and settled :: "'s \<Rightarrow> 'k \<Rightarrow> bool"
    and key_ok :: "'k \<Rightarrow> bool" and rest :: "'s \<Rightarrow> 'r"
    and rd :: "'k \<Rightarrow> 's \<Rightarrow> ('b \<times> 's) result" and modify :: "'b \<Rightarrow> 'd \<Rightarrow> 's \<Rightarrow> 's"
    and lw :: "'b \<Rightarrow> 's \<Rightarrow> 's result" and release :: "'b \<Rightarrow> 's \<Rightarrow> 's result"
  assumes rd_ok: "tx (Suc h) n s \<Longrightarrow> key_ok k \<Longrightarrow> k \<notin> held s \<Longrightarrow>
      \<exists>b s'. rd k s = Inr (b, s') \<and> tx h n s' \<and> holds s' b k \<and> settled s' k \<and> cur s' = cur s \<and>
        held s' = insert k (held s) \<and> rest s' = rest s \<and> (\<forall>c j. holds s c j \<longrightarrow> holds s' c j) \<and>
        (\<forall>j. settled s j \<longrightarrow> settled s' j)"
    and data_ok: "tx h n s \<Longrightarrow> holds s b k \<Longrightarrow> data s b = cur s k"
    and lw_ok: "tx h (Suc n) s \<Longrightarrow> key_ok k \<Longrightarrow> holds s b k \<Longrightarrow>
      \<exists>s'. lw b (modify b d s) = Inr s' \<and> tx h n s' \<and> settled s' k \<and> cur s' = (cur s)(k := d) \<and>
        held s' = held s \<and> rest s' = rest s \<and> (\<forall>c j. holds s' c j \<longleftrightarrow> holds s c j) \<and>
        (\<forall>j. settled s j \<longrightarrow> settled s' j)"
    and release_ok: "tx h n s \<Longrightarrow> holds s b k \<Longrightarrow> settled s k \<Longrightarrow>
      \<exists>s'. release b s = Inr s' \<and> tx (Suc h) n s' \<and> cur s' = cur s \<and> held s' = held s - {k} \<and> rest s' = rest s \<and>
        (\<forall>c j. holds s' c j \<longleftrightarrow> holds s c j \<and> c \<noteq> b) \<and> (\<forall>j. settled s j \<longrightarrow> settled s' j)"
    and holds_held: "tx h n s \<Longrightarrow> holds s b k \<Longrightarrow> k \<in> held s"
    and holds_inj: "tx h n s \<Longrightarrow> holds s b k \<Longrightarrow> holds s b j \<Longrightarrow> k = j"
begin

text \<open>Reading a block and giving it back leaves everything as it was.\<close>

lemma read_block:
  assumes t: "tx (Suc h) n s" and k: "key_ok k" "k \<notin> held s"
  shows "\<exists>b s1 s2. rd k s = Inr (b, s1) \<and> data s1 b = cur s k \<and> rest s1 = rest s \<and> release b s1 = Inr s2 \<and>
    tx (Suc h) n s2 \<and> cur s2 = cur s \<and> held s2 = held s \<and> rest s2 = rest s \<and>
    (\<forall>c j. holds s c j \<longrightarrow> holds s2 c j) \<and> (\<forall>j. settled s j \<longrightarrow> settled s2 j)"
proof -
  obtain b s1 where b: "rd k s = Inr (b, s1)" "tx h n s1" "holds s1 b k" "settled s1 k" "cur s1 = cur s"
    "held s1 = insert k (held s)" "rest s1 = rest s" "\<forall>c j. holds s c j \<longrightarrow> holds s1 c j" "\<forall>j. settled s j \<longrightarrow> settled s1 j"
    using rd_ok [OF t k] by blast
  obtain s2 where s2: "release b s1 = Inr s2" "tx (Suc h) n s2" "cur s2 = cur s1" "held s2 = held s1 - {k}"
    "rest s2 = rest s1" "\<forall>c j. holds s2 c j \<longleftrightarrow> holds s1 c j \<and> c \<noteq> b" "\<forall>j. settled s1 j \<longrightarrow> settled s2 j"
    using release_ok [OF b(2-4)] by blast
  have other: "c \<noteq> b" if "holds s c j" for c j
    using that b(8) holds_inj [OF b(2,3)] holds_held [OF t that] k(2) by auto
  show ?thesis
    using b s2 other data_ok [OF b(2,3)] k(2) by (intro exI [of _ b] exI [of _ s1] exI [of _ s2]) auto
qed

text \<open>Reading a block, changing and logging it, and giving it back.\<close>

lemma update_block:
  assumes t: "tx (Suc h) (Suc n) s" and k: "key_ok k" "k \<notin> held s"
  shows "\<exists>b s1. rd k s = Inr (b, s1) \<and> data s1 b = cur s k \<and> rest s1 = rest s \<and>
    (\<exists>s2 s3. lw b (modify b (f (cur s k)) s1) = Inr s2 \<and> release b s2 = Inr s3 \<and>
      tx (Suc h) n s3 \<and> cur s3 = (cur s)(k := f (cur s k)) \<and> held s3 = held s \<and> rest s3 = rest s \<and>
      (\<forall>c j. holds s c j \<longrightarrow> holds s3 c j) \<and> (\<forall>j. settled s j \<longrightarrow> settled s3 j))"
proof -
  obtain b s1 where b: "rd k s = Inr (b, s1)" "tx h (Suc n) s1" "holds s1 b k" "cur s1 = cur s"
    "held s1 = insert k (held s)" "rest s1 = rest s" "\<forall>c j. holds s c j \<longrightarrow> holds s1 c j" "\<forall>j. settled s j \<longrightarrow> settled s1 j"
    using rd_ok [OF t k] by blast
  obtain s2 where s2: "lw b (modify b (f (cur s k)) s1) = Inr s2" "tx h n s2" "settled s2 k"
    "cur s2 = (cur s1)(k := f (cur s k))" "held s2 = held s1" "rest s2 = rest s1" "\<forall>c j. holds s2 c j \<longleftrightarrow> holds s1 c j"
    "\<forall>j. settled s1 j \<longrightarrow> settled s2 j"
    using lw_ok [OF b(2) k(1) b(3)] by blast
  have h2: "holds s2 b k" using s2(7) b(3) by simp
  obtain s3 where s3: "release b s2 = Inr s3" "tx (Suc h) n s3" "cur s3 = cur s2" "held s3 = held s2 - {k}"
    "rest s3 = rest s2" "\<forall>c j. holds s3 c j \<longleftrightarrow> holds s2 c j \<and> c \<noteq> b" "\<forall>j. settled s2 j \<longrightarrow> settled s3 j"
    using release_ok [OF s2(2) h2 s2(3)] by blast
  have other: "c \<noteq> b" if "holds s c j" for c j
    using that b(7) holds_inj [OF b(2,3)] holds_held [OF t that] k(2) by auto
  show ?thesis
    using b s2 s3 other data_ok [OF b(2,3)] k(2) by (intro exI [of _ b] exI [of _ s1] conjI exI [of _ s2] exI [of _ s3]) auto
qed

end

section \<open>The log and the buffer cache provide it\<close>

definition tlog :: "u32 \<Rightarrow> logs \<Rightarrow> log" where
  "tlog dev l = (if dev = ROOTDEV then rootlog l else nvmelog l)"

definition fcur :: "'d fs \<Rightarrow> u32 \<times> u32 \<Rightarrow> block" where
  "fcur s = cur (cache (lg s))"

definition fheld :: "'d fs \<Rightarrow> (u32 \<times> u32) set" where
  "fheld s = held (cache (lg s))"

definition fholds :: "'d fs \<Rightarrow> u32 \<Rightarrow> u32 \<times> u32 \<Rightarrow> bool" where
  "fholds s = holds (cache (lg s))"

definition settled :: "'d fs \<Rightarrow> u32 \<times> u32 \<Rightarrow> bool" where
  "settled s k \<longleftrightarrow> k \<in> pinned (cache (lg s)) \<or> cur (cache (lg s)) k = disk (cache (lg s)) k"

definition rest :: "'d fs \<Rightarrow> superblock \<times> superblock \<times> inode list \<times> (nat \<Rightarrow> 'd devfuns) \<times> 'd" where
  "rest s = (sb s, nvmesb s, inodes s, devsw s, devst s)"

definition log_room :: "nat \<Rightarrow> log \<Rightarrow> bool" where
  "log_room n l \<longleftrightarrow> trans_ok l \<and> 1 \<le> outstanding l \<and> lh_n l + int n \<le> LOGSIZE \<and> lh_n l + int n \<le> lsize l - 1"

definition tx :: "u32 \<Rightarrow> nat \<Rightarrow> nat \<Rightarrow> 'd fs \<Rightarrow> bool" where
  "tx dev h n s \<longleftrightarrow> dev \<in> {ROOTDEV, NVMEDEV} \<and> bc_inv (cache (lg s)) \<and> log_room n (tlog dev (lg s)) \<and>
     card (held (cache (lg s))) + card (pinned (cache (lg s))) + h + n \<le> NBUF"

definition dev_key :: "u32 \<Rightarrow> u32 \<times> u32 \<Rightarrow> bool" where
  "dev_key dev k \<longleftrightarrow> fst k = dev \<and> block_key k"

lemma log_write_room:
  fixes b :: u32 and c :: bcache
  assumes "log_room (Suc n) l"
  shows "\<exists>l'. log_write_log b (l, c) = Inr (l', set_dirty b c) \<and> log_room n l'"
proof -
  have l: "trans_ok l" "1 \<le> outstanding l" "lh_n l < LOGSIZE" "lh_n l < lsize l - 1" using assms by (auto simp: log_room_def)
  obtain l' where l': "log_write_log b (l, c) = Inr (l', set_dirty b c)" "trans_ok l'" "outstanding l' = outstanding l"
    using log_write_log_ok [OF l(1,3,4,2), of b c] by blast
  have "lsize l' = lsize l" "lh_n l' \<le> lh_n l + 1"
    using l' (1) by (auto simp: log_write_log_def Let_def aset_def split: if_splits)
  with l' assms show ?thesis by (auto simp: log_room_def)
qed

lemma flog_write_eq:
  assumes "fholds s b (dev, x)" and "dev \<in> {ROOTDEV, NVMEDEV}" and "log_write_log b (tlog dev (lg s), cache (lg s)) = Inr (l', c')"
  shows "flog_write b s = Inr (s\<lparr>lg := (if dev = ROOTDEV then (lg s)\<lparr>rootlog := l', cache := c'\<rparr>
      else (lg s)\<lparr>nvmelog := l', cache := c'\<rparr>)\<rparr>)"
proof -
  have "b_dev (cache (lg s)) b = dev" using assms(1) by (simp add: fholds_def holds_def bkey_def)
  with assms(2,3) show ?thesis by (auto simp: flog_write_def log_write_def on_log_def tlog_def)
qed

interpretation tx: trans_store "tx dev" fcur fheld fholds bdata settled "dev_key dev" rest
  "\<lambda>k. fbread (fst k) (snd k)" set_bdata flog_write fbrelse
  for dev :: u32
proof (unfold_locales, goal_cases)
  case (1 h n s k)
  let ?c = "cache (lg s)"
  have inv: "bc_inv ?c" and k: "block_key k" "k \<notin> held ?c" and sum: "card (held ?c) + card (pinned ?c) + Suc h + n \<le> NBUF"
    using 1 by (simp_all add: tx_def dev_key_def fheld_def)
  have "card (insert k (held ?c \<union> pinned ?c)) \<le> NBUF"
    using card_Un_le [of "held ?c" "pinned ?c"] card_insert_le_m1 [of "Suc (card (held ?c \<union> pinned ?c))" "held ?c \<union> pinned ?c" k] sum
    by (simp add: card_insert_if)
  from bread_ok [OF inv k this] obtain b c' where b: "bread (fst k) (snd k) ?c = Inr (b, c')" "bc_inv c'" "holds c' b k"
    "cur c' = cur ?c" "disk c' = disk ?c" "held c' = insert k (held ?c)" "pinned c' = pinned ?c"
    "\<And>c j. holds ?c c j \<Longrightarrow> holds c' c j \<and> b_data c' c = b_data ?c c" by metis
  have "settled (s\<lparr>lg := (lg s)\<lparr>cache := c'\<rparr>\<rparr>) k"
    using cur_clean [OF inv _ k(2)] b by (auto simp: settled_def)
  then show ?case
    using b 1 sum k(2) by (intro exI [of _ b] exI [of _ "s\<lparr>lg := (lg s)\<lparr>cache := c'\<rparr>\<rparr>"])
      (auto simp: fbread_def tx_def fholds_def fcur_def fheld_def rest_def settled_def tlog_def)
next
  case (2 h n s b k)
  then show ?case using holds_cur by (auto simp: tx_def fholds_def bdata_def fcur_def)
next
  case (3 h n s k b d)
  let ?c = "cache (lg s)" and ?s = "set_bdata b d s"
  have inv: "bc_inv ?c" and h: "holds ?c b k" and dev: "dev \<in> {ROOTDEV, NVMEDEV}" and room: "log_room (Suc n) (tlog dev (lg s))"
    and sum: "card (held ?c) + card (pinned ?c) + h + Suc n \<le> NBUF"
    using 3 by (simp_all add: tx_def fholds_def)
  note m = set_data_ok [OF inv h, of d]
  have c1: "cache (lg ?s) = set_data b d ?c" by (simp add: set_bdata_def)
  have h1: "holds (set_data b d ?c) b k" using m(7) h by simp
  note w = set_dirty_ok [OF m(1) h1]
  obtain l' where l': "log_write_log b (tlog dev (lg s), set_data b d ?c) = Inr (l', set_dirty b (set_data b d ?c))" "log_room n l'"
    using log_write_room [OF room] by blast
  let ?c' = "set_dirty b (set_data b d ?c)"
  let ?l = "if dev = ROOTDEV then (lg ?s)\<lparr>rootlog := l', cache := ?c'\<rparr> else (lg ?s)\<lparr>nvmelog := l', cache := ?c'\<rparr>"
  have "fholds ?s b (dev, snd k)" using h1 3(2) by (auto simp: fholds_def c1 dev_key_def)
  moreover have "tlog dev (lg ?s) = tlog dev (lg s)" by (simp add: tlog_def set_bdata_def)
  ultimately have eq: "flog_write b ?s = Inr (?s\<lparr>lg := ?l\<rparr>)"
    using flog_write_eq [of ?s b dev "snd k" l' ?c'] dev l'(1) by (simp add: c1)
  have c': "cache ?l = ?c'" "tlog dev ?l = l'" by (simp_all add: tlog_def)
  have "card (pinned ?c') \<le> Suc (card (pinned ?c))" unfolding w(6) m(6) by (simp add: card_insert_if)
  then have "tx dev h n (?s\<lparr>lg := ?l\<rparr>)"
    using w m sum l'(2) dev by (simp add: tx_def c')
  then show ?case
    using w m eq by (intro exI [of _ "?s\<lparr>lg := ?l\<rparr>"])
      (auto simp: settled_def fcur_def fheld_def fholds_def c' rest_def set_bdata_def)
next
  case (4 h n s b k)
  let ?c = "cache (lg s)"
  have inv: "bc_inv ?c" and h: "holds ?c b k" and sum: "card (held ?c) + card (pinned ?c) + h + n \<le> NBUF"
    and st: "k \<in> pinned ?c \<or> cur ?c k = disk ?c k"
    using 4 by (simp_all add: tx_def fholds_def settled_def)
  have "b_dirty ?c b \<or> b_data ?c b = disk ?c k" using st dirty_pinned [OF inv h] holds_cur [OF inv h] by auto
  from brelse_ok [OF inv h this] obtain c' where c': "brelse b ?c = Inr c'" "bc_inv c'" "cur c' = cur ?c" "disk c' = disk ?c"
    "held c' = held ?c - {k}" "pinned c' = pinned ?c" "\<And>c j. holds c' c j \<longleftrightarrow> holds ?c c j \<and> c \<noteq> b" by metis
  have "k \<in> held ?c" using h by (auto simp: holds_def held_def)
  then have "card (held c') + 1 = card (held ?c)" using c'(5) card_Suc_Diff1 [of "held ?c" k] by simp
  with c' 4 sum show ?case
    by (intro exI [of _ "s\<lparr>lg := (lg s)\<lparr>cache := c'\<rparr>\<rparr>"])
      (auto simp: fbrelse_def tx_def fholds_def fcur_def fheld_def rest_def settled_def tlog_def)
next
  case (5 h n s b k)
  then show ?case by (auto simp: tx_def fholds_def fheld_def holds_def held_def)
next
  case (6 h n s b k j)
  then show ?case by (simp add: fholds_def holds_def)
qed

section \<open>The two kinds of steps\<close>

text \<open>What such steps leave alone: the buffers held, the cached inodes, the super blocks and the devices.\<close>

definition keeps :: "'d fs \<Rightarrow> 'd fs \<Rightarrow> bool" where
  "keeps s s' \<longleftrightarrow> fheld s' = fheld s \<and> rest s' = rest s \<and> (\<forall>c j. fholds s c j \<longrightarrow> fholds s' c j) \<and>
     (\<forall>j. settled s j \<longrightarrow> settled s' j)"

lemma keeps_refl [simp]: "keeps s s"
  by (simp add: keeps_def)

lemma keeps_trans [trans]: "keeps s s1 \<Longrightarrow> keeps s1 s2 \<Longrightarrow> keeps s s2"
  by (simp add: keeps_def)

lemma keeps_fields:
  assumes "keeps s s'"
  shows "sb s' = sb s" "nvmesb s' = nvmesb s" "inodes s' = inodes s" "fheld s' = fheld s" "sb_of dev s' = sb_of dev s"
    "ino s' ip = ino s ip"
  using assms by (auto simp: keeps_def rest_def sb_of_def ino_def)

lemma rest_fields:
  assumes "rest s' = rest s"
  shows "sb_of dev s' = sb_of dev s" "ino s' ip = ino s ip" "inodes s' = inodes s"
  using assms by (auto simp: rest_def sb_of_def ino_def)

lemma read_ok:
  assumes "tx dev (Suc h) n s" and "block_key (dev, b)" and "(dev, b) \<notin> fheld s"
  obtains bp s1 s2 where "fbread dev b s = Inr (bp, s1)" "bdata s1 bp = fcur s (dev, b)" "rest s1 = rest s"
    "fbrelse bp s1 = Inr s2" "tx dev (Suc h) n s2" "fcur s2 = fcur s" "keeps s s2"
  using tx.read_block [OF assms(1), of "(dev, b)"] assms(2,3) by (auto simp: dev_key_def keeps_def)

lemma update_ok:
  assumes "tx dev (Suc h) (Suc n) s" and "block_key (dev, b)" and "(dev, b) \<notin> fheld s"
  obtains bp s1 s2 s3 where "fbread dev b s = Inr (bp, s1)" "bdata s1 bp = fcur s (dev, b)" "rest s1 = rest s"
    "flog_write bp (set_bdata bp (f (fcur s (dev, b))) s1) = Inr s2" "fbrelse bp s2 = Inr s3"
    "tx dev (Suc h) n s3" "fcur s3 = (fcur s)((dev, b) := f (fcur s (dev, b)))" "keeps s s3"
  using tx.update_block [OF assms(1), of "(dev, b)" f] assms(2,3) by (auto simp: dev_key_def keeps_def)

section \<open>The bitmap\<close>

lemma and_push_bit_1: "w AND push_bit k 1 \<noteq> 0 \<longleftrightarrow> bit w k" if "k < LENGTH('a)" for w :: "'a::len word"
proof
  assume "w AND push_bit k 1 \<noteq> 0"
  then obtain n where "bit (w AND push_bit k 1) n" by (metis bit_0_eq bit_word_eqI bot_apply bot_bool_def)
  then show "bit w k" by (auto simp: bit_simps)
next
  assume "bit w k"
  then have "bit (w AND push_bit k 1) k" using that by (auto simp: bit_simps)
  then show "w AND push_bit k 1 \<noteq> 0" by (metis bit_0_eq bot_apply bot_bool_def)
qed

lemma bit_used_iff: "bit_used d bi \<longleftrightarrow> bit (get8 d (bi div 8)) (bi mod 8)"
  unfolding bit_used_def by (rule and_push_bit_1) simp

lemma same_bit: "i div 8 = j div 8 \<and> i mod 8 = j mod 8 \<longleftrightarrow> i = (j::nat)"
  by (metis div_mult_mod_eq)

lemma get8_upd: "k < length d \<Longrightarrow> get8 (d[k := v]) j = (if j = k then v else get8 d j)"
  by (auto simp: get8_def)

lemma bit_used_mark:
  assumes "i < 8 * length d"
  shows "bit_used (mark_bit d i) j \<longleftrightarrow> j = i \<or> bit_used d j"
proof -
  have "i div 8 < length d" "j mod 8 < 8" using assms by simp_all
  then show ?thesis
    using same_bit [of j i] by (auto simp: bit_used_iff mark_bit_def get8_upd bit_simps)
qed

lemma bit_used_clear:
  assumes "i < 8 * length d"
  shows "bit_used (clear_bit d i) j \<longleftrightarrow> j \<noteq> i \<and> bit_used d j"
proof -
  have "i div 8 < length d" "j mod 8 < 8" using assms by simp_all
  then show ?thesis
    using same_bit [of j i] by (auto simp: bit_used_iff clear_bit_def get8_upd bit_simps)
qed

lemma length_mark [simp]: "length (mark_bit d i) = length d" "length (clear_bit d i) = length d"
  by (simp_all add: mark_bit_def clear_bit_def)

lemma clear_mark: "i < 8 * length d \<Longrightarrow> \<not> bit_used d i \<Longrightarrow> clear_bit (mark_bit d i) i = d"
proof -
  assume i: "i < 8 * length d" and "\<not> bit_used d i"
  then have nb: "\<not> bit (get8 d (i div 8)) (i mod 8)" by (simp add: bit_used_iff)
  have "(get8 d (i div 8) OR push_bit (i mod 8) 1) AND NOT (push_bit (i mod 8) 1) = get8 d (i div 8)"
    using nb by (intro bit_word_eqI) (auto simp: bit_simps)
  moreover have "i div 8 < length d" using i by simp
  ultimately show ?thesis by (simp add: clear_bit_def mark_bit_def get8_upd) (simp add: get8_def)
qed

definition bmkey :: "u32 \<Rightarrow> 'd fs \<Rightarrow> u32 \<times> u32" where
  "bmkey dev s = (dev, sb_bmapstart (sb_of dev s))"

definition used :: "'d fs \<Rightarrow> u32 \<Rightarrow> u32 \<Rightarrow> bool" where
  "used s dev b \<longleftrightarrow> bit_used (fcur s (bmkey dev s)) (unat b)"

text \<open>The file systems that \<^verbatim>\<open>mkfs\<close> makes: at most \<^verbatim>\<open>FSSIZE\<close> blocks, one bitmap block, and
  every block up to it marked as used.\<close>

definition bitmap_ok :: "u32 \<Rightarrow> 'd fs \<Rightarrow> bool" where
  "bitmap_ok dev s \<longleftrightarrow> dev \<in> {ROOTDEV, NVMEDEV} \<and> sb_size (sb_of dev s) \<le> FSSIZE \<and>
     sb_bmapstart (sb_of dev s) < sb_size (sb_of dev s) \<and> length (fcur s (bmkey dev s)) = BSIZE \<and>
     (\<forall>b \<le> sb_bmapstart (sb_of dev s). used s dev b) \<and> bmkey dev s \<notin> fheld s"

lemma find_upt: "find P [0..<n] = (if \<exists>i < n. P i then Some (LEAST i. P i) else None)"
proof (cases "find P [0..<n]")
  case None
  then show ?thesis by (auto simp: find_None_iff)
next
  case (Some i)
  then have *: "i < n" "P i" "\<And>j. j < i \<Longrightarrow> \<not> P j"
    by (auto simp: find_Some_iff)
  then have "(LEAST i. P i) = i" by (intro Least_equality) (auto simp: not_less [symmetric])
  with * Some show ?thesis by auto
qed

lemma fs_size_small: "sz \<le> FSSIZE \<Longrightarrow> unat sz \<le> 1000" for sz :: u32
  by (simp add: word_le_nat_alt)

lemma balloc_unfold:
  assumes "dev \<in> {ROOTDEV, NVMEDEV}" and "0 < sb_size (sb_of dev s)" and "sb_size (sb_of dev s) \<le> FSSIZE"
  shows "balloc dev s = balloc_loop dev (sb_of dev s) [0] s"
proof -
  have "0 < unat (sb_size (sb_of dev s))" "unat (sb_size (sb_of dev s)) \<le> 1000"
    using assms(2) fs_size_small [OF assms(3)] by (simp_all add: unat_gt_0)
  then have "(unat (sb_size (sb_of dev s)) + 4095) div 4096 = 1" by simp
  then have "bitmap_starts (sb_of dev s) = [0]" by (simp add: bitmap_starts_def)
  with assms(1) show ?thesis by (auto simp: balloc_def sb_of_def)
qed


lemma bzero_ok:
  assumes "tx dev (Suc h) (Suc n) s" and "block_key (dev, b)" and "(dev, b) \<notin> fheld s"
  obtains s' where "bzero dev b s = Inr s'" "tx dev (Suc h) n s'" "fcur s' = (fcur s)((dev, b) := replicate BSIZE 0)" "keeps s s'"
  by (rule update_ok [OF assms, of "\<lambda>_. replicate BSIZE 0"]) (rule that, simp_all add: bzero_def)

text \<open>
  \<^verbatim>\<open>balloc\<close> takes the first free block, marks it in the bitmap and clears it.
\<close>

lemma balloc_ok:
  assumes t: "tx dev (Suc h) (Suc (Suc n)) s" and ok: "bitmap_ok dev s"
    and heldu: "\<forall>x. (dev, x) \<in> fheld s \<longrightarrow> used s dev x"
    and free: "\<exists>b < sb_size (sb_of dev s). \<not> used s dev b"
  obtains b s' where "balloc dev s = Inr (b, s')" "b < sb_size (sb_of dev s)" "\<not> used s dev b" "\<forall>c < b. used s dev c"
    "tx dev (Suc h) n s'" "keeps s s'"
    "fcur s' = (fcur s)(bmkey dev s := mark_bit (fcur s (bmkey dev s)) (unat b), (dev, b) := replicate BSIZE 0)"
proof -
  let ?sz = "sb_size (sb_of dev s)" and ?bm = "sb_bmapstart (sb_of dev s)"
  let ?P = "\<lambda>i. \<not> bit_used (fcur s (bmkey dev s)) i"
  have b: "dev \<in> {ROOTDEV, NVMEDEV}" "?sz \<le> FSSIZE" "?bm < ?sz" "used s dev ?bm" "bmkey dev s \<notin> fheld s"
    using ok by (auto simp: bitmap_ok_def)
  have sz: "unat ?sz \<le> 1000" "0 < ?sz" using fs_size_small [OF b(2)] b(3) word_gt_0 by (auto simp: word_less_nat_alt)
  obtain b0 where "b0 < ?sz" "\<not> used s dev b0" using free by blast
  then have ex: "\<exists>i < unat ?sz. ?P i" by (auto simp: used_def word_less_nat_alt)
  define i where "i = (LEAST i. ?P i)"
  obtain i0 where i0: "i0 < unat ?sz" "?P i0" using ex by blast
  have i: "i < unat ?sz" unfolding i_def using Least_le [of ?P, OF i0(2)] i0(1) by simp
  have Pi: "?P i" unfolding i_def using i0(2) by (rule LeastI [of ?P])
  have least: "\<And>j. j < i \<Longrightarrow> \<not> ?P j" unfolding i_def by (rule not_less_Least)
  have fnd: "find ?P [0..<min BPB (unat ?sz - 0)] = Some i" using ex sz by (auto simp: find_upt i_def min_def)
  let ?b = "of_nat i :: u32"
  have ub: "unat ?b = i" using i sz(1) by (simp add: unat_u32_of_nat)
  have bsz: "?b < ?sz" using i by (simp add: word_less_nat_alt ub)
  have key: "block_key (dev, ?bm)" "block_key (dev, ?b)"
    using b(1-3) bsz by (auto simp: block_key_def)
  have nu: "\<not> used s dev ?b" using Pi by (simp add: used_def ub)
  obtain bp s1 s2 s3 where u: "fbread dev ?bm s = Inr (bp, s1)" "bdata s1 bp = fcur s (bmkey dev s)"
    "flog_write bp (set_bdata bp (mark_bit (fcur s (bmkey dev s)) i) s1) = Inr s2" "fbrelse bp s2 = Inr s3"
    "tx dev (Suc h) (Suc n) s3" "fcur s3 = (fcur s)(bmkey dev s := mark_bit (fcur s (bmkey dev s)) i)" "keeps s s3"
    by (rule update_ok [OF t key(1), of "\<lambda>d. mark_bit d i", folded bmkey_def], rule b(5)) (rule that, assumption+)
  have "(dev, ?b) \<notin> fheld s3" using heldu nu keeps_fields(4) [OF u(7)] by auto
  then obtain s4 where z: "bzero dev ?b s3 = Inr s4" "tx dev (Suc h) n s4"
    "fcur s4 = (fcur s3)((dev, ?b) := replicate BSIZE 0)" "keeps s3 s4"
    using bzero_ok [OF u(5) key(2)] by blast
  have "balloc dev s = Inr (?b, s4)"
    using u(1-4) z(1) fnd unfolding balloc_unfold [OF b(1) sz(2) b(2)] by (simp add: BBLOCK_def)
  moreover have "\<forall>c < ?b. used s dev c" using least by (auto simp: used_def word_less_nat_alt ub)
  ultimately show ?thesis using that z bsz nu u(6) keeps_trans [OF u(7) z(4)] by (simp add: ub)
qed

lemma balloc_full:
  assumes t: "tx dev (Suc h) n s" and ok: "bitmap_ok dev s" and full: "\<forall>b < sb_size (sb_of dev s). used s dev b"
  shows "balloc dev s = Inl (Panic ''balloc: out of blocks'')"
proof -
  let ?sz = "sb_size (sb_of dev s)" and ?bm = "sb_bmapstart (sb_of dev s)"
  have b: "dev \<in> {ROOTDEV, NVMEDEV}" "?sz \<le> FSSIZE" "?bm < ?sz" "bmkey dev s \<notin> fheld s" using ok by (auto simp: bitmap_ok_def)
  have sz: "unat ?sz \<le> 1000" "0 < ?sz" using fs_size_small [OF b(2)] b(3) word_gt_0 by (auto simp: word_less_nat_alt)
  have key: "block_key (dev, ?bm)" using b(1-3) by (auto simp: block_key_def)
  obtain bp s1 s2 where r: "fbread dev ?bm s = Inr (bp, s1)" "bdata s1 bp = fcur s (bmkey dev s)" "fbrelse bp s1 = Inr s2"
    by (rule read_ok [OF t key, folded bmkey_def], rule b(4)) (rule that, assumption+)
  have "bit_used (fcur s (bmkey dev s)) i" if "i < unat ?sz" for i
  proof -
    have "of_nat i < ?sz" using that sz(1) by (simp add: word_less_nat_alt unat_u32_of_nat)
    then have "used s dev (of_nat i)" using full by blast
    then show ?thesis using that sz(1) by (simp add: used_def unat_u32_of_nat)
  qed
  then have "find (\<lambda>i. \<not> bit_used (fcur s (bmkey dev s)) i) [0..<min BPB (unat ?sz - 0)] = None"
    by (auto simp: find_None_iff)
  then show ?thesis
    using r unfolding balloc_unfold [OF b(1) sz(2) b(2)] by (simp add: BBLOCK_def)
qed

lemma bfree_ok:
  assumes t: "tx dev (Suc h) (Suc n) s" and ok: "bitmap_ok dev s" and b: "b < sb_size (sb_of dev s)" "used s dev b"
  obtains s' where "bfree dev b s = Inr s'" "tx dev (Suc h) n s'" "keeps s s'"
    "fcur s' = (fcur s)(bmkey dev s := clear_bit (fcur s (bmkey dev s)) (unat b))"
proof -
  have sz: "unat b < 1000" using fs_size_small [of "sb_size (sb_of dev s)"] ok b(1) by (auto simp: bitmap_ok_def word_less_nat_alt)
  then have bb: "b div 4096 = 0" "unat b mod 4096 = unat b" by (auto intro: unat_eq_zero [THEN iffD1] simp: unat_div)
  have key: "block_key (dev, sb_bmapstart (sb_of dev s))" "bmkey dev s \<notin> fheld s"
    using ok by (auto simp: bitmap_ok_def block_key_def)
  obtain bp s1 s2 s3 where "fbread dev (sb_bmapstart (sb_of dev s)) s = Inr (bp, s1)" "bdata s1 bp = fcur s (bmkey dev s)"
    "flog_write bp (set_bdata bp (clear_bit (fcur s (bmkey dev s)) (unat b)) s1) = Inr s2" "fbrelse bp s2 = Inr s3"
    "tx dev (Suc h) n s3" "fcur s3 = (fcur s)(bmkey dev s := clear_bit (fcur s (bmkey dev s)) (unat b))" "keeps s s3"
    by (rule update_ok [OF t key(1), of "\<lambda>d. clear_bit d (unat b)", folded bmkey_def], rule key(2)) (rule that, assumption+)
  with b(2) bb show ?thesis by (intro that [of s3]) (simp_all add: bfree_def BBLOCK_def used_def)
qed

lemma bfree_free:
  assumes t: "tx dev (Suc h) n s" and ok: "bitmap_ok dev s" and b: "b < sb_size (sb_of dev s)" "\<not> used s dev b"
  shows "bfree dev b s = Inl (Panic ''freeing free block'')"
proof -
  have sz: "unat b < 1000" using fs_size_small [of "sb_size (sb_of dev s)"] ok b(1) by (auto simp: bitmap_ok_def word_less_nat_alt)
  then have bb: "b div 4096 = 0" "unat b mod 4096 = unat b" by (auto intro: unat_eq_zero [THEN iffD1] simp: unat_div)
  have key: "block_key (dev, sb_bmapstart (sb_of dev s))" "bmkey dev s \<notin> fheld s"
    using ok by (auto simp: bitmap_ok_def block_key_def)
  obtain bp s1 s2 where "fbread dev (sb_bmapstart (sb_of dev s)) s = Inr (bp, s1)" "bdata s1 bp = fcur s (bmkey dev s)"
    by (rule read_ok [OF t key(1), folded bmkey_def], rule key(2)) (rule that, assumption+)
  with b(2) bb show ?thesis by (simp add: bfree_def BBLOCK_def used_def)
qed

end
