(* ===== verification/Fs_File.thy ===== *)
theory Fs_File
  imports Fs_Tx
begin

text \<open>
  The contents of inodes.  The copy of an inode on disk and in memory; the map from block numbers of a file to disk blocks,
  with \<^verbatim>\<open>bmap\<close> extending it; and \<^verbatim>\<open>readi\<close> and \<^verbatim>\<open>writei\<close> as a refinement of reading and overwriting a part of a
  list of bytes.
\<close>

section \<open>Inodes on disk\<close>

lemma put_words:
  fixes d :: block and q :: nat and f :: "nat \<Rightarrow> u32"
  defines "w n \<equiv> fold (\<lambda>k d. put32 d (q + 4 * k) (f k)) [0..<n] d"
  shows "length (w n) = length d"
    and "j + 4 \<le> q \<Longrightarrow> get32 (w n) j = get32 d j" and "j + 2 \<le> q \<Longrightarrow> get16 (w n) j = get16 d j"
    and "q + 4 * n \<le> length d \<Longrightarrow> i < n \<Longrightarrow> get32 (w n) (q + 4 * i) = f i"
proof -
  show len: "length (w n) = length d" for n by (induction n) (simp_all add: w_def)
  show "j + 4 \<le> q \<Longrightarrow> get32 (w n) j = get32 d j" by (induction n) (simp_all add: w_def)
  show "j + 2 \<le> q \<Longrightarrow> get16 (w n) j = get16 d j" by (induction n) (simp_all add: w_def)
  show "q + 4 * n \<le> length d \<Longrightarrow> i < n \<Longrightarrow> get32 (w n) (q + 4 * i) = f i"
  proof (induction n)
    case (Suc n)
    have "w (Suc n) = put32 (w n) (q + 4 * n) (f n)" by (simp add: w_def)
    with Suc len [of n] show ?case by (cases "i = n") (auto simp: less_Suc_eq)
  qed simp
qed

lemma length_put_dinode [simp]: "length (put_dinode d p i) = length d"
  unfolding put_dinode_def put_words(1) by simp

lemma get_put_dinode:
  assumes p: "p + 64 \<le> length d" and a: "length (i_addrs i) = NDIRECT + 1"
  shows "get_dinode (put_dinode d p i) p j = j\<lparr>i_type := i_type i, i_major := i_major i, i_minor := i_minor i,
    i_nlink := i_nlink i, i_size := i_size i, i_addrs := i_addrs i\<rparr>"
proof -
  have q: "p + 12 + 4 * k = (p + 12) + 4 * k" for k by simp
  have "map (\<lambda>k. get32 (put_dinode d p i) (p + 12 + 4 * k)) [0..<NDIRECT + 1] = map (\<lambda>k. i_addrs i ! k) [0..<NDIRECT + 1]"
    unfolding put_dinode_def using p by (intro map_cong) (auto intro: put_words(4))
  also have "\<dots> = i_addrs i" using map_nth [of "i_addrs i"] a by simp
  finally have adr: "map (\<lambda>k. get32 (put_dinode d p i) (p + 12 + 4 * k)) [0..<NDIRECT + 1] = i_addrs i" .
  have "get16 (put_dinode d p i) p = i_type i" "get16 (put_dinode d p i) (p + 2) = i_major i"
    "get16 (put_dinode d p i) (p + 4) = i_minor i" "get16 (put_dinode d p i) (p + 6) = i_nlink i"
    "get32 (put_dinode d p i) (p + 8) = i_size i"
    unfolding put_dinode_def using p by (simp_all add: put_words(2,3))
  with adr show ?thesis by (simp add: get_dinode_def)
qed

lemma dinode_off_le: "dinode_off inum + 64 \<le> BSIZE"
proof -
  have "unat inum mod 8 \<le> 7" using mod_less_divisor [of 8 "unat inum"] by linarith
  then show ?thesis by (simp add: dinode_off_def)
qed

section \<open>Frames\<close>

lemma upd_ino_frame [simp]:
  "fcur (upd_ino ip f s) = fcur s" "fheld (upd_ino ip f s) = fheld s" "tx dev h n (upd_ino ip f s) = tx dev h n s"
  "sb_of dev (upd_ino ip f s) = sb_of dev s" "bmkey dev (upd_ino ip f s) = bmkey dev s" "used (upd_ino ip f s) = used s"
  "length (inodes (upd_ino ip f s)) = length (inodes s)" "bitmap_ok dev (upd_ino ip f s) = bitmap_ok dev s"
  "bdata (upd_ino ip f s) = bdata s" "sb (upd_ino ip f s) = sb s" "nvmesb (upd_ino ip f s) = nvmesb s"
  "fholds (upd_ino ip f s) = fholds s" "settled (upd_ino ip f s) = settled s"
  by (auto simp: upd_ino_def fcur_def fheld_def tx_def sb_of_def bmkey_def used_def bitmap_ok_def bdata_def fholds_def
      settled_def fun_eq_iff)

lemma ino_upd [simp]: "ip < length (inodes s) \<Longrightarrow> ino (upd_ino ip f s) ip = f (ino s ip)"
  by (simp add: ino_def upd_ino_def)

lemma ino_upd_other [simp]: "jp \<noteq> ip \<Longrightarrow> ino (upd_ino ip f s) jp = ino s jp"
  by (simp add: ino_def upd_ino_def)

lemma fbrelse_upd_ino: "fbrelse bp (upd_ino ip f s) = bindE (fbrelse bp s) (\<lambda>s1. Inr (upd_ino ip f s1))"
  by (cases "brelse bp (cache (lg s))") (simp_all add: fbrelse_def upd_ino_def)

lemma bitmap_ok_keeps: "keeps s s' \<Longrightarrow> fcur s' (bmkey dev s) = fcur s (bmkey dev s) \<Longrightarrow> bitmap_ok dev s \<Longrightarrow> bitmap_ok dev s'"
  by (simp add: bitmap_ok_def keeps_fields bmkey_def used_def)

text \<open>The block that holds an inode lies before the bitmap.\<close>

definition inode_blk :: "u32 \<Rightarrow> u32 \<Rightarrow> 'd fs \<Rightarrow> u32" where
  "inode_blk dev inum s = IBLOCK inum (sb_of dev s)"

definition inode_ok :: "u32 \<Rightarrow> iptr \<Rightarrow> 'd fs \<Rightarrow> bool" where
  "inode_ok dev ip s \<longleftrightarrow> ip < length (inodes s) \<and> i_dev (ino s ip) = dev \<and>
     inode_blk dev (i_inum (ino s ip)) s < sb_bmapstart (sb_of dev s) \<and>
     (dev, inode_blk dev (i_inum (ino s ip)) s) \<notin> fheld s \<and>
     length (fcur s (dev, inode_blk dev (i_inum (ino s ip)) s)) = BSIZE"

lemma iupdate_ok:
  assumes t: "tx dev (Suc h) (Suc n) s" and ok: "inode_ok dev ip s" "bitmap_ok dev s"
  obtains s' where "iupdate ip s = Inr s'" "tx dev (Suc h) n s'" "keeps s s'"
    "fcur s' = (let k = (dev, inode_blk dev (i_inum (ino s ip)) s)
      in (fcur s)(k := put_dinode (fcur s k) (dinode_off (i_inum (ino s ip))) (ino s ip)))"
proof -
  let ?b = "inode_blk dev (i_inum (ino s ip)) s"
  have i: "i_dev (ino s ip) = dev" "?b < sb_bmapstart (sb_of dev s)" "(dev, ?b) \<notin> fheld s" using ok(1) by (simp_all add: inode_ok_def)
  have key: "block_key (dev, ?b)" using ok(2) i(2) by (auto simp: bitmap_ok_def block_key_def)
  show ?thesis
    by (rule update_ok [OF t key i(3), of "\<lambda>d. put_dinode d (dinode_off (i_inum (ino s ip))) (ino s ip)"])
      (rule that, simp_all add: iupdate_def i(1) inode_blk_def [symmetric] Let_def)
qed

lemma ilock_ok:
  assumes t: "tx dev (Suc h) n s" and ok: "inode_ok dev ip s" "bitmap_ok dev s"
    and free: "\<not> i_locked (ino s ip)" "1 \<le> i_ref (ino s ip)" "\<not> i_valid (ino s ip)"
  defines "i \<equiv> get_dinode (fcur s (dev, inode_blk dev (i_inum (ino s ip)) s)) (dinode_off (i_inum (ino s ip)))
    (ino s ip)\<lparr>i_locked := True, i_valid := True\<rparr>"
  assumes ty: "i_type i \<noteq> 0"
  shows "\<exists>s'. ilock ip s = Inr s' \<and> tx dev (Suc h) n s' \<and> ino s' ip = i \<and> fcur s' = fcur s \<and> fheld s' = fheld s \<and>
    (\<forall>jp. jp \<noteq> ip \<longrightarrow> ino s' jp = ino s jp) \<and> length (inodes s') = length (inodes s)"
proof -
  let ?b = "inode_blk dev (i_inum (ino s ip)) s"
  let ?s = "upd_ino ip (\<lambda>i. i\<lparr>i_locked := True\<rparr>) s"
  have ip: "ip < length (inodes s)" and d: "i_dev (ino s ip) = dev" and b: "?b < sb_bmapstart (sb_of dev s)" "(dev, ?b) \<notin> fheld ?s"
    using ok(1) by (simp_all add: inode_ok_def)
  have key: "block_key (dev, ?b)" using ok(2) b(1) by (auto simp: bitmap_ok_def block_key_def)
  have t': "tx dev (Suc h) n ?s" using t by simp
  obtain bp s1 s2 where r: "fbread dev ?b ?s = Inr (bp, s1)" "bdata s1 bp = fcur s (dev, ?b)" "rest s1 = rest ?s"
    "fbrelse bp s1 = Inr s2" "tx dev (Suc h) n s2" "fcur s2 = fcur s" "keeps ?s s2"
    by (rule read_ok [OF t' key b(2)]) (rule that, simp_all)
  let ?g = "get_dinode (fcur s (dev, ?b)) (dinode_off (i_inum (ino s ip)))"
  let ?s4 = "upd_ino ip (\<lambda>i. i\<lparr>i_valid := True\<rparr>) (upd_ino ip ?g s2)"
  have len: "ip < length (inodes s2)" using keeps_fields(3) [OF r(7)] ip by simp
  have i4: "ino ?s4 ip = i"
    using len ip keeps_fields(6) [OF r(7), of ip] by (simp add: i_def get_dinode_def)
  have "ilock ip s = (if i_type (ino ?s4 ip) = 0 then Inl (Panic ''ilock: no type'') else Inr ?s4)"
    using free ip d r by (simp add: ilock_def inode_blk_def fbrelse_upd_ino Let_def)
  then have "ilock ip s = Inr ?s4" using ty i4 by simp
  moreover have "ino ?s4 jp = ino s jp" if "jp \<noteq> ip" for jp using that keeps_fields(6) [OF r(7), of jp] by simp
  moreover have "length (inodes ?s4) = length (inodes s)" "fheld ?s4 = fheld s" using keeps_fields(3,4) [OF r(7)] by simp_all
  ultimately show ?thesis using r(5,6) i4 by (intro exI [of _ ?s4]) simp
qed

section \<open>The blocks of a file\<close>

definition ind_blk :: "iptr \<Rightarrow> 'd fs \<Rightarrow> u32" where
  "ind_blk ip s = i_addrs (ino s ip) ! NDIRECT"

text \<open>The disk block of block \<open>bn\<close> of the file, \<open>0\<close> if there is none.\<close>

definition faddr :: "iptr \<Rightarrow> 'd fs \<Rightarrow> nat \<Rightarrow> u32" where
  "faddr ip s bn =
     (if bn < NDIRECT then i_addrs (ino s ip) ! bn
      else if ind_blk ip s = 0 then 0
      else get32 (fcur s (i_dev (ino s ip), ind_blk ip s)) (4 * (bn - NDIRECT)))"

definition data_blk :: "u32 \<Rightarrow> 'd fs \<Rightarrow> u32 \<Rightarrow> bool" where
  "data_blk dev s a \<longleftrightarrow> sb_bmapstart (sb_of dev s) < a \<and> a < sb_size (sb_of dev s) \<and> used s dev a"

definition disk_ok :: "u32 \<Rightarrow> 'd fs \<Rightarrow> bool" where
  "disk_ok dev s \<longleftrightarrow> bitmap_ok dev s \<and> (\<forall>b < sb_size (sb_of dev s). length (fcur s (dev, b)) = BSIZE)"

definition file_ok :: "u32 \<Rightarrow> iptr \<Rightarrow> 'd fs \<Rightarrow> bool" where
  "file_ok dev ip s \<longleftrightarrow> disk_ok dev s \<and> ip < length (inodes s) \<and> i_dev (ino s ip) = dev \<and>
     length (i_addrs (ino s ip)) = NDIRECT + 1 \<and>
     (ind_blk ip s \<noteq> 0 \<longrightarrow> data_blk dev s (ind_blk ip s)) \<and>
     (\<forall>i < MAXFILE. faddr ip s i \<noteq> 0 \<longrightarrow> data_blk dev s (faddr ip s i) \<and> faddr ip s i \<noteq> ind_blk ip s) \<and>
     (\<forall>i < MAXFILE. \<forall>j < MAXFILE. faddr ip s i \<noteq> 0 \<longrightarrow> faddr ip s i = faddr ip s j \<longrightarrow> i = j)"

definition free_blks :: "u32 \<Rightarrow> 'd fs \<Rightarrow> u32 set" where
  "free_blks dev s = {b. b < sb_size (sb_of dev s) \<and> \<not> used s dev b}"

lemma get8_zeros [simp]: "get8 (replicate n 0) i = 0"
  by (simp add: get8_def)

lemma get32_zeros [simp]: "get32 (replicate n 0) i = 0"
  by (simp add: get32_def)

text \<open>
  A step that allocates one block: the block was free, is marked and cleared, and no block in use changes.
\<close>

definition alloc_step :: "u32 \<Rightarrow> u32 \<Rightarrow> 'd fs \<Rightarrow> 'd fs \<Rightarrow> bool" where
  "alloc_step dev b s s' \<longleftrightarrow> keeps s s' \<and> disk_ok dev s' \<and> sb_bmapstart (sb_of dev s) < b \<and> b < sb_size (sb_of dev s) \<and>
     \<not> used s dev b \<and> (\<forall>c. used s' dev c \<longleftrightarrow> c = b \<or> used s dev c) \<and>
     fcur s' (dev, b) = replicate BSIZE 0 \<and> (\<forall>k. k \<noteq> (dev, b) \<longrightarrow> k \<noteq> bmkey dev s \<longrightarrow> fcur s' k = fcur s k)"

lemma balloc_step:
  assumes t: "tx dev (Suc h) (Suc (Suc n)) s" and ok: "disk_ok dev s"
    and heldu: "\<forall>x. (dev, x) \<in> fheld s \<longrightarrow> used s dev x" and free: "free_blks dev s \<noteq> {}"
  obtains b s' where "balloc dev s = Inr (b, s')" "tx dev (Suc h) n s'" "alloc_step dev b s s'"
proof -
  have bm: "bitmap_ok dev s" using ok by (simp add: disk_ok_def)
  have ex: "\<exists>b < sb_size (sb_of dev s). \<not> used s dev b" using free by (auto simp: free_blks_def)
  let ?bm = "fcur s (bmkey dev s)"
  obtain b s' where b: "balloc dev s = Inr (b, s')" "b < sb_size (sb_of dev s)" "\<not> used s dev b" "tx dev (Suc h) n s'" "keeps s s'"
    "fcur s' = (fcur s)(bmkey dev s := mark_bit ?bm (unat b), (dev, b) := replicate BSIZE 0)"
    by (rule balloc_ok [OF t bm heldu ex]) (rule that, assumption+)
  have bmap: "length ?bm = BSIZE" "sb_size (sb_of dev s) \<le> FSSIZE" "\<forall>c \<le> sb_bmapstart (sb_of dev s). used s dev c"
    using bm by (auto simp: bitmap_ok_def)
  have gt: "sb_bmapstart (sb_of dev s) < b" using bmap(3) b(3) by (meson not_less)
  have key: "bmkey dev s' = bmkey dev s" "sb_of dev s' = sb_of dev s" using keeps_fields [OF b(5)] by (simp_all add: bmkey_def)
  have ne: "bmkey dev s \<noteq> (dev, b)" using gt by (auto simp: bmkey_def)
  have bm': "fcur s' (bmkey dev s) = mark_bit ?bm (unat b)" using ne by (simp add: b(6))
  have "unat b < 8 * length ?bm" using b(2) bmap(1,2) by (simp add: word_less_nat_alt word_le_nat_alt)
  then have u: "used s' dev c \<longleftrightarrow> c = b \<or> used s dev c" for c
    unfolding used_def key bm' by (auto simp: bit_used_mark word_unat_eq_iff)
  have "disk_ok dev s'"
    using ok u bm' bmap keeps_fields(4) [OF b(5)] by (auto simp: disk_ok_def bitmap_ok_def key b(6))
  with b gt u show ?thesis by (intro that [of b s']) (auto simp: alloc_step_def)
qed

lemma alloc_step_fields:
  assumes "alloc_step dev b s s'"
  shows "ino s' ip = ino s ip" "sb_of dev s' = sb_of dev s" "length (inodes s') = length (inodes s)" "fheld s' = fheld s"
    "bmkey dev s' = bmkey dev s"
  using assms keeps_fields [of s s'] by (auto simp: alloc_step_def bmkey_def)

lemma alloc_step_data:
  assumes "alloc_step dev b s s'"
  shows "data_blk dev s a \<Longrightarrow> data_blk dev s' a \<and> a \<noteq> b \<and> fcur s' (dev, a) = fcur s (dev, a)" and "data_blk dev s' b"
    and "free_blks dev s' = free_blks dev s - {b}" "b \<in> free_blks dev s"
  using assms alloc_step_fields(2) [OF assms] by (auto simp: alloc_step_def data_blk_def bmkey_def free_blks_def)

lemma file_ok_data: "file_ok dev ip s \<Longrightarrow> ind_blk ip s \<noteq> 0 \<Longrightarrow> data_blk dev s (ind_blk ip s)"
  "file_ok dev ip s \<Longrightarrow> i < MAXFILE \<Longrightarrow> faddr ip s i \<noteq> 0 \<Longrightarrow> data_blk dev s (faddr ip s i)"
  by (simp_all add: file_ok_def)

lemma faddr_alloc:
  assumes ok: "file_ok dev ip s" and a: "alloc_step dev b s s'"
  shows "faddr ip s' = faddr ip s" "ind_blk ip s' = ind_blk ip s" "file_ok dev ip s'"
proof -
  note f = alloc_step_fields [OF a] and d = alloc_step_data [OF a]
  have dev: "i_dev (ino s ip) = dev" using ok by (simp add: file_ok_def)
  show ind: "ind_blk ip s' = ind_blk ip s" by (simp add: ind_blk_def f)
  show fa: "faddr ip s' = faddr ip s"
    using d(1) [OF file_ok_data(1) [OF ok]] by (auto simp: faddr_def fun_eq_iff ind f dev)
  show "file_ok dev ip s'"
    using ok d(1) a unfolding file_ok_def ind fa f by (auto simp: alloc_step_def)
qed

lemma alloc_fresh:
  assumes ok: "file_ok dev ip s" and a: "alloc_step dev b s s'"
  shows "b \<noteq> 0" "b \<noteq> ind_blk ip s" "i < MAXFILE \<Longrightarrow> faddr ip s i \<noteq> b"
proof -
  show nz: "b \<noteq> 0" using a by (auto simp: alloc_step_def)
  show "b \<noteq> ind_blk ip s" using alloc_step_data(1) [OF a file_ok_data(1) [OF ok]] nz by auto
  show "i < MAXFILE \<Longrightarrow> faddr ip s i \<noteq> b" using alloc_step_data(1) [OF a file_ok_data(2) [OF ok]] nz by auto
qed


lemma file_ok_cong:
  assumes "fcur s' = fcur s" and "rest s' = rest s" and "bmkey dev s \<notin> fheld s'"
  shows "used s' = used s" "data_blk dev s' = data_blk dev s" "faddr ip s' = faddr ip s" "ind_blk ip s' = ind_blk ip s"
    "file_ok dev ip s \<Longrightarrow> file_ok dev ip s'" "free_blks dev s' = free_blks dev s" "bmkey dev s' = bmkey dev s"
proof -
  note r = rest_fields [OF assms(2)]
  show b: "bmkey dev s' = bmkey dev s" by (simp add: bmkey_def r)
  have b': "bmkey x s' = bmkey x s" for x using rest_fields(1) [OF assms(2), of x] by (simp add: bmkey_def)
  show u: "used s' = used s" by (simp add: fun_eq_iff used_def b' assms(1))
  show d: "data_blk dev s' = data_blk dev s" by (simp add: fun_eq_iff data_blk_def r u)
  show i: "ind_blk ip s' = ind_blk ip s" by (simp add: ind_blk_def r)
  show f: "faddr ip s' = faddr ip s" by (simp add: fun_eq_iff faddr_def i r assms(1))
  show "free_blks dev s' = free_blks dev s" by (simp add: free_blks_def r u)
  show "file_ok dev ip s \<Longrightarrow> file_ok dev ip s'"
    unfolding file_ok_def f i d r disk_ok_def bitmap_ok_def b u assms(1) using assms(3) by simp
qed

text \<open>What an operation on the file \<open>ip\<close> leaves alone: other inodes, the other fields of the inode, and every block in use
  outside of \<open>X\<close> and the bitmap.\<close>

definition meta :: "iptr \<Rightarrow> 'd fs \<Rightarrow> superblock \<times> superblock \<times> (nat \<Rightarrow> 'd devfuns) \<times> 'd \<times> inode list \<times> (u32 \<times> u32) set" where
  "meta ip s = (sb s, nvmesb s, devsw s, devst s, (inodes s)[ip := (ino s ip)\<lparr>i_addrs := []\<rparr>], fheld s)"

definition fs_frame :: "u32 \<Rightarrow> iptr \<Rightarrow> (u32 \<times> u32) set \<Rightarrow> 'd fs \<Rightarrow> 'd fs \<Rightarrow> bool" where
  "fs_frame dev ip X s s' \<longleftrightarrow> meta ip s' = meta ip s \<and> (\<forall>c. used s dev c \<longrightarrow> used s' dev c) \<and>
     (\<forall>k. k \<notin> X \<longrightarrow> k \<noteq> bmkey dev s \<longrightarrow> (fst k = dev \<longrightarrow> used s dev (snd k)) \<longrightarrow> fcur s' k = fcur s k)"

lemma meta_fields:
  assumes "meta ip s' = meta ip s"
  shows "sb_of d s' = sb_of d s" "bmkey d s' = bmkey d s" "length (inodes s') = length (inodes s)" "fheld s' = fheld s"
    and "ip < length (inodes s) \<Longrightarrow> (ino s' ip)\<lparr>i_addrs := []\<rparr> = (ino s ip)\<lparr>i_addrs := []\<rparr>"
proof -
  have m: "sb s' = sb s" "nvmesb s' = nvmesb s" "fheld s' = fheld s"
    "(inodes s')[ip := (ino s' ip)\<lparr>i_addrs := []\<rparr>] = (inodes s)[ip := (ino s ip)\<lparr>i_addrs := []\<rparr>]"
    using assms by (simp_all add: meta_def)
  then show "sb_of d s' = sb_of d s" "bmkey d s' = bmkey d s" "fheld s' = fheld s" by (simp_all add: sb_of_def bmkey_def)
  show len: "length (inodes s') = length (inodes s)" using arg_cong [OF m(4), of length] by simp
  show "(ino s' ip)\<lparr>i_addrs := []\<rparr> = (ino s ip)\<lparr>i_addrs := []\<rparr>" if "ip < length (inodes s)"
    using arg_cong [OF m(4), of "\<lambda>l. l ! ip"] that len by simp
qed

lemma fs_frame_refl [simp]: "fs_frame dev ip X s s"
  by (simp add: fs_frame_def)

lemma fs_frameD:
  assumes "fs_frame dev ip X s s'"
  shows "meta ip s' = meta ip s" and "used s dev c \<Longrightarrow> used s' dev c"
    and "k \<notin> X \<Longrightarrow> k \<noteq> bmkey dev s \<Longrightarrow> (fst k = dev \<longrightarrow> used s dev (snd k)) \<Longrightarrow> fcur s' k = fcur s k"
  using assms unfolding fs_frame_def by blast+

lemmas fs_frame_meta = fs_frameD(1) [THEN meta_fields(1)] fs_frameD(1) [THEN meta_fields(2)]
  fs_frameD(1) [THEN meta_fields(3)] fs_frameD(1) [THEN meta_fields(4)]

lemma fs_frame_inode:
  assumes "fs_frame dev ip X s s'" and "ip < length (inodes s)"
  shows "i_dev (ino s' ip) = i_dev (ino s ip)" "i_inum (ino s' ip) = i_inum (ino s ip)" "i_size (ino s' ip) = i_size (ino s ip)"
    "i_type (ino s' ip) = i_type (ino s ip)"
proof -
  have e: "(ino s' ip)\<lparr>i_addrs := []\<rparr> = (ino s ip)\<lparr>i_addrs := []\<rparr>" by (rule meta_fields(5) [OF fs_frameD(1) [OF assms(1)] assms(2)])
  show "i_dev (ino s' ip) = i_dev (ino s ip)" "i_inum (ino s' ip) = i_inum (ino s ip)" "i_size (ino s' ip) = i_size (ino s ip)"
    "i_type (ino s' ip) = i_type (ino s ip)"
    using arg_cong [OF e, of i_dev] arg_cong [OF e, of i_inum] arg_cong [OF e, of i_size] arg_cong [OF e, of i_type] by simp_all
qed

lemma fs_frame_trans:
  assumes f: "fs_frame dev ip X s s1" and g: "fs_frame dev ip Y s1 s2"
    and "\<And>k. k \<in> Y \<Longrightarrow> k \<in> X \<or> (fst k = dev \<and> \<not> used s dev (snd k))"
  shows "fs_frame dev ip X s s2"
  unfolding fs_frame_def
proof (intro conjI allI impI)
  show "meta ip s2 = meta ip s" using fs_frameD(1) [OF f] fs_frameD(1) [OF g] by simp
  show "used s2 dev c" if "used s dev c" for c using that fs_frameD(2) [OF f] fs_frameD(2) [OF g] by blast
  fix k assume k: "k \<notin> X" "k \<noteq> bmkey dev s" "fst k = dev \<longrightarrow> used s dev (snd k)"
  have "k \<notin> Y" using assms(3) [of k] k by blast
  then have "fcur s2 k = fcur s1 k"
    using fs_frame_meta(2) [OF f, of dev] fs_frameD(2) [OF f] k by (intro fs_frameD(3) [OF g]) auto
  then show "fcur s2 k = fcur s k" using fs_frameD(3) [OF f k] by simp
qed

lemma fs_frame_mono: "fs_frame dev ip X s s' \<Longrightarrow> X \<subseteq> Y \<Longrightarrow> fs_frame dev ip Y s s'"
  unfolding fs_frame_def by blast

lemma alloc_frame:
  assumes "alloc_step dev b s s'"
  shows "fs_frame dev ip X s s'"
  unfolding fs_frame_def
proof (intro conjI allI impI)
  have k: "keeps s s'" using assms by (simp add: alloc_step_def)
  then show "meta ip s' = meta ip s" by (simp add: meta_def keeps_def rest_def ino_def)
  show "used s' dev c" if "used s dev c" for c using assms that by (simp add: alloc_step_def)
  show "fcur s' j = fcur s j" if "j \<noteq> bmkey dev s" "fst j = dev \<longrightarrow> used s dev (snd j)" for j
  proof -
    have "j \<noteq> (dev, b)" using that(2) assms by (auto simp: alloc_step_def)
    then show ?thesis using assms that(1) unfolding alloc_step_def by blast
  qed
qed

lemma upd_addrs_meta [simp]:
  "ip < length (inodes s) \<Longrightarrow> meta ip (upd_ino ip (\<lambda>i. i\<lparr>i_addrs := f (i_addrs i)\<rparr>) s) = meta ip s"
  by (simp add: meta_def) (simp add: upd_ino_def ino_def)

lemma upd_addrs_frame:
  "ip < length (inodes s) \<Longrightarrow> fs_frame dev ip X s (upd_ino ip (\<lambda>i. i\<lparr>i_addrs := f (i_addrs i)\<rparr>) s)"
  by (simp add: fs_frame_def)

text \<open>Storing the new block in the inode, as a direct block or as the indirect block.\<close>

lemma store_direct:
  assumes ok: "file_ok dev ip s" and a: "alloc_step dev b s s1" and bn: "bn < NDIRECT" and hole: "faddr ip s bn = 0"
  defines "s' \<equiv> upd_ino ip (\<lambda>i. i\<lparr>i_addrs := (i_addrs i)[bn := b]\<rparr>) s1"
  shows "file_ok dev ip s'" "faddr ip s' = (faddr ip s)(bn := b)" "ind_blk ip s' = ind_blk ip s"
proof -
  note fa = faddr_alloc [OF ok a] and fresh = alloc_fresh [OF ok a]
  have ip: "ip < length (inodes s1)" "length (i_addrs (ino s1 ip)) = 13" "i_dev (ino s1 ip) = dev" using fa(3) by (simp_all add: file_ok_def)
  have ind: "ind_blk ip s' = ind_blk ip s1" using bn ip by (simp add: ind_blk_def s'_def)
  then show "ind_blk ip s' = ind_blk ip s" using fa(2) by simp
  have "faddr ip s' j = (if j = bn then b else faddr ip s1 j)" for j
    using bn ip by (auto simp: faddr_def ind) (simp_all add: s'_def nth_list_update)
  then show f: "faddr ip s' = (faddr ip s)(bn := b)" by (simp add: fun_eq_iff fa(1))
  have d: "data_blk dev s' = data_blk dev s1" "disk_ok dev s' = disk_ok dev s1"
    by (simp_all add: s'_def fun_eq_iff data_blk_def disk_ok_def)
  have i': "i_dev (ino s' ip) = dev" "length (i_addrs (ino s' ip)) = 13" "ip < length (inodes s')" using ip by (simp_all add: s'_def)
  show "file_ok dev ip s'"
    using fa(3) fresh alloc_step_data(2) [OF a] unfolding file_ok_def d i' f ind fa(1,2) by (auto simp: i')
qed

lemma store_indirect:
  assumes ok: "file_ok dev ip s" and a: "alloc_step dev b s s1" and hole: "ind_blk ip s = 0"
  defines "s' \<equiv> upd_ino ip (\<lambda>i. i\<lparr>i_addrs := (i_addrs i)[NDIRECT := b]\<rparr>) s1"
  shows "file_ok dev ip s'" "faddr ip s' = faddr ip s" "ind_blk ip s' = b"
proof -
  note fa = faddr_alloc [OF ok a] and fresh = alloc_fresh [OF ok a]
  have ip: "ip < length (inodes s1)" "length (i_addrs (ino s1 ip)) = 13" "i_dev (ino s1 ip) = dev" using fa(3) by (simp_all add: file_ok_def)
  show ind: "ind_blk ip s' = b" using ip by (simp add: ind_blk_def s'_def)
  have z: "fcur s' (dev, b) = replicate BSIZE 0" using a by (simp add: s'_def alloc_step_def)
  have "faddr ip s' j = faddr ip s1 j" for j
    using ip z fa(2) hole fresh(1) by (auto simp: faddr_def ind) (simp_all add: s'_def nth_list_update)
  then show f: "faddr ip s' = faddr ip s" by (simp add: fun_eq_iff fa(1))
  have d: "data_blk dev s' = data_blk dev s1" "disk_ok dev s' = disk_ok dev s1"
    by (simp_all add: s'_def fun_eq_iff data_blk_def disk_ok_def)
  have i': "i_dev (ino s' ip) = dev" "length (i_addrs (ino s' ip)) = 13" "ip < length (inodes s')" using ip by (simp_all add: s'_def)
  show "file_ok dev ip s'"
    using fa(3) fresh alloc_step_data(2) [OF a] unfolding file_ok_def d i' f ind fa(1,2) by (auto simp: i')
qed

text \<open>Storing the new block in the indirect block.\<close>

lemma store_slot:
  assumes ok: "file_ok dev ip s" and a: "alloc_step dev b s s1" and bn: "NDIRECT \<le> bn" "bn < MAXFILE" and hole: "faddr ip s bn = 0"
    and ind: "ind_blk ip s \<noteq> 0" and r: "rest s' = rest s1" "bmkey dev s \<notin> fheld s'"
    and c: "fcur s' = (fcur s1)((dev, ind_blk ip s) := put32 (fcur s1 (dev, ind_blk ip s)) (4 * (bn - NDIRECT)) b)"
  shows "file_ok dev ip s'" "\<forall>j < MAXFILE. faddr ip s' j = ((faddr ip s)(bn := b)) j" "ind_blk ip s' = ind_blk ip s"
    "free_blks dev s' = free_blks dev s - {b}" "\<forall>x. used s' dev x \<longleftrightarrow> x = b \<or> used s dev x"
proof -
  note fa = faddr_alloc [OF ok a] and fresh = alloc_fresh [OF ok a] and f1 = alloc_step_fields [OF a]
  note rf = rest_fields [OF r(1)]
  have ip: "ip < length (inodes s1)" "length (i_addrs (ino s1 ip)) = 13" "i_dev (ino s1 ip) = dev" using fa(3) by (simp_all add: file_ok_def)
  have dat: "data_blk dev s1 (ind_blk ip s)" using file_ok_data(1) [OF fa(3)] ind fa(2) by simp
  then have len: "length (fcur s1 (dev, ind_blk ip s)) = BSIZE" using fa(3) by (simp add: file_ok_def disk_ok_def data_blk_def)
  show i': "ind_blk ip s' = ind_blk ip s" using fa(2) by (simp add: ind_blk_def rf)
  have bm: "bmkey dev s' = bmkey dev s1" "fcur s' (bmkey dev s1) = fcur s1 (bmkey dev s1)"
    using dat by (auto simp: bmkey_def rf c data_blk_def)
  have u: "used s' dev = used s1 dev" by (simp add: fun_eq_iff used_def bm)
  then show "\<forall>x. used s' dev x \<longleftrightarrow> x = b \<or> used s dev x" using a by (simp add: alloc_step_def)
  have d: "data_blk dev s' = data_blk dev s1" by (simp add: fun_eq_iff data_blk_def u rf)
  show "free_blks dev s' = free_blks dev s - {b}" using alloc_step_data(3) [OF a] by (simp add: free_blks_def u rf)
  have "faddr ip s' j = (if j = bn then b else faddr ip s1 j)" if j: "j < MAXFILE" for j
  proof (cases "j < NDIRECT")
    case True
    then show ?thesis using bn by (simp add: faddr_def rf)
  next
    case False
    then have "j \<noteq> bn \<Longrightarrow> 4 * (j - NDIRECT) + 4 \<le> 4 * (bn - NDIRECT) \<or> 4 * (bn - NDIRECT) + 4 \<le> 4 * (j - NDIRECT)"
      using bn(1) by linarith
    with False j bn len ind ip fa(2) show ?thesis by (auto simp: faddr_def i' rf c)
  qed
  then show f: "\<forall>j < MAXFILE. faddr ip s' j = ((faddr ip s)(bn := b)) j" by (simp add: fa(1))
  have dk: "disk_ok dev s'"
    using fa(3) r(2) len unfolding file_ok_def disk_ok_def bitmap_ok_def bm u rf f1(5) by (auto simp: c bm(1))
  have new: "data_blk dev s1 b" using alloc_step_data(2) [OF a] .
  have old: "\<forall>j < MAXFILE. faddr ip s j \<noteq> 0 \<longrightarrow> data_blk dev s1 (faddr ip s j) \<and> faddr ip s j \<noteq> ind_blk ip s"
    "\<forall>i < MAXFILE. \<forall>j < MAXFILE. faddr ip s i \<noteq> 0 \<longrightarrow> faddr ip s i = faddr ip s j \<longrightarrow> i = j"
    using fa(3) unfolding file_ok_def fa(1,2) by simp_all
  show "file_ok dev ip s'"
    unfolding file_ok_def i' d rf
  proof (intro conjI allI impI)
    fix i assume i: "i < MAXFILE" and nz: "faddr ip s' i \<noteq> 0"
    show "data_blk dev s1 (faddr ip s' i)" "faddr ip s' i \<noteq> ind_blk ip s"
      using i nz f old(1) new fresh(2) by (auto split: if_splits)
    show "i = j" if "j < MAXFILE" "faddr ip s' i = faddr ip s' j" for j
      using i nz that f old(2) fresh(3) by (auto split: if_splits)
  qed (use dk ip dat in simp_all)
qed

end
