(* ===== verification/Fs_Rw.thy ===== *)
theory Fs_Rw
  imports Fs_File
begin

text \<open>
  \<^verbatim>\<open>bmap\<close>, \<^verbatim>\<open>readi\<close> and \<^verbatim>\<open>writei\<close>.  The abstract file is a list of bytes; reading is taking a part of the list and writing
  overwrites a part of it, extending it at the end.
\<close>

section \<open>The block map\<close>

definition ind_key :: "u32 \<Rightarrow> iptr \<Rightarrow> 'd fs \<Rightarrow> (u32 \<times> u32) set" where
  "ind_key dev ip s = (if ind_blk ip s = 0 then {} else {(dev, ind_blk ip s)})"

definition bmap_post :: "u32 \<Rightarrow> iptr \<Rightarrow> nat \<Rightarrow> 'd fs \<Rightarrow> 'd fs \<Rightarrow> bool" where
  "bmap_post dev ip bn s s' \<longleftrightarrow> file_ok dev ip s' \<and> faddr ip s' bn \<noteq> 0 \<and>
     (\<forall>j < MAXFILE. j \<noteq> bn \<longrightarrow> faddr ip s' j = faddr ip s j) \<and>
     (if faddr ip s bn = 0 then fcur s' (dev, faddr ip s' bn) = replicate BSIZE 0 \<and> \<not> used s dev (faddr ip s' bn)
      else faddr ip s' bn = faddr ip s bn) \<and>
     (ind_blk ip s' = ind_blk ip s \<or> ind_blk ip s = 0 \<and> \<not> used s dev (ind_blk ip s')) \<and>
     fs_frame dev ip (ind_key dev ip s) s s' \<and> card (free_blks dev s) \<le> card (free_blks dev s') + 2"

lemma finite_free [simp]: "finite (free_blks dev s)"
  by simp

lemma alloc_card: "alloc_step dev b s s' \<Longrightarrow> card (free_blks dev s) = card (free_blks dev s') + 1"
  using alloc_step_data(3,4) [of dev b s s'] card_Suc_Diff1 [of "free_blks dev s" b] by simp

lemma upd_ino_file [simp]:
  "free_blks dev (upd_ino ip f s) = free_blks dev s" "data_blk dev (upd_ino ip f s) = data_blk dev s"
  by (simp_all add: free_blks_def fun_eq_iff data_blk_def)

lemma bmap_direct:
  assumes t: "tx dev (Suc (Suc h)) (n + 5) s" and ok: "file_ok dev ip s" and bn: "bn < NDIRECT"
    and nh: "fheld s = {}" and free: "2 \<le> card (free_blks dev s)"
  shows "\<exists>s'. bmap ip bn s = Inr (faddr ip s' bn, s') \<and> (\<exists>m \<ge> n. tx dev (Suc (Suc h)) m s') \<and> bmap_post dev ip bn s s'"
proof (cases "faddr ip s bn = 0")
  case False
  then have "bmap ip bn s = Inr (faddr ip s bn, s)" using bn by (simp add: bmap_def faddr_def)
  with t ok False show ?thesis by (intro exI [of _ s] conjI exI [of _ "n + 5"]) (auto simp: bmap_post_def)
next
  case True
  have "tx dev (Suc (Suc h)) (Suc (Suc (n + 3))) s" using t by (simp add: numeral_eq_Suc)
  moreover have "disk_ok dev s" "free_blks dev s \<noteq> {}" using ok free by (auto simp: file_ok_def)
  ultimately obtain b s1 where b: "balloc dev s = Inr (b, s1)" "tx dev (Suc (Suc h)) (n + 3) s1" "alloc_step dev b s s1"
    using balloc_step [of dev "Suc h" "n + 3" s] nh by auto
  let ?s = "upd_ino ip (\<lambda>i. i\<lparr>i_addrs := (i_addrs i)[bn := b]\<rparr>) s1"
  note st = store_direct [OF ok b(3) bn True]
  have dev: "i_dev (ino s ip) = dev" and ip: "ip < length (inodes s)" using ok by (simp_all add: file_ok_def)
  have "i_addrs (ino s ip) ! bn = 0" using True bn by (simp add: faddr_def)
  then have "bmap ip bn s = Inr (faddr ip ?s bn, ?s)" using bn b(1) dev st(2) by (simp add: bmap_def)
  moreover have "fs_frame dev ip (ind_key dev ip s) s ?s"
    using ip alloc_step_fields(3) [OF b(3)]
    by (intro fs_frame_trans [OF alloc_frame [OF b(3)] upd_addrs_frame [where X = "{}"]]) auto
  moreover have "fcur ?s (dev, b) = replicate BSIZE 0" "\<not> used s dev b" using b(3) by (simp_all add: alloc_step_def)
  ultimately show ?thesis
    using b(2) st alloc_fresh(1) [OF ok b(3)] alloc_card [OF b(3)] True
    by (intro exI [of _ ?s] conjI exI [of _ "n + 3"]) (auto simp: bmap_post_def)
qed

text \<open>A block that the indirect block lists, or that is added to it; the indirect block is held while the bitmap is changed.\<close>

lemma bmap_slot:
  assumes t: "tx dev (Suc (Suc h)) (n + 3) s" and ok: "file_ok dev ip s" and bn: "NDIRECT \<le> bn" "bn < MAXFILE"
    and nh: "fheld s = {}" and free: "1 \<le> card (free_blks dev s)" and ind: "ind_blk ip s \<noteq> 0"
  shows "\<exists>s'. bmap ip bn s = Inr (faddr ip s' bn, s') \<and> (\<exists>m \<ge> n. tx dev (Suc (Suc h)) m s') \<and> bmap_post dev ip bn s s' \<and>
    card (free_blks dev s) \<le> card (free_blks dev s') + 1"
proof -
  let ?i = "ind_blk ip s" and ?k = "(dev, ind_blk ip s)"
  have dev: "i_dev (ino s ip) = dev" and ip: "ip < length (inodes s)" using ok by (simp_all add: file_ok_def)
  have dat: "data_blk dev s ?i" by (rule file_ok_data(1) [OF ok ind])
  have dk: "disk_ok dev s" "bitmap_ok dev s" using ok by (simp_all add: file_ok_def disk_ok_def)
  then have key: "dev_key dev ?k" using dat by (auto simp: dev_key_def block_key_def data_blk_def bitmap_ok_def)
  obtain bp s2 where r: "fbread dev ?i s = Inr (bp, s2)" "tx dev (Suc h) (n + 3) s2" "fholds s2 bp ?k" "settled s2 ?k"
    "fcur s2 = fcur s" "fheld s2 = {?k}" "rest s2 = rest s"
    using tx.rd_ok [OF t key] nh by auto
  have bm: "bmkey dev s \<notin> fheld s2" using dat by (auto simp: r(6) bmkey_def data_blk_def)
  note c2 = file_ok_cong [OF r(5,7) bm]
  have ok2: "file_ok dev ip s2" by (rule c2(5) [OF ok])
  have data: "bdata s2 bp = fcur s ?k" using tx.data_ok [OF r(2,3)] r(5) by simp
  have addr: "faddr ip s bn = get32 (fcur s ?k) (4 * (bn - NDIRECT))" using bn ind dev by (simp add: faddr_def)
  have unfold: "bmap ip bn s = bindE (if faddr ip s bn = 0
       then bindE (balloc dev s2) (\<lambda>(addr, s3).
         bindE (flog_write bp (set_bdata bp (put32 (bdata s3 bp) (4 * (bn - NDIRECT)) addr) s3)) (\<lambda>s4. Inr (addr, s4)))
       else Inr (faddr ip s bn, s2)) (\<lambda>(addr, s5). bindE (fbrelse bp s5) (\<lambda>s6. Inr (addr, s6)))"
  proof -
    have "bn - NDIRECT < NINDIRECT" "\<not> bn < NDIRECT" using bn by simp_all
    then show ?thesis using ind dev r(1) data addr by (simp add: bmap_def ind_blk_def Let_def)
  qed
  show ?thesis
  proof (cases "faddr ip s bn = 0")
    case False
    obtain s6 where s6: "fbrelse bp s2 = Inr s6" "tx dev (Suc (Suc h)) (n + 3) s6" "fcur s6 = fcur s2" "fheld s6 = {}" "rest s6 = rest s2"
      using tx.release_ok [OF r(2-4)] r(6) by auto
    have c6: "fcur s6 = fcur s" "rest s6 = rest s" "bmkey dev s \<notin> fheld s6" using s6 r by simp_all
    note c = file_ok_cong [OF c6]
    have "fs_frame dev ip X s s6" for X
      using c6 s6(4) nh by (simp add: fs_frame_def c(1) meta_def rest_def ino_def)
    then have "bmap_post dev ip bn s s6" using False c(3,4,6) c(5) [OF ok] by (simp add: bmap_post_def)
    moreover have "bmap ip bn s = Inr (faddr ip s6 bn, s6)" using False s6(1) c(3) by (simp add: unfold)
    ultimately show ?thesis using s6(2) c(6) by (intro exI [of _ s6] conjI exI [of _ "n + 3"]) simp_all
  next
    case True
    have "tx dev (Suc h) (Suc (Suc (n + 1))) s2" using r(2) by (simp add: numeral_eq_Suc)
    moreover have "disk_ok dev s2" using ok2 by (simp add: file_ok_def)
    moreover have "free_blks dev s2 \<noteq> {}" using free c2(6) by auto
    moreover have "\<forall>x. (dev, x) \<in> fheld s2 \<longrightarrow> used s2 dev x" using dat by (simp add: r(6) c2(1) data_blk_def)
    ultimately obtain b s3 where b: "balloc dev s2 = Inr (b, s3)" "tx dev (Suc h) (n + 1) s3" "alloc_step dev b s2 s3"
      using balloc_step [of dev h "n + 1" s2] by blast
    have ks: "keeps s2 s3" using b(3) by (simp add: alloc_step_def)
    have h3: "fholds s3 bp ?k" "fheld s3 = {?k}" using ks r(3,6) by (auto simp: keeps_def)
    have d3: "bdata s3 bp = fcur s3 ?k" by (rule tx.data_ok [OF b(2) h3(1)])
    have t3: "tx dev (Suc h) (Suc n) s3" using b(2) by simp
    obtain s4 where s4: "flog_write bp (set_bdata bp (put32 (bdata s3 bp) (4 * (bn - NDIRECT)) b) s3) = Inr s4"
      "tx dev (Suc h) n s4" "settled s4 ?k" "fcur s4 = (fcur s3)(?k := put32 (fcur s3 ?k) (4 * (bn - NDIRECT)) b)"
      "fheld s4 = {?k}" "rest s4 = rest s3" "fholds s4 bp ?k"
      using tx.lw_ok [OF t3 key h3(1)] h3 unfolding d3 by blast
    obtain s6 where s6: "fbrelse bp s4 = Inr s6" "tx dev (Suc (Suc h)) n s6" "fcur s6 = fcur s4" "fheld s6 = {}" "rest s6 = rest s4"
      using tx.release_ok [OF s4(2,7,3)] s4(5) by auto
    have hole: "faddr ip s2 bn = 0" "ind_blk ip s2 \<noteq> 0" using True ind c2 by simp_all
    have c6: "rest s6 = rest s3" "bmkey dev s2 \<notin> fheld s6"
      "fcur s6 = (fcur s3)((dev, ind_blk ip s2) := put32 (fcur s3 (dev, ind_blk ip s2)) (4 * (bn - NDIRECT)) b)"
      using s6 s4 c2(4) by simp_all
    note st = store_slot [OF ok2 b(3) bn hole c6]
    have fr: "b \<noteq> 0" "b \<noteq> ?i" using alloc_fresh [OF ok2 b(3)] c2(4) by simp_all
    have fb: "faddr ip s6 bn = b" using st(2) bn(2) by simp
    have res: "bmap ip bn s = Inr (faddr ip s6 bn, s6)" using True b(1) s4(1) s6(1) fb by (simp add: unfold)
    have frame: "fs_frame dev ip (ind_key dev ip s) s s6"
      unfolding fs_frame_def
    proof (intro conjI allI impI)
      have "rest s6 = rest s" using c6(1) ks r(7) by (simp add: keeps_def)
      then show "meta ip s6 = meta ip s" using s6(4) nh by (simp add: meta_def rest_def ino_def)
      show "used s6 dev c" if "used s dev c" for c using that st(5) c2(1) by simp
      show "fcur s6 k = fcur s k"
        if k: "k \<notin> ind_key dev ip s" "k \<noteq> bmkey dev s" "fst k = dev \<longrightarrow> used s dev (snd k)" for k
      proof -
        have "k \<noteq> ?k" using k(1) ind by (simp add: ind_key_def)
        then have "fcur s6 k = fcur s3 k" using c6(3) c2(4) by simp
        also have "\<dots> = fcur s2 k"
          using fs_frameD(3) [OF alloc_frame [OF b(3), where X = "{}"], of k] k(2,3) c2(1,7) by simp
        finally show ?thesis using r(5) by simp
      qed
    qed
    have "fcur s6 (dev, b) = replicate BSIZE 0" "\<not> used s dev b"
      using b(3) c6(3) c2(1,4) fr by (simp_all add: alloc_step_def)
    moreover have "card (free_blks dev s) = card (free_blks dev s6) + 1"
      using alloc_card [OF b(3)] st(4) alloc_step_data(3) [OF b(3)] c2(6) by simp
    ultimately have "bmap_post dev ip bn s s6"
      using st(1-3) fb fr True c2(3,4) frame by (simp add: bmap_post_def)
    with res s6(2) \<open>card (free_blks dev s) = card (free_blks dev s6) + 1\<close> show ?thesis
      by (intro exI [of _ s6] conjI exI [of _ n]) simp_all
  qed
qed

text \<open>\<^verbatim>\<open>bmap\<close> for every block number in range.\<close>

lemma bmap_ok:
  assumes t: "tx dev (Suc (Suc h)) (n + 5) s" and ok: "file_ok dev ip s" and bn: "bn < MAXFILE"
    and nh: "fheld s = {}" and free: "2 \<le> card (free_blks dev s)"
  obtains s' m where "bmap ip bn s = Inr (faddr ip s' bn, s')" "n \<le> m" "tx dev (Suc (Suc h)) m s'" "bmap_post dev ip bn s s'"
proof (cases "bn < NDIRECT")
  case True
  then show ?thesis using bmap_direct [OF t ok _ nh free] that by blast
next
  case False
  then have ge: "NDIRECT \<le> bn" by simp
  show ?thesis
  proof (cases "ind_blk ip s = 0")
    case nz: False
    have "tx dev (Suc (Suc h)) ((n + 2) + 3) s" "1 \<le> card (free_blks dev s)" using t free by (simp_all add: ac_simps)
    from bmap_slot [OF this(1) ok ge bn nh this(2) nz] show ?thesis by (meson add_leD1 that)
  next
    case True
    have "tx dev (Suc (Suc h)) (Suc (Suc (n + 3))) s" using t by (simp add: numeral_eq_Suc)
    moreover have "disk_ok dev s" "free_blks dev s \<noteq> {}" using ok free by (auto simp: file_ok_def)
    ultimately obtain b s1 where b: "balloc dev s = Inr (b, s1)" "tx dev (Suc (Suc h)) (n + 3) s1" "alloc_step dev b s s1"
      using balloc_step [of dev "Suc h" "n + 3" s] nh by auto
    let ?s = "upd_ino ip (\<lambda>i. i\<lparr>i_addrs := (i_addrs i)[NDIRECT := b]\<rparr>) s1"
    note st = store_indirect [OF ok b(3) True] and f = alloc_step_fields [OF b(3)]
    have dev: "i_dev (ino s ip) = dev" and ip: "ip < length (inodes s)" "length (i_addrs (ino s ip)) = NDIRECT + 1"
      using ok by (simp_all add: file_ok_def)
    have b0: "b \<noteq> 0" by (rule alloc_fresh(1) [OF ok b(3)])
    have i': "ino ?s ip = (ino s ip)\<lparr>i_addrs := (i_addrs (ino s ip))[NDIRECT := b]\<rparr>" using ip f by simp
    have same: "bmap ip bn s = bmap ip bn ?s"
      using b(1) dev True False b0 ip unfolding bmap_def Let_def i' by (simp add: ind_blk_def cong: if_cong)
    have "tx dev (Suc (Suc h)) (n + 3) ?s" "fheld ?s = {}" "1 \<le> card (free_blks dev ?s)" "ind_blk ip ?s \<noteq> 0"
      using b(2) f(4) nh alloc_card [OF b(3)] free st(3) b0 by simp_all
    from bmap_slot [OF this(1) st(1) ge bn this(2-4)]
    obtain s' m where s': "bmap ip bn ?s = Inr (faddr ip s' bn, s')" "n \<le> m" "tx dev (Suc (Suc h)) m s'" "bmap_post dev ip bn ?s s'"
      "card (free_blks dev ?s) \<le> card (free_blks dev s') + 1" by blast
    have frame: "fs_frame dev ip (ind_key dev ip s) s ?s"
      using ip f(3) by (intro fs_frame_trans [OF alloc_frame [OF b(3)] upd_addrs_frame [where X = "{}"]]) auto
    have "fs_frame dev ip (ind_key dev ip s) s s'"
    proof (rule fs_frame_trans [OF frame])
      show "fs_frame dev ip (ind_key dev ip ?s) ?s s'" using s'(4) by (simp add: bmap_post_def)
      show "k \<in> ind_key dev ip s \<or> fst k = dev \<and> \<not> used s dev (snd k)" if "k \<in> ind_key dev ip ?s" for k
        using that b(3) st(3) by (auto simp: ind_key_def alloc_step_def split: if_splits)
    qed
    moreover have "\<not> used s dev x" if "\<not> used ?s dev x" for x using that fs_frameD(2) [OF frame] by blast
    moreover have "\<not> used s dev (ind_blk ip ?s)" using b(3) st(3) by (simp add: alloc_step_def)
    ultimately have "bmap_post dev ip bn s s'"
      using s'(4,5) st(2) alloc_card [OF b(3)] True b0 st(3) by (auto simp: bmap_post_def split: if_splits)
    with s' same show ?thesis using that by metis
  qed
qed

section \<open>A file as a list of bytes\<close>

definition fbyte :: "u32 \<Rightarrow> iptr \<Rightarrow> 'd fs \<Rightarrow> nat \<Rightarrow> u8" where
  "fbyte dev ip s i = fcur s (dev, faddr ip s (i div BSIZE)) ! (i mod BSIZE)"

definition fbytes :: "u32 \<Rightarrow> iptr \<Rightarrow> 'd fs \<Rightarrow> u8 list" where
  "fbytes dev ip s = map (fbyte dev ip s) [0..<unat (i_size (ino s ip))]"

text \<open>An ordinary file or directory, all of whose blocks are there.\<close>

definition whole_file :: "u32 \<Rightarrow> iptr \<Rightarrow> 'd fs \<Rightarrow> bool" where
  "whole_file dev ip s \<longleftrightarrow> file_ok dev ip s \<and> i_type (ino s ip) \<noteq> T_DEV \<and> unat (i_size (ino s ip)) \<le> MAXFILE * BSIZE \<and>
     (\<forall>bn. bn * BSIZE < unat (i_size (ino s ip)) \<longrightarrow> faddr ip s bn \<noteq> 0)"

lemma whole_file_addr: "whole_file dev ip s \<Longrightarrow> i < unat (i_size (ino s ip)) \<Longrightarrow> faddr ip s (i div BSIZE) \<noteq> 0 \<and> i div BSIZE < MAXFILE"
proof -
  assume w: "whole_file dev ip s" and i: "i < unat (i_size (ino s ip))"
  have "i div BSIZE * BSIZE \<le> i" by simp
  then have "i div BSIZE * BSIZE < unat (i_size (ino s ip))" using i by linarith
  moreover have "i < MAXFILE * BSIZE" using w i by (simp add: whole_file_def)
  ultimately show ?thesis using w by (auto simp: whole_file_def less_mult_imp_div_less)
qed

lemma same_block: "j < BSIZE - off mod BSIZE \<Longrightarrow> (off + j) div BSIZE = off div BSIZE \<and> (off + j) mod BSIZE = off mod BSIZE + j" for off :: nat
proof -
  assume "j < BSIZE - off mod BSIZE"
  then have lt: "off mod BSIZE + j < BSIZE" by linarith
  have eq: "BSIZE * (off div BSIZE) + off mod BSIZE = off" by (rule mult_div_mod_eq)
  have q: "(off + j) div BSIZE = off div BSIZE" 
  proof (rule div_nat_eqI)
    show "BSIZE * (off div BSIZE) \<le> off + j" using eq by linarith
    show "off + j < BSIZE * Suc (off div BSIZE)" unfolding mult_Suc_right using lt eq by linarith
  qed
  moreover have "BSIZE * ((off + j) div BSIZE) + (off + j) mod BSIZE = off + j" by (rule mult_div_mod_eq)
  ultimately show ?thesis using eq by linarith
qed

lemma slice_bytes:
  assumes "m \<le> BSIZE - off mod BSIZE" and "length (fcur s (dev, faddr ip s (off div BSIZE))) = BSIZE"
  shows "slice (fcur s (dev, faddr ip s (off div BSIZE))) (off mod BSIZE) m = map (fbyte dev ip s) [off..<off + m]"
proof (rule nth_equalityI)
  have "off mod BSIZE < BSIZE" by simp
  then show "length (slice (fcur s (dev, faddr ip s (off div BSIZE))) (off mod BSIZE) m) = length (map (fbyte dev ip s) [off..<off + m])"
    using assms by (simp add: slice_def)
  fix j assume "j < length (slice (fcur s (dev, faddr ip s (off div BSIZE))) (off mod BSIZE) m)"
  then have j: "j < m" by (simp add: slice_def)
  with assms(1) same_block [of j off] show "slice (fcur s (dev, faddr ip s (off div BSIZE))) (off mod BSIZE) m ! j = map (fbyte dev ip s) [off..<off + m] ! j"
    using assms(2) by (simp add: slice_def fbyte_def)
qed

lemma tx_mono: "tx dev h n s \<Longrightarrow> m \<le> n \<Longrightarrow> tx dev h m s"
  by (auto simp: tx_def log_room_def)

section \<open>Reading\<close>

lemma bmap_mapped:
  assumes t: "tx dev (Suc h) n s" and ok: "file_ok dev ip s" and bn: "bn < MAXFILE" and nh: "fheld s = {}" and nz: "faddr ip s bn \<noteq> 0"
  obtains s' where "bmap ip bn s = Inr (faddr ip s bn, s')" "tx dev (Suc h) n s'" "fcur s' = fcur s" "keeps s s'"
proof (cases "bn < NDIRECT")
  case True
  then have "bmap ip bn s = Inr (faddr ip s bn, s)" using nz by (simp add: bmap_def faddr_def)
  with t that show ?thesis by auto
next
  case False
  then have ind: "ind_blk ip s \<noteq> 0" using nz by (auto simp: faddr_def)
  have dev: "i_dev (ino s ip) = dev" using ok by (simp add: file_ok_def)
  have "block_key (dev, ind_blk ip s)"
    using file_ok_data(1) [OF ok ind] ok by (auto simp: block_key_def data_blk_def file_ok_def disk_ok_def bitmap_ok_def)
  then obtain bp s1 s2 where r: "fbread dev (ind_blk ip s) s = Inr (bp, s1)" "bdata s1 bp = fcur s (dev, ind_blk ip s)"
    "fbrelse bp s1 = Inr s2" "tx dev (Suc h) n s2" "fcur s2 = fcur s" "keeps s s2"
    by (rule read_ok [OF t]) (simp add: nh, rule that, assumption+)
  have "bn - NDIRECT < NINDIRECT" using bn False by simp
  then have "bmap ip bn s = Inr (faddr ip s bn, s2)"
    using False ind dev r nz by (simp add: bmap_def faddr_def ind_blk_def Let_def)
  with r that show ?thesis by blast
qed

lemma keeps_file_ok:
  assumes "keeps s s'" and "fcur s' = fcur s" and "file_ok dev ip s"
  shows "file_ok dev ip s'" "faddr ip s' = faddr ip s" "used s' = used s" "ind_blk ip s' = ind_blk ip s"
proof -
  have r: "rest s' = rest s" "bmkey dev s \<notin> fheld s'"
    using assms(1,3) by (auto simp: keeps_def file_ok_def disk_ok_def bitmap_ok_def)
  show "file_ok dev ip s'" "faddr ip s' = faddr ip s" "used s' = used s" "ind_blk ip s' = ind_blk ip s"
    using file_ok_cong [OF assms(2) r] assms(3) by auto
qed

lemma data_key:
  assumes "file_ok dev ip s" and "data_blk dev s a"
  shows "block_key (dev, a)" "length (fcur s (dev, a)) = BSIZE" "(dev, a) \<noteq> bmkey dev s"
  using assms by (auto simp: block_key_def data_blk_def file_ok_def disk_ok_def bitmap_ok_def bmkey_def)

lemma readi_loop_ok:
  assumes "tx dev (Suc h) n s" and "file_ok dev ip s" and "fheld s = {}"
    and "\<forall>i. off \<le> i \<longrightarrow> i < off + left \<longrightarrow> i div BSIZE < MAXFILE \<and> faddr ip s (i div BSIZE) \<noteq> 0"
  shows "\<exists>s'. readi_loop ip off left s = Inr (map (fbyte dev ip s) [off..<off + left], s') \<and> tx dev (Suc h) n s' \<and>
    fcur s' = fcur s \<and> keeps s s'"
  using assms
proof (induction left arbitrary: off s rule: less_induct)
  case (less left)
  show ?case
  proof (cases "left = 0")
    case True
    then show ?thesis using less.prems by (subst readi_loop.simps) simp
  next
    case False
    let ?bn = "off div BSIZE" and ?m = "min left (BSIZE - off mod BSIZE)"
    have bn: "?bn < MAXFILE" "faddr ip s ?bn \<noteq> 0" using less.prems(4) False by auto
    note t = less.prems(1) and ok = less.prems(2) and nh = less.prems(3)
    obtain s1 where s1: "bmap ip ?bn s = Inr (faddr ip s ?bn, s1)" "tx dev (Suc h) n s1" "fcur s1 = fcur s" "keeps s s1"
      by (rule bmap_mapped [OF t ok bn(1) nh bn(2)])
    note dk = data_key [OF ok file_ok_data(2) [OF ok bn]]
    have dev: "i_dev (ino s ip) = dev" "ino s1 ip = ino s ip" "fheld s1 = {}"
      using ok keeps_fields [OF s1(4)] nh by (simp_all add: file_ok_def)
    obtain bp s2 s3 where r: "fbread dev (faddr ip s ?bn) s1 = Inr (bp, s2)" "bdata s2 bp = fcur s1 (dev, faddr ip s ?bn)"
      "fbrelse bp s2 = Inr s3" "tx dev (Suc h) n s3" "fcur s3 = fcur s1" "keeps s1 s3"
      by (rule read_ok [OF s1(2) dk(1)]) (simp add: dev, rule that, assumption+)
    have k3: "keeps s s3" using s1(4) r(6) by (rule keeps_trans)
    have c3: "fcur s3 = fcur s" using r(5) s1(3) by simp
    note f3 = keeps_file_ok [OF k3 c3 ok]
    have pos: "0 < ?m" "?m \<le> left" using False by simp_all
    have "\<exists>s'. readi_loop ip (off + ?m) (left - ?m) s3 = Inr (map (fbyte dev ip s3) [off + ?m..<off + ?m + (left - ?m)], s') \<and>
        tx dev (Suc h) n s' \<and> fcur s' = fcur s3 \<and> keeps s3 s'"
      using pos less.prems(4) f3 keeps_fields(4) [OF k3] nh by (intro less.IH r(4)) auto
    then obtain s' where s': "readi_loop ip (off + ?m) (left - ?m) s3 = Inr (map (fbyte dev ip s3) [off + ?m..<off + left], s')"
      "tx dev (Suc h) n s'" "fcur s' = fcur s3" "keeps s3 s'" using pos by auto
    have fb: "fbyte dev ip s3 = fbyte dev ip s" by (simp add: fun_eq_iff fbyte_def f3 c3)
    have "slice (bdata s2 bp) (off mod BSIZE) ?m = map (fbyte dev ip s) [off..<off + ?m]"
      using slice_bytes [of ?m off s dev ip] dk(2) r(2) s1(3) by simp
    then have "readi_loop ip off left s = Inr (map (fbyte dev ip s) [off..<off + ?m] @ map (fbyte dev ip s) [off + ?m..<off + left], s')"
      using False s1(1) r(1,3) s'(1) dev fb by (subst readi_loop.simps) (simp add: Let_def)
    also have "map (fbyte dev ip s) [off..<off + ?m] @ map (fbyte dev ip s) [off + ?m..<off + left] = map (fbyte dev ip s) [off..<off + left]"
      using pos(2) upt_add_eq_append [of off "off + ?m" "left - ?m"] by (simp flip: map_append)
    finally show ?thesis using s' c3 keeps_trans [OF k3 s'(4)] by auto
  qed
qed


lemma sint_small_u32: "unat w < 2 ^ 31 \<Longrightarrow> sint (w :: u32) = int (unat w)"
proof -
  assume "unat w < 2 ^ 31"
  then have u: "uint w < 2 ^ 31" using of_nat_less_iff [of "unat w" "2 ^ 31", where 'a = int] by simp
  have "sint w = signed_take_bit (LENGTH(32) - 1) (uint w)" by (simp add: sint_uint)
  also have "\<dots> = uint w" by (rule signed_take_bit_int_eq_self) (use u uint_ge_0 [of w] in \<open>simp_all add: order_trans [of _ 0]\<close>)
  finally show ?thesis by simp
qed

text \<open>\<^verbatim>\<open>readi\<close> returns the part of the file from \<^verbatim>\<open>off\<close> on, cut at the end of the file.\<close>

lemma readi_ok:
  assumes t: "tx dev (Suc h) m s" and w: "whole_file dev ip s" and nh: "fheld s = {}"
    and off: "off \<le> i_size (ino s ip)" "off \<le> off + n"
  defines "r \<equiv> take (unat n) (drop (unat off) (fbytes dev ip s))"
  shows "\<exists>s'. readi ip off n s = Inr (int (length r), r, s') \<and> tx dev (Suc h) m s' \<and> fcur s' = fcur s \<and> keeps s s'"
proof -
  let ?sz = "i_size (ino s ip)"
  define k where "k = (if off + n > ?sz then ?sz - off else n)"
  have ok: "file_ok dev ip s" and ty: "i_type (ino s ip) \<noteq> T_DEV" and sz: "unat ?sz \<le> MAXFILE * BSIZE" using w by (simp_all add: whole_file_def)
  have on: "unat (off + n) = unat off + unat n" using off(2) unat_plus_simple [of off n] by simp
  have os: "unat off \<le> unat ?sz" "unat (?sz - off) = unat ?sz - unat off"
    using off(1) by (simp_all add: word_le_nat_alt unat_sub)
  have k: "unat k = min (unat n) (unat ?sz - unat off)"
    using os on by (auto simp: k_def word_less_nat_alt not_less min_def)
  have "\<forall>i. unat off \<le> i \<longrightarrow> i < unat off + unat k \<longrightarrow> i div BSIZE < MAXFILE \<and> faddr ip s (i div BSIZE) \<noteq> 0"
  proof (intro allI impI)
    fix i assume "unat off \<le> i" "i < unat off + unat k"
    then have "i < unat ?sz" using k os(1) by auto
    with whole_file_addr [OF w] show "i div BSIZE < MAXFILE \<and> faddr ip s (i div BSIZE) \<noteq> 0" by blast
  qed
  from readi_loop_ok [OF t ok nh this]
  obtain s' where s': "readi_loop ip (unat off) (unat k) s = Inr (map (fbyte dev ip s) [unat off..<unat off + unat k], s')"
    "tx dev (Suc h) m s'" "fcur s' = fcur s" "keeps s s'" by blast
  have r: "map (fbyte dev ip s) [unat off..<unat off + unat k] = r"
    unfolding r_def fbytes_def k using os(1) by (simp add: drop_map take_map min_def take_upt)
  have len: "length r = unat k" unfolding r [symmetric] by simp
  have "unat k < 2 ^ 31" using k sz by simp
  then have "sint k = int (length r)" using sint_small_u32 [of k] len by simp
  moreover have "\<not> (off > ?sz \<or> off + n < off)" using off by (auto simp: not_less)
  ultimately have "readi ip off n s = Inr (int (length r), r, s')"
    using ty s'(1) r unfolding readi_def Let_def k_def [symmetric] by simp
  with s' show ?thesis by blast
qed

section \<open>Writing\<close>

definition own :: "u32 \<Rightarrow> iptr \<Rightarrow> 'd fs \<Rightarrow> (u32 \<times> u32) set" where
  "own dev ip s = ind_key dev ip s \<union> {(dev, faddr ip s i) |i. i < MAXFILE \<and> faddr ip s i \<noteq> 0}"

lemma write_data:
  assumes ok: "file_ok dev ip s" and bn: "bn < MAXFILE" "faddr ip s bn \<noteq> 0" and k: "keeps s s'"
    and c: "fcur s' = (fcur s)((dev, faddr ip s bn) := d)" and d: "length d = BSIZE"
  shows "file_ok dev ip s'" "faddr ip s' = faddr ip s" "ind_blk ip s' = ind_blk ip s" "used s' dev = used s dev"
    "free_blks dev s' = free_blks dev s" "fs_frame dev ip (own dev ip s) s s'"
proof -
  note f = keeps_fields [OF k] and dk = data_key [OF ok file_ok_data(2) [OF ok bn]]
  have dev: "i_dev (ino s ip) = dev" using ok by (simp add: file_ok_def)
  have b: "bmkey dev s' = bmkey dev s" "fcur s' (bmkey dev s) = fcur s (bmkey dev s)" using dk(3) by (simp_all add: bmkey_def f c)
  show i: "ind_blk ip s' = ind_blk ip s" by (simp add: ind_blk_def f)
  have "ind_blk ip s \<noteq> faddr ip s bn" using ok bn by (auto simp: file_ok_def)
  then show fa: "faddr ip s' = faddr ip s" by (simp add: fun_eq_iff faddr_def i f c dev)
  show u: "used s' dev = used s dev" by (simp add: fun_eq_iff used_def b)
  show "free_blks dev s' = free_blks dev s" by (simp add: free_blks_def u f)
  have db: "data_blk dev s' = data_blk dev s" by (simp add: fun_eq_iff data_blk_def u f)
  have "disk_ok dev s'"
    using ok d unfolding file_ok_def disk_ok_def bitmap_ok_def b u f by (auto simp: c)
  then show "file_ok dev ip s'" using ok unfolding file_ok_def fa i db f by simp
  show "fs_frame dev ip (own dev ip s) s s'"
    unfolding fs_frame_def
  proof (intro conjI allI impI)
    show "meta ip s' = meta ip s" using k by (simp add: meta_def keeps_def rest_def ino_def)
    show "used s' dev c" if "used s dev c" for c using that by (simp add: u)
    show "fcur s' k = fcur s k" if "k \<notin> own dev ip s" for k using that bn by (auto simp: own_def c)
  qed
qed

lemma length_splice: "o1 + length bs \<le> length d \<Longrightarrow> length (splice d o1 bs) = length d"
  by (simp add: splice_def)

lemma splice_nth:
  "o1 + length bs \<le> length d \<Longrightarrow> j < length d \<Longrightarrow>
   splice d o1 bs ! j = (if o1 \<le> j \<and> j < o1 + length bs then bs ! (j - o1) else d ! j)"
  by (auto simp: splice_def nth_append min_def)


text \<open>One turn of the loop of \<^verbatim>\<open>writei\<close>: find or allocate the block, change it, log it.\<close>

definition wrote :: "u32 \<Rightarrow> iptr \<Rightarrow> nat \<Rightarrow> u8 list \<Rightarrow> 'd fs \<Rightarrow> 'd fs \<Rightarrow> bool" where
  "wrote dev ip off src s s' \<longleftrightarrow> file_ok dev ip s' \<and> fs_frame dev ip (own dev ip s) s s' \<and>
     (\<forall>i. off \<le> i \<longrightarrow> i < off + length src \<longrightarrow> faddr ip s' (i div BSIZE) \<noteq> 0 \<and> fbyte dev ip s' i = src ! (i - off)) \<and>
     (\<forall>j < MAXFILE. faddr ip s j \<noteq> 0 \<longrightarrow> faddr ip s' j = faddr ip s j) \<and>
     (\<forall>i < MAXFILE * BSIZE. faddr ip s (i div BSIZE) \<noteq> 0 \<longrightarrow> i < off \<or> off + length src \<le> i \<longrightarrow> fbyte dev ip s' i = fbyte dev ip s i) \<and>
     (\<forall>k \<in> own dev ip s'. k \<in> own dev ip s \<or> fst k = dev \<and> \<not> used s dev (snd k))"

lemma own_used: "file_ok dev ip s \<Longrightarrow> k \<in> own dev ip s \<Longrightarrow> fst k = dev \<and> data_blk dev s (snd k) \<and> k \<noteq> bmkey dev s"
  by (auto simp: own_def ind_key_def file_ok_def data_blk_def bmkey_def split: if_splits)

lemma bmap_post_cur:
  assumes ok: "file_ok dev ip s" and p: "bmap_post dev ip bn s s'" and j: "j < MAXFILE" "faddr ip s j \<noteq> 0"
  shows "faddr ip s' j = faddr ip s j" "fcur s' (dev, faddr ip s j) = fcur s (dev, faddr ip s j)"
proof -
  show "faddr ip s' j = faddr ip s j" using p j by (cases "j = bn") (auto simp: bmap_post_def split: if_splits)
  have fr: "fs_frame dev ip (ind_key dev ip s) s s'" using p by (simp add: bmap_post_def)
  have d: "data_blk dev s (faddr ip s j)" "faddr ip s j \<noteq> ind_blk ip s" using ok j by (auto simp: file_ok_def)
  show "fcur s' (dev, faddr ip s j) = fcur s (dev, faddr ip s j)"
    using d data_key(3) [OF ok d(1)] by (intro fs_frameD(3) [OF fr]) (auto simp: ind_key_def data_blk_def)
qed

lemma bmap_post_own:
  assumes ok: "file_ok dev ip s" and p: "bmap_post dev ip bn s s'" and bn: "bn < MAXFILE" and k: "k \<in> own dev ip s'"
  shows "k \<in> own dev ip s \<or> fst k = dev \<and> \<not> used s dev (snd k)"
proof -
  have ind: "ind_blk ip s' = ind_blk ip s \<or> ind_blk ip s = 0 \<and> \<not> used s dev (ind_blk ip s')"
    and new: "faddr ip s bn = 0 \<Longrightarrow> \<not> used s dev (faddr ip s' bn)"
    and old: "\<And>j. j < MAXFILE \<Longrightarrow> j \<noteq> bn \<or> faddr ip s bn \<noteq> 0 \<Longrightarrow> faddr ip s' j = faddr ip s j"
    using p by (auto simp: bmap_post_def split: if_splits)
  consider "ind_blk ip s' \<noteq> 0" "k = (dev, ind_blk ip s')" | i where "i < MAXFILE" "faddr ip s' i \<noteq> 0" "k = (dev, faddr ip s' i)"
    using k by (auto simp: own_def ind_key_def split: if_splits)
  then show ?thesis
  proof cases
    case 1
    then show ?thesis using ind by (auto simp: own_def ind_key_def)
  next
    case (2 i)
    then show ?thesis using new old [of i] by (cases "i = bn \<and> faddr ip s bn = 0") (auto simp: own_def)
  qed
qed

lemma write_turn:
  assumes t: "tx dev (Suc (Suc h)) (n + 6) s" and ok: "file_ok dev ip s" and bn: "off div BSIZE < MAXFILE" and nh: "fheld s = {}"
    and free: "2 \<le> card (free_blks dev s)" and len: "length bs \<le> BSIZE - off mod BSIZE" "bs \<noteq> []"
  obtains s1 bp s2 s3 s4 where "bmap ip (off div BSIZE) s = Inr (faddr ip s1 (off div BSIZE), s1)" "i_dev (ino s1 ip) = dev"
    "fbread dev (faddr ip s1 (off div BSIZE)) s1 = Inr (bp, s2)"
    "flog_write bp (set_bdata bp (splice (bdata s2 bp) (off mod BSIZE) bs) s2) = Inr s3" "fbrelse bp s3 = Inr s4"
    "tx dev (Suc (Suc h)) n s4" "wrote dev ip off bs s s4" "fheld s4 = {}" "card (free_blks dev s) \<le> card (free_blks dev s4) + 2"
proof -
  let ?bn = "off div BSIZE" and ?o = "off mod BSIZE"
  have "tx dev (Suc (Suc h)) (Suc n + 5) s" using t by (simp add: numeral_eq_Suc)
  then obtain s1 m where b: "bmap ip ?bn s = Inr (faddr ip s1 ?bn, s1)" "Suc n \<le> m" "tx dev (Suc (Suc h)) m s1" "bmap_post dev ip ?bn s s1"
    by (rule bmap_ok [OF _ ok bn nh free])
  let ?a = "faddr ip s1 ?bn"
  have t1: "tx dev (Suc (Suc h)) (Suc n) s1" using b(2,3) tx_mono by blast
  have ok1: "file_ok dev ip s1" "?a \<noteq> 0" and fr1: "fs_frame dev ip (ind_key dev ip s) s s1"
    and card: "card (free_blks dev s) \<le> card (free_blks dev s1) + 2" using b(4) by (simp_all add: bmap_post_def)
  note dk = data_key [OF ok1(1) file_ok_data(2) [OF ok1(1) bn ok1(2)]]
  have nh1: "fheld s1 = {}" using fs_frame_meta(4) [OF fr1] nh by simp
  let ?d = "splice (fcur s1 (dev, ?a)) ?o bs"
  obtain bp s2 s3 s4 where u: "fbread dev ?a s1 = Inr (bp, s2)" "bdata s2 bp = fcur s1 (dev, ?a)"
    "flog_write bp (set_bdata bp ?d s2) = Inr s3" "fbrelse bp s3 = Inr s4" "tx dev (Suc (Suc h)) n s4"
    "fcur s4 = (fcur s1)((dev, ?a) := ?d)" "keeps s1 s4"
    by (rule update_ok [OF t1 dk(1), of "\<lambda>d. splice d ?o bs"]) (simp add: nh1, rule that, assumption+)
  have o: "?o < BSIZE" by simp
  then have fits: "?o + length bs \<le> length (fcur s1 (dev, ?a))" using len(1) dk(2) by linarith
  have dlen: "length ?d = BSIZE" using length_splice [OF fits] dk(2) by simp
  note w = write_data [OF ok1(1) bn ok1(2) u(7,6) dlen]
  have byte: "fbyte dev ip s4 i = (if off \<le> i \<and> i < off + length bs then bs ! (i - off) else fcur s1 (dev, faddr ip s1 (i div BSIZE)) ! (i mod BSIZE))"
    if i: "i div BSIZE < MAXFILE" "faddr ip s1 (i div BSIZE) \<noteq> 0" for i
  proof (cases "i div BSIZE = ?bn")
    case True
    have "BSIZE * (i div BSIZE) + i mod BSIZE = i" "BSIZE * ?bn + ?o = off" by (rule mult_div_mod_eq)+
    then have "off \<le> i \<longleftrightarrow> ?o \<le> i mod BSIZE" "i < off + length bs \<longleftrightarrow> i mod BSIZE < ?o + length bs"
      "i mod BSIZE - ?o = i - off" unfolding True by linarith+
    with splice_nth [OF fits, of "i mod BSIZE"] dk(2) True show ?thesis by (simp add: fbyte_def w(2) u(6))
  next
    case False
    have "\<not> (off \<le> i \<and> i < off + length bs)"
    proof
      assume i: "off \<le> i \<and> i < off + length bs"
      then have "i - off < BSIZE - off mod BSIZE" using len(1) by linarith
      with i False same_block [of "i - off" off] show False by simp
    qed
    moreover have "faddr ip s1 (i div BSIZE) \<noteq> ?a" using ok1(1) i bn False unfolding file_ok_def by blast
    ultimately show ?thesis by (auto simp: fbyte_def w(2) u(6))
  qed
  have "wrote dev ip off bs s s4"
    unfolding wrote_def
  proof (intro conjI allI impI ballI)
    show "file_ok dev ip s4" by (rule w(1))
    show "fs_frame dev ip (own dev ip s) s s4"
      using fs_frame_mono [OF fr1, of "own dev ip s"] bmap_post_own [OF ok b(4) bn]
      by (intro fs_frame_trans [OF _ w(6)]) (auto simp: own_def)
    fix i
    show "faddr ip s4 (i div BSIZE) \<noteq> 0" if "off \<le> i" "i < off + length bs"
      using that ok1(2) same_block [of "i - off" off] len by (simp add: w(2))
    show "fbyte dev ip s4 i = bs ! (i - off)" if "off \<le> i" "i < off + length bs"
      using that byte [of i] same_block [of "i - off" off] len bn ok1(2) by simp
    show "faddr ip s4 i = faddr ip s i" if "i < MAXFILE" "faddr ip s i \<noteq> 0"
      using bmap_post_cur(1) [OF ok b(4) that] by (simp add: w(2))
    show "fbyte dev ip s4 i = fbyte dev ip s i" if "i < MAXFILE * BSIZE" "faddr ip s (i div BSIZE) \<noteq> 0" "i < off \<or> off + length bs \<le> i"
    proof -
      have "i div BSIZE < MAXFILE" using that(1) by (simp add: less_mult_imp_div_less)
      with that byte [of i] bmap_post_cur [OF ok b(4), of "i div BSIZE"] show ?thesis by (auto simp: fbyte_def)
    qed
    show "k \<in> own dev ip s \<or> fst k = dev \<and> \<not> used s dev (snd k)" if "k \<in> own dev ip s4" for k
      using that bmap_post_own [OF ok b(4) bn, of k] unfolding own_def ind_key_def w(2,3) by blast
  qed
  moreover have "i_dev (ino s1 ip) = dev" using ok1 by (simp add: file_ok_def)
  moreover have "fheld s4 = {}" "card (free_blks dev s) \<le> card (free_blks dev s4) + 2" using keeps_fields(4) [OF u(7)] nh1 card w(5) by simp_all
  ultimately show ?thesis using that b(1) u by metis
qed


text \<open>The number of turns of the loop.\<close>

definition turns :: "nat \<Rightarrow> nat \<Rightarrow> nat" where
  "turns off len = (if len = 0 then 0 else (off mod BSIZE + len + (BSIZE - 1)) div BSIZE)"

lemma turns_step:
  fixes off len :: nat
  assumes "0 < len"
  defines "m \<equiv> min len (BSIZE - off mod BSIZE)"
  shows "turns off len = Suc (turns (off + m) (len - m))"
proof (cases "len \<le> BSIZE - off mod BSIZE")
  case True
  have "off mod BSIZE < BSIZE" by simp
  then have "(off mod BSIZE + len + (BSIZE - 1)) div BSIZE = 1" using True assms(1) by (intro div_nat_eqI) auto
  with True assms show ?thesis by (simp add: turns_def)
next
  case False
  have lt: "off mod BSIZE < BSIZE" by simp
  have m: "m = BSIZE - off mod BSIZE" using False by (simp add: m_def)
  have "off + m = BSIZE * (off div BSIZE) + BSIZE" using m lt mult_div_mod_eq [of BSIZE off] by linarith
  then have "(off + m) mod BSIZE = 0" by simp
  moreover have "off mod BSIZE + len + (BSIZE - 1) = (len - m + (BSIZE - 1)) + BSIZE" using m False lt by linarith
  then have "(off mod BSIZE + len + (BSIZE - 1)) div BSIZE = Suc ((len - m + (BSIZE - 1)) div BSIZE)" by simp
  moreover have "0 < len - m" using m False by linarith
  ultimately show ?thesis using assms(1) by (simp add: turns_def)
qed

lemma wrote_trans:
  assumes ok: "file_ok dev ip s" and a: "wrote dev ip off xs s s1" and b: "wrote dev ip (off + length xs) ys s1 s2"
    and bound: "off + length xs + length ys \<le> MAXFILE * BSIZE"
  shows "wrote dev ip off (xs @ ys) s s2"
  unfolding wrote_def
proof (intro conjI allI impI ballI)
  note a' = a [unfolded wrote_def] and b' = b [unfolded wrote_def]
  show "file_ok dev ip s2" using b' by blast
  show "fs_frame dev ip (own dev ip s) s s2"
    using a' b' by (intro fs_frame_trans [of dev ip "own dev ip s" s s1 "own dev ip s1" s2]) auto
  show "faddr ip s2 j = faddr ip s j" if "j < MAXFILE" "faddr ip s j \<noteq> 0" for j using that a' b' by metis
  fix i
  show "faddr ip s2 (i div BSIZE) \<noteq> 0" "fbyte dev ip s2 i = (xs @ ys) ! (i - off)" if i: "off \<le> i" "i < off + length (xs @ ys)"
  proof -
    have lt: "i div BSIZE < MAXFILE" "i < MAXFILE * BSIZE" using i bound by (auto simp: less_mult_imp_div_less)
    have "faddr ip s2 (i div BSIZE) \<noteq> 0 \<and> fbyte dev ip s2 i = (xs @ ys) ! (i - off)"
    proof (cases "i < off + length xs")
      case True
      then have "faddr ip s1 (i div BSIZE) \<noteq> 0" "fbyte dev ip s1 i = xs ! (i - off)" using a' i by blast+
      moreover have "faddr ip s2 (i div BSIZE) = faddr ip s1 (i div BSIZE)" "fbyte dev ip s2 i = fbyte dev ip s1 i"
        using b' lt calculation(1) True by blast+
      ultimately show ?thesis using True i by (simp add: nth_append less_diff_conv2)
    next
      case False
      then have "faddr ip s2 (i div BSIZE) \<noteq> 0" "fbyte dev ip s2 i = ys ! (i - (off + length xs))" using b' i by auto
      moreover have "\<not> i - off < length xs" "i - off - length xs = i - (off + length xs)" using False by linarith+
      ultimately show ?thesis by (simp add: nth_append)
    qed
    then show "faddr ip s2 (i div BSIZE) \<noteq> 0" "fbyte dev ip s2 i = (xs @ ys) ! (i - off)" by auto
  qed
  show "fbyte dev ip s2 i = fbyte dev ip s i"
    if i: "i < MAXFILE * BSIZE" "faddr ip s (i div BSIZE) \<noteq> 0" "i < off \<or> off + length (xs @ ys) \<le> i"
  proof -
    have lt: "i div BSIZE < MAXFILE" using i(1) by (simp add: less_mult_imp_div_less)
    then have "faddr ip s1 (i div BSIZE) \<noteq> 0" using a' i(2) by metis
    then have "fbyte dev ip s2 i = fbyte dev ip s1 i" using b' i by auto
    also have "\<dots> = fbyte dev ip s i" using a' i by auto
    finally show ?thesis .
  qed
  show "k \<in> own dev ip s \<or> fst k = dev \<and> \<not> used s dev (snd k)" if "k \<in> own dev ip s2" for k
  proof -
    have "k \<in> own dev ip s1 \<or> fst k = dev \<and> \<not> used s1 dev (snd k)" using b' that by blast
    moreover have "fs_frame dev ip (own dev ip s) s s1" using a' by blast
    ultimately show ?thesis using a' fs_frameD(2) by blast
  qed
qed

lemma writei_loop_ok:
  assumes "tx dev (Suc (Suc h)) (n + 6 * turns off (length src)) s" and "file_ok dev ip s" and "fheld s = {}"
    and "off + length src \<le> MAXFILE * BSIZE" and "2 * turns off (length src) \<le> card (free_blks dev s)"
  shows "\<exists>s'. writei_loop ip off src s = Inr s' \<and> tx dev (Suc (Suc h)) n s' \<and> wrote dev ip off src s s' \<and> fheld s' = {}"
  using assms
proof (induction "length src" arbitrary: off src s rule: less_induct)
  case less
  show ?case
  proof (cases "src = []")
    case True
    with less.prems show ?thesis by (subst writei_loop.simps) (auto simp: turns_def wrote_def)
  next
    case False
    let ?m = "min (length src) (BSIZE - off mod BSIZE)"
    let ?k = "turns (off + ?m) (length (drop ?m src))"
    have st: "turns off (length src) = Suc ?k" using turns_step [of "length src" off] False by simp
    have "off div BSIZE < MAXFILE" using less.prems(4) False by (intro less_mult_imp_div_less) (cases src, auto)
    note bn = this
    have tt: "tx dev (Suc (Suc h)) ((n + 6 * ?k) + 6) s" using less.prems(1) st by (simp add: ac_simps)
    have fr: "2 \<le> card (free_blks dev s)" using less.prems(5) st by simp
    have len: "length (take ?m src) \<le> BSIZE - off mod BSIZE" "take ?m src \<noteq> []" using False by simp_all
    obtain s1 bp s2 s3 s4 where w: "bmap ip (off div BSIZE) s = Inr (faddr ip s1 (off div BSIZE), s1)" "i_dev (ino s1 ip) = dev"
      "fbread dev (faddr ip s1 (off div BSIZE)) s1 = Inr (bp, s2)"
      "flog_write bp (set_bdata bp (splice (bdata s2 bp) (off mod BSIZE) (take ?m src)) s2) = Inr s3" "fbrelse bp s3 = Inr s4"
      "tx dev (Suc (Suc h)) (n + 6 * ?k) s4" "wrote dev ip off (take ?m src) s s4" "fheld s4 = {}"
      "card (free_blks dev s) \<le> card (free_blks dev s4) + 2"
      by (rule write_turn [OF tt less.prems(2) bn less.prems(3) fr len])
    have "file_ok dev ip s4" using w(7) by (simp add: wrote_def)
    moreover have "off + ?m + length (drop ?m src) \<le> MAXFILE * BSIZE" using less.prems(4) by simp
    moreover have "2 * ?k \<le> card (free_blks dev s4)" using less.prems(5) st w(9) by simp
    moreover have "length (drop ?m src) < length src" using False by simp
    ultimately obtain s' where s': "writei_loop ip (off + ?m) (drop ?m src) s4 = Inr s'" "tx dev (Suc (Suc h)) n s'"
      "wrote dev ip (off + ?m) (drop ?m src) s4 s'" "fheld s' = {}"
      using less.hyps [OF _ w(6) _ w(8)] by blast
    have "writei_loop ip off src s = Inr s'"
      using False w(1-5) s'(1) by (subst writei_loop.simps) (simp add: Let_def)
    moreover have "wrote dev ip off (take ?m src @ drop ?m src) s s'"
    proof (rule wrote_trans [OF less.prems(2) w(7)])
      have l: "length (take ?m src) = ?m" by simp
      show "wrote dev ip (off + length (take ?m src)) (drop ?m src) s4 s'" unfolding l by (rule s'(3))
      show "off + length (take ?m src) + length (drop ?m src) \<le> MAXFILE * BSIZE" using less.prems(4) by simp
    qed
    ultimately show ?thesis using s' by simp
  qed
qed


section \<open>The file after a write\<close>

text \<open>Reference: writing \<open>ys\<close> at position \<open>p\<close> of a list of bytes.\<close>

definition overwrite :: "'a list \<Rightarrow> nat \<Rightarrow> 'a list \<Rightarrow> 'a list" where
  "overwrite xs p ys = take p xs @ ys @ drop (p + length ys) xs"

lemma length_overwrite: "p \<le> length xs \<Longrightarrow> length (overwrite xs p ys) = max (length xs) (p + length ys)"
  by (auto simp: overwrite_def)

lemma overwrite_nth:
  "p \<le> length xs \<Longrightarrow> i < max (length xs) (p + length ys) \<Longrightarrow>
   overwrite xs p ys ! i = (if p \<le> i \<and> i < p + length ys then ys ! (i - p) else xs ! i)"
  by (auto simp: overwrite_def nth_append min_def)

lemma overwrite_Nil [simp]: "overwrite xs p [] = xs"
  by (simp add: overwrite_def)

lemma meta_write:
  assumes ok: "file_ok dev ip s" and b: "b < sb_bmapstart (sb_of dev s)" and k: "keeps s s'"
    and c: "fcur s' = (fcur s)((dev, b) := d)" and d: "length d = BSIZE"
  shows "file_ok dev ip s'" "faddr ip s' = faddr ip s" "used s' dev = used s dev"
proof -
  note f = keeps_fields [OF k]
  have dev: "i_dev (ino s ip) = dev" using ok by (simp add: file_ok_def)
  have key: "bmkey dev s' = bmkey dev s" "fcur s' (bmkey dev s) = fcur s (bmkey dev s)" using b by (auto simp: bmkey_def f c)
  have i: "ind_blk ip s' = ind_blk ip s" by (simp add: ind_blk_def f)
  have "ind_blk ip s \<noteq> 0 \<Longrightarrow> ind_blk ip s \<noteq> b" using file_ok_data(1) [OF ok] b by (auto simp: data_blk_def)
  then show fa: "faddr ip s' = faddr ip s" by (simp add: fun_eq_iff faddr_def i f c dev)
  show u: "used s' dev = used s dev" by (simp add: fun_eq_iff used_def key)
  have db: "data_blk dev s' = data_blk dev s" by (simp add: fun_eq_iff data_blk_def u f)
  have "disk_ok dev s'" using ok d unfolding file_ok_def disk_ok_def bitmap_ok_def key u f by (auto simp: c)
  then show "file_ok dev ip s'" using ok unfolding file_ok_def fa i db f by simp
qed

lemma upd_size_file:
  fixes z :: u32
  assumes "ip < length (inodes s)"
  defines "s' \<equiv> upd_ino ip (\<lambda>i. i\<lparr>i_size := z\<rparr>) s"
  shows "faddr ip s' = faddr ip s" "file_ok dev ip s' = file_ok dev ip s" "fbyte dev ip s' = fbyte dev ip s"
    "inode_ok dev ip s' = inode_ok dev ip s"
proof -
  have i: "ind_blk ip s' = ind_blk ip s" using assms by (simp add: ind_blk_def)
  show fa: "faddr ip s' = faddr ip s" unfolding fun_eq_iff faddr_def i using assms by simp
  show "file_ok dev ip s' = file_ok dev ip s" unfolding file_ok_def fa i using assms by (simp add: disk_ok_def)
  show "fbyte dev ip s' = fbyte dev ip s" unfolding fun_eq_iff fbyte_def fa using assms by simp
  show "inode_ok dev ip s' = inode_ok dev ip s" using assms by (simp add: inode_ok_def inode_blk_def)
qed

lemma wrote_inode_ok:
  assumes ok: "file_ok dev ip s" "inode_ok dev ip s" and w: "wrote dev ip off src s s'"
  shows "inode_ok dev ip s'"
proof -
  have fr: "fs_frame dev ip (own dev ip s) s s'" using w by (simp add: wrote_def)
  have ip: "ip < length (inodes s)" using ok(1) by (simp add: file_ok_def)
  let ?b = "inode_blk dev (i_inum (ino s ip)) s"
  have b: "?b < sb_bmapstart (sb_of dev s)" "length (fcur s (dev, ?b)) = BSIZE" using ok(2) by (simp_all add: inode_ok_def)
  have "used s dev ?b" using ok(1) b(1) by (auto simp: file_ok_def disk_ok_def bitmap_ok_def)
  moreover have "(dev, ?b) \<notin> own dev ip s" using own_used [OF ok(1)] b(1) by (fastforce simp: data_blk_def)
  moreover have "(dev, ?b) \<noteq> bmkey dev s" using b(1) by (auto simp: bmkey_def)
  ultimately have "fcur s' (dev, ?b) = fcur s (dev, ?b)" by (intro fs_frameD(3) [OF fr]) auto
  with ok(2) fs_frame_inode [OF fr ip] fs_frame_meta [OF fr] show ?thesis by (simp add: inode_ok_def inode_blk_def)
qed

lemma wrote_whole:
  assumes w: "whole_file dev ip s" and off: "off \<le> unat (i_size (ino s ip))" and bound: "off + length src \<le> MAXFILE * BSIZE"
    and wr: "wrote dev ip off src s s1" and f: "faddr ip s' = faddr ip s1" "file_ok dev ip s'"
      "\<And>j. j < MAXFILE * BSIZE \<Longrightarrow> faddr ip s1 (j div BSIZE) \<noteq> 0 \<Longrightarrow> fbyte dev ip s' j = fbyte dev ip s1 j"
    and i: "unat (i_size (ino s' ip)) = max (unat (i_size (ino s ip))) (off + length src)" "i_type (ino s' ip) = i_type (ino s ip)"
  shows "whole_file dev ip s'" "fbytes dev ip s' = overwrite (fbytes dev ip s) off src"
proof -
  note wr' = wr [unfolded wrote_def]
  have ok: "file_ok dev ip s" "unat (i_size (ino s ip)) \<le> MAXFILE * BSIZE" using w by (simp_all add: whole_file_def)
  have there: "faddr ip s1 bn \<noteq> 0" if bn: "bn * BSIZE < max (unat (i_size (ino s ip))) (off + length src)" for bn
  proof (cases "bn * BSIZE < unat (i_size (ino s ip))")
    case True
    then have "faddr ip s bn \<noteq> 0" "bn < MAXFILE" using w by (auto simp: whole_file_def)
    then show ?thesis using wr' by auto
  next
    case False
    then have "off \<le> bn * BSIZE" "bn * BSIZE < off + length src" using bn off by linarith+
    then have "faddr ip s1 (bn * BSIZE div BSIZE) \<noteq> 0" using wr' by blast
    then show ?thesis by simp
  qed
  then show "whole_file dev ip s'" using w f(1,2) i bound by (auto simp: whole_file_def)
  show "fbytes dev ip s' = overwrite (fbytes dev ip s) off src"
  proof (rule nth_equalityI)
    have len: "length (fbytes dev ip s) = unat (i_size (ino s ip))" by (simp add: fbytes_def)
    show l: "length (fbytes dev ip s') = length (overwrite (fbytes dev ip s) off src)"
      using length_overwrite [of off "fbytes dev ip s" src] off len i(1) by (simp add: fbytes_def)
    fix j assume "j < length (fbytes dev ip s')"
    then have j: "j < max (unat (i_size (ino s ip))) (off + length src)" using i(1) by (simp add: fbytes_def)
    have o: "overwrite (fbytes dev ip s) off src ! j = (if off \<le> j \<and> j < off + length src then src ! (j - off) else fbytes dev ip s ! j)"
      using overwrite_nth [of off "fbytes dev ip s" j src] off len j by simp
    have "j div BSIZE * BSIZE < max (unat (i_size (ino s ip))) (off + length src)" using j div_times_less_eq_dividend [of j BSIZE] by linarith
    then have lhs: "fbytes dev ip s' ! j = fbyte dev ip s1 j" using j i(1) f(3) [of j] there ok(2) bound by (simp add: fbytes_def)
    show "fbytes dev ip s' ! j = overwrite (fbytes dev ip s) off src ! j"
    proof (cases "off \<le> j \<and> j < off + length src")
      case True
      then show ?thesis using wr' lhs o by auto
    next
      case False
      then have "j < unat (i_size (ino s ip))" using j off by auto
      moreover from this have "faddr ip s (j div BSIZE) \<noteq> 0" "j < MAXFILE * BSIZE" using whole_file_addr [OF w] ok(2) by auto
      ultimately show ?thesis using False wr' lhs o by (auto simp: fbytes_def)
    qed
  qed
qed

definition write_frame :: "u32 \<Rightarrow> iptr \<Rightarrow> 'd fs \<Rightarrow> 'd fs \<Rightarrow> bool" where
  "write_frame dev ip s s' \<longleftrightarrow> fheld s' = fheld s \<and> (\<forall>jp. jp \<noteq> ip \<longrightarrow> ino s' jp = ino s jp) \<and>
     i_type (ino s' ip) = i_type (ino s ip) \<and>
     (\<forall>k. k \<notin> own dev ip s \<longrightarrow> k \<noteq> bmkey dev s \<longrightarrow> k \<noteq> (dev, inode_blk dev (i_inum (ino s ip)) s) \<longrightarrow>
       (fst k = dev \<longrightarrow> used s dev (snd k)) \<longrightarrow> fcur s' k = fcur s k)"

lemma fs_frame_other: "fs_frame dev ip X s s' \<Longrightarrow> jp \<noteq> ip \<Longrightarrow> ino s' jp = ino s jp"
proof -
  assume fr: "fs_frame dev ip X s s'" and ne: "jp \<noteq> ip"
  have "(inodes s')[ip := (ino s' ip)\<lparr>i_addrs := []\<rparr>] = (inodes s)[ip := (ino s ip)\<lparr>i_addrs := []\<rparr>]"
    using fs_frameD(1) [OF fr] by (simp add: meta_def)
  from arg_cong [OF this, of "\<lambda>l. l ! jp"] ne show ?thesis by (simp add: ino_def)
qed

lemma writei_ok:
  fixes src :: "u8 list" and off :: u32
  assumes t: "tx dev (Suc (Suc h)) (n + 6 * turns (unat off) (length src) + 1) s" and w: "whole_file dev ip s"
    and io: "inode_ok dev ip s" and nh: "fheld s = {}" and off: "off \<le> i_size (ino s ip)"
    and bound: "unat off + length src \<le> MAXFILE * BSIZE" and free: "2 * turns (unat off) (length src) \<le> card (free_blks dev s)"
  shows "\<exists>s'. writei ip src off s = Inr (int (length src), s') \<and> tx dev (Suc (Suc h)) n s' \<and> whole_file dev ip s' \<and>
    inode_ok dev ip s' \<and> fbytes dev ip s' = overwrite (fbytes dev ip s) (unat off) src \<and> write_frame dev ip s s'"
proof -
  let ?n = "of_nat (length src) :: u32" and ?sz = "i_size (ino s ip)"
  have ok: "file_ok dev ip s" "i_type (ino s ip) \<noteq> T_DEV" and ip: "ip < length (inodes s)"
    using w by (simp_all add: whole_file_def file_ok_def)
  have un: "unat ?n = length src" using bound by (intro unat_u32_of_nat) simp
  have uo: "unat (off + ?n) = unat off + length src" using unat_u32_add [of off ?n] un bound by simp
  have sn: "sint ?n = int (length src)" using sint_small_u32 [of ?n] un bound by simp
  have g: "\<not> off > ?sz" "\<not> off + ?n < off" "\<not> off + ?n > of_nat (MAXFILE * BSIZE)"
    using off bound by (auto simp: not_less word_less_nat_alt word_le_nat_alt uo)
  have t': "tx dev (Suc (Suc h)) ((n + 1) + 6 * turns (unat off) (length src)) s" using t by (simp add: ac_simps)
  from writei_loop_ok [OF t' ok(1) nh bound free]
  obtain s1 where s1: "writei_loop ip (unat off) src s = Inr s1" "tx dev (Suc (Suc h)) (n + 1) s1" "wrote dev ip (unat off) src s s1" "fheld s1 = {}"
    by blast
  have fr: "fs_frame dev ip (own dev ip s) s s1" and ok1: "file_ok dev ip s1" using s1(3) by (simp_all add: wrote_def)
  note fi = fs_frame_inode [OF fr ip] and fm = fs_frame_meta [OF fr]
  have io1: "inode_ok dev ip s1" by (rule wrote_inode_ok [OF ok(1) io s1(3)])
  have frame1: "write_frame dev ip s s1"
    using fs_frameD(3) [OF fr] fs_frame_other [OF fr] s1(4) nh fi(4) by (auto simp: write_frame_def)
  have off': "unat off \<le> unat ?sz" using off by (simp add: word_le_nat_alt)
  have unfold: "writei ip src off s = bindE (if ?n > 0 \<and> off + ?n > ?sz
       then iupdate ip (upd_ino ip (\<lambda>i. i\<lparr>i_size := off + ?n\<rparr>) s1) else Inr s1) (\<lambda>s2. Inr (int (length src), s2))"
    using ok(2) g s1(1) fi(3) sn by (simp add: writei_def Let_def)
  show ?thesis
  proof (cases "?n > 0 \<and> off + ?n > ?sz")
    case False
    have "unat off + length src \<le> unat ?sz"
    proof (cases "src = []")
      case True
      then show ?thesis using off' by simp
    next
      case ne: False
      then have "?n > 0" using un by (simp add: word_less_nat_alt)
      with False uo show ?thesis by (simp add: word_less_nat_alt)
    qed
    then have sz: "unat (i_size (ino s1 ip)) = max (unat ?sz) (unat off + length src)" using fi(3) by simp
    note ww = wrote_whole [OF w off' bound s1(3) refl ok1 refl sz fi(4)]
    have "writei ip src off s = Inr (int (length src), s1)" using False by (auto simp: unfold)
    with ww s1(2) frame1 io1 tx_mono [OF s1(2), of n] show ?thesis by auto
  next
    case True
    let ?s = "upd_ino ip (\<lambda>i. i\<lparr>i_size := off + ?n\<rparr>) s1"
    have ip1: "ip < length (inodes s1)" using fm(3) ip by simp
    note us = upd_size_file [OF ip1, where z = "off + ?n"]
    let ?b = "inode_blk dev (i_inum (ino s ip)) s"
    have b: "inode_blk dev (i_inum (ino ?s ip)) ?s = ?b" using fi ip1 fm by (simp add: inode_blk_def)
    have tt: "tx dev (Suc (Suc h)) (Suc n) ?s" using s1(2) by simp
    have bo: "bitmap_ok dev ?s" "inode_ok dev ip ?s" using ok1 io1 us(4) by (simp_all add: file_ok_def disk_ok_def)
    obtain s2 where s2: "iupdate ip ?s = Inr s2" "tx dev (Suc (Suc h)) n s2" "keeps ?s s2"
      "fcur s2 = (fcur ?s)((dev, ?b) := put_dinode (fcur ?s (dev, ?b)) (dinode_off (i_inum (ino ?s ip))) (ino ?s ip))"
      by (rule iupdate_ok [OF tt bo(2,1)]) (rule that, simp_all add: b Let_def)
    have bb: "?b < sb_bmapstart (sb_of dev ?s)" "length (fcur ?s (dev, ?b)) = BSIZE" using bo(2) b by (simp_all add: inode_ok_def)
    have ok': "file_ok dev ip ?s" using us(2) ok1 by simp
    have plen: "length (put_dinode (fcur ?s (dev, ?b)) (dinode_off (i_inum (ino ?s ip))) (ino ?s ip)) = BSIZE" using bb(2) by simp
    note mw = meta_write [OF ok' bb(1) s2(3,4) plen]
    have i2: "ino s2 ip = (ino s1 ip)\<lparr>i_size := off + ?n\<rparr>" using keeps_fields(6) [OF s2(3), of ip] ip1 by simp
    have fb: "fbyte dev ip s2 j = fbyte dev ip s1 j" if j: "j < MAXFILE * BSIZE" "faddr ip s1 (j div BSIZE) \<noteq> 0" for j
    proof -
      have "data_blk dev s1 (faddr ip s1 (j div BSIZE))"
        using file_ok_data(2) [OF ok1 _ j(2)] j(1) by (simp add: less_mult_imp_div_less)
      then have "faddr ip s1 (j div BSIZE) \<noteq> ?b" using bb(1) by (auto simp: data_blk_def)
      then show ?thesis using us(1) by (simp add: fbyte_def mw(2) s2(4))
    qed
    have "unat ?sz < unat off + length src" using True uo by (simp add: word_less_nat_alt)
    then have sz: "unat (i_size (ino s2 ip)) = max (unat ?sz) (unat off + length src)" using i2 uo by simp
    have ty: "i_type (ino s2 ip) = i_type (ino s ip)" using i2 fi(4) by simp
    have fa: "faddr ip s2 = faddr ip s1" using mw(2) us(1) by simp
    note ww = wrote_whole [OF w off' bound s1(3) fa mw(1) fb sz ty]
    note k2 = keeps_fields [OF s2(3)]
    have "inode_ok dev ip s2"
      using bo(2) plen unfolding inode_ok_def inode_blk_def k2 s2(4) by (auto simp: inode_blk_def)
    moreover have "write_frame dev ip s s2"
      using frame1 k2(4,6) s2(4) ip1 by (auto simp: write_frame_def)
    moreover have "writei ip src off s = Inr (int (length src), s2)" using True s2(1) by (simp add: unfold)
    ultimately show ?thesis using ww s2(2) by blast
  qed
qed

end
