(* ===== verification/Fs_Dir.thy ===== *)
theory Fs_Dir
  imports Fs_Rw
begin

text \<open>
  Directories as lists of entries: \<^verbatim>\<open>dirlookup\<close> finds the first entry with the name, \<^verbatim>\<open>dirlink\<close> fills an empty
  entry or adds one at the end.  Path names: what \<^verbatim>\<open>skipelem\<close> takes off a path.
\<close>

section \<open>Entries\<close>

definition chunk :: "'a list \<Rightarrow> nat \<Rightarrow> 'a list" where
  "chunk xs k = take 16 (drop (16 * k) xs)"

definition ent :: "u32 \<Rightarrow> iptr \<Rightarrow> 'd fs \<Rightarrow> nat \<Rightarrow> u8 list" where
  "ent dev dp s k = chunk (fbytes dev dp s) k"

definition nents :: "iptr \<Rightarrow> 'd fs \<Rightarrow> nat" where
  "nents dp s = unat (i_size (ino s dp)) div 16"

definition matches :: "cstr \<Rightarrow> u8 list \<Rightarrow> bool" where
  "matches name de \<longleftrightarrow> de_inum de \<noteq> 0 \<and> namecmp name (de_name de) = 0"

definition dir_ok :: "u32 \<Rightarrow> iptr \<Rightarrow> 'd fs \<Rightarrow> bool" where
  "dir_ok dev dp s \<longleftrightarrow> whole_file dev dp s \<and> i_type (ino s dp) = T_DIR \<and> unat (i_size (ino s dp)) mod 16 = 0"

lemma chunk_overwrite:
  assumes "length e = 16" and "16 * p \<le> length xs" and "length xs mod 16 = 0"
  shows "chunk (overwrite xs (16 * p) e) k = (if k = p then e else chunk xs k)"
proof -
  consider "k < p" | "k = p" | "p < k" by linarith
  then show ?thesis
  proof cases
    case 1
    then have "16 \<le> 16 * p - 16 * k" "16 \<le> length xs - 16 * k" using assms(2) by linarith+
    with 1 assms show ?thesis by (simp add: chunk_def overwrite_def min_def drop_take)
  next
    case 2
    with assms show ?thesis by (simp add: chunk_def overwrite_def)
  next
    case 3
    then have "16 * k = 16 * p + 16 + 16 * (k - Suc p)" by simp
    then show ?thesis using assms 3 by (simp add: chunk_def overwrite_def add.commute)
  qed
qed

lemma dir_read:
  assumes t: "tx dev (Suc h) m s" and d: "dir_ok dev dp s" and nh: "fheld s = {}" and k: "k < nents dp s"
  obtains s' where "readi dp (of_nat (16 * k)) 16 s = Inr (16, ent dev dp s k, s')" "tx dev (Suc h) m s'" "fcur s' = fcur s" "keeps s s'"
proof -
  have w: "whole_file dev dp s" and sz: "unat (i_size (ino s dp)) \<le> 71680" "unat (i_size (ino s dp)) = 16 * nents dp s"
    using d by (auto simp: dir_ok_def whole_file_def nents_def)
  have u: "unat (of_nat (16 * k) :: u32) = 16 * k" using k sz by (intro unat_u32_of_nat) simp
  have o: "of_nat (16 * k) \<le> i_size (ino s dp)" using u sz k by (simp add: word_le_nat_alt)
  have "unat (of_nat (16 * k) + 16 :: u32) = 16 * k + 16" using unat_u32_add [of "of_nat (16 * k)" 16] u sz k by simp
  then have o2: "of_nat (16 * k) \<le> (of_nat (16 * k) + 16 :: u32)" using u by (simp add: word_le_nat_alt)
  have r: "take (unat (16 :: u32)) (drop (unat (of_nat (16 * k) :: u32)) (fbytes dev dp s)) = ent dev dp s k"
    using u by (simp add: ent_def chunk_def)
  have "length (ent dev dp s k) = 16" using sz k by (simp add: ent_def chunk_def fbytes_def)
  with readi_ok [OF t w nh o o2] that show ?thesis unfolding r by auto
qed

lemma dir_keeps:
  assumes "keeps s s'" and "fcur s' = fcur s" and "dir_ok dev dp s"
  shows "dir_ok dev dp s'" "ent dev dp s' = ent dev dp s" "nents dp s' = nents dp s" "fbytes dev dp s' = fbytes dev dp s"
    "whole_file dev dp s'"
proof -
  have ok: "file_ok dev dp s" using assms(3) by (simp add: dir_ok_def whole_file_def)
  note f = keeps_file_ok [OF assms(1,2) ok] and k = keeps_fields [OF assms(1)]
  show b: "fbytes dev dp s' = fbytes dev dp s" by (simp add: fbytes_def fbyte_def k f assms(2))
  then show "ent dev dp s' = ent dev dp s" by (simp add: fun_eq_iff ent_def)
  show "nents dp s' = nents dp s" by (simp add: nents_def k)
  show "whole_file dev dp s'" "dir_ok dev dp s'" using assms(3) f k by (auto simp: dir_ok_def whole_file_def)
qed

section \<open>Lookup\<close>

lemma dirlookup_loop_ok:
  assumes "tx dev (Suc h) m s" and "dir_ok dev dp s" and "fheld s = {}" and "\<forall>k \<in> set ks. k < nents dp s"
  shows "\<exists>s'. dirlookup_loop dp name (map (\<lambda>k. of_nat (16 * k)) ks) s =
      (case find (\<lambda>k. matches name (ent dev dp s k)) ks of
         None \<Rightarrow> Inr (None, s')
       | Some k \<Rightarrow> bindE (iget dev (ucast (de_inum (ent dev dp s k))) s') (\<lambda>(ip, s2). Inr (Some (ip, of_nat (16 * k)), s2))) \<and>
     tx dev (Suc h) m s' \<and> fcur s' = fcur s \<and> keeps s s'"
  using assms
proof (induction ks arbitrary: s)
  case Nil
  then show ?case by auto
next
  case (Cons k ks)
  obtain s1 where r: "readi dp (of_nat (16 * k)) 16 s = Inr (16, ent dev dp s k, s1)" "tx dev (Suc h) m s1" "fcur s1 = fcur s" "keeps s s1"
    by (rule dir_read [OF Cons.prems(1-3), of k]) (use Cons.prems(4) in simp, rule that)
  note d1 = dir_keeps [OF r(4,3) Cons.prems(2)]
  have nh1: "fheld s1 = {}" using keeps_fields(4) [OF r(4)] Cons.prems(3) by simp
  have dev: "i_dev (ino s1 dp) = dev" using d1(1) by (simp add: dir_ok_def whole_file_def file_ok_def)
  show ?case
  proof (cases "matches name (ent dev dp s k)")
    case True
    then show ?thesis using r dev by (intro exI [of _ s1]) (simp add: matches_def)
  next
    case False
    obtain s' where s': "dirlookup_loop dp name (map (\<lambda>k. of_nat (16 * k)) ks) s1 =
      (case find (\<lambda>k. matches name (ent dev dp s1 k)) ks of
         None \<Rightarrow> Inr (None, s')
       | Some k \<Rightarrow> bindE (iget dev (ucast (de_inum (ent dev dp s1 k))) s') (\<lambda>(ip, s2). Inr (Some (ip, of_nat (16 * k)), s2)))"
      "tx dev (Suc h) m s'" "fcur s' = fcur s1" "keeps s1 s'"
      using Cons.IH [OF r(2) d1(1) nh1] Cons.prems(4) d1(3) by auto
    have "dirlookup_loop dp name (map (\<lambda>k. of_nat (16 * k)) (k # ks)) s = dirlookup_loop dp name (map (\<lambda>k. of_nat (16 * k)) ks) s1"
      using False r(1) by (auto simp: matches_def)
    moreover have "find (\<lambda>k. matches name (ent dev dp s k)) (k # ks) = find (\<lambda>k. matches name (ent dev dp s k)) ks"
      using False by simp
    ultimately show ?thesis
      using s'(2,3) r(3) keeps_trans [OF r(4) s'(4)] by (intro exI [of _ s']) (simp only: s'(1) [unfolded d1(2)])
  qed
qed

lemma dir_offsets_eq: "unat sz mod 16 = 0 \<Longrightarrow> dir_offsets sz = map (\<lambda>k. of_nat (16 * k)) [0..<unat sz div 16]"
proof -
  assume "unat sz mod 16 = 0"
  then obtain q where q: "unat sz = 16 * q" by (metis mod_0_imp_dvd dvdE)
  have "(16 * q + 15) div 16 = q" by simp
  then show ?thesis by (simp add: dir_offsets_def q)
qed

lemma dirlookup_ok:
  assumes "tx dev (Suc h) m s" and d: "dir_ok dev dp s" and "fheld s = {}"
  obtains s' where "dirlookup dp name s =
      (case find (\<lambda>k. matches name (ent dev dp s k)) [0..<nents dp s] of
         None \<Rightarrow> Inr (None, s')
       | Some k \<Rightarrow> bindE (iget dev (ucast (de_inum (ent dev dp s k))) s') (\<lambda>(ip, s2). Inr (Some (ip, of_nat (16 * k)), s2)))"
    "tx dev (Suc h) m s'" "fcur s' = fcur s" "keeps s s'"
proof -
  have "dirlookup dp name s = dirlookup_loop dp name (map (\<lambda>k. of_nat (16 * k)) [0..<nents dp s]) s"
    using d by (simp add: dirlookup_def dir_ok_def dir_offsets_eq nents_def)
  with dirlookup_loop_ok [OF assms, of "[0..<nents dp s]" name] that show ?thesis by auto
qed

section \<open>Adding an entry\<close>

lemma dirlink_loop_ok:
  assumes "tx dev (Suc h) m s" and "dir_ok dev dp s" and "fheld s = {}" and "\<forall>k \<in> set ks. k < nents dp s"
  shows "\<exists>s'. dirlink_loop dp (map (\<lambda>k. of_nat (16 * k)) ks) e s =
      Inr (case find (\<lambda>k. de_inum (ent dev dp s k) = 0) ks of None \<Rightarrow> e | Some k \<Rightarrow> of_nat (16 * k), s') \<and>
     tx dev (Suc h) m s' \<and> fcur s' = fcur s \<and> keeps s s'"
  using assms
proof (induction ks arbitrary: s)
  case Nil
  then show ?case by auto
next
  case (Cons k ks)
  obtain s1 where r: "readi dp (of_nat (16 * k)) 16 s = Inr (16, ent dev dp s k, s1)" "tx dev (Suc h) m s1" "fcur s1 = fcur s" "keeps s s1"
    by (rule dir_read [OF Cons.prems(1-3), of k]) (use Cons.prems(4) in simp, rule that)
  note d1 = dir_keeps [OF r(4,3) Cons.prems(2)]
  have nh1: "fheld s1 = {}" using keeps_fields(4) [OF r(4)] Cons.prems(3) by simp
  show ?case
  proof (cases "de_inum (ent dev dp s k) = 0")
    case True
    then show ?thesis using r by (intro exI [of _ s1]) simp
  next
    case False
    obtain s' where s': "dirlink_loop dp (map (\<lambda>k. of_nat (16 * k)) ks) e s1 =
      Inr (case find (\<lambda>k. de_inum (ent dev dp s1 k) = 0) ks of None \<Rightarrow> e | Some k \<Rightarrow> of_nat (16 * k), s')"
      "tx dev (Suc h) m s'" "fcur s' = fcur s1" "keeps s1 s'"
      using Cons.IH [OF r(2) d1(1) nh1] Cons.prems(4) d1(3) by auto
    with False r keeps_trans [OF r(4) s'(4)] show ?thesis by (intro exI [of _ s']) (simp add: d1(2))
  qed
qed

lemma mk_dirent_fields:
  "length (mk_dirent i name) = 16" "de_inum (mk_dirent i name) = i" "de_name (mk_dirent i name) = strncpy name DIRSIZ"
proof -
  show l: "length (mk_dirent i name) = 16" by (simp add: mk_dirent_def)
  show "de_name (mk_dirent i name) = strncpy name DIRSIZ" by (simp add: mk_dirent_def de_name_def)
  show "de_inum (mk_dirent i name) = i"
    using split16 [of i] by (simp add: de_inum_def mk_dirent_def get16_def get8_def)
qed

lemma matches_mk_dirent:
  "i \<noteq> 0 \<Longrightarrow> 0 \<notin> set name \<Longrightarrow> 0 \<notin> set name' \<Longrightarrow> matches name (mk_dirent i name') \<longleftrightarrow> take DIRSIZ name = take DIRSIZ name'"
  by (simp add: matches_def mk_dirent_fields namecmp_def strncmp_strncpy strncmp_eq_0)

lemma turns_entry: "turns (16 * p) 16 = 1"
proof -
  have "16 * p mod 512 = 16 * (p mod 32)" using mult_mod_right [of 16 p 32] by simp
  moreover have "p mod 32 < 32" by simp
  ultimately have "16 * p mod 512 \<le> 496" by linarith
  then show ?thesis by (simp add: turns_def div_nat_eqI)
qed

lemma dirlink_ok:
  assumes t: "tx dev (Suc (Suc h)) (n + 7) s" and d: "dir_ok dev dp s" and io: "inode_ok dev dp s" and nh: "fheld s = {}"
    and room: "unat (i_size (ino s dp)) + 16 \<le> MAXFILE * BSIZE" and free: "2 \<le> card (free_blks dev s)"
    and new: "\<forall>k < nents dp s. \<not> matches name (ent dev dp s k)"
  obtains p s' where "dirlink dp name inum s = Inr (0, s')" "p \<le> nents dp s" "p < nents dp s \<longrightarrow> de_inum (ent dev dp s p) = 0"
    "fbytes dev dp s' = overwrite (fbytes dev dp s) (16 * p) (mk_dirent (ucast inum) name)" "whole_file dev dp s'" "inode_ok dev dp s'"
    "tx dev (Suc (Suc h)) n s'" "write_frame dev dp s s'"
proof -
  let ?N = "nents dp s" and ?e = "mk_dirent (ucast inum) name"
  have sz: "unat (i_size (ino s dp)) = 16 * ?N" using d by (auto simp: dir_ok_def nents_def)
  have nf: "find (\<lambda>k. matches name (ent dev dp s k)) [0..<?N] = None" using new by (simp add: find_None_iff)
  obtain s1 where s1: "dirlookup dp name s = Inr (None, s1)" "tx dev (Suc (Suc h)) (n + 7) s1" "fcur s1 = fcur s" "keeps s s1"
    using dirlookup_ok [OF t d nh, of name] unfolding nf by auto
  note d1 = dir_keeps [OF s1(4,3) d] and k1 = keeps_fields [OF s1(4)]
  define p where "p = (case find (\<lambda>k. de_inum (ent dev dp s k) = 0) [0..<?N] of None \<Rightarrow> ?N | Some k \<Rightarrow> k)"
  have p: "p \<le> ?N" "p < ?N \<longrightarrow> de_inum (ent dev dp s p) = 0"
    by (auto simp: p_def find_Some_iff split: option.splits)
  have nh1: "fheld s1 = {}" using k1(4) nh by simp
  obtain s2 where s2: "dirlink_loop dp (map (\<lambda>k. of_nat (16 * k)) [0..<?N]) (of_nat (16 * ?N)) s1 = Inr (of_nat (16 * p), s2)"
    "tx dev (Suc (Suc h)) (n + 7) s2" "fcur s2 = fcur s1" "keeps s1 s2"
    using dirlink_loop_ok [OF s1(2) d1(1) nh1, of "[0..<?N]" "of_nat (16 * ?N)"] d1(2,3) by (auto simp: p_def split: option.splits)
  have k12: "keeps s s2" "fcur s2 = fcur s" using keeps_trans [OF s1(4) s2(4)] s2(3) s1(3) by simp_all
  note d2 = dir_keeps [OF k12 d] and k2 = keeps_fields [OF k12(1)]
  have ok: "file_ok dev dp s" using d by (simp add: dir_ok_def whole_file_def)
  note f2 = keeps_file_ok [OF k12 ok]
  have up: "unat (of_nat (16 * p) :: u32) = 16 * p" using p(1) sz room by (intro unat_u32_of_nat) simp
  have io2: "inode_ok dev dp s2" using io by (simp add: inode_ok_def inode_blk_def k2 k12(2))
  have tt: "tx dev (Suc (Suc h)) (n + 6 * turns (unat (of_nat (16 * p) :: u32)) (length ?e) + 1) s2"
    unfolding up mk_dirent_fields turns_entry using s2(2) by (simp add: numeral_eq_Suc)
  have o2: "of_nat (16 * p) \<le> i_size (ino s2 dp)" using p(1) sz unfolding word_le_nat_alt up by (simp add: k2)
  have b2: "unat (of_nat (16 * p) :: u32) + length ?e \<le> MAXFILE * BSIZE" unfolding up mk_dirent_fields using p(1) sz room by simp
  have fr2: "2 * turns (unat (of_nat (16 * p) :: u32)) (length ?e) \<le> card (free_blks dev s2)"
    unfolding up mk_dirent_fields turns_entry using free by (simp add: free_blks_def f2 k2)
  obtain s' where s': "writei dp ?e (of_nat (16 * p)) s2 = Inr (16, s')" "tx dev (Suc (Suc h)) n s'" "whole_file dev dp s'" "inode_ok dev dp s'"
    "fbytes dev dp s' = overwrite (fbytes dev dp s2) (16 * p) ?e" "write_frame dev dp s2 s'"
    using writei_ok [OF tt d2(5) io2 _ o2 b2 fr2] k2(4) nh up mk_dirent_fields(1) by auto
  have off: "dir_offsets (i_size (ino s1 dp)) = map (\<lambda>k. of_nat (16 * k)) [0..<?N]"
    using d by (simp add: k1 dir_ok_def dir_offsets_eq nents_def)
  have "dirlink dp name inum s = Inr (0, s')"
    using s1(1) s2(1) s'(1) by (simp add: dirlink_def off Let_def)
  moreover have "write_frame dev dp s s'"
    using s'(6) k2 k12(2) f2 by (simp add: write_frame_def own_def ind_key_def bmkey_def inode_blk_def)
  ultimately show ?thesis using that p s' d2(4) by metis
qed

end
