(* ===== verification/Fs_Props.thy ===== *)
theory Fs_Props
  imports Fs_Dir
begin

text \<open>
  The properties of the file system, each with an instance on a small formatted disk: the layout that \<^verbatim>\<open>mkfs\<close>
  makes, with the blocks up to 63 in use, an empty file and an empty directory.
\<close>

section \<open>A small file system\<close>

definition demo_disk :: "u32 \<times> u32 \<Rightarrow> block" where
  "demo_disk k = (if k = (1, 58) then replicate 8 255 @ replicate 504 0 else replicate BSIZE 0)"

definition demo_sb :: superblock where
  "demo_sb = \<lparr>sb_size = 1000, sb_nblocks = 941, sb_ninodes = 200, sb_nlog = 30, sb_logstart = 2, sb_inodestart = 32, sb_bmapstart = 58\<rparr>"

definition demo_inode :: "u32 \<Rightarrow> u16 \<Rightarrow> int \<Rightarrow> inode" where
  "demo_inode inum ty r = \<lparr>i_dev = 1, i_inum = inum, i_ref = r, i_locked = (0 < r), i_valid = (0 < r), i_type = ty, i_major = 0,
     i_minor = 0, i_nlink = 1, i_size = 0, i_addrs = replicate 13 0\<rparr>"

definition demo_log :: log where
  "demo_log = small_log\<lparr>lh_n := 0, committing := False, outstanding := 1\<rparr>"

definition demo :: "unit fs" where
  "demo = \<lparr>sb = demo_sb, nvmesb = demo_sb,
     inodes = demo_inode 2 T_FILE 1 # demo_inode 1 T_DIR 1 # replicate 48 (demo_inode 0 0 0),
     lg = \<lparr>rootlog = demo_log, nvmelog = demo_log, cache = binit (zero_bcache\<lparr>disk := demo_disk\<rparr>)\<rparr>,
     devsw = (\<lambda>_. \<lparr>d_read = None, d_write = None\<rparr>), devst = ()\<rparr>"

lemma demo_cache:
  "bc_inv (cache (lg demo))" "fcur demo = demo_disk" "fheld demo = {}" "pinned (cache (lg demo)) = {}"
  using binit_ok [of "zero_bcache\<lparr>disk := demo_disk\<rparr>"] by (simp_all add: demo_def fcur_def fheld_def zero_bcache_def)

lemma demo_fields: "sb_of dev demo = demo_sb" "bmkey 1 demo = (1, 58)"
  "ino demo 0 = demo_inode 2 T_FILE 1" "ino demo (Suc 0) = demo_inode 1 T_DIR 1" "length (inodes demo) = 50"
  by (simp_all add: sb_of_def demo_def bmkey_def ino_def demo_sb_def)

lemma demo_tx: "h + n \<le> 29 \<Longrightarrow> tx 1 h n demo"
proof -
  assume "h + n \<le> 29"
  moreover have "held (cache (lg demo)) = {}" using demo_cache(3) by (simp add: fheld_def)
  moreover have "trans_ok demo_log" by (simp add: demo_log_def small_log_def trans_ok_def)
  ultimately show ?thesis
    using demo_cache(1,4) by (simp add: tx_def log_room_def tlog_def) (simp add: demo_def demo_log_def small_log_def)
qed

lemma demo_used: "used demo 1 b \<longleftrightarrow> unat b < 64"
proof -
  let ?d = "replicate 8 255 @ replicate 504 0 :: block"
  have g: "get8 ?d i = (if i < 8 then 255 else 0)" for i by (auto simp: get8_def nth_append)
  have "(255 :: u8) = - 1" by simp
  then have ones: "bit (255 :: u8) (i mod 8)" for i by (simp only: bit_minus_1_iff) simp
  have "unat b div 8 < 8 \<longleftrightarrow> unat b < 64" by auto
  with ones [of "unat b"] show ?thesis
    unfolding used_def demo_fields demo_cache(2) demo_disk_def bit_used_iff by (simp only: g if_True refl) simp
qed

lemma demo_disk_ok: "disk_ok 1 demo"
proof -
  have "used demo 1 b" if "b \<le> 58" for b using that by (simp add: demo_used word_le_nat_alt)
  then show ?thesis
    by (simp add: disk_ok_def bitmap_ok_def demo_fields demo_cache demo_disk_def demo_sb_def)
qed

lemma demo_files: "whole_file 1 0 demo" "dir_ok 1 1 demo" "inode_ok 1 0 demo" "inode_ok 1 1 demo"
proof -
  have "faddr ip demo i = 0" if "ip = 0 \<or> ip = 1" "i < MAXFILE" for ip i
    using that by (auto simp: faddr_def ind_blk_def demo_fields demo_inode_def)
  moreover have "ind_blk ip demo = 0" if "ip = 0 \<or> ip = 1" for ip using that by (auto simp: ind_blk_def demo_fields demo_inode_def)
  ultimately have f: "file_ok 1 0 demo" "file_ok 1 1 demo"
    unfolding file_ok_def using demo_disk_ok by (simp_all add: demo_fields) (simp_all add: demo_inode_def)
  then show "whole_file 1 0 demo" "dir_ok 1 1 demo"
    by (simp_all add: whole_file_def dir_ok_def demo_fields) (simp_all add: demo_inode_def)
  show "inode_ok 1 0 demo" "inode_ok 1 1 demo"
    by (simp_all add: inode_ok_def inode_blk_def demo_fields demo_cache demo_disk_def IBLOCK_def) (simp_all add: demo_inode_def demo_sb_def)
qed

lemma demo_free: "2 \<le> card (free_blks 1 demo)"
proof -
  have "{100, 101} \<subseteq> free_blks 1 demo" by (simp add: free_blks_def demo_used demo_fields demo_sb_def)
  then have "card {100, 101 :: u32} \<le> card (free_blks 1 demo)" by (intro card_mono) simp_all
  then show ?thesis by simp
qed

section \<open>Contents of files\<close>

text \<open>
  C3. \<^verbatim>\<open>writei\<close> refines overwriting a part of a list of bytes.  Within a transaction with enough room for the
  blocks it touches, at an offset not beyond the end of the file, \<^verbatim>\<open>writei\<close> returns the number of bytes given, and
  the contents of the file are the old contents with those bytes put at that offset, the file growing if they reach
  beyond its end; the direct blocks, the indirect block and the blocks it lists are allocated as needed, and no block in
  use changes other than those of the file, its inode block and the bitmap.
\<close>

theorem writei_refines:
  assumes "tx dev (h + 2) (n + 6 * turns (unat off) (length src) + 1) s" and "whole_file dev ip s" and "inode_ok dev ip s"
    and "fheld s = {}" and "off \<le> i_size (ino s ip)" and "unat off + length src \<le> MAXFILE * BSIZE"
    and "2 * turns (unat off) (length src) \<le> card (free_blks dev s)"
  shows "\<exists>s'. writei ip src off s = Inr (int (length src), s') \<and> whole_file dev ip s' \<and>
    fbytes dev ip s' = overwrite (fbytes dev ip s) (unat off) src \<and> write_frame dev ip s s' \<and> tx dev (h + 2) n s'"
proof -
  have "tx dev (Suc (Suc h)) (n + 6 * turns (unat off) (length src) + 1) s" using assms(1) by simp
  from writei_ok [OF this assms(2-7)] show ?thesis by (auto simp: numeral_2_eq_2)
qed

theorem writei_refines_witness:
  "\<exists>s'. writei 0 [104, 105, 33] 0 demo = Inr (3, s') \<and> fbytes 1 0 s' = [104, 105, 33]"
proof -
  have t: "turns 0 (Suc (Suc (Suc 0))) = 1" by (simp add: turns_def)
  have "fbytes 1 0 demo = []" by (simp add: fbytes_def demo_fields demo_inode_def)
  then show ?thesis
    using writei_refines [of 1 0 0 0 "[104, 105, 33]" demo 0] demo_tx [of "Suc (Suc 0)" 7] demo_files demo_cache demo_free t
    by (auto simp: overwrite_def)
qed

text \<open>
  C21. \<^verbatim>\<open>readi\<close> refines taking a part of a list of bytes: at an offset not beyond the end of the file it returns the
  bytes from that offset on, as many as were asked for or as there are, and changes neither the file system nor the inode cache.
\<close>

theorem readi_refines:
  assumes "tx dev (Suc h) m s" and "whole_file dev ip s" and "fheld s = {}" and "off \<le> i_size (ino s ip)" and "off \<le> off + n"
  shows "\<exists>s'. readi ip off n s = Inr (int (length (take (unat n) (drop (unat off) (fbytes dev ip s)))),
      take (unat n) (drop (unat off) (fbytes dev ip s)), s') \<and> fcur s' = fcur s \<and> inodes s' = inodes s \<and> tx dev (Suc h) m s'"
proof -
  obtain s' where "readi ip off n s = Inr (int (length (take (unat n) (drop (unat off) (fbytes dev ip s)))),
      take (unat n) (drop (unat off) (fbytes dev ip s)), s')" "tx dev (Suc h) m s'" "fcur s' = fcur s" "keeps s s'"
    using readi_ok [OF assms] by blast
  then show ?thesis using keeps_fields(3) by auto
qed

theorem readi_refines_witness:
  "\<exists>s'. readi 1 0 16 demo = Inr (0, [], s') \<and> inodes s' = inodes demo"
  using readi_refines [of 1 0 0 demo 1 0 16] demo_tx [of 1 0] demo_files(2) demo_cache
  by (auto simp: dir_ok_def fbytes_def demo_fields demo_inode_def)

text \<open>
  What \<^verbatim>\<open>writei\<close> wrote is what \<^verbatim>\<open>readi\<close> reads back at the same offset.
\<close>

theorem writei_readi_roundtrip:
  assumes "tx dev (h + 2) (n + 6 * turns (unat off) (length src) + 1) s" and "whole_file dev ip s" and "inode_ok dev ip s"
    and "fheld s = {}" and "off \<le> i_size (ino s ip)" and "unat off + length src \<le> MAXFILE * BSIZE"
    and "2 * turns (unat off) (length src) \<le> card (free_blks dev s)"
  shows "\<exists>s1 s2. writei ip src off s = Inr (int (length src), s1) \<and>
    readi ip off (of_nat (length src)) s1 = Inr (int (length src), src, s2)"
proof -
  have "tx dev (Suc (Suc h)) (n + 6 * turns (unat off) (length src) + 1) s" using assms(1) by simp
  from writei_ok [OF this assms(2-7)]
  obtain s1 where s1: "writei ip src off s = Inr (int (length src), s1)" "tx dev (Suc (Suc h)) n s1" "whole_file dev ip s1"
    "fbytes dev ip s1 = overwrite (fbytes dev ip s) (unat off) src" "fheld s1 = {}"
    using assms(4) by (auto simp: write_frame_def)
  have off: "unat off \<le> length (fbytes dev ip s)" using assms(5) by (simp add: fbytes_def word_le_nat_alt)
  have len: "unat (i_size (ino s1 ip)) = max (length (fbytes dev ip s)) (unat off + length src)"
    using length_overwrite [OF off, of src] arg_cong [OF s1(4), of length] by (simp add: fbytes_def)
  have un: "unat (of_nat (length src) :: u32) = length src" using assms(6) by (intro unat_u32_of_nat) simp
  have "off \<le> i_size (ino s1 ip)" using off len by (simp add: word_le_nat_alt)
  moreover have "off \<le> off + of_nat (length src)"
    using unat_u32_add [of off "of_nat (length src)"] un assms(6) by (simp add: word_le_nat_alt)
  moreover have "take (unat (of_nat (length src) :: u32)) (drop (unat off) (fbytes dev ip s1)) = src"
    using off un by (simp add: s1(4) overwrite_def)
  ultimately show ?thesis using readi_ok [OF s1(2,3,5), of off "of_nat (length src)"] s1(1) by auto
qed

theorem writei_readi_roundtrip_witness:
  "\<exists>s1 s2. writei 0 [7, 8] 0 demo = Inr (2, s1) \<and> readi 0 0 2 s1 = Inr (2, [7, 8], s2)"
  using writei_readi_roundtrip [of 1 0 0 0 "[7, 8]" demo 0] demo_tx [of "Suc (Suc 0)" 7] demo_files demo_cache demo_free
  by (simp add: turns_def)

text \<open>
  C28. A write to one file does not change another: the contents of every file whose blocks are disjoint from those of the
  file written, and its cached inode, are the same afterwards.
\<close>

theorem writei_other_files:
  assumes "tx dev (h + 2) (n + 6 * turns (unat off) (length src) + 1) s" and "whole_file dev ip s" and "inode_ok dev ip s"
    and "fheld s = {}" and "off \<le> i_size (ino s ip)" and "unat off + length src \<le> MAXFILE * BSIZE"
    and "2 * turns (unat off) (length src) \<le> card (free_blks dev s)"
    and "whole_file dev jp s" and "jp \<noteq> ip" and "own dev jp s \<inter> own dev ip s = {}"
  shows "\<exists>s'. writei ip src off s = Inr (int (length src), s') \<and> ino s' jp = ino s jp \<and> fbytes dev jp s' = fbytes dev jp s"
proof -
  have "tx dev (Suc (Suc h)) (n + 6 * turns (unat off) (length src) + 1) s" using assms(1) by simp
  from writei_ok [OF this assms(2-7)]
  obtain s' where s': "writei ip src off s = Inr (int (length src), s')" and fr: "write_frame dev ip s s'" by blast
  have ok: "file_ok dev jp s" using assms(8) by (simp add: whole_file_def)
  have dev: "i_dev (ino s jp) = dev" using ok by (simp add: file_ok_def)
  have i: "ino s' jp = ino s jp" using fr assms(9) by (simp add: write_frame_def)
  have cur: "fcur s' k = fcur s k" if k: "k \<in> own dev jp s" for k
  proof -
    have o: "fst k = dev" "data_blk dev s (snd k)" "k \<noteq> bmkey dev s" "k \<notin> own dev ip s"
      using own_used [OF ok k] k assms(10) by auto
    have "k \<noteq> (dev, inode_blk dev (i_inum (ino s ip)) s)"
      using o(2) assms(3) by (auto simp: inode_ok_def data_blk_def)
    with o fr show ?thesis unfolding write_frame_def data_blk_def by blast
  qed
  have ind: "ind_blk jp s' = ind_blk jp s" by (simp add: ind_blk_def i)
  have fa: "faddr jp s' = faddr jp s"
    using cur [of "(dev, ind_blk jp s)"] by (auto simp: fun_eq_iff faddr_def ind i dev own_def ind_key_def)
  have "fbyte dev jp s' j = fbyte dev jp s j" if "j < unat (i_size (ino s jp))" for j
  proof -
    have "(dev, faddr jp s (j div BSIZE)) \<in> own dev jp s" using whole_file_addr [OF assms(8) that] unfolding own_def by blast
    then show ?thesis by (simp add: fbyte_def fa cur)
  qed
  then have "fbytes dev jp s' = fbytes dev jp s" by (simp add: fbytes_def i)
  with s' i show ?thesis by blast
qed

theorem writei_other_files_witness:
  "\<exists>s'. writei 0 [7, 8] 0 demo = Inr (2, s') \<and> ino s' 1 = ino demo 1 \<and> fbytes 1 1 s' = []"
proof -
  have "own 1 1 demo = {}" by (auto simp: own_def ind_key_def ind_blk_def faddr_def demo_fields demo_inode_def)
  moreover have "fbytes 1 1 demo = []" by (simp add: fbytes_def demo_fields demo_inode_def)
  ultimately show ?thesis
    using writei_other_files [of 1 0 0 0 "[7, 8]" demo 0 1] demo_tx [of "Suc (Suc 0)" 7] demo_files demo_cache demo_free
    by (simp add: turns_def dir_ok_def)
qed

section \<open>Blocks and inodes\<close>

text \<open>
  \<^verbatim>\<open>balloc\<close> returns the lowest free block, zeroed, and marks exactly it as used; freeing it again with \<^verbatim>\<open>bfree\<close> succeeds and
  restores the bitmap, and freeing it a second time panics.
\<close>

theorem balloc_bfree_roundtrip:
  assumes "tx dev (Suc h) (n + 3) s" and "bitmap_ok dev s" and "fheld s = {}" and "\<exists>b < sb_size (sb_of dev s). \<not> used s dev b"
  shows "\<exists>b s1 s2. balloc dev s = Inr (b, s1) \<and> \<not> used s dev b \<and> (\<forall>c < b. used s dev c) \<and>
    (\<forall>c. used s1 dev c \<longleftrightarrow> c = b \<or> used s dev c) \<and> fcur s1 (dev, b) = replicate BSIZE 0 \<and>
    bfree dev b s1 = Inr s2 \<and> fcur s2 = (fcur s)((dev, b) := replicate BSIZE 0) \<and>
    bfree dev b s2 = Inl (Panic ''freeing free block'')"
proof -
  have t: "tx dev (Suc h) (Suc (Suc (Suc n))) s" using assms(1) by (simp add: numeral_3_eq_3)
  let ?bm = "fcur s (bmkey dev s)"
  obtain b s1 where b: "balloc dev s = Inr (b, s1)" "b < sb_size (sb_of dev s)" "\<not> used s dev b" "\<forall>c < b. used s dev c"
    "tx dev (Suc h) (Suc n) s1" "keeps s s1"
    "fcur s1 = (fcur s)(bmkey dev s := mark_bit ?bm (unat b), (dev, b) := replicate BSIZE 0)"
    by (rule balloc_ok [OF t assms(2) _ assms(4)]) (simp add: assms(3), rule that, assumption+)
  note f = keeps_fields [OF b(6)]
  have bo: "length ?bm = BSIZE" "sb_size (sb_of dev s) \<le> FSSIZE" "\<forall>c \<le> sb_bmapstart (sb_of dev s). used s dev c"
    using assms(2) by (auto simp: bitmap_ok_def)
  have ne: "(dev, b) \<noteq> bmkey dev s" using bo(3) b(3) by (auto simp: bmkey_def)
  have key: "bmkey dev s1 = bmkey dev s" by (simp add: bmkey_def f)
  have bm1: "fcur s1 (bmkey dev s) = mark_bit ?bm (unat b)" using ne by (simp add: b(7))
  have lt: "unat b < 8 * length ?bm" using b(2) bo(1,2) by (simp add: word_less_nat_alt word_le_nat_alt)
  have u1: "used s1 dev c \<longleftrightarrow> c = b \<or> used s dev c" for c
    unfolding used_def key bm1 using bit_used_mark [OF lt] by (auto simp: word_unat_eq_iff)
  have ok1: "bitmap_ok dev s1"
    using assms(2) u1 bm1 f by (simp add: bitmap_ok_def key)
  have nu: "\<not> bit_used ?bm (unat b)" using b(3) by (simp add: used_def)
  have b1: "b < sb_size (sb_of dev s1)" "used s1 dev b" using b(2) u1 f by simp_all
  obtain s2 where s2: "bfree dev b s1 = Inr s2" "tx dev (Suc h) n s2" "keeps s1 s2"
    "fcur s2 = (fcur s1)(bmkey dev s1 := clear_bit (fcur s1 (bmkey dev s1)) (unat b))"
    by (rule bfree_ok [OF b(5) ok1 b1])
  have c2: "fcur s2 = (fcur s)((dev, b) := replicate BSIZE 0)"
    using clear_mark [OF lt nu] ne by (auto simp: s2(4) key bm1 fun_eq_iff) (simp add: b(7))+
  note f2 = keeps_fields [OF s2(3)]
  have key2: "bmkey dev s2 = bmkey dev s" by (simp add: bmkey_def f f2)
  have u2: "used s2 dev c \<longleftrightarrow> used s dev c" for c using ne by (simp add: used_def key2 c2)
  have ok2: "bitmap_ok dev s2" using assms(2) u2 f f2 ne by (simp add: bitmap_ok_def key2 c2)
  have "bfree dev b s2 = Inl (Panic ''freeing free block'')"
    using b(2,3) u2 f f2 by (intro bfree_free [OF s2(2) ok2]) simp_all
  with b s2(1) c2 u1 show ?thesis by (intro exI [of _ b] exI [of _ s1] exI [of _ s2]) simp
qed

theorem balloc_bfree_roundtrip_witness:
  "\<exists>b s1 s2. balloc 1 demo = Inr (b, s1) \<and> \<not> used demo 1 b \<and> bfree 1 b s1 = Inr s2"
proof -
  have "\<exists>b < sb_size (sb_of 1 demo). \<not> used demo 1 b" by (intro exI [of _ 100]) (simp add: demo_used demo_fields demo_sb_def)
  then show ?thesis
    using balloc_bfree_roundtrip [of 1 0 0 demo] demo_tx [of "Suc 0" 3] demo_disk_ok demo_cache by (auto simp: disk_ok_def)
qed

text \<open>
  The inode on disk follows the inode in memory: after \<^verbatim>\<open>iupdate\<close> of one cache entry, \<^verbatim>\<open>ilock\<close> of any other entry for the same
  inode that is not yet valid reads back the type, the device numbers, the link count, the size and the addresses.
\<close>

theorem iupdate_ilock_roundtrip:
  assumes "tx dev (Suc h) (Suc n) s" and "bitmap_ok dev s" and "inode_ok dev ip s" and "inode_ok dev jp s"
    and "i_inum (ino s jp) = i_inum (ino s ip)" and "length (i_addrs (ino s ip)) = NDIRECT + 1" and "i_type (ino s ip) \<noteq> 0"
    and "\<not> i_locked (ino s jp)" and "1 \<le> i_ref (ino s jp)" and "\<not> i_valid (ino s jp)"
  shows "\<exists>s1 s2. iupdate ip s = Inr s1 \<and> ilock jp s1 = Inr s2 \<and> ino s2 jp = (ino s ip)\<lparr>i_dev := dev,
    i_inum := i_inum (ino s ip), i_ref := i_ref (ino s jp), i_locked := True, i_valid := True\<rparr>"
proof -
  let ?k = "(dev, inode_blk dev (i_inum (ino s ip)) s)" and ?o = "dinode_off (i_inum (ino s ip))"
  obtain s1 where s1: "iupdate ip s = Inr s1" "tx dev (Suc h) n s1" "keeps s s1"
    "fcur s1 = (fcur s)(?k := put_dinode (fcur s ?k) ?o (ino s ip))"
    by (rule iupdate_ok [OF assms(1,3,2)]) (rule that, simp_all add: Let_def)
  note f = keeps_fields [OF s1(3)]
  have len: "length (fcur s ?k) = BSIZE" "inode_blk dev (i_inum (ino s ip)) s < sb_bmapstart (sb_of dev s)"
    using assms(3) by (simp_all add: inode_ok_def)
  have bm: "fcur s1 (bmkey dev s) = fcur s (bmkey dev s)" using len(2) by (auto simp: s1(4) bmkey_def)
  have ok1: "bitmap_ok dev s1" by (rule bitmap_ok_keeps [OF s1(3) bm assms(2)])
  have b1: "inode_blk dev i s1 = inode_blk dev i s" for i by (simp add: inode_blk_def f)
  have io1: "inode_ok dev jp s1" using assms(4,5) len(1) by (simp add: inode_ok_def f b1 s1(4))
  have dev: "i_dev (ino s ip) = dev" "i_dev (ino s jp) = dev" using assms(3,4) by (simp_all add: inode_ok_def)
  have g: "get_dinode (put_dinode (fcur s ?k) ?o (ino s ip)) ?o (ino s jp) = (ino s jp)\<lparr>i_type := i_type (ino s ip),
      i_major := i_major (ino s ip), i_minor := i_minor (ino s ip), i_nlink := i_nlink (ino s ip), i_size := i_size (ino s ip),
      i_addrs := i_addrs (ino s ip)\<rparr>"
    using dinode_off_le [of "i_inum (ino s ip)"] len(1) assms(6) by (intro get_put_dinode) simp_all
  have "\<exists>s2. ilock jp s1 = Inr s2 \<and> ino s2 jp = (get_dinode (put_dinode (fcur s ?k) ?o (ino s ip)) ?o (ino s jp))\<lparr>i_locked := True, i_valid := True\<rparr>"
    using ilock_ok [OF s1(2) io1 ok1] assms(5,7-10) g by (auto simp: f b1 s1(4))
  then show ?thesis using s1(1) assms(5) dev unfolding g by auto
qed

definition demo_pair :: "unit fs" where
  "demo_pair = demo\<lparr>inodes := (inodes demo)[2 := (demo_inode 2 0 0)\<lparr>i_ref := 1\<rparr>]\<rparr>"

theorem iupdate_ilock_roundtrip_witness:
  "\<exists>s1 s2. iupdate 0 demo_pair = Inr s1 \<and> ilock 2 s1 = Inr s2 \<and> i_type (ino s2 2) = T_FILE"
proof -
  let ?s = demo_pair
  have f: "fcur ?s = fcur demo" "fheld ?s = fheld demo" "sb_of 1 ?s = sb_of 1 demo" "bmkey 1 ?s = bmkey 1 demo" "used ?s = used demo"
    "tx 1 h n ?s = tx 1 h n demo" for h n
    by (simp_all add: demo_pair_def fcur_def fheld_def sb_of_def bmkey_def used_def fun_eq_iff tx_def)
  have i: "ino ?s 0 = demo_inode 2 T_FILE 1" "ino ?s 2 = (demo_inode 2 0 0)\<lparr>i_ref := 1\<rparr>" "length (inodes ?s) = 50"
    using demo_fields by (simp_all add: ino_def demo_pair_def)
  have b: "bitmap_ok 1 ?s" using demo_disk_ok by (simp add: disk_ok_def bitmap_ok_def f)
  have o: "inode_ok 1 0 ?s" "inode_ok 1 2 ?s"
    using demo_files(3) unfolding inode_ok_def inode_blk_def f i by (simp_all add: demo_fields demo_inode_def)
  have "\<exists>s1 s2. iupdate 0 ?s = Inr s1 \<and> ilock 2 s1 = Inr s2 \<and> ino s2 2 = (ino ?s 0)\<lparr>i_dev := 1,
    i_inum := i_inum (ino ?s 0), i_ref := i_ref (ino ?s 2), i_locked := True, i_valid := True\<rparr>"
    by (rule iupdate_ilock_roundtrip [of 1 0 0 ?s 0 2]) (use b o demo_tx [of 1 1] in \<open>simp_all add: f i demo_inode_def\<close>)
  then show ?thesis unfolding i by (auto simp: demo_inode_def)
qed

text \<open>
  The cache entries in use: distinct entries are for distinct inodes.
\<close>

definition icache_ok :: "'d fs \<Rightarrow> bool" where
  "icache_ok s \<longleftrightarrow> length (inodes s) = NINODE \<and> (\<forall>ip < NINODE. 0 \<le> i_ref (ino s ip)) \<and>
     (\<forall>ip < NINODE. \<forall>jp < NINODE. 0 < i_ref (ino s ip) \<longrightarrow> 0 < i_ref (ino s jp) \<longrightarrow>
       i_dev (ino s ip) = i_dev (ino s jp) \<longrightarrow> i_inum (ino s ip) = i_inum (ino s jp) \<longrightarrow> ip = jp)"

text \<open>
  C30. The inode cache has at most one entry for an inode.  \<^verbatim>\<open>iget\<close> keeps this: it returns an entry for the inode asked for, with one
  more reference than the inode had before and every other entry unchanged, and it panics exactly when the
  inode is not cached and all entries are in use.
\<close>

theorem iget_unique:
  assumes "icache_ok s"
  shows "(case iget dev inum s of
      Inr (ip, s') \<Rightarrow> icache_ok s' \<and> ip < NINODE \<and> i_dev (ino s' ip) = dev \<and> i_inum (ino s' ip) = inum \<and>
        (\<forall>jp. jp \<noteq> ip \<longrightarrow> ino s' jp = ino s jp) \<and>
        i_ref (ino s' ip) = 1 + (\<Sum>jp \<in> {jp. jp < NINODE \<and> 0 < i_ref (ino s jp) \<and> i_dev (ino s jp) = dev \<and> i_inum (ino s jp) = inum}. i_ref (ino s jp))
    | Inl e \<Rightarrow> e = Panic ''iget: no inodes'' \<and> (\<forall>ip < NINODE. 0 < i_ref (ino s ip) \<and> (i_dev (ino s ip), i_inum (ino s ip)) \<noteq> (dev, inum)))"
proof -
  let ?P = "\<lambda>ip. i_ref (ino s ip) > 0 \<and> i_dev (ino s ip) = dev \<and> i_inum (ino s ip) = inum"
  have len: "length (inodes s) = NINODE" and pos: "\<And>ip. ip < NINODE \<Longrightarrow> 0 \<le> i_ref (ino s ip)" using assms by (auto simp: icache_ok_def)
  have uniq: "\<And>a b. a < NINODE \<Longrightarrow> b < NINODE \<Longrightarrow> 0 < i_ref (ino s a) \<Longrightarrow> 0 < i_ref (ino s b) \<Longrightarrow>
      i_dev (ino s a) = i_dev (ino s b) \<Longrightarrow> i_inum (ino s a) = i_inum (ino s b) \<Longrightarrow> a = b"
    using assms unfolding icache_ok_def by blast
  show ?thesis
  proof (cases "find ?P [0..<NINODE]")
    case (Some ip)
    then have ip: "ip < NINODE" "?P ip" by (auto simp: find_Some_iff)
    let ?s = "upd_ino ip (\<lambda>i. i\<lparr>i_ref := i_ref i + 1\<rparr>) s" and ?m = "(ino s ip)\<lparr>i_ref := i_ref (ino s ip) + 1\<rparr>"
    have i: "ino ?s jp = (if jp = ip then ?m else ino s jp)" for jp using ip(1) len by simp
    have only: "{jp. jp < NINODE \<and> ?P jp} = {ip}"
    proof (intro set_eqI iffI)
      fix jp assume "jp \<in> {jp. jp < NINODE \<and> ?P jp}"
      then have "jp = ip" using ip by (intro uniq) simp_all
      then show "jp \<in> {ip}" by simp
    qed (use ip in simp)
    have "icache_ok ?s"
      unfolding icache_ok_def i
    proof (intro conjI allI impI)
      show "length (inodes ?s) = NINODE" using len by simp
      show "0 \<le> i_ref (if a = ip then ?m else ino s a)" if "a < NINODE" for a using pos [OF that] ip(2) by simp
      fix a b
      assume *: "a < NINODE" "b < NINODE" "0 < i_ref (if a = ip then ?m else ino s a)" "0 < i_ref (if b = ip then ?m else ino s b)"
        "i_dev (if a = ip then ?m else ino s a) = i_dev (if b = ip then ?m else ino s b)"
        "i_inum (if a = ip then ?m else ino s a) = i_inum (if b = ip then ?m else ino s b)"
      have k: "i_dev (if c = ip then ?m else ino s c) = i_dev (ino s c)" "i_inum (if c = ip then ?m else ino s c) = i_inum (ino s c)"
        "0 < i_ref (if c = ip then ?m else ino s c) \<Longrightarrow> 0 < i_ref (ino s c)" for c using ip(2) by (simp_all split: if_splits)
      show "a = b" by (rule uniq [OF *(1,2) k(3) [OF *(3)] k(3) [OF *(4)] *(5,6) [unfolded k(1,2)]])
    qed
    with Some ip show ?thesis unfolding iget_def only by (simp add: i)
  next
    case None
    then have no: "{jp. jp < NINODE \<and> ?P jp} = {}" by (auto simp: find_None_iff)
    show ?thesis
    proof (cases "find (\<lambda>ip. i_ref (ino s ip) = 0) [0..<NINODE]")
      case none: None
      then have all: "0 < i_ref (ino s ip)" if "ip < NINODE" for ip using pos [OF that] that by (force simp: find_None_iff)
      then have "(i_dev (ino s ip), i_inum (ino s ip)) \<noteq> (dev, inum)" if "ip < NINODE" for ip using no that by blast
      with all None none show ?thesis by (simp add: iget_def)
    next
      case (Some ip)
      then have ip: "ip < NINODE" "i_ref (ino s ip) = 0" by (auto simp: find_Some_iff)
      let ?s = "upd_ino ip (\<lambda>i. i\<lparr>i_dev := dev, i_inum := inum, i_ref := 1, i_valid := False\<rparr>) s"
      have i: "ino ?s jp = (if jp = ip then (ino s ip)\<lparr>i_dev := dev, i_inum := inum, i_ref := 1, i_valid := False\<rparr> else ino s jp)" for jp
        using ip(1) len by simp
      let ?n = "(ino s ip)\<lparr>i_dev := dev, i_inum := inum, i_ref := 1, i_valid := False\<rparr>"
      have "icache_ok ?s"
        unfolding icache_ok_def i
      proof (intro conjI allI impI)
        show "length (inodes ?s) = NINODE" using len by simp
        show "0 \<le> i_ref (if a = ip then ?n else ino s a)" if "a < NINODE" for a using pos that by simp
        fix a b
        assume *: "a < NINODE" "b < NINODE" "0 < i_ref (if a = ip then ?n else ino s a)" "0 < i_ref (if b = ip then ?n else ino s b)"
          "i_dev (if a = ip then ?n else ino s a) = i_dev (if b = ip then ?n else ino s b)"
          "i_inum (if a = ip then ?n else ino s a) = i_inum (if b = ip then ?n else ino s b)"
        consider "a = ip" "b = ip" | "a = ip" "b \<noteq> ip" | "a \<noteq> ip" "b = ip" | "a \<noteq> ip" "b \<noteq> ip" by blast
        then show "a = b"
        proof cases
          case 2
          with * have "b \<in> {jp. jp < NINODE \<and> ?P jp}" by simp
          then show ?thesis unfolding no by simp
        next
          case 3
          with * have "a \<in> {jp. jp < NINODE \<and> ?P jp}" by simp
          then show ?thesis unfolding no by simp
        next
          case 4
          with * show ?thesis using uniq [of a b] by simp
        qed simp
      qed
      with Some None ip show ?thesis unfolding iget_def no by (simp add: i)
    qed
  qed
qed

theorem iget_unique_witness:
  "case iget 1 2 demo of Inr (ip, s') \<Rightarrow> icache_ok s' \<and> i_inum (ino s' ip) = 2 | Inl e \<Rightarrow> e = Panic ''iget: no inodes''"
proof -
  have l: "length (inodes demo) = 50" by (rule demo_fields)
  have "ino demo ip = (if ip = 0 then demo_inode 2 T_FILE 1 else if ip = 1 then demo_inode 1 T_DIR 1 else demo_inode 0 0 0)" if "ip < 50" for ip
    using that by (auto simp: ino_def demo_def nth_Cons split: nat.splits)
  then have "icache_ok demo" unfolding icache_ok_def l by (auto simp: demo_inode_def split: if_splits)
  from iget_unique [OF this, of 1 2] show ?thesis by (auto split: sum.splits prod.splits)
qed

section \<open>Directories and paths\<close>

text \<open>
  C29. \<^verbatim>\<open>dirlink\<close> adds a name that \<^verbatim>\<open>dirlookup\<close> then finds.  In a directory without the name, \<^verbatim>\<open>dirlink\<close> returns 0; afterwards
  \<^verbatim>\<open>dirlookup\<close> of every name that agrees with it in the first \<^verbatim>\<open>DIRSIZ\<close> bytes looks up the inode number that was linked, at the entry
  written, and no other entry has changed.
\<close>

theorem dirlink_dirlookup:
  assumes "tx dev (h + 2) (n + 7) s" and "dir_ok dev dp s" and "inode_ok dev dp s" and "fheld s = {}"
    and "unat (i_size (ino s dp)) + 16 \<le> MAXFILE * BSIZE" and "2 \<le> card (free_blks dev s)"
    and "\<forall>k < nents dp s. \<not> matches name (ent dev dp s k)" and "0 \<notin> set name" and "inum \<noteq> 0"
  shows "\<exists>s1 s2 p. dirlink dp name (ucast (inum :: u16)) s = Inr (0, s1) \<and>
    (\<forall>k. ent dev dp s1 k = (if k = p then mk_dirent inum name else ent dev dp s k)) \<and>
    dirlookup dp name s1 = bindE (iget dev (ucast inum) s2) (\<lambda>(ip, s3). Inr (Some (ip, of_nat (16 * p)), s3)) \<and>
    fcur s2 = fcur s1 \<and> inodes s2 = inodes s1"
proof -
  have t: "tx dev (Suc (Suc h)) (n + 7) s" using assms(1) by simp
  have uc: "ucast (ucast inum :: u32) = inum" by (simp add: ucast_up_ucast_id is_up)
  obtain p s1 where s1: "dirlink dp name (ucast inum) s = Inr (0, s1)" "p \<le> nents dp s" "p < nents dp s \<longrightarrow> de_inum (ent dev dp s p) = 0"
    "fbytes dev dp s1 = overwrite (fbytes dev dp s) (16 * p) (mk_dirent inum name)" "whole_file dev dp s1" "inode_ok dev dp s1"
    "tx dev (Suc (Suc h)) n s1" "write_frame dev dp s s1"
    by (rule dirlink_ok [OF t assms(2-7), of "ucast inum"]) (rule that, simp_all add: uc)
  have d: "unat (i_size (ino s dp)) = 16 * nents dp s" "unat (i_size (ino s dp)) mod 16 = 0" "i_type (ino s dp) = T_DIR"
    using assms(2) by (auto simp: dir_ok_def nents_def)
  have len: "length (fbytes dev dp s) = 16 * nents dp s" using d by (simp add: fbytes_def)
  have e: "ent dev dp s1 k = (if k = p then mk_dirent inum name else ent dev dp s k)" for k
    unfolding ent_def s1(4) using s1(2) len by (intro chunk_overwrite) (simp_all add: mk_dirent_fields)
  have sz: "unat (i_size (ino s1 dp)) = max (16 * nents dp s) (16 * p + 16)"
    using arg_cong [OF s1(4), of length] length_overwrite [of "16 * p" "fbytes dev dp s" "mk_dirent inum name"] s1(2) len
    by (simp add: fbytes_def mk_dirent_fields)
  have N1: "nents dp s1 = max (nents dp s) (Suc p)" using sz by (auto simp: nents_def max_def)
  have ty: "i_type (ino s1 dp) = T_DIR" "fheld s1 = {}" using s1(8) d(3) assms(4) by (simp_all add: write_frame_def)
  have d1: "dir_ok dev dp s1" using s1(5) ty sz by (auto simp: dir_ok_def max_def)
  have self: "matches name (mk_dirent inum name)" using matches_mk_dirent [of inum name name] assms(8,9) by simp
  have find: "find (\<lambda>k. matches name (ent dev dp s1 k)) [0..<nents dp s1] = Some p"
    unfolding find_Some_iff using assms(7) self N1 e s1(2) by (intro exI [of _ p]) (auto simp: max_def split: if_splits)
  have ep: "de_inum (ent dev dp s1 p) = inum" by (simp add: e mk_dirent_fields)
  obtain s2 where s2: "dirlookup dp name s1 = bindE (iget dev (ucast inum) s2) (\<lambda>(ip, s3). Inr (Some (ip, of_nat (16 * p)), s3))"
    "fcur s2 = fcur s1" "keeps s1 s2"
    by (rule dirlookup_ok [OF s1(7) d1 ty(2), of name, unfolded find option.case ep]) (rule that)
  show ?thesis
    using s1(1) e s2 keeps_fields(3) [OF s2(3)] by (intro exI [of _ s1] exI [of _ s2] exI [of _ p]) simp
qed

theorem dirlink_dirlookup_witness:
  "\<exists>s1 s2. dirlink 1 [97, 98] 5 demo = Inr (0, s1) \<and> (\<exists>p. dirlookup 1 [97, 98] s1 = bindE (iget 1 5 s2) (\<lambda>(ip, s3). Inr (Some (ip, of_nat (16 * p)), s3)))"
proof -
  have "nents 1 demo = 0" "unat (i_size (ino demo 1)) = 0" by (simp_all add: nents_def demo_fields demo_inode_def)
  then show ?thesis
    using dirlink_dirlookup [of 1 0 0 demo 1 "[97, 98]" 5] demo_tx [of "Suc (Suc 0)" 7] demo_files demo_cache demo_free by auto
qed

text \<open>
  \<^verbatim>\<open>skipelem\<close> splits a path into its first element and the rest.  For a path made of slashes, an element without slashes that does not
  begin with a bar, and then nothing or a slash followed by more, it returns the element cut to \<^verbatim>\<open>DIRSIZ\<close> bytes and the rest without leading slashes; a path of
  slashes only has no element.
\<close>

theorem skipelem_splits:
  assumes "elem \<noteq> []" and "set elem \<inter> {slash, 0} = {}" and "hd elem \<noteq> pipechar" and "tail = [] \<or> hd tail = slash"
  shows "skipelem (replicate n slash @ elem @ tail) = Some (take DIRSIZ elem, dropWhile (\<lambda>c. c = slash) tail) \<and>
    skipelem (replicate n slash) = None"
proof -
  have d: "dropWhile (\<lambda>c. c = slash) (replicate n slash @ xs) = dropWhile (\<lambda>c. c = slash) xs" for n xs
    by (induction n) auto
  obtain c es where e: "elem = c # es" using assms(1) by (cases elem) auto
  have c: "c \<noteq> slash" "c \<noteq> 0" "c \<noteq> pipechar" using assms(2,3) e by auto
  have all: "\<forall>x \<in> set elem. x \<noteq> slash \<and> x \<noteq> 0" using assms(2) by auto
  then have "takeWhile (\<lambda>c. c \<noteq> slash \<and> c \<noteq> 0) (elem @ tail) = elem" "dropWhile (\<lambda>c. c \<noteq> slash \<and> c \<noteq> 0) (elem @ tail) = tail"
    using assms(4) by (cases tail, auto simp: takeWhile_append dropWhile_append)+
  moreover have "dropWhile (\<lambda>c. c = pipechar) (dropWhile (\<lambda>c. c = slash) (replicate n slash @ elem @ tail)) = elem @ tail"
    using c unfolding d e by simp
  moreover have "peek (elem @ tail) \<noteq> 0" using c by (simp add: e)
  ultimately have "skipelem (replicate n slash @ elem @ tail) = Some (take DIRSIZ elem, dropWhile (\<lambda>c. c = slash) tail)"
    unfolding skipelem_def Let_def by simp
  moreover have "skipelem (replicate n slash) = None" using d [of n "[]"] by (simp add: skipelem_def)
  ultimately show ?thesis by blast
qed

theorem skipelem_splits_witness:
  "skipelem [47, 47, 117, 115, 114, 47, 108, 115] = Some ([117, 115, 114], [108, 115])"
  using skipelem_splits [of "[117, 115, 114]" "[47, 108, 115]" "Suc (Suc 0)"] by simp

end
