(* ===== verification/Slab.thy ===== *)
theory Slab
  imports Buddy
begin

text \<open>
  The slab layer of \<^verbatim>\<open>slab.c\<close> and the two entry points \<^verbatim>\<open>dmalloc\<close> and \<^verbatim>\<open>dfree\<close> of \<^verbatim>\<open>buddy.c\<close>, which
  send small requests to the slabs and everything else to the buddy lists.  A \<^verbatim>\<open>struct page\<close> and a
  \<^verbatim>\<open>struct hash_node\<close> are records, and the memory that holds them maps addresses to records; the
  word that a free object keeps in its own first bytes, the link of the free list of its page,
  is in \<open>obj\<close>.  The descriptor \<^verbatim>\<open>static_page\<close> of a cache lives in the array \<^verbatim>\<open>slab\<close> at the address
  \<open>slab_at\<close>.

  The functions call one another in a circle (a page needs a hash node, which is an object of
  another cache, which may need a page), so they carry fuel: it bounds the depth of the circle and
  the number of turns of a loop, and running out of it is \<open>Hang\<close>.  \<^verbatim>\<open>print_slab\<close>, \<^verbatim>\<open>print_hash\<close> and \<^verbatim>\<open>slab_test\<close> only
  print or exercise the allocator.
\<close>

section \<open>State\<close>

record page =
  page_next :: u32
  page_prev :: u32
  in_use_num :: u32
  page_start :: u32
  free_list_head :: u32
  free_list_tail :: u32

record slab_cache =
  obj_sz :: u32
  free_page_num :: u32
  cur_slab_page :: u32
  page_tail :: u32

record hash_node =
  hn_slab_idx :: nat
  hn_cur_page :: u32
  hn_next :: u32
  hn_prev :: u32

record hash_ptr =
  ht_head :: u32
  ht_tail :: u32

record slabs =
  bd :: buddy
  slab :: "slab_cache list"
  slab_at :: u32
  hash_table :: "hash_ptr list"
  pages :: "u32 \<Rightarrow> page"
  hnodes :: "u32 \<Rightarrow> hash_node"
  obj :: "u32 \<Rightarrow> u32"

datatype insert_flag = HEAD | TAIL

datatype free_status = NOT_FOUND | INVALID | SUCCESS

abbreviation (input) SLAB_NUM :: nat where
  "SLAB_NUM \<equiv> 10"

abbreviation (input) MAX_FREE_PAGE :: u32 where
  "MAX_FREE_PAGE \<equiv> 2"

abbreviation (input) HASH_SIZE :: u32 where
  "HASH_SIZE \<equiv> 10"

abbreviation (input) sizeof_slab_cache :: "'a::numeral" where
  "sizeof_slab_cache \<equiv> 40"

abbreviation (input) sizeof_page :: "'a::numeral" where
  "sizeof_page \<equiv> 24"

abbreviation (input) sizeof_hash_node :: "'a::numeral" where
  "sizeof_hash_node \<equiv> 16"

abbreviation (input) sizeof_hash_ptr :: "'a::numeral" where
  "sizeof_hash_ptr \<equiv> 8"

text \<open>\<^verbatim>\<open>memset(&new_page, 0, sizeof(new_page))\<close>.\<close>

definition zero_page :: page where
  "zero_page = \<lparr>page_next = 0, page_prev = 0, in_use_num = 0, page_start = 0,
     free_list_head = 0, free_list_tail = 0\<rparr>"

text \<open>The address of \<^verbatim>\<open>slab[slab_idx].static_page\<close>: the descriptor follows two words.\<close>

definition static_page :: "slabs \<Rightarrow> nat \<Rightarrow> u32" where
  "static_page s slab_idx = slab_at s + of_nat (slab_idx * sizeof_slab_cache) + 8"

text \<open>Assignments through a pointer to a page, to a hash node, and to a field of a cache.\<close>

definition set_page :: "u32 \<Rightarrow> (page \<Rightarrow> page) \<Rightarrow> slabs \<Rightarrow> slabs" where
  "set_page p g s = s\<lparr>pages := (pages s)(p := g (pages s p))\<rparr>"

definition set_hnode :: "u32 \<Rightarrow> (hash_node \<Rightarrow> hash_node) \<Rightarrow> slabs \<Rightarrow> slabs" where
  "set_hnode p g s = s\<lparr>hnodes := (hnodes s)(p := g (hnodes s p))\<rparr>"

definition set_slab :: "nat \<Rightarrow> (slab_cache \<Rightarrow> slab_cache) \<Rightarrow> slabs \<Rightarrow> slabs" where
  "set_slab i g s = s\<lparr>slab := (slab s)[i := g (slab s ! i)]\<rparr>"

section \<open>Objects and free lists\<close>

fun make_obj_loop :: "nat \<Rightarrow> u32 \<Rightarrow> u32 \<Rightarrow> (u32 \<Rightarrow> u32) \<Rightarrow> u32 \<times> (u32 \<Rightarrow> u32)" where
  "make_obj_loop 0 sz cur_obj m = (cur_obj, m)"
| "make_obj_loop (Suc n) sz cur_obj m =
     make_obj_loop n sz (cur_obj + 4 * (sz div 4)) (m(cur_obj := cur_obj + 4 * (sz div 4)))"

definition make_slab_obj :: "page \<Rightarrow> u32 \<Rightarrow> (u32 \<Rightarrow> u32) \<Rightarrow> (page \<times> (u32 \<Rightarrow> u32)) result" where
  "make_slab_obj cur_page sz m =
     (if sz = 0 then Inl Wild
      else
        let total_obj = PGSIZE div sz;
            (cur_obj, m1) = make_obj_loop (unat total_obj - 1) sz (page_start cur_page) m
        in Inr (cur_page\<lparr>in_use_num := 0, free_list_head := page_start cur_page,
                         free_list_tail := cur_obj\<rparr>,
                m1(cur_obj := 0)))"

text \<open>
  \<^verbatim>\<open>dmalloc(PGSIZE)\<close> is a request of more than half a page, so it goes to the buddy lists.
\<close>

definition alloc_new_slab_page :: "nat \<Rightarrow> slabs \<Rightarrow> (page \<times> slabs) result" where
  "alloc_new_slab_page slab_idx s =
     bindE (dmalloc_buddy PGSIZE (bd s)) (\<lambda>(start, bd1).
     let s1 = s\<lparr>bd := bd1\<rparr>;
         new_page = zero_page\<lparr>page_start := start\<rparr>
     in if start \<noteq> 0
        then bindE (aget (slab s1) slab_idx) (\<lambda>c.
             bindE (make_slab_obj new_page (obj_sz c) (obj s1)) (\<lambda>(new_page1, m).
             Inr (new_page1, set_slab slab_idx (\<lambda>c. c\<lparr>free_page_num := free_page_num c + 1\<rparr>)
                               (s1\<lparr>obj := m\<rparr>))))
        else Inr (new_page, s1))"

definition calc_hash_idx :: "u32 \<Rightarrow> nat" where
  "calc_hash_idx page_addr = unat ((page_addr div PGSIZE) mod HASH_SIZE)"

definition find_target_page :: "u32 \<Rightarrow> slabs \<Rightarrow> u32 result" where
  "find_target_page slab_obj s =
     (let page_addr = (slab_obj div PGSIZE) * PGSIZE;
          hash_idx = calc_hash_idx page_addr
      in bindE (aget (hash_table s) hash_idx) (\<lambda>b.
         bindE (find_node (\<lambda>n. hn_next (hnodes s n))
                  (\<lambda>n. page_start (pages s (hn_cur_page (hnodes s n))) = page_addr)
                  (ht_head b) (ht_head b) [])
           (\<lambda>(prev, cur_node). Inr cur_node)))"

definition check_slab_obj :: "u32 \<Rightarrow> u32 \<Rightarrow> bool" where
  "check_slab_obj obj_addr sz = ((obj_addr mod PGSIZE) mod sz = 0)"

definition push_free_list :: "u32 \<Rightarrow> u32 \<Rightarrow> slabs \<Rightarrow> (free_status \<times> slabs) result" where
  "push_free_list cur_page slab_obj s =
     bindE (deref (pages s) cur_page) (\<lambda>pg.
     bindE (find_node (obj s) (\<lambda>x. x = slab_obj) (free_list_head pg) (free_list_head pg) [])
       (\<lambda>(prev, found).
     if found \<noteq> 0 then Inr (INVALID, s)
     else
       let s1 = (if free_list_tail pg \<noteq> 0
                 then set_page cur_page (\<lambda>q. q\<lparr>free_list_tail := slab_obj\<rparr>)
                        (s\<lparr>obj := (obj s)(free_list_tail pg := slab_obj, slab_obj := 0)\<rparr>)
                 else set_page cur_page
                        (\<lambda>q. q\<lparr>free_list_head := slab_obj, free_list_tail := slab_obj\<rparr>)
                        (s\<lparr>obj := (obj s)(slab_obj := 0)\<rparr>))
       in if slab_obj = 0 then Inl Wild
          else Inr (SUCCESS,
                    set_page cur_page (\<lambda>q. q\<lparr>in_use_num := in_use_num q - 1\<rparr>) s1)))"

definition pop_free_list :: "nat \<Rightarrow> slabs \<Rightarrow> (u32 \<times> slabs) result" where
  "pop_free_list slab_idx s =
     bindE (aget (slab s) slab_idx) (\<lambda>c.
     let cur_page = cur_slab_page c in
     bindE (deref (pages s) cur_page) (\<lambda>pg.
     let s1 = (if in_use_num pg = 0
               then set_slab slab_idx (\<lambda>c. c\<lparr>free_page_num := free_page_num c - 1\<rparr>) s else s);
         cur_free_obj = free_list_head pg
     in bindE (deref (obj s1) cur_free_obj) (\<lambda>head.
        let s2 = set_page cur_page (\<lambda>q. q\<lparr>free_list_head := head, in_use_num := in_use_num q + 1\<rparr>) s1;
            s3 = (if head = 0 then set_page cur_page (\<lambda>q. q\<lparr>free_list_tail := 0\<rparr>) s2 else s2)
        in Inr (cur_free_obj, s3))))"

section \<open>The lists of pages and of hash nodes\<close>

definition insert_slab_page :: "insert_flag \<Rightarrow> nat \<Rightarrow> u32 \<Rightarrow> slabs \<Rightarrow> slabs result" where
  "insert_slab_page flag slab_idx slab_page s =
     bindE (aget (slab s) slab_idx) (\<lambda>c.
     if slab_page = 0 then Inl Wild
     else if cur_slab_page c = 0 then
       Inr (set_slab slab_idx (\<lambda>c. c\<lparr>page_tail := slab_page, cur_slab_page := slab_page\<rparr>)
             (set_page slab_page (\<lambda>q. q\<lparr>page_next := 0, page_prev := 0\<rparr>) s))
     else if flag = HEAD then
       Inr (set_slab slab_idx (\<lambda>c. c\<lparr>cur_slab_page := slab_page\<rparr>)
             (set_page slab_page (\<lambda>q. q\<lparr>page_next := cur_slab_page c, page_prev := 0\<rparr>)
               (set_page (cur_slab_page c) (\<lambda>q. q\<lparr>page_prev := slab_page\<rparr>) s)))
     else if page_tail c = 0 then Inl Wild
     else
       Inr (set_slab slab_idx (\<lambda>c. c\<lparr>page_tail := slab_page\<rparr>)
             (set_page slab_page (\<lambda>q. q\<lparr>page_next := 0, page_prev := page_tail c\<rparr>)
               (set_page (page_tail c) (\<lambda>q. q\<lparr>page_next := slab_page\<rparr>) s))))"

definition load_next_slab_page :: "nat \<Rightarrow> slabs \<Rightarrow> slabs result" where
  "load_next_slab_page slab_idx s =
     bindE (aget (slab s) slab_idx) (\<lambda>c.
     let cur_page = cur_slab_page c in
     bindE (deref (pages s) cur_page) (\<lambda>pg.
     let next_page = page_next pg in
     if next_page = 0 then Inl Wild
     else
       bindE (insert_slab_page TAIL slab_idx cur_page
                (set_page next_page (\<lambda>q. q\<lparr>page_prev := 0\<rparr>) s)) (\<lambda>s1.
       Inr (set_slab slab_idx (\<lambda>c. c\<lparr>cur_slab_page := next_page\<rparr>) s1))))"

text \<open>The part of \<^verbatim>\<open>insert_hash_node\<close> after the node has been allocated.\<close>

definition link_hash_node :: "nat \<Rightarrow> u32 \<Rightarrow> u32 \<Rightarrow> slabs \<Rightarrow> slabs result" where
  "link_hash_node slab_idx slab_page cur_node s =
     (let hash_idx = calc_hash_idx (page_start (pages s slab_page)) in
      if cur_node = 0 then Inl Wild
      else
        let s1 = set_hnode cur_node (\<lambda>n. n\<lparr>hn_cur_page := slab_page, hn_slab_idx := slab_idx\<rparr>) s in
        bindE (aget (hash_table s1) hash_idx) (\<lambda>b.
        if ht_tail b = 0 then
          Inr (set_hnode cur_node (\<lambda>n. n\<lparr>hn_prev := 0, hn_next := 0\<rparr>)
                (s1\<lparr>hash_table := (hash_table s1)[hash_idx := \<lparr>ht_head = cur_node, ht_tail = cur_node\<rparr>]\<rparr>))
        else
          let s2 = set_hnode (ht_tail b) (\<lambda>n. n\<lparr>hn_next := cur_node\<rparr>) s1;
              s3 = set_hnode cur_node (\<lambda>n. n\<lparr>hn_next := 0, hn_prev := ht_tail b\<rparr>) s2
          in Inr (s3\<lparr>hash_table := (hash_table s3)[hash_idx := b\<lparr>ht_tail := cur_node\<rparr>]\<rparr>)))"

text \<open>The part of \<^verbatim>\<open>return_hash_node\<close> before the node is freed.\<close>

definition unlink_hash_node :: "nat \<Rightarrow> u32 \<Rightarrow> slabs \<Rightarrow> slabs result" where
  "unlink_hash_node hash_idx tar_node s =
     bindE (deref (hnodes s) tar_node) (\<lambda>n.
     let s1 = (if hn_prev n \<noteq> 0 then set_hnode (hn_prev n) (\<lambda>m. m\<lparr>hn_next := hn_next n\<rparr>) s else s);
         s2 = (if hn_next n \<noteq> 0 then set_hnode (hn_next n) (\<lambda>m. m\<lparr>hn_prev := hn_prev n\<rparr>) s1 else s1)
     in bindE (aget (hash_table s2) hash_idx) (\<lambda>b.
        let b1 = (if ht_head b = tar_node then b\<lparr>ht_head := hn_next n\<rparr> else b);
            b2 = (if ht_tail b1 = tar_node then b1\<lparr>ht_tail := hn_prev n\<rparr> else b1)
        in Inr (s2\<lparr>hash_table := (hash_table s2)[hash_idx := b2]\<rparr>)))"

text \<open>The part of \<^verbatim>\<open>return_slab_page\<close> before the page is freed.\<close>

definition unlink_slab_page :: "nat \<Rightarrow> u32 \<Rightarrow> slabs \<Rightarrow> slabs result" where
  "unlink_slab_page slab_idx slab_page s =
     bindE (deref (pages s) slab_page) (\<lambda>pg.
     let s1 = (if page_prev pg \<noteq> 0
               then set_page (page_prev pg) (\<lambda>q. q\<lparr>page_next := page_next pg\<rparr>) s else s);
         s2 = (if page_next pg \<noteq> 0
               then set_page (page_next pg) (\<lambda>q. q\<lparr>page_prev := page_prev pg\<rparr>) s1 else s1)
     in bindE (aget (slab s2) slab_idx) (\<lambda>c.
        let c1 = (if cur_slab_page c = slab_page then c\<lparr>cur_slab_page := page_next pg\<rparr> else c);
            c2 = (if page_tail c1 = slab_page then c1\<lparr>page_tail := page_prev pg\<rparr> else c1)
        in Inr (set_slab slab_idx (\<lambda>_. c2) s2)))"

section \<open>Allocation\<close>

function calc_idx_loop :: "nat \<Rightarrow> nat \<Rightarrow> nat \<Rightarrow> nat" where
  "calc_idx_loop N pow2 cnt =
     (if pow2 = 0 then 0
      else if N > pow2 then calc_idx_loop N (pow2 * 2) (Suc cnt) else cnt)"
  by pat_completeness auto
termination
  by (relation "measure (\<lambda>(N, p, c). N - p)") auto

declare calc_idx_loop.simps [simp del]

text \<open>
  \<^verbatim>\<open>power2\<close> is a \<^verbatim>\<open>uint\<close>: for sizes above \<open>2 ^ 31\<close> it would wrap to 0 and the loop would not end; the
  callers pass at most half a page.
\<close>

definition calc_slab_idx :: "u32 \<Rightarrow> nat result" where
  "calc_slab_idx N =
     (if N < 4 then Inr 0
      else if unat N > 2 ^ 31 then Inl Hang
      else Inr (calc_idx_loop (unat N) 4 0))"

text \<open>
  The functions below form a circle through \<^verbatim>\<open>dmalloc\<close>: a new page needs a hash node, which comes
  from \<^verbatim>\<open>dmalloc\<close>.  Each of them takes the \<^verbatim>\<open>dmalloc\<close> it calls as the argument \<open>dm\<close>, and the recursive
  definition of \<open>dmalloc\<close> ties the knot.
\<close>

definition insert_hash_node ::
  "(int \<Rightarrow> slabs \<Rightarrow> (u32 \<times> slabs) result) \<Rightarrow> nat \<Rightarrow> u32 \<Rightarrow> slabs \<Rightarrow> slabs result" where
  "insert_hash_node dm slab_idx slab_page s =
     bindE (dm sizeof_hash_node s) (\<lambda>(cur_node, s1). link_hash_node slab_idx slab_page cur_node s1)"

text \<open>
  \<^verbatim>\<open>alloc_new_page_addr\<close> from the label \<^verbatim>\<open>page_try_alloc\<close> on, one unit of fuel for each \<^verbatim>\<open>goto\<close> back to
  it.  The descriptor of a new page is the first object of the page itself.
\<close>

fun page_loop :: "(int \<Rightarrow> slabs \<Rightarrow> (u32 \<times> slabs) result) \<Rightarrow> nat \<Rightarrow> nat \<Rightarrow> u32 \<Rightarrow> slabs \<Rightarrow>
  (u32 \<times> slabs) result" where
  "page_loop dm 0 slab_idx prev_tail s = Inl Hang"
| "page_loop dm (Suc fuel) slab_idx prev_tail s =
     bindE (aget (slab s) slab_idx) (\<lambda>c.
     bindE (deref (pages s) (cur_slab_page c)) (\<lambda>pg.
     if free_list_head pg \<noteq> 0 then pop_free_list slab_idx s
     else if page_next pg \<noteq> 0 \<and> cur_slab_page c \<noteq> prev_tail then
       bindE (load_next_slab_page slab_idx s) (page_loop dm fuel slab_idx prev_tail)
     else
       bindE (alloc_new_slab_page slab_idx s) (\<lambda>(new_page, s1).
       if page_start new_page = 0 then Inr (0, s1)
       else
         let new_page_addr = free_list_head new_page in
         bindE (deref (obj s1) new_page_addr) (\<lambda>head.
         let new_page1 = new_page\<lparr>free_list_head := head, in_use_num := in_use_num new_page + 1\<rparr>;
             s2 = set_page new_page_addr (\<lambda>_. new_page1)
                    (set_slab slab_idx (\<lambda>c. c\<lparr>free_page_num := free_page_num c - 1\<rparr>) s1)
         in bindE (insert_slab_page HEAD slab_idx new_page_addr s2) (\<lambda>s3.
            bindE (insert_hash_node dm slab_idx new_page_addr s3)
              (page_loop dm fuel slab_idx prev_tail))))))"

definition alloc_new_page_addr :: "(int \<Rightarrow> slabs \<Rightarrow> (u32 \<times> slabs) result) \<Rightarrow> nat \<Rightarrow> u32 \<Rightarrow> slabs \<Rightarrow>
  (u32 \<times> slabs) result" where
  "alloc_new_page_addr dm fuel page_size s =
     bindE (calc_slab_idx page_size) (\<lambda>slab_idx.
     bindE (aget (slab s) slab_idx) (\<lambda>c. page_loop dm fuel slab_idx (page_tail c) s))"

text \<open>
  \<^verbatim>\<open>slab_system\<close> from the label \<^verbatim>\<open>try_alloc\<close> on.  The descriptor of a new page is an object of the
  cache of descriptors; when there is none, the label \<^verbatim>\<open>alloc_fail\<close> gives the page back.
\<close>

fun slab_loop :: "(int \<Rightarrow> slabs \<Rightarrow> (u32 \<times> slabs) result) \<Rightarrow> nat \<Rightarrow> nat \<Rightarrow> u32 \<Rightarrow> slabs \<Rightarrow>
  (u32 \<times> slabs) result" where
  "slab_loop dm 0 slab_idx prev_tail s = Inl Hang"
| "slab_loop dm (Suc fuel) slab_idx prev_tail s =
     bindE (aget (slab s) slab_idx) (\<lambda>c.
     bindE (deref (pages s) (cur_slab_page c)) (\<lambda>pg.
     if free_list_head pg \<noteq> 0 then pop_free_list slab_idx s
     else if page_next pg \<noteq> 0 \<and> cur_slab_page c \<noteq> prev_tail then
       bindE (load_next_slab_page slab_idx s) (slab_loop dm fuel slab_idx prev_tail)
     else
       bindE (alloc_new_slab_page slab_idx s) (\<lambda>(new_page, s1).
       if page_start new_page = 0 then Inr (0, s1)
       else
         bindE (alloc_new_page_addr dm fuel sizeof_page s1) (\<lambda>(new_page_addr, s2).
         if new_page_addr \<noteq> 0 then
           bindE (insert_slab_page HEAD slab_idx new_page_addr
                    (set_page new_page_addr (\<lambda>_. new_page) s2)) (\<lambda>s3.
           bindE (insert_hash_node dm slab_idx new_page_addr s3)
             (slab_loop dm fuel slab_idx prev_tail))
         else
           bindE (dfree_buddy (page_start new_page) (bd s2)) (\<lambda>b. Inr (0, s2\<lparr>bd := b\<rparr>))))))"

definition slab_system :: "(int \<Rightarrow> slabs \<Rightarrow> (u32 \<times> slabs) result) \<Rightarrow> nat \<Rightarrow> u32 \<Rightarrow> slabs \<Rightarrow>
  (u32 \<times> slabs) result" where
  "slab_system dm fuel N s =
     bindE (calc_slab_idx N) (\<lambda>slab_idx.
     bindE (aget (slab s) slab_idx) (\<lambda>c. slab_loop dm fuel slab_idx (page_tail c) s))"

fun dmalloc :: "nat \<Rightarrow> int \<Rightarrow> slabs \<Rightarrow> (u32 \<times> slabs) result" where
  "dmalloc 0 sz s = Inl Hang"
| "dmalloc (Suc fuel) sz s =
     (if sz < 1 then Inl (Panic ''dmalloc size should be at least 1'')
      else if sz \<le> PGSIZE div 2 then slab_system (dmalloc fuel) fuel (word_of_int sz) s
      else bindE (dmalloc_buddy sz (bd s)) (\<lambda>(p, b). Inr (p, s\<lparr>bd := b\<rparr>)))"

section \<open>Release\<close>

text \<open>
  \<^verbatim>\<open>free_slab_obj\<close> calls itself through \<^verbatim>\<open>return_hash_node\<close> and through \<^verbatim>\<open>return_slab_page\<close>,
  \<^verbatim>\<open>free_slab_page\<close> and \<^verbatim>\<open>dfree\<close>; these take the \<^verbatim>\<open>free_slab_obj\<close> they call as the argument \<open>fo\<close>.
\<close>

definition return_hash_node ::
  "(u32 \<Rightarrow> slabs \<Rightarrow> (free_status \<times> slabs) result) \<Rightarrow> nat \<Rightarrow> u32 \<Rightarrow> slabs \<Rightarrow> slabs result" where
  "return_hash_node fo hash_idx tar_node s =
     bindE (unlink_hash_node hash_idx tar_node s) (\<lambda>s1.
     bindE (fo tar_node s1) (\<lambda>(st, s2). Inr s2))"

definition dfree_with ::
  "(u32 \<Rightarrow> slabs \<Rightarrow> (free_status \<times> slabs) result) \<Rightarrow> u32 \<Rightarrow> slabs \<Rightarrow> slabs result" where
  "dfree_with fo address s =
     bindE (fo address s) (\<lambda>(status, s1).
     if status = SUCCESS then Inr s1
     else if status = INVALID then Inl (Panic ''dfree'')
     else bindE (dfree_buddy address (bd s1)) (\<lambda>b. Inr (s1\<lparr>bd := b\<rparr>)))"

definition free_slab_page ::
  "(u32 \<Rightarrow> slabs \<Rightarrow> (free_status \<times> slabs) result) \<Rightarrow> u32 \<Rightarrow> slabs \<Rightarrow> slabs result" where
  "free_slab_page fo slab_page s =
     bindE (dfree_with fo (page_start (pages s slab_page)) s) (\<lambda>s1.
     bindE (fo slab_page s1) (\<lambda>(st, s2). Inr s2))"

definition return_slab_page ::
  "(u32 \<Rightarrow> slabs \<Rightarrow> (free_status \<times> slabs) result) \<Rightarrow> nat \<Rightarrow> u32 \<Rightarrow> slabs \<Rightarrow> slabs result" where
  "return_slab_page fo slab_idx slab_page s =
     bindE (unlink_slab_page slab_idx slab_page s) (\<lambda>s1.
     bindE (if static_page s1 slab_idx \<noteq> slab_page then free_slab_page fo slab_page s1
            else Inr (set_page slab_page (\<lambda>_. zero_page) s1)) (\<lambda>s2.
     Inr (set_slab slab_idx (\<lambda>c. c\<lparr>free_page_num := free_page_num c - 1\<rparr>) s2)))"

fun free_slab_obj :: "nat \<Rightarrow> u32 \<Rightarrow> slabs \<Rightarrow> (free_status \<times> slabs) result" where
  "free_slab_obj 0 slab_obj s = Inl Hang"
| "free_slab_obj (Suc fuel) slab_obj s =
     bindE (find_target_page slab_obj s) (\<lambda>hnode.
     if hnode = 0 then Inr (NOT_FOUND, s)
     else
       let tar_page = hn_cur_page (hnodes s hnode);
           slab_idx = hn_slab_idx (hnodes s hnode)
       in if tar_page = 0 then Inr (INVALID, s)
          else
            bindE (aget (slab s) slab_idx) (\<lambda>c.
            if \<not> check_slab_obj slab_obj (obj_sz c) then Inr (INVALID, s)
            else
              bindE (push_free_list tar_page slab_obj s) (\<lambda>(st, s1).
              if st = INVALID then Inr (INVALID, s1)
              else if in_use_num (pages s1 tar_page) = 0 then
                let s2 = set_slab slab_idx (\<lambda>c. c\<lparr>free_page_num := free_page_num c + 1\<rparr>) s1 in
                if free_page_num (slab s2 ! slab_idx) > MAX_FREE_PAGE then
                  let hash_idx = calc_hash_idx ((slab_obj div PGSIZE) * PGSIZE) in
                  bindE (return_hash_node (free_slab_obj fuel) hash_idx hnode s2) (\<lambda>s3.
                  bindE (return_slab_page (free_slab_obj fuel) slab_idx tar_page s3) (\<lambda>s4.
                  Inr (SUCCESS, s4)))
                else Inr (SUCCESS, s2)
              else Inr (SUCCESS, s1))))"

definition dfree :: "nat \<Rightarrow> u32 \<Rightarrow> slabs \<Rightarrow> slabs result" where
  "dfree fuel address s = dfree_with (free_slab_obj fuel) address s"

section \<open>Initialisation and accounting\<close>

definition slab_init_cache :: "nat \<Rightarrow> slabs \<Rightarrow> slabs result" where
  "slab_init_cache slab_idx s =
     bindE (aget (slab s) slab_idx) (\<lambda>_.
     let s1 = set_slab slab_idx (\<lambda>c. c\<lparr>obj_sz := 4 * 2 ^ slab_idx, cur_slab_page := 0\<rparr>) s in
     bindE (alloc_new_slab_page slab_idx s1) (\<lambda>(pg, s2).
     let st = static_page s2 slab_idx in
     bindE (insert_slab_page TAIL slab_idx st (set_page st (\<lambda>_. pg) s2)) (\<lambda>s3.
     Inr (set_slab slab_idx (\<lambda>c. c\<lparr>cur_slab_page := st\<rparr>) s3))))"

text \<open>The sizes 4, 8, \<dots>, 2048 of the first loop are \<open>4 * 2 ^ slab_idx\<close> for the ten caches.\<close>

definition slab_init :: "nat \<Rightarrow> slabs \<Rightarrow> slabs result" where
  "slab_init fuel s =
     bindE (foldE slab_init_cache [0..<SLAB_NUM]
              (s\<lparr>hash_table := replicate (unat HASH_SIZE) \<lparr>ht_head = 0, ht_tail = 0\<rparr>\<rparr>))
       (foldE (\<lambda>slab_idx s.
          bindE (aget (slab s) slab_idx) (\<lambda>c. insert_hash_node (dmalloc fuel) slab_idx (cur_slab_page c) s))
          [0..<SLAB_NUM])"

text \<open>
  The nodes a walk over \<open>nx\<close> from \<open>p\<close> meets, as the two counting loops of \<^verbatim>\<open>calc_slab_mem\<close> meet them;
  a cycle is \<open>Hang\<close>.
\<close>

function walk :: "(u32 \<Rightarrow> u32) \<Rightarrow> u32 \<Rightarrow> u32 list \<Rightarrow> u32 list result" where
  "walk nx p seen =
     (if p = 0 then Inr [] else if p \<in> set seen then Inl Hang
      else bindE (walk nx (nx p) (p # seen)) (\<lambda>ps. Inr (p # ps)))"
  by pat_completeness auto
termination
proof (relation "measure (\<lambda>(nx, p, seen). card (UNIV - set seen))", goal_cases)
  case 1
  show ?case by simp
next
  case (2 nx p seen)
  have "card (UNIV - set (p # seen)) < card (UNIV - set seen)"
    using 2 by (intro psubset_card_mono) auto
  then show ?case by simp
qed

declare walk.simps [simp del]

definition calc_slab_mem :: "slabs \<Rightarrow> int result" where
  "calc_slab_mem s =
     bindE (foldE (\<lambda>i n. bindE (aget (slab s) i) (\<lambda>c.
              bindE (walk (\<lambda>p. page_next (pages s p)) (cur_slab_page c) []) (\<lambda>ps.
              Inr (n + length (filter (\<lambda>p. p \<noteq> static_page s i) ps))))) [0..<SLAB_NUM] 0) (\<lambda>npage.
     bindE (foldE (\<lambda>h n. bindE (aget (hash_table s) h) (\<lambda>b.
              bindE (walk (\<lambda>p. hn_next (hnodes s p)) (ht_head b) []) (\<lambda>ns.
              Inr (n + length ns)))) [0..<unat HASH_SIZE] 0) (\<lambda>nhash_node.
     bindE (calc_slab_idx sizeof_page) (\<lambda>ip. bindE (aget (slab s) ip) (\<lambda>cp.
     bindE (calc_slab_idx sizeof_hash_node) (\<lambda>ih. bindE (aget (slab s) ih) (\<lambda>ch.
     Inr (int (SLAB_NUM * sizeof_slab_cache + sizeof_hash_ptr) + uint (obj_sz cp) * int npage
          + uint (obj_sz ch) * int nhash_node)))))))"

end
