(* ===== verification/Dll.thy ===== *)
theory Dll
  imports Xv6_Prelude
begin

text \<open>
  Doubly linked lists in memory with a pointer to the first and one to the last node, the shape
  of the page list of a slab cache and of the buckets of the slab hash table.  The locale \<open>dlist\<close>
  states what the pointer code of such a list has to do, field by field, for appending and for
  removing a node; its lemmas say that the code then implements the operations on the abstract
  list of nodes.
\<close>

section \<open>The representation\<close>

definition dll :: "(u32 \<Rightarrow> u32) \<Rightarrow> (u32 \<Rightarrow> u32) \<Rightarrow> u32 \<Rightarrow> u32 \<Rightarrow> u32 list \<Rightarrow> bool" where
  "dll nx pv h t xs \<longleftrightarrow>
     chain nx h xs \<and> t = (if xs = [] then 0 else last xs) \<and>
     (\<forall>i < length xs. pv (xs ! i) = (if i = 0 then 0 else xs ! (i - 1)))"

lemma dll_chain: "dll nx pv h t xs \<Longrightarrow> chain nx h xs"
  by (simp add: dll_def)

lemma dll_distinct: "dll nx pv h t xs \<Longrightarrow> distinct xs"
  using chain_distinct dll_chain by blast

lemma dll_notin_0: "dll nx pv h t xs \<Longrightarrow> 0 \<notin> set xs"
  using chain_null_notin dll_chain by blast

lemma dll_Nil [simp]: "dll nx pv h t [] \<longleftrightarrow> h = 0 \<and> t = 0"
  by (auto simp: dll_def)

lemma dll_Nil_iff: "dll nx pv h t xs \<Longrightarrow> h = 0 \<longleftrightarrow> xs = []"
  using chain_empty_iff dll_chain by metis

lemma dll_tail_Nil_iff: "dll nx pv h t xs \<Longrightarrow> t = 0 \<longleftrightarrow> xs = []"
  by (metis dll_def dll_notin_0 last_in_set)

lemma dll_hd: "dll nx pv h t (x # xs) \<Longrightarrow> h = x \<and> x \<noteq> 0 \<and> pv x = 0"
  by (auto simp: dll_def)

lemma dll_last: "dll nx pv h t (xs @ [x]) \<Longrightarrow> t = x"
  by (simp add: dll_def)

lemma dll_next: "dll nx pv h t (us @ b # vs) \<Longrightarrow> nx b = (if vs = [] then 0 else hd vs)"
  by (cases vs) (auto simp: dll_def dest!: chain_suffix)

lemma dll_prev: "dll nx pv h t (us @ b # vs) \<Longrightarrow> pv b = (if us = [] then 0 else last us)"
  by (auto simp: dll_def nth_append last_conv_nth dest!: spec [of _ "length us"])

lemma dll_singleton: "a \<noteq> 0 \<Longrightarrow> dll (nx(a := 0)) (pv(a := 0)) a a [a]"
  by (simp add: dll_def)

lemma dll_cong:
  "(\<And>a. a \<in> set xs \<Longrightarrow> nx a = nx' a \<and> pv a = pv' a) \<Longrightarrow> dll nx pv h t xs \<longleftrightarrow> dll nx' pv' h t xs"
  using chain_cong [of xs nx nx' h] by (auto simp: dll_def)

section \<open>Operations\<close>

lemma chain_append_node:
  "chain nx h (xs @ [x]) \<Longrightarrow> a \<noteq> 0 \<Longrightarrow> a \<notin> set (xs @ [x]) \<Longrightarrow>
   chain (nx(x := a, a := 0)) h (xs @ [x, a])"
proof (induction xs arbitrary: h)
  case Nil
  then show ?case by auto
next
  case (Cons y xs)
  have "distinct (y # xs @ [x])" using chain_distinct [OF Cons.prems(1)] by simp
  with Cons show ?case by auto
qed

lemma dll_push_back:
  assumes "dll nx pv h t xs" and "xs \<noteq> []" and "a \<noteq> 0" and "a \<notin> set xs"
  shows "dll (nx(t := a, a := 0)) (pv(a := t)) h a (xs @ [a])"
proof -
  obtain ys x where xs: "xs = ys @ [x]" using assms(2) by (cases xs rule: rev_cases) auto
  with assms have "t = x" "chain (nx(x := a, a := 0)) h (xs @ [a])"
    using chain_append_node [of nx h ys x a] by (auto simp: dll_def)
  moreover have "(pv(a := t)) ((xs @ [a]) ! i) = (if i = 0 then 0 else (xs @ [a]) ! (i - 1))"
    if "i < length (xs @ [a])" for i
  proof (cases "i = length xs")
    case True
    with assms(2) xs \<open>t = x\<close> show ?thesis by (simp add: nth_append)
  next
    case False
    with that have i: "i < length xs" by simp
    then have "xs ! i \<noteq> a" using assms(4) nth_mem by blast
    with i assms(1) show ?thesis by (auto simp: dll_def nth_append)
  qed
  ultimately show ?thesis by (simp add: dll_def)
qed

lemma dll_push_front:
  assumes "dll nx pv h t xs" and "xs \<noteq> []" and "a \<noteq> 0" and "a \<notin> set xs"
  shows "dll (nx(a := h)) (pv(h := a, a := 0)) a t (a # xs)"
proof -
  obtain ys where xs: "xs = h # ys" using assms(1,2) by (cases xs) (auto dest: dll_hd)
  have "distinct xs" using assms(1) by (rule dll_distinct)
  have "(pv(h := a, a := 0)) ((a # xs) ! i) = (if i = 0 then 0 else (a # xs) ! (i - 1))"
    if "i < length (a # xs)" for i
  proof (cases i)
    case (Suc j)
    with that have j: "j < length xs" by simp
    then have "xs ! j \<noteq> a" using assms(4) nth_mem by blast
    moreover have "xs ! j = h \<longleftrightarrow> j = 0"
      using j xs \<open>distinct xs\<close> nth_eq_iff_index_eq [of xs j 0] by auto
    moreover have "pv (xs ! j) = (if j = 0 then 0 else xs ! (j - 1))"
      using assms(1) j by (simp add: dll_def)
    ultimately show ?thesis using Suc by (cases j) auto
  qed simp
  with assms show ?thesis by (simp add: dll_def)
qed

lemma dll_tl:
  assumes "dll nx pv h t (x # y # ys)"
  shows "dll nx (pv(y := 0)) y t (y # ys)"
proof -
  have d: "distinct (x # y # ys)" using assms by (rule dll_distinct)
  have "(pv(y := 0)) ((y # ys) ! i) = (if i = 0 then 0 else (y # ys) ! (i - 1))"
    if "i < length (y # ys)" for i
  proof (cases i)
    case (Suc j)
    with that have "ys ! j \<noteq> y" using d by auto
    moreover have "pv ((x # y # ys) ! Suc i) = (x # y # ys) ! i"
      using assms that by (auto simp: dll_def dest!: spec [of _ "Suc i"])
    ultimately show ?thesis using Suc by simp
  qed simp
  with assms show ?thesis by (auto simp: dll_def)
qed

text \<open>Moving the first node to the end, the step of the search through the pages of a cache.\<close>

lemma dll_rotate:
  assumes "dll nx pv h t (x # y # ys)"
  shows "dll (nx(t := x, x := 0)) (pv(y := 0, x := t)) y x (y # ys @ [x])"
proof -
  have "x \<noteq> 0" "x \<notin> set (y # ys)" using dll_hd [OF assms] dll_distinct [OF assms] by auto
  with dll_push_back [OF dll_tl [OF assms], of x] show ?thesis by simp
qed

lemma dll_remove:
  assumes "dll nx pv h t (us @ b # vs)"
  shows "dll (if pv b \<noteq> 0 then nx(pv b := nx b) else nx)
             (if nx b \<noteq> 0 then pv(nx b := pv b) else pv)
             (if h = b then nx b else h) (if t = b then pv b else t) (us @ vs)"
proof -
  have d: "distinct (us @ b # vs)" and z: "0 \<notin> set (us @ b # vs)"
    using dll_distinct [OF assms] dll_notin_0 [OF assms] .
  note nb = dll_next [OF assms] and pb = dll_prev [OF assms]
  have ch: "chain (if pv b \<noteq> 0 then nx(pv b := nx b) else nx) (if h = b then nx b else h) (us @ vs)"
  proof (cases "us = []")
    case True
    with assms chain_remove [OF dll_chain [OF assms]] pb show ?thesis by (auto simp: dll_def)
  next
    case False
    then have "last us \<noteq> 0" using z by (metis Un_iff last_in_set set_append)
    moreover have "h \<noteq> b" using assms False d by (cases us) (auto simp: dll_def)
    ultimately show ?thesis using chain_remove [OF dll_chain [OF assms]] pb False by auto
  qed
  have tl: "(if t = b then pv b else t) = (if us @ vs = [] then 0 else last (us @ vs))"
  proof (cases "vs = []")
    case True
    with assms pb show ?thesis by (auto simp: dll_def)
  next
    case False
    then have "last vs \<noteq> b" using d by (metis distinct.simps(2) distinct_append last_in_set)
    with assms False show ?thesis by (auto simp: dll_def)
  qed
  have pv: "(if nx b \<noteq> 0 then pv(nx b := pv b) else pv) ((us @ vs) ! i)
      = (if i = 0 then 0 else (us @ vs) ! (i - 1))" if i: "i < length (us @ vs)" for i
  proof -
    have old: "pv ((us @ b # vs) ! j) = (if j = 0 then 0 else (us @ b # vs) ! (j - 1))"
      if "j < length (us @ b # vs)" for j
      using assms that by (simp add: dll_def)
    consider "i < length us" | "i = length us" | "i > length us" by linarith
    then show ?thesis
    proof cases
      case 1
      have "us ! i \<noteq> hd vs" if "vs \<noteq> []" using d 1 that
        by (metis IntI disjoint_iff distinct_append hd_in_set list.set_intros(2) nth_mem)
      with 1 old [of i] nb show ?thesis by (auto simp: nth_append)
    next
      case 2
      with i obtain w ws where "vs = w # ws" by (cases vs) auto
      moreover have "w \<noteq> 0" using z calculation by auto
      ultimately show ?thesis using 2 nb pb by (auto simp: nth_append last_conv_nth)
    next
      case 3
      define k where "k = i - length us"
      have k: "i = length us + k" "0 < k" "k < length vs" using 3 i by (auto simp: k_def)
      have "vs ! k \<noteq> hd vs" using d k
        by (metis distinct.simps(2) distinct_append gr_implies_not0 hd_conv_nth length_0_conv
            nat_neq_iff nth_eq_iff_index_eq)
      moreover have "pv (vs ! k) = vs ! (k - 1)"
        using old [of "Suc i"] k by (auto simp: nth_append nth_Cons' )
      ultimately show ?thesis using k nb by (auto simp: nth_append)
    qed
  qed
  show ?thesis unfolding dll_def using ch tl pv by blast
qed

section \<open>The interface\<close>

text \<open>
  \<open>nxt\<close>, \<open>prv\<close>, \<open>front\<close> and \<open>rear\<close> read the fields of the list out of a state; \<open>ready\<close> is what the
  operations need beside the list, such as an index in range.
\<close>

locale dlist =
  fixes nxt :: "'s \<Rightarrow> u32 \<Rightarrow> u32"
    and prv :: "'s \<Rightarrow> u32 \<Rightarrow> u32"
    and front :: "'s \<Rightarrow> u32"
    and rear :: "'s \<Rightarrow> u32"
    and ready :: "'s \<Rightarrow> bool"
    and append_node :: "u32 \<Rightarrow> 's \<Rightarrow> 's result"
    and remove_node :: "u32 \<Rightarrow> 's \<Rightarrow> 's result"
  assumes append_first: "ready s \<Longrightarrow> a \<noteq> 0 \<Longrightarrow> front s = 0 \<Longrightarrow> rear s = 0 \<Longrightarrow>
      \<exists>s'. append_node a s = Inr s' \<and> ready s' \<and> nxt s' = (nxt s)(a := 0) \<and>
           prv s' = (prv s)(a := 0) \<and> front s' = a \<and> rear s' = a"
    and append_more: "ready s \<Longrightarrow> a \<noteq> 0 \<Longrightarrow> front s \<noteq> 0 \<Longrightarrow> rear s \<noteq> 0 \<Longrightarrow>
      \<exists>s'. append_node a s = Inr s' \<and> ready s' \<and> nxt s' = (nxt s)(rear s := a, a := 0) \<and>
           prv s' = (prv s)(a := rear s) \<and> front s' = front s \<and> rear s' = a"
    and remove_fields: "ready s \<Longrightarrow> b \<noteq> 0 \<Longrightarrow>
      \<exists>s'. remove_node b s = Inr s' \<and> ready s' \<and>
           nxt s' = (if prv s b \<noteq> 0 then (nxt s)(prv s b := nxt s b) else nxt s) \<and>
           prv s' = (if nxt s b \<noteq> 0 then (prv s)(nxt s b := prv s b) else prv s) \<and>
           front s' = (if front s = b then nxt s b else front s) \<and>
           rear s' = (if rear s = b then prv s b else rear s)"
begin

definition holds :: "'s \<Rightarrow> u32 list \<Rightarrow> bool" where
  "holds s xs \<longleftrightarrow> ready s \<and> dll (nxt s) (prv s) (front s) (rear s) xs"

lemma append_refines:
  assumes "holds s xs" and "a \<noteq> 0" and "a \<notin> set xs"
  obtains s' where "append_node a s = Inr s'" and "holds s' (xs @ [a])"
proof (cases "xs = []")
  case True
  with assms have "ready s" "front s = 0" "rear s = 0" by (auto simp: holds_def)
  with append_first [of s a] assms(2) obtain s' where "append_node a s = Inr s'" "ready s'"
    "nxt s' = (nxt s)(a := 0)" "prv s' = (prv s)(a := 0)" "front s' = a" "rear s' = a" by blast
  then show ?thesis using that [of s'] True dll_singleton [OF assms(2)] by (simp add: holds_def)
next
  case False
  with assms have "ready s" "front s \<noteq> 0" "rear s \<noteq> 0"
    by (auto simp: holds_def dest: dll_Nil_iff dll_tail_Nil_iff)
  with append_more [of s a] assms(2) obtain s' where "append_node a s = Inr s'" "ready s'"
    "nxt s' = (nxt s)(rear s := a, a := 0)" "prv s' = (prv s)(a := rear s)" "front s' = front s"
    "rear s' = a" by blast
  then show ?thesis
    using that [of s'] False assms dll_push_back [of "nxt s" "prv s" "front s" "rear s" xs a]
    by (simp add: holds_def)
qed

lemma remove_refines:
  assumes "holds s (us @ b # vs)"
  obtains s' where "remove_node b s = Inr s'" and "holds s' (us @ vs)"
proof -
  have d: "dll (nxt s) (prv s) (front s) (rear s) (us @ b # vs)" and r: "ready s"
    using assms by (auto simp: holds_def)
  have "b \<noteq> 0" using dll_notin_0 [OF d] by auto
  with remove_fields [OF r, of b] obtain s' where "remove_node b s = Inr s'" "ready s'"
    "nxt s' = (if prv s b \<noteq> 0 then (nxt s)(prv s b := nxt s b) else nxt s)"
    "prv s' = (if nxt s b \<noteq> 0 then (prv s)(nxt s b := prv s b) else prv s)"
    "front s' = (if front s = b then nxt s b else front s)"
    "rear s' = (if rear s = b then prv s b else rear s)" by blast
  then show ?thesis using that [of s'] dll_remove [OF d] by (simp only: holds_def)
qed

end

end
