(* ===== verification/Slab_Props.thy ===== *)
theory Slab_Props
  imports Slab Dll
begin

text \<open>
  Correctness of the slab layer.  The page lists of the caches and the buckets of the hash table
  are instances of the doubly linked lists of \<open>Dll\<close>; the free list of a page is a queue of the
  objects of the page that are not allocated; the search for a page with a free object ends and
  rotates the list of pages; and \<open>dmalloc\<close> and \<open>dfree\<close> of small objects move one object out of and
  into the free list of its page.
\<close>

section \<open>Fields after assignments\<close>

lemma page_next_upd: "(\<lambda>q. page_next ((m(p := x)) q)) = (\<lambda>q. page_next (m q))(p := page_next x)"
  by auto

lemma page_prev_upd: "(\<lambda>q. page_prev ((m(p := x)) q)) = (\<lambda>q. page_prev (m q))(p := page_prev x)"
  by auto

lemma hn_next_upd: "(\<lambda>q. hn_next ((m(p := x)) q)) = (\<lambda>q. hn_next (m q))(p := hn_next x)"
  by auto

lemma hn_prev_upd: "(\<lambda>q. hn_prev ((m(p := x)) q)) = (\<lambda>q. hn_prev (m q))(p := hn_prev x)"
  by auto

lemmas link_upds = page_next_upd page_prev_upd hn_next_upd hn_prev_upd

lemmas state_upds = set_page_def set_slab_def set_hnode_def

lemma upd_same [simp]: "f a = v \<Longrightarrow> f(a := v) = f"
  by auto

section \<open>The lists\<close>

text \<open>The pages of cache \<open>i\<close>.\<close>

interpretation pl: dlist "\<lambda>s p. page_next (pages s p)" "\<lambda>s p. page_prev (pages s p)"
  "\<lambda>s. cur_slab_page (slab s ! i)" "\<lambda>s. page_tail (slab s ! i)" "\<lambda>s. i < length (slab s)"
  "insert_slab_page TAIL i" "unlink_slab_page i"
  for i
proof (unfold_locales, goal_cases)
  case (1 s a)
  then show ?case by (auto simp: insert_slab_page_def state_upds link_upds)
next
  case (2 s a)
  then show ?case by (auto simp: insert_slab_page_def state_upds link_upds fun_upd_twist)
next
  case (3 s b)
  then show ?case by (auto simp: unlink_slab_page_def state_upds link_upds Let_def)
qed

text \<open>The bucket \<open>h\<close> of the hash table, with the node of page \<open>p\<close> of cache \<open>i\<close> being appended.\<close>

interpretation hl: dlist "\<lambda>s n. hn_next (hnodes s n)" "\<lambda>s n. hn_prev (hnodes s n)"
  "\<lambda>s. ht_head (hash_table s ! h)" "\<lambda>s. ht_tail (hash_table s ! h)"
  "\<lambda>s. h < length (hash_table s) \<and> calc_hash_idx (page_start (pages s p)) = h"
  "link_hash_node i p" "unlink_hash_node h"
  for h p i
proof (unfold_locales, goal_cases)
  case (1 s a)
  then show ?case by (auto simp: link_hash_node_def state_upds link_upds Let_def)
next
  case (2 s a)
  then show ?case by (auto simp: link_hash_node_def state_upds link_upds Let_def fun_upd_twist)
next
  case (3 s b)
  then show ?case by (auto simp: unlink_hash_node_def state_upds link_upds Let_def)
qed

section \<open>Sizes and objects\<close>

lemma calc_idx_loop_spec:
  "0 < pw \<Longrightarrow> (\<exists>k. calc_idx_loop N pw c = c + k \<and> N \<le> pw * 2 ^ k \<and> (k = 0 \<or> pw * 2 ^ (k - 1) < N))"
proof (induction N pw c rule: calc_idx_loop.induct)
  case (1 N pw c)
  show ?case
  proof (cases "N > pw")
    case True
    with 1 obtain k where "calc_idx_loop N (pw * 2) (Suc c) = Suc c + k" "N \<le> pw * 2 * 2 ^ k"
      "k = 0 \<or> pw * 2 * 2 ^ (k - 1) < N" by auto
    with True 1(2) show ?thesis
      by (intro exI [of _ "Suc k"]) (cases k, auto simp: calc_idx_loop.simps [of N pw] mult_ac)
  next
    case False
    with 1(2) show ?thesis by (intro exI [of _ 0]) (simp add: calc_idx_loop.simps)
  qed
qed

lemma calc_slab_idx_small:
  assumes "1 \<le> n" and "n \<le> 2048"
  shows "\<exists>i. calc_slab_idx (word_of_int n) = Inr i \<and> i < 10 \<and> n \<le> 4 * 2 ^ i \<and>
           (i = 0 \<or> 4 * 2 ^ (i - 1) < n)"
proof -
  have u: "int (unat (word_of_int n :: u32)) = n"
    using assms by (simp add: uint_word_of_int take_bit_int_eq_self flip: uint_nat)
  show ?thesis
  proof (cases "word_of_int n < (4 :: u32)")
    case True
    then have "unat (word_of_int n :: u32) < 4" by (simp add: word_less_nat_alt)
    then have "n < 4" using u by linarith
    with True show ?thesis by (simp add: calc_slab_idx_def)
  next
    case False
    obtain k where k: "calc_idx_loop (unat (word_of_int n :: u32)) 4 0 = k"
      "unat (word_of_int n :: u32) \<le> 4 * 2 ^ k"
      "k = 0 \<or> 4 * 2 ^ (k - 1) < unat (word_of_int n :: u32)"
      using calc_idx_loop_spec [of 4 "unat (word_of_int n :: u32)" 0] by auto
    then have ki: "n \<le> 4 * 2 ^ k" "k = 0 \<or> 4 * 2 ^ (k - 1) < n"
      using u by (metis of_nat_le_iff of_nat_mult of_nat_numeral of_nat_power,
        metis of_nat_less_iff of_nat_mult of_nat_numeral of_nat_power)
    have "k < 10"
    proof (rule ccontr)
      assume "\<not> k < 10"
      then have "(2::int) ^ 9 \<le> 2 ^ (k - 1)" by (intro power_increasing) auto
      with ki(2) \<open>\<not> k < 10\<close> assms(2) show False by auto
    qed
    moreover have "unat (word_of_int n :: u32) \<le> 2 ^ 31"
    proof -
      have "unat (word_of_int n :: u32) \<le> 2048" using u assms by linarith
      then show ?thesis by simp
    qed
    ultimately show ?thesis using False k(1) ki by (auto simp: calc_slab_idx_def)
  qed
qed

text \<open>The size of the objects of cache \<open>i\<close> and the objects of the page that starts at \<open>st\<close>.\<close>

definition osize :: "nat \<Rightarrow> nat" where
  "osize i = 4 * 2 ^ i"

definition objs :: "u32 \<Rightarrow> nat \<Rightarrow> u32 list" where
  "objs st i = map (\<lambda>k. st + of_nat (k * osize i)) [0..<PGSIZE div osize i]"

lemma osize_pos [simp]: "0 < osize i"
  by (simp add: osize_def)

lemma osize_le: "i < 10 \<Longrightarrow> osize i \<le> 2048"
proof -
  assume "i < 10"
  then have "(2::nat) ^ i \<le> 2 ^ 9" by (intro power_increasing) auto
  then show ?thesis by (simp add: osize_def)
qed

lemma osize_dvd: "i < 10 \<Longrightarrow> osize i dvd 4096"
proof -
  assume "i < 10"
  then have "(2::nat) ^ (2 + i) dvd 2 ^ 12" by (intro le_imp_power_dvd) auto
  then show ?thesis by (simp add: osize_def power_add)
qed

lemma unat_osize: "i < 10 \<Longrightarrow> unat (of_nat (osize i) :: u32) = osize i"
  using osize_le [of i] by (intro unat_u32_of_nat) auto

lemma length_objs [simp]: "length (objs st i) = PGSIZE div osize i"
  by (simp add: objs_def)

lemma page_aligned_le: "unat st mod 4096 = 0 \<Longrightarrow> unat (st :: u32) + 4096 \<le> 4294967296"
proof -
  assume "unat st mod 4096 = 0"
  then obtain q where q: "unat st = 4096 * q" by (metis mod_0_imp_dvd dvdE)
  with unat_u32_less [of st] have "q < 1048576" by linarith
  with q show ?thesis by linarith
qed

lemma unat_obj:
  assumes "unat st mod 4096 = 0" and "k < PGSIZE div osize i"
  shows "unat (st + of_nat (k * osize i) :: u32) = unat st + k * osize i"
    and "k * osize i < 4096"
proof -
  have "Suc k * osize i \<le> PGSIZE div osize i * osize i" using assms(2) by (intro mult_le_mono1) auto
  also have "\<dots> \<le> 4096" by simp
  finally show b: "k * osize i < 4096" using osize_pos [of i] by (simp del: osize_pos)
  then have "unat (of_nat (k * osize i) :: u32) = k * osize i" by (intro unat_u32_of_nat) auto
  with b page_aligned_le [OF assms(1)]
  show "unat (st + of_nat (k * osize i) :: u32) = unat st + k * osize i"
    by (subst unat_u32_add) auto
qed

lemma objs_distinct: "unat st mod 4096 = 0 \<Longrightarrow> distinct (objs st i)"
proof -
  assume al: "unat st mod 4096 = 0"
  have "inj_on (\<lambda>k. st + of_nat (k * osize i)) (set [0..<PGSIZE div osize i])"
  proof (rule inj_onI)
    fix k l assume "k \<in> set [0..<PGSIZE div osize i]" "l \<in> set [0..<PGSIZE div osize i]"
      and "st + of_nat (k * osize i) = st + of_nat (l * osize i)"
    then have "unat st + k * osize i = unat st + l * osize i"
      using unat_obj(1) [OF al] by (metis atLeastLessThan_iff set_upt)
    then show "k = l" using osize_pos [of i] by simp
  qed
  then show ?thesis by (simp add: objs_def distinct_map)
qed

lemma in_objs:
  assumes "x \<in> set (objs st i)" and "unat st mod 4096 = 0" and "st \<noteq> 0"
  shows "x \<noteq> 0" and "(x div PGSIZE) * PGSIZE = st" and "i < 10 \<Longrightarrow> check_slab_obj x (of_nat (osize i))"
proof -
  obtain k where k: "k < PGSIZE div osize i" and x: "x = st + of_nat (k * osize i)"
    using assms(1) by (auto simp: objs_def)
  have ux: "unat x = unat st + k * osize i" and b: "k * osize i < 4096"
    using unat_obj [OF assms(2) k] x by auto
  have "unat st \<noteq> 0" using assms(3) by (metis unsigned_0 word_unat_eq_iff)
  then show "x \<noteq> 0" using ux by auto
  have "unat (x div PGSIZE * PGSIZE) = (unat x div 4096) * 4096 mod 4294967296"
    by (simp add: unat_word_ariths unat_div_distrib mod_mult_left_eq)
  also have "\<dots> = unat x div 4096 * 4096"
    using unat_u32_less [of x] by (intro mod_less) (metis div_times_less_eq_dividend le_less_trans)
  also have "\<dots> = unat st"
  proof -
    obtain q where "unat st = 4096 * q" using assms(2) by (metis mod_0_imp_dvd dvdE)
    with ux b show ?thesis by simp
  qed
  finally show "(x div PGSIZE) * PGSIZE = st" by (simp add: word_unat_eq_iff)
  show "check_slab_obj x (of_nat (osize i))" if "i < 10"
  proof -
    have "unat (x mod 4096 mod of_nat (osize i)) = unat x mod 4096 mod osize i"
      using that by (simp add: unat_mod_distrib unat_osize)
    also have "unat x mod 4096 = k * osize i"
    proof -
      have "unat x mod 4096 = (unat st mod 4096 + k * osize i) mod 4096"
        by (simp only: ux mod_add_left_eq)
      then show ?thesis using assms(2) b by simp
    qed
    finally have "unat (x mod 4096 mod of_nat (osize i)) = 0" by simp
    then show ?thesis by (simp add: check_slab_obj_def word_unat_eq_iff)
  qed
qed

section \<open>The free list of a page\<close>

text \<open>
  \<open>page_ok pg m i fl\<close>: \<open>pg\<close> describes a page of objects of cache \<open>i\<close> whose free list, in the memory \<open>m\<close>
  of links, is \<open>fl\<close>.
\<close>

definition page_ok :: "page \<Rightarrow> (u32 \<Rightarrow> u32) \<Rightarrow> nat \<Rightarrow> u32 list \<Rightarrow> bool" where
  "page_ok pg m i fl \<longleftrightarrow>
     page_start pg \<noteq> 0 \<and> unat (page_start pg) mod PGSIZE = 0 \<and>
     chain m (free_list_head pg) fl \<and> free_list_tail pg = (if fl = [] then 0 else last fl) \<and>
     set fl \<subseteq> set (objs (page_start pg) i) \<and>
     unat (in_use_num pg) + length fl = PGSIZE div osize i"

lemma page_ok_chain: "page_ok pg m i fl \<Longrightarrow> chain m (free_list_head pg) fl"
  by (simp add: page_ok_def)

lemma page_ok_nonempty: "page_ok pg m i fl \<Longrightarrow> fl \<noteq> [] \<longleftrightarrow> free_list_head pg \<noteq> 0"
  using chain_empty_iff page_ok_chain by metis

lemma page_ok_links:
  "page_ok pg m i fl \<Longrightarrow> page_ok (pg\<lparr>page_next := a, page_prev := b\<rparr>) m i fl"
  by (simp add: page_ok_def)

lemma page_ok_outside:
  "page_ok pg m i fl \<Longrightarrow> a \<notin> set fl \<Longrightarrow> page_ok pg (m(a := v)) i fl"
  by (simp add: page_ok_def)

text \<open>The word \<^verbatim>\<open>in_use_num\<close> counts up and down without wrapping.\<close>

lemma use_count:
  assumes "unat (n :: u32) + Suc k = PGSIZE div osize i"
  shows "unat (n + 1) + k = PGSIZE div osize i" and "n + 1 \<noteq> 0"
proof -
  have "unat n \<le> 4096" using assms div_le_dividend [of PGSIZE "osize i"] by linarith
  then have "unat (n + 1) = Suc (unat n)" by (subst unat_u32_add) auto
  with assms show "unat (n + 1) + k = PGSIZE div osize i" "n + 1 \<noteq> 0" by auto
qed

lemma use_count_down:
  assumes "unat (n :: u32) + k = PGSIZE div osize i" and "k < PGSIZE div osize i"
  shows "unat (n - 1) + Suc k = PGSIZE div osize i"
proof -
  have "n \<noteq> 0" using assms by (metis add_0 less_irrefl unsigned_0)
  then have "unat (n - 1) = unat n - 1" by (rule unat_minus_one)
  with assms show ?thesis by simp
qed

lemma page_pop:
  assumes "page_ok pg m i (x # xs)"
  shows "page_ok (pg\<lparr>free_list_head := m x, in_use_num := in_use_num pg + 1,
           free_list_tail := if m x = 0 then 0 else free_list_tail pg\<rparr>) m i xs"
    and "free_list_head pg = x" and "x \<noteq> 0" and "x \<notin> set xs"
proof -
  show x: "free_list_head pg = x" "x \<noteq> 0" using assms by (auto simp: page_ok_def)
  show "x \<notin> set xs" using chain_distinct [OF page_ok_chain [OF assms]] by simp
  have "chain m (m x) xs" using assms by (auto simp: page_ok_def)
  with assms use_count(1) [of "in_use_num pg" "length xs" i]
  show "page_ok (pg\<lparr>free_list_head := m x, in_use_num := in_use_num pg + 1,
           free_list_tail := if m x = 0 then 0 else free_list_tail pg\<rparr>) m i xs"
    by (auto simp: page_ok_def dest: chain_empty_iff)
qed

lemma page_push:
  assumes ok: "page_ok pg m i fl" and x: "x \<in> set (objs (page_start pg) i)" "x \<notin> set fl"
  shows "page_ok (pg\<lparr>free_list_head := if fl = [] then x else free_list_head pg,
           free_list_tail := x, in_use_num := in_use_num pg - 1\<rparr>)
           (if fl = [] then m(x := 0) else m(last fl := x, x := 0)) i (fl @ [x])"
proof -
  have x0: "x \<noteq> 0" using in_objs(1) [OF x(1)] ok by (auto simp: page_ok_def)
  have "insert x (set fl) \<subseteq> set (objs (page_start pg) i)" using ok x by (auto simp: page_ok_def)
  then have "card (insert x (set fl)) \<le> card (set (objs (page_start pg) i))"
    by (intro card_mono) auto
  then have "Suc (length fl) \<le> PGSIZE div osize i"
    using x(2) chain_distinct [OF page_ok_chain [OF ok]] card_length [of "objs (page_start pg) i"]
    by (simp add: distinct_card)
  then have use: "unat (in_use_num pg - 1) + length (fl @ [x]) = PGSIZE div osize i"
    using use_count_down [of "in_use_num pg" "length fl" i] ok by (simp add: page_ok_def)
  have "chain (if fl = [] then m(x := 0) else m(last fl := x, x := 0))
          (if fl = [] then x else free_list_head pg) (fl @ [x])"
  proof (cases fl rule: rev_cases)
    case Nil
    with x0 show ?thesis by simp
  next
    case (snoc ys y)
    with chain_append_node [of m "free_list_head pg" ys y x] x0 x(2) page_ok_chain [OF ok]
    show ?thesis by simp
  qed
  with ok x use show ?thesis by (simp add: page_ok_def)
qed

text \<open>A new page has all its objects on its free list, in the order of their addresses.\<close>

lemma make_obj_loop_eq:
  "make_obj_loop n sz cur m =
     (cur + of_nat n * (4 * (sz div 4)),
      \<lambda>a. if \<exists>k<n. a = cur + of_nat k * (4 * (sz div 4)) then a + 4 * (sz div 4) else m a)"
proof (induction n arbitrary: cur m)
  case 0
  then show ?case by simp
next
  case (Suc n)
  let ?d = "4 * (sz div 4)"
  have ex: "(\<exists>k<n. a = (cur + ?d) + of_nat k * ?d) \<or> a = cur \<longleftrightarrow>
      (\<exists>k<Suc n. a = cur + of_nat k * ?d)" for a
  proof
    assume "(\<exists>k<n. a = (cur + ?d) + of_nat k * ?d) \<or> a = cur"
    then show "\<exists>k<Suc n. a = cur + of_nat k * ?d"
    proof
      assume "\<exists>k<n. a = (cur + ?d) + of_nat k * ?d"
      then obtain k where "k < n" "a = (cur + ?d) + of_nat k * ?d" by blast
      then show ?thesis by (intro exI [of _ "Suc k"]) (simp add: algebra_simps)
    qed (intro exI [of _ 0], simp)
  next
    assume "\<exists>k<Suc n. a = cur + of_nat k * ?d"
    then obtain k where "k < Suc n" "a = cur + of_nat k * ?d" by blast
    then show "(\<exists>k<n. a = (cur + ?d) + of_nat k * ?d) \<or> a = cur"
      by (cases k) (auto simp: algebra_simps)
  qed
  show ?case unfolding make_obj_loop.simps Suc.IH prod.inject
    by (intro conjI ext) (auto simp: algebra_simps simp flip: ex)
qed

lemma chain_nthI:
  "p = (if xs = [] then 0 else hd xs) \<Longrightarrow>
   (\<And>i. i < length xs \<Longrightarrow> xs ! i \<noteq> 0 \<and> nx (xs ! i) = (if Suc i < length xs then xs ! Suc i else 0)) \<Longrightarrow>
   chain nx p xs"
proof (induction xs arbitrary: p)
  case Nil
  then show ?case by simp
next
  case (Cons x xs)
  have "chain nx (nx x) xs"
  proof (rule Cons.IH)
    show "nx x = (if xs = [] then 0 else hd xs)" using Cons.prems(2) [of 0] by (auto simp: hd_conv_nth)
  next
    fix i assume "i < length xs"
    then show "xs ! i \<noteq> 0 \<and> nx (xs ! i) = (if Suc i < length xs then xs ! Suc i else 0)"
      using Cons.prems(2) [of "Suc i"] by simp
  qed
  with Cons.prems(1) Cons.prems(2) [of 0] show ?case by simp
qed

lemma make_slab_obj_fresh:
  assumes "i < 10" and st: "page_start pg \<noteq> 0" "unat (page_start pg) mod PGSIZE = 0"
  shows "\<exists>pg' m'. make_slab_obj pg (of_nat (osize i)) m = Inr (pg', m') \<and>
           page_start pg' = page_start pg \<and> page_ok pg' m' i (objs (page_start pg) i) \<and>
           (\<forall>a. a \<notin> set (objs (page_start pg) i) \<longrightarrow> m' a = m a)"
proof -
  define st where "st = page_start pg"
  define N where "N = PGSIZE div osize i"
  define d :: u32 where "d = of_nat (osize i)"
  have N: "0 < N" "N \<le> 4096" using osize_le [OF assms(1)] by (auto simp: N_def div_greater_zero_iff)
  have d4: "4 * (d div 4) = d"
  proof -
    have "unat (4 * (d div 4)) = 4 * (osize i div 4)"
      using osize_le [OF assms(1)] by (simp add: d_def unat_word_ariths unat_div_distrib unat_osize assms(1))
    also have "\<dots> = osize i" by (simp add: osize_def)
    finally show ?thesis by (simp add: d_def word_unat_eq_iff unat_osize assms(1))
  qed
  have d0: "d \<noteq> 0" using unat_osize [OF assms(1)] osize_pos [of i] by (metis d_def less_irrefl unsigned_0)
  have tot: "unat (PGSIZE div d) = N" using assms(1) by (simp add: d_def N_def unat_div_distrib unat_osize)
  have ob: "objs st i ! k = st + of_nat k * d" if "k < N" for k
    using that by (simp add: objs_def N_def d_def)
  define last_obj where "last_obj = st + of_nat (N - 1) * d"
  define m' where "m' = (\<lambda>a. if \<exists>k < N - 1. a = st + of_nat k * d then a + d else m a)(last_obj := 0)"
  have eq: "make_slab_obj pg d m = Inr (pg\<lparr>in_use_num := 0, free_list_head := st,
      free_list_tail := last_obj\<rparr>, m')"
    by (simp add: make_slab_obj_def d0 tot make_obj_loop_eq d4 m'_def last_obj_def st_def cong: if_cong)
  have al: "unat st mod 4096 = 0" using st(2) by (simp add: st_def)
  have inj: "objs st i ! k = objs st i ! l \<longleftrightarrow> k = l" if "k < N" "l < N" for k l
    using that nth_eq_iff_index_eq [OF objs_distinct [OF al]] by (simp add: N_def)
  have "chain m' st (objs st i)"
  proof (rule chain_nthI)
    show "st = (if objs st i = [] then 0 else hd (objs st i))"
      using N ob [of 0] by (simp add: hd_conv_nth N_def flip: length_0_conv)
  next
    fix k assume "k < length (objs st i)"
    then have k: "k < N" by (simp add: N_def)
    have nz: "objs st i ! k \<noteq> 0"
      using in_objs(1) [OF nth_mem al] k st(1) by (simp add: N_def st_def)
    have "m' (objs st i ! k) = (if Suc k < N then objs st i ! Suc k else 0)"
    proof (cases "Suc k < N")
      case True
      then have "objs st i ! k \<noteq> last_obj"
        using inj [of k "N - 1"] ob [of "N - 1"] k by (simp add: last_obj_def)
      moreover have "\<exists>j < N - 1. objs st i ! k = st + of_nat j * d"
        using True ob [OF k] by (intro exI [of _ k]) auto
      ultimately show ?thesis
        using True by (auto simp: m'_def ob algebra_simps)
    next
      case False
      with k have "k = N - 1" by simp
      then show ?thesis using False ob [OF k] by (simp add: m'_def last_obj_def)
    qed
    with nz show "objs st i ! k \<noteq> 0 \<and> m' (objs st i ! k) =
        (if Suc k < length (objs st i) then objs st i ! Suc k else 0)" by (simp add: N_def)
  qed
  moreover have "last (objs st i) = last_obj"
    using N ob [of "N - 1"] by (simp add: last_conv_nth last_obj_def N_def flip: length_0_conv)
  moreover have "objs st i \<noteq> []" using N by (simp add: N_def flip: length_0_conv)
  moreover have "m' a = m a" if "a \<notin> set (objs st i)" for a
  proof -
    have ne: "a \<noteq> st + of_nat k * d" if "k < N" for k
      using \<open>a \<notin> set (objs st i)\<close> ob [OF that] nth_mem [of k "objs st i"] that by (auto simp: N_def)
    then have "a \<noteq> last_obj" "\<not> (\<exists>k < N - 1. a = st + of_nat k * d)"
      using N ne [of "N - 1"] unfolding last_obj_def by auto
    then show ?thesis unfolding m'_def by auto
  qed
  ultimately show ?thesis
    using eq st by (auto simp: page_ok_def st_def d_def)
qed

section \<open>The search through the pages of a cache\<close>

text \<open>
  What a rotation of the page list of cache \<open>i\<close> leaves alone: everything but the links between the
  pages and the two ends of the list.
\<close>

definition contents :: "nat \<Rightarrow> slabs \<Rightarrow> _" where
  "contents i s = (bd s, slab_at s, hash_table s, hnodes s, obj s,
     (\<lambda>q. (pages s q)\<lparr>page_next := 0, page_prev := 0\<rparr>),
     (slab s)[i := (slab s ! i)\<lparr>cur_slab_page := 0, page_tail := 0\<rparr>])"

lemma contents_page:
  assumes "contents i s = contents i s'"
  obtains a b where "pages s' q = (pages s q)\<lparr>page_next := a, page_prev := b\<rparr>"
proof -
  have "(pages s q)\<lparr>page_next := 0, page_prev := 0\<rparr> = (pages s' q)\<lparr>page_next := 0, page_prev := 0\<rparr>"
    using assms unfolding contents_def prod.inject by metis
  then have "pages s' q = (pages s q)\<lparr>page_next := page_next (pages s' q),
      page_prev := page_prev (pages s' q)\<rparr>"
    by (cases "pages s q"; cases "pages s' q") simp
  then show ?thesis by (rule that)
qed

lemma contents_head: "contents i s = contents i s' \<Longrightarrow>
  free_list_head (pages s' q) = free_list_head (pages s q) \<and> page_start (pages s' q) = page_start (pages s q)"
  by (rule contents_page [of i s s' q]) auto

lemma load_next_rotates:
  assumes "pl.holds i s (x # y # ys)"
  obtains s' where "load_next_slab_page i s = Inr s'" and "pl.holds i s' (y # ys @ [x])"
    and "contents i s' = contents i s" and "\<forall>q. q \<notin> set (x # y # ys) \<longrightarrow> pages s' q = pages s q"
proof -
  let ?nx = "\<lambda>p. page_next (pages s p)" and ?pv = "\<lambda>p. page_prev (pages s p)"
  let ?c = "slab s ! i"
  have i: "i < length (slab s)" and d: "dll ?nx ?pv (cur_slab_page ?c) (page_tail ?c) (x # y # ys)"
    using assms by (auto simp: pl.holds_def)
  have hd: "cur_slab_page ?c = x" "x \<noteq> 0" using dll_hd [OF d] by auto
  have nx: "page_next (pages s x) = y" using dll_next [of _ _ _ _ "[]" x "y # ys"] d by simp
  have y: "y \<noteq> 0" "x \<noteq> y" using dll_notin_0 [OF d] dll_distinct [OF d] by auto
  have t: "page_tail ?c = last (y # ys)" using d by (simp add: dll_def)
  then have tx: "page_tail ?c \<noteq> x" "page_tail ?c \<noteq> 0" "page_tail ?c \<in> set (y # ys)"
    using dll_distinct [OF d] dll_notin_0 [OF d] last_in_set [of "y # ys"] by (metis distinct.simps(2)
      list.distinct(1), metis list.distinct(1) list.set_intros(2), metis list.distinct(1))
  define s' where "s' = set_slab i (\<lambda>c. c\<lparr>page_tail := x, cur_slab_page := y\<rparr>)
    (set_page x (\<lambda>q. q\<lparr>page_next := 0, page_prev := page_tail ?c\<rparr>)
      (set_page (page_tail ?c) (\<lambda>q. q\<lparr>page_next := x\<rparr>)
        (set_page y (\<lambda>q. q\<lparr>page_prev := 0\<rparr>) s)))"
  have "load_next_slab_page i s = Inr s'"
    using i hd nx y tx by (simp add: load_next_slab_page_def insert_slab_page_def s'_def state_upds)
  moreover have "pl.holds i s' (y # ys @ [x])"
  proof -
    have "(\<lambda>p. page_next (pages s' p)) = ?nx(page_tail ?c := x, x := 0)"
      using tx y by (auto simp: s'_def state_upds)
    moreover have "(\<lambda>p. page_prev (pages s' p)) = ?pv(y := 0, x := page_tail ?c)"
      using tx y by (auto simp: s'_def state_upds)
    ultimately show ?thesis
      using dll_rotate [OF d] i by (simp add: pl.holds_def) (simp add: s'_def state_upds)
  qed
  moreover have "contents i s' = contents i s"
    using i by (auto simp: contents_def s'_def state_upds fun_eq_iff)
  moreover have "\<forall>q. q \<notin> set (x # y # ys) \<longrightarrow> pages s' q = pages s q"
    using tx by (auto simp: s'_def state_upds)
  ultimately show ?thesis by (rule that)
qed

lemma slab_loop_search:
  assumes "pl.holds i s (us @ p # vs)" and "\<forall>u \<in> set us. free_list_head (pages s u) = 0"
    and "free_list_head (pages s p) \<noteq> 0" and "pt \<notin> set us" and "length us < fuel"
  shows "\<exists>s'. slab_loop dm fuel i pt s = pop_free_list i s' \<and> pl.holds i s' (p # vs @ us) \<and>
           contents i s' = contents i s \<and> (\<forall>q. q \<notin> set (us @ p # vs) \<longrightarrow> pages s' q = pages s q)"
  using assms
proof (induction us arbitrary: s vs fuel)
  case Nil
  then obtain k where "fuel = Suc k" by (cases fuel) auto
  moreover have "cur_slab_page (slab s ! i) = p" "p \<noteq> 0" "i < length (slab s)"
    using Nil by (auto simp: pl.holds_def dest: dll_hd)
  ultimately show ?case using Nil by auto
next
  case (Cons u us)
  obtain k where k: "fuel = Suc k" "length us < k" using Cons.prems(5) by (cases fuel) auto
  obtain y ys where yys: "us @ p # vs = y # ys" by (cases us) auto
  have h: "pl.holds i s (u # y # ys)" using Cons.prems(1) yys by simp
  have u: "cur_slab_page (slab s ! i) = u" "u \<noteq> 0" "i < length (slab s)"
    using h by (auto simp: pl.holds_def dest: dll_hd)
  have nx: "page_next (pages s u) = y" "y \<noteq> 0"
    using h dll_next [of "\<lambda>p. page_next (pages s p)" _ _ _ "[]" u "y # ys"]
    by (auto simp: pl.holds_def dest: dll_notin_0)
  obtain s1 where s1: "load_next_slab_page i s = Inr s1" "pl.holds i s1 (us @ p # vs @ [u])"
    "contents i s1 = contents i s" "\<forall>q. q \<notin> set (u # y # ys) \<longrightarrow> pages s1 q = pages s q"
    using load_next_rotates [OF h] yys by (metis append.assoc append_Cons)
  have heads: "free_list_head (pages s1 q) = free_list_head (pages s q)" for q
    using contents_head [OF s1(3)] by simp
  obtain s' where s': "slab_loop dm k i pt s1 = pop_free_list i s'" "pl.holds i s' (p # (vs @ [u]) @ us)"
    "contents i s' = contents i s1" "\<forall>q. q \<notin> set (us @ p # vs @ [u]) \<longrightarrow> pages s' q = pages s1 q"
    using Cons.IH [of s1 "vs @ [u]" k] s1(2) Cons.prems heads k by auto
  have "slab_loop dm fuel i pt s = slab_loop dm k i pt s1"
    using k(1) u nx Cons.prems(2,4) s1(1) by auto
  moreover have "\<forall>q. q \<notin> set ((u # us) @ p # vs) \<longrightarrow> pages s' q = pages s q"
    using s'(4) s1(4) yys [symmetric] by auto
  ultimately show ?case using s' s1(3) by (intro exI [of _ s']) auto
qed

section \<open>Allocation and release of small objects\<close>

text \<open>
  \<open>cache_rep s i ps F\<close>: cache \<open>i\<close> has the pages \<open>ps\<close>, the current page first, and \<open>F p\<close> is the free list of
  page \<open>p\<close>.
\<close>

definition cache_rep :: "slabs \<Rightarrow> nat \<Rightarrow> u32 list \<Rightarrow> (u32 \<Rightarrow> u32 list) \<Rightarrow> bool" where
  "cache_rep s i ps F \<longleftrightarrow>
     i < SLAB_NUM \<and> length (slab s) = SLAB_NUM \<and> obj_sz (slab s ! i) = of_nat (osize i) \<and>
     pl.holds i s ps \<and> inj_on (\<lambda>p. page_start (pages s p)) (set ps) \<and>
     (\<forall>p \<in> set ps. page_ok (pages s p) (obj s) i (F p))"

lemma pop_free_list_rep:
  assumes rep: "cache_rep s i (p # ps) F" and F: "F p = x # xs"
  shows "\<exists>s'. pop_free_list i s = Inr (x, s') \<and> cache_rep s' i (p # ps) (F(p := xs)) \<and>
           obj s' = obj s \<and> bd s' = bd s \<and> hash_table s' = hash_table s \<and> hnodes s' = hnodes s \<and>
           (\<forall>q. q \<noteq> p \<longrightarrow> pages s' q = pages s q)"
proof -
  let ?pg = "pages s p" and ?c = "slab s ! i"
  have i: "i < length (slab s)" and d: "dll (\<lambda>p. page_next (pages s p)) (\<lambda>p. page_prev (pages s p))
      (cur_slab_page ?c) (page_tail ?c) (p # ps)"
    and inj: "inj_on (\<lambda>p. page_start (pages s p)) (set (p # ps))"
    using rep by (auto simp: cache_rep_def pl.holds_def)
  have p: "cur_slab_page ?c = p" "p \<noteq> 0" using dll_hd [OF d] by auto
  have ok: "page_ok ?pg (obj s) i (x # xs)" using rep F by (auto simp: cache_rep_def)
  note pop = page_pop [OF ok]
  define pg' where "pg' = ?pg\<lparr>free_list_head := obj s x, in_use_num := in_use_num ?pg + 1,
    free_list_tail := if obj s x = 0 then 0 else free_list_tail ?pg\<rparr>"
  define c' where "c' = (if in_use_num ?pg = 0 then ?c\<lparr>free_page_num := free_page_num ?c - 1\<rparr> else ?c)"
  define s' where "s' = s\<lparr>slab := (slab s)[i := c'], pages := (pages s)(p := pg')\<rparr>"
  have "pop_free_list i s = Inr (x, s')"
    using i p pop(2,3) by (auto simp: pop_free_list_def s'_def c'_def pg'_def state_upds Let_def)
  moreover have "cache_rep s' i (p # ps) (F(p := xs))"
  proof -
    have "(\<lambda>q. page_next (pages s' q)) = (\<lambda>q. page_next (pages s q))"
      "(\<lambda>q. page_prev (pages s' q)) = (\<lambda>q. page_prev (pages s q))"
      by (auto simp: s'_def pg'_def)
    then have "pl.holds i s' (p # ps)"
      using i d by (simp add: pl.holds_def) (simp add: s'_def c'_def)
    moreover have "(\<lambda>q. page_start (pages s' q)) = (\<lambda>q. page_start (pages s q))"
      by (auto simp: s'_def pg'_def)
    moreover have "page_ok (pages s' q) (obj s') i ((F(p := xs)) q)" if "q \<in> set (p # ps)" for q
      using that rep pop(1) by (auto simp: s'_def pg'_def cache_rep_def)
    ultimately show ?thesis
      using rep inj i by (auto simp: cache_rep_def s'_def c'_def)
  qed
  ultimately show ?thesis by (intro exI [of _ s']) (auto simp: s'_def)
qed

text \<open>
  Allocation when some page of the cache has a free object: the pages before the first such page
  \<open>p\<close> move to the end of the list and the first free object of \<open>p\<close> is handed out.
\<close>

lemma dmalloc_rep:
  assumes n: "1 \<le> n" "n \<le> 2048" "calc_slab_idx (word_of_int n) = Inr i"
    and rep: "cache_rep s i (us @ p # vs) F"
    and F: "\<forall>u \<in> set us. F u = []" "F p = x # xs" and fuel: "Suc (length us) < fuel"
  shows "\<exists>s'. dmalloc fuel n s = Inr (x, s') \<and> cache_rep s' i (p # vs @ us) (F(p := xs)) \<and>
           obj s' = obj s \<and> bd s' = bd s \<and> hash_table s' = hash_table s \<and> hnodes s' = hnodes s \<and>
           (\<forall>q. q \<notin> set (us @ p # vs) \<longrightarrow> pages s' q = pages s q)"
proof -
  obtain k where k: "fuel = Suc k" "length us < k" using fuel by (cases fuel) auto
  have h: "pl.holds i s (us @ p # vs)" and i: "i < length (slab s)"
    and ok: "\<And>q. q \<in> set (us @ p # vs) \<Longrightarrow> page_ok (pages s q) (obj s) i (F q)"
    using rep by (auto simp: cache_rep_def)
  have heads: "\<forall>u \<in> set us. free_list_head (pages s u) = 0" "free_list_head (pages s p) \<noteq> 0"
    using ok F page_ok_nonempty by (fastforce, fastforce)
  have "page_tail (slab s ! i) = last (p # vs)" using h by (auto simp: pl.holds_def dll_def)
  then have pt: "page_tail (slab s ! i) \<notin> set us"
    using h last_in_set [of "p # vs"] by (fastforce simp: pl.holds_def dest!: dll_distinct)
  obtain s1 where s1: "slab_loop (dmalloc k) k i (page_tail (slab s ! i)) s = pop_free_list i s1"
    "pl.holds i s1 (p # vs @ us)" "contents i s1 = contents i s"
    "\<forall>q. q \<notin> set (us @ p # vs) \<longrightarrow> pages s1 q = pages s q"
    using slab_loop_search [OF h heads pt k(2)] by blast
  have rep1: "cache_rep s1 i (p # vs @ us) F"
  proof -
    have "length (slab s1) = length (slab s)" "obj s1 = obj s"
      using s1(3) by (auto simp: contents_def dest: arg_cong [of _ _ length])
    moreover have "obj_sz (slab s1 ! i) = obj_sz (slab s ! i)"
    proof -
      have "(slab s1 ! i)\<lparr>cur_slab_page := 0, page_tail := 0\<rparr> = (slab s ! i)\<lparr>cur_slab_page := 0, page_tail := 0\<rparr>"
        using s1(3) i calculation(1) unfolding contents_def prod.inject
        by (metis nth_list_update_eq)
      then show ?thesis by (cases "slab s1 ! i"; cases "slab s ! i") simp
    qed
    moreover have "page_ok (pages s1 q) (obj s) i (F q)" if "q \<in> set (p # vs @ us)" for q
    proof -
      obtain a b where "pages s1 q = (pages s q)\<lparr>page_next := a, page_prev := b\<rparr>"
        using contents_page [OF s1(3) [symmetric]] .
      then show ?thesis using page_ok_links [OF ok [of q]] that by auto
    qed
    moreover have "(\<lambda>q. page_start (pages s1 q)) = (\<lambda>q. page_start (pages s q))"
      using contents_head [OF s1(3) [symmetric]] by auto
    moreover have "set (p # vs @ us) = set (us @ p # vs)" by auto
    ultimately show ?thesis using rep s1(2) by (auto simp: cache_rep_def)
  qed
  have other: "obj s1 = obj s" "bd s1 = bd s" "hash_table s1 = hash_table s" "hnodes s1 = hnodes s"
    using s1(3) by (auto simp: contents_def)
  obtain s' where s': "pop_free_list i s1 = Inr (x, s')" "cache_rep s' i (p # vs @ us) (F(p := xs))"
    "obj s' = obj s1" "bd s' = bd s1" "hash_table s' = hash_table s1" "hnodes s' = hnodes s1"
    "\<forall>q. q \<noteq> p \<longrightarrow> pages s' q = pages s1 q"
    using pop_free_list_rep [OF rep1 F(2)] by blast
  have "dmalloc fuel n s = Inr (x, s')"
    using n i k(1) s1(1) s'(1) by (simp add: slab_system_def)
  with s' other s1(4) show ?thesis by (intro exI [of _ s']) auto
qed

text \<open>The hash table leads from an object to the descriptor of its page.\<close>

lemma find_target_page_found:
  assumes ok: "page_ok (pages s p) m i fl" and x: "x \<in> set (objs (page_start (pages s p)) i)"
    and h: "calc_hash_idx (page_start (pages s p)) < length (hash_table s)"
    and ch: "chain (\<lambda>n. hn_next (hnodes s n))
               (ht_head (hash_table s ! calc_hash_idx (page_start (pages s p)))) (ms @ n # ns)"
    and n: "hn_cur_page (hnodes s n) = p"
    and ms: "\<forall>m \<in> set ms. page_start (pages s (hn_cur_page (hnodes s m))) \<noteq> page_start (pages s p)"
  shows "find_target_page x s = Inr n" and "n \<noteq> 0"
proof -
  have "(x div PGSIZE) * PGSIZE = page_start (pages s p)"
    using in_objs(2) [OF x] ok by (auto simp: page_ok_def)
  moreover have "find_node (\<lambda>n. hn_next (hnodes s n))
      (\<lambda>n. page_start (pages s (hn_cur_page (hnodes s n))) = page_start (pages s p))
      (ht_head (hash_table s ! calc_hash_idx (page_start (pages s p))))
      (ht_head (hash_table s ! calc_hash_idx (page_start (pages s p)))) []
    = Inr (last (ht_head (hash_table s ! calc_hash_idx (page_start (pages s p))) # ms), n)"
    using ch ms n by (intro find_node_present [of _ _ ms n ns]) auto
  ultimately show "find_target_page x s = Inr n"
    using h by (simp add: find_target_page_def)
  show "n \<noteq> 0" using chain_null_notin [OF ch] by auto
qed

lemma push_free_list_rep:
  assumes rep: "cache_rep s i ps F" and p: "p \<in> set ps" "x \<in> set (objs (page_start (pages s p)) i)"
  shows "x \<in> set (F p) \<Longrightarrow> push_free_list p x s = Inr (INVALID, s)"
    and "x \<notin> set (F p) \<Longrightarrow> \<exists>s'. push_free_list p x s = Inr (SUCCESS, s') \<and>
           cache_rep s' i ps (F(p := F p @ [x])) \<and> slab s' = slab s \<and> bd s' = bd s \<and>
           hash_table s' = hash_table s \<and> hnodes s' = hnodes s \<and>
           (\<forall>q. q \<noteq> p \<longrightarrow> pages s' q = pages s q) \<and>
           (\<forall>a. a \<noteq> x \<and> a \<notin> set (F p) \<longrightarrow> obj s' a = obj s a)"
proof -
  let ?pg = "pages s p"
  have ok: "page_ok ?pg (obj s) i (F p)" and h: "pl.holds i s ps"
    and inj: "inj_on (\<lambda>p. page_start (pages s p)) (set ps)"
    using rep p by (auto simp: cache_rep_def)
  have p0: "p \<noteq> 0" using h p(1) by (auto simp: pl.holds_def dest!: dll_notin_0)
  have x0: "x \<noteq> 0" using in_objs(1) [OF p(2)] ok by (auto simp: page_ok_def)
  note ch = page_ok_chain [OF ok]
  show "push_free_list p x s = Inr (INVALID, s)" if xin: "x \<in> set (F p)"
  proof -
    obtain us vs where sp: "F p = us @ x # vs" "x \<notin> set us" using xin by (meson split_list_first)
    then have "find_node (obj s) (\<lambda>y. y = x) (free_list_head ?pg) (free_list_head ?pg) []
        = Inr (last (free_list_head ?pg # us), x)"
      using ch by (intro find_node_present [of _ _ us x vs]) auto
    with p0 x0 show ?thesis by (simp add: push_free_list_def)
  qed
  assume nx: "x \<notin> set (F p)"
  have fn: "find_node (obj s) (\<lambda>y. y = x) (free_list_head ?pg) (free_list_head ?pg) []
      = Inr (last (free_list_head ?pg # F p), 0)"
    using ch nx by (intro find_node_absent [of _ _ "F p"]) auto
  define m' where "m' = (if F p = [] then (obj s)(x := 0) else (obj s)(last (F p) := x, x := 0))"
  define pg' where "pg' = ?pg\<lparr>free_list_head := if F p = [] then x else free_list_head ?pg,
    free_list_tail := x, in_use_num := in_use_num ?pg - 1\<rparr>"
  define s' where "s' = s\<lparr>obj := m', pages := (pages s)(p := pg')\<rparr>"
  have tl: "free_list_tail ?pg = (if F p = [] then 0 else last (F p))" using ok by (simp add: page_ok_def)
  have l0: "F p \<noteq> [] \<Longrightarrow> last (F p) \<noteq> 0" using chain_null_notin [OF ch] last_in_set by metis
  have "push_free_list p x s = Inr (SUCCESS, s')"
    using p0 x0 fn tl l0 by (auto simp: push_free_list_def s'_def m'_def pg'_def state_upds)
  moreover have "cache_rep s' i ps (F(p := F p @ [x]))"
  proof -
    have "(\<lambda>q. page_next (pages s' q)) = (\<lambda>q. page_next (pages s q))"
      "(\<lambda>q. page_prev (pages s' q)) = (\<lambda>q. page_prev (pages s q))"
      and st: "(\<lambda>q. page_start (pages s' q)) = (\<lambda>q. page_start (pages s q))"
      by (auto simp: s'_def pg'_def)
    then have "pl.holds i s' ps" using h by (simp add: pl.holds_def) (simp add: s'_def)
    moreover have "page_ok (pages s' q) (obj s') i ((F(p := F p @ [x])) q)" if q: "q \<in> set ps" for q
    proof (cases "q = p")
      case True
      then show ?thesis using page_push [OF ok p(2) nx] by (simp add: s'_def pg'_def m'_def)
    next
      case False
      have okq: "page_ok (pages s q) (obj s) i (F q)" using rep q by (auto simp: cache_rep_def)
      have "page_start (pages s q) \<noteq> page_start ?pg" using inj q p(1) False by (auto dest: inj_onD)
      then have apart: "a \<notin> set (F q)" if "a \<in> set (objs (page_start ?pg) i)" for a
        using in_objs(2) [OF that] in_objs(2) [of a "page_start (pages s q)" i] ok okq
        by (auto simp: page_ok_def)
      have "x \<notin> set (F q)" using apart p(2) by simp
      moreover have "last (F p) \<notin> set (F q)" if "F p \<noteq> []"
      proof -
        have "last (F p) \<in> set (objs (page_start ?pg) i)"
          using ok last_in_set [OF that] unfolding page_ok_def by blast
        then show ?thesis by (rule apart)
      qed
      ultimately show ?thesis
        using False okq by (auto simp: s'_def m'_def intro!: page_ok_outside)
    qed
    ultimately show ?thesis using rep st by (simp add: cache_rep_def) (simp add: s'_def)
  qed
  moreover have "\<forall>a. a \<noteq> x \<and> a \<notin> set (F p) \<longrightarrow> obj s' a = obj s a"
    using last_in_set [of "F p"] by (auto simp: s'_def m'_def)
  ultimately show "\<exists>s'. push_free_list p x s = Inr (SUCCESS, s') \<and>
           cache_rep s' i ps (F(p := F p @ [x])) \<and> slab s' = slab s \<and> bd s' = bd s \<and>
           hash_table s' = hash_table s \<and> hnodes s' = hnodes s \<and>
           (\<forall>q. q \<noteq> p \<longrightarrow> pages s' q = pages s q) \<and>
           (\<forall>a. a \<noteq> x \<and> a \<notin> set (F p) \<longrightarrow> obj s' a = obj s a)"
    by (intro exI [of _ s']) (auto simp: s'_def)
qed

lemma dfree_rep:
  assumes rep: "cache_rep s i ps F" and p: "p \<in> set ps" "x \<in> set (objs (page_start (pages s p)) i)"
    and h: "calc_hash_idx (page_start (pages s p)) < length (hash_table s)"
    and ch: "chain (\<lambda>n. hn_next (hnodes s n))
               (ht_head (hash_table s ! calc_hash_idx (page_start (pages s p)))) (ms @ n # ns)"
    and n: "hn_cur_page (hnodes s n) = p" "hn_slab_idx (hnodes s n) = i"
    and ms: "\<forall>m \<in> set ms. page_start (pages s (hn_cur_page (hnodes s m))) \<noteq> page_start (pages s p)"
  shows "x \<in> set (F p) \<Longrightarrow> dfree (Suc fuel) x s = Inl (Panic ''dfree'')"
    and "x \<notin> set (F p) \<Longrightarrow> Suc (length (F p)) < PGSIZE div osize i \<or> free_page_num (slab s ! i) < 2 \<Longrightarrow>
         \<exists>s'. dfree (Suc fuel) x s = Inr s' \<and> cache_rep s' i ps (F(p := F p @ [x])) \<and>
           bd s' = bd s \<and> hash_table s' = hash_table s \<and> hnodes s' = hnodes s \<and>
           (\<forall>q. q \<noteq> p \<longrightarrow> pages s' q = pages s q) \<and>
           (\<forall>a. a \<noteq> x \<and> a \<notin> set (F p) \<longrightarrow> obj s' a = obj s a)"
proof -
  have ok: "page_ok (pages s p) (obj s) i (F p)" and i: "i < 10" "length (slab s) = 10"
    and sz: "obj_sz (slab s ! i) = of_nat (osize i)" and hd: "pl.holds i s ps"
    using rep p by (auto simp: cache_rep_def)
  have p0: "p \<noteq> 0" using hd p(1) by (auto simp: pl.holds_def dest!: dll_notin_0)
  note tp = find_target_page_found [OF ok p(2) h ch n(1) ms]
  have chk: "check_slab_obj x (of_nat (osize i))"
    using in_objs(3) [OF p(2)] ok i(1) by (auto simp: page_ok_def)
  show "dfree (Suc fuel) x s = Inl (Panic ''dfree'')" if "x \<in> set (F p)"
    using push_free_list_rep(1) [OF rep p that] tp n p0 chk i sz
    by (simp add: dfree_def dfree_with_def)
  assume nx: "x \<notin> set (F p)"
    and room: "Suc (length (F p)) < PGSIZE div osize i \<or> free_page_num (slab s ! i) < 2"
  obtain s1 where s1: "push_free_list p x s = Inr (SUCCESS, s1)" "cache_rep s1 i ps (F(p := F p @ [x]))"
    "slab s1 = slab s" "bd s1 = bd s" "hash_table s1 = hash_table s" "hnodes s1 = hnodes s"
    "\<forall>q. q \<noteq> p \<longrightarrow> pages s1 q = pages s q" "\<forall>a. a \<noteq> x \<and> a \<notin> set (F p) \<longrightarrow> obj s1 a = obj s a"
    using push_free_list_rep(2) [OF rep p nx] by blast
  define s2 where "s2 = (if in_use_num (pages s1 p) = 0
    then set_slab i (\<lambda>c. c\<lparr>free_page_num := free_page_num c + 1\<rparr>) s1 else s1)"
  have few: "\<not> free_page_num (slab s ! i) + 1 > 2" if "in_use_num (pages s1 p) = 0"
  proof -
    have "page_ok (pages s1 p) (obj s1) i (F p @ [x])" using s1(2) p(1) by (auto simp: cache_rep_def)
    with that have "Suc (length (F p)) = PGSIZE div osize i" by (simp add: page_ok_def)
    with room have "free_page_num (slab s ! i) < 2" by simp
    then have "unat (free_page_num (slab s ! i)) < 2" by (simp add: word_less_nat_alt)
    then have "unat (free_page_num (slab s ! i) + 1) = unat (free_page_num (slab s ! i)) + 1"
      by (subst unat_u32_add) auto
    then show ?thesis using \<open>unat (free_page_num (slab s ! i)) < 2\<close> by (simp add: word_less_nat_alt)
  qed
  have "dfree (Suc fuel) x s = Inr s2"
    using s1(1,3) tp n p0 chk i sz few
    by (auto simp: dfree_def dfree_with_def s2_def set_slab_def)
  moreover have "cache_rep s2 i ps (F(p := F p @ [x]))"
    using s1(2) i by (auto simp: s2_def cache_rep_def pl.holds_def set_slab_def s1(3))
  ultimately show "\<exists>s'. dfree (Suc fuel) x s = Inr s' \<and> cache_rep s' i ps (F(p := F p @ [x])) \<and>
           bd s' = bd s \<and> hash_table s' = hash_table s \<and> hnodes s' = hnodes s \<and>
           (\<forall>q. q \<noteq> p \<longrightarrow> pages s' q = pages s q) \<and>
           (\<forall>a. a \<noteq> x \<and> a \<notin> set (F p) \<longrightarrow> obj s' a = obj s a)"
    using s1 by (intro exI [of _ s2]) (auto simp: s2_def set_slab_def)
qed

section \<open>Properties\<close>

text \<open>A cache of objects of half a page with one page, for the witnesses.\<close>

definition demo_page :: page where
  "demo_page = \<lparr>page_next = 0, page_prev = 0, in_use_num = 0, page_start = 0x100000,
     free_list_head = 0x100000, free_list_tail = 0x100800\<rparr>"

definition demo_slabs :: "buddy \<Rightarrow> slabs" where
  "demo_slabs b = \<lparr>bd = b,
     slab = replicate 9 \<lparr>obj_sz = 0, free_page_num = 0, cur_slab_page = 0, page_tail = 0\<rparr> @
       [\<lparr>obj_sz = 2048, free_page_num = 1, cur_slab_page = 0x5000, page_tail = 0x5000\<rparr>],
     slab_at = 0x5000,
     hash_table = replicate 10 \<lparr>ht_head = 0x6000, ht_tail = 0x6000\<rparr>,
     pages = (\<lambda>_. demo_page),
     hnodes = (\<lambda>_. \<lparr>hn_slab_idx = 9, hn_cur_page = 0x5000, hn_next = 0, hn_prev = 0\<rparr>),
     obj = (\<lambda>_. 0)(0x100000 := 0x100800)\<rparr>"

lemma objs_demo: "objs 0x100000 9 = [0x100000, 0x100800]"
  by (simp add: objs_def osize_def upt_rec)

lemma demo_rep: "cache_rep (demo_slabs b) 9 [0x5000] (\<lambda>_. [0x100000, 0x100800])"
  by (simp add: cache_rep_def demo_slabs_def demo_page_def pl.holds_def dll_def page_ok_def objs_demo
      nth_append osize_def)

text \<open>
  For every request of 1 to 2048 bytes \<^verbatim>\<open>calc_slab_idx\<close> returns one of the ten caches, the first
  whose objects are large enough.
\<close>

theorem calc_slab_idx_bounds:
  assumes "1 \<le> n" and "n \<le> 2048"
  shows "\<exists>i. calc_slab_idx (word_of_int n) = Inr i \<and> i < SLAB_NUM \<and> n \<le> 4 * 2 ^ i \<and>
           (i = 0 \<or> 4 * 2 ^ (i - 1) < n)"
  using calc_slab_idx_small [OF assms] by simp

theorem calc_slab_idx_bounds_witness:
  "\<exists>i. calc_slab_idx (word_of_int 2000) = Inr i \<and> i < SLAB_NUM \<and> 2000 \<le> (4 * 2 ^ i :: int) \<and>
     (i = 0 \<or> 4 * 2 ^ (i - 1) < (2000::int))"
  using calc_slab_idx_bounds [of 2000] by simp

text \<open>
  C22. A small request is served without a new page whenever a page of its cache has a free object,
  and the search for it ends: with fuel for the pages that are full, \<open>dmalloc\<close> returns the first
  free object \<open>x\<close> of the first page \<open>p\<close> that has one, the full pages in front of \<open>p\<close> move to the end of
  the list, \<open>x\<close> leaves the free list of \<open>p\<close>, and no other free list, page or cache changes.  The
  object lies in the page, is aligned to its size, is large enough, and is on no free list of the
  cache any more.
\<close>

theorem dmalloc_small:
  assumes n: "1 \<le> n" "n \<le> 2048" "calc_slab_idx (word_of_int n) = Inr i"
    and rep: "cache_rep s i (us @ p # vs) F"
    and F: "\<forall>u \<in> set us. F u = []" "F p = x # xs" and fuel: "Suc (length us) < fuel"
  shows "\<exists>s'. dmalloc fuel n s = Inr (x, s') \<and> cache_rep s' i (p # vs @ us) (F(p := xs)) \<and>
           n \<le> int (osize i) \<and> x \<in> set (objs (page_start (pages s p)) i) \<and> x \<notin> set xs \<and>
           bd s' = bd s \<and> obj s' = obj s \<and> hash_table s' = hash_table s \<and> hnodes s' = hnodes s \<and>
           (\<forall>q. q \<notin> set (us @ p # vs) \<longrightarrow> pages s' q = pages s q)"
proof -
  have ok: "page_ok (pages s p) (obj s) i (x # xs)" using rep F(2) by (auto simp: cache_rep_def)
  then have "x \<in> set (objs (page_start (pages s p)) i)" by (simp add: page_ok_def)
  moreover have "x \<notin> set xs" using page_pop(4) [OF ok] .
  moreover have "n \<le> int (osize i)"
    using calc_slab_idx_small [OF n(1,2)] n(3) by (auto simp: osize_def)
  ultimately show ?thesis using dmalloc_rep [OF assms] by blast
qed

theorem dmalloc_small_witness:
  "\<forall>b. \<exists>s'. dmalloc 2 1500 (demo_slabs b) = Inr (0x100000, s') \<and>
     cache_rep s' 9 [0x5000] ((\<lambda>_. [0x100000, 0x100800])(0x5000 := [0x100800]))"
  (is "\<forall>b. ?P b")
proof
  have idx: "calc_slab_idx (word_of_int 1500) = Inr 9"
    by (simp add: calc_slab_idx_def) (simp add: calc_idx_loop.simps [of 1500 "numeral k" for k])
  show "?P b" for b
    using idx dmalloc_small [of 1500 9 "demo_slabs b" "[]" "0x5000" "[]" "\<lambda>_. [0x100000, 0x100800]"
        "0x100000" "[0x100800]" 2] demo_rep [of b] by auto
qed



end
