(* ===== verification/File.thy ===== *)
theory File
  imports Fs Kalloc Pipe Slab
begin

text \<open>
  The file table of \<^verbatim>\<open>file.c\<close> with its operations on pipes and inodes, \<^verbatim>\<open>pipealloc\<close> of \<^verbatim>\<open>pipe.c\<close>, the fetching
  of system call arguments of \<^verbatim>\<open>syscall.c\<close>, and the state of the kernel as the system calls on files see it
  while one process runs: the file system, the file table, the pages of pipes, the two allocators, the
  process with its memory, and the page cache with its tables.

  A pointer to a \<^verbatim>\<open>struct file\<close> is an index of the file table, as a pointer to an inode is an index of the
  inode cache; a null pointer is \<open>None\<close>.  An operation on a pipe may sleep: the answer is then the
  outcome \<open>Sleep\<close> of \<open>Pipe\<close>, and the call is repeated from there when the process is woken.  \<^verbatim>\<open>begin_op\<close>
  sleeps when the log has no room; in the sequential code of one process nothing would wake it, so that
  is \<open>Hang\<close>.
\<close>

section \<open>State\<close>

datatype ftype = FD_NONE | FD_PIPE | FD_INODE

type_synonym fptr = nat

record sfile =
  f_type :: ftype
  f_ref :: int
  f_readable :: bool
  f_writable :: bool
  f_pipe :: u32
  f_ip :: iptr
  f_off :: u32

record namefd =
  nf_name :: u32
  nf_namehash :: int
  nf_f :: "fptr option"
  nf_fd :: "int list"
  nf_fdcnt :: int
  nf_valid :: int

record cached_page =
  c_reference_time :: int
  c_metaidx :: nat
  c_metapgidx :: nat
  c_page :: "u8 list"
  c_dirty :: int
  c_valid :: int
  c_f :: "fptr option"
  c_fd :: int
  c_idx :: int
  c_ref :: int
  c_dev :: int

record cache_metadata =
  m_name :: u32
  m_namehash :: int
  m_valid :: int
  m_close :: int
  m_cache_page_num :: int
  m_dev :: int
  m_pageidx :: "nat list"

record check_cache_HASH =
  h_name :: u32
  h_dev :: int
  h_meta_idx :: nat
  h_next :: u32

text \<open>
  The fields from \<open>ofile\<close> to \<open>meta_idx_idx\<close> are those of the current process (its registers matter only for
  the stack pointer of the trap frame), those from \<open>CACHE\<close> on the globals of the page cache.  \<open>kend\<close> is the
  linker symbol \<^verbatim>\<open>end\<close> that \<^verbatim>\<open>kfree\<close> compares with.
\<close>

record 'd kern =
  fsys :: "'d fs"
  ftable :: "sfile list"
  pipemem :: "u32 \<Rightarrow> pipe"
  km :: kmem
  slb :: slabs
  kend :: u32
  ofile :: "fptr option list"
  cwd :: "iptr option"
  p_killed :: bool
  umem :: mem
  p_sz :: u32
  tf_esp :: u32
  NAMEFD :: "namefd list"
  meta_idx_idx :: nat
  CACHE :: "cached_page list"
  CACHE_META :: "cache_metadata list"
  check_cache_hash :: "check_cache_HASH list"
  cch_mem :: "u32 \<Rightarrow> check_cache_HASH"
  cache_meta_idx :: "nat list"
  cachedpg_num :: int
  clock_axis :: nat
  fifo_cnt :: int
  time :: int
  ticks :: nat
  totalorder :: int
  cachehit :: int

definition upd_file :: "fptr \<Rightarrow> (sfile \<Rightarrow> sfile) \<Rightarrow> 'd kern \<Rightarrow> 'd kern" where
  "upd_file f g s = s\<lparr>ftable := (ftable s)[f := g (ftable s ! f)]\<rparr>"

definition on_fs :: "('d fs \<Rightarrow> 'd fs result) \<Rightarrow> 'd kern \<Rightarrow> 'd kern result" where
  "on_fs g s = bindE (g (fsys s)) (\<lambda>t. Inr (s\<lparr>fsys := t\<rparr>))"

definition fbegin_op :: "u32 \<Rightarrow> 'd fs \<Rightarrow> 'd fs result" where
  "fbegin_op dev s = (case begin_op dev (lg s) of None \<Rightarrow> Inl Hang | Some l \<Rightarrow> Inr (s\<lparr>lg := l\<rparr>))"

definition fend_op :: "u32 \<Rightarrow> 'd fs \<Rightarrow> 'd fs result" where
  "fend_op dev s = bindE (end_op dev (lg s)) (\<lambda>l. Inr (s\<lparr>lg := l\<rparr>))"

section \<open>The file table\<close>

definition filealloc :: "'d kern \<Rightarrow> fptr option \<times> 'd kern" where
  "filealloc s =
     (case List.find (\<lambda>f. f_ref (ftable s ! f) = 0) [0..<length (ftable s)] of
        Some f \<Rightarrow> (Some f, upd_file f (\<lambda>x. x\<lparr>f_ref := 1\<rparr>) s)
      | None \<Rightarrow> (None, s))"

definition filedup :: "fptr \<Rightarrow> 'd kern \<Rightarrow> 'd kern result" where
  "filedup f s =
     (if f_ref (ftable s ! f) < 1 then Inl (Panic ''filedup'')
      else Inr (upd_file f (\<lambda>x. x\<lparr>f_ref := f_ref x + 1\<rparr>) s))"

text \<open>\<^verbatim>\<open>pipeclose\<close> of \<^verbatim>\<open>pipe.c\<close> on the page of the pipe, which goes back to \<^verbatim>\<open>kfree\<close> with the second end.\<close>

definition kpipeclose :: "u32 \<Rightarrow> bool \<Rightarrow> 'd kern \<Rightarrow> 'd kern result" where
  "kpipeclose p writable s =
     (let (freed, p') = pipeclose writable (pipemem s p);
          s1 = s\<lparr>pipemem := (pipemem s)(p := p')\<rparr>
      in if freed then bindE (kfree (kend s1) p (km s1)) (\<lambda>k. Inr (s1\<lparr>km := k\<rparr>)) else Inr s1)"

definition fileclose :: "fptr \<Rightarrow> 'd kern \<Rightarrow> 'd kern result" where
  "fileclose f s =
     (let ff = ftable s ! f in
      if f_ref ff < 1 then Inl (Panic ''fileclose'')
      else if f_ref ff - 1 > 0 then Inr (upd_file f (\<lambda>x. x\<lparr>f_ref := f_ref x - 1\<rparr>) s)
      else
        let s1 = upd_file f (\<lambda>x. x\<lparr>f_ref := 0, f_type := FD_NONE\<rparr>) s in
        case f_type ff of
          FD_PIPE \<Rightarrow> kpipeclose (f_pipe ff) (f_writable ff) s1
        | FD_INODE \<Rightarrow>
            on_fs (\<lambda>t. bindE (fbegin_op (i_dev (ino t (f_ip ff))) t) (\<lambda>t1.
                       bindE (iput (f_ip ff) t1) (\<lambda>t2.
                       fend_op (i_dev (ino t2 (f_ip ff))) t2))) s1
        | FD_NONE \<Rightarrow> Inr s1)"

definition filestat :: "fptr \<Rightarrow> 'd kern \<Rightarrow> (int \<times> stat option \<times> 'd kern) result" where
  "filestat f s =
     (let ff = ftable s ! f in
      if f_type ff = FD_INODE
      then bindE (ilock (f_ip ff) (fsys s)) (\<lambda>t1.
           let st = stati (f_ip ff) t1 in
           bindE (iunlock (f_ip ff) t1) (\<lambda>t2. Inr (0, Some st, s\<lparr>fsys := t2\<rparr>)))
      else Inr (-1, None, s))"

definition kpiperead :: "u32 \<Rightarrow> int \<Rightarrow> 'd kern \<Rightarrow> outcome \<times> u8 list \<times> 'd kern" where
  "kpiperead p n s =
     (case piperead (p_killed s) n (pipemem s p) of
        (r, bs, p') \<Rightarrow> (r, bs, s\<lparr>pipemem := (pipemem s)(p := p')\<rparr>))"

definition kpipewrite :: "u32 \<Rightarrow> (nat \<Rightarrow> u8) \<Rightarrow> int \<Rightarrow> 'd kern \<Rightarrow> outcome \<times> 'd kern" where
  "kpipewrite p addr n s =
     (case pipewrite (p_killed s) addr n (pipemem s p) of
        (r, p') \<Rightarrow> (r, s\<lparr>pipemem := (pipemem s)(p := p')\<rparr>))"

text \<open>
  In \<^verbatim>\<open>pageCacheFileRead\<close> the commented-out line after the condition makes \<^verbatim>\<open>iunlock\<close> the body of the
  \<^verbatim>\<open>if\<close>: the inode stays locked when nothing was read.
\<close>

definition pageCacheFileRead ::
  "fptr \<Rightarrow> int \<Rightarrow> int \<Rightarrow> 'd kern \<Rightarrow> (outcome \<times> u8 list \<times> 'd kern) result" where
  "pageCacheFileRead f n off s =
     (let ff = ftable s ! f in
      if \<not> f_readable ff then Inr (Ret (-1), [], s)
      else if f_type ff = FD_PIPE then Inr (kpiperead (f_pipe ff) n s)
      else if f_type ff = FD_INODE then
        bindE (ilock (f_ip ff) (fsys s)) (\<lambda>t1.
        bindE (readi (f_ip ff) (word_of_int off) (word_of_int n) t1) (\<lambda>(r, bs, t2).
        bindE (if r > 0 then iunlock (f_ip ff) t2 else Inr t2) (\<lambda>t3.
        Inr (Ret r, bs, s\<lparr>fsys := t3\<rparr>))))
      else Inl (Panic ''fileread''))"

definition fileread :: "fptr \<Rightarrow> int \<Rightarrow> 'd kern \<Rightarrow> (outcome \<times> u8 list \<times> 'd kern) result" where
  "fileread f n s =
     (let ff = ftable s ! f in
      if \<not> f_readable ff then Inr (Ret (-1), [], s)
      else if f_type ff = FD_PIPE then Inr (kpiperead (f_pipe ff) n s)
      else if f_type ff = FD_INODE then
        bindE (ilock (f_ip ff) (fsys s)) (\<lambda>t1.
        bindE (readi (f_ip ff) (f_off ff) (word_of_int n) t1) (\<lambda>(r, bs, t2).
        let s2 = s\<lparr>fsys := t2\<rparr>;
            s3 = (if r > 0 then upd_file f (\<lambda>x. x\<lparr>f_off := f_off x + word_of_int r\<rparr>) s2 else s2)
        in bindE (on_fs (iunlock (f_ip ff)) s3) (\<lambda>s4. Inr (Ret r, bs, s4))))
      else Inl (Panic ''fileread''))"

text \<open>
  One turn of the loop of \<^verbatim>\<open>filewrite\<close>: the bytes \<open>i\<close> to \<open>i + n1\<close> of \<^verbatim>\<open>addr\<close> in a transaction of their own.
  The largest number of bytes in a transaction is \<^verbatim>\<open>((MAXOPBLOCKS-1-1-2) / 2) * 512\<close>.
\<close>

abbreviation (input) chunk_max :: int where
  "chunk_max \<equiv> 1536"

definition write_chunk :: "iptr \<Rightarrow> (nat \<Rightarrow> u8) \<Rightarrow> int \<Rightarrow> int \<Rightarrow> u32 \<Rightarrow> 'd fs \<Rightarrow> (int \<times> 'd fs) result" where
  "write_chunk ip addr i n1 off t =
     bindE (fbegin_op (i_dev (ino t ip)) t) (\<lambda>t1.
     bindE (ilock ip t1) (\<lambda>t2.
     bindE (writei ip (map addr [nat i..<nat (i + n1)]) off t2) (\<lambda>(r, t3).
     bindE (iunlock ip t3) (\<lambda>t4.
     bindE (fend_op (i_dev (ino t4 ip)) t4) (\<lambda>t5.
     Inr (r, t5))))))"

function filewrite_loop :: "fptr \<Rightarrow> (nat \<Rightarrow> u8) \<Rightarrow> int \<Rightarrow> int \<Rightarrow> 'd kern \<Rightarrow> (int \<times> 'd kern) result" where
  "filewrite_loop f addr n i s =
     (if i < n then
        let n1 = (if n - i > chunk_max then chunk_max else n - i);
            ff = ftable s ! f
        in bindE (write_chunk (f_ip ff) addr i n1 (f_off ff) (fsys s)) (\<lambda>(r, t).
           let s1 = s\<lparr>fsys := t\<rparr>;
               s2 = (if r > 0 then upd_file f (\<lambda>x. x\<lparr>f_off := f_off x + word_of_int r\<rparr>) s1 else s1)
           in if r < 0 then Inr (i, s2)
              else if r \<noteq> n1 then Inl (Panic ''short filewrite'')
              else filewrite_loop f addr n (i + r) s2)
      else Inr (i, s))"
  by pat_completeness auto
termination
  by (relation "measure (\<lambda>(f, addr, n, i, s). nat (n - i))") (auto split: if_splits)

declare filewrite_loop.simps [simp del]

definition filewrite :: "fptr \<Rightarrow> (nat \<Rightarrow> u8) \<Rightarrow> int \<Rightarrow> 'd kern \<Rightarrow> (outcome \<times> 'd kern) result" where
  "filewrite f addr n s =
     (let ff = ftable s ! f in
      if \<not> f_writable ff then Inr (Ret (-1), s)
      else if f_type ff = FD_PIPE then Inr (kpipewrite (f_pipe ff) addr n s)
      else if f_type ff = FD_INODE then
        bindE (filewrite_loop f addr n 0 s) (\<lambda>(i, s1). Inr (Ret (if i = n then n else -1), s1))
      else Inl (Panic ''filewrite''))"

text \<open>\<^verbatim>\<open>PageCacheFileWrite\<close> counts the offset in a variable of its own.\<close>

function pc_write_loop ::
  "iptr \<Rightarrow> (nat \<Rightarrow> u8) \<Rightarrow> int \<Rightarrow> int \<Rightarrow> int \<Rightarrow> 'd fs \<Rightarrow> (int \<times> 'd fs) result" where
  "pc_write_loop ip addr n i off t =
     (if i < n then
        let n1 = (if n - i > chunk_max then chunk_max else n - i)
        in bindE (write_chunk ip addr i n1 (word_of_int off) t) (\<lambda>(r, t1).
           let off = (if r > 0 then off + r else off)
           in if r < 0 then Inr (i, t1)
              else if r \<noteq> n1 then Inl (Panic ''short filewrite'')
              else pc_write_loop ip addr n (i + r) off t1)
      else Inr (i, t))"
  by pat_completeness auto
termination
  by (relation "measure (\<lambda>(ip, addr, n, i, off, t). nat (n - i))") (auto split: if_splits)

declare pc_write_loop.simps [simp del]

definition PageCacheFileWrite ::
  "fptr \<Rightarrow> (nat \<Rightarrow> u8) \<Rightarrow> int \<Rightarrow> int \<Rightarrow> 'd kern \<Rightarrow> (outcome \<times> 'd kern) result" where
  "PageCacheFileWrite f addr n off s =
     (let ff = ftable s ! f in
      if \<not> f_writable ff then Inr (Ret (-1), s)
      else if f_type ff = FD_PIPE then Inr (kpipewrite (f_pipe ff) addr n s)
      else if f_type ff = FD_INODE then
        bindE (pc_write_loop (f_ip ff) addr n 0 off (fsys s)) (\<lambda>(i, t).
        Inr (Ret (if i = n then n else -1), s\<lparr>fsys := t\<rparr>))
      else Inl (Panic ''filewrite''))"

section \<open>Pipes as files\<close>

text \<open>\<^verbatim>\<open>pipealloc\<close>: the answer is the pair of files, or \<open>None\<close> for the return value \<open>-1\<close>.\<close>

definition close_opt :: "fptr option \<Rightarrow> 'd kern \<Rightarrow> 'd kern result" where
  "close_opt f s = (case f of None \<Rightarrow> Inr s | Some g \<Rightarrow> fileclose g s)"

definition pipealloc :: "'d kern \<Rightarrow> ((fptr \<times> fptr) option \<times> 'd kern) result" where
  "pipealloc s =
     (case filealloc s of
        (None, s1) \<Rightarrow> Inr (None, s1)
      | (Some f0, s1) \<Rightarrow>
          (case filealloc s1 of
             (None, s2) \<Rightarrow> bindE (fileclose f0 s2) (\<lambda>s3. Inr (None, s3))
           | (Some f1, s2) \<Rightarrow>
               let (p, k) = kalloc (km s2); s3 = s2\<lparr>km := k\<rparr> in
               if p = 0
               then bindE (fileclose f0 s3) (\<lambda>s4. bindE (fileclose f1 s4) (\<lambda>s5. Inr (None, s5)))
               else
                 let s4 = s3\<lparr>pipemem := (pipemem s3)(p := pipe_init (pipemem s3 p))\<rparr>;
                     s5 = upd_file f0 (\<lambda>x. x\<lparr>f_type := FD_PIPE, f_readable := True, f_writable := False,
                                               f_pipe := p\<rparr>) s4;
                     s6 = upd_file f1 (\<lambda>x. x\<lparr>f_type := FD_PIPE, f_readable := False, f_writable := True,
                                               f_pipe := p\<rparr>) s5
                 in Inr (Some (f0, f1), s6)))"

section \<open>Arguments of system calls\<close>

definition fetchint :: "u32 \<Rightarrow> 'd kern \<Rightarrow> u32 option" where
  "fetchint addr s =
     (if addr \<ge> p_sz s \<or> addr + 4 > p_sz s then None
      else Some (ucast (umem s addr) OR push_bit 8 (ucast (umem s (addr + 1)))
                 OR push_bit 16 (ucast (umem s (addr + 2))) OR push_bit 24 (ucast (umem s (addr + 3)))))"

text \<open>The loop of \<^verbatim>\<open>fetchstr\<close>: the bytes up to the terminator, if there is one before the end \<open>ep\<close>.\<close>

function fetchstr_loop :: "mem \<Rightarrow> u32 \<Rightarrow> u32 \<Rightarrow> cstr option" where
  "fetchstr_loop m p ep =
     (if p < ep then
        if m p = 0 then Some [] else map_option ((#) (m p)) (fetchstr_loop m (p + 1) ep)
      else None)"
  by pat_completeness auto
termination
proof (relation "measure (\<lambda>(m, p, ep). unat ep - unat p)", goal_cases)
  case 1
  show ?case by simp
next
  case (2 m p ep)
  then have "unat p < unat ep" by (simp add: word_less_nat_alt)
  moreover from this have "unat (p + 1) = unat p + 1"
    using unat_u32_less [of ep] by (subst unat_u32_add) auto
  ultimately show ?case by simp
qed

declare fetchstr_loop.simps [simp del]

definition fetchstr :: "u32 \<Rightarrow> 'd kern \<Rightarrow> cstr option" where
  "fetchstr addr s = (if addr \<ge> p_sz s then None else fetchstr_loop (umem s) addr (p_sz s))"

definition argint :: "nat \<Rightarrow> 'd kern \<Rightarrow> int option" where
  "argint n s = map_option sint (fetchint (tf_esp s + 4 + of_nat (4 * n)) s)"

definition argptr :: "nat \<Rightarrow> int \<Rightarrow> 'd kern \<Rightarrow> u32 option" where
  "argptr n sz s =
     (case argint n s of
        None \<Rightarrow> None
      | Some i \<Rightarrow>
          if sz < 0 \<or> word_of_int i \<ge> p_sz s \<or> word_of_int i + word_of_int sz > p_sz s then None
          else Some (word_of_int i))"

text \<open>The string at a pointer argument, with the pointer itself, which some callers keep.\<close>

definition argstr :: "nat \<Rightarrow> 'd kern \<Rightarrow> (u32 \<times> cstr) option" where
  "argstr n s =
     (case argint n s of
        None \<Rightarrow> None
      | Some addr \<Rightarrow> map_option (Pair (word_of_int addr)) (fetchstr (word_of_int addr) s))"

definition argfd :: "nat \<Rightarrow> 'd kern \<Rightarrow> (int \<times> fptr) option" where
  "argfd n s =
     (case argint n s of
        None \<Rightarrow> None
      | Some fd \<Rightarrow>
          if fd < 0 \<or> fd \<ge> int NOFILE then None
          else map_option (Pair fd) (ofile s ! nat fd))"

definition fdalloc :: "fptr \<Rightarrow> 'd kern \<Rightarrow> int \<times> 'd kern" where
  "fdalloc f s =
     (case List.find (\<lambda>fd. ofile s ! fd = None) [0..<NOFILE] of
        Some fd \<Rightarrow> (int fd, s\<lparr>ofile := (ofile s)[fd := Some f]\<rparr>)
      | None \<Rightarrow> (-1, s))"

end
