(* ===== verification/Pagecache.thy ===== *)
theory Pagecache
  imports File
begin

text \<open>
  The page cache: twelve pages of file contents (\<^verbatim>\<open>CACHE\<close>), a table of the files that have pages in it
  (\<^verbatim>\<open>CACHE_META\<close>), a table per process from descriptors to path names (\<^verbatim>\<open>NAMEFD\<close>), a hash table meant to find the
  file of a name (\<^verbatim>\<open>check_cache_hash\<close>), four replacement policies, and the system calls that read and write
  through the cache.  The functions are those of the first half of \<^verbatim>\<open>file.c\<close> and of \<^verbatim>\<open>sysfile.c\<close> from
  \<^verbatim>\<open>check_cache_hash_check\<close> to \<^verbatim>\<open>sys_caching_close\<close>.

  File names are kept as the pointers into the memory of the process that the system call was given, and
  they are read there again whenever they are compared; a name that does not end inside the process is
  \<open>Wild\<close>.  The arithmetic of \<^verbatim>\<open>int\<close> is that of the target, where a product that overflows wraps.
  The locks around these functions are commented out in the source.
\<close>

section \<open>Numbers and names\<close>

abbreviation (input) cacheinvalid :: int where
  "cacheinvalid \<equiv> -1"

abbreviation (input) cachevalid :: int where
  "cachevalid \<equiv> 1"

abbreviation (input) NOPAGE :: nat where
  "NOPAGE \<equiv> 0xFF"

abbreviation (input) INTMAX :: int where
  "INTMAX \<equiv> 0x7FFFFFFF"

abbreviation (input) CACHESIZE :: nat where
  "CACHESIZE \<equiv> 12"

abbreviation (input) META_PAGES :: nat where
  "META_PAGES \<equiv> 18"

abbreviation (input) check_cache_hash_num :: int where
  "check_cache_hash_num \<equiv> 113"

text \<open>Division and remainder of C, which round towards zero, and an array index that may be negative.\<close>

definition cdiv :: "int \<Rightarrow> int \<Rightarrow> int" where
  "cdiv a b = sgn a * (abs a div b)"

definition crem :: "int \<Rightarrow> int \<Rightarrow> int" where
  "crem a b = sgn a * (abs a mod b)"

definition wrap :: "int \<Rightarrow> int" where
  "wrap a = sint (word_of_int a :: u32)"

definition iget_at :: "'a list \<Rightarrow> int \<Rightarrow> 'a result" where
  "iget_at xs i = (if i < 0 then Inl Wild else aget xs (nat i))"

text \<open>The first index of a list at which a test that may fail succeeds.\<close>

fun findE :: "('i \<Rightarrow> bool result) \<Rightarrow> 'i list \<Rightarrow> 'i option result" where
  "findE P [] = Inr None"
| "findE P (i # is) = bindE (P i) (\<lambda>b. if b then Inr (Some i) else findE P is)"

definition name_at :: "'d kern \<Rightarrow> u32 \<Rightarrow> cstr result" where
  "name_at s a = (case fetchstr_loop (umem s) a (p_sz s) of None \<Rightarrow> Inl Wild | Some n \<Rightarrow> Inr n)"

text \<open>\<^verbatim>\<open>strlen(a) == strlen(b) && strncmp(a, b, strlen(a)) == 0\<close>\<close>

definition same_name :: "'d kern \<Rightarrow> u32 \<Rightarrow> u32 \<Rightarrow> bool result" where
  "same_name s a b =
     bindE (name_at s a) (\<lambda>x. bindE (name_at s b) (\<lambda>y.
     Inr (strlen x = strlen y \<and> strncmp x y (strlen x) = 0)))"

text \<open>Conjunction that does not evaluate its second argument when the first is false.\<close>

definition andE :: "bool \<Rightarrow> bool result \<Rightarrow> bool result" where
  "andE b r = (if b then r else Inr False)"

abbreviation (input) maxhash :: int where
  "maxhash \<equiv> 1410918871"

fun hash_loop :: "cstr \<Rightarrow> int \<Rightarrow> int \<Rightarrow> int" where
  "hash_loop [] ret prime = ret"
| "hash_loop (c # cs) ret prime =
     hash_loop cs (crem (wrap (ret + wrap ((sint c - 97 + 1) * crem prime maxhash))) maxhash)
       (wrap (prime * 73))"

definition hash :: "cstr \<Rightarrow> int" where
  "hash p =
     (case p of
        [] \<Rightarrow> 0
      | c # cs \<Rightarrow> hash_loop cs (crem (sint c - 97 + 1) maxhash) 73)"

section \<open>Descriptors and names of the process\<close>

definition upd_namefd :: "nat \<Rightarrow> (namefd \<Rightarrow> namefd) \<Rightarrow> 'd kern \<Rightarrow> 'd kern" where
  "upd_namefd i g s = s\<lparr>NAMEFD := (NAMEFD s)[i := g (NAMEFD s ! i)]\<rparr>"

definition setfds :: "fptr \<Rightarrow> nat \<Rightarrow> int \<Rightarrow> 'd kern \<Rightarrow> 'd kern" where
  "setfds f i fd s =
     (case List.find (\<lambda>j. nf_fd (NAMEFD s ! i) ! j = 0) [0..<NOFILE] of
        Some j \<Rightarrow> upd_namefd i (\<lambda>x. x\<lparr>nf_fd := (nf_fd x)[j := fd], nf_fdcnt := nf_fdcnt x + 1, nf_f := Some f\<rparr>) s
      | None \<Rightarrow> s)"

definition already_exist_namefd :: "fptr \<Rightarrow> u32 \<Rightarrow> int \<Rightarrow> 'd kern \<Rightarrow> (int \<times> 'd kern) result" where
  "already_exist_namefd f name fd s =
     bindE (name_at s name) (\<lambda>nm.
     let namehash = hash nm in
     bindE (findE (\<lambda>i. let e = NAMEFD s ! i in
              bindE (andE (namehash = nf_namehash e) (same_name s name (nf_name e))) (\<lambda>b.
              Inr (b \<and> nf_f e = Some f))) [0..<NOFILE]) (\<lambda>r.
     case r of
       None \<Rightarrow> Inr (cacheinvalid, s)
     | Some i \<Rightarrow> Inr (cachevalid, setfds f i fd (upd_namefd i (\<lambda>x. x\<lparr>nf_valid := 1\<rparr>) s))))"

text \<open>\<^verbatim>\<open>myproc()->NAMEFD[i].f->ip->dev\<close>\<close>

definition file_dev :: "fptr option \<Rightarrow> 'd kern \<Rightarrow> int result" where
  "file_dev f s = (case f of None \<Rightarrow> Inl Wild | Some g \<Rightarrow> Inr (sint (i_dev (ino (fsys s) (f_ip (ftable s ! g))))))"

definition set_namefd :: "fptr \<Rightarrow> u32 \<Rightarrow> int \<Rightarrow> 'd kern \<Rightarrow> 'd kern result" where
  "set_namefd f name fd s =
     (case List.find (\<lambda>i. nf_valid (NAMEFD s ! i) = cacheinvalid) [0..<NOFILE] of
        None \<Rightarrow> Inr s
      | Some i \<Rightarrow>
          bindE (name_at s name) (\<lambda>nm.
          let s1 = upd_namefd i (\<lambda>x. x\<lparr>nf_name := name, nf_namehash := hash nm\<rparr>) s;
              s2 = upd_namefd i (\<lambda>x. x\<lparr>nf_valid := cachevalid\<rparr>) (setfds f i fd s1);
              e = NAMEFD s2 ! i
          in
          bindE (findE (\<lambda>j. let m = CACHE_META s2 ! j in
                   bindE (andE (m_valid m = cachevalid \<and> nf_namehash e = m_namehash m)
                            (same_name s2 (nf_name e) (m_name m))) (\<lambda>b.
                   if b then bindE (file_dev (nf_f e) s2) (\<lambda>d. Inr (d = m_dev m)) else Inr False))
                 [0..<length (CACHE_META s2)]) (\<lambda>found.
          case found of
            Some _ \<Rightarrow> Inr s2
          | None \<Rightarrow>
              (case List.find (\<lambda>j. m_valid (CACHE_META s2 ! j) = cacheinvalid) [0..<length (CACHE_META s2)] of
                 None \<Rightarrow> Inr s2
               | Some j \<Rightarrow>
                   bindE (file_dev (nf_f e) s2) (\<lambda>d.
                   Inr (s2\<lparr>CACHE_META := (CACHE_META s2)[j := (CACHE_META s2 ! j)
                          \<lparr>m_name := name, m_namehash := nf_namehash e, m_valid := cachevalid, m_dev := d\<rparr>]\<rparr>))))))"

text \<open>The first entry and the first slot in it that hold the descriptor \<open>fd\<close>.\<close>

definition find_fd :: "int \<Rightarrow> 'd kern \<Rightarrow> (nat \<times> nat) option" where
  "find_fd fd s = List.find (\<lambda>(i, j). nf_fd (NAMEFD s ! i) ! j = fd) (List.product [0..<NOFILE] [0..<NOFILE])"

definition close_namefd :: "int \<Rightarrow> 'd kern \<Rightarrow> 'd kern" where
  "close_namefd fd s =
     (case find_fd fd s of
        None \<Rightarrow> s
      | Some (i, j) \<Rightarrow>
          let s1 = upd_namefd i (\<lambda>x. x\<lparr>nf_fd := (nf_fd x)[j := 0], nf_fdcnt := nf_fdcnt x - 1\<rparr>) s in
          if nf_fdcnt (NAMEFD s1 ! i) = 0 then upd_namefd i (\<lambda>x. x\<lparr>nf_valid := cacheinvalid\<rparr>) s1 else s1)"

section \<open>Initialisation\<close>

definition init_cachemeta :: "'d kern \<Rightarrow> 'd kern" where
  "init_cachemeta s =
     s\<lparr>CACHE_META := map (\<lambda>m. m\<lparr>m_pageidx := replicate META_PAGES NOPAGE, m_valid := cacheinvalid,
         m_close := cacheinvalid, m_cache_page_num := 0\<rparr>) (CACHE_META s),
       check_cache_hash := replicate (nat check_cache_hash_num)
         \<lparr>h_name = 0, h_dev = 0, h_meta_idx = NOPAGE, h_next = 0\<rparr>\<rparr>"

definition clear_page :: "cached_page \<Rightarrow> cached_page" where
  "clear_page c = c\<lparr>c_reference_time := INTMAX, c_page := replicate PGSIZE 0, c_dirty := cacheinvalid,
     c_valid := cacheinvalid, c_metaidx := NOPAGE, c_metapgidx := NOPAGE, c_idx := INTMAX, c_ref := 0\<rparr>"

definition init_cache :: "'d kern \<Rightarrow> 'd kern" where
  "init_cache s = s\<lparr>CACHE := map (\<lambda>c. (clear_page c)\<lparr>c_dev := 0\<rparr>) (CACHE s)\<rparr>"

definition getf :: "nat \<Rightarrow> 'd kern \<Rightarrow> fptr option result" where
  "getf metaidx s =
     bindE (aget (CACHE_META s) metaidx) (\<lambda>m.
     bindE (findE (\<lambda>i. let e = NAMEFD s ! i in
              andE (nf_namehash e = m_namehash m) (same_name s (nf_name e) (m_name m))) [0..<NOFILE]) (\<lambda>r.
     Inr (case r of None \<Rightarrow> None | Some i \<Rightarrow> nf_f (NAMEFD s ! i))))"

section \<open>Replacement\<close>

definition upd_cache :: "nat \<Rightarrow> (cached_page \<Rightarrow> cached_page) \<Rightarrow> 'd kern \<Rightarrow> 'd kern" where
  "upd_cache i g s = s\<lparr>CACHE := (CACHE s)[i := g (CACHE s ! i)]\<rparr>"

definition upd_meta :: "nat \<Rightarrow> (cache_metadata \<Rightarrow> cache_metadata) \<Rightarrow> 'd kern \<Rightarrow> 'd kern" where
  "upd_meta i g s = s\<lparr>CACHE_META := (CACHE_META s)[i := g (CACHE_META s ! i)]\<rparr>"

definition clear_victim_cache :: "nat \<Rightarrow> 'd kern \<Rightarrow> 'd kern" where
  "clear_victim_cache i s = upd_cache i clear_page s"

text \<open>A node of the hash table is the head of bucket \<open>h\<close> (\<open>None\<close>) or at an address.\<close>

definition hnode_at :: "'d kern \<Rightarrow> nat \<Rightarrow> u32 option \<Rightarrow> check_cache_HASH" where
  "hnode_at s h t = (case t of None \<Rightarrow> check_cache_hash s ! h | Some p \<Rightarrow> cch_mem s p)"

definition set_hnext :: "nat \<Rightarrow> u32 option \<Rightarrow> u32 \<Rightarrow> 'd kern \<Rightarrow> 'd kern" where
  "set_hnext h t v s =
     (case t of
        None \<Rightarrow> s\<lparr>check_cache_hash := (check_cache_hash s)[h := (check_cache_hash s ! h)\<lparr>h_next := v\<rparr>]\<rparr>
      | Some p \<Rightarrow> s\<lparr>cch_mem := (cch_mem s)(p := (cch_mem s p)\<lparr>h_next := v\<rparr>)\<rparr>)"

text \<open>
  The loop of \<^verbatim>\<open>delete_hash\<close>.  No node is ever linked behind a head (see \<open>add_check_cache_hash\<close>), so the
  call of \<^verbatim>\<open>dfree\<close>, here with fuel for freeing one object, is not reached from the initial state.
\<close>

function delete_hash_loop :: "u32 \<Rightarrow> nat \<Rightarrow> u32 option \<Rightarrow> u32 list \<Rightarrow> 'd kern \<Rightarrow> 'd kern result" where
  "delete_hash_loop name h tmp seen s =
     (let nx = h_next (hnode_at s h tmp) in
      if nx = 0 then Inl Wild
      else
        let lst = (h_next (cch_mem s nx) = 0) in
        bindE (same_name s name (h_name (if lst then cch_mem s nx else hnode_at s h tmp))) (\<lambda>eq.
        if eq then
          bindE (dfree 4 nx (slb s)) (\<lambda>b. Inr (set_hnext h tmp (h_next (cch_mem s nx)) (s\<lparr>slb := b\<rparr>)))
        else if nx \<in> set seen then Inl Hang
        else delete_hash_loop name h (Some nx) (nx # seen) s))"
  by pat_completeness auto
termination
proof (relation "measure (\<lambda>(name, h, tmp, seen, s). card (UNIV - set seen))", goal_cases)
  case 1
  show ?case by simp
next
  case (2 name h tmp seen s nx lst eq)
  have "card (UNIV - set (nx # seen)) < card (UNIV - set seen)"
    using 2 by (intro psubset_card_mono) auto
  then show ?case by simp
qed

declare delete_hash_loop.simps [simp del]

definition delete_hash :: "nat \<Rightarrow> 'd kern \<Rightarrow> 'd kern result" where
  "delete_hash idx s =
     bindE (aget (CACHE s) idx) (\<lambda>c.
     bindE (aget (CACHE_META s) (c_metaidx c)) (\<lambda>m.
     bindE (iget_at (check_cache_hash s) (crem (m_namehash m) check_cache_hash_num)) (\<lambda>hd.
     if h_next hd = 0 then Inr s
     else delete_hash_loop (m_name m) (nat (crem (m_namehash m) check_cache_hash_num)) None [] s)))"

text \<open>Writing a page back; the answer of a pipe that would block does not come.\<close>

definition flush_page :: "fptr option \<Rightarrow> nat \<Rightarrow> nat \<Rightarrow> 'd kern \<Rightarrow> 'd kern result" where
  "flush_page f ci pgidx s =
     (case f of
        None \<Rightarrow> Inl Wild
      | Some g \<Rightarrow>
          bindE (PageCacheFileWrite g (\<lambda>k. c_page (CACHE s ! ci) ! k) PGSIZE (int pgidx * PGSIZE) s) (\<lambda>(r, s1).
          case r of
            Sleep _ _ \<Rightarrow> Inl Hang
          | Ret _ \<Rightarrow> Inr (upd_cache ci (\<lambda>c. c\<lparr>c_dirty := cacheinvalid\<rparr>) s1)))"

definition flush_if_dirty :: "fptr option \<Rightarrow> nat \<Rightarrow> nat \<Rightarrow> 'd kern \<Rightarrow> 'd kern result" where
  "flush_if_dirty f metaidx pgidx s =
     bindE (aget (CACHE_META s) metaidx) (\<lambda>m.
     bindE (aget (m_pageidx m) pgidx) (\<lambda>ci.
     if ci = NOPAGE then Inr s
     else
       bindE (aget (CACHE s) ci) (\<lambda>c.
       if c_dirty c = cachevalid \<and> c_valid c = 1 then flush_page f ci pgidx s else Inr s)))"

definition write_direct :: "fptr option \<Rightarrow> int \<Rightarrow> nat \<Rightarrow> bool \<Rightarrow> 'd kern \<Rightarrow> 'd kern result" where
  "write_direct f fd victim_idx close_flag s =
     (if close_flag then
        let (name, namehash) = (case find_fd fd s of
                                  None \<Rightarrow> (0, -1)
                                | Some (i, j) \<Rightarrow> (nf_name (NAMEFD s ! i), nf_namehash (NAMEFD s ! i)))
        in
        bindE (findE (\<lambda>i. let m = CACHE_META s ! i in
                 bindE (andE (namehash = m_namehash m) (same_name s name (m_name m))) (\<lambda>b.
                 if b then bindE (file_dev f s) (\<lambda>d. Inr (d = m_dev m)) else Inr False))
               [0..<length (CACHE_META s)]) (\<lambda>r.
        case r of
          None \<Rightarrow> Inr s
        | Some i \<Rightarrow> foldE (\<lambda>j. flush_if_dirty f i j) [0..<META_PAGES] s)
      else
        bindE (aget (CACHE s) victim_idx) (\<lambda>c. flush_if_dirty f (c_metaidx c) (c_metapgidx c) s))"

text \<open>What the four policies do with the page they chose.\<close>

definition evict :: "nat \<Rightarrow> 'd kern \<Rightarrow> 'd kern result" where
  "evict victim_idx s =
     bindE (aget (CACHE s) victim_idx) (\<lambda>c.
     bindE (write_direct (c_f c) (c_fd c) victim_idx False s) (\<lambda>s1.
     let mi = c_metaidx (CACHE s1 ! victim_idx); pi = c_metapgidx (CACHE s1 ! victim_idx) in
     bindE (aget (CACHE_META s1) mi) (\<lambda>m.
     bindE (aset (m_pageidx m) pi NOPAGE) (\<lambda>ps.
     let s2 = upd_meta mi (\<lambda>m. m\<lparr>m_pageidx := ps, m_cache_page_num := m_cache_page_num m - 1\<rparr>) s1 in
     bindE (if m_cache_page_num (CACHE_META s2 ! mi) = 0 then delete_hash victim_idx s2 else Inr s2) (\<lambda>s3.
     Inr (clear_victim_cache victim_idx s3))))))"

text \<open>The page with the least key below \<^verbatim>\<open>0x7FFFFFFF\<close>, the first of them; \<open>-1\<close> when there is none.\<close>

fun min_loop :: "(cached_page \<Rightarrow> int) \<Rightarrow> cached_page list \<Rightarrow> int \<Rightarrow> int \<Rightarrow> int \<Rightarrow> int" where
  "min_loop key [] i victim_time victim_idx = victim_idx"
| "min_loop key (c # cs) i victim_time victim_idx =
     (if key c < victim_time then min_loop key cs (i + 1) (key c) i
      else min_loop key cs (i + 1) victim_time victim_idx)"

definition evict_at :: "int \<Rightarrow> 'd kern \<Rightarrow> 'd kern result" where
  "evict_at i s = (if i < 0 then Inl Wild else evict (nat i) s)"

definition lru_policy :: "'d kern \<Rightarrow> 'd kern result" where
  "lru_policy s = evict_at (min_loop c_reference_time (CACHE s) 0 INTMAX (-1)) s"

definition FIFO_policy :: "'d kern \<Rightarrow> 'd kern result" where
  "FIFO_policy s = evict_at (min_loop c_idx (CACHE s) 0 INTMAX (-1)) s"

definition random_policy :: "'d kern \<Rightarrow> 'd kern result" where
  "random_policy s = evict (ticks s mod CACHESIZE) s"

text \<open>
  The hand of the clock: pages with the bit \<^verbatim>\<open>ref\<close> are given a second chance.  Each turn clears a bit, so
  the loop ends.
\<close>

function clock_loop :: "nat \<Rightarrow> cached_page list \<Rightarrow> (nat \<times> nat \<times> cached_page list) result" where
  "clock_loop axis cs =
     (if axis < length cs then
        if c_ref (cs ! axis) = 1
        then clock_loop ((axis + 1) mod CACHESIZE) (cs[axis := (cs ! axis)\<lparr>c_ref := 0\<rparr>])
        else Inr (axis, (axis + 1) mod CACHESIZE, cs)
      else Inl Wild)"
  by pat_completeness auto
termination
proof (relation "measure (\<lambda>(axis, cs). length (filter (\<lambda>c. c_ref c = 1) cs))", goal_cases)
  case 1
  show ?case by simp
next
  case (2 axis cs)
  then have "cs = take axis cs @ cs ! axis # drop (Suc axis) cs" by (simp add: id_take_nth_drop)
  moreover have "cs[axis := (cs ! axis)\<lparr>c_ref := 0\<rparr>] =
      take axis cs @ (cs ! axis)\<lparr>c_ref := 0\<rparr> # drop (Suc axis) cs"
    using 2 by (simp add: upd_conv_take_nth_drop)
  moreover have "length (filter (\<lambda>c. c_ref c = 1) (take axis cs @ (cs ! axis)\<lparr>c_ref := 0\<rparr> # drop (Suc axis) cs))
      < length (filter (\<lambda>c. c_ref c = 1) (take axis cs @ cs ! axis # drop (Suc axis) cs))"
    using 2 by simp
  ultimately show ?case by simp
qed

declare clock_loop.simps [simp del]

definition clock_policy :: "'d kern \<Rightarrow> 'd kern result" where
  "clock_policy s =
     bindE (clock_loop (clock_axis s) (CACHE s)) (\<lambda>(victim_idx, axis, cs).
     evict victim_idx (s\<lparr>clock_axis := axis, CACHE := cs\<rparr>))"

section \<open>Looking up and filling pages\<close>

definition cwd_dev :: "'d kern \<Rightarrow> int result" where
  "cwd_dev s = (case cwd s of None \<Rightarrow> Inl Wild | Some c \<Rightarrow> Inr (sint (i_dev (ino (fsys s) c))))"

text \<open>\<^verbatim>\<open>cache_meta_idx[myproc()->meta_idx_idx]\<close>\<close>

definition my_meta :: "'d kern \<Rightarrow> nat" where
  "my_meta s = cache_meta_idx s ! meta_idx_idx s"

definition set_my_meta :: "nat \<Rightarrow> 'd kern \<Rightarrow> 'd kern" where
  "set_my_meta v s = s\<lparr>cache_meta_idx := (cache_meta_idx s)[meta_idx_idx s := v]\<rparr>"

function hash_check_loop :: "u32 \<Rightarrow> nat \<Rightarrow> u32 option \<Rightarrow> u32 list \<Rightarrow> 'd kern \<Rightarrow> (int \<times> 'd kern) result" where
  "hash_check_loop name h tmp seen s =
     (let nd = hnode_at s h tmp; nx = h_next nd in
      bindE (same_name s name (h_name nd)) (\<lambda>eq.
      bindE (if eq then bindE (cwd_dev s) (\<lambda>d. Inr (d = h_dev nd)) else Inr False) (\<lambda>hit.
      if hit then Inr (1, set_my_meta (h_meta_idx nd) s)
      else if nx = 0 then Inr (-1, s)
      else if nx \<in> set seen then Inl Hang
      else hash_check_loop name h (Some nx) (nx # seen) s)))"
  by pat_completeness auto
termination
proof (relation "measure (\<lambda>(name, h, tmp, seen, s). card (UNIV - set seen))", goal_cases)
  case 1
  show ?case by simp
next
  case (2 name h tmp seen s nd nx eq hit)
  have "card (UNIV - set (nx # seen)) < card (UNIV - set seen)"
    using 2 by (intro psubset_card_mono) auto
  then show ?case by simp
qed

declare hash_check_loop.simps [simp del]

definition check_cache_hash_check :: "nat \<Rightarrow> 'd kern \<Rightarrow> (int \<times> 'd kern) result" where
  "check_cache_hash_check idx s =
     (let e = NAMEFD s ! idx; h = crem (nf_namehash e) check_cache_hash_num in
      bindE (iget_at (check_cache_hash s) h) (\<lambda>_. hash_check_loop (nf_name e) (nat h) None [] s))"

text \<open>
  \<^verbatim>\<open>add_check_cache_hash\<close> walks to the last node of the bucket and then assigns to the fields of \<^verbatim>\<open>tmp->next\<close>,
  which is null there: the allocation of the node is commented out.
\<close>

definition add_check_cache_hash :: "nat \<Rightarrow> nat \<Rightarrow> 'd kern \<Rightarrow> 'd kern result" where
  "add_check_cache_hash idx meta_idx s =
     (let h = crem (nf_namehash (NAMEFD s ! idx)) check_cache_hash_num in
      bindE (iget_at (check_cache_hash s) h) (\<lambda>hd.
      bindE (find_node (\<lambda>p. h_next (cch_mem s p)) (\<lambda>_. False) (h_next hd) (h_next hd) []) (\<lambda>(prev, tmp_next).
      if tmp_next = 0 then Inl Wild else Inr s)))"

definition check_cache :: "fptr \<Rightarrow> nat \<Rightarrow> 'd kern \<Rightarrow> (int \<times> 'd kern) result" where
  "check_cache f pgidx s0 =
     (let s = s0\<lparr>totalorder := totalorder s0 + 1, time := time s0 + 1\<rparr> in
      bindE (case List.find (\<lambda>i. nf_f (NAMEFD s ! i) = Some f) [0..<NOFILE] of
               None \<Rightarrow> Inr s
             | Some i \<Rightarrow>
                 bindE (check_cache_hash_check i s) (\<lambda>(r, s1).
                 if r \<noteq> -1 then Inr s1
                 else
                   let e = NAMEFD s1 ! i in
                   bindE (findE (\<lambda>j. let m = CACHE_META s1 ! j in
                            bindE (andE (nf_namehash e = m_namehash m) (same_name s1 (nf_name e) (m_name m))) (\<lambda>b.
                            if b then bindE (cwd_dev s1) (\<lambda>d. Inr (d = m_dev m)) else Inr False))
                          [0..<length (CACHE_META s1)]) (\<lambda>found.
                   case found of
                     None \<Rightarrow> Inr s1
                   | Some j \<Rightarrow> bindE (add_check_cache_hash i j s1) (\<lambda>s2. Inr (set_my_meta j s2))))) (\<lambda>s3.
      if my_meta s3 = NOPAGE then Inr (cacheinvalid, s3)
      else
        bindE (aget (CACHE_META s3) (my_meta s3)) (\<lambda>m.
        bindE (aget (m_pageidx m) pgidx) (\<lambda>ci.
        if ci = NOPAGE then Inr (cacheinvalid, s3)
        else
          bindE (aget (CACHE s3) ci) (\<lambda>_.
          Inr (cachevalid, upd_cache ci (\<lambda>c. c\<lparr>c_reference_time := time s3, c_ref := 1\<rparr>)
                             (s3\<lparr>cachehit := cachehit s3 + 1\<rparr>)))))))"

text \<open>The bytes of a page of the allocator, and storing bytes into memory.\<close>

definition page_bytes :: "mem \<Rightarrow> u32 \<Rightarrow> nat \<Rightarrow> u8 list" where
  "page_bytes m p n = map (\<lambda>k. m (p + of_nat k)) [0..<n]"

definition store_bytes :: "mem \<Rightarrow> u32 \<Rightarrow> u8 list \<Rightarrow> mem" where
  "store_bytes m p bs = (\<lambda>a. if unat (a - p) < length bs then bs ! unat (a - p) else m a)"

text \<open>The cached page of the current file that holds offset \<open>off\<close>.\<close>

definition cached_at :: "int \<Rightarrow> 'd kern \<Rightarrow> nat result" where
  "cached_at off s =
     bindE (aget (CACHE_META s) (my_meta s)) (\<lambda>m.
     bindE (iget_at (m_pageidx m) (cdiv off PGSIZE)) (\<lambda>ci.
     bindE (aget (CACHE s) ci) (\<lambda>_. Inr ci)))"

definition cache_fault_handler :: "fptr \<Rightarrow> int \<Rightarrow> int \<Rightarrow> 'd kern \<Rightarrow> 'd kern result" where
  "cache_fault_handler f off fd s0 =
     bindE (if cachedpg_num s0 = int CACHESIZE
            then clock_policy (s0\<lparr>cachedpg_num := cachedpg_num s0 - 1\<rparr>) else Inr s0) (\<lambda>s1.
     bindE (case List.find (\<lambda>i. c_valid (CACHE s1 ! i) = cacheinvalid) [0..<length (CACHE s1)] of
              None \<Rightarrow> Inr s1
            | Some i \<Rightarrow>
                if cdiv off PGSIZE < 0 then Inl Wild
                else
                  bindE (aget (CACHE_META s1) (my_meta s1)) (\<lambda>m.
                  bindE (aset (m_pageidx m) (nat (cdiv off PGSIZE)) i) (\<lambda>ps.
                  Inr (upd_meta (my_meta s1) (\<lambda>m. m\<lparr>m_pageidx := ps\<rparr>) s1)))) (\<lambda>s2.
     let (q, k) = kalloc (km s2); s3 = s2\<lparr>km := k\<rparr> in
     bindE (pageCacheFileRead f PGSIZE (off - crem off PGSIZE) s3) (\<lambda>(r, bs, s4).
     case r of
       Sleep _ _ \<Rightarrow> Inl Hang
     | Ret _ \<Rightarrow>
         if q = 0 then Inl Wild
         else
           let s5 = s4\<lparr>km := (km s4)\<lparr>bytes := store_bytes (bytes (km s4)) q bs\<rparr>\<rparr> in
           bindE (cached_at off s5) (\<lambda>ci.
           bindE (cwd_dev s5) (\<lambda>dev.
           let s6 = upd_meta (my_meta s5) (\<lambda>m. m\<lparr>m_cache_page_num := m_cache_page_num m + 1\<rparr>)
                      (s5\<lparr>cachedpg_num := cachedpg_num s5 + 1, fifo_cnt := fifo_cnt s5 + 1\<rparr>);
               s7 = upd_cache ci (\<lambda>c. c\<lparr>c_page := page_bytes (bytes (km s5)) q PGSIZE, c_valid := cachevalid,
                      c_metaidx := my_meta s5, c_metapgidx := nat (cdiv off PGSIZE),
                      c_dirty := cacheinvalid, c_reference_time := time s5, c_idx := fifo_cnt s5,
                      c_f := Some f, c_fd := fd, c_dev := dev\<rparr>) s6
           in bindE (kfree (kend s7) q (km s7)) (\<lambda>k. Inr (s7\<lparr>km := k\<rparr>)))))))"

end
