(* ===== verification/Sysfile.thy ===== *)
theory Sysfile
  imports Pagecache
begin

text \<open>
  The system calls of \<^verbatim>\<open>sysfile.c\<close> on files and directories, for the process whose state is in the record
  \<open>kern\<close>.  A call answers with its return value; the calls that may sleep in a pipe answer with an
  \<open>outcome\<close>.  Every call fetches its arguments from the stack of the process as the source does.
  \<^verbatim>\<open>sys_exec\<close> builds the argument vector; loading the program is not part of this model.
\<close>

section \<open>Transactions of a call\<close>

text \<open>\<^verbatim>\<open>begin_op(myproc()->cwd->dev)\<close> and \<^verbatim>\<open>end_op(myproc()->cwd->dev)\<close>\<close>

definition op_begin :: "'d kern \<Rightarrow> 'd kern result" where
  "op_begin s =
     (case cwd s of None \<Rightarrow> Inl Wild | Some c \<Rightarrow> on_fs (\<lambda>t. fbegin_op (i_dev (ino t c)) t) s)"

definition op_end :: "'d kern \<Rightarrow> 'd kern result" where
  "op_end s =
     (case cwd s of None \<Rightarrow> Inl Wild | Some c \<Rightarrow> on_fs (\<lambda>t. fend_op (i_dev (ino t c)) t) s)"

definition op_end_ret :: "int \<Rightarrow> 'd kern \<Rightarrow> (int \<times> 'd kern) result" where
  "op_end_ret r s = bindE (op_end s) (\<lambda>s1. Inr (r, s1))"

definition knamei :: "cstr \<Rightarrow> 'd kern \<Rightarrow> (iptr option \<times> 'd kern) result" where
  "knamei path s =
     (case cwd s of
        None \<Rightarrow> if peek path = slash \<or> peek path = pipechar
                then bindE (namei 0 path (fsys s)) (\<lambda>(r, t). Inr (r, s\<lparr>fsys := t\<rparr>)) else Inl Wild
      | Some c \<Rightarrow> bindE (namei c path (fsys s)) (\<lambda>(r, t). Inr (r, s\<lparr>fsys := t\<rparr>)))"

definition knameiparent :: "cstr \<Rightarrow> 'd kern \<Rightarrow> ((iptr \<times> cstr) option \<times> 'd kern) result" where
  "knameiparent path s =
     (case cwd s of
        None \<Rightarrow> if peek path = slash \<or> peek path = pipechar
                then bindE (nameiparent 0 path (fsys s)) (\<lambda>(r, t). Inr (r, s\<lparr>fsys := t\<rparr>)) else Inl Wild
      | Some c \<Rightarrow> bindE (nameiparent c path (fsys s)) (\<lambda>(r, t). Inr (r, s\<lparr>fsys := t\<rparr>)))"

section \<open>Descriptors\<close>

text \<open>
  The second half of \<^verbatim>\<open>sys_dup\<close>: for each name of the table until the one that leads to the inode of the
  file, \<^verbatim>\<open>namei\<close> looks it up; the references it takes are not given back.  An entry with the right inode
  but without a free slot does not end the loop.
\<close>

fun dup_names :: "fptr \<Rightarrow> int \<Rightarrow> nat list \<Rightarrow> 'd kern \<Rightarrow> 'd kern result" where
  "dup_names f fd [] s = Inr s"
| "dup_names f fd (i # is) s =
     bindE (name_at s (nf_name (NAMEFD s ! i))) (\<lambda>path.
     bindE (knamei path s) (\<lambda>(ip, s1).
     if ip = Some (f_ip (ftable s1 ! f))
     then (case List.find (\<lambda>j. nf_fd (NAMEFD s1 ! i) ! j = 0) [0..<NOFILE] of
             Some j \<Rightarrow> Inr (setfds f i fd s1)
           | None \<Rightarrow> dup_names f fd is s1)
     else dup_names f fd is s1))"

definition sys_dup :: "'d kern \<Rightarrow> (int \<times> 'd kern) result" where
  "sys_dup s =
     (case argfd 0 s of
        None \<Rightarrow> Inr (-1, s)
      | Some (_, f) \<Rightarrow>
          let (fd, s1) = fdalloc f s in
          if fd < 0 then Inr (-1, s1)
          else bindE (filedup f s1) (\<lambda>s2. bindE (dup_names f fd [0..<NOFILE] s2) (\<lambda>s3. Inr (fd, s3))))"

definition sys_fileoffset :: "'d kern \<Rightarrow> (int \<times> 'd kern) result" where
  "sys_fileoffset s =
     (case argfd 0 s of
        None \<Rightarrow> Inr (-1, s)
      | Some (_, f) \<Rightarrow>
          (case argint 1 s of
             None \<Rightarrow> Inr (-1, s)
           | Some n \<Rightarrow>
               if word_of_int n > i_size (ino (fsys s) (f_ip (ftable s ! f))) then Inr (-1, s)
               else Inr (0, upd_file f (\<lambda>x. x\<lparr>f_off := word_of_int n\<rparr>) s)))"

text \<open>The arguments \<open>(fd, p, n)\<close> of \<^verbatim>\<open>read\<close> and \<^verbatim>\<open>write\<close>.\<close>

definition arg_fpn :: "'d kern \<Rightarrow> (int \<times> fptr \<times> u32 \<times> int) option" where
  "arg_fpn s =
     (case argfd 0 s of
        None \<Rightarrow> None
      | Some (fd, f) \<Rightarrow>
          (case argint 2 s of
             None \<Rightarrow> None
           | Some n \<Rightarrow> map_option (\<lambda>p. (fd, f, p, n)) (argptr 1 n s)))"

definition sys_read :: "'d kern \<Rightarrow> (outcome \<times> 'd kern) result" where
  "sys_read s =
     (case arg_fpn s of
        None \<Rightarrow> Inr (Ret (-1), s)
      | Some (fd, f, p, n) \<Rightarrow>
          bindE (fileread f n s) (\<lambda>(r, bs, s1). Inr (r, s1\<lparr>umem := store_bytes (umem s1) p bs\<rparr>)))"

definition sys_write :: "'d kern \<Rightarrow> (outcome \<times> 'd kern) result" where
  "sys_write s =
     (case arg_fpn s of
        None \<Rightarrow> Inr (Ret (-1), s)
      | Some (fd, f, p, n) \<Rightarrow> filewrite f (\<lambda>k. umem s (p + of_nat k)) n s)"

definition sys_close :: "'d kern \<Rightarrow> (int \<times> 'd kern) result" where
  "sys_close s =
     (case argfd 0 s of
        None \<Rightarrow> Inr (-1, s)
      | Some (fd, f) \<Rightarrow>
          bindE (fileclose f (s\<lparr>ofile := (ofile s)[nat fd := None]\<rparr>)) (\<lambda>s1. Inr (0, s1)))"

text \<open>The bytes of a \<^verbatim>\<open>struct stat\<close>: two bytes of padding follow \<^verbatim>\<open>type\<close> and \<^verbatim>\<open>nlink\<close> is followed by two more.\<close>

definition le16 :: "u16 \<Rightarrow> u8 list" where
  "le16 w = [ucast w, ucast (drop_bit 8 w)]"

definition le32 :: "u32 \<Rightarrow> u8 list" where
  "le32 w = [ucast w, ucast (drop_bit 8 w), ucast (drop_bit 16 w), ucast (drop_bit 24 w)]"

definition store_stat :: "mem \<Rightarrow> u32 \<Rightarrow> stat \<Rightarrow> mem" where
  "store_stat m p st =
     (let m1 = store_bytes m p (le16 (st_type st));
          m2 = store_bytes m1 (p + 4) (le32 (st_dev st) @ le32 (st_ino st) @ le16 (st_nlink st))
      in store_bytes m2 (p + 16) (le32 (st_size st)))"

definition sys_fstat :: "'d kern \<Rightarrow> (int \<times> 'd kern) result" where
  "sys_fstat s =
     (case argfd 0 s of
        None \<Rightarrow> Inr (-1, s)
      | Some (_, f) \<Rightarrow>
          (case argptr 1 20 s of
             None \<Rightarrow> Inr (-1, s)
           | Some p \<Rightarrow>
               bindE (filestat f s) (\<lambda>(r, st, s1).
               Inr (r, case st of None \<Rightarrow> s1 | Some x \<Rightarrow> s1\<lparr>umem := store_stat (umem s1) p x\<rparr>))))"

definition sys_pipe :: "'d kern \<Rightarrow> (int \<times> 'd kern) result" where
  "sys_pipe s =
     (case argptr 0 8 s of
        None \<Rightarrow> Inr (-1, s)
      | Some p \<Rightarrow>
          bindE (pipealloc s) (\<lambda>(r, s1).
          case r of
            None \<Rightarrow> Inr (-1, s1)
          | Some (rfile, wfile) \<Rightarrow>
              let (fd0, s2) = fdalloc rfile s1 in
              if fd0 < 0
              then bindE (fileclose rfile s2) (\<lambda>s3. bindE (fileclose wfile s3) (\<lambda>s4. Inr (-1, s4)))
              else
                let (fd1, s3) = fdalloc wfile s2 in
                if fd1 < 0
                then bindE (fileclose rfile (s3\<lparr>ofile := (ofile s3)[nat fd0 := None]\<rparr>)) (\<lambda>s4.
                     bindE (fileclose wfile s4) (\<lambda>s5. Inr (-1, s5)))
                else Inr (0, s3\<lparr>umem := store_bytes (umem s3) p (le32 (word_of_int fd0) @ le32 (word_of_int fd1))\<rparr>)))"

section \<open>Directories\<close>

text \<open>The part of \<^verbatim>\<open>sys_link\<close> after the label \<^verbatim>\<open>bad\<close>.\<close>

definition link_bad :: "iptr \<Rightarrow> 'd kern \<Rightarrow> (int \<times> 'd kern) result" where
  "link_bad ip s =
     bindE (on_fs (\<lambda>t. bindE (ilock ip t) (\<lambda>t1.
       bindE (iupdate ip (upd_ino ip (\<lambda>i. i\<lparr>i_nlink := i_nlink i - 1\<rparr>) t1)) (iunlockput ip))) s)
       (op_end_ret (-1))"

definition sys_link :: "'d kern \<Rightarrow> (int \<times> 'd kern) result" where
  "sys_link s =
     (case (argstr 0 s, argstr 1 s) of
        (Some (_, old), Some (_, new)) \<Rightarrow>
          bindE (op_begin s) (\<lambda>s1.
          bindE (knamei old s1) (\<lambda>(r, s2).
          case r of
            None \<Rightarrow> op_end_ret (-1) s2
          | Some ip \<Rightarrow>
              bindE (on_fs (ilock ip) s2) (\<lambda>s3.
              if i_type (ino (fsys s3) ip) = T_DIR
              then bindE (on_fs (iunlockput ip) s3) (op_end_ret (-1))
              else
                bindE (on_fs (\<lambda>t. bindE (iupdate ip (upd_ino ip (\<lambda>i. i\<lparr>i_nlink := i_nlink i + 1\<rparr>) t)) (iunlock ip)) s3) (\<lambda>s4.
                bindE (knameiparent new s4) (\<lambda>(r, s5).
                case r of
                  None \<Rightarrow> link_bad ip s5
                | Some (dp, name) \<Rightarrow>
                    bindE (on_fs (ilock dp) s5) (\<lambda>s6.
                    bindE (if i_dev (ino (fsys s6) dp) \<noteq> i_dev (ino (fsys s6) ip) then Inr (-1, s6)
                           else bindE (dirlink dp name (i_inum (ino (fsys s6) ip)) (fsys s6)) (\<lambda>(r, t).
                                Inr (r, s6\<lparr>fsys := t\<rparr>))) (\<lambda>(r, s7).
                    if r < 0 then bindE (on_fs (iunlockput dp) s7) (link_bad ip)
                    else bindE (on_fs (iunlockput dp) s7) (\<lambda>s8.
                         bindE (on_fs (iput ip) s8) (op_end_ret 0)))))))))
      | _ \<Rightarrow> Inr (-1, s))"

fun dirempty_loop :: "iptr \<Rightarrow> u32 list \<Rightarrow> 'd fs \<Rightarrow> (bool \<times> 'd fs) result" where
  "dirempty_loop dp [] t = Inr (True, t)"
| "dirempty_loop dp (off # offs) t =
     bindE (readi dp off 16 t) (\<lambda>(r, de, t1).
     if r \<noteq> 16 then Inl (Panic ''isdirempty: readi'')
     else if de_inum de \<noteq> 0 then Inr (False, t1)
     else dirempty_loop dp offs t1)"

definition isdirempty :: "iptr \<Rightarrow> 'd fs \<Rightarrow> (bool \<times> 'd fs) result" where
  "isdirempty dp t = dirempty_loop dp (drop 2 (dir_offsets (i_size (ino t dp)))) t"

definition unlink_bad :: "iptr \<Rightarrow> 'd kern \<Rightarrow> (int \<times> 'd kern) result" where
  "unlink_bad dp s = bindE (on_fs (iunlockput dp) s) (op_end_ret (-1))"

text \<open>The part of \<^verbatim>\<open>sys_unlink\<close> that removes the entry at \<open>off\<close> of \<open>dp\<close>, both inodes being locked.\<close>

definition unlink_entry :: "iptr \<Rightarrow> iptr \<Rightarrow> u32 \<Rightarrow> 'd fs \<Rightarrow> 'd fs result" where
  "unlink_entry dp ip off t =
     bindE (writei dp (replicate 16 0) off t) (\<lambda>(r, t1).
     if r \<noteq> 16 then Inl (Panic ''unlink: writei'')
     else
       bindE (if i_type (ino t1 ip) = T_DIR
              then iupdate dp (upd_ino dp (\<lambda>i. i\<lparr>i_nlink := i_nlink i - 1\<rparr>) t1) else Inr t1) (\<lambda>t2.
       bindE (iunlockput dp t2) (\<lambda>t3.
       bindE (iupdate ip (upd_ino ip (\<lambda>i. i\<lparr>i_nlink := i_nlink i - 1\<rparr>) t3)) (iunlockput ip))))"

definition sys_unlink :: "'d kern \<Rightarrow> (int \<times> 'd kern) result" where
  "sys_unlink s =
     (case argstr 0 s of
        None \<Rightarrow> Inr (-1, s)
      | Some (_, path) \<Rightarrow>
          bindE (op_begin s) (\<lambda>s1.
          bindE (knameiparent path s1) (\<lambda>(r, s2).
          case r of
            None \<Rightarrow> op_end_ret (-1) s2
          | Some (dp, name) \<Rightarrow>
              bindE (on_fs (ilock dp) s2) (\<lambda>s3.
              if namecmp name (str ''.'') = 0 \<or> namecmp name (str ''..'') = 0 then unlink_bad dp s3
              else
                bindE (dirlookup dp name (fsys s3)) (\<lambda>(r, t).
                let s4 = s3\<lparr>fsys := t\<rparr> in
                case r of
                  None \<Rightarrow> unlink_bad dp s4
                | Some (ip, off) \<Rightarrow>
                    bindE (on_fs (ilock ip) s4) (\<lambda>s5.
                    if sint (i_nlink (ino (fsys s5) ip)) < 1 then Inl (Panic ''unlink: nlink < 1'')
                    else
                      bindE (if i_type (ino (fsys s5) ip) = T_DIR
                             then bindE (isdirempty ip (fsys s5)) (\<lambda>(e, t). Inr (e, s5\<lparr>fsys := t\<rparr>))
                             else Inr (True, s5)) (\<lambda>(ok, s6).
                      if \<not> ok then bindE (on_fs (iunlockput ip) s6) (unlink_bad dp)
                      else bindE (on_fs (unlink_entry dp ip off) s6) (op_end_ret 0))))))))"

text \<open>The part of \<^verbatim>\<open>create\<close> for a name that is not in the directory \<open>dp\<close> yet, which is locked.\<close>

definition create_new :: "iptr \<Rightarrow> cstr \<Rightarrow> u16 \<Rightarrow> u16 \<Rightarrow> u16 \<Rightarrow> 'd fs \<Rightarrow> (iptr \<times> 'd fs) result" where
  "create_new dp name type major minor t =
     bindE (ialloc (i_dev (ino t dp)) type t) (\<lambda>(ip, t1).
     bindE (ilock ip t1) (\<lambda>t2.
     bindE (iupdate ip (upd_ino ip (\<lambda>i. i\<lparr>i_major := major, i_minor := minor, i_nlink := 1\<rparr>) t2)) (\<lambda>t3.
     bindE (if type = T_DIR then
              bindE (iupdate dp (upd_ino dp (\<lambda>i. i\<lparr>i_nlink := i_nlink i + 1\<rparr>) t3)) (\<lambda>t4.
              bindE (dirlink ip (str ''.'') (i_inum (ino t4 ip)) t4) (\<lambda>(r, t5).
              if r < 0 then Inl (Panic ''create dots'')
              else
                bindE (dirlink ip (str ''..'') (i_inum (ino t5 dp)) t5) (\<lambda>(r, t6).
                if r < 0 then Inl (Panic ''create dots'') else Inr t6)))
            else Inr t3) (\<lambda>t7.
     bindE (dirlink dp name (i_inum (ino t7 ip)) t7) (\<lambda>(r, t8).
     if r < 0 then Inl (Panic ''create: dirlink'')
     else bindE (iunlockput dp t8) (\<lambda>t9. Inr (ip, t9)))))))"

definition create :: "cstr \<Rightarrow> u16 \<Rightarrow> u16 \<Rightarrow> u16 \<Rightarrow> 'd kern \<Rightarrow> (iptr option \<times> 'd kern) result" where
  "create path type major minor s =
     bindE (knameiparent path s) (\<lambda>(r, s1).
     case r of
       None \<Rightarrow> Inr (None, s1)
     | Some (dp, name) \<Rightarrow>
         bindE (on_fs (ilock dp) s1) (\<lambda>s2.
         bindE (dirlookup dp name (fsys s2)) (\<lambda>(r, t).
         case r of
           Some (ip, _) \<Rightarrow>
             bindE (iunlockput dp t) (\<lambda>t1.
             bindE (ilock ip t1) (\<lambda>t2.
             if type = T_FILE \<and> i_type (ino t2 ip) = T_FILE then Inr (Some ip, s2\<lparr>fsys := t2\<rparr>)
             else bindE (iunlockput ip t2) (\<lambda>t3. Inr (None, s2\<lparr>fsys := t3\<rparr>))))
         | None \<Rightarrow>
             bindE (create_new dp name type major minor t) (\<lambda>(ip, t1). Inr (Some ip, s2\<lparr>fsys := t1\<rparr>)))))"

section \<open>Opening files\<close>

abbreviation (input) O_WRONLY :: u32 where
  "O_WRONLY \<equiv> 1"

abbreviation (input) O_RDWR :: u32 where
  "O_RDWR \<equiv> 2"

abbreviation (input) O_CREATE :: u32 where
  "O_CREATE \<equiv> 0x200"

text \<open>
  The common body of \<^verbatim>\<open>sys_open\<close> and \<^verbatim>\<open>sys_caching_open\<close>: the descriptor and the file, or \<open>None\<close> after a
  failure, whose return value is \<open>-1\<close>.
\<close>

definition open_inode :: "cstr \<Rightarrow> u32 \<Rightarrow> 'd kern \<Rightarrow> (iptr option \<times> 'd kern) result" where
  "open_inode path omode s =
     (if omode AND O_CREATE \<noteq> 0 then
        bindE (create path T_FILE 0 0 s) (\<lambda>(r, s1).
        case r of
          None \<Rightarrow> bindE (op_end s1) (\<lambda>s2. Inr (None, s2))
        | Some ip \<Rightarrow> Inr (Some ip, s1))
      else
        bindE (knamei path s) (\<lambda>(r, s1).
        case r of
          None \<Rightarrow> bindE (op_end s1) (\<lambda>s2. Inr (None, s2))
        | Some ip \<Rightarrow>
            bindE (on_fs (ilock ip) s1) (\<lambda>s2.
            if i_type (ino (fsys s2) ip) = T_DIR \<and> omode \<noteq> 0
            then bindE (on_fs (iunlockput ip) s2) (\<lambda>s3. bindE (op_end s3) (\<lambda>s4. Inr (None, s4)))
            else Inr (Some ip, s2))))"

definition open_file :: "cstr \<Rightarrow> u32 \<Rightarrow> 'd kern \<Rightarrow> ((int \<times> fptr) option \<times> 'd kern) result" where
  "open_file path omode s =
     bindE (op_begin s) (\<lambda>s0.
     bindE (open_inode path omode s0) (\<lambda>(r, s1).
     case r of
       None \<Rightarrow> Inr (None, s1)
     | Some ip \<Rightarrow>
         let (fo, s2) = filealloc s1;
             (fd, s3) = (case fo of None \<Rightarrow> (-1, s2) | Some f \<Rightarrow> fdalloc f s2)
         in
         (case fo of
            Some f \<Rightarrow>
              if fd < 0 then
                bindE (fileclose f s3) (\<lambda>s4.
                bindE (on_fs (iunlockput ip) s4) (\<lambda>s5. bindE (op_end s5) (\<lambda>s6. Inr (None, s6))))
              else
                bindE (on_fs (iunlock ip) s3) (\<lambda>s4.
                bindE (op_end s4) (\<lambda>s5.
                Inr (Some (fd, f),
                     upd_file f (\<lambda>x. x\<lparr>f_type := FD_INODE, f_ip := ip, f_off := 0,
                       f_readable := (omode AND O_WRONLY = 0),
                       f_writable := (omode AND O_WRONLY \<noteq> 0 \<or> omode AND O_RDWR \<noteq> 0)\<rparr>) s5)))
          | None \<Rightarrow>
              bindE (on_fs (iunlockput ip) s3) (\<lambda>s4. bindE (op_end s4) (\<lambda>s5. Inr (None, s5))))))"

definition sys_open :: "'d kern \<Rightarrow> (int \<times> 'd kern) result" where
  "sys_open s =
     (case (argstr 0 s, argint 1 s) of
        (Some (_, path), Some omode) \<Rightarrow>
          bindE (open_file path (word_of_int omode) s) (\<lambda>(r, s1).
          Inr (case r of None \<Rightarrow> -1 | Some (fd, _) \<Rightarrow> fd, s1))
      | _ \<Rightarrow> Inr (-1, s))"

definition sys_caching_open :: "'d kern \<Rightarrow> (int \<times> 'd kern) result" where
  "sys_caching_open s =
     (case (argstr 0 s, argint 1 s) of
        (Some (p, path), Some omode) \<Rightarrow>
          bindE (open_file path (word_of_int omode) s) (\<lambda>(r, s1).
          case r of
            None \<Rightarrow> Inr (-1, s1)
          | Some (fd, f) \<Rightarrow>
              bindE (already_exist_namefd f p fd s1) (\<lambda>(e, s2).
              if e = -1 then bindE (set_namefd f p fd s2) (\<lambda>s3. Inr (fd, s3)) else Inr (fd, s2)))
      | _ \<Rightarrow> Inr (-1, s))"

text \<open>\<^verbatim>\<open>iunlockput(ip); end_op(\<dots>); return 0\<close> or, without an inode, \<^verbatim>\<open>end_op(\<dots>); return -1\<close>\<close>

definition made :: "iptr option \<Rightarrow> 'd kern \<Rightarrow> (int \<times> 'd kern) result" where
  "made r s =
     (case r of
        None \<Rightarrow> op_end_ret (-1) s
      | Some ip \<Rightarrow> bindE (on_fs (iunlockput ip) s) (op_end_ret 0))"

definition sys_mkdir :: "'d kern \<Rightarrow> (int \<times> 'd kern) result" where
  "sys_mkdir s =
     bindE (op_begin s) (\<lambda>s1.
     case argstr 0 s1 of
       None \<Rightarrow> op_end_ret (-1) s1
     | Some (_, path) \<Rightarrow> bindE (create path T_DIR 0 0 s1) (\<lambda>(r, s2). made r s2))"

definition sys_mknod :: "'d kern \<Rightarrow> (int \<times> 'd kern) result" where
  "sys_mknod s =
     bindE (op_begin s) (\<lambda>s1.
     case (argstr 0 s1, argint 1 s1, argint 2 s1) of
       (Some (_, path), Some major, Some minor) \<Rightarrow>
         bindE (create path T_DEV (word_of_int major) (word_of_int minor) s1) (\<lambda>(r, s2). made r s2)
     | _ \<Rightarrow> op_end_ret (-1) s1)"

definition sys_chdir :: "'d kern \<Rightarrow> (int \<times> 'd kern) result" where
  "sys_chdir s =
     bindE (op_begin s) (\<lambda>s1.
     case argstr 0 s1 of
       None \<Rightarrow> op_end_ret (-1) s1
     | Some (_, path) \<Rightarrow>
         bindE (knamei path s1) (\<lambda>(r, s2).
         case r of
           None \<Rightarrow> op_end_ret (-1) s2
         | Some ip \<Rightarrow>
             bindE (on_fs (ilock ip) s2) (\<lambda>s3.
             if i_type (ino (fsys s3) ip) \<noteq> T_DIR
             then bindE (on_fs (iunlockput ip) s3) (op_end_ret (-1))
             else
               bindE (on_fs (iunlock ip) s3) (\<lambda>s4.
               case cwd s4 of
                 None \<Rightarrow> Inl Wild
               | Some c \<Rightarrow>
                   bindE (on_fs (iput c) s4) (\<lambda>s5.
                   bindE (op_end s5) (\<lambda>s6. Inr (0, s6\<lparr>cwd := Some ip\<rparr>)))))))"

text \<open>\<^verbatim>\<open>sys_cd\<close> keeps neither the reference of the old directory nor the old directory when there is no new one.\<close>

definition sys_cd :: "'d kern \<Rightarrow> (int \<times> 'd kern) result" where
  "sys_cd s =
     (case argstr 0 s of
        None \<Rightarrow> Inr (-1, s)
      | Some (_, path) \<Rightarrow> bindE (knamei path s) (\<lambda>(r, s1). Inr (0, s1\<lparr>cwd := r\<rparr>)))"

text \<open>The arguments that \<^verbatim>\<open>sys_exec\<close> passes on, or \<open>None\<close> for the return value \<open>-1\<close>.\<close>

fun exec_args :: "nat list \<Rightarrow> u32 \<Rightarrow> 'd kern \<Rightarrow> cstr list option" where
  "exec_args [] uargv s = None"
| "exec_args (i # is) uargv s =
     (case fetchint (uargv + of_nat (4 * i)) s of
        None \<Rightarrow> None
      | Some uarg \<Rightarrow>
          if uarg = 0 then Some []
          else (case fetchstr uarg s of
                  None \<Rightarrow> None
                | Some a \<Rightarrow> map_option ((#) a) (exec_args is uargv s)))"

abbreviation (input) MAXARG :: nat where
  "MAXARG \<equiv> 32"

definition sys_exec_args :: "'d kern \<Rightarrow> (cstr \<times> cstr list) option" where
  "sys_exec_args s =
     (case (argstr 0 s, argint 1 s) of
        (Some (_, path), Some uargv) \<Rightarrow> map_option (Pair path) (exec_args [0..<MAXARG] (word_of_int uargv) s)
      | _ \<Rightarrow> None)"

section \<open>Reading and writing through the page cache\<close>

definition arg_caching :: "'d kern \<Rightarrow> (int \<times> fptr \<times> u32 \<times> int \<times> int) option" where
  "arg_caching s =
     (case (arg_fpn s, argint 3 s) of
        (Some (fd, f, p, n), Some tmpfoff) \<Rightarrow> Some (fd, f, p, n, tmpfoff)
      | _ \<Rightarrow> None)"

text \<open>\<^verbatim>\<open>if(check_cache(f,i) != 1) cache_fault_handler(f,tmpfoff,n,fd,\<dots>);\<close>\<close>

definition ensure_cached :: "fptr \<Rightarrow> int \<Rightarrow> int \<Rightarrow> int \<Rightarrow> 'd kern \<Rightarrow> 'd kern result" where
  "ensure_cached f fd i tmpfoff s =
     (if i < 0 then Inl Wild
      else
        bindE (check_cache f (nat i) s) (\<lambda>(r, s1).
        if r \<noteq> 1 then cache_fault_handler f tmpfoff fd s1 else Inr s1))"

text \<open>
  The part of the page that one turn of the loop copies: the offset in the page and the number of bytes.
  \<open>copied\<close> is \<^verbatim>\<open>cur - p\<close>.
\<close>

definition turn_span :: "int \<Rightarrow> int \<Rightarrow> int \<Rightarrow> int \<Rightarrow> int \<Rightarrow> int \<Rightarrow> int \<times> int" where
  "turn_span i firstpg lastpg n tmpfoff copied =
     (if i = firstpg then
        (crem tmpfoff PGSIZE,
         if cdiv tmpfoff PGSIZE \<noteq> cdiv (n + tmpfoff - 1) PGSIZE then PGSIZE - crem tmpfoff PGSIZE else n)
      else if i = lastpg then (0, n - copied)
      else (0, PGSIZE))"

text \<open>A turn of \<^verbatim>\<open>sys_caching_read\<close> and of \<^verbatim>\<open>sys_caching_write\<close>; the state carries \<^verbatim>\<open>tmpfoff\<close> and \<open>copied\<close>.\<close>

definition end_turn :: "fptr \<Rightarrow> int \<Rightarrow> int \<Rightarrow> int \<Rightarrow> int \<Rightarrow> 'd kern \<Rightarrow> 'd kern" where
  "end_turn f i firstpg lastpg off s =
     (if i \<noteq> firstpg \<and> i = lastpg then upd_file f (\<lambda>x. x\<lparr>f_off := word_of_int off\<rparr>) s else s)"

definition read_turn :: "fptr \<Rightarrow> int \<Rightarrow> u32 \<Rightarrow> int \<Rightarrow> int \<Rightarrow> int \<Rightarrow> int \<Rightarrow> int \<times> int \<times> 'd kern \<Rightarrow>
  (int \<times> int \<times> 'd kern) result" where
  "read_turn f fd p n firstpg lastpg i = (\<lambda>(tmpfoff, copied, s).
     bindE (ensure_cached f fd i tmpfoff s) (\<lambda>s1.
     bindE (cached_at tmpfoff s1) (\<lambda>ci.
     let (o1, len) = turn_span i firstpg lastpg n tmpfoff copied in
     if o1 < 0 \<or> len < 0 \<or> o1 + len > PGSIZE then Inl Wild
     else
       let bs = take (nat len) (drop (nat o1) (c_page (CACHE s1 ! ci)));
           s2 = s1\<lparr>umem := store_bytes (umem s1) (p + word_of_int copied) bs\<rparr>
       in Inr (tmpfoff + len, copied + len, end_turn f i firstpg lastpg (tmpfoff + len) s2))))"

definition write_turn :: "fptr \<Rightarrow> int \<Rightarrow> u32 \<Rightarrow> int \<Rightarrow> int \<Rightarrow> int \<Rightarrow> int \<Rightarrow> int \<times> int \<times> 'd kern \<Rightarrow>
  (int \<times> int \<times> 'd kern) result" where
  "write_turn f fd p n firstpg lastpg i = (\<lambda>(tmpfoff, copied, s).
     bindE (ensure_cached f fd i tmpfoff s) (\<lambda>s1.
     bindE (cached_at tmpfoff s1) (\<lambda>ci.
     let (o1, len) = turn_span i firstpg lastpg n tmpfoff copied in
     if o1 < 0 \<or> len < 0 \<or> o1 + len > PGSIZE then Inl Wild
     else
       let bs = page_bytes (umem s1) (p + word_of_int copied) (nat len);
           s2 = upd_cache ci (\<lambda>c. c\<lparr>c_page := splice (c_page c) (nat o1) bs, c_dirty := cachevalid\<rparr>) s1
       in Inr (tmpfoff + len, copied + len, end_turn f i firstpg lastpg (tmpfoff + len) s2))))"

definition caching_loop :: "(int \<Rightarrow> int \<Rightarrow> int \<Rightarrow> int \<times> int \<times> 'd kern \<Rightarrow> (int \<times> int \<times> 'd kern) result) \<Rightarrow>
  int \<Rightarrow> int \<Rightarrow> 'd kern \<Rightarrow> (int \<times> 'd kern) result" where
  "caching_loop turn n tmpfoff s =
     (let firstpg = cdiv tmpfoff PGSIZE; lastpg = cdiv (tmpfoff + n - 1) PGSIZE in
      bindE (foldE (turn firstpg lastpg) [firstpg..lastpg] (tmpfoff, 0, s)) (\<lambda>(_, total, s1). Inr (total, s1)))"

definition sys_caching_read :: "'d kern \<Rightarrow> (int \<times> 'd kern) result" where
  "sys_caching_read s =
     (case arg_caching s of
        None \<Rightarrow> Inr (-1, s)
      | Some (fd, f, p, n, tmpfoff) \<Rightarrow> caching_loop (read_turn f fd p n) n tmpfoff s)"

definition sys_caching_write :: "'d kern \<Rightarrow> (int \<times> 'd kern) result" where
  "sys_caching_write s =
     (case arg_caching s of
        None \<Rightarrow> Inr (-1, s)
      | Some (fd, f, p, n, tmpfoff) \<Rightarrow> caching_loop (write_turn f fd p n) n tmpfoff s)"

definition sys_caching_close :: "'d kern \<Rightarrow> (int \<times> 'd kern) result" where
  "sys_caching_close s =
     (case argfd 0 s of
        None \<Rightarrow> Inr (-1, s)
      | Some (fd, f) \<Rightarrow>
          bindE (write_direct (Some f) fd 0 True s) (\<lambda>s1.
          bindE (fileclose f (s1\<lparr>ofile := (ofile s1)[nat fd := None]\<rparr>)) (\<lambda>s2.
          Inr (0, close_namefd fd s2))))"

end
