(* ===== verification/File_Props.thy ===== *)
theory File_Props
  imports Sysfile
begin

text \<open>
  Correctness of the file layer: reference counts of the file table under every sequence of file system
  calls, the bounds of system call arguments, the clock of the page cache, and the fault in the
  insertion into its hash table.
\<close>

section \<open>References to open files\<close>

text \<open>
  \<open>refs e X os fs\<close>: every descriptor in \<open>os\<close> names an entry of the file table \<open>fs\<close>; the count of an entry is the
  number of descriptors that name it plus \<open>e\<close>, the references held elsewhere (by other processes, or by a
  system call under way); an entry is free exactly if it has no type, except for the entries \<open>X\<close> that a
  system call has allocated and not yet set up.
\<close>

definition refs :: "(fptr \<Rightarrow> int) \<Rightarrow> fptr set \<Rightarrow> fptr option list \<Rightarrow> sfile list \<Rightarrow> bool" where
  "refs e X os fs \<longleftrightarrow>
     length os = NOFILE \<and> length fs = NFILE \<and> (\<forall>f. Some f \<in> set os \<longrightarrow> f < NFILE) \<and>
     (\<forall>f < NFILE. f_ref (fs ! f) = int (count_list os (Some f)) + e f \<and>
        (f_ref (fs ! f) = 0 \<longrightarrow> f_type (fs ! f) = FD_NONE) \<and>
        (f \<notin> X \<longrightarrow> f_type (fs ! f) = FD_NONE \<longrightarrow> f_ref (fs ! f) = 0))"

text \<open>The part of the state that the counts depend on.\<close>

definition fdview :: "'d kern \<Rightarrow> fptr option list \<times> (int \<times> ftype) list" where
  "fdview s = (ofile s, map (\<lambda>x. (f_ref x, f_type x)) (ftable s))"

definition krefs :: "(fptr \<Rightarrow> int) \<Rightarrow> fptr set \<Rightarrow> 'd kern \<Rightarrow> bool" where
  "krefs e X s \<longleftrightarrow> refs e X (ofile s) (ftable s)"

lemma fdview_nth:
  assumes "fdview s' = fdview s" and "f < length (ftable s)"
  shows "f_ref (ftable s' ! f) = f_ref (ftable s ! f)" "f_type (ftable s' ! f) = f_type (ftable s ! f)"
proof -
  have m: "map (\<lambda>x. (f_ref x, f_type x)) (ftable s') = map (\<lambda>x. (f_ref x, f_type x)) (ftable s)"
    using assms(1) by (simp add: fdview_def)
  then have "length (ftable s') = length (ftable s)" by (rule map_eq_imp_length_eq)
  with m assms(2) have "(f_ref (ftable s' ! f), f_type (ftable s' ! f)) = (f_ref (ftable s ! f), f_type (ftable s ! f))"
    by (metis (no_types, lifting) nth_map)
  then show "f_ref (ftable s' ! f) = f_ref (ftable s ! f)" "f_type (ftable s' ! f) = f_type (ftable s ! f)"
    by simp_all
qed

lemma krefs_view:
  assumes "fdview s' = fdview s" and "krefs e X s"
  shows "krefs e X s'"
proof -
  have l: "length (ftable s') = length (ftable s)" and o1: "ofile s' = ofile s"
    using assms(1) by (auto simp: fdview_def dest: map_eq_imp_length_eq)
  show ?thesis
    using assms(2) l o1 fdview_nth [OF assms(1)] unfolding krefs_def refs_def by auto
qed

section \<open>What leaves the counts alone\<close>

lemma on_fs_eq [simp]: "on_fs g s = Inr s' \<longleftrightarrow> (\<exists>t. g (fsys s) = Inr t \<and> s' = s\<lparr>fsys := t\<rparr>)"
  by (auto simp: on_fs_def)

lemma fdview_simps [simp]:
  "fdview (s\<lparr>fsys := t\<rparr>) = fdview s" "fdview (s\<lparr>pipemem := pm\<rparr>) = fdview s" "fdview (s\<lparr>km := k\<rparr>) = fdview s"
  "fdview (s\<lparr>umem := m\<rparr>) = fdview s" "fdview (s\<lparr>cwd := c\<rparr>) = fdview s" "fdview (s\<lparr>NAMEFD := nfd\<rparr>) = fdview s"
  "fdview (s\<lparr>CACHE := ca\<rparr>) = fdview s" "fdview (s\<lparr>CACHE_META := cm\<rparr>) = fdview s" "fdview (s\<lparr>slb := b\<rparr>) = fdview s"
  "fdview (s\<lparr>check_cache_hash := ch\<rparr>) = fdview s" "fdview (s\<lparr>cch_mem := cmm\<rparr>) = fdview s"
  "fdview (s\<lparr>cache_meta_idx := ci\<rparr>) = fdview s" "fdview (s\<lparr>cachedpg_num := cn\<rparr>) = fdview s"
  "fdview (s\<lparr>clock_axis := ax\<rparr>) = fdview s" "fdview (s\<lparr>fifo_cnt := fc\<rparr>) = fdview s"
  "fdview (s\<lparr>time := tm\<rparr>) = fdview s" "fdview (s\<lparr>totalorder := tot\<rparr>) = fdview s"
  "fdview (s\<lparr>cachehit := hit\<rparr>) = fdview s" "fdview (s\<lparr>tf_esp := sp\<rparr>) = fdview s"
  by (simp_all add: fdview_def)

lemma fdview_off [simp]: "fdview (upd_file f (\<lambda>x. x\<lparr>f_off := g x\<rparr>) s) = fdview s"
proof (cases "f < length (ftable s)")
  case True
  then show ?thesis
    by (simp add: fdview_def upd_file_def map_update)
      (metis (no_types, lifting) list_update_id map_update nth_map)
next
  case False
  then show ?thesis by (simp add: fdview_def upd_file_def list_update_beyond)
qed

lemma fdview_tables [simp]:
  "fdview (upd_namefd i g s) = fdview s" "fdview (upd_cache j c s) = fdview s" "fdview (upd_meta k m s) = fdview s"
  "fdview (set_my_meta v s) = fdview s" "fdview (set_hnext h t w s) = fdview s" "fdview (setfds f i fd s) = fdview s"
  "fdview (clear_victim_cache j s) = fdview s" "fdview (close_namefd fd s) = fdview s"
  by (simp_all add: upd_namefd_def upd_cache_def upd_meta_def set_my_meta_def set_hnext_def setfds_def
      clear_victim_cache_def close_namefd_def Let_def split: option.splits prod.splits)

text \<open>
  \<open>keeps m s\<close> and \<open>keepsr m s\<close>: if \<open>m\<close> returns a state, alone or as the last component of its answer, the counts
  depend on it as they do on \<open>s\<close>.  The rules follow the structure of the calls.
\<close>

definition keeps :: "'d kern \<Rightarrow> 'd kern result \<Rightarrow> bool" where
  "keeps s m \<longleftrightarrow> (\<forall>s'. m = Inr s' \<longrightarrow> fdview s' = fdview s)"

definition keepsr :: "'d kern \<Rightarrow> ('a \<times> 'd kern) result \<Rightarrow> bool" where
  "keepsr s m \<longleftrightarrow> (\<forall>r s'. m = Inr (r, s') \<longrightarrow> fdview s' = fdview s)"

named_theorems fdkeep

lemma keeps_Inl [fdkeep]: "keeps s (Inl e)" "keepsr s (Inl e)"
  by (simp_all add: keeps_def keepsr_def)

lemma keeps_Inr [fdkeep]: "fdview s' = fdview s \<Longrightarrow> keeps s (Inr s')" "fdview s' = fdview s \<Longrightarrow> keepsr s (Inr (r, s'))"
  by (simp_all add: keeps_def keepsr_def)

lemma keeps_bind:
  "keeps s m \<Longrightarrow> (\<And>s1. fdview s1 = fdview s \<Longrightarrow> keeps s1 (f s1)) \<Longrightarrow> keeps s (bindE m f)"
  "keeps s m \<Longrightarrow> (\<And>s1. fdview s1 = fdview s \<Longrightarrow> keepsr s1 (g s1)) \<Longrightarrow> keepsr s (bindE m g)"
  unfolding keeps_def keepsr_def by (metis bindE_eq_Inr)+

lemma keepsr_bind:
  "keepsr s m \<Longrightarrow> (\<And>r s1. fdview s1 = fdview s \<Longrightarrow> keeps s1 (f (r, s1))) \<Longrightarrow> keeps s (bindE m f)"
  "keepsr s m \<Longrightarrow> (\<And>r s1. fdview s1 = fdview s \<Longrightarrow> keepsr s1 (g (r, s1))) \<Longrightarrow> keepsr s (bindE m g)"
proof -
  assume m: "keepsr s m"
  consider e where "m = Inl e" | r s1 where "m = Inr (r, s1)" by (cases m) auto
  note cases = this
  have v: "fdview s1 = fdview s" if "m = Inr (r, s1)" for r s1
    using m that by (simp add: keepsr_def)
  show "keeps s (bindE m f)" if f: "\<And>r s1. fdview s1 = fdview s \<Longrightarrow> keeps s1 (f (r, s1))"
  proof (cases rule: cases)
    case (2 r s1)
    then show ?thesis using f [OF v [OF 2], of r] v [OF 2] by (simp add: keeps_def)
  qed (simp add: keeps_def)
  show "keepsr s (bindE m g)" if g: "\<And>r s1. fdview s1 = fdview s \<Longrightarrow> keepsr s1 (g (r, s1))"
  proof (cases rule: cases)
    case (2 r s1)
    then show ?thesis using g [OF v [OF 2], of r] v [OF 2] by (simp add: keepsr_def)
  qed (simp add: keepsr_def)
qed

text \<open>A computation that answers without a state leaves the state alone.\<close>

lemma keeps_pure:
  "(\<And>x. keeps s (f x)) \<Longrightarrow> keeps s (bindE m f)" "(\<And>x. keepsr s (g x)) \<Longrightarrow> keepsr s (bindE m g)"
  by (auto simp: keeps_def keepsr_def)

lemma keeps_if [fdkeep]:
  "(b \<Longrightarrow> keeps s m) \<Longrightarrow> (\<not> b \<Longrightarrow> keeps s n) \<Longrightarrow> keeps s (if b then m else n)"
  "(b \<Longrightarrow> keepsr s p) \<Longrightarrow> (\<not> b \<Longrightarrow> keepsr s q) \<Longrightarrow> keepsr s (if b then p else q)"
  by auto

lemma keeps_option [fdkeep]:
  "(x = None \<Longrightarrow> keeps s m) \<Longrightarrow> (\<And>y. x = Some y \<Longrightarrow> keeps s (f y)) \<Longrightarrow> keeps s (case x of None \<Rightarrow> m | Some y \<Rightarrow> f y)"
  "(x = None \<Longrightarrow> keepsr s n) \<Longrightarrow> (\<And>y. x = Some y \<Longrightarrow> keepsr s (g y)) \<Longrightarrow> keepsr s (case x of None \<Rightarrow> n | Some y \<Rightarrow> g y)"
  by (auto split: option.splits)

lemma keeps_let [fdkeep]: "keeps s (f x) \<Longrightarrow> keeps s (Let x f)" "keepsr s (g x) \<Longrightarrow> keepsr s (Let x g)"
  by simp_all

lemma keeps_prod [fdkeep]:
  "(\<And>y z. x = (y, z) \<Longrightarrow> keeps s (f y z)) \<Longrightarrow> keeps s (case x of (y, z) \<Rightarrow> f y z)"
  "(\<And>y z. x = (y, z) \<Longrightarrow> keepsr s (g y z)) \<Longrightarrow> keepsr s (case x of (y, z) \<Rightarrow> g y z)"
  by (auto split: prod.splits)

lemma keeps_on_fs [fdkeep]: "fdview s1 = fdview s \<Longrightarrow> keeps s (on_fs g s1)"
  by (auto simp: keeps_def)

lemma fdkeep_trans: "fdview s1 = fdview s \<Longrightarrow> keeps s1 m \<Longrightarrow> keeps s m" "fdview s1 = fdview s \<Longrightarrow> keepsr s1 n \<Longrightarrow> keepsr s n"
  by (auto simp: keeps_def keepsr_def)

lemmas fdbind = keeps_bind keepsr_bind keeps_pure

section \<open>The calls that leave the counts alone\<close>

lemma fileread_keeps: "keepsr s (bindE (fileread f n s) (\<lambda>(r, bs, s'). Inr (h r bs, s'\<lparr>umem := k r bs s'\<rparr>)))"
  by (auto simp: keepsr_def fileread_def kpiperead_def Let_def split: if_splits prod.splits)

lemma pageCacheFileRead_keeps: "pageCacheFileRead f n off s = Inr (r, bs, s') \<Longrightarrow> fdview s' = fdview s"
  by (auto simp: pageCacheFileRead_def kpiperead_def Let_def split: if_splits prod.splits)

lemma PageCacheFileWrite_keeps [fdkeep]: "fdview s1 = fdview s \<Longrightarrow> keepsr s (PageCacheFileWrite f addr n off s1)"
  by (auto simp: keepsr_def PageCacheFileWrite_def kpipewrite_def Let_def split: if_splits prod.splits)

lemma filewrite_loop_view: "filewrite_loop f addr n i s = Inr (r, s') \<Longrightarrow> fdview s' = fdview s"
proof (induction f addr n i s rule: filewrite_loop.induct)
  case (1 f addr n i s)
  show ?case
  proof (cases "i < n")
    case True
    let ?n1 = "if n - i > 1536 then 1536 else n - i" and ?ff = "ftable s ! f"
    from 1(2) True obtain q t where w: "write_chunk (f_ip ?ff) addr i ?n1 (f_off ?ff) (fsys s) = Inr (q, t)"
      by (subst (asm) filewrite_loop.simps) (auto simp: Let_def)
    define s2 where "s2 = (if q > 0 then upd_file f (\<lambda>x. x\<lparr>f_off := f_off x + word_of_int q\<rparr>) (s\<lparr>fsys := t\<rparr>)
      else s\<lparr>fsys := t\<rparr>)"
    have v: "fdview s2 = fdview s" by (simp add: s2_def)
    have "s' = s2 \<or> \<not> q < 0 \<and> \<not> q \<noteq> ?n1 \<and> filewrite_loop f addr n (i + q) s2 = Inr (r, s')"
      using 1(2) True w unfolding filewrite_loop.simps [of f addr n i s]
      by (auto simp: Let_def s2_def split: if_split_asm)
    then show ?thesis
      using v 1(1) [OF True HOL.refl HOL.refl HOL.refl s2_def] by auto
  next
    case False
    with 1(2) show ?thesis by (subst (asm) filewrite_loop.simps) simp
  qed
qed

lemma filewrite_keeps [fdkeep]: "fdview s1 = fdview s \<Longrightarrow> keepsr s (filewrite f addr n s1)"
  by (auto simp: keepsr_def filewrite_def kpipewrite_def Let_def split: if_splits prod.splits dest: filewrite_loop_view)

lemma knamei_keeps [fdkeep]:
  "fdview s1 = fdview s \<Longrightarrow> keepsr s (knamei path s1)" "fdview s1 = fdview s \<Longrightarrow> keepsr s (knameiparent path s1)"
  by (auto simp: keepsr_def knamei_def knameiparent_def split: option.splits if_splits prod.splits)

lemma op_keeps [fdkeep]:
  "fdview s1 = fdview s \<Longrightarrow> keeps s (op_begin s1)" "fdview s1 = fdview s \<Longrightarrow> keeps s (op_end s1)"
  "fdview s1 = fdview s \<Longrightarrow> keepsr s (op_end_ret c s1)"
  by (auto simp: keeps_def keepsr_def op_begin_def op_end_def op_end_ret_def split: option.splits)

lemma create_keeps [fdkeep]: "fdview s1 = fdview s \<Longrightarrow> keepsr s (create path type major minor s1)"
  by (rule fdkeep_trans(2), assumption, unfold create_def) (rule fdkeep fdbind HOL.refl | simp)+

lemma open_inode_keeps [fdkeep]: "fdview s1 = fdview s \<Longrightarrow> keepsr s (open_inode path omode s1)"
  by (rule fdkeep_trans(2), assumption, unfold open_inode_def) (rule fdkeep fdbind HOL.refl | simp)+

lemma link_bad_keeps [fdkeep]: "fdview s1 = fdview s \<Longrightarrow> keepsr s (link_bad ip s1)"
  by (rule fdkeep_trans(2), assumption, unfold link_bad_def) (rule fdkeep fdbind HOL.refl | simp)+

lemma unlink_bad_keeps [fdkeep]: "fdview s1 = fdview s \<Longrightarrow> keepsr s (unlink_bad ip s1)"
  by (rule fdkeep_trans(2), assumption, unfold unlink_bad_def) (rule fdkeep fdbind HOL.refl | simp)+

lemma made_keeps [fdkeep]: "fdview s1 = fdview s \<Longrightarrow> keepsr s (made r s1)"
  by (rule fdkeep_trans(2), assumption, unfold made_def) (rule fdkeep fdbind HOL.refl | simp)+

lemma sys_link_keeps [fdkeep]: "fdview s1 = fdview s \<Longrightarrow> keepsr s (sys_link s1)"
  by (rule fdkeep_trans(2), assumption, unfold sys_link_def) (rule fdkeep fdbind HOL.refl | simp)+

lemma sys_unlink_keeps [fdkeep]: "fdview s1 = fdview s \<Longrightarrow> keepsr s (sys_unlink s1)"
  by (rule fdkeep_trans(2), assumption, unfold sys_unlink_def) (rule fdkeep fdbind HOL.refl | simp)+

lemma sys_mkdir_keeps [fdkeep]: "fdview s1 = fdview s \<Longrightarrow> keepsr s (sys_mkdir s1)"
  by (rule fdkeep_trans(2), assumption, unfold sys_mkdir_def) (rule fdkeep fdbind HOL.refl | simp)+

lemma sys_mknod_keeps [fdkeep]: "fdview s1 = fdview s \<Longrightarrow> keepsr s (sys_mknod s1)"
  by (rule fdkeep_trans(2), assumption, unfold sys_mknod_def) (rule fdkeep fdbind HOL.refl | simp)+

lemma sys_chdir_keeps [fdkeep]: "fdview s1 = fdview s \<Longrightarrow> keepsr s (sys_chdir s1)"
  by (rule fdkeep_trans(2), assumption, unfold sys_chdir_def) (rule fdkeep fdbind HOL.refl | simp)+

lemma sys_cd_keeps [fdkeep]: "fdview s1 = fdview s \<Longrightarrow> keepsr s (sys_cd s1)"
  by (rule fdkeep_trans(2), assumption, unfold sys_cd_def) (rule fdkeep fdbind HOL.refl | simp)+

lemma sys_write_keeps [fdkeep]: "fdview s1 = fdview s \<Longrightarrow> keepsr s (sys_write s1)"
  by (rule fdkeep_trans(2), assumption, unfold sys_write_def) (rule fdkeep fdbind HOL.refl | simp)+

lemma sys_fileoffset_keeps [fdkeep]: "fdview s1 = fdview s \<Longrightarrow> keepsr s (sys_fileoffset s1)"
  by (rule fdkeep_trans(2), assumption, unfold sys_fileoffset_def) (rule fdkeep fdbind HOL.refl | simp)+

lemma sys_read_keeps [fdkeep]: "fdview s1 = fdview s \<Longrightarrow> keepsr s (sys_read s1)"
  by (auto simp: keepsr_def sys_read_def fileread_def kpiperead_def Let_def split: option.splits if_splits prod.splits)

lemma sys_fstat_keeps [fdkeep]: "fdview s1 = fdview s \<Longrightarrow> keepsr s (sys_fstat s1)"
  by (auto simp: keepsr_def sys_fstat_def filestat_def Let_def split: option.splits if_splits prod.splits)

lemma dup_names_keeps [fdkeep]: "fdview s1 = fdview s \<Longrightarrow> keeps s (dup_names f fd is s1)"
proof (induction "is" arbitrary: s s1)
  case Nil
  then show ?case by (simp add: keeps_def)
next
  case (Cons i "is")
  show ?case
    by (rule fdkeep_trans(1), rule Cons.prems, simp only: dup_names.simps)
      (rule fdkeep fdbind Cons.IH HOL.refl | simp)+
qed

text \<open>The page cache.\<close>

lemma keeps_outcome [fdkeep]:
  "(\<And>r. keeps s (f r)) \<Longrightarrow> (\<And>c i. keeps s (g c i)) \<Longrightarrow> keeps s (case x of Ret r \<Rightarrow> f r | Sleep c i \<Rightarrow> g c i)"
  by (cases x) auto

lemma keeps_foldE [fdkeep]:
  "(\<And>i s1. keeps s1 (f i s1)) \<Longrightarrow> fdview s1 = fdview s \<Longrightarrow> keeps s (foldE f is s1)"
proof (induction "is" arbitrary: s s1)
  case Nil
  then show ?case by (simp add: keeps_def)
next
  case (Cons i "is")
  show ?case
    by (rule fdkeep_trans(1), rule Cons.prems(2), simp only: foldE.simps, rule keeps_bind(1), rule Cons.prems(1),
        rule Cons.IH, rule Cons.prems(1), rule HOL.refl)
qed

lemma pageCacheFileRead_bind [fdkeep]:
  "(\<And>r bs s2. fdview s2 = fdview s \<Longrightarrow> keeps s2 (f (r, bs, s2))) \<Longrightarrow> fdview s1 = fdview s \<Longrightarrow>
   keeps s (bindE (pageCacheFileRead g n off s1) f)"
proof -
  assume f: "\<And>r bs s2. fdview s2 = fdview s \<Longrightarrow> keeps s2 (f (r, bs, s2))" and v: "fdview s1 = fdview s"
  show ?thesis
  proof (cases "pageCacheFileRead g n off s1")
    case (Inr x)
    obtain r bs s2 where x: "x = (r, bs, s2)" by (cases x) auto
    have "fdview s2 = fdview s" using pageCacheFileRead_keeps [of g n off s1] Inr x v by simp
    then show ?thesis using f [of s2 r bs] Inr x by (simp add: keeps_def)
  qed (simp add: keeps_def)
qed

lemma delete_hash_loop_keeps [fdkeep]: "fdview s1 = fdview s \<Longrightarrow> keeps s (delete_hash_loop name h tmp seen s1)"
proof (induction name h tmp seen s1 rule: delete_hash_loop.induct)
  case (1 name h tmp seen s1)
  show ?case
    by (subst delete_hash_loop.simps) (rule fdkeep keeps_pure 1(1) HOL.refl | assumption | simp add: 1(2))+
qed

lemma hash_check_loop_keeps [fdkeep]: "fdview s1 = fdview s \<Longrightarrow> keepsr s (hash_check_loop name h tmp seen s1)"
proof (induction name h tmp seen s1 rule: hash_check_loop.induct)
  case (1 name h tmp seen s1)
  show ?case
    by (subst hash_check_loop.simps) (rule fdkeep keeps_pure 1(1) HOL.refl | assumption | simp add: 1(2))+
qed

lemma delete_hash_keeps [fdkeep]: "fdview s1 = fdview s \<Longrightarrow> keeps s (delete_hash i s1)"
  by (rule fdkeep_trans(1), assumption, unfold delete_hash_def) (rule fdkeep fdbind HOL.refl | simp)+

lemma flush_page_keeps [fdkeep]: "fdview s1 = fdview s \<Longrightarrow> keeps s (flush_page f ci pg s1)"
  by (rule fdkeep_trans(1), assumption, unfold flush_page_def) (rule fdkeep fdbind HOL.refl | simp)+

lemma flush_if_dirty_keeps [fdkeep]: "fdview s1 = fdview s \<Longrightarrow> keeps s (flush_if_dirty f mi pg s1)"
  by (rule fdkeep_trans(1), assumption, unfold flush_if_dirty_def) (rule fdkeep fdbind HOL.refl | simp)+

lemma write_direct_keeps [fdkeep]: "fdview s1 = fdview s \<Longrightarrow> keeps s (write_direct f fd v c s1)"
  by (rule fdkeep_trans(1), assumption, unfold write_direct_def) (rule fdkeep fdbind HOL.refl | simp)+

lemma evict_keeps [fdkeep]: "fdview s1 = fdview s \<Longrightarrow> keeps s (evict v s1)"
  by (rule fdkeep_trans(1), assumption, unfold evict_def) (rule fdkeep fdbind HOL.refl | simp)+

lemma clock_policy_keeps [fdkeep]: "fdview s1 = fdview s \<Longrightarrow> keeps s (clock_policy s1)"
  by (rule fdkeep_trans(1), assumption, unfold clock_policy_def) (rule fdkeep fdbind HOL.refl | simp)+

lemma check_cache_hash_check_keeps [fdkeep]: "fdview s1 = fdview s \<Longrightarrow> keepsr s (check_cache_hash_check i s1)"
  by (rule fdkeep_trans(2), assumption, unfold check_cache_hash_check_def) (rule fdkeep fdbind HOL.refl | simp)+

lemma add_check_cache_hash_keeps [fdkeep]: "fdview s1 = fdview s \<Longrightarrow> keeps s (add_check_cache_hash i j s1)"
  by (rule fdkeep_trans(1), assumption, unfold add_check_cache_hash_def) (rule fdkeep fdbind HOL.refl | simp)+

lemma check_cache_keeps [fdkeep]: "fdview s1 = fdview s \<Longrightarrow> keepsr s (check_cache f pg s1)"
  by (rule fdkeep_trans(2), assumption, unfold check_cache_def) (rule fdkeep fdbind HOL.refl | simp)+

lemma cache_fault_handler_keeps [fdkeep]: "fdview s1 = fdview s \<Longrightarrow> keeps s (cache_fault_handler f off fd s1)"
  by (rule fdkeep_trans(1), assumption, unfold cache_fault_handler_def) (rule fdkeep fdbind HOL.refl | simp)+

lemma ensure_cached_keeps [fdkeep]: "fdview s1 = fdview s \<Longrightarrow> keeps s (ensure_cached f fd i off s1)"
  by (rule fdkeep_trans(1), assumption, unfold ensure_cached_def) (rule fdkeep fdbind HOL.refl | simp)+

lemma already_exist_namefd_keeps [fdkeep]: "fdview s1 = fdview s \<Longrightarrow> keepsr s (already_exist_namefd f nm fd s1)"
  by (rule fdkeep_trans(2), assumption, unfold already_exist_namefd_def) (rule fdkeep fdbind HOL.refl | simp)+

lemma set_namefd_keeps [fdkeep]: "fdview s1 = fdview s \<Longrightarrow> keeps s (set_namefd f nm fd s1)"
  by (rule fdkeep_trans(1), assumption, unfold set_namefd_def) (rule fdkeep fdbind HOL.refl | simp)+

text \<open>The loops of the two caching calls carry the offset and the number of bytes with the state.\<close>

lemma ensure_cached_view: "ensure_cached f fd i off s = Inr s' \<Longrightarrow> fdview s' = fdview s"
  using ensure_cached_keeps [OF HOL.refl, of s f fd i off] by (simp add: keeps_def)

lemma turn_view:
  "read_turn f fd p n a b i (off, cnt, s) = Inr (off', cnt', s') \<Longrightarrow> fdview s' = fdview s"
  "write_turn f fd p n a b i (off, cnt, s) = Inr (off', cnt', s') \<Longrightarrow> fdview s' = fdview s"
  by (cases "turn_span i a b n off cnt"; auto simp: read_turn_def write_turn_def end_turn_def Let_def
      split: if_split_asm dest!: ensure_cached_view)+

lemma turns_view:
  assumes "\<And>i off cnt s off' cnt' s'. turn i (off, cnt, s) = Inr (off', cnt', s') \<Longrightarrow> fdview s' = fdview s"
  shows "foldE turn is (off, cnt, s) = Inr (off', cnt', s') \<Longrightarrow> fdview s' = fdview s"
proof (induction "is" arbitrary: off cnt s)
  case Nil
  then show ?case by simp
next
  case (Cons i "is")
  from Cons.prems obtain x where x: "turn i (off, cnt, s) = Inr x" "foldE turn is x = Inr (off', cnt', s')"
    by auto
  obtain o1 c1 s1 where xx: "x = (o1, c1, s1)" by (cases x) auto
  then have "fdview s1 = fdview s" using assms x(1) by blast
  moreover have "fdview s' = fdview s1" using Cons.IH x(2) xx by blast
  ultimately show ?case by simp
qed

lemma sys_caching_keeps [fdkeep]:
  "fdview s1 = fdview s \<Longrightarrow> keepsr s (sys_caching_read s1)" "fdview s1 = fdview s \<Longrightarrow> keepsr s (sys_caching_write s1)"
  by (auto simp: keepsr_def sys_caching_read_def sys_caching_write_def caching_loop_def Let_def
      split: option.splits prod.splits dest!: turns_view [rotated] turn_view)

section \<open>The calls that change the counts\<close>

lemma count_list_update:
  "i < length xs \<Longrightarrow> int (count_list (xs[i := y]) x) =
     int (count_list xs x) + (if y = x then 1 else 0) - (if xs ! i = x then 1 else 0)"
proof (induction xs arbitrary: i)
  case (Cons z zs)
  show ?case
  proof (cases i)
    case (Suc j)
    then show ?thesis using Cons.IH [of j] Cons.prems by auto
  qed auto
qed simp

lemma count_pos: "Some f \<in> set os \<Longrightarrow> 0 < count_list os (Some f)"
  using count_list_0_iff [of os "Some f"] by (metis gr0I)

lemma krefs_length: "krefs e X s \<Longrightarrow> length (ofile s) = NOFILE \<and> length (ftable s) = NFILE"
  by (simp add: krefs_def refs_def)

lemma krefs_count: "krefs e X s \<Longrightarrow> f < NFILE \<Longrightarrow> f_ref (ftable s ! f) = int (count_list (ofile s) (Some f)) + e f"
  by (simp add: krefs_def refs_def)

lemma find_upt_Some: "List.find P [0..<n] = Some k \<Longrightarrow> k < n \<and> P k"
  by (auto simp: find_Some_iff)

text \<open>A change of one entry of the table.\<close>

lemma krefs_upd_file:
  assumes k: "krefs e X s" and f: "f < NFILE" and r: "f_ref (g (ftable s ! f)) = f_ref (ftable s ! f) + d"
    and t: "f_ref (g (ftable s ! f)) = 0 \<Longrightarrow> f_type (g (ftable s ! f)) = FD_NONE"
    and n: "f \<notin> Y \<Longrightarrow> f_type (g (ftable s ! f)) = FD_NONE \<Longrightarrow> f_ref (g (ftable s ! f)) = 0"
    and XY: "X - {f} \<subseteq> Y"
  shows "krefs (e(f := e f + d)) Y (upd_file f g s)"
proof -
  have l: "length (ofile s) = NOFILE" "length (ftable s) = NFILE" "\<forall>h. Some h \<in> set (ofile s) \<longrightarrow> h < NFILE"
    using k by (auto simp: krefs_def refs_def)
  have old: "f_ref (ftable s ! h) = int (count_list (ofile s) (Some h)) + e h"
    "f_ref (ftable s ! h) = 0 \<longrightarrow> f_type (ftable s ! h) = FD_NONE"
    "h \<notin> X \<longrightarrow> f_type (ftable s ! h) = FD_NONE \<longrightarrow> f_ref (ftable s ! h) = 0" if "h < NFILE" for h
    using k that by (auto simp: krefs_def refs_def)
  define fs' where "fs' = (ftable s)[f := g (ftable s ! f)]"
  have nth: "fs' ! h = (if h = f then g (ftable s ! f) else ftable s ! h)" if "h < NFILE" for h
    using that l(2) by (simp add: fs'_def nth_list_update)
  have *: "f_ref (fs' ! h) = int (count_list (ofile s) (Some h)) + (e(f := e f + d)) h \<and>
      (f_ref (fs' ! h) = 0 \<longrightarrow> f_type (fs' ! h) = FD_NONE) \<and>
      (h \<notin> Y \<longrightarrow> f_type (fs' ! h) = FD_NONE \<longrightarrow> f_ref (fs' ! h) = 0)" if h: "h < NFILE" for h
  proof (cases "h = f")
    case True
    then show ?thesis using nth [OF h] f r t n old(1) [OF f] by simp
  next
    case False
    then have "h \<notin> Y \<Longrightarrow> h \<notin> X" using XY by auto
    then show ?thesis using False nth [OF h] old [OF h] by auto
  qed
  have "ofile (upd_file f g s) = ofile s" "ftable (upd_file f g s) = fs'" "length fs' = NFILE"
    using l by (simp_all add: upd_file_def fs'_def)
  then show ?thesis using l * unfolding krefs_def refs_def by (metis (no_types, lifting))
qed

lemma krefs_upd_ofile:
  assumes k: "krefs e X s" and fd: "fd < NOFILE" and f: "\<And>g. v = Some g \<Longrightarrow> g < NFILE"
  shows "krefs (\<lambda>f. e f + (if ofile s ! fd = Some f then 1 else 0) - (if v = Some f then 1 else 0)) X
           (s\<lparr>ofile := (ofile s)[fd := v]\<rparr>)"
proof -
  have "Some g \<in> set ((ofile s)[fd := v]) \<Longrightarrow> g < NFILE" for g
    using k f set_update_subset_insert [of "ofile s" fd v] by (auto simp: krefs_def refs_def)
  moreover have "int (count_list ((ofile s)[fd := v]) (Some g)) = int (count_list (ofile s) (Some g)) +
      (if v = Some g then 1 else 0) - (if ofile s ! fd = Some g then 1 else 0)" for g
    using k fd by (intro count_list_update) (simp add: krefs_def refs_def)
  ultimately show ?thesis using k unfolding krefs_def refs_def by auto
qed

lemma filealloc_krefs:
  assumes "filealloc s = (Some f, s')" and "krefs e X s" and "\<And>f. 0 \<le> e f"
  shows "f < NFILE" and "krefs (e(f := e f + 1)) (insert f X) s'" and "f_ref (ftable s' ! f) = 1"
    and "e f = 0" and "f \<notin> X \<Longrightarrow> f_type (ftable s' ! f) = FD_NONE" and "ofile s' = ofile s"
proof -
  have l: "length (ftable s) = NFILE" using assms(2) by (simp add: krefs_length)
  have f: "f < NFILE" "f_ref (ftable s ! f) = 0" "s' = upd_file f (\<lambda>x. x\<lparr>f_ref := 1\<rparr>) s"
    using assms(1) l by (auto simp: filealloc_def split: option.splits dest!: find_upt_Some)
  then show "f < NFILE" "f_ref (ftable s' ! f) = 1" "ofile s' = ofile s" using l by (auto simp: upd_file_def)
  show "e f = 0" using krefs_count [OF assms(2) f(1)] f(2) assms(3) [of f] by simp
  show "f_type (ftable s' ! f) = FD_NONE" if "f \<notin> X"
    using f assms(2) l by (auto simp: krefs_def refs_def upd_file_def)
  show "krefs (e(f := e f + 1)) (insert f X) s'"
    unfolding f(3) by (rule krefs_upd_file [OF assms(2) f(1)]) (auto simp: f(2))
qed

lemma fdalloc_krefs:
  assumes "fdalloc f s = (fd, s')" and "krefs e X s" and "f < NFILE"
  shows "if fd < 0 then s' = s
         else fd < int NOFILE \<and> krefs (e(f := e f - 1)) X s' \<and> ftable s' = ftable s \<and> ofile s' ! nat fd = Some f"
proof (cases "List.find (\<lambda>fd. ofile s ! fd = None) [0..<NOFILE]")
  case None
  with assms(1) show ?thesis by (auto simp: fdalloc_def)
next
  case (Some j)
  then have j: "j < NOFILE" "ofile s ! j = None" by (auto dest!: find_upt_Some)
  have "(\<lambda>g. e g + (if ofile s ! j = Some g then 1 else 0) - (if Some f = Some g then 1 else 0)) = e(f := e f - 1)"
    using j(2) by auto
  with krefs_upd_ofile [OF assms(2) j(1), of "Some f"] assms(3)
  have "krefs (e(f := e f - 1)) X (s\<lparr>ofile := (ofile s)[j := Some f]\<rparr>)" by simp
  then show ?thesis using assms(1,2) Some j by (auto simp: fdalloc_def krefs_def refs_def)
qed

lemma fileclose_krefs:
  assumes "fileclose f s = Inr s'" and "krefs e X s" and "f < NFILE"
  shows "krefs (e(f := e f - 1)) X s'" and "f_ref (ftable s ! f) = 1 \<Longrightarrow> krefs (e(f := e f - 1)) (X - {f}) s'"
proof -
  let ?ff = "ftable s ! f"
  have r: "f_ref ?ff \<ge> 1" using assms(1) by (auto simp: fileclose_def Let_def split: if_splits)
  define s1 where "s1 = (if f_ref ?ff - 1 > 0 then upd_file f (\<lambda>x. x\<lparr>f_ref := f_ref x - 1\<rparr>) s
    else upd_file f (\<lambda>x. x\<lparr>f_ref := 0, f_type := FD_NONE\<rparr>) s)"
  have v: "fdview s' = fdview s1"
    using assms(1) by (auto simp: fileclose_def Let_def s1_def kpipeclose_def split: if_splits ftype.splits prod.splits)
  have ty: "f \<notin> X \<Longrightarrow> f_type ?ff = FD_NONE \<Longrightarrow> f_ref ?ff = 0"
    using assms(2,3) by (auto simp: krefs_def refs_def)
  have "krefs (e(f := e f + -1)) (if f_ref ?ff = 1 then X - {f} else X) s1"
  proof (cases "f_ref ?ff - 1 > 0")
    case True
    then show ?thesis unfolding s1_def using r ty by simp (intro krefs_upd_file [OF assms(2,3), of _ "-1", simplified]; auto)
  next
    case False
    then show ?thesis unfolding s1_def using r ty by simp (intro krefs_upd_file [OF assms(2,3), of _ "-1", simplified]; auto)
  qed
  with krefs_view [OF v] have k: "krefs (e(f := e f - 1)) (if f_ref ?ff = 1 then X - {f} else X) s'" by simp
  then show "f_ref ?ff = 1 \<Longrightarrow> krefs (e(f := e f - 1)) (X - {f}) s'" by simp
  show "krefs (e(f := e f - 1)) X s'"
    using k by (auto simp: krefs_def refs_def split: if_splits)
qed

lemma argfd_file:
  assumes "argfd n s = Some (fd, f)" and "krefs e X s"
  shows "0 \<le> fd" and "nat fd < NOFILE" and "ofile s ! nat fd = Some f" and "f < NFILE"
proof -
  show "0 \<le> fd" "nat fd < NOFILE" "ofile s ! nat fd = Some f"
    using assms(1) by (auto simp: argfd_def split: option.splits if_splits)
  then have "Some f \<in> set (ofile s)" using krefs_length [OF assms(2)] nth_mem by metis
  then show "f < NFILE" using assms(2) by (simp add: krefs_def refs_def)
qed

lemma close_krefs:
  assumes "argfd 0 s = Some (fd, f)" and "krefs e X s" and "fileclose f (s\<lparr>ofile := (ofile s)[nat fd := None]\<rparr>) = Inr s'"
  shows "krefs e X s'"
proof -
  note fd = argfd_file [OF assms(1,2)]
  have "(\<lambda>g. e g + (if ofile s ! nat fd = Some g then 1 else 0) - (if None = Some g then 1 else 0)) = e(f := e f + 1)"
    using fd(3) by auto
  with krefs_upd_ofile [OF assms(2) fd(2), of None]
  have "krefs (e(f := e f + 1)) X (s\<lparr>ofile := (ofile s)[nat fd := None]\<rparr>)" by simp
  from fileclose_krefs(1) [OF assms(3) this fd(4)] show ?thesis by (simp add: fun_upd_idem)
qed

lemma sys_close_krefs: "sys_close s = Inr (r, s') \<Longrightarrow> krefs e X s \<Longrightarrow> krefs e X s'"
  by (auto simp: sys_close_def split: option.splits prod.splits dest: close_krefs)

lemma sys_caching_close_krefs:
  assumes "sys_caching_close s = Inr (r, s')" and k: "krefs e X s"
  shows "krefs e X s'"
proof (cases "argfd 0 s")
  case None
  with assms show ?thesis by (auto simp: sys_caching_close_def)
next
  case (Some x)
  obtain fd f where x: "x = (fd, f)" by (cases x)
  obtain s1 s2 where s: "write_direct (Some f) fd 0 True s = Inr s1"
    "fileclose f (s1\<lparr>ofile := (ofile s1)[nat fd := None]\<rparr>) = Inr s2" "s' = close_namefd fd s2"
    using assms(1) Some x by (auto simp: sys_caching_close_def)
  have v: "fdview s1 = fdview s" using write_direct_keeps [OF HOL.refl, of s "Some f" fd 0 True] s(1) by (simp add: keeps_def)
  note fd = argfd_file [OF Some [unfolded x] k]
  have k1: "krefs e X s1" using v k by (rule krefs_view)
  have "(\<lambda>g. e g + (if ofile s1 ! nat fd = Some g then 1 else 0) - (if None = Some g then 1 else 0)) = e(f := e f + 1)"
    using fd(3) v by (auto simp: fdview_def)
  with krefs_upd_ofile [OF k1 fd(2), of None]
  have "krefs (e(f := e f + 1)) X (s1\<lparr>ofile := (ofile s1)[nat fd := None]\<rparr>)" by simp
  from fileclose_krefs(1) [OF s(2) this fd(4)] have "krefs e X s2" by (simp add: fun_upd_idem)
  then show ?thesis using krefs_view [of s' s2] s(3) by simp
qed

lemma filedup_krefs:
  assumes "filedup f s = Inr s'" and "krefs e X s" and "f < NFILE"
  shows "krefs (e(f := e f + 1)) X s'"
proof -
  have r: "f_ref (ftable s ! f) \<ge> 1" and s': "s' = upd_file f (\<lambda>x. x\<lparr>f_ref := f_ref x + 1\<rparr>) s"
    using assms(1) by (auto simp: filedup_def split: if_splits)
  have "f \<notin> X \<Longrightarrow> f_type (ftable s ! f) = FD_NONE \<Longrightarrow> f_ref (ftable s ! f) = 0"
    using assms(2,3) by (auto simp: krefs_def refs_def)
  then show ?thesis unfolding s' using r by (intro krefs_upd_file [OF assms(2,3)]) auto
qed

lemma sys_dup_krefs:
  assumes "sys_dup s = Inr (r, s')" and k: "krefs e X s"
  shows "krefs e X s'"
proof (cases "argfd 0 s")
  case None
  with assms show ?thesis by (auto simp: sys_dup_def)
next
  case (Some x)
  obtain fd0 f where x: "x = (fd0, f)" by (cases x)
  obtain fd s1 where a: "fdalloc f s = (fd, s1)" by (cases "fdalloc f s")
  note fd = argfd_file [OF Some [unfolded x] k]
  note al = fdalloc_krefs [OF a k fd(4)]
  show ?thesis
  proof (cases "fd < 0")
    case True
    with assms Some x a al show ?thesis by (auto simp: sys_dup_def)
  next
    case False
    then obtain s2 where s2: "filedup f s1 = Inr s2" "dup_names f fd [0..<NOFILE] s2 = Inr s'"
      using assms(1) Some x a by (auto simp: sys_dup_def)
    have "krefs (e(f := e f - 1)) X s1" using al False by simp
    from filedup_krefs [OF s2(1) this fd(4)] have "krefs e X s2" by (simp add: fun_upd_idem)
    moreover have "fdview s' = fdview s2"
      using dup_names_keeps [OF HOL.refl, of s2 f fd "[0..<NOFILE]"] s2(2) by (simp add: keeps_def)
    ultimately show ?thesis using krefs_view by blast
  qed
qed

text \<open>Setting up an allocated file gives it a type.\<close>

lemma krefs_set_up:
  assumes "krefs e X s" and "f < NFILE" and "f_ref (ftable s ! f) \<noteq> 0"
    and "f_ref (g (ftable s ! f)) = f_ref (ftable s ! f)" and "f_type (g (ftable s ! f)) \<noteq> FD_NONE"
  shows "krefs e (X - {f}) (upd_file f g s)"
  using krefs_upd_file [OF assms(1,2), of g 0 "X - {f}"] assms by (simp add: fun_upd_idem)

lemma filealloc_None: "filealloc s = (None, s') \<Longrightarrow> s' = s"
  by (auto simp: filealloc_def split: option.splits)

lemma open_file_krefs:
  assumes o1: "open_file path omode s = Inr (r, s')" and k: "krefs e {} s" and e: "\<And>f. 0 \<le> e f"
  shows "krefs e {} s'"
proof -
  obtain s0 ro s1 where s: "op_begin s = Inr s0" "open_inode path omode s0 = Inr (ro, s1)"
    using o1 by (auto simp: open_file_def)
  have v: "fdview s1 = fdview s"
    using op_keeps(1) [OF HOL.refl, of s] open_inode_keeps [OF HOL.refl, of s0 path omode] s
    by (simp add: keeps_def keepsr_def)
  have k1: "krefs e {} s1" using v k by (rule krefs_view)
  show ?thesis
  proof (cases ro)
    case None
    with o1 s k1 show ?thesis by (auto simp: open_file_def)
  next
    case (Some ip)
    obtain fo s2 where fa: "filealloc s1 = (fo, s2)" by (cases "filealloc s1")
    show ?thesis
    proof (cases fo)
      case None
      then have "fdview s' = fdview s2"
        using o1 s Some fa by (auto simp: open_file_def op_end_def split: option.splits)
      with None fa filealloc_None k1 krefs_view show ?thesis by metis
    next
      case (Some f)
      note al = filealloc_krefs [OF fa [unfolded Some] k1 e]
      obtain fd s3 where fd: "fdalloc f s2 = (fd, s3)" by (cases "fdalloc f s2")
      note fk = fdalloc_krefs [OF fd al(2) al(1)]
      show ?thesis
      proof (cases "fd < 0")
        case True
        then obtain s4 where c: "fileclose f s3 = Inr s4" "fdview s' = fdview s4"
          using o1 s \<open>ro = Some ip\<close> fa Some fd by (auto simp: open_file_def op_end_def split: option.splits)
        have "s3 = s2" using fk True by simp
        from fileclose_krefs(2) [OF c(1) al(2) [folded this] al(1)] al(3) this
        have "krefs e {} s4" by (simp add: fun_upd_idem)
        with c(2) show ?thesis by (rule krefs_view)
      next
        case False
        define g :: "sfile \<Rightarrow> sfile" where "g = (\<lambda>x. x\<lparr>f_type := FD_INODE, f_ip := ip, f_off := 0,
            f_readable := (omode AND O_WRONLY = 0),
            f_writable := (omode AND O_WRONLY \<noteq> 0 \<or> omode AND O_RDWR \<noteq> 0)\<rparr>)"
        obtain t where t: "s' = upd_file f g (s3\<lparr>fsys := t\<rparr>)"
          using o1 s \<open>ro = Some ip\<close> fa Some fd False
          by (auto simp: open_file_def op_end_def g_def split: option.splits)
        define s5 where "s5 = s3\<lparr>fsys := t\<rparr>"
        have s5: "fdview s5 = fdview s3" "s' = upd_file f g s5" by (simp_all add: s5_def t)
        have k3: "krefs e {f} s3" and ft: "ftable s3 = ftable s2" using fk False by (auto simp: fun_upd_idem)
        have k5: "krefs e {f} s5" using s5(1) k3 by (rule krefs_view)
        have "f_ref (ftable s5 ! f) = 1"
          using fdview_nth(1) [OF s5(1), of f] al(1,3) ft krefs_length [OF k3] by simp
        with krefs_set_up [OF k5 al(1), of g] show ?thesis by (simp add: s5(2) g_def)
      qed
    qed
  qed
qed

lemma sys_open_krefs: "sys_open s = Inr (r, s') \<Longrightarrow> krefs e {} s \<Longrightarrow> (\<And>f. 0 \<le> e f) \<Longrightarrow> krefs e {} s'"
  using open_file_krefs [of _ _ s _ s' e] by (auto simp: sys_open_def split: option.splits prod.splits)

lemma sys_caching_open_krefs:
  assumes "sys_caching_open s = Inr (r, s')" and k: "krefs e {} s" and e: "\<And>f. 0 \<le> e f"
  shows "krefs e {} s'"
proof (cases "\<exists>p path omode. argstr 0 s = Some (p, path) \<and> argint 1 s = Some omode")
  case False
  then have "s' = s" using assms(1) by (auto simp: sys_caching_open_def split: option.splits)
  with k show ?thesis by simp
next
  case True
  then obtain p path omode where a: "argstr 0 s = Some (p, path)" "argint 1 s = Some omode" by blast
  then obtain ro s1 where o1: "open_file path (word_of_int omode) s = Inr (ro, s1)"
    using assms(1) by (auto simp: sys_caching_open_def)
  have k1: "krefs e {} s1" using open_file_krefs [OF o1 k e] .
  show ?thesis
  proof (cases ro)
    case None
    with assms(1) a o1 k1 show ?thesis by (auto simp: sys_caching_open_def)
  next
    case (Some q)
    obtain fd f where q: "q = (fd, f)" by (cases q)
    have m: "bindE (already_exist_namefd f p fd s1) (\<lambda>(e, s2).
        if e = -1 then bindE (set_namefd f p fd s2) (\<lambda>s3. Inr (fd, s3)) else Inr (fd, s2)) = Inr (r, s')"
      using assms(1) a o1 Some q by (simp add: sys_caching_open_def)
    have "keepsr s1 (bindE (already_exist_namefd f p fd s1) (\<lambda>(e, s2).
        if e = -1 then bindE (set_namefd f p fd s2) (\<lambda>s3. Inr (fd, s3)) else Inr (fd, s2)))"
      by (rule fdkeep fdbind HOL.refl | simp)+
    with m have "fdview s' = fdview s1" unfolding keepsr_def by blast
    then show ?thesis using k1 by (rule krefs_view)
  qed
qed

text \<open>
  \<^verbatim>\<open>pipealloc\<close> either fails without a trace or returns two files that are set up and held once each by the
  caller.
\<close>

lemma pipealloc_krefs:
  assumes p: "pipealloc s = Inr (r, s')" and k: "krefs e {} s" and e: "\<And>f. 0 \<le> e f"
  shows "case r of None \<Rightarrow> krefs e {} s'
         | Some (f0, f1) \<Rightarrow> f0 < NFILE \<and> f1 < NFILE \<and> f0 \<noteq> f1 \<and>
             krefs (e(f0 := e f0 + 1, f1 := e f1 + 1)) {} s'"
proof -
  obtain fo0 s1 where a0: "filealloc s = (fo0, s1)" by (cases "filealloc s")
  show ?thesis
  proof (cases fo0)
    case None
    with p a0 filealloc_None k show ?thesis by (auto simp: pipealloc_def)
  next
    case (Some f0)
    note al0 = filealloc_krefs [OF a0 [unfolded Some] k e]
    let ?e1 = "e(f0 := e f0 + 1)"
    have e1: "\<And>f. 0 \<le> ?e1 f" using e by auto
    obtain fo1 s2 where a1: "filealloc s1 = (fo1, s2)" by (cases "filealloc s1")
    show ?thesis
    proof (cases fo1)
      case None
      then have "s2 = s1" using a1 filealloc_None by blast
      moreover obtain "r = None" "fileclose f0 s2 = Inr s'"
        using p a0 Some a1 None by (auto simp: pipealloc_def)
      ultimately show ?thesis
        using fileclose_krefs(2) [of f0 s1 s' ?e1 "{f0}"] al0 by (simp add: fun_upd_idem)
    next
      case (Some f1)
      note al1 = filealloc_krefs [OF a1 [unfolded Some] al0(2) e1]
      have ne: "f1 \<noteq> f0" using al1(4) al0(4) by auto
      let ?e2 = "?e1(f1 := ?e1 f1 + 1)"
      have ft: "f_ref (ftable s2 ! f0) = 1"
        using krefs_count [OF al1(2) al0(1)] krefs_count [OF al0(2) al0(1)] al1(6) al0(3) ne by simp
      obtain q kk where kal: "kalloc (km s2) = (q, kk)" by (cases "kalloc (km s2)")
      show ?thesis
      proof (cases "q = 0")
        case True
        then obtain s4 where c: "fileclose f0 (s2\<lparr>km := kk\<rparr>) = Inr s4" "fileclose f1 s4 = Inr s'" "r = None"
          using p a0 \<open>fo0 = Some f0\<close> a1 Some kal by (auto simp: pipealloc_def)
        have k3: "krefs ?e2 {f1, f0} (s2\<lparr>km := kk\<rparr>)" by (rule krefs_view [OF _ al1(2)]) simp
        have k4: "krefs (?e2(f0 := ?e2 f0 - 1)) ({f1, f0} - {f0}) s4"
          using fileclose_krefs(2) [OF c(1) k3 al0(1)] ft by simp
        have "f_ref (ftable s4 ! f1) = 1"
        proof -
          have "ofile s4 = ofile s2" using c(1)
            by (auto simp: fileclose_def Let_def upd_file_def kpipeclose_def split: if_splits ftype.splits prod.splits)
          then show ?thesis
            using krefs_count [OF k4 al1(1)] krefs_count [OF al1(2) al1(1)] al1(3) ne by simp
        qed
        with fileclose_krefs(2) [OF c(2) k4 al1(1)] ne c(3)
        show ?thesis by (simp add: fun_upd_idem fun_upd_twist insert_Diff_if)
      next
        case False
        define s4 where "s4 = s2\<lparr>km := kk, pipemem := (pipemem s2)(q := pipe_init (pipemem s2 q))\<rparr>"
        define g0 :: "sfile \<Rightarrow> sfile" where "g0 = (\<lambda>x. x\<lparr>f_type := FD_PIPE, f_readable := True, f_writable := False, f_pipe := q\<rparr>)"
        define g1 :: "sfile \<Rightarrow> sfile" where "g1 = (\<lambda>x. x\<lparr>f_type := FD_PIPE, f_readable := False, f_writable := True, f_pipe := q\<rparr>)"
        have s': "r = Some (f0, f1)" "s' = upd_file f1 g1 (upd_file f0 g0 s4)"
          using p a0 \<open>fo0 = Some f0\<close> a1 Some kal False by (auto simp: pipealloc_def s4_def g0_def g1_def)
        have fts4: "ftable s4 = ftable s2" by (simp add: s4_def)
        have k4: "krefs ?e2 {f1, f0} s4" by (rule krefs_view [OF _ al1(2)]) (simp add: s4_def)
        have k5: "krefs ?e2 ({f1, f0} - {f0}) (upd_file f0 g0 s4)"
          using krefs_set_up [OF k4 al0(1), of g0] ft fts4 by (simp add: g0_def)
        have "ftable (upd_file f0 g0 s4) ! f1 = ftable s2 ! f1"
          using ne krefs_length [OF k4] by (simp add: upd_file_def fts4)
        then have "krefs ?e2 ({f1, f0} - {f0} - {f1}) s'"
          using krefs_set_up [OF k5 al1(1), of g1] al1(3) s'(2) by (simp add: g1_def)
        moreover have "?e2 = e(f0 := e f0 + 1, f1 := e f1 + 1)" using ne by auto
        ultimately show ?thesis using s'(1) ne al0(1) al1(1) by (simp add: insert_Diff_if)
      qed
    qed
  qed
qed

lemma sys_pipe_krefs:
  assumes p: "sys_pipe s = Inr (r, s')" and k: "krefs e {} s" and e: "\<And>f. 0 \<le> e f"
  shows "krefs e {} s'"
proof (cases "argptr 0 8 s")
  case None
  with p k show ?thesis by (auto simp: sys_pipe_def)
next
  case (Some q)
  obtain ro s1 where pa: "pipealloc s = Inr (ro, s1)" using p Some by (auto simp: sys_pipe_def)
  note pk = pipealloc_krefs [OF pa k e]
  show ?thesis
  proof (cases ro)
    case None
    with p Some pa pk show ?thesis by (auto simp: sys_pipe_def)
  next
    case (Some ff)
    obtain f0 f1 where ff: "ff = (f0, f1)" by (cases ff)
    let ?e2 = "e(f0 := e f0 + 1, f1 := e f1 + 1)"
    have f: "f0 < NFILE" "f1 < NFILE" "f0 \<noteq> f1" "krefs ?e2 {} s1" using pk Some ff by auto
    obtain fd0 s2 where a0: "fdalloc f0 s1 = (fd0, s2)" by (cases "fdalloc f0 s1")
    note k0 = fdalloc_krefs [OF a0 f(4) f(1)]
    show ?thesis
    proof (cases "fd0 < 0")
      case True
      then obtain s3 where c: "fileclose f0 s2 = Inr s3" "fileclose f1 s3 = Inr s'"
        using p \<open>argptr 0 8 s = Some q\<close> pa Some ff a0 by (auto simp: sys_pipe_def)
      have "s2 = s1" using k0 True by simp
      from fileclose_krefs(1) [OF c(2) fileclose_krefs(1) [OF c(1) f(4) [folded this] f(1)] f(2)] f(3)
      show ?thesis by (simp add: fun_upd_idem fun_upd_twist)
    next
      case False
      have k2: "krefs (?e2(f0 := ?e2 f0 - 1)) {} s2" and fd0: "nat fd0 < NOFILE" "ofile s2 ! nat fd0 = Some f0"
        using k0 False by (auto split: if_splits)
      obtain fd1 s3 where a1: "fdalloc f1 s2 = (fd1, s3)" by (cases "fdalloc f1 s2")
      note k1 = fdalloc_krefs [OF a1 k2 f(2)]
      show ?thesis
      proof (cases "fd1 < 0")
        case True
        then obtain s4 where c: "fileclose f0 (s3\<lparr>ofile := (ofile s3)[nat fd0 := None]\<rparr>) = Inr s4"
          "fileclose f1 s4 = Inr s'"
          using p \<open>argptr 0 8 s = Some q\<close> pa Some ff a0 a1 False by (auto simp: sys_pipe_def)
        have s3: "s3 = s2" using k1 True by simp
        have "(\<lambda>g. (?e2(f0 := ?e2 f0 - 1)) g + (if ofile s2 ! nat fd0 = Some g then 1 else 0)
            - (if None = Some g then 1 else 0)) = ?e2" using fd0(2) f(3) by auto
        with krefs_upd_ofile [OF k2 fd0(1), of None] s3
        have "krefs ?e2 {} (s3\<lparr>ofile := (ofile s3)[nat fd0 := None]\<rparr>)" by simp
        from fileclose_krefs(1) [OF c(2) fileclose_krefs(1) [OF c(1) this f(1)] f(2)] f(3)
        show ?thesis by (simp add: fun_upd_idem fun_upd_twist)
      next
        case fd1: False
        then have s': "fdview s' = fdview s3"
          using p \<open>argptr 0 8 s = Some q\<close> pa Some ff a0 a1 False by (auto simp: sys_pipe_def)
        have "(?e2(f0 := ?e2 f0 - 1))(f1 := (?e2(f0 := ?e2 f0 - 1)) f1 - 1) = e" using f(3) by auto
        then have "krefs e {} s3" using k1 fd1 by simp
        with s' show ?thesis by (rule krefs_view)
      qed
    qed
  qed
qed

section \<open>Sequences of system calls\<close>

text \<open>
  One step of a process: user code changes its memory and its stack pointer, or a file system call returns.
\<close>

inductive call_step :: "'d kern \<Rightarrow> 'd kern \<Rightarrow> bool" where
  do_user: "call_step s (s\<lparr>umem := m, tf_esp := sp\<rparr>)"
| do_dup: "sys_dup s = Inr (r, s') \<Longrightarrow> call_step s s'"
| do_read: "sys_read s = Inr (oc, s') \<Longrightarrow> call_step s s'"
| do_write: "sys_write s = Inr (oc, s') \<Longrightarrow> call_step s s'"
| do_close: "sys_close s = Inr (r, s') \<Longrightarrow> call_step s s'"
| do_fstat: "sys_fstat s = Inr (r, s') \<Longrightarrow> call_step s s'"
| do_fileoffset: "sys_fileoffset s = Inr (r, s') \<Longrightarrow> call_step s s'"
| do_link: "sys_link s = Inr (r, s') \<Longrightarrow> call_step s s'"
| do_unlink: "sys_unlink s = Inr (r, s') \<Longrightarrow> call_step s s'"
| do_open: "sys_open s = Inr (r, s') \<Longrightarrow> call_step s s'"
| do_mkdir: "sys_mkdir s = Inr (r, s') \<Longrightarrow> call_step s s'"
| do_mknod: "sys_mknod s = Inr (r, s') \<Longrightarrow> call_step s s'"
| do_chdir: "sys_chdir s = Inr (r, s') \<Longrightarrow> call_step s s'"
| do_cd: "sys_cd s = Inr (r, s') \<Longrightarrow> call_step s s'"
| do_pipe: "sys_pipe s = Inr (r, s') \<Longrightarrow> call_step s s'"
| do_caching_open: "sys_caching_open s = Inr (r, s') \<Longrightarrow> call_step s s'"
| do_caching_read: "sys_caching_read s = Inr (r, s') \<Longrightarrow> call_step s s'"
| do_caching_write: "sys_caching_write s = Inr (r, s') \<Longrightarrow> call_step s s'"
| do_caching_close: "sys_caching_close s = Inr (r, s') \<Longrightarrow> call_step s s'"

lemma keepsr_krefs: "m = Inr (r, s') \<Longrightarrow> keepsr s m \<Longrightarrow> krefs e X s \<Longrightarrow> krefs e X s'"
  using krefs_view [of s' s] by (simp add: keepsr_def)

lemma call_step_krefs:
  assumes "call_step s s'" and "krefs e {} s" and "\<And>f. 0 \<le> e f"
  shows "krefs e {} s'"
  using assms(1)
proof (cases rule: call_step.cases)
  case (do_user m sp)
  then show ?thesis using krefs_view [of s' s e "{}"] assms(2) by simp
qed ((rule sys_dup_krefs sys_close_krefs sys_open_krefs sys_pipe_krefs sys_caching_open_krefs
      sys_caching_close_krefs keepsr_krefs, assumption, (rule fdkeep, rule HOL.refl)?, rule assms(2), (rule assms(3))?)+)

section \<open>Bounds of arguments\<close>

lemma fetchstr_loop_Some:
  "fetchstr_loop m p ep = Some t \<Longrightarrow> unat p + length t < unat ep \<and>
     (\<forall>k < length t. m (p + of_nat k) = t ! k \<and> t ! k \<noteq> 0) \<and> m (p + of_nat (length t)) = 0"
proof (induction m p ep arbitrary: t rule: fetchstr_loop.induct)
  case (1 m p ep)
  have lt: "p < ep" using 1(2) by (subst (asm) fetchstr_loop.simps) (auto split: if_splits)
  then have p1: "unat (p + 1) = unat p + 1"
    using unat_u32_less [of ep] by (subst unat_u32_add) (auto simp: word_less_nat_alt)
  show ?case
  proof (cases "m p = 0")
    case True
    with 1(2) lt have "t = []" by (subst (asm) fetchstr_loop.simps) simp
    with True lt show ?thesis by (simp add: word_less_nat_alt)
  next
    case False
    with 1(2) lt obtain t' where t: "t = m p # t'" "fetchstr_loop m (p + 1) ep = Some t'"
      by (subst (asm) fetchstr_loop.simps) auto
    from 1(1) [OF lt False t(2)] have ih: "unat p + 1 + length t' < unat ep"
      "\<And>k. k < length t' \<Longrightarrow> m (p + 1 + of_nat k) = t' ! k \<and> t' ! k \<noteq> 0" "m (p + 1 + of_nat (length t')) = 0"
      using p1 by auto
    have "m (p + of_nat k) = t ! k \<and> t ! k \<noteq> 0" if "k < length t" for k
      using that t False ih(2) by (cases k) (auto simp: add.assoc)
    moreover have "m (p + of_nat (length t)) = 0" using ih(3) t by (simp add: add.assoc)
    ultimately show ?thesis using ih(1) t by auto
  qed
qed

section \<open>The clock\<close>

lemma mod12_shift: "(Suc a mod 12 + j) mod 12 = (a + Suc j) mod (12::nat)"
  by (simp add: mod_add_left_eq)

lemma mod12_back:
  assumes "a < 12" and "k < (12::nat)" and "(a + k) mod 12 = a"
  shows "k = 0"
  using assms ring_mod [of a k 12 0] by auto

lemma clock_loop_result:
  assumes "length cs = CACHESIZE" and "axis < CACHESIZE"
  shows "\<exists>k cs'. k \<le> CACHESIZE \<and>
           clock_loop axis cs = Inr ((axis + k) mod CACHESIZE, (axis + k + 1) mod CACHESIZE, cs') \<and>
           (\<forall>j < k. c_ref (cs ! ((axis + j) mod CACHESIZE)) = 1) \<and>
           (k < CACHESIZE \<longrightarrow> c_ref (cs ! ((axis + k) mod CACHESIZE)) \<noteq> 1) \<and> length cs' = CACHESIZE \<and>
           (\<forall>i < CACHESIZE. cs' ! i = (if \<exists>j < k. i = (axis + j) mod CACHESIZE then (cs ! i)\<lparr>c_ref := 0\<rparr> else cs ! i))"
  using assms
proof (induction axis cs rule: clock_loop.induct)
  case (1 axis cs)
  show ?case
  proof (cases "c_ref (cs ! axis) = 1")
    case False
    with 1 show ?thesis by (intro exI [of _ 0] exI [of _ cs]) (simp add: clock_loop.simps)
  next
    case True
    define cs1 where "cs1 = cs[axis := (cs ! axis)\<lparr>c_ref := 0\<rparr>]"
    define a1 where "a1 = (axis + 1) mod 12"
    have ax: "axis < length cs" "axis < 12" using 1(2,3) by auto
    obtain k cs' where k: "k \<le> 12" "clock_loop a1 cs1 = Inr ((a1 + k) mod 12, (a1 + k + 1) mod 12, cs')"
      "\<forall>j<k. c_ref (cs1 ! ((a1 + j) mod 12)) = 1" "k < 12 \<longrightarrow> c_ref (cs1 ! ((a1 + k) mod 12)) \<noteq> 1"
      "length cs' = 12" "\<forall>i<12. cs' ! i = (if \<exists>j<k. i = (a1 + j) mod 12 then (cs1 ! i)\<lparr>c_ref := 0\<rparr> else cs1 ! i)"
      using 1(1) [OF ax(1) True] 1(2) unfolding a1_def cs1_def by auto
    have sh: "(a1 + j) mod 12 = (axis + Suc j) mod 12" for j
      unfolding a1_def using mod12_shift [of axis j] by simp
    have at: "c_ref (cs1 ! axis) = 0" "\<And>i. i \<noteq> axis \<Longrightarrow> cs1 ! i = cs ! i" using ax by (auto simp: cs1_def)
    have "(axis + Suc 11) mod 12 = axis" using ax by simp
    then have "\<not> 11 < k" using k(3) sh [of 11] at(1) by auto
    then have k11: "k \<le> 11" by simp
    have ne: "(axis + Suc j) mod 12 \<noteq> axis" if "j < 11" for j
      using mod12_back [OF ax(2), of "Suc j"] that by auto
    have ones: "c_ref (cs ! ((axis + j) mod 12)) = 1" if "j < Suc k" for j
    proof (cases j)
      case 0
      with True ax show ?thesis by simp
    next
      case (Suc i)
      with that k11 have "(axis + Suc i) mod 12 \<noteq> axis" using ne [of i] by simp
      then show ?thesis using k(3) that Suc at(2) sh by auto
    qed
    have vic: "c_ref (cs ! ((axis + Suc k) mod 12)) \<noteq> 1" if "Suc k < 12"
      using that ne [of k] k(4) at(2) sh by auto
    have pages: "cs' ! i = (if \<exists>j<Suc k. i = (axis + j) mod 12 then (cs ! i)\<lparr>c_ref := 0\<rparr> else cs ! i)"
      if i: "i < 12" for i
    proof (cases "i = axis")
      case True
      have "\<exists>j<Suc k. i = (axis + j) mod 12" using True ax by (intro exI [of _ 0]) simp
      moreover have "(a1 + j) mod 12 \<noteq> axis" if "j < k" for j using that k11 ne [of j] sh [of j] by simp
      then have "\<not> (\<exists>j<k. i = (a1 + j) mod 12)" using True by auto
      ultimately show ?thesis using k(6) i True ax by (simp add: cs1_def)
    next
      case False
      have "(\<exists>j<Suc k. i = (axis + j) mod 12) \<longleftrightarrow> (\<exists>j<k. i = (a1 + j) mod 12)"
      proof
        assume "\<exists>j<Suc k. i = (axis + j) mod 12"
        then obtain j where j: "j < Suc k" "i = (axis + j) mod 12" by blast
        with False ax obtain j' where "j = Suc j'" by (cases j) auto
        with j sh show "\<exists>j<k. i = (a1 + j) mod 12" by auto
      qed (use sh in auto)
      with k(6) i at(2) [OF False] show ?thesis by auto
    qed
    have "clock_loop axis cs = clock_loop a1 cs1"
      using True ax by (subst clock_loop.simps) (simp add: a1_def cs1_def)
    moreover have "(a1 + k + 1) mod 12 = (axis + Suc k + 1) mod 12" using sh [of "k + 1"] by (simp add: add.assoc)
    ultimately show ?thesis
      using k(2,5) k11 ones vic pages sh by (intro exI [of _ "Suc k"] exI [of _ cs']) auto
  qed
qed

section \<open>The hash table of the cache\<close>

lemma find_node_none: "find_node nx (\<lambda>_. False) prev c seen = Inr (p, q) \<Longrightarrow> q = 0"
proof (induction nx "\<lambda>_::u32. False" prev c seen rule: find_node.induct)
  case (1 nx prev c seen)
  then show ?case by (subst (asm) find_node.simps) (auto split: if_splits)
qed

section \<open>Properties\<close>

text \<open>
  C7. However a process mixes file system calls, the reference count of every entry of the file table stays
  equal to the number of its descriptors that name the entry plus the references held elsewhere, free
  entries are exactly those without a type, and every open descriptor names an entry that is in use and
  set up.  Calls that fail with \<open>-1\<close>, for lack of a file, a descriptor or a page, leave no reference behind.
\<close>

theorem descriptor_references:
  assumes "call_step\<^sup>*\<^sup>* s s'" and "krefs e {} s" and "\<forall>f. 0 \<le> e f"
  shows "krefs e {} s' \<and>
         (\<forall>fd f. fd < NOFILE \<and> ofile s' ! fd = Some f \<longrightarrow>
            f < NFILE \<and> f_ref (ftable s' ! f) \<ge> 1 \<and> f_type (ftable s' ! f) \<noteq> FD_NONE)"
proof -
  have k: "krefs e {} s'" using assms(1)
  proof (induction rule: rtranclp_induct)
    case (step t u)
    with assms(3) show ?case using call_step_krefs by blast
  qed (rule assms(2))
  have "f < NFILE \<and> f_ref (ftable s' ! f) \<ge> 1 \<and> f_type (ftable s' ! f) \<noteq> FD_NONE"
    if "fd < NOFILE" "ofile s' ! fd = Some f" for fd f
  proof -
    have "Some f \<in> set (ofile s')" using that krefs_length [OF k] nth_mem by metis
    then have f: "f < NFILE" and c: "0 < count_list (ofile s') (Some f)"
      using k count_pos by (auto simp: krefs_def refs_def)
    have "f_ref (ftable s' ! f) \<ge> 1" using krefs_count [OF k f] c assms(3) by (simp add: add_pos_nonneg int_one_le_iff_zero_less)
    then show ?thesis using f k by (auto simp: krefs_def refs_def)
  qed
  with k show ?thesis by blast
qed

text \<open>An empty file table, for the witness.\<close>

definition no_file :: sfile where
  "no_file = \<lparr>f_type = FD_NONE, f_ref = 0, f_readable = False, f_writable = False, f_pipe = 0, f_ip = 0, f_off = 0\<rparr>"

definition fresh_process :: "'d kern \<Rightarrow> 'd kern" where
  "fresh_process s = s\<lparr>ofile := replicate NOFILE None, ftable := replicate NFILE no_file,
     km := \<lparr>freelist = 0x81000000, run_next = (\<lambda>_. 0), use_lock = False, bytes = (\<lambda>_. 0)\<rparr>,
     p_sz := 0x1000, tf_esp := 0, umem := (\<lambda>_. 0)\<rparr>"

lemma count_list_replicate_None: "count_list (replicate n None) (Some f) = 0"
  by (induction n) auto

lemma fresh_krefs: "krefs (\<lambda>_. 0) {} (fresh_process s)"
  by (simp add: krefs_def refs_def fresh_process_def no_file_def count_list_replicate_None)

lemma find_first: "P 0 \<Longrightarrow> 0 < n \<Longrightarrow> List.find P [0..<n] = Some 0"
  by (simp add: upt_conv_Cons)

lemma find_second: "\<not> P 0 \<Longrightarrow> P 1 \<Longrightarrow> 1 < n \<Longrightarrow> List.find P [0..<n] = Some 1"
  by (simp add: upt_conv_Cons)

lemma fresh_pipe: "\<exists>s'. sys_pipe (fresh_process s) = Inr (0, s') \<and> ofile s' ! 0 = Some 0 \<and> ofile s' ! 1 = Some 1"
  by (simp add: sys_pipe_def argptr_def argint_def fetchint_def fresh_process_def pipealloc_def filealloc_def
      fdalloc_def find_first find_second no_file_def upd_file_def kalloc_def nth_list_update)

theorem descriptor_references_witness:
  "\<forall>s :: unit kern. \<exists>s'. sys_pipe (fresh_process s) = Inr (0, s') \<and> krefs (\<lambda>_. 0) {} s' \<and>
     f_type (ftable s' ! 1) \<noteq> FD_NONE"
proof
  fix s :: "unit kern"
  obtain s' where s': "sys_pipe (fresh_process s) = Inr (0, s')" "ofile s' ! 1 = Some 1"
    using fresh_pipe by blast
  then have "call_step\<^sup>*\<^sup>* (fresh_process s) s'" by (blast intro: do_pipe)
  note d = descriptor_references [OF this fresh_krefs, simplified]
  from d conjunct2 [OF d, rule_format, of 1 1] s'
  show "\<exists>s'. sys_pipe (fresh_process s) = Inr (0, s') \<and> krefs (\<lambda>_. 0) {} s' \<and> f_type (ftable s' ! 1) \<noteq> FD_NONE"
    by auto
qed

text \<open>
  C37. The checks on system call arguments keep the kernel inside the memory of the process, also where
  the sums of the checks are computed in 32 bits: a block that \<^verbatim>\<open>argptr\<close> accepts ends at or below the size
  of the process, a word that \<^verbatim>\<open>fetchint\<close> reads lies below it, and a string that \<^verbatim>\<open>argstr\<close> accepts is the text
  at its address up to a terminator below it.
\<close>

theorem syscall_args_in_bounds:
  assumes "p_sz s \<le> KERNBASE" and "sz \<le> INTMAX"
  shows "(argptr n sz s = Some p \<longrightarrow> 0 \<le> sz \<and> unat p + nat sz \<le> unat (p_sz s)) \<and>
         (fetchint a s = Some v \<longrightarrow> unat a + 4 \<le> unat (p_sz s)) \<and>
         (argstr n s = Some (q, t) \<longrightarrow> unat q + length t < unat (p_sz s) \<and>
            (\<forall>k < length t. umem s (q + of_nat k) = t ! k \<and> t ! k \<noteq> 0) \<and> umem s (q + of_nat (length t)) = 0)"
proof -
  have sz: "unat (p_sz s) \<le> 0x80000000" using assms(1) by (simp add: word_le_nat_alt)
  have "0 \<le> sz \<and> unat p + nat sz \<le> unat (p_sz s)" if "argptr n sz s = Some p"
  proof -
    have c: "0 \<le> sz" "p < p_sz s" "p + word_of_int sz \<le> p_sz s"
      using that by (auto simp: argptr_def split: option.splits if_splits)
    have u: "unat (word_of_int sz :: u32) = nat sz"
      using c(1) assms(2) by (simp add: unat_eq_nat_uint uint_word_of_int take_bit_int_eq_self)
    have "unat (p + word_of_int sz) = unat p + nat sz"
      using c assms(2) sz u by (subst unat_u32_add) (auto simp: word_less_nat_alt)
    with c show ?thesis by (simp add: word_le_nat_alt)
  qed
  moreover have "unat a + 4 \<le> unat (p_sz s)" if "fetchint a s = Some v"
  proof -
    have c: "a < p_sz s" "a + 4 \<le> p_sz s"
      using that by (auto simp: fetchint_def split: if_splits)
    then have "unat (a + 4) = unat a + 4" using sz by (subst unat_u32_add) (auto simp: word_less_nat_alt)
    with c(2) show ?thesis by (simp add: word_le_nat_alt)
  qed
  moreover have "fetchstr_loop (umem s) q (p_sz s) = Some t" if "argstr n s = Some (q, t)"
    using that by (auto simp: argstr_def fetchstr_def split: option.splits if_splits)
  ultimately show ?thesis using fetchstr_loop_Some by blast
qed

theorem syscall_args_in_bounds_witness:
  "\<forall>s :: unit kern. argptr 0 8 (fresh_process s) = Some 0 \<and> unat (0::u32) + nat 8 \<le> unat (p_sz (fresh_process s))"
proof
  fix s :: "unit kern"
  have "argptr 0 8 (fresh_process s) = Some 0"
    by (simp add: argptr_def argint_def fetchint_def fresh_process_def)
  then show "argptr 0 8 (fresh_process s) = Some 0 \<and> unat (0::u32) + nat 8 \<le> unat (p_sz (fresh_process s))"
    using syscall_args_in_bounds [of "fresh_process s" 8 0 0] by (simp add: fresh_process_def)
qed

text \<open>
  C38. The replacement clock always stops, after at most one round and one more page: it passes over the
  pages whose reference bit is set, clearing the bit, and takes the first page without the bit; when all
  twelve have it, it takes the page it started from.  The hand moves to the page after the victim.
\<close>

theorem clock_second_chance:
  assumes "length cs = CACHESIZE" and "axis < CACHESIZE"
  shows "\<exists>k cs'. k \<le> CACHESIZE \<and>
           clock_loop axis cs = Inr ((axis + k) mod CACHESIZE, (axis + k + 1) mod CACHESIZE, cs') \<and>
           (\<forall>j < k. c_ref (cs ! ((axis + j) mod CACHESIZE)) = 1) \<and>
           (k < CACHESIZE \<longrightarrow> c_ref (cs ! ((axis + k) mod CACHESIZE)) \<noteq> 1) \<and> length cs' = CACHESIZE \<and>
           (\<forall>i < CACHESIZE. cs' ! i = (if \<exists>j < k. i = (axis + j) mod CACHESIZE then (cs ! i)\<lparr>c_ref := 0\<rparr> else cs ! i))"
  by (rule clock_loop_result [OF assms])

definition used_page :: cached_page where
  "used_page = \<lparr>c_reference_time = 0, c_metaidx = 0, c_metapgidx = 0, c_page = [], c_dirty = 1, c_valid = 1,
     c_f = None, c_fd = 0, c_idx = 0, c_ref = 1, c_dev = 1\<rparr>"

theorem clock_second_chance_witness:
  "\<exists>cs'. clock_loop 5 (replicate 12 used_page) = Inr (5, 6, cs')"
proof -
  obtain k cs' where k: "k \<le> 12" "clock_loop 5 (replicate 12 used_page) = Inr ((5 + k) mod 12, (5 + k + 1) mod 12, cs')"
    "k < 12 \<longrightarrow> c_ref (replicate 12 used_page ! ((5 + k) mod 12)) \<noteq> 1"
    using clock_second_chance [of "replicate 12 used_page" 5] by auto
  have "c_ref (replicate 12 used_page ! ((5 + k) mod 12)) = 1"
    by (subst nth_replicate) (simp_all add: used_page_def)
  with k show ?thesis by auto
qed


end
