(* ===== verification/Proc.thy ===== *)
theory Proc
  imports Kalloc
begin

text \<open>
  The process table of \<^verbatim>\<open>proc.c\<close> as a state machine.  Everything between acquiring and releasing
  \<^verbatim>\<open>ptable.lock\<close> is one step; the steps of the processors interleave in any order.  The state keeps, beside
  the table, which process each processor runs (\<^verbatim>\<open>cpu->proc\<close>) and the local variable \<^verbatim>\<open>np\<close> of a process that is
  in the middle of \<^verbatim>\<open>fork\<close>.  The operations leave out what belongs to other components: the page tables
  (the outcome of \<^verbatim>\<open>copyuvm\<close> is an argument), open files and the current directory, registers and context
  switches, and the checks of \<^verbatim>\<open>sched\<close> on locks and interrupts.
\<close>

section \<open>State\<close>

datatype procstate = UNUSED | EMBRYO | SLEEPING | RUNNABLE | RUNNING | ZOMBIE

text \<open>A channel to sleep on is the address of a process, used by \<^verbatim>\<open>wait\<close>, or of something else.\<close>

datatype chan = ProcChan nat | Addr u32

record proc =
  pstate :: procstate
  pid :: int
  parent :: "nat option"
  chan :: "chan option"
  killed :: bool
  kstack :: u32
  pmeta :: nat

record ptable =
  procs :: "proc list"
  nextpid :: int
  initproc :: nat
  cpus :: "nat option list"
  np_of :: "nat \<Rightarrow> nat option"
  metaidx_flag :: "bool list"
  meta_table :: "nat list"
  pmem :: kmem
  pend :: u32

abbreviation (input) NPROC :: nat where
  "NPROC \<equiv> 64"

abbreviation (input) NMETA :: nat where
  "NMETA \<equiv> 70"

definition upd_proc :: "nat \<Rightarrow> (proc \<Rightarrow> proc) \<Rightarrow> ptable \<Rightarrow> ptable" where
  "upd_proc p g s = s\<lparr>procs := (procs s)[p := g (procs s ! p)]\<rparr>"

section \<open>Operations\<close>

text \<open>
  \<^verbatim>\<open>allocproc\<close>: the slot and its kernel stack.  When no entry of \<^verbatim>\<open>metaidx_flag\<close> is free the slot keeps the index it
  had; when there is no page for the stack the slot is free again, but the entry stays marked.
\<close>

definition allocproc :: "ptable \<Rightarrow> nat option \<times> ptable" where
  "allocproc s =
     (case List.find (\<lambda>p. pstate (procs s ! p) = UNUSED) [0..<length (procs s)] of
        None \<Rightarrow> (None, s)
      | Some p \<Rightarrow>
          let s1 = upd_proc p (\<lambda>x. x\<lparr>pstate := EMBRYO, pid := nextpid s\<rparr>) (s\<lparr>nextpid := nextpid s + 1\<rparr>);
              s2 = (case List.find (\<lambda>i. meta_table s1 ! i = 0xFF \<and> \<not> metaidx_flag s1 ! i) [0..<NMETA] of
                      None \<Rightarrow> s1
                    | Some i \<Rightarrow> upd_proc p (\<lambda>x. x\<lparr>pmeta := i\<rparr>) (s1\<lparr>metaidx_flag := (metaidx_flag s1)[i := True]\<rparr>));
              (k, m) = kalloc (pmem s2);
              s3 = upd_proc p (\<lambda>x. x\<lparr>kstack := k\<rparr>) (s2\<lparr>pmem := m\<rparr>)
          in if k = 0 then (None, upd_proc p (\<lambda>x. x\<lparr>pstate := UNUSED\<rparr>) s3) else (Some p, s3))"

text \<open>
  The table before the first process, and \<^verbatim>\<open>userinit\<close>; \<open>kvm\<close> says whether \<^verbatim>\<open>setupkvm\<close> found memory.  The result
  of \<^verbatim>\<open>allocproc\<close> is used without a check.
\<close>

definition empty_proc :: proc where
  "empty_proc = \<lparr>pstate = UNUSED, pid = 0, parent = None, chan = None, killed = False, kstack = 0, pmeta = 0\<rparr>"

definition boot_table :: "nat \<Rightarrow> u32 \<Rightarrow> kmem \<Rightarrow> ptable" where
  "boot_table ncpu e m = \<lparr>procs = replicate NPROC empty_proc, nextpid = 1, initproc = 0, cpus = replicate ncpu None,
     np_of = \<lambda>_. None, metaidx_flag = replicate NMETA False, meta_table = replicate NMETA 0xFF, pmem = m, pend = e\<rparr>"

definition userinit :: "bool \<Rightarrow> ptable \<Rightarrow> ptable result" where
  "userinit kvm s =
     (case allocproc s of
        (None, s1) \<Rightarrow> Inl Wild
      | (Some p, s1) \<Rightarrow>
          if kvm then Inr (upd_proc p (\<lambda>x. x\<lparr>pstate := RUNNABLE\<rparr>) (s1\<lparr>initproc := p\<rparr>))
          else Inl (Panic ''userinit: out of memory?''))"

text \<open>\<^verbatim>\<open>fork\<close> up to \<^verbatim>\<open>copyuvm\<close> and from there on; \<open>ok\<close> says whether the memory could be copied.\<close>

definition fork_begin :: "nat \<Rightarrow> ptable \<Rightarrow> ptable" where
  "fork_begin p s = (case allocproc s of (np, s1) \<Rightarrow> s1\<lparr>np_of := (np_of s1)(p := np)\<rparr>)"

definition fork_end :: "nat \<Rightarrow> bool \<Rightarrow> ptable \<Rightarrow> (int \<times> ptable) result" where
  "fork_end p ok s =
     (case np_of s p of
        None \<Rightarrow> Inr (-1, s)
      | Some np \<Rightarrow>
          let s1 = s\<lparr>np_of := (np_of s)(p := None)\<rparr> in
          if \<not> ok then
            bindE (kfree (pend s1) (kstack (procs s1 ! np)) (pmem s1)) (\<lambda>m.
            Inr (-1, upd_proc np (\<lambda>x. x\<lparr>kstack := 0, pstate := UNUSED\<rparr>) (s1\<lparr>pmem := m\<rparr>)))
          else
            Inr (pid (procs s1 ! np), upd_proc np (\<lambda>x. x\<lparr>parent := Some p, pstate := RUNNABLE\<rparr>) s1))"

definition wakeup1 :: "chan \<Rightarrow> ptable \<Rightarrow> ptable" where
  "wakeup1 c s = s\<lparr>procs := map (\<lambda>x. if pstate x = SLEEPING \<and> chan x = Some c then x\<lparr>pstate := RUNNABLE\<rparr> else x) (procs s)\<rparr>"

text \<open>The loop of \<^verbatim>\<open>exit\<close> that passes the children on to \<^verbatim>\<open>initproc\<close>.\<close>

definition pass_child :: "nat \<Rightarrow> nat \<Rightarrow> ptable \<Rightarrow> ptable" where
  "pass_child cur p s =
     (if parent (procs s ! p) = Some cur then
        let s1 = upd_proc p (\<lambda>x. x\<lparr>parent := Some (initproc s)\<rparr>) s in
        if pstate (procs s1 ! p) = ZOMBIE then wakeup1 (ProcChan (initproc s1)) s1 else s1
      else s)"

definition leave :: "nat \<Rightarrow> ptable \<Rightarrow> ptable" where
  "leave c s = s\<lparr>cpus := (cpus s)[c := None]\<rparr>"

text \<open>\<^verbatim>\<open>exit\<close> of the process \<open>cur\<close> on processor \<open>c\<close>, from giving up its index of the page cache to \<^verbatim>\<open>sched\<close>.\<close>

definition exit_proc :: "nat \<Rightarrow> nat \<Rightarrow> ptable \<Rightarrow> ptable result" where
  "exit_proc c cur s =
     (if cur = initproc s then Inl (Panic ''init exiting'')
      else
        let i = pmeta (procs s ! cur);
            s1 = s\<lparr>meta_table := (meta_table s)[i := 0xFF], metaidx_flag := (metaidx_flag s)[i := False]\<rparr>
        in case parent (procs s1 ! cur) of
             None \<Rightarrow> Inl Wild
           | Some q \<Rightarrow>
               let s2 = fold (pass_child cur) [0..<length (procs s1)] (wakeup1 (ProcChan q) s1);
                   s3 = upd_proc cur (\<lambda>x. x\<lparr>pstate := ZOMBIE\<rparr>) s2
               in Inr (leave c s3))"

datatype wait_result = Reaped int | NoChild | Sleeps

text \<open>\<^verbatim>\<open>wait\<close>: one turn of its loop, up to returning or to the \<^verbatim>\<open>sched\<close> of \<^verbatim>\<open>sleep(curproc, &ptable.lock)\<close>.\<close>

definition wait_turn :: "nat \<Rightarrow> nat \<Rightarrow> ptable \<Rightarrow> (wait_result \<times> ptable) result" where
  "wait_turn c cur s =
     (let kids = filter (\<lambda>p. parent (procs s ! p) = Some cur) [0..<length (procs s)] in
      case List.find (\<lambda>p. pstate (procs s ! p) = ZOMBIE) kids of
        Some p \<Rightarrow>
          bindE (kfree (pend s) (kstack (procs s ! p)) (pmem s)) (\<lambda>m.
          Inr (Reaped (pid (procs s ! p)),
               upd_proc p (\<lambda>x. x\<lparr>kstack := 0, pid := 0, parent := None, killed := False, pstate := UNUSED\<rparr>)
                 (s\<lparr>pmem := m\<rparr>)))
      | None \<Rightarrow>
          if kids = [] \<or> killed (procs s ! cur) then Inr (NoChild, s)
          else Inr (Sleeps, leave c (upd_proc cur (\<lambda>x. x\<lparr>chan := Some (ProcChan cur), pstate := SLEEPING\<rparr>) s)))"

text \<open>
  \<^verbatim>\<open>scheduler\<close>: switching to the process \<open>p\<close>, which goes on where it called \<^verbatim>\<open>sched\<close>: a process that slept clears its
  channel at the end of \<^verbatim>\<open>sleep\<close>, still under the lock, and any other has none.
\<close>

definition schedule :: "nat \<Rightarrow> nat \<Rightarrow> ptable \<Rightarrow> ptable" where
  "schedule c p s = upd_proc p (\<lambda>x. x\<lparr>pstate := RUNNING, chan := None\<rparr>) (s\<lparr>cpus := (cpus s)[c := Some p]\<rparr>)"

definition yield_cpu :: "nat \<Rightarrow> nat \<Rightarrow> ptable \<Rightarrow> ptable" where
  "yield_cpu c p s = leave c (upd_proc p (\<lambda>x. x\<lparr>pstate := RUNNABLE\<rparr>) s)"

text \<open>
  \<^verbatim>\<open>sleep\<close> on processor \<open>c\<close> up to \<^verbatim>\<open>sched\<close>; \<open>lk\<close> is the address of the lock to give up.
\<close>

definition sleep_on :: "nat \<Rightarrow> chan \<Rightarrow> u32 \<Rightarrow> ptable \<Rightarrow> ptable result" where
  "sleep_on c ch lk s =
     (case cpus s ! c of
        None \<Rightarrow> Inl (Panic ''sleep'')
      | Some p \<Rightarrow>
          if lk = 0 then Inl (Panic ''sleep without lk'')
          else Inr (leave c (upd_proc p (\<lambda>x. x\<lparr>chan := Some ch, pstate := SLEEPING\<rparr>) s)))"

definition wakeup :: "chan \<Rightarrow> ptable \<Rightarrow> ptable" where
  "wakeup ch s = wakeup1 ch s"

definition kill :: "int \<Rightarrow> ptable \<Rightarrow> int \<times> ptable" where
  "kill pid0 s =
     (case List.find (\<lambda>p. pid (procs s ! p) = pid0) [0..<length (procs s)] of
        None \<Rightarrow> (-1, s)
      | Some p \<Rightarrow>
          (0, upd_proc p (\<lambda>x. x\<lparr>killed := True, pstate := if pstate x = SLEEPING then RUNNABLE else pstate x\<rparr>) s))"

section \<open>The state machine\<close>

text \<open>
  A step of processor \<open>c\<close>: it picks a runnable process, or the process it runs makes a call.  A process in the
  middle of \<^verbatim>\<open>fork\<close> can only be interrupted or finish.  Interrupts may wake sleepers at any time.
\<close>

inductive pstep :: "ptable \<Rightarrow> ptable \<Rightarrow> bool" where
  do_schedule: "c < length (cpus s) \<Longrightarrow> cpus s ! c = None \<Longrightarrow> p < length (procs s) \<Longrightarrow>
     pstate (procs s ! p) = RUNNABLE \<Longrightarrow> pstep s (schedule c p s)"
| do_yield: "c < length (cpus s) \<Longrightarrow> cpus s ! c = Some p \<Longrightarrow> pstep s (yield_cpu c p s)"
| do_fork_begin: "c < length (cpus s) \<Longrightarrow> cpus s ! c = Some p \<Longrightarrow> np_of s p = None \<Longrightarrow> pstep s (fork_begin p s)"
| do_fork_end: "c < length (cpus s) \<Longrightarrow> cpus s ! c = Some p \<Longrightarrow> fork_end p ok s = Inr (r, s') \<Longrightarrow> pstep s s'"
| do_exit: "c < length (cpus s) \<Longrightarrow> cpus s ! c = Some p \<Longrightarrow> np_of s p = None \<Longrightarrow>
     exit_proc c p s = Inr s' \<Longrightarrow> pstep s s'"
| do_wait: "c < length (cpus s) \<Longrightarrow> cpus s ! c = Some p \<Longrightarrow> np_of s p = None \<Longrightarrow>
     wait_turn c p s = Inr (r, s') \<Longrightarrow> pstep s s'"
| do_sleep: "c < length (cpus s) \<Longrightarrow> cpus s ! c = Some p \<Longrightarrow> np_of s p = None \<Longrightarrow>
     sleep_on c (Addr a) lk s = Inr s' \<Longrightarrow> pstep s s'"
| do_wakeup: "pstep s (wakeup (Addr a) s)"
| do_kill: "c < length (cpus s) \<Longrightarrow> cpus s ! c = Some p \<Longrightarrow> kill n s = (r, s') \<Longrightarrow> pstep s s'"

inductive_cases pstepE: "pstep s s'"

section \<open>The invariant\<close>

text \<open>The fields of the table as functions of the slot; slots outside the table are unused.\<close>

definition st :: "ptable \<Rightarrow> nat \<Rightarrow> procstate" where
  "st s p = (if p < length (procs s) then pstate (procs s ! p) else UNUSED)"

definition par :: "ptable \<Rightarrow> nat \<Rightarrow> nat option" where
  "par s p = (if p < length (procs s) then parent (procs s ! p) else None)"

definition chn :: "ptable \<Rightarrow> nat \<Rightarrow> chan option" where
  "chn s p = (if p < length (procs s) then chan (procs s ! p) else None)"

fun live :: "procstate \<Rightarrow> bool" where
  "live SLEEPING = True"
| "live RUNNABLE = True"
| "live RUNNING = True"
| "live _ = False"

lemma live_iff: "live x \<longleftrightarrow> x = SLEEPING \<or> x = RUNNABLE \<or> x = RUNNING"
  by (cases x) auto

text \<open>
  \<open>on_cpu\<close>: the running processes are those on a processor, each on one.  \<open>family\<close>: the first process is
  live and has no parent, slots that are not in use have no parent, and every other process has another,
  live process as parent.  \<open>waiters\<close>: a process that sleeps in \<^verbatim>\<open>wait\<close> has a child and no child of it is a zombie.
  \<open>forks\<close>: a process in \<^verbatim>\<open>fork\<close> owns the embryo it makes.
\<close>

definition on_cpu :: "(nat \<Rightarrow> procstate) \<Rightarrow> nat option list \<Rightarrow> bool" where
  "on_cpu S C \<longleftrightarrow>
     (\<forall>p. S p = RUNNING \<longleftrightarrow> (\<exists>c < length C. C ! c = Some p)) \<and>
     (\<forall>c d p. c < length C \<longrightarrow> d < length C \<longrightarrow> C ! c = Some p \<longrightarrow> C ! d = Some p \<longrightarrow> c = d)"

definition family :: "(nat \<Rightarrow> procstate) \<Rightarrow> (nat \<Rightarrow> nat option) \<Rightarrow> nat \<Rightarrow> bool" where
  "family S P i \<longleftrightarrow> live (S i) \<and> P i = None \<and>
     (\<forall>p. S p = UNUSED \<or> S p = EMBRYO \<longrightarrow> P p = None) \<and>
     (\<forall>p. S p \<noteq> UNUSED \<longrightarrow> S p \<noteq> EMBRYO \<longrightarrow> p \<noteq> i \<longrightarrow> (\<exists>q. P p = Some q \<and> q \<noteq> p \<and> live (S q)))"

definition waiters :: "(nat \<Rightarrow> procstate) \<Rightarrow> (nat \<Rightarrow> nat option) \<Rightarrow> (nat \<Rightarrow> chan option) \<Rightarrow> bool" where
  "waiters S P H \<longleftrightarrow>
     (\<forall>p q. S p = SLEEPING \<longrightarrow> H p = Some (ProcChan q) \<longrightarrow>
        q = p \<and> (\<exists>k. P k = Some p) \<and> (\<forall>k. P k = Some p \<longrightarrow> S k \<noteq> ZOMBIE))"

definition forks :: "(nat \<Rightarrow> procstate) \<Rightarrow> (nat \<Rightarrow> nat option) \<Rightarrow> bool" where
  "forks S N \<longleftrightarrow>
     (\<forall>p e. N p = Some e \<longrightarrow> live (S p) \<and> S e = EMBRYO) \<and>
     (\<forall>p q e. N p = Some e \<longrightarrow> N q = Some e \<longrightarrow> p = q)"

definition pinv :: "ptable \<Rightarrow> bool" where
  "pinv s \<longleftrightarrow> on_cpu (st s) (cpus s) \<and> family (st s) (par s) (initproc s) \<and>
     waiters (st s) (par s) (chn s) \<and> forks (st s) (np_of s)"

lemmas pinv_defs = on_cpu_def family_def waiters_def forks_def

text \<open>The operations in terms of these functions.\<close>

lemma upd_proc_view:
  assumes "p < length (procs s)"
  shows "st (upd_proc p g s) = (st s)(p := pstate (g (procs s ! p)))"
    and "par (upd_proc p g s) = (par s)(p := parent (g (procs s ! p)))"
    and "chn (upd_proc p g s) = (chn s)(p := chan (g (procs s ! p)))"
  using assms by (auto simp: st_def par_def chn_def upd_proc_def fun_eq_iff)

lemma upd_proc_rest [simp]:
  "cpus (upd_proc p g s) = cpus s" "np_of (upd_proc p g s) = np_of s" "initproc (upd_proc p g s) = initproc s"
  "length (procs (upd_proc p g s)) = length (procs s)"
  by (simp_all add: upd_proc_def)

lemma view_simps [simp]:
  "st (s\<lparr>cpus := c\<rparr>) = st s" "par (s\<lparr>cpus := c\<rparr>) = par s" "chn (s\<lparr>cpus := c\<rparr>) = chn s"
  "st (s\<lparr>initproc := k\<rparr>) = st s" "par (s\<lparr>initproc := k\<rparr>) = par s" "chn (s\<lparr>initproc := k\<rparr>) = chn s"
  "st (s\<lparr>np_of := n\<rparr>) = st s" "par (s\<lparr>np_of := n\<rparr>) = par s" "chn (s\<lparr>np_of := n\<rparr>) = chn s"
  "st (s\<lparr>pmem := m\<rparr>) = st s" "par (s\<lparr>pmem := m\<rparr>) = par s" "chn (s\<lparr>pmem := m\<rparr>) = chn s"
  "st (s\<lparr>nextpid := i\<rparr>) = st s" "par (s\<lparr>nextpid := i\<rparr>) = par s" "chn (s\<lparr>nextpid := i\<rparr>) = chn s"
  "st (s\<lparr>metaidx_flag := f\<rparr>) = st s" "par (s\<lparr>metaidx_flag := f\<rparr>) = par s" "chn (s\<lparr>metaidx_flag := f\<rparr>) = chn s"
  "st (s\<lparr>meta_table := t\<rparr>) = st s" "par (s\<lparr>meta_table := t\<rparr>) = par s" "chn (s\<lparr>meta_table := t\<rparr>) = chn s"
  by (simp_all add: st_def par_def chn_def fun_eq_iff)

lemma in_table: "st s p \<noteq> UNUSED \<Longrightarrow> p < length (procs s)"
  by (auto simp: st_def split: if_splits)

lemma table_nth: "p < length (procs s) \<Longrightarrow> pstate (procs s ! p) = st s p \<and> parent (procs s ! p) = par s p \<and> chan (procs s ! p) = chn s p"
  by (simp add: st_def par_def chn_def)

definition wake :: "chan \<Rightarrow> (nat \<Rightarrow> chan option) \<Rightarrow> (nat \<Rightarrow> procstate) \<Rightarrow> nat \<Rightarrow> procstate" where
  "wake c H S = (\<lambda>p. if S p = SLEEPING \<and> H p = Some c then RUNNABLE else S p)"

lemma wakeup1_view [simp]:
  "st (wakeup1 c s) = wake c (chn s) (st s)" "par (wakeup1 c s) = par s" "chn (wakeup1 c s) = chn s"
  "cpus (wakeup1 c s) = cpus s" "np_of (wakeup1 c s) = np_of s" "initproc (wakeup1 c s) = initproc s"
  "length (procs (wakeup1 c s)) = length (procs s)"
  by (auto simp: wakeup1_def st_def par_def chn_def wake_def fun_eq_iff)

lemma wake_zombie [simp]: "wake c H S p = ZOMBIE \<longleftrightarrow> S p = ZOMBIE"
  by (simp add: wake_def)

lemma wake_wake [simp]: "wake c H (wake c H S) = wake c H S"
  by (auto simp: wake_def fun_eq_iff)

lemma wake_live [simp]: "live (wake c H S p) = live (S p)"
  by (simp add: wake_def live_iff)

lemma wake_other:
  "wake c H S p = RUNNING \<longleftrightarrow> S p = RUNNING" "wake c H S p = UNUSED \<longleftrightarrow> S p = UNUSED"
  "wake c H S p = EMBRYO \<longleftrightarrow> S p = EMBRYO" "wake c H S p = SLEEPING \<Longrightarrow> S p = SLEEPING \<and> H p \<noteq> Some c"
  by (auto simp: wake_def split: if_splits)

text \<open>Waking never breaks the invariant.\<close>

lemma wake_inv:
  "on_cpu S C \<Longrightarrow> on_cpu (wake c H S) C" "family S P i \<Longrightarrow> family (wake c H S) P i"
  "waiters S P H \<Longrightarrow> waiters (wake c H S) P H" "forks S N \<Longrightarrow> forks (wake c H S) N"
proof -
  show "waiters S P H \<Longrightarrow> waiters (wake c H S) P H"
    unfolding waiters_def using wake_other(4) [of c H S] wake_zombie [of c H S] by blast
qed (simp_all add: on_cpu_def family_def forks_def wake_other)

section \<open>Preservation\<close>

text \<open>Processors: a process is put on an idle processor or taken off.\<close>

lemma on_cpu_put:
  assumes "on_cpu S C" and "c < length C" and "C ! c = None" and "S p \<noteq> RUNNING"
  shows "on_cpu (S(p := RUNNING)) (C[c := Some p])"
proof -
  have np: "C ! d \<noteq> Some p" if "d < length C" for d using assms(1,4) that by (auto simp: on_cpu_def)
  have "(S(p := RUNNING)) q = RUNNING \<longleftrightarrow> (\<exists>d < length (C[c := Some p]). C[c := Some p] ! d = Some q)" for q
  proof (cases "q = p")
    case True
    then show ?thesis using assms(2) by (auto intro!: exI [of _ c])
  next
    case False
    then have "(\<exists>d < length C. C[c := Some p] ! d = Some q) \<longleftrightarrow> (\<exists>d < length C. C ! d = Some q)"
      using assms(2,3) by (metis nth_list_update_eq nth_list_update_neq option.distinct(1) option.inject)
    then show ?thesis using False assms(1) by (simp add: on_cpu_def)
  qed
  moreover have "d = e" if "d < length C" "e < length C" "C[c := Some p] ! d = Some q" "C[c := Some p] ! e = Some q" for d e q
    using that assms(1,2) np by (cases "d = c"; cases "e = c") (auto simp: on_cpu_def nth_list_update)
  ultimately show ?thesis unfolding on_cpu_def by auto
qed

lemma on_cpu_take:
  assumes "on_cpu S C" and "c < length C" and "C ! c = Some p" and "x \<noteq> RUNNING"
  shows "on_cpu (S(p := x)) (C[c := None])"
proof -
  have only: "d = c" if "d < length C" "C ! d = Some p" for d using assms(1,2,3) that by (auto simp: on_cpu_def)
  have "(S(p := x)) q = RUNNING \<longleftrightarrow> (\<exists>d < length (C[c := None]). C[c := None] ! d = Some q)" for q
  proof (cases "q = p")
    case True
    have "C[c := None] ! d \<noteq> Some p" if "d < length C" for d
      using that only assms(2) by (cases "d = c") auto
    with True show ?thesis using assms(4) by auto
  next
    case False
    then have "S q = RUNNING \<longleftrightarrow> (\<exists>d < length C. d \<noteq> c \<and> C ! d = Some q)"
      using assms(1,3) by (auto simp: on_cpu_def)
    moreover have "(\<exists>d < length C. C[c := None] ! d = Some q) \<longleftrightarrow> (\<exists>d < length C. d \<noteq> c \<and> C ! d = Some q)"
      using assms(2) by (metis nth_list_update_eq nth_list_update_neq option.distinct(1))
    ultimately show ?thesis using False by simp
  qed
  moreover have "d = e" if "d < length C" "e < length C" "C[c := None] ! d = Some q" "C[c := None] ! e = Some q" for d e q
    using that assms(1,2) by (cases "d = c"; cases "e = c") (auto simp: on_cpu_def)
  ultimately show ?thesis unfolding on_cpu_def by auto
qed

lemma on_cpu_other:
  assumes "on_cpu S C" and "S p \<noteq> RUNNING" and "x \<noteq> RUNNING"
  shows "on_cpu (S(p := x)) C"
proof -
  have "(S(p := x)) q = RUNNING \<longleftrightarrow> S q = RUNNING" for q using assms(2,3) by simp
  then show ?thesis using assms(1) unfolding on_cpu_def by presburger
qed

text \<open>Changes of the state of a live process to another live state.\<close>

lemma live_change:
  assumes "live (S p)" and "live x"
  shows "family S P i \<Longrightarrow> family (S(p := x)) P i" and "forks S N \<Longrightarrow> forks (S(p := x)) N"
proof -
  have 1: "live ((S(p := x)) q) = live (S q)" and
    2: "(S(p := x)) q = UNUSED \<longleftrightarrow> S q = UNUSED" "(S(p := x)) q = EMBRYO \<longleftrightarrow> S q = EMBRYO" for q
    using assms by (auto simp: live_iff)
  show "family S P i \<Longrightarrow> family (S(p := x)) P i" unfolding family_def 1 2 .
  show "forks S N \<Longrightarrow> forks (S(p := x)) N" unfolding forks_def 1 2 .
qed

lemma waiters_change:
  assumes "waiters S P H" and "x \<noteq> ZOMBIE" and "x \<noteq> SLEEPING"
  shows "waiters (S(p := x)) P H"
  using assms unfolding waiters_def by (metis fun_upd_apply)

lemma waiters_chan: "waiters S P H \<Longrightarrow> S p \<noteq> SLEEPING \<Longrightarrow> waiters S P (H(p := y))"
  unfolding waiters_def by auto

lemma running_live: "S p = RUNNING \<Longrightarrow> live (S p)"
  by simp

lemma leave_simps [simp]:
  "st (leave c s) = st s" "par (leave c s) = par s" "chn (leave c s) = chn s" "np_of (leave c s) = np_of s"
  "initproc (leave c s) = initproc s" "cpus (leave c s) = (cpus s)[c := None]"
  by (simp_all add: leave_def)

lemma cpu_running: "pinv s \<Longrightarrow> c < length (cpus s) \<Longrightarrow> cpus s ! c = Some p \<Longrightarrow> st s p = RUNNING \<and> p < length (procs s)"
  by (metis in_table on_cpu_def pinv_def procstate.distinct(7))

lemma schedule_pinv:
  assumes "pinv s" and "c < length (cpus s)" and "cpus s ! c = None" and "p < length (procs s)"
    and "pstate (procs s ! p) = RUNNABLE"
  shows "pinv (schedule c p s)"
proof -
  have r: "st s p = RUNNABLE" using assms(4,5) by (simp add: st_def)
  have v: "st (schedule c p s) = (st s)(p := RUNNING)" "par (schedule c p s) = par s" "chn (schedule c p s) = (chn s)(p := None)"
    using assms(4) upd_proc_view [of p "s\<lparr>cpus := (cpus s)[c := Some p]\<rparr>"]
    by (auto simp: schedule_def table_nth)
  have "cpus (schedule c p s) = (cpus s)[c := Some p]" "np_of (schedule c p s) = np_of s"
    "initproc (schedule c p s) = initproc s" by (simp_all add: schedule_def)
  then show ?thesis
    using assms(1-3) r v on_cpu_put [of "st s" "cpus s" c p] live_change [of "st s" p RUNNING]
      waiters_change [of "st s" "par s" "chn s" RUNNING p] waiters_chan [of "(st s)(p := RUNNING)" "par s" "chn s" p]
    by (simp add: pinv_def)
qed

lemma yield_pinv:
  assumes "pinv s" and "c < length (cpus s)" and "cpus s ! c = Some p"
  shows "pinv (yield_cpu c p s)"
proof -
  note r = cpu_running [OF assms]
  have v: "st (yield_cpu c p s) = (st s)(p := RUNNABLE)" "par (yield_cpu c p s) = par s" "chn (yield_cpu c p s) = chn s"
    using r upd_proc_view [of p s] by (auto simp: yield_cpu_def table_nth)
  show ?thesis
    using assms r v on_cpu_take [of "st s" "cpus s" c p RUNNABLE] live_change [of "st s" p RUNNABLE]
      waiters_change [of "st s" "par s" "chn s" RUNNABLE p]
    by (simp add: pinv_def yield_cpu_def)
qed

lemma sleep_pinv:
  assumes "pinv s" and "c < length (cpus s)" and "cpus s ! c = Some p" and "sleep_on c (Addr a) lk s = Inr s'"
  shows "pinv s'"
proof -
  note r = cpu_running [OF assms(1-3)]
  have s': "s' = leave c (upd_proc p (\<lambda>x. x\<lparr>chan := Some (Addr a), pstate := SLEEPING\<rparr>) s)"
    using assms(3,4) by (simp add: sleep_on_def split: if_splits)
  have v: "st s' = (st s)(p := SLEEPING)" "par s' = par s" "chn s' = (chn s)(p := Some (Addr a))"
    using r upd_proc_view [of p s] by (auto simp: s' table_nth)
  have "waiters ((st s)(p := SLEEPING)) (par s) ((chn s)(p := Some (Addr a)))"
    using assms(1) unfolding pinv_def waiters_def by auto
  then show ?thesis
    using assms r v on_cpu_take [of "st s" "cpus s" c p SLEEPING] live_change [of "st s" p SLEEPING]
    by (simp add: pinv_def s')
qed

lemma wakeup_pinv: "pinv s \<Longrightarrow> pinv (wakeup ch s)"
  by (simp add: pinv_def wakeup_def wake_inv)

lemma kill_pinv:
  assumes "pinv s" and "kill n s = (r, s')"
  shows "pinv s'"
proof (cases "List.find (\<lambda>p. pid (procs s ! p) = n) [0..<length (procs s)]")
  case None
  with assms show ?thesis by (simp add: kill_def)
next
  case (Some p)
  then have p: "p < length (procs s)" by (auto simp: find_Some_iff)
  have s': "s' = upd_proc p (\<lambda>x. x\<lparr>killed := True, pstate := if pstate x = SLEEPING then RUNNABLE else pstate x\<rparr>) s"
    using assms(2) Some by (simp add: kill_def)
  have v: "st s' = (if st s p = SLEEPING then (st s)(p := RUNNABLE) else st s)" "par s' = par s" "chn s' = chn s"
    using p upd_proc_view [of p s] by (auto simp: s' table_nth)
  show ?thesis
  proof (cases "st s p = SLEEPING")
    case True
    then show ?thesis
      using assms(1) v on_cpu_other [of "st s" "cpus s" p RUNNABLE] live_change [of "st s" p RUNNABLE]
        waiters_change [of "st s" "par s" "chn s" RUNNABLE p]
      by (simp add: pinv_def s')
  next
    case False
    then show ?thesis using assms(1) v by (simp add: pinv_def s')
  qed
qed

lemma allocproc_view:
  assumes "allocproc s = (r, s')"
  shows "cpus s' = cpus s" "initproc s' = initproc s" "np_of s' = np_of s" "par s' = par s" "chn s' = chn s"
    and "r = None \<Longrightarrow> st s' = st s"
    and "r = Some p \<Longrightarrow> st s p = UNUSED \<and> p < length (procs s) \<and> st s' = (st s)(p := EMBRYO)"
proof -
  have "cpus s' = cpus s \<and> initproc s' = initproc s \<and> np_of s' = np_of s \<and> par s' = par s \<and> chn s' = chn s \<and>
     (r = None \<longrightarrow> st s' = st s) \<and> (\<forall>p. r = Some p \<longrightarrow> st s p = UNUSED \<and> p < length (procs s) \<and> st s' = (st s)(p := EMBRYO))"
  proof (cases "List.find (\<lambda>p. pstate (procs s ! p) = UNUSED) [0..<length (procs s)]")
    case None
    with assms show ?thesis by (simp add: allocproc_def)
  next
    case (Some p)
    then have p: "p < length (procs s)" "st s p = UNUSED" by (auto simp: find_Some_iff st_def)
    note v = upd_proc_view [of p]
    show ?thesis
      using assms Some p
      by (auto simp: allocproc_def Let_def v table_nth fun_eq_iff upd_proc_def [of p _ s] split: option.splits prod.splits if_splits)
  qed
  then show "cpus s' = cpus s" "initproc s' = initproc s" "np_of s' = np_of s" "par s' = par s" "chn s' = chn s"
    "r = None \<Longrightarrow> st s' = st s"
    "r = Some p \<Longrightarrow> st s p = UNUSED \<and> p < length (procs s) \<and> st s' = (st s)(p := EMBRYO)"
    by simp_all
qed

text \<open>\<^verbatim>\<open>fork\<close>: the new slot is an embryo of this process only.\<close>

text \<open>A slot that holds no live process may change its state and its parent together.\<close>

lemma family_upd:
  assumes "family S P i" and "\<not> live (S e)"
    and y: "if x = UNUSED \<or> x = EMBRYO then y = None else \<exists>q. y = Some q \<and> q \<noteq> e \<and> live (S q)"
  shows "family (S(e := x)) (P(e := y)) i"
  unfolding family_def
proof (intro conjI allI impI)
  note f = assms(1) [unfolded family_def]
  have i: "i \<noteq> e" using f assms(2) by auto
  show "live ((S(e := x)) i)" "(P(e := y)) i = None" using f i by simp_all
  show "(P(e := y)) p = None" if "(S(e := x)) p = UNUSED \<or> (S(e := x)) p = EMBRYO" for p
    using f that y by (cases "p = e") auto
  show "\<exists>q. (P(e := y)) p = Some q \<and> q \<noteq> p \<and> live ((S(e := x)) q)"
    if p: "(S(e := x)) p \<noteq> UNUSED" "(S(e := x)) p \<noteq> EMBRYO" "p \<noteq> i" for p
  proof -
    obtain q where "(P(e := y)) p = Some q" "q \<noteq> p" "live (S q)"
    proof (cases "p = e")
      case True
      then show thesis using p(1,2) y that by (auto split: if_splits)
    next
      case False
      then show thesis using p f that by auto
    qed
    moreover from \<open>live (S q)\<close> have "q \<noteq> e" using assms(2) by auto
    ultimately show ?thesis by auto
  qed
qed

lemma forks_unused:
  assumes "S e = UNUSED" and "live (S p)" and "forks S N" and "N p = None"
  shows "forks (S(e := EMBRYO)) (N(p := Some e))"
proof -
  have "N e = None" using assms(1,3) unfolding forks_def by (metis live.simps(4) option.exhaust)
  with assms show ?thesis unfolding forks_def by auto
qed

lemma waiters_child:
  assumes "waiters S P H" and "P e = None" and "S p = RUNNING"
  shows "waiters (S(e := RUNNABLE)) (P(e := Some p)) H"
  unfolding waiters_def
proof (intro allI impI)
  fix k q
  assume k: "(S(e := RUNNABLE)) k = SLEEPING" and h: "H k = Some (ProcChan q)"
  have "S k = SLEEPING" using k by (auto split: if_splits)
  then have "q = k" "\<exists>x. P x = Some k" "\<And>x. P x = Some k \<Longrightarrow> S x \<noteq> ZOMBIE" "k \<noteq> p"
    using assms(1,3) h unfolding waiters_def by auto
  with assms(2) show "q = k \<and> (\<exists>x. (P(e := Some p)) x = Some k) \<and>
      (\<forall>x. (P(e := Some p)) x = Some k \<longrightarrow> (S(e := RUNNABLE)) x \<noteq> ZOMBIE)"
    by (metis fun_upd_apply option.distinct(1) option.inject procstate.distinct(25))
qed

lemma fork_begin_pinv:
  assumes "pinv s" and "c < length (cpus s)" and "cpus s ! c = Some p" and "np_of s p = None"
  shows "pinv (fork_begin p s)"
proof -
  note r = cpu_running [OF assms(1-3)]
  obtain e s1 where a: "allocproc s = (e, s1)" by (cases "allocproc s")
  note v = allocproc_view [OF a]
  show ?thesis
  proof (cases e)
    case None
    then have "(np_of s)(p := None) = np_of s" using assms(4) by auto
    then show ?thesis using assms(1) v(1-6) None by (simp add: pinv_def fork_begin_def a)
  next
    case (Some x)
    note x = v(7) [OF Some]
    then have "par s x = None" using assms(1) by (simp add: pinv_def family_def)
    then have "(par s)(x := None) = par s" by auto
    then have "family ((st s)(x := EMBRYO)) (par s) (initproc s)"
      using family_upd [of "st s" "par s" "initproc s" x EMBRYO None] assms(1) x by (simp add: pinv_def)
    then show ?thesis
      using assms(1,4) r v(1-5) Some x on_cpu_other [of "st s" "cpus s" x EMBRYO] forks_unused [of "st s" x p "np_of s"]
        waiters_change [of "st s" "par s" "chn s" EMBRYO x]
      by (simp add: pinv_def fork_begin_def a)
  qed
qed

lemma fork_end_pinv:
  assumes "pinv s" and "c < length (cpus s)" and "cpus s ! c = Some p" and "fork_end p ok s = Inr (r, s')"
  shows "pinv s'"
proof (cases "np_of s p")
  case None
  with assms show ?thesis by (simp add: fork_end_def)
next
  case (Some e)
  note run = cpu_running [OF assms(1-3)]
  have e: "st s e = EMBRYO" "\<And>q. np_of s q = Some e \<Longrightarrow> q = p" "par s e = None"
    using assms(1) Some unfolding pinv_def forks_def family_def by blast+
  then have len: "e < length (procs s)" by (intro in_table) simp
  note v = upd_proc_view [OF len]
  have fk: "forks ((st s)(e := x)) ((np_of s)(p := None))" if "x \<noteq> EMBRYO" for x
  proof -
    have "np_of s e = None"
      using assms(1) e(1) unfolding pinv_def forks_def by (metis live.simps(5) option.exhaust)
    then show ?thesis using assms(1) e Some that unfolding pinv_def forks_def by auto
  qed
  have oc: "on_cpu ((st s)(e := x)) (cpus s)" if "x \<noteq> RUNNING" for x
    using assms(1) e(1) on_cpu_other that by (simp add: pinv_def)
  have pe: "(par s)(e := None) = par s" using e(3) by auto
  show ?thesis
  proof (cases ok)
    case True
    have s': "st s' = (st s)(e := RUNNABLE)" "par s' = (par s)(e := Some p)" "chn s' = chn s"
      "cpus s' = cpus s" "initproc s' = initproc s" "np_of s' = (np_of s)(p := None)"
      using assms(4) Some True len
      by (auto simp: fork_end_def upd_proc_def st_def par_def chn_def fun_eq_iff nth_list_update)
    have "p \<noteq> e" using e(1) run by auto
    then have "family (st s') (par s') (initproc s')"
      using assms(1) e(1) run family_upd [of "st s" "par s" "initproc s" e RUNNABLE "Some p"] by (simp add: pinv_def s')
    moreover have "waiters (st s') (par s') (chn s')"
      unfolding s' using assms(1) e(3) run by (intro waiters_child) (auto simp: pinv_def)
    ultimately show ?thesis using fk [of RUNNABLE] oc [of RUNNABLE] by (simp add: pinv_def s')
  next
    case False
    have s': "st s' = (st s)(e := UNUSED)" "par s' = par s" "chn s' = chn s"
      "cpus s' = cpus s" "initproc s' = initproc s" "np_of s' = (np_of s)(p := None)"
      using assms(4) Some False len
      by (auto simp: fork_end_def bindE_eq_Inr upd_proc_def st_def par_def chn_def fun_eq_iff nth_list_update)
    have "family (st s') (par s') (initproc s')"
      using assms(1) e family_upd [of "st s" "par s" "initproc s" e UNUSED None] by (simp add: pinv_def s' pe)
    then show ?thesis
      using assms(1) fk [of UNUSED] oc [of UNUSED] waiters_change [of "st s" "par s" "chn s" UNUSED e] by (simp add: pinv_def s')
  qed
qed

lemma find_SomeD: "List.find Q xs = Some x \<Longrightarrow> x \<in> set xs \<and> Q x"
  by (induction xs) (auto split: if_splits)

text \<open>\<^verbatim>\<open>wait\<close>: reaping a zombie child, or going to sleep with children none of which is a zombie.\<close>

lemma reap_inv:
  assumes "S z = ZOMBIE"
  shows "family S P i \<Longrightarrow> family (S(z := UNUSED)) (P(z := None)) i"
    and "waiters S P H \<Longrightarrow> waiters (S(z := UNUSED)) (P(z := None)) H"
    and "forks S N \<Longrightarrow> forks (S(z := UNUSED)) N"
proof -
  show "family (S(z := UNUSED)) (P(z := None)) i" if "family S P i"
    using family_upd [OF that, of z UNUSED None] assms by simp
  show "waiters (S(z := UNUSED)) (P(z := None)) H" if w: "waiters S P H"
    unfolding waiters_def
  proof (intro allI impI)
    fix p q
    assume p: "(S(z := UNUSED)) p = SLEEPING" and h: "H p = Some (ProcChan q)"
    have "S p = SLEEPING" using p by (auto split: if_splits)
    then have "q = p" "\<exists>k. P k = Some p" "\<And>k. P k = Some p \<Longrightarrow> S k \<noteq> ZOMBIE" using w h unfolding waiters_def by blast+
    with assms show "q = p \<and> (\<exists>k. (P(z := None)) k = Some p) \<and> (\<forall>k. (P(z := None)) k = Some p \<longrightarrow> (S(z := UNUSED)) k \<noteq> ZOMBIE)"
      by (metis fun_upd_apply option.distinct(1))
  qed
  show "forks (S(z := UNUSED)) N" if f: "forks S N"
  proof -
    have "N z = None" using f assms unfolding forks_def by (metis live.simps(6) option.exhaust)
    with f assms show ?thesis unfolding forks_def by auto
  qed
qed

lemma wait_pinv:
  assumes "pinv s" and "c < length (cpus s)" and "cpus s ! c = Some cur" and "wait_turn c cur s = Inr (r, s')"
  shows "pinv s'"
proof -
  note run = cpu_running [OF assms(1-3)]
  let ?kids = "filter (\<lambda>p. parent (procs s ! p) = Some cur) [0..<length (procs s)]"
  show ?thesis
  proof (cases "List.find (\<lambda>p. pstate (procs s ! p) = ZOMBIE) ?kids")
    case (Some z)
    then have z: "z \<in> set ?kids" "pstate (procs s ! z) = ZOMBIE" by (auto dest: find_SomeD)
    then have z: "z < length (procs s)" "st s z = ZOMBIE" by (auto simp: st_def)
    have s': "st s' = (st s)(z := UNUSED)" "par s' = (par s)(z := None)" "chn s' = chn s"
      "cpus s' = cpus s" "initproc s' = initproc s" "np_of s' = np_of s"
      using assms(4) Some z
      by (auto simp: wait_turn_def Let_def bindE_eq_Inr upd_proc_def st_def par_def chn_def fun_eq_iff nth_list_update)
    show ?thesis
      using assms(1) z on_cpu_other [of "st s" "cpus s" z UNUSED] reap_inv [of "st s", OF z(2)] by (simp add: pinv_def s')
  next
    case None
    then have nz: "st s k \<noteq> ZOMBIE" if "par s k = Some cur" for k
      using that by (auto simp: find_None_iff par_def st_def split: if_splits)
    show ?thesis
    proof (cases "?kids = [] \<or> killed (procs s ! cur)")
      case True
      then have "s' = s" using assms(4) None by (simp add: wait_turn_def)
      then show ?thesis using assms(1) by simp
    next
      case False
      then have 2: "?kids \<noteq> []"
        "s' = leave c (upd_proc cur (\<lambda>x. x\<lparr>chan := Some (ProcChan cur), pstate := SLEEPING\<rparr>) s)"
        using assms(4) None unfolding wait_turn_def Let_def by simp_all
      then obtain k where "k \<in> set ?kids" by (meson last_in_set)
      then have kid: "par s k = Some cur" by (simp add: par_def)
      have v: "st s' = (st s)(cur := SLEEPING)" "par s' = par s" "chn s' = (chn s)(cur := Some (ProcChan cur))"
        using 2(2) run upd_proc_view [of cur s] by (auto simp: table_nth)
      have "waiters (st s') (par s') (chn s')"
        using assms(1) kid nz unfolding v waiters_def pinv_def by auto
      then show ?thesis
        using assms run on_cpu_take [of "st s" "cpus s" c cur SLEEPING] live_change [of "st s" cur SLEEPING] v 2(2)
        by (simp add: pinv_def)
    qed
  qed
qed

text \<open>\<^verbatim>\<open>exit\<close>: the children go to the first process, which is woken when one of them is a zombie.\<close>

lemma pass_children_view:
  assumes "set ps \<subseteq> {..<length (procs s)}" and "distinct ps" and "cur \<noteq> initproc s"
  defines "s' \<equiv> fold (pass_child cur) ps s"
  shows "length (procs s') = length (procs s) \<and> cpus s' = cpus s \<and> np_of s' = np_of s \<and> initproc s' = initproc s \<and>
    chn s' = chn s \<and> par s' = (\<lambda>p. if p \<in> set ps \<and> par s p = Some cur then Some (initproc s) else par s p) \<and>
    st s' = (if \<exists>p \<in> set ps. par s p = Some cur \<and> st s p = ZOMBIE then wake (ProcChan (initproc s)) (chn s) (st s) else st s)"
  using assms(1,2) unfolding s'_def
proof (induction ps rule: rev_induct)
  case Nil
  show ?case by simp
next
  case (snoc p ps)
  let ?s = "fold (pass_child cur) ps s"
  have p: "p < length (procs s)" "p \<notin> set ps" using snoc.prems by auto
  have IH: "length (procs ?s) = length (procs s)" "cpus ?s = cpus s" "np_of ?s = np_of s" "initproc ?s = initproc s"
    "chn ?s = chn s" "par ?s = (\<lambda>p. if p \<in> set ps \<and> par s p = Some cur then Some (initproc s) else par s p)"
    "st ?s = (if \<exists>p \<in> set ps. par s p = Some cur \<and> st s p = ZOMBIE then wake (ProcChan (initproc s)) (chn s) (st s) else st s)"
    using snoc by simp_all
  show ?case
  proof (cases "par s p = Some cur")
    case False
    then have "pass_child cur p ?s = ?s" using p IH table_nth [of p ?s] by (simp add: pass_child_def)
    then show ?thesis using IH False by (auto simp: fun_eq_iff)
  next
    case True
    let ?t = "upd_proc p (\<lambda>x. x\<lparr>parent := Some (initproc s)\<rparr>) ?s"
    have t: "st ?t = st ?s" "par ?t = (par ?s)(p := Some (initproc s))" "chn ?t = chn s"
      using p IH(1,5) upd_proc_view [of p ?s] table_nth [of p ?s] by auto
    have z: "pstate (procs ?t ! p) = ZOMBIE \<longleftrightarrow> st s p = ZOMBIE"
      using p IH(1) table_nth [of p ?t] t(1) by (simp add: IH(7))
    have step: "pass_child cur p ?s = (if st s p = ZOMBIE then wakeup1 (ProcChan (initproc s)) ?t else ?t)"
      using p IH True table_nth [of p ?s] z by (simp add: pass_child_def Let_def)
    have "par (pass_child cur p ?s) = (par ?s)(p := Some (initproc s))" by (simp add: step t)
    then have "par (pass_child cur p ?s) = (\<lambda>k. if k \<in> set (ps @ [p]) \<and> par s k = Some cur then Some (initproc s) else par s k)"
      using True by (auto simp: IH fun_eq_iff)
    moreover have "st (pass_child cur p ?s) =
        (if \<exists>k \<in> set (ps @ [p]). par s k = Some cur \<and> st s k = ZOMBIE then wake (ProcChan (initproc s)) (chn s) (st s) else st s)"
      using True by (auto simp: step t IH(7))
    ultimately show ?thesis using IH(1-4) by (simp add: step t)
  qed
qed

lemma pass_all_view:
  assumes "cur \<noteq> initproc s"
  defines "s' \<equiv> fold (pass_child cur) [0..<length (procs s)] s"
  shows "length (procs s') = length (procs s)" "cpus s' = cpus s" "np_of s' = np_of s" "initproc s' = initproc s"
    "chn s' = chn s" "par s' = (\<lambda>p. if par s p = Some cur then Some (initproc s) else par s p)"
    "st s' = (if \<exists>p. par s p = Some cur \<and> st s p = ZOMBIE then wake (ProcChan (initproc s)) (chn s) (st s) else st s)"
proof -
  have "set [0..<length (procs s)] \<subseteq> {..<length (procs s)}" by auto
  note v = pass_children_view [OF this distinct_upt assms(1), folded s'_def]
  have all: "(k \<in> set [0..<length (procs s)] \<and> par s k = Some cur) = (par s k = Some cur)" for k
    by (auto simp: par_def split: if_splits)
  then have "(\<exists>k \<in> set [0..<length (procs s)]. par s k = Some cur \<and> st s k = ZOMBIE) \<longleftrightarrow> (\<exists>k. par s k = Some cur \<and> st s k = ZOMBIE)"
    by blast
  note v' = v [unfolded all this]
  from v' show "length (procs s') = length (procs s)" "cpus s' = cpus s" "np_of s' = np_of s" "initproc s' = initproc s"
    "chn s' = chn s" "par s' = (\<lambda>p. if par s p = Some cur then Some (initproc s) else par s p)"
    "st s' = (if \<exists>p. par s p = Some cur \<and> st s p = ZOMBIE then wake (ProcChan (initproc s)) (chn s) (st s) else st s)"
    by blast+
qed

lemma exit_inv:
  assumes inv: "family S P i" "waiters S P H" "forks S N"
    and cur: "cur \<noteq> i" "P cur = Some q" "S cur = RUNNING" "N cur = None"
    and P2: "P2 = (\<lambda>p. if P p = Some cur then Some i else P p)"
    and S2: "S2 = (if \<exists>p. P p = Some cur \<and> S p = ZOMBIE then wake (ProcChan i) H (wake (ProcChan q) H S) else wake (ProcChan q) H S)"
  shows "family (S2(cur := ZOMBIE)) P2 i" and "waiters (S2(cur := ZOMBIE)) P2 H" and "forks (S2(cur := ZOMBIE)) N"
proof -
  have S2_simps: "live (S2 p) = live (S p)" "S2 p = UNUSED \<longleftrightarrow> S p = UNUSED" "S2 p = EMBRYO \<longleftrightarrow> S p = EMBRYO"
    "S2 p = ZOMBIE \<longleftrightarrow> S p = ZOMBIE" for p by (simp_all add: S2 wake_other)
  note f = inv(1) [unfolded family_def]
  have par: "\<exists>r. P p = Some r \<and> r \<noteq> p \<and> live (S r)" if "S p \<noteq> UNUSED" "S p \<noteq> EMBRYO" "p \<noteq> i" for p
    using f that by blast
  have q: "q \<noteq> cur" using par [of cur] cur by auto
  show "family (S2(cur := ZOMBIE)) P2 i"
    unfolding family_def
  proof (intro conjI allI impI)
    show "live ((S2(cur := ZOMBIE)) i)" "P2 i = None" using f cur(1) by (simp_all add: S2_simps P2)
    show "P2 p = None" if "(S2(cur := ZOMBIE)) p = UNUSED \<or> (S2(cur := ZOMBIE)) p = EMBRYO" for p
    proof -
      have "S p = UNUSED \<or> S p = EMBRYO" using that by (auto simp: S2_simps split: if_splits)
      then have "P p = None" using f by blast
      then show ?thesis by (simp add: P2)
    qed
    show "\<exists>r. P2 p = Some r \<and> r \<noteq> p \<and> live ((S2(cur := ZOMBIE)) r)"
      if p: "(S2(cur := ZOMBIE)) p \<noteq> UNUSED" "(S2(cur := ZOMBIE)) p \<noteq> EMBRYO" "p \<noteq> i" for p
    proof -
      have "S p \<noteq> UNUSED" "S p \<noteq> EMBRYO" using p(1,2) cur(3) by (auto simp: S2_simps split: if_splits)
      then obtain r where r: "P p = Some r" "r \<noteq> p" "live (S r)" using par p(3) by blast
      show ?thesis
      proof (cases "r = cur")
        case True
        then show ?thesis using r p(3) cur(1) f by (simp add: P2 S2_simps)
      next
        case False
        then show ?thesis using r by (simp add: P2 S2_simps)
      qed
    qed
  qed
  show "waiters (S2(cur := ZOMBIE)) P2 H"
    unfolding waiters_def
  proof (intro allI impI)
    fix p r
    assume p: "(S2(cur := ZOMBIE)) p = SLEEPING" and h: "H p = Some (ProcChan r)"
    then have pc: "p \<noteq> cur" "S2 p = SLEEPING" by (auto split: if_splits)
    have w: "S p = SLEEPING" "H p \<noteq> Some (ProcChan q)"
      "\<exists>k. P k = Some cur \<and> S k = ZOMBIE \<Longrightarrow> H p \<noteq> Some (ProcChan i)"
      using pc(2) unfolding S2 by (auto dest!: wake_other(4) split: if_splits)
    have kids: "r = p" "\<exists>k. P k = Some p" "\<And>k. P k = Some p \<Longrightarrow> S k \<noteq> ZOMBIE"
      using inv(2) w(1) h unfolding waiters_def by blast+
    obtain k where "P k = Some p" using kids(2) by blast
    then have "\<exists>k. P2 k = Some p" using pc(1) by (auto simp: P2 intro!: exI [of _ k])
    moreover have "(S2(cur := ZOMBIE)) k \<noteq> ZOMBIE" if "P2 k = Some p" for k
    proof (cases "P k = Some cur")
      case True
      then have "p = i" "k \<noteq> cur" using that cur(2) q by (auto simp: P2)
      then show ?thesis using w(3) h kids(1) True by (auto simp: S2_simps)
    next
      case False
      then have "P k = Some p" using that by (simp add: P2)
      then show ?thesis using kids(1,3) w(2) h cur(2) by (auto simp: S2_simps)
    qed
    ultimately show "r = p \<and> (\<exists>k. P2 k = Some p) \<and> (\<forall>k. P2 k = Some p \<longrightarrow> (S2(cur := ZOMBIE)) k \<noteq> ZOMBIE)"
      using kids(1) by blast
  qed
  show "forks (S2(cur := ZOMBIE)) N"
    using inv(3) cur unfolding forks_def by (auto simp: S2_simps)
qed

lemma exit_pinv:
  assumes "pinv s" and "c < length (cpus s)" and "cpus s ! c = Some cur" and "np_of s cur = None"
    and "exit_proc c cur s = Inr s'"
  shows "pinv s'"
proof -
  note run = cpu_running [OF assms(1-3)]
  let ?m = "s\<lparr>meta_table := (meta_table s)[pmeta (procs s ! cur) := 0xFF],
               metaidx_flag := (metaidx_flag s)[pmeta (procs s ! cur) := False]\<rparr>"
  have i: "cur \<noteq> initproc s" using assms(5) by (auto simp: exit_proc_def)
  then obtain q where q: "parent (procs s ! cur) = Some q"
    using assms(5) by (auto simp: exit_proc_def Let_def split: option.splits)
  let ?s1 = "wakeup1 (ProcChan q) ?m"
  let ?s2 = "fold (pass_child cur) [0..<length (procs s)] ?s1"
  have s': "s' = leave c (upd_proc cur (\<lambda>x. x\<lparr>pstate := ZOMBIE\<rparr>) ?s2)"
    using assms(5) i q by (simp add: exit_proc_def Let_def)
  have v2: "length (procs ?s2) = length (procs s)" "cpus ?s2 = cpus s" "np_of ?s2 = np_of s" "initproc ?s2 = initproc s"
    "chn ?s2 = chn s" "par ?s2 = (\<lambda>p. if par s p = Some cur then Some (initproc s) else par s p)"
    "st ?s2 = (if \<exists>p. par s p = Some cur \<and> st s p = ZOMBIE then wake (ProcChan (initproc s)) (chn s) (wake (ProcChan q) (chn s) (st s))
       else wake (ProcChan q) (chn s) (st s))"
    using pass_all_view [of cur ?s1] i by (simp_all cong: if_cong)
  have v: "st s' = (st ?s2)(cur := ZOMBIE)" "par s' = par ?s2" "chn s' = chn s"
    using run v2(1,5) upd_proc_view [of cur ?s2] table_nth [of cur ?s2] by (auto simp: s')
  have pq: "par s cur = Some q" using q run table_nth [of cur s] by simp
  have "on_cpu (st ?s2) (cpus s)" using assms(1) by (simp add: v2(7) pinv_def wake_inv)
  then have "on_cpu (st s') (cpus s')"
    using on_cpu_take [of "st ?s2" "cpus s" c cur ZOMBIE] assms(2,3) v(1) v2(2) by (simp add: s')
  then show ?thesis
    using assms(1,4) exit_inv [of "st s" "par s" "initproc s" "chn s" "np_of s" cur q, OF _ _ _ i pq _ _ v2(6,7)] run v v2(3,4)
    by (simp add: pinv_def s')
qed

text \<open>Every step keeps the invariant.\<close>

lemma pstep_pinv: "pstep s s' \<Longrightarrow> pinv s \<Longrightarrow> pinv s'"
  by (induction rule: pstep.induct)
    (blast intro: schedule_pinv yield_pinv fork_begin_pinv fork_end_pinv exit_pinv wait_pinv sleep_pinv wakeup_pinv kill_pinv)+

lemma psteps_pinv: "pstep\<^sup>*\<^sup>* s s' \<Longrightarrow> pinv s \<Longrightarrow> pinv s'"
  by (induction rule: rtranclp_induct) (auto intro: pstep_pinv)

section \<open>Properties\<close>

lemma userinit_pinv:
  assumes "userinit kvm (boot_table ncpu e m) = Inr s"
  shows "pinv s"
proof -
  let ?b = "boot_table ncpu e m"
  obtain r s1 where a: "allocproc ?b = (r, s1)" by (cases "allocproc ?b")
  then obtain p where r: "r = Some p" and s: "s = upd_proc p (\<lambda>x. x\<lparr>pstate := RUNNABLE\<rparr>) (s1\<lparr>initproc := p\<rparr>)"
    using assms by (auto simp: userinit_def split: option.splits if_splits)
  have b: "st ?b = (\<lambda>_. UNUSED)" "par ?b = (\<lambda>_. None)" "chn ?b = (\<lambda>_. None)"
    by (auto simp: boot_table_def empty_proc_def st_def par_def chn_def)
  note v = allocproc_view(1-5) [OF a] allocproc_view(7) [OF a r]
  have st1: "st s1 = (\<lambda>_. UNUSED)(p := EMBRYO)" using v(6) b by simp
  then have p: "p < length (procs s1)" by (intro in_table) simp
  have "st s = (\<lambda>_. UNUSED)(p := RUNNABLE)" "par s = (\<lambda>_. None)" "chn s = (\<lambda>_. None)" "initproc s = p"
    "cpus s = replicate ncpu None" "np_of s = (\<lambda>_. None)"
    using p st1 b v(1-5) upd_proc_view [of p "s1\<lparr>initproc := p\<rparr>"] table_nth [of p s1]
    by (simp_all add: s boot_table_def)
  then show ?thesis by (auto simp: pinv_def pinv_defs)
qed

text \<open>
  C8.  In every state the processors can reach from \<^verbatim>\<open>userinit\<close>, however they interleave: a process that sleeps
  in \<^verbatim>\<open>wait\<close> sleeps on its own address, has a child and has no zombie child, so no exit is missed; every process
  but the first has a live parent to reap it; and the running processes are those some processor has as its
  current process, each on one processor only.
\<close>

theorem no_lost_exit:
  assumes "userinit kvm (boot_table ncpu e m) = Inr s0" and "pstep\<^sup>*\<^sup>* s0 s"
  shows "(\<forall>p q. st s p = SLEEPING \<and> chn s p = Some (ProcChan q) \<longrightarrow>
            q = p \<and> (\<exists>k. par s k = Some p) \<and> (\<forall>k. par s k = Some p \<longrightarrow> st s k \<noteq> ZOMBIE)) \<and>
         live (st s (initproc s)) \<and>
         (\<forall>p. st s p \<in> {SLEEPING, RUNNABLE, RUNNING, ZOMBIE} \<and> p \<noteq> initproc s \<longrightarrow> (\<exists>q. par s p = Some q \<and> live (st s q))) \<and>
         (\<forall>p. st s p = RUNNING \<longleftrightarrow> (\<exists>c < length (cpus s). cpus s ! c = Some p)) \<and>
         (\<forall>c < length (cpus s). \<forall>d < length (cpus s). cpus s ! c \<noteq> None \<and> cpus s ! c = cpus s ! d \<longrightarrow> c = d)"
proof -
  have i: "pinv s" by (rule psteps_pinv [OF assms(2) userinit_pinv [OF assms(1)]])
  then have "waiters (st s) (par s) (chn s)" "family (st s) (par s) (initproc s)" "on_cpu (st s) (cpus s)"
    by (simp_all add: pinv_def)
  then show ?thesis
  proof (intro conjI)
    assume f: "family (st s) (par s) (initproc s)"
    show "live (st s (initproc s))" using f by (simp add: family_def)
    have "\<exists>q. par s p = Some q \<and> live (st s q)" if "st s p \<noteq> UNUSED" "st s p \<noteq> EMBRYO" "p \<noteq> initproc s" for p
      using f that unfolding family_def by blast
    then show "\<forall>p. st s p \<in> {SLEEPING, RUNNABLE, RUNNING, ZOMBIE} \<and> p \<noteq> initproc s \<longrightarrow> (\<exists>q. par s p = Some q \<and> live (st s q))"
      by fastforce
  next
    assume "on_cpu (st s) (cpus s)"
    then show "\<forall>c < length (cpus s). \<forall>d < length (cpus s). cpus s ! c \<noteq> None \<and> cpus s ! c = cpus s ! d \<longrightarrow> c = d"
      unfolding on_cpu_def by (metis option.exhaust)
  next
    assume "waiters (st s) (par s) (chn s)"
    then show "\<forall>p q. st s p = SLEEPING \<and> chn s p = Some (ProcChan q) \<longrightarrow>
        q = p \<and> (\<exists>k. par s k = Some p) \<and> (\<forall>k. par s k = Some p \<longrightarrow> st s k \<noteq> ZOMBIE)"
      unfolding waiters_def by blast
  qed (simp add: on_cpu_def)
qed

text \<open>One processor starts the first process, which forks and waits for its child.\<close>

definition demo0 :: ptable where
  "demo0 = projr (userinit True (boot_table 1 0x80100000
     \<lparr>freelist = 0x80200000, run_next = (\<lambda>_. 0)(0x80200000 := 0x80201000), use_lock = True, bytes = \<lambda>_. 0\<rparr>))"

definition demo1 :: ptable where
  "demo1 = fork_begin 0 (schedule 0 0 demo0)"

definition demo2 :: ptable where
  "demo2 = snd (projr (fork_end 0 True demo1))"

definition demo3 :: ptable where
  "demo3 = snd (projr (wait_turn 0 0 demo2))"

lemma Inr_projr: "\<not> isl r \<Longrightarrow> r = Inr (fst (projr r), snd (projr r))"
  by (cases r) auto

lemma demo_run: "pstep\<^sup>*\<^sup>* demo0 demo3"
proof -
  have "pstep demo0 (schedule 0 0 demo0)" by (rule do_schedule) code_simp+
  moreover have "pstep (schedule 0 0 demo0) demo1" unfolding demo1_def by (rule do_fork_begin [of 0]) code_simp+
  moreover have "pstep demo1 demo2" unfolding demo2_def
    by (rule do_fork_end [of 0 _ 0 True, OF _ _ Inr_projr]) code_simp+
  moreover have "pstep demo2 demo3" unfolding demo3_def
    by (rule do_wait [of 0 _ 0, OF _ _ _ Inr_projr]) code_simp+
  ultimately show ?thesis by (meson converse_rtranclp_into_rtranclp rtranclp.rtrancl_refl)
qed

theorem no_lost_exit_witness:
  "st demo3 0 = SLEEPING \<and> chn demo3 0 = Some (ProcChan 0) \<and> (\<exists>k. par demo3 k = Some 0)"
proof -
  have "userinit True (boot_table 1 0x80100000 \<lparr>freelist = 0x80200000, run_next = (\<lambda>_. 0)(0x80200000 := 0x80201000),
      use_lock = True, bytes = \<lambda>_. 0\<rparr>) = Inr demo0"
    unfolding demo0_def by (rule sum.collapse(2) [symmetric]) code_simp
  note ok = no_lost_exit [OF this demo_run]
  have "st demo3 0 = SLEEPING" "chn demo3 0 = Some (ProcChan 0)" by code_simp+
  with ok show ?thesis by blast
qed

end
