(* ===== verification/Vm.thy ===== *)
theory Vm
  imports Fs Kalloc
begin

text \<open>
  Page tables (\<^verbatim>\<open>vm.c\<close>, \<^verbatim>\<open>mmu.h\<close>).  A page that serves as a page directory or page table is kept as its 1024
  entries, the field \<open>ent\<close> by address and index; the bytes of all other pages are in the memory of the page
  allocator.  Clearing and freeing a page acts on both views, so that a page keeps nothing of the use it had
  before.  The kernel addresses all memory through its own mapping, and \<^verbatim>\<open>P2V\<close> gives the address of a
  physical page.  \<open>vkend\<close> and \<open>kdata\<close> are the linker symbols \<^verbatim>\<open>end\<close> and \<^verbatim>\<open>data\<close>.

  The loops that count addresses up are written over natural numbers.  The count of \<^verbatim>\<open>mappages\<close> wraps around
  the address space as the source does; in \<^verbatim>\<open>deallocuvm\<close> a count that would wrap never ends (\<open>Hang\<close>), since
  no page address reaches the bound.
\<close>

section \<open>Addresses and entries\<close>

abbreviation (input) NPDENTRIES :: nat where
  "NPDENTRIES \<equiv> 1024"

abbreviation (input) PTE_P :: u32 where
  "PTE_P \<equiv> 1"

abbreviation (input) PTE_W :: u32 where
  "PTE_W \<equiv> 2"

abbreviation (input) PTE_U :: u32 where
  "PTE_U \<equiv> 4"

abbreviation (input) PTE_D :: u32 where
  "PTE_D \<equiv> 8"

abbreviation (input) DEVSPACE :: u32 where
  "DEVSPACE \<equiv> 0xFE000000"

abbreviation (input) EXTMEM :: u32 where
  "EXTMEM \<equiv> 0x100000"

abbreviation (input) KERNLINK :: u32 where
  "KERNLINK \<equiv> 0x80100000"

definition PDX :: "u32 \<Rightarrow> nat" where
  "PDX va = unat (drop_bit 22 va AND 0x3FF)"

definition PTX :: "u32 \<Rightarrow> nat" where
  "PTX va = unat (drop_bit 12 va AND 0x3FF)"

definition PTE_ADDR :: "u32 \<Rightarrow> u32" where
  "PTE_ADDR pte = pte AND NOT 0xFFF"

definition PTE_FLAGS :: "u32 \<Rightarrow> u32" where
  "PTE_FLAGS pte = pte AND 0xFFF"

definition present :: "u32 \<Rightarrow> bool" where
  "present pte \<longleftrightarrow> pte AND PTE_P \<noteq> 0"

record vm =
  vkm :: kmem
  ent :: "u32 \<Rightarrow> nat \<Rightarrow> u32"
  vkend :: u32
  kdata :: u32

definition set_ent :: "u32 \<Rightarrow> nat \<Rightarrow> u32 \<Rightarrow> vm \<Rightarrow> vm" where
  "set_ent t i x s = s\<lparr>ent := (ent s)(t := (ent s t)(i := x))\<rparr>"

definition page_alloc :: "vm \<Rightarrow> u32 \<times> vm" where
  "page_alloc s = (case kalloc (vkm s) of (p, k) \<Rightarrow> (p, s\<lparr>vkm := k\<rparr>))"

definition page_free :: "u32 \<Rightarrow> vm \<Rightarrow> vm result" where
  "page_free v s =
     bindE (kfree (vkend s) v (vkm s)) (\<lambda>k.
     Inr (s\<lparr>vkm := k, ent := (ent s)(v := (\<lambda>_. 0x01010101)(0 := freelist (vkm s)))\<rparr>))"

definition page_zero :: "u32 \<Rightarrow> vm \<Rightarrow> vm" where
  "page_zero v s = s\<lparr>vkm := (vkm s)\<lparr>bytes := memset (bytes (vkm s)) v 0 PGSIZE\<rparr>, ent := (ent s)(v := \<lambda>_. 0)\<rparr>"

definition upd_bytes :: "(mem \<Rightarrow> mem) \<Rightarrow> vm \<Rightarrow> vm" where
  "upd_bytes f s = s\<lparr>vkm := (vkm s)\<lparr>bytes := f (bytes (vkm s))\<rparr>\<rparr>"

section \<open>Mapping\<close>

text \<open>The address of an entry is a table and an index.\<close>

definition walkpgdir :: "u32 \<Rightarrow> u32 \<Rightarrow> bool \<Rightarrow> vm \<Rightarrow> (u32 \<times> nat) option \<times> vm" where
  "walkpgdir pgdir va alloc s =
     (let pde = ent s pgdir (PDX va) in
      if present pde then (Some (P2V (PTE_ADDR pde), PTX va), s)
      else if \<not> alloc then (None, s)
      else case page_alloc s of (pgtab, s1) \<Rightarrow>
        if pgtab = 0 then (None, s1)
        else (Some (pgtab, PTX va),
              set_ent pgdir (PDX va) (V2P pgtab OR PTE_P OR PTE_W OR PTE_U OR PTE_D) (page_zero pgtab s1)))"

text \<open>The loop of \<^verbatim>\<open>mappages\<close>; \<open>n\<close> pages are left after the one at \<open>a\<close>.\<close>

fun map_loop :: "nat \<Rightarrow> u32 \<Rightarrow> u32 \<Rightarrow> u32 \<Rightarrow> u32 \<Rightarrow> vm \<Rightarrow> (int \<times> vm) result" where
  "map_loop n pgdir a pa perm s =
     (case walkpgdir pgdir a True s of
        (None, s1) \<Rightarrow> Inr (-1, s1)
      | (Some (t, i), s1) \<Rightarrow>
          if present (ent s1 t i) then Inl (Panic ''remap'')
          else
            let s2 = set_ent t i (pa OR perm OR PTE_P OR PTE_D) s1 in
            case n of
              0 \<Rightarrow> Inr (0, s2)
            | Suc m \<Rightarrow> map_loop m pgdir (a + PGSIZE) (pa + PGSIZE) perm s2)"

declare map_loop.simps [simp del]

definition mappages :: "u32 \<Rightarrow> u32 \<Rightarrow> u32 \<Rightarrow> u32 \<Rightarrow> u32 \<Rightarrow> vm \<Rightarrow> (int \<times> vm) result" where
  "mappages pgdir va sz pa perm s =
     (let a = PGROUNDDOWN va; l = PGROUNDDOWN (va + sz - 1)
      in map_loop (unat (l - a) div PGSIZE) pgdir a pa perm s)"

section \<open>User memory\<close>

function dealloc_loop :: "u32 \<Rightarrow> nat \<Rightarrow> u32 \<Rightarrow> vm \<Rightarrow> vm result" where
  "dealloc_loop pgdir a oldsz s =
     (if a < unat oldsz then
        (if a \<ge> 2 ^ 32 - PGSIZE then Inl Hang
         else case walkpgdir pgdir (of_nat a) False s of
           (None, s1) \<Rightarrow>
             if PDX (of_nat a) = 1023 then Inl Hang
             else dealloc_loop pgdir ((a div 2 ^ 22 + 1) * 2 ^ 22) oldsz s1
         | (Some (t, i), s1) \<Rightarrow>
             let pte = ent s1 t i in
             if present pte then
               let pa = PTE_ADDR pte in
               if pa = 0 then Inl (Panic ''kfree'')
               else bindE (page_free (P2V pa) s1) (\<lambda>s2. dealloc_loop pgdir (a + PGSIZE) oldsz (set_ent t i 0 s2))
             else dealloc_loop pgdir (a + PGSIZE) oldsz s1)
      else Inr s)"
  by pat_completeness auto
termination
proof (relation "measure (\<lambda>(pgdir, a, oldsz, s). unat oldsz - a)")
  have "a < (a div 2 ^ 22 + 1) * 2 ^ 22" for a :: nat
    using div_mult_mod_eq [of a "2 ^ 22"] mod_less_divisor [of "2 ^ 22" a] by simp
  note step = diff_less_mono2 [OF this]
  show "((pgdir, (a div 2 ^ 22 + 1) * 2 ^ 22, oldsz, s1), pgdir, a, oldsz, s) \<in> measure (\<lambda>(pgdir, a, oldsz, s). unat oldsz - a)"
    if "a < unat oldsz" for pgdir a oldsz and s s1 :: vm using step [OF that] by simp
qed simp_all

declare dealloc_loop.simps [simp del]

definition deallocuvm :: "u32 \<Rightarrow> u32 \<Rightarrow> u32 \<Rightarrow> vm \<Rightarrow> (u32 \<times> vm) result" where
  "deallocuvm pgdir oldsz newsz s =
     (if newsz \<ge> oldsz then Inr (oldsz, s)
      else bindE (dealloc_loop pgdir (unat (PGROUNDUP newsz)) oldsz s) (\<lambda>s1. Inr (newsz, s1)))"

function alloc_loop :: "u32 \<Rightarrow> u32 \<Rightarrow> u32 \<Rightarrow> nat \<Rightarrow> vm \<Rightarrow> (u32 \<times> vm) result" where
  "alloc_loop pgdir oldsz newsz a s =
     (if a < unat newsz then
        case page_alloc s of (m, s1) \<Rightarrow>
          if m = 0 then bindE (deallocuvm pgdir newsz oldsz s1) (\<lambda>(_, s2). Inr (0, s2))
          else
            bindE (mappages pgdir (of_nat a) PGSIZE (V2P m) (PTE_W OR PTE_U) (page_zero m s1)) (\<lambda>(r, s2).
            if r < 0 then
              bindE (deallocuvm pgdir newsz oldsz s2) (\<lambda>(_, s3).
              bindE (page_free m s3) (\<lambda>s4. Inr (0, s4)))
            else alloc_loop pgdir oldsz newsz (a + PGSIZE) s2)
      else Inr (newsz, s))"
  by pat_completeness auto
termination
  by (relation "measure (\<lambda>(pgdir, oldsz, newsz, a, s). unat newsz - a)") auto

declare alloc_loop.simps [simp del]

definition allocuvm :: "u32 \<Rightarrow> u32 \<Rightarrow> u32 \<Rightarrow> vm \<Rightarrow> (u32 \<times> vm) result" where
  "allocuvm pgdir oldsz newsz s =
     (if newsz \<ge> KERNBASE then Inr (0, s)
      else if newsz < oldsz then Inr (oldsz, s)
      else alloc_loop pgdir oldsz newsz (unat (PGROUNDUP oldsz)) s)"

definition free_table :: "u32 \<Rightarrow> nat \<Rightarrow> vm \<Rightarrow> vm result" where
  "free_table pgdir i s =
     (if present (ent s pgdir i) then page_free (P2V (PTE_ADDR (ent s pgdir i))) s else Inr s)"

definition freevm :: "u32 \<Rightarrow> vm \<Rightarrow> vm result" where
  "freevm pgdir s =
     (if pgdir = 0 then Inl (Panic ''freevm: no pgdir'')
      else
        bindE (deallocuvm pgdir KERNBASE 0 s) (\<lambda>(_, s1).
        bindE (foldE (free_table pgdir) [0..<NPDENTRIES] s1) (\<lambda>s2. page_free pgdir s2)))"

text \<open>\<^verbatim>\<open>kmap\<close>: virtual address, physical start and end, permissions\<close>

definition kmap :: "u32 \<Rightarrow> (u32 \<times> u32 \<times> u32 \<times> u32) list" where
  "kmap data =
     [(KERNBASE, 0, EXTMEM, PTE_W), (KERNLINK, V2P KERNLINK, V2P data, 0),
      (data, V2P data, PHYSTOP, PTE_W), (DEVSPACE, DEVSPACE, 0, PTE_W)]"

fun kmap_loop :: "u32 \<Rightarrow> (u32 \<times> u32 \<times> u32 \<times> u32) list \<Rightarrow> vm \<Rightarrow> (u32 \<times> vm) result" where
  "kmap_loop pgdir [] s = Inr (pgdir, s)"
| "kmap_loop pgdir ((virt, phys_start, phys_end, perm) # ks) s =
     bindE (mappages pgdir virt (phys_end - phys_start) phys_start perm s) (\<lambda>(r, s1).
     if r < 0 then bindE (freevm pgdir s1) (\<lambda>s2. Inr (0, s2)) else kmap_loop pgdir ks s1)"

definition setupkvm :: "vm \<Rightarrow> (u32 \<times> vm) result" where
  "setupkvm s =
     (case page_alloc s of (pgdir, s1) \<Rightarrow>
        if pgdir = 0 then Inr (0, s1)
        else
          let s2 = page_zero pgdir s1 in
          if P2V PHYSTOP > DEVSPACE then Inl (Panic ''PHYSTOP too high'')
          else kmap_loop pgdir (kmap (kdata s2)) s2)"

text \<open>\<^verbatim>\<open>inituvm\<close>, which does not look at the results of \<^verbatim>\<open>kalloc\<close> and \<^verbatim>\<open>mappages\<close>\<close>

fun store :: "mem \<Rightarrow> u32 \<Rightarrow> u8 list \<Rightarrow> mem" where
  "store m p [] = m"
| "store m p (b # bs) = store (m(p := b)) (p + 1) bs"

definition inituvm :: "u32 \<Rightarrow> u8 list \<Rightarrow> vm \<Rightarrow> vm result" where
  "inituvm pgdir init s =
     (if length init \<ge> PGSIZE then Inl (Panic ''inituvm: more than a page'')
      else case page_alloc s of (m, s1) \<Rightarrow>
        if m = 0 then Inl Wild
        else
          bindE (mappages pgdir 0 PGSIZE (V2P m) (PTE_W OR PTE_U) (page_zero m s1)) (\<lambda>(_, s2).
          Inr (upd_bytes (\<lambda>b. store b m init) s2)))"

text \<open>\<^verbatim>\<open>loaduvm\<close>; the bytes that \<^verbatim>\<open>readi\<close> delivers go to the page.\<close>

function load_loop :: "u32 \<Rightarrow> u32 \<Rightarrow> iptr \<Rightarrow> u32 \<Rightarrow> u32 \<Rightarrow> nat \<Rightarrow> vm \<times> 'd fs \<Rightarrow> (int \<times> vm \<times> 'd fs) result" where
  "load_loop pgdir addr ip offset sz i s =
     (if i < unat sz then
        case walkpgdir pgdir (addr + of_nat i) False (fst s) of
          (None, s1) \<Rightarrow> Inl (Panic ''loaduvm: address should exist'')
        | (Some (t, j), s1) \<Rightarrow>
            let pa = PTE_ADDR (ent s1 t j); n = of_nat (min (unat sz - i) PGSIZE) in
            bindE (readi ip (offset + of_nat i) n (snd s)) (\<lambda>(r, bs, f).
            let s2 = upd_bytes (\<lambda>b. store b (P2V pa) bs) s1 in
            if word_of_int r \<noteq> n then Inr (-1, s2, f)
            else load_loop pgdir addr ip offset sz (i + PGSIZE) (s2, f))
      else Inr (0, s))"
  by pat_completeness auto
termination
  by (relation "measure (\<lambda>(pgdir, addr, ip, offset, sz, i, s). unat sz - i)") auto

declare load_loop.simps [simp del]

definition loaduvm :: "u32 \<Rightarrow> u32 \<Rightarrow> iptr \<Rightarrow> u32 \<Rightarrow> u32 \<Rightarrow> vm \<times> 'd fs \<Rightarrow> (int \<times> vm \<times> 'd fs) result" where
  "loaduvm pgdir addr ip offset sz s =
     (if addr mod PGSIZE \<noteq> 0 then Inl (Panic ''loaduvm: addr must be page aligned'')
      else load_loop pgdir addr ip offset sz 0 s)"

definition clearpteu :: "u32 \<Rightarrow> u32 \<Rightarrow> vm \<Rightarrow> vm result" where
  "clearpteu pgdir uva s =
     (case walkpgdir pgdir uva False s of
        (None, s1) \<Rightarrow> Inl (Panic ''clearpteu'')
      | (Some (t, i), s1) \<Rightarrow> Inr (set_ent t i (ent s1 t i AND NOT PTE_U) s1))"

function copy_loop :: "u32 \<Rightarrow> u32 \<Rightarrow> u32 \<Rightarrow> nat \<Rightarrow> vm \<Rightarrow> (u32 \<times> vm) result" where
  "copy_loop d pgdir sz i s =
     (if i < unat sz then
        case walkpgdir pgdir (of_nat i) False s of
          (None, s1) \<Rightarrow> Inl (Panic ''copyuvm: pte should exist'')
        | (Some (t, j), s1) \<Rightarrow>
            let pte = ent s1 t j in
            if \<not> present pte then Inl (Panic ''copyuvm: page not present'')
            else case page_alloc s1 of (m, s2) \<Rightarrow>
              if m = 0 then bindE (freevm d s2) (\<lambda>s3. Inr (0, s3))
              else
                let s3 = upd_bytes (\<lambda>b. memmove b m (P2V (PTE_ADDR pte)) PGSIZE) s2 in
                bindE (mappages d (of_nat i) PGSIZE (V2P m) (PTE_FLAGS pte) s3) (\<lambda>(r, s4).
                if r < 0 then bindE (page_free m s4) (\<lambda>s5. bindE (freevm d s5) (\<lambda>s6. Inr (0, s6)))
                else copy_loop d pgdir sz (i + PGSIZE) s4)
      else Inr (d, s))"
  by pat_completeness auto
termination
  by (relation "measure (\<lambda>(d, pgdir, sz, i, s). unat sz - i)") auto

declare copy_loop.simps [simp del]

definition copyuvm :: "u32 \<Rightarrow> u32 \<Rightarrow> vm \<Rightarrow> (u32 \<times> vm) result" where
  "copyuvm pgdir sz s =
     bindE (setupkvm s) (\<lambda>(d, s1). if d = 0 then Inr (0, s1) else copy_loop d pgdir sz 0 s1)"

text \<open>\<^verbatim>\<open>uva2ka\<close> reads the entry without checking that there is one.\<close>

definition uva2ka :: "u32 \<Rightarrow> u32 \<Rightarrow> vm \<Rightarrow> u32 result" where
  "uva2ka pgdir uva s =
     (case walkpgdir pgdir uva False s of
        (None, _) \<Rightarrow> Inl Wild
      | (Some (t, i), _) \<Rightarrow>
          if \<not> present (ent s t i) then Inr 0
          else if ent s t i AND PTE_U = 0 then Inr 0
          else Inr (P2V (PTE_ADDR (ent s t i))))"

lemma mask12: "(0xFFF :: u32) = mask 12"
  by (simp add: mask_eq_exp_minus_1)

lemma rounddown_split: "PGROUNDDOWN va + take_bit 12 va = va"
  unfolding PGROUNDDOWN_def using bits_ident [of 12 va] and_not_mask_eq [of va 12] by (simp add: mask12)

lemma page_left: "0 < unat (PGSIZE - (va - PGROUNDDOWN va))"
proof -
  have "va - PGROUNDDOWN va = take_bit 12 va" using rounddown_split [of va] by (metis add_diff_cancel_left')
  moreover have "unat (take_bit 12 va) < 2 ^ 12" unfolding unsigned_take_bit_eq by (rule take_bit_nat_less_exp)
  then have "take_bit 12 va \<noteq> 0x1000" by auto
  ultimately show ?thesis by (metis eq_iff_diff_eq_0 unat_gt_0)
qed

text \<open>The bytes at \<^verbatim>\<open>p\<close> are given as a list; its length is the argument \<^verbatim>\<open>len\<close>.\<close>

function copyout :: "u32 \<Rightarrow> u32 \<Rightarrow> u8 list \<Rightarrow> vm \<Rightarrow> (int \<times> vm) result" where
  "copyout pgdir va buf s =
     (if buf = [] then Inr (0, s)
      else
        let va0 = PGROUNDDOWN va in
        bindE (uva2ka pgdir va0 s) (\<lambda>pa0.
        if pa0 = 0 then Inr (-1, s)
        else
          let n = min (unat (PGSIZE - (va - va0))) (length buf) in
          copyout pgdir (va0 + PGSIZE) (drop n buf) (upd_bytes (\<lambda>b. store b (pa0 + (va - va0)) (take n buf)) s)))"
  by pat_completeness auto
termination
  by (relation "measure (\<lambda>(pgdir, va, buf, s). length buf)") (auto simp: page_left)

declare copyout.simps [simp del]

definition growproc :: "u32 \<Rightarrow> u32 \<Rightarrow> int \<Rightarrow> vm \<Rightarrow> (int \<times> u32 \<times> vm) result" where
  "growproc pgdir sz n s =
     (let grow = (\<lambda>(sz1, s1). if sz1 = 0 then Inr (-1, sz, s1) else Inr (0, sz1, s1)) in
      if n > 0 then bindE (allocuvm pgdir sz (sz + word_of_int n) s) grow
      else if n < 0 then bindE (deallocuvm pgdir sz (sz + word_of_int n) s) grow
      else Inr (0, sz, s))"

section \<open>Indices\<close>

lemma unat_drop_bit: "unat (drop_bit n w) = unat w div 2 ^ n" for w :: u32
  unfolding unsigned_drop_bit_eq using unat_u32_less [of w] by (simp add: drop_bit_eq_div take_bit_nat_eq_self)

lemma unat_take_bit: "unat (take_bit n w) = unat w mod 2 ^ n" for w :: u32
  unfolding unsigned_take_bit_eq by (simp add: take_bit_eq_mod)

lemma unat_and_3FF: "unat (w AND 0x3FF :: u32) = unat w mod 1024"
proof -
  have "w AND 0x3FF = take_bit 10 w" by (simp add: take_bit_eq_mask mask_eq_exp_minus_1)
  then show ?thesis using unat_take_bit [of 10 w] by simp
qed

lemma PDX_unat: "PDX va = unat va div 2 ^ 22"
proof -
  have "unat va div 2 ^ 22 < 1024" using unat_u32_less [of va] by (intro less_mult_imp_div_less) simp
  then show ?thesis by (simp add: PDX_def unat_and_3FF unat_drop_bit)
qed

lemma PTX_unat: "PTX va = unat va div 2 ^ 12 mod 1024"
  by (simp add: PTX_def unat_and_3FF unat_drop_bit)

text \<open>The number of the page of an address determines both indices.\<close>

definition vpn :: "u32 \<Rightarrow> nat" where
  "vpn va = unat va div PGSIZE"

lemma index_vpn: "PDX va = vpn va div 1024" "PTX va = vpn va mod 1024" "vpn va < 1048576"
  using unat_u32_less [of va] by (simp_all add: PDX_unat PTX_unat vpn_def div_mult2_eq [symmetric] less_mult_imp_div_less)

lemma vpn_eq: "vpn va = vpn vb \<longleftrightarrow> PDX va = PDX vb \<and> PTX va = PTX vb"
  unfolding index_vpn by (metis div_mult_mod_eq)

lemma unat_rounddown: "unat (PGROUNDDOWN va) = vpn va * PGSIZE"
proof -
  have "PGROUNDDOWN va = va - take_bit 12 va" using rounddown_split [of va] by (metis add_diff_cancel_right')
  moreover have t: "unat (take_bit 12 va) = unat va mod 4096" using unat_take_bit [of 12 va] by simp
  then have "take_bit 12 va \<le> va" by (simp add: word_le_nat_alt)
  ultimately have "unat (PGROUNDDOWN va) = unat va - unat va mod 4096" by (simp add: unat_sub t)
  then show ?thesis by (simp add: vpn_def minus_mod_eq_div_mult)
qed

text \<open>An entry made of a page address and flags below the page size gives both back.\<close>

lemma pte_split:
  assumes "pa mod PGSIZE = 0" and "fl AND NOT 0xFFF = 0"
  shows "PTE_ADDR (pa OR fl) = pa" and "PTE_FLAGS (pa OR fl) = fl"
proof -
  have "unat pa mod 4096 = 0" using assms(1) unat_mod [of pa 4096] by simp
  then have "take_bit 12 pa = 0" using unat_take_bit [of 12 pa] by (simp add: unat_eq_zero)
  then have lo: "\<not> bit pa i" if "i < 12" for i using that by (metis bit_take_bit_iff bit_0_eq bot_apply bot_bool_def)
  have hi: "\<not> bit fl i" if "\<not> i < 12" for i
  proof
    assume b: "bit fl i"
    then have "bit (fl AND NOT 0xFFF) i" using that bit_imp_le_length [OF b] by (simp add: mask12 bit_simps)
    with assms(2) show False by simp
  qed
  show "PTE_ADDR (pa OR fl) = pa" "PTE_FLAGS (pa OR fl) = fl"
    unfolding PTE_ADDR_def PTE_FLAGS_def mask12 by (rule bit_word_eqI; use lo hi in \<open>auto simp: bit_simps\<close>)+
qed

end
