(* ===== verification/Vm_Props.thy ===== *)
theory Vm_Props
  imports Vm
begin

text \<open>
  Page tables as functions from page numbers to entries.  \<open>pte\<close> is what the two levels of a page table say
  about a page, 0 where there is no table.  \<open>tables_ok\<close> keeps the tables apart from each other, from the
  directory and from the free pages; \<open>user_ok\<close> says the same of the pages mapped below \<^verbatim>\<open>KERNBASE\<close>.  Under these
  invariants \<^verbatim>\<open>mappages\<close>, \<^verbatim>\<open>allocuvm\<close> and \<^verbatim>\<open>deallocuvm\<close> are updates of that function.
\<close>

section \<open>Page tables as functions\<close>

definition tab :: "vm \<Rightarrow> u32 \<Rightarrow> nat \<Rightarrow> u32" where
  "tab s d i = P2V (PTE_ADDR (ent s d i))"

definition pte :: "vm \<Rightarrow> u32 \<Rightarrow> nat \<Rightarrow> u32" where
  "pte s d n = (if present (ent s d (n div 1024)) then ent s (tab s d (n div 1024)) (n mod 1024) else 0)"

definition dirs :: "vm \<Rightarrow> u32 \<Rightarrow> nat set" where
  "dirs s d = {i. i < 1024 \<and> present (ent s d i)}"

definition tabs :: "vm \<Rightarrow> u32 \<Rightarrow> u32 set" where
  "tabs s d = tab s d ` dirs s d"

definition tables_ok :: "vm \<Rightarrow> u32 \<Rightarrow> u32 list \<Rightarrow> bool" where
  "tables_ok s d fs \<longleftrightarrow> kmem_pages (vkend s) (vkm s) fs \<and> d \<notin> set fs \<and> d \<notin> tabs s d \<and> tabs s d \<inter> set fs = {} \<and>
     inj_on (tab s d) (dirs s d) \<and> (\<forall>p \<in> insert d (tabs s d). free_page (vkend s) p \<and> p \<noteq> 0)"

lemma tab_in_tabs: "i < 1024 \<Longrightarrow> present (ent s d i) \<Longrightarrow> tab s d i \<in> tabs s d"
  by (simp add: tabs_def dirs_def)

lemma not_present_0 [simp]: "\<not> present 0"
  by (simp add: present_def)

lemma present_odd: "present w \<longleftrightarrow> odd w"
  by (simp add: present_def and_one_eq odd_iff_mod_2_eq_one)

lemma present_or [simp]: "present (x OR y) \<longleftrightarrow> present x \<or> present y"
  by (simp add: present_odd even_or_iff)

lemma present_numeral [simp]: "present 1" "present 15" "present 9"
  by (simp_all add: present_def)

lemma P2V_V2P [simp]: "P2V (V2P p) = p" "V2P (P2V p) = p"
  by (simp_all add: P2V_def V2P_def)

lemma V2P_mod: "p mod PGSIZE = 0 \<Longrightarrow> V2P p mod PGSIZE = 0"
proof -
  assume p: "p mod PGSIZE = 0"
  have "V2P p = p + KERNBASE" by (simp add: V2P_def)
  moreover have "unat (p + KERNBASE) mod 4096 = (unat p + unat KERNBASE) mod 4096"
    by (simp add: unat_word_ariths mod_mod_cancel)
  moreover have "unat p mod 4096 = 0" using p unat_mod [of p 4096] by simp
  ultimately have "unat (V2P p mod 4096) = 0" by (simp add: unat_mod mod_add_eq [symmetric])
  then show ?thesis by (simp add: unat_eq_zero)
qed

text \<open>Writing an entry of a table changes what is said about one page.\<close>

lemma set_ent_ent: "ent (set_ent t i x s) t' j = (if t' = t \<and> j = i then x else ent s t' j)"
  by (simp add: set_ent_def)

lemma set_ent_rest [simp]: "vkm (set_ent t i x s) = vkm s" "vkend (set_ent t i x s) = vkend s" "kdata (set_ent t i x s) = kdata s"
  by (simp_all add: set_ent_def)

lemma set_entry:
  fixes x :: u32
  assumes "tables_ok s d fs" and "n < 1048576" and "present (ent s d (n div 1024))"
  defines "s' \<equiv> set_ent (tab s d (n div 1024)) (n mod 1024) x s"
  shows "tables_ok s' d fs" and "tabs s' d = tabs s d"
    and "m < 1048576 \<Longrightarrow> pte s' d m = (if m = n then x else pte s d m)" and "ent s' d = ent s d"
proof -
  have n: "n div 1024 < 1024" using assms(2) by (simp add: less_mult_imp_div_less)
  have t: "tab s d (n div 1024) \<noteq> d" using assms(1,3) n tab_in_tabs [of _ s d] unfolding tables_ok_def by metis
  show e: "ent s' d = ent s d" using t by (auto simp: s'_def set_ent_ent fun_eq_iff)
  then have tb: "tab s' d = tab s d" by (simp add: tab_def fun_eq_iff)
  show ts: "tabs s' d = tabs s d" by (simp add: tabs_def dirs_def e tb)
  show "tables_ok s' d fs" using assms(1) unfolding tables_ok_def ts tb dirs_def e by (simp add: s'_def)
  show "pte s' d m = (if m = n then x else pte s d m)" if "m < 1048576"
  proof (cases "present (ent s d (m div 1024))")
    case True
    have m: "m div 1024 < 1024" using that by (simp add: less_mult_imp_div_less)
    have "tab s d (m div 1024) = tab s d (n div 1024) \<longleftrightarrow> m div 1024 = n div 1024"
      using assms(1,3) n m True unfolding tables_ok_def dirs_def by (auto dest: inj_onD)
    moreover have "m = n \<longleftrightarrow> m div 1024 = n div 1024 \<and> m mod 1024 = n mod 1024" by (metis div_mult_mod_eq)
    ultimately show ?thesis using True unfolding pte_def e tb by (auto simp: s'_def set_ent_ent)
  next
    case False
    then show ?thesis using assms(3) unfolding pte_def e tb by auto
  qed
qed

text \<open>Allocating and clearing a page.\<close>

lemma page_alloc_ok:
  assumes "kmem_pages (vkend s) (vkm s) fs"
  shows "fs = [] \<Longrightarrow> page_alloc s = (0, s)"
    and "fs = p # gs \<Longrightarrow> \<exists>k. page_alloc s = (p, s\<lparr>vkm := k\<rparr>) \<and> p \<noteq> 0 \<and> p \<notin> set gs \<and> free_page (vkend s) p \<and>
          kmem_pages (vkend s) k gs \<and> bytes k = bytes (vkm s)"
proof -
  show "page_alloc s = (0, s)" if "fs = []" using kalloc_ok [OF assms] that by (simp add: page_alloc_def)
  assume fs: "fs = p # gs"
  obtain k where k: "kalloc (vkm s) = (p, k)" "p \<noteq> 0" "p \<notin> set gs" "kmem_pages (vkend s) k gs"
    using kalloc_ok [OF assms] fs by auto
  have "bytes k = bytes (vkm s)" using k(1) by (auto simp: kalloc_def Let_def split: if_splits)
  moreover have "free_page (vkend s) p" using assms fs by (simp add: kmem_pages_def)
  ultimately show "\<exists>k. page_alloc s = (p, s\<lparr>vkm := k\<rparr>) \<and> p \<noteq> 0 \<and> p \<notin> set gs \<and> free_page (vkend s) p \<and>
          kmem_pages (vkend s) k gs \<and> bytes k = bytes (vkm s)"
    using k by (auto simp: page_alloc_def)
qed

lemma kmem_pages_bytes [simp]: "kmem_pages e (k\<lparr>bytes := b\<rparr>) fs = kmem_pages e k fs"
  by (simp add: kmem_pages_def)

lemma page_zero_simps [simp]:
  "ent (page_zero p s) = (ent s)(p := \<lambda>_. 0)" "vkend (page_zero p s) = vkend s" "kdata (page_zero p s) = kdata s"
  "kmem_pages e (vkm (page_zero p s)) fs = kmem_pages e (vkm s) fs"
  "bytes (vkm (page_zero p s)) = fill (bytes (vkm s)) p 0 PGSIZE"
  by (simp_all add: page_zero_def memset_is_fill)

lemma pde_flags: "(15 :: u32) AND NOT 0xFFF = 0"
  by simp

lemma new_pde:
  assumes "free_page e p"
  shows "P2V (PTE_ADDR (V2P p OR 15)) = p" "present (V2P p OR 15)"
  using assms pte_split(1) [OF V2P_mod pde_flags, of p] by (simp_all add: free_page_def)

text \<open>
  \<^verbatim>\<open>walkpgdir\<close> with allocation finds or makes the table; nothing that the page table says changes, and at most
  the first free page becomes a table.
\<close>

definition grown :: "u32 \<Rightarrow> vm \<Rightarrow> u32 list \<Rightarrow> vm \<Rightarrow> u32 list \<Rightarrow> bool" where
  "grown d s fs s' fs' \<longleftrightarrow> tables_ok s' d fs' \<and> (\<exists>gs. fs = gs @ fs' \<and> tabs s' d = tabs s d \<union> set gs \<and>
     (\<forall>a. (\<forall>p \<in> set gs. \<not> unat (a - p) < PGSIZE) \<longrightarrow> bytes (vkm s') a = bytes (vkm s) a) \<and>
     (\<forall>p. p \<noteq> d \<longrightarrow> p \<notin> tabs s' d \<longrightarrow> ent s' p = ent s p)) \<and>
     vkend s' = vkend s \<and> kdata s' = kdata s"

lemma walk_alloc:
  assumes ok: "tables_ok s d fs"
  shows "\<exists>r s' fs'. walkpgdir d va True s = (r, s') \<and> grown d s fs s' fs' \<and>
           (\<forall>n < 1048576. pte s' d n = pte s d n) \<and>
           (r = None \<longrightarrow> fs = [] \<and> \<not> present (ent s d (PDX va)) \<and> s' = s) \<and>
           (\<forall>x. r = Some x \<longrightarrow> x = (tab s' d (PDX va), PTX va) \<and> present (ent s' d (PDX va)))"
proof (cases "present (ent s d (PDX va))")
  case True
  then have "walkpgdir d va True s = (Some (tab s d (PDX va), PTX va), s)" by (simp add: walkpgdir_def tab_def)
  moreover have "grown d s fs s fs" using ok by (simp add: grown_def)
  ultimately show ?thesis using True by auto
next
  case False
  have km: "kmem_pages (vkend s) (vkm s) fs" using ok by (simp add: tables_ok_def)
  show ?thesis
  proof (cases fs)
    case Nil
    then have "walkpgdir d va True s = (None, s)" using False page_alloc_ok(1) [OF km] by (simp add: walkpgdir_def)
    moreover have "grown d s fs s fs" using ok by (simp add: grown_def)
    ultimately show ?thesis using False Nil by auto
  next
    case (Cons p gs)
    obtain k where k: "page_alloc s = (p, s\<lparr>vkm := k\<rparr>)" "p \<noteq> 0" "p \<notin> set gs" "free_page (vkend s) p"
      "kmem_pages (vkend s) k gs" "bytes k = bytes (vkm s)" using page_alloc_ok(2) [OF km Cons] by blast
    let ?s = "set_ent d (PDX va) (V2P p OR 15) (page_zero p (s\<lparr>vkm := k\<rparr>))"
    have w: "walkpgdir d va True s = (Some (p, PTX va), ?s)" using False k(1,2) by (simp add: walkpgdir_def)
    have pd: "p \<noteq> d" "p \<notin> tabs s d" using ok Cons by (auto simp: tables_ok_def)
    have i: "PDX va < 1024" using index_vpn(1,3) [of va] by (simp add: less_mult_imp_div_less)
    have e: "ent ?s d = (ent s d)(PDX va := V2P p OR 15)" using pd(1) by (auto simp: set_ent_def)
    have e': "ent ?s t = (if t = p then \<lambda>_. 0 else ent s t)" if "t \<noteq> d" for t using that by (auto simp: set_ent_def)
    have tb: "tab ?s d = (tab s d)(PDX va := p)" using new_pde(1) [OF k(4)] by (auto simp: tab_def e fun_eq_iff)
    have pr: "present (ent ?s d j) \<longleftrightarrow> present (ent s d j) \<or> j = PDX va" for j using new_pde(2) [OF k(4)] by (simp add: e)
    have ds: "dirs ?s d = insert (PDX va) (dirs s d)" "PDX va \<notin> dirs s d" unfolding dirs_def pr using i False by auto
    have ts: "tabs ?s d = insert p (tabs s d)" using ds(2) unfolding tabs_def ds(1) tb by (auto simp: fun_upd_image)
    have "inj_on (tab ?s d) (dirs ?s d)"
      using ok ds(2) pd(2) unfolding ds(1) tb tables_ok_def tabs_def by (auto intro: inj_on_fun_updI)
    then have tok: "tables_ok ?s d gs" using ok k(2-5) pd Cons unfolding tables_ok_def ts by auto
    have pte: "pte ?s d n = pte s d n" if "n < 1048576" for n
    proof -
      have n: "n div 1024 < 1024" using that by (simp add: less_mult_imp_div_less)
      show ?thesis
      proof (cases "n div 1024 = PDX va")
        case True
        then show ?thesis using False pd(1) e' [of p] by (simp add: pte_def pr tb)
      next
        case neq: False
        have "tab s d (n div 1024) \<noteq> p \<and> tab s d (n div 1024) \<noteq> d" if "present (ent s d (n div 1024))"
          using tab_in_tabs [OF n that] pd(2) ok unfolding tables_ok_def by metis
        then show ?thesis using neq e' by (auto simp: pte_def e tb)
      qed
    qed
    have "\<forall>t. t \<noteq> d \<longrightarrow> t \<notin> tabs ?s d \<longrightarrow> ent ?s t = ent s t" using e' unfolding ts by simp
    moreover have "\<forall>a. (\<forall>t \<in> set [p]. \<not> unat (a - t) < PGSIZE) \<longrightarrow> bytes (vkm ?s) a = bytes (vkm s) a"
      using k(6) by (simp add: fill_def)
    moreover have "fs = [p] @ gs" "tabs ?s d = tabs s d \<union> set [p]" using Cons ts by auto
    ultimately have "grown d s fs ?s gs" using tok unfolding grown_def by auto
    then show ?thesis using w pte pr tb Cons by auto
  qed
qed

lemma grown_refl: "tables_ok s d fs \<Longrightarrow> grown d s fs s fs"
  by (simp add: grown_def)

lemma grown_trans:
  assumes "grown d s fs s1 fs1" and "grown d s1 fs1 s2 fs2"
  shows "grown d s fs s2 fs2"
proof -
  obtain gs hs where g: "fs = gs @ fs1" "tabs s1 d = tabs s d \<union> set gs"
      "\<forall>a. (\<forall>p \<in> set gs. \<not> unat (a - p) < PGSIZE) \<longrightarrow> bytes (vkm s1) a = bytes (vkm s) a"
      "\<forall>p. p \<noteq> d \<longrightarrow> p \<notin> tabs s1 d \<longrightarrow> ent s1 p = ent s p"
    and h: "fs1 = hs @ fs2" "tabs s2 d = tabs s1 d \<union> set hs"
      "\<forall>a. (\<forall>p \<in> set hs. \<not> unat (a - p) < PGSIZE) \<longrightarrow> bytes (vkm s2) a = bytes (vkm s1) a"
      "\<forall>p. p \<noteq> d \<longrightarrow> p \<notin> tabs s2 d \<longrightarrow> ent s2 p = ent s1 p"
    using assms unfolding grown_def by blast
  then have "fs = (gs @ hs) @ fs2 \<and> tabs s2 d = tabs s d \<union> set (gs @ hs) \<and>
      (\<forall>a. (\<forall>p \<in> set (gs @ hs). \<not> unat (a - p) < PGSIZE) \<longrightarrow> bytes (vkm s2) a = bytes (vkm s) a) \<and>
      (\<forall>p. p \<noteq> d \<longrightarrow> p \<notin> tabs s2 d \<longrightarrow> ent s2 p = ent s p)" by auto
  then show ?thesis using assms unfolding grown_def by (auto intro!: exI [of _ "gs @ hs"])
qed

lemma grown_set_entry:
  assumes "tables_ok s d fs" and "n < 1048576" and "present (ent s d (n div 1024))"
  shows "grown d s fs (set_ent (tab s d (n div 1024)) (n mod 1024) x s) fs"
proof -
  have "tab s d (n div 1024) \<in> tabs s d" using assms(2,3) by (intro tab_in_tabs) (simp_all add: less_mult_imp_div_less)
  then show ?thesis using set_entry(1,2) [OF assms] by (auto simp: grown_def set_ent_ent fun_eq_iff)
qed

section \<open>Mapping a range\<close>

definition map_entry :: "u32 \<Rightarrow> u32 \<Rightarrow> nat \<Rightarrow> u32" where
  "map_entry pa perm j = (pa + of_nat (j * PGSIZE)) OR perm OR PTE_P OR PTE_D"

text \<open>The first \<open>m\<close> of the \<open>n + 1\<close> pages from page \<open>k\<close> on are mapped; \<open>m\<close> is smaller only when memory ran out.\<close>

definition mapped :: "nat \<Rightarrow> u32 \<Rightarrow> nat \<Rightarrow> u32 \<Rightarrow> u32 \<Rightarrow> vm \<Rightarrow> u32 list \<Rightarrow> (int \<times> vm) result \<Rightarrow> bool" where
  "mapped n d k pa perm s fs res \<longleftrightarrow>
     (\<exists>r s' fs' m. res = Inr (r, s') \<and> grown d s fs s' fs' \<and> (r = 0 \<and> m = Suc n \<or> r = -1 \<and> m \<le> n \<and> fs' = []) \<and>
        (\<forall>i < 1048576. pte s' d i = (if k \<le> i \<and> i < k + m then map_entry pa perm (i - k) else pte s d i)))"

lemma map_step:
  assumes ok: "tables_ok s d fs" "unat a = k * PGSIZE" "k < 1048576" "\<not> present (pte s d k)"
  shows "mapped n d k pa perm s fs (map_loop n d a pa perm s) \<or>
     (\<exists>s2 fs1. grown d s fs s2 fs1 \<and>
      map_loop n d a pa perm s = (case n of 0 \<Rightarrow> Inr (0, s2) | Suc m \<Rightarrow> map_loop m d (a + PGSIZE) (pa + PGSIZE) perm s2) \<and>
      (\<forall>i < 1048576. pte s2 d i = (if i = k then map_entry pa perm 0 else pte s d i)))"
proof -
  have k: "PDX a = k div 1024" "PTX a = k mod 1024" using index_vpn [of a] ok(2) by (simp_all add: vpn_def)
  obtain r s1 fs1 where w: "walkpgdir d a True s = (r, s1)" "grown d s fs s1 fs1" "\<forall>n < 1048576. pte s1 d n = pte s d n"
    "r = None \<longrightarrow> fs = [] \<and> \<not> present (ent s d (PDX a)) \<and> s1 = s"
    "\<forall>x. r = Some x \<longrightarrow> x = (tab s1 d (PDX a), PTX a) \<and> present (ent s1 d (PDX a))"
    using walk_alloc [OF ok(1), of a] by blast
  show ?thesis
  proof (cases r)
    case None
    then have "map_loop n d a pa perm s = Inr (-1, s)" using w by (simp add: map_loop.simps)
    then show ?thesis using None w(4) grown_refl [OF ok(1)] by (auto simp: mapped_def intro!: exI [of _ "0::nat"])
  next
    case (Some x)
    then have x: "x = (tab s1 d (k div 1024), k mod 1024)" "present (ent s1 d (k div 1024))" using w(5) k by auto
    have "ent s1 (tab s1 d (k div 1024)) (k mod 1024) = pte s1 d k" using x(2) by (simp add: pte_def)
    then have np: "\<not> present (ent s1 (tab s1 d (k div 1024)) (k mod 1024))" using w(3) ok(3,4) by simp
    let ?s2 = "set_ent (tab s1 d (k div 1024)) (k mod 1024) (pa OR perm OR 9) s1"
    have t1: "tables_ok s1 d fs1" using w(2) by (simp add: grown_def)
    have "map_loop n d a pa perm s = (case n of 0 \<Rightarrow> Inr (0, ?s2) | Suc m \<Rightarrow> map_loop m d (a + PGSIZE) (pa + PGSIZE) perm ?s2)"
      using w(1) Some x(1) np by (subst map_loop.simps) (simp add: Let_def)
    moreover have "grown d s fs ?s2 fs1" by (rule grown_trans [OF w(2) grown_set_entry [OF t1 ok(3) x(2)]])
    moreover have "pte ?s2 d i = (if i = k then map_entry pa perm 0 else pte s d i)" if "i < 1048576" for i
      using set_entry(3) [OF t1 ok(3) x(2) that] w(3) that by (simp add: map_entry_def)
    ultimately show ?thesis by blast
  qed
qed

lemma map_entry_shift: "k < i \<Longrightarrow> map_entry (pa + PGSIZE) perm (i - Suc k) = map_entry pa perm (i - k)"
proof -
  assume "k < i"
  then obtain j where "i = Suc k + j" using less_iff_Suc_add by auto
  then show ?thesis by (simp add: map_entry_def algebra_simps)
qed

lemma map_loop_ok:
  assumes "tables_ok s d fs" and "unat a = k * PGSIZE" and "k + n < 1048576" and "\<forall>i \<in> {k..k + n}. \<not> present (pte s d i)"
  shows "mapped n d k pa perm s fs (map_loop n d a pa perm s)"
  using assms
proof (induction n arbitrary: a pa k s fs)
  case 0
  have "k < 1048576" "\<not> present (pte s d k)" using 0(3,4) by auto
  from map_step [OF 0(1,2) this, of 0 pa perm] show ?case
    by (auto simp: mapped_def intro!: exI [of _ "Suc 0"])
next
  case (Suc n)
  have np: "k < 1048576" "\<not> present (pte s d k)" using Suc.prems(3,4) by auto
  consider "mapped (Suc n) d k pa perm s fs (map_loop (Suc n) d a pa perm s)" | s2 fs1 where "grown d s fs s2 fs1"
    "map_loop (Suc n) d a pa perm s = map_loop n d (a + PGSIZE) (pa + PGSIZE) perm s2"
    "\<forall>i < 1048576. pte s2 d i = (if i = k then map_entry pa perm 0 else pte s d i)"
    using map_step [OF Suc.prems(1,2) np, of "Suc n" pa perm] by auto
  then show ?case
  proof cases
    case 2
    have a: "unat (a + PGSIZE) = Suc k * PGSIZE"
      using Suc.prems(2,3) by (subst unat_u32_add) auto
    have "\<forall>i \<in> {Suc k..Suc k + n}. \<not> present (pte s2 d i)" using Suc.prems(3,4) 2(3) by auto
    moreover have "tables_ok s2 d fs1" using 2(1) by (simp add: grown_def)
    ultimately obtain r s' fs' m where IH: "map_loop n d (a + PGSIZE) (pa + PGSIZE) perm s2 = Inr (r, s')"
      "grown d s2 fs1 s' fs'" "r = 0 \<and> m = Suc n \<or> r = -1 \<and> m \<le> n \<and> fs' = []"
      "\<forall>i < 1048576. pte s' d i = (if Suc k \<le> i \<and> i < Suc k + m then map_entry (pa + PGSIZE) perm (i - Suc k) else pte s2 d i)"
      using Suc.IH [of s2 fs1 "a + PGSIZE" "Suc k" "pa + PGSIZE"] a Suc.prems(3) by (auto simp: mapped_def)
    have "pte s' d i = (if k \<le> i \<and> i < k + Suc m then map_entry pa perm (i - k) else pte s d i)" if "i < 1048576" for i
      using IH(4) 2(3) that map_entry_shift [of k i pa perm] by (cases "i = k") auto
    moreover have "grown d s fs s' fs'" by (rule grown_trans [OF 2(1) IH(2)])
    ultimately show ?thesis using IH(1,3) 2(2) unfolding mapped_def by (intro exI [of _ r] exI [of _ s'] exI [of _ fs'] exI [of _ "Suc m"]) auto
  qed
qed

section \<open>The pages of a process\<close>

text \<open>
  \<open>owns\<close>: every page mapped below \<^verbatim>\<open>KERNBASE\<close> is a page of the allocator that is neither free nor the directory
  nor a table, and is mapped once.  The arguments are the end of the kernel, the directory, the tables, the
  free pages and what the page table says.
\<close>

abbreviation (input) UPAGES :: nat where
  "UPAGES \<equiv> 524288"

definition frame :: "u32 \<Rightarrow> u32" where
  "frame x = P2V (PTE_ADDR x)"

definition owns :: "u32 \<Rightarrow> u32 \<Rightarrow> u32 set \<Rightarrow> u32 set \<Rightarrow> (nat \<Rightarrow> u32) \<Rightarrow> bool" where
  "owns e d ts fs f \<longleftrightarrow>
     (\<forall>n < UPAGES. present (f n) \<longrightarrow>
        free_page e (frame (f n)) \<and> frame (f n) \<noteq> 0 \<and> frame (f n) \<noteq> d \<and> frame (f n) \<notin> ts \<and> frame (f n) \<notin> fs) \<and>
     (\<forall>m < UPAGES. \<forall>n < UPAGES. present (f m) \<longrightarrow> present (f n) \<longrightarrow> frame (f m) = frame (f n) \<longrightarrow> m = n)"

definition space_ok :: "vm \<Rightarrow> u32 \<Rightarrow> u32 list \<Rightarrow> bool" where
  "space_ok s d fs \<longleftrightarrow> tables_ok s d fs \<and> KERNBASE < vkend s \<and> owns (vkend s) d (tabs s d) (set fs) (pte s d)"

lemma owns_cong: "(\<And>n. n < UPAGES \<Longrightarrow> f n = g n) \<Longrightarrow> owns e d ts fs f = owns e d ts fs g"
  by (simp add: owns_def)

lemma owns_grow: "owns e d ts (set (gs @ fs)) f \<Longrightarrow> owns e d (ts \<union> set gs) (set fs) f"
  by (auto simp: owns_def)

lemma owns_free:
  "owns e d ts fs f \<Longrightarrow> (\<And>n. n < UPAGES \<Longrightarrow> present (f n) \<Longrightarrow> frame (f n) \<noteq> p) \<Longrightarrow> owns e d ts (insert p fs) f"
  by (auto simp: owns_def)

lemma owns_unmap:
  assumes "owns e d ts fs f" and "n < UPAGES" and "present (f n)" and "\<not> present x"
  shows "owns e d ts (insert (frame (f n)) fs) (f(n := x))"
  using assms unfolding owns_def by auto

lemma owns_map:
  assumes "owns e d ts fs f" and "free_page e (frame x)" and "frame x \<noteq> 0" and "frame x \<noteq> d" and "frame x \<notin> ts" and "frame x \<notin> fs"
    and "\<And>m. m < UPAGES \<Longrightarrow> present (f m) \<Longrightarrow> frame (f m) \<noteq> frame x"
  shows "owns e d ts fs (f(n := x))"
proof -
  have "\<forall>m < UPAGES. present (f m) \<longrightarrow> frame (f m) \<noteq> frame x \<and> frame x \<noteq> frame (f m)" using assms(7) by metis
  with assms(1-6) show ?thesis unfolding owns_def by auto
qed

text \<open>Freeing or clearing a page that is no table of a directory leaves what it says as it is.\<close>

lemma ent_other:
  assumes "\<forall>t. t \<noteq> p \<longrightarrow> ent s' t = ent s t" and "p \<noteq> d" and "p \<notin> tabs s d"
  shows "ent s' d = ent s d" and "tab s' d = tab s d" and "dirs s' d = dirs s d" and "tabs s' d = tabs s d"
    and "n < 1048576 \<Longrightarrow> pte s' d n = pte s d n"
proof -
  show e: "ent s' d = ent s d" using assms(1,2) by metis
  then show tb: "tab s' d = tab s d" and ds: "dirs s' d = dirs s d" by (simp_all add: tab_def dirs_def fun_eq_iff)
  then show "tabs s' d = tabs s d" by (simp add: tabs_def)
  show "pte s' d n = pte s d n" if "n < 1048576"
  proof (cases "present (ent s d (n div 1024))")
    case True
    have "n div 1024 < 1024" using that by (simp add: less_mult_imp_div_less)
    then have "tab s d (n div 1024) \<noteq> p" using tab_in_tabs [OF _ True] assms(3) by auto
    then show ?thesis using True assms(1) unfolding pte_def e tb by simp
  qed (simp add: pte_def e)
qed

lemma page_free_tables:
  assumes ok: "tables_ok s d fs" and p: "free_page (vkend s) p" "p \<noteq> 0" "p \<notin> set fs" "p \<noteq> d" "p \<notin> tabs s d"
  shows "\<exists>s'. page_free p s = Inr s' \<and> tables_ok s' d (p # fs) \<and> ent s' d = ent s d \<and> tabs s' d = tabs s d \<and>
    vkend s' = vkend s \<and> (\<forall>n < 1048576. pte s' d n = pte s d n)"
proof -
  obtain k where k: "kfree (vkend s) p (vkm s) = Inr k" "kmem_pages (vkend s) k (p # fs)"
    using kfree_ok [of "vkend s" "vkm s" fs p] ok p by (auto simp: tables_ok_def)
  let ?s = "s\<lparr>vkm := k, ent := (ent s)(p := (\<lambda>_. 0x01010101)(0 := freelist (vkm s)))\<rparr>"
  have other: "\<forall>t. t \<noteq> p \<longrightarrow> ent ?s t = ent s t" by simp
  note eo = ent_other [of p ?s s d, OF other p(4,5)]
  have "tables_ok ?s d (p # fs)" using ok k(2) p unfolding tables_ok_def eo(2-4) by auto
  then show ?thesis using k(1) eo(1,4,5) by (simp add: page_free_def)
qed

lemma unmap_page:
  assumes ok: "space_ok s d fs" and n: "n < UPAGES" "present (pte s d n)"
  defines "p \<equiv> frame (pte s d n)"
  shows "\<exists>s1. page_free p s = Inr s1 \<and> (let s2 = set_ent (tab s d (n div 1024)) (n mod 1024) 0 s1 in
     space_ok s2 d (p # fs) \<and> tabs s2 d = tabs s d \<and> vkend s2 = vkend s \<and> (\<forall>i < 1048576. pte s2 d i = (if i = n then 0 else pte s d i)))"
proof -
  have t: "tables_ok s d fs" and o: "owns (vkend s) d (tabs s d) (set fs) (pte s d)" using ok by (simp_all add: space_ok_def)
  then have p: "free_page (vkend s) p" "p \<noteq> 0" "p \<notin> set fs" "p \<noteq> d" "p \<notin> tabs s d" using n by (auto simp: owns_def p_def)
  obtain s1 where s1: "page_free p s = Inr s1" "tables_ok s1 d (p # fs)" "ent s1 d = ent s d" "tabs s1 d = tabs s d"
    "vkend s1 = vkend s" "\<forall>n < 1048576. pte s1 d n = pte s d n" using page_free_tables [OF t p] by blast
  have pr: "present (ent s1 d (n div 1024))" using n(2) s1(3) by (auto simp: pte_def split: if_splits)
  have tb: "tab s1 d = tab s d" using s1(3) by (simp add: tab_def fun_eq_iff)
  have n': "n < 1048576" using n(1) by simp
  let ?s = "set_ent (tab s d (n div 1024)) (n mod 1024) 0 s1"
  have s2: "tables_ok ?s d (p # fs)" "tabs ?s d = tabs s d" "\<forall>i < 1048576. pte ?s d i = (if i = n then 0 else pte s d i)"
    using set_entry(1,2) [OF s1(2) n' pr, of 0] set_entry(3) [OF s1(2) n' pr] s1(4,6) by (simp_all add: tb)
  have "owns (vkend s) d (tabs s d) (insert p (set fs)) (pte ?s d)"
    using owns_unmap [OF o n, of 0] owns_cong [of "(pte s d)(n := 0)" "pte ?s d"] s2(3) by (simp add: p_def)
  then show ?thesis using s1 s2 ok by (auto simp: space_ok_def Let_def)
qed

lemma space_free:
  assumes ok: "space_ok s d fs" and p: "free_page (vkend s) p" "p \<noteq> 0" "p \<notin> set fs" "p \<noteq> d" "p \<notin> tabs s d"
    and u: "\<forall>i < UPAGES. present (pte s d i) \<longrightarrow> frame (pte s d i) \<noteq> p"
  shows "\<exists>s'. page_free p s = Inr s' \<and> space_ok s' d (p # fs) \<and> tabs s' d = tabs s d \<and> (\<forall>n < 1048576. pte s' d n = pte s d n)"
proof -
  obtain s' where s': "page_free p s = Inr s'" "tables_ok s' d (p # fs)" "tabs s' d = tabs s d" "vkend s' = vkend s"
    "\<forall>n < 1048576. pte s' d n = pte s d n" using page_free_tables [OF _ p] ok by (auto simp: space_ok_def)
  have "owns (vkend s) d (tabs s d) (set (p # fs)) (pte s d)" using ok u by (auto simp: space_ok_def intro!: owns_free)
  then have "owns (vkend s) d (tabs s d) (set (p # fs)) (pte s' d)"
    using owns_cong [of "pte s' d" "pte s d"] s'(5) by simp
  then show ?thesis using s' ok by (simp add: space_ok_def)
qed

section \<open>Shrinking\<close>

definition in_range :: "nat \<Rightarrow> u32 \<Rightarrow> nat \<Rightarrow> bool" where
  "in_range k sz i \<longleftrightarrow> k \<le> i \<and> i * PGSIZE < unat sz"

text \<open>The pages mapped in a range.\<close>

definition frames :: "vm \<Rightarrow> u32 \<Rightarrow> (nat \<Rightarrow> bool) \<Rightarrow> u32 set" where
  "frames s d R = {frame (pte s d i) | i. R i \<and> present (pte s d i)}"

lemma frames_cong: "(\<And>i. R i \<Longrightarrow> pte s' d i = pte s d i) \<Longrightarrow> frames s' d R = frames s d R"
  unfolding frames_def by metis

text \<open>What an operation leaves alone: the pages outside of a set, as tables and as bytes.\<close>

definition vkeeps :: "u32 set \<Rightarrow> vm \<Rightarrow> vm \<Rightarrow> bool" where
  "vkeeps X s s' \<longleftrightarrow> (\<forall>p. p \<notin> X \<longrightarrow> ent s' p = ent s p) \<and>
     (\<forall>x. (\<forall>p \<in> X. \<not> unat (x - p) < PGSIZE) \<longrightarrow> bytes (vkm s') x = bytes (vkm s) x) \<and> vkend s' = vkend s \<and> kdata s' = kdata s"

lemma vkeeps_refl [simp]: "vkeeps X s s"
  by (simp add: vkeeps_def)

lemma vkeeps_mono: "vkeeps X s s' \<Longrightarrow> X \<subseteq> Y \<Longrightarrow> vkeeps Y s s'"
  unfolding vkeeps_def by (meson subsetD)

lemma vkeeps_trans [trans]: "vkeeps X s s1 \<Longrightarrow> vkeeps X s1 s2 \<Longrightarrow> vkeeps X s s2"
  by (simp add: vkeeps_def)

lemma vkeeps_set_ent: "vkeeps {t} s (set_ent t i x s)"
  by (simp add: vkeeps_def set_ent_def)

lemma vkeeps_page_free: "page_free p s = Inr s' \<Longrightarrow> vkeeps {p} s s'"
  by (auto simp: vkeeps_def page_free_def kfree_def fill_def split: if_splits)

lemma vkeeps_grown: "grown d s fs s' fs' \<Longrightarrow> vkeeps (insert d (tabs s' d)) s s'"
  unfolding grown_def vkeeps_def by auto

text \<open>The mapped pages of a range are unmapped and on the free list.\<close>

definition unmapped :: "u32 \<Rightarrow> (nat \<Rightarrow> bool) \<Rightarrow> vm \<Rightarrow> u32 list \<Rightarrow> vm \<Rightarrow> u32 list \<Rightarrow> bool" where
  "unmapped d R s fs s' fs' \<longleftrightarrow> space_ok s' d fs' \<and> tabs s' d = tabs s d \<and> vkend s' = vkend s \<and>
     set fs' = set fs \<union> frames s d R \<and> vkeeps (tabs s d \<union> frames s d R) s s' \<and>
     (\<forall>i < 1048576. pte s' d i = (if R i \<and> present (pte s d i) then 0 else pte s d i))"

lemma unmapped_step:
  assumes "space_ok s d fs" and "k < UPAGES" and "present (pte s d k)" and "page_free (frame (pte s d k)) s = Inr s1"
    and "unmapped d (in_range (Suc k) sz) (set_ent (tab s d (k div 1024)) (k mod 1024) 0 s1) (frame (pte s d k) # fs) s' fs'"
    and "k * PGSIZE < unat sz" and "unat sz \<le> 2147483648"
  shows "unmapped d (in_range k sz) s fs s' fs'"
proof -
  let ?s = "set_ent (tab s d (k div 1024)) (k mod 1024) 0 s1"
  have s: "tabs ?s d = tabs s d" "vkend ?s = vkend s" "\<forall>i < 1048576. pte ?s d i = (if i = k then 0 else pte s d i)"
    using unmap_page [OF assms(1-3)] assms(4) by (auto simp: Let_def)
  have r: "in_range k sz i \<longleftrightarrow> i = k \<or> in_range (Suc k) sz i" for i using assms(6) by (auto simp: in_range_def)
  have lim: "i < 1048576" if "in_range (Suc k) sz i" for i using that assms(7) by (simp add: in_range_def)
  have "frames ?s d (in_range (Suc k) sz) = frames s d (in_range (Suc k) sz)"
    using s(3) lim by (intro frames_cong) (auto simp: in_range_def)
  moreover have f: "frames s d (in_range k sz) = insert (frame (pte s d k)) (frames s d (in_range (Suc k) sz))"
    unfolding frames_def r using assms(3) by auto
  moreover have "vkeeps (tabs s d \<union> frames s d (in_range k sz)) s ?s"
  proof (rule vkeeps_trans)
    show "vkeeps (tabs s d \<union> frames s d (in_range k sz)) s s1"
      by (rule vkeeps_mono [OF vkeeps_page_free [OF assms(4)]]) (simp add: f)
    have "present (ent s d (k div 1024))" using assms(3) by (auto simp: pte_def split: if_splits)
    then have "tab s d (k div 1024) \<in> tabs s d" using assms(2) by (intro tab_in_tabs) (simp_all add: less_mult_imp_div_less)
    then show "vkeeps (tabs s d \<union> frames s d (in_range k sz)) s1 ?s" by (intro vkeeps_mono [OF vkeeps_set_ent]) simp
  qed
  moreover have "vkeeps (tabs s d \<union> frames s d (in_range k sz)) ?s s'" if "frames ?s d (in_range (Suc k) sz) = frames s d (in_range (Suc k) sz)"
    using assms(5) s(1) that f by (auto simp: unmapped_def intro: vkeeps_mono)
  moreover have "pte s' d i = (if in_range k sz i \<and> present (pte s d i) then 0 else pte s d i)" if "i < 1048576" for i
    using assms(3,5) s(3) that unfolding unmapped_def r by (cases "i = k") (auto simp: in_range_def)
  ultimately show ?thesis using assms(5) s(1,2) vkeeps_trans [of "tabs s d \<union> frames s d (in_range k sz)" s ?s s'] by (simp add: unmapped_def)
qed

lemma unmapped_skip:
  assumes "unmapped d (in_range m sz) s fs s' fs'" and "k \<le> m" and "\<And>i. k \<le> i \<Longrightarrow> i < m \<Longrightarrow> \<not> present (pte s d i)"
  shows "unmapped d (in_range k sz) s fs s' fs'"
proof -
  have "in_range k sz i \<and> present (pte s d i) \<longleftrightarrow> in_range m sz i \<and> present (pte s d i)" for i
    using assms(2,3) unfolding in_range_def by (meson le_trans not_le)
  moreover from this have "frames s d (in_range k sz) = frames s d (in_range m sz)" by (simp add: frames_def)
  ultimately show ?thesis using assms(1) unfolding unmapped_def by simp
qed

lemma dealloc_loop_ok:
  assumes "space_ok s d fs" and "unat sz \<le> 2147483648" and "a = k * PGSIZE"
  shows "\<exists>s' fs'. dealloc_loop d a sz s = Inr s' \<and> unmapped d (in_range k sz) s fs s' fs'"
  using assms
proof (induction d a sz s arbitrary: k fs rule: dealloc_loop.induct)
  case (1 d a sz s)
  note IH = 1(1-3) and ok = 1(4) and sz = 1(5) and a = 1(6)
  show ?case
  proof (cases "a < unat sz")
    case False
    then have "\<not> in_range k sz i" for i using a by (auto simp: in_range_def)
    then show ?thesis using False ok by (auto simp: dealloc_loop.simps unmapped_def frames_def intro!: exI [of _ fs])
  next
    case True
    have k: "k < UPAGES" "k div 1024 < 1024" using True sz a by (auto simp: less_mult_imp_div_less)
    have ua: "unat (of_nat a :: u32) = a" using True sz by (intro unat_u32_of_nat) simp
    have ix: "PDX (of_nat a) = k div 1024" "PTX (of_nat a) = k mod 1024"
      using index_vpn [of "of_nat a"] ua a by (simp_all add: vpn_def)
    have big: "\<not> a \<ge> 2 ^ 32 - PGSIZE" using True sz by simp
    show ?thesis
    proof (cases "present (ent s d (k div 1024))")
      case False
      have w: "walkpgdir d (of_nat a) False s = (None, s)" using False by (simp add: walkpgdir_def ix)
      have no: "k div 1024 \<noteq> 1023" using k(1) by (simp add: less_mult_imp_div_less) 
      let ?m = "(k div 1024 + 1) * 1024"
      have m: "(a div 2 ^ 22 + 1) * 2 ^ 22 = ?m * PGSIZE" using a by (simp add: div_mult2_eq [of _ 4096 1024, simplified])
      have np: "\<not> present (pte s d i)" if "k \<le> i" "i < ?m" for i
      proof -
        have "i div 1024 = k div 1024" using that by (metis Suc_eq_plus1 div_le_mono le_antisym less_Suc_eq_le less_mult_imp_div_less)
        then show ?thesis using False by (simp add: pte_def)
      qed
      have "k \<le> ?m" using div_mult_mod_eq [of k 1024] mod_less_divisor [of 1024 k] by simp
      have no': "PDX (of_nat a) \<noteq> 1023" using no ix(1) by simp
      obtain s' fs' where s': "dealloc_loop d ((a div 2 ^ 22 + 1) * 2 ^ 22) sz s = Inr s'" "unmapped d (in_range ?m sz) s fs s' fs'"
        using IH(1) [OF True big w [symmetric] refl no' ok sz m] by blast
      then have "dealloc_loop d a sz s = Inr s'" using True big w no' by (subst dealloc_loop.simps) simp
      then show ?thesis using unmapped_skip [OF s'(2) \<open>k \<le> ?m\<close> np] by blast
    next
      case pr: True
      have w: "walkpgdir d (of_nat a) False s = (Some (tab s d (k div 1024), k mod 1024), s)"
        using pr by (simp add: walkpgdir_def ix tab_def)
      have p: "ent s (tab s d (k div 1024)) (k mod 1024) = pte s d k" using pr by (simp add: pte_def)
      have a': "a + PGSIZE = Suc k * PGSIZE" using a by simp
      show ?thesis
      proof (cases "present (pte s d k)")
        case False
        obtain s' fs' where "dealloc_loop d (a + PGSIZE) sz s = Inr s'" "unmapped d (in_range (Suc k) sz) s fs s' fs'"
          using IH(3) [OF True big w [symmetric] refl refl refl _ ok sz a'] False p by auto
        moreover have "unmapped d (in_range k sz) s fs s' fs'" if "unmapped d (in_range (Suc k) sz) s fs s' fs'" for s' fs'
          using unmapped_skip [OF that, of k] False by (simp add: le_less_Suc_eq)
        ultimately show ?thesis using True big w p False by (subst dealloc_loop.simps) auto
      next
        case q: True
        obtain s1 where s1: "page_free (frame (pte s d k)) s = Inr s1"
            "space_ok (set_ent (tab s d (k div 1024)) (k mod 1024) 0 s1) d (frame (pte s d k) # fs)"
          using unmap_page [OF ok k(1) q] by (auto simp: Let_def)
        have nz: "PTE_ADDR (pte s d k) \<noteq> 0"
        proof
          assume "PTE_ADDR (pte s d k) = 0"
          then have "frame (pte s d k) = KERNBASE" by (simp add: frame_def P2V_def)
          moreover have "vkend s \<le> frame (pte s d k)" using ok k(1) q by (simp add: space_ok_def owns_def free_page_def)
          ultimately show False using ok by (auto simp: space_ok_def)
        qed
        obtain s' fs' where "dealloc_loop d (a + PGSIZE) sz (set_ent (tab s d (k div 1024)) (k mod 1024) 0 s1) = Inr s'"
          "unmapped d (in_range (Suc k) sz) (set_ent (tab s d (k div 1024)) (k mod 1024) 0 s1) (frame (pte s d k) # fs) s' fs'"
          using IH(2) [OF True big w [symmetric] refl refl refl _ refl nz [folded p] s1(2) sz a'] q p by auto
        moreover have "k * PGSIZE < unat sz" using True a by simp
        ultimately show ?thesis
          using True big w p q nz s1(1) unmapped_step [OF ok k(1) q s1(1) _ _ sz]
          by (subst dealloc_loop.simps) (auto simp: frame_def)
      qed
    qed
  qed
qed

section \<open>Growing\<close>

lemma vpn_of_nat: "k < 1048576 \<Longrightarrow> r < PGSIZE \<Longrightarrow> unat w = k * PGSIZE + r \<Longrightarrow> vpn w = k"
  by (simp add: vpn_def)

lemma in_page:
  assumes "p mod PGSIZE = 0" and "unat (x - p) < PGSIZE"
  shows "PGROUNDDOWN x = p"
proof -
  have p: "unat p = vpn p * PGSIZE" using assms(1) unat_mod [of p 4096] by (simp add: vpn_def mod_0_imp_dvd)
  have "unat (p + (x - p)) = unat p + unat (x - p)"
    using p index_vpn(3) [of p] assms(2) by (intro unat_u32_add) linarith
  then have "vpn x = vpn p" using p assms(2) index_vpn(3) [of p] by (intro vpn_of_nat [where r = "unat (x - p)"]) simp_all
  then show ?thesis using unat_rounddown [of x] p by (metis word_unat_eq_iff)
qed

lemma page_disjoint: "free_page e p \<Longrightarrow> free_page e' q \<Longrightarrow> unat (x - p) < PGSIZE \<Longrightarrow> unat (x - q) < PGSIZE \<Longrightarrow> p = q"
  using in_page unfolding free_page_def by metis

lemma unat_roundup:
  assumes "unat x \<le> 2147483648"
  shows "unat (PGROUNDUP x) = (unat x + 4095) div PGSIZE * PGSIZE"
proof -
  have "PGROUNDUP x = PGROUNDDOWN (x + 4095)" by (simp add: PGROUNDUP_def PGROUNDDOWN_def add.commute)
  moreover have "unat (x + 4095) = unat x + 4095" using assms by (subst unat_u32_add) auto
  ultimately show ?thesis by (simp add: unat_rounddown vpn_def)
qed

lemma mappages_one:
  assumes "a = k * PGSIZE" and "k < 1048576"
  shows "mappages d (of_nat a) PGSIZE pa perm s = map_loop 0 d (of_nat a) pa perm s"
proof -
  have a: "unat (of_nat a :: u32) = a" using assms by (intro unat_u32_of_nat) simp
  have l: "unat (of_nat a + PGSIZE - 1 :: u32) = a + 4095"
  proof -
    have "of_nat a + PGSIZE - 1 = (of_nat a + 4095 :: u32)" by simp
    moreover have "unat (of_nat a + 4095 :: u32) = a + 4095" using a assms by (subst unat_u32_add) simp_all
    ultimately show ?thesis by (simp add: add.commute)
  qed
  have "vpn (of_nat a) = k" "vpn (of_nat a + PGSIZE - 1) = k"
    using assms a l vpn_of_nat [of k 0 "of_nat a"] vpn_of_nat [of k 4095 "of_nat a + PGSIZE - 1"] by simp_all
  then have "unat (PGROUNDDOWN (of_nat a)) = unat (of_nat a :: u32)"
    "unat (PGROUNDDOWN (of_nat a + PGSIZE - 1)) = unat (of_nat a :: u32)" using a assms(1) by (simp_all add: unat_rounddown)
  then have "PGROUNDDOWN (of_nat a) = of_nat a" "PGROUNDDOWN (of_nat a + PGSIZE - 1) = of_nat a"
    by (simp_all only: word_unat_eq_iff)
  then show ?thesis by (simp add: mappages_def)
qed

lemma deallocuvm_ok:
  assumes "space_ok s d fs" and "unat old \<le> 2147483648" and "unat new \<le> 2147483648"
  defines "k \<equiv> (unat new + 4095) div PGSIZE"
  shows "\<exists>s' fs'. deallocuvm d old new s = Inr (min old new, s') \<and> unmapped d (in_range k old) s fs s' fs'"
proof (cases "old \<le> new")
  case True
  have "\<not> in_range k old i" for i
  proof
    assume r: "in_range k old i"
    have "unat old \<le> unat new" using True by (simp add: word_le_nat_alt)
    moreover have "unat new \<le> k * PGSIZE" using div_mult_mod_eq [of "unat new + 4095" 4096] mod_less_divisor [of 4096 "unat new + 4095"]
      unfolding k_def by linarith
    ultimately show False using r unfolding in_range_def by (metis le_trans mult_le_mono1 not_le)
  qed
  then show ?thesis using True assms(1) by (auto simp: deallocuvm_def unmapped_def frames_def intro!: exI [of _ fs])
next
  case False
  have "unat (PGROUNDUP new) = k * PGSIZE" using unat_roundup [OF assms(3)] by (simp add: k_def)
  then show ?thesis using dealloc_loop_ok [OF assms(1,2), of _ k] False by (auto simp: deallocuvm_def)
qed

definition zeroed :: "vm \<Rightarrow> u32 \<Rightarrow> bool" where
  "zeroed s p \<longleftrightarrow> (\<forall>x. unat (x - p) < PGSIZE \<longrightarrow> bytes (vkm s) x = 0)"

text \<open>
  \<open>added\<close>: the pages of a range are mapped to pages that were free, filled with zeros, nothing else changed, and
  every page that was free is still free, a new table, or mapped.  \<open>dropped\<close>: nothing of a range is mapped, nothing
  else changed, and every page is where it was, free, a table, or free now that it is no longer mapped.
\<close>

definition added :: "u32 \<Rightarrow> (nat \<Rightarrow> bool) \<Rightarrow> vm \<Rightarrow> u32 list \<Rightarrow> vm \<Rightarrow> u32 list \<Rightarrow> bool" where
  "added d R s fs s' fs' \<longleftrightarrow> space_ok s' d fs' \<and> set fs' \<union> tabs s' d \<union> frames s' d R = set fs \<union> tabs s d \<and>
     vkeeps (set fs \<union> insert d (tabs s d)) s s' \<and>
     (\<forall>i < 1048576. if R i then \<exists>p \<in> set fs. pte s' d i = V2P p OR 15 \<and> zeroed s' p else pte s' d i = pte s d i) \<and>
     (\<forall>x. (\<forall>p \<in> set fs. \<not> unat (x - p) < PGSIZE) \<longrightarrow> bytes (vkm s') x = bytes (vkm s) x)"

definition dropped :: "u32 \<Rightarrow> (nat \<Rightarrow> bool) \<Rightarrow> vm \<Rightarrow> u32 list \<Rightarrow> vm \<Rightarrow> u32 list \<Rightarrow> bool" where
  "dropped d R s fs s' fs' \<longleftrightarrow> space_ok s' d fs' \<and> set fs' \<union> tabs s' d = set fs \<union> tabs s d \<union> frames s d R \<and>
     vkeeps (set fs \<union> insert d (tabs s d) \<union> frames s d R) s s' \<and>
     (\<forall>i < 1048576. if R i then \<not> present (pte s' d i) else pte s' d i = pte s d i)"

text \<open>Mapping one page that nobody uses.\<close>

lemma map_entry_frame:
  assumes "free_page e m" and "perm AND NOT 0xFFF = 0"
  shows "frame (map_entry (V2P m) perm 0) = m" "PTE_FLAGS (map_entry (V2P m) perm 0) = perm OR 9" "present (map_entry (V2P m) perm 0)"
proof -
  have "(perm OR 9) AND NOT 0xFFF = (perm AND NOT 0xFFF) OR (9 AND NOT 0xFFF)" by (simp add: bit.conj_disj_distrib2)
  then have "(perm OR 9) AND NOT 0xFFF = 0" using assms(2) by simp
  note s = pte_split [OF V2P_mod this, of m]
  have "map_entry (V2P m) perm 0 = V2P m OR (perm OR 9)" by (simp add: map_entry_def)
  then show "frame (map_entry (V2P m) perm 0) = m" "PTE_FLAGS (map_entry (V2P m) perm 0) = perm OR 9" "present (map_entry (V2P m) perm 0)"
    using s assms(1) by (simp_all add: frame_def free_page_def)
qed

lemma map_fresh:
  assumes ok: "space_ok s d fs" and m: "free_page (vkend s) m" "m \<noteq> 0" "m \<noteq> d" "m \<notin> tabs s d" "m \<notin> set fs"
    and u: "\<forall>i < UPAGES. present (pte s d i) \<longrightarrow> frame (pte s d i) \<noteq> m"
    and k: "k < UPAGES" "a = k * PGSIZE" "\<not> present (pte s d k)" and perm: "perm AND NOT 0xFFF = 0"
  shows "\<exists>r s' fs'. mappages d (of_nat a) PGSIZE (V2P m) perm s = Inr (r, s') \<and> grown d s fs s' fs' \<and> space_ok s' d fs' \<and>
     (r = 0 \<and> (\<forall>i < 1048576. pte s' d i = (if i = k then map_entry (V2P m) perm 0 else pte s d i)) \<or>
      r = -1 \<and> fs' = [] \<and> (\<forall>i < 1048576. pte s' d i = pte s d i))"
proof -
  have t: "tables_ok s d fs" and o: "owns (vkend s) d (tabs s d) (set fs) (pte s d)" using ok by (simp_all add: space_ok_def)
  have "unat (of_nat a :: u32) = a" using k(1,2) by (intro unat_u32_of_nat) simp
  then have k': "k + 0 < 1048576" "unat (of_nat a :: u32) = k * PGSIZE" using k(1,2) by simp_all
  have "mapped 0 d k (V2P m) perm s fs (map_loop 0 d (of_nat a) (V2P m) perm s)"
    using map_loop_ok [OF t k'(2,1)] k(3) by simp
  then obtain r s' fs' q where q: "map_loop 0 d (of_nat a) (V2P m) perm s = Inr (r, s')" "grown d s fs s' fs'"
    "r = 0 \<and> q = Suc 0 \<or> r = -1 \<and> q = 0 \<and> fs' = []"
    "\<forall>i < 1048576. pte s' d i = (if k \<le> i \<and> i < k + q then map_entry (V2P m) perm (i - k) else pte s d i)"
    unfolding mapped_def by auto
  let ?x = "map_entry (V2P m) perm 0"
  have pt: "\<forall>i < 1048576. pte s' d i = (if r = 0 \<and> i = k then ?x else pte s d i)" using q(3,4) by auto
  obtain gs where gs: "fs = gs @ fs'" "tabs s' d = tabs s d \<union> set gs" "vkend s' = vkend s" "tables_ok s' d fs'"
    using q(2) unfolding grown_def by auto
  have own: "owns (vkend s) d (tabs s d \<union> set gs) (set fs') (pte s d)" using o gs(1) owns_grow by simp
  moreover have "owns (vkend s) d (tabs s d \<union> set gs) (set fs') ((pte s d)(k := ?x))"
    using own m gs(1) u by (intro owns_map) (auto simp: map_entry_frame(1) [OF m(1) perm])
  ultimately have "owns (vkend s) d (tabs s d \<union> set gs) (set fs') (pte s' d)"
    using pt owns_cong [of "pte s' d" "pte s d" "vkend s" d] owns_cong [of "pte s' d" "(pte s d)(k := ?x)" "vkend s" d]
    by (cases "r = 0") auto
  then have "space_ok s' d fs'" using ok gs by (simp add: space_ok_def)
  moreover have "mappages d (of_nat a) PGSIZE (V2P m) perm s = Inr (r, s')"
    using mappages_one [OF k(2)] k(1) q(1) by simp
  moreover have "r = 0 \<or> r = -1 \<and> fs' = []" using q(3) by auto
  ultimately show ?thesis using q(2) pt by auto
qed

text \<open>Taking a page and filling it leaves the address space well formed without it.\<close>

lemma take_page:
  assumes ok: "space_ok s d (m # fs)" and a: "page_alloc s = (m, s1)"
    and z: "kmem_pages (vkend s) (vkm s1) fs \<Longrightarrow> kmem_pages (vkend s) (vkm z) fs" "vkend z = vkend s" "\<forall>t. t \<noteq> m \<longrightarrow> ent z t = ent s1 t"
  shows "space_ok z d fs" and "free_page (vkend z) m" "m \<noteq> 0" "m \<noteq> d" "m \<notin> tabs z d" "m \<notin> set fs"
    and "\<forall>i < UPAGES. present (pte z d i) \<longrightarrow> frame (pte z d i) \<noteq> m" and "tabs z d = tabs s d" and "n < 1048576 \<Longrightarrow> pte z d n = pte s d n"
    and "bytes (vkm s1) = bytes (vkm s)"
proof -
  have t: "tables_ok s d (m # fs)" and o: "owns (vkend s) d (tabs s d) (insert m (set fs)) (pte s d)"
    using ok by (simp_all add: space_ok_def)
  then obtain km where km: "s1 = s\<lparr>vkm := km\<rparr>" "m \<noteq> 0" "m \<notin> set fs" "free_page (vkend s) m" "kmem_pages (vkend s) km fs"
    "bytes km = bytes (vkm s)"
    using page_alloc_ok(2) [of s "m # fs" m fs] a by (auto simp: tables_ok_def)
  have md: "m \<noteq> d" "m \<notin> tabs s d" using t by (auto simp: tables_ok_def)
  have "\<forall>t. t \<noteq> m \<longrightarrow> ent z t = ent s t" using z(3) by (simp add: km(1))
  note eo = ent_other [OF this md]
  show pz: "pte z d n = pte s d n" if "n < 1048576" for n using eo(5) that .
  have "tables_ok z d fs" using t z(1,2) km(1,5) unfolding tables_ok_def eo(2-4) by auto
  moreover have "owns (vkend s) d (tabs s d) (set fs) (pte z d)"
    using o owns_cong [of "pte z d" "pte s d" "vkend s" d] pz by (auto simp: owns_def)
  ultimately show "space_ok z d fs" using ok z(2) eo(4) by (simp add: space_ok_def)
  show "free_page (vkend z) m" "m \<noteq> 0" "m \<noteq> d" "m \<notin> tabs z d" "m \<notin> set fs" "tabs z d = tabs s d" "bytes (vkm s1) = bytes (vkm s)"
    using km md z(2) eo(4) by auto
  show "\<forall>i < UPAGES. present (pte z d i) \<longrightarrow> frame (pte z d i) \<noteq> m" using o pz by (auto simp: owns_def)
qed

text \<open>One turn of the loop of \<^verbatim>\<open>allocuvm\<close>.\<close>

lemma alloc_page:
  assumes ok: "space_ok s d (m # fs)" and k: "k < UPAGES" "a = k * PGSIZE" and np: "\<not> present (pte s d k)"
    and s1: "page_alloc s = (m, s1)"
  shows "m \<noteq> 0 \<and> (\<exists>r s2 fs2 gs. mappages d (of_nat a) PGSIZE (V2P m) (PTE_W OR PTE_U) (page_zero m s1) = Inr (r, s2) \<and>
     fs = gs @ fs2 \<and> tabs s2 d = tabs s d \<union> set gs \<and> vkend s2 = vkend s \<and> zeroed s2 m \<and>
     vkeeps (set (m # fs) \<union> insert d (tabs s d)) s s2 \<and>
     (\<forall>x. (\<forall>p \<in> set (m # fs). \<not> unat (x - p) < PGSIZE) \<longrightarrow> bytes (vkm s2) x = bytes (vkm s) x) \<and>
     (r = 0 \<and> space_ok s2 d fs2 \<and> (\<forall>i < 1048576. pte s2 d i = (if i = k then V2P m OR 15 else pte s d i)) \<or>
      r = -1 \<and> fs2 = [] \<and> space_ok s2 d [] \<and> (\<forall>i < 1048576. pte s2 d i = pte s d i)))"
proof -
  let ?z = "page_zero m s1"
  have "vkend s1 = vkend s" using s1 by (auto simp: page_alloc_def split: prod.splits)
  then have "vkend ?z = vkend s" "\<forall>t. t \<noteq> m \<longrightarrow> ent ?z t = ent s1 t" by simp_all
  note z = take_page [of s d m fs s1 ?z, OF ok s1 _ this]
  have np': "\<not> present (pte ?z d k)" using np z(9) [of k] k(1) by simp
  have flags: "(6 :: u32) AND NOT 0xFFF = 0" by simp
  obtain r s2 fs2 where q: "mappages d (of_nat a) PGSIZE (V2P m) 6 ?z = Inr (r, s2)" "grown d ?z fs s2 fs2" "space_ok s2 d fs2"
    "r = 0 \<and> (\<forall>i < 1048576. pte s2 d i = (if i = k then map_entry (V2P m) 6 0 else pte ?z d i)) \<or>
     r = -1 \<and> fs2 = [] \<and> (\<forall>i < 1048576. pte s2 d i = pte ?z d i)"
    using map_fresh [OF z(1-7) k np' flags] by auto
  obtain gs where gs: "fs = gs @ fs2" "tabs s2 d = tabs s d \<union> set gs" "vkend s2 = vkend s"
    "\<forall>x. (\<forall>p \<in> set gs. \<not> unat (x - p) < PGSIZE) \<longrightarrow> bytes (vkm s2) x = bytes (vkm ?z) x"
    using q(2) z(8) \<open>vkend ?z = vkend s\<close> unfolding grown_def by auto
  have fr: "free_page (vkend s) p" if "p \<in> set (m # fs)" for p using ok that by (auto simp: space_ok_def tables_ok_def kmem_pages_def)
  have zero: "zeroed s2 m"
    unfolding zeroed_def
  proof (intro allI impI)
    fix x :: u32
    assume x: "unat (x - m) < PGSIZE"
    have "\<not> unat (x - p) < PGSIZE" if "p \<in> set gs" for p
      using page_disjoint [OF fr fr x, of p] that z(6) gs(1) by auto
    then show "bytes (vkm s2) x = 0" using gs(4) x by (auto simp: fill_def)
  qed
  have bt: "bytes (vkm s2) x = bytes (vkm s) x" if "\<forall>p \<in> set (m # fs). \<not> unat (x - p) < PGSIZE" for x
    using gs(1,4) that z(10) by (auto simp: fill_def)
  have "vkeeps (set (m # fs) \<union> insert d (tabs s d)) s ?z"
    using s1 z(10) by (auto simp: vkeeps_def page_alloc_def fill_def kalloc_def split: prod.splits if_splits)
  moreover have "vkeeps (set (m # fs) \<union> insert d (tabs s d)) ?z s2"
    using gs(1,2) by (intro vkeeps_mono [OF vkeeps_grown [OF q(2)]]) auto
  ultimately have vk: "vkeeps (set (m # fs) \<union> insert d (tabs s d)) s s2" by (rule vkeeps_trans)
  have "map_entry (V2P m) 6 0 = V2P m OR 15" by (simp add: map_entry_def or.assoc)
  then show ?thesis
    using q(1,3,4) gs(1-3) z(3,9) zero vk bt by (intro conjI exI [of _ r] exI [of _ s2] exI [of _ fs2] exI [of _ gs]) auto
qed

lemma unmapped_dropped: "unmapped d R s fs s' fs' \<Longrightarrow> dropped d R s fs s' fs'"
  unfolding unmapped_def dropped_def by (auto intro: vkeeps_mono)

text \<open>What a turn did comes before what the rest of the loop did.\<close>

lemma added_step:
  assumes rest: "added d (in_range (Suc k) new) s2 fs2 s' fs'" and m: "free_page e m" "m \<notin> set fs" "zeroed s2 m"
    and fs: "fs = gs @ fs2" "\<forall>p \<in> set fs. free_page e p" and k: "k * PGSIZE < unat new"
    and s2: "\<forall>i < 1048576. pte s2 d i = (if i = k then V2P m OR 15 else pte s d i)"
      "\<forall>x. (\<forall>p \<in> set (m # fs). \<not> unat (x - p) < PGSIZE) \<longrightarrow> bytes (vkm s2) x = bytes (vkm s) x"
      "tabs s2 d = tabs s d \<union> set gs" "vkeeps (set (m # fs) \<union> insert d (tabs s d)) s s2" "k < 1048576"
  shows "added d (in_range k new) s (m # fs) s' fs'"
proof -
  have r: "in_range k new i \<longleftrightarrow> i = k \<or> in_range (Suc k) new i" "\<not> in_range (Suc k) new k" for i using k by (auto simp: in_range_def)
  have by2: "\<forall>x. (\<forall>p \<in> set fs2. \<not> unat (x - p) < PGSIZE) \<longrightarrow> bytes (vkm s') x = bytes (vkm s2) x"
    using rest by (simp add: added_def)
  have zm: "zeroed s' m"
    unfolding zeroed_def
  proof (intro allI impI)
    fix x :: u32
    assume x: "unat (x - m) < PGSIZE"
    have "\<not> unat (x - p) < PGSIZE" if "p \<in> set fs2" for p
      using page_disjoint [OF m(1) _ x, of e p] fs m(2) that by auto
    then show "bytes (vkm s') x = 0" using by2 m(3) x by (simp add: zeroed_def)
  qed
  have other: "pte s' d i = pte s2 d i" if "i < 1048576" "\<not> in_range (Suc k) new i" for i
    using rest that by (auto simp: added_def)
  have new: "\<exists>p \<in> set fs2. pte s' d i = V2P p OR 15 \<and> zeroed s' p" if "i < 1048576" "in_range (Suc k) new i" for i
    using rest that by (auto simp: added_def)
  have "if in_range k new i then \<exists>p \<in> set (m # fs). pte s' d i = V2P p OR 15 \<and> zeroed s' p else pte s' d i = pte s d i"
    if "i < 1048576" for i
  proof (cases "in_range (Suc k) new i")
    case True
    then show ?thesis using new [OF that True] r(1) fs(1) by auto
  next
    case False
    then show ?thesis using other [OF that False] s2(1) that r(1) zm by auto
  qed
  moreover have "bytes (vkm s') x = bytes (vkm s) x" if "\<forall>p \<in> set (m # fs). \<not> unat (x - p) < PGSIZE" for x
    using that s2(2) by2 fs(1) by simp
  moreover have "space_ok s' d fs'" using rest by (simp add: added_def)
  moreover have "set fs' \<union> tabs s' d \<union> frames s' d (in_range k new) = set (m # fs) \<union> tabs s d"
  proof -
    have "pte s' d k = V2P m OR 15" using other [of k] r(2) s2(1,5) by simp
    then have "present (pte s' d k)" "frame (pte s' d k) = m" using new_pde [OF m(1)] by (simp_all add: frame_def)
    then have "frames s' d (in_range k new) = insert m (frames s' d (in_range (Suc k) new))"
      using r(1) unfolding frames_def by auto
    moreover have "set fs' \<union> tabs s' d \<union> frames s' d (in_range (Suc k) new) = set fs2 \<union> tabs s2 d" using rest by (simp add: added_def)
    ultimately show ?thesis using fs(1) s2(3) by auto
  qed
  moreover have "vkeeps (set (m # fs) \<union> insert d (tabs s d)) s2 s'"
    using rest fs(1) s2(3) unfolding added_def by (auto intro: vkeeps_mono)
  then have "vkeeps (set (m # fs) \<union> insert d (tabs s d)) s s'" by (rule vkeeps_trans [OF s2(4)])
  ultimately show ?thesis unfolding added_def by blast
qed

lemma dropped_step:
  assumes rest: "dropped d R s2 fs2 s' fs'" and R: "R k" "\<And>i. R i \<Longrightarrow> i < 1048576" and np: "\<not> present (pte s d k)"
    and s2: "\<forall>i < 1048576. pte s2 d i = (if i = k then V2P m OR 15 else pte s d i)" "tabs s2 d = tabs s d \<union> set gs"
    and m: "free_page e m" and vk: "vkeeps (set (m # gs @ fs2) \<union> insert d (tabs s d)) s s2"
  shows "dropped d R s (m # gs @ fs2) s' fs'"
proof -
  have fr: "frames s2 d R = insert m (frames s d R)"
  proof -
    have "present (pte s2 d k)" "frame (pte s2 d k) = m" using s2(1) R new_pde [OF m] by (simp_all add: frame_def)
    then have "frames s2 d R = insert m {frame (pte s2 d i) | i. (R i \<and> i \<noteq> k) \<and> present (pte s2 d i)}"
      using R(1) unfolding frames_def by auto
    moreover have "{frame (pte s2 d i) | i. (R i \<and> i \<noteq> k) \<and> present (pte s2 d i)} = frames s d R"
      using s2(1) R(2) np unfolding frames_def by (intro Collect_cong) metis
    ultimately show ?thesis by simp
  qed
  let ?X = "set (m # gs @ fs2) \<union> insert d (tabs s d) \<union> frames s d R"
  have "vkeeps ?X s2 s'" using rest fr s2(2) unfolding dropped_def by (auto intro: vkeeps_mono)
  moreover have "vkeeps ?X s s2" by (rule vkeeps_mono [OF vk]) blast
  ultimately have "vkeeps ?X s s'" by (rule vkeeps_trans [rotated])
  then show ?thesis using rest s2 R(1) fr unfolding dropped_def by (auto split: if_splits)
qed

text \<open>The way out of \<^verbatim>\<open>allocuvm\<close> when there is no page for a table: the pages mapped so far and the new page \<open>m\<close> are freed.\<close>

lemma undo_alloc:
  assumes ok: "space_ok s d []" and sz: "unat new \<le> 2147483648" "unat old \<le> 2147483648"
    and m: "free_page (vkend s) m" "m \<noteq> 0" "m \<noteq> d" "m \<notin> tabs s d"
    and mu: "\<forall>i < UPAGES. present (pte s d i) \<longrightarrow> frame (pte s d i) \<noteq> m"
  defines "R \<equiv> in_range ((unat old + 4095) div PGSIZE) new"
  shows "\<exists>s1 s2 fs2. deallocuvm d new old s = Inr (min new old, s1) \<and> page_free m s1 = Inr s2 \<and> dropped d R s [m] s2 fs2"
proof -
  obtain s1 fs1 where s1: "deallocuvm d new old s = Inr (min new old, s1)" "unmapped d R s [] s1 fs1"
    using deallocuvm_ok [OF ok sz] unfolding R_def by blast
  then have u: "space_ok s1 d fs1" "tabs s1 d = tabs s d" "vkend s1 = vkend s" "set fs1 = frames s d R"
    "\<forall>i < 1048576. pte s1 d i = (if R i \<and> present (pte s d i) then 0 else pte s d i)" "vkeeps (tabs s d \<union> frames s d R) s s1"
    by (simp_all add: unmapped_def)
  have lim: "i < UPAGES" if "R i" for i using that sz(1) by (simp add: R_def in_range_def)
  have mf: "m \<notin> set fs1" using mu lim unfolding u(4) frames_def by blast
  have mt: "m \<notin> tabs s1 d" using m(4) u(2) by simp
  have mu1: "\<forall>i < UPAGES. present (pte s1 d i) \<longrightarrow> frame (pte s1 d i) \<noteq> m" using u(5) mu by simp
  have fm: "free_page (vkend s1) m" using m(1) u(3) by simp
  obtain s2 where s2: "page_free m s1 = Inr s2" "space_ok s2 d (m # fs1)" "tabs s2 d = tabs s1 d"
    "\<forall>n < 1048576. pte s2 d n = pte s1 d n"
    using space_free [OF u(1) fm m(2) mf m(3) mt mu1] by blast
  let ?X = "set [m] \<union> insert d (tabs s d) \<union> frames s d R"
  have "vkeeps ?X s s1" by (rule vkeeps_mono [OF u(6)]) blast
  moreover have "vkeeps ?X s1 s2" by (rule vkeeps_mono [OF vkeeps_page_free [OF s2(1)]]) simp
  ultimately have "vkeeps ?X s s2" by (rule vkeeps_trans)
  then have "dropped d R s [m] s2 (m # fs1)" using s2 u(2,4,5) by (auto simp: dropped_def)
  then show ?thesis using s1(1) s2(1) by blast
qed

lemma alloc_loop_ok:
  assumes "space_ok s d fs" and "unat new \<le> 2147483648" and "unat old \<le> unat new" and "a = k * PGSIZE"
    and "(unat old + 4095) div PGSIZE \<le> k" and "\<forall>i. in_range k new i \<longrightarrow> \<not> present (pte s d i)"
  shows "\<exists>r s' fs'. alloc_loop d old new a s = Inr (r, s') \<and>
     (r = new \<and> added d (in_range k new) s fs s' fs' \<or>
      r = 0 \<and> dropped d (in_range ((unat old + 4095) div PGSIZE) new) s fs s' fs')"
  using assms
proof (induction d old new a s arbitrary: k fs rule: alloc_loop.induct)
  case (1 d old new a s)
  note IH = 1(1) and ok = 1(2) and sz = 1(3,4) and a = 1(5) and k0 = 1(6) and np = 1(7)
  let ?k0 = "(unat old + 4095) div PGSIZE"
  have old: "unat old \<le> 2147483648" using sz by simp
  have km: "kmem_pages (vkend s) (vkm s) fs" using ok by (simp add: space_ok_def tables_ok_def)
  show ?case
  proof (cases "a < unat new")
    case False
    then have "\<not> in_range k new i" for i using a by (auto simp: in_range_def)
    then show ?thesis using False ok by (auto simp: alloc_loop.simps added_def frames_def intro!: exI [of _ fs])
  next
    case True
    have k: "k < UPAGES" "in_range k new k" "in_range ?k0 new k" using True sz a k0 by (auto simp: in_range_def)
    show ?thesis
    proof (cases fs)
      case Nil
      obtain s' fs' where "deallocuvm d new old s = Inr (min new old, s')" "unmapped d (in_range ?k0 new) s fs s' fs'"
        using deallocuvm_ok [OF ok sz(1) old] by blast
      moreover from this have "alloc_loop d old new a s = Inr (0, s')"
        using True page_alloc_ok(1) [OF km Nil] by (subst alloc_loop.simps) simp
      ultimately show ?thesis using unmapped_dropped by blast
    next
      case (Cons m gs')
      obtain s1 where s1: "page_alloc s = (m, s1)" using page_alloc_ok(2) [OF km Cons] by blast
      have fr: "free_page (vkend s) m" "\<forall>p \<in> set gs'. free_page (vkend s) p" "m \<notin> set gs'"
        using km Cons page_alloc_ok(2) [OF km Cons] by (auto simp: kmem_pages_def)
      have md: "m \<noteq> d" "m \<notin> tabs s d" "\<And>i. i < UPAGES \<Longrightarrow> present (pte s d i) \<Longrightarrow> frame (pte s d i) \<noteq> m"
        using ok Cons by (auto simp: space_ok_def tables_ok_def owns_def)
      have npk: "\<not> present (pte s d k)" using np k(2) by blast
      obtain r s2 fs2 gs where m: "m \<noteq> 0"
        "mappages d (of_nat a) PGSIZE (V2P m) (PTE_W OR PTE_U) (page_zero m s1) = Inr (r, s2)"
        "gs' = gs @ fs2" "tabs s2 d = tabs s d \<union> set gs" "vkend s2 = vkend s" "zeroed s2 m"
        "vkeeps (set (m # gs') \<union> insert d (tabs s d)) s s2"
        "\<forall>x. (\<forall>p \<in> set (m # gs'). \<not> unat (x - p) < PGSIZE) \<longrightarrow> bytes (vkm s2) x = bytes (vkm s) x"
        "r = 0 \<and> space_ok s2 d fs2 \<and> (\<forall>i < 1048576. pte s2 d i = (if i = k then V2P m OR 15 else pte s d i)) \<or>
         r = -1 \<and> fs2 = [] \<and> space_ok s2 d [] \<and> (\<forall>i < 1048576. pte s2 d i = pte s d i)"
        using alloc_page [OF ok [unfolded Cons] k(1) a npk s1] by blast
      show ?thesis
      proof (cases "r = 0")
        case r: True
        then have s2: "space_ok s2 d fs2" "\<forall>i < 1048576. pte s2 d i = (if i = k then V2P m OR 15 else pte s d i)" using m(9) by auto
        have np2: "\<forall>i. in_range (Suc k) new i \<longrightarrow> \<not> present (pte s2 d i)"
          using np s2(2) sz(1) by (auto simp: in_range_def)
        have a2: "a + PGSIZE = Suc k * PGSIZE" "?k0 \<le> Suc k" using a k0 by simp_all
        obtain r' s' fs' where rest: "alloc_loop d old new (a + PGSIZE) s2 = Inr (r', s')"
          "r' = new \<and> added d (in_range (Suc k) new) s2 fs2 s' fs' \<or> r' = 0 \<and> dropped d (in_range ?k0 new) s2 fs2 s' fs'"
          using IH [OF True s1 [symmetric] m(1) _ s2(1) sz a2 np2, of 0] by blast
        have "alloc_loop d old new a s = Inr (r', s')"
          using True s1 m(1,2) r rest(1) by (subst alloc_loop.simps) simp
        moreover have "added d (in_range k new) s fs s' fs'" if "added d (in_range (Suc k) new) s2 fs2 s' fs'"
          unfolding Cons using True a by (intro added_step [OF that fr(1,3) m(6,3) fr(2) _ s2(2) m(8,4,7)]) (use k(1) in simp_all)
        moreover have "dropped d (in_range ?k0 new) s fs s' fs'" if "dropped d (in_range ?k0 new) s2 fs2 s' fs'"
          unfolding Cons m(3) by (rule dropped_step [OF that k(3) _ npk s2(2) m(4) fr(1) m(7) [unfolded m(3)]]) (use sz(1) in \<open>auto simp: in_range_def\<close>)
        ultimately show ?thesis using rest(2) by blast
      next
        case r: False
        then have s2: "r = -1" "fs2 = []" "space_ok s2 d []" "\<forall>i < 1048576. pte s2 d i = pte s d i" using m(9) by auto
        have mt: "m \<notin> tabs s2 d" using md(2) fr(3) m(3,4) by auto
        have mu: "\<forall>i < UPAGES. present (pte s2 d i) \<longrightarrow> frame (pte s2 d i) \<noteq> m" using s2(4) md(3) by simp
        have fm: "free_page (vkend s2) m" using fr(1) m(5) by simp
        obtain s3 s4 fs4 where s3: "deallocuvm d new old s2 = Inr (min new old, s3)" "page_free m s3 = Inr s4"
          "dropped d (in_range ?k0 new) s2 [m] s4 fs4"
          using undo_alloc [OF s2(3) sz(1) old fm m(1) md(1) mt mu] by blast
        have "frames s2 d (in_range ?k0 new) = frames s d (in_range ?k0 new)"
          using s2(4) sz(1) by (intro frames_cong) (simp add: in_range_def)
        then have fq: "frames s2 d (in_range ?k0 new) = frames s d (in_range ?k0 new)" .
        let ?X = "set fs \<union> insert d (tabs s d) \<union> frames s d (in_range ?k0 new)"
        have "vkeeps ?X s2 s4" using s3(3) fq m(3,4) s2(2) Cons unfolding dropped_def by (auto intro: vkeeps_mono)
        moreover have "vkeeps ?X s s2" by (rule vkeeps_mono [OF m(7)]) (use Cons in auto)
        ultimately have "vkeeps ?X s s4" by (rule vkeeps_trans [rotated])
        then have "dropped d (in_range ?k0 new) s fs s4 fs4"
          using s3(3) s2(2,4) m(3,4) Cons fq by (auto simp: dropped_def)
        moreover have "alloc_loop d old new a s = Inr (0, s4)"
          using True s1 m(1,2) s2(1) s3(1,2) by (subst alloc_loop.simps) simp
        ultimately show ?thesis by blast
      qed
    qed
  qed
qed

section \<open>Properties\<close>

lemma mappages_ok:
  assumes "tables_ok s d fs" and "0 < unat sz" and "unat va + unat sz \<le> 2 ^ 32"
    and "\<forall>i \<in> {vpn va..(unat va + unat sz - 1) div PGSIZE}. \<not> present (pte s d i)"
  shows "mapped ((unat va + unat sz - 1) div PGSIZE - vpn va) d (vpn va) pa perm s fs (mappages d va sz pa perm s)"
proof -
  let ?l = "va + sz - 1"
  have "unat (sz - 1) = unat sz - 1" using assms(2) unat_minus_one [of sz] by (auto simp: unat_gt_0)
  then have "unat (va + (sz - 1)) = unat va + unat sz - 1" using assms(2,3) by (subst unat_u32_add) simp_all
  then have "unat ?l = unat va + unat sz - 1" by (simp add: algebra_simps)
  then have l: "vpn ?l = (unat va + unat sz - 1) div PGSIZE" by (simp add: vpn_def)
  have "unat va \<le> unat va + unat sz - 1" using assms(2) by simp
  then have le: "vpn va \<le> vpn ?l" unfolding l unfolding vpn_def by (rule div_le_mono)
  then have "PGROUNDDOWN va \<le> PGROUNDDOWN ?l" by (simp add: word_le_nat_alt unat_rounddown)
  then have "unat (PGROUNDDOWN ?l - PGROUNDDOWN va) = (vpn ?l - vpn va) * PGSIZE"
    by (simp add: unat_sub unat_rounddown diff_mult_distrib)
  then have n: "unat (PGROUNDDOWN ?l - PGROUNDDOWN va) div PGSIZE = vpn ?l - vpn va" by simp
  have "vpn va + (vpn ?l - vpn va) < 1048576" using le index_vpn(3) [of ?l] by simp
  then have "mapped (vpn ?l - vpn va) d (vpn va) pa perm s fs (map_loop (vpn ?l - vpn va) d (PGROUNDDOWN va) pa perm s)"
    using le assms(1,4) l by (intro map_loop_ok) (simp_all add: unat_rounddown)
  then show ?thesis unfolding mappages_def Let_def n l .
qed

text \<open>
  \<^verbatim>\<open>mappages\<close> on a range of addresses none of which is mapped, in a page table whose tables are apart: it returns
  0 and the pages of the range map to consecutive physical pages with the permissions given, or it returns -1
  because the free list ran out, with a first part of the range mapped; every other page keeps its entry, and
  the tables stay apart.
\<close>

theorem mappages_maps:
  assumes "tables_ok s d fs" and "0 < unat sz" and "unat va + unat sz \<le> 2 ^ 32"
    and "\<forall>i \<in> {vpn va..(unat va + unat sz - 1) div PGSIZE}. \<not> present (pte s d i)"
  shows "\<exists>r s' fs' m. mappages d va sz pa perm s = Inr (r, s') \<and> tables_ok s' d fs' \<and>
     (r = 0 \<and> vpn va + m = Suc ((unat va + unat sz - 1) div PGSIZE) \<or>
      r = -1 \<and> vpn va + m \<le> (unat va + unat sz - 1) div PGSIZE \<and> fs' = []) \<and>
     (\<forall>i < 1048576. pte s' d i = (if vpn va \<le> i \<and> i < vpn va + m
        then (pa + of_nat ((i - vpn va) * PGSIZE)) OR perm OR PTE_P OR PTE_D else pte s d i))"
proof -
  have "vpn va \<le> (unat va + unat sz - 1) div PGSIZE" unfolding vpn_def using assms(2) by (intro div_le_mono) simp
  moreover obtain r s' fs' m where "mappages d va sz pa perm s = Inr (r, s')" "tables_ok s' d fs'"
    "r = 0 \<and> m = Suc ((unat va + unat sz - 1) div PGSIZE - vpn va) \<or>
     r = -1 \<and> m \<le> (unat va + unat sz - 1) div PGSIZE - vpn va \<and> fs' = []"
    "\<forall>i < 1048576. pte s' d i = (if vpn va \<le> i \<and> i < vpn va + m then map_entry pa perm (i - vpn va) else pte s d i)"
    using mappages_ok [OF assms, of pa perm] unfolding mapped_def grown_def by blast
  ultimately show ?thesis
    by (intro exI [of _ r] exI [of _ s'] exI [of _ fs'] exI [of _ m]) (auto simp: map_entry_def)
qed

definition demo_vm :: vm where
  "demo_vm = \<lparr>vkm = \<lparr>freelist = 0x80401000, run_next = (\<lambda>_. 0)(0x80401000 := 0x80402000, 0x80402000 := 0x80403000),
     use_lock = True, bytes = \<lambda>_. 7\<rparr>, ent = \<lambda>_ _. 0, vkend = 0x80300000, kdata = 0x80200000\<rparr>"

lemma demo_space: "space_ok demo_vm 0x80400000 [0x80401000, 0x80402000, 0x80403000]"
proof -
  have "dirs demo_vm d = {}" "pte demo_vm d = (\<lambda>_. 0)" for d by (auto simp: dirs_def demo_vm_def pte_def)
  then show ?thesis
    by (simp add: space_ok_def tables_ok_def tabs_def owns_def kmem_pages_def free_page_def V2P_def chain_nonnull demo_vm_def)
qed

theorem mappages_maps_witness:
  "\<exists>r s' fs' m. mappages 0x80400000 0x80000000 0x2000 0 PTE_W demo_vm = Inr (r, s') \<and> tables_ok s' 0x80400000 fs' \<and>
     (r = 0 \<and> 524288 + m = Suc 524289 \<or> r = -1 \<and> 524288 + m \<le> 524289 \<and> fs' = [])"
proof -
  have v: "vpn 0x80000000 = 524288" by (simp add: vpn_def)
  have np: "\<not> present (pte demo_vm 0x80400000 i)" for i by (simp add: pte_def demo_vm_def)
  have "tables_ok demo_vm 0x80400000 [0x80401000, 0x80402000, 0x80403000]" using demo_space by (simp add: space_ok_def)
  from mappages_maps [OF this, of "0x2000" "0x80000000" 0 PTE_W] v np show ?thesis by auto
qed

lemma allocuvm_ok:
  assumes "space_ok s d fs" and "oldsz \<le> newsz" and "newsz < KERNBASE"
    and "\<forall>i. in_range ((unat oldsz + 4095) div PGSIZE) newsz i \<longrightarrow> \<not> present (pte s d i)"
  shows "\<exists>r s' fs'. allocuvm d oldsz newsz s = Inr (r, s') \<and>
     (r = newsz \<and> added d (in_range ((unat oldsz + 4095) div PGSIZE) newsz) s fs s' fs' \<or>
      r = 0 \<and> dropped d (in_range ((unat oldsz + 4095) div PGSIZE) newsz) s fs s' fs')"
proof -
  have new: "unat newsz \<le> 2147483648" and old: "unat oldsz \<le> unat newsz"
    using assms(2,3) by (simp_all add: word_le_nat_alt word_less_nat_alt)
  then have "unat oldsz \<le> 2147483648" by simp
  note a = unat_roundup [OF this]
  show ?thesis
    using alloc_loop_ok [OF assms(1) new old a order.refl assms(4)] assms(2,3) by (auto simp: allocuvm_def not_less)
qed



text \<open>
  \<^verbatim>\<open>deallocuvm\<close> brings a well-formed address space below \<^verbatim>\<open>KERNBASE\<close> down to a smaller size without a fault: exactly
  the pages between the sizes are no longer mapped, each of them is back on the free list, and every other page
  keeps its entry; a size that is not smaller changes nothing.
\<close>

theorem deallocuvm_shrinks:
  assumes "space_ok s d fs" and "oldsz \<le> KERNBASE" and "newsz \<le> KERNBASE"
  shows "\<exists>s' fs'. deallocuvm d oldsz newsz s = Inr (min oldsz newsz, s') \<and>
     unmapped d (in_range ((unat newsz + 4095) div PGSIZE) oldsz) s fs s' fs'"
  using deallocuvm_ok [OF assms(1), of oldsz newsz] assms(2,3) by (simp add: word_le_nat_alt)

theorem deallocuvm_shrinks_witness:
  "\<exists>s' fs'. deallocuvm 0x80400000 0x5000 0x1000 demo_vm = Inr (0x1000, s') \<and>
     unmapped 0x80400000 (in_range 1 0x5000) demo_vm [0x80401000, 0x80402000, 0x80403000] s' fs'"
  using deallocuvm_shrinks [OF demo_space, of "0x5000" "0x1000"] by (simp add: min_def)

end
