(* ===== verification/Vm_Space.thy ===== *)
theory Vm_Space
  imports Vm_Props
begin

text \<open>
  Whole address spaces: \<^verbatim>\<open>setupkvm\<close>, \<^verbatim>\<open>freevm\<close> and \<^verbatim>\<open>copyuvm\<close>.  \<open>pages\<close> are all pages an address space uses: the
  directory, the tables and the user pages.  Every operation moves pages between the address space and the free
  list, and touches no others.
\<close>

definition pages :: "vm \<Rightarrow> u32 \<Rightarrow> u32 set" where
  "pages s d = insert d (tabs s d \<union> frames s d (\<lambda>i. i < UPAGES))"

lemma user_range: "in_range 0 KERNBASE = (\<lambda>i. i < UPAGES)"
  by (auto simp: in_range_def fun_eq_iff)

section \<open>Freeing\<close>

lemma kfree_page:
  assumes "kmem_pages (vkend s) (vkm s) fs" and "free_page (vkend s) p" and "p \<noteq> 0" and "p \<notin> set fs"
  shows "\<exists>s'. page_free p s = Inr s' \<and> kmem_pages (vkend s) (vkm s') (p # fs) \<and> vkeeps {p} s s'"
proof -
  obtain k where k: "kfree (vkend s) p (vkm s) = Inr k" "kmem_pages (vkend s) k (p # fs)" using kfree_ok [OF assms] by blast
  then have "\<exists>s'. page_free p s = Inr s' \<and> kmem_pages (vkend s) (vkm s') (p # fs)" by (simp add: page_free_def)
  then show ?thesis using vkeeps_page_free by blast
qed

lemma free_tables_ok:
  assumes ok: "tables_ok s d fs"
  shows "\<exists>s' fs'. foldE (free_table d) [0..<NPDENTRIES] s = Inr s' \<and> kmem_pages (vkend s) (vkm s') fs' \<and>
     set fs' = set fs \<union> tabs s d \<and> vkeeps (tabs s d) s s'"
proof -
  let ?P = "\<lambda>i t. (\<exists>gs. kmem_pages (vkend s) (vkm t) gs \<and> set gs = set fs \<union> tab s d ` {j. j < i \<and> present (ent s d j)}) \<and> vkeeps (tabs s d) s t"
  have "\<exists>t'. free_table d i t = Inr t' \<and> ?P (Suc i) t'" if i: "i < 1024" and P: "?P i t" for i t
  proof -
    obtain gs where gs: "kmem_pages (vkend s) (vkm t) gs" "set gs = set fs \<union> tab s d ` {j. j < i \<and> present (ent s d j)}" using P by blast
    have k: "vkeeps (tabs s d) s t" using P by blast
    then have e: "ent t d = ent s d" "vkend t = vkend s" using ok by (auto simp: vkeeps_def tables_ok_def)
    show ?thesis
    proof (cases "present (ent s d i)")
      case False
      then have "{j. j < Suc i \<and> present (ent s d j)} = {j. j < i \<and> present (ent s d j)}" by (auto simp: less_Suc_eq)
      then show ?thesis using False P e(1) by (auto simp: free_table_def)
    next
      case True
      have tt: "tab s d i \<in> tabs s d" using tab_in_tabs i True .
      have "tab s d i \<notin> tab s d ` {j. j < i \<and> present (ent s d j)}"
        using ok i True unfolding tables_ok_def dirs_def by (auto dest!: inj_onD)
      then have "tab s d i \<notin> set gs" "free_page (vkend t) (tab s d i)" "tab s d i \<noteq> 0"
        using ok tt gs(2) e(2) unfolding tables_ok_def by auto
      then obtain t' where t': "page_free (tab s d i) t = Inr t'" "kmem_pages (vkend s) (vkm t') (tab s d i # gs)" "vkeeps {tab s d i} t t'"
        using kfree_page [of t gs "tab s d i"] gs(1) e(2) by auto
      have "{j. j < Suc i \<and> present (ent s d j)} = insert i {j. j < i \<and> present (ent s d j)}" using True by auto
      then have "set (tab s d i # gs) = set fs \<union> tab s d ` {j. j < Suc i \<and> present (ent s d j)}" using gs(2) by auto
      moreover have "vkeeps (tabs s d) s t'" by (rule vkeeps_trans [OF k vkeeps_mono [OF t'(3)]]) (use tt in simp)
      ultimately show ?thesis using t'(1,2) True e(1) by (auto simp: free_table_def tab_def)
    qed
  qed
  moreover have "?P 0 s" using ok by (auto simp: tables_ok_def)
  ultimately obtain s' where "foldE (free_table d) [0..<1024] s = Inr s'" "?P 1024 s'"
    using foldE_upt [of ?P s 1024 "free_table d"] by blast
  then show ?thesis by (auto simp: tabs_def dirs_def)
qed

lemma freevm_ok:
  assumes ok: "space_ok s d fs"
  shows "\<exists>s' fs'. freevm d s = Inr s' \<and> kmem_pages (vkend s) (vkm s') fs' \<and> set fs' = set fs \<union> pages s d \<and> vkeeps (pages s d) s s'"
proof -
  have d: "d \<noteq> 0" "free_page (vkend s) d" "d \<notin> set fs" "d \<notin> tabs s d" "d \<notin> frames s d (\<lambda>i. i < UPAGES)"
    using ok by (auto simp: space_ok_def tables_ok_def owns_def frames_def)
  obtain s1 fs1 where s1: "deallocuvm d KERNBASE 0 s = Inr (0, s1)" "unmapped d (\<lambda>i. i < UPAGES) s fs s1 fs1"
    using deallocuvm_ok [OF ok, of KERNBASE 0] by (auto simp: user_range min_def)
  then have u: "tables_ok s1 d fs1" "tabs s1 d = tabs s d" "vkend s1 = vkend s" "set fs1 = set fs \<union> frames s d (\<lambda>i. i < UPAGES)"
    "vkeeps (tabs s d \<union> frames s d (\<lambda>i. i < UPAGES)) s s1" by (simp_all add: unmapped_def space_ok_def)
  obtain s2 fs2 where s2: "foldE (free_table d) [0..<NPDENTRIES] s1 = Inr s2" "kmem_pages (vkend s1) (vkm s2) fs2"
    "set fs2 = set fs1 \<union> tabs s1 d" "vkeeps (tabs s1 d) s1 s2" using free_tables_ok [OF u(1)] by blast
  have e2: "vkend s2 = vkend s" using s2(4) u(3) by (simp add: vkeeps_def)
  then obtain s3 where s3: "page_free d s2 = Inr s3" "kmem_pages (vkend s) (vkm s3) (d # fs2)" "vkeeps {d} s2 s3"
    using kfree_page [of s2 fs2 d] s2(2,3) u(2-4) d by auto
  have "vkeeps (pages s d) s s1" by (rule vkeeps_mono [OF u(5)]) (auto simp: pages_def)
  also have "vkeeps (pages s d) s1 s2" by (rule vkeeps_mono [OF s2(4)]) (auto simp: pages_def u(2))
  also have "vkeeps (pages s d) s2 s3" by (rule vkeeps_mono [OF s3(3)]) (auto simp: pages_def)
  finally have "vkeeps (pages s d) s s3" .
  moreover have "set (d # fs2) = set fs \<union> pages s d" using s2(3) u(2,4) by (auto simp: pages_def)
  moreover have "freevm d s = Inr s3" using d(1) s1(1) s2(1) s3(1) by (simp add: freevm_def)
  ultimately show ?thesis using s3(2) by blast
qed

section \<open>The kernel part\<close>

definition last_page :: "u32 \<Rightarrow> u32 \<Rightarrow> nat" where
  "last_page v sz = (unat v + unat sz - 1) div PGSIZE"

text \<open>Ranges of a map in order, from page \<open>lo\<close> on, without wrap-around; and what such a map says about the entries.\<close>

fun ranges_ok :: "nat \<Rightarrow> (u32 \<times> u32 \<times> u32 \<times> u32) list \<Rightarrow> bool" where
  "ranges_ok lo [] \<longleftrightarrow> True"
| "ranges_ok lo ((v, ps, pe, perm) # ks) \<longleftrightarrow>
     lo \<le> vpn v \<and> 0 < unat (pe - ps) \<and> unat v + unat (pe - ps) \<le> 2 ^ 32 \<and> ranges_ok (Suc (last_page v (pe - ps))) ks"

definition kmapped :: "vm \<Rightarrow> u32 \<Rightarrow> (u32 \<times> u32 \<times> u32 \<times> u32) list \<Rightarrow> bool" where
  "kmapped s d ks \<longleftrightarrow> (\<forall>(v, ps, pe, perm) \<in> set ks. \<forall>i \<in> {vpn v..last_page v (pe - ps)}. pte s d i = map_entry ps perm (i - vpn v))"

lemma last_page_bounds: "0 < unat sz \<Longrightarrow> unat v + unat sz \<le> 2 ^ 32 \<Longrightarrow> vpn v \<le> last_page v sz \<and> last_page v sz < 1048576"
  unfolding last_page_def vpn_def by (auto intro!: div_le_mono less_mult_imp_div_less)

lemma pages_no_user: "\<forall>i < UPAGES. \<not> present (pte s d i) \<Longrightarrow> pages s d = insert d (tabs s d)"
  by (auto simp: pages_def frames_def)

lemma space_no_user: "tables_ok s d fs \<Longrightarrow> KERNBASE < vkend s \<Longrightarrow> \<forall>i < UPAGES. \<not> present (pte s d i) \<Longrightarrow> space_ok s d fs"
  by (simp add: space_ok_def owns_def)

definition given_up :: "vm \<Rightarrow> u32 set \<Rightarrow> vm \<Rightarrow> u32 list \<Rightarrow> bool" where
  "given_up s A s' fs' \<longleftrightarrow> kmem_pages (vkend s) (vkm s') fs' \<and> set fs' = A \<and> vkeeps A s s'"

lemma kmap_loop_ok:
  assumes "tables_ok s d fs" and "KERNBASE < vkend s" and "\<forall>i < 1048576. i < UPAGES \<or> lo \<le> i \<longrightarrow> \<not> present (pte s d i)"
    and "UPAGES \<le> lo" and "ranges_ok lo ks"
  shows "\<exists>r s' fs'. kmap_loop d ks s = Inr (r, s') \<and>
     (r = d \<and> grown d s fs s' fs' \<and> (\<forall>i < lo. i < 1048576 \<longrightarrow> pte s' d i = pte s d i) \<and> kmapped s' d ks \<or>
      r = 0 \<and> given_up s (set fs \<union> insert d (tabs s d)) s' fs')"
  using assms
proof (induction ks arbitrary: s fs lo)
  case Nil
  have "grown d s fs s fs" using Nil by (intro grown_refl) simp
  then show ?case by (auto simp: kmapped_def)
next
  case (Cons q ks)
  obtain v ps pe perm where q: "q = (v, ps, pe, perm)" by (cases q)
  let ?sz = "pe - ps" and ?l = "last_page v (pe - ps)"
  have r: "lo \<le> vpn v" "0 < unat ?sz" "unat v + unat ?sz \<le> 2 ^ 32" "ranges_ok (Suc ?l) ks" using Cons.prems(5) by (simp_all add: q)
  note lb = last_page_bounds [OF r(2,3)]
  have np: "\<forall>i \<in> {vpn v..?l}. \<not> present (pte s d i)" using Cons.prems(3) r(1) lb by auto
  obtain x s1 fs1 m where m: "mappages d v ?sz ps perm s = Inr (x, s1)" "grown d s fs s1 fs1"
    "x = 0 \<and> m = Suc (?l - vpn v) \<or> x = -1 \<and> m \<le> ?l - vpn v \<and> fs1 = []"
    "\<forall>i < 1048576. pte s1 d i = (if vpn v \<le> i \<and> i < vpn v + m then map_entry ps perm (i - vpn v) else pte s d i)"
    using mappages_ok [OF Cons.prems(1) r(2,3), folded last_page_def, OF np] unfolding mapped_def by blast
  have t1: "tables_ok s1 d fs1" "vkend s1 = vkend s" using m(2) by (simp_all add: grown_def)
  obtain gs where gs: "fs = gs @ fs1" "tabs s1 d = tabs s d \<union> set gs" using m(2) by (auto simp: grown_def)
  have keep1: "vkeeps (set fs \<union> insert d (tabs s d)) s s1" using vkeeps_mono [OF vkeeps_grown [OF m(2)]] gs by auto
  have low: "pte s1 d i = pte s d i" if "i < lo" "i < 1048576" for i using m(4) r(1) that by simp
  have nu: "\<forall>i < UPAGES. \<not> present (pte s1 d i)" using low Cons.prems(3,4) by simp
  have pool: "set fs1 \<union> insert d (tabs s1 d) = set fs \<union> insert d (tabs s d)" using gs by auto
  show ?case
  proof (cases "x = 0")
    case False
    have "space_ok s1 d fs1" using space_no_user [OF t1(1) _ nu] Cons.prems(2) t1(2) by simp
    then obtain s2 fs2 where s2: "freevm d s1 = Inr s2" "kmem_pages (vkend s) (vkm s2) fs2" "set fs2 = set fs1 \<union> insert d (tabs s1 d)"
      "vkeeps (insert d (tabs s1 d)) s1 s2" using freevm_ok [of s1 d fs1] pages_no_user [OF nu] t1(2) by auto
    have "vkeeps (set fs \<union> insert d (tabs s d)) s s2" by (rule vkeeps_trans [OF keep1 vkeeps_mono [OF s2(4)]]) (use gs in auto)
    then have "given_up s (set fs \<union> insert d (tabs s d)) s2 fs2" using s2(2,3) pool by (simp add: given_up_def)
    moreover have "kmap_loop d (q # ks) s = Inr (0, s2)" using m(1,3) False s2(1) by (auto simp: q)
    ultimately show ?thesis by blast
  next
    case True
    then have mm: "vpn v + m = Suc ?l" using m(3) lb by auto
    have "\<forall>i < 1048576. i < UPAGES \<or> Suc ?l \<le> i \<longrightarrow> \<not> present (pte s1 d i)"
      using m(4) mm nu Cons.prems(3) r(1) lb by auto
    moreover have "KERNBASE < vkend s1" "UPAGES \<le> Suc ?l" using Cons.prems(2,4) t1(2) r(1) lb by auto
    ultimately obtain y s2 fs2 where IH: "kmap_loop d ks s1 = Inr (y, s2)"
      "y = d \<and> grown d s1 fs1 s2 fs2 \<and> (\<forall>i < Suc ?l. i < 1048576 \<longrightarrow> pte s2 d i = pte s1 d i) \<and> kmapped s2 d ks \<or>
       y = 0 \<and> given_up s1 (set fs1 \<union> insert d (tabs s1 d)) s2 fs2"
      using Cons.IH [OF t1(1), of "Suc ?l"] r(4) by blast
    have "kmap_loop d (q # ks) s = Inr (y, s2)" using m(1) True IH(1) by (simp add: q)
    moreover have "given_up s (set fs \<union> insert d (tabs s d)) s2 fs2" if "given_up s1 (set fs1 \<union> insert d (tabs s1 d)) s2 fs2"
      using that keep1 pool t1(2) vkeeps_trans [of "set fs \<union> insert d (tabs s d)" s s1 s2] by (simp add: given_up_def)
    moreover have "grown d s fs s2 fs2 \<and> (\<forall>i < lo. i < 1048576 \<longrightarrow> pte s2 d i = pte s d i) \<and> kmapped s2 d (q # ks)"
      if "grown d s1 fs1 s2 fs2" "\<forall>i < Suc ?l. i < 1048576 \<longrightarrow> pte s2 d i = pte s1 d i" "kmapped s2 d ks"
      using grown_trans [OF m(2) that(1)] that(2,3) low m(4) mm r(1) lb by (auto simp: kmapped_def q)
    ultimately show ?thesis using IH(2) by blast
  qed
qed

lemma kmapped_cong:
  assumes "\<forall>i < 1048576. lo \<le> i \<longrightarrow> pte s' d i = pte s d i" and "kmapped s d ks" and "ranges_ok lo ks"
  shows "kmapped s' d ks"
  using assms
proof (induction ks arbitrary: lo)
  case (Cons q ks)
  obtain v ps pe perm where q: "q = (v, ps, pe, perm)" by (cases q)
  have r: "lo \<le> vpn v" "ranges_ok (Suc (last_page v (pe - ps))) ks" "vpn v \<le> last_page v (pe - ps) \<and> last_page v (pe - ps) < 1048576"
    using Cons.prems(3) last_page_bounds by (auto simp: q)
  have "kmapped s' d ks" using Cons.IH [OF _ _ r(2)] Cons.prems(1,2) r by (auto simp: kmapped_def)
  then show ?case using Cons.prems(1,2) r by (auto simp: kmapped_def q)
qed (simp add: kmapped_def)

text \<open>The linker places \<^verbatim>\<open>data\<close> on a page boundary above the start of the kernel and below the end of memory.\<close>

definition layout_ok :: "u32 \<Rightarrow> bool" where
  "layout_ok data \<longleftrightarrow> data mod PGSIZE = 0 \<and> KERNLINK < data \<and> data < P2V PHYSTOP"

lemma kmap_ranges:
  assumes "layout_ok data"
  shows "ranges_ok UPAGES (kmap data)"
proof -
  obtain b where b: "unat data = b * PGSIZE" using assms unat_mod [of data 4096] by (auto simp: layout_ok_def)
  have lt: "0x80100000 < unat data" "unat data < 0x8E000000"
    using assms by (simp_all add: layout_ok_def word_less_nat_alt P2V_def)
  have le: "KERNLINK \<le> data" "V2P data \<le> PHYSTOP" using lt by (simp_all add: word_le_nat_alt V2P_def unat_sub)
  have v: "unat (V2P data) = unat data - 0x80000000" using lt by (simp add: V2P_def unat_sub word_le_nat_alt)
  have s2: "unat (V2P data - V2P KERNLINK) = unat data - 0x80100000"
    using lt le(1) by (simp add: V2P_def unat_sub)
  have s3: "unat (PHYSTOP - V2P data) = 0x8E000000 - unat data" using le(2) lt by (simp add: unat_sub v)
  have l: "last_page KERNBASE (EXTMEM - 0) = 524543" "last_page KERNLINK (V2P data - V2P KERNLINK) = b - 1"
    "last_page data (PHYSTOP - V2P data) = 581631"
    using lt b by (simp_all add: last_page_def s2 s3)
  have "0 < b" "524544 \<le> b" using b lt by simp_all
  then show ?thesis
    unfolding kmap_def ranges_ok.simps l using b lt by (simp add: s2 s3 vpn_def)
qed

lemma setupkvm_ok:
  assumes km: "kmem_pages (vkend s) (vkm s) fs" and "KERNBASE < vkend s" and lay: "layout_ok (kdata s)"
  shows "\<exists>r s' fs'. setupkvm s = Inr (r, s') \<and>
     (r \<noteq> 0 \<and> space_ok s' r fs' \<and> set fs' \<union> pages s' r = set fs \<and> vkeeps (set fs) s s' \<and>
        (\<forall>i < UPAGES. \<not> present (pte s' r i)) \<and> kmapped s' r (kmap (kdata s)) \<or>
      r = 0 \<and> given_up s (set fs) s' fs')"
proof (cases fs)
  case Nil
  then show ?thesis using page_alloc_ok(1) [OF km Nil] km by (auto simp: setupkvm_def given_up_def)
next
  case (Cons d gs)
  obtain k where k: "page_alloc s = (d, s\<lparr>vkm := k\<rparr>)" "d \<noteq> 0" "d \<notin> set gs" "free_page (vkend s) d" "kmem_pages (vkend s) k gs"
    "bytes k = bytes (vkm s)" using page_alloc_ok(2) [OF km Cons] by blast
  let ?z = "page_zero d (s\<lparr>vkm := k\<rparr>)"
  have z: "dirs ?z d = {}" "tabs ?z d = {}" "\<And>i. pte ?z d i = 0" by (simp_all add: dirs_def tabs_def pte_def)
  have tz: "tables_ok ?z d gs" using z k by (simp add: tables_ok_def)
  have kz: "vkeeps (set fs) s ?z" using k(6) Cons by (auto simp: vkeeps_def fill_def)
  obtain r s' fs' where r: "kmap_loop d (kmap (kdata s)) ?z = Inr (r, s')"
    "r = d \<and> grown d ?z gs s' fs' \<and> (\<forall>i < UPAGES. i < 1048576 \<longrightarrow> pte s' d i = pte ?z d i) \<and> kmapped s' d (kmap (kdata s)) \<or>
     r = 0 \<and> given_up ?z (set gs \<union> insert d (tabs ?z d)) s' fs'"
    using kmap_loop_ok [OF tz, of UPAGES "kmap (kdata s)"] assms(2) z(3) kmap_ranges [OF lay] by auto
  have "setupkvm s = Inr (r, s')" using k(1,2) r(1) by (simp add: setupkvm_def P2V_def Let_def)
  moreover have "given_up s (set fs) s' fs'" if "given_up ?z (set gs \<union> insert d (tabs ?z d)) s' fs'"
    using that vkeeps_trans [OF kz] Cons z(2) by (simp add: given_up_def)
  moreover have "space_ok s' d fs' \<and> set fs' \<union> pages s' d = set fs \<and> vkeeps (set fs) s s' \<and> (\<forall>i < UPAGES. \<not> present (pte s' d i))"
    if g: "grown d ?z gs s' fs'" "\<forall>i < UPAGES. i < 1048576 \<longrightarrow> pte s' d i = pte ?z d i"
  proof -
    have np: "\<forall>i < UPAGES. \<not> present (pte s' d i)" using g(2) z(3) by simp
    obtain hs where hs: "gs = hs @ fs'" "tabs s' d = set hs" "tables_ok s' d fs'" "vkend s' = vkend s"
      using g(1) z(2) by (auto simp: grown_def)
    have "vkeeps (set fs) ?z s'" using vkeeps_mono [OF vkeeps_grown [OF g(1)]] hs(1,2) Cons by auto
    then have "vkeeps (set fs) s s'" by (rule vkeeps_trans [OF kz])
    moreover have "set fs' \<union> pages s' d = set fs" using pages_no_user [OF np] hs(1,2) Cons by auto
    ultimately show ?thesis using np space_no_user [OF hs(3) _ np] assms(2) hs(4) by simp
  qed
  ultimately show ?thesis using r(2) k(2) by blast
qed

section \<open>Copying\<close>

text \<open>An address space none of whose pages are touched.\<close>

lemma other_space:
  assumes ok: "space_ok s d fs" and k: "vkeeps (set fs) s s'"
  shows "ent s' d = ent s d" and "tab s' d = tab s d" and "tabs s' d = tabs s d" and "n < 1048576 \<Longrightarrow> pte s' d n = pte s d n"
    and "kmem_pages (vkend s) (vkm s') gs \<Longrightarrow> set gs \<subseteq> set fs \<Longrightarrow> space_ok s' d gs"
proof -
  have t: "tables_ok s d fs" using ok by (simp add: space_ok_def)
  show e: "ent s' d = ent s d" using t k by (auto simp: tables_ok_def vkeeps_def)
  then show tb: "tab s' d = tab s d" by (simp add: tab_def fun_eq_iff)
  have ds: "dirs s' d = dirs s d" by (simp add: dirs_def e)
  show ts: "tabs s' d = tabs s d" by (simp add: tabs_def tb ds)
  show p: "pte s' d n = pte s d n" if "n < 1048576" for n
  proof (cases "present (ent s d (n div 1024))")
    case True
    have "tab s d (n div 1024) \<in> tabs s d" using that True by (intro tab_in_tabs) (simp_all add: less_mult_imp_div_less)
    then have "tab s d (n div 1024) \<notin> set fs" using t by (auto simp: tables_ok_def)
    then show ?thesis using True k by (simp add: pte_def e tb vkeeps_def)
  qed (simp add: pte_def e)
  show "space_ok s' d gs" if g: "kmem_pages (vkend s) (vkm s') gs" "set gs \<subseteq> set fs"
  proof -
    have v: "vkend s' = vkend s" using k by (simp add: vkeeps_def)
    have "tables_ok s' d gs" using t g unfolding tables_ok_def ts tb ds v by auto
    moreover have "owns (vkend s) d (tabs s d) (set gs) (pte s d)" using ok g(2) by (auto simp: space_ok_def owns_def)
    then have "owns (vkend s) d (tabs s d) (set gs) (pte s' d)" using owns_cong [of "pte s' d" "pte s d"] p by simp
    ultimately show ?thesis using ok by (simp add: space_ok_def ts v)
  qed
qed

text \<open>The bytes of a page.\<close>

definition content :: "vm \<Rightarrow> u32 \<Rightarrow> nat \<Rightarrow> u8" where
  "content s p j = bytes (vkm s) (p + of_nat j)"

lemma in_page_offset: "j < PGSIZE \<Longrightarrow> unat (p + of_nat j - p :: u32) < PGSIZE"
  by (simp add: unat_u32_of_nat)

lemma content_kept:
  assumes "vkeeps X s s'" and "free_page e p" and "\<forall>q \<in> X. free_page e q" and "p \<notin> X" and "j < PGSIZE"
  shows "content s' p j = content s p j"
proof -
  have "\<not> unat (p + of_nat j - q) < PGSIZE" if "q \<in> X" for q
    using page_disjoint [OF assms(2) _ in_page_offset [OF assms(5)], of e q] assms(3,4) that by blast
  then show ?thesis using assms(1) by (simp add: vkeeps_def content_def)
qed

lemma page_bound: "KERNBASE \<le> e \<Longrightarrow> free_page e p \<Longrightarrow> unat p + PGSIZE < 2 ^ 32"
proof -
  assume "KERNBASE \<le> e" "free_page e p"
  then have p: "KERNBASE \<le> p" "V2P p < PHYSTOP" by (auto simp: free_page_def)
  then have "unat (V2P p) = unat p - 2147483648" by (simp add: V2P_def unat_sub)
  then show ?thesis using p(2) by (simp add: word_less_nat_alt)
qed

lemma memmove_page:
  assumes e: "KERNBASE \<le> e" and p: "free_page e p" and q: "free_page e q"
  shows "j < PGSIZE \<Longrightarrow> memmove b p q PGSIZE (p + of_nat j) = b (q + of_nat j)"
    and "\<not> unat (x - p) < PGSIZE \<Longrightarrow> memmove b p q PGSIZE x = b x"
proof -
  have m: "memmove b p q PGSIZE a = (if unat p \<le> unat a \<and> unat a < unat p + PGSIZE then b (q + (a - p)) else b a)" for a
    using memmove_spec [of q PGSIZE p b a] page_bound [OF e p] page_bound [OF e q] by simp
  show "memmove b p q PGSIZE (p + of_nat j) = b (q + of_nat j)" if "j < PGSIZE"
  proof -
    have "unat (p + of_nat j) = unat p + j"
      using that page_bound [OF e p] by (subst unat_u32_add) (simp_all add: unat_u32_of_nat)
    then show ?thesis using that by (simp add: m)
  qed
  show "memmove b p q PGSIZE x = b x" if x: "\<not> unat (x - p) < PGSIZE"
  proof -
    have "\<not> (unat p \<le> unat x \<and> unat x < unat p + PGSIZE)"
    proof
      assume "unat p \<le> unat x \<and> unat x < unat p + PGSIZE"
      moreover from this have "unat (x - p) = unat x - unat p" by (intro unat_sub) (simp add: word_le_nat_alt)
      ultimately show False using x by linarith
    qed
    then show ?thesis by (simp only: m if_False)
  qed
qed

definition copied :: "vm \<Rightarrow> u32 \<Rightarrow> vm \<Rightarrow> u32 \<Rightarrow> nat \<Rightarrow> bool" where
  "copied s pd s' d i \<longleftrightarrow> present (pte s' d i) \<and> PTE_FLAGS (pte s' d i) = PTE_FLAGS (pte s pd i) OR PTE_P OR PTE_D \<and>
     (\<forall>j < PGSIZE. content s' (frame (pte s' d i)) j = content s (frame (pte s pd i)) j)"

text \<open>The loop of \<^verbatim>\<open>copyuvm\<close> after \<open>k\<close> pages; \<open>A\<close> are the pages that were free at the start, \<open>F\<close> the kernel part.\<close>

definition copy_inv :: "vm \<Rightarrow> u32 \<Rightarrow> u32 set \<Rightarrow> (nat \<Rightarrow> u32) \<Rightarrow> u32 \<Rightarrow> nat \<Rightarrow> vm \<Rightarrow> u32 list \<Rightarrow> bool" where
  "copy_inv s0 pd A F d k s fs \<longleftrightarrow> space_ok s d fs \<and> set fs \<union> pages s d = A \<and> vkeeps A s0 s \<and>
     (\<forall>i < UPAGES. if i < k then copied s0 pd s d i else \<not> present (pte s d i)) \<and>
     (\<forall>i < 1048576. UPAGES \<le> i \<longrightarrow> pte s d i = F i)"

lemma frames_map:
  assumes "\<forall>i < 1048576. pte s' d i = (if i = k then x else pte s d i)" and "k < UPAGES" and "present x" and "\<not> present (pte s d k)"
  shows "frames s' d (\<lambda>i. i < UPAGES) = insert (frame x) (frames s d (\<lambda>i. i < UPAGES))"
proof -
  have f: "frames t d (\<lambda>i. i < UPAGES) = (\<lambda>i. frame (pte t d i)) ` {i. i < UPAGES \<and> present (pte t d i)}" for t
    by (auto simp: frames_def)
  have "{i. i < UPAGES \<and> present (pte s' d i)} = insert k {i. i < UPAGES \<and> present (pte s d i)}" using assms by auto
  moreover have "(\<lambda>i. frame (pte s' d i)) ` {i. i < UPAGES \<and> present (pte s d i)} = (\<lambda>i. frame (pte s d i)) ` {i. i < UPAGES \<and> present (pte s d i)}"
    using assms(1,4) by (intro image_cong) auto
  ultimately show ?thesis using assms(1,2) by (simp add: f)
qed

lemma copied_kept:
  assumes "copied s0 pd s d i" and "pte s' d i = pte s d i" and "vkeeps X s s'" and "free_page e (frame (pte s d i))"
    and "\<forall>q \<in> X. free_page e q" and "frame (pte s d i) \<notin> X"
  shows "copied s0 pd s' d i"
  using assms(1,2) content_kept [OF assms(3-6)] by (simp add: copied_def)

lemma copy_fail:
  assumes s': "space_ok s' d fs'" "set fs' \<union> pages s' d = A" "vkeeps A s0 s'"
  shows "\<exists>t gs. freevm d s' = Inr t \<and> given_up s0 A t gs"
proof -
  obtain t gs where t: "freevm d s' = Inr t" "kmem_pages (vkend s') (vkm t) gs" "set gs = A" "vkeeps (pages s' d) s' t"
    using freevm_ok [OF s'(1)] s'(2) by auto
  have "vkeeps A s0 t" by (rule vkeeps_trans [OF s'(3) vkeeps_mono [OF t(4)]]) (use s'(2) in auto)
  moreover have "vkend s' = vkend s0" using s'(3) by (simp add: vkeeps_def)
  ultimately show ?thesis using t by (auto simp: given_up_def)
qed

lemma flags_low: "PTE_FLAGS x AND NOT 0xFFF = 0"
  by (simp add: PTE_FLAGS_def and.assoc)

text \<open>Taking a page and copying another into it.\<close>

lemma fill_page:
  assumes ok: "space_ok s d (m # fs)" and a: "page_alloc s = (m, s1)" and q: "free_page (vkend s) q"
  defines "z \<equiv> upd_bytes (\<lambda>b. memmove b m q PGSIZE) s1"
  shows "vkend z = vkend s" and "\<forall>t. t \<noteq> m \<longrightarrow> ent z t = ent s1 t" and "kmem_pages (vkend s) (vkm s1) fs \<Longrightarrow> kmem_pages (vkend s) (vkm z) fs"
    and "vkeeps {m} s z" and "j < PGSIZE \<Longrightarrow> content z m j = content s q j"
proof -
  have s1: "s1 = s\<lparr>vkm := vkm s1\<rparr>" using a by (auto simp: page_alloc_def split: prod.splits)
  show z: "vkend z = vkend s" "\<forall>t. t \<noteq> m \<longrightarrow> ent z t = ent s1 t" "kmem_pages (vkend s) (vkm s1) fs \<Longrightarrow> kmem_pages (vkend s) (vkm z) fs"
    by (simp_all add: z_def upd_bytes_def s1 [THEN arg_cong, of vkend])
  have e: "KERNBASE \<le> vkend s" "free_page (vkend s) m" using ok by (auto simp: space_ok_def tables_ok_def kmem_pages_def)
  have b1: "bytes (vkm s1) = bytes (vkm s)" using take_page(10) [OF ok a, of s1] s1 by (metis vm.ext_inject vm.surjective vm.update_convs(1))
  have "ent z = ent s" "kdata z = kdata s" by (simp_all add: z_def upd_bytes_def s1 [THEN arg_cong, of ent] s1 [THEN arg_cong, of kdata])
  then show "vkeeps {m} s z" using z(1) memmove_page(2) [OF e q] by (simp add: vkeeps_def z_def upd_bytes_def b1)
  show "content z m j = content s q j" if "j < PGSIZE"
    using memmove_page(1) [OF e q that] by (simp add: content_def z_def upd_bytes_def b1)
qed

lemma copy_step:
  assumes inv: "copy_inv s0 pd A F d k s (m # fs)" and par: "space_ok s0 pd fs0" "set fs0 = A"
    and k: "k < UPAGES" "a = k * PGSIZE" "present (pte s0 pd k)" and al: "page_alloc s = (m, s1)"
  defines "z \<equiv> upd_bytes (\<lambda>b. memmove b m (frame (pte s0 pd k)) PGSIZE) s1"
  shows "m \<noteq> 0 \<and> (\<exists>r s2. mappages d (of_nat a) PGSIZE (V2P m) (PTE_FLAGS (pte s0 pd k)) z = Inr (r, s2) \<and>
     (r = 0 \<and> (\<exists>gs. copy_inv s0 pd A F d (Suc k) s2 gs) \<or>
      r = -1 \<and> (\<exists>s3 s4 gs. page_free m s2 = Inr s3 \<and> freevm d s3 = Inr s4 \<and> given_up s0 A s4 gs)))"
proof -
  let ?q = "frame (pte s0 pd k)" and ?fl = "PTE_FLAGS (pte s0 pd k)"
  have ok: "space_ok s d (m # fs)" and A: "set (m # fs) \<union> pages s d = A" and kp: "vkeeps A s0 s" using inv by (simp_all add: copy_inv_def)
  have v: "vkend s = vkend s0" using kp by (simp add: vkeeps_def)
  have fA: "free_page (vkend s) x" if "x \<in> A" for x using par that v by (auto simp: space_ok_def tables_ok_def kmem_pages_def)
  have q: "free_page (vkend s) ?q" "?q \<notin> A" using par k(1,3) v by (auto simp: space_ok_def owns_def)
  note f = fill_page [OF ok al q(1), folded z_def]
  note z = take_page [OF ok al f(3,1,2)]
  have mA: "m \<in> A" "d \<in> A" "tabs s d \<subseteq> A" "set fs \<subseteq> A" using A by (auto simp: pages_def)
  have old: "if i < k then copied s0 pd s d i else \<not> present (pte s d i)" if "i < UPAGES" for i using inv that by (simp add: copy_inv_def)
  have np: "\<not> present (pte z d k)" using old [OF k(1)] z(9) [of k] k(1) by simp
  obtain r s2 fs2 where r: "mappages d (of_nat a) PGSIZE (V2P m) ?fl z = Inr (r, s2)" "grown d z fs s2 fs2" "space_ok s2 d fs2"
    "r = 0 \<and> (\<forall>i < 1048576. pte s2 d i = (if i = k then map_entry (V2P m) ?fl 0 else pte z d i)) \<or>
     r = -1 \<and> fs2 = [] \<and> (\<forall>i < 1048576. pte s2 d i = pte z d i)"
    using map_fresh [OF z(1-7) k(1,2) np flags_low] by blast
  obtain gs where gs: "fs = gs @ fs2" "tabs s2 d = tabs s d \<union> set gs" using r(2) z(8) by (auto simp: grown_def)
  have T: "insert d (tabs s2 d) \<subseteq> A" using gs mA by auto
  note kg = vkeeps_grown [OF r(2)]
  have "vkeeps A s z" by (rule vkeeps_mono [OF f(4)]) (use mA in simp)
  then have "vkeeps A s0 z" by (rule vkeeps_trans [OF kp])
  then have k2: "vkeeps A s0 s2" by (rule vkeeps_trans) (rule vkeeps_mono [OF kg T])
  have m2: "m \<noteq> d" "m \<notin> tabs s2 d" using z(4,5,6,8) gs by auto
  have me: "frame (map_entry (V2P m) ?fl 0) = m" "PTE_FLAGS (map_entry (V2P m) ?fl 0) = ?fl OR 9" "present (map_entry (V2P m) ?fl 0)"
    using map_entry_frame [OF z(2) flags_low] by blast+
  have succ: "\<exists>gs. copy_inv s0 pd A F d (Suc k) s2 gs"
    if pt: "\<forall>i < 1048576. pte s2 d i = (if i = k then map_entry (V2P m) ?fl 0 else pte z d i)"
  proof -
    have pt': "\<forall>i < 1048576. pte s2 d i = (if i = k then map_entry (V2P m) ?fl 0 else pte s d i)" using pt z(9) by simp
    have fr: "frames s2 d (\<lambda>i. i < UPAGES) = insert m (frames s d (\<lambda>i. i < UPAGES))"
      using frames_map [OF pt' k(1) me(3)] me(1) old [OF k(1)] by simp
    have "set fs2 \<union> pages s2 d = A" using A gs fr by (auto simp: pages_def)
    moreover have "if i < Suc k then copied s0 pd s2 d i else \<not> present (pte s2 d i)" if i: "i < UPAGES" for i
    proof (cases "i = k")
      case True
      have "content s2 m j = content s0 ?q j" if j: "j < PGSIZE" for j
      proof -
        have "content s2 m j = content z m j" using content_kept [OF kg fA [OF mA(1)] _ _ j] T fA m2 by blast
        also have "\<dots> = content s ?q j" by (rule f(5) [OF j])
        also have "\<dots> = content s0 ?q j" using content_kept [OF kp q(1) _ q(2) j] fA by blast
        finally show ?thesis .
      qed
      moreover have "pte s2 d k = map_entry (V2P m) ?fl 0" using pt' k(1) by simp
      ultimately show ?thesis using True me by (simp add: copied_def)
    next
      case False
      have p: "pte z d i = pte s d i" "pte s2 d i = pte z d i" using False i pt z(9) by simp_all
      have "copied s0 pd s2 d i" if "i < k"
      proof -
        have c: "copied s0 pd s d i" using old [OF i] that by simp
        then have x: "frame (pte s d i) \<notin> set (m # fs)" "frame (pte s d i) \<noteq> d" "frame (pte s d i) \<notin> tabs s d" "free_page (vkend s) (frame (pte s d i))"
          using ok i by (auto simp: copied_def space_ok_def owns_def)
        have "copied s0 pd z d i" using copied_kept [OF c p(1) f(4) x(4)] fA mA(1) x(1) by simp
        then show ?thesis using copied_kept [OF _ p(2) kg, of s0 pd "vkend s"] x gs T fA p(1) by auto
      qed
      then show ?thesis using old [OF i] p False by auto
    qed
    moreover have "\<forall>i < 1048576. UPAGES \<le> i \<longrightarrow> pte s2 d i = F i" using pt' inv k(1) by (auto simp: copy_inv_def)
    ultimately show ?thesis using r(3) k2 by (auto simp: copy_inv_def)
  qed
  have fail: "\<exists>s3 s4 gs. page_free m s2 = Inr s3 \<and> freevm d s3 = Inr s4 \<and> given_up s0 A s4 gs"
    if pt: "\<forall>i < 1048576. pte s2 d i = pte z d i"
  proof -
    have u: "\<forall>i < UPAGES. present (pte s2 d i) \<longrightarrow> frame (pte s2 d i) \<noteq> m" using pt z(7) by simp
    have fm: "free_page (vkend s2) m" using fA [OF mA(1)] k2 v by (simp add: vkeeps_def)
    have mf: "m \<notin> set fs2" using z(6) gs(1) by simp
    obtain s3 where s3: "page_free m s2 = Inr s3" "space_ok s3 d (m # fs2)" "tabs s3 d = tabs s2 d" "\<forall>n < 1048576. pte s3 d n = pte s2 d n"
      using space_free [OF r(3) fm z(3) mf m2 u] by blast
    have "frames s3 d (\<lambda>i. i < UPAGES) = frames s d (\<lambda>i. i < UPAGES)" using s3(4) pt z(9) by (intro frames_cong) simp
    then have "set (m # fs2) \<union> pages s3 d = A" using A gs s3(3) by (auto simp: pages_def)
    moreover have "vkeeps A s0 s3" by (rule vkeeps_trans [OF k2 vkeeps_mono [OF vkeeps_page_free [OF s3(1)]]]) (use mA in simp)
    ultimately show ?thesis using copy_fail [OF s3(2)] s3(1) by blast
  qed
  show ?thesis using r(1,4) succ fail z(3) by blast
qed

lemma copy_loop_ok:
  assumes "copy_inv s0 pd A F d k s fs" and "space_ok s0 pd fs0" and "set fs0 = A" and "a = k * PGSIZE" and "unat sz \<le> 2147483648"
    and "\<forall>i. i * PGSIZE < unat sz \<longrightarrow> present (pte s0 pd i)" and "k * PGSIZE < unat sz + PGSIZE" and "d \<noteq> 0"
  shows "\<exists>r s' fs'. copy_loop d pd sz a s = Inr (r, s') \<and>
     (r = d \<and> copy_inv s0 pd A F d ((unat sz + 4095) div PGSIZE) s' fs' \<or> r = 0 \<and> given_up s0 A s' fs')"
  using assms
proof (induction d pd sz a s arbitrary: k fs rule: copy_loop.induct)
  case (1 d pd sz a s)
  note IH = 1(1) and inv = 1(2) and par = 1(3,4) and a = 1(5) and sz = 1(6) and pr = 1(7) and kb = 1(8) and d = 1(9)
  show ?case
  proof (cases "a < unat sz")
    case False
    then have "(unat sz + 4095) div PGSIZE = k" using kb a by (intro div_nat_eqI) auto
    then show ?thesis using False inv by (auto simp: copy_loop.simps)
  next
    case True
    have k: "k < UPAGES" "present (pte s0 pd k)" using True a sz pr by auto
    have ok: "space_ok s d fs" and kp: "vkeeps (set fs0) s0 s" using inv par(2) by (simp_all add: copy_inv_def)
    note os = other_space [OF par(1) kp]
    have "unat (of_nat a :: u32) = a" using True sz by (intro unat_u32_of_nat) simp
    then have ix: "PDX (of_nat a) = k div 1024" "PTX (of_nat a) = k mod 1024" using index_vpn [of "of_nat a"] a by (simp_all add: vpn_def)
    have pk: "pte s pd k = pte s0 pd k" using os(4) k(1) by simp
    then have pde: "present (ent s pd (k div 1024))" using k(2) by (auto simp: pte_def split: if_splits)
    then have w: "walkpgdir pd (of_nat a) False s = (Some (tab s pd (k div 1024), k mod 1024), s)"
      by (simp add: walkpgdir_def ix tab_def)
    have e: "ent s (tab s pd (k div 1024)) (k mod 1024) = pte s0 pd k" using pde pk by (simp add: pte_def)
    have km: "kmem_pages (vkend s) (vkm s) fs" using ok by (simp add: space_ok_def tables_ok_def)
    show ?thesis
    proof (cases fs)
      case Nil
      have "set fs \<union> pages s d = A" "vkeeps A s0 s" using inv by (simp_all add: copy_inv_def)
      then obtain t gs where "freevm d s = Inr t" "given_up s0 A t gs" using copy_fail [OF ok] by blast
      moreover from this have "copy_loop d pd sz a s = Inr (0, t)"
        using True w e k(2) page_alloc_ok(1) [OF km Nil] by (subst copy_loop.simps) simp
      ultimately show ?thesis by blast
    next
      case (Cons m gs)
      obtain s1 where al: "page_alloc s = (m, s1)" using page_alloc_ok(2) [OF km Cons] by blast
      let ?z = "upd_bytes (\<lambda>b. memmove b m (frame (pte s0 pd k)) PGSIZE) s1"
      obtain r s2 where r: "m \<noteq> 0" "mappages d (of_nat a) PGSIZE (V2P m) (PTE_FLAGS (pte s0 pd k)) ?z = Inr (r, s2)"
        "r = 0 \<and> (\<exists>gs. copy_inv s0 pd A F d (Suc k) s2 gs) \<or>
         r = -1 \<and> (\<exists>s3 s4 gs. page_free m s2 = Inr s3 \<and> freevm d s3 = Inr s4 \<and> given_up s0 A s4 gs)"
        using copy_step [OF inv [unfolded Cons] par k(1) a k(2) al] by blast
      have step: "copy_loop d pd sz a s = (if r < 0 then bindE (page_free m s2) (\<lambda>s5. bindE (freevm d s5) (\<lambda>s6. Inr (0, s6)))
          else copy_loop d pd sz (a + PGSIZE) s2)"
        using True w e k(2) al r(1,2) by (subst copy_loop.simps) (simp add: Let_def frame_def)
      show ?thesis
      proof (cases "r = 0")
        case False
        then show ?thesis using r(3) step by auto
      next
        case r0: True
        then obtain hs where hs: "copy_inv s0 pd A F d (Suc k) s2 hs" using r(3) by auto
        have a2: "a + PGSIZE = Suc k * PGSIZE" "Suc k * PGSIZE < unat sz + PGSIZE" using a True by simp_all
        have "\<exists>r s' fs'. copy_loop d pd sz (a + PGSIZE) s2 = Inr (r, s') \<and>
           (r = d \<and> copy_inv s0 pd A F d ((unat sz + 4095) div PGSIZE) s' fs' \<or> r = 0 \<and> given_up s0 A s' fs')"
          by (rule IH [OF True w [symmetric] refl refl refl _ al [symmetric] r(1) refl _ hs par a2(1) sz pr a2(2) d, of 0])
            (use e k(2) in simp_all)
        then show ?thesis using step r0 by simp
      qed
    qed
  qed
qed

section \<open>Properties\<close>

text \<open>
  C16. \<^verbatim>\<open>freevm\<close> of a well-formed address space does not fault and leaks nothing: afterwards the free list holds what it
  held before and, beyond it, exactly the directory, the page tables and the user pages of the address space; no
  other page of memory changes.
\<close>

theorem freevm_returns_all:
  assumes "space_ok s d fs"
  shows "\<exists>s' fs'. freevm d s = Inr s' \<and> kmem_pages (vkend s) (vkm s') fs' \<and> set fs' = set fs \<union> pages s d \<and>
     set fs \<inter> pages s d = {} \<and> vkeeps (pages s d) s s'"
proof -
  have "set fs \<inter> pages s d = {}" using assms by (auto simp: space_ok_def tables_ok_def owns_def pages_def frames_def)
  then show ?thesis using freevm_ok [OF assms] by blast
qed

theorem freevm_returns_all_witness:
  "\<exists>s' fs'. freevm 0x80400000 demo_vm = Inr s' \<and> kmem_pages 0x80300000 (vkm s') fs' \<and>
     set fs' = {0x80401000, 0x80402000, 0x80403000} \<union> pages demo_vm 0x80400000"
proof -
  have "vkend demo_vm = 0x80300000" by (simp add: demo_vm_def)
  then show ?thesis using freevm_returns_all [OF demo_space] by auto
qed

text \<open>
  C4. \<^verbatim>\<open>copyuvm\<close>, the memory of a \<^verbatim>\<open>fork\<close>: for a well-formed parent whose pages below the size are mapped, it returns a new
  well-formed address space built from pages that were free, with the kernel mapped as \<^verbatim>\<open>kmap\<close> says, in which each of
  these pages is mapped with the flags of the parent to a page of its own with the same contents, and no other
  user page is mapped; or it returns 0 and every page it took is free again.  In both cases the page table and
  the memory of the parent, and every page that was not free, are as before.
\<close>

theorem copyuvm_copies:
  assumes "space_ok s pd fs" and "unat sz \<le> 2147483648" and "layout_ok (kdata s)"
    and "\<forall>i. i * PGSIZE < unat sz \<longrightarrow> present (pte s pd i)"
  shows "\<exists>d s' fs'. copyuvm pd sz s = Inr (d, s') \<and> vkeeps (set fs) s s' \<and> space_ok s' pd fs' \<and>
     (\<forall>i < 1048576. pte s' pd i = pte s pd i) \<and>
     (d = 0 \<and> set fs' = set fs \<or>
      d \<noteq> 0 \<and> space_ok s' d fs' \<and> set fs' \<union> pages s' d = set fs \<and> kmapped s' d (kmap (kdata s)) \<and>
      (\<forall>i < UPAGES. if i * PGSIZE < unat sz then copied s pd s' d i else \<not> present (pte s' d i)))"
proof -
  have km: "kmem_pages (vkend s) (vkm s) fs" and kb: "KERNBASE < vkend s" using assms(1) by (simp_all add: space_ok_def tables_ok_def)
  let ?n = "(unat sz + 4095) div PGSIZE"
  have n: "i < ?n \<longleftrightarrow> i * PGSIZE < unat sz" for i by (simp add: less_eq_div_iff_mult_less_eq Suc_le_eq [symmetric])
  note os = other_space [OF assms(1)]
  have gone: ?thesis if "copyuvm pd sz s = Inr (0, t)" "given_up s (set fs) t gs" for t gs
    using that os(4,5) [of t] by (auto simp: given_up_def)
  obtain d s1 fs1 where d: "setupkvm s = Inr (d, s1)"
    "d \<noteq> 0 \<and> space_ok s1 d fs1 \<and> set fs1 \<union> pages s1 d = set fs \<and> vkeeps (set fs) s s1 \<and>
       (\<forall>i < UPAGES. \<not> present (pte s1 d i)) \<and> kmapped s1 d (kmap (kdata s)) \<or>
     d = 0 \<and> given_up s (set fs) s1 fs1"
    using setupkvm_ok [OF km kb assms(3)] by blast
  show ?thesis
  proof (cases "d = 0")
    case True
    then show ?thesis using d gone by (auto simp: copyuvm_def)
  next
    case False
    then have s1: "space_ok s1 d fs1" "set fs1 \<union> pages s1 d = set fs" "vkeeps (set fs) s s1" "\<forall>i < UPAGES. \<not> present (pte s1 d i)"
      "kmapped s1 d (kmap (kdata s))" using d(2) by auto
    have "copy_inv s pd (set fs) (pte s1 d) d 0 s1 fs1" using s1 by (simp add: copy_inv_def)
    then obtain r s' fs' where r: "copy_loop d pd sz 0 s1 = Inr (r, s')"
      "r = d \<and> copy_inv s pd (set fs) (pte s1 d) d ?n s' fs' \<or> r = 0 \<and> given_up s (set fs) s' fs'"
      using copy_loop_ok [OF _ assms(1) refl _ assms(2,4), of "pte s1 d" d 0 s1 fs1 0] False by auto
    have c: "copyuvm pd sz s = Inr (r, s')" using d(1) False r(1) by (simp add: copyuvm_def)
    show ?thesis
    proof (cases "r = 0")
      case True
      then show ?thesis using c r(2) False gone by auto
    next
      case rd: False
      then have i: "r = d" "space_ok s' d fs'" "set fs' \<union> pages s' d = set fs" "vkeeps (set fs) s s'"
        "\<forall>i < UPAGES. if i < ?n then copied s pd s' d i else \<not> present (pte s' d i)"
        "\<forall>i < 1048576. UPAGES \<le> i \<longrightarrow> pte s' d i = pte s1 d i" using r(2) by (auto simp: copy_inv_def)
      have "kmapped s' d (kmap (kdata s))" using kmapped_cong [OF i(6) s1(5)] kmap_ranges [OF assms(3)] by simp
      moreover have "space_ok s' pd fs'" "\<forall>i < 1048576. pte s' pd i = pte s pd i"
        using os(4,5) [OF i(4)] i(2,3,4) by (auto simp: space_ok_def tables_ok_def vkeeps_def)
      ultimately show ?thesis using c i n False by auto
    qed
  qed
qed

text \<open>A process with one page.\<close>

definition demo_proc :: vm where
  "demo_proc = demo_vm\<lparr>vkm := (vkm demo_vm)\<lparr>freelist := 0x80403000\<rparr>,
     ent := (\<lambda>_ _. 0)(0x80400000 := (\<lambda>_. 0)(0 := 0x40100F), 0x80401000 := (\<lambda>_. 0)(0 := 0x40200F))\<rparr>"

lemma demo_proc_view:
  "ent demo_proc 0x80400000 = (\<lambda>_. 0)(0 := 0x40100F)" "tab demo_proc 0x80400000 0 = 0x80401000"
  "dirs demo_proc 0x80400000 = {0}" "tabs demo_proc 0x80400000 = {0x80401000}"
  "pte demo_proc 0x80400000 = (\<lambda>_. 0)(0 := 0x40200F)"
proof -
  show e: "ent demo_proc 0x80400000 = (\<lambda>_. 0)(0 := 0x40100F)" by (simp add: demo_proc_def)
  show t: "tab demo_proc 0x80400000 0 = 0x80401000" by (simp add: tab_def e PTE_ADDR_def P2V_def)
  have p: "present 0x40100F" by (simp add: present_def)
  show d: "dirs demo_proc 0x80400000 = {0}" using p by (auto simp: dirs_def e)
  show "tabs demo_proc 0x80400000 = {0x80401000}" by (simp add: tabs_def d t)
  have "present (ent demo_proc 0x80400000 j) \<longleftrightarrow> j = 0" for j using p by (simp add: e)
  then have "pte demo_proc 0x80400000 n = (if n div 1024 = 0 then ent demo_proc 0x80401000 (n mod 1024) else 0)" for n
    using t by (auto simp: pte_def)
  moreover have "ent demo_proc 0x80401000 = (\<lambda>_. 0)(0 := 0x40200F)" by (simp add: demo_proc_def)
  ultimately show "pte demo_proc 0x80400000 = (\<lambda>_. 0)(0 := 0x40200F)" by (auto simp: fun_eq_iff)
qed

lemma demo_proc_space: "space_ok demo_proc 0x80400000 [0x80403000]"
proof -
  have f: "frame 0x40200F = 0x80402000" by (simp add: frame_def PTE_ADDR_def P2V_def)
  have "owns (vkend demo_proc) 0x80400000 {0x80401000} {0x80403000} ((\<lambda>_. 0)(0 := 0x40200F))"
    by (auto simp: owns_def f free_page_def V2P_def demo_proc_def demo_vm_def split: if_splits)
  moreover have "tables_ok demo_proc 0x80400000 [0x80403000]"
    unfolding tables_ok_def demo_proc_view
    by (simp add: kmem_pages_def free_page_def V2P_def chain_nonnull demo_proc_def demo_vm_def)
  ultimately show ?thesis unfolding space_ok_def demo_proc_view by (simp add: demo_proc_def demo_vm_def)
qed

theorem copyuvm_copies_witness:
  "\<exists>d s' fs'. copyuvm 0x80400000 100 demo_proc = Inr (d, s') \<and> space_ok s' 0x80400000 fs' \<and>
     (\<forall>i < 1048576. pte s' 0x80400000 i = pte demo_proc 0x80400000 i)"
proof -
  have "layout_ok (kdata demo_proc)" by (simp add: layout_ok_def demo_proc_def demo_vm_def P2V_def)
  moreover have "\<forall>i. i * PGSIZE < unat (100 :: u32) \<longrightarrow> present (pte demo_proc 0x80400000 i)"
    by (simp add: demo_proc_view present_def)
  ultimately show ?thesis using copyuvm_copies [OF demo_proc_space, of 100] by auto
qed

end
