(* ===== verification/Grep.thy ===== *)
theory Grep
  imports Cstring
begin

text \<open>
  The regular expression matcher of the user program \<^verbatim>\<open>grep.c\<close>: the functions \<^verbatim>\<open>match\<close>, \<^verbatim>\<open>matchhere\<close> and
  \<^verbatim>\<open>matchstar\<close> on C strings, and their equivalence with a definition of what a pattern means: a pattern is
  parsed into items, the items have a language, and a text matches if one of its parts is in it.
\<close>

section \<open>The matcher\<close>

abbreviation (input) caret :: u8 where
  "caret \<equiv> 94"

abbreviation (input) dot :: u8 where
  "dot \<equiv> 46"

abbreviation (input) star :: u8 where
  "star \<equiv> 42"

abbreviation (input) dollar :: u8 where
  "dollar \<equiv> 36"

lemma peek_nonzero: "peek p \<noteq> 0 \<Longrightarrow> \<exists>c q. p = c # q \<and> c = peek p"
  by (cases p) (auto simp: peek_def)

function matchhere :: "cstr \<Rightarrow> cstr \<Rightarrow> bool" and matchstar :: "u8 \<Rightarrow> cstr \<Rightarrow> cstr \<Rightarrow> bool" where
  "matchhere re inp =
     (if peek re = 0 then True
      else if peek (tl re) = star then matchstar (peek re) (tl (tl re)) inp
      else if peek re = dollar \<and> peek (tl re) = 0 then peek inp = 0
      else if peek inp \<noteq> 0 \<and> (peek re = dot \<or> peek re = peek inp) then matchhere (tl re) (tl inp)
      else False)"
| "matchstar c re inp =
     (if matchhere re inp then True
      else if peek inp \<noteq> 0 \<and> (peek inp = c \<or> c = dot) then matchstar c re (tl inp)
      else False)"
  by pat_completeness auto
termination
proof (relation "measure (\<lambda>x. case x of Inl (re, inp) \<Rightarrow> 2 * (length re + length inp)
    | Inr (c, re, inp) \<Rightarrow> 2 * (length re + length inp) + 1)", goal_cases)
  case (2 re inp)
  then show ?case by (cases re; cases "tl re") (auto simp: peek_def)
next
  case (3 re inp)
  then show ?case by (cases re; cases inp) (auto simp: peek_def)
next
  case (5 c re inp)
  then show ?case by (cases inp) (auto simp: peek_def)
qed auto

declare matchhere.simps [simp del] matchstar.simps [simp del]

text \<open>The loop of \<^verbatim>\<open>match\<close> over the suffixes of the text, the empty one included.\<close>

fun match_loop :: "cstr \<Rightarrow> cstr \<Rightarrow> bool" where
  "match_loop re [] = matchhere re []"
| "match_loop re (c # inp) =
     (if matchhere re (c # inp) then True else if c \<noteq> 0 then match_loop re inp else False)"

definition match :: "cstr \<Rightarrow> cstr \<Rightarrow> bool" where
  "match re inp = (if peek re = caret then matchhere (tl re) inp else match_loop re inp)"

section \<open>What a pattern means\<close>

datatype item = One u8 | Star u8

text \<open>The items of a pattern without its \<open>^\<close>, and whether it ends with the \<open>$\<close> that stands for the end of the text.\<close>

fun items :: "cstr \<Rightarrow> item list \<times> bool" where
  "items [] = ([], False)"
| "items [c] = (if c = dollar then ([], True) else ([One c], False))"
| "items (c # d # re) =
     (if d = star then (case items re of (is, e) \<Rightarrow> (Star c # is, e))
      else (case items (d # re) of (is, e) \<Rightarrow> (One c # is, e)))"

definition atom :: "u8 \<Rightarrow> u8 \<Rightarrow> bool" where
  "atom c t \<longleftrightarrow> c = dot \<or> c = t"

fun lang :: "item list \<Rightarrow> cstr set" where
  "lang [] = {[]}"
| "lang (One c # is) = {t # w | t w. atom c t \<and> w \<in> lang is}"
| "lang (Star c # is) = {u @ w | u w. (\<forall>t \<in> set u. atom c t) \<and> w \<in> lang is}"

text \<open>\<open>pat\<close> matches a prefix of \<open>inp\<close>, the whole of it if the pattern is anchored at the end.\<close>

definition prefix_of :: "cstr \<Rightarrow> cstr \<Rightarrow> bool" where
  "prefix_of pat inp \<longleftrightarrow>
     (\<exists>w v. inp = w @ v \<and> w \<in> lang (fst (items pat)) \<and> (snd (items pat) \<longrightarrow> v = []))"

definition means :: "cstr \<Rightarrow> cstr \<Rightarrow> bool" where
  "means re inp \<longleftrightarrow>
     (if peek re = caret then prefix_of (tl re) inp
      else \<exists>u v. inp = u @ v \<and> prefix_of re v)"

section \<open>Equivalence\<close>

lemma prefix_of_Nil [simp]: "prefix_of [] inp"
  by (simp add: prefix_of_def)

lemma prefix_of_dollar: "prefix_of [dollar] inp \<longleftrightarrow> inp = []"
  by (auto simp: prefix_of_def)

lemma prefix_of_items:
  "items pat = (is, e) \<Longrightarrow> prefix_of pat inp \<longleftrightarrow> (\<exists>w v. inp = w @ v \<and> w \<in> lang is \<and> (e \<longrightarrow> v = []))"
  by (simp add: prefix_of_def)

lemma prefix_of_one:
  assumes "re \<noteq> [] \<Longrightarrow> hd re \<noteq> star" and "re = [] \<Longrightarrow> c \<noteq> dollar"
  shows "prefix_of (c # re) inp \<longleftrightarrow> (\<exists>t inp'. inp = t # inp' \<and> atom c t \<and> prefix_of re inp')"
proof -
  obtain "is" e where i: "items re = (is, e)" by (cases "items re")
  have c: "items (c # re) = (One c # is, e)"
    using assms i by (cases re) auto
  show ?thesis unfolding prefix_of_items [OF c] prefix_of_items [OF i]
  proof
    assume "\<exists>w v. inp = w @ v \<and> w \<in> lang (One c # is) \<and> (e \<longrightarrow> v = [])"
    then obtain t w v where "inp = (t # w) @ v" "atom c t" "w \<in> lang is" "e \<longrightarrow> v = []"
      unfolding lang.simps by blast
    then show "\<exists>t inp'. inp = t # inp' \<and> atom c t \<and> (\<exists>w v. inp' = w @ v \<and> w \<in> lang is \<and> (e \<longrightarrow> v = []))"
      by (intro exI [of _ t] exI [of _ "w @ v"]) auto
  next
    assume "\<exists>t inp'. inp = t # inp' \<and> atom c t \<and> (\<exists>w v. inp' = w @ v \<and> w \<in> lang is \<and> (e \<longrightarrow> v = []))"
    then obtain t w v where "inp = (t # w) @ v" "atom c t" "w \<in> lang is" "e \<longrightarrow> v = []" by auto
    then show "\<exists>w v. inp = w @ v \<and> w \<in> lang (One c # is) \<and> (e \<longrightarrow> v = [])"
      by (intro exI [of _ "t # w"] exI [of _ v]) auto
  qed
qed

lemma prefix_of_star:
  "prefix_of (c # star # re) inp \<longleftrightarrow>
     prefix_of re inp \<or> (\<exists>t inp'. inp = t # inp' \<and> atom c t \<and> prefix_of (c # star # re) inp')"
proof -
  obtain "is" e where i: "items re = (is, e)" by (cases "items re")
  then have s: "items (c # star # re) = (Star c # is, e)" by simp
  have eq: "prefix_of (c # star # re) inp \<longleftrightarrow>
      (\<exists>u w v. inp = u @ w @ v \<and> (\<forall>t \<in> set u. atom c t) \<and> w \<in> lang is \<and> (e \<longrightarrow> v = []))" for inp
    unfolding prefix_of_items [OF s]
  proof
    assume "\<exists>w v. inp = w @ v \<and> w \<in> lang (Star c # is) \<and> (e \<longrightarrow> v = [])"
    then obtain u w v where "inp = (u @ w) @ v" "\<forall>t \<in> set u. atom c t" "w \<in> lang is" "e \<longrightarrow> v = []"
      unfolding lang.simps by blast
    then show "\<exists>u w v. inp = u @ w @ v \<and> (\<forall>t \<in> set u. atom c t) \<and> w \<in> lang is \<and> (e \<longrightarrow> v = [])"
      by (intro exI [of _ u] exI [of _ w] exI [of _ v]) simp
  next
    assume "\<exists>u w v. inp = u @ w @ v \<and> (\<forall>t \<in> set u. atom c t) \<and> w \<in> lang is \<and> (e \<longrightarrow> v = [])"
    then obtain u w v where "inp = u @ w @ v" "\<forall>t \<in> set u. atom c t" "w \<in> lang is" "e \<longrightarrow> v = []" by blast
    then show "\<exists>w v. inp = w @ v \<and> w \<in> lang (Star c # is) \<and> (e \<longrightarrow> v = [])"
      by (intro exI [of _ "u @ w"] exI [of _ v]) auto
  qed
  show ?thesis
  proof
    assume "prefix_of (c # star # re) inp"
    then obtain u w v where u: "inp = u @ w @ v" "\<forall>t \<in> set u. atom c t" "w \<in> lang is" "e \<longrightarrow> v = []"
      unfolding eq by blast
    show "prefix_of re inp \<or> (\<exists>t inp'. inp = t # inp' \<and> atom c t \<and> prefix_of (c # star # re) inp')"
    proof (cases u)
      case Nil
      with u show ?thesis unfolding prefix_of_items [OF i] by auto
    next
      case (Cons t u')
      with u have "prefix_of (c # star # re) (u' @ w @ v)" unfolding eq by (metis list.set_intros(2))
      with u Cons show ?thesis by auto
    qed
  next
    assume "prefix_of re inp \<or> (\<exists>t inp'. inp = t # inp' \<and> atom c t \<and> prefix_of (c # star # re) inp')"
    then show "prefix_of (c # star # re) inp"
    proof
      assume "prefix_of re inp"
      then obtain w v where "inp = [] @ w @ v" "w \<in> lang is" "e \<longrightarrow> v = []"
        unfolding prefix_of_items [OF i] by auto
      then show ?thesis unfolding eq by (metis empty_iff list.set(1))
    next
      assume "\<exists>t inp'. inp = t # inp' \<and> atom c t \<and> prefix_of (c # star # re) inp'"
      then obtain t u w v where "inp = (t # u) @ w @ v" "\<forall>x \<in> set (t # u). atom c x" "w \<in> lang is" "e \<longrightarrow> v = []"
        unfolding eq by auto
      then show ?thesis unfolding eq by blast
    qed
  qed
qed

lemma peek_simps [simp]: "peek [] = 0" "peek (c # p) = c"
  by (simp_all add: peek_def)

lemma matchhere_iff:
  "0 \<notin> set re \<Longrightarrow> 0 \<notin> set inp \<Longrightarrow> matchhere re inp \<longleftrightarrow> prefix_of re inp"
  "0 \<notin> set re \<Longrightarrow> 0 \<notin> set inp \<Longrightarrow> matchstar c re inp \<longleftrightarrow> prefix_of (c # star # re) inp"
proof (induction re inp and c re inp rule: matchhere_matchstar.induct)
  case (1 re inp)
  show ?case
  proof (cases re)
    case Nil
    then show ?thesis by (simp add: matchhere.simps)
  next
    case (Cons c re')
    then have c: "c \<noteq> 0" using 1(3) by auto
    show ?thesis
    proof (cases "re' \<noteq> [] \<and> hd re' = star")
      case True
      then obtain re'' where re': "re' = star # re''" by (cases re') auto
      have "0 \<notin> set re''" using 1(3) Cons re' by simp
      then have "matchstar c re'' inp \<longleftrightarrow> prefix_of (c # star # re'') inp"
        using 1(1) Cons re' c 1(4) by simp
      then show ?thesis using Cons re' c by (subst matchhere.simps) simp
    next
      case False
      then have ns: "peek re' \<noteq> star" by (cases re') auto
      show ?thesis
      proof (cases "re' = [] \<and> c = dollar")
        case True
        then show ?thesis using Cons 1(4) by (cases inp) (subst matchhere.simps; auto simp: prefix_of_dollar)+
      next
        case nd: False
        have pk: "\<not> (c = dollar \<and> peek re' = 0)" using nd 1(3) Cons by (cases re') auto
        have "prefix_of re inp \<longleftrightarrow> (\<exists>t inp'. inp = t # inp' \<and> atom c t \<and> prefix_of re' inp')"
          unfolding Cons using False nd by (intro prefix_of_one) auto
        moreover have "matchhere re inp \<longleftrightarrow> (\<exists>t inp'. inp = t # inp' \<and> atom c t \<and> prefix_of re' inp')"
        proof (cases inp)
          case Nil
          then show ?thesis using Cons c ns pk by (subst matchhere.simps) simp
        next
          case (Cons t inp')
          then have t: "t \<noteq> 0" "0 \<notin> set inp'" using 1(4) by auto
          have "matchhere re' inp' \<longleftrightarrow> prefix_of re' inp'" if "atom c t"
            using 1(2) \<open>re = c # re'\<close> Cons c ns pk t that 1(3) by (auto simp: atom_def)
          then show ?thesis
            using Cons \<open>re = c # re'\<close> c ns pk t by (subst matchhere.simps) (auto simp: atom_def)
        qed
        ultimately show ?thesis by simp
      qed
    qed
  qed
next
  case (2 c re inp)
  have h: "matchhere re inp \<longleftrightarrow> prefix_of re inp" using 2 by simp
  show ?case
  proof (cases inp)
    case Nil
    then show ?thesis using h prefix_of_star [of c re inp] by (simp add: matchstar.simps)
  next
    case (Cons t inp')
    then have t: "t \<noteq> 0" "0 \<notin> set inp'" using 2(4) by auto
    have "matchstar c re inp' \<longleftrightarrow> prefix_of (c # star # re) inp'" if "\<not> matchhere re inp" "atom c t"
      using 2(2) Cons t that 2(3) by (auto simp: atom_def)
    then show ?thesis
      using h Cons t prefix_of_star [of c re inp] by (subst matchstar.simps) (auto simp: atom_def)
  qed
qed

lemma match_loop_iff:
  "0 \<notin> set re \<Longrightarrow> 0 \<notin> set inp \<Longrightarrow> match_loop re inp \<longleftrightarrow> (\<exists>u v. inp = u @ v \<and> prefix_of re v)"
proof (induction inp)
  case Nil
  then show ?case by (simp add: matchhere_iff)
next
  case (Cons c inp)
  then show ?case by (auto simp: matchhere_iff Cons_eq_append_conv)
qed

text \<open>
  C34. The matcher decides exactly the meaning of a pattern, for every pattern and every text: \<^verbatim>\<open>match\<close> returns 1
  if and only if some part of the text (at the start if the pattern begins with \<open>^\<close>, up to the end if it
  ends with \<open>$\<close>) is in the language of the items of the pattern, where \<open>.\<close> stands for any character and
  \<open>c*\<close> for any number of characters that \<open>c\<close> stands for.  The recursion of the two functions ends.
\<close>

theorem match_correct:
  assumes "0 \<notin> set re" and "0 \<notin> set inp"
  shows "match re inp \<longleftrightarrow> means re inp"
proof (cases re)
  case Nil
  then show ?thesis using assms by (simp add: match_def means_def match_loop_iff)
next
  case (Cons c re')
  then show ?thesis using assms by (auto simp: match_def means_def match_loop_iff matchhere_iff)
qed

theorem match_correct_witness:
  "match (str ''^a.*b$'') (str ''axxb'') \<longleftrightarrow> means (str ''^a.*b$'') (str ''axxb'')"
  by (rule match_correct) (simp_all add: str_def)

end
