(* ===== verification/Console.thy ===== *)
theory Console
  imports Ring Cstring
begin

text \<open>
  The console of \<^verbatim>\<open>console.c\<close>: output of numbers and formatted text, the screen with its cursor, and the line
  editing of input.  What goes to the serial port is kept as the list of codes written; the screen is the memory
  of the display and the position that its registers hold.  The lock of the console makes each call one step;
  \<^verbatim>\<open>consoleread\<close> gives it up when it sleeps and is modelled as the section up to there.
\<close>

declare bindE_cong [fundef_cong]

section \<open>Output\<close>

abbreviation (input) BACKSPACE :: int where
  "BACKSPACE \<equiv> 0x100"

record input =
  ibuf :: "u8 list"
  ir :: u32
  iw :: u32
  ie :: u32

record console =
  inp :: input
  serial :: "u8 list"
  crt :: "u16 list"
  cpos :: int
  panicked :: bool

text \<open>The cursor registers hold 16 bits; the display has 25 lines of 80 cells.\<close>

definition scroll :: "int \<Rightarrow> u16 list \<Rightarrow> int \<times> u16 list" where
  "scroll pos m =
     (if pos div 80 \<ge> 24
      then let m1 = take (23 * 80) (drop 80 m) @ drop (23 * 80) m; p = nat (pos - 80)
           in (pos - 80, take p m1 @ replicate (24 * 80 - p) 0 @ drop (24 * 80) m1)
      else (pos, m))"

definition cgaputc :: "int \<Rightarrow> console \<Rightarrow> console result" where
  "cgaputc c s =
     (let pos = cpos s in
      bindE (if c = 10 then Inr (pos + 80 - pos mod 80, crt s)
             else if c = BACKSPACE then Inr (if pos > 0 then pos - 1 else pos, crt s)
             else bindE (aset (crt s) (nat pos) ((word_of_int c AND 0xFF) OR 0x0700)) (\<lambda>m. Inr (pos + 1, m))) (\<lambda>(pos, m).
      if pos < 0 \<or> pos > 25 * 80 then Inl (Panic ''pos under/overflow'')
      else
        let (pos, m) = scroll pos m
        in bindE (aset m (nat pos) 0x0720) (\<lambda>m. Inr (s\<lparr>crt := m, cpos := pos mod 0x10000\<rparr>))))"

definition consputc :: "int \<Rightarrow> console \<Rightarrow> console result" where
  "consputc c s =
     (if panicked s then Inl Hang
      else cgaputc c (s\<lparr>serial := serial s @ (if c = BACKSPACE then [8, 32, 8] else [word_of_int c])\<rparr>))"

definition putall :: "int list \<Rightarrow> console \<Rightarrow> console result" where
  "putall = foldE consputc"

text \<open>
  \<^verbatim>\<open>printint\<close>: the digits from the last one on, as the loop stores them in its buffer, and then backwards.  The
  characters are those of the array \<^verbatim>\<open>digits\<close>.
\<close>

definition digit :: "nat \<Rightarrow> int" where
  "digit d = (if d < 10 then 48 + int d else 87 + int d)"

function digits_loop :: "nat \<Rightarrow> nat \<Rightarrow> int list" where
  "digits_loop base x = (if x < base \<or> base < 2 then [digit (x mod base)] else digit (x mod base) # digits_loop base (x div base))"
  by pat_completeness auto
termination
  by (relation "measure (\<lambda>(base, x). x)") auto

declare digits_loop.simps [simp del]

definition print_digits :: "u32 \<Rightarrow> nat \<Rightarrow> bool \<Rightarrow> int list" where
  "print_digits xx base sign =
     (let neg = (sign \<and> sint xx < 0);
          x = (if neg then - xx else xx)
      in rev (digits_loop base (unat x) @ (if neg then [45] else [])))"

definition printint :: "u32 \<Rightarrow> nat \<Rightarrow> bool \<Rightarrow> console \<Rightarrow> console result" where
  "printint xx base sign s =
     (if length (print_digits xx base sign) > 16 then Inl Wild else putall (print_digits xx base sign) s)"

text \<open>
  \<^verbatim>\<open>cprintf\<close>: the words behind the format on the stack are given as a list; reading past them is \<open>Wild\<close>.  The
  string at an address is found by \<open>str_at\<close>.
\<close>

text \<open>The characters of a string are \<^verbatim>\<open>char\<close>s, which have a sign; those of \<^verbatim>\<open>consolewrite\<close> are masked.\<close>

definition codes :: "cstr \<Rightarrow> int list" where
  "codes b = map sint (takeWhile (\<lambda>c. c \<noteq> 0) b)"

fun cprintf_loop :: "(u32 \<Rightarrow> cstr) \<Rightarrow> cstr \<Rightarrow> u32 list \<Rightarrow> console \<Rightarrow> console result" where
  "cprintf_loop str_at [] args s = Inr s"
| "cprintf_loop str_at (c # fmt) args s =
     (if c = 0 then Inr s
      else if c \<noteq> 37 then bindE (consputc (uint c) s) (cprintf_loop str_at fmt args)
      else case fmt of
        [] \<Rightarrow> Inr s
      | d # rest \<Rightarrow>
          if d = 0 then Inr s
          else if d \<in> {100, 120, 112, 115} then
            (case args of
               [] \<Rightarrow> Inl Wild
             | a # as \<Rightarrow>
                 bindE (if d = 100 then printint a 10 True s
                        else if d = 115 then putall (codes (if a = 0 then str ''(null)'' else str_at a)) s
                        else printint a 16 False s) (cprintf_loop str_at rest as))
          else if d = 37 then bindE (consputc 37 s) (cprintf_loop str_at rest args)
          else bindE (consputc 37 s) (\<lambda>s1. bindE (consputc (uint d) s1) (cprintf_loop str_at rest args)))"

definition cprintf :: "(u32 \<Rightarrow> cstr) \<Rightarrow> cstr option \<Rightarrow> u32 list \<Rightarrow> console \<Rightarrow> console result" where
  "cprintf str_at fmt args s =
     (case fmt of None \<Rightarrow> Inl (Panic ''null fmt'') | Some f \<Rightarrow> cprintf_loop str_at f args s)"

definition consolewrite :: "u8 list \<Rightarrow> console \<Rightarrow> (int \<times> console) result" where
  "consolewrite buf s = bindE (putall (map uint buf) s) (\<lambda>s1. Inr (int (length buf), s1))"

text \<open>\<^verbatim>\<open>panic\<close>, up to the loop it ends in; the processor's number and the return addresses are given.\<close>

definition panic :: "(u32 \<Rightarrow> cstr) \<Rightarrow> u32 \<Rightarrow> u32 list \<Rightarrow> cstr \<Rightarrow> console \<Rightarrow> console result" where
  "panic str_at lapicid pcs s c =
     bindE (cprintf str_at (Some (str ''lapicid %d: panic: '')) [lapicid] c) (\<lambda>c.
     bindE (cprintf str_at (Some s) [] c) (\<lambda>c.
     bindE (cprintf str_at (Some [10]) [] c) (\<lambda>c.
     bindE (foldE (\<lambda>pc. cprintf str_at (Some (str '' %p'')) [pc]) (take 10 pcs) c) (\<lambda>c.
     Inr (c\<lparr>panicked := True\<rparr>)))))"

section \<open>Input\<close>

abbreviation (input) INPUT_BUF :: "'a::numeral" where
  "INPUT_BUF \<equiv> 128"

text \<open>The loop that kills a line: it takes back characters up to the last newline or the start of the line.\<close>

function kill_line :: "console \<Rightarrow> console result" where
  "kill_line s =
     (let i = inp s in
      if ie i \<noteq> iw i \<and> ibuf i ! (unat (ie i - 1) mod INPUT_BUF) \<noteq> 10
      then bindE (consputc BACKSPACE (s\<lparr>inp := i\<lparr>ie := ie i - 1\<rparr>\<rparr>)) kill_line
      else Inr s)"
  by pat_completeness auto
termination
proof (relation "measure (\<lambda>s. unat (ie (inp s) - iw (inp s)))", goal_cases)
  case (2 s i t)
  have "inp t = i\<lparr>ie := ie i - 1\<rparr>"
    using 2(3) by (auto simp: consputc_def cgaputc_def Let_def split: if_splits prod.splits)
  then show ?case using 2(1,2) ahead_minus(2) [of "ie i" "iw i"] by simp
qed simp

declare kill_line.simps [simp del]

definition store_char :: "int \<Rightarrow> input \<Rightarrow> input" where
  "store_char c i = i\<lparr>ibuf := (ibuf i)[unat (ie i) mod INPUT_BUF := word_of_int c], ie := ie i + 1\<rparr>"

text \<open>One character of \<^verbatim>\<open>consoleintr\<close>; the flag says that the list of processes is to be printed.\<close>

definition consolechar :: "int \<Rightarrow> bool \<times> console \<Rightarrow> (bool \<times> console) result" where
  "consolechar c = (\<lambda>(doprocdump, s).
     let i = inp s in
     if c = 16 then Inr (True, s)
     else if c = 21 then bindE (kill_line s) (\<lambda>s1. Inr (doprocdump, s1))
     else if c = 8 \<or> c = 127 then
       (if ie i \<noteq> iw i then bindE (consputc BACKSPACE (s\<lparr>inp := i\<lparr>ie := ie i - 1\<rparr>\<rparr>)) (\<lambda>s1. Inr (doprocdump, s1))
        else Inr (doprocdump, s))
     else if c \<noteq> 0 \<and> ie i - ir i < INPUT_BUF then
       let c = (if c = 13 then 10 else c);
           i1 = store_char c i
       in bindE (consputc c (s\<lparr>inp := i1\<rparr>)) (\<lambda>s1.
          Inr (doprocdump, if c = 10 \<or> c = 4 \<or> ie i1 = ir i1 + INPUT_BUF then s1\<lparr>inp := i1\<lparr>iw := ie i1\<rparr>\<rparr> else s1))
     else Inr (doprocdump, s))"

text \<open>\<^verbatim>\<open>consoleintr\<close> with the characters that \<^verbatim>\<open>getc\<close> delivers.\<close>

definition consoleintr :: "int list \<Rightarrow> console \<Rightarrow> (bool \<times> console) result" where
  "consoleintr cs s = foldE consolechar (takeWhile (\<lambda>c. c \<ge> 0) cs) (False, s)"

datatype read_outcome = Returned int | Sleeps_with int

text \<open>
  A section of \<^verbatim>\<open>consoleread\<close> with \<open>n\<close> of \<open>target\<close> bytes still to read, from acquiring the lock or waking up to
  returning or sleeping; \<open>out\<close> are the bytes stored at \<^verbatim>\<open>dst\<close>.
\<close>

fun read_loop :: "bool \<Rightarrow> nat \<Rightarrow> nat \<Rightarrow> u8 list \<Rightarrow> input \<Rightarrow> read_outcome \<times> u8 list \<times> input" where
  "read_loop killed target 0 out i = (Returned (int target), out, i)"
| "read_loop killed target (Suc n) out i =
     (if ir i = iw i then (if killed then (Returned (-1), out, i) else (Sleeps_with (int (Suc n)), out, i))
      else
        let c = ibuf i ! (unat (ir i) mod INPUT_BUF); i1 = i\<lparr>ir := ir i + 1\<rparr> in
        if c = 4 then (Returned (int target - int (Suc n)), out, if Suc n < target then i else i1)
        else if c = 10 then (Returned (int target - int n), out @ [c], i1)
        else read_loop killed target n (out @ [c]) i1)"

definition consoleread :: "bool \<Rightarrow> int \<Rightarrow> console \<Rightarrow> read_outcome \<times> u8 list \<times> console" where
  "consoleread killed n s =
     (if n \<le> 0 then (Returned 0, [], s)
      else case read_loop killed (nat n) (nat n) [] (inp s) of (r, out, i) \<Rightarrow> (r, out, s\<lparr>inp := i\<rparr>))"

section \<open>The screen\<close>

text \<open>The cursor is on the display and the memory of the display is there.\<close>

definition screen_ok :: "console \<Rightarrow> bool" where
  "screen_ok s \<longleftrightarrow> 0 \<le> cpos s \<and> cpos s < 2000 \<and> 2000 \<le> length (crt s) \<and> \<not> panicked s"

text \<open>What \<open>consputc\<close> may change: the screen, and the bytes sent, which it extends.\<close>

definition printed :: "console \<Rightarrow> u8 list \<Rightarrow> console \<Rightarrow> bool" where
  "printed s out t \<longleftrightarrow> screen_ok t \<and> inp t = inp s \<and> serial t = serial s @ out"

lemma printed_refl: "screen_ok s \<Longrightarrow> printed s [] s"
  by (simp add: printed_def)

lemma printed_trans: "printed s a t \<Longrightarrow> printed t b u \<Longrightarrow> printed s (a @ b) u"
  by (simp add: printed_def)

lemma scroll_position:
  assumes "0 \<le> p" "p \<le> 2000" "2000 \<le> length m"
  shows "length (snd (scroll p m)) = length m" "0 \<le> fst (scroll p m)" "fst (scroll p m) \<le> 1920"
proof -
  have "nat (p - 80) \<le> 1920" using assms(2) by linarith
  then show "length (snd (scroll p m)) = length m" using assms(3) by (simp add: scroll_def Let_def)
  show "0 \<le> fst (scroll p m)" "fst (scroll p m) \<le> 1920" using assms by (auto simp: scroll_def Let_def)
qed

lemma cgaputc_position:
  assumes "screen_ok s"
  shows "\<exists>m p. cgaputc c s = Inr (s\<lparr>crt := m, cpos := p\<rparr>) \<and> length m = length (crt s) \<and> 0 \<le> p \<and> p \<le> 1920"
proof -
  define p where "p = (if c = 10 then cpos s + 80 - cpos s mod 80 else if c = BACKSPACE then (if cpos s > 0 then cpos s - 1 else cpos s) else cpos s + 1)"
  define m where "m = (if c = 10 \<or> c = BACKSPACE then crt s else (crt s)[nat (cpos s) := (word_of_int c AND 0xFF) OR 0x0700])"
  have s: "0 \<le> cpos s" "cpos s < 2000" "2000 \<le> length (crt s)" using assms by (auto simp: screen_ok_def)
  have "cpos s + 80 - cpos s mod 80 \<le> 2000" using s by presburger
  moreover have "cpos s mod 80 \<le> cpos s + 80" using s by presburger
  ultimately have p: "0 \<le> p" "p \<le> 2000" using s unfolding p_def by auto
  have m: "length m = length (crt s)" by (simp add: m_def)
  have start: "(if c = 10 then Inr (cpos s + 80 - cpos s mod 80, crt s)
             else if c = BACKSPACE then Inr (if cpos s > 0 then cpos s - 1 else cpos s, crt s)
             else bindE (aset (crt s) (nat (cpos s)) ((word_of_int c AND 0xFF) OR 0x0700)) (\<lambda>m. Inr (cpos s + 1, m))) = (Inr (p, m) :: _ result)"
    using s by (auto simp: p_def m_def)
  obtain q m2 where e: "scroll p m = (q, m2)" by (cases "scroll p m")
  have q: "0 \<le> q" "q \<le> 1920" "length m2 = length (crt s)" using scroll_position [OF p, of m] s(3) m by (simp_all add: e)
  then have "cgaputc c s = Inr (s\<lparr>crt := m2[nat q := 0x0720], cpos := q\<rparr>)"
    using p s(3) unfolding cgaputc_def Let_def start by (simp add: e)
  then show ?thesis using q by fastforce
qed

lemma consputc_prints:
  assumes "screen_ok s"
  shows "\<exists>t. consputc c s = Inr t \<and> printed s (if c = BACKSPACE then [8, 32, 8] else [word_of_int c]) t"
proof -
  let ?s = "s\<lparr>serial := serial s @ (if c = BACKSPACE then [8, 32, 8] else [word_of_int c])\<rparr>"
  have "screen_ok ?s" using assms by (simp add: screen_ok_def)
  from cgaputc_position [OF this, of c] show ?thesis using assms
    by (fastforce simp: consputc_def printed_def screen_ok_def)
qed

lemma putall_prints:
  "screen_ok s \<Longrightarrow> \<forall>c\<in>set cs. c \<noteq> BACKSPACE \<Longrightarrow> \<exists>t. putall cs s = Inr t \<and> printed s (map word_of_int cs) t"
proof (induction cs arbitrary: s)
  case (Cons c cs)
  obtain t where t: "consputc c s = Inr t" "printed s [word_of_int c] t"
    using consputc_prints [of s c] Cons.prems by auto
  obtain u where "putall cs t = Inr u" "printed t (map word_of_int cs) u"
    using Cons.IH [of t] Cons.prems(2) t(2) by (auto simp: printed_def)
  then show ?case using t printed_trans [OF t(2)] by (fastforce simp: putall_def)
qed (simp add: putall_def printed_refl)

section \<open>Numbers\<close>

text \<open>Reading back what \<open>printint\<close> writes, in the given base.\<close>

definition digit_value :: "u8 \<Rightarrow> nat" where
  "digit_value c = (if c < 58 then unat c - 48 else unat c - 87)"

definition read_digits :: "nat \<Rightarrow> u8 list \<Rightarrow> nat" where
  "read_digits base = foldl (\<lambda>n c. n * base + digit_value c) 0"

definition read_number :: "nat \<Rightarrow> u8 list \<Rightarrow> int" where
  "read_number base cs = (case cs of c # ds \<Rightarrow> if c = 45 then - int (read_digits base ds) else int (read_digits base cs) | [] \<Rightarrow> 0)"

lemma digit_value: "d < 16 \<Longrightarrow> digit_value (word_of_int (digit d)) = d"
proof -
  assume "d < 16"
  then have "d \<in> set [0..<16]" by simp
  moreover have "\<forall>d\<in>set [0..<16]. digit_value (word_of_int (digit d)) = d"
    by (simp add: upt_rec digit_value_def digit_def)
  ultimately show ?thesis by blast
qed

lemma digit_range: "d < 16 \<Longrightarrow> 48 \<le> digit d \<and> digit d < 128"
  by (simp add: digit_def)

lemma read_digits_snoc [simp]: "read_digits base (ds @ [c]) = read_digits base ds * base + digit_value c"
  by (simp add: read_digits_def)

lemma read_digits_rev:
  "2 \<le> base \<Longrightarrow> base \<le> 16 \<Longrightarrow> read_digits base (map word_of_int (rev (digits_loop base x))) = x"
proof (induction base x rule: digits_loop.induct)
  case (1 base x)
  have d: "digit_value (word_of_int (digit (x mod base))) = x mod base"
    using 1(2,3) mod_less_divisor [of base x] by (intro digit_value) linarith
  show ?case
  proof (cases "x < base")
    case True
    then show ?thesis using d by (simp add: digits_loop.simps read_digits_def)
  next
    case False
    then have "read_digits base (map word_of_int (rev (digits_loop base (x div base)))) = x div base" using 1 by simp
    moreover have "digits_loop base x = digit (x mod base) # digits_loop base (x div base)"
      using False 1(2) by (subst digits_loop.simps) simp
    ultimately show ?thesis using d by simp
  qed
qed

lemma digits_range: "2 \<le> base \<Longrightarrow> base \<le> 16 \<Longrightarrow> c \<in> set (digits_loop base x) \<Longrightarrow> 48 \<le> c \<and> c < 128"
proof (induction base x rule: digits_loop.induct)
  case (1 base x)
  have "x mod base < 16" using 1(2,3) mod_less_divisor [of base x] by linarith
  then have "48 \<le> digit (x mod base) \<and> digit (x mod base) < 128" by (rule digit_range)
  then show ?case using 1 by (subst (asm) digits_loop.simps) (auto split: if_splits)
qed

lemma digits_length: "2 \<le> base \<Longrightarrow> x < base ^ Suc k \<Longrightarrow> length (digits_loop base x) \<le> Suc k"
proof (induction k arbitrary: x)
  case 0
  then show ?case by (simp add: digits_loop.simps)
next
  case (Suc k)
  have "x div base < base ^ Suc k" using Suc.prems by (simp add: less_mult_imp_div_less mult.commute)
  then have "length (digits_loop base (x div base)) \<le> Suc k" using Suc by blast
  then show ?case by (subst digits_loop.simps) simp
qed

lemma digits_nonempty: "digits_loop base x \<noteq> []"
  by (subst digits_loop.simps) simp

lemma print_digits_length: "base = 10 \<or> base = 16 \<Longrightarrow> length (print_digits xx base sign) \<le> 11"
proof -
  assume b: "base = 10 \<or> base = 16"
  have "unat x < base ^ Suc 9" for x :: u32
  proof -
    have "unat x < 4294967296" using unsigned_less [of x] by simp
    then show ?thesis using b by auto
  qed
  then have "length (digits_loop base (unat x)) \<le> 10" for x :: u32 using digits_length [of base "unat x" 9] b by fastforce
  from this [of xx] this [of "- xx"] show ?thesis by (simp add: print_digits_def Let_def)
qed

lemma read_number_digits:
  assumes "2 \<le> base" "base \<le> 16"
  shows "read_number base (map word_of_int (rev (digits_loop base x))) = int x"
proof -
  obtain c ds where e: "rev (digits_loop base x) = c # ds" using digits_nonempty by (cases "rev (digits_loop base x)") auto
  then have "c \<in> set (digits_loop base x)" by (metis list.set_intros(1) set_rev)
  then have c: "48 \<le> c" "c < 128" using digits_range [OF assms] by auto
  have "uint (word_of_int c :: u8) = c" using c by (simp add: uint_word_of_int)
  then have "(word_of_int c :: u8) \<noteq> 45" using c(1) by auto
  then show ?thesis using read_digits_rev [OF assms, of x] by (simp add: read_number_def e)
qed

lemma u32_range: "0 \<le> uint x" "uint x < 4294967296" for x :: u32
  using uint_lt2p [of x] by simp_all

lemma sint_cases: "sint (x :: u32) = (if uint x < 2147483648 then uint x else uint x - 4294967296)"
proof -
  have "sint x = (uint x + 2147483648) mod 4294967296 - 2147483648"
    by (simp add: sint_uint signed_take_bit_eq_take_bit_shift take_bit_eq_mod)
  moreover have "(uint x + 2147483648) mod 4294967296 = uint x + 2147483648" if "uint x < 2147483648"
    using that u32_range(1) [of x] by (intro mod_pos_pos_trivial) linarith+
  moreover have "(uint x + 2147483648) mod 4294967296 = uint x - 2147483648" if "\<not> uint x < 2147483648"
    using that u32_range(2) [of x] by (intro int_mod_pos_eq [of _ _ 1]) linarith+
  ultimately show ?thesis by simp
qed

lemma read_print_digits:
  assumes "2 \<le> base" "base \<le> 16"
  shows "read_number base (map word_of_int (print_digits xx base sign)) = (if sign then sint xx else uint xx)"
proof (cases "sign \<and> sint xx < 0")
  case True
  have "int (unat (- xx)) = - sint xx" using True
    by (simp add: sint_cases uint_word_ariths zmod_zminus1_eq_if split: if_splits)
  then show ?thesis using True read_digits_rev [OF assms, of "unat (- xx)"] by (simp add: print_digits_def Let_def read_number_def)
next
  case False
  then have "sign \<Longrightarrow> sint xx = uint xx" using u32_range(2) [of xx] by (simp add: sint_cases split: if_splits)
  then show ?thesis using False read_number_digits [OF assms, of "unat xx"] by (auto simp: print_digits_def Let_def)
qed

lemma print_digits_chars: "2 \<le> base \<Longrightarrow> base \<le> 16 \<Longrightarrow> c \<in> set (print_digits xx base sign) \<Longrightarrow> c \<noteq> BACKSPACE"
  using digits_range [of base] by (fastforce simp: print_digits_def Let_def split: if_splits)

lemma printint_prints:
  assumes "screen_ok s" "base = 10 \<or> base = 16"
  shows "\<exists>t. printint xx base sign s = Inr t \<and> printed s (map word_of_int (print_digits xx base sign)) t"
proof -
  have b: "2 \<le> base" "base \<le> 16" using assms(2) by auto
  have "\<forall>c\<in>set (print_digits xx base sign). c \<noteq> BACKSPACE" using print_digits_chars [OF b] by blast
  from putall_prints [OF assms(1) this] show ?thesis
    using print_digits_length [OF assms(2), of xx sign] by (simp add: printint_def)
qed

text \<open>
  \<open>printint\<close> in base 10 or 16 never overruns its buffer of 16 characters, and what it sends reads
  back as the number given, the least \<^verbatim>\<open>int\<close> included.
\<close>

theorem printint_roundtrip:
  assumes "screen_ok s" "base = 10 \<or> base = 16"
  shows "\<exists>t out. printint xx base sign s = Inr t \<and> serial t = serial s @ out \<and> inp t = inp s \<and> screen_ok t \<and>
           read_number base out = (if sign then sint xx else uint xx)"
proof -
  obtain t where t: "printint xx base sign s = Inr t" "printed s (map word_of_int (print_digits xx base sign)) t"
    using printint_prints [OF assms] by blast
  show ?thesis
    by (rule exI [of _ t], rule exI [of _ "map word_of_int (print_digits xx base sign)"])
      (use t read_print_digits [of base xx sign] assms(2) in \<open>auto simp: printed_def\<close>)
qed

section \<open>Formatted output and panic\<close>

text \<open>The arguments that a format takes from the stack.\<close>

fun takes :: "cstr \<Rightarrow> nat" where
  "takes (c # fmt) = (if c = 0 then 0 else if c \<noteq> 37 then takes fmt else case fmt of [] \<Rightarrow> 0 | d # rest \<Rightarrow>
     if d = 0 then 0 else if d \<in> {100, 120, 112, 115} then Suc (takes rest) else takes rest)"
| "takes [] = 0"

lemma consputc_char: "screen_ok s \<Longrightarrow> \<exists>t. consputc c s = Inr t \<and> screen_ok t \<and> inp t = inp s"
  using consputc_prints [of s c] by (auto simp: printed_def)

lemma codes_chars: "c \<in> set (codes b) \<Longrightarrow> c \<noteq> BACKSPACE"
proof -
  assume "c \<in> set (codes b)"
  then obtain x :: u8 where "c = sint x" by (auto simp: codes_def)
  then show ?thesis using sint_lt [of x] by auto
qed

lemma conversion_prints:
  assumes "screen_ok s"
  shows "\<exists>t. (if d = 100 then printint a 10 True s
              else if d = 115 then putall (codes (if a = 0 then str ''(null)'' else str_at a)) s
              else printint a 16 False s) = Inr t \<and> screen_ok t \<and> inp t = inp s"
  using printint_prints [OF assms, of 10 a True] printint_prints [OF assms, of 16 a False]
    putall_prints [OF assms, of "codes (if a = 0 then str ''(null)'' else str_at a)"] codes_chars
  by (fastforce simp: printed_def)

lemma cprintf_loop_prints:
  "screen_ok s \<Longrightarrow> takes fmt \<le> length args \<Longrightarrow> \<exists>t. cprintf_loop str_at fmt args s = Inr t \<and> screen_ok t \<and> inp t = inp s"
proof (induction fmt arbitrary: args s rule: takes.induct)
  case (1 c fmt)
  obtain s1 where s1: "consputc (uint c) s = Inr s1" "screen_ok s1" "inp s1 = inp s" using consputc_char 1(4) by blast
  obtain s2 where s2: "consputc 37 s = Inr s2" "screen_ok s2" "inp s2 = inp s" using consputc_char 1(4) by blast
  show ?case
  proof (cases "c = 0 \<or> c \<noteq> 37 \<or> fmt = []")
    case True
    then show ?thesis using 1(1) [OF _ _ s1(2), of args] 1(4,5) s1(1,3) by (auto split: list.split)
  next
    case False
    then obtain d rest where f: "c = 37" "fmt = d # rest" by (cases fmt) auto
    obtain s3 where s3: "consputc (uint d) s2 = Inr s3" "screen_ok s3" "inp s3 = inp s" using consputc_char s2(2,3) by metis
    consider "d = 0" | "d \<noteq> 0" "d \<in> {100, 120, 112, 115}" | "d \<noteq> 0" "d \<notin> {100, 120, 112, 115}" by blast
    then show ?thesis
    proof cases
      case 2
      then obtain a as where a: "args = a # as" using 1(5) f by (cases args) auto
      obtain t where t: "(if d = 100 then printint a 10 True s
              else if d = 115 then putall (codes (if a = 0 then str ''(null)'' else str_at a)) s
              else printint a 16 False s) = Inr t" "screen_ok t" "inp t = inp s"
        using conversion_prints [OF 1(4)] by blast
      have "takes rest \<le> length as" using 1(5) f a 2 by auto
      then obtain u where u: "cprintf_loop str_at rest as t = Inr u" "screen_ok u" "inp u = inp t"
        using 1(2) [OF _ _ f(2) 2 t(2)] f(1) by auto
      then show ?thesis using f a t 2 u by (auto simp del: insert_iff)
    next
      case 3
      then have l: "takes rest \<le> length args" using 1(5) f by auto
      have "\<exists>t. cprintf_loop str_at rest args v = Inr t \<and> screen_ok t \<and> inp t = inp v" if "screen_ok v" for v
        using 1(3) [OF _ _ f(2) 3 that l] f(1) by auto
      from this [OF s2(2)] this [OF s3(2)] show ?thesis using f 3 s2 s3 by auto
    qed (use 1(4) f in simp)
  qed
qed simp

text \<open>
  With an argument for each conversion of the format, \<open>cprintf\<close> returns: the cursor stays on the
  display, \<open>cgaputc\<close> neither panics nor writes past it, and the input is not touched.
\<close>

theorem cprintf_returns:
  assumes "screen_ok s" "takes fmt \<le> length args"
  shows "\<exists>t. cprintf str_at (Some fmt) args s = Inr t \<and> screen_ok t \<and> inp t = inp s"
  using cprintf_loop_prints [OF assms] by (simp add: cprintf_def)

lemma foldE_cprintf:
  "screen_ok s \<Longrightarrow> takes fmt = 1 \<Longrightarrow>
   \<exists>t. foldE (\<lambda>pc. cprintf str_at (Some fmt) [pc]) pcs s = Inr t \<and> screen_ok t"
proof (induction pcs arbitrary: s)
  case (Cons pc pcs)
  then obtain u where "cprintf str_at (Some fmt) [pc] s = Inr u" "screen_ok u"
    using cprintf_loop_prints [of s fmt "[pc]" str_at] by (auto simp: cprintf_def)
  then show ?case using Cons by simp
qed simp

text \<open>
  \<open>panic\<close> with a message without conversions prints and comes to its loop, and from then on every
  processor that writes to the console hangs.
\<close>

theorem panic_freezes:
  assumes "screen_ok c" "takes msg = 0"
  shows "\<exists>t. panic str_at lapicid pcs msg c = Inr t \<and> panicked t \<and> (\<forall>x. consputc x t = Inl Hang)"
proof -
  have p: "\<exists>t. cprintf str_at (Some f) args s = Inr t \<and> screen_ok t" if "screen_ok s" "takes f \<le> length args" for f args s
    using cprintf_loop_prints [OF that] by (auto simp: cprintf_def)
  obtain c1 where 1: "cprintf str_at (Some (str ''lapicid %d: panic: '')) [lapicid] c = Inr c1" "screen_ok c1"
    using p [OF assms(1), of "str ''lapicid %d: panic: ''" "[lapicid]"] by (auto simp: str_def of_char_def)
  obtain c2 where 2: "cprintf str_at (Some msg) [] c1 = Inr c2" "screen_ok c2" using p [OF 1(2), of msg "[]"] assms(2) by auto
  obtain c3 where 3: "cprintf str_at (Some [10]) [] c2 = Inr c3" "screen_ok c3" using p [OF 2(2), of "[10]" "[]"] by auto
  obtain c4 where 4: "foldE (\<lambda>pc. cprintf str_at (Some (str '' %p'')) [pc]) (take 10 pcs) c3 = Inr c4" "screen_ok c4"
    using foldE_cprintf [OF 3(2), of "str '' %p''" str_at "take 10 pcs"] by (auto simp: str_def of_char_def)
  show ?thesis by (simp add: panic_def 1 2 3 4 consputc_def)
qed

section \<open>Line editing\<close>

text \<open>
  The specification: the bytes of finished lines that wait to be read, and the line that is being edited.  A
  character goes to the line, a backspace takes the last one back and control-U takes the line back; a newline, a
  control-D or a full buffer finishes the line.
\<close>

fun edit :: "int \<Rightarrow> u8 list \<times> u8 list \<Rightarrow> u8 list \<times> u8 list" where
  "edit c (q, l) =
     (if c = 16 then (q, l)
      else if c = 21 then (q, [])
      else if c = 8 \<or> c = 127 then (q, butlast l)
      else if c \<noteq> 0 \<and> length q + length l < INPUT_BUF then
        let l = l @ [if c = 13 then 10 else word_of_int c]
        in if last l = 10 \<or> last l = 4 \<or> length q + length l = INPUT_BUF then (q @ l, []) else (q, l)
      else (q, l))"

definition lines :: "input \<Rightarrow> u8 list \<times> u8 list" where
  "lines i = (ring INPUT_BUF (ibuf i) (ir i) (unat (iw i - ir i)), ring INPUT_BUF (ibuf i) (iw i) (unat (ie i - iw i)))"

definition input_ok :: "input \<Rightarrow> bool" where
  "input_ok i \<longleftrightarrow> length (ibuf i) = INPUT_BUF \<and> unat (iw i - ir i) + unat (ie i - iw i) = unat (ie i - ir i) \<and>
     unat (ie i - ir i) \<le> INPUT_BUF \<and> (\<forall>c\<in>set (snd (lines i)). c \<noteq> 10 \<and> c \<noteq> 4)"

interpretation cr: ring_size INPUT_BUF
  by unfold_locales simp_all

text \<open>Taking back the last character of the line.\<close>

lemma input_erase:
  assumes "input_ok i" "ie i \<noteq> iw i"
  shows "lines (i\<lparr>ie := ie i - 1\<rparr>) = (fst (lines i), butlast (snd (lines i)))" "input_ok (i\<lparr>ie := ie i - 1\<rparr>)"
    "ibuf i ! (unat (ie i - 1) mod INPUT_BUF) = last (snd (lines i))" "snd (lines i) \<noteq> []"
proof -
  obtain n where n: "unat (ie i - iw i) = Suc n" "unat (ie i - 1 - iw i) = n" using ahead_minus(2) [OF assms(2)] by blast
  have "ie i - 1 = iw i + of_nat n" unfolding n(2) [symmetric] by simp
  then have l: "snd (lines i) = ring INPUT_BUF (ibuf i) (iw i) n @ [ibuf i ! (unat (ie i - 1) mod INPUT_BUF)]"
    using n(1) by (simp add: lines_def ring_snoc)
  then show "ibuf i ! (unat (ie i - 1) mod INPUT_BUF) = last (snd (lines i))" "snd (lines i) \<noteq> []" by simp_all
  show e: "lines (i\<lparr>ie := ie i - 1\<rparr>) = (fst (lines i), butlast (snd (lines i)))" using l n(2) by (simp add: lines_def)
  have "ie i \<noteq> ir i" using assms(1) n(1) by (auto simp: input_ok_def)
  then have "unat (ie i - ir i) = Suc (unat (ie i - 1 - ir i))" by (rule ahead_minus(2))
  then show "input_ok (i\<lparr>ie := ie i - 1\<rparr>)" using assms(1) n e by (auto simp: input_ok_def in_set_butlastD)
qed

text \<open>Storing a character at the end of the line, and handing the line over.\<close>

lemma input_store:
  fixes x :: u8
  assumes "input_ok i" "unat (ie i - ir i) < INPUT_BUF"
  defines "j \<equiv> i\<lparr>ibuf := (ibuf i)[unat (ie i) mod INPUT_BUF := x], ie := ie i + 1\<rparr>"
  shows "lines j = (fst (lines i), snd (lines i) @ [x])" "length (ibuf j) = INPUT_BUF"
    "unat (iw j - ir j) + unat (ie j - iw j) = unat (ie j - ir j)" "unat (ie j - ir j) = Suc (unat (ie i - ir i))"
proof -
  define a b where "a = unat (iw i - ir i)" and "b = unat (ie i - iw i)"
  have i: "length (ibuf i) = INPUT_BUF" "a + b = unat (ie i - ir i)" using assms(1) by (auto simp: input_ok_def a_def b_def)
  have w: "iw i = ir i + of_nat a" unfolding a_def by simp
  have e: "ie i = ir i + of_nat (a + b)" unfolding i(2) by simp
  have ab: "a + b < INPUT_BUF" using assms(2) i(2) by simp
  have all: "fst (lines i) @ snd (lines i) = ring INPUT_BUF (ibuf i) (ir i) (a + b)"
    unfolding ring_append w [symmetric] by (simp add: lines_def a_def b_def)
  have e1: "unat (ie j - ir j) = Suc (a + b)" "unat (ie j - iw j) = Suc b"
    using ahead_Suc [of "ie i" "ir i"] ahead_Suc [of "ie i" "iw i"] assms(2) i(2) by (simp_all add: j_def b_def)
  have "fst (lines j) @ snd (lines j) = ring INPUT_BUF (ibuf j) (ir i) (a + Suc b)"
    unfolding ring_append w [symmetric] using e1(2) by (simp add: lines_def j_def a_def)
  also have "\<dots> = ring INPUT_BUF (ibuf i) (ir i) (a + b) @ [x]"
    using cr.store_snoc [OF i(1), of "a + b" "ir i" x, folded e] ab by (simp add: j_def)
  finally have "fst (lines j) @ snd (lines j) = fst (lines i) @ snd (lines i) @ [x]" using all by simp
  moreover have "length (fst (lines j)) = length (fst (lines i))" by (simp add: lines_def j_def)
  ultimately show "lines j = (fst (lines i), snd (lines i) @ [x])" by (metis append_eq_append_conv prod.collapse)
  show "length (ibuf j) = INPUT_BUF" using i(1) by (simp add: j_def)
  show "unat (iw j - ir j) + unat (ie j - iw j) = unat (ie j - ir j)" "unat (ie j - ir j) = Suc (unat (ie i - ir i))"
    using e1 i(2) by (simp_all add: a_def j_def)
qed

lemma input_finish:
  assumes "length (ibuf i) = INPUT_BUF" "unat (iw i - ir i) + unat (ie i - iw i) = unat (ie i - ir i)"
    "unat (ie i - ir i) \<le> INPUT_BUF"
  shows "lines (i\<lparr>iw := ie i\<rparr>) = (fst (lines i) @ snd (lines i), [])" "input_ok (i\<lparr>iw := ie i\<rparr>)"
proof -
  have "iw i = ir i + of_nat (unat (iw i - ir i))" by simp
  then have "ring INPUT_BUF (ibuf i) (ir i) (unat (iw i - ir i) + unat (ie i - iw i)) = fst (lines i) @ snd (lines i)"
    by (simp add: ring_append lines_def)
  then show "lines (i\<lparr>iw := ie i\<rparr>) = (fst (lines i) @ snd (lines i), [])" using assms(2) by (simp add: lines_def)
  then show "input_ok (i\<lparr>iw := ie i\<rparr>)" using assms(1,3) by (simp add: input_ok_def)
qed

text \<open>The loop of control-U takes the whole line back, since it has no newline in it.\<close>

lemma kill_line_erases:
  "screen_ok s \<Longrightarrow> input_ok (inp s) \<Longrightarrow>
   \<exists>t. kill_line s = Inr t \<and> screen_ok t \<and> input_ok (inp t) \<and> lines (inp t) = (fst (lines (inp s)), [])"
proof (induction "unat (ie (inp s) - iw (inp s))" arbitrary: s)
  case 0
  then have "ie (inp s) = iw (inp s)" by (simp add: unat_eq_0)
  then show ?case using 0 by (subst kill_line.simps) (simp add: Let_def lines_def)
next
  case (Suc n)
  let ?i = "(inp s)\<lparr>ie := ie (inp s) - 1\<rparr>"
  have ne: "ie (inp s) \<noteq> iw (inp s)" using Suc(2) by auto
  note er = input_erase [OF Suc.prems(2) ne]
  have nl: "ibuf (inp s) ! (unat (ie (inp s) - 1) mod INPUT_BUF) \<noteq> 10"
    using er(3,4) Suc.prems(2) last_in_set by (fastforce simp: input_ok_def)
  have "screen_ok (s\<lparr>inp := ?i\<rparr>)" using Suc.prems(1) by (simp add: screen_ok_def)
  then obtain u where u: "consputc BACKSPACE (s\<lparr>inp := ?i\<rparr>) = Inr u" "screen_ok u" "inp u = ?i" using consputc_char by fastforce
  then have "n = unat (ie (inp u) - iw (inp u))" using Suc(2) ahead_minus(2) [OF ne] by simp
  from Suc(1) [OF this u(2)] obtain t where t: "kill_line u = Inr t" "screen_ok t" "input_ok (inp t)" "lines (inp t) = (fst (lines (inp u)), [])"
    using u(3) er(2) by auto
  then show ?case using ne nl u er(1) by (subst kill_line.simps) (simp add: Let_def)
qed

text \<open>One character: the step of \<open>consoleintr\<close> refines that of the specification.\<close>

lemma small_char: "0 \<le> x \<Longrightarrow> x < 256 \<Longrightarrow> ((word_of_int x :: u8) = 10 \<longleftrightarrow> x = 10) \<and> ((word_of_int x :: u8) = 4 \<longleftrightarrow> x = 4)"
  by (simp add: word_uint_eq_iff uint_word_of_int)

lemma ahead_eq: "e = r + INPUT_BUF \<longleftrightarrow> unat (e - r :: u32) = INPUT_BUF"
  by (auto simp: diff_eq_eq word_unat_eq_iff [of "e - r" INPUT_BUF, simplified, symmetric] add.commute)

lemma consolechar_edits:
  assumes "screen_ok s" "input_ok (inp s)" "0 \<le> c" "c < 256"
  shows "\<exists>t. consolechar c (d, s) = Inr (d \<or> c = 16, t) \<and> screen_ok t \<and> input_ok (inp t) \<and> lines (inp t) = edit c (lines (inp s))"
proof -
  let ?i = "inp s"
  obtain q l where ql: "lines ?i = (q, l)" by (cases "lines ?i")
  have put: "\<exists>t. consputc x (s\<lparr>inp := i\<rparr>) = Inr t \<and> screen_ok t \<and> inp t = i" for x i
    using consputc_char [of "s\<lparr>inp := i\<rparr>" x] assms(1) by (simp add: screen_ok_def)
  have len: "length q + length l = unat (ie ?i - ir ?i)" using assms(2) ql by (auto simp: lines_def input_ok_def)
  have full: "ie ?i - ir ?i < INPUT_BUF \<longleftrightarrow> length q + length l < INPUT_BUF" using len by (simp add: word_less_nat_alt)
  consider "c = 16" | "c = 21" | "c = 8 \<or> c = 127" | "c \<notin> {16, 21, 8, 127}" "c = 0 \<or> \<not> ie ?i - ir ?i < INPUT_BUF"
    | "c \<notin> {16, 21, 8, 127}" "c \<noteq> 0" "ie ?i - ir ?i < INPUT_BUF" by blast
  then show ?thesis
  proof cases
    case 1
    then show ?thesis using assms ql by (simp add: consolechar_def)
  next
    case 2
    then show ?thesis using kill_line_erases [OF assms(1,2)] ql by (auto simp: consolechar_def)
  next
    case 3
    show ?thesis
    proof (cases "ie ?i = iw ?i")
      case True
      then have "l = []" using ql by (auto simp: lines_def)
      then show ?thesis using 3 True assms ql by (auto simp: consolechar_def Let_def)
    next
      case False
      obtain t where t: "consputc BACKSPACE (s\<lparr>inp := ?i\<lparr>ie := ie ?i - 1\<rparr>\<rparr>) = Inr t" "screen_ok t" "inp t = ?i\<lparr>ie := ie ?i - 1\<rparr>"
        using put by blast
      then show ?thesis using 3 False input_erase(1,2) [OF assms(2) False] ql by (auto simp: consolechar_def Let_def)
    qed
  next
    case 4
    then show ?thesis using assms ql full by (auto simp: consolechar_def Let_def)
  next
    case 5
    define x where "x = (if c = 13 then 10 else c)"
    define j where "j = store_char x ?i"
    have lt: "unat (ie ?i - ir ?i) < INPUT_BUF" using 5(3) by (simp add: word_less_nat_alt)
    note st = input_store [OF assms(2) lt, of "word_of_int x", folded store_char_def, folded j_def]
    obtain t where t: "consputc x (s\<lparr>inp := j\<rparr>) = Inr t" "screen_ok t" "inp t = j" using put by blast
    have x: "(if c = 13 then 10 else word_of_int c) = (word_of_int x :: u8)" by (simp add: x_def)
    have n: "(word_of_int x :: u8) = 10 \<longleftrightarrow> x = 10" "(word_of_int x :: u8) = 4 \<longleftrightarrow> x = 4"
      using assms(3,4) small_char [of x] by (auto simp: x_def)
    have f: "ie j = ir j + INPUT_BUF \<longleftrightarrow> length q + Suc (length l) = INPUT_BUF"
      using ahead_eq [of "ie j" "ir j"] st(4) len by simp
    have j: "lines j = (q, l @ [word_of_int x])" using st(1) ql by simp
    have fin: "lines (j\<lparr>iw := ie j\<rparr>) = (q @ l @ [word_of_int x], [])" "input_ok (j\<lparr>iw := ie j\<rparr>)"
      using input_finish [OF st(2,3)] st(4) lt j by auto
    let ?done = "x = 10 \<or> x = 4 \<or> ie j = ir j + INPUT_BUF"
    have go: "input_ok j" if "\<not> ?done" using that n j st lt assms(2) ql by (auto simp: input_ok_def)
    have "consolechar c (d, s) = bindE (consputc x (s\<lparr>inp := j\<rparr>)) (\<lambda>s1. Inr (d, if ?done then s1\<lparr>inp := j\<lparr>iw := ie j\<rparr>\<rparr> else s1))"
      using 5 by (simp add: consolechar_def Let_def x_def j_def cong: if_cong)
    then have "consolechar c (d, s) = Inr (d, if ?done then t\<lparr>inp := j\<lparr>iw := ie j\<rparr>\<rparr> else t)"
      using t(1) by simp
    moreover have "edit c (q, l) = (if ?done then (q @ l @ [word_of_int x], []) else (q, l @ [word_of_int x]))"
      using 5 full n f x by (simp add: Let_def)
    ultimately show ?thesis using t(2,3) fin go j ql 5(1) by (auto simp: screen_ok_def)
  qed
qed

lemma foldE_consolechar:
  "screen_ok s \<Longrightarrow> input_ok (inp s) \<Longrightarrow> \<forall>c\<in>set cs. 0 \<le> c \<and> c < 256 \<Longrightarrow>
   \<exists>t. foldE consolechar cs (d, s) = Inr (d \<or> 16 \<in> set cs, t) \<and> screen_ok t \<and> input_ok (inp t) \<and>
       lines (inp t) = fold edit cs (lines (inp s))"
proof (induction cs arbitrary: d s)
  case (Cons c cs)
  obtain u where u: "consolechar c (d, s) = Inr (d \<or> c = 16, u)" "screen_ok u" "input_ok (inp u)" "lines (inp u) = edit c (lines (inp s))"
    using consolechar_edits [OF Cons.prems(1,2), of c d] Cons.prems(3) by auto
  obtain t where "foldE consolechar cs (d \<or> c = 16, u) = Inr ((d \<or> c = 16) \<or> 16 \<in> set cs, t)" "screen_ok t" "input_ok (inp t)"
      "lines (inp t) = fold edit cs (lines (inp u))"
    using Cons.IH [OF u(2,3), of "d \<or> c = 16"] Cons.prems(3) by auto
  then show ?case using u(1,4) by (auto simp: disj_assoc)
qed simp

lemma consoleintr_edits:
  assumes "screen_ok s" "input_ok (inp s)" "\<forall>c\<in>set cs. c < 256"
  shows "\<exists>d t. consoleintr cs s = Inr (d, t) \<and> (d \<longleftrightarrow> 16 \<in> set (takeWhile (\<lambda>c. 0 \<le> c) cs)) \<and> screen_ok t \<and> input_ok (inp t) \<and>
           lines (inp t) = fold edit (takeWhile (\<lambda>c. 0 \<le> c) cs) (lines (inp s))"
proof -
  have "\<forall>c\<in>set (takeWhile (\<lambda>c. 0 \<le> c) cs). 0 \<le> c \<and> c < 256" using assms(3) by (auto dest: set_takeWhileD)
  from foldE_consolechar [OF assms(1,2) this, of False] show ?thesis by (auto simp: consoleintr_def)
qed

text \<open>
  C18. On the characters that the keyboard or the serial port delivers, \<open>consoleintr\<close> implements the
  line editing of the specification and keeps the invariant of the buffer and of the screen, whatever the 32-bit
  counters are; it asks for the list of processes exactly when a control-P was among the characters.
\<close>

theorem consoleintr_refines:
  assumes "screen_ok s" "input_ok (inp s)" "\<forall>c\<in>set cs. c < 256"
  shows "\<exists>d t. consoleintr cs s = Inr (d, t) \<and> (d \<longleftrightarrow> 16 \<in> set (takeWhile (\<lambda>c. 0 \<le> c) cs)) \<and> screen_ok t \<and> input_ok (inp t) \<and>
           lines (inp t) = fold edit (takeWhile (\<lambda>c. 0 \<le> c) cs) (lines (inp s))"
  using consoleintr_edits [OF assms] .

section \<open>Reading\<close>

text \<open>
  The specification of a read of \<open>n\<close> bytes from the queue: the bytes up to a newline, a control-D or the \<open>n\<close>th one.
  The newline is delivered; the control-D is taken only by a read that got nothing before it.
\<close>

definition read_queue :: "bool \<Rightarrow> nat \<Rightarrow> nat \<Rightarrow> u8 list \<Rightarrow> read_outcome \<times> u8 list \<times> u8 list" where
  "read_queue killed target n q =
     (let t = takeWhile (\<lambda>c. c \<noteq> 10 \<and> c \<noteq> 4) (take n q); k = length t in
      if k = n then (Returned (int target), t, drop n q)
      else if k = length q then (if killed then Returned (-1) else Sleeps_with (int (n - k)), t, [])
      else if q ! k = 10 then (Returned (int target - int (n - Suc k)), t @ [10], drop (Suc k) q)
      else (Returned (int target - int (n - k)), t, drop (if n - k < target then k else Suc k) q))"

lemma read_queue_Cons:
  "c \<noteq> 10 \<Longrightarrow> c \<noteq> 4 \<Longrightarrow>
   read_queue killed target (Suc n) (c # q) = (case read_queue killed target n q of (r, out, q') \<Rightarrow> (r, c # out, q'))"
  by (simp add: read_queue_def Let_def)

lemma input_consume:
  assumes "input_ok i" "ir i \<noteq> iw i"
  shows "fst (lines i) = ibuf i ! (unat (ir i) mod INPUT_BUF) # fst (lines (i\<lparr>ir := ir i + 1\<rparr>))"
    "snd (lines (i\<lparr>ir := ir i + 1\<rparr>)) = snd (lines i)" "input_ok (i\<lparr>ir := ir i + 1\<rparr>)"
proof -
  have a: "unat (iw i - ir i) = Suc (unat (iw i - (ir i + 1)))" using ahead_minus(1) [of "iw i" "ir i"] assms(2) by simp
  then show "fst (lines i) = ibuf i ! (unat (ir i) mod INPUT_BUF) # fst (lines (i\<lparr>ir := ir i + 1\<rparr>))"
    by (simp add: lines_def ring_Suc)
  show s: "snd (lines (i\<lparr>ir := ir i + 1\<rparr>)) = snd (lines i)" by (simp add: lines_def)
  have "ie i \<noteq> ir i" using a assms(1) by (auto simp: input_ok_def)
  from ahead_minus(1) [OF this] show "input_ok (i\<lparr>ir := ir i + 1\<rparr>)" using a s assms(1) by (auto simp: input_ok_def)
qed

lemma read_loop_queue:
  "input_ok i \<Longrightarrow> \<exists>r t j. read_loop killed target n out i = (r, out @ t, j) \<and> input_ok j \<and> snd (lines j) = snd (lines i) \<and>
     read_queue killed target n (fst (lines i)) = (r, t, fst (lines j))"
proof (induction n arbitrary: out i)
  case 0
  then show ?case by (simp add: read_queue_def)
next
  case (Suc n)
  show ?case
  proof (cases "ir i = iw i")
    case True
    then have "fst (lines i) = []" by (simp add: lines_def)
    then show ?thesis using Suc.prems True by (simp add: read_queue_def)
  next
    case False
    let ?j = "i\<lparr>ir := ir i + 1\<rparr>"
    define c where "c = ibuf i ! (unat (ir i) mod INPUT_BUF)"
    note c = input_consume [OF Suc.prems False, folded c_def]
    show ?thesis
    proof (cases "c = 10 \<or> c = 4")
      case True
      then show ?thesis using False c Suc.prems by (auto simp: Let_def c_def [symmetric] read_queue_def)
    next
      case False2: False
      from Suc.IH [OF c(3), of "out @ [c]"] obtain r t j where
        "read_loop killed target n (out @ [c]) ?j = (r, (out @ [c]) @ t, j)" "input_ok j" "snd (lines j) = snd (lines ?j)"
        "read_queue killed target n (fst (lines ?j)) = (r, t, fst (lines j))" by blast
      then show ?thesis using False False2 c by (simp add: Let_def c_def [symmetric] read_queue_Cons)
    qed
  qed
qed

lemma consoleread_queue:
  assumes "input_ok (inp s)" "0 < n"
  shows "\<exists>r out t. consoleread killed n s = (r, out, t) \<and> input_ok (inp t) \<and> snd (lines (inp t)) = snd (lines (inp s)) \<and>
           read_queue killed (nat n) (nat n) (fst (lines (inp s))) = (r, out, fst (lines (inp t)))"
proof -
  obtain r out j where "read_loop killed (nat n) (nat n) [] (inp s) = (r, out, j)" "input_ok j" "snd (lines j) = snd (lines (inp s))"
    "read_queue killed (nat n) (nat n) (fst (lines (inp s))) = (r, out, fst (lines j))"
    using read_loop_queue [OF assms(1), of killed "nat n" "nat n" "[]"] by auto
  then show ?thesis using assms(2) by (simp add: consoleread_def)
qed

text \<open>
  \<open>consoleread\<close> takes from the queue of finished lines what the specification says, leaves the line
  being edited alone and keeps the invariant.
\<close>

theorem consoleread_reads:
  assumes "input_ok (inp s)" "0 < n"
  shows "\<exists>r out t. consoleread killed n s = (r, out, t) \<and> input_ok (inp t) \<and> snd (lines (inp t)) = snd (lines (inp s)) \<and>
           read_queue killed (nat n) (nat n) (fst (lines (inp s))) = (r, out, fst (lines (inp t)))"
  using consoleread_queue [OF assms] .

lemma edit_text:
  "\<forall>c\<in>set cs. 32 \<le> c \<and> c < 127 \<Longrightarrow> length l + length cs < INPUT_BUF \<Longrightarrow>
   fold edit cs ([], l) = ([], l @ map word_of_int cs)"
proof (induction cs arbitrary: l)
  case (Cons c cs)
  have "(word_of_int c :: u8) \<noteq> 10" "(word_of_int c :: u8) \<noteq> 4" using Cons.prems(1) small_char [of c] by auto
  then have "edit c ([], l) = ([], l @ [word_of_int c])" using Cons.prems by (auto simp: Let_def)
  then show ?case using Cons by simp
qed simp

lemma read_queue_line:
  assumes "\<forall>c\<in>set t. c \<noteq> 10 \<and> c \<noteq> 4" "length t < n"
  shows "read_queue killed n n (t @ [10]) = (Returned (int (length t) + 1), t @ [10], [])"
proof -
  have "takeWhile (\<lambda>c. c \<noteq> 10 \<and> c \<noteq> 4) (take n (t @ [10])) = t" using assms by (simp add: takeWhile_append2)
  then show ?thesis using assms(2) by (simp add: read_queue_def Let_def)
qed

text \<open>
  C32. A line typed on an idle console is the line that the next read gets, and the console is idle
  again.
\<close>

theorem typed_line_is_read:
  assumes "screen_ok s" "input_ok (inp s)" "lines (inp s) = ([], [])"
    and "\<forall>c\<in>set cs. 32 \<le> c \<and> c < 127" "length cs < INPUT_BUF - 1" "int (length cs) < n"
  shows "\<exists>t u. consoleintr (cs @ [13]) s = Inr (False, t) \<and>
           consoleread killed n t = (Returned (int (length cs) + 1), map word_of_int cs @ [10], u) \<and> lines (inp u) = ([], [])"
proof -
  have no: "16 \<notin> set (cs @ [13])" using assms(4) by auto
  have all: "takeWhile (\<lambda>c. 0 \<le> c) (cs @ [13]) = cs @ [13]" using assms(4) by (auto simp: takeWhile_append2)
  have "fold edit (cs @ [13]) ([], []) = (map word_of_int cs @ [10], [])" using edit_text [OF assms(4), of "[]"] assms(5) by simp
  moreover have "\<forall>c\<in>set (cs @ [13]). c < 256" using assms(4) by auto
  ultimately obtain t where t: "consoleintr (cs @ [13]) s = Inr (False, t)" "input_ok (inp t)" "lines (inp t) = (map word_of_int cs @ [10], [])"
    using consoleintr_edits [OF assms(1,2), of "cs @ [13]"] assms(3) no unfolding all by auto
  have "\<forall>c\<in>set (map word_of_int cs :: u8 list). c \<noteq> 10 \<and> c \<noteq> 4" using assms(4) small_char by fastforce
  from read_queue_line [OF this, of "nat n" killed] assms(6)
  have q: "read_queue killed (nat n) (nat n) (map word_of_int cs @ [10]) = (Returned (int (length cs) + 1), map word_of_int cs @ [10], [])"
    by simp
  have "0 < n" using assms(6) by linarith
  from consoleread_queue [OF t(2) this, of killed] show ?thesis using t q by (fastforce simp: prod_eq_iff)
qed

section \<open>A console\<close>

text \<open>A fresh console whose counters are about to wrap.\<close>

definition demo_console :: console where
  "demo_console = \<lparr>inp = \<lparr>ibuf = replicate 128 0, ir = 0xFFFFFFFF, iw = 0xFFFFFFFF, ie = 0xFFFFFFFF\<rparr>, serial = [],
     crt = replicate 2000 0x0720, cpos = 0, panicked = False\<rparr>"

lemma demo_console_ok [simp]: "screen_ok demo_console" "input_ok (inp demo_console)" "lines (inp demo_console) = ([], [])"
  by (simp_all add: demo_console_def screen_ok_def input_ok_def lines_def)

theorem printint_roundtrip_witness:
  "\<exists>t out. printint 0x80000000 10 True demo_console = Inr t \<and> serial t = serial demo_console @ out \<and> read_number 10 out = - 2147483648"
  using printint_roundtrip [of demo_console 10 "0x80000000" True] demo_console_ok(1) by (auto simp: sint_cases)

theorem cprintf_returns_witness:
  "takes (str ''%d of %s'') = 2 \<and> (\<exists>t. cprintf (\<lambda>_. str ''x'') (Some (str ''%d of %s'')) [7, 0] demo_console = Inr t \<and> screen_ok t)"
  using cprintf_returns [of demo_console "str ''%d of %s''" "[7, 0]" "\<lambda>_. str ''x''"] by (auto simp: str_def of_char_def)

theorem panic_freezes_witness:
  "\<exists>t. panic (\<lambda>_. []) 0 [0x80100000] (str ''kfree'') demo_console = Inr t \<and> consputc 65 t = Inl Hang"
  using panic_freezes [of demo_console "str ''kfree''" "\<lambda>_. []" 0 "[0x80100000]"] by (auto simp: str_def of_char_def)

theorem consoleintr_refines_witness:
  "\<exists>d t. consoleintr [104, 105, 8, 106, 13, 120, -1, 7] demo_console = Inr (d, t) \<and> \<not> d \<and> lines (inp t) = ([104, 106, 10], [120])"
  using consoleintr_refines [of demo_console "[104, 105, 8, 106, 13, 120, -1, 7]"] by auto

theorem consoleread_reads_witness:
  "\<exists>t. consoleread True 5 demo_console = (Returned (-1), [], t) \<and> input_ok (inp t)"
  using consoleread_reads [of demo_console 5 True] by (auto simp: read_queue_def)

theorem typed_line_is_read_witness:
  "\<exists>t u. consoleintr [108, 115, 13] demo_console = Inr (False, t) \<and> consoleread False 100 t = (Returned 3, [108, 115, 10], u)"
  using typed_line_is_read [of demo_console "[108, 115]" 100 False] by auto

end
