(* ===== verification/Sh.thy ===== *)
theory Sh
  imports Cstring
begin

text \<open>
  The parser of the shell, \<^verbatim>\<open>sh.c\<close>.  A command line is a string without a zero byte; the pointers of the C code are
  offsets into it, and the byte behind its end is the terminating zero.  A word of a command is the pair of offsets
  that \<^verbatim>\<open>argv\<close> and \<^verbatim>\<open>eargv\<close> (or \<^verbatim>\<open>file\<close> and \<^verbatim>\<open>efile\<close>) hold; after \<^verbatim>\<open>nulterminate\<close> it is a string.  The tree is
  therefore a datatype with the words as its parameter.  Memory for the nodes is taken to be there: the code does not
  check what \<^verbatim>\<open>malloc\<close> returns.
\<close>

section \<open>Commands\<close>

datatype 'w cmd =
    Execcmd "'w list"
  | Redircmd "'w cmd" 'w int int
  | Pipecmd "'w cmd" "'w cmd"
  | Listcmd "'w cmd" "'w cmd"
  | Backcmd "'w cmd"

type_synonym word_at = "nat \<times> nat"

abbreviation (input) MAXARGS :: nat where
  "MAXARGS \<equiv> 10"

abbreviation (input) O_RDONLY :: int where
  "O_RDONLY \<equiv> 0"

abbreviation (input) O_WRONLY_CREATE :: int where
  "O_WRONLY_CREATE \<equiv> 0x201"

section \<open>Tokens\<close>

definition whitespace :: "u8 set" where
  "whitespace = {32, 9, 13, 10, 11}"

definition symbols :: "u8 set" where
  "symbols = {60, 124, 62, 38, 59, 40, 41}"

definition at :: "cstr \<Rightarrow> nat \<Rightarrow> u8" where
  "at b s = (if s < length b then b ! s else 0)"

function skipspace :: "cstr \<Rightarrow> nat \<Rightarrow> nat" where
  "skipspace b s = (if s < length b \<and> at b s \<in> whitespace then skipspace b (s + 1) else s)"
  by pat_completeness auto
termination
  by (relation "measure (\<lambda>(b, s). length b - s)") auto

function skipword :: "cstr \<Rightarrow> nat \<Rightarrow> nat" where
  "skipword b s = (if s < length b \<and> at b s \<notin> whitespace \<and> at b s \<notin> symbols then skipword b (s + 1) else s)"
  by pat_completeness auto
termination
  by (relation "measure (\<lambda>(b, s). length b - s)") auto

declare skipspace.simps [simp del] skipword.simps [simp del]

text \<open>\<^verbatim>\<open>gettoken\<close> returns the token, where it starts and ends, and where the next one starts.\<close>

definition gettoken :: "cstr \<Rightarrow> nat \<Rightarrow> u8 \<times> nat \<times> nat \<times> nat" where
  "gettoken b s =
     (let q = skipspace b s; c = at b q;
          (ret, eq) =
            (if c = 0 then (0, q)
             else if c \<in> {124, 40, 41, 59, 38, 60} then (c, q + 1)
             else if c = 62 then (if at b (q + 1) = 62 then (43, q + 2) else (62, q + 1))
             else (97, skipword b q))
      in (ret, q, eq, skipspace b eq))"

definition peek :: "cstr \<Rightarrow> nat \<Rightarrow> u8 set \<Rightarrow> bool \<times> nat" where
  "peek b s toks = (let s = skipspace b s in (at b s \<noteq> 0 \<and> at b s \<in> toks, s))"

text \<open>Progress: no token goes back, and one that is not the end goes on.\<close>

lemma skipspace_ge: "s \<le> skipspace b s"
proof (induction b s rule: skipspace.induct)
  case (1 b s)
  then show ?case by (subst skipspace.simps) auto
qed

lemma skipword_ge: "s \<le> skipword b s"
proof (induction b s rule: skipword.induct)
  case (1 b s)
  then show ?case by (subst skipword.simps) auto
qed

lemma at_nonzero: "at b s \<noteq> 0 \<Longrightarrow> s < length b"
  by (simp add: at_def split: if_splits)

lemma skipspace_stops: "at b (skipspace b s) \<notin> whitespace"
proof (induction b s rule: skipspace.induct)
  case (1 b s)
  then show ?case by (subst skipspace.simps) (auto simp: at_def whitespace_def)
qed

lemma gettoken_progress:
  assumes "gettoken b s = (tok, q, eq, s')"
  shows "s \<le> q" "q \<le> eq" "eq \<le> s'" "tok \<noteq> 0 \<Longrightarrow> q < eq \<and> q < length b"
proof -
  let ?q = "skipspace b s" and ?c = "at b (skipspace b s)"
  have w: "?q < skipword b ?q" if "?c \<noteq> 0" "?c \<notin> symbols"
    using that at_nonzero [of b ?q] skipspace_stops [of b s] skipword_ge [of "?q + 1" b] by (subst skipword.simps) auto
  have e: "q = ?q" "s' = skipspace b eq" using assms by (auto simp: gettoken_def Let_def split: if_splits prod.splits)
  then show "s \<le> q" "eq \<le> s'" using skipspace_ge by auto
  show "q \<le> eq" using assms e(1) skipword_ge [of ?q b] by (auto simp: gettoken_def Let_def split: if_splits)
  show "tok \<noteq> 0 \<Longrightarrow> q < eq \<and> q < length b" using assms e(1) w at_nonzero [of b ?q]
    by (auto simp: gettoken_def Let_def symbols_def split: if_splits)
qed

lemma gettoken_end: "gettoken b s = (0, q, eq, s') \<Longrightarrow> at b (skipspace b s) = 0"
  by (auto simp: gettoken_def Let_def split: if_splits)

lemma peek_progress: "peek b s toks = (t, s') \<Longrightarrow> s \<le> s' \<and> (t \<longrightarrow> s' < length b)"
  using skipspace_ge [of s b] at_nonzero by (auto simp: peek_def Let_def)

lemma skipspace_id: "at b s \<notin> whitespace \<Longrightarrow> skipspace b s = s"
  by (subst skipspace.simps) simp

lemma peek_gettoken:
  assumes "peek b s toks = (True, s1)" "gettoken b s1 = (tok, q, eq, s2)"
  shows "s < length b" "s < s2" "q = s1" "tok \<noteq> 0"
proof -
  have p: "at b s1 \<noteq> 0" "s1 = skipspace b s" using assms(1) by (auto simp: peek_def Let_def)
  then have "skipspace b s1 = s1" using skipspace_stops [of b s] by (simp add: skipspace_id)
  then show q: "q = s1" and tok: "tok \<noteq> 0" using assms(2) p gettoken_end [of b s1 q eq s2]
    by (auto simp: gettoken_def Let_def split: if_splits prod.splits)
  with gettoken_progress [OF assms(2)] peek_progress [OF assms(1)] show "s < length b" "s < s2" by auto
qed

section \<open>The parser\<close>

text \<open>The redirections behind a command: \<^verbatim>\<open>>>\<close> is taken like \<^verbatim>\<open>>\<close>.\<close>

function parseredirs :: "word_at cmd \<Rightarrow> cstr \<Rightarrow> nat \<Rightarrow> (word_at cmd \<times> nat) result" where
  "parseredirs c b s =
     (case peek b s {60, 62} of
        (False, s) \<Rightarrow> Inr (c, s)
      | (True, s) \<Rightarrow>
          case gettoken b s of (tok, _, _, s) \<Rightarrow>
          case gettoken b s of (ret, q, eq, s) \<Rightarrow>
          if ret \<noteq> 97 then Inl (Panic ''missing file for redirection'')
          else parseredirs (if tok = 60 then Redircmd c (q, eq) O_RDONLY 0
                            else if tok = 62 then Redircmd c (q, eq) O_WRONLY_CREATE 1
                            else if tok = 43 then Redircmd c (q, eq) O_WRONLY_CREATE 1
                            else c) b s)"
  by pat_completeness auto
termination
proof (relation "measure (\<lambda>(c, b, s). length b - s)", goal_cases)
  case (2 c b s t s1 tok x q1 y e1 s2 ret u q u2 eq s3)
  have "gettoken b s1 = (tok, q1, e1, s2)" "gettoken b s2 = (ret, q, eq, s3)" "ret = 97" using 2 by auto
  from gettoken_progress [OF this(1)] gettoken_progress [OF this(2)] this(3) peek_progress [OF 2(1) [symmetric]]
  have "s < length b" "s < s3" by auto
  then show ?case by simp
qed simp

declare parseredirs.simps [simp del]

text \<open>
  The loop of \<^verbatim>\<open>parseexec\<close>.  The pointer \<^verbatim>\<open>cmd\<close> stays at the node of the arguments while \<^verbatim>\<open>ret\<close> grows redirections
  around it; \<open>add_arg\<close> stores through it.
\<close>

fun add_arg :: "'w \<Rightarrow> 'w cmd \<Rightarrow> 'w cmd" where
  "add_arg w (Execcmd args) = Execcmd (args @ [w])"
| "add_arg w (Redircmd c f mode fd) = Redircmd (add_arg w c) f mode fd"
| "add_arg w c = c"

declare bindE_cong [fundef_cong]

function execargs :: "nat \<Rightarrow> word_at cmd \<Rightarrow> cstr \<Rightarrow> nat \<Rightarrow> (word_at cmd \<times> nat) result" where
  "execargs argc ret b s =
     (case peek b s {124, 41, 38, 59} of
        (True, s) \<Rightarrow> Inr (ret, s)
      | (False, s) \<Rightarrow>
          case gettoken b s of (tok, q, eq, s) \<Rightarrow>
          if tok = 0 then Inr (ret, s)
          else if tok \<noteq> 97 then Inl (Panic ''syntax'')
          else if argc + 1 \<ge> MAXARGS then Inl (Panic ''too many args'')
          else bindE (parseredirs (add_arg (q, eq) ret) b s) (\<lambda>(ret, s). execargs (argc + 1) ret b s))"
  by pat_completeness auto
termination
  by (relation "measure (\<lambda>(argc, ret, b, s). MAXARGS - argc)") auto

declare execargs.simps [simp del]

text \<open>The loop of \<^verbatim>\<open>parseline\<close> over the ampersands.\<close>

function backs :: "word_at cmd \<Rightarrow> cstr \<Rightarrow> nat \<Rightarrow> word_at cmd \<times> nat" where
  "backs c b s =
     (case peek b s {38} of
        (True, s) \<Rightarrow> (case gettoken b s of (_, _, _, s) \<Rightarrow> backs (Backcmd c) b s)
      | (False, s) \<Rightarrow> (c, s))"
  by pat_completeness auto
termination
proof (relation "measure (\<lambda>(c, b, s). length b - s)", goal_cases)
  case (2 c b s t s1 tok x q y eq s2)
  then have "peek b s {38} = (True, s1)" "gettoken b s1 = (tok, q, eq, s2)" by auto
  from peek_gettoken [OF this] show ?case by simp
qed simp

declare backs.simps [simp del]

function (domintros) parseline :: "cstr \<Rightarrow> nat \<Rightarrow> (word_at cmd \<times> nat) result"
  and parsepipe :: "cstr \<Rightarrow> nat \<Rightarrow> (word_at cmd \<times> nat) result"
  and parseexec :: "cstr \<Rightarrow> nat \<Rightarrow> (word_at cmd \<times> nat) result"
  and parseblock :: "cstr \<Rightarrow> nat \<Rightarrow> (word_at cmd \<times> nat) result" where
  "parseline b s =
     bindE (parsepipe b s) (\<lambda>(c, s).
     case backs c b s of (c, s) \<Rightarrow>
     case peek b s {59} of
       (True, s) \<Rightarrow> (case gettoken b s of (_, _, _, s) \<Rightarrow> bindE (parseline b s) (\<lambda>(d, s). Inr (Listcmd c d, s)))
     | (False, s) \<Rightarrow> Inr (c, s))"
| "parsepipe b s =
     bindE (parseexec b s) (\<lambda>(c, s).
     case peek b s {124} of
       (True, s) \<Rightarrow> (case gettoken b s of (_, _, _, s) \<Rightarrow> bindE (parsepipe b s) (\<lambda>(d, s). Inr (Pipecmd c d, s)))
     | (False, s) \<Rightarrow> Inr (c, s))"
| "parseexec b s =
     (case peek b s {40} of
        (True, s) \<Rightarrow> parseblock b s
      | (False, s) \<Rightarrow> bindE (parseredirs (Execcmd []) b s) (\<lambda>(ret, s). execargs 0 ret b s))"
| "parseblock b s =
     (case peek b s {40} of
        (False, s) \<Rightarrow> Inl (Panic ''parseblock'')
      | (True, s) \<Rightarrow>
          case gettoken b s of (_, _, _, s) \<Rightarrow>
          bindE (parseline b s) (\<lambda>(c, s).
          case peek b s {41} of
            (False, s) \<Rightarrow> Inl (Panic ''syntax - missing )'')
          | (True, s) \<Rightarrow> (case gettoken b s of (_, _, _, s) \<Rightarrow> parseredirs c b s)))"
  by pat_completeness auto

lemma parseredirs_ge: "parseredirs c b s = Inr (c', s') \<Longrightarrow> s \<le> s'"
proof (induction c b s rule: parseredirs.induct)
  case (1 c b s)
  obtain t s1 where p: "peek b s {60, 62} = (t, s1)" by (cases "peek b s {60, 62}")
  obtain tok q1 e1 s2 where g: "gettoken b s1 = (tok, q1, e1, s2)" by (cases "gettoken b s1")
  obtain ret q2 e2 s3 where h: "gettoken b s2 = (ret, q2, e2, s3)" by (cases "gettoken b s2")
  have "s \<le> s1" "s1 \<le> s2" "s2 \<le> s3" using peek_progress [OF p] gettoken_progress(1-3) [OF g] gettoken_progress(1-3) [OF h] by auto
  then show ?case
    using 1(2) 1(1) [OF p [symmetric] _ g [symmetric] refl refl h [symmetric] refl refl] p g h
    by (subst (asm) parseredirs.simps) (auto split: bool.splits if_splits)
qed

lemma execargs_ge: "execargs argc ret b s = Inr (c', s') \<Longrightarrow> s \<le> s'"
proof (induction argc ret b s rule: execargs.induct)
  case (1 argc ret b s)
  obtain t s1 where p: "peek b s {124, 41, 38, 59} = (t, s1)" by (cases "peek b s {124, 41, 38, 59}")
  obtain tok q e s2 where g: "gettoken b s1 = (tok, q, e, s2)" by (cases "gettoken b s1")
  have le: "s \<le> s1" "s1 \<le> s2" using peek_progress [OF p] gettoken_progress(1-3) [OF g] by auto
  show ?case
  proof (cases "t \<or> tok = 0")
    case True
    then show ?thesis using 1(2) p g le by (subst (asm) execargs.simps) (auto split: bool.splits)
  next
    case False
    then obtain c2 s3 where r: "parseredirs (add_arg (q, e) ret) b s2 = Inr (c2, s3)" "execargs (argc + 1) c2 b s3 = Inr (c', s')"
      and n: "tok = 97" "argc + 1 < MAXARGS"
      using 1(2) p g by (subst (asm) execargs.simps) (auto split: if_splits)
    have "s3 \<le> s'" using 1(1) [OF p [symmetric] _ g [symmetric] refl refl _ _ _ r(1) refl r(2)] False n by auto
    then show ?thesis using le parseredirs_ge [OF r(1)] by simp
  qed
qed

lemma backs_ge: "backs c b s = (c', s') \<Longrightarrow> s \<le> s'"
proof (induction c b s rule: backs.induct)
  case (1 c b s)
  obtain t s1 where p: "peek b s {38} = (t, s1)" by (cases "peek b s {38}")
  obtain tok q e s2 where g: "gettoken b s1 = (tok, q, e, s2)" by (cases "gettoken b s1")
  have le: "s \<le> s1" "s1 \<le> s2" using peek_progress [OF p] gettoken_progress(1-3) [OF g] by auto
  show ?case
    using 1(2) 1(1) [OF p [symmetric] _ g [symmetric] refl refl] p g le by (cases t) (subst (asm) backs.simps; auto)+
qed

lemma parse_ge_partial:
  "parseline_parsepipe_parseexec_parseblock_dom (Inl (Inl (b, s))) \<Longrightarrow> \<forall>c t. parseline b s = Inr (c, t) \<longrightarrow> s \<le> t"
  "parseline_parsepipe_parseexec_parseblock_dom (Inl (Inr (b, s))) \<Longrightarrow> \<forall>c t. parsepipe b s = Inr (c, t) \<longrightarrow> s \<le> t"
  "parseline_parsepipe_parseexec_parseblock_dom (Inr (Inl (b, s))) \<Longrightarrow> \<forall>c t. parseexec b s = Inr (c, t) \<longrightarrow> s \<le> t"
  "parseline_parsepipe_parseexec_parseblock_dom (Inr (Inr (b, s))) \<Longrightarrow> \<forall>c t. parseblock b s = Inr (c, t) \<longrightarrow> s \<le> t"
proof (induction b s and b s and b s and b s rule: parseline_parsepipe_parseexec_parseblock.pinduct)
  case (1 b s)
  show ?case
  proof (intro allI impI)
    fix c t assume r: "parseline b s = Inr (c, t)"
    obtain c1 s1 where a: "parsepipe b s = Inr (c1, s1)" using r by (auto simp: parseline.psimps [OF 1(1)])
    obtain c2 s2 where k: "backs c1 b s1 = (c2, s2)" by (cases "backs c1 b s1")
    obtain t1 s3 where p: "peek b s2 {59} = (t1, s3)" by (cases "peek b s2 {59}")
    obtain tok q e s4 where g: "gettoken b s3 = (tok, q, e, s4)" by (cases "gettoken b s3")
    have le: "s \<le> s3" "s3 \<le> s4" using 1(2) a backs_ge [OF k] peek_progress [OF p] gettoken_progress(1-3) [OF g] by auto
    show "s \<le> t"
      using r a k p g le 1(3) [OF a refl k [symmetric] p [symmetric] _ g [symmetric] refl refl]
      by (auto simp: parseline.psimps [OF 1(1)] split: bool.splits)
  qed
next
  case (2 b s)
  show ?case
  proof (intro allI impI)
    fix c t assume r: "parsepipe b s = Inr (c, t)"
    obtain c1 s1 where a: "parseexec b s = Inr (c1, s1)" using r by (auto simp: parsepipe.psimps [OF 2(1)])
    obtain t1 s3 where p: "peek b s1 {124} = (t1, s3)" by (cases "peek b s1 {124}")
    obtain tok q e s4 where g: "gettoken b s3 = (tok, q, e, s4)" by (cases "gettoken b s3")
    have le: "s \<le> s3" "s3 \<le> s4" using 2(2) a peek_progress [OF p] gettoken_progress(1-3) [OF g] by auto
    show "s \<le> t"
      using r a p g le 2(3) [OF a refl p [symmetric] _ g [symmetric] refl refl]
      by (auto simp: parsepipe.psimps [OF 2(1)] split: bool.splits)
  qed
next
  case (3 b s)
  show ?case
  proof (intro allI impI)
    fix c t assume r: "parseexec b s = Inr (c, t)"
    obtain t1 s1 where p: "peek b s {40} = (t1, s1)" by (cases "peek b s {40}")
    show "s \<le> t"
      using r p peek_progress [OF p] 3(2) [OF p [symmetric]]
      by (auto simp: parseexec.psimps [OF 3(1)] split: bool.splits dest!: parseredirs_ge execargs_ge)
  qed
next
  case (4 b s)
  show ?case
  proof (intro allI impI)
    fix c t assume r: "parseblock b s = Inr (c, t)"
    obtain t1 s1 where p: "peek b s {40} = (t1, s1)" by (cases "peek b s {40}")
    obtain tok q e s2 where g: "gettoken b s1 = (tok, q, e, s2)" by (cases "gettoken b s1")
    have t1 using r p by (simp add: parseblock.psimps [OF 4(1)] split: bool.splits)
    then obtain c3 s3 where a: "parseline b s2 = Inr (c3, s3)" using r p g by (auto simp: parseblock.psimps [OF 4(1)])
    have "s2 \<le> s3" using 4(2) [OF p [symmetric] _ g [symmetric] refl refl] \<open>t1\<close> a by auto
    obtain t4 s4 where p4: "peek b s3 {41} = (t4, s4)" by (cases "peek b s3 {41}")
    obtain tok5 q5 e5 s5 where g5: "gettoken b s4 = (tok5, q5, e5, s5)" by (cases "gettoken b s4")
    have "parseredirs c3 b s5 = Inr (c, t)" using r \<open>t1\<close> p g a p4 g5 by (auto simp: parseblock.psimps [OF 4(1)] split: bool.splits)
    from parseredirs_ge [OF this] show "s \<le> t"
      using peek_progress [OF p] gettoken_progress(1-3) [OF g] peek_progress [OF p4] gettoken_progress(1-3) [OF g5] \<open>s2 \<le> s3\<close> by auto
  qed
qed

text \<open>
  The parser terminates: a call of another level at the same offset goes down in the order line, pipe, exec, block,
  and every other call comes behind a token.
\<close>

lemma parser_terminates: "All parseline_parsepipe_parseexec_parseblock_dom"
proof (relation "inv_image (less_than <*lex*> less_than) (\<lambda>x. case x of
     Inl (Inl (b, s)) \<Rightarrow> (length b - s, 3 :: nat) | Inl (Inr (b, s)) \<Rightarrow> (length b - s, 2)
   | Inr (Inl (b, s)) \<Rightarrow> (length b - s, 1) | Inr (Inr (b, s)) \<Rightarrow> (length b - s, 0))", goal_cases)
  case (3 b s x c1 s1 c2 s2 t s3 tok u q v e s4)
  have "s \<le> s1" "s1 \<le> s2" using parse_ge_partial(2) [OF 3(9)] 3(1,2) backs_ge [OF 3(3) [symmetric]] by auto
  moreover have "s2 < length b" "s2 < s4" using peek_gettoken [of b s2 "{59}" s3 tok q e s4] 3(4-8) by auto
  ultimately show ?case by auto
next
  case (5 b s x c1 s1 t s3 tok u q v e s4)
  have "s \<le> s1" using parse_ge_partial(3) [OF 5(8)] 5(1,2) by auto
  moreover have "s1 < length b" "s1 < s4" using peek_gettoken [of b s1 "{124}" s3 tok q e s4] 5(3-7) by auto
  ultimately show ?case by auto
next
  case (6 b s t s1)
  then have "s \<le> s1" using peek_progress [OF 6(1) [symmetric]] by simp
  then show ?case by auto
next
  case (7 b s t s1 tok u q v e s2)
  then show ?case using peek_gettoken [of b s "{40}" s1 tok q e s2] by auto
qed auto

termination parseline
  by (rule parser_terminates)

declare parseline.simps [simp del] parsepipe.simps [simp del] parseexec.simps [simp del] parseblock.simps [simp del]

lemmas parseline_ge = parse_ge_partial(1) [OF parser_terminates [rule_format], rule_format]
lemmas parsepipe_ge = parse_ge_partial(2) [OF parser_terminates [rule_format], rule_format]
lemmas parseexec_ge = parse_ge_partial(3) [OF parser_terminates [rule_format], rule_format]

text \<open>
  \<^verbatim>\<open>parsecmd\<close> takes the string at the start of its buffer.  \<^verbatim>\<open>nulterminate\<close> stores a zero behind every word of the
  tree; the words are then the strings at their first bytes.
\<close>

fun nulterminate :: "word_at cmd \<Rightarrow> cstr \<Rightarrow> cstr" where
  "nulterminate (Execcmd args) buf = fold (\<lambda>(q, eq) buf. buf[eq := 0]) args buf"
| "nulterminate (Redircmd c (q, eq) mode fd) buf = (nulterminate c buf)[eq := 0]"
| "nulterminate (Pipecmd l r) buf = nulterminate r (nulterminate l buf)"
| "nulterminate (Listcmd l r) buf = nulterminate r (nulterminate l buf)"
| "nulterminate (Backcmd c) buf = nulterminate c buf"

definition parsecmd :: "cstr \<Rightarrow> (word_at cmd \<times> cstr) result" where
  "parsecmd buf =
     (let b = takeWhile (\<lambda>c. c \<noteq> 0) buf in
      bindE (parseline b 0) (\<lambda>(c, s).
      let s = snd (peek b s {}) in
      if s \<noteq> length b then Inl (Panic ''syntax'') else Inr (c, nulterminate c buf)))"

definition string_at :: "cstr \<Rightarrow> word_at \<Rightarrow> cstr" where
  "string_at buf = (\<lambda>(q, eq). takeWhile (\<lambda>c. c \<noteq> 0) (drop q buf))"

section \<open>What the parser builds\<close>

text \<open>
  A word is a stretch of ordinary characters that ends at a blank, a symbol or the end of the line.  A node has fewer
  than \<^verbatim>\<open>MAXARGS\<close> arguments, and a redirection reads descriptor 0 or writes descriptor 1.
\<close>

definition delimiter :: "u8 \<Rightarrow> bool" where
  "delimiter c \<longleftrightarrow> c \<in> whitespace \<or> c \<in> symbols"

definition word_ok :: "cstr \<Rightarrow> word_at \<Rightarrow> bool" where
  "word_ok b w = (case w of (q, eq) \<Rightarrow>
     q < eq \<and> eq \<le> length b \<and> (\<forall>i\<in>{q..<eq}. \<not> delimiter (b ! i)) \<and> (eq < length b \<longrightarrow> delimiter (b ! eq)))"

definition redir_ok :: "int \<Rightarrow> int \<Rightarrow> bool" where
  "redir_ok mode fd \<longleftrightarrow> mode = O_RDONLY \<and> fd = 0 \<or> mode = O_WRONLY_CREATE \<and> fd = 1"

fun cmd_ok :: "('w \<Rightarrow> bool) \<Rightarrow> 'w cmd \<Rightarrow> bool" where
  "cmd_ok ok (Execcmd args) \<longleftrightarrow> length args < MAXARGS \<and> list_all ok args"
| "cmd_ok ok (Redircmd c w mode fd) \<longleftrightarrow> cmd_ok ok c \<and> ok w \<and> redir_ok mode fd"
| "cmd_ok ok (Pipecmd l r) \<longleftrightarrow> cmd_ok ok l \<and> cmd_ok ok r"
| "cmd_ok ok (Listcmd l r) \<longleftrightarrow> cmd_ok ok l \<and> cmd_ok ok r"
| "cmd_ok ok (Backcmd c) \<longleftrightarrow> cmd_ok ok c"

text \<open>The number of arguments of the node inside the redirections.\<close>

fun nargs :: "'w cmd \<Rightarrow> nat option" where
  "nargs (Execcmd args) = Some (length args)"
| "nargs (Redircmd c w mode fd) = nargs c"
| "nargs c = None"

lemma skipword_word:
  "s \<le> length b \<Longrightarrow> (\<forall>i\<in>{s..<skipword b s}. \<not> delimiter (b ! i)) \<and> skipword b s \<le> length b \<and>
     (skipword b s < length b \<longrightarrow> delimiter (b ! skipword b s))"
proof (induction b s rule: skipword.induct)
  case (1 b s)
  show ?case
  proof (cases "s < length b \<and> at b s \<notin> whitespace \<and> at b s \<notin> symbols")
    case True
    then have e: "skipword b s = skipword b (s + 1)" by (subst skipword.simps) simp
    have d: "\<not> delimiter (b ! s)" using True by (auto simp: delimiter_def at_def)
    have "\<not> delimiter (b ! i)" if "i \<in> {s..<skipword b (s + 1)}" for i
      using that d 1(1) [OF True] True by (cases "i = s") auto
    then show ?thesis unfolding e using 1(1) [OF True] True by auto
  next
    case False
    then have "skipword b s = s" by (subst skipword.simps) auto
    then show ?thesis using False 1(2) by (auto simp: delimiter_def at_def)
  qed
qed

lemma gettoken_word:
  assumes "gettoken b s = (97, q, eq, s')"
  shows "word_ok b (q, eq)"
proof -
  have "q = skipspace b s" "eq = skipword b q" using assms by (auto simp: gettoken_def Let_def split: if_splits prod.splits)
  moreover have "q < eq" "q < length b" using gettoken_progress(4) [OF assms] by auto
  ultimately show ?thesis using skipword_word [of q b] by (auto simp: word_ok_def)
qed

lemma parseredirs_ok:
  "parseredirs c b s = Inr (c', s') \<Longrightarrow> cmd_ok (word_ok b) c \<Longrightarrow> cmd_ok (word_ok b) c' \<and> nargs c' = nargs c"
proof (induction c b s rule: parseredirs.induct)
  case (1 c b s)
  obtain t s1 where p: "peek b s {60, 62} = (t, s1)" by (cases "peek b s {60, 62}")
  obtain tok q1 e1 s2 where g: "gettoken b s1 = (tok, q1, e1, s2)" by (cases "gettoken b s1")
  obtain ret q2 e2 s3 where h: "gettoken b s2 = (ret, q2, e2, s3)" by (cases "gettoken b s2")
  show ?case
  proof (cases t)
    case True
    then have r: "ret = 97" using 1(2) p g h by (subst (asm) parseredirs.simps) (auto split: if_splits)
    have "word_ok b (q2, e2)" using gettoken_word h r by simp
    then show ?thesis
      using 1(2,3) 1(1) [OF p [symmetric] _ g [symmetric] refl refl h [symmetric] refl refl] p g h r True
      by (subst (asm) (1) parseredirs.simps) (auto simp: redir_ok_def)
  next
    case False
    then show ?thesis using 1(2,3) p by (subst (asm) parseredirs.simps) simp
  qed
qed

lemma add_arg_ok:
  "cmd_ok ok c \<Longrightarrow> nargs c = Some n \<Longrightarrow> ok w \<Longrightarrow> n + 1 < MAXARGS \<Longrightarrow> cmd_ok ok (add_arg w c) \<and> nargs (add_arg w c) = Some (n + 1)"
  by (induction c) auto

lemma execargs_ok:
  "execargs argc ret b s = Inr (c', s') \<Longrightarrow> cmd_ok (word_ok b) ret \<Longrightarrow> nargs ret = Some argc \<Longrightarrow> cmd_ok (word_ok b) c'"
proof (induction argc ret b s rule: execargs.induct)
  case (1 argc ret b s)
  obtain t s1 where p: "peek b s {124, 41, 38, 59} = (t, s1)" by (cases "peek b s {124, 41, 38, 59}")
  obtain tok q e s2 where g: "gettoken b s1 = (tok, q, e, s2)" by (cases "gettoken b s1")
  show ?case
  proof (cases "t \<or> tok = 0")
    case True
    then show ?thesis using 1(2,3) p g by (subst (asm) execargs.simps) (auto split: bool.splits)
  next
    case False
    then obtain c2 s3 where r: "parseredirs (add_arg (q, e) ret) b s2 = Inr (c2, s3)" "execargs (argc + 1) c2 b s3 = Inr (c', s')"
      and n: "tok = 97" "argc + 1 < MAXARGS"
      using 1(2) p g by (subst (asm) execargs.simps) (auto split: if_splits)
    have "word_ok b (q, e)" using gettoken_word g n(1) by simp
    note c2 = parseredirs_ok [OF r(1)] add_arg_ok [OF 1(3,4) this n(2)]
    then show ?thesis using 1(1) [OF p [symmetric] _ g [symmetric] refl refl _ _ _ r(1) refl r(2)] False n by auto
  qed
qed

lemma backs_ok: "backs c b s = (c', s') \<Longrightarrow> cmd_ok ok c \<Longrightarrow> cmd_ok ok c'"
proof (induction c b s rule: backs.induct)
  case (1 c b s)
  obtain t s1 where p: "peek b s {38} = (t, s1)" by (cases "peek b s {38}")
  obtain tok q e s2 where g: "gettoken b s1 = (tok, q, e, s2)" by (cases "gettoken b s1")
  show ?case
    using 1(2,3) 1(1) [OF p [symmetric] _ g [symmetric] refl refl] p g by (cases t) (subst (asm) backs.simps; auto)+
qed

lemma parse_ok:
  "\<forall>c t. parseline b s = Inr (c, t) \<longrightarrow> cmd_ok (word_ok b) c"
  "\<forall>c t. parsepipe b s = Inr (c, t) \<longrightarrow> cmd_ok (word_ok b) c"
  "\<forall>c t. parseexec b s = Inr (c, t) \<longrightarrow> cmd_ok (word_ok b) c"
  "\<forall>c t. parseblock b s = Inr (c, t) \<longrightarrow> cmd_ok (word_ok b) c"
proof (induction b s and b s and b s and b s rule: parseline_parsepipe_parseexec_parseblock.induct)
  case (1 b s)
  show ?case
  proof (intro allI impI)
    fix c t assume r: "parseline b s = Inr (c, t)"
    obtain c1 s1 where a: "parsepipe b s = Inr (c1, s1)" using r by (subst (asm) parseline.simps) auto
    obtain c2 s2 where k: "backs c1 b s1 = (c2, s2)" by (cases "backs c1 b s1")
    obtain t1 s3 where p: "peek b s2 {59} = (t1, s3)" by (cases "peek b s2 {59}")
    obtain tok q e s4 where g: "gettoken b s3 = (tok, q, e, s4)" by (cases "gettoken b s3")
    show "cmd_ok (word_ok b) c"
      using r a k p g 1(1) 1(2) [OF a refl k [symmetric] p [symmetric] _ g [symmetric] refl refl] backs_ok [OF k]
      by (subst (asm) (1) parseline.simps) (auto split: bool.splits)
  qed
next
  case (2 b s)
  show ?case
  proof (intro allI impI)
    fix c t assume r: "parsepipe b s = Inr (c, t)"
    obtain c1 s1 where a: "parseexec b s = Inr (c1, s1)" using r by (subst (asm) parsepipe.simps) auto
    obtain t1 s3 where p: "peek b s1 {124} = (t1, s3)" by (cases "peek b s1 {124}")
    obtain tok q e s4 where g: "gettoken b s3 = (tok, q, e, s4)" by (cases "gettoken b s3")
    show "cmd_ok (word_ok b) c"
      using r a p g 2(1) 2(2) [OF a refl p [symmetric] _ g [symmetric] refl refl]
      by (subst (asm) (1) parsepipe.simps) (auto split: bool.splits)
  qed
next
  case (3 b s)
  obtain t1 s1 where p: "peek b s {40} = (t1, s1)" by (cases "peek b s {40}")
  show ?case
    using p 3 [OF p [symmetric]] by (subst parseexec.simps) (auto split: bool.splits dest!: execargs_ok parseredirs_ok)
next
  case (4 b s)
  show ?case
  proof (intro allI impI)
    fix c t assume r: "parseblock b s = Inr (c, t)"
    obtain t1 s1 where p: "peek b s {40} = (t1, s1)" by (cases "peek b s {40}")
    obtain tok q e s2 where g: "gettoken b s1 = (tok, q, e, s2)" by (cases "gettoken b s1")
    have t1 using r p by (subst (asm) parseblock.simps) (simp split: bool.splits)
    then obtain c3 s3 where a: "parseline b s2 = Inr (c3, s3)" using r p g by (subst (asm) parseblock.simps) auto
    have ok: "cmd_ok (word_ok b) c3" using 4 [OF p [symmetric] _ g [symmetric] refl refl] \<open>t1\<close> a by auto
    obtain s5 where "parseredirs c3 b s5 = Inr (c, t)"
      using r \<open>t1\<close> p g a by (subst (asm) parseblock.simps) (auto split: bool.splits prod.splits)
    from parseredirs_ok [OF this ok] show "cmd_ok (word_ok b) c" ..
  qed
qed

text \<open>
  What \<open>nulterminate\<close> does: it stores zeros at the ends of the words, which are never inside a word.
\<close>

lemma fold_zeros:
  "length (fold (\<lambda>(q, eq) buf. buf[eq := 0]) args buf) = length buf \<and>
   (i < length buf \<longrightarrow> fold (\<lambda>(q, eq) buf. buf[eq := 0]) args buf ! i = (if i \<in> snd ` set args then 0 else buf ! i))"
proof (induction args arbitrary: buf)
  case (Cons a args)
  then show ?case by (cases a; cases "i = snd a") simp_all
qed simp

lemma nulterminate_length [simp]: "length (nulterminate c buf) = length buf"
  by (induction c buf rule: nulterminate.induct) (simp_all add: fold_zeros)

lemma nulterminate_nth:
  "i < length buf \<Longrightarrow> nulterminate c buf ! i = (if i \<in> snd ` set_cmd c then 0 else buf ! i)"
proof (induction c buf rule: nulterminate.induct)
  case (1 args buf)
  then show ?case using fold_zeros [of args buf i] by simp
next
  case (2 c q eq mode fd buf)
  then show ?case by (cases "i = eq") auto
qed auto

lemma set_cmd_ok: "cmd_ok ok c \<Longrightarrow> w \<in> set_cmd c \<Longrightarrow> ok w"
  by (induction c) (auto simp: list_all_iff)

definition text_of :: "cstr \<Rightarrow> word_at \<Rightarrow> cstr" where
  "text_of b = (\<lambda>(q, eq). take (eq - q) (drop q b))"

lemma string_at_nulterminate:
  assumes ok: "cmd_ok (word_ok b) c" and w: "w \<in> set_cmd c" and b: "b = takeWhile (\<lambda>c. c \<noteq> 0) buf"
  shows "string_at (nulterminate c buf) w = text_of b w"
proof -
  let ?z = "nulterminate c buf"
  obtain q eq where e: "w = (q, eq)" by (cases w)
  have wo: "q < eq" "eq \<le> length b" "\<forall>i\<in>{q..<eq}. \<not> delimiter (b ! i)" using set_cmd_ok [OF ok w] e by (auto simp: word_ok_def)
  have len: "length b \<le> length buf" using b by (simp add: length_takeWhile_le)
  have nb: "buf ! i = b ! i" "b ! i \<noteq> 0" if "i < length b" for i
    using that b nth_mem [of i b] by (auto simp: takeWhile_nth dest: set_takeWhileD)
  have out: "i \<notin> snd ` set_cmd c" if i: "i \<in> {q..<eq}" for i
  proof
    assume "i \<in> snd ` set_cmd c"
    then obtain q' where "word_ok b (q', i)" using set_cmd_ok [OF ok] by force
    then have "delimiter (b ! i)" using i wo(2) by (auto simp: word_ok_def)
    then show False using wo(3) i by blast
  qed
  have in_word: "?z ! i = b ! i" "?z ! i \<noteq> 0" if "i \<in> {q..<eq}" for i
    using that out [OF that] nb [of i] wo(2) len by (auto simp: nulterminate_nth)
  have stop: "?z ! eq = 0" if "eq < length buf" using that w e by (force simp: nulterminate_nth)
  have "takeWhile (\<lambda>c. c \<noteq> 0) (drop q ?z) = take (eq - q) (drop q ?z)"
    by (rule takeWhile_eq_take_P_nth) (use in_word(2) stop wo(1) in \<open>auto\<close>)
  also have "\<dots> = take (eq - q) (drop q b)"
    by (rule nth_equalityI) (use in_word(1) wo(1,2) len in auto)
  finally show ?thesis by (simp add: e string_at_def text_of_def)
qed

text \<open>
  C19. A command that \<open>parsecmd\<close> returns is well formed: every word is a nonempty stretch of ordinary characters
  inside the line, every program has fewer than \<^verbatim>\<open>MAXARGS\<close> arguments, so that the null behind them fits in
  \<^verbatim>\<open>argv\<close>, and every redirection is of descriptor 0 for reading or 1 for writing; and after the zeros have been
  stored, each word reads as the text it was in the line, whatever the other words are.
\<close>

theorem parsecmd_well_formed:
  assumes "parsecmd buf = Inr (c, buf')"
  shows "cmd_ok (word_ok (takeWhile (\<lambda>x. x \<noteq> 0) buf)) c \<and>
         (\<forall>w\<in>set_cmd c. string_at buf' w = text_of (takeWhile (\<lambda>x. x \<noteq> 0) buf) w)"
proof -
  let ?b = "takeWhile (\<lambda>x. x \<noteq> 0) buf"
  obtain s where "parseline ?b 0 = Inr (c, s)" and z: "buf' = nulterminate c buf"
    using assms by (auto simp: parsecmd_def Let_def split: if_splits)
  then have "cmd_ok (word_ok ?b) c" using parse_ok(1) by blast
  then show ?thesis using string_at_nulterminate z by blast
qed

lemma parse_ls: "parsecmd (str ''ls >f'' @ [0]) = Inr (Redircmd (Execcmd [(0, 2)]) (4, 5) O_WRONLY_CREATE 1, [108, 115, 0, 62, 102, 0])"
  by code_simp

theorem parsecmd_well_formed_witness:
  "string_at [108, 115, 0, 62, 102, 0] (0, 2) = str ''ls'' \<and> string_at [108, 115, 0, 62, 102, 0] (4, 5) = str ''f''"
  using parsecmd_well_formed [OF parse_ls] by (simp add: text_of_def str_def of_char_def)

end
