(* ===== verification/Sh_Print.thy ===== *)
theory Sh_Print
  imports Sh
begin

text \<open>
  A printer for commands and the round trip through the parser of \<^verbatim>\<open>sh.c\<close>: every tree of commands whose words are
  words, with at most nine arguments and the two kinds of redirection, is the parse of its printed form.
\<close>

section \<open>The printer\<close>

text \<open>
  The levels are those of the parser: 0 for \<^verbatim>\<open>parseexec\<close>, 1 for \<^verbatim>\<open>parsepipe\<close>, 2 for the loop of \<^verbatim>\<open>parseline\<close> over
  ampersands, 3 for \<^verbatim>\<open>parseline\<close>.  A command of a higher level is put in parentheses.
\<close>

definition paren :: "bool \<Rightarrow> cstr \<Rightarrow> cstr" where
  "paren p t = (if p then 40 # t @ [41] else t)"

definition show_redir :: "cstr \<Rightarrow> int \<Rightarrow> cstr" where
  "show_redir w mode = (if mode = O_RDONLY then 60 else 62) # w @ [32]"

fun show_cmd :: "nat \<Rightarrow> cstr cmd \<Rightarrow> cstr" where
  "show_cmd n (Execcmd args) = concat (map (\<lambda>w. w @ [32]) args)"
| "show_cmd n (Redircmd c w mode fd) = show_cmd 0 c @ show_redir w mode"
| "show_cmd n (Pipecmd l r) = paren (n < 1) (show_cmd 0 l @ 124 # show_cmd 1 r)"
| "show_cmd n (Backcmd c) = paren (n < 2) (show_cmd 2 c @ [38])"
| "show_cmd n (Listcmd l r) = paren (n < 3) (show_cmd 2 l @ 59 # show_cmd 3 r)"

definition plain_word :: "cstr \<Rightarrow> bool" where
  "plain_word w \<longleftrightarrow> w \<noteq> [] \<and> (\<forall>c\<in>set w. c \<noteq> 0 \<and> \<not> delimiter c)"

section \<open>Tokens of a printed line\<close>

lemma drop_Cons_at:
  assumes "drop s b = x # xs"
  shows "s < length b" "at b s = x" "drop (Suc s) b = xs"
proof -
  show l: "s < length b" using assms by (metis drop_all leI list.distinct(1))
  show "at b s = x" using assms l by (simp add: at_def hd_drop_conv_nth [symmetric])
  show "drop (Suc s) b = xs" using assms by (metis drop_Suc list.sel(3) tl_drop)
qed

lemma drop_Nil_at: "drop s b = [] \<Longrightarrow> at b s = 0"
  by (simp add: at_def)

lemma skipspace_drop: "drop (skipspace b s) b = dropWhile (\<lambda>c. c \<in> whitespace) (drop s b)"
proof (induction b s rule: skipspace.induct)
  case (1 b s)
  show ?case
  proof (cases "drop s b")
    case Nil
    then have "skipspace b s = s" by (subst skipspace.simps) simp
    then show ?thesis using Nil by simp
  next
    case (Cons x xs)
    note d = drop_Cons_at [OF this]
    show ?thesis
    proof (cases "x \<in> whitespace")
      case True
      then have "skipspace b s = skipspace b (s + 1)" using d by (subst skipspace.simps) simp
      then show ?thesis using 1 True d Cons by simp
    next
      case False
      then show ?thesis using d Cons by (simp add: skipspace_id)
    qed
  qed
qed

lemma skipspace_le: "s \<le> length b \<Longrightarrow> skipspace b s \<le> length b"
proof (induction b s rule: skipspace.induct)
  case (1 b s)
  then show ?case by (subst skipspace.simps) auto
qed

lemma skipspace_none: "drop s b = [] \<or> hd (drop s b) \<notin> whitespace \<Longrightarrow> skipspace b s = s"
  by (cases "drop s b") (auto simp: drop_Cons_at drop_Nil_at whitespace_def intro!: skipspace_id)

lemma skipword_drop:
  "drop s b = w @ r \<Longrightarrow> \<forall>c\<in>set w. \<not> delimiter c \<Longrightarrow> r = [] \<or> delimiter (hd r) \<Longrightarrow> skipword b s = s + length w"
proof (induction w arbitrary: s)
  case Nil
  show ?case
  proof (cases r)
    case Nil
    then show ?thesis using Nil.prems by (subst skipword.simps) simp
  next
    case (Cons x xs)
    then show ?thesis using Nil.prems drop_Cons_at [of s b x xs] by (subst skipword.simps) (auto simp: delimiter_def)
  qed
next
  case (Cons c w)
  note d = drop_Cons_at [of s b c "w @ r"]
  have "skipword b (s + 1) = s + 1 + length w" using Cons d by simp
  then show ?case using Cons.prems d by (subst skipword.simps) (auto simp: delimiter_def)
qed

lemma gettoken_plain:
  assumes "drop s b = w @ r" "plain_word w" "r = [] \<or> delimiter (hd r)"
  shows "gettoken b s = (97, s, s + length w, skipspace b (s + length w))" "text_of b (s, s + length w) = w"
proof -
  obtain c w' where w: "w = c # w'" using assms(2) by (cases w) (auto simp: plain_word_def)
  have c: "c \<noteq> 0" "\<not> delimiter c" using assms(2) w by (auto simp: plain_word_def)
  note d = drop_Cons_at [of s b c "w' @ r"]
  have "skipspace b s = s" using assms(1) w c by (intro skipspace_none) (simp add: delimiter_def)
  moreover have "skipword b s = s + length w" using assms by (intro skipword_drop [OF assms(1)]) (auto simp: plain_word_def)
  ultimately show "gettoken b s = (97, s, s + length w, skipspace b (s + length w))"
    using d assms(1) w c by (simp add: gettoken_def Let_def delimiter_def symbols_def)
  show "text_of b (s, s + length w) = w" using assms(1) by (simp add: text_of_def)
qed

lemma gettoken_symbol:
  assumes "drop s b = c # r" "c \<in> {124, 40, 41, 59, 38, 60} \<or> c = 62 \<and> (r = [] \<or> hd r \<noteq> 62)"
  shows "gettoken b s = (c, s, s + 1, skipspace b (s + 1))"
proof -
  note d = drop_Cons_at [OF assms(1)]
  have "skipspace b s = s" using assms by (intro skipspace_none) (auto simp: whitespace_def)
  moreover have "at b (s + 1) \<noteq> 62" if "c = 62"
    using assms(2) that d(3) drop_Cons_at(2) [of "Suc s" b "hd r" "tl r"] drop_Nil_at [of "Suc s" b] by (cases r) auto
  ultimately show ?thesis using assms(2) d by (auto simp: gettoken_def Let_def)
qed

lemma peek_first:
  assumes "drop s b = [] \<or> hd (drop s b) \<notin> whitespace" "0 \<notin> toks"
  shows "peek b s toks = (drop s b \<noteq> [] \<and> hd (drop s b) \<in> toks, s)"
proof (cases "drop s b")
  case Nil
  then show ?thesis using assms(2) skipspace_none [OF assms(1)] by (simp add: peek_def Let_def drop_Nil_at)
next
  case (Cons x xs)
  then show ?thesis using assms(2) skipspace_none [OF assms(1)] drop_Cons_at [OF Cons] by (auto simp: peek_def Let_def)
qed

section \<open>Words and redirections\<close>

definition ends :: "u8 set \<Rightarrow> cstr \<Rightarrow> bool" where
  "ends F t \<longleftrightarrow> t = [] \<or> hd t \<in> F"

text \<open>What may follow a command of a level.\<close>

definition follow :: "nat \<Rightarrow> u8 set" where
  "follow n = (if n = 0 then {124, 41, 38, 59} else if n = 1 then {41, 38, 59} else if n = 2 then {41, 59} else {41})"

definition wrap :: "'w cmd \<Rightarrow> 'w \<times> int \<times> int \<Rightarrow> 'w cmd" where
  "wrap c = (\<lambda>(w, mode, fd). Redircmd c w mode fd)"

definition show_redirs :: "(cstr \<times> int \<times> int) list \<Rightarrow> cstr" where
  "show_redirs rs = concat (map (\<lambda>(w, mode, fd). show_redir w mode) rs)"

definition redirs_ok :: "(cstr \<times> int \<times> int) list \<Rightarrow> bool" where
  "redirs_ok rs \<longleftrightarrow> (\<forall>(w, mode, fd)\<in>set rs. plain_word w \<and> redir_ok mode fd)"

lemma delimiter_blank: "delimiter 32"
  by (simp add: delimiter_def whitespace_def)

text \<open>Behind a word that a blank follows, the next token starts behind the blank.\<close>

lemma skip_blank:
  assumes "drop s b = w @ 32 # r" "r = [] \<or> hd r \<notin> whitespace" "s \<le> length b"
  shows "drop (skipspace b (s + length w)) b = r" "skipspace b (s + length w) \<le> length b"
proof -
  have d: "drop (s + length w) b = 32 # r" using assms(1) by (metis add.commute append_eq_conv_conj drop_drop)
  then show "drop (skipspace b (s + length w)) b = r"
    using assms(2) by (cases r) (auto simp: skipspace_drop whitespace_def)
  have "s + length w \<le> length b" using drop_Cons_at(1) [OF d] by simp
  then show "skipspace b (s + length w) \<le> length b" by (rule skipspace_le)
qed

lemma wrap_simp [simp]: "wrap c (w, mode, fd) = Redircmd c w mode fd"
  by (simp add: wrap_def)

lemma show_redir_start: "hd (show_redir w mode @ u) \<notin> whitespace"
  by (cases "mode = O_RDONLY") (simp_all add: show_redir_def whitespace_def)

lemma show_redirs_start:
  assumes "r = [] \<or> hd r \<notin> whitespace"
  shows "show_redirs rs @ r = [] \<or> hd (show_redirs rs @ r) \<notin> whitespace"
proof (cases rs)
  case (Cons x xs)
  then show ?thesis using show_redir_start [of "fst x" "fst (snd x)" "show_redirs xs @ r"] by (cases x) (simp add: show_redirs_def)
qed (use assms in \<open>simp add: show_redirs_def\<close>)

lemma parseredirs_none:
  assumes "drop s b = [] \<or> hd (drop s b) \<notin> whitespace \<union> {60, 62}"
  shows "parseredirs c b s = Inr (c, s)"
  using assms peek_first [of s b "{60, 62}"] by (subst parseredirs.simps) auto

lemma parseredirs_printed:
  "drop s b = show_redirs rs @ rest \<Longrightarrow> redirs_ok rs \<Longrightarrow> rest = [] \<or> hd rest \<notin> whitespace \<union> {60, 62} \<Longrightarrow> s \<le> length b \<Longrightarrow>
   \<exists>d t. parseredirs c b s = Inr (d, t) \<and> map_cmd (text_of b) d = foldl wrap (map_cmd (text_of b) c) rs \<and> nargs d = nargs c \<and>
     drop t b = rest \<and> t \<le> length b"
proof (induction rs arbitrary: s c)
  case Nil
  then show ?case using parseredirs_none [of s b c] by (auto simp: show_redirs_def)
next
  case (Cons r rs)
  obtain w mode fd where r: "r = (w, mode, fd)" by (cases r)
  define x where "x = (if mode = O_RDONLY then 60 else 62 :: u8)"
  have w: "plain_word w" "redir_ok mode fd" and rs: "redirs_ok rs" using Cons.prems(2) r by (auto simp: redirs_ok_def)
  have d: "drop s b = x # w @ 32 # show_redirs rs @ rest" using Cons.prems(1) r by (simp add: show_redirs_def show_redir_def x_def)
  note d1 = drop_Cons_at [OF d]
  have h: "hd (w @ u) \<notin> whitespace \<and> hd (w @ u) \<noteq> 62" for u
    using w(1) by (cases w) (auto simp: plain_word_def delimiter_def symbols_def)
  have ne: "w \<noteq> []" using w(1) by (simp add: plain_word_def)
  have sp: "skipspace b (s + 1) = s + 1" using d1(3) h by (intro skipspace_none) simp
  have g1: "gettoken b s = (x, s, s + 1, s + 1)" using gettoken_symbol [OF d] h [of "32 # show_redirs rs @ rest"] sp by (auto simp: x_def)
  have d2: "drop (s + 1) b = w @ 32 # show_redirs rs @ rest" using d1(3) by simp
  define s3 where "s3 = skipspace b (s + 1 + length w)"
  have g2: "gettoken b (s + 1) = (97, s + 1, s + 1 + length w, s3)" and tx: "text_of b (s + 1, s + 1 + length w) = w"
    using gettoken_plain [OF d2 w(1)] by (auto simp: delimiter_blank s3_def)
  have d3: "drop s3 b = show_redirs rs @ rest" "s3 \<le> length b"
    using skip_blank [OF d2] show_redirs_start [of rest rs] Cons.prems(3) d1(1) by (auto simp: s3_def)
  have p: "peek b s {60, 62} = (True, s)" using peek_first [of s b "{60, 62}"] d by (auto simp: x_def whitespace_def)
  let ?c = "Redircmd c (s + 1, s + 1 + length w) mode fd"
  have "parseredirs c b s = parseredirs ?c b s3"
    using p g1 g2 w(2) by (subst parseredirs.simps) (auto simp: x_def redir_ok_def)
  moreover obtain e t where "parseredirs ?c b s3 = Inr (e, t)" "map_cmd (text_of b) e = foldl wrap (map_cmd (text_of b) ?c) rs"
      "nargs e = nargs ?c" "drop t b = rest" "t \<le> length b"
    using Cons.IH [OF d3(1) rs Cons.prems(3) d3(2), of ?c] by blast
  ultimately show ?case using tx r by simp
qed

lemma map_add_arg: "map_cmd f (add_arg w c) = add_arg (f w) (map_cmd f c)"
  by (induction w c rule: add_arg.induct) simp_all

lemma nargs_add_arg: "nargs c = Some n \<Longrightarrow> nargs (add_arg w c) = Some (Suc n)"
  by (induction w c rule: add_arg.induct) simp_all

definition show_words :: "cstr list \<Rightarrow> cstr" where
  "show_words ws = concat (map (\<lambda>w. w @ [32]) ws)"

lemma show_words_start:
  assumes "list_all plain_word ws" "r = [] \<or> hd r \<notin> whitespace"
  shows "show_words ws @ r = [] \<or> hd (show_words ws @ r) \<notin> whitespace"
proof (cases ws)
  case (Cons w xs)
  then obtain c w' where "w = c # w'" "\<not> delimiter c" using assms(1) by (cases w) (auto simp: plain_word_def)
  then show ?thesis using Cons by (simp add: show_words_def delimiter_def)
qed (use assms in \<open>simp add: show_words_def\<close>)

lemma execargs_end:
  assumes "drop s b = [] \<or> hd (drop s b) \<in> follow 0" "s \<le> length b"
  shows "\<exists>t. execargs n ret b s = Inr (ret, t) \<and> drop t b = drop s b \<and> t \<le> length b"
proof (cases "drop s b")
  case Nil
  then have "gettoken b s = (0, s, s, s)" using skipspace_none [of s b] drop_Nil_at [of s b] by (simp add: gettoken_def)
  then show ?thesis using Nil peek_first [of s b "{124, 41, 38, 59}"] assms(2) by (subst execargs.simps) simp
next
  case (Cons x xs)
  then have "peek b s {124, 41, 38, 59} = (True, s)"
    using peek_first [of s b "{124, 41, 38, 59}"] assms(1) by (auto simp: follow_def whitespace_def)
  then show ?thesis using assms(2) by (subst execargs.simps) simp
qed

lemma execargs_printed:
  "drop s b = show_words ws @ show_redirs rs @ rest \<Longrightarrow> redirs_ok rs \<Longrightarrow> list_all plain_word ws \<Longrightarrow> ends (follow 0) rest \<Longrightarrow>
   s \<le> length b \<Longrightarrow> nargs ret = Some n \<Longrightarrow> n + length ws < MAXARGS \<Longrightarrow>
   \<exists>d t. bindE (parseredirs ret b s) (\<lambda>(ret, s). execargs n ret b s) = Inr (d, t) \<and>
     map_cmd (text_of b) d = foldl wrap (foldl (\<lambda>c w. add_arg w c) (map_cmd (text_of b) ret) ws) rs \<and> drop t b = rest \<and> t \<le> length b"
proof (induction ws arbitrary: s ret n)
  case Nil
  have f: "rest = [] \<or> hd rest \<notin> whitespace \<union> {60, 62}" using Nil.prems(4) by (auto simp: ends_def follow_def whitespace_def)
  have "drop s b = show_redirs rs @ rest" using Nil.prems(1) by (simp add: show_words_def)
  from parseredirs_printed [OF this Nil.prems(2) f Nil.prems(5), of ret] obtain d t where
    d: "parseredirs ret b s = Inr (d, t)" "map_cmd (text_of b) d = foldl wrap (map_cmd (text_of b) ret) rs" "drop t b = rest" "t \<le> length b"
    by blast
  then show ?case using execargs_end [of t b n d] Nil.prems(4) by (auto simp: ends_def)
next
  case (Cons w ws)
  let ?r = "show_words ws @ show_redirs rs @ rest"
  have w: "plain_word w" and ws: "list_all plain_word ws" using Cons.prems(3) by auto
  have d: "drop s b = w @ 32 # ?r" using Cons.prems(1) by (simp add: show_words_def)
  have h: "hd (w @ u) \<notin> whitespace \<union> symbols" for u using w by (cases w) (auto simp: plain_word_def delimiter_def)
  have "hd (drop s b) \<notin> whitespace \<union> symbols" using h d by simp
  then have h2: "hd (drop s b) \<notin> whitespace" "hd (drop s b) \<notin> {60, 62}" "hd (drop s b) \<notin> {124, 41, 38, 59}"
    by (auto simp: symbols_def)
  have "parseredirs ret b s = Inr (ret, s)" using h2 by (intro parseredirs_none) simp
  moreover have "peek b s {124, 41, 38, 59} = (False, s)" using peek_first [of s b "{124, 41, 38, 59}"] h2 by simp
  moreover define s2 where "s2 = skipspace b (s + length w)"
  moreover have "gettoken b s = (97, s, s + length w, s2)" and tx: "text_of b (s, s + length w) = w"
    using gettoken_plain [OF d w] by (auto simp: delimiter_blank s2_def)
  ultimately have e: "bindE (parseredirs ret b s) (\<lambda>(ret, s). execargs n ret b s) =
      bindE (parseredirs (add_arg (s, s + length w) ret) b s2) (\<lambda>(ret, s). execargs (n + 1) ret b s)"
    using Cons.prems(7) by (simp, subst execargs.simps) simp
  have "?r = [] \<or> hd ?r \<notin> whitespace"
    using Cons.prems(4) by (intro show_words_start [OF ws] show_redirs_start) (auto simp: ends_def follow_def whitespace_def)
  from skip_blank [OF d this Cons.prems(5)] have s2: "drop s2 b = ?r" "s2 \<le> length b" by (simp_all add: s2_def)
  from Cons.IH [OF s2(1) Cons.prems(2) ws Cons.prems(4) s2(2) nargs_add_arg [OF Cons.prems(6), of "(s, s + length w)"]] Cons.prems(7)
  show ?case unfolding e by (simp add: map_add_arg tx)
qed

section \<open>The levels of the parser\<close>

text \<open>The parse of a text \<open>t\<close> at an offset, in front of \<open>rest\<close>, gives the command \<open>c\<close>.\<close>

definition gives :: "(cstr \<Rightarrow> nat \<Rightarrow> (word_at cmd \<times> nat) result) \<Rightarrow> cstr \<Rightarrow> cstr \<Rightarrow> cstr cmd \<Rightarrow> bool" where
  "gives p t rest c \<longleftrightarrow> (\<forall>b s. drop s b = t @ rest \<longrightarrow> s \<le> length b \<longrightarrow>
     (\<exists>d s'. p b s = Inr (d, s') \<and> map_cmd (text_of b) d = c \<and> drop s' b = rest \<and> s' \<le> length b))"

lemma givesD:
  assumes "gives p t rest c" "drop s b = t @ rest" "s \<le> length b"
  obtains d s' where "p b s = Inr (d, s')" "map_cmd (text_of b) d = c" "drop s' b = rest" "s' \<le> length b"
  using assms unfolding gives_def by blast

definition parsebacks :: "cstr \<Rightarrow> nat \<Rightarrow> (word_at cmd \<times> nat) result" where
  "parsebacks b s = bindE (parsepipe b s) (\<lambda>(c, s). Inr (backs c b s))"

definition claim0 :: "cstr cmd \<Rightarrow> bool" where
  "claim0 c \<longleftrightarrow> (\<forall>rs rest. redirs_ok rs \<longrightarrow> ends (follow 0) rest \<longrightarrow>
     gives parseexec (show_cmd 0 c @ show_redirs rs) rest (foldl wrap c rs))"

definition claim1 :: "cstr cmd \<Rightarrow> bool" where
  "claim1 c \<longleftrightarrow> (\<forall>rest. ends (follow 1) rest \<longrightarrow> gives parsepipe (show_cmd 1 c) rest c)"

definition claim2 :: "cstr cmd \<Rightarrow> bool" where
  "claim2 c \<longleftrightarrow> (\<forall>k rest. ends (follow 2) rest \<longrightarrow> gives parsebacks (show_cmd 2 c @ replicate k 38) rest ((Backcmd ^^ k) c))"

definition claim3 :: "cstr cmd \<Rightarrow> bool" where
  "claim3 c \<longleftrightarrow> (\<forall>rest. ends (follow 3) rest \<longrightarrow> gives parseline (show_cmd 3 c) rest c)"

lemma ends_follow: "ends (follow m) t \<Longrightarrow> t = [] \<or> hd t \<notin> whitespace"
  by (auto simp: ends_def follow_def whitespace_def split: if_splits)

lemma gettoken_skip:
  assumes "drop s b = c # r" "c \<in> {124, 40, 41, 59, 38}" "r = [] \<or> hd r \<notin> whitespace"
  shows "gettoken b s = (c, s, s + 1, s + 1)" "drop (s + 1) b = r" "s + 1 \<le> length b"
proof -
  note d = drop_Cons_at [OF assms(1)]
  then show "drop (s + 1) b = r" "s + 1 \<le> length b" by simp_all
  have "skipspace b (s + 1) = s + 1" using assms(3) d(3) by (intro skipspace_none) simp
  then show "gettoken b s = (c, s, s + 1, s + 1)" using gettoken_symbol [OF assms(1)] assms(2) by auto
qed

lemma peek_is: "drop s b = c # r \<Longrightarrow> c \<notin> whitespace \<Longrightarrow> 0 \<notin> toks \<Longrightarrow> peek b s toks = (c \<in> toks, s)"
  using peek_first [of s b toks] by simp

lemma peek_ends: "ends (follow m) (drop s b) \<Longrightarrow> follow m \<inter> toks = {} \<Longrightarrow> 0 \<notin> toks \<Longrightarrow> peek b s toks = (False, s)"
  using peek_first [of s b toks] ends_follow [of m "drop s b"] by (auto simp: ends_def)

lemma show_cmd_start: "cmd_ok plain_word c \<Longrightarrow> r = [] \<or> hd r \<notin> whitespace \<Longrightarrow> show_cmd n c @ r = [] \<or> hd (show_cmd n c @ r) \<notin> whitespace"
proof (induction c arbitrary: n r)
  case (Execcmd args)
  then show ?case using show_words_start [of args r] by (simp add: show_words_def)
next
  case (Redircmd c w mode fd)
  then show ?case using Redircmd.IH [of "show_redir w mode @ r" 0] show_redir_start [of w mode r] by simp
next
  case (Pipecmd l r')
  then show ?case using Pipecmd.IH(1) [of "124 # show_cmd 1 r'" 0] by (auto simp: paren_def whitespace_def)
next
  case (Listcmd l r')
  then show ?case using Listcmd.IH(1) [of "59 # show_cmd 3 r'" 2] by (auto simp: paren_def whitespace_def)
next
  case (Backcmd c)
  then show ?case using Backcmd.IH [of "[38]" 2] by (auto simp: paren_def whitespace_def)
qed

text \<open>From each level to the next.\<close>

lemma claim1_of_0:
  assumes "claim0 c" "show_cmd 1 c = show_cmd 0 c"
  shows "claim1 c"
  unfolding claim1_def gives_def
proof (intro allI impI)
  fix rest b s assume f: "ends (follow 1) rest" and d: "drop s b = show_cmd 1 c @ rest" "s \<le> length b"
  have f0: "ends (follow 0) rest" using f by (auto simp: ends_def follow_def)
  have "gives parseexec (show_cmd 0 c) rest c" using assms(1) f0 by (auto simp: claim0_def redirs_ok_def show_redirs_def dest: spec [of _ "[]"])
  then obtain e t where e: "parseexec b s = Inr (e, t)" "map_cmd (text_of b) e = c" "drop t b = rest" "t \<le> length b"
    using d assms(2) by (auto elim: givesD)
  have "peek b t {124} = (False, t)" using f e(3) by (intro peek_ends [of 1]) (auto simp: follow_def)
  then have "parsepipe b s = Inr (e, t)" using e(1) by (subst parsepipe.simps) simp
  then show "\<exists>d s'. parsepipe b s = Inr (d, s') \<and> map_cmd (text_of b) d = c \<and> drop s' b = rest \<and> s' \<le> length b" using e by blast
qed

lemma backs_printed:
  "drop s b = replicate k 38 @ rest \<Longrightarrow> ends (follow 2) rest \<Longrightarrow> s \<le> length b \<Longrightarrow>
   \<exists>d t. backs c b s = (d, t) \<and> map_cmd f d = (Backcmd ^^ k) (map_cmd f c) \<and> drop t b = rest \<and> t \<le> length b"
proof (induction k arbitrary: s c)
  case 0
  then have "peek b s {38} = (False, s)" by (intro peek_ends [of 2]) (auto simp: follow_def)
  then show ?case using 0 by (subst backs.simps) simp
next
  case (Suc k)
  have d: "drop s b = 38 # replicate k 38 @ rest" using Suc.prems(1) by simp
  have h: "replicate k 38 @ rest = [] \<or> hd (replicate k 38 @ rest) \<notin> whitespace"
    using ends_follow [OF Suc.prems(2)] by (cases k) (auto simp: whitespace_def)
  note g = gettoken_skip [OF d _ h]
  have "peek b s {38} = (True, s)" using peek_is [OF d, of "{38}"] by (simp add: whitespace_def)
  then have "backs c b s = backs (Backcmd c) b (s + 1)" using g(1) by (subst backs.simps) simp
  then show ?case using Suc.IH [of "s + 1" "Backcmd c"] g(2,3) Suc.prems(2) by (simp add: funpow_swap1)
qed

lemma claim2_of_1:
  assumes "claim1 c" "show_cmd 2 c = show_cmd 1 c"
  shows "claim2 c"
  unfolding claim2_def gives_def
proof (intro allI impI)
  fix k rest b s assume f: "ends (follow 2) rest" and d: "drop s b = (show_cmd 2 c @ replicate k 38) @ rest" "s \<le> length b"
  have "ends (follow 1) (replicate k 38 @ rest)" using f by (cases k) (auto simp: ends_def follow_def)
  then have "gives parsepipe (show_cmd 1 c) (replicate k 38 @ rest) c" using assms(1) unfolding claim1_def by blast
  then obtain e t where e: "parsepipe b s = Inr (e, t)" "map_cmd (text_of b) e = c" "drop t b = replicate k 38 @ rest" "t \<le> length b"
    by (rule givesD) (use d assms(2) in auto)
  obtain e2 t2 where "backs e b t = (e2, t2)" "map_cmd (text_of b) e2 = (Backcmd ^^ k) c" "drop t2 b = rest" "t2 \<le> length b"
    using backs_printed [OF e(3) f e(4), of e "text_of b"] e(2) by auto
  then show "\<exists>d s'. parsebacks b s = Inr (d, s') \<and> map_cmd (text_of b) d = (Backcmd ^^ k) c \<and> drop s' b = rest \<and> s' \<le> length b"
    using e(1) by (simp add: parsebacks_def)
qed

text \<open>\<^verbatim>\<open>parseline\<close> in terms of its loop.\<close>

lemma parseline_backs:
  "parseline b s = bindE (parsebacks b s) (\<lambda>(c, s). case peek b s {59} of
       (True, s) \<Rightarrow> (case gettoken b s of (_, _, _, s) \<Rightarrow> bindE (parseline b s) (\<lambda>(d, s). Inr (Listcmd c d, s)))
     | (False, s) \<Rightarrow> Inr (c, s))"
  by (subst parseline.simps) (simp add: parsebacks_def bindE_assoc split_def)

lemma claim2_0: "claim2 c \<Longrightarrow> ends (follow 2) rest \<Longrightarrow> gives parsebacks (show_cmd 2 c) rest c"
  unfolding claim2_def by (metis append_Nil2 funpow_0 replicate_0)

lemma claim3_of_2:
  assumes "claim2 c" "show_cmd 3 c = show_cmd 2 c"
  shows "claim3 c"
  unfolding claim3_def gives_def
proof (intro allI impI)
  fix rest b s assume f: "ends (follow 3) rest" and d: "drop s b = show_cmd 3 c @ rest" "s \<le> length b"
  have "gives parsebacks (show_cmd 2 c) rest c" using f by (intro claim2_0 [OF assms(1)]) (auto simp: ends_def follow_def)
  then obtain e t where e: "parsebacks b s = Inr (e, t)" "map_cmd (text_of b) e = c" "drop t b = rest" "t \<le> length b"
    by (rule givesD) (use d assms(2) in auto)
  have "peek b t {59} = (False, t)" using f e(3) by (intro peek_ends [of 3]) (auto simp: follow_def)
  then have "parseline b s = Inr (e, t)" using e(1) by (subst parseline_backs) simp
  then show "\<exists>d s'. parseline b s = Inr (d, s') \<and> map_cmd (text_of b) d = c \<and> drop s' b = rest \<and> s' \<le> length b" using e by blast
qed

lemma claim0_of_3:
  assumes "claim3 c" "show_cmd 0 c = 40 # show_cmd 3 c @ [41]" "cmd_ok plain_word c"
  shows "claim0 c"
  unfolding claim0_def gives_def
proof (intro allI impI)
  fix rs rest b s
  assume r: "redirs_ok rs" and f: "ends (follow 0) rest" and d: "drop s b = (show_cmd 0 c @ show_redirs rs) @ rest" "s \<le> length b"
  let ?r = "show_redirs rs @ rest"
  have d0: "drop s b = 40 # show_cmd 3 c @ 41 # ?r" using d(1) assms(2) by simp
  have h: "show_cmd 3 c @ 41 # ?r = [] \<or> hd (show_cmd 3 c @ 41 # ?r) \<notin> whitespace"
    by (intro show_cmd_start [OF assms(3)]) (simp add: whitespace_def)
  note g = gettoken_skip [OF d0 _ h]
  have "ends (follow 3) (41 # ?r)" by (simp add: ends_def follow_def)
  then have "gives parseline (show_cmd 3 c) (41 # ?r) c" using assms(1) unfolding claim3_def by blast
  then obtain e t where e: "parseline b (s + 1) = Inr (e, t)" "map_cmd (text_of b) e = c" "drop t b = 41 # ?r" "t \<le> length b"
    by (rule givesD) (use g(2,3) in auto)
  note g2 = gettoken_skip [OF e(3) _ show_redirs_start [OF ends_follow [OF f]]]
  have "rest = [] \<or> hd rest \<notin> whitespace \<union> {60, 62}" using f by (auto simp: ends_def follow_def whitespace_def)
  from parseredirs_printed [OF g2(2) r this g2(3), of e] obtain e2 t2 where
    e2: "parseredirs e b (t + 1) = Inr (e2, t2)" "map_cmd (text_of b) e2 = foldl wrap c rs" "drop t2 b = rest" "t2 \<le> length b"
    using e(2) by auto
  have p: "peek b s {40} = (True, s)" "peek b t {41} = (True, t)"
    using peek_is [OF d0, of "{40}"] peek_is [OF e(3), of "{41}"] by (simp_all add: whitespace_def)
  then have "parseexec b s = Inr (e2, t2)"
    using g(1) e(1) g2(1) e2(1) by (subst parseexec.simps, simp, subst parseblock.simps) simp
  then show "\<exists>d s'. parseexec b s = Inr (d, s') \<and> map_cmd (text_of b) d = foldl wrap c rs \<and> drop s' b = rest \<and> s' \<le> length b"
    using e2 by blast
qed

text \<open>The constructors at their own levels.\<close>

lemma foldl_add_arg: "foldl (\<lambda>c w. add_arg w c) (Execcmd us) ws = Execcmd (us @ ws)"
  by (induction ws arbitrary: us) simp_all

lemma claim0_Execcmd:
  assumes "length args < MAXARGS" "list_all plain_word args"
  shows "claim0 (Execcmd args)"
  unfolding claim0_def gives_def
proof (intro allI impI)
  fix rs rest b s
  assume r: "redirs_ok rs" and f: "ends (follow 0) rest" and d: "drop s b = (show_cmd 0 (Execcmd args) @ show_redirs rs) @ rest" "s \<le> length b"
  have d0: "drop s b = show_words args @ show_redirs rs @ rest" using d(1) by (simp add: show_words_def)
  have h: "drop s b = [] \<or> hd (drop s b) \<notin> whitespace"
    unfolding d0 by (intro show_words_start [OF assms(2)] show_redirs_start ends_follow [OF f])
  have "drop s b = [] \<or> hd (drop s b) \<noteq> 40"
  proof (cases args)
    case Nil
    then show ?thesis using f unfolding d0
      by (cases rs) (auto simp: show_words_def show_redirs_def show_redir_def ends_def follow_def split: if_splits)
  next
    case (Cons w ws)
    then obtain x w' where "w = x # w'" "\<not> delimiter x" using assms(2) by (cases w) (auto simp: plain_word_def)
    then show ?thesis unfolding d0 Cons by (auto simp: show_words_def delimiter_def symbols_def)
  qed
  then have "peek b s {40} = (False, s)" using peek_first [OF h, of "{40}"] by auto
  then show "\<exists>d s'. parseexec b s = Inr (d, s') \<and> map_cmd (text_of b) d = foldl wrap (Execcmd args) rs \<and> drop s' b = rest \<and> s' \<le> length b"
    using execargs_printed [OF d0 r assms(2) f d(2), of "Execcmd []" 0] assms(1)
    by (subst parseexec.simps) (simp add: foldl_add_arg)
qed

lemma claim0_Redircmd:
  assumes "claim0 c" "plain_word w" "redir_ok mode fd"
  shows "claim0 (Redircmd c w mode fd)"
  unfolding claim0_def
proof (intro allI impI)
  fix rs rest assume r: "redirs_ok rs" and f: "ends (follow 0) rest"
  then have "redirs_ok ((w, mode, fd) # rs)" using assms(2,3) by (simp add: redirs_ok_def)
  then have "gives parseexec (show_cmd 0 c @ show_redirs ((w, mode, fd) # rs)) rest (foldl wrap c ((w, mode, fd) # rs))"
    using assms(1) f unfolding claim0_def by blast
  then show "gives parseexec (show_cmd 0 (Redircmd c w mode fd) @ show_redirs rs) rest (foldl wrap (Redircmd c w mode fd) rs)"
    by (simp add: show_redirs_def)
qed

lemma claim0_0: "claim0 c \<Longrightarrow> ends (follow 0) rest \<Longrightarrow> gives parseexec (show_cmd 0 c) rest c"
  by (auto simp: claim0_def redirs_ok_def show_redirs_def dest: spec [of _ "[]"])

lemma claim1_Pipecmd:
  assumes "claim0 l" "claim1 r" "cmd_ok plain_word r"
  shows "claim1 (Pipecmd l r)"
  unfolding claim1_def gives_def
proof (intro allI impI)
  fix rest b s assume f: "ends (follow 1) rest" and d: "drop s b = show_cmd 1 (Pipecmd l r) @ rest" "s \<le> length b"
  let ?r = "show_cmd 1 r @ rest"
  have d0: "drop s b = show_cmd 0 l @ 124 # ?r" using d(1) by (simp add: paren_def)
  have "gives parseexec (show_cmd 0 l) (124 # ?r) l" by (intro claim0_0 [OF assms(1)]) (simp add: ends_def follow_def)
  then obtain e t where e: "parseexec b s = Inr (e, t)" "map_cmd (text_of b) e = l" "drop t b = 124 # ?r"
    by (rule givesD) (use d0 d(2) in auto)
  note g = gettoken_skip [OF e(3) _ show_cmd_start [OF assms(3) ends_follow [OF f]]]
  have "gives parsepipe (show_cmd 1 r) rest r" using assms(2) f unfolding claim1_def by blast
  then obtain e2 t2 where e2: "parsepipe b (t + 1) = Inr (e2, t2)" "map_cmd (text_of b) e2 = r" "drop t2 b = rest" "t2 \<le> length b"
    by (rule givesD) (use g(2,3) in auto)
  have "peek b t {124} = (True, t)" using peek_is [OF e(3), of "{124}"] by (simp add: whitespace_def)
  then have "parsepipe b s = Inr (Pipecmd e e2, t2)" using e(1) g(1) e2(1) by (subst parsepipe.simps) simp
  then show "\<exists>d s'. parsepipe b s = Inr (d, s') \<and> map_cmd (text_of b) d = Pipecmd l r \<and> drop s' b = rest \<and> s' \<le> length b"
    using e(2) e2 by simp
qed

lemma claim2_Backcmd:
  assumes "claim2 c"
  shows "claim2 (Backcmd c)"
  unfolding claim2_def
proof (intro allI impI)
  fix k rest assume f: "ends (follow 2) rest"
  then have "gives parsebacks (show_cmd 2 c @ replicate (Suc k) 38) rest ((Backcmd ^^ Suc k) c)" using assms unfolding claim2_def by blast
  then show "gives parsebacks (show_cmd 2 (Backcmd c) @ replicate k 38) rest ((Backcmd ^^ k) (Backcmd c))"
    by (simp add: paren_def funpow_swap1)
qed

lemma claim3_Listcmd:
  assumes "claim2 l" "claim3 r" "cmd_ok plain_word r"
  shows "claim3 (Listcmd l r)"
  unfolding claim3_def gives_def
proof (intro allI impI)
  fix rest b s assume f: "ends (follow 3) rest" and d: "drop s b = show_cmd 3 (Listcmd l r) @ rest" "s \<le> length b"
  let ?r = "show_cmd 3 r @ rest"
  have d0: "drop s b = show_cmd 2 l @ 59 # ?r" using d(1) by (simp add: paren_def)
  have "gives parsebacks (show_cmd 2 l) (59 # ?r) l" by (intro claim2_0 [OF assms(1)]) (simp add: ends_def follow_def)
  then obtain e t where e: "parsebacks b s = Inr (e, t)" "map_cmd (text_of b) e = l" "drop t b = 59 # ?r"
    by (rule givesD) (use d0 d(2) in auto)
  note g = gettoken_skip [OF e(3) _ show_cmd_start [OF assms(3) ends_follow [OF f]]]
  have "gives parseline (show_cmd 3 r) rest r" using assms(2) f unfolding claim3_def by blast
  then obtain e2 t2 where e2: "parseline b (t + 1) = Inr (e2, t2)" "map_cmd (text_of b) e2 = r" "drop t2 b = rest" "t2 \<le> length b"
    by (rule givesD) (use g(2,3) in auto)
  have "peek b t {59} = (True, t)" using peek_is [OF e(3), of "{59}"] by (simp add: whitespace_def)
  then have "parseline b s = Inr (Listcmd e e2, t2)" using e(1) g(1) e2(1) by (subst parseline_backs) simp
  then show "\<exists>d s'. parseline b s = Inr (d, s') \<and> map_cmd (text_of b) d = Listcmd l r \<and> drop s' b = rest \<and> s' \<le> length b"
    using e(2) e2 by simp
qed

lemma claims: "cmd_ok plain_word c \<Longrightarrow> claim0 c \<and> claim1 c \<and> claim2 c \<and> claim3 c"
proof (induction c)
  case (Execcmd args)
  then have "claim0 (Execcmd args)" by (simp add: claim0_Execcmd)
  then show ?case by (simp add: claim1_of_0 claim2_of_1 claim3_of_2)
next
  case (Redircmd c w mode fd)
  then have "claim0 (Redircmd c w mode fd)" by (simp add: claim0_Redircmd)
  then show ?case by (simp add: claim1_of_0 claim2_of_1 claim3_of_2)
next
  case (Pipecmd l r)
  then have "claim1 (Pipecmd l r)" by (simp add: claim1_Pipecmd)
  then have "claim2 (Pipecmd l r)" by (rule claim2_of_1) (simp add: paren_def)
  then show ?case using \<open>claim1 (Pipecmd l r)\<close> claim3_of_2 [of "Pipecmd l r"] claim0_of_3 [of "Pipecmd l r"] Pipecmd.prems
    by (simp add: paren_def)
next
  case (Listcmd l r)
  then have 3: "claim3 (Listcmd l r)" by (simp add: claim3_Listcmd)
  then have 0: "claim0 (Listcmd l r)" by (rule claim0_of_3) (use Listcmd.prems in \<open>simp_all add: paren_def\<close>)
  then have 1: "claim1 (Listcmd l r)" by (rule claim1_of_0) (simp add: paren_def)
  then have "claim2 (Listcmd l r)" by (rule claim2_of_1) (simp add: paren_def)
  with 0 1 3 show ?case by simp
next
  case (Backcmd c)
  then have 2: "claim2 (Backcmd c)" by (simp add: claim2_Backcmd)
  then have 3: "claim3 (Backcmd c)" by (rule claim3_of_2) (simp add: paren_def)
  then have 0: "claim0 (Backcmd c)" by (rule claim0_of_3) (use Backcmd.prems in \<open>simp_all add: paren_def\<close>)
  then have "claim1 (Backcmd c)" by (rule claim1_of_0) (simp add: paren_def)
  with 0 2 3 show ?case by simp
qed

lemma plain_cmd_chars: "cmd_ok plain_word c \<Longrightarrow> \<forall>x\<in>set (show_cmd n c). x \<noteq> 0"
  by (induction c arbitrary: n)
    (auto simp: paren_def show_redir_def plain_word_def list_all_iff split: if_splits)

text \<open>
  C17. The shell parses the printed form of a command back to the command: the tree that \<open>parsecmd\<close>
  builds, with its words read from the buffer that \<open>nulterminate\<close> leaves, is the tree that was printed.
\<close>

theorem parse_show_roundtrip:
  assumes "cmd_ok plain_word c"
  shows "\<exists>d buf. parsecmd (show_cmd 3 c @ [0]) = Inr (d, buf) \<and> map_cmd (string_at buf) d = c"
proof -
  let ?b = "show_cmd 3 c"
  have b: "takeWhile (\<lambda>x. x \<noteq> 0) (?b @ [0]) = ?b" using plain_cmd_chars [OF assms, of 3] by (simp add: takeWhile_append2)
  have "gives parseline ?b [] c" using claims [OF assms] by (simp add: claim3_def ends_def)
  then obtain d s where d: "parseline ?b 0 = Inr (d, s)" "map_cmd (text_of ?b) d = c" "drop s ?b = []" "s \<le> length ?b"
    by (rule givesD [of _ _ _ _ 0 ?b]) auto
  have s: "snd (peek ?b s {}) = length ?b" using peek_first [of s ?b "{}"] d(3,4) by simp
  have ok: "cmd_ok (word_ok ?b) d" using parse_ok(1) d(1) by blast
  have "map_cmd (string_at (nulterminate d (?b @ [0]))) d = map_cmd (text_of ?b) d"
    by (intro cmd.map_cong0 string_at_nulterminate [OF ok]) (simp_all add: b)
  then show ?thesis using d(1,2) s by (simp add: parsecmd_def Let_def b)
qed

theorem parse_show_roundtrip_witness:
  "show_cmd 3 (Backcmd (Pipecmd (Execcmd [str ''ls'']) (Redircmd (Listcmd (Execcmd [str ''wc'']) (Execcmd [])) (str ''f'') O_WRONLY_CREATE 1)))
     = str ''ls |(wc ;)>f &'' \<and>
   (\<exists>d buf. parsecmd (str ''ls |(wc ;)>f &'' @ [0]) = Inr (d, buf) \<and>
      map_cmd (string_at buf) d =
        Backcmd (Pipecmd (Execcmd [str ''ls'']) (Redircmd (Listcmd (Execcmd [str ''wc'']) (Execcmd [])) (str ''f'') O_WRONLY_CREATE 1)))"
  using parse_show_roundtrip [of "Backcmd (Pipecmd (Execcmd [str ''ls'']) (Redircmd (Listcmd (Execcmd [str ''wc'']) (Execcmd [])) (str ''f'') O_WRONLY_CREATE 1))"]
  by (simp add: paren_def show_redir_def str_def of_char_def plain_word_def delimiter_def whitespace_def symbols_def redir_ok_def)

end
