(* ===== verification/Sh_Run.thy ===== *)
theory Sh_Run
  imports Sh
begin

text \<open>
  Running a command, \<^verbatim>\<open>runcmd\<close> of \<^verbatim>\<open>sh.c\<close>, and the loop that reads commands.  Each process has a table of
  descriptors; the system calls that the shell makes act on it as \<^verbatim>\<open>sysfile.c\<close> has it: the lowest free descriptor is
  given out.  What a command does is the list of the programs that it starts, each with the descriptors it is started
  with; the programs of a pipeline run at the same time, those of a list one after the other.  Whether a file can be
  opened is a parameter.
\<close>

section \<open>Descriptors\<close>

datatype channel = Device | Opened cstr int | Read_end nat | Write_end nat

type_synonym fds = "channel option list"

fun fd_alloc :: "channel \<Rightarrow> fds \<Rightarrow> (nat \<times> fds) option" where
  "fd_alloc f [] = None"
| "fd_alloc f (x # t) =
     (case x of None \<Rightarrow> Some (0, Some f # t)
      | Some y \<Rightarrow> (case fd_alloc f t of None \<Rightarrow> None | Some (i, u) \<Rightarrow> Some (Suc i, Some y # u)))"

definition fd_close :: "nat \<Rightarrow> fds \<Rightarrow> fds" where
  "fd_close fd t = t[fd := None]"

definition fd_dup :: "nat \<Rightarrow> fds \<Rightarrow> fds" where
  "fd_dup fd t =
     (if fd < length t then case t ! fd of None \<Rightarrow> t | Some f \<Rightarrow> (case fd_alloc f t of None \<Rightarrow> t | Some (_, u) \<Rightarrow> u) else t)"

text \<open>\<^verbatim>\<open>pipe\<close>: the read end is allocated first; the pipe is not made when there is no room for both ends.\<close>

definition fd_pipe :: "nat \<Rightarrow> fds \<Rightarrow> (nat \<times> nat \<times> fds) option" where
  "fd_pipe k t =
     (case fd_alloc (Read_end k) t of None \<Rightarrow> None
      | Some (p0, t) \<Rightarrow> (case fd_alloc (Write_end k) t of None \<Rightarrow> None | Some (p1, t) \<Rightarrow> Some (p0, p1, t)))"

section \<open>Running\<close>

datatype event = Exec "cstr list" fds | Open_failed cstr | Sh_panic string

text \<open>The pipes are numbered in the order in which they are made.\<close>

fun runcmd :: "(cstr \<Rightarrow> int \<Rightarrow> bool) \<Rightarrow> cstr cmd \<Rightarrow> fds \<Rightarrow> nat \<Rightarrow> event list \<times> nat" where
  "runcmd can (Execcmd argv) t k = (if argv = [] then [] else [Exec argv t], k)"
| "runcmd can (Redircmd c f mode fd) t k =
     (let t = fd_close (nat fd) t in
      if can f mode then
        case fd_alloc (Opened f mode) t of
          None \<Rightarrow> ([Open_failed f], k)
        | Some (_, t) \<Rightarrow> runcmd can c t k
      else ([Open_failed f], k))"
| "runcmd can (Listcmd l r) t k =
     (case runcmd can l t k of (es, k) \<Rightarrow> case runcmd can r t k of (fs, k) \<Rightarrow> (es @ fs, k))"
| "runcmd can (Pipecmd l r) t k =
     (case fd_pipe k t of
        None \<Rightarrow> ([Sh_panic ''pipe''], k)
      | Some (p0, p1, t) \<Rightarrow>
          case runcmd can l (fd_close p1 (fd_close p0 (fd_dup p1 (fd_close 1 t)))) (Suc k) of (es, k) \<Rightarrow>
          case runcmd can r (fd_close p1 (fd_close p0 (fd_dup p0 (fd_close 0 t)))) k of (fs, k) \<Rightarrow> (es @ fs, k))"
| "runcmd can (Backcmd c) t k = runcmd can c t k"

section \<open>Reading commands\<close>

text \<open>
  \<^verbatim>\<open>gets\<close> of \<^verbatim>\<open>ulib.c\<close> on the bytes that are still to come: at most \<open>n - 1\<close> of them, up to the end of a line.  The
  buffer of \<^verbatim>\<open>getcmd\<close> is zeroed first.
\<close>

fun gets_loop :: "nat \<Rightarrow> cstr \<Rightarrow> cstr \<Rightarrow> cstr \<times> cstr" where
  "gets_loop 0 out inp = (out, inp)"
| "gets_loop (Suc n) out [] = (out, [])"
| "gets_loop (Suc n) out (c # inp) = (if c = 10 \<or> c = 13 then (out @ [c], inp) else gets_loop n (out @ [c]) inp)"

definition gets :: "nat \<Rightarrow> cstr \<Rightarrow> cstr \<times> cstr" where
  "gets n inp = (case gets_loop (n - 1) [] inp of (out, inp) \<Rightarrow> (out @ [0], inp))"

definition getcmd :: "nat \<Rightarrow> cstr \<Rightarrow> cstr option \<times> cstr" where
  "getcmd nbuf inp =
     (case gets nbuf inp of (out, inp) \<Rightarrow>
      let buf = out @ replicate (nbuf - length out) 0 in (if buf ! 0 = 0 then None else Some buf, inp))"

datatype step = Chdir cstr | Run "(event list \<times> nat) result"

text \<open>What \<^verbatim>\<open>main\<close> does with a line.\<close>

definition cstring :: "cstr \<Rightarrow> cstr" where
  "cstring b = takeWhile (\<lambda>c. c \<noteq> 0) b"

definition main_line :: "(cstr \<Rightarrow> int \<Rightarrow> bool) \<Rightarrow> fds \<Rightarrow> cstr \<Rightarrow> step" where
  "main_line can t buf =
     (if take 3 buf = str ''cd '' then Chdir (cstring (drop 3 (buf[length (cstring buf) - 1 := 0])))
      else Run (bindE (parsecmd buf) (\<lambda>(c, buf). Inr (runcmd can (map_cmd (string_at buf) c) t 0))))"

section \<open>The descriptors a program is started with\<close>

text \<open>The standard descriptors are open, and no other.\<close>

definition std :: "channel \<Rightarrow> channel \<Rightarrow> channel \<Rightarrow> fds" where
  "std a b c = [Some a, Some b, Some c] @ replicate 13 None"

definition piped :: "channel \<Rightarrow> channel \<Rightarrow> channel \<Rightarrow> nat \<Rightarrow> fds" where
  "piped a b c k = [Some a, Some b, Some c, Some (Read_end k), Some (Write_end k)] @ replicate 11 None"

lemma std_pipe: "fd_pipe k (std a b c) = Some (3, 4, piped a b c k)"
  by (simp add: std_def piped_def fd_pipe_def numeral_eq_Suc)

lemma std_redirect: "fd_alloc f (fd_close 0 (std a b c)) = Some (0, std f b c)" "fd_alloc f (fd_close (Suc 0) (std a b c)) = Some (1, std a f c)"
  by (simp_all add: std_def fd_close_def numeral_eq_Suc)

lemma std_child:
  "fd_close 4 (fd_close 3 (fd_dup 4 (fd_close (Suc 0) (piped a b c k)))) = std a (Write_end k) c"
  "fd_close 4 (fd_close 3 (fd_dup 3 (fd_close 0 (piped a b c k)))) = std (Read_end k) b c"
  by (simp_all add: piped_def std_def fd_close_def fd_dup_def numeral_eq_Suc)

lemmas std_simps = std_pipe std_redirect std_child

definition started_std :: "channel \<Rightarrow> event \<Rightarrow> bool" where
  "started_std d e = (case e of Exec argv t \<Rightarrow> argv \<noteq> [] \<and> (\<exists>a b. t = std a b d) | Open_failed f \<Rightarrow> True | Sh_panic m \<Rightarrow> False)"

lemma run_std: "cmd_ok ok c \<Longrightarrow> list_all (started_std d) (fst (runcmd can c (std a b d) k))"
proof (induction c arbitrary: a b k)
  case (Redircmd c f mode fd)
  then have "fd = 0 \<or> fd = 1" by (auto simp: redir_ok_def)
  then show ?case using Redircmd by (auto simp: Let_def std_simps started_std_def)
next
  case (Pipecmd l r)
  obtain es k1 where l: "runcmd can l (std a (Write_end k) d) (Suc k) = (es, k1)" by fastforce
  obtain fs k2 where r: "runcmd can r (std (Read_end k) b d) k1 = (fs, k2)" by fastforce
  show ?case using Pipecmd.IH(1) [of a "Write_end k" "Suc k"] Pipecmd.IH(2) [of "Read_end k" b k1] Pipecmd.prems
    by (simp add: std_simps l r)
next
  case (Listcmd l r)
  obtain es k1 where l: "runcmd can l (std a b d) k = (es, k1)" by fastforce
  obtain fs k2 where r: "runcmd can r (std a b d) k1 = (fs, k2)" by fastforce
  show ?case using Listcmd.IH(1) [of a b k] Listcmd.IH(2) [of a b k1] Listcmd.prems by (simp add: l r)
qed (auto simp: started_std_def)

text \<open>
  C31. Whatever command the parser delivers, started with the three standard descriptors, every program is
  started with exactly three descriptors open and the standard error of the shell: no end of a pipe leaks into a
  program that is not connected to it, so that readers see the end of their input; and the shell never runs out of
  descriptors for a pipe.
\<close>

theorem runcmd_no_leak:
  assumes "cmd_ok ok c"
  shows "list_all (started_std d) (fst (runcmd can c (std a b d) k))"
  using run_std [OF assms] .

text \<open>A pipeline of programs.\<close>

fun pipeline :: "cstr list list \<Rightarrow> cstr cmd" where
  "pipeline [] = Execcmd []"
| "pipeline [argv] = Execcmd argv"
| "pipeline (argv # rest) = Pipecmd (Execcmd argv) (pipeline rest)"

definition wired :: "cstr list list \<Rightarrow> channel \<Rightarrow> channel \<Rightarrow> channel \<Rightarrow> nat \<Rightarrow> event list" where
  "wired ps a b d k = map (\<lambda>i. Exec (ps ! i)
     (std (if i = 0 then a else Read_end (k + i - 1)) (if Suc i = length ps then b else Write_end (k + i)) d)) [0..<length ps]"

lemma wired_Cons: "rest \<noteq> [] \<Longrightarrow> wired (p # rest) a b d k = Exec p (std a (Write_end k) d) # wired rest (Read_end k) b d (Suc k)"
  unfolding wired_def by (simp add: upt_conv_Cons map_Suc_upt [symmetric] del: upt_Suc)

text \<open>
  The programs of a pipeline are connected in order: the first reads the input of the shell, the
  last writes its output, and each one in between reads the pipe that the one before it writes.
\<close>

theorem runcmd_pipeline:
  "ps \<noteq> [] \<Longrightarrow> \<forall>argv\<in>set ps. argv \<noteq> [] \<Longrightarrow> runcmd can (pipeline ps) (std a b d) k = (wired ps a b d k, k + length ps - 1)"
proof (induction ps arbitrary: a k rule: pipeline.induct)
  case (3 argv p rest)
  then show ?case by (simp add: std_simps wired_Cons)
qed (simp_all add: wired_def)

theorem runcmd_no_leak_witness:
  "list_all (started_std Device) (fst (runcmd (\<lambda>_ _. True)
     (Pipecmd (Redircmd (Execcmd [str ''wc'']) (str ''f'') O_RDONLY 0) (Backcmd (Execcmd [str ''cat'']))) (std Device Device Device) 0))"
  by (rule runcmd_no_leak [of "\<lambda>_. True"]) (simp add: redir_ok_def)

theorem runcmd_pipeline_witness:
  "fst (runcmd (\<lambda>_ _. True) (pipeline [[str ''a''], [str ''b''], [str ''c'']]) (std Device Device Device) 0) =
     [Exec [str ''a''] (std Device (Write_end 0) Device), Exec [str ''b''] (std (Read_end 0) (Write_end 1) Device),
      Exec [str ''c''] (std (Read_end 1) Device Device)]"
  using runcmd_pipeline [of "[[str ''a''], [str ''b''], [str ''c'']]" "\<lambda>_ _. True" Device Device Device 0]
  by (simp add: wired_def)

section \<open>The loop of the shell\<close>

text \<open>A line is read up to its end; a longer one than the buffer is split.\<close>

lemma gets_loop_line:
  "\<forall>c\<in>set l. c \<noteq> 10 \<and> c \<noteq> 13 \<Longrightarrow> length l < n \<Longrightarrow> gets_loop n out (l @ 10 # rest) = (out @ l @ [10], rest)"
proof (induction l arbitrary: n out)
  case (Cons c l)
  then show ?case by (cases n) auto
qed (auto simp: gr0_conv_Suc)

lemma gets_loop_split: "\<forall>c\<in>set l. c \<noteq> 10 \<and> c \<noteq> 13 \<Longrightarrow> n \<le> length l \<Longrightarrow> gets_loop n out (l @ rest) = (out @ take n l, drop n l @ rest)"
proof (induction l arbitrary: n out)
  case (Cons c l)
  then show ?case by (cases n) auto
qed simp

lemma cd_without_newline: "main_line can t (str ''cd ab'' @ replicate 94 0) = Chdir (str ''a'')"
  by (simp add: main_line_def cstring_def str_def of_char_def)

end
