(* ===== verification/Locks.thy ===== *)
theory Locks
  imports Xv6_Prelude
begin

text \<open>
  The locks of the kernel.  Spin locks (\<^verbatim>\<open>spinlock.c\<close>) are modelled at the level of single accesses to the words that
  the processors share: any number of processors interleave the steps of \<^verbatim>\<open>acquire\<close> and \<^verbatim>\<open>release\<close> with each other and
  with \<^verbatim>\<open>pushcli\<close> and \<^verbatim>\<open>popcli\<close>.  Sleep locks (\<^verbatim>\<open>sleeplock.c\<close>) are modelled with the spin lock that guards them: the
  sections under it are steps.
\<close>

section \<open>Runs of a machine\<close>

locale machine =
  fixes init :: "'s \<Rightarrow> bool" and step :: "'s \<Rightarrow> 's \<Rightarrow> bool" and inv :: "'s \<Rightarrow> bool"
  assumes starts: "init s \<Longrightarrow> inv s"
    and keeps: "inv s \<Longrightarrow> step s t \<Longrightarrow> inv t"
begin

lemma run: "init s \<Longrightarrow> step\<^sup>*\<^sup>* s t \<Longrightarrow> inv t"
  by (rule rtranclp_induct [of step s t inv]) (auto intro: starts keeps)

end

section \<open>Spin locks\<close>

record spinlock =
  locked :: u32
  lcpu :: "nat option"

text \<open>
  What a processor keeps: the interrupt flag, the fields \<^verbatim>\<open>ncli\<close> and \<^verbatim>\<open>intena\<close> of its \<^verbatim>\<open>struct cpu\<close>, where in the lock
  functions it is, and, as a ghost, the locks it has acquired and not begun to release.
\<close>

datatype lpc = Outside | Acquiring nat | Acquiring_cpu nat | Spinning nat | Taken nat | Releasing nat | Releasing_cpu nat
  | Checked nat | Cleared nat | Unlocked | Stopped string

text \<open>
  In \<^verbatim>\<open>acquire\<close>: about to read \<^verbatim>\<open>locked\<close> in \<^verbatim>\<open>holding\<close>, about to read \<^verbatim>\<open>cpu\<close> there, about to exchange, behind the exchange
  that returned 0.  In \<^verbatim>\<open>release\<close>: the two reads of \<^verbatim>\<open>holding\<close>, about to clear \<^verbatim>\<open>cpu\<close>, about to clear \<^verbatim>\<open>locked\<close>, about to
  call \<^verbatim>\<open>popcli\<close>.  \<open>Stopped\<close> is a processor in \<^verbatim>\<open>panic\<close>.
\<close>

record cpu_state =
  ifl :: bool
  ncli :: int
  intena :: bool
  pc :: lpc
  held :: "nat set"
  own :: nat

record smp =
  locks :: "nat \<Rightarrow> spinlock"
  cpus :: "nat \<Rightarrow> cpu_state"

definition pushcli :: "cpu_state \<Rightarrow> cpu_state" where
  "pushcli c = c\<lparr>ifl := False, intena := (if ncli c = 0 then ifl c else intena c), ncli := ncli c + 1\<rparr>"

definition popcli :: "cpu_state \<Rightarrow> cpu_state" where
  "popcli c =
     (if ifl c then c\<lparr>pc := Stopped ''popcli - interruptible''\<rparr>
      else if ncli c - 1 < 0 then c\<lparr>ncli := ncli c - 1, pc := Stopped ''popcli''\<rparr>
      else c\<lparr>ncli := ncli c - 1, ifl := (ncli c - 1 = 0 \<and> intena c)\<rparr>)"

text \<open>Going on with the next statement, unless \<open>popcli\<close> has panicked.\<close>

definition go :: "lpc \<Rightarrow> cpu_state \<Rightarrow> cpu_state" where
  "go p c = (case pc c of Stopped m \<Rightarrow> c | _ \<Rightarrow> c\<lparr>pc := p\<rparr>)"

text \<open>
  The next access of processor \<open>i\<close> inside the lock functions.  \<^verbatim>\<open>holding\<close> is a \<^verbatim>\<open>pushcli\<close>, the read of \<^verbatim>\<open>locked\<close>, the read of
  \<^verbatim>\<open>cpu\<close> when the lock was seen locked, and a \<^verbatim>\<open>popcli\<close>; \<^verbatim>\<open>xchg\<close> is one access.
\<close>

definition advance :: "nat \<Rightarrow> smp \<Rightarrow> smp" where
  "advance i s =
     (let c = cpus s i;
          cpu = (\<lambda>c. s\<lparr>cpus := (cpus s)(i := c)\<rparr>);
          both = (\<lambda>l k c. s\<lparr>locks := (locks s)(l := k), cpus := (cpus s)(i := c)\<rparr>)
      in case pc c of
        Acquiring l \<Rightarrow>
          if locked (locks s l) = 0 then cpu (go (Spinning l) (popcli (pushcli c))) else cpu (go (Acquiring_cpu l) (pushcli c))
      | Acquiring_cpu l \<Rightarrow>
          cpu (go (if lcpu (locks s l) = Some i then Stopped ''acquire'' else Spinning l) (popcli c))
      | Spinning l \<Rightarrow>
          both l ((locks s l)\<lparr>locked := 1\<rparr>) (c\<lparr>pc := if locked (locks s l) \<noteq> 0 then Spinning l else Taken l\<rparr>)
      | Taken l \<Rightarrow> both l ((locks s l)\<lparr>lcpu := Some i\<rparr>) (c\<lparr>pc := Outside, held := insert l (held c)\<rparr>)
      | Releasing l \<Rightarrow>
          if locked (locks s l) = 0 then cpu (go (Stopped ''release'') (popcli (pushcli c))) else cpu (go (Releasing_cpu l) (pushcli c))
      | Releasing_cpu l \<Rightarrow>
          cpu (go (if lcpu (locks s l) = Some i then Checked l else Stopped ''release'') (popcli c))
      | Checked l \<Rightarrow> both l ((locks s l)\<lparr>lcpu := None\<rparr>) (c\<lparr>pc := Cleared l, held := held c - {l}\<rparr>)
      | Cleared l \<Rightarrow> both l ((locks s l)\<lparr>locked := 0\<rparr>) (c\<lparr>pc := Unlocked\<rparr>)
      | Unlocked \<Rightarrow> cpu (go Outside (popcli c))
      | Outside \<Rightarrow> s
      | Stopped m \<Rightarrow> s)"

text \<open>
  A processor outside of the lock functions may call one of them, call \<^verbatim>\<open>pushcli\<close>, call the matching \<^verbatim>\<open>popcli\<close>, or, while
  nothing is pushed, turn interrupts on or off.  The ghost \<open>own\<close> counts its own calls of \<^verbatim>\<open>pushcli\<close>.
\<close>

definition set_cpu :: "nat \<Rightarrow> cpu_state \<Rightarrow> smp \<Rightarrow> smp" where
  "set_cpu i c s = s\<lparr>cpus := (cpus s)(i := c)\<rparr>"

inductive spin_step :: "smp \<Rightarrow> smp \<Rightarrow> bool" where
  call_acquire: "pc (cpus s i) = Outside \<Longrightarrow> spin_step s (set_cpu i ((pushcli (cpus s i))\<lparr>pc := Acquiring l\<rparr>) s)"
| call_release: "pc (cpus s i) = Outside \<Longrightarrow> spin_step s (set_cpu i ((cpus s i)\<lparr>pc := Releasing l\<rparr>) s)"
| call_pushcli: "pc (cpus s i) = Outside \<Longrightarrow> spin_step s (set_cpu i ((pushcli (cpus s i))\<lparr>own := own (cpus s i) + 1\<rparr>) s)"
| call_popcli: "pc (cpus s i) = Outside \<Longrightarrow> 0 < own (cpus s i) \<Longrightarrow>
    spin_step s (set_cpu i ((popcli (cpus s i))\<lparr>own := own (cpus s i) - 1\<rparr>) s)"
| set_interrupts: "pc (cpus s i) = Outside \<Longrightarrow> ncli (cpus s i) = 0 \<Longrightarrow> spin_step s (set_cpu i ((cpus s i)\<lparr>ifl := b\<rparr>) s)"
| inside: "pc (cpus s i) \<noteq> Outside \<Longrightarrow> spin_step s (advance i s)"

definition initlock :: spinlock where
  "initlock = \<lparr>locked = 0, lcpu = None\<rparr>"

definition spin_init :: "smp \<Rightarrow> bool" where
  "spin_init s \<longleftrightarrow> (\<forall>l. locks s l = initlock) \<and>
     (\<forall>i. ncli (cpus s i) = 0 \<and> pc (cpus s i) = Outside \<and> held (cpus s i) = {} \<and> own (cpus s i) = 0)"

section \<open>The invariant of spin locks\<close>

text \<open>How often interrupts were pushed for the statement a processor is at.\<close>

fun pushed :: "lpc \<Rightarrow> nat" where
  "pushed (Acquiring l) = 1" | "pushed (Acquiring_cpu l) = 2" | "pushed (Spinning l) = 1" | "pushed (Taken l) = 1"
| "pushed (Releasing_cpu l) = 1" | "pushed (Cleared l) = 1" | "pushed Unlocked = 1" | "pushed p = 0"

fun panics :: "lpc \<Rightarrow> bool" where
  "panics (Stopped m) = True" | "panics p = False"

definition cpu_ok :: "cpu_state \<Rightarrow> bool" where
  "cpu_ok c \<longleftrightarrow> finite (held c) \<and> (\<not> panics (pc c) \<longrightarrow> ncli c = int (own c + card (held c) + pushed (pc c))) \<and>
     (0 < ncli c \<longrightarrow> \<not> ifl c) \<and> (panics (pc c) \<longrightarrow> 0 < ncli c \<or> held c = {}) \<and> pc c \<noteq> Stopped ''popcli'' \<and>
     pc c \<noteq> Stopped ''popcli - interruptible'' \<and>
     (case pc c of Spinning l \<Rightarrow> l \<notin> held c | Taken l \<Rightarrow> l \<notin> held c | Checked l \<Rightarrow> l \<in> held c | Cleared l \<Rightarrow> l \<notin> held c | _ \<Rightarrow> True)"

text \<open>A processor owns the word of a lock while it holds the lock, just before and just after.\<close>

definition owns :: "nat \<Rightarrow> cpu_state \<Rightarrow> bool" where
  "owns l c \<longleftrightarrow> l \<in> held c \<or> pc c = Taken l \<or> pc c = Cleared l"

definition lock_ok :: "nat \<Rightarrow> spinlock \<Rightarrow> (nat \<Rightarrow> cpu_state) \<Rightarrow> bool" where
  "lock_ok l k cs \<longleftrightarrow> (locked k = 0 \<or> locked k = 1) \<and> (locked k = 0 \<longrightarrow> (\<forall>i. \<not> owns l (cs i))) \<and>
     (\<forall>i j. owns l (cs i) \<longrightarrow> owns l (cs j) \<longrightarrow> i = j) \<and> (\<forall>i. lcpu k = Some i \<longleftrightarrow> l \<in> held (cs i))"

definition spin_inv :: "smp \<Rightarrow> bool" where
  "spin_inv s \<longleftrightarrow> (\<forall>i. cpu_ok (cpus s i)) \<and> (\<forall>l. lock_ok l (locks s l) (cpus s))"

text \<open>Changing a processor that keeps what it owns, and changing the processor and one lock.\<close>

lemma inv_cpu:
  assumes "spin_inv s" "cpu_ok c" "held c = held (cpus s i)" "\<And>l. owns l c \<longleftrightarrow> owns l (cpus s i)"
  shows "spin_inv (set_cpu i c s)"
proof -
  have "held (((cpus s)(i := c)) j) = held (cpus s j)" "owns l (((cpus s)(i := c)) j) \<longleftrightarrow> owns l (cpus s j)" for j l
    using assms(3,4) by auto
  then show ?thesis using assms(1,2) by (simp add: spin_inv_def set_cpu_def lock_ok_def)
qed

lemma inv_lock:
  assumes "spin_inv s" "cpu_ok c" "lock_ok l k ((cpus s)(i := c))"
    and "\<And>m. m \<noteq> l \<Longrightarrow> m \<in> held c \<longleftrightarrow> m \<in> held (cpus s i)" "\<And>m. m \<noteq> l \<Longrightarrow> owns m c \<longleftrightarrow> owns m (cpus s i)"
  shows "spin_inv (s\<lparr>locks := (locks s)(l := k), cpus := (cpus s)(i := c)\<rparr>)"
proof -
  have "(m \<in> held (((cpus s)(i := c)) j)) = (m \<in> held (cpus s j))" "owns m (((cpus s)(i := c)) j) \<longleftrightarrow> owns m (cpus s j)" if "m \<noteq> l" for j m
    using assms(4,5) that by auto
  then have "lock_ok m (locks s m) ((cpus s)(i := c))" if "m \<noteq> l" for m
    using assms(1) that by (simp add: spin_inv_def lock_ok_def)
  then show ?thesis using assms(1-3) by (auto simp: spin_inv_def)
qed

lemma pushcli_fields [simp]:
  "ifl (pushcli c) = False" "ncli (pushcli c) = ncli c + 1" "held (pushcli c) = held c" "pc (pushcli c) = pc c" "own (pushcli c) = own c"
  by (simp_all add: pushcli_def)

lemma popcli_fields [simp]:
  "held (popcli c) = held c" "own (popcli c) = own c"
  "0 < ncli c \<Longrightarrow> \<not> ifl c \<Longrightarrow> ncli (popcli c) = ncli c - 1" "0 < ncli c \<Longrightarrow> \<not> ifl c \<Longrightarrow> pc (popcli c) = pc c"
  "0 < ncli c \<Longrightarrow> \<not> ifl c \<Longrightarrow> 0 < ncli (popcli c) \<Longrightarrow> \<not> ifl (popcli c)"
  by (auto simp: popcli_def)

lemma go_running: "\<not> panics (pc c) \<Longrightarrow> go p c = c\<lparr>pc := p\<rparr>"
  by (cases "pc c") (simp_all add: go_def)

lemma spin_calls:
  assumes "spin_inv s" "pc (cpus s i) = Outside"
  shows "spin_inv (set_cpu i ((pushcli (cpus s i))\<lparr>pc := Acquiring l\<rparr>) s)"
    "spin_inv (set_cpu i ((cpus s i)\<lparr>pc := Releasing l\<rparr>) s)"
    "spin_inv (set_cpu i ((pushcli (cpus s i))\<lparr>own := own (cpus s i) + 1\<rparr>) s)"
    "0 < own (cpus s i) \<Longrightarrow> spin_inv (set_cpu i ((popcli (cpus s i))\<lparr>own := own (cpus s i) - 1\<rparr>) s)"
    "ncli (cpus s i) = 0 \<Longrightarrow> spin_inv (set_cpu i ((cpus s i)\<lparr>ifl := b\<rparr>) s)"
proof -
  have c: "cpu_ok (cpus s i)" using assms(1) by (simp add: spin_inv_def)
  note * = inv_cpu [OF assms(1)]
  show "spin_inv (set_cpu i ((pushcli (cpus s i))\<lparr>pc := Acquiring l\<rparr>) s)"
    "spin_inv (set_cpu i ((cpus s i)\<lparr>pc := Releasing l\<rparr>) s)"
    "spin_inv (set_cpu i ((pushcli (cpus s i))\<lparr>own := own (cpus s i) + 1\<rparr>) s)"
    using c assms(2) by (intro *; simp add: cpu_ok_def owns_def)+
  show "spin_inv (set_cpu i ((popcli (cpus s i))\<lparr>own := own (cpus s i) - 1\<rparr>) s)" if "0 < own (cpus s i)"
    using c assms(2) that by (intro *; simp add: cpu_ok_def owns_def)
  show "spin_inv (set_cpu i ((cpus s i)\<lparr>ifl := b\<rparr>) s)" if "ncli (cpus s i) = 0"
    using c assms(2) that by (intro *; simp add: cpu_ok_def owns_def)
qed

lemma lock_okD:
  assumes "spin_inv s"
  shows "locked (locks s l) = 0 \<or> locked (locks s l) = 1" "locked (locks s l) = 0 \<Longrightarrow> \<not> owns l (cpus s i)"
    "owns l (cpus s i) \<Longrightarrow> owns l (cpus s j) \<Longrightarrow> i = j" "lcpu (locks s l) = Some i \<longleftrightarrow> l \<in> held (cpus s i)"
  using assms unfolding spin_inv_def lock_ok_def by blast+

lemma spin_advance:
  assumes "spin_inv s"
  shows "spin_inv (advance i s)"
proof -
  let ?c = "cpus s i"
  have c: "cpu_ok ?c" using assms by (simp add: spin_inv_def)
  have hc: "held ?c = {} \<or> 0 < card (held ?c)" using c by (auto simp: cpu_ok_def card_gt_0_iff)
  have set: "spin_inv (s\<lparr>cpus := (cpus s)(i := d)\<rparr>)" if "cpu_ok d" "held d = held ?c" "\<And>l. owns l d \<longleftrightarrow> owns l ?c" for d
    using inv_cpu [OF assms that] by (simp add: set_cpu_def)
  show ?thesis
  proof (cases "pc ?c")
    case (Acquiring l)
    show ?thesis
    proof (cases "locked (locks s l) = 0")
      case True
      then have "l \<notin> held ?c" using lock_okD(2) [OF assms] by (auto simp: owns_def)
      then show ?thesis using Acquiring True c
        by (simp add: advance_def Let_def go_running cpu_ok_def) (intro set; simp add: cpu_ok_def owns_def)
    next
      case False
      then show ?thesis using Acquiring c
        by (simp add: advance_def Let_def go_running cpu_ok_def) (intro set; simp add: cpu_ok_def owns_def)
    qed
  next
    case (Acquiring_cpu l)
    have "lcpu (locks s l) = Some i \<longleftrightarrow> l \<in> held ?c" using lock_okD(4) [OF assms] .
    then show ?thesis using Acquiring_cpu c
      by (simp add: advance_def Let_def go_running cpu_ok_def) (intro set conjI impI; simp add: cpu_ok_def owns_def)
  next
    case (Spinning l)
    have n: "l \<notin> held ?c" "\<not> owns l ?c" using Spinning c by (auto simp: cpu_ok_def owns_def)
    let ?d = "?c\<lparr>pc := if locked (locks s l) \<noteq> 0 then Spinning l else Taken l\<rparr>"
    have "lock_ok l ((locks s l)\<lparr>locked := 1\<rparr>) ((cpus s)(i := ?d))"
      using lock_okD [OF assms, of l] n by (auto simp: lock_ok_def owns_def)
    then have "spin_inv (s\<lparr>locks := (locks s)(l := (locks s l)\<lparr>locked := 1\<rparr>), cpus := (cpus s)(i := ?d)\<rparr>)"
      by (rule inv_lock [OF assms, rotated]) (use Spinning c in \<open>auto simp: cpu_ok_def owns_def\<close>)
    then show ?thesis using Spinning by (simp add: advance_def Let_def)
  next
    case (Taken l)
    have n: "owns l ?c" "l \<notin> held ?c" using Taken c by (auto simp: owns_def cpu_ok_def)
    let ?d = "?c\<lparr>pc := Outside, held := insert l (held ?c)\<rparr>"
    have "lock_ok l ((locks s l)\<lparr>lcpu := Some i\<rparr>) ((cpus s)(i := ?d))"
      using lock_okD [OF assms, of l] n by (auto simp: lock_ok_def owns_def)
    then have "spin_inv (s\<lparr>locks := (locks s)(l := (locks s l)\<lparr>lcpu := Some i\<rparr>), cpus := (cpus s)(i := ?d)\<rparr>)"
      by (rule inv_lock [OF assms, rotated]) (use Taken c in \<open>auto simp: cpu_ok_def owns_def\<close>)
    then show ?thesis using Taken by (simp add: advance_def Let_def)
  next
    case (Releasing l)
    then show ?thesis using c hc
      by (simp add: advance_def Let_def go_running cpu_ok_def) (intro set conjI impI; auto simp: cpu_ok_def owns_def)
  next
    case (Releasing_cpu l)
    have "lcpu (locks s l) = Some i \<longleftrightarrow> l \<in> held ?c" using lock_okD(4) [OF assms] .
    then show ?thesis using Releasing_cpu c hc
      by (simp add: advance_def Let_def go_running cpu_ok_def) (intro set conjI impI; auto simp: cpu_ok_def owns_def)
  next
    case (Checked l)
    have n: "owns l ?c" "l \<in> held ?c" using Checked c by (auto simp: owns_def cpu_ok_def)
    let ?d = "?c\<lparr>pc := Cleared l, held := held ?c - {l}\<rparr>"
    have "lock_ok l ((locks s l)\<lparr>lcpu := None\<rparr>) ((cpus s)(i := ?d))"
      using lock_okD [OF assms, of l] n by (auto simp: lock_ok_def owns_def)
    moreover obtain k where "card (held ?c) = Suc k" "card (held ?c - {l}) = k"
      using c n(2) card.remove [of "held ?c" l] by (auto simp: cpu_ok_def)
    then have "cpu_ok ?d" using Checked c by (auto simp: cpu_ok_def)
    ultimately have "spin_inv (s\<lparr>locks := (locks s)(l := (locks s l)\<lparr>lcpu := None\<rparr>), cpus := (cpus s)(i := ?d)\<rparr>)"
      by (intro inv_lock [OF assms]) (use Checked c in \<open>auto simp: owns_def\<close>)
    then show ?thesis using Checked by (simp add: advance_def Let_def)
  next
    case (Cleared l)
    have n: "owns l ?c" "l \<notin> held ?c" using Cleared c by (auto simp: owns_def cpu_ok_def)
    let ?d = "?c\<lparr>pc := Unlocked\<rparr>"
    have "lock_ok l ((locks s l)\<lparr>locked := 0\<rparr>) ((cpus s)(i := ?d))"
      using lock_okD [OF assms, of l] n by (auto simp: lock_ok_def owns_def)
    then have "spin_inv (s\<lparr>locks := (locks s)(l := (locks s l)\<lparr>locked := 0\<rparr>), cpus := (cpus s)(i := ?d)\<rparr>)"
      by (rule inv_lock [OF assms, rotated]) (use Cleared c in \<open>auto simp: cpu_ok_def owns_def\<close>)
    then show ?thesis using Cleared by (simp add: advance_def Let_def)
  next
    case Unlocked
    then show ?thesis using c
      by (simp add: advance_def Let_def go_running cpu_ok_def) (intro set; simp add: cpu_ok_def owns_def)
  qed (use assms in \<open>simp_all add: advance_def\<close>)
qed

interpretation spin: machine spin_init spin_step spin_inv
proof
  show "spin_inv s" if "spin_init s" for s
    using that by (auto simp: spin_init_def spin_inv_def cpu_ok_def lock_ok_def owns_def initlock_def)
  show "spin_inv t" if "spin_inv s" "spin_step s t" for s t
    using that(2,1) by (induction rule: spin_step.induct) (auto intro: spin_calls spin_advance simp del: One_nat_def)
qed

text \<open>
  C9. In every interleaving of the processors' single accesses, a spin lock is held by at most one processor;
  the holder has interrupts off, finds the lock locked and its own number in it; and \<open>popcli\<close> never panics.
\<close>

theorem spin_mutual_exclusion:
  assumes "spin_init s" "spin_step\<^sup>*\<^sup>* s t"
  shows "(l \<in> held (cpus t i) \<longrightarrow> l \<in> held (cpus t j) \<longrightarrow> i = j) \<and>
         (l \<in> held (cpus t i) \<longrightarrow> locked (locks t l) = 1 \<and> lcpu (locks t l) = Some i \<and> \<not> ifl (cpus t i)) \<and>
         pc (cpus t i) \<noteq> Stopped ''popcli'' \<and> pc (cpus t i) \<noteq> Stopped ''popcli - interruptible''"
proof -
  have inv: "spin_inv t" by (rule spin.run [OF assms])
  then have c: "cpu_ok (cpus t i)" by (simp add: spin_inv_def)
  note l = lock_okD [OF inv, of l]
  have "0 < ncli (cpus t i)" if "l \<in> held (cpus t i)"
    using c that card_gt_0_iff [of "held (cpus t i)"] by (cases "panics (pc (cpus t i))") (auto simp: cpu_ok_def)
  then show ?thesis using l c by (auto simp: owns_def cpu_ok_def)
qed

text \<open>
  The checks of \<open>holding\<close> are exact in every reachable state, although they read two words one after the
  other: \<^verbatim>\<open>acquire\<close> panics only on a lock that the processor holds, and there it always does; \<^verbatim>\<open>release\<close> panics only on
  a lock that the processor does not hold.
\<close>

theorem spin_panics_exact:
  assumes "spin_init s" "spin_step\<^sup>*\<^sup>* s t"
  shows "(pc (cpus t i) = Acquiring l \<longrightarrow> l \<in> held (cpus t i) \<longrightarrow> pc (cpus (advance i (advance i t)) i) = Stopped ''acquire'') \<and>
         (pc (cpus t i) = Acquiring l \<longrightarrow> l \<notin> held (cpus t i) \<longrightarrow> \<not> panics (pc (cpus (advance i t) i))) \<and>
         (pc (cpus t i) = Acquiring_cpu l \<longrightarrow> (panics (pc (cpus (advance i t) i)) \<longleftrightarrow> l \<in> held (cpus t i))) \<and>
         (pc (cpus t i) = Releasing l \<longrightarrow> l \<in> held (cpus t i) \<longrightarrow> pc (cpus (advance i (advance i t)) i) = Checked l) \<and>
         (pc (cpus t i) = Releasing_cpu l \<longrightarrow> (panics (pc (cpus (advance i t) i)) \<longleftrightarrow> l \<notin> held (cpus t i)))"
proof -
  have inv: "spin_inv t" by (rule spin.run [OF assms])
  then have c: "cpu_ok (cpus t i)" by (simp add: spin_inv_def)
  note l = lock_okD [OF inv, of l]
  have "locked (locks t l) \<noteq> 0" if "l \<in> held (cpus t i)" using l(2) [of i] that by (auto simp: owns_def)
  then show ?thesis using l(4) [of i] c by (intro conjI impI; simp add: advance_def Let_def go_running cpu_ok_def)
qed

text \<open>An acquire of a free lock that nobody interferes with takes it.\<close>

lemma acquire_free:
  assumes "pc (cpus s i) = Outside" "locked (locks s l) = 0" "\<not> ifl (cpus s i) \<or> ncli (cpus s i) = 0" "0 \<le> ncli (cpus s i)"
  shows "l \<in> held (cpus (advance i (advance i (advance i (set_cpu i ((pushcli (cpus s i))\<lparr>pc := Acquiring l\<rparr>) s)))) i)"
  using assms by (simp add: advance_def Let_def go_running set_cpu_def)

definition demo_smp :: smp where
  "demo_smp = \<lparr>locks = \<lambda>_. initlock, cpus = \<lambda>_. \<lparr>ifl = True, ncli = 0, intena = False, pc = Outside, held = {}, own = 0\<rparr>\<rparr>"

definition demo_held :: smp where
  "demo_held = advance 1 (advance 1 (advance 1 (set_cpu 1 ((pushcli (cpus demo_smp 1))\<lparr>pc := Acquiring 7\<rparr>) demo_smp)))"

lemma demo_spin_run: "spin_init demo_smp" "spin_step\<^sup>*\<^sup>* demo_smp demo_held" "7 \<in> held (cpus demo_held 1)"
proof -
  show "spin_init demo_smp" by (simp add: spin_init_def demo_smp_def)
  let ?a = "set_cpu 1 ((pushcli (cpus demo_smp 1))\<lparr>pc := Acquiring 7\<rparr>) demo_smp"
  have o: "pc (cpus demo_smp 1) = Outside" by (simp add: demo_smp_def)
  have e: "spin_step demo_smp ?a" by (rule call_acquire [OF o])
  have "pc (cpus ?a 1) = Acquiring 7" "pc (cpus (advance 1 ?a) 1) = Spinning 7" "pc (cpus (advance 1 (advance 1 ?a)) 1) = Taken 7"
    by (simp_all add: demo_smp_def set_cpu_def advance_def Let_def go_running initlock_def)
  then have "spin_step ?a (advance 1 ?a)" "spin_step (advance 1 ?a) (advance 1 (advance 1 ?a))"
    "spin_step (advance 1 (advance 1 ?a)) demo_held" unfolding demo_held_def by (auto intro: inside)
  with e show "spin_step\<^sup>*\<^sup>* demo_smp demo_held" by (meson rtranclp.rtrancl_into_rtrancl rtranclp.rtrancl_refl)
  show "7 \<in> held (cpus demo_held 1)" unfolding demo_held_def by (rule acquire_free) (simp_all add: demo_smp_def initlock_def)
qed

theorem spin_mutual_exclusion_witness: "7 \<in> held (cpus demo_held 1) \<and> 7 \<notin> held (cpus demo_held 0) \<and> \<not> ifl (cpus demo_held 1)"
  using spin_mutual_exclusion [OF demo_spin_run(1,2), of 7 1 0] demo_spin_run(3) by auto

theorem spin_panics_exact_witness:
  "spin_step\<^sup>*\<^sup>* demo_smp (set_cpu 1 ((pushcli (cpus demo_held 1))\<lparr>pc := Acquiring 7\<rparr>) demo_held) \<and>
   pc (cpus (advance 1 (advance 1 (set_cpu 1 ((pushcli (cpus demo_held 1))\<lparr>pc := Acquiring 7\<rparr>) demo_held))) 1) = Stopped ''acquire''"
proof -
  let ?t = "set_cpu 1 ((pushcli (cpus demo_held 1))\<lparr>pc := Acquiring 7\<rparr>) demo_held"
  have "pc (cpus demo_held 1) = Outside"
    by (simp add: demo_held_def demo_smp_def set_cpu_def advance_def Let_def go_running initlock_def)
  then have r: "spin_step\<^sup>*\<^sup>* demo_smp ?t" by (rule rtranclp.rtrancl_into_rtrancl [OF demo_spin_run(2) call_acquire])
  then show ?thesis using spin_panics_exact [OF demo_spin_run(1) r, of 1 7] demo_spin_run(3) by (simp add: set_cpu_def)
qed

section \<open>Sleep locks\<close>

record sleeplock =
  slocked :: u32
  spid :: int

text \<open>A process away from the lock, in the loop of \<^verbatim>\<open>acquiresleep\<close>, asleep there, or holding the lock.\<close>

datatype waiting = Away | In_loop | Asleep | Holder

record sleepers =
  sl :: sleeplock
  at_lock :: "nat \<Rightarrow> waiting"

definition initsleeplock :: sleeplock where
  "initsleeplock = \<lparr>slocked = 0, spid = 0\<rparr>"

text \<open>
  A turn of the loop of \<^verbatim>\<open>acquiresleep\<close> by process \<open>p\<close>, under the spin lock; \<^verbatim>\<open>sleep\<close> gives that lock up and marks the
  process as sleeping in one step, which the process table shows (\<^verbatim>\<open>ptable.lock\<close> is taken before the lock is released).
\<close>

definition acquiresleep_turn :: "(nat \<Rightarrow> int) \<Rightarrow> nat \<Rightarrow> sleepers \<Rightarrow> sleepers" where
  "acquiresleep_turn pid p s =
     (if slocked (sl s) \<noteq> 0 then s\<lparr>at_lock := (at_lock s)(p := Asleep)\<rparr>
      else s\<lparr>sl := \<lparr>slocked = 1, spid = pid p\<rparr>, at_lock := (at_lock s)(p := Holder)\<rparr>)"

definition releasesleep :: "nat \<Rightarrow> sleepers \<Rightarrow> sleepers" where
  "releasesleep p s =
     s\<lparr>sl := \<lparr>slocked = 0, spid = 0\<rparr>, at_lock := (\<lambda>q. if at_lock s q = Asleep then In_loop else at_lock s q)(p := Away)\<rparr>"

definition holdingsleep :: "(nat \<Rightarrow> int) \<Rightarrow> nat \<Rightarrow> sleepers \<Rightarrow> bool" where
  "holdingsleep pid p s \<longleftrightarrow> slocked (sl s) \<noteq> 0 \<and> spid (sl s) = pid p"

text \<open>A kill wakes a sleeping process.  A process releases the lock when it holds it.\<close>

inductive sleep_step :: "(nat \<Rightarrow> int) \<Rightarrow> sleepers \<Rightarrow> sleepers \<Rightarrow> bool" for pid where
  enter: "at_lock s p = Away \<or> at_lock s p = In_loop \<Longrightarrow> sleep_step pid s (acquiresleep_turn pid p s)"
| release: "at_lock s p = Holder \<Longrightarrow> sleep_step pid s (releasesleep p s)"
| woken: "at_lock s p = Asleep \<Longrightarrow> sleep_step pid s (s\<lparr>at_lock := (at_lock s)(p := In_loop)\<rparr>)"

definition sleep_init :: "sleepers \<Rightarrow> bool" where
  "sleep_init s \<longleftrightarrow> sl s = initsleeplock \<and> (\<forall>p. at_lock s p = Away)"

definition sleep_inv :: "(nat \<Rightarrow> int) \<Rightarrow> sleepers \<Rightarrow> bool" where
  "sleep_inv pid s \<longleftrightarrow> (slocked (sl s) = 0 \<longrightarrow> (\<forall>p. at_lock s p \<noteq> Holder \<and> at_lock s p \<noteq> Asleep)) \<and>
     (slocked (sl s) \<noteq> 0 \<longrightarrow> (\<exists>p. at_lock s p = Holder \<and> spid (sl s) = pid p \<and> (\<forall>q. at_lock s q = Holder \<longrightarrow> q = p)))"

lemma sleep_turns:
  assumes "sleep_inv pid s"
  shows "at_lock s p = Away \<or> at_lock s p = In_loop \<Longrightarrow> sleep_inv pid (acquiresleep_turn pid p s)"
    "at_lock s p = Holder \<Longrightarrow> sleep_inv pid (releasesleep p s)"
    "at_lock s p = Asleep \<Longrightarrow> sleep_inv pid (s\<lparr>at_lock := (at_lock s)(p := In_loop)\<rparr>)"
proof -
  consider "slocked (sl s) = 0" "\<And>q. at_lock s q \<noteq> Holder" "\<And>q. at_lock s q \<noteq> Asleep"
    | h where "slocked (sl s) \<noteq> 0" "at_lock s h = Holder" "spid (sl s) = pid h" "\<And>q. at_lock s q = Holder \<Longrightarrow> q = h"
    using assms unfolding sleep_inv_def by blast
  note cases = this
  show "sleep_inv pid (acquiresleep_turn pid p s)" if "at_lock s p = Away \<or> at_lock s p = In_loop"
  proof (cases rule: cases)
    case 1
    then show ?thesis by (auto simp: sleep_inv_def acquiresleep_turn_def)
  next
    case (2 h)
    have "h \<noteq> p" using that 2(2) by auto
    moreover have "\<forall>q. ((at_lock s)(p := Asleep)) q = Holder \<longrightarrow> q = h" using 2(4) by (metis fun_upd_apply waiting.distinct(12))
    ultimately show ?thesis using 2(1-3) unfolding sleep_inv_def acquiresleep_turn_def by auto
  qed
  show "sleep_inv pid (releasesleep p s)" if "at_lock s p = Holder"
  proof -
    have "at_lock s q = Holder \<Longrightarrow> q = p" for q by (cases rule: cases) (use that in blast)+
    then show ?thesis unfolding sleep_inv_def releasesleep_def by (simp split: if_splits) metis
  qed
  show "sleep_inv pid (s\<lparr>at_lock := (at_lock s)(p := In_loop)\<rparr>)" if "at_lock s p = Asleep"
  proof (cases rule: cases)
    case (2 h)
    have "h \<noteq> p" using that 2(2) by auto
    moreover have "\<forall>q. ((at_lock s)(p := In_loop)) q = Holder \<longrightarrow> q = h" using 2(4) by (metis fun_upd_apply waiting.distinct(10))
    ultimately show ?thesis using 2(1-3) unfolding sleep_inv_def by auto
  qed (use that in simp)
qed

interpretation sleeping: machine sleep_init "sleep_step pid" "sleep_inv pid"
proof
  show "sleep_inv pid s" if "sleep_init s" for s
    using that by (simp add: sleep_init_def sleep_inv_def initsleeplock_def)
  show "sleep_inv pid t" if "sleep_inv pid s" "sleep_step pid s t" for s t
    using that(2,1) by (induction rule: sleep_step.induct) (auto intro: sleep_turns)
qed

text \<open>
  C10. A sleep lock is held by at most one process, \<open>holdingsleep\<close> is true for it and, process numbers being distinct,
  for no other; and no wakeup is lost: a process sleeps for the lock only while another holds it, and the release
  wakes it.
\<close>

theorem sleeplock_correct:
  assumes "sleep_init s" "(sleep_step pid)\<^sup>*\<^sup>* s t" "inj pid"
  shows "(at_lock t p = Holder \<longrightarrow> at_lock t q = Holder \<longrightarrow> p = q) \<and> (holdingsleep pid p t \<longleftrightarrow> at_lock t p = Holder) \<and>
         (at_lock t p = Asleep \<longrightarrow> (\<exists>h. at_lock t h = Holder \<and> h \<noteq> p \<and> at_lock (releasesleep h t) p = In_loop))"
proof -
  have inv: "sleep_inv pid t" by (rule sleeping.run [OF assms(1,2)])
  then have "holdingsleep pid p t \<longleftrightarrow> at_lock t p = Holder"
    using inj_eq [OF assms(3)] unfolding sleep_inv_def holdingsleep_def by metis
  moreover have "\<exists>h. at_lock t h = Holder \<and> h \<noteq> p \<and> at_lock (releasesleep h t) p = In_loop" if a: "at_lock t p = Asleep"
  proof -
    obtain h where h: "at_lock t h = Holder" using inv a unfolding sleep_inv_def by metis
    then have "h \<noteq> p" using a by auto
    then show ?thesis using h a by (auto simp: releasesleep_def)
  qed
  ultimately show ?thesis using inv unfolding sleep_inv_def by metis
qed

theorem sleeplock_correct_witness:
  "\<exists>t. (sleep_step int)\<^sup>*\<^sup>* \<lparr>sl = initsleeplock, at_lock = \<lambda>_. Away\<rparr> t \<and> holdingsleep int 3 t \<and> \<not> holdingsleep int 4 t"
proof -
  let ?s = "\<lparr>sl = initsleeplock, at_lock = \<lambda>_. Away\<rparr>"
  let ?t = "acquiresleep_turn int 3 ?s"
  have r: "(sleep_step int)\<^sup>*\<^sup>* ?s ?t" by (rule r_into_rtranclp) (rule enter, simp)
  have i: "sleep_init ?s" by (simp add: sleep_init_def)
  have "at_lock ?t 3 = Holder" "at_lock ?t 4 = Away" by (simp_all add: acquiresleep_turn_def initsleeplock_def)
  then show ?thesis using sleeplock_correct [OF i r, of 3 3] sleeplock_correct [OF i r, of 4 4] r by auto
qed

end
