(* ===== verification/Exec.thy ===== *)
theory Exec
  imports Vm_Space File
begin

text \<open>
  \<^verbatim>\<open>exec.c\<close>: replacing the image of a process by a program.  The headers of the program are read as bytes and taken
  apart with the layout of \<^verbatim>\<open>elf.h\<close>.  The phases of \<^verbatim>\<open>exec\<close> are definitions of their own: reading the headers and
  loading the segments, building the user stack with the arguments, and the switch to the new image; \<open>None\<close> stands for
  a jump to the label \<^verbatim>\<open>bad\<close>.  The registers that \<^verbatim>\<open>switchuvm\<close> loads and the message printed for a missing file are
  not part of the state.
\<close>

section \<open>Loading\<close>

abbreviation (input) ELF_MAGIC :: u32 where
  "ELF_MAGIC \<equiv> 0x464C457F"

abbreviation (input) MAXARG :: nat where
  "MAXARG \<equiv> 32"

text \<open>\<^verbatim>\<open>struct elfhdr\<close> is 52 bytes and \<^verbatim>\<open>struct proghdr\<close> is 32.\<close>

record proghdr =
  ph_type :: u32
  ph_off :: u32
  ph_vaddr :: u32
  ph_filesz :: u32
  ph_memsz :: u32

definition proghdr_of :: "u8 list \<Rightarrow> proghdr" where
  "proghdr_of b = \<lparr>ph_type = get32 b 0, ph_off = get32 b 4, ph_vaddr = get32 b 8, ph_filesz = get32 b 16, ph_memsz = get32 b 20\<rparr>"

text \<open>The loop over the program headers, with \<open>n\<close> of them to go; the new size is the result.\<close>

fun load_segments :: "nat \<Rightarrow> u32 \<Rightarrow> u32 \<Rightarrow> u32 \<Rightarrow> iptr \<Rightarrow> vm \<times> 'd fs \<Rightarrow> (u32 option \<times> vm \<times> 'd fs) result" where
  "load_segments 0 off pgdir sz ip (s, f) = Inr (Some sz, s, f)"
| "load_segments (Suc n) off pgdir sz ip (s, f) =
     bindE (readi ip off 32 f) (\<lambda>(r, b, f).
     if r \<noteq> 32 then Inr (None, s, f)
     else
       let ph = proghdr_of b in
       if ph_type ph \<noteq> 1 then load_segments n (off + 32) pgdir sz ip (s, f)
       else if ph_memsz ph < ph_filesz ph then Inr (None, s, f)
       else if ph_vaddr ph + ph_memsz ph < ph_vaddr ph then Inr (None, s, f)
       else bindE (allocuvm pgdir sz (ph_vaddr ph + ph_memsz ph) s) (\<lambda>(sz, s).
            if sz = 0 then Inr (None, s, f)
            else if ph_vaddr ph mod PGSIZE \<noteq> 0 then Inr (None, s, f)
            else bindE (loaduvm pgdir (ph_vaddr ph) ip (ph_off ph) (ph_filesz ph) (s, f)) (\<lambda>(r, s, f).
                 if r < 0 then Inr (None, s, f) else load_segments n (off + 32) pgdir sz ip (s, f))))"

text \<open>
  From the ELF header on: the page directory, 0 if there is none, and, when everything is loaded, the size and the
  entry point.
\<close>

definition load_image :: "iptr \<Rightarrow> vm \<times> 'd fs \<Rightarrow> (u32 \<times> (u32 \<times> u32) option \<times> vm \<times> 'd fs) result" where
  "load_image ip = (\<lambda>(s, f).
     bindE (readi ip 0 52 f) (\<lambda>(r, elf, f).
     if r \<noteq> 52 then Inr (0, None, s, f)
     else if get32 elf 0 \<noteq> ELF_MAGIC then Inr (0, None, s, f)
     else bindE (setupkvm s) (\<lambda>(pgdir, s).
          if pgdir = 0 then Inr (0, None, s, f)
          else bindE (load_segments (unat (get16 elf 44)) (get32 elf 28) pgdir 0 ip (s, f)) (\<lambda>(r, s, f).
               Inr (pgdir, map_option (\<lambda>sz. (sz, get32 elf 24)) r, s, f)))))"

section \<open>The user stack\<close>

text \<open>The loop that pushes the arguments, given without their terminating zeros; \<open>us\<close> are the words of \<^verbatim>\<open>ustack\<close> from 3 on.\<close>

fun push_args :: "u32 \<Rightarrow> cstr list \<Rightarrow> u32 \<Rightarrow> u32 list \<Rightarrow> vm \<Rightarrow> ((u32 \<times> u32 list) option \<times> vm) result" where
  "push_args pgdir [] sp us s = Inr (Some (sp, us), s)"
| "push_args pgdir (a # argv) sp us s =
     (if length us \<ge> MAXARG then Inr (None, s)
      else
        let sp = (sp - (of_nat (length a) + 1)) AND NOT 3 in
        bindE (copyout pgdir sp (a @ [0]) s) (\<lambda>(r, s).
        if r < 0 then Inr (None, s) else push_args pgdir argv sp (us @ [sp]) s))"

definition word_bytes :: "u32 \<Rightarrow> u8 list" where
  "word_bytes w = [ucast w, ucast (drop_bit 8 w), ucast (drop_bit 16 w), ucast (drop_bit 24 w)]"

definition user_stack :: "u32 \<Rightarrow> u32 \<Rightarrow> cstr list \<Rightarrow> vm \<Rightarrow> ((u32 \<times> u32) option \<times> vm) result" where
  "user_stack pgdir sz argv s =
     (let sz = PGROUNDUP sz in
      bindE (allocuvm pgdir sz (sz + 2 * PGSIZE) s) (\<lambda>(sz, s).
      if sz = 0 then Inr (None, s)
      else bindE (clearpteu pgdir (sz - 2 * PGSIZE) s) (\<lambda>s.
           bindE (push_args pgdir argv sz [] s) (\<lambda>(r, s).
           case r of
             None \<Rightarrow> Inr (None, s)
           | Some (sp, us) \<Rightarrow>
               let argc = of_nat (length us);
                   ustack = [0xFFFFFFFF, argc, sp - (argc + 1) * 4] @ us @ [0];
                   sp = sp - (3 + argc + 1) * 4
               in bindE (copyout pgdir sp (concat (map word_bytes ustack)) s) (\<lambda>(r, s).
                  Inr (if r < 0 then None else Some (sp, sz), s))))))"

section \<open>The system call\<close>

text \<open>The fields of the process that \<^verbatim>\<open>exec\<close> changes.\<close>

record image =
  im_pgdir :: u32
  im_sz :: u32
  im_eip :: u32
  im_esp :: u32
  im_name :: cstr

text \<open>The part of the path behind the last slash.\<close>

definition last_name :: "cstr \<Rightarrow> cstr" where
  "last_name path = rev (takeWhile (\<lambda>c. c \<noteq> 47) (rev path))"

text \<open>Behind the label \<^verbatim>\<open>bad\<close>, on the side of memory.\<close>

definition give_up :: "u32 \<Rightarrow> vm \<Rightarrow> vm result" where
  "give_up pgdir s = (if pgdir \<noteq> 0 then freevm pgdir s else Inr s)"

text \<open>Behind the loading: the stack, and the commit or the way back.\<close>

definition finish_image :: "u32 \<Rightarrow> u32 \<Rightarrow> u32 \<Rightarrow> cstr \<Rightarrow> cstr list \<Rightarrow> image \<Rightarrow> vm \<Rightarrow> (int \<times> image \<times> vm) result" where
  "finish_image pgdir sz entry path argv p s =
     bindE (user_stack pgdir sz argv s) (\<lambda>(r, s).
     case r of
       None \<Rightarrow> bindE (give_up pgdir s) (\<lambda>s. Inr (-1, p, s))
     | Some (sp, sz) \<Rightarrow>
         bindE (freevm (im_pgdir p) s) (\<lambda>s.
         Inr (0, \<lparr>im_pgdir = pgdir, im_sz = sz, im_eip = entry, im_esp = sp, im_name = safestrcpy (last_name path) 16\<rparr>, s)))"

definition exec :: "iptr \<Rightarrow> cstr \<Rightarrow> cstr list \<Rightarrow> image \<Rightarrow> vm \<times> 'd fs \<Rightarrow> (int \<times> image \<times> vm \<times> 'd fs) result" where
  "exec wd path argv p = (\<lambda>(s, f).
     let dev = (\<lambda>f. i_dev (ino f wd)) in
     bindE (fbegin_op (dev f) f) (\<lambda>f.
     bindE (namei wd path f) (\<lambda>(ipo, f).
     case ipo of
       None \<Rightarrow> bindE (fend_op (dev f) f) (\<lambda>f. Inr (-1, p, s, f))
     | Some ip \<Rightarrow>
         bindE (ilock ip f) (\<lambda>f.
         bindE (load_image ip (s, f)) (\<lambda>(pgdir, r, s, f).
         case r of
           None \<Rightarrow>
             bindE (give_up pgdir s) (\<lambda>s.
             bindE (iunlockput ip f) (\<lambda>f. bindE (fend_op (dev f) f) (\<lambda>f. Inr (-1, p, s, f))))
         | Some (sz, entry) \<Rightarrow>
             bindE (iunlockput ip f) (\<lambda>f.
             bindE (fend_op (dev f) f) (\<lambda>f.
             bindE (finish_image pgdir sz entry path argv p s) (\<lambda>(r, p, s). Inr (r, p, s, f)))))))))"

end
