(* ===== verification/Exec_Props.thy ===== *)
theory Exec_Props
  imports Fs_Props Exec
begin

text \<open>
  What \<^verbatim>\<open>exec\<close> does to memory.  A new address space is built from pages that were free; \<open>building\<close> says that every
  page that was free at the start is free or in the new address space and that nothing else was touched, so that
  giving up returns all pages and leaves the old image as it was.
\<close>

section \<open>Building an address space\<close>

abbreviation vpages :: "vm \<Rightarrow> u32 \<Rightarrow> u32 set" where
  "vpages \<equiv> Vm_Space.pages"

definition building :: "vm \<Rightarrow> u32 set \<Rightarrow> u32 \<Rightarrow> vm \<Rightarrow> u32 list \<Rightarrow> bool" where
  "building s0 A d s fs \<longleftrightarrow> space_ok s d fs \<and> set fs \<union> vpages s d = A \<and> vkeeps A s0 s"

text \<open>Exactly the user pages below a size are mapped.\<close>

definition sized :: "vm \<Rightarrow> u32 \<Rightarrow> u32 \<Rightarrow> bool" where
  "sized s d sz \<longleftrightarrow> unat sz \<le> 2147483648 \<and> (\<forall>i < UPAGES. present (pte s d i) \<longleftrightarrow> i * PGSIZE < unat sz)"

lemma frames_split: "frames s d R = frames s d (\<lambda>i. R i \<and> Q i) \<union> frames s d (\<lambda>i. R i \<and> \<not> Q i)"
  unfolding frames_def by blast

lemma building_added:
  assumes b: "building s0 A d s fs" and a: "added d R s fs s' fs'" and np: "\<forall>i. R i \<longrightarrow> i < UPAGES \<and> \<not> present (pte s d i)"
  shows "building s0 A d s' fs'"
proof -
  let ?U = "\<lambda>i. i < UPAGES"
  have p: "pte s' d i = pte s d i" if "i < UPAGES" "\<not> R i" for i using a that by (auto simp: added_def)
  have "frames s' d (\<lambda>i. ?U i \<and> \<not> R i) = frames s d (\<lambda>i. ?U i \<and> \<not> R i)" using p by (intro frames_cong) simp
  also have "\<dots> = frames s d ?U" using np unfolding frames_def by metis
  finally have "frames s' d ?U = frames s' d (\<lambda>i. ?U i \<and> R i) \<union> frames s d ?U" using frames_split [of s' d ?U R] by simp
  moreover have "frames s' d (\<lambda>i. ?U i \<and> R i) = frames s' d R" using np unfolding frames_def by metis
  ultimately have f: "frames s' d ?U = frames s' d R \<union> frames s d ?U" by simp
  have "set fs' \<union> tabs s' d \<union> frames s' d R = set fs \<union> tabs s d" using a by (simp add: added_def)
  then have "set fs' \<union> vpages s' d = set fs \<union> vpages s d" unfolding Vm_Space.pages_def f by blast
  moreover have "vkeeps A s s'" using a b unfolding added_def building_def Vm_Space.pages_def by (auto intro: vkeeps_mono)
  ultimately show ?thesis using a b vkeeps_trans [of A s0 s s'] by (simp add: building_def added_def)
qed

lemma building_dropped:
  assumes b: "building s0 A d s fs" and a: "dropped d R s fs s' fs'" and np: "\<forall>i. R i \<longrightarrow> i < UPAGES \<and> \<not> present (pte s d i)"
  shows "building s0 A d s' fs'"
proof -
  have "pte s' d i = pte s d i \<or> \<not> present (pte s' d i) \<and> \<not> present (pte s d i)" if "i < UPAGES" for i
    using a np that by (cases "R i") (auto simp: dropped_def)
  then have f: "frames s' d (\<lambda>i. i < UPAGES) = frames s d (\<lambda>i. i < UPAGES)" unfolding frames_def by metis
  have "frames s d R = {}" using np by (auto simp: frames_def)
  then have "set fs' \<union> tabs s' d = set fs \<union> tabs s d" "vkeeps (set fs \<union> insert d (tabs s d)) s s'" using a by (simp_all add: dropped_def)
  moreover from this(1) have "set fs' \<union> vpages s' d = set fs \<union> vpages s d" unfolding Vm_Space.pages_def f by blast
  ultimately have "vkeeps A s s'" "set fs' \<union> vpages s' d = A"
    using b unfolding building_def Vm_Space.pages_def by (auto intro: vkeeps_mono)
  then show ?thesis using a b vkeeps_trans [of A s0 s s'] by (simp add: building_def dropped_def)
qed

text \<open>\<^verbatim>\<open>allocuvm\<close> with any size, as \<^verbatim>\<open>exec\<close> calls it.\<close>

lemma allocuvm_building:
  assumes b: "building s0 A d s fs" and z: "sized s d sz"
  shows "\<exists>r s' fs'. allocuvm d sz new s = Inr (r, s') \<and> building s0 A d s' fs' \<and>
     (r = 0 \<or> sized s' d r \<and> unat sz \<le> unat r \<and> unat new \<le> unat r \<and>
       (sz \<le> new \<longrightarrow> r = new \<and> (\<forall>i. in_range ((unat sz + 4095) div PGSIZE) new i \<longrightarrow> pte s' d i AND PTE_U \<noteq> 0)))"
proof -
  consider "new \<ge> KERNBASE" | "new < KERNBASE" "new < sz" | "new < KERNBASE" "sz \<le> new" by force
  then show ?thesis
  proof cases
    case 1
    then show ?thesis using b by (auto simp: allocuvm_def)
  next
    case 2
    then have "unat new \<le> unat sz" "\<not> sz \<le> new" by (auto simp: word_less_nat_alt word_le_nat_alt)
    then show ?thesis using 2 b z by (auto simp: allocuvm_def)
  next
    case 3
    let ?R = "in_range ((unat sz + 4095) div PGSIZE) new"
    have n: "unat new < 2147483648" "unat sz \<le> unat new" using 3 by (simp_all add: word_le_nat_alt word_less_nat_alt)
    have R: "?R i \<longleftrightarrow> \<not> i * PGSIZE < unat sz \<and> i * PGSIZE < unat new" for i by (auto simp: in_range_def)
    have np: "\<forall>i. ?R i \<longrightarrow> i < UPAGES \<and> \<not> present (pte s d i)" using z n(1) unfolding R sized_def by auto
    obtain r s' fs' where r: "allocuvm d sz new s = Inr (r, s')" "r = new \<and> added d ?R s fs s' fs' \<or> r = 0 \<and> dropped d ?R s fs s' fs'"
      using allocuvm_ok [of s d fs sz new] b np 3 unfolding building_def by blast
    show ?thesis
    proof (cases "r = new \<and> added d ?R s fs s' fs'")
      case True
      have e: "\<exists>p. pte s' d i = V2P p OR 15 \<and> free_page (vkend s) p" if iR: "?R i" for i
      proof -
        have i: "i < 1048576" using np iR by auto
        then obtain p where "p \<in> set fs" "pte s' d i = V2P p OR 15" using True iR unfolding added_def by metis
        then show ?thesis using b by (auto simp: building_def space_ok_def tables_ok_def kmem_pages_def)
      qed
      have "present (pte s' d i) \<longleftrightarrow> i * PGSIZE < unat new" if "i < UPAGES" for i
      proof (cases "?R i")
        case True2: True
        then show ?thesis using e [OF True2] R new_pde(2) by auto
      next
        case False
        then have "pte s' d i = pte s d i" using True that by (auto simp: added_def)
        then show ?thesis using z that False n(2) unfolding R sized_def by auto
      qed
      then have "sized s' d new" using n(1) by (simp add: sized_def)
      moreover have "pte s' d i AND PTE_U \<noteq> 0" if iR: "?R i" for i
      proof -
        obtain p where "pte s' d i = V2P p OR 15" using e [OF iR] by blast
        moreover have "bit ((V2P p OR 15) AND 4 :: u32) 2" unfolding bit_and_iff bit_or_iff by (simp add: bit_iff_odd)
        ultimately show ?thesis by auto
      qed
      ultimately show ?thesis using r(1) True building_added [OF b _ np] n(2) by blast
    next
      case False
      then show ?thesis using r building_dropped [OF b _ np] by blast
    qed
  qed
qed

section \<open>Bytes of user pages\<close>

lemma store_other: "\<not> unat (x - p) < length bs \<Longrightarrow> length bs \<le> 2 ^ 32 \<Longrightarrow> store b p bs x = b x"
proof (induction bs arbitrary: b p)
  case (Cons c bs)
  have "x \<noteq> p" using Cons.prems(1) by auto
  then have "unat (x - p) = Suc (unat (x - (p + 1)))" using ahead_minus(1) [of x p] by simp
  then show ?case using Cons \<open>x \<noteq> p\<close> by simp
qed simp

lemma store_at: "j < length bs \<Longrightarrow> length bs \<le> 2 ^ 32 \<Longrightarrow> store b p bs (p + of_nat j) = bs ! j"
proof (induction bs arbitrary: b p j)
  case (Cons c bs)
  show ?case
  proof (cases j)
    case 0
    have "unat (p - (p + 1)) = 2 ^ 32 - 1" by (simp add: unsigned_minus_1_eq_mask mask_eq_exp_minus_1)
    then have "\<not> unat (p - (p + 1)) < length bs" using Cons.prems(2) by simp
    then show ?thesis using 0 store_other [of p "p + 1" bs "b(p := c)"] Cons.prems(2) by simp
  next
    case (Suc k)
    then have "p + of_nat j = p + 1 + of_nat k" by simp
    then show ?thesis using Suc Cons.IH [of k "b(p := c)" "p + 1"] Cons.prems by (simp add: fun_upd_def add.assoc)
  qed
qed simp

lemma upd_bytes_simps [simp]:
  "ent (upd_bytes f s) = ent s" "vkend (upd_bytes f s) = vkend s" "kdata (upd_bytes f s) = kdata s"
  "bytes (vkm (upd_bytes f s)) = f (bytes (vkm s))" "kmem_pages e (vkm (upd_bytes f s)) fs = kmem_pages e (vkm s) fs"
  by (simp_all add: upd_bytes_def)

lemma upd_bytes_tables [simp]:
  "tab (upd_bytes f s) d = tab s d" "tabs (upd_bytes f s) d = tabs s d" "dirs (upd_bytes f s) d = dirs s d"
  "pte (upd_bytes f s) d = pte s d" "frames (upd_bytes f s) d R = frames s d R" "vpages (upd_bytes f s) d = vpages s d"
  "space_ok (upd_bytes f s) d fs = space_ok s d fs"
proof -
  show tb: "tab (upd_bytes f s) d = tab s d" by (simp add: tab_def fun_eq_iff)
  show ds: "dirs (upd_bytes f s) d = dirs s d" by (simp add: dirs_def)
  show ts: "tabs (upd_bytes f s) d = tabs s d" by (simp add: tabs_def tb ds)
  show p: "pte (upd_bytes f s) d = pte s d" by (simp add: pte_def tb fun_eq_iff)
  show f: "frames (upd_bytes f s) d R = frames s d R" for R by (simp add: frames_def p)
  show "vpages (upd_bytes f s) d = vpages s d" by (simp add: Vm_Space.pages_def ts f)
  show "space_ok (upd_bytes f s) d fs = space_ok s d fs" by (simp add: space_ok_def tables_ok_def ts ds tb p)
qed

lemma building_bytes:
  assumes "building s0 A d s fs" "q \<in> A" "\<And>x. \<not> unat (x - q) < PGSIZE \<Longrightarrow> f (bytes (vkm s)) x = bytes (vkm s) x"
  shows "building s0 A d (upd_bytes f s) fs"
proof -
  have "vkeeps A s (upd_bytes f s)" using assms(2,3) by (auto simp: vkeeps_def)
  then show ?thesis using assms(1) vkeeps_trans [of A s0 s] by (simp add: building_def)
qed

lemma frame_in_pages: "i < UPAGES \<Longrightarrow> present (pte s d i) \<Longrightarrow> frame (pte s d i) \<in> vpages s d"
  by (auto simp: Vm_Space.pages_def frames_def)

lemma walk_present:
  assumes "present (pte s d (vpn va))"
  shows "walkpgdir d va False s = (Some (tab s d (vpn va div 1024), vpn va mod 1024), s)"
    "ent s (tab s d (vpn va div 1024)) (vpn va mod 1024) = pte s d (vpn va)"
  using assms by (auto simp: walkpgdir_def index_vpn tab_def pte_def split: if_splits)

section \<open>Loading\<close>

text \<open>A file from which \<^verbatim>\<open>readi\<close> reads: what the file system asks of its state.\<close>

definition readable :: "u32 \<Rightarrow> nat \<Rightarrow> nat \<Rightarrow> iptr \<Rightarrow> 'd fs \<Rightarrow> bool" where
  "readable dev h m ip f \<longleftrightarrow> tx dev (Suc h) m f \<and> whole_file dev ip f \<and> fheld f = {}"

lemma readi_readable:
  assumes "readable dev h m ip f"
  shows "\<exists>r bs f'. readi ip off n f = Inr (r, bs, f') \<and> readable dev h m ip f' \<and> length bs \<le> unat n"
proof (cases "off \<le> i_size (ino f ip) \<and> off \<le> off + n")
  case True
  then obtain f' where f': "readi ip off n f = Inr (int (length (take (unat n) (drop (unat off) (fbytes dev ip f)))),
      take (unat n) (drop (unat off) (fbytes dev ip f)), f')" "tx dev (Suc h) m f'" "fcur f' = fcur f" "keeps f f'"
    using readi_ok [of dev h m f ip off n] assms unfolding readable_def by blast
  have "whole_file dev ip f" using assms by (simp add: readable_def)
  then have "whole_file dev ip f'" using keeps_file_ok(1,2) [OF f'(4,3), of dev ip] keeps_fields(6) [OF f'(4)] by (simp add: whole_file_def)
  then show ?thesis using f' keeps_fields(4) [OF f'(4)] assms by (auto simp: readable_def)
next
  case False
  have "i_type (ino f ip) \<noteq> T_DEV" using assms by (simp add: readable_def whole_file_def)
  then have "readi ip off n f = Inr (-1, [], f)" using False by (auto simp: readi_def Let_def)
  then show ?thesis using assms by simp
qed

text \<open>The pages of a range that lies below the size are there.\<close>

lemma sized_present:
  assumes "sized s d sz" "unat va < unat sz"
  shows "vpn va < UPAGES" "present (pte s d (vpn va))"
proof -
  have "vpn va * PGSIZE \<le> unat va" by (simp add: vpn_def)
  then have "vpn va * PGSIZE < unat sz" using assms(2) by simp
  then show "vpn va < UPAGES" "present (pte s d (vpn va))" using assms(1) by (auto simp: sized_def)
qed

lemma load_loop_building:
  assumes "building s0 A d s fs" "sized s d sz" "readable dev h m ip f"
    and "unat addr + unat len \<le> unat sz" "addr mod PGSIZE = 0"
  shows "\<exists>r s' f'. load_loop d addr ip off len i (s, f) = Inr (r, s', f') \<and> building s0 A d s' fs \<and> pte s' d = pte s d \<and> readable dev h m ip f'"
  using assms
proof (induction "unat len - i" arbitrary: i s f rule: less_induct)
  case less
  note b = less.prems(1) and z = less.prems(2) and f = less.prems(3)
  show ?case
  proof (cases "i < unat len")
    case False
    then show ?thesis using b f by (subst load_loop.simps) simp
  next
    case True
    let ?va = "addr + of_nat i" and ?n = "of_nat (min (unat len - i) PGSIZE) :: u32"
    have "unat sz \<le> 2147483648" using z by (simp add: sized_def)
    then have va: "unat ?va = unat addr + i" using True less.prems(4) by (subst unat_u32_add) (simp_all add: unat_u32_of_nat)
    have "unat ?va < unat sz" using va True less.prems(4) by linarith
    note pr = sized_present [OF z this]
    note w = walk_present [OF pr(2)]
    let ?q = "frame (pte s d (vpn ?va))"
    obtain r bs f' where r: "readi ip (off + of_nat i) ?n f = Inr (r, bs, f')" "readable dev h m ip f'" "length bs \<le> unat ?n"
      using readi_readable [OF f] by blast
    have len: "length bs \<le> PGSIZE" using r(3) by (simp add: unat_u32_of_nat)
    let ?s = "upd_bytes (\<lambda>b. store b ?q bs) s"
    have "?q \<in> A" using frame_in_pages [OF pr] b by (auto simp: building_def)
    then have b2: "building s0 A d ?s fs" using len by (intro building_bytes [OF b]) (auto intro!: store_other)
    have z2: "sized ?s d sz" using z by (simp add: sized_def)
    have e: "load_loop d addr ip off len i (s, f) =
        (if word_of_int r \<noteq> ?n then Inr (-1, ?s, f') else load_loop d addr ip off len (i + PGSIZE) (?s, f'))"
      using True w r(1) by (subst load_loop.simps) (simp add: Let_def frame_def)
    show ?thesis
    proof (cases "word_of_int r = ?n")
      case True2: True
      have "unat len - (i + PGSIZE) < unat len - i" using True by simp
      from less.hyps [OF this b2 z2 r(2) less.prems(4,5)] show ?thesis using e True2 by simp
    next
      case False
      then show ?thesis using e b2 r(2) by simp
    qed
  qed
qed

lemma load_segments_building:
  "building s0 A d s fs \<Longrightarrow> sized s d sz \<Longrightarrow> readable dev h m ip f \<Longrightarrow>
   \<exists>r s' f' fs'. load_segments n off d sz ip (s, f) = Inr (r, s', f') \<and> building s0 A d s' fs' \<and> readable dev h m ip f' \<and>
     (\<forall>sz'. r = Some sz' \<longrightarrow> sized s' d sz')"
proof (induction n arbitrary: off sz s f fs)
  case 0
  then show ?case by auto
next
  case (Suc n)
  note b = Suc.prems(1) and z = Suc.prems(2)
  obtain r hd f1 where r: "readi ip off 32 f = Inr (r, hd, f1)" "readable dev h m ip f1" using readi_readable [OF Suc.prems(3)] by blast
  define ph where "ph = proghdr_of hd"
  let ?new = "ph_vaddr ph + ph_memsz ph"
  show ?case
  proof (cases "r \<noteq> 32 \<or> ph_memsz ph < ph_filesz ph \<and> ph_type ph = 1 \<or> ?new < ph_vaddr ph \<and> ph_type ph = 1")
    case True
    then show ?thesis using r b by (auto simp: Let_def ph_def)
  next
    case ok: False
    show ?thesis
    proof (cases "ph_type ph = 1")
      case False
      then show ?thesis using ok r Suc.IH [OF b z r(2), of "off + 32"] by (simp add: Let_def ph_def)
    next
      case True
      obtain sz1 s1 fs1 where a: "allocuvm d sz ?new s = Inr (sz1, s1)" "building s0 A d s1 fs1"
        "sz1 = 0 \<or> sized s1 d sz1 \<and> unat ?new \<le> unat sz1" using allocuvm_building [OF b z, of ?new] by blast
      show ?thesis
      proof (cases "sz1 = 0 \<or> ph_vaddr ph mod PGSIZE \<noteq> 0")
        case True2: True
        then show ?thesis using True ok r a(1,2) by (auto simp: Let_def ph_def)
      next
        case False
        then have z1: "sized s1 d sz1" "unat ?new \<le> unat sz1" "ph_vaddr ph mod PGSIZE = 0" using a(3) by auto
        have "unat ?new = unat (ph_vaddr ph) + unat (ph_memsz ph)" using ok True by (simp add: not_less unat_plus_simple)
        moreover have "unat (ph_filesz ph) \<le> unat (ph_memsz ph)" using ok True by (simp add: not_less word_le_nat_alt)
        ultimately have "unat (ph_vaddr ph) + unat (ph_filesz ph) \<le> unat sz1" using z1(2) by simp
        from load_loop_building [OF a(2) z1(1) r(2) this z1(3), of "ph_off ph" 0]
        obtain x s2 f2 where l: "loaduvm d (ph_vaddr ph) ip (ph_off ph) (ph_filesz ph) (s1, f1) = Inr (x, s2, f2)"
          "building s0 A d s2 fs1" "pte s2 d = pte s1 d" "readable dev h m ip f2"
          using z1(3) by (auto simp: loaduvm_def)
        have z2: "sized s2 d sz1" using z1(1) l(3) by (simp add: sized_def)
        show ?thesis
          using True ok r a(1) False l Suc.IH [OF l(2) z2 l(4), of "off + 32"] by (cases "x < 0") (auto simp: Let_def ph_def)
      qed
    qed
  qed
qed

text \<open>
  Loading a program never faults.  Without a page directory every page is free again; with one, the new address
  space is well formed and takes its pages from the free ones.
\<close>

lemma load_image_ok:
  assumes sp: "space_ok s pd fs" and lay: "layout_ok (kdata s)" and rd: "readable dev h m ip f"
  shows "\<exists>d r s' f' fs'. load_image ip (s, f) = Inr (d, r, s', f') \<and> readable dev h m ip f' \<and>
     (d = 0 \<and> r = None \<and> given_up s (set fs) s' fs' \<or>
      d \<noteq> 0 \<and> building s (set fs) d s' fs' \<and> (\<forall>sz e. r = Some (sz, e) \<longrightarrow> sized s' d sz))"
proof -
  have km: "kmem_pages (vkend s) (vkm s) fs" "KERNBASE < vkend s" using sp by (auto simp: space_ok_def tables_ok_def)
  have same: "given_up s (set fs) s fs" using km(1) by (simp add: given_up_def)
  obtain x elf f1 where r: "readi ip 0 52 f = Inr (x, elf, f1)" "readable dev h m ip f1" using readi_readable [OF rd] by blast
  show ?thesis
  proof (cases "x \<noteq> 52 \<or> get32 elf 0 \<noteq> ELF_MAGIC")
    case True
    then show ?thesis using r same by (auto simp: load_image_def)
  next
    case False
    obtain d s1 fs1 where k: "setupkvm s = Inr (d, s1)"
      "d \<noteq> 0 \<and> space_ok s1 d fs1 \<and> set fs1 \<union> vpages s1 d = set fs \<and> vkeeps (set fs) s s1 \<and> (\<forall>i < UPAGES. \<not> present (pte s1 d i)) \<or>
       d = 0 \<and> given_up s (set fs) s1 fs1"
      using setupkvm_ok [OF km lay] by blast
    show ?thesis
    proof (cases "d = 0")
      case True
      then show ?thesis using False r k by (auto simp: load_image_def)
    next
      case d: False
      then have "building s (set fs) d s1 fs1" "sized s1 d 0" using k(2) by (auto simp: building_def sized_def)
      from load_segments_building [OF this r(2), of "unat (get16 elf 44)" "get32 elf 28"]
      obtain y s2 f2 fs2 where l: "load_segments (unat (get16 elf 44)) (get32 elf 28) d 0 ip (s1, f1) = Inr (y, s2, f2)"
        "building s (set fs) d s2 fs2" "readable dev h m ip f2" "\<forall>sz. y = Some sz \<longrightarrow> sized s2 d sz" by blast
      then show ?thesis using False r(1) k(1) d by (auto simp: load_image_def)
    qed
  qed
qed

section \<open>The user stack\<close>

lemma set_pte_building:
  assumes b: "building s0 A d s fs" and k: "k < UPAGES" "present (pte s d k)" and x: "present x" "frame x = frame (pte s d k)"
  defines "s' \<equiv> set_ent (tab s d (k div 1024)) (k mod 1024) x s"
  shows "building s0 A d s' fs" "i < 1048576 \<Longrightarrow> pte s' d i = (if i = k then x else pte s d i)"
proof -
  have sp: "space_ok s d fs" "tables_ok s d fs" using b by (auto simp: building_def space_ok_def)
  have pd: "present (ent s d (k div 1024))" using k(2) by (auto simp: pte_def split: if_splits)
  have k': "k < 1048576" using k(1) by simp
  note e = set_entry [OF sp(2) k' pd, where x = x, folded s'_def]
  show p: "pte s' d i = (if i = k then x else pte s d i)" if "i < 1048576" for i using e(3) that .
  have same: "present (pte s' d i) = present (pte s d i) \<and> frame (pte s' d i) = frame (pte s d i)" if "i < UPAGES" for i
    using p [of i] that k(2) x by simp
  have fr: "frames s' d (\<lambda>i. i < UPAGES) = frames s d (\<lambda>i. i < UPAGES)" using same unfolding frames_def by metis
  have "owns (vkend s) d (tabs s d) (set fs) (pte s' d)" using sp(1) same unfolding space_ok_def owns_def by metis
  then have "space_ok s' d fs" using e(1,2) sp(1) by (simp add: space_ok_def s'_def)
  moreover have "vpages s' d = vpages s d" using e(2) fr by (simp add: Vm_Space.pages_def)
  moreover have "tab s d (k div 1024) \<in> A"
    using tab_in_tabs [of "k div 1024" s d] pd k' b by (auto simp: building_def Vm_Space.pages_def less_mult_imp_div_less)
  then have "vkeeps A s s'" unfolding s'_def by (intro vkeeps_mono [OF vkeeps_set_ent]) simp
  ultimately show "building s0 A d s' fs" using b vkeeps_trans [of A s0 s s'] by (simp add: building_def)
qed

lemma clear_user:
  "present x \<Longrightarrow> present (x AND NOT PTE_U)" "frame (x AND NOT PTE_U) = frame x" "(x AND NOT PTE_U) AND PTE_U = 0"
proof -
  show "present x \<Longrightarrow> present (x AND NOT PTE_U)" unfolding present_odd by (simp add: even_and_iff even_not_iff)
  have "NOT (4 :: u32) AND NOT 0xFFF = NOT (4 OR 0xFFF)" by (simp only: bit.de_Morgan_disj)
  then have "NOT (4 :: u32) AND NOT 0xFFF = NOT 0xFFF" by simp
  then have "PTE_ADDR (x AND NOT 4) = PTE_ADDR x" unfolding PTE_ADDR_def by (simp only: and.assoc)
  then show "frame (x AND NOT PTE_U) = frame x" by (simp add: frame_def)
  show "(x AND NOT PTE_U) AND PTE_U = 0" by (simp add: and.assoc)
qed

text \<open>A page \<open>k\<close> for the stack with an inaccessible page below it, and the bytes of the stack page.\<close>

definition stack_area :: "vm \<Rightarrow> u32 \<Rightarrow> nat \<Rightarrow> bool" where
  "stack_area s d k \<longleftrightarrow> 0 < k \<and> k < UPAGES \<and> present (pte s d k) \<and> pte s d k AND PTE_U \<noteq> 0 \<and>
     present (pte s d (k - 1)) \<and> pte s d (k - 1) AND PTE_U = 0"

definition stack_byte :: "vm \<Rightarrow> u32 \<Rightarrow> nat \<Rightarrow> nat \<Rightarrow> u8" where
  "stack_byte s d k j = content s (frame (pte s d k)) j"

definition patched :: "u8 list \<Rightarrow> nat \<Rightarrow> (nat \<Rightarrow> u8) \<Rightarrow> nat \<Rightarrow> u8" where
  "patched buf off f j = (if off \<le> j \<and> j < off + length buf then buf ! (j - off) else f j)"

lemma vpn_rounddown: "vpn (PGROUNDDOWN va) = vpn va"
  by (simp add: vpn_def [of "PGROUNDDOWN va"] unat_rounddown)

lemma user_frame:
  assumes "building s0 A d s fs" "i < UPAGES" "present (pte s d i)"
  shows "frame (pte s d i) \<noteq> 0" "frame (pte s d i) \<in> A" "free_page (vkend s) (frame (pte s d i))" "KERNBASE < vkend s"
  using assms frame_in_pages [OF assms(2,3)] by (auto simp: building_def space_ok_def owns_def)

lemma copyout_stack:
  assumes b: "building s0 A d s fs" and a: "stack_area s d k" and lo: "(k - 1) * PGSIZE \<le> unat va"
    and hi: "unat va + length buf \<le> (k + 1) * PGSIZE" and ne: "buf \<noteq> []"
  shows "unat va < k * PGSIZE \<Longrightarrow> copyout d va buf s = Inr (-1, s)"
    and "k * PGSIZE \<le> unat va \<Longrightarrow> \<exists>s'. copyout d va buf s = Inr (0, s') \<and> building s0 A d s' fs \<and> pte s' d = pte s d \<and>
          (\<forall>j < PGSIZE. stack_byte s' d k j = patched buf (unat va - k * PGSIZE) (stack_byte s d k) j)"
proof -
  have k: "0 < k" "k < UPAGES" using a by (auto simp: stack_area_def)
  have bl: "0 < length buf" using ne by simp
  have vp: "vpn va = (if unat va < k * PGSIZE then k - 1 else k)"
  proof (cases "unat va < k * PGSIZE")
    case True
    then have "unat va div PGSIZE < k" "k - 1 \<le> unat va div PGSIZE" using lo by (simp_all add: less_mult_imp_div_less less_eq_div_iff_mult_less_eq)
    then show ?thesis using True by (simp add: vpn_def)
  next
    case False
    have "unat va < (k + 1) * PGSIZE" using hi bl by linarith
    then have "unat va div PGSIZE < k + 1" by (rule less_mult_imp_div_less)
    moreover have "k \<le> unat va div PGSIZE" using False by (simp add: less_eq_div_iff_mult_less_eq)
    ultimately have "unat va div PGSIZE < k + 1" "k \<le> unat va div PGSIZE" by simp_all
    then show ?thesis using False by (simp add: vpn_def)
  qed
  have pr: "present (pte s d (vpn (PGROUNDDOWN va)))" using vp a by (simp add: vpn_rounddown stack_area_def)
  note w = walk_present [OF pr]
  show "copyout d va buf s = Inr (-1, s)" if v: "unat va < k * PGSIZE"
    using v w vp a pr ne by (subst copyout.simps) (simp add: Let_def uva2ka_def vpn_rounddown stack_area_def)
  assume v: "k * PGSIZE \<le> unat va"
  then have vk: "vpn va = k" using vp by simp
  let ?q = "frame (pte s d k)" and ?o = "unat va - k * PGSIZE"
  have q: "?q \<noteq> 0" "?q \<in> A" using user_frame [OF b k(2)] a by (auto simp: stack_area_def)
  have rd: "unat (PGROUNDDOWN va) = k * PGSIZE" by (simp add: unat_rounddown vk)
  then have "PGROUNDDOWN va \<le> va" using v by (simp add: word_le_nat_alt)
  then have off: "unat (va - PGROUNDDOWN va) = ?o" using rd by (simp add: unat_sub)
  have o: "?o + length buf \<le> PGSIZE" using hi v by (simp add: add_mult_distrib)
  then have "unat (PGSIZE - (va - PGROUNDDOWN va)) = PGSIZE - ?o" using off bl by (subst unat_sub) (simp_all add: word_le_nat_alt)
  then have n: "min (unat (PGSIZE - (va - PGROUNDDOWN va))) (length buf) = length buf" using o by simp
  let ?s = "upd_bytes (\<lambda>b. store b (?q + (va - PGROUNDDOWN va)) buf) s"
  have "uva2ka d (PGROUNDDOWN va) s = Inr ?q" using w pr vk a by (simp add: uva2ka_def vpn_rounddown stack_area_def frame_def)
  then have e: "copyout d va buf s = Inr (0, ?s)"
    using q(1) n ne by (subst copyout.simps, simp add: Let_def, subst copyout.simps, simp)
  have so: "va - PGROUNDDOWN va = of_nat ?o" using off by (metis of_nat_unat ucast_id)
  have buf: "length buf \<le> 2 ^ 32" using o by simp
  have sb: "bytes (vkm ?s) (?q + of_nat j) = patched buf ?o (\<lambda>j. bytes (vkm s) (?q + of_nat j)) j" if "j < PGSIZE" for j
  proof (cases "?o \<le> j \<and> j < ?o + length buf")
    case True
    then have "?q + of_nat j = ?q + of_nat ?o + of_nat (j - ?o)" by (simp flip: of_nat_add)
    moreover have "j - ?o < length buf" using True by linarith
    ultimately show ?thesis using True store_at [of "j - ?o" buf "bytes (vkm s)" "?q + of_nat ?o"] buf by (simp add: patched_def so)
  next
    case False
    have "\<not> unat (?q + of_nat j - (?q + of_nat ?o)) < length buf"
    proof (cases "?o \<le> j")
      case True
      then have e2: "?q + of_nat j - (?q + of_nat ?o) = of_nat (j - ?o)" by (simp add: of_nat_diff)
      have "unat (of_nat (j - ?o) :: u32) = j - ?o" using that by (simp add: unat_u32_of_nat)
      then show ?thesis unfolding e2 using True False by linarith
    next
      case less: False
      then have e2: "?q + of_nat j - (?q + of_nat ?o) = - of_nat (?o - j)" by (simp add: of_nat_diff)
      have "unat (of_nat (?o - j) :: u32) = ?o - j" using o by (intro unat_u32_of_nat) linarith
      moreover have "unat (of_nat (?o - j) + - of_nat (?o - j) :: u32) = 0" by simp
      ultimately show ?thesis unfolding e2 using o less unat_u32_add [of "of_nat (?o - j)" "- of_nat (?o - j)"] by linarith
    qed
    from store_other [OF this buf, of "bytes (vkm s)"] show ?thesis using False unfolding patched_def by (simp add: so if_not_P)
  qed
  have out: "bytes (vkm ?s) x = bytes (vkm s) x" if x: "\<not> unat (x - ?q) < PGSIZE" for x
  proof -
    have "\<not> unat (x - (?q + of_nat ?o)) < length buf"
    proof
      assume l: "unat (x - (?q + of_nat ?o)) < length buf"
      have un: "unat (of_nat ?o :: u32) = ?o" using o by (intro unat_u32_of_nat) linarith
      have "unat ((x - (?q + of_nat ?o)) + of_nat ?o) = unat (x - (?q + of_nat ?o)) + unat (of_nat ?o :: u32)"
        using l o un by (intro unat_u32_add) linarith
      moreover have "(x - (?q + of_nat ?o)) + of_nat ?o = x - ?q" by simp
      ultimately have "unat (x - ?q) = unat (x - (?q + of_nat ?o)) + ?o" using un by argo
      then show False using l o x by linarith
    qed
    from store_other [OF this buf, of "bytes (vkm s)"] show ?thesis by (simp add: so)
  qed
  have "building s0 A d ?s fs" by (rule building_bytes [OF b q(2)]) (use out in simp)
  then show "\<exists>s'. copyout d va buf s = Inr (0, s') \<and> building s0 A d s' fs \<and> pte s' d = pte s d \<and>
          (\<forall>j < PGSIZE. stack_byte s' d k j = patched buf (unat va - k * PGSIZE) (stack_byte s d k) j)"
    using e sb by (intro exI [of _ ?s]) (simp add: stack_byte_def [abs_def] content_def del: upd_bytes_simps)
qed

lemma unat_align4: "unat (x AND NOT 3 :: u32) = unat x div 4 * 4"
proof -
  have m: "(3 :: u32) = mask 2" by (simp add: mask_eq_exp_minus_1)
  have "(x AND NOT 3) + take_bit 2 x = x" unfolding m using bits_ident [of 2 x] and_not_mask_eq [of x 2] by simp
  then have "x AND NOT 3 = x - take_bit 2 x" by (metis add_diff_cancel_right')
  moreover have t: "unat (take_bit 2 x) = unat x mod 4" using unat_take_bit [of 2 x] by simp
  then have "take_bit 2 x \<le> x" by (simp add: word_le_nat_alt)
  ultimately have "unat (x AND NOT 3) = unat x - unat x mod 4" by (simp add: unat_sub t)
  then show ?thesis by (simp add: minus_mod_eq_div_mult)
qed

text \<open>The next argument goes below the last one, aligned.\<close>

lemma next_sp:
  fixes sp :: u32
  assumes k: "0 < k" "k < UPAGES" and sp: "k * PGSIZE \<le> unat sp" "unat sp \<le> (k + 1) * PGSIZE" and len: "len < PGSIZE"
  defines "sp' \<equiv> (sp - (of_nat len + 1)) AND NOT 3"
  shows "(k - 1) * PGSIZE \<le> unat sp'" "unat sp' + len + 1 \<le> unat sp"
proof -
  have "unat (of_nat len + 1 :: u32) = len + 1" using len by (subst unat_u32_add) (simp_all add: unat_u32_of_nat)
  moreover have "len + 1 \<le> unat sp" using sp(1) k(1) len by (cases k) auto
  ultimately have x: "unat (sp - (of_nat len + 1)) = unat sp - (len + 1)" by (subst unat_sub) (simp_all add: word_le_nat_alt)
  have "(k - 1) * PGSIZE \<le> unat sp - (len + 1)" using sp(1) k(1) len by (cases k) auto
  then have "(k - 1) * PGSIZE div 4 * 4 \<le> (unat sp - (len + 1)) div 4 * 4" by (intro mult_le_mono1 div_le_mono)
  moreover have "(k - 1) * PGSIZE div 4 * 4 = (k - 1) * PGSIZE" by simp
  ultimately show "(k - 1) * PGSIZE \<le> unat sp'" by (simp only: sp'_def unat_align4 x)
  have "(unat sp - (len + 1)) div 4 * 4 \<le> unat sp - (len + 1)" by simp
  then show "unat sp' + len + 1 \<le> unat sp" using \<open>len + 1 \<le> unat sp\<close> unfolding sp'_def unat_align4 x by linarith
qed

definition strings_at :: "vm \<Rightarrow> u32 \<Rightarrow> nat \<Rightarrow> u32 \<Rightarrow> u32 list \<Rightarrow> cstr list \<Rightarrow> bool" where
  "strings_at s d k sp us as \<longleftrightarrow> length us = length as \<and> (\<forall>i < length us. unat sp \<le> unat (us ! i) \<and>
     unat (us ! i) + length (as ! i) + 1 \<le> (k + 1) * PGSIZE \<and>
     (\<forall>j < length (as ! i @ [0]). stack_byte s d k (unat (us ! i) - k * PGSIZE + j) = (as ! i @ [0]) ! j))"

text \<open>Bytes written below the stack pointer leave the strings above it as they are.\<close>

lemma strings_below:
  assumes st: "strings_at s d k sp us as" and sp: "k * PGSIZE \<le> unat sp'" "unat sp' + length buf \<le> unat sp"
    and wr: "\<forall>j < PGSIZE. stack_byte s' d k j = patched buf (unat sp' - k * PGSIZE) (stack_byte s d k) j"
  shows "strings_at s' d k sp' us as"
  unfolding strings_at_def
proof (intro conjI allI impI)
  show "length us = length as" using st by (simp add: strings_at_def)
  fix i assume i: "i < length us"
  then have u: "unat sp \<le> unat (us ! i)" "unat (us ! i) + length (as ! i) + 1 \<le> (k + 1) * PGSIZE"
    "\<forall>j < length (as ! i @ [0]). stack_byte s d k (unat (us ! i) - k * PGSIZE + j) = (as ! i @ [0]) ! j"
    using st unfolding strings_at_def by auto
  show "unat sp' \<le> unat (us ! i)" "unat (us ! i) + length (as ! i) + 1 \<le> (k + 1) * PGSIZE" using u sp(2) by auto
  fix j assume j: "j < length (as ! i @ [0])"
  let ?x = "unat (us ! i) - k * PGSIZE + j"
  have "?x < PGSIZE" using u(1,2) j sp by (simp add: add_mult_distrib)
  moreover have "\<not> ?x < unat sp' - k * PGSIZE + length buf" using u(1) sp by linarith
  ultimately have "stack_byte s' d k ?x = stack_byte s d k ?x" using wr by (simp add: patched_def)
  then show "stack_byte s' d k ?x = (as ! i @ [0]) ! j" using u(3) j by simp
qed

lemma push_args_ok:
  assumes "building s0 A d s fs" "stack_area s d k" "k * PGSIZE \<le> unat sp" "unat sp \<le> (k + 1) * PGSIZE"
    "strings_at s d k sp us as" "\<forall>a\<in>set argv. length a < PGSIZE" "length us \<le> MAXARG"
  shows "\<exists>r s'. push_args d argv sp us s = Inr (r, s') \<and> building s0 A d s' fs \<and> pte s' d = pte s d \<and>
     (\<forall>sp' us'. r = Some (sp', us') \<longrightarrow> k * PGSIZE \<le> unat sp' \<and> unat sp' \<le> (k + 1) * PGSIZE \<and> strings_at s' d k sp' us' (as @ argv) \<and>
        length us' \<le> MAXARG)"
  using assms
proof (induction argv arbitrary: sp us as s)
  case Nil
  then show ?case by auto
next
  case (Cons a argv)
  note b = Cons.prems(1) and ar = Cons.prems(2) and sp = Cons.prems(3,4) and st = Cons.prems(5)
  have k: "0 < k" "k < UPAGES" using ar by (auto simp: stack_area_def)
  let ?sp = "(sp - (of_nat (length a) + 1)) AND NOT 3"
  have la: "length a < PGSIZE" using Cons.prems(6) by simp
  note n = next_sp [OF k sp la]
  have hi: "unat ?sp + length (a @ [0]) \<le> (k + 1) * PGSIZE" using n(2) sp(2) by simp
  show ?case
  proof (cases "length us \<ge> MAXARG \<or> unat ?sp < k * PGSIZE")
    case True
    then have "push_args d (a # argv) sp us s = Inr (None, s)" using copyout_stack(1) [OF b ar n(1) hi] by (auto simp: Let_def intro!: exI [of _ "-1"])
    then show ?thesis using b by simp
  next
    case False
    then have lo: "k * PGSIZE \<le> unat ?sp" by simp
    obtain s1 where s1: "copyout d ?sp (a @ [0]) s = Inr (0, s1)" "building s0 A d s1 fs" "pte s1 d = pte s d"
      "\<forall>j < PGSIZE. stack_byte s1 d k j = patched (a @ [0]) (unat ?sp - k * PGSIZE) (stack_byte s d k) j"
      using copyout_stack(2) [OF b ar n(1) hi _ lo] by auto
    have "strings_at s1 d k ?sp us as" using n(2) by (intro strings_below [OF st lo _ s1(4)]) simp
    moreover have "stack_byte s1 d k (unat ?sp - k * PGSIZE + j) = (a @ [0]) ! j" if "j < length (a @ [0])" for j
    proof -
      have "unat ?sp - k * PGSIZE + j < PGSIZE" using hi lo that by (simp add: add_mult_distrib)
      then show ?thesis using s1(4) that by (simp add: patched_def)
    qed
    ultimately have "strings_at s1 d k ?sp (us @ [?sp]) (as @ [a])"
      using hi unfolding strings_at_def by (auto simp: nth_append less_Suc_eq)
    moreover have "stack_area s1 d k" using ar s1(3) by (simp add: stack_area_def)
    moreover have "unat ?sp \<le> (k + 1) * PGSIZE" using hi by simp
    ultimately obtain r s' where "push_args d argv ?sp (us @ [?sp]) s1 = Inr (r, s')" "building s0 A d s' fs" "pte s' d = pte s1 d"
      "\<forall>sp' us'. r = Some (sp', us') \<longrightarrow> k * PGSIZE \<le> unat sp' \<and> unat sp' \<le> (k + 1) * PGSIZE \<and>
         strings_at s' d k sp' us' ((as @ [a]) @ argv) \<and> length us' \<le> MAXARG"
      using Cons.IH [OF s1(2) _ lo, of "us @ [?sp]" "as @ [a]"] Cons.prems(6,7) False by auto
    then show ?thesis using s1(1,3) False by (simp add: Let_def)
  qed
qed

text \<open>User memory as the process sees it, and the stack that \<^verbatim>\<open>exec\<close> makes for the arguments.\<close>

definition ubyte :: "vm \<Rightarrow> u32 \<Rightarrow> u32 \<Rightarrow> u8 \<Rightarrow> bool" where
  "ubyte s d va c \<longleftrightarrow> vpn va < UPAGES \<and> present (pte s d (vpn va)) \<and> pte s d (vpn va) AND PTE_U \<noteq> 0 \<and>
     content s (frame (pte s d (vpn va))) (unat va mod PGSIZE) = c"

definition ubytes :: "vm \<Rightarrow> u32 \<Rightarrow> u32 \<Rightarrow> u8 list \<Rightarrow> bool" where
  "ubytes s d va bs \<longleftrightarrow> (\<forall>j < length bs. ubyte s d (va + of_nat j) (bs ! j))"

definition stack_built :: "vm \<Rightarrow> u32 \<Rightarrow> u32 \<Rightarrow> cstr list \<Rightarrow> bool" where
  "stack_built s d sp argv \<longleftrightarrow> (\<exists>us. length us = length argv \<and>
     ubytes s d sp (concat (map word_bytes ([0xFFFFFFFF, of_nat (length argv), sp + 12] @ us @ [0]))) \<and>
     (\<forall>i < length argv. ubytes s d (us ! i) (argv ! i @ [0])))"

lemma ubytes_stack:
  assumes "k * PGSIZE \<le> unat va" "unat va + length bs \<le> (k + 1) * PGSIZE" "stack_area s d k"
    "\<forall>j < length bs. stack_byte s d k (unat va - k * PGSIZE + j) = bs ! j"
  shows "ubytes s d va bs"
  unfolding ubytes_def
proof (intro allI impI)
  fix j assume j: "j < length bs"
  have k: "k < UPAGES" using assms(3) by (simp add: stack_area_def)
  then have "unat va + j < 4294967296" using assms(2) j by simp
  then have u: "unat (va + of_nat j) = unat va + j" by (subst unat_u32_add) (simp_all add: unat_u32_of_nat)
  define o' where "o' = unat va - k * PGSIZE + j"
  have o: "unat va + j = k * PGSIZE + o'" "o' < PGSIZE" using assms(1,2) j by (simp_all add: o'_def add_mult_distrib)
  have "vpn (va + of_nat j) = k" "unat (va + of_nat j) mod PGSIZE = o'" using o by (simp_all add: vpn_def u)
  then show "ubyte s d (va + of_nat j) (bs ! j)" using assms(3,4) j k by (simp add: ubyte_def stack_byte_def stack_area_def o'_def)
qed

lemma length_word_bytes: "length (concat (map word_bytes ws)) = 4 * length ws"
  by (induction ws) (simp_all add: word_bytes_def)

lemma sized_roundup:
  assumes "sized s d sz"
  shows "sized s d (PGROUNDUP sz)" "unat (PGROUNDUP sz) = (unat sz + 4095) div PGSIZE * PGSIZE"
proof -
  have n: "unat sz \<le> 2147483648" using assms by (simp add: sized_def)
  show u: "unat (PGROUNDUP sz) = (unat sz + 4095) div PGSIZE * PGSIZE" by (rule unat_roundup [OF n])
  have "(unat sz + 4095) div PGSIZE * PGSIZE \<le> 2147483648" using n div_le_mono [of "unat sz + 4095" 2147487743 4096] by simp
  moreover have "i * PGSIZE < (unat sz + 4095) div PGSIZE * PGSIZE \<longleftrightarrow> i * PGSIZE < unat sz" for i by auto
  ultimately show "sized s d (PGROUNDUP sz)" using assms u by (simp add: sized_def)
qed

text \<open>The two pages of the stack, the lower one made inaccessible.\<close>

lemma stack_pages:
  assumes b: "building s0 A d s fs" and z: "sized s d sz" and sz: "unat sz mod PGSIZE = 0"
  shows "\<exists>r s1 fs1. allocuvm d sz (sz + 2 * PGSIZE) s = Inr (r, s1) \<and> building s0 A d s1 fs1 \<and>
     (r = 0 \<or> (\<exists>s2 k. clearpteu d (r - 2 * PGSIZE) s1 = Inr s2 \<and> building s0 A d s2 fs1 \<and> sized s2 d r \<and> stack_area s2 d k \<and>
        unat r = (k + 1) * PGSIZE \<and> r = sz + 2 * PGSIZE))"
proof -
  let ?new = "sz + 2 * PGSIZE"
  have "unat sz \<le> 2147483648" using z by (simp add: sized_def)
  then have nw: "unat ?new = unat sz + 8192" "sz \<le> ?new" by (simp_all add: unat_u32_add word_le_nat_alt)
  obtain r s1 fs1 where a: "allocuvm d sz ?new s = Inr (r, s1)" "building s0 A d s1 fs1"
    "r = 0 \<or> sized s1 d r \<and> r = ?new \<and> (\<forall>i. in_range ((unat sz + 4095) div PGSIZE) ?new i \<longrightarrow> pte s1 d i AND PTE_U \<noteq> 0)"
    using allocuvm_building [OF b z, of ?new] nw(2) by blast
  show ?thesis
  proof (cases "r = 0")
    case True
    then show ?thesis using a by blast
  next
    case False
    define g where "g = unat sz div PGSIZE"
    have g: "unat sz = g * PGSIZE" using sz by (simp add: g_def mod_0_imp_dvd)
    then have dg: "(unat sz + 4095) div PGSIZE = g" by simp
    have r: "sized s1 d r" "r = ?new" "\<forall>i. in_range g ?new i \<longrightarrow> pte s1 d i AND PTE_U \<noteq> 0" using a(3) False dg by auto
    have ur: "unat r = (g + 2) * PGSIZE" using r(2) nw(1) g by simp
    have up: "g + 1 < UPAGES" using r(1) ur by (simp add: sized_def)
    have pr: "present (pte s1 d g)" "present (pte s1 d (g + 1))" using r(1) ur up by (auto simp: sized_def)
    have us: "pte s1 d (g + 1) AND PTE_U \<noteq> 0" using r(3) nw(1) g by (simp add: in_range_def)
    have va: "r - 2 * PGSIZE = sz" "vpn sz = g" using r(2) g by (simp_all add: vpn_def)
    let ?x = "pte s1 d g AND NOT PTE_U"
    let ?s2 = "set_ent (tab s1 d (g div 1024)) (g mod 1024) ?x s1"
    have g': "g < UPAGES" using up by simp
    note w = walk_present [of s1 d sz, unfolded va(2), OF pr(1)]
    have c: "clearpteu d (r - 2 * PGSIZE) s1 = Inr ?s2" using w va by (simp add: clearpteu_def)
    note b2 = set_pte_building [OF a(2) g' pr(1) clear_user(1) [OF pr(1)] clear_user(2)]
    have p2: "pte ?s2 d i = (if i = g then ?x else pte s1 d i)" if "i < UPAGES" for i using b2(2) [of i] that by simp
    have "sized ?s2 d r" using r(1) p2 pr(1) clear_user(1) by (auto simp: sized_def)
    moreover have "stack_area ?s2 d (g + 1)" using p2 up pr us clear_user(1,3) [of "pte s1 d g"] by (simp add: stack_area_def)
    moreover have "unat r = (g + 1 + 1) * PGSIZE" using ur by simp
    ultimately show ?thesis using a(1,2) c b2(1) r(2) by blast
  qed
qed

lemma user_stack_ok:
  assumes b: "building s0 A d s fs" and z: "sized s d sz" and av: "\<forall>a\<in>set argv. length a < PGSIZE"
  shows "\<exists>r s' fs'. user_stack d sz argv s = Inr (r, s') \<and> building s0 A d s' fs' \<and>
     (\<forall>sp sz'. r = Some (sp, sz') \<longrightarrow> sized s' d sz' \<and> sz' = PGROUNDUP sz + 2 * PGSIZE \<and> stack_built s' d sp argv)"
proof -
  note ru = sized_roundup [OF z]
  have "unat (PGROUNDUP sz) mod PGSIZE = 0" using ru(2) by simp
  from stack_pages [OF b ru(1) this] obtain r s1 fs1 where a: "allocuvm d (PGROUNDUP sz) (PGROUNDUP sz + 2 * PGSIZE) s = Inr (r, s1)"
    "building s0 A d s1 fs1" "r = 0 \<or> (\<exists>s2 k. clearpteu d (r - 2 * PGSIZE) s1 = Inr s2 \<and> building s0 A d s2 fs1 \<and> sized s2 d r \<and>
        stack_area s2 d k \<and> unat r = (k + 1) * PGSIZE \<and> r = PGROUNDUP sz + 2 * PGSIZE)" by blast
  show ?thesis
  proof (cases "r = 0")
    case True
    then show ?thesis using a(1,2) by (auto simp: user_stack_def)
  next
    case False
    then obtain s2 k where c: "clearpteu d (r - 2 * PGSIZE) s1 = Inr s2" "building s0 A d s2 fs1" "sized s2 d r" "stack_area s2 d k"
      "unat r = (k + 1) * PGSIZE" "r = PGROUNDUP sz + 2 * PGSIZE" using a(3) by blast
    have "strings_at s2 d k r [] []" "k * PGSIZE \<le> unat r" "unat r \<le> (k + 1) * PGSIZE" using c(5) by (simp_all add: strings_at_def)
    from push_args_ok [OF c(2,4) this(2,3,1) av] obtain x s3 where p: "push_args d argv r [] s2 = Inr (x, s3)" "building s0 A d s3 fs1" "pte s3 d = pte s2 d"
      "\<forall>sp us. x = Some (sp, us) \<longrightarrow> k * PGSIZE \<le> unat sp \<and> unat sp \<le> (k + 1) * PGSIZE \<and> strings_at s3 d k sp us argv \<and> length us \<le> MAXARG"
      by auto
    show ?thesis
    proof (cases x)
      case None
      then show ?thesis using a(1) c(1) p False by (auto simp: user_stack_def Let_def)
    next
      case (Some y)
      obtain sp us where y: "y = (sp, us)" by (cases y)
      then have sp: "k * PGSIZE \<le> unat sp" "unat sp \<le> (k + 1) * PGSIZE" "strings_at s3 d k sp us argv" "length us \<le> MAXARG" using p(4) Some by auto
      have la: "length us = length argv" using sp(3) by (simp add: strings_at_def)
      define n where "n = 4 * (length us + 4)"
      define sp2 where "sp2 = sp - (3 + of_nat (length us) + 1) * 4"
      define buf where "buf = concat (map word_bytes ([0xFFFFFFFF, of_nat (length us), sp - (of_nat (length us) + 1) * 4] @ us @ [0]))"
      have lb: "length buf = n" unfolding buf_def length_word_bytes by (simp add: n_def)
      have n: "16 \<le> n" "n \<le> 144" using sp(4) by (simp_all add: n_def)
      have k: "0 < k" "k < UPAGES" using c(4) by (auto simp: stack_area_def)
      have "(3 + of_nat (length us) + 1) * 4 = (of_nat n :: u32)" by (simp add: n_def algebra_simps)
      moreover have "unat (of_nat n :: u32) = n" using n(2) by (intro unat_u32_of_nat) simp
      moreover have ns: "n \<le> unat sp" using sp(1) k(1) n(2) by (cases k) auto
      ultimately have us2: "unat sp2 = unat sp - n" unfolding sp2_def by (subst unat_sub) (simp_all add: word_le_nat_alt)
      have lo: "(k - 1) * PGSIZE \<le> unat sp2" using us2 sp(1) k(1) n(2) by (cases k) auto
      have hi: "unat sp2 + length buf \<le> (k + 1) * PGSIZE" using us2 ns sp(2) lb by simp
      have ne: "buf \<noteq> []" using lb n(1) by auto
      have ar: "stack_area s3 d k" using c(4) p(3) by (simp add: stack_area_def)
      have e: "user_stack d sz argv s = bindE (copyout d sp2 buf s3) (\<lambda>(r', s). Inr (if r' < 0 then None else Some (sp2, r), s))"
        using a(1) c(1) p(1) Some y False unfolding sp2_def buf_def by (simp add: user_stack_def Let_def cong: if_cong)
      show ?thesis
      proof (cases "unat sp2 < k * PGSIZE")
        case True
        then show ?thesis using copyout_stack(1) [OF p(2) ar lo hi ne] e p(2) by auto
      next
        case False
        then have l2: "k * PGSIZE \<le> unat sp2" by simp
        obtain s4 where s4: "copyout d sp2 buf s3 = Inr (0, s4)" "building s0 A d s4 fs1" "pte s4 d = pte s3 d"
          "\<forall>j < PGSIZE. stack_byte s4 d k j = patched buf (unat sp2 - k * PGSIZE) (stack_byte s3 d k) j"
          using copyout_stack(2) [OF p(2) ar lo hi ne l2] by blast
        have ar4: "stack_area s4 d k" using ar s4(3) by (simp add: stack_area_def)
        have "unat sp2 + length buf \<le> unat sp" using us2 ns lb by simp
        then have st: "strings_at s4 d k sp2 us argv" by (rule strings_below [OF sp(3) l2 _ s4(4)])
        have "stack_byte s4 d k (unat sp2 - k * PGSIZE + j) = buf ! j" if "j < length buf" for j
        proof -
          have "unat sp2 - k * PGSIZE + j < PGSIZE" using hi l2 that by (simp add: add_mult_distrib)
          then show ?thesis using s4(4) that by (simp add: patched_def)
        qed
        then have "ubytes s4 d sp2 buf" by (intro ubytes_stack [OF l2 hi ar4]) simp
        moreover have se: "sp - (of_nat (length us) + 1) * 4 = sp2 + 12" by (simp add: sp2_def algebra_simps)
        have "buf = concat (map word_bytes ([0xFFFFFFFF, of_nat (length argv), sp2 + 12] @ us @ [0]))" unfolding buf_def se unfolding la by simp
        moreover have "ubytes s4 d (us ! i) (argv ! i @ [0])" if "i < length argv" for i
          using st that la l2 ar4 by (intro ubytes_stack [of k]) (auto simp: strings_at_def)
        ultimately have "stack_built s4 d sp2 argv" using la unfolding stack_built_def by (intro exI [of _ us]) simp
        moreover have "sized s4 d r" using c(3) p(3) s4(3) by (simp add: sized_def)
        ultimately show ?thesis using e s4(1,2) c(6) by auto
      qed
    qed
  qed
qed

section \<open>The switch of images\<close>

text \<open>An address space is not touched by changes to pages that are not its own.\<close>

lemma disjoint_space:
  assumes ok: "space_ok s d fs" and k: "vkeeps X s s'" and dj: "X \<inter> vpages s d = {}"
  shows "n < 1048576 \<Longrightarrow> pte s' d n = pte s d n" and "vpages s' d = vpages s d"
    and "kmem_pages (vkend s) (vkm s') gs \<Longrightarrow> set gs \<inter> vpages s d = {} \<Longrightarrow> space_ok s' d gs"
proof -
  have t: "tables_ok s d fs" using ok by (simp add: space_ok_def)
  have e: "ent s' d = ent s d" using dj k by (auto simp: Vm_Space.pages_def vkeeps_def)
  then have tb: "tab s' d = tab s d" by (simp add: tab_def fun_eq_iff)
  have ds: "dirs s' d = dirs s d" by (simp add: dirs_def e)
  have ts: "tabs s' d = tabs s d" by (simp add: tabs_def tb ds)
  show p: "pte s' d n = pte s d n" if "n < 1048576" for n
  proof (cases "present (ent s d (n div 1024))")
    case True
    have "tab s d (n div 1024) \<in> tabs s d" using that True by (intro tab_in_tabs) (simp_all add: less_mult_imp_div_less)
    then have "tab s d (n div 1024) \<notin> X" using dj by (auto simp: Vm_Space.pages_def)
    then show ?thesis using True k by (simp add: pte_def e tb vkeeps_def)
  qed (simp add: pte_def e)
  have f: "frames s' d (\<lambda>i. i < UPAGES) = frames s d (\<lambda>i. i < UPAGES)" using p by (intro frames_cong) simp
  show "vpages s' d = vpages s d" by (simp add: Vm_Space.pages_def ts f)
  show "space_ok s' d gs" if g: "kmem_pages (vkend s) (vkm s') gs" "set gs \<inter> vpages s d = {}"
  proof -
    have v: "vkend s' = vkend s" using k by (simp add: vkeeps_def)
    have "tables_ok s' d gs" using t g unfolding tables_ok_def ts tb ds v Vm_Space.pages_def by auto
    moreover have "owns (vkend s) d (tabs s d) (set gs) (pte s d)"
      using ok g(2) unfolding space_ok_def owns_def Vm_Space.pages_def frames_def by blast
    then have "owns (vkend s) d (tabs s d) (set gs) (pte s' d)" using owns_cong [of "pte s' d" "pte s d"] p by simp
    ultimately show ?thesis using ok by (simp add: space_ok_def ts v)
  qed
qed

lemma pages_free_page:
  assumes "space_ok s d fs" "p \<in> vpages s d"
  shows "free_page (vkend s) p" "p \<notin> set fs"
  using assms by (auto simp: Vm_Space.pages_def space_ok_def tables_ok_def owns_def frames_def)

lemma stack_built_kept:
  assumes ok: "space_ok s d fs" and k: "vkeeps X s s'" and dj: "X \<inter> vpages s d = {}" and fp: "\<forall>q \<in> X. free_page (vkend s) q"
    and st: "stack_built s d sp argv"
  shows "stack_built s' d sp argv"
proof -
  have "ubyte s' d va c" if u: "ubyte s d va c" for va c
  proof -
    let ?p = "frame (pte s d (vpn va))"
    have n: "vpn va < UPAGES" "present (pte s d (vpn va))" using u by (auto simp: ubyte_def)
    then have p: "?p \<in> vpages s d" by (auto simp: Vm_Space.pages_def frames_def)
    have "content s' ?p (unat va mod PGSIZE) = content s ?p (unat va mod PGSIZE)"
      using p dj by (intro content_kept [OF k pages_free_page(1) [OF ok p] fp]) auto
    moreover have "pte s' d (vpn va) = pte s d (vpn va)" using n by (intro disjoint_space(1) [OF ok k dj]) simp
    ultimately show ?thesis using u by (simp add: ubyte_def)
  qed
  then have "ubytes s' d va bs" if "ubytes s d va bs" for va bs using that by (simp add: ubytes_def)
  then show ?thesis using st unfolding stack_built_def by metis
qed

text \<open>What the process has behind \<^verbatim>\<open>exec\<close>: the old image with every page free again, or the new one.\<close>

definition kept_image :: "vm \<Rightarrow> u32 \<Rightarrow> u32 list \<Rightarrow> vm \<Rightarrow> bool" where
  "kept_image s pd fs s' \<longleftrightarrow> (\<exists>fs'. space_ok s' pd fs' \<and> set fs' = set fs \<and> vkeeps (set fs) s s')"

definition new_image :: "vm \<Rightarrow> u32 \<Rightarrow> u32 list \<Rightarrow> cstr \<Rightarrow> cstr list \<Rightarrow> image \<Rightarrow> vm \<Rightarrow> bool" where
  "new_image s pd fs path argv p s' \<longleftrightarrow> (\<exists>fs'. space_ok s' (im_pgdir p) fs' \<and>
     set fs' \<union> vpages s' (im_pgdir p) = set fs \<union> vpages s pd \<and> vkeeps (set fs \<union> vpages s pd) s s' \<and>
     sized s' (im_pgdir p) (im_sz p) \<and> stack_built s' (im_pgdir p) (im_esp p) argv \<and> im_name p = safestrcpy (last_name path) 16)"

lemma given_up_kept: "space_ok s pd fs \<Longrightarrow> given_up s (set fs) s' fs' \<Longrightarrow> kept_image s pd fs s'"
  unfolding kept_image_def given_up_def using other_space(5) [of s pd fs s' fs'] by blast

lemma give_up_ok:
  assumes "space_ok s pd fs" "building s (set fs) d s' fs'" "d \<noteq> 0"
  shows "\<exists>t. give_up d s' = Inr t \<and> kept_image s pd fs t"
  using copy_fail [of s' d fs' "set fs" s] assms given_up_kept [OF assms(1)] by (auto simp: building_def give_up_def)

lemma commit_ok:
  assumes ok: "space_ok s pd fs" and b: "building s (set fs) d s' fs'" and z: "sized s' d sz" and st: "stack_built s' d sp argv"
  shows "\<exists>t. freevm pd s' = Inr t \<and>
     new_image s pd fs path argv \<lparr>im_pgdir = d, im_sz = sz, im_eip = e, im_esp = sp, im_name = safestrcpy (last_name path) 16\<rparr> t"
proof -
  have b': "space_ok s' d fs'" "set fs' \<union> vpages s' d = set fs" "vkeeps (set fs) s s'" using b by (simp_all add: building_def)
  have old: "set fs \<inter> vpages s pd = {}" using pages_free_page(2) [OF ok] by blast
  note ds = disjoint_space [OF ok b'(3) old]
  have e: "vkend s' = vkend s" using b'(3) by (simp add: vkeeps_def)
  have "kmem_pages (vkend s) (vkm s') fs'" using b'(1) e by (simp add: space_ok_def tables_ok_def)
  then have ok': "space_ok s' pd fs'" using ds(3) b'(2) old by blast
  obtain t gs where t: "freevm pd s' = Inr t" "kmem_pages (vkend s') (vkm t) gs" "set gs = set fs' \<union> vpages s pd" "vkeeps (vpages s pd) s' t"
    using freevm_ok [OF ok'] ds(2) by auto
  have new: "vpages s pd \<inter> vpages s' d = {}" using b'(2) old by blast
  note dn = disjoint_space [OF b'(1) t(4) new]
  have "set gs \<inter> vpages s' d = {}" using t(3) new pages_free_page(2) [OF b'(1)] by blast
  then have "space_ok t d gs" using dn(3) [OF t(2)] by blast
  moreover have "sized t d sz" using z dn(1) by (simp add: sized_def)
  moreover have "stack_built t d sp argv"
    using pages_free_page(1) [OF ok] e by (intro stack_built_kept [OF b'(1) t(4) new _ st]) simp
  moreover have "vkeeps (set fs \<union> vpages s pd) s t"
    by (rule vkeeps_trans [OF vkeeps_mono [OF b'(3)] vkeeps_mono [OF t(4)]]) auto
  moreover have "set gs \<union> vpages t d = set fs \<union> vpages s pd" using t(3) dn(2) b'(2) by blast
  ultimately show ?thesis using t(1) unfolding new_image_def by auto
qed

lemma finish_image_ok:
  assumes ok: "space_ok s (im_pgdir p) fs" and b: "building s (set fs) d s1 fs1" "d \<noteq> 0" and z: "sized s1 d sz"
    and av: "\<forall>a\<in>set argv. length a < PGSIZE"
  shows "\<exists>r p' s'. finish_image d sz e path argv p s1 = Inr (r, p', s') \<and>
     (r = -1 \<and> p' = p \<and> kept_image s (im_pgdir p) fs s' \<or>
      r = 0 \<and> im_eip p' = e \<and> new_image s (im_pgdir p) fs path argv p' s')"
proof -
  obtain r s2 fs2 where u: "user_stack d sz argv s1 = Inr (r, s2)" "building s (set fs) d s2 fs2"
     "\<forall>sp sz'. r = Some (sp, sz') \<longrightarrow> sized s2 d sz' \<and> sz' = PGROUNDUP sz + 2 * PGSIZE \<and> stack_built s2 d sp argv"
    using user_stack_ok [OF b(1) z av] by blast
  show ?thesis
  proof (cases r)
    case None
    obtain t where "give_up d s2 = Inr t" "kept_image s (im_pgdir p) fs t" using give_up_ok [OF ok u(2) b(2)] by blast
    then show ?thesis using u(1) None by (simp add: finish_image_def)
  next
    case (Some y)
    obtain sp sz' where y: "y = (sp, sz')" by (cases y)
    let ?p = "\<lparr>im_pgdir = d, im_sz = sz', im_eip = e, im_esp = sp, im_name = safestrcpy (last_name path) 16\<rparr>"
    obtain t where "freevm (im_pgdir p) s2 = Inr t" "new_image s (im_pgdir p) fs path argv ?p t"
      using commit_ok [OF ok u(2)] u(3) Some y by blast
    then show ?thesis using u(1) Some y by (simp add: finish_image_def)
  qed
qed

section \<open>The system call\<close>

text \<open>The inode is given back and the operation closed, in the order in which \<^verbatim>\<open>exec\<close> does it.\<close>

definition put_away :: "iptr \<Rightarrow> iptr \<Rightarrow> 'd fs \<Rightarrow> 'd fs result" where
  "put_away wd ip f = bindE (iunlockput ip f) (\<lambda>f. fend_op (i_dev (ino f wd)) f)"

lemma exec_opened:
  assumes "fbegin_op (i_dev (ino f wd)) f = Inr f1" and "namei wd path f1 = Inr (Some ip, f2)" and "ilock ip f2 = Inr f3"
    and "load_image ip (s, f3) = Inr (d, r, s1, f4)"
  shows "exec wd path argv p (s, f) =
     (case r of
        None \<Rightarrow> bindE (give_up d s1) (\<lambda>s. bindE (put_away wd ip f4) (\<lambda>f. Inr (-1, p, s, f)))
      | Some (sz, e) \<Rightarrow> bindE (put_away wd ip f4) (\<lambda>f. bindE (finish_image d sz e path argv p s1) (\<lambda>(r, p, s). Inr (r, p, s, f))))"
  using assms by (simp add: exec_def put_away_def bindE_assoc split: option.split)


text \<open>An empty file in the working directory's place, with no operation under way.\<close>

definition demo_idle :: "unit fs" where
  "demo_idle = (upd_ino 0 (\<lambda>i. i\<lparr>i_locked := False\<rparr>) demo)\<lparr>lg := (lg demo)\<lparr>rootlog := demo_log\<lparr>outstanding := 0\<rparr>\<rparr>\<rparr>"

definition demo_image :: image where
  "demo_image = \<lparr>im_pgdir = 0x80400000, im_sz = 4096, im_eip = 0, im_esp = 0, im_name = [115, 104]\<rparr>"

lemma demo_opened:
  "fbegin_op (i_dev (ino demo_idle 0)) demo_idle = Inr (upd_ino 0 (\<lambda>i. i\<lparr>i_locked := False\<rparr>) demo)"
  "namei 0 [] (upd_ino 0 (\<lambda>i. i\<lparr>i_locked := False\<rparr>) demo) = Inr (Some 0, upd_ino 0 (\<lambda>i. i\<lparr>i_locked := False, i_ref := 2\<rparr>) demo)"
  "ilock 0 (upd_ino 0 (\<lambda>i. i\<lparr>i_locked := False, i_ref := 2\<rparr>) demo) = Inr (upd_ino 0 (\<lambda>i. i\<lparr>i_ref := 2\<rparr>) demo)"
  "readable 1 0 0 0 (upd_ino 0 (\<lambda>i. i\<lparr>i_ref := 2\<rparr>) demo)"
proof -
  let ?u = "upd_ino 0 (\<lambda>i. i\<lparr>i_ref := 2\<rparr>) demo"
  have l: "0 < length (inodes demo)" "inodes demo ! 0 = demo_inode 2 T_FILE 1" using demo_fields(3,5) by (simp_all add: ino_def)
  have d: "i_dev (ino demo_idle 0) = ROOTDEV" using l by (simp add: demo_idle_def ino_def upd_ino_def demo_inode_def)
  have "begin_op_log (demo_log\<lparr>outstanding := 0\<rparr>) = Some demo_log" by (simp add: begin_op_log_def demo_log_def small_log_def)
  then show "fbegin_op (i_dev (ino demo_idle 0)) demo_idle = Inr (upd_ino 0 (\<lambda>i. i\<lparr>i_locked := False\<rparr>) demo)"
    by (simp add: fbegin_op_def begin_op_def d) (simp add: demo_idle_def upd_ino_def demo_def)
  show "namei 0 [] (upd_ino 0 (\<lambda>i. i\<lparr>i_locked := False\<rparr>) demo) = Inr (Some 0, upd_ino 0 (\<lambda>i. i\<lparr>i_locked := False, i_ref := 2\<rparr>) demo)"
    using l by (simp add: namei_def namex_def idup_def upd_ino_def demo_inode_def peek_def) (simp add: namex_loop.simps skipelem_def peek_def)
  show "ilock 0 (upd_ino 0 (\<lambda>i. i\<lparr>i_locked := False, i_ref := 2\<rparr>) demo) = Inr ?u"
    using l by (simp add: ilock_def upd_ino_def ino_def demo_inode_def)
  have "whole_file 1 0 ?u"
  proof -
    have f: "faddr 0 ?u = faddr 0 demo" "ind_blk 0 ?u = ind_blk 0 demo" "disk_ok 1 ?u = disk_ok 1 demo"
      using l by (simp_all add: faddr_def ind_blk_def ino_def upd_ino_def disk_ok_def bitmap_ok_def bmkey_def used_def fcur_def fheld_def sb_of_def fun_eq_iff)
    show ?thesis using demo_files(1) l unfolding whole_file_def file_ok_def f upd_ino_file(2)
      by (simp add: ino_def upd_ino_def)
  qed
  moreover have "tx 1 1 0 ?u" using demo_tx [of 1 0] by (simp add: tx_def upd_ino_def)
  moreover have "fheld ?u = {}" using demo_cache(3) by (simp add: fheld_def upd_ino_def)
  ultimately show "readable 1 0 0 0 ?u" by (simp add: readable_def)
qed


end
