(* ===== verification/Ide.thy ===== *)
theory Ide
  imports Locks Bio
begin

text \<open>
  The IDE driver of \<^verbatim>\<open>ide.c\<close> with its queue of requests and its interrupt handler.  The theory \<open>Bio\<close> treats \<^verbatim>\<open>iderw\<close> as a
  call that transfers a block; here a request is put on a queue, the process sleeps, and the interrupt that ends one
  transfer starts the next.  Requests of any number of processes, interrupts, and the work of other processes on other
  buffers interleave in any order.  The state has the buffers and the disk of \<open>Bio\<close>, so that the two views can be
  compared.  The branch of \<^verbatim>\<open>iderw\<close> for the NVMe disk, which does not use the queue, is part of \<open>Bio\<close> and \<open>Nvme\<close>.
\<close>

section \<open>The drive\<close>

text \<open>
  What the driver sees of the drive: the values it wrote to the ports, the status, the block it sent with \<^verbatim>\<open>outsl\<close>, and
  the block that \<^verbatim>\<open>insl\<close> takes.  A command makes the drive busy.
\<close>

record drive =
  port :: "u16 \<Rightarrow> u8"
  status :: u8
  sent :: block
  inbox :: block

abbreviation (input) IDE_BSY :: u8 where
  "IDE_BSY \<equiv> 0x80"

abbreviation (input) IDE_DRDY :: u8 where
  "IDE_DRDY \<equiv> 0x40"

abbreviation (input) IDE_CMD_READ :: u8 where
  "IDE_CMD_READ \<equiv> 0x20"

abbreviation (input) IDE_CMD_WRITE :: u8 where
  "IDE_CMD_WRITE \<equiv> 0x30"

definition outb :: "u16 \<Rightarrow> u8 \<Rightarrow> drive \<Rightarrow> drive" where
  "outb p v d = d\<lparr>port := (port d)(p := v), status := (if p = 0x1F7 then IDE_BSY else status d)\<rparr>"

text \<open>
  The driver's side.  \<open>waiting\<close> are the buffers whose owners are in \<^verbatim>\<open>iderw\<close>.  \<^verbatim>\<open>idewait\<close> spins until the drive is ready; with a
  drive that is busy that is \<open>Hang\<close>, since the loop runs with the lock held and interrupts off.
\<close>

record ide =
  idequeue :: u32
  qnext :: "u32 \<Rightarrow> u32"
  drive :: drive
  bufs :: bcache
  waiting :: "u32 set"

definition idewait :: "bool \<Rightarrow> drive \<Rightarrow> int result" where
  "idewait checkerr d =
     (if status d AND 0xC0 \<noteq> IDE_DRDY then Inl Hang
      else Inr (if checkerr \<and> status d AND 0x21 \<noteq> 0 then -1 else 0))"

text \<open>
  \<^verbatim>\<open>ideinit\<close>: disk 1 is there if one of a thousand reads of its status is not zero; the list is what these reads
  return.  The two pages it takes are the buffers of the NVMe transfers.
\<close>

definition ideinit :: "u8 list \<Rightarrow> ide \<Rightarrow> ide result" where
  "ideinit polls s =
     bindE (idewait False (drive s)) (\<lambda>_.
     let d = outb 0x1F6 0xF0 (drive s);
         c = (if \<exists>r \<in> set (take 1000 polls). r \<noteq> 0 then (bufs s)\<lparr>havedisk1 := True\<rparr> else bufs s)
     in Inr (s\<lparr>drive := outb 0x1F6 0xE0 d, bufs := c\<rparr>))"

text \<open>A block is one sector.\<close>

definition idestart :: "u32 \<Rightarrow> ide \<Rightarrow> ide result" where
  "idestart b s =
     (if b = 0 then Inl (Panic ''idestart'')
      else if b_blockno (bufs s) b \<ge> FSSIZE then Inl (Panic ''incorrect blockno'')
      else
        let sector = b_blockno (bufs s) b in
        bindE (idewait False (drive s)) (\<lambda>_.
        let d0 = outb 0x3F6 0 (drive s);
            d1 = outb 0x1F2 1 d0;
            d2 = outb 0x1F3 (ucast (sector AND 0xFF)) d1;
            d3 = outb 0x1F4 (ucast (drop_bit 8 sector AND 0xFF)) d2;
            d4 = outb 0x1F5 (ucast (drop_bit 16 sector AND 0xFF)) d3;
            d5 = outb 0x1F6 (ucast ((0xE0 OR push_bit 4 (b_dev (bufs s) b AND 1)) OR (drop_bit 24 sector AND 0x0F))) d4
        in Inr (s\<lparr>drive := (if b_dirty (bufs s) b then (outb 0x1F7 IDE_CMD_WRITE d5)\<lparr>sent := b_data (bufs s) b\<rparr>
                            else outb 0x1F7 IDE_CMD_READ d5)\<rparr>)))"

definition ideintr :: "ide \<Rightarrow> ide result" where
  "ideintr s =
     (let b = idequeue s in
      if b = 0 then Inr s
      else
        let s = s\<lparr>idequeue := qnext s b\<rparr> in
        bindE (if b_dirty (bufs s) b then Inr s
               else bindE (idewait True (drive s)) (\<lambda>r.
                    Inr (if r \<ge> 0 then s\<lparr>bufs := (bufs s)\<lparr>b_data := (b_data (bufs s))(b := inbox (drive s))\<rparr>\<rparr> else s))) (\<lambda>s.
        let s = s\<lparr>bufs := (bufs s)\<lparr>b_valid := (b_valid (bufs s))(b := True), b_dirty := (b_dirty (bufs s))(b := False)\<rparr>\<rparr> in
        if idequeue s \<noteq> 0 then idestart (idequeue s) s else Inr s))"

text \<open>
  The loop that walks to the end of the queue, from a cell on; in a queue that runs in a circle it would not end.
\<close>

function queue_end :: "(u32 \<Rightarrow> u32) \<Rightarrow> u32 \<Rightarrow> u32 list \<Rightarrow> u32 result" where
  "queue_end nx p seen =
     (if nx p = 0 then Inr p else if nx p \<in> set seen then Inl Hang else queue_end nx (nx p) (nx p # seen))"
  by pat_completeness auto
termination
proof (relation "measure (\<lambda>(nx, p, seen). card (UNIV - set seen))")
  fix nx :: "u32 \<Rightarrow> u32" and p seen
  assume "nx p \<notin> set seen"
  then have "card (UNIV - set (nx p # seen)) < card (UNIV - set seen)" by (intro psubset_card_mono) auto
  then show "((nx, nx p, nx p # seen), nx, p, seen) \<in> measure (\<lambda>(nx, p, seen). card (UNIV - set seen))" by simp
qed simp

text \<open>\<^verbatim>\<open>iderw\<close> for the IDE disk, up to the loop that sleeps.\<close>

definition iderw_request :: "u32 \<Rightarrow> ide \<Rightarrow> ide result" where
  "iderw_request b s =
     (if \<not> b_locked (bufs s) b then Inl (Panic ''iderw: buf not locked'')
      else if b_valid (bufs s) b \<and> \<not> b_dirty (bufs s) b then Inl (Panic ''iderw: nothing to do'')
      else if b_dev (bufs s) b \<noteq> 0 \<and> \<not> havedisk1 (bufs s) then Inl (Panic ''iderw: ide disk 1 not present'')
      else
        let s = s\<lparr>qnext := (qnext s)(b := 0)\<rparr> in
        bindE (if idequeue s = 0 then Inr (s\<lparr>idequeue := b\<rparr>)
               else bindE (queue_end (qnext s) (idequeue s) [idequeue s]) (\<lambda>p. Inr (s\<lparr>qnext := (qnext s)(p := b)\<rparr>))) (\<lambda>s.
        if idequeue s = b then idestart b s else Inr s))"

section \<open>The drive at work\<close>

text \<open>
  The unit and the sector that the ports name, and the end of a transfer: the command is performed on that sector, or
  the drive reports an error.
\<close>

definition unit_sector :: "drive \<Rightarrow> u32 \<times> u32" where
  "unit_sector d = (if bit (port d 0x1F6) 4 then 1 else 0,
     ucast (port d 0x1F3) + 256 * ucast (port d 0x1F4) + 65536 * ucast (port d 0x1F5) + 16777216 * ucast (port d 0x1F6 AND 0x0F))"

definition perform :: "bool \<Rightarrow> ide \<Rightarrow> ide" where
  "perform err s =
     (let d = drive s; k = unit_sector d in
      if err then s\<lparr>drive := d\<lparr>status := 0x41\<rparr>\<rparr>
      else if port d 0x1F7 = IDE_CMD_WRITE
      then s\<lparr>drive := d\<lparr>status := IDE_DRDY\<rparr>,
             bufs := (bufs s)\<lparr>disk := (disk (bufs s))(k := sent d), written := written (bufs s) @ [(k, sent d)]\<rparr>\<rparr>
      else s\<lparr>drive := d\<lparr>status := IDE_DRDY, inbox := disk (bufs s) k\<rparr>\<rparr>)"

text \<open>What the owner of a request and the driver rely on of a buffer.\<close>

definition same_buf :: "bcache \<Rightarrow> bcache \<Rightarrow> u32 \<Rightarrow> bool" where
  "same_buf c c' b \<longleftrightarrow> b_valid c' b = b_valid c b \<and> b_dirty c' b = b_dirty c b \<and> b_dev c' b = b_dev c b \<and>
     b_blockno c' b = b_blockno c b \<and> b_locked c' b = b_locked c b \<and> b_data c' b = b_data c b"

definition may_request :: "u32 \<Rightarrow> bcache \<Rightarrow> bool" where
  "may_request b c \<longleftrightarrow> b \<noteq> 0 \<and> b_locked c b \<and> \<not> (b_valid c b \<and> \<not> b_dirty c b) \<and> b_dev c b = ROOTDEV \<and> b_blockno c b < FSSIZE"

inductive ide_step :: "ide \<Rightarrow> ide \<Rightarrow> bool" where
  request: "may_request b (bufs s) \<Longrightarrow> b \<notin> waiting s \<Longrightarrow> iderw_request b s = Inr s' \<Longrightarrow>
    ide_step s (s'\<lparr>waiting := insert b (waiting s')\<rparr>)"
| interrupt: "status (drive s) = IDE_BSY \<Longrightarrow> ideintr (perform err s) = Inr s' \<Longrightarrow> ide_step s s'"
| spurious: "status (drive s) \<noteq> IDE_BSY \<Longrightarrow> ideintr s = Inr s' \<Longrightarrow> ide_step s s'"
| done_waiting: "b \<in> waiting s \<Longrightarrow> b_valid (bufs s) b \<Longrightarrow> \<not> b_dirty (bufs s) b \<Longrightarrow> ide_step s (s\<lparr>waiting := waiting s - {b}\<rparr>)"
| elsewhere: "\<forall>b \<in> waiting s. same_buf (bufs s) c b \<Longrightarrow> disk c = disk (bufs s) \<Longrightarrow> written c = written (bufs s) \<Longrightarrow>
    havedisk1 c = havedisk1 (bufs s) \<Longrightarrow> ide_step s (s\<lparr>bufs := c\<rparr>)"

definition ide_init :: "ide \<Rightarrow> bool" where
  "ide_init s \<longleftrightarrow> idequeue s = 0 \<and> waiting s = {} \<and> status (drive s) = IDE_DRDY \<and> havedisk1 (bufs s)"

section \<open>The invariant\<close>

text \<open>The ports hold the request of a buffer, and the drive is at work on it.\<close>

definition at_work :: "u32 \<Rightarrow> ide \<Rightarrow> bool" where
  "at_work b s \<longleftrightarrow> status (drive s) = IDE_BSY \<and> unit_sector (drive s) = (ROOTDEV, b_blockno (bufs s) b) \<and>
     port (drive s) 0x1F7 = (if b_dirty (bufs s) b then IDE_CMD_WRITE else IDE_CMD_READ) \<and>
     (b_dirty (bufs s) b \<longrightarrow> sent (drive s) = b_data (bufs s) b)"

definition queued :: "ide \<Rightarrow> u32 list \<Rightarrow> bool" where
  "queued s q \<longleftrightarrow> chain (qnext s) (idequeue s) q \<and> set q \<subseteq> waiting s \<and> (\<forall>b \<in> set q. may_request b (bufs s)) \<and>
     (\<forall>b \<in> waiting s - set q. b_valid (bufs s) b \<and> \<not> b_dirty (bufs s) b) \<and> havedisk1 (bufs s) \<and>
     (if q = [] then status (drive s) AND 0xC0 = IDE_DRDY else at_work (hd q) s)"

definition ide_inv :: "ide \<Rightarrow> bool" where
  "ide_inv s \<longleftrightarrow> (\<exists>q. queued s q)"

lemma sector_of_ports:
  fixes w :: u32
  assumes "w < 1000"
  shows "ucast (ucast (w AND 0xFF) :: u8) + 256 * ucast (ucast (drop_bit 8 w AND 0xFF) :: u8) +
     65536 * ucast (ucast (drop_bit 16 w AND 0xFF) :: u8) = w"
    and "drop_bit 24 w = 0"
proof -
  have n: "unat w < 1000" using assms by (simp add: word_less_nat_alt)
  have un: "unat (drop_bit k w) = unat w div 2 ^ k" for k unfolding unat_drop_bit_eq by (rule drop_bit_eq_div)
  have z: "drop_bit 16 w = 0" "drop_bit 24 w = 0" using n un [of 16] un [of 24] by (simp_all add: unat_eq_zero [symmetric])
  then show "drop_bit 24 w = 0" by simp
  have m: "x AND 0xFF = take_bit 8 x" for x :: u32 by (simp add: take_bit_eq_mask mask_eq_exp_minus_1)
  have byte: "ucast (ucast (take_bit 8 x) :: u8) = take_bit 8 x" for x :: u32 by (rule bit_word_eqI) (auto simp: bit_simps)
  have "take_bit 8 (drop_bit 8 w) = drop_bit 8 w"
    unfolding word_unat_eq_iff unsigned_take_bit_eq un using n by (simp add: take_bit_eq_mod)
  moreover have "take_bit 8 w + 256 * drop_bit 8 w = w"
    using bits_ident [of 8 w] by (simp add: push_bit_eq_mult mult.commute ac_simps)
  ultimately show "ucast (ucast (w AND 0xFF) :: u8) + 256 * ucast (ucast (drop_bit 8 w AND 0xFF) :: u8) +
     65536 * ucast (ucast (drop_bit 16 w AND 0xFF) :: u8) = w" unfolding m byte z(1) by simp
qed

lemma idestart_ok:
  assumes b: "may_request b (bufs s)" and d: "status (drive s) AND 0xC0 = IDE_DRDY"
  shows "\<exists>dr. idestart b s = Inr (s\<lparr>drive := dr\<rparr>) \<and> at_work b (s\<lparr>drive := dr\<rparr>)"
proof -
  let ?n = "b_blockno (bufs s) b"
  have n: "b \<noteq> 0" "?n < 1000" "b_dev (bufs s) b = 1" using b by (simp_all add: may_request_def)
  note sp = sector_of_ports [OF n(2)]
  have "case idestart b s of Inl e \<Rightarrow> False | Inr s' \<Rightarrow> s' = s\<lparr>drive := drive s'\<rparr> \<and> at_work b s'"
    using n(1,2) d sp by (simp add: idestart_def idewait_def n(3) Let_def at_work_def unit_sector_def outb_def not_le)
  then obtain s' where "idestart b s = Inr s'" "s' = s\<lparr>drive := drive s'\<rparr>" "at_work b s'" by (auto split: sum.splits)
  then show ?thesis by metis
qed

lemma queue_end_last: "chain nx p (p # ps) \<Longrightarrow> set ps \<inter> set seen = {} \<Longrightarrow> queue_end nx p seen = Inr (last (p # ps))"
proof (induction ps arbitrary: p seen)
  case (Cons a ps)
  have a: "nx p = a" "a \<noteq> 0" "chain nx a (a # ps)" using Cons.prems(1) by auto
  then have "a \<notin> set ps" using chain_distinct [of nx a "a # ps"] by simp
  then have "queue_end nx a (a # seen) = Inr (last (a # ps))" using Cons.prems(2) by (intro Cons.IH a(3)) auto
  then show ?case using a Cons.prems(2) by simp
qed simp

lemma chain_snoc: "chain nx p xs \<Longrightarrow> xs \<noteq> [] \<Longrightarrow> b \<notin> set xs \<Longrightarrow> b \<noteq> 0 \<Longrightarrow> nx b = 0 \<Longrightarrow> chain (nx(last xs := b)) p (xs @ [b])"
proof (induction xs arbitrary: p)
  case (Cons x xs)
  show ?case
  proof (cases "xs = []")
    case False
    have "x \<notin> set xs" using chain_distinct [OF Cons.prems(1)] by simp
    then have "x \<noteq> last xs" using False by auto
    then show ?thesis using Cons False by auto
  qed (use Cons.prems in auto)
qed simp

declare queue_end.simps [simp del]


section \<open>Requests and interrupts\<close>

lemma at_work_cong:
  assumes "at_work b s" "drive s' = drive s" "same_buf (bufs s) (bufs s') b"
  shows "at_work b s'"
  using assms by (simp add: at_work_def same_buf_def)

lemma queued_head: "queued s q \<Longrightarrow> q \<noteq> [] \<Longrightarrow> at_work (hd q) s"
  by (simp add: queued_def)

lemma may_request_cong: "same_buf c c' b \<Longrightarrow> may_request b c' = may_request b c"
  by (simp add: may_request_def same_buf_def)

lemma request_queued:
  assumes q: "queued s q" and b: "may_request b (bufs s)" "b \<notin> waiting s"
  shows "\<exists>s'. iderw_request b s = Inr s' \<and> queued (s'\<lparr>waiting := insert b (waiting s')\<rparr>) (q @ [b])"
proof -
  have c: "chain (qnext s) (idequeue s) q" "set q \<subseteq> waiting s" "havedisk1 (bufs s)" using q by (simp_all add: queued_def)
  have bn: "b \<notin> set q" "b \<noteq> 0" using b c(2) by (auto simp: may_request_def)
  let ?nx = "(qnext s)(b := 0)"
  have ok: "b_locked (bufs s) b" "\<not> (b_valid (bufs s) b \<and> \<not> b_dirty (bufs s) b)" using b(1) by (auto simp: may_request_def)
  show ?thesis
  proof (cases q)
    case Nil
    let ?s = "s\<lparr>qnext := ?nx, idequeue := b\<rparr>"
    have e: "idequeue s = 0" using c(1) Nil by simp
    have "status (drive ?s) AND 0xC0 = IDE_DRDY" using q Nil by (simp add: queued_def)
    then obtain dr where d: "idestart b ?s = Inr (?s\<lparr>drive := dr\<rparr>)" "at_work b (?s\<lparr>drive := dr\<rparr>)"
      using idestart_ok [of b ?s] b(1) by auto
    have "iderw_request b s = Inr (?s\<lparr>drive := dr\<rparr>)" using ok c(3) e d(1) by (auto simp: iderw_request_def)
    moreover have "at_work b (?s\<lparr>drive := dr, waiting := insert b (waiting s)\<rparr>)"
      by (rule at_work_cong [OF d(2)]) (simp_all add: same_buf_def)
    ultimately show ?thesis using q Nil bn b by (simp add: queued_def)
  next
    case (Cons h t)
    have h: "idequeue s = h" "h \<noteq> 0" "h \<noteq> b" using c(1) Cons bn by auto
    have ch: "chain ?nx h q" using c(1) bn h(1) by simp
    then have "queue_end ?nx h [h] = Inr (last q)" using queue_end_last [of ?nx h t "[h]"] Cons chain_distinct [OF ch] by simp
    then have "iderw_request b s = Inr (s\<lparr>qnext := ?nx(last q := b)\<rparr>)" using ok c(3) h by (simp add: iderw_request_def)
    moreover have "chain (?nx(last q := b)) h (q @ [b])" using chain_snoc [OF ch] Cons bn by simp
    moreover have "at_work h s" using q Cons by (simp add: queued_def)
    then have "at_work h (s\<lparr>qnext := ?nx(last q := b), waiting := insert b (waiting s)\<rparr>)"
      by (rule at_work_cong) (simp_all add: same_buf_def)
    ultimately show ?thesis using q Cons bn b(1) h(1) unfolding queued_def by (simp add: subset_insertI2)
  qed
qed

text \<open>
  The interrupt that ends the transfer of the first buffer: without an error the buffers and the disk are as if
  \<^verbatim>\<open>iderw\<close> had been called for it now.
\<close>

definition served :: "bool \<Rightarrow> u32 \<Rightarrow> bcache \<Rightarrow> bcache" where
  "served err b c =
     (let c = (if err then c else if b_dirty c b then disk_write b c else disk_read b c)
      in c\<lparr>b_valid := (b_valid c)(b := True), b_dirty := (b_dirty c)(b := False)\<rparr>)"

lemma served_iderw: "may_request b c \<Longrightarrow> havedisk1 c \<Longrightarrow> iderw b c = Inr (served False b c)"
  by (simp add: iderw_def served_def may_request_def Let_def not_le)

lemma served_other: "a \<noteq> b \<Longrightarrow> same_buf c (served err b c) a"
  by (simp add: same_buf_def served_def Let_def disk_write_def disk_read_def)

lemma interrupt_queued:
  assumes q: "queued s (b # q)"
  shows "\<exists>s'. ideintr (perform err s) = Inr s' \<and> queued s' q \<and> bufs s' = served err b (bufs s) \<and> waiting s' = waiting s"
proof -
  have c: "chain (qnext s) (qnext s b) q" "idequeue s = b" "b \<noteq> 0" "havedisk1 (bufs s)" "b \<notin> set q"
    using q chain_distinct [of "qnext s" "idequeue s" "b # q"] by (auto simp: queued_def)
  have w: "at_work b s" "may_request b (bufs s)" using q by (simp_all add: queued_def)
  let ?c = "served err b (bufs s)"
  define d where "d = drive (perform err s)"
  have d: "status d AND 0xC0 = IDE_DRDY" by (simp add: d_def perform_def Let_def)
  define s1 where "s1 = s\<lparr>drive := d, idequeue := qnext s b, bufs := ?c\<rparr>"
  have e: "ideintr (perform err s) = (if qnext s b \<noteq> 0 then idestart (qnext s b) s1 else Inr s1)"
  proof -
    have k: "unit_sector (drive s) = (b_dev (bufs s) b, b_blockno (bufs s) b)" using w by (simp add: at_work_def may_request_def)
    show ?thesis
    proof (cases "b_dirty (bufs s) b")
      case True
      then show ?thesis using w(1) c(2,3) k
        by (simp add: ideintr_def perform_def s1_def d_def served_def Let_def at_work_def disk_write_def)
    next
      case False
      then show ?thesis using w(1) c(2,3) k
        by (simp add: ideintr_def perform_def s1_def d_def served_def Let_def at_work_def disk_read_def idewait_def)
    qed
  qed
  show ?thesis
  proof (cases q)
    case Nil
    then have "qnext s b = 0" using c(1) by simp
    then show ?thesis using e Nil q d c by (auto simp: s1_def queued_def served_def Let_def disk_write_def disk_read_def)
  next
    case (Cons h t)
    have h: "qnext s b = h" "h \<noteq> 0" using c(1) Cons by auto
    have sm: "same_buf (bufs s) ?c a" if "a \<in> set q" for a using that c(5) by (intro served_other) auto
    have "may_request h (bufs s1)" using q Cons may_request_cong [OF sm, of h] by (simp add: s1_def queued_def)
    then obtain dr where dr: "idestart h s1 = Inr (s1\<lparr>drive := dr\<rparr>)" "at_work h (s1\<lparr>drive := dr\<rparr>)"
      using idestart_ok [of h s1] d by (auto simp: s1_def)
    have "queued (s1\<lparr>drive := dr\<rparr>) q" unfolding queued_def
    proof (intro conjI ballI)
      show "may_request a (bufs (s1\<lparr>drive := dr\<rparr>))" if "a \<in> set q" for a
        using q that may_request_cong [OF sm [OF that]] by (simp add: s1_def queued_def)
      fix a assume a: "a \<in> waiting (s1\<lparr>drive := dr\<rparr>) - set q"
      have "b_valid ?c a \<and> \<not> b_dirty ?c a"
      proof (cases "a = b")
        case True
        then show ?thesis by (simp add: served_def Let_def)
      next
        case False
        then show ?thesis using q a served_other [of a b "bufs s" err] by (simp add: s1_def queued_def same_buf_def)
      qed
      then show "b_valid (bufs (s1\<lparr>drive := dr\<rparr>)) a" "\<not> b_dirty (bufs (s1\<lparr>drive := dr\<rparr>)) a" by (simp_all add: s1_def)
    qed (use q c dr(2) Cons in \<open>auto simp: s1_def queued_def served_def Let_def disk_write_def disk_read_def\<close>)
    then show ?thesis using e h dr(1) by (simp add: s1_def)
  qed
qed


section \<open>Runs of the driver\<close>

lemma elsewhere_queued:
  assumes q: "queued s q" and c: "\<forall>b \<in> waiting s. same_buf (bufs s) c b" "havedisk1 c = havedisk1 (bufs s)"
  shows "queued (s\<lparr>bufs := c\<rparr>) q"
proof -
  have w: "set q \<subseteq> waiting s" using q by (simp add: queued_def)
  have "may_request b c" if "b \<in> set q" for b using q c(1) w that may_request_cong [of "bufs s" c b] by (auto simp: queued_def)
  moreover have "at_work (hd q) (s\<lparr>bufs := c\<rparr>)" if "q \<noteq> []"
  proof (rule at_work_cong [OF queued_head [OF q that]])
    show "same_buf (bufs s) (bufs (s\<lparr>bufs := c\<rparr>)) (hd q)" using c(1) w hd_in_set [OF that] by auto
  qed simp
  moreover have "b_valid c b \<and> \<not> b_dirty c b" if "b \<in> waiting s - set q" for b using q c(1) that by (simp add: queued_def same_buf_def)
  ultimately show ?thesis using q c(2) unfolding queued_def by simp
qed

lemma queued_idle: "queued s q \<Longrightarrow> (status (drive s) = IDE_BSY) = (q \<noteq> [])"
  by (auto simp: queued_def at_work_def)

lemma ide_step_inv: "ide_step s s' \<Longrightarrow> ide_inv s \<Longrightarrow> ide_inv s'"
proof (induction rule: ide_step.induct)
  case (request b s s')
  then obtain q where "queued s q" by (auto simp: ide_inv_def)
  then show ?case using request_queued [of s q b] request.hyps by (auto simp: ide_inv_def)
next
  case (interrupt s err s')
  then obtain q where q: "queued s q" by (auto simp: ide_inv_def)
  then obtain b q' where "q = b # q'" using queued_idle [OF q] interrupt.hyps(1) by (cases q) auto
  then show ?case using interrupt_queued [of s b q' err] q interrupt.hyps(2) by (auto simp: ide_inv_def)
next
  case (spurious s s')
  then obtain q where q: "queued s q" by (auto simp: ide_inv_def)
  then have "idequeue s = 0" using queued_idle [OF q] spurious.hyps(1) by (auto simp: queued_def)
  then show ?case using spurious by (simp add: ideintr_def)
next
  case (done_waiting b s)
  then obtain q where q: "queued s q" by (auto simp: ide_inv_def)
  then have "b \<notin> set q" using done_waiting.hyps by (auto simp: queued_def may_request_def)
  moreover have "at_work (hd q) (s\<lparr>waiting := waiting s - {b}\<rparr>)" if "q \<noteq> []"
    by (rule at_work_cong [OF queued_head [OF q that]]) (simp_all add: same_buf_def)
  ultimately have "queued (s\<lparr>waiting := waiting s - {b}\<rparr>) q" using q unfolding queued_def by (simp add: subset_Diff_insert)
  then show ?case by (auto simp: ide_inv_def)
next
  case (elsewhere s c)
  then show ?case unfolding ide_inv_def using elsewhere_queued by blast
qed

text \<open>The driver after \<^verbatim>\<open>ideinit\<close> with a disk 1 is idle.\<close>

lemma ideinit_idle:
  assumes "idequeue s = 0" "waiting s = {}" "status (drive s) = IDE_DRDY" "\<exists>r \<in> set (take 1000 polls). r \<noteq> 0"
  shows "\<exists>s'. ideinit polls s = Inr s' \<and> ide_init s'"
  using assms by (auto simp: ideinit_def idewait_def ide_init_def outb_def)

lemma ide_init_inv: "ide_init s \<Longrightarrow> ide_inv s"
  unfolding ide_inv_def by (rule exI [of _ "[]"]) (simp add: ide_init_def queued_def)

interpretation disk: machine ide_init ide_step ide_inv
  by unfold_locales (auto intro: ide_init_inv ide_step_inv)

text \<open>Interrupts that end \<open>n\<close> transfers without an error.\<close>

fun interrupts :: "nat \<Rightarrow> ide \<Rightarrow> ide result" where
  "interrupts 0 s = Inr s"
| "interrupts (Suc n) s = bindE (ideintr (perform False s)) (interrupts n)"

lemma interrupts_queued:
  "queued s q \<Longrightarrow> n \<le> length q \<Longrightarrow>
   \<exists>s'. interrupts n s = Inr s' \<and> queued s' (drop n q) \<and> foldE iderw (take n q) (bufs s) = Inr (bufs s') \<and>
     waiting s' = waiting s"
proof (induction n arbitrary: s q)
  case (Suc n)
  then obtain b t where b: "q = b # t" by (cases q) auto
  obtain s1 where s1: "ideintr (perform False s) = Inr s1" "queued s1 t" "bufs s1 = served False b (bufs s)" "waiting s1 = waiting s"
    using interrupt_queued Suc.prems(1) b by blast
  have "iderw b (bufs s) = Inr (bufs s1)" using Suc.prems(1) b s1(3) served_iderw by (auto simp: queued_def)
  moreover obtain s' where "interrupts n s1 = Inr s'" "queued s' (drop n t)" "foldE iderw (take n t) (bufs s1) = Inr (bufs s')"
    "waiting s' = waiting s1"
    using Suc.IH [OF s1(2)] Suc.prems(2) b by auto
  ultimately show ?case using s1(1,4) b by auto
qed simp

text \<open>
  C24. The queue of the IDE driver implements the synchronous \<^verbatim>\<open>iderw\<close> of the buffer cache.  In every state that processes
  and interrupts can reach from an idle driver there is a list of requests, linked from \<^verbatim>\<open>idequeue\<close>, whose buffers are
  locked and not yet transferred; the drive is at work exactly when the list is not empty, and then on the first
  request.  A further request of a locked buffer does not panic and goes to the end of the list.  If the next \<open>n\<close>
  transfers succeed, the handler does not panic or wait, and the buffers and the disk are as after \<open>n\<close> calls of \<^verbatim>\<open>iderw\<close> for
  the first \<open>n\<close> requests in order, so that each request is finished by the interrupt that its place in the list says.
\<close>

theorem ide_queue_serves:
  assumes "ide_init s0" and "ide_step\<^sup>*\<^sup>* s0 s"
  shows "\<exists>q. chain (qnext s) (idequeue s) q \<and> (\<forall>b \<in> set q. may_request b (bufs s)) \<and>
     (if q = [] then status (drive s) \<noteq> IDE_BSY else at_work (hd q) s) \<and>
     (\<forall>b. may_request b (bufs s) \<and> b \<notin> waiting s \<longrightarrow>
        (\<exists>s'. iderw_request b s = Inr s' \<and> chain (qnext s') (idequeue s') (q @ [b]))) \<and>
     (\<forall>n \<le> length q. \<exists>s'. interrupts n s = Inr s' \<and> chain (qnext s') (idequeue s') (drop n q) \<and>
        foldE iderw (take n q) (bufs s) = Inr (bufs s') \<and> (\<forall>b \<in> set (take n q). b_valid (bufs s') b \<and> \<not> b_dirty (bufs s') b))"
proof -
  obtain q where q: "queued s q" using disk.run [OF assms] by (auto simp: ide_inv_def)
  then have w: "set q \<subseteq> waiting s" "distinct q" using chain_distinct by (auto simp: queued_def)
  have "\<exists>s'. interrupts n s = Inr s' \<and> chain (qnext s') (idequeue s') (drop n q) \<and>
        foldE iderw (take n q) (bufs s) = Inr (bufs s') \<and> (\<forall>b \<in> set (take n q). b_valid (bufs s') b \<and> \<not> b_dirty (bufs s') b)"
    if n: "n \<le> length q" for n
  proof -
    obtain s' where s': "interrupts n s = Inr s'" "queued s' (drop n q)" "foldE iderw (take n q) (bufs s) = Inr (bufs s')" "waiting s' = waiting s"
      using interrupts_queued [OF q n] by blast
    have "b \<in> waiting s' - set (drop n q)" if b: "b \<in> set (take n q)" for b
      using w b s'(4) set_take_disj_set_drop_if_distinct [OF w(2), of n n] in_set_takeD [OF b] by auto
    then show ?thesis using s' unfolding queued_def by blast
  qed
  moreover have "\<exists>s'. iderw_request b s = Inr s' \<and> chain (qnext s') (idequeue s') (q @ [b])" if "may_request b (bufs s)" "b \<notin> waiting s" for b
    using request_queued [OF q that] by (auto simp: queued_def)
  ultimately show ?thesis using q queued_idle [OF q] by (intro exI [of _ q]) (simp add: queued_def)
qed

text \<open>A read of block 7 into buffer 3, on an idle disk.\<close>

definition demo_ide :: ide where
  "demo_ide = \<lparr>idequeue = 0, qnext = (\<lambda>_. 0), drive = \<lparr>port = (\<lambda>_. 0), status = IDE_DRDY, sent = [], inbox = []\<rparr>,
     bufs = zero_bcache\<lparr>b_locked := (\<lambda>b. b = 3), b_dev := (\<lambda>_. ROOTDEV), b_blockno := (\<lambda>_. 7)\<rparr>, waiting = {}\<rparr>"

theorem ide_queue_serves_witness:
  "\<exists>s s'. ide_step\<^sup>*\<^sup>* demo_ide s \<and> interrupts 1 s = Inr s' \<and> idequeue s' = 0 \<and> b_valid (bufs s') 3 \<and> \<not> b_dirty (bufs s') 3"
proof -
  have i: "ide_init demo_ide" by (simp add: ide_init_def demo_ide_def zero_bcache_def)
  have m: "may_request 3 (bufs demo_ide)" "3 \<notin> waiting demo_ide" by (simp_all add: may_request_def demo_ide_def zero_bcache_def)
  from ide_queue_serves [OF i rtranclp.rtrancl_refl] obtain q0 where "chain (qnext demo_ide) (idequeue demo_ide) q0"
    "\<forall>b. may_request b (bufs demo_ide) \<and> b \<notin> waiting demo_ide \<longrightarrow>
        (\<exists>s'. iderw_request b demo_ide = Inr s' \<and> chain (qnext s') (idequeue s') (q0 @ [b]))" by blast
  moreover have "idequeue demo_ide = 0" by (simp add: demo_ide_def)
  ultimately obtain s1 where s1: "iderw_request 3 demo_ide = Inr s1" "chain (qnext s1) (idequeue s1) [3]" using m by auto
  let ?s = "s1\<lparr>waiting := insert 3 (waiting s1)\<rparr>"
  have st: "ide_step\<^sup>*\<^sup>* demo_ide ?s" using ide_step.request [OF m s1(1)] by blast
  from ide_queue_serves [OF i st] obtain q where q: "chain (qnext ?s) (idequeue ?s) q"
    "\<forall>n \<le> length q. \<exists>s'. interrupts n ?s = Inr s' \<and> chain (qnext s') (idequeue s') (drop n q) \<and>
        foldE iderw (take n q) (bufs ?s) = Inr (bufs s') \<and> (\<forall>b \<in> set (take n q). b_valid (bufs s') b \<and> \<not> b_dirty (bufs s') b)" by blast
  then have "q = [3]" by (intro chain_functional [OF _ s1(2)]) simp
  then obtain s' where "interrupts 1 ?s = Inr s'" "chain (qnext s') (idequeue s') []" "b_valid (bufs s') 3" "\<not> b_dirty (bufs s') 3"
    using spec [OF q(2), of 1] by auto
  then show ?thesis using st by auto
qed

text \<open>
  A transfer that fails is reported to nobody: the buffer of a read is marked valid with the contents it had before, and
  that of a write is marked clean although nothing was written.
\<close>

lemma failed_transfer:
  assumes "queued s (b # q)"
  shows "\<exists>s'. ideintr (perform True s) = Inr s' \<and> b_valid (bufs s') b \<and> \<not> b_dirty (bufs s') b \<and>
     b_data (bufs s') b = b_data (bufs s) b \<and> disk (bufs s') = disk (bufs s)"
  using interrupt_queued [OF assms, of True] by (auto simp: served_def Let_def)

end
