(* ===== verification/Ulib.thy ===== *)
theory Ulib
  imports Console
begin

text \<open>
  The library of the user programs: the string functions of \<^verbatim>\<open>ulib.c\<close> and \<^verbatim>\<open>printf.c\<close>.  Strings are their bytes, a read at
  the end of the list is the terminating zero.  What \<^verbatim>\<open>printf\<close> writes is the list of the bytes that it passes to \<^verbatim>\<open>write\<close>,
  one at a time.  The digits are those of the console with capital letters.
\<close>

section \<open>Strings\<close>

fun strcpy :: "cstr \<Rightarrow> u8 list" where
  "strcpy [] = [0]"
| "strcpy (c # t) = (if c = 0 then [0] else c # strcpy t)"

fun strcmp :: "cstr \<Rightarrow> cstr \<Rightarrow> int" where
  "strcmp [] q = 0 - uint (peek q)"
| "strcmp (c # p) q = (if c \<noteq> 0 \<and> c = peek q then strcmp p (tl q) else uint c - uint (peek q))"

text \<open>The offset of the first occurrence, \<open>None\<close> for the null pointer.\<close>

fun strchr :: "cstr \<Rightarrow> u8 \<Rightarrow> nat option" where
  "strchr [] c = None"
| "strchr (a # s) c = (if a = 0 then None else if a = c then Some 0 else map_option Suc (strchr s c))"

text \<open>The \<^verbatim>\<open>int\<close> that \<^verbatim>\<open>atoi\<close> computes in wraps at 32 bits.\<close>

fun atoi_loop :: "cstr \<Rightarrow> u32 \<Rightarrow> u32" where
  "atoi_loop [] n = n"
| "atoi_loop (c # s) n = (if 48 \<le> c \<and> c \<le> 57 then atoi_loop s (n * 10 + ucast c - 48) else n)"

definition atoi :: "cstr \<Rightarrow> int" where
  "atoi s = sint (atoi_loop s 0)"

text \<open>\<^verbatim>\<open>memmove\<close> of the user library copies upwards only; a count that is not positive copies nothing.\<close>

definition umemmove :: "mem \<Rightarrow> u32 \<Rightarrow> u32 \<Rightarrow> u32 \<Rightarrow> mem" where
  "umemmove m dst src n = copy_up m dst src (nat (sint n))"

section \<open>Formatted output\<close>

definition udigit :: "nat \<Rightarrow> u8" where
  "udigit d = (if d < 10 then 48 + of_nat d else 55 + of_nat d)"

function udigits_loop :: "nat \<Rightarrow> nat \<Rightarrow> u8 list" where
  "udigits_loop base x =
     (if x < base \<or> base < 2 then [udigit (x mod base)] else udigit (x mod base) # udigits_loop base (x div base))"
  by pat_completeness auto
termination
  by (relation "measure (\<lambda>(base, x). x)") auto

declare udigits_loop.simps [simp del]

text \<open>The buffer holds 16 characters; more are written past its end.\<close>

definition uprintint :: "u32 \<Rightarrow> nat \<Rightarrow> bool \<Rightarrow> u8 list result" where
  "uprintint xx base sg =
     (let neg = (sg \<and> sint xx < 0);
          x = (if neg then - xx else xx);
          buf = udigits_loop base (unat x) @ (if neg then [45] else [])
      in if length buf > 16 then Inl Wild else Inr (rev buf))"

text \<open>
  The loop of \<^verbatim>\<open>printf\<close> over the format, with the state \<^verbatim>\<open>%\<close> as a flag.  An argument is read from the stack even if
  there is none; that is \<open>Wild\<close>.
\<close>

definition text_of :: "(u32 \<Rightarrow> cstr) \<Rightarrow> u32 \<Rightarrow> u8 list" where
  "text_of str_at a = takeWhile (\<lambda>c. c \<noteq> 0) (if a = 0 then str ''(null)'' else str_at a)"

fun printf_loop :: "(u32 \<Rightarrow> cstr) \<Rightarrow> cstr \<Rightarrow> bool \<Rightarrow> u32 list \<Rightarrow> u8 list result" where
  "printf_loop str_at [] pct args = Inr []"
| "printf_loop str_at (c # fmt) pct args =
     (if c = 0 then Inr []
      else if \<not> pct then
        if c = 37 then printf_loop str_at fmt True args
        else bindE (printf_loop str_at fmt False args) (\<lambda>out. Inr (c # out))
      else if c \<in> {100, 120, 112, 115, 99} then
        (case args of
           [] \<Rightarrow> Inl Wild
         | a # as \<Rightarrow>
             bindE (if c = 100 then uprintint a 10 True
                    else if c = 115 then Inr (text_of str_at a)
                    else if c = 99 then Inr [ucast a]
                    else uprintint a 16 False) (\<lambda>o1.
             bindE (printf_loop str_at fmt False as) (\<lambda>out. Inr (o1 @ out))))
      else if c = 37 then bindE (printf_loop str_at fmt False args) (\<lambda>out. Inr (37 # out))
      else bindE (printf_loop str_at fmt False args) (\<lambda>out. Inr (37 # c # out)))"

definition printf :: "(u32 \<Rightarrow> cstr) \<Rightarrow> cstr \<Rightarrow> u32 list \<Rightarrow> u8 list result" where
  "printf str_at fmt args = printf_loop str_at fmt False args"

section \<open>Properties\<close>

text \<open>Equality and order of strings.\<close>

lemma strcmp_eq: "0 \<notin> set p \<Longrightarrow> 0 \<notin> set q \<Longrightarrow> strcmp p q = 0 \<longleftrightarrow> p = q"
proof (induction p arbitrary: q)
  case Nil
  then show ?case by (cases q) (auto simp: peek_def unsigned_eq_0_iff)
next
  case (Cons c p)
  then show ?case by (cases q) (auto simp: peek_def unsigned_eq_0_iff dest: word_uint_eqI)
qed

lemma strcmp_less: "0 \<notin> set p \<Longrightarrow> 0 \<notin> set q \<Longrightarrow> strcmp p q < 0 \<longleftrightarrow> (p, q) \<in> lexord {(a, b). a < b}"
proof (induction p arbitrary: q)
  case Nil
  then show ?case by (cases q) (auto simp: peek_def word_less_def word_neq_0_conv)
next
  case (Cons c p)
  then show ?case by (cases q) (auto simp: peek_def word_less_def)
qed

text \<open>Numbers.\<close>

lemma udigit_range: "d < 10 \<Longrightarrow> 48 \<le> udigit d \<and> udigit d \<le> 57" "d < 10 \<Longrightarrow> unat (udigit d) = 48 + d"
proof -
  assume d: "d < 10"
  have "unat (of_nat d :: u8) = d" using d by (simp add: unat_of_nat take_bit_eq_mod)
  then have "unat (48 + of_nat d :: u8) = 48 + d" using d by (subst unat_add_lem [THEN iffD1]) simp_all
  then show "unat (udigit d) = 48 + d" using d by (simp add: udigit_def)
  then show "48 \<le> udigit d \<and> udigit d \<le> 57" using d by (simp add: word_le_nat_alt)
qed

lemma atoi_digits: "atoi_loop (rev (udigits_loop 10 x) @ s) 0 = atoi_loop s (of_nat x)"
proof (induction x arbitrary: s rule: less_induct)
  case (less x)
  let ?d = "udigit (x mod 10)"
  note r = udigit_range [of "x mod 10"]
  have u: "ucast ?d = (of_nat (48 + x mod 10) :: u32)" using r(2) by (metis mod_less_divisor of_nat_unat zero_less_numeral)
  show ?case
  proof (cases "x < 10")
    case True
    then show ?thesis using r(1) u by (subst udigits_loop.simps) simp
  next
    case False
    then have "atoi_loop (rev (udigits_loop 10 x) @ s) 0 = atoi_loop (?d # s) (of_nat (x div 10))"
      using less.IH [of "x div 10" "?d # s"] by (subst udigits_loop.simps) simp
    also have "\<dots> = atoi_loop s (of_nat (x div 10) * 10 + of_nat (48 + x mod 10) - 48)" using r(1) u by simp
    also have "of_nat (x div 10) * 10 + of_nat (48 + x mod 10) - 48 = (of_nat (x div 10 * 10 + x mod 10) :: u32)" unfolding of_nat_add of_nat_mult by simp
    finally show ?thesis by simp
  qed
qed

lemma udigits_length: "2 \<le> base \<Longrightarrow> x < base ^ Suc k \<Longrightarrow> length (udigits_loop base x) \<le> Suc k"
proof (induction k arbitrary: x)
  case 0
  then show ?case by (simp add: udigits_loop.simps)
next
  case (Suc k)
  then have "x div base < base ^ Suc k" by (simp add: less_mult_imp_div_less mult.commute)
  then have "length (udigits_loop base (x div base)) \<le> Suc k" using Suc by blast
  then show ?case by (subst udigits_loop.simps) simp
qed

lemma udigits_fit: "base = 10 \<or> base = 16 \<Longrightarrow> length (udigits_loop base (unat (x :: u32))) \<le> 10"
proof -
  assume b: "base = 10 \<or> base = 16"
  have "unat x < 4294967296" using unsigned_less [of x] by simp
  then have "unat x < base ^ Suc 9" using b by auto
  then show ?thesis using udigits_length [of base "unat x" 9] b by fastforce
qed

lemma uprintint_fits: "base = 10 \<or> base = 16 \<Longrightarrow> \<exists>out. uprintint xx base sg = Inr out"
  using udigits_fit [of base xx] udigits_fit [of base "- xx"] by (auto simp: uprintint_def Let_def)

lemma atoi_uprintint:
  assumes "0 \<le> sint xx" and "s = [] \<or> \<not> (48 \<le> hd s \<and> hd s \<le> 57)"
  shows "\<exists>out. uprintint xx 10 True = Inr out \<and> atoi (out @ s) = sint xx"
proof -
  have "uprintint xx 10 True = Inr (rev (udigits_loop 10 (unat xx)))" using assms(1) udigits_fit [of 10 xx] by (simp add: uprintint_def)
  moreover have "atoi_loop s (of_nat (unat xx)) = xx" using assms(2) by (cases s) auto
  ultimately show ?thesis by (simp add: atoi_def atoi_digits)
qed

text \<open>The conversions of a format that take an argument.\<close>

fun utakes :: "cstr \<Rightarrow> bool \<Rightarrow> nat" where
  "utakes [] pct = 0"
| "utakes (c # fmt) pct =
     (if c = 0 then 0
      else if \<not> pct then utakes fmt (c = 37)
      else (if c \<in> {100, 120, 112, 115, 99} then 1 else 0) + utakes fmt False)"

lemma printf_loop_returns: "utakes fmt pct \<le> length args \<Longrightarrow> \<exists>out. printf_loop str_at fmt pct args = Inr out"
proof (induction fmt arbitrary: pct args)
  case (Cons c fmt)
  consider "c = 0" | "c \<noteq> 0" "\<not> pct" | "c \<noteq> 0" "pct" "c \<in> {100, 120, 112, 115, 99}" | "c \<noteq> 0" "pct" "c \<notin> {100, 120, 112, 115, 99}" by blast
  then show ?case
  proof cases
    case 2
    then show ?thesis using Cons.IH [of True args] Cons.IH [of False args] Cons.prems by (cases "c = 37") auto
  next
    case 3
    then obtain a as where a: "args = a # as" using Cons.prems by (cases args) auto
    obtain out where "printf_loop str_at fmt False as = Inr out" using Cons.IH [of False as] Cons.prems 3 a by auto
    then show ?thesis using a 3 uprintint_fits [of 10 a True] uprintint_fits [of 16 a False] by auto
  next
    case 4
    then show ?thesis using Cons.IH [of False args] Cons.prems by auto
  qed simp
qed simp

lemma printf_number:
  assumes "utakes (str ''%d'' @ fmt) False \<le> Suc (length args)" and "0 \<le> sint x" and "fmt = [] \<or> hd fmt \<notin> {48..57}" and "fmt = [] \<or> hd fmt \<noteq> 37"
  shows "\<exists>out. printf str_at (str ''%d'' @ fmt) (x # args) = Inr out \<and> atoi out = sint x"
proof -
  have s: "str ''%d'' = [37, 100]" by (simp add: str_def of_char_def)
  obtain o2 where o2: "printf_loop str_at fmt False args = Inr o2"
    using printf_loop_returns [of fmt False args str_at] assms(1) by (auto simp: s)
  have "o2 = [] \<or> hd o2 = hd fmt" using o2 assms(4) by (cases fmt) (auto split: if_splits)
  moreover have "o2 \<noteq> [] \<longrightarrow> fmt \<noteq> []" using o2 by auto
  ultimately have "o2 = [] \<or> \<not> (48 \<le> hd o2 \<and> hd o2 \<le> 57)" using assms(3) by auto
  from atoi_uprintint [OF assms(2) this] obtain o1 where "uprintint x 10 True = Inr o1" "atoi (o1 @ o2) = sint x" by blast
  then show ?thesis using o2 by (simp add: printf_def s)
qed



text \<open>
  The copy upwards is not that of \<^verbatim>\<open>string.c\<close>: when the target overlaps the end of the source, bytes of the source are
  overwritten before they are copied.
\<close>

lemma umemmove_smears:
  "umemmove ((\<lambda>_. 0)(100 := 1, 101 := 2)) 101 100 2 102 = 1" "memmove ((\<lambda>_. 0)(100 := 1, 101 := 2)) 101 100 2 102 = 2"
  by code_simp+

end
