(* ===== verification/Utils.thy ===== *)
theory Utils
  imports Grep Ulib
begin

text \<open>
  The loops of the user programs \<^verbatim>\<open>grep\<close> and \<^verbatim>\<open>wc\<close> over their input.  The input is a list of bytes, and a read returns
  the next of them, at least one while there are any: as many as fit into the buffer, or fewer, at most \<open>rd k\<close> in the
  \<open>k\<close>-th read, as a pipe or the console does.
\<close>

section \<open>grep\<close>

text \<open>
  The loop over the lines of the buffer, from the pointer \<^verbatim>\<open>p\<close> on: what is written and where the pointer ends.  The
  search of \<^verbatim>\<open>strchr\<close> ends at a zero byte.
\<close>

function grep_lines :: "cstr \<Rightarrow> u8 list \<Rightarrow> u8 list \<times> u8 list" where
  "grep_lines pattern p =
     (case strchr p 10 of
        None \<Rightarrow> ([], p)
      | Some q \<Rightarrow>
          let (out, rest) = grep_lines pattern (drop (Suc q) p) in
          ((if match pattern (take q p) then take (Suc q) p else []) @ out, rest))"
  by pat_completeness auto
termination
proof (relation "measure (\<lambda>(pattern, p). length p)")
  fix pattern :: cstr and p :: "u8 list" and q
  assume "strchr p 10 = Some q"
  then have "p \<noteq> []" by auto
  then show "((pattern, drop (Suc q) p), pattern, p) \<in> measure (\<lambda>(pattern, p). length p)" by simp
qed simp

declare grep_lines.simps [simp del]

text \<open>\<open>kept\<close> are the \<^verbatim>\<open>m\<close> bytes at the start of the buffer.\<close>

function grep_loop :: "cstr \<Rightarrow> (nat \<Rightarrow> nat) \<Rightarrow> nat \<Rightarrow> u8 list \<Rightarrow> u8 list \<Rightarrow> u8 list" where
  "grep_loop pattern rd k kept src =
     (let n = min (min (1023 - length kept) (rd k)) (length src) in
      if n = 0 then []
      else
        let buf = kept @ take n src; (out, rest) = grep_lines pattern buf in
        out @ grep_loop pattern rd (Suc k) (if length rest = length buf then [] else rest) (drop n src))"
  by pat_completeness auto
termination
  by (relation "measure (\<lambda>(pattern, rd, k, kept, src). length src)") auto

declare grep_loop.simps [simp del]

definition grep :: "cstr \<Rightarrow> (nat \<Rightarrow> nat) \<Rightarrow> u8 list \<Rightarrow> u8 list" where
  "grep pattern rd src = grep_loop pattern rd 0 [] src"

section \<open>wc\<close>

record counts =
  wl :: u32
  ww :: u32
  wch :: u32
  inword :: bool

definition wc_byte :: "u8 \<Rightarrow> counts \<Rightarrow> counts" where
  "wc_byte b c =
     (let c = c\<lparr>wch := wch c + 1, wl := (if b = 10 then wl c + 1 else wl c)\<rparr> in
      if strchr [32, 13, 9, 10, 11] b \<noteq> None then c\<lparr>inword := False\<rparr>
      else if \<not> inword c then c\<lparr>ww := ww c + 1, inword := True\<rparr>
      else c)"

function wc_loop :: "(nat \<Rightarrow> nat) \<Rightarrow> nat \<Rightarrow> u8 list \<Rightarrow> counts \<Rightarrow> counts" where
  "wc_loop rd k src c =
     (let n = min (min 512 (rd k)) (length src) in
      if n = 0 then c else wc_loop rd (Suc k) (drop n src) (fold wc_byte (take n src) c))"
  by pat_completeness auto
termination
  by (relation "measure (\<lambda>(rd, k, src, c). length src)") auto

declare wc_loop.simps [simp del]

definition wc :: "(u32 \<Rightarrow> cstr) \<Rightarrow> u32 \<Rightarrow> (nat \<Rightarrow> nat) \<Rightarrow> u8 list \<Rightarrow> u8 list result" where
  "wc str_at name rd src =
     (let c = wc_loop rd 0 src \<lparr>wl = 0, ww = 0, wch = 0, inword = False\<rparr>
      in printf str_at (str ''%d %d %d %s'' @ [10]) [wl c, ww c, wch c, name])"

section \<open>Lines\<close>

text \<open>The complete lines of a text, and what is behind the last of them.\<close>

fun lines_in :: "u8 list \<Rightarrow> u8 list \<Rightarrow> u8 list list \<times> u8 list" where
  "lines_in l [] = ([], l)"
| "lines_in l (c # xs) = (if c = 10 then (l # fst (lines_in [] xs), snd (lines_in [] xs)) else lines_in (l @ [c]) xs)"

definition grep_spec :: "cstr \<Rightarrow> u8 list \<Rightarrow> u8 list" where
  "grep_spec pattern xs = concat (map (\<lambda>l. l @ [10]) (filter (match pattern) (fst (lines_in [] xs))))"

lemma strchr_line: "0 \<notin> set l \<Longrightarrow> 10 \<notin> set l \<Longrightarrow> strchr (l @ 10 # xs) 10 = Some (length l)"
  by (induction l) auto

lemma strchr_none: "10 \<notin> set l \<Longrightarrow> strchr l 10 = None"
  by (induction l) auto

lemma lines_in_line: "10 \<notin> set m \<Longrightarrow> lines_in l (m @ 10 # xs) = ((l @ m) # fst (lines_in [] xs), snd (lines_in [] xs))"
  by (induction m arbitrary: l) auto

lemma lines_in_rest: "10 \<notin> set m \<Longrightarrow> lines_in l m = ([], l @ m)"
  by (induction m arbitrary: l) auto

lemma split_newline: obtains (rest) "10 \<notin> set xs" | (line) m ys where "xs = m @ (10 :: u8) # ys" "10 \<notin> set m"
  using split_list_first [of 10 xs] by auto

lemma lines_in_append: "lines_in [] (xs @ ys) = (fst (lines_in [] xs) @ fst (lines_in [] (snd (lines_in [] xs) @ ys)), snd (lines_in [] (snd (lines_in [] xs) @ ys)))"
proof (induction xs rule: length_induct)
  case (1 xs)
  show ?case
  proof (cases xs rule: split_newline)
    case rest
    then show ?thesis by (simp add: lines_in_rest)
  next
    case (line m zs)
    then show ?thesis using 1 [rule_format, of zs] by (simp add: lines_in_line)
  qed
qed

lemma grep_lines_spec: "0 \<notin> set xs \<Longrightarrow> grep_lines pattern xs = (grep_spec pattern xs, snd (lines_in [] xs))"
proof (induction xs rule: length_induct)
  case (1 xs)
  show ?case
  proof (cases xs rule: split_newline)
    case rest
    then show ?thesis by (simp add: grep_lines.simps [of pattern xs] strchr_none grep_spec_def lines_in_rest)
  next
    case (line m zs)
    then have "grep_lines pattern zs = (grep_spec pattern zs, snd (lines_in [] zs))" using 1 by auto
    moreover have "strchr xs 10 = Some (length m)" using line 1 strchr_line [of m zs] by auto
    ultimately show ?thesis using line by (subst grep_lines.simps) (simp add: grep_spec_def lines_in_line)
  qed
qed

text \<open>Lines that fit into the buffer, with the byte that ends them.\<close>

definition short_lines :: "u8 list \<Rightarrow> bool" where
  "short_lines xs \<longleftrightarrow> (\<forall>l \<in> set (fst (lines_in [] xs)). length l < 1023) \<and> length (snd (lines_in [] xs)) < 1023"

lemma rest_no_newline: "10 \<notin> set l \<Longrightarrow> 10 \<notin> set (snd (lines_in l xs))"
  by (induction l xs rule: lines_in.induct) auto

lemma rest_subset: "set (snd (lines_in l xs)) \<subseteq> set l \<union> set xs"
  by (induction l xs rule: lines_in.induct) auto

lemma rest_length: "10 \<in> set xs \<Longrightarrow> length (snd (lines_in [] xs)) < length xs"
proof (induction xs rule: length_induct)
  case (1 xs)
  obtain m ys where xs: "xs = m @ 10 # ys" "10 \<notin> set m" using 1(2) split_list_first [of 10 xs] by auto
  then show ?case using 1(1) [rule_format, of ys] lines_in_rest [of ys "[]"] by (cases "10 \<in> set ys") (auto simp: lines_in_line)
qed

lemma short_no_newline: "short_lines (b @ xs) \<Longrightarrow> 10 \<notin> set b \<Longrightarrow> length b < 1023"
proof (cases xs rule: split_newline)
  case rest
  assume "short_lines (b @ xs)" "10 \<notin> set b"
  then show ?thesis using rest lines_in_rest [of "b @ xs" "[]"] by (simp add: short_lines_def)
next
  case (line m ys)
  assume "short_lines (b @ xs)" "10 \<notin> set b"
  then show ?thesis using line lines_in_line [of "b @ m" "[]" ys] by (simp add: short_lines_def)
qed

lemma grep_spec_append: "grep_spec pattern (xs @ ys) = grep_spec pattern xs @ grep_spec pattern (snd (lines_in [] xs) @ ys)"
  unfolding grep_spec_def by (subst lines_in_append) simp

lemma grep_loop_spec:
  assumes "\<forall>k. 1023 \<le> rd k"
  shows "10 \<notin> set kept \<Longrightarrow> 0 \<notin> set (kept @ src) \<Longrightarrow> length kept < 1023 \<Longrightarrow> short_lines (kept @ src) \<Longrightarrow>
    grep_loop pattern rd k kept src = grep_spec pattern (kept @ src)"
proof (induction src arbitrary: k kept rule: length_induct)
  case (1 src)
  define n where "n = min (min (1023 - length kept) (rd k)) (length src)"
  have n: "n = min (1023 - length kept) (length src)" using spec [OF assms, of k] by (simp add: n_def min.absorb1 le_trans [OF diff_le_self])
  show ?case
  proof (cases "src = []")
    case True
    then show ?thesis using 1(2) by (subst grep_loop.simps) (simp add: grep_spec_def lines_in_rest)
  next
    case False
    then have n0: "0 < n" using n 1(4) by simp
    define buf where "buf = kept @ take n src"
    let ?rest = "snd (lines_in [] buf)"
    have s: "kept @ src = buf @ drop n src" by (simp add: buf_def)
    have z: "0 \<notin> set buf" "0 \<notin> set (drop n src)" using 1(3) set_take_subset [of n src] set_drop_subset [of n src] by (auto simp: buf_def)
    have r: "set ?rest \<subseteq> set buf" using rest_subset [of "[]" buf] by simp
    have e: "grep_loop pattern rd k kept src =
      grep_spec pattern buf @ grep_loop pattern rd (Suc k) (if length ?rest = length buf then [] else ?rest) (drop n src)"
      using n0 z(1) by (subst grep_loop.simps) (simp add: Let_def n_def [symmetric] buf_def [symmetric] grep_lines_spec)
    show ?thesis
    proof (cases "10 \<in> set buf")
      case True
      have l: "length ?rest < length buf" using rest_length [OF True] .
      moreover have "length buf \<le> 1023" using n 1(4) by (simp add: buf_def)
      moreover have "short_lines (?rest @ drop n src)" using 1(5) unfolding s short_lines_def by (subst (asm) (1 2) lines_in_append) auto
      moreover have "10 \<notin> set ?rest" using rest_no_newline [of "[]" buf] by simp
      ultimately have "grep_loop pattern rd (Suc k) ?rest (drop n src) = grep_spec pattern (?rest @ drop n src)"
        using z r n0 False by (intro 1(1) [rule_format]) auto
      then show ?thesis using e l unfolding s grep_spec_append [of pattern buf "drop n src"] by simp
    next
      case nn: False
      have "length buf < 1023" using short_no_newline [of buf "drop n src"] 1(5) s nn by simp
      then have "drop n src = []" using n 1(4) by (simp add: buf_def)
      then show ?thesis using e nn unfolding s by (subst (asm) grep_loop.simps) (simp add: lines_in_rest)
    qed
  qed
qed

text \<open>
  C33. What \<^verbatim>\<open>grep\<close> prints.  Reading a file (each read returns as much as fits into the buffer, until the end) whose
  lines are shorter than the buffer and have no zero byte, \<^verbatim>\<open>grep\<close> writes exactly the lines that match, each with its
  newline and in order; what the buffer boundaries cut is put together again.
\<close>

theorem grep_prints_matching_lines:
  assumes "\<forall>k. 1023 \<le> rd k" and "0 \<notin> set src" and "short_lines src"
  shows "grep pattern rd src = concat (map (\<lambda>l. l @ [10]) (filter (match pattern) (fst (lines_in [] src))))"
  using grep_loop_spec [OF assms(1), of "[]" src pattern 0] assms(2,3) by (simp add: grep_def grep_spec_def)

theorem grep_prints_matching_lines_witness:
  "grep (str ''a.c'') (\<lambda>_. 2000) [97, 98, 99, 10, 120, 10, 97, 99] = [97, 98, 99, 10]"
proof -
  have l: "lines_in [] [97, 98, 99, 10, 120, 10, 97, 99] = ([[97, 98, 99], [120]], [97, 99])" by simp
  then have "short_lines [97, 98, 99, 10, 120, 10, 97, 99]" by (simp add: short_lines_def)
  moreover have "match (str ''a.c'') [97, 98, 99]" "\<not> match (str ''a.c'') [120]" by code_simp+
  ultimately show ?thesis using grep_prints_matching_lines [of "\<lambda>_. 2000" "[97, 98, 99, 10, 120, 10, 97, 99]" "str ''a.c''"] l by simp
qed

text \<open>With reads that return less, a part of a line without its newline is thrown away.\<close>

lemma grep_short_reads: "grep (str ''a'') (\<lambda>_. 1) [97, 98, 10] = [] \<and> match (str ''a'') [97, 98]"
  by code_simp

section \<open>Counts\<close>

definition blank :: "u8 \<Rightarrow> bool" where
  "blank c \<longleftrightarrow> c \<in> {32, 13, 9, 10, 11}"

fun words_in :: "u8 list \<Rightarrow> u8 list \<Rightarrow> u8 list list" where
  "words_in l [] = (if l = [] then [] else [l])"
| "words_in l (c # xs) = (if blank c then (if l = [] then [] else [l]) @ words_in [] xs else words_in (l @ [c]) xs)"

lemma wc_byte_simps:
  "wl (wc_byte b c) = wl c + (if b = 10 then 1 else 0)" "wch (wc_byte b c) = wch c + 1"
  "ww (wc_byte b c) = ww c + (if blank b \<or> inword c then 0 else 1)" "inword (wc_byte b c) = (\<not> blank b)"
proof -
  have s: "strchr [32, 13, 9, 10, 11] b \<noteq> None \<longleftrightarrow> blank b" by (auto simp: blank_def)
  show "wl (wc_byte b c) = wl c + (if b = 10 then 1 else 0)" "wch (wc_byte b c) = wch c + 1"
    "ww (wc_byte b c) = ww c + (if blank b \<or> inword c then 0 else 1)" "inword (wc_byte b c) = (\<not> blank b)"
    unfolding wc_byte_def Let_def s by simp_all
qed

lemma wc_fold:
  "wl (fold wc_byte xs c) = wl c + of_nat (length (fst (lines_in m xs)))" "wch (fold wc_byte xs c) = wch c + of_nat (length xs)"
  "(l \<noteq> []) = inword c \<Longrightarrow> ww (fold wc_byte xs c) + (if inword c then 1 else 0) = ww c + of_nat (length (words_in l xs))"
proof -
  show "wl (fold wc_byte xs c) = wl c + of_nat (length (fst (lines_in m xs)))"
  proof (induction xs arbitrary: m c)
    case (Cons b xs)
    from Cons [of "wc_byte b c" "[]"] Cons [of "wc_byte b c" "m @ [b]"] show ?case by (simp add: wc_byte_simps)
  qed simp
  show "wch (fold wc_byte xs c) = wch c + of_nat (length xs)" by (induction xs arbitrary: c) (simp_all add: wc_byte_simps)
  show "(l \<noteq> []) = inword c \<Longrightarrow> ww (fold wc_byte xs c) + (if inword c then 1 else 0) = ww c + of_nat (length (words_in l xs))"
  proof (induction xs arbitrary: l c)
    case (Cons b xs)
    show ?case
    proof (cases "blank b")
      case True
      then show ?thesis using Cons.IH [of "[]" "wc_byte b c"] Cons.prems by (cases "l = []") (simp_all add: wc_byte_simps)
    next
      case False
      then show ?thesis using Cons.IH [of "l @ [b]" "wc_byte b c"] Cons.prems by (cases "inword c") (simp_all add: wc_byte_simps algebra_simps)
    qed
  qed auto
qed

lemma wc_loop_fold: "\<forall>k. 0 < rd k \<Longrightarrow> wc_loop rd k src c = fold wc_byte src c"
proof (induction src arbitrary: k c rule: length_induct)
  case (1 src)
  define n where "n = min (min 512 (rd k)) (length src)"
  show ?case
  proof (cases "src = []")
    case True
    then show ?thesis by (subst wc_loop.simps) simp
  next
    case False
    then have n0: "0 < n" using 1(2) by (simp add: n_def)
    have "wc_loop rd (Suc k) (drop n src) (fold wc_byte (take n src) c) = fold wc_byte (drop n src) (fold wc_byte (take n src) c)"
      using 1(1) [rule_format, of "drop n src"] 1(2) n0 False by simp
    also have "\<dots> = fold wc_byte src c" using fold_append [of wc_byte "take n src" "drop n src"] by (simp add: fun_eq_iff)
    finally show ?thesis using n0 by (subst wc_loop.simps) (simp add: Let_def n_def [symmetric])
  qed
qed

text \<open>
  What \<^verbatim>\<open>wc\<close> counts.  However its reads cut the input, it prints the number of newlines, the number of words, a word
  being a longest run of bytes that are not blank, and the number of bytes, each modulo \<open>2\<^sup>3\<^sup>2\<close>; and the first number it
  prints reads back as the number of lines while that is below \<open>2\<^sup>3\<^sup>1\<close>.
\<close>

theorem wc_counts:
  assumes "\<forall>k. 0 < rd k"
  shows "wc str_at name rd src = printf str_at (str ''%d %d %d %s'' @ [10])
       [of_nat (length (fst (lines_in [] src))), of_nat (length (words_in [] src)), of_nat (length src), name] \<and>
     (length (fst (lines_in [] src)) < 2147483648 \<longrightarrow>
        (\<exists>out. wc str_at name rd src = Inr out \<and> atoi out = int (length (fst (lines_in [] src)))))"
proof -
  let ?c = "\<lparr>wl = 0, ww = 0, wch = 0, inword = False\<rparr> :: counts"
  let ?l = "length (fst (lines_in [] src))"
  have e: "wc str_at name rd src = printf str_at (str ''%d %d %d %s'' @ [10])
       [of_nat ?l, of_nat (length (words_in [] src)), of_nat (length src), name]"
    using wc_loop_fold [OF assms, of 0 src ?c] wc_fold(1) [of src ?c "[]"] wc_fold(2) [of src ?c] wc_fold(3) [of "[]" ?c src]
    by (simp add: wc_def)
  moreover have "\<exists>out. wc str_at name rd src = Inr out \<and> atoi out = int ?l" if "?l < 2147483648"
  proof -
    let ?f = "str '' %d %d %s'' @ [10]" and ?as = "[of_nat (length (words_in [] src)), of_nat (length src), name]"
    have f: "str ''%d %d %d %s'' @ [10] = str ''%d'' @ ?f" by (simp add: str_def)
    have s: "sint (of_nat ?l :: u32) = int ?l" using that by (simp add: sint_cases uint_nat unat_u32_of_nat)
    have "\<exists>out. printf str_at (str ''%d'' @ ?f) (of_nat ?l # ?as) = Inr out \<and> atoi out = sint (of_nat ?l :: u32)"
      by (rule printf_number) (simp_all add: s, simp_all add: str_def of_char_def)
    then show ?thesis unfolding e f s .
  qed
  ultimately show ?thesis by simp
qed

theorem wc_counts_witness:
  "\<exists>out. wc (\<lambda>_. []) 0 (\<lambda>_. 2) [97, 32, 98, 99, 10, 100] = Inr out \<and> atoi out = 1"
  using conjunct2 [OF wc_counts [of "\<lambda>_. 2" "\<lambda>_. []" 0 "[97, 32, 98, 99, 10, 100]"]] by simp

end
