(* ===== verification/Umalloc.thy ===== *)
theory Umalloc
  imports Xv6_Prelude
begin

text \<open>
  The allocator of the user programs, \<^verbatim>\<open>umalloc.c\<close>.  The free blocks form a circle through their headers in the order of
  addresses, with \<^verbatim>\<open>base\<close> as its lowest; a block is an address and a size in units of 8 bytes, its header included.
  The loops go round the circle; they carry fuel, and \<open>2 ^ 30\<close> is enough for every heap that fits into the memory of a
  process.  Whether the kernel grants more memory is the parameter \<open>grants\<close> of \<^verbatim>\<open>sbrk\<close>.
\<close>

section \<open>The allocator\<close>

record heap =
  hptr :: "u32 \<Rightarrow> u32"
  hsize :: "u32 \<Rightarrow> u32"
  freep :: u32
  brk :: u32

fun free_loop :: "nat \<Rightarrow> heap \<Rightarrow> u32 \<Rightarrow> u32 \<Rightarrow> u32 result" where
  "free_loop 0 s bp p = Inl Hang"
| "free_loop (Suc k) s bp p =
     (if bp > p \<and> bp < hptr s p then Inr p
      else if p \<ge> hptr s p \<and> (bp > p \<or> bp < hptr s p) then Inr p
      else free_loop k s bp (hptr s p))"

definition link_block :: "u32 \<Rightarrow> u32 \<Rightarrow> heap \<Rightarrow> heap" where
  "link_block p bp s =
     (let nx = hptr s p;
          s1 = (if bp + 8 * hsize s bp = nx
                then s\<lparr>hsize := (hsize s)(bp := hsize s bp + hsize s nx), hptr := (hptr s)(bp := hptr s nx)\<rparr>
                else s\<lparr>hptr := (hptr s)(bp := nx)\<rparr>);
          s2 = (if p + 8 * hsize s1 p = bp
                then s1\<lparr>hsize := (hsize s1)(p := hsize s1 p + hsize s1 bp), hptr := (hptr s1)(p := hptr s1 bp)\<rparr>
                else s1\<lparr>hptr := (hptr s1)(p := bp)\<rparr>)
      in s2\<lparr>freep := p\<rparr>)"

definition ufree :: "nat \<Rightarrow> u32 \<Rightarrow> heap \<Rightarrow> heap result" where
  "ufree fuel ap s = (let bp = ap - 8 in bindE (free_loop fuel s bp (freep s)) (\<lambda>p. Inr (link_block p bp s)))"

definition sbrk :: "(u32 \<Rightarrow> u32 \<Rightarrow> bool) \<Rightarrow> u32 \<Rightarrow> heap \<Rightarrow> (u32 \<times> heap) option" where
  "sbrk grants n s = (if grants (brk s) n then Some (brk s, s\<lparr>brk := brk s + n\<rparr>) else None)"

definition morecore :: "(u32 \<Rightarrow> u32 \<Rightarrow> bool) \<Rightarrow> nat \<Rightarrow> u32 \<Rightarrow> heap \<Rightarrow> (u32 \<times> heap) result" where
  "morecore grants fuel nu s =
     (let nu = (if nu < 4096 then 4096 else nu) in
      case sbrk grants (nu * 8) s of
        None \<Rightarrow> Inr (0, s)
      | Some (hp, s1) \<Rightarrow>
          bindE (ufree fuel (hp + 8) (s1\<lparr>hsize := (hsize s1)(hp := nu)\<rparr>)) (\<lambda>s2. Inr (freep s2, s2)))"

text \<open>A block that is large enough is unlinked, or its tail is cut off.\<close>

definition take_block :: "u32 \<Rightarrow> u32 \<Rightarrow> u32 \<Rightarrow> heap \<Rightarrow> u32 \<times> heap" where
  "take_block nunits prevp p s =
     (if hsize s p = nunits then (p + 8, s\<lparr>hptr := (hptr s)(prevp := hptr s p), freep := prevp\<rparr>)
      else
        let s1 = s\<lparr>hsize := (hsize s)(p := hsize s p - nunits)\<rparr>;
            q = p + 8 * hsize s1 p
        in (q + 8, s1\<lparr>hsize := (hsize s1)(q := nunits), freep := prevp\<rparr>))"

fun malloc_loop :: "(u32 \<Rightarrow> u32 \<Rightarrow> bool) \<Rightarrow> nat \<Rightarrow> nat \<Rightarrow> u32 \<Rightarrow> u32 \<Rightarrow> u32 \<Rightarrow> heap \<Rightarrow> (u32 \<times> heap) result" where
  "malloc_loop grants fuel 0 nunits prevp p s = Inl Hang"
| "malloc_loop grants fuel (Suc k) nunits prevp p s =
     (if hsize s p \<ge> nunits then Inr (take_block nunits prevp p s)
      else if p = freep s then
        bindE (morecore grants fuel nunits s) (\<lambda>(p, s1).
        if p = 0 then Inr (0, s1) else malloc_loop grants fuel k nunits p (hptr s1 p) s1)
      else malloc_loop grants fuel k nunits p (hptr s p) s)"

definition units :: "u32 \<Rightarrow> u32" where
  "units nbytes = (nbytes + 8 - 1) div 8 + 1"

definition malloc :: "(u32 \<Rightarrow> u32 \<Rightarrow> bool) \<Rightarrow> nat \<Rightarrow> u32 \<Rightarrow> u32 \<Rightarrow> heap \<Rightarrow> (u32 \<times> heap) result" where
  "malloc grants fuel base nbytes s =
     (let s1 = (if freep s = 0 then s\<lparr>hptr := (hptr s)(base := base), freep := base, hsize := (hsize s)(base := 0)\<rparr> else s)
      in malloc_loop grants fuel fuel (units nbytes) (freep s1) (hptr s1 (freep s1)) s1)"

section \<open>The circle of free blocks\<close>

fun linked :: "(u32 \<Rightarrow> u32) \<Rightarrow> u32 list \<Rightarrow> u32 \<Rightarrow> bool" where
  "linked nx [] z \<longleftrightarrow> True"
| "linked nx (x # xs) z \<longleftrightarrow> nx x = hd (xs @ [z]) \<and> linked nx xs z"

lemma linked_append: "linked nx (xs @ y # ys) z \<longleftrightarrow> linked nx xs y \<and> linked nx (y # ys) z"
  by (induction xs) (auto simp: hd_append)

lemma linked_cong: "(\<And>x. x \<in> set xs \<Longrightarrow> f x = g x) \<Longrightarrow> linked f xs z = linked g xs z"
  by (induction xs) auto

lemma linked_rotate: "linked nx (xs @ y # ys) (hd (xs @ [y])) \<Longrightarrow> linked nx (y # ys @ xs) y"
proof (cases xs)
  case (Cons x xs')
  assume "linked nx (xs @ y # ys) (hd (xs @ [y]))"
  then have "linked nx xs y" "linked nx (y # ys) x" unfolding linked_append using Cons by auto
  then show ?thesis using linked_append [of nx "y # ys" x xs' y] Cons by simp
qed simp

definition bend :: "heap \<Rightarrow> u32 \<Rightarrow> nat" where
  "bend s x = unat x + 8 * unat (hsize s x)"

definition gap :: "heap \<Rightarrow> u32 \<Rightarrow> u32 \<Rightarrow> bool" where
  "gap s x y \<longleftrightarrow> bend s x < unat y"

definition bytes_of :: "heap \<Rightarrow> u32 list \<Rightarrow> nat set" where
  "bytes_of s xs = (\<Union>x \<in> set xs. {unat x..<bend s x})"

text \<open>
  The invariant: the blocks are linked in a circle from \<^verbatim>\<open>base\<close> on, in ascending order with room between them (two
  blocks that touch are one block), below the end of the memory.
\<close>

definition heap_ok :: "u32 \<Rightarrow> heap \<Rightarrow> u32 list \<Rightarrow> bool" where
  "heap_ok base s xs \<longleftrightarrow> xs \<noteq> [] \<and> hd xs = base \<and> base \<noteq> 0 \<and> unat base < unat (brk s) \<and> hsize s base = 0 \<and> (\<forall>x \<in> set (tl xs). 0 < hsize s x) \<and>
     linked (hptr s) xs base \<and> sorted_wrt (gap s) xs \<and> (\<forall>x \<in> set xs. bend s x \<le> unat (brk s)) \<and>
     unat (brk s) \<le> 2147483648 \<and> freep s \<in> set xs"

lemma gap_less: "gap s x y \<Longrightarrow> unat x < unat y"
  by (simp add: gap_def bend_def)

lemma gap_trans: "gap s x y \<Longrightarrow> gap s y z \<Longrightarrow> gap s x z"
  by (auto simp: gap_def bend_def)

lemma gaps_less: "sorted_wrt (gap s) (x # xs) \<Longrightarrow> y \<in> set xs \<Longrightarrow> unat x < unat y"
  by (auto dest: gap_less)

lemma gaps_distinct: "sorted_wrt (gap s) xs \<Longrightarrow> distinct xs"
  by (induction xs) (auto dest: gap_less)

lemma gaps_length: "sorted_wrt (gap s) (x # xs) \<Longrightarrow> \<forall>y \<in> set (x # xs). 0 < hsize s y \<and> bend s y \<le> m \<Longrightarrow> unat x + 8 * length (x # xs) \<le> m"
proof (induction xs arbitrary: x)
  case Nil
  have "0 < unat (hsize s x)" using Nil by (simp add: word_less_nat_alt)
  then show ?case using Nil by (simp add: bend_def)
next
  case (Cons y ys)
  have "0 < unat (hsize s x)" using Cons.prems by (simp add: word_less_nat_alt)
  then have "unat x + 8 \<le> unat y" using Cons.prems(1) by (simp add: gap_def bend_def)
  then show ?case using Cons.IH [of y] Cons.prems by simp
qed

lemma heap_length: "heap_ok base s xs \<Longrightarrow> length xs \<le> 268435457"
proof -
  assume ok: "heap_ok base s xs"
  obtain ys where xs: "xs = base # ys" using ok by (cases xs) (auto simp: heap_ok_def)
  show ?thesis
  proof (cases ys)
    case (Cons y zs)
    have "unat y + 8 * length ys \<le> unat (brk s)"
      using gaps_length [of s y zs "unat (brk s)"] ok xs Cons by (auto simp: heap_ok_def)
    then show ?thesis using ok xs by (simp add: heap_ok_def)
  qed (use xs in simp)
qed

lemma linked_next: "linked nx (xs @ x # ys) z \<Longrightarrow> nx x = hd (ys @ [z])"
  unfolding linked_append by simp

section \<open>Releasing a block\<close>

definition stops :: "heap \<Rightarrow> u32 \<Rightarrow> u32 \<Rightarrow> bool" where
  "stops s bp z \<longleftrightarrow> bp > z \<and> bp < hptr s z \<or> z \<ge> hptr s z \<and> (bp > z \<or> bp < hptr s z)"

lemma free_loop_path:
  "linked (hptr s) zs p \<Longrightarrow> \<forall>z \<in> set zs. \<not> stops s bp z \<Longrightarrow> stops s bp p \<Longrightarrow> length zs < fuel \<Longrightarrow> free_loop fuel s bp (hd (zs @ [p])) = Inr p"
proof (induction zs arbitrary: fuel)
  case Nil
  then obtain k where "fuel = Suc k" by (cases fuel) auto
  then show ?case using Nil by (auto simp: stops_def)
next
  case (Cons z zs)
  then obtain k where k: "fuel = Suc k" "length zs < k" by (cases fuel) auto
  then have "free_loop k s bp (hd (zs @ [p])) = Inr p" using Cons by simp
  then show ?case using k(1) Cons.prems(1,2) by (auto simp: stops_def)
qed

lemma free_loop_finds:
  assumes ok: "heap_ok base s (us @ p # vs)" and b: "unat p < unat bp" "vs \<noteq> [] \<longrightarrow> unat bp < unat (hd vs)" and f: "length (us @ p # vs) \<le> fuel"
  shows "free_loop fuel s bp (freep s) = Inr p"
proof -
  let ?xs = "us @ p # vs"
  have l: "linked (hptr s) ?xs base" and g: "sorted_wrt (gap s) ?xs" and h: "hd ?xs = base" and q: "freep s \<in> set ?xs"
    using ok by (simp_all add: heap_ok_def)
  have base: "unat base \<le> unat p"
  proof (cases us)
    case (Cons u us')
    then show ?thesis using h gaps_less [of s base "us' @ p # vs" p] g by auto
  qed (use h in auto)
  have up: "unat z < unat p" if "z \<in> set us" for z using that g by (auto simp: sorted_wrt_append dest: gap_less)
  have down: "unat bp < unat z" if z: "z \<in> set vs" for z
  proof -
    obtain v vs' where v: "vs = v # vs'" using z by (cases vs) auto
    then have "z = v \<or> unat v < unat z" using z g gaps_less [of s v vs' z] by (auto simp: sorted_wrt_append)
    then show ?thesis using b(2) v by auto
  qed
  have nu: "unat z < unat (hptr s z) \<and> unat (hptr s z) \<le> unat p" if z: "z \<in> set us" for z
  proof -
    obtain as bs where us: "us = as @ z # bs" using split_list [OF z] by blast
    then have n: "hptr s z = hd (bs @ p # vs @ [base])" using linked_next [of "hptr s" as z "bs @ p # vs" base] l by simp
    have m: "hptr s z = hd (bs @ [p])" unfolding n by (cases bs) simp_all
    show ?thesis
    proof (cases bs)
      case (Cons c cs)
      then show ?thesis using m us g up [of c] by (auto simp: sorted_wrt_append dest: gap_less)
    qed (use m up z in simp)
  qed
  have nv: "unat z < unat (hptr s z) \<or> hptr s z = base" if z: "z \<in> set vs" for z
  proof -
    obtain as bs where vs: "vs = as @ z # bs" using split_list [OF z] by blast
    then have n: "hptr s z = hd (bs @ [base])" using linked_next [of "hptr s" "us @ p # as" z bs base] l by simp
    then show ?thesis using vs g by (cases bs) (auto simp: sorted_wrt_append dest: gap_less)
  qed
  have np: "hptr s p = hd (vs @ [base])" using linked_next l by blast
  have stop: "stops s bp p" using b base np by (cases vs) (auto simp: stops_def word_less_nat_alt word_le_nat_alt)
  have go: "\<not> stops s bp z" if "z \<in> set us \<union> set vs" for z
    using that
  proof
    assume z: "z \<in> set us"
    then show ?thesis using nu [OF z] up [OF z] b(1) by (auto simp: stops_def word_less_nat_alt word_le_nat_alt)
  next
    assume z: "z \<in> set vs"
    then show ?thesis using nv [OF z] down [OF z] b(1) base by (auto simp: stops_def word_less_nat_alt word_le_nat_alt)
  qed
  have rot: "linked (hptr s) (p # vs @ us) p" using linked_rotate [of "hptr s" us p vs] l h by (cases us) auto
  show ?thesis
  proof (cases "freep s = p")
    case True
    then show ?thesis using free_loop_path [of s "[]" p bp fuel] stop f by simp
  next
    case False
    then have "freep s \<in> set (vs @ us)" using q by auto
    then obtain as bs where sp: "vs @ us = as @ freep s # bs" by (meson split_list)
    then have "linked (hptr s) (freep s # bs) p" using rot linked_append [of "hptr s" "p # as" "freep s" bs p] by simp
    moreover have "set (freep s # bs) \<subseteq> set us \<union> set vs" using arg_cong [OF sp, of set] by auto
    moreover have "length (freep s # bs) < fuel" using arg_cong [OF sp, of length] f by simp
    ultimately have "free_loop fuel s bp (hd ((freep s # bs) @ [p])) = Inr p" using go stop by (intro free_loop_path) auto
    then show ?thesis by simp
  qed
qed

text \<open>A part of the circle behind \<open>p\<close> is replaced.\<close>

lemma heap_ok_replace:
  assumes ok: "heap_ok base s (us @ p # ws @ vs)"
    and same: "\<forall>x \<in> set us \<union> set vs. hsize s' x = hsize s x \<and> hptr s' x = hptr s x" "brk s' = brk s" "freep s' \<in> set (us @ (p # ms) @ vs)"
    and new: "linked (hptr s') (p # ms) (hd (vs @ [base]))" "sorted_wrt (gap s') (p # ms)" "\<forall>x \<in> set ms. 0 < hsize s' x"
      "\<forall>x \<in> set (p # ms). bend s' x \<le> unat (brk s)" "vs \<noteq> [] \<longrightarrow> gap s' (last (p # ms)) (hd vs)"
      "if p = base then hsize s' p = 0 else 0 < hsize s' p"
  shows "heap_ok base s' (us @ (p # ms) @ vs)"
proof -
  have g: "sorted_wrt (gap s) (us @ p # ws @ vs)" and l: "linked (hptr s) (us @ p # ws @ vs) base" and h: "hd (us @ p # ws @ vs) = base"
    using ok by (simp_all add: heap_ok_def)
  have bend_us: "bend s' x = bend s x" if "x \<in> set us \<union> set vs" for x using same(1) that by (simp add: bend_def)
  then have gap_us: "gap s' x = gap s x" if "x \<in> set us \<union> set vs" for x using that by (simp add: gap_def fun_eq_iff)
  have sv: "sorted_wrt (gap s') vs" using g gap_us by (auto simp: sorted_wrt_append intro: sorted_wrt_mono_rel [of vs "gap s"])
  have su: "sorted_wrt (gap s') us" using g gap_us by (auto simp: sorted_wrt_append intro: sorted_wrt_mono_rel [of us "gap s"])
  have pm: "gap s' y z" if y: "y \<in> set (p # ms)" and z: "z \<in> set vs" for y z
  proof -
    obtain v vs' where v: "vs = v # vs'" using z by (cases vs) auto
    have "y = last (p # ms) \<or> gap s' y (last (p # ms))"
    proof -
      have "p # ms = butlast (p # ms) @ [last (p # ms)]" by simp
      then show ?thesis using new(2) y sorted_wrt_append [of "gap s'" "butlast (p # ms)" "[last (p # ms)]"] by (metis Un_iff append_is_Nil_conv empty_iff list.set(1) list.set_intros(1) set_ConsD set_append)
    qed
    then have "gap s' y v" using new(5) v gap_trans by auto
    then show ?thesis using sv v z gap_trans by auto
  qed
  have "gap s' x z" if x: "x \<in> set us" and z: "z \<in> set ((p # ms) @ vs)" for x z
  proof -
    have xp: "gap s' x p" using g x gap_us [of x] by (auto simp: sorted_wrt_append)
    show ?thesis using z xp new(2) pm [of p z] gap_trans [of s' x p z] by auto
  qed
  then have "sorted_wrt (gap s') (us @ (p # ms) @ vs)" using su sv new(2) pm unfolding sorted_wrt_append by auto
  moreover have "linked (hptr s') (us @ (p # ms) @ vs) base"
  proof -
    have "linked (hptr s) us p" "linked (hptr s) vs base" using l linked_append [of "hptr s" us p "ws @ vs" base] linked_append [of "hptr s" "us @ p # ws" "hd vs" "tl vs" base]
      by (simp_all, cases vs) auto
    then have "linked (hptr s') us p" "linked (hptr s') vs base" using linked_cong [of us "hptr s'" "hptr s" p] linked_cong [of vs "hptr s'" "hptr s" base] same(1) by auto
    then have "linked (hptr s') ((p # ms) @ vs) base" using new(1) linked_append [of "hptr s'" "p # ms" "hd vs" "tl vs" base] by (cases vs) auto
    then show ?thesis using \<open>linked (hptr s') us p\<close> linked_append [of "hptr s'" us p "ms @ vs" base] by simp
  qed
  moreover have "\<forall>x \<in> set (us @ (p # ms) @ vs). bend s' x \<le> unat (brk s')" using ok new(4) bend_us same(2) by (auto simp: heap_ok_def)
  moreover have "hd (us @ (p # ms) @ vs) = base" using h by (cases us) auto
  moreover have "hsize s' base = 0" using ok new(6) same(1) h by (cases us) (auto simp: heap_ok_def)
  moreover have "\<forall>x \<in> set (tl (us @ (p # ms) @ vs)). 0 < hsize s' x"
    using ok new(3,6) same(1) h gaps_distinct [OF g] by (cases us) (auto simp: heap_ok_def)
  ultimately show ?thesis using ok same(2,3) by (simp add: heap_ok_def)
qed

lemma block_end:
  assumes "bend s x \<le> 2147483648"
  shows "unat (x + 8 * hsize s x) = bend s x" and "unat (8 * hsize s x) = 8 * unat (hsize s x)"
proof -
  have "8 * unat (hsize s x) < 4294967296" using assms by (simp add: bend_def)
  then show m: "unat (8 * hsize s x) = 8 * unat (hsize s x)" by (subst unat_mult_lem [THEN iffD1]) simp_all
  show "unat (x + 8 * hsize s x) = bend s x" using assms m by (subst unat_u32_add) (simp_all add: bend_def)
qed

lemma link_block_ok:
  assumes ok: "heap_ok base s (us @ p # vs)" and pb: "unat p < unat bp" "bend s p \<le> unat bp" and sz: "0 < hsize s bp"
    and nb: "vs \<noteq> [] \<longrightarrow> bend s bp \<le> unat (hd vs)" "bend s bp \<le> unat (brk s)"
  shows "\<exists>ms ws ys. vs = ws @ ys \<and> set ms \<subseteq> {bp} \<and> heap_ok base (link_block p bp s) (us @ (p # ms) @ ys) \<and>
     bytes_of (link_block p bp s) (us @ (p # ms) @ ys) = bytes_of s (us @ p # vs) \<union> {unat bp..<bend s bp} \<and>
     (\<exists>z \<in> set (p # ms). hsize s bp \<le> hsize (link_block p bp s) z)"
proof -
  let ?xs = "us @ p # vs" and ?s = "link_block p bp s"
  have g: "sorted_wrt (gap s) ?xs" and l: "linked (hptr s) ?xs base" and h: "hd ?xs = base" and top: "unat (brk s) \<le> 2147483648"
    and be: "\<forall>x \<in> set ?xs. bend s x \<le> unat (brk s)" using ok by (simp_all add: heap_ok_def)
  have np: "hptr s p = hd (vs @ [base])" using linked_next l by blast
  have base: "unat base \<le> unat p" using h g by (cases us) (auto dest: gap_less)
  have p0: "p = base \<longleftrightarrow> us = []" using h gaps_distinct [OF g] by (cases us) auto
  have psz: "if p = base then hsize s p = 0 else 0 < hsize s p" using ok p0 by (cases us) (auto simp: heap_ok_def)
  have d: "bp \<noteq> p" "p \<notin> set us" "p \<notin> set vs" "bp \<notin> set us" "bp \<notin> set vs"
  proof -
    show "bp \<noteq> p" using pb by auto
    show "p \<notin> set us" "p \<notin> set vs" using gaps_distinct [OF g] by auto
    show "bp \<notin> set us" using g pb(1) by (auto simp: sorted_wrt_append dest!: gap_less)
    have "unat (hd vs) \<le> unat v" if v: "v \<in> set vs" for v
    proof -
      obtain v0 vs' where v0: "vs = v0 # vs'" using v by (cases vs) auto
      then have "v = v0 \<or> gap s v0 v" using v g by (auto simp: sorted_wrt_append)
      then show ?thesis using v0 gap_less [of s v0 v] by auto
    qed
    moreover have "0 < unat (hsize s bp)" using sz by (simp add: word_less_nat_alt)
    ultimately show "bp \<notin> set vs" using nb(1) by (fastforce simp: bend_def)
  qed
  have t2: "p + 8 * hsize s p = bp \<longleftrightarrow> bend s p = unat bp"
    using block_end(1) [of s p] be top by (auto simp: word_unat_eq_iff)
  have t1: "bp + 8 * hsize s bp = hd (vs @ [base]) \<longleftrightarrow> vs \<noteq> [] \<and> bend s bp = unat (hd vs)"
    using block_end(1) [of s bp] nb(2) top base pb(1) by (cases vs) (auto simp: word_unat_eq_iff bend_def)
  define T1 where "T1 \<longleftrightarrow> vs \<noteq> [] \<and> bend s bp = unat (hd vs)"
  define ws where "ws = (if T1 then [hd vs] else [])"
  define ys where "ys = (if T1 then tl vs else vs)"
  define n where "n = (if T1 then hsize s bp + hsize s (hd vs) else hsize s bp)"
  define e where "e = (if T1 then bend s (hd vs) else bend s bp)"
  have vs: "vs = ws @ ys" by (auto simp: ws_def ys_def T1_def)
  have hv: "unat (hsize s bp + hsize s (hd vs)) = unat (hsize s bp) + unat (hsize s (hd vs))" if T1
  proof -
    have "bend s (hd vs) \<le> unat (brk s)" using be that by (simp add: T1_def)
    then show ?thesis using that top by (intro unat_u32_add) (simp add: T1_def bend_def)
  qed
  have e: "unat bp + 8 * unat n = e" "e \<le> unat (brk s)" "ys \<noteq> [] \<longrightarrow> e < unat (hd ys)" "hsize s bp \<le> n" "bend s bp \<le> e"
  proof -
    show "unat bp + 8 * unat n = e" using hv by (auto simp: n_def e_def T1_def bend_def algebra_simps)
    show "e \<le> unat (brk s)" using nb(2) be by (auto simp: e_def T1_def)
    show "ys \<noteq> [] \<longrightarrow> e < unat (hd ys)" using nb(1) g unfolding e_def ys_def T1_def by (cases vs) (auto simp: sorted_wrt_append gap_def)
    show "hsize s bp \<le> n" using hv by (auto simp: n_def word_le_nat_alt)
    show "bend s bp \<le> e" by (auto simp: e_def T1_def) (simp add: bend_def)
  qed
  have iv: "{unat bp..<e} = {unat bp..<bend s bp} \<union> bytes_of s ws" unfolding ws_def e_def bytes_of_def T1_def by (auto simp: bend_def)
  let ?next = "hd (ys @ [base])"
  define s1 where "s1 = s\<lparr>hsize := (hsize s)(bp := n), hptr := (hptr s)(bp := ?next)\<rparr>"
  have l1: "link_block p bp s = (if bend s p = unat bp
      then s1\<lparr>hsize := (hsize s1)(p := hsize s p + n), hptr := (hptr s1)(p := ?next), freep := p\<rparr>
      else s1\<lparr>hptr := (hptr s1)(p := bp), freep := p\<rparr>)"
  proof -
    have "hptr s (hd vs) = ?next" if T1
      using that l linked_next [of "hptr s" "us @ [p]" "hd vs" "tl vs" base] by (cases vs) (auto simp: T1_def ys_def)
    moreover have "hd (vs @ [base]) = hd vs" if T1 using that by (simp add: T1_def)
    ultimately show ?thesis using t1 t2 d(1) np by (auto simp: link_block_def Let_def s1_def n_def ys_def T1_def [symmetric])
  qed
  have us: "x \<noteq> p \<and> x \<noteq> bp" if "x \<in> set us \<union> set ys" for x using that d vs by auto
  have ok': "heap_ok base s (us @ p # ws @ ys)" using ok vs by simp
  show ?thesis
  proof (cases "bend s p = unat bp")
    case True
    have pn: "p \<noteq> base" using True psz pb(1) by (auto simp: bend_def)
    have up: "unat (hsize s p + n) = unat (hsize s p) + unat n" using e(1,2) top True by (intro unat_u32_add) (auto simp: bend_def)
    have ep: "bend ?s p = e" using l1 True up e(1) by (simp add: bend_def)
    have A: "heap_ok base ?s (us @ (p # []) @ ys)"
    proof (rule heap_ok_replace [OF ok'])
      show "\<forall>x \<in> set us \<union> set ys. hsize ?s x = hsize s x \<and> hptr ?s x = hptr s x" using l1 True us by (simp add: s1_def)
      show "if p = base then hsize ?s p = 0 else 0 < hsize ?s p" using pn sz up l1 True psz by (simp add: word_less_nat_alt)
      show "ys \<noteq> [] \<longrightarrow> gap ?s (last (p # [])) (hd ys)" "\<forall>x \<in> set (p # []). bend ?s x \<le> unat (brk s)" using ep e(2,3) by (simp_all add: gap_def)
    qed (use l1 True in \<open>simp_all add: s1_def\<close>)
    have B: "bytes_of ?s (us @ (p # []) @ ys) = bytes_of s (us @ p # vs) \<union> {unat bp..<bend s bp}"
    proof -
      have "bend ?s x = bend s x" if "x \<in> set us \<union> set ys" for x using us [OF that] l1 True by (simp add: bend_def s1_def)
      then have "bytes_of ?s us = bytes_of s us" "bytes_of ?s ys = bytes_of s ys" by (simp_all add: bytes_of_def)
      moreover have "{unat p..<e} = {unat p..<bend s p} \<union> {unat bp..<e}" using True pb e(5) by (auto simp: bend_def)
      ultimately show ?thesis using ep iv vs by (auto simp: bytes_of_def)
    qed
    have C: "\<exists>z \<in> set (p # []). hsize s bp \<le> hsize ?s z" using l1 True up e(4) by (simp add: word_le_nat_alt)
    show ?thesis by (intro exI [of _ "[]"] exI [of _ ws] exI [of _ ys] conjI A B C vs) simp
  next
    case False
    have ep: "bend ?s bp = e" "bend ?s p = bend s p" using l1 False e(1) d(1) by (simp_all add: bend_def s1_def)
    have hp: "hsize ?s p = hsize s p" using l1 False d(1) by (simp add: s1_def)
    have A: "heap_ok base ?s (us @ (p # [bp]) @ ys)"
    proof (rule heap_ok_replace [OF ok'])
      show "\<forall>x \<in> set us \<union> set ys. hsize ?s x = hsize s x \<and> hptr ?s x = hptr s x" using l1 False us by (simp add: s1_def)
      show "\<forall>x \<in> set [bp]. 0 < hsize ?s x" using l1 False sz e(4) by (auto simp: s1_def word_less_nat_alt word_le_nat_alt)
      show "\<forall>x \<in> set (p # [bp]). bend ?s x \<le> unat (brk s)" using ep e(2) be by simp
      show "if p = base then hsize ?s p = 0 else 0 < hsize ?s p" using psz unfolding hp .
      show "ys \<noteq> [] \<longrightarrow> gap ?s (last (p # [bp])) (hd ys)" "sorted_wrt (gap ?s) (p # [bp])" using ep e(3) pb(2) False by (simp_all add: gap_def)
    qed (use l1 False d(1) in \<open>simp_all add: s1_def\<close>)
    have B: "bytes_of ?s (us @ (p # [bp]) @ ys) = bytes_of s (us @ p # vs) \<union> {unat bp..<bend s bp}"
    proof -
      have "bend ?s x = bend s x" if "x \<in> set us \<union> set ys" for x using us [OF that] l1 False by (simp add: bend_def s1_def)
      then have "bytes_of ?s us = bytes_of s us" "bytes_of ?s ys = bytes_of s ys" by (simp_all add: bytes_of_def)
      then show ?thesis using ep iv vs by (auto simp: bytes_of_def)
    qed
    have C: "\<exists>z \<in> set (p # [bp]). hsize s bp \<le> hsize ?s z" using l1 False e(4) d(1) by (simp add: s1_def)
    show ?thesis by (intro exI [of _ "[bp]"] exI [of _ ws] exI [of _ ys] conjI A B C vs) simp
  qed
qed

text \<open>A block outside the free blocks.\<close>

definition outside :: "heap \<Rightarrow> u32 list \<Rightarrow> u32 \<Rightarrow> bool" where
  "outside s xs b \<longleftrightarrow> 0 < hsize s b \<and> unat (hd xs) < unat b \<and> bend s b \<le> unat (brk s) \<and>
     (\<forall>x \<in> set xs. bend s x \<le> unat b \<or> bend s b \<le> unat x)"

lemma outside_notin: "outside s xs b \<Longrightarrow> b \<notin> set (tl xs) \<Longrightarrow> b \<notin> set xs"
  by (cases xs) (auto simp: outside_def)

lemma split_at_block:
  assumes ok: "heap_ok base s xs" and b: "outside s xs b"
  obtains us p vs where "xs = us @ p # vs" "unat p < unat b" "bend s p \<le> unat b" "vs \<noteq> [] \<longrightarrow> bend s b \<le> unat (hd vs) \<and> unat b < unat (hd vs)"
proof -
  let ?P = "\<lambda>x. unat x < unat b"
  have sz: "0 < unat (hsize s b)" using b by (simp add: outside_def word_less_nat_alt)
  have hd: "?P (hd xs)" "xs \<noteq> []" using b ok by (auto simp: outside_def heap_ok_def)
  define us where "us = takeWhile ?P xs"
  define vs where "vs = dropWhile ?P xs"
  have us: "us \<noteq> []" using hd by (cases xs) (auto simp: us_def)
  have x: "xs = butlast us @ last us # vs" using append_butlast_last_id [OF us] takeWhile_dropWhile_id [of ?P xs] unfolding us_def vs_def
    by (metis append.assoc append_Cons append_Nil)
  have l: "?P (last us)" using us set_takeWhileD [of "last us" ?P xs] by (auto simp: us_def)
  have "bend s (last us) \<le> unat b \<or> bend s b \<le> unat (last us)" using b x by (auto simp: outside_def)
  then have e: "bend s (last us) \<le> unat b" using l by (auto simp: bend_def)
  have "bend s b \<le> unat (hd vs) \<and> unat b < unat (hd vs)" if v: "vs \<noteq> []"
  proof -
    have n: "\<not> ?P (hd vs)" using v hd_dropWhile [of ?P xs] by (simp add: vs_def)
    have m: "hd vs \<in> set xs" using v x by (cases vs) auto
    have "hd vs \<in> set (tl xs)" using v x us hd by (cases "butlast us") (auto simp: neq_Nil_conv)
    then have "0 < hsize s (hd vs)" using ok by (auto simp: heap_ok_def)
    then have "unat (hd vs) < bend s (hd vs)" by (simp add: bend_def word_less_nat_alt)
    then show ?thesis using b m n sz by (auto simp: outside_def bend_def)
  qed
  then show thesis using that [OF x l e] by blast
qed

lemma link_block_other: "a \<noteq> bp \<Longrightarrow> a \<noteq> p \<Longrightarrow> hsize (link_block p bp s) a = hsize s a" "brk (link_block p bp s) = brk s"
  by (simp_all add: link_block_def Let_def)

lemma ufree_ok:
  assumes ok: "heap_ok base s xs" and b: "outside s xs bp" and f: "268435457 \<le> fuel"
  shows "\<exists>s' xs'. ufree fuel (bp + 8) s = Inr s' \<and> heap_ok base s' xs' \<and> bytes_of s' xs' = bytes_of s xs \<union> {unat bp..<bend s bp} \<and>
     (\<exists>z \<in> set xs'. hsize s bp \<le> hsize s' z) \<and> set xs' \<subseteq> insert bp (set xs) \<and> (\<forall>a. a \<notin> insert bp (set xs) \<longrightarrow> hsize s' a = hsize s a) \<and> brk s' = brk s"
proof -
  obtain us p vs where sp: "xs = us @ p # vs" "unat p < unat bp" "bend s p \<le> unat bp" "vs \<noteq> [] \<longrightarrow> bend s bp \<le> unat (hd vs) \<and> unat bp < unat (hd vs)"
    using split_at_block [OF ok b] by blast
  have "free_loop fuel s bp (freep s) = Inr p"
    using free_loop_finds [of base s us p vs bp fuel] ok sp heap_length [OF ok] f by auto
  then have u: "ufree fuel (bp + 8) s = Inr (link_block p bp s)" by (simp add: ufree_def)
  obtain ms ws ys where l: "vs = ws @ ys" "set ms \<subseteq> {bp}" "heap_ok base (link_block p bp s) (us @ (p # ms) @ ys)"
     "bytes_of (link_block p bp s) (us @ (p # ms) @ ys) = bytes_of s (us @ p # vs) \<union> {unat bp..<bend s bp}"
     "\<exists>z \<in> set (p # ms). hsize s bp \<le> hsize (link_block p bp s) z"
    using link_block_ok [of base s us p vs bp] ok sp b unfolding outside_def by blast
  have "set (us @ (p # ms) @ ys) \<subseteq> insert bp (set xs)" using l(1,2) sp(1) by auto
  moreover have "\<exists>z \<in> set (us @ (p # ms) @ ys). hsize s bp \<le> hsize (link_block p bp s) z" using l(5) by auto
  ultimately show ?thesis using u l(3,4) sp(1) link_block_other(1) [of _ bp p s] link_block_other(2) [of p bp s] by (intro exI [of _ "link_block p bp s"] exI [of _ "us @ (p # ms) @ ys"]) auto
qed

section \<open>Taking a block\<close>

lemma ring_next:
  assumes ok: "heap_ok base s xs" and q: "q \<in> set xs" and n: "hptr s q \<noteq> base"
  obtains us vs where "xs = us @ q # hptr s q # vs"
proof -
  obtain us ws where xs: "xs = us @ q # ws" using split_list [OF q] by blast
  then have "hptr s q = hd (ws @ [base])" using linked_next [of "hptr s" us q ws base] ok by (simp add: heap_ok_def)
  then obtain vs where "ws = hptr s q # vs" using n by (cases ws) auto
  then show thesis using that xs by blast
qed

lemma blocks_apart_other:
  assumes "heap_ok base s (us @ p # vs)" "x \<in> set us \<union> set vs"
  shows "bend s x < unat p \<or> bend s p < unat x"
  using assms by (auto simp: heap_ok_def sorted_wrt_append gap_def)

definition taken :: "u32 \<Rightarrow> heap \<Rightarrow> u32 list \<Rightarrow> u32 \<Rightarrow> u32 \<Rightarrow> heap \<Rightarrow> u32 list \<Rightarrow> bool" where
  "taken base s xs n h s' xs' \<longleftrightarrow> heap_ok base s' xs' \<and> hsize s' h = n \<and> outside s' xs' h \<and> {unat h..<bend s' h} \<subseteq> bytes_of s xs \<and>
     bytes_of s' xs' = bytes_of s xs - {unat h..<bend s' h} \<and> (\<forall>a. a \<notin> insert h (set xs) \<longrightarrow> hsize s' a = hsize s a) \<and>
     set xs' \<subseteq> set xs \<and> brk s' = brk s"

lemma bytes_append: "bytes_of s (xs @ ys) = bytes_of s xs \<union> bytes_of s ys" "bytes_of s (x # xs) = {unat x..<bend s x} \<union> bytes_of s xs"
  by (auto simp: bytes_of_def)

lemma bytes_apart:
  assumes "\<forall>x \<in> set xs. bend s x \<le> lo \<or> hi \<le> unat x"
  shows "bytes_of s xs \<inter> {lo..<hi} = {}"
  using assms by (force simp: bytes_of_def)

lemma bytes_cong: "(\<And>x. x \<in> set xs \<Longrightarrow> bend s' x = bend s x) \<Longrightarrow> bytes_of s' xs = bytes_of s xs"
  by (simp add: bytes_of_def)

lemma take_exact:
  assumes ok: "heap_ok base s (us @ q # p # vs)" and n: "0 < n" "hsize s p = n"
  shows "taken base s (us @ q # p # vs) n p (s\<lparr>hptr := (hptr s)(q := hptr s p), freep := q\<rparr>) (us @ [q] @ vs)"
proof -
  let ?xs = "us @ q # p # vs" and ?s = "s\<lparr>hptr := (hptr s)(q := hptr s p), freep := q\<rparr>"
  have g: "sorted_wrt (gap s) ?xs" and be: "\<forall>x \<in> set ?xs. bend s x \<le> unat (brk s)" and hb: "hd ?xs = base" using ok by (simp_all add: heap_ok_def)
  have d: "distinct ?xs" by (rule gaps_distinct [OF g])
  have b: "bend ?s = bend s" by (simp add: bend_def fun_eq_iff)
  have ap: "\<forall>x \<in> set (us @ [q] @ vs). bend s x \<le> unat p \<or> bend s p \<le> unat x"
    using blocks_apart_other [of base s "us @ [q]" p vs] ok by (auto intro: less_imp_le)
  have nx: "hptr s p = hd (vs @ [base])" using linked_next [of "hptr s" "us @ [q]" p vs base] ok by (simp add: heap_ok_def)
  have A: "heap_ok base ?s (us @ (q # []) @ vs)"
  proof (rule heap_ok_replace [of base s us q "[p]" vs])
    show "heap_ok base s (us @ q # [p] @ vs)" using ok by simp
    show "vs \<noteq> [] \<longrightarrow> gap ?s (last (q # [])) (hd vs)" using g b by (cases vs) (auto simp: gap_def sorted_wrt_append)
    show "if q = base then hsize ?s q = 0 else 0 < hsize ?s q" using ok by (cases us) (auto simp: heap_ok_def)
    show "\<forall>x \<in> set us \<union> set vs. hsize ?s x = hsize s x \<and> hptr ?s x = hptr s x" using d by auto
    show "\<forall>x \<in> set (q # []). bend ?s x \<le> unat (brk s)" using be b by simp
  qed (use nx in simp_all)
  have "unat base < unat p" using hb g by (cases us) (auto dest: gap_less)
  moreover have "hd (us @ [q] @ vs) = base" using hb by (cases us) auto
  ultimately have B: "outside ?s (us @ [q] @ vs) p" unfolding outside_def b using n be ap by simp
  have "bytes_of s (us @ [q] @ vs) \<inter> {unat p..<bend s p} = {}" by (rule bytes_apart [OF ap])
  moreover have "bytes_of s ?xs = bytes_of s (us @ [q] @ vs) \<union> {unat p..<bend s p}" by (auto simp: bytes_append)
  moreover have "bytes_of ?s (us @ [q] @ vs) = bytes_of s (us @ [q] @ vs)" by (rule bytes_cong) (simp add: b)
  ultimately show ?thesis unfolding taken_def b using A B n(2) by auto
qed

lemma take_split:
  assumes ok: "heap_ok base s (us @ q # p # vs)" and n: "0 < n" "n < hsize s p"
  defines "h \<equiv> p + 8 * (hsize s p - n)"
  shows "taken base s (us @ q # p # vs) n h (s\<lparr>hsize := (hsize s)(p := hsize s p - n, h := n), freep := q\<rparr>) (us @ q # p # vs)"
proof -
  let ?xs = "us @ q # p # vs" and ?s = "s\<lparr>hsize := (hsize s)(p := hsize s p - n, h := n), freep := q\<rparr>"
  have g: "sorted_wrt (gap s) ?xs" and be: "\<forall>x \<in> set ?xs. bend s x \<le> unat (brk s)" and top: "unat (brk s) \<le> 2147483648" and hb: "hd ?xs = base"
    using ok by (simp_all add: heap_ok_def)
  have n': "0 < unat n" "unat n < unat (hsize s p)" using n by (simp_all add: word_less_nat_alt)
  have m: "unat (hsize s p - n) = unat (hsize s p) - unat n" using n(2) by (intro unat_sub) simp
  have bp: "bend s p \<le> 2147483648" using be top by auto
  have m8: "unat (8 * (hsize s p - n)) = 8 * (unat (hsize s p) - unat n)"
    using bp m by (subst unat_mult_lem [THEN iffD1]) (simp_all add: bend_def)
  have h: "unat h = unat p + 8 * (unat (hsize s p) - unat n)" unfolding h_def using bp m8 by (subst unat_u32_add) (simp_all add: bend_def)
  have hh: "unat p < unat h" "unat h < bend s p" using h n' by (auto simp: bend_def)
  have ap: "\<forall>x \<in> set (us @ [q] @ vs). bend s x < unat p \<or> bend s p < unat x"
    using blocks_apart_other [of base s "us @ [q]" p vs] ok by auto
  have hx: "h \<notin> set ?xs" "h \<noteq> p"
  proof -
    have "unat x \<noteq> unat h" if x: "x \<in> set (us @ [q] @ vs)" for x
    proof -
      have "bend s x < unat p \<or> bend s p < unat x" using ap x by blast
      moreover have "unat x \<le> bend s x" by (simp add: bend_def)
      ultimately show ?thesis using hh by linarith
    qed
    then show "h \<notin> set ?xs" "h \<noteq> p" using hh by auto
  qed
  have d: "distinct ?xs" by (rule gaps_distinct [OF g])
  have b: "bend ?s x = bend s x" if "x \<in> set (us @ [q] @ vs)" for x using that hx d by (auto simp: bend_def)
  have bps: "bend ?s p = unat h" "bend ?s h = bend s p" using hx(2) h m n' by (simp_all add: bend_def)
  have A: "heap_ok base ?s ((us @ [q]) @ (p # []) @ vs)"
  proof (rule heap_ok_replace [of base s "us @ [q]" p "[]" vs])
    show "heap_ok base s ((us @ [q]) @ p # [] @ vs)" using ok by simp
    show "\<forall>x \<in> set (us @ [q]) \<union> set vs. hsize ?s x = hsize s x \<and> hptr ?s x = hptr s x" using d hx by auto
    show "vs \<noteq> [] \<longrightarrow> gap ?s (last (p # [])) (hd vs)" using g bps(1) hh(2) by (cases vs) (auto simp: gap_def sorted_wrt_append)
    have "p \<noteq> base" using hb d by (cases us) auto
    then show "if p = base then hsize ?s p = 0 else 0 < hsize ?s p" using n' m hx by (simp add: word_less_nat_alt)
    show "\<forall>x \<in> set (p # []). bend ?s x \<le> unat (brk s)" using be bps(1) hh(2) by auto
    show "linked (hptr ?s) (p # []) (hd (vs @ [base]))" using linked_next [of "hptr s" "us @ [q]" p vs base] ok by (simp add: heap_ok_def)
  qed simp_all
  have "unat base < unat h" using hb g hh(1) by (cases us) (auto dest!: gap_less)
  moreover have "bend ?s x \<le> unat h \<or> bend ?s h \<le> unat x" if x: "x \<in> set ?xs" for x
  proof (cases "x = p")
    case False
    then have x': "x \<in> set (us @ [q] @ vs)" using x by auto
    then have "bend s x < unat p \<or> bend s p < unat x" using ap by blast
    then show ?thesis using b [OF x'] bps hh(1) by linarith
  qed (use bps in simp)
  ultimately have B: "outside ?s ?xs h" unfolding outside_def using n(1) be bps hb by simp
  have "bytes_of ?s ?xs \<inter> {unat h..<bend s p} = {}" by (rule bytes_apart) (use B bps in \<open>simp add: outside_def\<close>)
  moreover have "bytes_of s ?xs = bytes_of ?s ?xs \<union> {unat h..<bend s p}"
  proof -
    have "{unat p..<bend s p} = {unat p..<bend ?s p} \<union> {unat h..<bend s p}" using hh bps by auto
    moreover have "bytes_of ?s us = bytes_of s us" "bytes_of ?s vs = bytes_of s vs" "bend ?s q = bend s q"
      using bytes_cong [of us ?s s] bytes_cong [of vs ?s s] b by simp_all
    ultimately show ?thesis by (auto simp: bytes_append)
  qed
  ultimately show ?thesis unfolding taken_def bps(2) using A B hx by auto
qed

lemma take_block_ok:
  assumes ok: "heap_ok base s xs" and q: "q \<in> set xs" and n: "0 < n" "n \<le> hsize s (hptr s q)"
  shows "\<exists>h s' xs'. take_block n q (hptr s q) s = (h + 8, s') \<and> taken base s xs n h s' xs'"
proof -
  define p where "p = hptr s q"
  have "hsize s base = 0" using ok by (simp add: heap_ok_def)
  then have pb: "hptr s q \<noteq> base" using n by (auto simp: word_less_nat_alt word_le_nat_alt)
  obtain us vs where xs: "xs = us @ q # p # vs" using ring_next [OF ok q pb] p_def by blast
  show ?thesis
  proof (cases "hsize s p = n")
    case True
    then show ?thesis using take_exact [of base s us q p vs n] ok n(1) unfolding xs p_def [symmetric] by (fastforce simp: take_block_def)
  next
    case False
    then have "n < hsize s p" using n(2) by (simp add: p_def)
    then show ?thesis using take_split [of base s us q p vs n] ok n(1) False unfolding xs p_def [symmetric] by (auto simp: take_block_def Let_def)
  qed
qed

section \<open>More memory\<close>

text \<open>The kernel does not let a process grow beyond the lower half of the address space.\<close>

definition kernel_limit :: "(u32 \<Rightarrow> u32 \<Rightarrow> bool) \<Rightarrow> bool" where
  "kernel_limit grants \<longleftrightarrow> (\<forall>b n. grants b n \<longrightarrow> unat b + unat n \<le> 2147483648)"

definition grown :: "u32 \<Rightarrow> heap \<Rightarrow> u32 list \<Rightarrow> heap \<Rightarrow> u32 list \<Rightarrow> bool" where
  "grown base s xs t ts \<longleftrightarrow> heap_ok base t ts \<and> bytes_of t ts = bytes_of s xs \<union> {unat (brk s)..<unat (brk t)} \<and> unat (brk s) \<le> unat (brk t) \<and>
     (\<forall>a. a \<notin> insert (brk s) (set xs) \<longrightarrow> hsize t a = hsize s a) \<and> set ts \<subseteq> insert (brk s) (set xs)"

lemma ring_nonzero: "heap_ok base s xs \<Longrightarrow> x \<in> set xs \<Longrightarrow> x \<noteq> 0 \<and> unat x < unat (brk s)"
proof -
  assume ok: "heap_ok base s xs" and x: "x \<in> set xs"
  obtain ys where xs: "xs = base # ys" using ok by (cases xs) (auto simp: heap_ok_def)
  show ?thesis
  proof (cases "x = base")
    case True
    then show ?thesis using ok by (simp add: heap_ok_def)
  next
    case False
    then have y: "x \<in> set ys" using x xs by simp
    then have "unat base < unat x" using ok xs by (auto simp: heap_ok_def dest: gap_less)
    moreover have "0 < unat (hsize s x)" "bend s x \<le> unat (brk s)" using ok xs y by (auto simp: heap_ok_def word_less_nat_alt)
    ultimately show ?thesis by (auto simp: bend_def)
  qed
qed

lemma morecore_ok:
  assumes ok: "heap_ok base s xs" and n: "0 < n" "unat n \<le> 134217728" and H: "kernel_limit grants" and f: "268435457 \<le> fuel"
  shows "\<exists>r t. morecore grants fuel n s = Inr (r, t) \<and>
     (r = 0 \<and> t = s \<and> (\<exists>k. \<not> grants (brk s) k) \<or> r \<noteq> 0 \<and> r = freep t \<and> (\<exists>ts. grown base s xs t ts \<and> (\<exists>z \<in> set ts. n \<le> hsize t z)))"
proof -
  define nu where "nu = (if n < 4096 then 4096 else n)"
  have nu: "n \<le> nu" "0 < unat nu" "unat nu \<le> 134217728" using n by (auto simp: nu_def word_less_nat_alt word_le_nat_alt)
  have n8: "unat (nu * 8) = 8 * unat nu" using nu(3) by (subst unat_mult_lem [THEN iffD1]) simp_all
  show ?thesis
  proof (cases "grants (brk s) (nu * 8)")
    case False
    then show ?thesis by (auto simp: morecore_def sbrk_def Let_def nu_def)
  next
    case True
    let ?h = "brk s"
    define s1 where "s1 = s\<lparr>brk := brk s + nu * 8, hsize := (hsize s)(?h := nu)\<rparr>"
    have lim: "unat ?h + 8 * unat nu \<le> 2147483648" using True H unfolding kernel_limit_def n8 [symmetric] by blast
    then have br: "unat (brk s1) = unat ?h + 8 * unat nu" unfolding s1_def using n8 by (simp add: unat_u32_add)
    have hx: "x \<noteq> ?h" if "x \<in> set xs" for x using ring_nonzero [OF ok that] by auto
    have b: "bend s1 x = bend s x" if "x \<in> set xs" for x using hx [OF that] by (simp add: bend_def s1_def)
    have bh: "bend s1 ?h = unat (brk s1)" using br by (simp add: bend_def s1_def)
    have "heap_ok base s1 xs" unfolding heap_ok_def
    proof (intro conjI)
      show "sorted_wrt (gap s1) xs" using ok b by (auto simp: heap_ok_def gap_def intro: sorted_wrt_mono_rel [of xs "gap s"])
      show "\<forall>x \<in> set (tl xs). 0 < hsize s1 x" using ok hx by (auto simp: heap_ok_def s1_def dest: list.set_sel(2))
      show "\<forall>x \<in> set xs. bend s1 x \<le> unat (brk s1)" using ok b br by (auto simp: heap_ok_def intro: le_trans)
      show "hsize s1 base = 0" using ok hx by (auto simp: heap_ok_def s1_def)
    qed (use ok br lim in \<open>auto simp: heap_ok_def s1_def\<close>)
    moreover have "outside s1 xs ?h" unfolding outside_def
    proof (intro conjI ballI)
      show "0 < hsize s1 ?h" using nu by (simp add: s1_def word_less_nat_alt)
      show "unat (hd xs) < unat ?h" using ok by (simp add: heap_ok_def)
      show "bend s1 x \<le> unat ?h \<or> bend s1 ?h \<le> unat x" if "x \<in> set xs" for x using ok b [OF that] that by (simp add: heap_ok_def)
    qed (use bh in simp)
    ultimately obtain t ts where t: "ufree fuel (?h + 8) s1 = Inr t" "heap_ok base t ts" "bytes_of t ts = bytes_of s1 xs \<union> {unat ?h..<bend s1 ?h}"
       "\<exists>z \<in> set ts. hsize s1 ?h \<le> hsize t z" "set ts \<subseteq> insert ?h (set xs)" "\<forall>a. a \<notin> insert ?h (set xs) \<longrightarrow> hsize t a = hsize s1 a" "brk t = brk s1"
      using ufree_ok [of base s1 xs ?h fuel] f by blast
    have m: "morecore grants fuel n s = Inr (freep t, t)" using True t(1) by (simp add: morecore_def sbrk_def Let_def nu_def s1_def)
    have "bytes_of s1 xs = bytes_of s xs" using b by (intro bytes_cong) simp
    then have "grown base s xs t ts" unfolding grown_def using t bh br by (auto simp: s1_def)
    moreover have "\<exists>z \<in> set ts. n \<le> hsize t z" using t(4) nu(1) by (auto simp: s1_def intro: order_trans)
    moreover have "freep t \<noteq> 0" using t(2) ring_nonzero [OF t(2)] by (auto simp: heap_ok_def)
    ultimately show ?thesis using m by blast
  qed
qed

section \<open>The search\<close>

definition after_core :: "(u32 \<Rightarrow> u32 \<Rightarrow> bool) \<Rightarrow> nat \<Rightarrow> nat \<Rightarrow> u32 \<Rightarrow> heap \<Rightarrow> (u32 \<times> heap) result" where
  "after_core g F k n s = bindE (morecore g F n s) (\<lambda>(p, s1). if p = 0 then Inr (0, s1) else malloc_loop g F k n p (hptr s1 p) s1)"

lemma search:
  assumes "heap_ok base s xs"
  shows "linked (hptr s) (prevp # zs) (freep s) \<Longrightarrow> set (prevp # zs) \<subseteq> set xs \<Longrightarrow> freep s \<notin> set zs \<Longrightarrow> length zs < k \<Longrightarrow>
    (\<exists>q \<in> set xs. n \<le> hsize s (hptr s q) \<and> malloc_loop g F k n prevp (hptr s prevp) s = Inr (take_block n q (hptr s q) s)) \<or>
    (\<forall>z \<in> insert (freep s) (set zs). hsize s z < n) \<and>
      malloc_loop g F k n prevp (hptr s prevp) s = after_core g F (k - Suc (length zs)) n s"
proof (induction zs arbitrary: prevp k)
  case Nil
  then obtain j where j: "k = Suc j" by (cases k) auto
  have e: "hptr s prevp = freep s" "k - Suc (length ([] :: u32 list)) = j" using Nil j by simp_all
  show ?case
  proof (cases "n \<le> hsize s (freep s)")
    case True
    then show ?thesis using e(1) j Nil.prems(2) by (intro disjI1 bexI [of _ prevp]) auto
  next
    case False
    then show ?thesis unfolding e using j by (intro disjI2) (simp add: after_core_def)
  qed
next
  case (Cons z zs)
  then obtain j where j: "k = Suc j" "length zs < j" by (cases k) auto
  have z: "hptr s prevp = z" "z \<noteq> freep s" using Cons.prems by auto
  show ?case
  proof (cases "n \<le> hsize s z")
    case True
    then have "malloc_loop g F k n prevp (hptr s prevp) s = Inr (take_block n prevp (hptr s prevp) s)" using j z by simp
    then show ?thesis using True z Cons.prems(2) by (intro disjI1 bexI [of _ prevp]) auto
  next
    case False
    then have "malloc_loop g F k n prevp (hptr s prevp) s = malloc_loop g F j n z (hptr s z) s" using j z by simp
    moreover have "linked (hptr s) (z # zs) (freep s)" "set (z # zs) \<subseteq> set xs" "freep s \<notin> set zs" using Cons.prems by auto
    moreover have e: "k - Suc (length (z # zs)) = j - Suc (length zs)" using j by simp
    ultimately show ?thesis using Cons.IH [of z j] j(2) False unfolding e by (auto simp: not_le)
  qed
qed

lemma malloc_search:
  assumes ok: "heap_ok base s xs" and k: "length xs \<le> k"
  shows "(\<exists>q \<in> set xs. n \<le> hsize s (hptr s q) \<and> malloc_loop g F k n (freep s) (hptr s (freep s)) s = Inr (take_block n q (hptr s q) s)) \<or>
    (\<forall>z \<in> set xs. hsize s z < n) \<and>
      malloc_loop g F k n (freep s) (hptr s (freep s)) s = after_core g F (k - length xs) n s"
proof -
  let ?f = "freep s"
  have f: "?f \<in> set xs" "linked (hptr s) xs base" "hd xs = base" using ok by (simp_all add: heap_ok_def)
  obtain us vs where xs: "xs = us @ ?f # vs" using split_list [OF f(1)] by blast
  have l: "linked (hptr s) (?f # vs @ us) ?f" using linked_rotate [of "hptr s" us ?f vs] f xs by (cases us) auto
  have "distinct (us @ ?f # vs)" using gaps_distinct [of s xs] ok xs by (simp add: heap_ok_def)
  then have "?f \<notin> set (vs @ us)" by auto
  moreover have "set (?f # vs @ us) = set xs" "length (vs @ us) < k" "length xs = Suc (length (vs @ us))" using arg_cong [OF xs, of set] arg_cong [OF xs, of length] k by auto
  moreover have "insert ?f (set (vs @ us)) = set xs" using arg_cong [OF xs, of set] by auto
  ultimately show ?thesis using search [OF ok l, of k n g F] by auto
qed

lemma malloc_loop_ok:
  assumes ok: "heap_ok base s xs" and n: "0 < n" "unat n \<le> 134217728" and H: "kernel_limit g" and F: "268435457 \<le> F" and k: "536870914 \<le> k"
  shows "\<exists>a s'. malloc_loop g F k n (freep s) (hptr s (freep s)) s = Inr (a, s') \<and>
     (a = 0 \<and> s' = s \<and> (\<exists>m. \<not> g (brk s) m) \<or> (\<exists>h t ts xs'. a = h + 8 \<and> (t = s \<and> ts = xs \<or> grown base s xs t ts) \<and> taken base t ts n h s' xs'))"
proof -
  have lx: "length xs \<le> 268435457" by (rule heap_length [OF ok])
  consider q where "q \<in> set xs" "n \<le> hsize s (hptr s q)" "malloc_loop g F k n (freep s) (hptr s (freep s)) s = Inr (take_block n q (hptr s q) s)" |
    "malloc_loop g F k n (freep s) (hptr s (freep s)) s = after_core g F (k - length xs) n s"
    using malloc_search [OF ok, of k n g F] lx k by auto
  then show ?thesis
  proof cases
    case 1
    obtain h s' xs' where "take_block n q (hptr s q) s = (h + 8, s')" "taken base s xs n h s' xs'" using take_block_ok [OF ok 1(1) n(1) 1(2)] by blast
    then show ?thesis using 1(3) by auto
  next
    case 2
    note 2 = 2 [unfolded after_core_def]
    obtain r t where m: "morecore g F n s = Inr (r, t)"
     "r = 0 \<and> t = s \<and> (\<exists>k. \<not> g (brk s) k) \<or> r \<noteq> 0 \<and> r = freep t \<and> (\<exists>ts. grown base s xs t ts \<and> (\<exists>z \<in> set ts. n \<le> hsize t z))"
      using morecore_ok [OF ok n H F] by blast
    show ?thesis
    proof (cases "r = 0")
      case True
      then show ?thesis using 2 m by auto
    next
      case False
      then obtain ts z where t: "r = freep t" "grown base s xs t ts" "z \<in> set ts" "n \<le> hsize t z" using m(2) by auto
      have okt: "heap_ok base t ts" using t(2) by (simp add: grown_def)
      have lt: "length ts \<le> k - length xs" using heap_length [OF okt] lx k by simp
      obtain q where q: "q \<in> set ts" "n \<le> hsize t (hptr t q)" "malloc_loop g F (k - length xs) n (freep t) (hptr t (freep t)) t = Inr (take_block n q (hptr t q) t)"
        using malloc_search [OF okt lt, of n g F] t(3,4) by (auto simp: not_le [symmetric])
      obtain h s' xs' where "take_block n q (hptr t q) t = (h + 8, s')" "taken base t ts n h s' xs'" using take_block_ok [OF okt q(1) n(1) q(2)] by blast
      then show ?thesis using 2 m(1) False t(1,2) q(3) by auto
    qed
  qed
qed

section \<open>Live blocks\<close>

text \<open>
  The blocks handed out, by the address of their header; each is outside the free blocks and the others.  Before the
  first call the circle does not exist.
\<close>

definition live_ok :: "heap \<Rightarrow> u32 list \<Rightarrow> (u32 \<rightharpoonup> u32) \<Rightarrow> bool" where
  "live_ok s xs T \<longleftrightarrow> (\<forall>a n. T a = Some n \<longrightarrow> hsize s a = n \<and> outside s xs a) \<and>
     (\<forall>a b. T a \<noteq> None \<and> T b \<noteq> None \<and> a \<noteq> b \<longrightarrow> bend s a \<le> unat b \<or> bend s b \<le> unat a)"

definition heap_inv :: "u32 \<Rightarrow> heap \<Rightarrow> (u32 \<rightharpoonup> u32) \<Rightarrow> bool" where
  "heap_inv base s T \<longleftrightarrow>
     freep s = 0 \<and> T = Map.empty \<and> base \<noteq> 0 \<and> unat base < unat (brk s) \<and> unat (brk s) \<le> 2147483648 \<or>
     (\<exists>xs. heap_ok base s xs \<and> live_ok s xs T)"

lemma live_okI:
  assumes "\<And>a n. T a = Some n \<Longrightarrow> hsize s a = n" and "\<And>a n. T a = Some n \<Longrightarrow> outside s xs a"
    and "\<And>a b m n. T a = Some m \<Longrightarrow> T b = Some n \<Longrightarrow> a \<noteq> b \<Longrightarrow> bend s a \<le> unat b \<or> bend s b \<le> unat a"
  shows "live_ok s xs T"
  unfolding live_ok_def using assms by blast

lemma outside_bytes:
  assumes ok: "heap_ok base s xs"
  shows "outside s xs b \<longleftrightarrow> 0 < hsize s b \<and> unat base < unat b \<and> bend s b \<le> unat (brk s) \<and> bytes_of s xs \<inter> {unat b..<bend s b} = {}"
proof -
  have h: "hd xs = base" "hsize s base = 0" using ok by (simp_all add: heap_ok_def)
  have "(\<forall>x \<in> set xs. bend s x \<le> unat b \<or> bend s b \<le> unat x) \<longleftrightarrow> bytes_of s xs \<inter> {unat b..<bend s b} = {}"
    if b: "0 < hsize s b" "unat base < unat b"
  proof
    assume "\<forall>x \<in> set xs. bend s x \<le> unat b \<or> bend s b \<le> unat x"
    then show "bytes_of s xs \<inter> {unat b..<bend s b} = {}" by (rule bytes_apart)
  next
    assume dj: "bytes_of s xs \<inter> {unat b..<bend s b} = {}"
    have sb: "unat b < bend s b" using b(1) by (simp add: bend_def word_less_nat_alt)
    show "\<forall>x \<in> set xs. bend s x \<le> unat b \<or> bend s b \<le> unat x"
    proof (rule ballI, rule ccontr)
      fix x assume x: "x \<in> set xs" and c: "\<not> (bend s x \<le> unat b \<or> bend s b \<le> unat x)"
      have "x \<noteq> base" using c b(2) h(2) by (auto simp: bend_def)
      then have "x \<in> set (tl xs)" using x h(1) by (cases xs) auto
      then have "0 < unat (hsize s x)" using ok by (auto simp: heap_ok_def word_less_nat_alt)
      then have "max (unat x) (unat b) \<in> {unat x..<bend s x}" "max (unat x) (unat b) \<in> {unat b..<bend s b}" using c sb by (auto simp: max_def bend_def)
      then show False using dj x unfolding bytes_of_def by blast
    qed
  qed
  then show ?thesis using h(1) by (auto simp: outside_def)
qed

lemma outside_not_free: "outside s xs a \<Longrightarrow> a \<notin> set xs"
proof
  assume o: "outside s xs a" and m: "a \<in> set xs"
  then have "bend s a \<le> unat a" "0 < unat (hsize s a)" by (auto simp: outside_def word_less_nat_alt)
  then show False by (simp add: bend_def)
qed

text \<open>A live block stays one when free memory changes elsewhere.\<close>

lemma outside_kept:
  assumes ok: "heap_ok base s xs" and o: "outside s xs a" and ok': "heap_ok base s' xs'" and sz: "hsize s' a = hsize s a"
    and br: "unat (brk s) \<le> unat (brk s')" and by': "bytes_of s' xs' \<inter> {unat a..<bend s a} = {}"
  shows "outside s' xs' a"
proof -
  have "bend s' a = bend s a" using sz by (simp add: bend_def)
  then show ?thesis using o outside_bytes [OF ok] outside_bytes [OF ok'] sz br by' by auto
qed

lemma ufree_live:
  assumes ok: "heap_ok base s xs" and l: "live_ok s xs T" and a: "T bp = Some n" and f: "268435457 \<le> fuel"
  shows "\<exists>s'. ufree fuel (bp + 8) s = Inr s' \<and> heap_inv base s' (T(bp := None))"
proof -
  have b: "outside s xs bp" using l a by (auto simp: live_ok_def)
  obtain s' xs' where s': "ufree fuel (bp + 8) s = Inr s'" "heap_ok base s' xs'" "bytes_of s' xs' = bytes_of s xs \<union> {unat bp..<bend s bp}"
     "\<forall>a. a \<notin> insert bp (set xs) \<longrightarrow> hsize s' a = hsize s a" "brk s' = brk s" using ufree_ok [OF ok b f] by blast
  have sz: "hsize s' c = hsize s c" "bend s' c = bend s c" if "T c = Some m" "c \<noteq> bp" for c m
  proof -
    have "outside s xs c" using l that by (auto simp: live_ok_def)
    then have "c \<notin> set xs" by (rule outside_not_free)
    then show "hsize s' c = hsize s c" using s'(4) that by simp
    then show "bend s' c = bend s c" by (simp add: bend_def)
  qed
  have "outside s' xs' c" if c: "T c = Some m" "c \<noteq> bp" for c m
  proof (rule outside_kept [OF ok _ s'(2)])
    show o: "outside s xs c" using l c by (auto simp: live_ok_def)
    have "bend s c \<le> unat bp \<or> bend s bp \<le> unat c" using l a c by (auto simp: live_ok_def)
    then show "bytes_of s' xs' \<inter> {unat c..<bend s c} = {}" using o outside_bytes [OF ok] unfolding s'(3) by auto
  qed (use sz [OF c] s'(5) in simp_all)
  moreover have "bend s' c \<le> unat d \<or> bend s' d \<le> unat c" if c: "T c = Some m" "c \<noteq> bp" and d: "T d = Some k" "d \<noteq> bp" and cd: "c \<noteq> d" for c d m k
  proof -
    have "bend s c \<le> unat d \<or> bend s d \<le> unat c" using l c d cd unfolding live_ok_def by blast
    then show ?thesis using sz(2) [OF c] sz(2) [OF d] by simp
  qed
  moreover have "hsize s c = m" if "T c = Some m" for c m using l that by (simp add: live_ok_def)
  ultimately have "live_ok s' xs' (T(bp := None))" using sz(1) by (intro live_okI) (metis fun_upd_apply option.distinct(1))+
  then show ?thesis using s'(1,2) by (auto simp: heap_inv_def)
qed

lemma taken_live:
  assumes ok: "heap_ok base s xs" and l: "live_ok s xs T" and g: "t = s \<and> ts = xs \<or> grown base s xs t ts" and k: "taken base t ts n h s' xs'"
  shows "T h = None \<and> heap_inv base s' (T(h \<mapsto> n))"
proof -
  have t: "bytes_of t ts \<subseteq> bytes_of s xs \<union> {unat (brk s)..}" "unat (brk s) \<le> unat (brk t)" "\<forall>a. a \<notin> insert (brk s) (set xs) \<longrightarrow> hsize t a = hsize s a"
    "set ts \<subseteq> insert (brk s) (set xs)"
    using g by (auto simp: grown_def)
  have k': "heap_ok base s' xs'" "hsize s' h = n" "outside s' xs' h" "{unat h..<bend s' h} \<subseteq> bytes_of t ts" "bytes_of s' xs' = bytes_of t ts - {unat h..<bend s' h}"
    "\<forall>a. a \<notin> insert h (set ts) \<longrightarrow> hsize s' a = hsize t a" "brk s' = brk t" using k by (simp_all add: taken_def)
  have hb: "unat h < bend s' h" using k'(3) by (simp add: outside_def bend_def word_less_nat_alt)
  have lv: "unat c < bend s c" "bend s c \<le> unat (brk s)" "bytes_of s xs \<inter> {unat c..<bend s c} = {}" "c \<notin> set xs" "outside s xs c" if "T c = Some m" for c m
  proof -
    show o: "outside s xs c" using l that by (auto simp: live_ok_def)
    then show "unat c < bend s c" "bend s c \<le> unat (brk s)" "c \<notin> set xs" by (auto simp: outside_def bend_def word_less_nat_alt dest: outside_not_free)
    show "bytes_of s xs \<inter> {unat c..<bend s c} = {}" using o outside_bytes [OF ok] by blast
  qed
  have dj: "bytes_of t ts \<inter> {unat c..<bend s c} = {}" if "T c = Some m" for c m using lv [OF that] t(1) by fastforce
  have hn: "c \<noteq> h" if c: "T c = Some m" for c m
  proof
    assume "c = h"
    then have "unat c \<in> bytes_of t ts" using k'(4) hb by auto
    then show False using dj [OF c] lv(1) [OF c] by auto
  qed
  have sz: "hsize s' c = hsize s c" "bend s' c = bend s c" if c: "T c = Some m" for c m
  proof -
    have "c \<noteq> brk s" using lv(1,2) [OF c] by auto
    then show "hsize s' c = hsize s c" using lv(4) [OF c] hn [OF c] k'(6) t(3,4) by auto
    then show "bend s' c = bend s c" by (simp add: bend_def)
  qed
  have P1: "outside s' xs' c" if c: "T c = Some m" for c m
    using outside_kept [OF ok lv(5) [OF c] k'(1) sz(1) [OF c]] dj [OF c] k'(5,7) t(2) by auto
  have P2: "bend s' h \<le> unat c \<or> bend s' c \<le> unat h" if c: "T c = Some m" for c m
  proof (rule ccontr)
    assume "\<not> ?thesis"
    then have "max (unat h) (unat c) \<in> {unat h..<bend s' h}" "max (unat h) (unat c) \<in> {unat c..<bend s c}" using hb lv(1) [OF c] sz(2) [OF c] by (auto simp: max_def)
    then show False using k'(4) dj [OF c] by blast
  qed
  have P3: "bend s' c \<le> unat d \<or> bend s' d \<le> unat c" if c: "T c = Some m" and d: "T d = Some k" and cd: "c \<noteq> d" for c d m k
  proof -
    have "bend s c \<le> unat d \<or> bend s d \<le> unat c" using l c d cd unfolding live_ok_def by blast
    then show ?thesis using sz(2) [OF c] sz(2) [OF d] by simp
  qed
  have P4: "hsize s' c = m" if "T c = Some m" for c m using l that sz(1) [OF that] by (simp add: live_ok_def)
  have "live_ok s' xs' (T(h \<mapsto> n))"
  proof (rule live_okI)
    fix c m assume c: "(T(h \<mapsto> n)) c = Some m"
    then show "hsize s' c = m" using P4 k'(2) by (cases "c = h") simp_all
    show "outside s' xs' c" using c P1 k'(3) by (cases "c = h") simp_all
    fix d k assume d: "(T(h \<mapsto> n)) d = Some k" and ne: "c \<noteq> d"
    consider "c = h" "T d = Some k" | "d = h" "T c = Some m" | "T c = Some m" "T d = Some k" using c d ne by (cases "c = h"; cases "d = h") auto
    then show "bend s' c \<le> unat d \<or> bend s' d \<le> unat c" using P2 P3 ne by cases blast+
  qed
  moreover have "T h = None" using hn by (cases "T h") auto
  ultimately show ?thesis using k'(1) by (auto simp: heap_inv_def)
qed

lemma units_enough: "unat nbytes \<le> 1073741816 \<Longrightarrow> unat (units nbytes) = (unat nbytes + 7) div 8 + 1"
proof -
  assume n: "unat nbytes \<le> 1073741816"
  then have "unat (nbytes + 7) = unat nbytes + 7" by (subst unat_u32_add) simp_all
  then have d: "unat ((nbytes + 7) div 8) = (unat nbytes + 7) div 8" by (simp add: unat_div)
  then have "unat ((nbytes + 7) div 8 + 1) = (unat nbytes + 7) div 8 + 1" using n by (subst unat_u32_add) simp_all
  moreover have "nbytes + 8 - 1 = nbytes + 7" by simp
  ultimately show ?thesis unfolding units_def by (simp only:)
qed

lemma malloc_live:
  assumes inv: "heap_inv base s T" and H: "kernel_limit grants" and n: "unat nbytes \<le> 1073741816" and f: "1073741824 \<le> fuel"
  shows "\<exists>a s'. malloc grants fuel base nbytes s = Inr (a, s') \<and>
     (a = 0 \<and> heap_inv base s' T \<and> (\<exists>k. \<not> grants (brk s) k) \<or>
      (\<exists>h. a = h + 8 \<and> T h = None \<and> heap_inv base s' (T(h \<mapsto> units nbytes))))"
proof -
  let ?n = "units nbytes"
  have u: "0 < ?n" "unat ?n \<le> 134217728" using units_enough [OF n] n by (simp_all add: word_less_nat_alt)
  define s1 where "s1 = (if freep s = 0 then s\<lparr>hptr := (hptr s)(base := base), freep := base, hsize := (hsize s)(base := 0)\<rparr> else s)"
  obtain xs where x: "heap_ok base s1 xs" "live_ok s1 xs T"
  proof (cases "freep s = 0")
    case True
    have no: "\<not> heap_ok base s xs" for xs using True ring_nonzero [of base s xs 0] by (auto simp: heap_ok_def)
    then have "T = Map.empty" "base \<noteq> 0" "unat base < unat (brk s)" "unat (brk s) \<le> 2147483648" using inv by (auto simp: heap_inv_def)
    then have "heap_ok base s1 [base]" "live_ok s1 [base] T" using True by (simp_all add: s1_def heap_ok_def live_ok_def bend_def)
    then show thesis by (rule that)
  next
    case False
    then show thesis using inv that by (auto simp: heap_inv_def s1_def)
  qed
  have "268435457 \<le> fuel" "536870914 \<le> fuel" using f by simp_all
  from malloc_loop_ok [OF x(1) u H this] obtain a s' where m: "malloc_loop grants fuel fuel ?n (freep s1) (hptr s1 (freep s1)) s1 = Inr (a, s')"
     "a = 0 \<and> s' = s1 \<and> (\<exists>m. \<not> grants (brk s1) m) \<or> (\<exists>h t ts xs'. a = h + 8 \<and> (t = s1 \<and> ts = xs \<or> grown base s1 xs t ts) \<and> taken base t ts ?n h s' xs')"
    by blast
  have e: "malloc grants fuel base nbytes s = Inr (a, s')" using m(1) by (simp add: malloc_def s1_def Let_def)
  have br: "brk s1 = brk s" by (simp add: s1_def)
  show ?thesis using m(2)
  proof (elim disjE exE conjE)
    assume "a = 0" "s' = s1"
    fix k assume "\<not> grants (brk s1) k"
    then show ?thesis using e x br \<open>a = 0\<close> \<open>s' = s1\<close> by (auto simp: heap_inv_def)
  next
    fix h t ts xs' assume h: "a = h + 8" "taken base t ts ?n h s' xs'" "t = s1" "ts = xs"
    then have "t = s1 \<and> ts = xs \<or> grown base s1 xs t ts" by simp
    from taken_live [OF x this h(2)] show ?thesis using e h(1) by blast
  next
    fix h t ts xs' assume h: "a = h + 8" "taken base t ts ?n h s' xs'" "grown base s1 xs t ts"
    then have "t = s1 \<and> ts = xs \<or> grown base s1 xs t ts" by simp
    from taken_live [OF x this h(2)] show ?thesis using e h(1) by blast
  qed
qed

section \<open>Requests\<close>

datatype ureq = Malloc u32 | Free u32

text \<open>A program frees only what it holds; other addresses are not passed to \<^verbatim>\<open>free\<close>.\<close>

fun requests :: "(u32 \<Rightarrow> u32 \<Rightarrow> bool) \<Rightarrow> nat \<Rightarrow> u32 \<Rightarrow> ureq list \<Rightarrow> heap \<times> (u32 \<rightharpoonup> u32) \<Rightarrow> (heap \<times> (u32 \<rightharpoonup> u32)) result" where
  "requests g fuel base [] (s, T) = Inr (s, T)"
| "requests g fuel base (Malloc n # rs) (s, T) =
     bindE (malloc g fuel base n s) (\<lambda>(a, s'). requests g fuel base rs (s', if a = 0 then T else T(a - 8 \<mapsto> units n)))"
| "requests g fuel base (Free a # rs) (s, T) =
     (if T (a - 8) = None then requests g fuel base rs (s, T)
      else bindE (ufree fuel a s) (\<lambda>s'. requests g fuel base rs (s', T(a - 8 := None))))"

lemma heap_inv_live: "heap_inv base s T \<Longrightarrow> T a = Some n \<Longrightarrow> \<exists>xs. heap_ok base s xs \<and> live_ok s xs T"
  by (auto simp: heap_inv_def)

lemma heap_inv_apart:
  assumes "heap_inv base s T" "T a = Some m" "T b = Some n" "a \<noteq> b"
  shows "unat a + 8 * unat m \<le> unat b \<or> unat b + 8 * unat n \<le> unat a"
proof -
  obtain xs where l: "live_ok s xs T" using heap_inv_live [OF assms(1,2)] by blast
  have "hsize s a = m" "hsize s b = n" "bend s a \<le> unat b \<or> bend s b \<le> unat a" using l assms(2-4) unfolding live_ok_def by blast+
  then show ?thesis by (simp add: bend_def)
qed

lemma live_nonnull:
  assumes "heap_inv base s (T(h \<mapsto> n))"
  shows "h + 8 \<noteq> 0"
proof
  assume z: "h + 8 = 0"
  obtain xs where x: "heap_ok base s xs" "live_ok s xs (T(h \<mapsto> n))" using heap_inv_live [OF assms, of h n] by auto
  then have "outside s xs h" by (auto simp: live_ok_def)
  then have "unat h \<le> 2147483648" using x(1) by (auto simp: outside_def bend_def heap_ok_def)
  then have "unat (h + 8) = unat h + 8" by (subst unat_u32_add) simp_all
  then show False using z by simp
qed

text \<open>
  C20. The allocator of user programs.  In any sequence of calls of \<^verbatim>\<open>malloc\<close>, for at most a gigabyte each, and of \<^verbatim>\<open>free\<close>
  of blocks that are held, every call returns, and the blocks held at the end are pairwise disjoint, above \<^verbatim>\<open>base\<close>,
  below the end of memory, and each large enough for its header and the bytes asked for; free blocks touch neither a held
  block nor each other.
\<close>

theorem umalloc_requests:
  assumes "heap_inv base s T" and "kernel_limit grants" and "\<forall>n. Malloc n \<in> set rs \<longrightarrow> unat n \<le> 1073741816" and "1073741824 \<le> fuel"
  shows "\<exists>s' T'. requests grants fuel base rs (s, T) = Inr (s', T') \<and> heap_inv base s' T' \<and>
     (\<forall>a b m n. T' a = Some m \<and> T' b = Some n \<and> a \<noteq> b \<longrightarrow> unat a + 8 * unat m \<le> unat b \<or> unat b + 8 * unat n \<le> unat a) \<and>
     (\<forall>n. Malloc n \<in> set rs \<longrightarrow> unat n + 8 \<le> 8 * unat (units n))"
proof -
  have "\<exists>s' T'. requests grants fuel base rs (s, T) = Inr (s', T') \<and> heap_inv base s' T'" using assms(1,3)
  proof (induction rs arbitrary: s T)
    case (Cons r rs)
    show ?case
    proof (cases r)
      case (Malloc n)
      then obtain a s1 where m: "malloc grants fuel base n s = Inr (a, s1)"
        "a = 0 \<and> heap_inv base s1 T \<or> (\<exists>h. a = h + 8 \<and> heap_inv base s1 (T(h \<mapsto> units n)))"
        using malloc_live [OF Cons.prems(1) assms(2) _ assms(4), of n] Cons.prems(2) by auto
      then have "heap_inv base s1 (if a = 0 then T else T(a - 8 \<mapsto> units n))" using live_nonnull by auto
      then show ?thesis using Cons.IH [of s1] Cons.prems(2) Malloc m(1) by simp
    next
      case (Free a)
      show ?thesis
      proof (cases "T (a - 8)")
        case None
        then show ?thesis using Cons.IH [OF Cons.prems(1)] Cons.prems(2) Free by simp
      next
        case (Some n)
        obtain xs where "heap_ok base s xs" "live_ok s xs T" using heap_inv_live [OF Cons.prems(1) Some] by blast
        from ufree_live [OF this Some, of fuel] obtain s1 where "ufree fuel a s = Inr s1" "heap_inv base s1 (T(a - 8 := None))" using assms(4) by auto
        then show ?thesis using Cons.IH [of s1] Cons.prems(2) Free Some by simp
      qed
    qed
  qed simp
  moreover have "unat n + 8 \<le> 8 * unat (units n)" if "Malloc n \<in> set rs" for n
    using units_enough [of n] assms(3) that by simp
  ultimately show ?thesis using heap_inv_apart by blast
qed

text \<open>A fresh process with 8 kilobytes, whose memory the kernel lets grow to 16 megabytes.\<close>

definition demo_heap :: heap where
  "demo_heap = \<lparr>hptr = (\<lambda>_. 0), hsize = (\<lambda>_. 0), freep = 0, brk = 0x2000\<rparr>"

theorem umalloc_requests_witness:
  "\<exists>s' T'. requests (\<lambda>b n. unat b + unat n \<le> 0x1000000) (2 ^ 30) 0x1000 [Malloc 100, Malloc 20000, Free 0x4008, Malloc 7] (demo_heap, Map.empty) =
     Inr (s', T') \<and> heap_inv 0x1000 s' T'"
proof -
  have i: "heap_inv 0x1000 demo_heap Map.empty" by (simp add: heap_inv_def demo_heap_def)
  have k: "kernel_limit (\<lambda>b n. unat b + unat n \<le> 0x1000000)" by (simp add: kernel_limit_def)
  have r: "\<forall>n. Malloc n \<in> set [Malloc 100, Malloc 20000, Free 0x4008, Malloc 7] \<longrightarrow> unat n \<le> 1073741816" by auto
  have f: "(1073741824 :: nat) \<le> 2 ^ 30" by simp
  from umalloc_requests [OF i k r f] show ?thesis by blast
qed

text \<open>A request near the largest number is rounded up past it and gets one unit.\<close>

lemma units_wrap: "units 0xFFFFFFFF = 1"
  by (simp add: units_def)

end
