(* ===== verification/Mkfs.thy ===== *)
theory Mkfs
  imports Fs
begin

text \<open>
  The program \<^verbatim>\<open>mkfs.c\<close> that builds the disk image.  It runs on the machine that compiles the kernel, a little-endian one
  with integers of 32 bits.  The image is a list of sectors; the host lets it grow to some number of sectors, a write beyond
  that fails, and so does a read beyond the end of the image.  A sector number is turned into a byte offset by a
  multiplication of 32 bits.  The fields of an inode on disk are those of the kernel's inode that are read from disk.

  The program exits with an error message (\<open>Panic\<close>) or an assertion fails; else the answer is the final state.
\<close>

section \<open>State and sectors\<close>

abbreviation (input) NINODES :: "'a::numeral" where
  "NINODES \<equiv> 200"

record mkfs =
  fsimg :: "block list"
  fsroom :: nat
  mksb :: superblock
  freeinode :: u32
  freeblock :: u32

definition zeroes :: block where
  "zeroes = replicate BSIZE 0"

definition nbitmap :: u32 where
  "nbitmap = FSSIZE div (BSIZE * 8) + 1"

definition ninodeblocks :: u32 where
  "ninodeblocks = NINODES div IPB + 1"

definition nlog :: u32 where
  "nlog = LOGSIZE"

definition nmeta :: u32 where
  "nmeta = 2 + nlog + ninodeblocks + nbitmap"

text \<open>The number whose bytes in memory are those of \<open>x\<close> in the order of the Intel processors.\<close>

definition xshort :: "u16 \<Rightarrow> u16" where
  "xshort x = get16 [ucast x, ucast (drop_bit 8 x)] 0"

definition xint :: "u32 \<Rightarrow> u32" where
  "xint x = get32 [ucast x, ucast (drop_bit 8 x), ucast (drop_bit 16 x), ucast (drop_bit 24 x)] 0"

definition sector :: "u32 \<Rightarrow> nat" where
  "sector sec = unat (sec * BSIZE) div BSIZE"

definition wsect :: "u32 \<Rightarrow> block \<Rightarrow> mkfs \<Rightarrow> mkfs result" where
  "wsect sec buf s =
     (let k = sector sec; img = fsimg s in
      if fsroom s \<le> k then Inl (Panic ''write'')
      else Inr (s\<lparr>fsimg := (if k < length img then img[k := buf]
                            else img @ replicate (k - length img) zeroes @ [buf])\<rparr>))"

definition rsect :: "u32 \<Rightarrow> mkfs \<Rightarrow> block result" where
  "rsect sec s =
     (let k = sector sec in if k < length (fsimg s) then Inr (fsimg s ! k) else Inl (Panic ''read''))"

section \<open>Inodes\<close>

text \<open>An inode on disk after \<^verbatim>\<open>bzero\<close>.\<close>

definition zero_dinode :: inode where
  "zero_dinode = \<lparr>i_dev = 0, i_inum = 0, i_ref = 0, i_locked = False, i_valid = False, i_type = 0, i_major = 0,
     i_minor = 0, i_nlink = 0, i_size = 0, i_addrs = replicate (NDIRECT + 1) 0\<rparr>"

definition winode :: "u32 \<Rightarrow> inode \<Rightarrow> mkfs \<Rightarrow> mkfs result" where
  "winode inum ip s =
     (let bn = IBLOCK inum (mksb s) in
      bindE (rsect bn s) (\<lambda>buf.
      wsect bn (put_dinode buf (dinode_off inum) ip) s))"

definition rinode :: "u32 \<Rightarrow> mkfs \<Rightarrow> inode result" where
  "rinode inum s =
     bindE (rsect (IBLOCK inum (mksb s)) s) (\<lambda>buf.
     Inr (get_dinode buf (dinode_off inum) zero_dinode))"

definition mkfs_ialloc :: "u16 \<Rightarrow> mkfs \<Rightarrow> (u32 \<times> mkfs) result" where
  "mkfs_ialloc type s =
     (let inum = freeinode s;
          din = zero_dinode\<lparr>i_type := xshort type, i_nlink := xshort 1, i_size := xint 0\<rparr> in
      bindE (winode inum din (s\<lparr>freeinode := inum + 1\<rparr>)) (\<lambda>s1.
      Inr (inum, s1)))"

section \<open>The bitmap\<close>

definition mkfs_balloc :: "int \<Rightarrow> mkfs \<Rightarrow> mkfs result" where
  "mkfs_balloc used s =
     (if \<not> used < BSIZE * 8 then Inl (Panic ''assert'')
      else wsect (sb_bmapstart (mksb s)) (fold (\<lambda>i buf. mark_bit buf i) [0..<nat used] zeroes) s)"

section \<open>Appending to a file\<close>

text \<open>
  The part of a turn of \<^verbatim>\<open>iappend\<close> that finds or allocates the disk block of block \<^verbatim>\<open>fbn\<close> of the file, in the
  caller's copy of the inode and in the indirect block on disk.
\<close>

definition iappend_block :: "nat \<Rightarrow> inode \<Rightarrow> mkfs \<Rightarrow> (u32 \<times> inode \<times> mkfs) result" where
  "iappend_block fbn din s =
     (if fbn < NDIRECT
      then
        let (din, s) = (if xint (i_addrs din ! fbn) = 0
              then (din\<lparr>i_addrs := (i_addrs din)[fbn := xint (freeblock s)]\<rparr>, s\<lparr>freeblock := freeblock s + 1\<rparr>)
              else (din, s))
        in Inr (xint (i_addrs din ! fbn), din, s)
      else
        let (din, s) = (if xint (i_addrs din ! NDIRECT) = 0
              then (din\<lparr>i_addrs := (i_addrs din)[NDIRECT := xint (freeblock s)]\<rparr>, s\<lparr>freeblock := freeblock s + 1\<rparr>)
              else (din, s));
            ind = xint (i_addrs din ! NDIRECT); p = 4 * (fbn - NDIRECT)
        in bindE (rsect ind s) (\<lambda>indirect.
           if get32 indirect p = 0
           then
             let indirect = put32 indirect p (xint (freeblock s)) in
             bindE (wsect ind indirect (s\<lparr>freeblock := freeblock s + 1\<rparr>)) (\<lambda>s.
             Inr (xint (get32 indirect p), din, s))
           else Inr (xint (get32 indirect p), din, s)))"

text \<open>The loop: \<open>p\<close> are the bytes still to append; \<^verbatim>\<open>off\<close> stays below \<open>2\<^sup>3\<^sup>2\<close> by the assertion.\<close>

lemma room_in_block: "off < (off div BSIZE + 1) * BSIZE" for off :: nat
  using dividend_less_times_div [of 512 off] by simp

function iappend_loop :: "u8 list \<Rightarrow> nat \<Rightarrow> inode \<Rightarrow> mkfs \<Rightarrow> (nat \<times> inode \<times> mkfs) result" where
  "iappend_loop p off din s =
     (if p = [] then Inr (off, din, s)
      else
        let fbn = off div BSIZE in
        if \<not> fbn < MAXFILE then Inl (Panic ''assert'')
        else
          bindE (iappend_block fbn din s) (\<lambda>(x, din, s).
          let n1 = min (length p) ((fbn + 1) * BSIZE - off) in
          bindE (rsect x s) (\<lambda>buf.
          bindE (wsect x (splice buf (off - fbn * BSIZE) (take n1 p)) s) (\<lambda>s.
          iappend_loop (drop n1 p) (off + n1) din s))))"
  by pat_completeness auto
termination
  by (relation "measure (\<lambda>(p, off, din, s). length p)") (simp_all add: room_in_block)

declare iappend_loop.simps [simp del]

definition iappend :: "u32 \<Rightarrow> u8 list \<Rightarrow> mkfs \<Rightarrow> mkfs result" where
  "iappend inum p s =
     bindE (rinode inum s) (\<lambda>din.
     bindE (iappend_loop p (unat (xint (i_size din))) din s) (\<lambda>(off, din, s).
     winode inum (din\<lparr>i_size := xint (of_nat off)\<rparr>) s))"

section \<open>The program\<close>

text \<open>
  \<open>host\<close> says what the host gives for a file name: no file, or the results of the successive calls of \<^verbatim>\<open>read\<close>, the
  loop ending at the first that is empty.  \<open>open_img\<close> says whether the image can be created, and how large it may become.
\<close>

definition sb_block :: "superblock \<Rightarrow> block" where
  "sb_block b = put32 (put32 (put32 (put32 (put32 (put32 (put32 zeroes 0 (sb_size b)) 4 (sb_nblocks b))
     8 (sb_ninodes b)) 12 (sb_nlog b)) 16 (sb_logstart b)) 20 (sb_inodestart b)) 24 (sb_bmapstart b)"

definition mkfs_sb :: superblock where
  "mkfs_sb = \<lparr>sb_size = xint FSSIZE, sb_nblocks = xint (FSSIZE - nmeta), sb_ninodes = xint NINODES, sb_nlog = xint nlog,
     sb_logstart = xint 2, sb_inodestart = xint (2 + nlog), sb_bmapstart = xint (2 + nlog + ninodeblocks)\<rparr>"

definition mkfs_file :: "(cstr \<Rightarrow> u8 list list option) \<Rightarrow> u32 \<Rightarrow> cstr \<Rightarrow> mkfs \<Rightarrow> mkfs result" where
  "mkfs_file host rootino arg s =
     (if slash \<in> set arg then Inl (Panic ''assert'')
      else case host arg of
        None \<Rightarrow> Inl (Panic ''open'')
      | Some reads \<Rightarrow>
          let name = (if peek arg = 95 then tl arg else arg) in
          bindE (mkfs_ialloc T_FILE s) (\<lambda>(inum, s1).
          bindE (iappend rootino (mk_dirent (xshort (ucast inum)) name) s1) (\<lambda>s2.
          foldE (iappend inum) (takeWhile (\<lambda>buf. buf \<noteq> []) reads) s2)))"

definition mkfs_main :: "(cstr \<Rightarrow> nat option) \<Rightarrow> (cstr \<Rightarrow> u8 list list option) \<Rightarrow> cstr list \<Rightarrow> mkfs result" where
  "mkfs_main open_img host args =
     (case args of
        [] \<Rightarrow> Inl (Panic ''usage'')
      | img # files \<Rightarrow>
          (case open_img img of
             None \<Rightarrow> Inl (Panic ''open'')
           | Some room \<Rightarrow>
               let s0 = \<lparr>fsimg = [], fsroom = room, mksb = mkfs_sb, freeinode = 1, freeblock = nmeta\<rparr> in
               bindE (foldE (\<lambda>i. wsect (of_nat i) zeroes) [0..<FSSIZE] s0) (\<lambda>s1.
               bindE (wsect 1 (sb_block (mksb s1)) s1) (\<lambda>s2.
               bindE (mkfs_ialloc T_DIR s2) (\<lambda>(rootino, s3).
               if rootino \<noteq> ROOTINO then Inl (Panic ''assert'')
               else
                 bindE (iappend rootino (mk_dirent (xshort (ucast rootino)) [46]) s3) (\<lambda>s4.
                 bindE (iappend rootino (mk_dirent (xshort (ucast rootino)) [46, 46]) s4) (\<lambda>s5.
                 bindE (foldE (mkfs_file host rootino) files s5) (\<lambda>s6.
                 bindE (rinode rootino s6) (\<lambda>din.
                 let off = (xint (i_size din) div BSIZE + 1) * BSIZE in
                 bindE (winode rootino (din\<lparr>i_size := xint off\<rparr>) s6) (\<lambda>s7.
                 mkfs_balloc (sint (freeblock s7)) s7))))))))))"

section \<open>Reading and writing sectors\<close>

lemma xint_id [simp]: "xint x = x"
  using split32 [of x] by (simp add: xint_def get32_def get8_def)

lemma xshort_id [simp]: "xshort x = x"
  using split16 [of x] by (simp add: xshort_def get16_def get8_def)

lemma sector_small: "sec < FSSIZE \<Longrightarrow> sector sec = unat sec"
proof -
  assume "sec < FSSIZE"
  then have "unat sec * unat (BSIZE :: u32) < 2 ^ LENGTH(32)" by (simp add: word_less_nat_alt)
  then have "unat (sec * BSIZE) = unat sec * 512" by (subst unat_mult_lem [THEN iffD1]) simp_all
  then show ?thesis by (simp add: sector_def)
qed

lemma mkfs_layout [simp]:
  "nmeta = 59" "mkfs_sb = \<lparr>sb_size = 1000, sb_nblocks = 941, sb_ninodes = 200, sb_nlog = 30, sb_logstart = 2,
     sb_inodestart = 32, sb_bmapstart = 58\<rparr>"
  by (simp_all add: nmeta_def nlog_def ninodeblocks_def nbitmap_def mkfs_sb_def)

end
