(* ===== verification/Mkfs_Inv.thy ===== *)
theory Mkfs_Inv
  imports Fs_Props Mkfs
begin

text \<open>
  The invariant of the image that \<^verbatim>\<open>mkfs\<close> builds, and what its operations do to it.  Every inode with a number below the
  next free one is a file, given as a list of bytes: its blocks, the indirect block included, are distinct sectors from the
  first data block on, and the sectors that have been given out are just those below the next free one.
\<close>

section \<open>The inodes on disk\<close>

lemma get8_put_words: "j < q \<or> q + 4 * n \<le> j \<Longrightarrow> get8 (fold (\<lambda>k d. put32 d (q + 4 * k) (f k)) [0..<n] d) j = get8 d j"
  by (induction n) (auto simp: get8_put32_other)

lemma get8_put_dinode: "j < p \<or> p + 64 \<le> j \<Longrightarrow> get8 (put_dinode d p i) j = get8 d j"
  unfolding put_dinode_def by (subst get8_put_words) (auto simp: get8_put16_other get8_put32_other)

lemma get_dinode_cong:
  assumes "\<forall>j. p \<le> j \<longrightarrow> j < p + 64 \<longrightarrow> get8 d j = get8 d' j"
  shows "get_dinode d p i = get_dinode d' p i"
  using assms by (auto simp: get_dinode_def get32_def get16_def)

lemma get_put_dinode_other: "p + 64 \<le> q \<or> q + 64 \<le> p \<Longrightarrow> get_dinode (put_dinode d p i) q j = get_dinode d q j"
  by (rule get_dinode_cong) (auto simp: get8_put_dinode)

text \<open>The inode with number \<open>i\<close> in an image, and the sector of block \<open>k\<close> of the file; block 140 is the indirect block.\<close>

definition inode_at :: "block list \<Rightarrow> nat \<Rightarrow> inode" where
  "inode_at S i = get_dinode (S ! (32 + i div IPB)) (64 * (i mod IPB)) zero_dinode"

definition slot :: "block list \<Rightarrow> inode \<Rightarrow> nat \<Rightarrow> nat" where
  "slot S d k = unat (if k < NDIRECT then i_addrs d ! k else if k = MAXFILE \<or> i_addrs d ! NDIRECT = 0 then i_addrs d ! NDIRECT
     else get32 (S ! unat (i_addrs d ! NDIRECT)) (4 * (k - NDIRECT)))"

abbreviation dinode_ok :: "inode \<Rightarrow> bool" where
  "dinode_ok d \<equiv> get_dinode (put_dinode zeroes 0 d) 0 zero_dinode = d \<and> length (i_addrs d) = NDIRECT + 1"

lemma inode_number:
  assumes "i < 208"
  shows "sector (IBLOCK (of_nat i) mkfs_sb) = 32 + i div IPB" "dinode_off (of_nat i) = 64 * (i mod IPB)" "32 + i div IPB < 58"
proof -
  have u: "unat (of_nat i :: u32) = i" using assms by (intro unat_u32_of_nat) simp
  then have "unat (of_nat i div 8 :: u32) = i div 8" by (simp add: unat_div)
  then have "unat (of_nat i div 8 + 32 :: u32) = 32 + i div 8" using unat_u32_add [of "of_nat i div 8" 32] assms by simp
  moreover have "32 + i div 8 < 58" using assms by simp
  ultimately show "sector (IBLOCK (of_nat i) mkfs_sb) = 32 + i div IPB" "32 + i div IPB < 58"
    using sector_small [of "of_nat i div 8 + 32"] by (simp_all add: IBLOCK_def word_less_nat_alt)
  show "dinode_off (of_nat i) = 64 * (i mod IPB)" by (simp add: dinode_off_def u)
qed

lemma inode_at_upd:
  assumes "j < 208" and "i < 208" and "length S = FSSIZE" and "\<forall>b \<in> set S. length b = BSIZE" and "dinode_ok d"
  defines "c \<equiv> 32 + i div IPB"
  shows "inode_at (S[c := put_dinode (S ! c) (64 * (i mod IPB)) d]) j = (if j = i then d else inode_at S j)"
proof -
  have c: "c < length S" using inode_number(3) [OF assms(2)] assms(3) by (simp add: c_def)
  then have lc: "length (S ! c) = BSIZE" using assms(4) by simp
  have m: "64 * (i mod 8) + 64 \<le> (512::nat)" using mod_less_divisor [of 8 i] by linarith
  show ?thesis
  proof (cases "i div 8 = j div 8")
    case True
    show ?thesis
    proof (cases "i = j")
      case True
      then show ?thesis using c lc m assms(5) get_put_dinode [of "64 * (i mod 8)" "S ! c" d zero_dinode]
          get_put_dinode [of 0 zeroes d zero_dinode] by (simp add: inode_at_def c_def zeroes_def)
    next
      case False
      then have "i mod 8 \<noteq> j mod 8" using True by (metis div_mult_mod_eq)
      then have "64 * (i mod 8) + 64 \<le> 64 * (j mod 8) \<or> 64 * (j mod 8) + 64 \<le> 64 * (i mod 8)" by linarith
      then show ?thesis using c True False get_put_dinode_other by (auto simp: inode_at_def c_def)
    qed
  next
    case False
    then show ?thesis by (auto simp: inode_at_def c_def)
  qed
qed

section \<open>The blocks of an image\<close>

definition byte_at :: "u8 list \<Rightarrow> nat \<Rightarrow> u8" where
  "byte_at xs j = (if j < length xs then xs ! j else 0)"

text \<open>Block \<open>k\<close> of a file, filled up with zeros.\<close>

definition blk :: "u8 list \<Rightarrow> nat \<Rightarrow> block" where
  "blk xs k = map (\<lambda>j. byte_at xs (BSIZE * k + j)) [0..<BSIZE]"

definition keys :: "nat \<Rightarrow> (nat \<times> nat) set" where
  "keys N = {1..<N} \<times> {..MAXFILE}"

text \<open>\<open>D\<close> is the set of allocated blocks: sectors from 59 on were given out one after the other.\<close>

definition allocated :: "(nat \<times> nat \<Rightarrow> nat) \<Rightarrow> nat \<Rightarrow> nat \<Rightarrow> (nat \<times> nat) set \<Rightarrow> bool" where
  "allocated F fb N D \<longleftrightarrow> D \<subseteq> keys N \<and> fb = 59 + card D \<and> (\<forall>x \<in> D. 59 \<le> F x \<and> F x < fb) \<and> inj_on F D \<and>
     (\<forall>x \<in> keys N - D. F x = 0)"

text \<open>
  The invariant of the image while files grow: \<open>V\<close> gives the inodes, the one in the caller's memory included, \<open>L\<close> the
  bytes of the files.
\<close>

definition rep :: "(nat \<Rightarrow> inode) \<Rightarrow> block list \<Rightarrow> nat \<Rightarrow> nat \<Rightarrow> (nat \<times> nat) set \<Rightarrow> (nat \<Rightarrow> u8 list) \<Rightarrow> bool" where
  "rep V S fb N D L \<longleftrightarrow> length S = FSSIZE \<and> (\<forall>b \<in> set S. length b = BSIZE) \<and> fb \<le> FSSIZE \<and>
     (\<forall>i \<in> {1..<N}. length (i_addrs (V i)) = NDIRECT + 1) \<and> allocated (\<lambda>(i, k). slot S (V i) k) fb N D \<and>
     (\<forall>i k. (i, k) \<in> D \<longrightarrow> k < MAXFILE \<longrightarrow> S ! slot S (V i) k = blk (L i) k) \<and>
     (\<forall>b. fb \<le> b \<longrightarrow> b < FSSIZE \<longrightarrow> S ! b = zeroes) \<and> (\<forall>i k. (i, k) \<in> D \<longrightarrow> NDIRECT \<le> k \<longrightarrow> (i, MAXFILE) \<in> D)"

lemma finite_keys: "D \<subseteq> keys N \<Longrightarrow> finite D"
  by (rule finite_subset [of _ "keys N"]) (simp_all add: keys_def)

lemma length_blk [simp]: "length (blk xs k) = BSIZE"
  by (simp add: blk_def)

lemma blk_beyond: "length xs \<le> BSIZE * k \<Longrightarrow> blk xs k = zeroes"
  by (rule nth_equalityI) (simp_all add: blk_def zeroes_def byte_at_def)

lemma allocated_new:
  assumes a: "allocated F fb N D" and x: "x \<in> keys N" "x \<notin> D" and F: "\<forall>y \<in> keys N. F' y = (if y = x then fb else F y)"
  shows "allocated F' (Suc fb) N (insert x D)"
proof -
  have D: "D \<subseteq> keys N" "finite D" using a finite_keys by (auto simp: allocated_def)
  have F': "\<forall>y \<in> D. F' y = F y" "F' x = fb" using F x D(1) by auto
  then have "inj_on F' D" using a by (simp add: allocated_def cong: inj_on_cong)
  moreover have "F' x \<notin> F' ` D" using a F' by (auto simp: allocated_def)
  ultimately have "inj_on F' (insert x D)" using x(2) by simp
  moreover have "Suc fb = 59 + card (insert x D)" using a x(2) D by (simp add: allocated_def)
  moreover have "\<forall>y \<in> insert x D. 59 \<le> F' y \<and> F' y < Suc fb" using a F' by (auto simp: allocated_def)
  moreover have "\<forall>y \<in> keys N - insert x D. F' y = 0" using a F by (auto simp: allocated_def)
  ultimately show ?thesis using D(1) x(1) by (simp add: allocated_def)
qed

lemma allocated_cong: "allocated F fb N D \<Longrightarrow> \<forall>x \<in> keys N. F' x = F x \<Longrightarrow> allocated F' fb N D"
proof -
  assume a: "allocated F fb N D" and F: "\<forall>x \<in> keys N. F' x = F x"
  then have D: "\<forall>x \<in> D. F' x = F x" by (auto simp: allocated_def)
  then have "inj_on F' D" using a inj_on_cong [of D F' F] by (simp add: allocated_def)
  moreover have "\<forall>x \<in> D. 59 \<le> F' x \<and> F' x < fb" "\<forall>x \<in> keys N - D. F' x = 0" using a D F by (auto simp: allocated_def)
  ultimately show ?thesis using a by (simp add: allocated_def)
qed

lemma rep_alloc: "rep V S fb N D L \<Longrightarrow> allocated (\<lambda>(i, k). slot S (V i) k) fb N D"
  by (simp add: rep_def)

lemma rep_slot:
  assumes "rep V S fb N D L" and "(i, k) \<in> D"
  shows "59 \<le> slot S (V i) k" "slot S (V i) k < fb" "fb \<le> FSSIZE" "length S = FSSIZE" "1 \<le> i" "i < N" "k \<le> MAXFILE"
proof -
  show "fb \<le> FSSIZE" "length S = FSSIZE" using assms(1) by (simp_all add: rep_def)
  have a: "D \<subseteq> keys N" "\<forall>x \<in> D. 59 \<le> (\<lambda>(i, k). slot S (V i) k) x \<and> (\<lambda>(i, k). slot S (V i) k) x < fb"
    using rep_alloc [OF assms(1)] by (auto simp: allocated_def)
  from a(1) assms(2) have "(i, k) \<in> keys N" by blast
  then show "1 \<le> i" "i < N" "k \<le> MAXFILE" by (auto simp: keys_def)
  from bspec [OF a(2) assms(2)] show "59 \<le> slot S (V i) k" "slot S (V i) k < fb" by simp_all
qed

lemma rep_zero: "rep V S fb N D L \<Longrightarrow> (i, k) \<in> keys N \<Longrightarrow> (i, k) \<notin> D \<Longrightarrow> slot S (V i) k = 0"
  using rep_alloc [of V S fb N D L] by (force simp: allocated_def)

lemma rep_inj:
  assumes "rep V S fb N D L" and "(i, k) \<in> D" and "(j, l) \<in> D" and "slot S (V i) k = slot S (V j) l"
  shows "i = j" "k = l"
proof -
  have "inj_on (\<lambda>(i, k). slot S (V i) k) D" using rep_alloc [OF assms(1)] by (simp add: allocated_def)
  from inj_onD [OF this _ assms(2,3)] assms(4) have "(i, k) = (j, l)" by simp
  then show "i = j" "k = l" by simp_all
qed

lemma slot_upd:
  assumes "slot S d MAXFILE \<noteq> 0 \<longrightarrow> slot S d MAXFILE \<noteq> x"
  shows "slot (S[x := b]) d k = slot S d k"
  using assms by (auto simp: slot_def unat_eq_0)

lemma rep_new:
  assumes r: "rep V S fb N D L" and x: "(i, k) \<in> keys N" "(i, k) \<notin> D" and fb: "fb < FSSIZE"
    and V: "\<forall>j \<in> {1..<N}. length (i_addrs (V' j)) = NDIRECT + 1"
    and F: "\<forall>j l. (j, l) \<in> keys N \<longrightarrow> slot S' (V' j) l = (if (j, l) = (i, k) then fb else slot S (V j) l)"
    and S: "S' = S \<or> S' = S[slot S (V i) MAXFILE := d] \<and> (i, MAXFILE) \<in> D \<and> length d = BSIZE"
    and b: "k < MAXFILE \<longrightarrow> blk (L i) k = zeroes" and ind: "NDIRECT \<le> k \<longrightarrow> (i, MAXFILE) \<in> insert (i, k) D"
  shows "rep V' S' (Suc fb) N (insert (i, k) D) L"
proof -
  have D: "D \<subseteq> keys N" using rep_alloc [OF r] by (simp add: allocated_def)
  have al: "allocated (\<lambda>(i, k). slot S' (V' i) k) (Suc fb) N (insert (i, k) D)"
    by (rule allocated_new [OF rep_alloc [OF r] x]) (use F in \<open>auto split: if_splits\<close>)
  have len: "length S' = FSSIZE" "\<forall>b \<in> set S'. length b = BSIZE"
    using r S set_update_subset_insert [of S "slot S (V i) MAXFILE" d] by (auto simp: rep_def)
  have same: "S' ! c = S ! c" if "(i, MAXFILE) \<in> D \<longrightarrow> c \<noteq> slot S (V i) MAXFILE" for c
    using S that by auto
  have new: "S' ! c = zeroes" if "fb \<le> c" "c < FSSIZE" for c
    using r that same [of c] rep_slot(2) [OF r, of i MAXFILE] by (fastforce simp: rep_def)
  have old: "S' ! slot S' (V' j) l = blk (L j) l" if "(j, l) \<in> D" "l < MAXFILE" for j l
  proof -
    have "slot S' (V' j) l = slot S (V j) l" using F that(1) x(2) D by auto
    moreover have "(i, MAXFILE) \<in> D \<longrightarrow> slot S (V j) l \<noteq> slot S (V i) MAXFILE" using rep_inj(2) [OF r that(1)] that(2) by fastforce
    ultimately show ?thesis using same r that by (auto simp: rep_def)
  qed
  have "S' ! slot S' (V' i) k = zeroes" using F x(1) new [of fb] fb by simp
  then have "\<forall>j l. (j, l) \<in> insert (i, k) D \<longrightarrow> l < MAXFILE \<longrightarrow> S' ! slot S' (V' j) l = blk (L j) l" using old b by auto
  moreover have "\<forall>j l. (j, l) \<in> insert (i, k) D \<longrightarrow> NDIRECT \<le> l \<longrightarrow> (j, MAXFILE) \<in> insert (i, k) D" using r ind by (auto simp: rep_def)
  ultimately show ?thesis using al len V fb new by (simp add: rep_def)
qed

lemma rep_indirect:
  assumes "rep V S fb N D L"
  shows "i \<in> {1..<N} \<Longrightarrow> slot S (V i) MAXFILE \<noteq> 0 \<longleftrightarrow> (i, MAXFILE) \<in> D"
proof -
  assume "i \<in> {1..<N}"
  then have "(i, MAXFILE) \<in> keys N" by (auto simp: keys_def)
  then show ?thesis using rep_zero [OF assms] rep_slot(1) [OF assms, of i MAXFILE] by fastforce
qed

lemma unat_block: "fb \<le> FSSIZE \<Longrightarrow> unat (of_nat fb :: u32) = fb" for fb :: nat
  by (rule unat_u32_of_nat) simp

text \<open>A new block in the inode itself, and a new entry of the indirect block.\<close>

lemma rep_new_direct:
  assumes r: "rep V S fb N D L" and i: "i \<in> {1..<N}" and k: "k < NDIRECT" "(i, k) \<notin> D" "blk (L i) k = zeroes" and fb: "fb < FSSIZE"
  shows "rep (V(i := (V i)\<lparr>i_addrs := (i_addrs (V i))[k := of_nat fb]\<rparr>)) S (Suc fb) N (insert (i, k) D) L"
proof (rule rep_new [OF r _ k(2) fb])
  have l: "length (i_addrs (V i)) = 13" using r i by (simp add: rep_def)
  then show "\<forall>j l. (j, l) \<in> keys N \<longrightarrow> slot S ((V(i := (V i)\<lparr>i_addrs := (i_addrs (V i))[k := of_nat fb]\<rparr>)) j) l =
    (if (j, l) = (i, k) then fb else slot S (V j) l)"
    using k(1) unat_block [of fb] fb by (auto simp: slot_def nth_list_update)
  show "\<forall>j \<in> {1..<N}. length (i_addrs ((V(i := (V i)\<lparr>i_addrs := (i_addrs (V i))[k := of_nat fb]\<rparr>)) j)) = NDIRECT + 1"
    using r by (simp add: rep_def)
qed (use i k in \<open>auto simp: keys_def\<close>)

lemma rep_new_indirect:
  assumes r: "rep V S fb N D L" and i: "i \<in> {1..<N}" and k: "(i, MAXFILE) \<notin> D" and fb: "fb < FSSIZE"
  shows "rep (V(i := (V i)\<lparr>i_addrs := (i_addrs (V i))[NDIRECT := of_nat fb]\<rparr>)) S (Suc fb) N (insert (i, MAXFILE) D) L"
proof (rule rep_new [OF r _ k fb])
  have l: "length (i_addrs (V i)) = 13" using r i by (simp add: rep_def)
  have z: "S ! fb = zeroes" using r fb by (simp add: rep_def)
  have "i_addrs (V i) ! 12 = 0" using rep_indirect [OF r i] k by (simp add: slot_def unat_eq_0)
  then show "\<forall>j l. (j, l) \<in> keys N \<longrightarrow> slot S ((V(i := (V i)\<lparr>i_addrs := (i_addrs (V i))[NDIRECT := of_nat fb]\<rparr>)) j) l =
    (if (j, l) = (i, MAXFILE) then fb else slot S (V j) l)"
    using unat_block [of fb] fb l z by (auto simp: slot_def nth_list_update zeroes_def)
  show "\<forall>j \<in> {1..<N}. length (i_addrs ((V(i := (V i)\<lparr>i_addrs := (i_addrs (V i))[NDIRECT := of_nat fb]\<rparr>)) j)) = NDIRECT + 1"
    using r by (simp add: rep_def)
qed (use i k in \<open>auto simp: keys_def\<close>)

lemma rep_new_entry:
  assumes r: "rep V S fb N D L" and i: "i \<in> {1..<N}" and k: "NDIRECT \<le> k" "k < MAXFILE" "(i, k) \<notin> D" "blk (L i) k = zeroes"
    and ind: "(i, MAXFILE) \<in> D" and fb: "fb < FSSIZE"
  defines "c \<equiv> slot S (V i) MAXFILE"
  shows "rep V (S[c := put32 (S ! c) (4 * (k - NDIRECT)) (of_nat fb)]) (Suc fb) N (insert (i, k) D) L"
proof (rule rep_new [OF r _ k(3) fb])
  let ?S = "S[c := put32 (S ! c) (4 * (k - NDIRECT)) (of_nat fb)]"
  have c: "c < length S" "c \<noteq> 0" "length (S ! c) = 512" using rep_slot(1-4) [OF r ind] r by (auto simp: rep_def c_def)
  have a: "unat (i_addrs (V i) ! 12) = c" "i_addrs (V i) ! 12 \<noteq> 0" using c(2) by (auto simp: c_def slot_def)
  have e: "get32 (put32 (S ! c) (4 * (k - 12)) (of_nat fb)) (4 * (l - 12)) =
      (if l = k then of_nat fb else get32 (S ! c) (4 * (l - 12)))" if "12 \<le> l" "l < 140" for l
  proof (cases "l = k")
    case False
    then have "4 * (l - 12) + 4 \<le> 4 * (k - 12) \<or> 4 * (k - 12) + 4 \<le> 4 * (l - 12)" using that k(1) by linarith
    then show ?thesis using False by simp
  qed (use that c(3) in simp)
  have other: "slot ?S (V j) l = slot S (V j) l" if "j \<in> {1..<N}" "j \<noteq> i" for j l
    using rep_indirect [OF r that(1)] rep_inj(1) [OF r _ ind] that(2) by (intro slot_upd) (auto simp: c_def)
  have self: "slot ?S (V i) l = (if l = k then fb else slot S (V i) l)" if "l \<le> MAXFILE" for l
    using that k a c(1) e [of l] unat_block [of fb] fb by (auto simp: slot_def)
  from other self show "\<forall>j l. (j, l) \<in> keys N \<longrightarrow> slot ?S (V j) l = (if (j, l) = (i, k) then fb else slot S (V j) l)"
    by (auto simp: keys_def) metis
  show "?S = S \<or> ?S = S[slot S (V i) MAXFILE := put32 (S ! c) (4 * (k - NDIRECT)) (of_nat fb)] \<and> (i, MAXFILE) \<in> D \<and>
      length (put32 (S ! c) (4 * (k - NDIRECT)) (of_nat fb)) = BSIZE" using ind c(3) by (simp add: c_def)
  show "\<forall>j \<in> {1..<N}. length (i_addrs (V j)) = NDIRECT + 1" using r by (simp add: rep_def)
qed (use i k ind in \<open>auto simp: keys_def\<close>)

text \<open>Storing bytes at the end of a file, in a block that is already allocated.\<close>

lemma blk_append:
  assumes "length p \<le> BSIZE - length xs mod BSIZE"
  shows "blk (xs @ p) k = (if k = length xs div BSIZE then splice (blk xs k) (length xs mod BSIZE) p else blk xs k)"
proof -
  define q r where "q = length xs div 512" and "r = length xs mod 512"
  have len: "length xs = 512 * q + r" and r: "r < 512" "r + length p \<le> 512" using assms by (simp_all add: q_def r_def)
  have "blk (xs @ p) k ! j = (if k = q then splice (blk xs k) r p else blk xs k) ! j" if j: "j < 512" for j
  proof (cases "k = q")
    case True
    then show ?thesis using j r by (auto simp: splice_nth blk_def byte_at_def nth_append len)
  next
    case False
    then have "512 * k + 512 \<le> 512 * q \<or> 512 * q + 512 \<le> 512 * k" by linarith
    then have "512 * k + j < length xs \<or> length xs + length p \<le> 512 * k + j" using len r j by linarith
    then show ?thesis using False j by (auto simp: blk_def byte_at_def nth_append)
  qed
  then have "blk (xs @ p) k = (if k = q then splice (blk xs k) r p else blk xs k)"
    using r by (intro nth_equalityI) (auto simp: length_splice)
  then show ?thesis by (simp only: q_def r_def)
qed

lemma rep_store:
  assumes r: "rep V S fb N D L" and x: "(i, length (L i) div BSIZE) \<in> D" "length (L i) div BSIZE < MAXFILE"
    and p: "length p \<le> BSIZE - length (L i) mod BSIZE"
  defines "c \<equiv> slot S (V i) (length (L i) div BSIZE)"
  shows "rep V (S[c := splice (S ! c) (length (L i) mod BSIZE) p]) fb N D (L(i := L i @ p))"
    "\<forall>j. slot (S[c := splice (S ! c) (length (L i) mod BSIZE) p]) (V j) = slot S (V j) \<or> j \<notin> {1..<N}"
proof -
  let ?S = "S[c := splice (S ! c) (length (L i) mod BSIZE) p]"
  have c: "c < length S" "c < fb" using rep_slot(2-4) [OF r x(1)] by (auto simp: c_def)
  have Sc: "S ! c = blk (L i) (length (L i) div BSIZE)" using r x by (simp add: rep_def c_def)
  have s: "slot ?S (V j) l = slot S (V j) l" if "j \<in> {1..<N}" for j l
    using rep_indirect [OF r that] rep_inj(2) [OF r _ x(1), of j MAXFILE] x(2) by (intro slot_upd) (auto simp: c_def)
  then show "\<forall>j. slot ?S (V j) = slot S (V j) \<or> j \<notin> {1..<N}" by auto
  have lens: "\<forall>b \<in> set ?S. length b = BSIZE"
  proof -
    have "length (splice (S ! c) (length (L i) mod BSIZE) p) = 512"
      unfolding Sc using p mod_less_divisor [of 512 "length (L i)"] by (subst length_splice) auto
    then show ?thesis using r set_update_subset_insert [of S c "splice (S ! c) (length (L i) mod BSIZE) p"] by (auto simp: rep_def)
  qed
  have al: "allocated (\<lambda>(i, k). slot ?S (V i) k) fb N D"
    by (rule allocated_cong [OF rep_alloc [OF r]]) (use s in \<open>auto simp: keys_def\<close>)
  have "?S ! slot ?S (V j) l = blk ((L(i := L i @ p)) j) l" if d: "(j, l) \<in> D" "l < MAXFILE" for j l
  proof -
    have j: "slot ?S (V j) l = slot S (V j) l" using s rep_slot(5,6) [OF r d(1)] by simp
    have e: "slot S (V j) l = c \<longleftrightarrow> j = i \<and> l = length (L i) div BSIZE" using rep_inj [OF r d(1) x(1)] by (auto simp: c_def)
    have o: "S ! slot S (V j) l = blk (L j) l" using r d by (simp add: rep_def)
    show ?thesis
    proof (cases "j = i \<and> l = length (L i) div BSIZE")
      case True
      then show ?thesis unfolding j using c(1) e Sc blk_append [OF p, of l] by simp
    next
      case False
      then have "slot S (V j) l \<noteq> c" using e by blast
      then have "?S ! slot ?S (V j) l = blk (L j) l" using o by (simp add: j)
      then show ?thesis using False blk_append [OF p, of l] by auto
    qed
  qed
  then have bl: "\<forall>j l. (j, l) \<in> D \<longrightarrow> l < MAXFILE \<longrightarrow> ?S ! slot ?S (V j) l = blk ((L(i := L i @ p)) j) l" by blast
  have "\<forall>b. fb \<le> b \<longrightarrow> b < FSSIZE \<longrightarrow> ?S ! b = zeroes" using r c(2) by (auto simp: rep_def)
  with al lens bl show "rep V ?S fb N D (L(i := L i @ p))" using r unfolding rep_def length_list_update by blast
qed

section \<open>Appending\<close>

text \<open>The blocks that files of these lengths need.\<close>

definition demand :: "nat \<Rightarrow> (nat \<Rightarrow> u8 list) \<Rightarrow> (nat \<times> nat) set" where
  "demand N L = {(i, k) \<in> keys N. BSIZE * (if k = MAXFILE then NDIRECT else k) < length (L i)}"

lemma demand_append:
  assumes i: "i \<in> {1..<N}" and k: "length (L i) div BSIZE < MAXFILE" and p: "p \<noteq> []" "length p \<le> BSIZE - length (L i) mod BSIZE"
  defines "k \<equiv> length (L i) div BSIZE"
  shows "demand N (L(i := L i @ p)) =
    (if length (L i) mod BSIZE \<noteq> 0 then demand N L
     else if k = NDIRECT then insert (i, k) (insert (i, MAXFILE) (demand N L)) else insert (i, k) (demand N L))"
    and "length (L i) mod BSIZE \<noteq> 0 \<Longrightarrow> (i, k) \<in> demand N L"
    and "length (L i) mod BSIZE = 0 \<Longrightarrow> (i, k) \<notin> demand N L \<and> ((i, MAXFILE) \<in> demand N L \<longleftrightarrow> NDIRECT < k)"
proof -
  define r where "r = length (L i) mod 512"
  have l: "length (L i) = 512 * k + r" "r < 512" "r + length p \<le> 512" "k < 140" using p(2) assms(2) by (simp_all add: k_def r_def)
  have p0: "0 < length p" using p(1) by simp
  have rm: "length (L i) mod BSIZE = r" by (simp add: r_def)
  have ki: "(i, m) \<in> keys N \<longleftrightarrow> m \<le> 140" for m using i by (simp add: keys_def)
  have grow: "512 * m < length (L i @ p) \<longleftrightarrow> 512 * m < length (L i) \<or> m = k" for m
  proof -
    have "m < k \<Longrightarrow> 512 * m + 512 \<le> 512 * k" "k < m \<Longrightarrow> 512 * k + 512 \<le> 512 * m" by linarith+
    then show ?thesis using l p0 by (cases m k rule: linorder_cases) auto
  qed
  have D: "(j, m) \<in> demand N (L(i := L i @ p)) \<longleftrightarrow> (j, m) \<in> demand N L \<or>
      j = i \<and> m \<le> 140 \<and> (if m = 140 then k = 12 else m = k)" for j m
  proof (cases "j = i")
    case True
    then show ?thesis unfolding demand_def mem_Collect_eq prod.case True fun_upd_same ki using grow [of 12] grow [of m] l(4) by auto
  next
    case False
    then show ?thesis by (simp add: demand_def)
  qed
  show a: "length (L i) mod BSIZE \<noteq> 0 \<Longrightarrow> (i, k) \<in> demand N L"
    unfolding rm demand_def mem_Collect_eq prod.case ki using l by auto
  have c: "length (L i) mod BSIZE \<noteq> 0 \<Longrightarrow> k = 12 \<Longrightarrow> (i, 140) \<in> demand N L"
    unfolding rm demand_def mem_Collect_eq prod.case ki using l by auto
  show "length (L i) mod BSIZE = 0 \<Longrightarrow> (i, k) \<notin> demand N L \<and> ((i, MAXFILE) \<in> demand N L \<longleftrightarrow> NDIRECT < k)"
    unfolding rm demand_def mem_Collect_eq prod.case ki using l by auto
  show "demand N (L(i := L i @ p)) =
    (if length (L i) mod BSIZE \<noteq> 0 then demand N L
     else if k = NDIRECT then insert (i, k) (insert (i, MAXFILE) (demand N L)) else insert (i, k) (demand N L))"
    using D a c l(4) by (intro set_eqI) (auto split: if_splits)
qed

lemma sector_ops:
  assumes "length (fsimg s) = FSSIZE" and "FSSIZE \<le> fsroom s" and "unat x < FSSIZE"
  shows "rsect x s = Inr (fsimg s ! unat x)" "wsect x b s = Inr (s\<lparr>fsimg := (fsimg s)[unat x := b]\<rparr>)"
proof -
  have "sector x = unat x" using assms(3) by (intro sector_small) (simp add: word_less_nat_alt)
  then show "rsect x s = Inr (fsimg s ! unat x)" "wsect x b s = Inr (s\<lparr>fsimg := (fsimg s)[unat x := b]\<rparr>)"
    using assms by (simp_all add: rsect_def wsect_def)
qed

text \<open>What finding the disk block of a block of the file leaves unchanged.\<close>

definition same_fields :: "inode \<Rightarrow> inode \<Rightarrow> bool" where
  "same_fields d d' \<longleftrightarrow> d\<lparr>i_addrs := []\<rparr> = d'\<lparr>i_addrs := []\<rparr>"

definition block_post :: "(nat \<Rightarrow> inode) \<Rightarrow> nat \<Rightarrow> nat \<Rightarrow> nat \<Rightarrow> (nat \<times> nat) set \<Rightarrow> (nat \<Rightarrow> u8 list) \<Rightarrow> mkfs \<Rightarrow> u32 \<times> inode \<times> mkfs \<Rightarrow> bool" where
  "block_post V N i k D L s = (\<lambda>(x, din, s'). \<exists>S fb. s' = s\<lparr>fsimg := S, freeblock := of_nat fb\<rparr> \<and> rep (V(i := din)) S fb N D L \<and>
     unat x = slot S din k \<and> same_fields din (V i) \<and> (\<forall>c < 59. S ! c = fsimg s ! c))"

lemma iappend_block_direct:
  assumes r: "rep V (fsimg s) fb N D L" and fb: "freeblock s = of_nat fb" and i: "i \<in> {1..<N}" and k: "k < NDIRECT"
    and new: "(i, k) \<notin> D \<Longrightarrow> fb < FSSIZE \<and> blk (L i) k = zeroes"
  shows "\<exists>y. iappend_block k (V i) s = Inr y \<and> block_post V N i k (insert (i, k) D) L s y"
proof (cases "(i, k) \<in> D")
  case True
  then have "i_addrs (V i) ! k \<noteq> 0" using rep_slot(1) [OF r True] k by (auto simp: slot_def)
  moreover have "insert (i, k) D = D" using True by auto
  moreover have "s\<lparr>fsimg := fsimg s, freeblock := of_nat fb\<rparr> = s" using fb by simp
  ultimately show ?thesis
    using k r by (simp add: iappend_block_def block_post_def same_fields_def)
      (intro exI [of _ "fsimg s"] exI [of _ fb], simp add: slot_def)
next
  case False
  let ?d = "(V i)\<lparr>i_addrs := (i_addrs (V i))[k := of_nat fb]\<rparr>"
  have "(i, k) \<in> keys N" using i k by (simp add: keys_def)
  then have "i_addrs (V i) ! k = 0" using rep_zero [OF r _ False] k by (simp add: slot_def unat_eq_0)
  then have "iappend_block k (V i) s = Inr (i_addrs ?d ! k, ?d, s\<lparr>freeblock := of_nat (Suc fb)\<rparr>)"
    using k fb by (simp add: iappend_block_def add.commute)
  moreover have "block_post V N i k (insert (i, k) D) L s (i_addrs ?d ! k, ?d, s\<lparr>freeblock := of_nat (Suc fb)\<rparr>)"
    using rep_new_direct [OF r i k False] new [OF False] k
    by (simp add: block_post_def same_fields_def) (intro exI [of _ "fsimg s"] exI [of _ "Suc fb"], simp add: slot_def)
  ultimately show ?thesis by blast
qed

lemma iappend_block_entry:
  assumes r: "rep V (fsimg s) fb N D L" and fb: "freeblock s = of_nat fb" and room: "FSSIZE \<le> fsroom s" and i: "i \<in> {1..<N}"
    and k: "NDIRECT \<le> k" "k < MAXFILE" and ind: "(i, MAXFILE) \<in> D"
    and new: "(i, k) \<notin> D \<Longrightarrow> fb < FSSIZE \<and> blk (L i) k = zeroes"
  shows "\<exists>y. iappend_block k (V i) s = Inr y \<and> block_post V N i k (insert (i, k) D) L s y"
proof -
  let ?a = "i_addrs (V i) ! NDIRECT" and ?c = "slot (fsimg s) (V i) MAXFILE" and ?p = "4 * (k - NDIRECT)"
  have c: "59 \<le> ?c" "?c < FSSIZE" and len: "length (fsimg s) = FSSIZE" using rep_slot(1-4) [OF r ind] by auto
  then have lc: "length (fsimg s ! ?c) = BSIZE" using r by (simp add: rep_def)
  have a: "unat ?a = ?c" "?a \<noteq> 0" using c(1) by (auto simp: slot_def)
  have sk: "slot (fsimg s) (V i) k = unat (get32 (fsimg s ! ?c) ?p)" using k a by (simp add: slot_def)
  have rd: "rsect ?a s' = Inr (fsimg s ! ?c)" "wsect ?a b s' = Inr (s'\<lparr>fsimg := (fsimg s)[?c := b]\<rparr>)"
    if "fsimg s' = fsimg s" "fsroom s' = fsroom s" for s' b
    using sector_ops [of s' ?a] that len room c(2) a(1) by simp_all
  show ?thesis
  proof (cases "(i, k) \<in> D")
    case True
    then have "get32 (fsimg s ! ?c) ?p \<noteq> 0" using rep_slot(1) [OF r True] sk by auto
    then have "iappend_block k (V i) s = Inr (get32 (fsimg s ! ?c) ?p, V i, s)"
      using k a(2) rd(1) [of s] by (simp add: iappend_block_def)
    moreover have "insert (i, k) D = D" using True by auto
    moreover have "s = s\<lparr>fsimg := fsimg s, freeblock := of_nat fb\<rparr>" using fb by simp
    ultimately show ?thesis
      using sk r by (simp add: block_post_def same_fields_def) (intro exI [of _ "fsimg s"] exI [of _ fb], simp)
  next
    case False
    let ?b = "put32 (fsimg s ! ?c) ?p (of_nat fb)" and ?s = "s\<lparr>freeblock := of_nat (Suc fb)\<rparr>"
    let ?S = "(fsimg s)[?c := ?b]"
    have "(i, k) \<in> keys N" using i k by (simp add: keys_def)
    then have "get32 (fsimg s ! ?c) ?p = 0" using rep_zero [OF r _ False] sk by (simp add: unat_eq_0)
    moreover have g: "get32 ?b ?p = of_nat fb" using lc k by simp
    ultimately have e: "iappend_block k (V i) s = Inr (of_nat fb, V i, ?s\<lparr>fsimg := ?S\<rparr>)"
      using k a(2) rd(1) [of s] rd(2) [of ?s ?b] fb by (simp add: iappend_block_def add.commute)
    have r1: "rep V ?S (Suc fb) N (insert (i, k) D) L"
      using rep_new_entry [OF r i k False _ ind] new [OF False] by simp
    have "slot ?S (V i) k = fb" using k a c(2) len g unat_block [of fb] new [OF False] by (simp add: slot_def)
    then have "block_post V N i k (insert (i, k) D) L s (of_nat fb, V i, ?s\<lparr>fsimg := ?S\<rparr>)"
      using r1 c(1) unat_block [of fb] new [OF False] unfolding block_post_def
      by simp (intro exI [of _ ?S] exI [of _ "Suc fb"], auto simp: same_fields_def)
    with e show ?thesis by blast
  qed
qed

lemma iappend_block_first_entry:
  assumes r: "rep V (fsimg s) fb N D L" and fb: "freeblock s = of_nat fb" and room: "FSSIZE \<le> fsroom s" and i: "i \<in> {1..<N}"
    and ind: "(i, MAXFILE) \<notin> D" and new: "Suc fb < FSSIZE" "blk (L i) NDIRECT = zeroes"
  shows "\<exists>y. iappend_block NDIRECT (V i) s = Inr y \<and> block_post V N i NDIRECT (insert (i, NDIRECT) (insert (i, MAXFILE) D)) L s y"
proof -
  let ?d = "(V i)\<lparr>i_addrs := (i_addrs (V i))[NDIRECT := of_nat fb]\<rparr>" and ?s = "s\<lparr>freeblock := of_nat (Suc fb)\<rparr>"
  let ?V = "V(i := ?d)"
  have r1: "rep ?V (fsimg ?s) (Suc fb) N (insert (i, MAXFILE) D) L" using rep_new_indirect [OF r i ind] new(1) by simp
  have l: "length (i_addrs (V i)) = 13" using r i by (simp add: rep_def)
  have "(i, MAXFILE) \<in> keys N" using i by (simp add: keys_def)
  then have z: "i_addrs (V i) ! 12 = 0" using rep_zero [OF r _ ind] by (simp add: slot_def unat_eq_0)
  have nz: "(of_nat fb :: u32) \<noteq> 0"
  proof -
    have "59 \<le> fb" using rep_alloc [OF r] by (simp add: allocated_def)
    then show ?thesis using unat_block [of fb] new(1) by auto
  qed
  have "iappend_block NDIRECT (V i) s = iappend_block NDIRECT (?V i) ?s"
    unfolding iappend_block_def fun_upd_same of_nat_Suc add.commute [of 1] using z nz l fb by simp
  moreover obtain x din s' where y: "iappend_block NDIRECT (?V i) ?s = Inr (x, din, s')"
    "block_post ?V N i NDIRECT (insert (i, NDIRECT) (insert (i, MAXFILE) D)) L ?s (x, din, s')"
    using iappend_block_entry [OF r1 _ _ i] room new by (fastforce)
  moreover have "block_post V N i NDIRECT (insert (i, NDIRECT) (insert (i, MAXFILE) D)) L s (x, din, s')"
    using y(2) by (simp add: block_post_def same_fields_def)
  ultimately show ?thesis by auto
qed

lemma demand_mono: "length (L i) \<le> length xs \<Longrightarrow> card (demand N L) \<le> card (demand N (L(i := xs)))"
proof (rule card_mono)
  show "finite (demand N (L(i := xs)))" by (rule finite_keys) (auto simp: demand_def)
  assume l: "length (L i) \<le> length xs"
  show "demand N L \<subseteq> demand N (L(i := xs))"
    using less_le_trans [OF _ l] by (auto simp: demand_def)
qed

lemma iappend_block_ok:
  assumes r: "rep V (fsimg s) fb N (demand N L) L" and fb: "freeblock s = of_nat fb" and room: "FSSIZE \<le> fsroom s" and i: "i \<in> {1..<N}"
    and p: "p \<noteq> []" "length p \<le> BSIZE - length (L i) mod BSIZE" and k: "length (L i) div BSIZE < MAXFILE"
    and blocks: "59 + card (demand N (L(i := L i @ p))) \<le> FSSIZE"
  shows "\<exists>y. iappend_block (length (L i) div BSIZE) (V i) s = Inr y \<and>
    block_post V N i (length (L i) div BSIZE) (demand N (L(i := L i @ p))) L s y"
proof -
  let ?k = "length (L i) div BSIZE" and ?D = "demand N L"
  note d = demand_append [of i N L p, OF i k p]
  have D: "finite ?D" "fb = 59 + card ?D" using rep_alloc [OF r] finite_keys by (auto simp: allocated_def)
  have ki: "(i, ?k) \<in> keys N" "(i, MAXFILE) \<in> keys N" using i k by (auto simp: keys_def)
  have k12: "(i, MAXFILE) \<in> ?D \<longleftrightarrow> NDIRECT * BSIZE < length (L i)" using ki(2) by (simp add: demand_def mult.commute)
  show ?thesis
  proof (cases "length (L i) mod BSIZE = 0")
    case True
    then have z: "blk (L i) ?k = zeroes" by (intro blk_beyond) auto
    show ?thesis
    proof (cases "?k = NDIRECT")
      case True12: True
      have "(i, MAXFILE) \<notin> ?D" "(i, NDIRECT) \<notin> insert (i, MAXFILE) ?D" using d(3) True True12 by auto
      moreover have e: "demand N (L(i := L i @ p)) = insert (i, NDIRECT) (insert (i, MAXFILE) ?D)" using d(1) True True12 by simp
      ultimately have "Suc fb < FSSIZE" using blocks D by simp
      then show ?thesis unfolding e True12
        using iappend_block_first_entry [OF r fb room i] \<open>(i, MAXFILE) \<notin> ?D\<close> z True12 by simp
    next
      case False
      then have e: "demand N (L(i := L i @ p)) = insert (i, ?k) ?D" using d(1) True by simp
      have "fb < FSSIZE" using blocks D d(3) True unfolding e by simp
      then show ?thesis unfolding e
        using iappend_block_direct [OF r fb i, of ?k] iappend_block_entry [OF r fb room i, of ?k] d(3) [OF True] z k False
        by (cases "?k < NDIRECT") auto
    qed
  next
    case False
    then have e: "demand N (L(i := L i @ p)) = insert (i, ?k) ?D" using d(1,2) by auto
    have "NDIRECT \<le> ?k \<Longrightarrow> (i, MAXFILE) \<in> ?D" using r d(2) [OF False] unfolding rep_def by blast
    then show ?thesis unfolding e
      using iappend_block_direct [OF r fb i, of ?k] iappend_block_entry [OF r fb room i, of ?k] d(2) [OF False] k
      by (cases "?k < NDIRECT") auto
  qed
qed

text \<open>The loop as a whole: the bytes come to the end of the file, and nothing else of the image changes.\<close>

definition append_post :: "(nat \<Rightarrow> inode) \<Rightarrow> nat \<Rightarrow> nat \<Rightarrow> (nat \<Rightarrow> u8 list) \<Rightarrow> mkfs \<Rightarrow> inode \<Rightarrow> mkfs \<Rightarrow> bool" where
  "append_post V N i L s din s' \<longleftrightarrow> (\<exists>S fb. s' = s\<lparr>fsimg := S, freeblock := of_nat fb\<rparr> \<and> rep (V(i := din)) S fb N (demand N L) L \<and>
     same_fields din (V i) \<and> (\<forall>c < 59. S ! c = fsimg s ! c))"

lemma iappend_turn:
  assumes r: "rep V (fsimg s) fb N (demand N L) L" and fb: "freeblock s = of_nat fb" and room: "FSSIZE \<le> fsroom s" and i: "i \<in> {1..<N}"
    and p: "p \<noteq> []" "length (L i) + length p \<le> MAXFILE * BSIZE" and blocks: "59 + card (demand N (L(i := L i @ p))) \<le> FSSIZE"
  defines "n1 \<equiv> min (length p) (BSIZE - length (L i) mod BSIZE)"
  shows "\<exists>din s1. iappend_loop p (length (L i)) (V i) s = iappend_loop (drop n1 p) (length (L i) + n1) din s1 \<and>
    append_post V N i (L(i := L i @ take n1 p)) s din s1 \<and> 0 < n1"
proof -
  let ?k = "length (L i) div BSIZE" and ?q = "take n1 p" and ?m = "length (L i) mod BSIZE"
  have n1: "0 < n1" "n1 \<le> length p" "n1 \<le> BSIZE - ?m" using p(1) by (simp_all add: n1_def)
  have q: "?q \<noteq> []" "length ?q \<le> BSIZE - length (L i) mod BSIZE" using n1 by auto
  have "0 < length p" using p(1) by simp
  then have "length (L i) < MAXFILE * BSIZE" using p(2) by linarith
  then have k: "?k < MAXFILE" by (simp add: div_less_iff_less_mult)
  have "card (demand N (L(i := L i @ ?q))) \<le> card (demand N ((L(i := L i @ ?q))(i := L i @ p)))" by (rule demand_mono) simp
  then have b: "59 + card (demand N (L(i := L i @ ?q))) \<le> FSSIZE" using blocks by simp
  obtain x din S fb' where y: "iappend_block ?k (V i) s = Inr (x, din, s\<lparr>fsimg := S, freeblock := of_nat fb'\<rparr>)"
    "rep (V(i := din)) S fb' N (demand N (L(i := L i @ ?q))) L" "unat x = slot S din ?k" "same_fields din (V i)"
    "\<forall>c < 59. S ! c = fsimg s ! c"
    using iappend_block_ok [OF r fb room i q k b] by (auto simp: block_post_def)
  let ?D = "demand N (L(i := L i @ ?q))" and ?s = "s\<lparr>fsimg := S, freeblock := of_nat fb'\<rparr>"
  have ik: "(i, ?k) \<in> ?D" using demand_append(1,2) [of i N L "?q", OF i k q] by (auto split: if_splits)
  have c: "59 \<le> slot S din ?k" "slot S din ?k < FSSIZE" "length S = FSSIZE" using rep_slot(1-4) [OF y(2) ik] by auto
  note io = sector_ops [of ?s x, unfolded y(3)]
  let ?S = "S[slot S din ?k := splice (S ! slot S din ?k) ?m ?q]"
  have "(q + 1) * 512 - a = 512 - r \<and> a - q * 512 = r" if "q * 512 + r = a" for a q r :: nat using that by auto
  from this [OF div_mult_mod_eq [of "length (L i)" 512]]
  have off: "(?k + 1) * BSIZE - length (L i) = BSIZE - ?m" "length (L i) - ?k * BSIZE = ?m" by blast+
  have "iappend_loop p (length (L i)) (V i) s = iappend_loop (drop n1 p) (length (L i) + n1) din (?s\<lparr>fsimg := ?S\<rparr>)"
    using p(1) k y(1) io c room off by (subst iappend_loop.simps) (simp add: Let_def n1_def [symmetric])
  moreover have "rep (V(i := din)) ?S fb' N ?D (L(i := L i @ ?q))" using rep_store(1) [OF y(2) ik k q(2)] by simp
  then have "append_post V N i (L(i := L i @ ?q)) s din (?s\<lparr>fsimg := ?S\<rparr>)"
    unfolding append_post_def using y(4,5) c(1) by (intro exI [of _ ?S] exI [of _ fb']) auto
  ultimately show ?thesis using n1(1) by blast
qed

lemma iappend_loop_ok:
  assumes "rep V (fsimg s) fb N (demand N L) L" and "freeblock s = of_nat fb" and "FSSIZE \<le> fsroom s" and "i \<in> {1..<N}"
    and "length (L i) + length p \<le> MAXFILE * BSIZE" and "59 + card (demand N (L(i := L i @ p))) \<le> FSSIZE"
  shows "\<exists>din s'. iappend_loop p (length (L i)) (V i) s = Inr (length (L i) + length p, din, s') \<and>
    append_post V N i (L(i := L i @ p)) s din s'"
  using assms
proof (induction "length p" arbitrary: p V L s fb rule: less_induct)
  case less
  show ?case
  proof (cases "p = []")
    case True
    have "s = s\<lparr>fsimg := fsimg s, freeblock := of_nat fb\<rparr>" using less.prems(2) by simp
    then show ?thesis using True less.prems(1)
      by (subst iappend_loop.simps) (simp add: append_post_def same_fields_def, intro exI [of _ "fsimg s"] exI [of _ fb], simp)
  next
    case False
    define n1 where "n1 = min (length p) (BSIZE - length (L i) mod BSIZE)"
    obtain din s1 where t: "iappend_loop p (length (L i)) (V i) s = iappend_loop (drop n1 p) (length (L i) + n1) din s1"
      "append_post V N i (L(i := L i @ take n1 p)) s din s1" "0 < n1"
      using iappend_turn [OF less.prems(1-4) False less.prems(5,6)] unfolding n1_def by blast
    let ?L = "L(i := L i @ take n1 p)"
    have n1: "n1 \<le> length p" by (simp add: n1_def)
    obtain S fb1 where s1: "s1 = s\<lparr>fsimg := S, freeblock := of_nat fb1\<rparr>" "rep (V(i := din)) S fb1 N (demand N ?L) ?L"
      "same_fields din (V i)" "\<forall>c < 59. S ! c = fsimg s ! c" using t(2) by (auto simp: append_post_def)
    have "length (drop n1 p) < length p" using t(3) n1 by simp
    from less.hyps [OF this, of "V(i := din)" s1 fb1 ?L] s1 less.prems n1
    obtain din' s' where l: "iappend_loop (drop n1 p) (length (L i) + n1) din s1 = Inr (length (L i) + length p, din', s')"
      "append_post (V(i := din)) N i (L(i := L i @ p)) s1 din' s'" by auto
    have "append_post V N i (L(i := L i @ p)) s din' s'"
      using l(2) s1 by (auto simp: append_post_def same_fields_def)
    with l(1) t(1) show ?thesis by auto
  qed
qed

section \<open>The state between the calls\<close>

definition ftype :: "nat \<Rightarrow> u16" where
  "ftype i = (if i = 1 then T_DIR else T_FILE)"

definition image_ok :: "mkfs \<Rightarrow> nat \<Rightarrow> (nat \<Rightarrow> u8 list) \<Rightarrow> bool" where
  "image_ok s N L \<longleftrightarrow> mksb s = mkfs_sb \<and> FSSIZE \<le> fsroom s \<and> freeinode s = of_nat N \<and> 1 \<le> N \<and> N \<le> 208 \<and>
     fsimg s ! 1 = sb_block mkfs_sb \<and>
     (\<exists>fb. freeblock s = of_nat fb \<and> rep (inode_at (fsimg s)) (fsimg s) fb N (demand N L) L) \<and>
     (\<forall>i \<in> {1..<N}. i_size (inode_at (fsimg s) i) = of_nat (length (L i)) \<and> length (L i) \<le> MAXFILE * BSIZE \<and>
        i_type (inode_at (fsimg s) i) = ftype i \<and> i_nlink (inode_at (fsimg s) i) = 1)"

lemma rep_len:
  assumes "rep V S fb N D L"
  shows "length S = FSSIZE" "i \<in> {1..<N} \<Longrightarrow> length (i_addrs (V i)) = NDIRECT + 1" "59 \<le> fb" "fb \<le> FSSIZE" "fb = 59 + card D"
  using assms rep_alloc [OF assms] by (simp_all add: rep_def allocated_def)

lemma rep_V: "rep V S fb N D L \<Longrightarrow> \<forall>i \<in> {1..<N}. i_addrs (V' i) = i_addrs (V i) \<Longrightarrow> rep V' S fb N D L"
proof -
  assume r: "rep V S fb N D L" and V: "\<forall>i \<in> {1..<N}. i_addrs (V' i) = i_addrs (V i)"
  have s: "slot S (V' i) k = slot S (V i) k" if "i \<in> {1..<N}" for i k using V that by (simp add: slot_def)
  have "allocated (\<lambda>(i, k). slot S (V' i) k) fb N D"
    by (rule allocated_cong [OF rep_alloc [OF r]]) (use s in \<open>auto simp: keys_def\<close>)
  moreover have "slot S (V' i) k = slot S (V i) k" if "(i, k) \<in> D" for i k using s rep_slot(5,6) [OF r that] by simp
  ultimately show ?thesis using r V by (simp add: rep_def)
qed

lemma allocated_Suc:
  assumes "allocated F fb N D" and "\<forall>k \<le> MAXFILE. F (N, k) = 0" and "1 \<le> N"
  shows "allocated F fb (Suc N) D"
proof -
  have "keys (Suc N) = keys N \<union> {N} \<times> {..MAXFILE}" using assms(3) by (auto simp: keys_def)
  then show ?thesis using assms(1,2) by (auto simp: allocated_def)
qed

text \<open>A write below the data blocks does not change the files.\<close>

lemma rep_meta:
  assumes r: "rep V S fb N D L" and c: "c < 59" and d: "length d = BSIZE"
  shows "rep V (S[c := d]) fb N D L"
proof -
  have s: "slot (S[c := d]) (V i) k = slot S (V i) k" if "i \<in> {1..<N}" for i k
    using rep_indirect [OF r that] rep_slot(1) [OF r, of i MAXFILE] c by (intro slot_upd) auto
  have "allocated (\<lambda>(i, k). slot (S[c := d]) (V i) k) fb N D"
    by (rule allocated_cong [OF rep_alloc [OF r]]) (use s in \<open>auto simp: keys_def\<close>)
  moreover have "S[c := d] ! slot (S[c := d]) (V i) k = S ! slot S (V i) k" if "(i, k) \<in> D" for i k
    using rep_slot(1,5,6) [OF r that] s c by simp
  moreover have "59 \<le> fb" using rep_alloc [OF r] by (simp add: allocated_def)
  moreover have "\<forall>b \<in> set (S[c := d]). length b = BSIZE" using r d set_update_subset_insert [of S c d] by (auto simp: rep_def)
  ultimately show ?thesis using r c by (simp add: rep_def)
qed

lemma dinode_ok_inode_at: "dinode_ok (inode_at S i)"
  using get_put_dinode [of 0 zeroes "inode_at S i" zero_dinode]
  by (simp add: inode_at_def get_dinode_def zeroes_def zero_dinode_def)

lemma dinode_ok_iff: "dinode_ok d \<longleftrightarrow> i_dev d = 0 \<and> i_inum d = 0 \<and> i_ref d = 0 \<and> \<not> i_locked d \<and> \<not> i_valid d \<and> length (i_addrs d) = 13"
  using get_put_dinode [of 0 zeroes d zero_dinode] by (cases d) (auto simp: zeroes_def zero_dinode_def)

lemma same_fields_eq:
  assumes "same_fields d d'"
  shows "i_dev d = i_dev d'" "i_inum d = i_inum d'" "i_ref d = i_ref d'" "i_locked d = i_locked d'" "i_valid d = i_valid d'"
    "i_type d = i_type d'" "i_nlink d = i_nlink d'" "i_size d = i_size d'"
  using assms unfolding same_fields_def by (metis inode.ext_inject inode.surjective inode.update_convs(11))+

lemma dinode_ops:
  assumes "mksb s = mkfs_sb" and "FSSIZE \<le> fsroom s" and "length (fsimg s) = FSSIZE" and "i < 208"
  defines "c \<equiv> 32 + i div IPB"
  shows "rinode (of_nat i) s = Inr (inode_at (fsimg s) i)"
    "winode (of_nat i) d s = Inr (s\<lparr>fsimg := (fsimg s)[c := put_dinode (fsimg s ! c) (64 * (i mod IPB)) d]\<rparr>)"
  using inode_number [OF assms(4)] assms
  by (simp_all add: rinode_def winode_def rsect_def wsect_def inode_at_def c_def Let_def)

lemma inode_at_cong: "i < 208 \<Longrightarrow> \<forall>c < 59. S' ! c = S ! c \<Longrightarrow> inode_at S' i = inode_at S i"
  using inode_number(3) [of i] by (simp add: inode_at_def)

text \<open>Writing back an inode puts it into the image.\<close>

lemma rep_winode:
  assumes r: "rep (V(i := d)) S fb N D L" and i: "i < 208" and d: "dinode_ok d" and N: "N \<le> 208"
    and V: "\<forall>j \<in> {1..<N}. j \<noteq> i \<longrightarrow> V j = inode_at S j"
  defines "S' \<equiv> S[32 + i div IPB := put_dinode (S ! (32 + i div IPB)) (64 * (i mod IPB)) d]"
  shows "rep (inode_at S') S' fb N D L" "j < 208 \<Longrightarrow> inode_at S' j = (if j = i then d else inode_at S j)"
proof -
  have S: "length S = FSSIZE" "\<forall>b \<in> set S. length b = BSIZE" using r by (simp_all add: rep_def)
  have c: "32 + i div 8 < 58" using inode_number(3) [OF i] by simp
  show u: "inode_at S' j = (if j = i then d else inode_at S j)" if "j < 208" for j
    unfolding S'_def using inode_at_upd [OF that i S d] by simp
  have "length (S ! (32 + i div 8)) = 512" using S c by simp
  then have "rep (V(i := d)) S' fb N D L" unfolding S'_def using c by (intro rep_meta [OF r]) simp_all
  then show "rep (inode_at S') S' fb N D L" by (rule rep_V) (use u V N in auto)
qed

lemma iappend_ok:
  assumes ok: "image_ok s N L" and i: "i \<in> {1..<N}" and len: "length (L i @ p) \<le> MAXFILE * BSIZE"
    and blocks: "59 + card (demand N (L(i := L i @ p))) \<le> FSSIZE"
  shows "\<exists>s'. iappend (of_nat i) p s = Inr s' \<and> image_ok s' N (L(i := L i @ p))"
proof -
  let ?V = "inode_at (fsimg s)" and ?L = "L(i := L i @ p)"
  obtain fb where st: "mksb s = mkfs_sb" "FSSIZE \<le> fsroom s" "freeblock s = of_nat fb" "rep ?V (fsimg s) fb N (demand N L) L" "N \<le> 208"
    "\<forall>j \<in> {1..<N}. i_size (?V j) = of_nat (length (L j)) \<and> length (L j) \<le> MAXFILE * BSIZE \<and> i_type (?V j) = ftype j \<and> i_nlink (?V j) = 1"
    "fsimg s ! 1 = sb_block mkfs_sb"
    using ok by (auto simp: image_ok_def)
  have i2: "i < 208" using i st(5) by simp
  have off: "unat (i_size (?V i)) = length (L i)" using st(6) i len by (simp add: unat_u32_of_nat)
  obtain din S fb' where l: "iappend_loop p (length (L i)) (?V i) s = Inr (length (L i) + length p, din, s\<lparr>fsimg := S, freeblock := of_nat fb'\<rparr>)"
    "rep (?V(i := din)) S fb' N (demand N ?L) ?L" "same_fields din (?V i)" "\<forall>c < 59. S ! c = fsimg s ! c"
    using iappend_loop_ok [OF st(4,3,2) i _ blocks] len by (auto simp: append_post_def)
  let ?s = "s\<lparr>fsimg := S, freeblock := of_nat fb'\<rparr>" and ?d = "din\<lparr>i_size := of_nat (length (L i) + length p)\<rparr>"
  let ?S = "S[32 + i div IPB := put_dinode (S ! (32 + i div IPB)) (64 * (i mod IPB)) ?d]"
  have lenS: "length S = FSSIZE" "length (i_addrs din) = 13" "length (fsimg s) = FSSIZE" using rep_len(1,2) [OF l(2)] rep_len(1) [OF st(4)] i by force+
  have e: "iappend (of_nat i) p s = Inr (?s\<lparr>fsimg := ?S\<rparr>)"
    using dinode_ops(1) [OF st(1,2) lenS(3) i2] dinode_ops(2) [of ?s i ?d] st(1,2) lenS(1) i2 l(1) off
    by (simp add: iappend_def)
  have r: "rep (?V(i := ?d)) S fb' N (demand N ?L) ?L" by (rule rep_V [OF l(2)]) simp
  have dok: "dinode_ok ?d" using dinode_ok_inode_at [of "fsimg s" i] same_fields_eq [OF l(3)] lenS(2) unfolding dinode_ok_iff by simp
  have V: "\<forall>j \<in> {1..<N}. j \<noteq> i \<longrightarrow> ?V j = inode_at S j" using inode_at_cong [OF _ l(4)] st(5) by simp
  note w = rep_winode [OF r i2 dok st(5) V]
  have "image_ok (?s\<lparr>fsimg := ?S\<rparr>) N ?L"
    unfolding image_ok_def
  proof (intro conjI)
    show "\<exists>fb. freeblock (?s\<lparr>fsimg := ?S\<rparr>) = of_nat fb \<and> rep (inode_at (fsimg (?s\<lparr>fsimg := ?S\<rparr>))) (fsimg (?s\<lparr>fsimg := ?S\<rparr>)) fb N (demand N ?L) ?L"
      using w(1) by auto
    show "\<forall>j \<in> {1..<N}. i_size (inode_at (fsimg (?s\<lparr>fsimg := ?S\<rparr>)) j) = of_nat (length (?L j)) \<and> length (?L j) \<le> MAXFILE * BSIZE \<and>
        i_type (inode_at (fsimg (?s\<lparr>fsimg := ?S\<rparr>)) j) = ftype j \<and> i_nlink (inode_at (fsimg (?s\<lparr>fsimg := ?S\<rparr>)) j) = 1"
      using w(2) V st(5,6) len i same_fields_eq [OF l(3)] by auto
  qed (use ok st(7) l(4) in \<open>auto simp: image_ok_def\<close>)
  with e show ?thesis by blast
qed

lemma ialloc_ok:
  assumes ok: "image_ok s N L" and N: "N < 208"
  shows "\<exists>s'. mkfs_ialloc (ftype N) s = Inr (of_nat N, s') \<and> image_ok s' (Suc N) (L(N := []))"
proof -
  let ?V = "inode_at (fsimg s)" and ?d = "zero_dinode\<lparr>i_type := ftype N, i_nlink := 1\<rparr>" and ?L = "L(N := [])"
  obtain fb where st: "mksb s = mkfs_sb" "FSSIZE \<le> fsroom s" "freeblock s = of_nat fb" "rep ?V (fsimg s) fb N (demand N L) L" "N \<le> 208" "1 \<le> N"
    "\<forall>j \<in> {1..<N}. i_size (?V j) = of_nat (length (L j)) \<and> length (L j) \<le> MAXFILE * BSIZE \<and> i_type (?V j) = ftype j \<and> i_nlink (?V j) = 1"
    "fsimg s ! 1 = sb_block mkfs_sb" "freeinode s = of_nat N"
    using ok by (auto simp: image_ok_def)
  let ?S = "(fsimg s)[32 + N div IPB := put_dinode (fsimg s ! (32 + N div IPB)) (64 * (N mod IPB)) ?d]"
  have D: "demand (Suc N) ?L = demand N L" by (auto simp: demand_def keys_def less_Suc_eq)
  have z: "slot S ?d k = 0" if "k \<le> MAXFILE" for S k using that by (auto simp: slot_def zero_dinode_def)
  have "allocated (\<lambda>(i, k). slot (fsimg s) ((?V(N := ?d)) i) k) fb N (demand N L)"
    by (rule allocated_cong [OF rep_alloc [OF st(4)]]) (auto simp: keys_def)
  then have "allocated (\<lambda>(i, k). slot (fsimg s) ((?V(N := ?d)) i) k) fb (Suc N) (demand N L)"
    using z st(6) by (intro allocated_Suc) simp_all
  moreover have "j \<noteq> N" if "(j, k) \<in> demand N L" for j k using that by (auto simp: demand_def keys_def)
  ultimately have r: "rep (?V(N := ?d)) (fsimg s) fb (Suc N) (demand (Suc N) ?L) ?L"
    using st(4) unfolding D rep_def by (auto simp: zero_dinode_def)
  have dok: "dinode_ok ?d" unfolding dinode_ok_iff by (simp add: zero_dinode_def)
  note w = rep_winode [OF r N dok]
  have e: "mkfs_ialloc (ftype N) s = Inr (of_nat N, s\<lparr>freeinode := of_nat (Suc N), fsimg := ?S\<rparr>)"
  proof -
    have d: "zero_dinode\<lparr>i_type := xshort (ftype N), i_nlink := xshort 1, i_size := xint 0\<rparr> = ?d" by (simp add: zero_dinode_def)
    have i: "freeinode s + 1 = of_nat (Suc N)" using st(9) by (simp add: add.commute)
    show ?thesis
      using dinode_ops(2) [of "s\<lparr>freeinode := of_nat (Suc N)\<rparr>" N ?d] st(1,2) rep_len(1) [OF st(4)] N
      unfolding mkfs_ialloc_def Let_def d i by (simp add: st(9))
  qed
  have "image_ok (s\<lparr>freeinode := of_nat (Suc N), fsimg := ?S\<rparr>) (Suc N) ?L"
    unfolding image_ok_def
  proof (intro conjI)
    show "\<exists>fb. freeblock (s\<lparr>freeinode := of_nat (Suc N), fsimg := ?S\<rparr>) = of_nat fb \<and>
        rep (inode_at (fsimg (s\<lparr>freeinode := of_nat (Suc N), fsimg := ?S\<rparr>))) (fsimg (s\<lparr>freeinode := of_nat (Suc N), fsimg := ?S\<rparr>)) fb (Suc N)
          (demand (Suc N) ?L) ?L"
      using w(1) st(3) N by auto
    show "\<forall>j \<in> {1..<Suc N}. i_size (inode_at (fsimg (s\<lparr>freeinode := of_nat (Suc N), fsimg := ?S\<rparr>)) j) = of_nat (length (?L j)) \<and>
        length (?L j) \<le> MAXFILE * BSIZE \<and> i_type (inode_at (fsimg (s\<lparr>freeinode := of_nat (Suc N), fsimg := ?S\<rparr>)) j) = ftype j \<and>
        i_nlink (inode_at (fsimg (s\<lparr>freeinode := of_nat (Suc N), fsimg := ?S\<rparr>)) j) = 1"
      using w(2) st(7) N by (auto simp: less_Suc_eq zero_dinode_def)
  qed (use st N in auto)
  with e show ?thesis by blast
qed

end
