(* ===== verification/Mkfs_Props.thy ===== *)
theory Mkfs_Props
  imports Mkfs_Inv
begin

text \<open>
  The properties of \<^verbatim>\<open>mkfs\<close>: when the files fit, the program ends with an image whose super block and bitmap describe it,
  and the kernel, given that image as its disk, finds every file by its name and reads the bytes that the host had.
\<close>

section \<open>The whole program\<close>

text \<open>The bytes of a file of the host, its name in the image, and the files of the image by inode number.\<close>

definition contents :: "(cstr \<Rightarrow> u8 list list option) \<Rightarrow> cstr \<Rightarrow> u8 list" where
  "contents host f = (case host f of None \<Rightarrow> [] | Some reads \<Rightarrow> concat (takeWhile (\<lambda>buf. buf \<noteq> []) reads))"

definition strip :: "cstr \<Rightarrow> cstr" where
  "strip f = (if peek f = 95 then tl f else f)"

definition root_dir :: "cstr list \<Rightarrow> u8 list" where
  "root_dir fs = mk_dirent 1 [46] @ mk_dirent 1 [46, 46] @ concat (map (\<lambda>j. mk_dirent (of_nat (2 + j)) (strip (fs ! j))) [0..<length fs])"

definition image_files :: "(cstr \<Rightarrow> u8 list list option) \<Rightarrow> cstr list \<Rightarrow> nat \<Rightarrow> u8 list" where
  "image_files host fs i =
     (if i = 1 then root_dir fs else if 2 \<le> i \<and> i < 2 + length fs then contents host (fs ! (i - 2)) else [])"

definition fits :: "(cstr \<Rightarrow> u8 list list option) \<Rightarrow> cstr list \<Rightarrow> bool" where
  "fits host fs \<longleftrightarrow> length fs \<le> 206 \<and>
     (\<forall>f \<in> set fs. slash \<notin> set f \<and> host f \<noteq> None \<and> length (contents host f) \<le> MAXFILE * BSIZE) \<and>
     59 + card (demand (2 + length fs) (image_files host fs)) \<le> FSSIZE"

lemma root_dir_snoc: "root_dir (fs @ [f]) = root_dir fs @ mk_dirent (of_nat (2 + length fs)) (strip f)"
proof -
  have m: "map (\<lambda>j. mk_dirent (of_nat (2 + j)) (strip ((fs @ [f]) ! j))) [0..<length fs] =
    map (\<lambda>j. mk_dirent (of_nat (2 + j)) (strip (fs ! j))) [0..<length fs]" by (intro map_cong) (simp_all add: nth_append)
  show ?thesis unfolding root_dir_def length_append_singleton upt_Suc_append [OF le0] map_append m by simp
qed

lemma length_root_dir: "length (root_dir fs) = 16 * (2 + length fs)"
proof (induction fs rule: rev_induct)
  case Nil
  then show ?case by (simp add: root_dir_def mk_dirent_fields)
next
  case (snoc f fs)
  then show ?case by (simp add: root_dir_snoc mk_dirent_fields)
qed

lemma image_files_snoc:
  "image_files host (fs @ [f]) = (image_files host fs)
     (1 := image_files host fs 1 @ mk_dirent (of_nat (2 + length fs)) (strip f), 2 + length fs := contents host f)"
  by (auto simp: fun_eq_iff image_files_def root_dir_snoc nth_append less_Suc_eq)

lemma demand_le:
  assumes "N \<le> N'" and "\<forall>i \<in> {1..<N}. length (L i) \<le> length (L' i)"
  shows "card (demand N L) \<le> card (demand N' L')"
proof (rule card_mono)
  show "finite (demand N' L')" by (rule finite_keys) (auto simp: demand_def)
  have "x < length (L' i)" if "i \<in> {1..<N}" "x < length (L i)" for x i using assms(2) that less_le_trans by blast
  then show "demand N L \<subseteq> demand N' L'" using assms(1) by (auto simp: demand_def keys_def)
qed

lemma foldE_iappend:
  assumes "image_ok s N L" and "i \<in> {1..<N}" and "length (L i @ concat rs) \<le> MAXFILE * BSIZE"
    and "59 + card (demand N (L(i := L i @ concat rs))) \<le> FSSIZE"
  shows "\<exists>s'. foldE (iappend (of_nat i)) rs s = Inr s' \<and> image_ok s' N (L(i := L i @ concat rs))"
  using assms
proof (induction rs arbitrary: s L)
  case (Cons b rs)
  have "card (demand N (L(i := L i @ b))) \<le> card (demand N (L(i := L i @ concat (b # rs))))" by (rule demand_le) auto
  then have d: "59 + card (demand N (L(i := L i @ b))) \<le> FSSIZE" using Cons.prems(4) by linarith
  obtain s1 where s1: "iappend (of_nat i) b s = Inr s1" "image_ok s1 N (L(i := L i @ b))"
    using iappend_ok [OF Cons.prems(1,2) _ d] Cons.prems(3) by auto
  have e: "(L(i := L i @ b))(i := (L(i := L i @ b)) i @ concat rs) = L(i := L i @ concat (b # rs))" by simp
  have "length ((L(i := L i @ b)) i @ concat rs) \<le> MAXFILE * BSIZE" using Cons.prems(3) by simp
  from Cons.IH [OF s1(2) Cons.prems(2) this, unfolded e, OF Cons.prems(4)] s1(1) show ?case by simp
qed auto

lemma mkfs_file_ok:
  assumes ok: "image_ok s N (image_files host fs)" and N: "N = 2 + length fs" and inp: "fits host (fs @ [f])"
  shows "\<exists>s'. mkfs_file host 1 f s = Inr s' \<and> image_ok s' (Suc N) (image_files host (fs @ [f]))"
proof -
  let ?L = "image_files host fs" and ?e = "mk_dirent (of_nat N) (strip f)"
  obtain reads where h: "host f = Some reads" "slash \<notin> set f" "length (contents host f) \<le> MAXFILE * BSIZE" "N < 208"
    and b: "59 + card (demand (Suc N) (image_files host (fs @ [f]))) \<le> FSSIZE"
    using inp N by (auto simp: fits_def)
  have L: "image_files host (fs @ [f]) = ?L(1 := ?L 1 @ ?e, N := contents host f)" using image_files_snoc N by simp
  obtain s1 where s1: "mkfs_ialloc (ftype N) s = Inr (of_nat N, s1)" "image_ok s1 (Suc N) (?L(N := []))"
    using ialloc_ok [OF ok h(4)] by blast
  let ?L1 = "?L(N := [])" and ?L2 = "(?L(N := []))(1 := ?L 1 @ ?e)"
  have "card (demand (Suc N) ?L2) \<le> card (demand (Suc N) (image_files host (fs @ [f])))"
    unfolding L using N by (intro demand_le) auto
  moreover have "length (?L 1) = 16 * N" using N by (simp add: image_files_def length_root_dir)
  ultimately obtain s2 where s2: "iappend 1 ?e s1 = Inr s2" "image_ok s2 (Suc N) ?L2"
    using iappend_ok [OF s1(2), of 1 ?e] N h(4) b by (auto simp: mk_dirent_fields)
  have "?L2(N := ?L2 N @ contents host f) = image_files host (fs @ [f])" unfolding L using N by auto
  then obtain s3 where s3: "foldE (iappend (of_nat N)) (takeWhile (\<lambda>buf. buf \<noteq> []) reads) s2 = Inr s3"
    "image_ok s3 (Suc N) (image_files host (fs @ [f]))"
    using foldE_iappend [OF s2(2), of N "takeWhile (\<lambda>buf. buf \<noteq> []) reads"] N h b by (auto simp: contents_def)
  have "unat (of_nat N :: u32) = N" using h(4) by (intro unat_u32_of_nat) simp
  then have u: "ucast (of_nat N :: u32) = (of_nat N :: u16)" by (metis of_nat_unat)
  have "ftype N = T_FILE" using N by (simp add: ftype_def)
  then have "mkfs_file host 1 f s = Inr s3"
    using h(1,2) s1(1) s2(1) s3(1) u by (simp add: mkfs_file_def strip_def)
  with s3(2) show ?thesis by blast
qed

lemma mkfs_files_ok:
  assumes "image_ok s 2 (image_files host [])" and "fits host fs"
  shows "\<exists>s'. foldE (mkfs_file host 1) fs s = Inr s' \<and> image_ok s' (2 + length fs) (image_files host fs)"
  using assms(2)
proof (induction fs rule: rev_induct)
  case Nil
  then show ?case using assms(1) by simp
next
  case (snoc f fs)
  have "card (demand (2 + length fs) (image_files host fs)) \<le> card (demand (2 + length (fs @ [f])) (image_files host (fs @ [f])))"
    unfolding image_files_snoc by (rule demand_le) auto
  then have "fits host fs" using snoc.prems by (auto simp: fits_def)
  then obtain s1 where s1: "foldE (mkfs_file host 1) fs s = Inr s1" "image_ok s1 (2 + length fs) (image_files host fs)"
    using snoc.IH by blast
  obtain s2 where "mkfs_file host 1 f s1 = Inr s2" "image_ok s2 (Suc (2 + length fs)) (image_files host (fs @ [f]))"
    using mkfs_file_ok [OF s1(2) refl snoc.prems] by blast
  then show ?case using s1(1) by (simp add: foldE_append)
qed

lemma format_ok:
  assumes "FSSIZE \<le> room"
  defines "s0 \<equiv> \<lparr>fsimg = [], fsroom = room, mksb = mkfs_sb, freeinode = 1, freeblock = nmeta\<rparr>"
  shows "\<exists>s. bindE (foldE (\<lambda>i. wsect (of_nat i) zeroes) [0..<FSSIZE] s0) (\<lambda>s1. wsect 1 (sb_block (mksb s1)) s1) = Inr s \<and>
    image_ok s 1 (\<lambda>_. [])"
proof -
  have "\<exists>s'. foldE (\<lambda>i. wsect (of_nat i) zeroes) [0..<FSSIZE] s0 = Inr s' \<and> s' = s0\<lparr>fsimg := replicate FSSIZE zeroes\<rparr>"
  proof (rule foldE_upt [where P = "\<lambda>n s. s = s0\<lparr>fsimg := replicate n zeroes\<rparr>"])
    fix i s assume i: "i < FSSIZE" and s: "s = s0\<lparr>fsimg := replicate i zeroes\<rparr>"
    have "unat (of_nat i :: u32) = i" using i unat_block [of i] by simp
    then have "sector (of_nat i) = i" using i sector_small [of "of_nat i"] by (simp add: word_less_nat_alt)
    then show "\<exists>s'. wsect (of_nat i) zeroes s = Inr s' \<and> s' = s0\<lparr>fsimg := replicate (Suc i) zeroes\<rparr>"
      using i assms(1) by (simp add: wsect_def s s0_def replicate_append_same)
  qed (simp add: s0_def)
  moreover have "sector 1 = 1" using sector_small [of 1] by simp
  moreover let ?s = "s0\<lparr>fsimg := (replicate FSSIZE zeroes)[1 := sb_block mkfs_sb]\<rparr>"
  have "length (sb_block mkfs_sb) = 512" by (simp add: sb_block_def zeroes_def)
  then have "rep (inode_at (fsimg ?s)) (fsimg ?s) 59 1 {} (\<lambda>_. [])"
    using set_update_subset_insert [of "replicate FSSIZE zeroes" 1 "sb_block mkfs_sb"]
    by (auto simp: rep_def allocated_def keys_def zeroes_def)
  moreover have "demand 1 (\<lambda>_. []) = {}" by (simp add: demand_def keys_def)
  ultimately have "image_ok ?s 1 (\<lambda>_. [])" "foldE (\<lambda>i. wsect (of_nat i) zeroes) [0..<FSSIZE] s0 = Inr (s0\<lparr>fsimg := replicate FSSIZE zeroes\<rparr>)"
    using assms(1) by (auto simp: image_ok_def s0_def intro!: exI [of _ 59])
  then show ?thesis using assms(1) \<open>sector 1 = 1\<close> by (intro exI [of _ ?s]) (simp add: wsect_def s0_def)
qed

definition image_final :: "mkfs \<Rightarrow> nat \<Rightarrow> (nat \<Rightarrow> u8 list) \<Rightarrow> bool" where
  "image_final s N L \<longleftrightarrow> fsimg s ! 1 = sb_block mkfs_sb \<and>
     (\<exists>fb. freeblock s = of_nat fb \<and> rep (inode_at (fsimg s)) (fsimg s) fb N (demand N L) L \<and>
        (\<forall>b < BPB. bit_used (fsimg s ! 58) b \<longleftrightarrow> b < fb)) \<and>
     (\<forall>i \<in> {1..<N}. i_size (inode_at (fsimg s) i) = of_nat (if i = 1 then (length (L 1) div BSIZE + 1) * BSIZE else length (L i)) \<and>
        length (L i) \<le> MAXFILE * BSIZE \<and> i_type (inode_at (fsimg s) i) = ftype i \<and> i_nlink (inode_at (fsimg s) i) = 1)"

lemma bitmap_fold:
  "length (fold (\<lambda>i d. mark_bit d i) [0..<n] zeroes) = BSIZE"
  "n \<le> BPB \<Longrightarrow> bit_used (fold (\<lambda>i d. mark_bit d i) [0..<n] zeroes) b \<longleftrightarrow> b < n"
proof -
  show len: "length (fold (\<lambda>i d. mark_bit d i) [0..<n] zeroes) = BSIZE" for n by (induction n) (simp_all add: zeroes_def)
  show "n \<le> BPB \<Longrightarrow> bit_used (fold (\<lambda>i d. mark_bit d i) [0..<n] zeroes) b \<longleftrightarrow> b < n"
  proof (induction n)
    case 0
    then show ?case by (simp add: bit_used_def zeroes_def)
  next
    case (Suc n)
    then show ?case using len [of n] by (simp add: bit_used_mark) auto
  qed
qed

lemma round_up: "len \<le> MAXFILE * BSIZE \<Longrightarrow> (of_nat len div BSIZE + 1) * BSIZE = (of_nat ((len div BSIZE + 1) * BSIZE) :: u32)"
proof -
  assume "len \<le> MAXFILE * BSIZE"
  then have "unat (of_nat len :: u32) = len" by (intro unat_u32_of_nat) simp
  then have "unat (of_nat len div 512 :: u32) = len div 512" by (simp add: unat_div)
  then have "(of_nat len div 512 :: u32) = of_nat (len div 512)" using unat_u32_of_nat [of "len div 512"] by (metis of_nat_unat ucast_id)
  then show ?thesis by (simp add: algebra_simps)
qed

text \<open>The root directory with its two first entries.\<close>

lemma root_ok:
  assumes ok: "image_ok s 1 (\<lambda>_. [])" and blocks: "59 + card (demand 2 (image_files host [])) \<le> FSSIZE"
  shows "\<exists>s3 s4 s5. mkfs_ialloc T_DIR s = Inr (1, s3) \<and> iappend 1 (mk_dirent 1 [46]) s3 = Inr s4 \<and>
    iappend 1 (mk_dirent 1 [46, 46]) s4 = Inr s5 \<and> image_ok s5 2 (image_files host [])"
proof -
  let ?L = "\<lambda>_. [] :: u8 list"
  let ?L1 = "?L(1 := mk_dirent 1 [46])" and ?L2 = "?L(1 := mk_dirent 1 [46] @ mk_dirent 1 [46, 46])"
  have L2: "?L2 = image_files host []" by (auto simp: fun_eq_iff image_files_def root_dir_def)
  have "card (demand 2 ?L1) \<le> card (demand 2 ?L2)" by (rule demand_le) auto
  then have b: "59 + card (demand 2 ?L1) \<le> FSSIZE" "59 + card (demand 2 ?L2) \<le> FSSIZE" using blocks L2 by auto
  obtain s3 where s3: "mkfs_ialloc T_DIR s = Inr (1, s3)" "image_ok s3 2 ?L"
  proof -
    have e: "?L(1 := []) = ?L" "ftype 1 = T_DIR" "Suc 1 = 2" by (auto simp: fun_eq_iff ftype_def)
    show ?thesis using ialloc_ok [OF ok, unfolded e] that by auto
  qed
  obtain s4 where s4: "iappend 1 (mk_dirent 1 [46]) s3 = Inr s4" "image_ok s4 2 ?L1"
    using iappend_ok [OF s3(2), of 1 "mk_dirent 1 [46]"] b(1) by (auto simp: mk_dirent_fields)
  obtain s5 where "iappend 1 (mk_dirent 1 [46, 46]) s4 = Inr s5" "image_ok s5 2 ?L2"
    using iappend_ok [OF s4(2), of 1 "mk_dirent 1 [46, 46]"] b(2) by (auto simp: mk_dirent_fields)
  with s3 s4 L2 show ?thesis by auto
qed

text \<open>The end of the program: the size of the root directory, and the bitmap.\<close>

lemma finish_ok:
  assumes ok: "image_ok s N L" and N: "2 \<le> N"
  shows "\<exists>din s7 s8. rinode 1 s = Inr din \<and> winode 1 (din\<lparr>i_size := (i_size din div BSIZE + 1) * BSIZE\<rparr>) s = Inr s7 \<and>
    mkfs_balloc (sint (freeblock s7)) s7 = Inr s8 \<and> image_final s8 N L"
proof -
  let ?V = "inode_at (fsimg s)"
  obtain fb where st: "mksb s = mkfs_sb" "FSSIZE \<le> fsroom s" "freeblock s = of_nat fb" "rep ?V (fsimg s) fb N (demand N L) L" "N \<le> 208"
    "\<forall>j \<in> {1..<N}. i_size (?V j) = of_nat (length (L j)) \<and> length (L j) \<le> MAXFILE * BSIZE \<and> i_type (?V j) = ftype j \<and> i_nlink (?V j) = 1"
    "fsimg s ! 1 = sb_block mkfs_sb"
    using ok by (auto simp: image_ok_def)
  let ?d = "(?V 1)\<lparr>i_size := (i_size (?V 1) div BSIZE + 1) * BSIZE\<rparr>"
  let ?S = "(fsimg s)[32 := put_dinode (fsimg s ! 32) 64 ?d]" and ?b = "fold (\<lambda>i d. mark_bit d i) [0..<fb] zeroes"
  let ?s8 = "s\<lparr>fsimg := ?S[58 := ?b]\<rparr>"
  note len = rep_len(1,3,4) [OF st(4)]
  have d: "dinode_ok ?d" using dinode_ok_inode_at [of "fsimg s" 1] unfolding dinode_ok_iff by simp
  have "rep (?V(1 := ?d)) (fsimg s) fb N (demand N L) L" by (rule rep_V [OF st(4)]) simp
  from rep_winode [OF this _ d st(5)] have w: "rep (inode_at ?S) ?S fb N (demand N L) L"
    "j < 208 \<Longrightarrow> inode_at ?S j = (if j = 1 then ?d else ?V j)" for j by auto
  have in58: "inode_at (?S[58 := ?b]) j = inode_at ?S j" if "j < 208" for j using inode_number(3) [OF that] by (simp add: inode_at_def)
  have "rep (inode_at ?S) (?S[58 := ?b]) fb N (demand N L) L" using bitmap_fold(1) by (intro rep_meta [OF w(1)]) simp_all
  then have r: "rep (inode_at (?S[58 := ?b])) (?S[58 := ?b]) fb N (demand N L) L" by (rule rep_V) (use in58 st(5) in auto)
  have io: "rinode 1 s = Inr (?V 1)" "winode 1 ?d s = Inr (s\<lparr>fsimg := ?S\<rparr>)"
    using dinode_ops [OF st(1,2) len(1), of 1] by simp_all
  have fb: "sint (of_nat fb :: u32) = int fb" using sint_small_u32 [of "of_nat fb"] unat_block [of fb] len(3) by simp
  have "sector 58 = 58" using sector_small [of 58] by simp
  then have b: "mkfs_balloc (sint (freeblock (s\<lparr>fsimg := ?S\<rparr>))) (s\<lparr>fsimg := ?S\<rparr>) = Inr ?s8"
    using st(1-3) len fb by (simp add: mkfs_balloc_def wsect_def)
  have "bit_used (?S[58 := ?b] ! 58) c \<longleftrightarrow> c < fb" for c using bitmap_fold(2) [of fb c] len by simp
  moreover have "i_size ?d = of_nat ((length (L 1) div BSIZE + 1) * BSIZE)" using st(6) N round_up [of "length (L 1)"] by simp
  ultimately have "image_final ?s8 N L"
    unfolding image_final_def using r st(3,5,6,7) N w(2) in58 by (auto simp del: of_nat_mult of_nat_add intro!: exI [of _ fb])
  with io b show ?thesis by blast
qed

lemma mkfs_main_ok:
  assumes "open_img img = Some room" and "FSSIZE \<le> room" and inp: "fits host fs"
  shows "\<exists>s. mkfs_main open_img host (img # fs) = Inr s \<and> image_final s (2 + length fs) (image_files host fs)"
proof -
  have "card (demand 2 (image_files host [])) \<le> card (demand (2 + length fs) (image_files host fs))"
    by (rule demand_le) (auto simp: image_files_def length_root_dir)
  then have b: "59 + card (demand 2 (image_files host [])) \<le> FSSIZE" using inp by (simp add: fits_def)
  obtain s1 s2 where s2: "foldE (\<lambda>i. wsect (of_nat i) zeroes) [0..<FSSIZE]
      \<lparr>fsimg = [], fsroom = room, mksb = mkfs_sb, freeinode = 1, freeblock = nmeta\<rparr> = Inr s1"
    "wsect 1 (sb_block (mksb s1)) s1 = Inr s2" "image_ok s2 1 (\<lambda>_. [])"
    using format_ok [OF assms(2)] by auto
  obtain s3 s4 s5 where r: "mkfs_ialloc T_DIR s2 = Inr (1, s3)" "iappend 1 (mk_dirent 1 [46]) s3 = Inr s4"
    "iappend 1 (mk_dirent 1 [46, 46]) s4 = Inr s5" "image_ok s5 2 (image_files host [])"
    using root_ok [OF s2(3) b] by blast
  obtain s6 where s6: "foldE (mkfs_file host 1) fs s5 = Inr s6" "image_ok s6 (2 + length fs) (image_files host fs)"
    using mkfs_files_ok [OF r(4) inp] by blast
  obtain din s7 s8 where f: "rinode 1 s6 = Inr din" "winode 1 (din\<lparr>i_size := (i_size din div BSIZE + 1) * BSIZE\<rparr>) s6 = Inr s7"
    "mkfs_balloc (sint (freeblock s7)) s7 = Inr s8" "image_final s8 (2 + length fs) (image_files host fs)"
    using finish_ok [OF s6(2)] by auto
  have "mkfs_main open_img host (img # fs) = Inr s8"
    unfolding mkfs_main_def Let_def using assms(1) s2(1,2) r s6(1) f by (simp del: mkfs_layout)
  with f(4) show ?thesis by blast
qed

section \<open>The kernel on the image\<close>

text \<open>The super block that \<^verbatim>\<open>readsb\<close> finds in a block, and a file system in memory whose blocks are those of the image.\<close>

definition sb_at :: "block \<Rightarrow> superblock" where
  "sb_at d = \<lparr>sb_size = get32 d 0, sb_nblocks = get32 d 4, sb_ninodes = get32 d 8, sb_nlog = get32 d 12,
     sb_logstart = get32 d 16, sb_inodestart = get32 d 20, sb_bmapstart = get32 d 24\<rparr>"

definition mounted :: "u32 \<Rightarrow> mkfs \<Rightarrow> 'd fs \<Rightarrow> bool" where
  "mounted dev m s \<longleftrightarrow> dev \<in> {ROOTDEV, NVMEDEV} \<and> sb_of dev s = sb_at (fcur s (dev, 1)) \<and> fheld s = {} \<and>
     (\<forall>b < FSSIZE. fcur s (dev, b) = fsimg m ! unat b)"

definition pad :: "u8 list \<Rightarrow> u8 list" where
  "pad xs = xs @ replicate (BSIZE - length xs mod BSIZE) 0"

lemma sb_at_sb_block: "sb_at (sb_block b) = b"
  by (cases b) (simp add: sb_at_def sb_block_def zeroes_def)

lemma mounted_sb: "mounted dev m s \<Longrightarrow> image_final m N L \<Longrightarrow> sb_of dev s = mkfs_sb"
  by (simp add: mounted_def image_final_def sb_at_sb_block)

lemma mounted_disk_ok:
  assumes mt: "mounted dev m s" and im: "image_final m N L"
  shows "disk_ok dev s" "b < FSSIZE \<Longrightarrow> used s dev b \<longleftrightarrow> unat b < unat (freeblock m)" "59 \<le> unat (freeblock m)"
proof -
  obtain fb where fb: "freeblock m = of_nat fb" "rep (inode_at (fsimg m)) (fsimg m) fb N (demand N L) L"
    "\<forall>b < BPB. bit_used (fsimg m ! 58) b \<longleftrightarrow> b < fb" using im by (auto simp: image_final_def)
  have u: "unat (freeblock m) = fb" using unat_block [of fb] rep_len(4) [OF fb(2)] fb(1) by simp
  have sb: "sb_of dev s = mkfs_sb" by (rule mounted_sb [OF mt im])
  have bm: "bmkey dev s = (dev, 58)" by (simp add: bmkey_def sb)
  have bc: "fcur s (dev, 58) = fsimg m ! 58" using mt by (auto simp: mounted_def)
  show us: "used s dev b \<longleftrightarrow> unat b < unat (freeblock m)" if "b < FSSIZE" for b
    using that fb(3) u by (simp add: used_def bm bc word_less_nat_alt)
  show "59 \<le> unat (freeblock m)" using u rep_len(3) [OF fb(2)] by simp
  then have "used s dev b" if "b \<le> 58" for b using us [of b] that by (simp add: word_le_nat_alt word_less_nat_alt)
  moreover have "length (fcur s (dev, b)) = 512" if "b < 1000" for b
    using fb(2) mt that by (simp add: rep_def mounted_def word_less_nat_alt)
  moreover have "dev \<in> {ROOTDEV, NVMEDEV}" "fheld s = {}" using mt by (simp_all add: mounted_def)
  ultimately show "disk_ok dev s" using bm by (simp add: disk_ok_def bitmap_ok_def sb)
qed

lemma block_arith: "q * 512 + r = a \<Longrightarrow> r < 512 \<Longrightarrow> (q + 1) * 512 = a + (512 - r)" for a q r :: nat
  by simp

lemma block_bounds: "q * 512 + r = a \<Longrightarrow> r \<noteq> 0 \<Longrightarrow> a \<le> 71680 \<Longrightarrow> (q + 1) * 512 \<le> 71680 \<and> (k * 512 < (q + 1) * 512 \<longrightarrow> 512 * k < a)"
  for a q r k :: nat
proof -
  assume a: "q * 512 + r = a" "r \<noteq> 0" "a \<le> 71680"
  have "512 * k < a" if "k * 512 < (q + 1) * 512"
  proof -
    have "k \<le> q" using that by (metis Suc_eq_plus1 less_Suc_eq_le mult_less_cancel2)
    then have "512 * k \<le> q * 512" by simp
    then show ?thesis using a by linarith
  qed
  then show ?thesis using a by auto
qed

lemma byte_at_pad: "map (byte_at xs) [0..<length xs] = xs"
  "map (byte_at xs) [0..<(length xs div BSIZE + 1) * BSIZE] = pad xs"
proof -
  show "map (byte_at xs) [0..<length xs] = xs" by (rule nth_equalityI) (simp_all add: byte_at_def)
  have "(length xs div 512 + 1) * 512 = length xs + (512 - length xs mod 512)"
    by (rule block_arith [OF div_mult_mod_eq]) simp
  then have "length (pad xs) = (length xs div 512 + 1) * 512" by (simp add: pad_def)
  moreover have "byte_at xs j = pad xs ! j" if "j < length (pad xs)" for j using that by (auto simp: byte_at_def pad_def nth_append)
  ultimately show "map (byte_at xs) [0..<(length xs div BSIZE + 1) * BSIZE] = pad xs" by (intro nth_equalityI) simp_all
qed

text \<open>An inode read from the image is a file of the kernel with the bytes that were appended to it.\<close>

lemma mounted_file:
  assumes mt: "mounted dev m s" and im: "image_final m N L" and i: "i \<in> {1..<N}" and root: "i = 1 \<longrightarrow> length (L 1) mod BSIZE \<noteq> 0"
    and ip: "ip < length (inodes s)" "i_dev (ino s ip) = dev" "i_addrs (ino s ip) = i_addrs (inode_at (fsimg m) i)"
      "i_size (ino s ip) = i_size (inode_at (fsimg m) i)" "i_type (ino s ip) = i_type (inode_at (fsimg m) i)"
  shows "whole_file dev ip s" "fbytes dev ip s = (if i = 1 then pad (L 1) else L i)"
proof -
  let ?d = "inode_at (fsimg m) i" and ?sl = "slot (fsimg m) (inode_at (fsimg m) i)"
  obtain fb where fb: "freeblock m = of_nat fb" "rep (inode_at (fsimg m)) (fsimg m) fb N (demand N L) L"
    using im by (auto simp: image_final_def)
  have u: "unat (freeblock m) = fb" using unat_block [of fb] rep_len(4) [OF fb(2)] fb(1) by simp
  note dk = mounted_disk_ok [OF mt im] and sb = mounted_sb [OF mt im]
  have K: "(i, k) \<in> keys N \<longleftrightarrow> k \<le> MAXFILE" for k using i by (simp add: keys_def)
  have D: "(i, k) \<in> demand N L \<longleftrightarrow> ?sl k \<noteq> 0" if "k \<le> MAXFILE" for k
    using rep_slot(1) [OF fb(2), of i k] rep_zero [OF fb(2), of i k] that K by fastforce
  have small: "?sl k < fb" "59 \<le> ?sl k" "fb \<le> 1000" if "?sl k \<noteq> 0" "k \<le> MAXFILE" for k
    using rep_slot(1-3) [OF fb(2), of i k] D that by auto
  have fc: "fcur s (dev, a) = fsimg m ! unat a" if "unat a < 1000" for a using mt that by (simp add: mounted_def word_less_nat_alt)
  have ind: "unat (ind_blk ip s) = ?sl MAXFILE" by (simp add: ind_blk_def ip slot_def)
  have fa: "unat (faddr ip s k) = ?sl k" if "k < MAXFILE" for k
  proof (cases "k < NDIRECT \<or> ind_blk ip s = 0")
    case True
    then show ?thesis using that by (auto simp: faddr_def ind_blk_def ip slot_def)
  next
    case False
    then have "?sl MAXFILE \<noteq> 0" using ind by (metis unat_eq_0)
    then have "unat (ind_blk ip s) < 1000" using small [of MAXFILE] ind by simp
    then show ?thesis using False fc that by (simp add: faddr_def ip slot_def) (simp add: ind_blk_def ip)
  qed
  have data: "data_blk dev s a" if "unat a = ?sl k" "a \<noteq> 0" "k \<le> MAXFILE" for a k
  proof -
    have "?sl k \<noteq> 0" using that by (simp add: unat_eq_0 flip: that(1))
    then have "59 \<le> unat a" "unat a < fb" "unat a < 1000" using small [of k] that by auto
    then show ?thesis using dk(2) [of a] u by (simp add: data_blk_def sb word_less_nat_alt)
  qed
  have inj: "k = l" if "?sl k = ?sl l" "?sl k \<noteq> 0" "k \<le> MAXFILE" "l \<le> MAXFILE" for k l
    using rep_inj(2) [OF fb(2), of i k i l] that D by auto
  have nz: "?sl k \<noteq> 0" if "k < MAXFILE" "faddr ip s k \<noteq> 0" for k using fa [OF that(1)] that(2) by (metis unat_eq_0)
  have fok: "file_ok dev ip s"
    unfolding file_ok_def
  proof (intro conjI allI impI)
    show "length (i_addrs (ino s ip)) = NDIRECT + 1" using rep_len(2) [OF fb(2) i] ip(3) by simp
    show "data_blk dev s (ind_blk ip s)" if "ind_blk ip s \<noteq> 0" using data [OF ind that] by simp
    show "data_blk dev s (faddr ip s k)" if "k < MAXFILE" "faddr ip s k \<noteq> 0" for k using data [OF fa [OF that(1)] that(2)] that(1) by simp
    show "faddr ip s k \<noteq> ind_blk ip s" if "k < MAXFILE" "faddr ip s k \<noteq> 0" for k
      using inj [of k MAXFILE] fa [OF that(1)] ind nz [OF that] that(1) by auto
    show "k = l" if "k < MAXFILE" "l < MAXFILE" "faddr ip s k \<noteq> 0" "faddr ip s k = faddr ip s l" for k l
      using inj [of k l] fa [of k] fa [of l] nz [OF that(1,3)] that by auto
  qed (use dk(1) ip in auto)
  let ?n = "if i = 1 then (length (L 1) div BSIZE + 1) * BSIZE else length (L i)"
  have final: "i_size ?d = of_nat ?n" "length (L i) \<le> MAXFILE * BSIZE" "i_type ?d = ftype i"
    using im i unfolding image_final_def by auto
  have mx: "?n \<le> MAXFILE * BSIZE" and need: "k * BSIZE < ?n \<Longrightarrow> BSIZE * k < length (L i)" for k
  proof -
    note b = block_bounds [OF div_mult_mod_eq [of "length (L 1)" 512]]
    show "?n \<le> MAXFILE * BSIZE" "k * BSIZE < ?n \<Longrightarrow> BSIZE * k < length (L i)"
      using final(2) root b [of k] by (auto split: if_splits)
  qed
  have sz: "unat (i_size (ino s ip)) = ?n" using final(1) ip(4) mx unat_u32_of_nat [of ?n] by simp
  have alloc: "?sl k \<noteq> 0 \<and> k < MAXFILE" if "k * BSIZE < ?n" for k
  proof -
    have "k < 140" using that mx by linarith
    moreover from this have "(i, k) \<in> demand N L" using need [OF that] K by (simp add: demand_def)
    ultimately show ?thesis using D [of k] by simp
  qed
  have "faddr ip s k \<noteq> 0" if "k * BSIZE < ?n" for k using alloc [OF that] fa [of k] by auto
  then show "whole_file dev ip s"
    unfolding whole_file_def sz using fok final(3) ip(5) mx by (auto simp: ftype_def)
  have "fbyte dev ip s j = byte_at (L i) j" if "j < ?n" for j
  proof -
    have "j div 512 * 512 \<le> j" by simp
    then have "j div 512 * 512 < ?n" using that by linarith
    note a = alloc [OF this]
    then have "fcur s (dev, faddr ip s (j div 512)) = blk (L i) (j div 512)"
      using fb(2) fc [of "faddr ip s (j div 512)"] fa [of "j div 512"] small [of "j div 512"] D [of "j div 512"] by (simp add: rep_def)
    then show ?thesis by (simp add: fbyte_def blk_def)
  qed
  then have "fbytes dev ip s = map (byte_at (L i)) [0..<?n]" unfolding fbytes_def sz by (intro map_cong) auto
  then show "fbytes dev ip s = (if i = 1 then pad (L 1) else L i)" using byte_at_pad by auto
qed

section \<open>From the image to the reader\<close>

text \<open>The calls by which the kernel reads a file of the root directory by its name.\<close>

definition read_by_name :: "u32 \<Rightarrow> cstr \<Rightarrow> u32 \<Rightarrow> 'd fs \<Rightarrow> (int \<times> u8 list) option result" where
  "read_by_name dev name n s =
     bindE (iget dev ROOTINO s) (\<lambda>(dp, s).
     bindE (ilock dp s) (\<lambda>s.
     bindE (dirlookup dp name s) (\<lambda>(found, s).
     case found of
       None \<Rightarrow> Inr None
     | Some (ip, _) \<Rightarrow>
         bindE (iunlock dp s) (\<lambda>s.
         bindE (ilock ip s) (\<lambda>s.
         bindE (readi ip 0 n s) (\<lambda>(r, bs, s).
         Inr (Some (r, bs))))))))"

definition root_entry :: "cstr list \<Rightarrow> nat \<Rightarrow> u8 list" where
  "root_entry fs k = (if k = 0 then mk_dirent 1 [46] else if k = 1 then mk_dirent 1 [46, 46]
     else mk_dirent (of_nat k) (strip (fs ! (k - 2))))"

lemma chunk_concat:
  "\<forall>e \<in> set es. length e = 16 \<Longrightarrow> k < length es \<Longrightarrow> chunk (concat es @ zs) k = es ! k"
proof (induction es arbitrary: k)
  case (Cons e es)
  then show ?case by (cases k) (simp_all add: chunk_def)
qed simp

lemma root_dir_entries: "root_dir fs = concat (map (root_entry fs) [0..<2 + length fs])"
proof -
  have "[0..<2 + length fs] = 0 # 1 # map (\<lambda>j. 2 + j) [0..<length fs]"
  proof -
    have "[0..<2 + length fs] = [0..<2] @ [2..<2 + length fs]" by (rule upt_add_eq_append) simp
    moreover have "[0..<2] = [0, 1 :: nat]" by (simp add: numeral_2_eq_2)
    moreover have "[2..<2 + length fs] = map (\<lambda>j. 2 + j) [0..<length fs]" using map_add_upt [of 2 "length fs"] by (simp add: add.commute)
    ultimately show ?thesis by simp
  qed
  then show ?thesis by (simp add: root_dir_def root_entry_def comp_def)
qed

lemma chunk_root:
  "k < 2 + length fs \<Longrightarrow> chunk (pad (root_dir fs)) k = root_entry fs k"
  "2 + length fs \<le> k \<Longrightarrow> de_inum (chunk (pad (root_dir fs)) k) = 0"
proof -
  have e: "\<forall>e \<in> set (map (root_entry fs) [0..<2 + length fs]). length e = 16"
    by (auto simp: root_entry_def mk_dirent_fields)
  show "k < 2 + length fs \<Longrightarrow> chunk (pad (root_dir fs)) k = root_entry fs k"
    unfolding pad_def root_dir_entries using chunk_concat [OF e, of k] by (simp del: upt_Suc)
  assume k: "2 + length fs \<le> k"
  then have "get8 (chunk (pad (root_dir fs)) k) j = 0" for j
    unfolding get8_def chunk_def pad_def using length_root_dir [of fs] by (auto simp: nth_append)
  then show "de_inum (chunk (pad (root_dir fs)) k) = 0" by (simp add: de_inum_def get16_def)
qed

lemma iget_new:
  assumes "\<forall>ip < NINODE. \<not> (i_ref (ino s ip) > 0 \<and> i_dev (ino s ip) = dev \<and> i_inum (ino s ip) = inum)"
    and "jp < NINODE" and "i_ref (ino s jp) = 0" and "\<forall>ip < jp. i_ref (ino s ip) \<noteq> 0"
  shows "iget dev inum s = Inr (jp, upd_ino jp (\<lambda>i. i\<lparr>i_dev := dev, i_inum := inum, i_ref := 1, i_valid := False\<rparr>) s)"
proof -
  have "find (\<lambda>ip. i_ref (ino s ip) > 0 \<and> i_dev (ino s ip) = dev \<and> i_inum (ino s ip) = inum) [0..<NINODE] = None"
    unfolding find_None_iff using assms(1) by auto
  moreover have "find (\<lambda>ip. i_ref (ino s ip) = 0) [0..<NINODE] = Some jp"
    unfolding find_Some_iff using assms(2-4) by (intro exI [of _ jp]) simp
  ultimately show ?thesis by (simp add: iget_def)
qed

lemma ilock_sb: "ilock ip s = Inr s' \<Longrightarrow> sb_of dev s' = sb_of dev s"
  by (auto simp: ilock_def fbread_def fbrelse_def upd_ino_def sb_of_def Let_def split: if_splits prod.splits)

text \<open>Locking an inode for the first time brings it in from the image.\<close>

lemma ilock_image:
  assumes t: "tx dev (Suc h) n s" and mt: "mounted dev m s" and im: "image_final m N L" "N \<le> 208" and i: "i \<in> {1..<N}"
    and ip: "ip < length (inodes s)" "i_dev (ino s ip) = dev" "i_inum (ino s ip) = of_nat i" "\<not> i_locked (ino s ip)"
      "i_ref (ino s ip) = 1" "\<not> i_valid (ino s ip)"
    and root: "i = 1 \<longrightarrow> length (L 1) mod BSIZE \<noteq> 0"
  shows "\<exists>s'. ilock ip s = Inr s' \<and> tx dev (Suc h) n s' \<and> mounted dev m s' \<and> whole_file dev ip s' \<and>
    fbytes dev ip s' = (if i = 1 then pad (L 1) else L i) \<and> i_type (ino s' ip) = ftype i \<and>
    i_dev (ino s' ip) = dev \<and> i_inum (ino s' ip) = of_nat i \<and> i_ref (ino s' ip) = 1 \<and> i_locked (ino s' ip) \<and>
    (\<forall>jp. jp \<noteq> ip \<longrightarrow> ino s' jp = ino s jp) \<and> length (inodes s') = length (inodes s)"
proof -
  have sb: "sb_of dev s = mkfs_sb" by (rule mounted_sb [OF mt im(1)])
  have i2: "i < 208" using i im(2) by simp
  have dk: "disk_ok dev s" "bitmap_ok dev s" using mounted_disk_ok(1) [OF mt im(1)] by (simp_all add: disk_ok_def)
  let ?b = "inode_blk dev (of_nat i) s" and ?d = "inode_at (fsimg m) i"
  have b: "sector ?b = 32 + i div 8" "32 + i div 8 < 58" using inode_number [OF i2] by (simp_all add: inode_blk_def sb)
  have "unat (of_nat i :: u32) = i" using i2 by (intro unat_u32_of_nat) simp
  then have "unat (of_nat i div 8 :: u32) = i div 8" by (simp add: unat_div)
  then have ub: "unat ?b = 32 + i div 8" using unat_u32_add [of "of_nat i div 8" 32] b(2) by (simp add: inode_blk_def IBLOCK_def sb)
  then have bl: "?b < 58" "?b < FSSIZE" using b(2) by (simp_all add: word_less_nat_alt)
  then have fc: "fcur s (dev, ?b) = fsimg m ! (32 + i div 8)" using mt ub by (simp add: mounted_def)
  have len: "length (fcur s (dev, ?b)) = 512" using dk(1) bl by (simp add: disk_ok_def sb)
  have "fheld s = {}" using mt by (simp add: mounted_def)
  then have iok: "inode_ok dev ip s" using ip(1-3) bl(1) len by (simp add: inode_ok_def sb)
  let ?i = "get_dinode (fcur s (dev, inode_blk dev (i_inum (ino s ip)) s)) (dinode_off (i_inum (ino s ip)))
    (ino s ip)\<lparr>i_locked := True, i_valid := True\<rparr>"
  have d: "i_addrs ?i = i_addrs ?d" "i_size ?i = i_size ?d" "i_type ?i = i_type ?d"
    using ip(3) fc inode_number(2) [OF i2] by (simp_all add: get_dinode_def inode_at_def)
  have ty: "i_type ?d = ftype i" using im(1) i by (simp add: image_final_def)
  then have "i_type ?i \<noteq> 0" using d(3) by (simp add: ftype_def)
  from ilock_ok [OF t iok dk(2) ip(4) _ ip(6) this] ip(5)
  obtain s' where s': "ilock ip s = Inr s'" "tx dev (Suc h) n s'" "ino s' ip = ?i" "fcur s' = fcur s" "fheld s' = fheld s"
    "\<forall>jp. jp \<noteq> ip \<longrightarrow> ino s' jp = ino s jp" "length (inodes s') = length (inodes s)" by auto
  have mt': "mounted dev m s'" using mt s'(4,5) ilock_sb [OF s'(1)] by (simp add: mounted_def)
  have f: "i_dev (ino s' ip) = dev" "i_inum (ino s' ip) = of_nat i" "i_ref (ino s' ip) = 1" "i_locked (ino s' ip)"
    using s'(3) ip by (simp_all add: get_dinode_def)
  have "whole_file dev ip s'" "fbytes dev ip s' = (if i = 1 then pad (L 1) else L i)"
    using mounted_file [OF mt' im(1) i root _ f(1)] s'(3,7) d ip(1) by simp_all
  with s' mt' f d(3) ty show ?thesis by auto
qed

section \<open>The room a file takes\<close>

definition cost :: "nat \<Rightarrow> nat" where
  "cost n = (n + (BSIZE - 1)) div BSIZE + (if NDIRECT * BSIZE < n then 1 else 0)"

definition mkfs_input_ok :: "(cstr \<Rightarrow> u8 list list option) \<Rightarrow> cstr list \<Rightarrow> bool" where
  "mkfs_input_ok host fs \<longleftrightarrow> length fs \<le> 206 \<and>
     (\<forall>f \<in> set fs. slash \<notin> set f \<and> 0 \<notin> set f \<and> host f \<noteq> None \<and> length (contents host f) \<le> MAXFILE * BSIZE) \<and>
     59 + cost (16 * (2 + length fs)) + sum_list (map (\<lambda>f. cost (length (contents host f))) fs) \<le> FSSIZE"

lemma card_slots:
  assumes "n \<le> MAXFILE * BSIZE"
  shows "card {k. k \<le> MAXFILE \<and> BSIZE * (if k = MAXFILE then NDIRECT else k) < n} = cost n"
proof -
  define q where "q = (n + 511) div 512"
  have lt: "512 * k < n \<longleftrightarrow> k < q" for k
    unfolding q_def using less_eq_div_iff_mult_less_eq [of 512 "Suc k" "n + 511"] by (auto simp: Suc_le_eq)
  have q: "q \<le> 140" using assms unfolding q_def by linarith
  have "{k. k \<le> MAXFILE \<and> BSIZE * (if k = MAXFILE then NDIRECT else k) < n} = {..<q} \<union> (if 12 < q then {140} else {})"
  proof (rule set_eqI)
    fix k show "k \<in> {k. k \<le> MAXFILE \<and> BSIZE * (if k = MAXFILE then NDIRECT else k) < n} \<longleftrightarrow> k \<in> {..<q} \<union> (if 12 < q then {140} else {})"
      unfolding mem_Collect_eq lt using q by (cases "k = 140") auto
  qed
  moreover have "card ({..<q} \<union> (if 12 < q then {140} else {})) = q + (if 12 < q then 1 else 0)"
    using q by (cases "12 < q") simp_all
  moreover have "12 < q \<longleftrightarrow> NDIRECT * BSIZE < n" using lt [of 12] by simp
  ultimately show ?thesis by (simp add: cost_def q_def)
qed

lemma card_demand:
  assumes "\<forall>i \<in> {1..<N}. length (L i) \<le> MAXFILE * BSIZE"
  shows "card (demand N L) = (\<Sum>i \<in> {1..<N}. cost (length (L i)))"
proof -
  have "demand N L = Sigma {1..<N} (\<lambda>i. {k. k \<le> MAXFILE \<and> BSIZE * (if k = MAXFILE then NDIRECT else k) < length (L i)})"
    by (auto simp: demand_def keys_def)
  then show ?thesis using assms card_slots by (simp add: card_SigmaI)
qed

lemma mkfs_input_fits:
  assumes "mkfs_input_ok host fs"
  shows "fits host fs" "card (demand (2 + length fs) (image_files host fs)) =
    cost (16 * (2 + length fs)) + sum_list (map (\<lambda>f. cost (length (contents host f))) fs)"
proof -
  let ?L = "image_files host fs"
  have fs: "length fs \<le> 206" "\<forall>f \<in> set fs. length (contents host f) \<le> MAXFILE * BSIZE" using assms by (auto simp: mkfs_input_ok_def)
  have root: "length (?L 1) = 16 * (2 + length fs)" by (simp add: image_files_def length_root_dir)
  have "\<forall>i \<in> {1..<2 + length fs}. length (?L i) \<le> MAXFILE * BSIZE"
    using fs by (auto simp: image_files_def length_root_dir)
  then have "card (demand (2 + length fs) ?L) = (\<Sum>i \<in> {1..<2 + length fs}. cost (length (?L i)))" by (rule card_demand)
  also have "{1..<2 + length fs} = insert 1 ((\<lambda>j. 2 + j) ` {0..<length fs})" by (auto simp: image_iff Bex_def) presburger
  also have "(\<Sum>i \<in> insert 1 ((\<lambda>j. 2 + j) ` {0..<length fs}). cost (length (?L i))) =
      cost (length (?L 1)) + (\<Sum>j \<in> {0..<length fs}. cost (length (?L (2 + j))))"
  proof -
    have "(\<Sum>i \<in> (\<lambda>j. 2 + j) ` {0..<length fs}. cost (length (?L i))) = (\<Sum>j \<in> {0..<length fs}. cost (length (?L (2 + j))))"
      by (subst sum.reindex) (simp_all add: inj_on_def)
    then show ?thesis by (subst sum.insert) auto
  qed
  also have "(\<Sum>j \<in> {0..<length fs}. cost (length (?L (2 + j)))) = sum_list (map (\<lambda>f. cost (length (contents host f))) fs)"
    by (simp add: image_files_def sum_list_sum_nth)
  finally show c: "card (demand (2 + length fs) ?L) =
    cost (16 * (2 + length fs)) + sum_list (map (\<lambda>f. cost (length (contents host f))) fs)"
    by (simp only: root)
  show "fits host fs" using assms unfolding fits_def mkfs_input_ok_def c by auto
qed

section \<open>Properties\<close>

text \<open>
  C25. \<^verbatim>\<open>mkfs\<close> ends and builds a consistent image.  When the image can have its 1000 sectors, there are at most 206 files, each
  can be read and fits into the blocks an inode can list, and all of them with their indirect blocks and the root directory fit
  behind the first 59 sectors, then the program succeeds; sector 1 holds the super block, the next free block is 59 plus the number
  of blocks that the files need, and the bitmap marks exactly the blocks below it as used.
\<close>

theorem mkfs_builds:
  assumes "open_img img = Some room" and "FSSIZE \<le> room" and "mkfs_input_ok host fs"
  shows "\<exists>m. mkfs_main open_img host (img # fs) = Inr m \<and> length (fsimg m) = FSSIZE \<and> sb_at (fsimg m ! 1) = mkfs_sb \<and>
    unat (freeblock m) = 59 + cost (16 * (2 + length fs)) + sum_list (map (\<lambda>f. cost (length (contents host f))) fs) \<and>
    (\<forall>b < BPB. bit_used (fsimg m ! 58) b = (b < unat (freeblock m)))"
proof -
  note fit = mkfs_input_fits [OF assms(3)]
  obtain m where m: "mkfs_main open_img host (img # fs) = Inr m" "image_final m (2 + length fs) (image_files host fs)"
    using mkfs_main_ok [of open_img img room host fs, OF assms(1,2) fit(1)] by blast
  then obtain fb where fb: "freeblock m = of_nat fb" "rep (inode_at (fsimg m)) (fsimg m) fb (2 + length fs)
      (demand (2 + length fs) (image_files host fs)) (image_files host fs)"
    "\<forall>b < BPB. bit_used (fsimg m ! 58) b \<longleftrightarrow> b < fb" by (auto simp: image_final_def)
  have "unat (freeblock m) = fb" using fb(1) unat_block [of fb] rep_len(4) [OF fb(2)] by simp
  then show ?thesis
    using m fb rep_len(1,5) [OF fb(2)] fit(2) by (simp add: image_final_def sb_at_sb_block del: mkfs_layout)
qed

lemma small_number:
  assumes "i < 256"
  shows "(ucast (of_nat i :: u16) :: u32) = of_nat i" "(of_nat i :: u32) = 1 \<longleftrightarrow> i = 1"
proof -
  have "unat (of_nat i :: u16) = i" using assms by (simp add: unat_of_nat take_bit_nat_eq_self_iff less_trans [of _ 256])
  then show "(ucast (of_nat i :: u16) :: u32) = of_nat i" by (metis of_nat_unat)
  show "(of_nat i :: u32) = 1 \<longleftrightarrow> i = 1" using unat_u32_of_nat [of i] assms by (auto dest: arg_cong [of _ _ unat])
qed

lemma mounted_cong:
  "fcur s' = fcur s \<Longrightarrow> fheld s' = fheld s \<Longrightarrow> sb_of dev s' = sb_of dev s \<Longrightarrow> mounted dev m s' \<longleftrightarrow> mounted dev m s"
  by (simp only: mounted_def)

lemma mounted_upd_ino: "mounted dev m (upd_ino ip f s) \<longleftrightarrow> mounted dev m s"
  by (rule mounted_cong) (simp_all add: sb_of_def upd_ino_def fcur_def fheld_def)

text \<open>The root directory, locked, and its entries.\<close>

lemma lock_root:
  assumes im: "image_final m (2 + length fs) (image_files host fs)" and N: "length fs \<le> 206" "length fs mod 32 \<noteq> 30"
    and t: "tx dev (Suc h) t s" and mt: "mounted dev m s" and len: "length (inodes s) = NINODE"
    and fresh: "\<forall>ip < NINODE. i_ref (ino s ip) = 0 \<and> \<not> i_locked (ino s ip)"
  shows "\<exists>s1 s2. iget dev ROOTINO s = Inr (0, s1) \<and> ilock 0 s1 = Inr s2 \<and> tx dev (Suc h) t s2 \<and> mounted dev m s2 \<and>
    dir_ok dev 0 s2 \<and> ent dev 0 s2 = chunk (pad (root_dir fs)) \<and> 2 + length fs \<le> nents 0 s2 \<and>
    i_dev (ino s2 0) = dev \<and> i_inum (ino s2 0) = 1 \<and> i_ref (ino s2 0) = 1 \<and> i_locked (ino s2 0) \<and>
    (\<forall>jp. jp \<noteq> 0 \<longrightarrow> ino s2 jp = ino s jp) \<and> length (inodes s2) = NINODE"
proof -
  let ?L = "image_files host fs"
  let ?s1 = "upd_ino 0 (\<lambda>i. i\<lparr>i_dev := dev, i_inum := 1, i_ref := 1, i_valid := False\<rparr>) s"
  have root: "length (?L 1) mod 512 \<noteq> 0"
  proof -
    have "16 * (2 + length fs) mod 512 = 16 * ((2 + length fs) mod 32)" using mult_mod_right [of 16 "2 + length fs" 32] by simp
    moreover have "(2 + length fs) mod 32 \<noteq> 0" using N(2) by presburger
    ultimately show ?thesis by (simp add: image_files_def length_root_dir)
  qed
  have g: "iget dev 1 s = Inr (0, ?s1)" using fresh by (intro iget_new) auto
  have mt1: "mounted dev m ?s1" using mt by (simp only: mounted_upd_ino)
  have i1: "ino ?s1 0 = (ino s 0)\<lparr>i_dev := dev, i_inum := 1, i_ref := 1, i_valid := False\<rparr>" "length (inodes ?s1) = 50"
    using len by (simp_all add: upd_ino_def ino_def)
  have ne: "inodes s \<noteq> []" using len by auto
  obtain s2 where s2: "ilock 0 ?s1 = Inr s2" "tx dev (Suc h) t s2" "mounted dev m s2" "whole_file dev 0 s2"
    "fbytes dev 0 s2 = pad (?L 1)" "i_type (ino s2 0) = T_DIR" "i_dev (ino s2 0) = dev" "i_inum (ino s2 0) = 1" "i_ref (ino s2 0) = 1"
    "i_locked (ino s2 0)" "\<forall>jp. jp \<noteq> 0 \<longrightarrow> ino s2 jp = ino ?s1 jp" "length (inodes s2) = length (inodes ?s1)"
    using ilock_image [of dev h t ?s1 m "2 + length fs" ?L 1 0] t mt1 im N(1) i1 fresh root ne by (auto simp: ftype_def)
  have "length (pad (?L 1)) = (length (?L 1) div 512 + 1) * 512" using byte_at_pad(2) [of "?L 1"] by (metis length_map length_upt diff_zero)
  then have sz: "unat (i_size (ino s2 0)) = (length (?L 1) div 512 + 1) * 512" using arg_cong [OF s2(5), of length] by (simp add: fbytes_def)
  then have "dir_ok dev 0 s2" using s2(4,6) mult_mod_right [of 16 "(length (?L 1) div 512 + 1) * 32" 1] unfolding dir_ok_def sz by (auto simp: mod_mult_right_eq)
  moreover have "ent dev 0 s2 = chunk (pad (root_dir fs))" using s2(5) by (simp add: fun_eq_iff ent_def image_files_def)
  moreover have "2 + length fs \<le> nents 0 s2"
    unfolding nents_def sz by (simp add: image_files_def length_root_dir)
  ultimately show ?thesis using g s2 i1(2) by (intro exI [of _ ?s1] exI [of _ s2]) auto
qed

text \<open>The name of the file is found at its entry, and nowhere before.\<close>

lemma find_name:
  assumes "k < length fs" and "\<forall>f \<in> set fs. 0 \<notin> set f" and "length fs \<le> 206" and "2 + length fs \<le> n"
    and "\<forall>j < length fs. j \<noteq> k \<longrightarrow> take DIRSIZ (strip (fs ! j)) \<noteq> take DIRSIZ (strip (fs ! k))"
    and "take DIRSIZ (strip (fs ! k)) \<notin> {[46], [46, 46]}"
  shows "find (\<lambda>j. matches (strip (fs ! k)) (chunk (pad (root_dir fs)) j)) [0..<n] = Some (2 + k)"
    "de_inum (chunk (pad (root_dir fs)) (2 + k)) = of_nat (2 + k)"
proof -
  have nz: "0 \<notin> set (strip f)" if "f \<in> set fs" for f
    using assms(2) that by (cases f) (auto simp: strip_def)
  have inz: "(of_nat (2 + j) :: u16) \<noteq> 0" if "j < length fs" for j
  proof
    assume "(of_nat (2 + j) :: u16) = 0"
    then have "2 ^ LENGTH(16) dvd 2 + j" by (simp only: word_of_nat_eq_0_iff)
    then show False using that assms(3) dvd_imp_le [of "2 ^ 16" "2 + j"] by simp
  qed
  let ?m = "\<lambda>j. matches (strip (fs ! k)) (chunk (pad (root_dir fs)) j)"
  have self: "?m (2 + k)" using chunk_root(1) [of "2 + k" fs] matches_mk_dirent [OF inz nz nz, of k "fs ! k" "fs ! k"] assms(1)
    by (simp add: root_entry_def)
  have before: "\<not> ?m j" if "j < 2 + k" for j
  proof -
    have c: "chunk (pad (root_dir fs)) j = root_entry fs j" using chunk_root(1) [of j fs] that assms(1) by simp
    have "j = 0 \<or> j = 1 \<or> (\<exists>i < k. j = 2 + i)" using that by presburger
    then consider "j = 0" | "j = 1" | i where "j = 2 + i" "i < k" by blast
    then show ?thesis
    proof cases
      case 3
      then have "take DIRSIZ (strip (fs ! i)) \<noteq> take DIRSIZ (strip (fs ! k))" using assms(1,5) by auto
      then show ?thesis unfolding c using 3 matches_mk_dirent [OF inz nz nz, of i "fs ! k" "fs ! i"] assms(1) by (simp add: root_entry_def)
    qed (use matches_mk_dirent [OF _ nz, of 1 "fs ! k" "[46]"] matches_mk_dirent [OF _ nz, of 1 "fs ! k" "[46, 46]"] assms(1,6) c in \<open>auto simp: root_entry_def\<close>)
  qed
  show "find ?m [0..<n] = Some (2 + k)"
    unfolding find_Some_iff using self before assms(1,4) by (intro exI [of _ "2 + k"]) simp
  show "de_inum (chunk (pad (root_dir fs)) (2 + k)) = of_nat (2 + k)"
    using chunk_root(1) [of "2 + k" fs] assms(1) by (simp add: root_entry_def mk_dirent_fields)
qed

text \<open>
  C14. The kernel reads what \<^verbatim>\<open>mkfs\<close> wrote.  Let the kernel use the image as a disk, within a transaction and with an empty inode
  cache.  Then for every file, unless another one agrees with it in the first \<^verbatim>\<open>DIRSIZ\<close> bytes of the name, getting and locking the
  root inode, \<^verbatim>\<open>dirlookup\<close> of its name (without the leading underscore), locking the inode that this finds and \<^verbatim>\<open>readi\<close> from offset 0
  return the bytes that the host had, cut to the number asked for.  The root directory must not fill its blocks exactly: \<open>mkfs_root_hole\<close>.
\<close>

theorem mkfs_readable:
  assumes "open_img img = Some room" and "FSSIZE \<le> room" and "mkfs_input_ok host fs" and "mkfs_main open_img host (img # fs) = Inr m"
    and "tx dev (Suc h) t s" and "mounted dev m s" and "length (inodes s) = NINODE"
    and "\<forall>ip < NINODE. i_ref (ino s ip) = 0 \<and> \<not> i_locked (ino s ip)"
    and "k < length fs" and "\<forall>j < length fs. j \<noteq> k \<longrightarrow> take DIRSIZ (strip (fs ! j)) \<noteq> take DIRSIZ (strip (fs ! k))"
    and "take DIRSIZ (strip (fs ! k)) \<notin> {[46], [46, 46]}" and "length fs mod 32 \<noteq> 30"
  shows "read_by_name dev (strip (fs ! k)) n s =
    Inr (Some (int (length (take (unat n) (contents host (fs ! k)))), take (unat n) (contents host (fs ! k))))"
proof -
  let ?N = "2 + length fs" and ?L = "image_files host fs" and ?name = "strip (fs ! k)" and ?r = "take (unat n) (contents host (fs ! k))"
  have fs: "length fs \<le> 206" "\<forall>f \<in> set fs. 0 \<notin> set f" using assms(3) by (auto simp: mkfs_input_ok_def)
  have im: "image_final m ?N ?L"
    using mkfs_main_ok [of open_img img room host fs, OF assms(1,2) mkfs_input_fits(1) [OF assms(3)]] assms(4) by auto
  obtain s1 s2 where s2: "iget dev ROOTINO s = Inr (0, s1)" "ilock 0 s1 = Inr s2" "tx dev (Suc h) t s2" "mounted dev m s2"
    "dir_ok dev 0 s2" "ent dev 0 s2 = chunk (pad (root_dir fs))" "?N \<le> nents 0 s2" "i_dev (ino s2 0) = dev"
    "i_inum (ino s2 0) = 1" "i_ref (ino s2 0) = 1" "i_locked (ino s2 0)" "\<forall>jp. jp \<noteq> 0 \<longrightarrow> ino s2 jp = ino s jp" "length (inodes s2) = NINODE"
    using lock_root [OF im fs(1) assms(12,5-8)] by blast
  define w :: u32 where "w = of_nat (2 + k)"
  have u: "ucast (of_nat (2 + k) :: u16) = w" "w \<noteq> 1" unfolding w_def using small_number [of "2 + k"] fs(1) assms(9) by auto
  note fn = find_name [OF assms(9) fs(2,1) s2(7) assms(10,11)]
  obtain s3 where s3: "dirlookup 0 ?name s2 = bindE (iget dev w s3) (\<lambda>(ip, s). Inr (Some (ip, of_nat (16 * (2 + k))), s))"
    "tx dev (Suc h) t s3" "fcur s3 = fcur s2" "keeps s2 s3"
    by (rule dirlookup_ok [OF s2(3,5), of ?name, unfolded s2(6) fn option.case u]) (use s2(4) in \<open>simp add: mounted_def\<close>, rule that)
  note ks = keeps_fields [OF s3(4)]
  let ?s4 = "upd_ino 1 (\<lambda>i. i\<lparr>i_dev := dev, i_inum := w, i_ref := 1, i_valid := False\<rparr>) s3"
  let ?s5 = "upd_ino 0 (\<lambda>i. i\<lparr>i_locked := False\<rparr>) ?s4"
  have g: "iget dev w s3 = Inr (1, ?s4)"
  proof (rule iget_new)
    show "\<forall>ip < NINODE. \<not> (i_ref (ino s3 ip) > 0 \<and> i_dev (ino s3 ip) = dev \<and> i_inum (ino s3 ip) = w)"
    proof (intro allI impI)
      fix ip :: nat assume "ip < NINODE"
      then show "\<not> (i_ref (ino s3 ip) > 0 \<and> i_dev (ino s3 ip) = dev \<and> i_inum (ino s3 ip) = w)"
        using assms(8) s2(9,12) ks(6) u(2) by (cases "ip = 0") auto
    qed
  qed (use assms(8) s2(10,12) ks(6) in auto)
  have ul: "iunlock 0 ?s4 = Inr ?s5" using s2(10,11) ks(6) by (simp add: iunlock_def)
  have mt: "mounted dev m ?s5" using s2(4) mounted_cong [OF s3(3) ks(4,5)] by (simp only: mounted_upd_ino)
  have i5: "1 < length (inodes ?s5)" "i_dev (ino ?s5 1) = dev" "i_inum (ino ?s5 1) = of_nat (2 + k)" "\<not> i_locked (ino ?s5 1)"
    "i_ref (ino ?s5 1) = 1" "\<not> i_valid (ino ?s5 1)"
    using s2(12,13) ks(3,6) assms(8) by (simp_all add: w_def)
  have "tx dev (Suc h) t ?s5" "2 + k \<in> {1..<?N}" "?N \<le> 208" "2 + k = 1 \<longrightarrow> length (?L 1) mod 512 \<noteq> 0" using s3(2) fs(1) assms(9) by auto
  from ilock_image [OF this(1) mt im this(3,2) i5 this(4)]
  obtain s6 where s6: "ilock 1 ?s5 = Inr s6" "tx dev (Suc h) t s6" "mounted dev m s6" "whole_file dev 1 s6" "fbytes dev 1 s6 = ?L (2 + k)"
    by auto
  have "fheld s6 = {}" using s6(3) by (simp add: mounted_def)
  from readi_ok [OF s6(2,4) this, of 0 n] obtain s7 where "readi 1 0 n s6 = Inr (int (length ?r), ?r, s7)"
    using s6(5) assms(9) by (auto simp: image_files_def)
  then show ?thesis using s2(1,2) s3(1) g ul s6(1) by (simp add: read_by_name_def)
qed

lemma mkfs_root_hole:
  assumes "open_img img = Some room" and "FSSIZE \<le> room" and "mkfs_input_ok host fs" and "length fs mod 32 = 30"
  shows "\<exists>m. mkfs_main open_img host (img # fs) = Inr m \<and>
    (let d = inode_at (fsimg m) 1; b = (2 + length fs) div 32 in unat (i_size d) = (b + 1) * BSIZE \<and> slot (fsimg m) d b = 0)"
proof -
  let ?N = "2 + length fs" and ?L = "image_files host fs"
  obtain m where m: "mkfs_main open_img host (img # fs) = Inr m" "image_final m ?N ?L"
    using mkfs_main_ok [of open_img img room host fs, OF assms(1,2) mkfs_input_fits(1) [OF assms(3)]] by blast
  have n: "length fs \<le> 206" using assms(3) by (simp add: mkfs_input_ok_def)
  define b where "b = ?N div 32"
  have "2 + n = 32 * Suc q" if "q * 32 + r = n" "r = 30" for n q r :: nat using that by simp
  from this [OF div_mult_mod_eq assms(4)] have N: "?N = 32 * b" by (simp only: b_def nonzero_mult_div_cancel_left)
  have b: "b < 140" using n by (simp add: b_def)
  have L: "length (?L 1) = BSIZE * b" using N by (simp add: image_files_def length_root_dir)
  then have "i_size (inode_at (fsimg m) 1) = of_nat ((b + 1) * BSIZE)" using m(2) by (simp add: image_final_def)
  moreover have "unat (of_nat ((b + 1) * BSIZE) :: u32) = (b + 1) * BSIZE" using b by (intro unat_u32_of_nat) simp
  moreover have "(1, b) \<notin> demand ?N ?L" using L b by (simp add: demand_def)
  moreover have "(1, b) \<in> keys ?N" using b by (simp add: keys_def)
  ultimately show ?thesis
    using m rep_zero [of "inode_at (fsimg m)" "fsimg m" _ ?N "demand ?N ?L" ?L 1 b] unfolding image_final_def b_def [symmetric] Let_def by auto
qed

section \<open>An instance\<close>

definition one_file :: "cstr \<Rightarrow> u8 list list option" where
  "one_file f = (if f = [95, 97] then Some [[1, 2, 3], [4], []] else None)"

definition booted :: "mkfs \<Rightarrow> unit fs" where
  "booted m = demo\<lparr>sb := mkfs_sb, nvmesb := mkfs_sb, inodes := replicate NINODE zero_dinode,
     lg := (lg demo)\<lparr>cache := binit (zero_bcache\<lparr>disk := \<lambda>k. fsimg m ! unat (snd k)\<rparr>)\<rparr>\<rparr>"

lemma one_file_ok: "mkfs_input_ok one_file [[95, 97]]" "contents one_file [95, 97] = [1, 2, 3, 4]"
  by (simp_all add: mkfs_input_ok_def contents_def one_file_def cost_def)

lemma booted_cache: "fcur (booted m) = (\<lambda>k. fsimg m ! unat (snd k))" "fheld (booted m) = {}" "tx 1 (Suc 0) 1 (booted m)"
proof -
  note b = binit_ok [of "zero_bcache\<lparr>disk := \<lambda>k. fsimg m ! unat (snd k)\<rparr>"]
  show "fcur (booted m) = (\<lambda>k. fsimg m ! unat (snd k))" "fheld (booted m) = {}"
    using b by (simp_all add: booted_def fcur_def fheld_def zero_bcache_def)
  have "trans_ok demo_log" by (simp add: demo_log_def small_log_def trans_ok_def)
  then show "tx 1 (Suc 0) 1 (booted m)"
    using b by (simp add: booted_def tx_def log_room_def tlog_def zero_bcache_def) (simp add: demo_def demo_log_def small_log_def)
qed

theorem mkfs_builds_witness:
  "\<exists>m. mkfs_main (\<lambda>_. Some 1000) one_file [[105], [95, 97]] = Inr m \<and> unat (freeblock m) = 61 \<and> sb_size (sb_at (fsimg m ! 1)) = 1000"
  using mkfs_builds [of "\<lambda>_. Some 1000" "[105]" 1000 one_file "[[95, 97]]"] one_file_ok by (auto simp: cost_def)

theorem mkfs_readable_witness:
  "\<exists>m. mkfs_main (\<lambda>_. Some 1000) one_file [[105], [95, 97]] = Inr m \<and>
     read_by_name 1 [97] 10 (booted m) = Inr (Some (4, [1, 2, 3, 4]))"
proof -
  obtain m where m: "mkfs_main (\<lambda>_. Some 1000) one_file [[105], [95, 97]] = Inr m" "image_final m 3 (image_files one_file [[95, 97]])"
    using mkfs_main_ok [of "\<lambda>_. Some 1000" "[105]" 1000 one_file "[[95, 97]]"] mkfs_input_fits(1) [OF one_file_ok(1)] by auto
  have "sb_of 1 (booted m) = mkfs_sb" by (simp add: sb_of_def booted_def)
  moreover have "sb_at (fsimg m ! 1) = mkfs_sb" using m(2) by (simp add: image_final_def sb_at_sb_block)
  ultimately have mt: "mounted 1 m (booted m)" by (simp add: mounted_def booted_cache del: mkfs_layout)
  have i: "length (inodes (booted m)) = 50" "\<forall>ip < 50. i_ref (ino (booted m) ip) = 0 \<and> \<not> i_locked (ino (booted m) ip)"
    by (simp_all add: booted_def ino_def zero_dinode_def)
  have "read_by_name 1 (strip ([[95, 97]] ! 0)) 10 (booted m) =
    Inr (Some (int (length (take (unat (10 :: u32)) (contents one_file ([[95, 97]] ! 0)))), take (unat (10 :: u32)) (contents one_file ([[95, 97]] ! 0))))"
    by (rule mkfs_readable [of "\<lambda>_. Some 1000" "[105]" 1000 _ _ m _ 0 1, OF _ _ one_file_ok(1) m(1) booted_cache(3) mt i])
      (simp_all add: strip_def)
  then show ?thesis using m(1) one_file_ok(2) by (simp add: strip_def)
qed

end
